(* ===== verification/Prelude.thy ===== *)
theory Prelude
  imports Main "HOL-Library.Word" "HOL-Library.Sublist"
begin

text \<open>
  Shared vocabulary of the development.

  \<^item> \<open>outcome\<close> is what a Rust call does: it returns a value (\<open>Ok\<close>), returns an error
    (\<open>Err\<close>) or panics (\<open>Panic\<close>). The build profile modelled is the one with
    debug assertions and overflow checks: a failed \<^verbatim>\<open>debug_assert!\<close>, an arithmetic overflow,
    an out-of-range index or slice is \<open>Panic\<close>. An outcome other than \<open>Panic\<close> is the
    same in a release build.
  \<^item> \<open>u64\<close> is a 64-bit word with checked addition, subtraction and multiplication.
  \<^item> strings are lists of bytes (\<open>char\<close>), that is, the UTF-8 encoding of a Rust
    \<^verbatim>\<open>str\<close>; lengths and offsets are byte offsets, as in Rust.
  \<^item> the functions of \<^verbatim>\<open>core::str\<close> the sources call (\<open>split\<close>, \<open>join\<close>, \<open>find\<close>, \<open>rfind\<close>,
    \<open>trim\<close>, \<open>strip_prefix\<close>, \<open>parse::<u64>\<close>) and decimal printing.
\<close>

named_theorems outcome_simps \<open>rewriting of sequenced outcomes\<close>
named_theorems str_simps \<open>splitting, joining and searching strings\<close>

subsection \<open>Outcomes\<close>

datatype ('e, 'a) outcome = Ok 'a | Err 'e | Panic

primrec and_then :: "('e, 'a) outcome \<Rightarrow> ('a \<Rightarrow> ('e, 'b) outcome) \<Rightarrow> ('e, 'b) outcome" where
  "and_then (Ok x) f = f x"
| "and_then (Err e) f = Err e"
| "and_then Panic f = Panic"

definition guard :: "bool \<Rightarrow> ('e, 'a) outcome \<Rightarrow> ('e, 'a) outcome" where
  "guard b m = (if b then m else Panic)"

primrec is_Ok :: "('e, 'a) outcome \<Rightarrow> bool" where
  "is_Ok (Ok x) = True"
| "is_Ok (Err e) = False"
| "is_Ok Panic = False"

lemma and_then_Ok_iff [outcome_simps]:
  "and_then m f = Ok y \<longleftrightarrow> (\<exists>x. m = Ok x \<and> f x = Ok y)"
  by (cases m) auto

lemma and_then_Err_iff [outcome_simps]:
  "and_then m f = Err e \<longleftrightarrow> m = Err e \<or> (\<exists>x. m = Ok x \<and> f x = Err e)"
  by (cases m) auto

lemma and_then_Panic_iff [outcome_simps]:
  "and_then m f = Panic \<longleftrightarrow> m = Panic \<or> (\<exists>x. m = Ok x \<and> f x = Panic)"
  by (cases m) auto

lemma and_then_assoc: "and_then (and_then m f) g = and_then m (\<lambda>x. and_then (f x) g)"
  by (cases m) auto

lemma guard_simps [simp]:
  "guard True m = m"
  "guard False m = Panic"
  by (simp_all add: guard_def)

lemma guard_Ok_iff [outcome_simps]: "guard b m = Ok y \<longleftrightarrow> b \<and> m = Ok y"
  by (simp add: guard_def)

lemma guard_Panic_iff [outcome_simps]: "guard b m = Panic \<longleftrightarrow> \<not> b \<or> m = Panic"
  by (simp add: guard_def)

lemma is_Ok_iff: "is_Ok m \<longleftrightarrow> (\<exists>x. m = Ok x)"
  by (cases m) auto

subsection \<open>64-bit integers\<close>

type_synonym u64 = "64 word"

definition u64_max :: nat where
  "u64_max = 18446744073709551615"

definition u64_add :: "u64 \<Rightarrow> u64 \<Rightarrow> ('e, u64) outcome" where
  "u64_add a b = guard (unat a + unat b \<le> u64_max) (Ok (a + b))"

definition u64_sub :: "u64 \<Rightarrow> u64 \<Rightarrow> ('e, u64) outcome" where
  "u64_sub a b = guard (unat b \<le> unat a) (Ok (a - b))"

lemma u64_max_eq: "u64_max = 2 ^ 64 - 1"
  by (simp add: u64_max_def)

lemma unat_u64_le: "unat (a :: u64) \<le> u64_max"
proof -
  have "unat a < 2 ^ LENGTH(64)" by (rule unsigned_less)
  then show ?thesis by (simp add: u64_max_eq)
qed

lemma unat_of_nat_u64: "n \<le> u64_max \<Longrightarrow> unat (of_nat n :: u64) = n"
  by (simp add: unat_of_nat u64_max_eq)

lemma u64_add_Ok_iff:
  "u64_add a b = Ok c \<longleftrightarrow> unat a + unat b \<le> u64_max \<and> unat c = unat a + unat b"
proof (cases "unat a + unat b \<le> u64_max")
  case True
  then have "unat a + unat b < 2 ^ LENGTH(64)"
    by (simp add: u64_max_eq)
  then have eq: "unat (a + b) = unat a + unat b"
    by (subst (asm) unat_add_lem) simp
  from True show ?thesis
    by (auto simp: u64_add_def eq word_unat_eq_iff)
qed (simp add: u64_add_def)

lemma u64_sub_Ok_iff:
  "u64_sub a b = Ok c \<longleftrightarrow> unat b \<le> unat a \<and> unat c = unat a - unat b"
proof (cases "unat b \<le> unat a")
  case True
  then have "unat (a - b) = unat a - unat b"
    by (simp add: unat_sub word_le_nat_alt)
  with True show ?thesis
    by (auto simp: u64_sub_def word_unat_eq_iff)
qed (simp add: u64_sub_def)

lemma u64_add_Panic_iff: "u64_add a b = Panic \<longleftrightarrow> u64_max < unat a + unat b"
  by (auto simp: u64_add_def guard_def)

lemma u64_sub_Panic_iff: "u64_sub a b = Panic \<longleftrightarrow> unat a < unat b"
  by (auto simp: u64_sub_def guard_def)

subsection \<open>Prefixes, suffixes, split, join and find\<close>

definition starts_with :: "string \<Rightarrow> string \<Rightarrow> bool" where
  "starts_with s p = (take (length p) s = p)"

definition ends_with :: "string \<Rightarrow> char \<Rightarrow> bool" where
  "ends_with s c = (s \<noteq> [] \<and> last s = c)"

definition starts_char :: "string \<Rightarrow> char \<Rightarrow> bool" where
  "starts_char s c = (s \<noteq> [] \<and> hd s = c)"

definition strip_prefix :: "string \<Rightarrow> string \<Rightarrow> string option" where
  "strip_prefix s p = (if starts_with s p then Some (drop (length p) s) else None)"

fun split_on :: "char \<Rightarrow> string \<Rightarrow> string list" where
  "split_on c [] = [[]]"
| "split_on c (x # xs) =
     (if x = c then [] # split_on c xs
      else (x # hd (split_on c xs)) # tl (split_on c xs))"

fun join_with :: "string \<Rightarrow> string list \<Rightarrow> string" where
  "join_with sep [] = []"
| "join_with sep [x] = x"
| "join_with sep (x # y # zs) = x @ sep @ join_with sep (y # zs)"

text \<open>The part before the first occurrence of a separator and the part after it, and all pieces.\<close>

fun split_once :: "string \<Rightarrow> string \<Rightarrow> (string \<times> string) option" where
  "split_once sep s =
     (case strip_prefix s sep of
        Some rest \<Rightarrow> Some ([], rest)
      | None \<Rightarrow> (case s of [] \<Rightarrow> None | c # s' \<Rightarrow> map_option (\<lambda>(a, b). (c # a, b)) (split_once sep s')))"

declare split_once.simps [simp del]

lemma strip_prefix_Some: "strip_prefix s p = Some r \<longleftrightarrow> s = p @ r"
  by (auto simp: strip_prefix_def starts_with_def) (metis append_take_drop_id)

lemma split_once_Some: "split_once sep s = Some (a, b) \<Longrightarrow> s = a @ sep @ b"
proof (induction s arbitrary: a)
  case Nil
  then show ?case by (auto simp: split_once.simps [of sep "[]"] strip_prefix_Some split: option.splits)
next
  case (Cons c s)
  then show ?case by (auto simp: split_once.simps [of sep "c # s"] strip_prefix_Some split: option.splits)
qed

function split_str :: "string \<Rightarrow> string \<Rightarrow> string list" where
  "split_str sep s =
     (case split_once sep s of
        None \<Rightarrow> [s]
      | Some (a, b) \<Rightarrow> if sep = [] then [s] else a # split_str sep b)"
  by pat_completeness auto
termination
  by (relation "measure (\<lambda>(sep, s). length s)") (auto dest: split_once_Some)

declare split_str.simps [simp del]

text \<open>
  Splitting undoes joining, when the separator begins with a character that it has nowhere else at the end of
  a piece, and no piece contains it.
\<close>

definition contains_str :: "string \<Rightarrow> string \<Rightarrow> bool" where
  "contains_str s p = (\<exists>u v. s = u @ p @ v)"

lemma contains_skip:
  assumes "c \<notin> set l"
  shows "contains_str (l @ r) (c # s) \<longleftrightarrow> contains_str r (c # s)"
proof
  assume "contains_str (l @ r) (c # s)"
  then obtain u v where "l @ r = u @ (c # s) @ v" by (auto simp: contains_str_def)
  then obtain us where "l = u @ us \<and> us @ r = (c # s) @ v \<or> l @ us = u \<and> r = us @ (c # s) @ v"
    using append_eq_append_conv2 [of l r u "(c # s) @ v"] by metis
  then show "contains_str r (c # s)"
  proof
    assume "l = u @ us \<and> us @ r = (c # s) @ v"
    with assms have "us = []" by (cases us) auto
    with \<open>l = u @ us \<and> us @ r = (c # s) @ v\<close> have "r = [] @ (c # s) @ v" by simp
    then show ?thesis unfolding contains_str_def by blast
  qed (auto simp: contains_str_def)
next
  assume "contains_str r (c # s)"
  then show "contains_str (l @ r) (c # s)" unfolding contains_str_def by (metis append_assoc)
qed

lemma split_once_None: "\<not> contains_str s sep \<Longrightarrow> split_once sep s = None"
  by (cases "split_once sep s") (auto dest: split_once_Some simp: contains_str_def)

lemma split_once_append:
  assumes "\<not> contains_str a sep" "sep \<noteq> []" "a = [] \<or> last a \<notin> set sep"
  shows "split_once sep (a @ sep @ b) = Some (a, b)"
  using assms(1,3)
proof (induction a)
  case Nil
  have "strip_prefix (sep @ b) sep = Some b" by (simp add: strip_prefix_Some)
  then show ?case by (simp add: split_once.simps [of sep "sep @ b"])
next
  case (Cons c a)
  have last: "last (c # a) \<notin> set sep" using Cons.prems(2) by simp
  have "strip_prefix (c # a @ sep @ b) sep = None"
  proof (rule ccontr)
    assume "strip_prefix (c # a @ sep @ b) sep \<noteq> None"
    then obtain r where "(c # a) @ sep @ b = sep @ r" by (auto simp: strip_prefix_Some)
    then obtain us where "(c # a) = sep @ us \<or> sep = (c # a) @ us"
      using append_eq_append_conv2 [of "c # a" "sep @ b" sep r] by metis
    then show False
    proof
      assume "c # a = sep @ us"
      then have "c # a = [] @ sep @ us" by simp
      then show False using Cons.prems(1) unfolding contains_str_def by blast
    next
      assume s: "sep = (c # a) @ us"
      have "last (c # a) \<in> set (c # a)" by (rule last_in_set) simp
      then show False using last s by (metis Un_iff set_append)
    qed
  qed
  moreover have "\<not> contains_str a sep"
    using Cons.prems(1) unfolding contains_str_def by (metis append_Cons)
  moreover have "a = [] \<or> last a \<notin> set sep" using last by (cases a) simp_all
  ultimately show ?case using Cons.IH by (auto simp: split_once.simps [of sep "c # a @ sep @ b"])
qed

lemma split_once_first:
  assumes "c \<notin> set a"
  shows "split_once (c # sep) (a @ (c # sep) @ b) = Some (a, b)"
  using assms
proof (induction a)
  case Nil
  have "strip_prefix ((c # sep) @ b) (c # sep) = Some b" by (simp only: strip_prefix_Some)
  then show ?case by (simp add: split_once.simps [of "c # sep" "c # sep @ b"])
next
  case (Cons x a)
  then have "strip_prefix (x # a @ (c # sep) @ b) (c # sep) = None"
    by (cases "strip_prefix (x # a @ (c # sep) @ b) (c # sep)") (auto simp: strip_prefix_Some)
  with Cons show ?case by (simp add: split_once.simps [of "c # sep" "x # a @ c # sep @ b"])
qed

lemma split_str_append:
  assumes "\<not> contains_str a sep" "sep \<noteq> []" "a = [] \<or> last a \<notin> set sep"
  shows "split_str sep (a @ sep @ b) = a # split_str sep b"
  using split_once_append [OF assms, of b] assms(2) by (simp add: split_str.simps [of sep "a @ sep @ b"])

lemma split_str_no: "\<not> contains_str s sep \<Longrightarrow> split_str sep s = [s]"
  by (simp add: split_str.simps [of sep s] split_once_None)

fun find_char :: "char \<Rightarrow> string \<Rightarrow> nat option" where
  "find_char c [] = None"
| "find_char c (x # xs) = (if x = c then Some 0 else map_option Suc (find_char c xs))"

fun rfind_char :: "char \<Rightarrow> string \<Rightarrow> nat option" where
  "rfind_char c [] = None"
| "rfind_char c (x # xs) =
     (case rfind_char c xs of
        Some i \<Rightarrow> Some (Suc i)
      | None \<Rightarrow> (if x = c then Some 0 else None))"

fun trim_start_char :: "char \<Rightarrow> string \<Rightarrow> string" where
  "trim_start_char c [] = []"
| "trim_start_char c (x # xs) = (if x = c then trim_start_char c xs else x # xs)"

text \<open>
  \<open>str::trim\<close> removes leading and trailing code points with the Unicode property
  White_Space. Their UTF-8 encodings are listed; in well-formed UTF-8 a byte sequence of
  the list that stands at the start or at the end of a string is a whole code point.
\<close>

definition white_space :: "string list" where
  "white_space =
     [[CHR 0x09], [CHR 0x0A], [CHR 0x0B], [CHR 0x0C], [CHR 0x0D], [CHR 0x20],
      [CHR 0xC2, CHR 0x85], [CHR 0xC2, CHR 0xA0], [CHR 0xE1, CHR 0x9A, CHR 0x80],
      [CHR 0xE2, CHR 0x80, CHR 0x80], [CHR 0xE2, CHR 0x80, CHR 0x81],
      [CHR 0xE2, CHR 0x80, CHR 0x82], [CHR 0xE2, CHR 0x80, CHR 0x83],
      [CHR 0xE2, CHR 0x80, CHR 0x84], [CHR 0xE2, CHR 0x80, CHR 0x85],
      [CHR 0xE2, CHR 0x80, CHR 0x86], [CHR 0xE2, CHR 0x80, CHR 0x87],
      [CHR 0xE2, CHR 0x80, CHR 0x88], [CHR 0xE2, CHR 0x80, CHR 0x89],
      [CHR 0xE2, CHR 0x80, CHR 0x8A], [CHR 0xE2, CHR 0x80, CHR 0xA8],
      [CHR 0xE2, CHR 0x80, CHR 0xA9], [CHR 0xE2, CHR 0x80, CHR 0xAF],
      [CHR 0xE2, CHR 0x81, CHR 0x9F], [CHR 0xE3, CHR 0x80, CHR 0x80]]"

function trim_start_any :: "string list \<Rightarrow> string \<Rightarrow> string" where
  "trim_start_any ws s =
     (case find (\<lambda>w. w \<noteq> [] \<and> starts_with s w) ws of
        None \<Rightarrow> s
      | Some w \<Rightarrow> trim_start_any ws (drop (length w) s))"
  by pat_completeness auto
termination
proof (relation "measure (\<lambda>(ws, s). length s)")
  fix ws s w
  assume "find (\<lambda>w. w \<noteq> [] \<and> starts_with s w) ws = Some w"
  then have "w \<noteq> []" and "take (length w) s = w"
    by (auto simp: find_Some_iff starts_with_def)
  then have "0 < length w" and "0 < length s"
    by auto
  then show "((ws, drop (length w) s), (ws, s)) \<in> measure (\<lambda>(ws, s). length s)"
    by simp
qed simp

declare trim_start_any.simps [simp del]

definition trim_end_any :: "string list \<Rightarrow> string \<Rightarrow> string" where
  "trim_end_any ws s = rev (trim_start_any (map rev ws) (rev s))"

definition trim :: "string \<Rightarrow> string" where
  "trim s = trim_end_any white_space (trim_start_any white_space s)"

subsection \<open>Decimal integers\<close>

datatype int_error = IntEmpty | InvalidDigit | PosOverflow

text \<open>\<open>Display\<close> of \<^verbatim>\<open>std::num::ParseIntError\<close>.\<close>

fun int_error_display :: "int_error \<Rightarrow> string" where
  "int_error_display IntEmpty = ''cannot parse integer from empty string''"
| "int_error_display InvalidDigit = ''invalid digit found in string''"
| "int_error_display PosOverflow = ''number too large to fit in target type''"

definition digit_val :: "char \<Rightarrow> nat option" where
  "digit_val c =
     (let k = of_char c in if 48 \<le> k \<and> k \<le> (57::nat) then Some (k - 48) else None)"

definition digit_char :: "nat \<Rightarrow> char" where
  "digit_char d = char_of (48 + d)"

fun parse_loop :: "nat \<Rightarrow> string \<Rightarrow> int_error + nat" where
  "parse_loop r [] = Inr r"
| "parse_loop r (c # cs) =
     (case digit_val c of
        None \<Rightarrow> Inl InvalidDigit
      | Some d \<Rightarrow>
          if u64_max < r * 10 then Inl PosOverflow
          else if u64_max < r * 10 + d then Inl PosOverflow
          else parse_loop (r * 10 + d) cs)"

definition parse_u64 :: "string \<Rightarrow> int_error + u64" where
  "parse_u64 s =
     (if s = [] then Inl IntEmpty
      else if s = ''+'' \<or> s = ''-'' then Inl InvalidDigit
      else case parse_loop 0 (if hd s = CHR ''+'' then tl s else s) of
          Inl e \<Rightarrow> Inl e
        | Inr n \<Rightarrow> Inr (of_nat n))"

fun show_nat :: "nat \<Rightarrow> string" where
  "show_nat n =
     (if n < 10 then [digit_char n] else show_nat (n div 10) @ [digit_char (n mod 10)])"

declare show_nat.simps [simp del]

definition show_u64 :: "u64 \<Rightarrow> string" where
  "show_u64 w = show_nat (unat w)"

lemma of_char_digit_char: "d < 10 \<Longrightarrow> of_char (digit_char d) = (48 + d :: nat)"
  by (simp add: digit_char_def)

lemma digit_val_digit_char [simp]: "d < 10 \<Longrightarrow> digit_val (digit_char d) = Some d"
  by (simp add: digit_val_def of_char_digit_char)

lemma show_nat_neq_Nil [simp]: "show_nat n \<noteq> []"
  by (subst show_nat.simps) simp

lemma show_nat_digits: "c \<in> set (show_nat n) \<Longrightarrow> \<exists>d < 10. c = digit_char d"
proof (induction n rule: show_nat.induct)
  case (1 n)
  have last: "\<exists>d < 10. digit_char (n mod 10) = digit_char d"
    by (rule exI [of _ "n mod 10"]) simp
  from "1.prems" consider "n < 10" "c = digit_char n" | "\<not> n < 10" "c \<in> set (show_nat (n div 10))"
    | "c = digit_char (n mod 10)"
    by (auto simp: show_nat.simps [of n] split: if_splits)
  then show ?case using "1.IH" last by cases auto
qed

lemma show_nat_not_in:
  assumes "\<not> (48 \<le> (of_char c :: nat) \<and> (of_char c :: nat) \<le> 57)"
  shows "c \<notin> set (show_nat n)"
proof
  assume "c \<in> set (show_nat n)"
  then obtain d where "d < 10" "c = digit_char d"
    using show_nat_digits by blast
  with assms show False by (simp add: of_char_digit_char)
qed

lemma parse_loop_append:
  "parse_loop r (xs @ ys) =
     (case parse_loop r xs of Inl e \<Rightarrow> Inl e | Inr r' \<Rightarrow> parse_loop r' ys)"
  by (induction xs arbitrary: r) (auto split: option.splits)

lemma parse_loop_show_nat: "n \<le> u64_max \<Longrightarrow> parse_loop 0 (show_nat n) = Inr n"
proof (induction n rule: show_nat.induct)
  case (1 n)
  show ?case
  proof (cases "n < 10")
    case True
    with "1.prems" show ?thesis by (simp add: show_nat.simps [of n])
  next
    case False
    from "1.prems" have "n div 10 \<le> u64_max" by (rule order_trans [rotated]) simp
    with False "1.IH" have "parse_loop 0 (show_nat (n div 10)) = Inr (n div 10)" by simp
    moreover have "n div 10 * 10 + n mod 10 = n" by simp
    ultimately show ?thesis
      using False "1.prems" by (simp add: show_nat.simps [of n] parse_loop_append)
  qed
qed

lemma parse_show_nat:
  assumes "n \<le> u64_max"
  shows "parse_u64 (show_nat n) = Inr (of_nat n)"
proof -
  have "CHR ''+'' \<notin> set (show_nat n)" and minus: "CHR ''-'' \<notin> set (show_nat n)"
    by (rule show_nat_not_in, simp)+
  then have "hd (show_nat n) \<noteq> CHR ''+''"
    by (metis hd_in_set show_nat_neq_Nil)
  moreover have "show_nat n \<noteq> ''+''" and "show_nat n \<noteq> ''-''"
    using calculation minus by auto
  ultimately show ?thesis
    using parse_loop_show_nat [OF assms] by (simp add: parse_u64_def)
qed

lemma parse_show_u64 [simp]: "parse_u64 (show_u64 w) = Inr w"
  by (simp add: show_u64_def parse_show_nat unat_u64_le)

lemma show_u64_neq_Nil [simp]: "show_u64 w \<noteq> []"
  by (simp add: show_u64_def)

lemma show_u64_not_in:
  "\<not> (48 \<le> (of_char c :: nat) \<and> (of_char c :: nat) \<le> 57) \<Longrightarrow> c \<notin> set (show_u64 w)"
  unfolding show_u64_def by (rule show_nat_not_in)

subsection \<open>Facts on splitting, joining and searching\<close>

lemma split_on_neq_Nil [simp]: "split_on c s \<noteq> []"
  by (cases s) auto

lemma split_on_Cons_hd_tl: "split_on c s = hd (split_on c s) # tl (split_on c s)"
  by simp

lemma split_on_append [str_simps]: "split_on c (xs @ c # ys) = split_on c xs @ split_on c ys"
  by (induction xs) auto

lemma split_on_no [str_simps]: "c \<notin> set s \<Longrightarrow> split_on c s = [s]"
  by (induction s) auto

lemma split_on_elem: "x \<in> set (split_on c s) \<Longrightarrow> c \<notin> set x"
proof (induction s arbitrary: x)
  case (Cons y s)
  have "hd (split_on c s) \<in> set (split_on c s)" by simp
  moreover have "y \<in> set (split_on c s)" if "y \<in> set (tl (split_on c s))" for y
    using that by (rule list.set_sel(2) [rotated]) simp
  ultimately show ?case using Cons by (auto split: if_splits)
qed simp

lemma join_with_Cons: "xs \<noteq> [] \<Longrightarrow> join_with sep (x # xs) = x @ sep @ join_with sep xs"
  by (cases xs) auto

lemma join_with_snoc: "xs \<noteq> [] \<Longrightarrow> join_with sep (xs @ [x]) = join_with sep xs @ sep @ x"
proof (induction xs)
  case (Cons y xs)
  then show ?case by (cases "xs = []") (auto simp: join_with_Cons)
qed simp

lemma join_split: "join_with [c] (split_on c s) = s"
proof (induction s)
  case (Cons x s)
  show ?case
  proof (cases "x = c")
    case True
    with Cons show ?thesis by (simp add: join_with_Cons)
  next
    case False
    obtain y ys where ys: "split_on c s = y # ys" by (cases "split_on c s") auto
    from Cons ys have "join_with [c] (y # ys) = s" by simp
    with False ys show ?thesis by (cases ys) auto
  qed
qed simp

lemma split_join:
  assumes "xs \<noteq> []" and "\<forall>x \<in> set xs. c \<notin> set x"
  shows "split_on c (join_with [c] xs) = xs"
  using assms
proof (induction xs)
  case (Cons x xs)
  show ?case
  proof (cases "xs = []")
    case True
    with Cons.prems show ?thesis by (simp add: split_on_no)
  next
    case False
    with Cons have "split_on c (join_with [c] xs) = xs" by simp
    with False Cons.prems show ?thesis
      by (simp add: join_with_Cons split_on_append split_on_no)
  qed
qed simp

lemma find_char_None [str_simps]: "find_char c s = None \<longleftrightarrow> c \<notin> set s"
  by (induction s) auto

lemma find_char_Some:
  "find_char c s = Some i \<longleftrightarrow> i < length s \<and> s ! i = c \<and> c \<notin> set (take i s)"
proof (induction s arbitrary: i)
  case (Cons x s)
  then show ?case by (cases i) auto
qed simp

lemma rfind_char_None [str_simps]: "rfind_char c s = None \<longleftrightarrow> c \<notin> set s"
  by (induction s) (auto split: option.splits)

lemma rfind_char_Some:
  "rfind_char c s = Some i \<longleftrightarrow> i < length s \<and> s ! i = c \<and> c \<notin> set (drop (Suc i) s)"
proof (induction s arbitrary: i)
  case (Cons x s)
  show ?case
  proof (cases "rfind_char c s")
    case None
    then have "c \<notin> set s" by (simp add: rfind_char_None)
    with None show ?thesis by (cases i) auto
  next
    case (Some j)
    then have "c \<in> set s" using rfind_char_None [of c s] by auto
    with Some Cons.IH [of "i - 1"] show ?thesis by (cases i) simp_all
  qed
qed simp

lemma starts_with_append [simp]: "starts_with (p @ s) p"
  by (simp add: starts_with_def)

lemma starts_with_iff: "starts_with s p \<longleftrightarrow> (\<exists>r. s = p @ r)"
proof
  assume "starts_with s p"
  then have "s = p @ drop (length p) s"
    by (metis append_take_drop_id starts_with_def)
  then show "\<exists>r. s = p @ r" ..
qed auto

lemma strip_prefix_append [simp]: "strip_prefix (p @ s) p = Some s"
  by (simp add: strip_prefix_def)

lemma ends_with_snoc [simp]: "ends_with (s @ [d]) c \<longleftrightarrow> d = c"
  by (simp add: ends_with_def)

lemma ends_with_append: "t \<noteq> [] \<Longrightarrow> ends_with (s @ t) c = ends_with t c"
  by (simp add: ends_with_def)

lemma ends_with_Nil [simp]: "\<not> ends_with [] c"
  by (simp add: ends_with_def)

lemma ends_with_iff: "ends_with s c \<longleftrightarrow> (\<exists>r. s = r @ [c])"
  by (auto simp: ends_with_def) (metis append_butlast_last_id)

lemma starts_char_Cons [simp]: "starts_char (x # s) c \<longleftrightarrow> x = c"
  by (simp add: starts_char_def)

lemma starts_char_Nil [simp]: "\<not> starts_char [] c"
  by (simp add: starts_char_def)

lemma starts_char_iff: "starts_char s c \<longleftrightarrow> (\<exists>r. s = c # r)"
  by (cases s) auto

lemma trim_start_char_dropWhile: "trim_start_char c s = dropWhile ((=) c) s"
  by (induction s) auto

lemma trim_start_char_starts: "\<not> starts_char (trim_start_char c s) c"
  by (induction s) auto

lemma trim_start_char_id: "\<not> starts_char s c \<Longrightarrow> trim_start_char c s = s"
  by (cases s) auto

text \<open>
  Evaluation of concrete 64-bit arithmetic, printing and parsing by the simplifier (the
  bound \<open>u64_max\<close> is too large for evaluation in unary).
\<close>

lemma digit_char_eval:
  "digit_char 0 = CHR ''0''" "digit_char (Suc 0) = CHR ''1''" "digit_char 2 = CHR ''2''"
  "digit_char 3 = CHR ''3''" "digit_char 4 = CHR ''4''" "digit_char 5 = CHR ''5''"
  "digit_char 6 = CHR ''6''" "digit_char 7 = CHR ''7''" "digit_char 8 = CHR ''8''"
  "digit_char 9 = CHR ''9''"
  by code_simp+

lemmas num_eval = u64_add_def u64_sub_def u64_max_def show_u64_def show_nat.simps
  digit_char_eval parse_u64_def digit_val_def strip_prefix_def starts_with_def

end
