(* ===== verification/Errors.thy ===== *)
theory Errors
  imports Prelude
begin

text \<open>
  The error value every fallible operation returns (\<^verbatim>\<open>core/src/types/error.rs\<close>) and the two
  conversions between it and \<^verbatim>\<open>std::io::Error\<close> (\<^verbatim>\<open>core/src/raw/std_io_util.rs\<close>). The backtrace,
  a debugging aid with no effect on control flow, is left out. The \<open>source\<close>, an
  \<^verbatim>\<open>anyhow::Error\<close>, is kept as the text it displays.
\<close>

datatype error_kind =
    Unexpected | Unsupported | ConfigInvalid | NotFound | PermissionDenied | IsADirectory
  | NotADirectory | AlreadyExists | RateLimited | IsSameFile | ConditionNotMatch
  | RangeNotSatisfied

fun kind_into_static :: "error_kind \<Rightarrow> string" where
  "kind_into_static Unexpected = ''Unexpected''"
| "kind_into_static Unsupported = ''Unsupported''"
| "kind_into_static ConfigInvalid = ''ConfigInvalid''"
| "kind_into_static NotFound = ''NotFound''"
| "kind_into_static PermissionDenied = ''PermissionDenied''"
| "kind_into_static IsADirectory = ''IsADirectory''"
| "kind_into_static NotADirectory = ''NotADirectory''"
| "kind_into_static AlreadyExists = ''AlreadyExists''"
| "kind_into_static RateLimited = ''RateLimited''"
| "kind_into_static IsSameFile = ''IsSameFile''"
| "kind_into_static ConditionNotMatch = ''ConditionNotMatch''"
| "kind_into_static RangeNotSatisfied = ''RangeNotSatisfied''"

datatype error_status = Permanent | Temporary | Persistent

fun status_display :: "error_status \<Rightarrow> string" where
  "status_display Permanent = ''permanent''"
| "status_display Temporary = ''temporary''"
| "status_display Persistent = ''persistent''"

record error =
  err_kind :: error_kind
  err_message :: string
  err_status :: error_status
  err_operation :: string
  err_context :: "(string \<times> string) list"
  err_source :: "string option"

type_synonym 'a res = "(error, 'a) outcome"

definition new_error :: "error_kind \<Rightarrow> string \<Rightarrow> error" where
  "new_error k msg =
     \<lparr>err_kind = k, err_message = msg, err_status = Permanent, err_operation = '''',
      err_context = [], err_source = None\<rparr>"

definition with_operation :: "string \<Rightarrow> error \<Rightarrow> error" where
  "with_operation op e =
     (let e' = (if err_operation e \<noteq> ''''
                then e\<lparr>err_context := err_context e @ [(''called'', err_operation e)]\<rparr>
                else e)
      in e'\<lparr>err_operation := op\<rparr>)"

definition with_context :: "string \<Rightarrow> string \<Rightarrow> error \<Rightarrow> error" where
  "with_context k v e = e\<lparr>err_context := err_context e @ [(k, v)]\<rparr>"

definition set_source :: "string \<Rightarrow> error \<Rightarrow> error res" where
  "set_source src e = guard (err_source e = None) (Ok (e\<lparr>err_source := Some src\<rparr>))"

definition set_permanent :: "error \<Rightarrow> error" where
  "set_permanent e = e\<lparr>err_status := Permanent\<rparr>"

definition set_temporary :: "error \<Rightarrow> error" where
  "set_temporary e = e\<lparr>err_status := Temporary\<rparr>"

definition with_temporary :: "bool \<Rightarrow> error \<Rightarrow> error" where
  "with_temporary b e = (if b then e\<lparr>err_status := Temporary\<rparr> else e)"

definition set_persistent :: "error \<Rightarrow> error" where
  "set_persistent e = e\<lparr>err_status := Persistent\<rparr>"

definition is_temporary :: "error \<Rightarrow> bool" where
  "is_temporary e = (err_status e = Temporary)"

definition error_display :: "error \<Rightarrow> string" where
  "error_display e =
     kind_into_static (err_kind e) @ '' ('' @ status_display (err_status e) @ '') at ''
     @ err_operation e
     @ (if err_context e \<noteq> []
        then '', context: { ''
             @ join_with '', '' (map (\<lambda>(k, v). k @ '': '' @ v) (err_context e)) @ '' }''
        else [])
     @ (if err_message e \<noteq> [] then '' => '' @ err_message e else [])
     @ (case err_source e of Some s \<Rightarrow> '', source: '' @ s | None \<Rightarrow> [])"

subsection \<open>Conversions from and to \<^verbatim>\<open>std::io::Error\<close>\<close>

text \<open>
  The kinds of \<^verbatim>\<open>std::io::ErrorKind\<close> the sources name; \<open>IoUnlisted\<close> stands for the rest of
  that non-exhaustive enumeration.
\<close>

datatype io_kind =
    IoNotFound | IoPermissionDenied | IoAlreadyExists | IoUnsupported | IoInterrupted
  | IoUnexpectedEof | IoTimedOut | IoWouldBlock | IoOther | IoInvalidInput | IoUnlisted nat

record io_error =
  ioe_kind :: io_kind
  ioe_kind_text :: string
  ioe_text :: string

definition into_io_kind :: "error \<Rightarrow> io_kind" where
  "into_io_kind e =
     (case err_kind e of
        NotFound \<Rightarrow> IoNotFound
      | PermissionDenied \<Rightarrow> IoPermissionDenied
      | _ \<Rightarrow> IoOther)"

definition format_std_io_kind :: "error \<Rightarrow> io_kind" where
  "format_std_io_kind e =
     (case err_kind e of
        NotFound \<Rightarrow> IoNotFound
      | PermissionDenied \<Rightarrow> IoPermissionDenied
      | _ \<Rightarrow> IoInterrupted)"

definition new_std_io_error :: "io_error \<Rightarrow> error res" where
  "new_std_io_error ioe =
     (let (k, retryable) =
        (case ioe_kind ioe of
           IoNotFound \<Rightarrow> (NotFound, False)
         | IoPermissionDenied \<Rightarrow> (PermissionDenied, False)
         | IoAlreadyExists \<Rightarrow> (AlreadyExists, False)
         | IoUnsupported \<Rightarrow> (Unsupported, False)
         | _ \<Rightarrow> (Unexpected, True))
      in and_then (set_source (ioe_text ioe) (new_error k (ioe_kind_text ioe)))
           (\<lambda>e. Ok (if retryable then set_temporary e else e)))"

subsection \<open>Facts\<close>

lemmas error_defs = new_error_def with_operation_def with_context_def set_source_def
  set_permanent_def set_temporary_def with_temporary_def set_persistent_def is_temporary_def

lemma kind_into_static_inj: "kind_into_static a = kind_into_static b \<Longrightarrow> a = b"
  by (cases a; cases b; simp)

lemma err_kind_with [simp]:
  "err_kind (new_error k m) = k"
  "err_kind (with_operation op e) = err_kind e"
  "err_kind (with_context key v e) = err_kind e"
  "err_kind (set_temporary e) = err_kind e"
  by (simp_all add: error_defs)

lemma is_temporary_with [simp]:
  "\<not> is_temporary (new_error k m)"
  "is_temporary (with_operation op e) = is_temporary e"
  "is_temporary (with_context key v e) = is_temporary e"
  "is_temporary (set_temporary e)"
  "\<not> is_temporary (set_persistent e)"
  "\<not> is_temporary (set_permanent e)"
  by (simp_all add: error_defs)

text \<open>The operations an error went through, oldest first.\<close>

definition op_trail :: "error \<Rightarrow> string list" where
  "op_trail e =
     map snd (filter (\<lambda>(k, v). k = ''called'') (err_context e))
     @ (if err_operation e = '''' then [] else [err_operation e])"

lemma op_trail_with_operation:
  "op \<noteq> '''' \<Longrightarrow> op_trail (with_operation op e) = op_trail e @ [op]"
  by (simp add: op_trail_def with_operation_def)

lemma op_trail_with_context:
  "k \<noteq> ''called'' \<Longrightarrow> err_operation e = '''' \<Longrightarrow> op_trail (with_context k v e) = op_trail e"
  by (simp add: op_trail_def with_context_def)

lemma op_trail_fold:
  "\<forall>op \<in> set ops. op \<noteq> '''' \<Longrightarrow> op_trail (fold with_operation ops e) = op_trail e @ ops"
  by (induction ops arbitrary: e) (auto simp: op_trail_with_operation)

end
