(* ===== verification/Paths.thy ===== *)
theory Paths
  imports Errors
begin

text \<open>
  Path handling: \<^verbatim>\<open>core/src/raw/path.rs\<close> and \<^verbatim>\<open>core/src/types/mode.rs\<close>. A path that ends with
  \<open>/\<close> names a directory. \<open>normalize_path\<close> and \<open>normalize_root\<close> bring user input
  into the form the other functions require by debug assertions; the lemmas show that
  the form is reached and that, from it, no function panics and relative and absolute
  paths convert back and forth.
\<close>

datatype entry_mode = FILE | DIR | Unknown

definition mode_is_file :: "entry_mode \<Rightarrow> bool" where
  "mode_is_file m = (m = FILE)"

definition mode_is_dir :: "entry_mode \<Rightarrow> bool" where
  "mode_is_dir m = (m = DIR)"

definition mode_from_path :: "string \<Rightarrow> entry_mode" where
  "mode_from_path path = (if ends_with path CHR ''/'' then DIR else FILE)"

definition slash :: string where
  "slash = ''/''"

definition build_abs_path :: "string \<Rightarrow> string \<Rightarrow> string res" where
  "build_abs_path root path =
     guard (starts_char root CHR ''/'') (guard (ends_with root CHR ''/'')
       (let p = drop 1 root
        in if path = slash then Ok p
           else guard (\<not> starts_char path CHR ''/'') (Ok (p @ path))))"

definition build_rooted_abs_path :: "string \<Rightarrow> string \<Rightarrow> string res" where
  "build_rooted_abs_path root path =
     guard (starts_char root CHR ''/'') (guard (ends_with root CHR ''/'')
       (if path = slash then Ok root
        else guard (\<not> starts_char path CHR ''/'') (Ok (root @ path))))"

text \<open>
  \<open>root[1..]\<close> panics on the empty string and so does \<open>root.len() - 1\<close>; both stand in
  the second branch.
\<close>

definition build_rel_path :: "string \<Rightarrow> string \<Rightarrow> string res" where
  "build_rel_path root path =
     guard (root \<noteq> path)
       (if starts_char path CHR ''/''
        then guard (starts_with path root) (Ok (drop (length root) path))
        else guard (root \<noteq> [] \<and> starts_with path (drop 1 root))
               (Ok (drop (length root - 1) path)))"

definition normalize_path :: "string \<Rightarrow> string" where
  "normalize_path path =
     (let path = trim_start_char CHR ''/'' (trim path)
      in if path = [] then slash
         else let has_trailing = ends_with path CHR ''/'';
                  p = join_with slash (filter (\<lambda>v. v \<noteq> []) (split_on CHR ''/'' path))
              in if has_trailing then p @ slash else p)"

definition normalize_root :: "string \<Rightarrow> string" where
  "normalize_root v =
     (let v = join_with slash (filter (\<lambda>v. v \<noteq> []) (split_on CHR ''/'' v));
          v = (if \<not> starts_char v CHR ''/'' then slash @ v else v)
      in if \<not> ends_with v CHR ''/'' then v @ slash else v)"

definition get_basename :: "string \<Rightarrow> string" where
  "get_basename path =
     (if path = slash then slash
      else if \<not> ends_with path CHR ''/'' then last (split_on CHR ''/'' path)
      else case map_option Suc (rfind_char CHR ''/'' (take (length path - 1) path)) of
          Some v \<Rightarrow> drop v path
        | None \<Rightarrow> path)"

definition get_parent :: "string \<Rightarrow> string" where
  "get_parent path =
     (if path = slash then slash
      else if \<not> ends_with path CHR ''/'' then
        (case rfind_char CHR ''/'' path of
           Some v \<Rightarrow> take (v + 1) path
         | None \<Rightarrow> slash)
      else case map_option Suc (rfind_char CHR ''/'' (take (length path - 1) path)) of
          Some v \<Rightarrow> take v path
        | None \<Rightarrow> slash)"

definition validate_path :: "string \<Rightarrow> entry_mode \<Rightarrow> bool res" where
  "validate_path path mode =
     guard (path \<noteq> [])
       (case mode of
          FILE \<Rightarrow> Ok (\<not> ends_with path CHR ''/'')
        | DIR \<Rightarrow> Ok (ends_with path CHR ''/'')
        | Unknown \<Rightarrow> Ok False)"

subsection \<open>The normal forms\<close>

text \<open>
  A list of segments: non-empty strings without \<open>/\<close>. A normalized path is \<open>/\<close>, or
  segments joined by \<open>/\<close> with or without a trailing \<open>/\<close>; a normalized root is \<open>/\<close> or
  segments between slashes.
\<close>

definition segments :: "string list \<Rightarrow> bool" where
  "segments xs = list_all (\<lambda>x. x \<noteq> [] \<and> CHR ''/'' \<notin> set x) xs"

definition path_of :: "string list \<Rightarrow> bool \<Rightarrow> string" where
  "path_of xs dir = join_with slash xs @ (if dir then slash else [])"

definition normalized_path :: "string \<Rightarrow> bool" where
  "normalized_path p =
     (p = slash \<or> (\<exists>xs dir. xs \<noteq> [] \<and> segments xs \<and> p = path_of xs dir))"

definition normalized_root :: "string \<Rightarrow> bool" where
  "normalized_root r =
     (r = slash \<or> (\<exists>xs. xs \<noteq> [] \<and> segments xs \<and> r = slash @ path_of xs True))"

lemma segments_simps [simp]:
  "segments []"
  "segments (x # xs) \<longleftrightarrow> x \<noteq> [] \<and> CHR ''/'' \<notin> set x \<and> segments xs"
  by (simp_all add: segments_def)

lemma segments_append [simp]: "segments (xs @ ys) \<longleftrightarrow> segments xs \<and> segments ys"
  by (simp add: segments_def)

lemma segments_filter_split: "segments (filter (\<lambda>v. v \<noteq> []) (split_on CHR ''/'' s))"
  by (auto simp: segments_def list_all_iff dest: split_on_elem)

lemma starts_join_segments:
  "segments xs \<Longrightarrow> \<not> starts_char (join_with slash xs) CHR ''/''"
proof (cases xs)
  case (Cons x ys)
  assume "segments xs"
  with Cons have "x \<noteq> []" and "CHR ''/'' \<notin> set x" by simp_all
  then have "hd x \<noteq> CHR ''/''" by (metis hd_in_set)
  with Cons \<open>x \<noteq> []\<close> show ?thesis
    by (cases ys) (auto simp: starts_char_def)
qed simp

lemma ends_join_segments:
  "segments xs \<Longrightarrow> \<not> ends_with (join_with slash xs) CHR ''/''"
proof (cases xs rule: rev_cases)
  case (snoc ys y)
  assume "segments xs"
  with snoc have "y \<noteq> []" and "CHR ''/'' \<notin> set y" by simp_all
  then have "last y \<noteq> CHR ''/''" by (metis last_in_set)
  with snoc \<open>y \<noteq> []\<close> show ?thesis
    by (cases "ys = []") (auto simp: ends_with_def join_with_snoc)
qed simp

lemma join_segments_Nil [simp]:
  "segments xs \<Longrightarrow> join_with slash xs = [] \<longleftrightarrow> xs = []"
proof (cases xs)
  case (Cons x ys)
  then show "segments xs \<Longrightarrow> ?thesis" by (cases ys) auto
qed simp

lemma split_join_segments:
  "xs \<noteq> [] \<Longrightarrow> segments xs \<Longrightarrow> split_on CHR ''/'' (join_with slash xs) = xs"
  by (auto simp: slash_def segments_def list_all_iff intro!: split_join)

lemma filter_segments: "segments xs \<Longrightarrow> filter (\<lambda>v. v \<noteq> []) xs = xs"
  by (auto simp: segments_def list_all_iff intro!: filter_True)

lemma split_path_of:
  assumes "xs \<noteq> []" "segments xs"
  shows "filter (\<lambda>v. v \<noteq> []) (split_on CHR ''/'' (path_of xs dir)) = xs"
proof -
  have "split_on CHR ''/'' (join_with slash xs @ slash) = xs @ [[]]"
    using assms split_on_append [of "CHR ''/''" "join_with slash xs" "[]"]
    by (simp add: split_join_segments) (simp add: slash_def)
  with assms show ?thesis
    by (simp add: path_of_def split_join_segments filter_segments)
qed

lemma path_of_starts: "xs \<noteq> [] \<Longrightarrow> segments xs \<Longrightarrow> \<not> starts_char (path_of xs dir) CHR ''/''"
  using starts_join_segments [of xs] by (auto simp: path_of_def starts_char_def)

lemma path_of_neq_Nil [simp]: "xs \<noteq> [] \<Longrightarrow> segments xs \<Longrightarrow> path_of xs dir \<noteq> []"
  by (simp add: path_of_def)

lemma path_of_ends [simp]:
  "xs \<noteq> [] \<Longrightarrow> segments xs \<Longrightarrow> ends_with (path_of xs dir) CHR ''/'' = dir"
  using ends_join_segments [of xs] by (auto simp: path_of_def slash_def)

lemma path_of_neq_slash [simp]:
  "xs \<noteq> [] \<Longrightarrow> segments xs \<Longrightarrow> path_of xs dir \<noteq> slash"
  using path_of_starts [of xs dir] by (auto simp: slash_def)

lemma no_leading_slash_segment:
  assumes "s \<noteq> []" "\<not> starts_char s CHR ''/''"
  shows "filter (\<lambda>v. v \<noteq> []) (split_on CHR ''/'' s) \<noteq> []"
proof -
  obtain x t where s: "s = x # t" "x \<noteq> CHR ''/''"
    using assms by (cases s) auto
  then have "hd (split_on CHR ''/'' s) \<noteq> []" by simp
  moreover have "hd (split_on CHR ''/'' s) \<in> set (split_on CHR ''/'' s)" by simp
  ultimately show ?thesis unfolding filter_empty_conv by blast
qed

lemma normalize_path_cases:
  obtains "normalize_path p = slash"
  | xs dir where "xs \<noteq> []" "segments xs" "normalize_path p = path_of xs dir"
proof -
  define q where "q = trim_start_char CHR ''/'' (trim p)"
  define xs where "xs = filter (\<lambda>v. v \<noteq> []) (split_on CHR ''/'' q)"
  show ?thesis
  proof (cases "q = []")
    case True
    then show ?thesis
      by (intro that(1)) (simp add: normalize_path_def q_def [symmetric])
  next
    case False
    have "xs \<noteq> []"
      using False no_leading_slash_segment [of q] trim_start_char_starts [of "CHR ''/''" "trim p"]
      by (simp add: xs_def q_def)
    moreover have "segments xs" by (simp add: xs_def segments_filter_split)
    moreover have "normalize_path p = path_of xs (ends_with q CHR ''/'')"
      using False by (simp add: normalize_path_def q_def [symmetric] xs_def path_of_def)
    ultimately show ?thesis by (rule that(2))
  qed
qed

lemma normalize_root_eq:
  "normalize_root v =
     (let xs = filter (\<lambda>v. v \<noteq> []) (split_on CHR ''/'' v)
      in if xs = [] then slash else slash @ path_of xs True)"
proof -
  define xs where "xs = filter (\<lambda>v. v \<noteq> []) (split_on CHR ''/'' v)"
  have seg: "segments xs" by (simp add: xs_def segments_filter_split)
  show ?thesis
  proof (cases "xs = []")
    case True
    then show ?thesis
      by (simp add: normalize_root_def xs_def [symmetric] slash_def ends_with_def)
  next
    case False
    then have "\<not> ends_with (slash @ join_with slash xs) CHR ''/''"
      using seg ends_join_segments [of xs] by (simp add: ends_with_append)
    with False show ?thesis
      using seg starts_join_segments [of xs]
      by (simp add: normalize_root_def xs_def [symmetric] path_of_def)
  qed
qed

lemma normalized_root_normalize: "normalized_root (normalize_root v)"
  by (auto simp: normalize_root_eq normalized_root_def Let_def intro: segments_filter_split)

lemma normalized_root_slashes:
  assumes "normalized_root r"
  shows "starts_char r CHR ''/''" "ends_with r CHR ''/''"
  using assms by (auto simp: normalized_root_def slash_def path_of_def ends_with_def)

lemma normalize_root_id: "normalized_root r \<Longrightarrow> normalize_root r = r"
proof (elim normalized_root_def [THEN iffD1, THEN disjE] exE conjE)
  assume "r = slash"
  then show ?thesis by (simp add: normalize_root_eq slash_def)
next
  fix xs assume xs: "xs \<noteq> []" "segments xs" "r = slash @ path_of xs True"
  then have "filter (\<lambda>v. v \<noteq> []) (split_on CHR ''/'' r) = xs"
    using split_path_of [of xs True] by (simp add: slash_def)
  with xs show ?thesis by (simp add: normalize_root_eq Let_def)
qed

lemma normalized_path_no_leading:
  "normalized_path p \<Longrightarrow> p \<noteq> slash \<Longrightarrow> \<not> starts_char p CHR ''/''"
  by (auto simp: normalized_path_def path_of_starts)

lemma normalized_path_normalize: "normalized_path (normalize_path p)"
  by (rule normalize_path_cases [of p]) (auto simp: normalized_path_def)

lemma split_double_slash:
  "split_on CHR ''/'' (a @ ''//'' @ b) = split_on CHR ''/'' a @ [] # split_on CHR ''/'' b"
  using split_on_append [of "CHR ''/''" a "CHR ''/'' # b"] by simp

lemma path_of_split:
  assumes "xs \<noteq> []" "segments xs"
  shows "split_on CHR ''/'' (path_of xs dir) = xs @ (if dir then [[]] else [])"
proof -
  have "split_on CHR ''/'' (join_with slash xs @ slash) = xs @ [[]]"
    using assms split_on_append [of "CHR ''/''" "join_with slash xs" "[]"]
    by (simp add: split_join_segments) (simp add: slash_def)
  with assms show ?thesis by (simp add: path_of_def split_join_segments)
qed

lemma Nil_not_segment: "segments xs \<Longrightarrow> [] \<notin> set xs"
  by (auto simp: segments_def list_all_iff)

lemma path_of_no_double_slash:
  assumes "xs \<noteq> []" "segments xs"
  shows "path_of xs dir \<noteq> a @ ''//'' @ b"
proof
  assume "path_of xs dir = a @ ''//'' @ b"
  then have eq: "xs @ (if dir then [[]] else []) = split_on CHR ''/'' a @ [] # split_on CHR ''/'' b"
    using path_of_split [OF assms, of dir] split_double_slash [of a b] by simp
  obtain zs z where z: "split_on CHR ''/'' b = zs @ [z]"
    by (cases "split_on CHR ''/'' b" rule: rev_cases) auto
  from eq z have "[] \<in> set xs"
    by (cases dir) (auto simp: append_eq_append_conv2 append_eq_Cons_conv)
  with assms show False by (simp add: Nil_not_segment)
qed

lemma normalized_path_no_double_slash: "normalized_path p \<Longrightarrow> p \<noteq> a @ ''//'' @ b"
proof (cases "p = slash")
  case True
  then have "length p \<noteq> length (a @ ''//'' @ b)" by (simp add: slash_def)
  then show ?thesis by auto
next
  case False
  assume "normalized_path p"
  with False obtain xs dir where "xs \<noteq> []" "segments xs" "p = path_of xs dir"
    by (auto simp: normalized_path_def)
  then show ?thesis using path_of_no_double_slash [of xs dir a b] by simp
qed

lemma path_of_snoc:
  "path_of (xs @ [x]) dir = (if xs = [] then [] else path_of xs True) @ x @ (if dir then slash else [])"
  by (auto simp: path_of_def join_with_snoc)

lemma path_of_single [simp]: "path_of [x] dir = x @ (if dir then slash else [])"
  by (simp add: path_of_def)

lemma rfind_char_snoc_segment:
  "c \<notin> set x \<Longrightarrow> rfind_char c (s @ c # x) = Some (length s)"
  by (auto simp: rfind_char_Some nth_append)

lemma take_path_of_dir:
  "take (length (path_of ys True) - Suc 0) (path_of ys True) = path_of ys False"
  by (simp add: path_of_def slash_def)

lemma length_path_of_dir: "length (path_of xs True) = Suc (length (join_with slash xs))"
  by (simp add: path_of_def slash_def)

lemma rfind_path_of_snoc:
  assumes "segments (xs @ [x])"
  shows "rfind_char CHR ''/'' (path_of (xs @ [x]) False) =
    (if xs = [] then None else Some (length (join_with slash xs)))"
proof (cases "xs = []")
  case True
  with assms show ?thesis by (simp add: path_of_def rfind_char_None)
next
  case False
  then have eq: "path_of (xs @ [x]) False = join_with slash xs @ CHR ''/'' # x"
    by (simp add: path_of_def join_with_snoc) (simp add: slash_def)
  have "CHR ''/'' \<notin> set x" using assms by simp
  then show ?thesis unfolding eq using False by (simp add: rfind_char_snoc_segment)
qed

lemma get_parent_unfold:
  "segments ys \<Longrightarrow> ys \<noteq> [] \<Longrightarrow> get_parent (path_of ys dir) =
     (case rfind_char CHR ''/'' (path_of ys False) of
        None \<Rightarrow> slash
      | Some v \<Rightarrow> take (Suc v) (path_of ys dir))"
  by (cases dir) (simp_all add: get_parent_def take_path_of_dir split: option.split)

lemma get_basename_unfold:
  "segments ys \<Longrightarrow> ys \<noteq> [] \<Longrightarrow> get_basename (path_of ys dir) =
     (if dir then
        case rfind_char CHR ''/'' (path_of ys False) of
          None \<Rightarrow> path_of ys dir
        | Some v \<Rightarrow> drop (Suc v) (path_of ys dir)
      else last ys)"
  by (cases dir) (simp_all add: get_basename_def take_path_of_dir path_of_split split: option.split)

lemma get_parent_path_of:
  "segments (xs @ [x]) \<Longrightarrow>
     get_parent (path_of (xs @ [x]) dir) = (if xs = [] then slash else path_of xs True)"
  using get_parent_unfold [of "xs @ [x]" dir] rfind_path_of_snoc [of xs x]
  by (cases "xs = []") (simp_all add: path_of_snoc flip: length_path_of_dir)

lemma get_basename_path_of:
  "segments (xs @ [x]) \<Longrightarrow>
     get_basename (path_of (xs @ [x]) dir) = x @ (if dir then slash else [])"
  using get_basename_unfold [of "xs @ [x]" dir] rfind_path_of_snoc [of xs x]
  by (cases "xs = []") (simp_all add: path_of_snoc flip: length_path_of_dir)

lemma normalized_path_snocE:
  assumes "normalized_path p" "p \<noteq> slash"
  obtains xs x dir where "segments (xs @ [x])" "p = path_of (xs @ [x]) dir"
proof -
  obtain ys dir where ys: "ys \<noteq> []" "segments ys" "p = path_of ys dir"
    using assms by (auto simp: normalized_path_def)
  moreover obtain xs x where "ys = xs @ [x]"
    using ys(1) by (cases ys rule: rev_cases) auto
  ultimately show ?thesis using that by blast
qed

lemma normalized_path_path_of: "segments xs \<Longrightarrow> xs \<noteq> [] \<Longrightarrow> normalized_path (path_of xs dir)"
  by (auto simp: normalized_path_def)

lemma build_abs_path_Ok:
  assumes "normalized_root r" "normalized_path p" "p \<noteq> slash"
  shows "build_abs_path r p = Ok (drop 1 r @ p)"
  using assms normalized_path_no_leading normalized_root_slashes
  by (simp add: build_abs_path_def)

lemma build_abs_path_root:
  "normalized_root r \<Longrightarrow> build_abs_path r slash = Ok (drop 1 r)"
  using normalized_root_slashes by (simp add: build_abs_path_def)

lemma abs_not_leading:
  assumes "normalized_root r" "normalized_path p" "p \<noteq> slash"
  shows "\<not> starts_char (drop 1 r @ p) CHR ''/''"
proof (cases "r = slash")
  case True
  with assms show ?thesis by (simp add: normalized_path_no_leading slash_def)
next
  case False
  with assms obtain xs where xs: "xs \<noteq> []" "segments xs" "r = slash @ path_of xs True"
    by (auto simp: normalized_root_def)
  then have "\<not> starts_char (path_of xs True) CHR ''/''" "path_of xs True \<noteq> []"
    by (simp_all add: path_of_starts)
  with xs show ?thesis by (auto simp: slash_def starts_char_def)
qed

lemma build_rel_path_abs:
  assumes "normalized_root r" "normalized_path p" "p \<noteq> slash"
  shows "build_rel_path r (drop 1 r @ p) = Ok p"
proof -
  have "starts_char r CHR ''/''" using assms(1) by (rule normalized_root_slashes)
  moreover have "\<not> starts_char (drop 1 r @ p) CHR ''/''" using assms by (rule abs_not_leading)
  ultimately have "r \<noteq> drop 1 r @ p" and "r \<noteq> []" by auto
  with \<open>\<not> starts_char (drop 1 r @ p) CHR ''/''\<close> show ?thesis
    by (simp add: build_rel_path_def)
qed

lemma build_rel_path_rooted:
  assumes "normalized_root r" "p \<noteq> []"
  shows "build_rel_path r (r @ p) = Ok p"
  using assms normalized_root_slashes(1) [OF assms(1)]
  by (auto simp: build_rel_path_def starts_char_iff)

subsection \<open>Properties\<close>

text \<open>
  Normalization of paths: whatever the user passes, \<open>normalize_path\<close> returns \<open>/\<close> or
  non-empty segments joined by single slashes, with a trailing slash or without; so the
  result is never empty, has no leading slash unless it is \<open>/\<close>, and has no \<open>//\<close>.
\<close>

theorem normalize_path_normal:
  "normalized_path (normalize_path p)
   \<and> normalize_path p \<noteq> []
   \<and> (starts_char (normalize_path p) CHR ''/'' \<longleftrightarrow> normalize_path p = slash)
   \<and> (\<nexists>a b. normalize_path p = a @ ''//'' @ b)"
proof -
  have n: "normalized_path (normalize_path p)" by (rule normalized_path_normalize)
  moreover have "normalize_path p \<noteq> []"
    using n by (auto simp: normalized_path_def slash_def)
  moreover have "starts_char (normalize_path p) CHR ''/'' \<longleftrightarrow> normalize_path p = slash"
    using n normalized_path_no_leading by (auto simp: starts_char_def slash_def)
  moreover have "\<nexists>a b. normalize_path p = a @ ''//'' @ b"
    using n normalized_path_no_double_slash by blast
  ultimately show ?thesis by simp
qed

text \<open>
  Normalization of roots: \<open>normalize_root\<close> returns a root that starts and ends with
  \<open>/\<close> and has no empty segment, and normalizing a root twice changes nothing.
\<close>

theorem normalize_root_normal:
  "normalized_root (normalize_root v)
   \<and> starts_char (normalize_root v) CHR ''/'' \<and> ends_with (normalize_root v) CHR ''/''
   \<and> normalize_root (normalize_root v) = normalize_root v"
  using normalized_root_normalize [of v] normalized_root_slashes normalize_root_id by blast

text \<open>
  C28. Absolute and relative paths: for a normalized root and path other than \<open>/\<close>,
  \<open>build_abs_path\<close> and \<open>build_rooted_abs_path\<close> meet their debug assertions, differ by
  the leading slash only, and \<open>build_rel_path\<close> recovers the path from either of them.
\<close>

theorem abs_rel_roundtrip:
  assumes "normalize_path p \<noteq> slash"
  shows "\<exists>a. build_abs_path (normalize_root r) (normalize_path p) = Ok a
     \<and> build_rooted_abs_path (normalize_root r) (normalize_path p) = Ok (CHR ''/'' # a)
     \<and> build_rel_path (normalize_root r) a = Ok (normalize_path p)
     \<and> build_rel_path (normalize_root r) (CHR ''/'' # a) = Ok (normalize_path p)"
proof -
  define R where "R = normalize_root r"
  define P where "P = normalize_path p"
  have R: "normalized_root R" and P: "normalized_path P" "P \<noteq> slash"
    using assms by (simp_all add: R_def P_def normalized_root_normalize normalized_path_normalize)
  have start: "starts_char R CHR ''/''" and "ends_with R CHR ''/''"
    using R by (rule normalized_root_slashes)+
  then have rooted: "build_rooted_abs_path R P = Ok (CHR ''/'' # drop 1 R @ P)"
    using P normalized_path_no_leading
    by (auto simp: build_rooted_abs_path_def starts_char_iff)
  have "P \<noteq> []" using P by (auto simp: normalized_path_def)
  then have "build_rel_path R (CHR ''/'' # drop 1 R @ P) = Ok P"
    using build_rel_path_rooted [OF R] start by (auto simp: starts_char_iff)
  then show ?thesis
    using build_abs_path_Ok [OF R P] build_rel_path_abs [OF R P] rooted
    by (simp add: R_def P_def)
qed

theorem abs_rel_roundtrip_witness:
  "normalize_path ''a//b'' \<noteq> slash \<and>
   build_abs_path (normalize_root ''x'') (normalize_path ''a//b'') = Ok ''x/a/b'' \<and>
   build_rel_path (normalize_root ''x'') ''x/a/b'' = Ok ''a/b''"
proof -
  have n: "normalize_path ''a//b'' \<noteq> slash" "normalize_path ''a//b'' = ''a/b''"
    "build_abs_path (normalize_root ''x'') (normalize_path ''a//b'') = Ok ''x/a/b''"
    by code_simp+
  with abs_rel_roundtrip [OF n(1), of "''x''"] show ?thesis by simp
qed

text \<open>
  Parents and base names: a normalized path other than \<open>/\<close> is its parent directory
  followed by its base name (the parent of a top-level path is \<open>/\<close>, which is not written
  in front of it); the parent is a normalized directory path, and the base name holds no
  \<open>/\<close> before its last byte.
\<close>

theorem parent_basename:
  assumes "normalized_path p" and "p \<noteq> slash"
  shows "p = (if get_parent p = slash then [] else get_parent p) @ get_basename p
    \<and> normalized_path (get_parent p) \<and> ends_with (get_parent p) CHR ''/''
    \<and> get_basename p \<noteq> [] \<and> CHR ''/'' \<notin> set (butlast (get_basename p))
    \<and> ends_with (get_basename p) CHR ''/'' = ends_with p CHR ''/''"
proof -
  obtain xs x dir where p: "segments (xs @ [x])" "p = path_of (xs @ [x]) dir"
    using assms by (rule normalized_path_snocE)
  then have x: "x \<noteq> []" "CHR ''/'' \<notin> set x" and xs: "segments xs" by simp_all
  have parent: "get_parent p = (if xs = [] then slash else path_of xs True)"
    using p by (simp only: get_parent_path_of)
  have base: "get_basename p = x @ (if dir then slash else [])"
    using p by (simp only: get_basename_path_of)
  have dir: "ends_with p CHR ''/'' = dir" using p by (simp del: segments_append)
  have x_end: "\<not> ends_with x CHR ''/''" using x by (auto simp: ends_with_def dest: last_in_set)
  show ?thesis
  proof (intro conjI)
    show "p = (if get_parent p = slash then [] else get_parent p) @ get_basename p"
      using xs path_of_snoc [of xs x dir] unfolding parent base p(2) [symmetric] by simp
    show "normalized_path (get_parent p)"
      using xs by (simp add: parent normalized_path_path_of) (simp add: normalized_path_def)
    show "ends_with (get_parent p) CHR ''/''"
      using xs by (simp add: parent) (simp add: slash_def ends_with_def)
    show "get_basename p \<noteq> []" using x by (simp add: base)
    show "CHR ''/'' \<notin> set (butlast (get_basename p))"
      using x by (auto simp: base slash_def butlast_append dest: in_set_butlastD)
    show "ends_with (get_basename p) CHR ''/'' = ends_with p CHR ''/''"
      using x_end by (simp add: base dir slash_def)
  qed
qed

theorem parent_basename_witness:
  "normalized_path ''a/b/'' \<and> get_parent ''a/b/'' = ''a/'' \<and> get_basename ''a/b/'' = ''b/''
   \<and> normalized_path (get_parent ''a/b/'')"
proof -
  have p: "''a/b/'' = path_of [''a'', ''b''] True" by code_simp
  have n: "normalized_path ''a/b/''"
    unfolding p by (rule normalized_path_path_of) simp_all
  moreover have "''a/b/'' \<noteq> slash" by (simp add: slash_def)
  ultimately have "normalized_path (get_parent ''a/b/'')"
    using parent_basename by blast
  moreover have "get_parent ''a/b/'' = ''a/''" "get_basename ''a/b/'' = ''b/''" by code_simp+
  ultimately show ?thesis using n by simp
qed

text \<open>
  Whitespace: leading whitespace is trimmed before the leading slashes are, and never
  after, so \<open>/ a\<close> normalizes to \<open>a\<close> with a space in front, which normalizes to \<open>a\<close>.
  So normalization is not idempotent in general; it is on results that carry no
  whitespace at their ends.
\<close>

theorem normalize_path_whitespace:
  "normalize_path ''/ a'' = '' a'' \<and> normalize_path '' a'' = ''a''
   \<and> (trim (normalize_path p) = normalize_path p \<longrightarrow>
        normalize_path (normalize_path p) = normalize_path p)"
proof (intro conjI impI)
  show "normalize_path ''/ a'' = '' a''" "normalize_path '' a'' = ''a''" by code_simp+
  assume t: "trim (normalize_path p) = normalize_path p"
  show "normalize_path (normalize_path p) = normalize_path p"
  proof (rule normalize_path_cases [of p])
    assume "normalize_path p = slash"
    moreover have "normalize_path slash = slash" by code_simp
    ultimately show ?thesis by simp
  next
    fix xs dir assume xs: "xs \<noteq> []" "segments xs" "normalize_path p = path_of xs dir"
    then have "trim_start_char CHR ''/'' (trim (path_of xs dir)) = path_of xs dir"
      using t by (simp add: trim_start_char_id path_of_starts)
    with xs show ?thesis
      by (simp add: normalize_path_def split_path_of) (simp add: path_of_def)
  qed
qed

theorem normalize_path_whitespace_witness:
  "trim (normalize_path ''/x'') = normalize_path ''/x'' \<and>
   normalize_path (normalize_path ''/x'') = normalize_path ''/x''"
proof -
  have "trim (normalize_path ''/x'') = normalize_path ''/x''" by code_simp
  with normalize_path_whitespace [of "''/x''"] show ?thesis by simp
qed

end
