(* ===== verification/Ranges.thy ===== *)
theory Ranges
  imports Errors
begin

text \<open>
  Byte ranges: \<^verbatim>\<open>core/src/raw/http_util/bytes_range.rs\<close> (the \<open>Range\<close> of a read request)
  and \<^verbatim>\<open>core/src/raw/http_util/bytes_content_range.rs\<close> (the \<open>Content-Range\<close> of a
  response). Offsets and sizes are 64-bit words with overflow checks; the target has a
  64-bit \<^verbatim>\<open>usize\<close>, so \<^verbatim>\<open>as usize\<close> keeps every value.
\<close>

datatype 'a bound = Included 'a | Excluded 'a | Unbounded

datatype bytes_range = BytesRange (br_offset: u64) (br_size: "u64 option")

definition br_advance :: "u64 \<Rightarrow> bytes_range \<Rightarrow> bytes_range res" where
  "br_advance n r =
     and_then (u64_add (br_offset r) n) (\<lambda>off.
       case br_size r of
         None \<Rightarrow> Ok (BytesRange off None)
       | Some sz \<Rightarrow> and_then (u64_sub sz n) (\<lambda>sz'. Ok (BytesRange off (Some sz'))))"

definition br_is_full :: "bytes_range \<Rightarrow> bool" where
  "br_is_full r = (br_offset r = 0 \<and> br_size r = None)"

definition br_to_range :: "bytes_range \<Rightarrow> (u64 bound \<times> u64 bound) res" where
  "br_to_range r =
     (case br_size r of
        Some sz \<Rightarrow> and_then (u64_add (br_offset r) sz) (\<lambda>e.
          Ok (Included (br_offset r), Excluded e))
      | None \<Rightarrow> Ok (Included (br_offset r), Unbounded))"

definition br_to_range_as_usize :: "bytes_range \<Rightarrow> (nat bound \<times> nat bound) res" where
  "br_to_range_as_usize r =
     (case br_size r of
        Some sz \<Rightarrow> and_then (u64_add (br_offset r) sz) (\<lambda>e.
          Ok (Included (unat (br_offset r)), Excluded (unat e)))
      | None \<Rightarrow> Ok (Included (unat (br_offset r)), Unbounded))"

definition br_display :: "bytes_range \<Rightarrow> string res" where
  "br_display r =
     (case br_size r of
        None \<Rightarrow> Ok (show_u64 (br_offset r) @ ''-'')
      | Some sz \<Rightarrow>
          and_then (u64_add (br_offset r) sz) (\<lambda>s.
          and_then (u64_sub s 1) (\<lambda>lst.
            Ok (show_u64 (br_offset r) @ ''-'' @ show_u64 lst))))"

definition br_to_header :: "bytes_range \<Rightarrow> string res" where
  "br_to_header r = and_then (br_display r) (\<lambda>s. Ok (''bytes='' @ s))"

definition range_invalid :: "string \<Rightarrow> string \<Rightarrow> string \<Rightarrow> error" where
  "range_invalid op msg value =
     with_context ''value'' value (with_operation op (new_error Unexpected msg))"

definition parse_int_res :: "error \<Rightarrow> int_error + u64 \<Rightarrow> u64 res" where
  "parse_int_res err r =
     (case r of
        Inr n \<Rightarrow> Ok n
      | Inl e \<Rightarrow> and_then (set_source (int_error_display e) err) Err)"

definition br_from_str :: "string \<Rightarrow> bytes_range res" where
  "br_from_str value =
     (let invalid = range_invalid ''BytesRange::from_str'' ''header range is invalid'' value
      in case strip_prefix value ''bytes='' of
           None \<Rightarrow> Err invalid
         | Some s \<Rightarrow>
             if CHR '','' \<in> set s then Err invalid
             else let v = split_on CHR ''-'' s
                  in if length v \<noteq> 2 then Err invalid
                     else if v ! 1 = [] then
                       and_then (parse_int_res invalid (parse_u64 (v ! 0))) (\<lambda>start.
                         Ok (BytesRange start None))
                     else if v ! 0 = [] then
                       Err (range_invalid ''BytesRange::from_str''
                              ''header range with tailing is not supported'' value)
                     else
                       and_then (parse_int_res invalid (parse_u64 (v ! 0))) (\<lambda>start.
                       and_then (parse_int_res invalid (parse_u64 (v ! 1))) (\<lambda>end'.
                       and_then (u64_sub end' start) (\<lambda>d.
                       and_then (u64_add d 1) (\<lambda>sz.
                         Ok (BytesRange start (Some sz)))))))"

definition br_from_bounds :: "u64 bound \<Rightarrow> u64 bound \<Rightarrow> bytes_range res" where
  "br_from_bounds sb eb =
     and_then (case sb of
         Included n \<Rightarrow> Ok n
       | Excluded n \<Rightarrow> u64_add n 1
       | Unbounded \<Rightarrow> Ok 0) (\<lambda>offset.
     and_then (case eb of
         Included n \<Rightarrow>
           and_then (u64_add n 1) (\<lambda>m. and_then (u64_sub m offset) (\<lambda>s. Ok (Some s)))
       | Excluded n \<Rightarrow> and_then (u64_sub n offset) (\<lambda>s. Ok (Some s))
       | Unbounded \<Rightarrow> Ok None) (\<lambda>sz.
     Ok (BytesRange offset sz)))"

text \<open>The bytes of a content a range selects.\<close>

definition br_select :: "bytes_range \<Rightarrow> 'a list \<Rightarrow> 'a list" where
  "br_select r content =
     (let rest = drop (unat (br_offset r)) content
      in case br_size r of None \<Rightarrow> rest | Some n \<Rightarrow> take (unat n) rest)"

subsection \<open>Content ranges\<close>

datatype bytes_content_range =
  BytesContentRange (bcr_start: "u64 option") (bcr_end: "u64 option") (bcr_size: "u64 option")

definition bcr_default :: bytes_content_range where
  "bcr_default = BytesContentRange None None None"

definition bcr_with_range :: "u64 \<Rightarrow> u64 \<Rightarrow> bytes_content_range \<Rightarrow> bytes_content_range" where
  "bcr_with_range s e r = BytesContentRange (Some s) (Some e) (bcr_size r)"

definition bcr_with_size :: "u64 \<Rightarrow> bytes_content_range \<Rightarrow> bytes_content_range" where
  "bcr_with_size n r = BytesContentRange (bcr_start r) (bcr_end r) (Some n)"

definition bcr_len :: "bytes_content_range \<Rightarrow> u64 option res" where
  "bcr_len r =
     (case (bcr_start r, bcr_end r) of
        (Some s, Some e) \<Rightarrow>
          and_then (u64_sub e s) (\<lambda>d. and_then (u64_add d 1) (\<lambda>n. Ok (Some n)))
      | _ \<Rightarrow> Ok None)"

definition bcr_range :: "bytes_content_range \<Rightarrow> (u64 \<times> u64) option res" where
  "bcr_range r =
     (case (bcr_start r, bcr_end r) of
        (Some s, Some e) \<Rightarrow> and_then (u64_add e 1) (\<lambda>e'. Ok (Some (s, e')))
      | _ \<Rightarrow> Ok None)"

definition bcr_range_inclusive :: "bytes_content_range \<Rightarrow> (u64 \<times> u64) option" where
  "bcr_range_inclusive r =
     (case (bcr_start r, bcr_end r) of
        (Some s, Some e) \<Rightarrow> Some (s, e)
      | _ \<Rightarrow> None)"

definition bcr_display :: "bytes_content_range \<Rightarrow> string res" where
  "bcr_display r =
     (case (bcr_start r, bcr_end r, bcr_size r) of
        (Some s, Some e, Some n) \<Rightarrow> Ok (show_u64 s @ ''-'' @ show_u64 e @ ''/'' @ show_u64 n)
      | (Some s, Some e, None) \<Rightarrow> Ok (show_u64 s @ ''-'' @ show_u64 e @ ''/*'')
      | (None, None, Some n) \<Rightarrow> Ok (''*/'' @ show_u64 n)
      | _ \<Rightarrow> Panic)"

definition bcr_to_header :: "bytes_content_range \<Rightarrow> string res" where
  "bcr_to_header r = and_then (bcr_display r) (\<lambda>s. Ok (''bytes '' @ s))"

definition bcr_from_str :: "string \<Rightarrow> bytes_content_range res" where
  "bcr_from_str value =
     (let invalid =
        range_invalid ''BytesContentRange::from_str'' ''header content range is invalid'' value
      in case strip_prefix value ''bytes '' of
           None \<Rightarrow> Err invalid
         | Some s \<Rightarrow>
             (case strip_prefix s ''*/'' of
                Some sz \<Rightarrow>
                  and_then (parse_int_res invalid (parse_u64 sz)) (\<lambda>n.
                    Ok (bcr_with_size n bcr_default))
              | None \<Rightarrow>
                  let s = split_on CHR ''/'' s
                  in if length s \<noteq> 2 then Err invalid
                     else let v = split_on CHR ''-'' (s ! 0)
                          in if length v \<noteq> 2 then Err invalid
                             else
                               and_then (parse_int_res invalid (parse_u64 (v ! 0))) (\<lambda>start.
                               and_then (parse_int_res invalid (parse_u64 (v ! 1))) (\<lambda>end'.
                               let bcr = bcr_with_range start end' bcr_default
                               in if s ! 1 \<noteq> ''*''
                                  then and_then (parse_int_res invalid (parse_u64 (s ! 1)))
                                         (\<lambda>n. Ok (bcr_with_size n bcr))
                                  else Ok bcr))))"

subsection \<open>Facts\<close>

lemma parse_int_res_Inr [simp]: "parse_int_res err (Inr n) = Ok n"
  by (simp add: parse_int_res_def)

lemma parse_int_res_not_Panic:
  "err_source err = None \<Longrightarrow> parse_int_res err r \<noteq> Panic"
  by (auto simp: parse_int_res_def set_source_def split: sum.split)

lemma range_invalid_source [simp]: "err_source (range_invalid op msg v) = None"
  by (simp add: range_invalid_def error_defs)

lemma show_u64_clean [simp]:
  "CHR ''-'' \<notin> set (show_u64 w)" "CHR '','' \<notin> set (show_u64 w)"
  "CHR ''/'' \<notin> set (show_u64 w)" "CHR ''*'' \<notin> set (show_u64 w)"
  by (rule show_u64_not_in, simp)+

lemma split_dash:
  "CHR ''-'' \<notin> set a \<Longrightarrow> CHR ''-'' \<notin> set b \<Longrightarrow> split_on CHR ''-'' (a @ CHR ''-'' # b) = [a, b]"
  by (simp add: split_on_append split_on_no)

lemma split_slash:
  "CHR ''/'' \<notin> set a \<Longrightarrow> CHR ''/'' \<notin> set b \<Longrightarrow> split_on CHR ''/'' (a @ CHR ''/'' # b) = [a, b]"
  by (simp add: split_on_append split_on_no)

lemma split_content_range:
  "CHR ''/'' \<notin> set a \<Longrightarrow> CHR ''/'' \<notin> set b \<Longrightarrow> CHR ''/'' \<notin> set k \<Longrightarrow>
     split_on CHR ''/'' (a @ CHR ''-'' # b @ CHR ''/'' # k) = [a @ CHR ''-'' # b, k]"
  using split_slash [of "a @ CHR ''-'' # b" k] by simp

lemma strip_bytes_eq: "strip_prefix (''bytes='' @ s) ''bytes='' = Some s"
  by (rule strip_prefix_append)

lemma strip_bytes_sp: "strip_prefix (''bytes '' @ s) ''bytes '' = Some s"
  by (rule strip_prefix_append)

lemma br_from_str_open:
  "br_from_str (''bytes='' @ show_u64 a @ ''-'') = Ok (BytesRange a None)"
  unfolding br_from_str_def strip_bytes_eq
  by (simp add: split_dash [of "show_u64 a" "[]", simplified])

lemma br_from_str_closed:
  "br_from_str (''bytes='' @ show_u64 a @ ''-'' @ show_u64 b) =
     and_then (u64_sub b a) (\<lambda>d. and_then (u64_add d 1) (\<lambda>n. Ok (BytesRange a (Some n))))"
  unfolding br_from_str_def strip_bytes_eq
  by (simp add: split_dash)

lemma br_display_Ok:
  "br_display r = Ok s \<longleftrightarrow>
     (br_size r = None \<and> s = show_u64 (br_offset r) @ ''-'')
   \<or> (\<exists>n. br_size r = Some n \<and> 0 < unat (br_offset r) + unat n
        \<and> unat (br_offset r) + unat n \<le> u64_max
        \<and> s = show_u64 (br_offset r) @ ''-'' @ show_u64 (br_offset r + n - 1))"
  (is "?l = ?r")
proof (cases "br_size r")
  case None
  then show ?thesis by (auto simp: br_display_def)
next
  case (Some n)
  let ?o = "br_offset r"
  show ?thesis
  proof (cases "unat ?o + unat n \<le> u64_max")
    case True
    then have "u64_add ?o n = (Ok (?o + n) :: u64 res)" by (simp add: u64_add_def)
    moreover have "unat (?o + n) = unat ?o + unat n"
      using calculation u64_add_Ok_iff by blast
    ultimately show ?thesis
      using Some True by (auto simp: br_display_def u64_sub_def guard_def)
  next
    case False
    with Some show ?thesis by (simp add: br_display_def u64_add_def)
  qed
qed

lemma u64_sub_Ok [simp]: "unat b \<le> unat a \<Longrightarrow> u64_sub a b = Ok (a - b)"
  by (simp add: u64_sub_def)

lemma u64_add_Ok [simp]: "unat a + unat b \<le> u64_max \<Longrightarrow> u64_add a b = Ok (a + b)"
  by (simp add: u64_add_def)

lemma unat_u64_sub: "unat (b :: u64) \<le> unat a \<Longrightarrow> unat (a - b) = unat a - unat b"
  by (simp add: unat_sub word_le_nat_alt)

lemma unat_u64_add: "unat a + unat b \<le> u64_max \<Longrightarrow> unat (a + b :: u64) = unat a + unat b"
  using u64_add_Ok_iff [of a b "a + b"] u64_add_Ok by blast

lemma unat_u64_pos: "0 < unat (n :: u64) \<longleftrightarrow> n \<noteq> 0"
  by (simp add: unat_eq_0 zero_less_iff_neq_zero)

lemma closed_size:
  "and_then (u64_sub b a) (\<lambda>d. and_then (u64_add d 1) (\<lambda>n. Ok (f n))) =
     (if unat a \<le> unat b \<and> unat b - unat a < u64_max then Ok (f (b - a + 1)) else Panic)"
proof (cases "unat a \<le> unat b")
  case True
  then show ?thesis
    by (auto simp: unat_u64_sub u64_add_def guard_def)
qed (simp add: u64_sub_def)

lemma br_advance_eq:
  "br_advance n r =
     (if unat (br_offset r) + unat n \<le> u64_max
         \<and> (\<forall>sz. br_size r = Some sz \<longrightarrow> unat n \<le> unat sz)
      then Ok (BytesRange (br_offset r + n) (map_option (\<lambda>sz. sz - n) (br_size r)))
      else Panic)"
  by (auto simp: br_advance_def u64_add_def u64_sub_def guard_def split: option.split)

subsection \<open>Properties\<close>

lemma range_header_back:
  assumes "\<forall>n. br_size r = Some n \<longrightarrow> 0 < unat n \<and> unat (br_offset r) + unat n \<le> u64_max"
  shows "\<exists>h. br_to_header r = Ok h \<and> br_from_str h = Ok r"
proof (cases r)
  case (BytesRange a sz)
  show ?thesis
  proof (cases sz)
    case None
    with BytesRange show ?thesis
      using br_from_str_open [of a] by (simp add: br_to_header_def br_display_def)
  next
    case (Some n)
    with assms BytesRange have n: "0 < unat n" "unat a + unat n \<le> u64_max" by auto
    have "br_display r = Ok (show_u64 a @ ''-'' @ show_u64 (a + n - 1))"
      unfolding br_display_Ok using n Some BytesRange by simp
    then have h: "br_to_header r = Ok (''bytes='' @ show_u64 a @ ''-'' @ show_u64 (a + n - 1))"
      by (simp add: br_to_header_def)
    have last: "unat (a + n - 1) = unat a + unat n - 1"
      using n unat_u64_sub [of 1 "a + n"] by (simp add: unat_u64_add)
    have "br_from_str (''bytes='' @ show_u64 a @ ''-'' @ show_u64 (a + n - 1)) = Ok r"
      unfolding br_from_str_closed closed_size
      using n last unat_u64_le [of n] Some BytesRange by auto
    with h show ?thesis by blast
  qed
qed

text \<open>
  C29. Range headers round trip: a range of unknown size, or of a positive size that does
  not pass the last 64-bit offset, is printed as a \<open>Range\<close> header without overflow, and
  parsing the header gives the range back.
\<close>

theorem range_header_roundtrip:
  assumes "\<forall>n. br_size r = Some n \<longrightarrow> 0 < unat n \<and> unat (br_offset r) + unat n \<le> u64_max"
  shows "\<exists>h. br_to_header r = Ok h \<and> br_from_str h = Ok r"
  using assms by (rule range_header_back)

theorem range_header_roundtrip_witness:
  "br_to_header (BytesRange 1024 (Some 1024)) = Ok ''bytes=1024-2047''
   \<and> br_from_str ''bytes=1024-2047'' = Ok (BytesRange 1024 (Some 1024))"
proof -
  have "br_to_header (BytesRange 1024 (Some 1024)) = Ok ''bytes=1024-2047''"
    by (simp add: br_to_header_def br_display_def num_eval)
  moreover have "\<exists>h. br_to_header (BytesRange 1024 (Some 1024)) = Ok h
      \<and> br_from_str h = Ok (BytesRange 1024 (Some 1024))"
    by (rule range_header_roundtrip) (simp add: u64_max_def)
  ultimately show ?thesis by simp
qed

text \<open>
  Closed range headers: on \<open>bytes=a-b\<close> the parser returns offset \<open>a\<close> and size
  \<open>b - a + 1\<close> when that size exists as a 64-bit number, and overflows (a panic with
  overflow checks, a wrapped size without) when \<open>b < a\<close> or the size is \<open>2^64\<close>; it never
  returns an error for such a header.
\<close>

theorem range_closed_header:
  "br_from_str (''bytes='' @ show_u64 a @ ''-'' @ show_u64 b) =
     (if unat a \<le> unat b \<and> unat b - unat a < u64_max
      then Ok (BytesRange a (Some (b - a + 1))) else Panic)"
  unfolding br_from_str_closed by (rule closed_size)

text \<open>
  Ranges and bounds: whenever \<open>to_range\<close> of a range does not overflow, building a
  range from those bounds gives the range back.
\<close>

theorem range_bounds_roundtrip:
  assumes "br_to_range r = Ok (s, e)"
  shows "br_from_bounds s e = Ok r"
proof (cases r)
  case (BytesRange a sz)
  with assms show ?thesis
    by (cases sz)
      (auto simp: br_to_range_def br_from_bounds_def outcome_simps u64_add_Ok_iff
        word_unat_eq_iff unat_u64_sub)
qed

theorem range_bounds_roundtrip_witness:
  "br_to_range (BytesRange 10 (Some 5)) = Ok (Included 10, Excluded 15)
   \<and> br_from_bounds (Included 10) (Excluded 15) = Ok (BytesRange 10 (Some 5))"
proof -
  have r: "br_to_range (BytesRange 10 (Some 5)) = Ok (Included 10, Excluded 15)"
    by (simp add: br_to_range_def num_eval)
  from range_bounds_roundtrip [OF r] r show ?thesis by simp
qed

text \<open>
  Advancing a range: \<open>advance n\<close> panics exactly when \<open>n\<close> exceeds a known size or the
  offset overflows; otherwise the advanced range selects from any content what the range
  selected, less its first \<open>n\<close> bytes.
\<close>

theorem range_advance_select:
  "(br_advance n r = Panic \<longleftrightarrow>
      u64_max < unat (br_offset r) + unat n \<or> (\<exists>sz. br_size r = Some sz \<and> unat sz < unat n))
   \<and> (br_advance n r = Ok r' \<longrightarrow> br_select r' content = drop (unat n) (br_select r content))"
proof (intro conjI impI)
  show "br_advance n r = Panic \<longleftrightarrow>
      u64_max < unat (br_offset r) + unat n \<or> (\<exists>sz. br_size r = Some sz \<and> unat sz < unat n)"
    by (auto simp: br_advance_eq not_le not_less)
  assume "br_advance n r = Ok r'"
  then have ov: "unat (br_offset r) + unat n \<le> u64_max"
    and sz: "\<forall>sz. br_size r = Some sz \<longrightarrow> unat n \<le> unat sz"
    and r': "r' = BytesRange (br_offset r + n) (map_option (\<lambda>sz. sz - n) (br_size r))"
    by (auto simp: br_advance_eq split: if_splits)
  show "br_select r' content = drop (unat n) (br_select r content)"
    using sz by (cases "br_size r")
      (auto simp: r' br_select_def unat_u64_add [OF ov] unat_u64_sub add.commute [of "unat n"]
        drop_take)
qed

theorem range_advance_select_witness:
  "br_advance 2 (BytesRange 1 (Some 3)) = Ok (BytesRange 3 (Some 1))
   \<and> br_select (BytesRange 3 (Some 1)) ''abcdef'' = ''d''"
proof -
  have a: "br_advance 2 (BytesRange 1 (Some 3)) = Ok (BytesRange 3 (Some 1))"
    by (simp add: br_advance_def num_eval)
  have "br_select (BytesRange 1 (Some 3)) ''abcdef'' = ''bcd''" by (simp add: br_select_def)
  with range_advance_select [of 2 "BytesRange 1 (Some 3)" "BytesRange 3 (Some 1)" "''abcdef''"] a
  show ?thesis by simp
qed

text \<open>
  Content-range headers round trip: a content range that can be printed (both ends
  known, or only the size known) parses back to itself.
\<close>

theorem content_range_roundtrip:
  assumes "bcr_to_header r = Ok h"
  shows "bcr_from_str h = Ok r"
proof (cases r)
  case (BytesContentRange s e n)
  from assms obtain d where d: "bcr_display r = Ok d" and h: "h = ''bytes '' @ d"
    by (auto simp: bcr_to_header_def outcome_simps)
  from d BytesContentRange consider
      (full) a b k where "s = Some a" "e = Some b" "n = Some k"
        "d = (show_u64 a @ CHR ''-'' # show_u64 b) @ CHR ''/'' # show_u64 k"
    | (nosize) a b where "s = Some a" "e = Some b" "n = None"
        "d = (show_u64 a @ CHR ''-'' # show_u64 b) @ CHR ''/'' # ''*''"
    | (only) k where "s = None" "e = None" "n = Some k" "d = ''*/'' @ show_u64 k"
    by (auto simp: bcr_display_def split: option.splits)
  then show ?thesis
  proof cases
    case full
    have "strip_prefix d ''*/'' = None"
      using show_u64_clean(4) [of a] show_u64_neq_Nil [of a]
      by (cases "show_u64 a") (auto simp: strip_prefix_def starts_with_def full)
    moreover have "show_u64 k \<noteq> ''*''"
    proof
      assume "show_u64 k = ''*''"
      then have "CHR ''*'' \<in> set (show_u64 k)" by (simp only: list.set) simp
      then show False by simp
    qed
    ultimately show ?thesis
      unfolding h bcr_from_str_def strip_bytes_sp
      using full BytesContentRange
      by (simp add: split_dash split_content_range bcr_with_range_def bcr_with_size_def)
  next
    case nosize
    have "strip_prefix d ''*/'' = None"
      using show_u64_clean(4) [of a] show_u64_neq_Nil [of a]
      by (cases "show_u64 a") (auto simp: strip_prefix_def starts_with_def nosize)
    then show ?thesis
      unfolding h bcr_from_str_def strip_bytes_sp
      using nosize BytesContentRange
      by (simp add: split_dash split_content_range bcr_with_range_def bcr_default_def)
  next
    case only
    have "strip_prefix d ''*/'' = Some (show_u64 k)"
      unfolding only by (rule strip_prefix_append)
    then show ?thesis
      unfolding h bcr_from_str_def strip_bytes_sp
      using only BytesContentRange by (simp add: bcr_with_size_def bcr_default_def)
  qed
qed

theorem content_range_roundtrip_witness:
  "bcr_to_header (BytesContentRange (Some 0) (Some 9) (Some 100)) = Ok ''bytes 0-9/100''
   \<and> bcr_from_str ''bytes 0-9/100'' = Ok (BytesContentRange (Some 0) (Some 9) (Some 100))"
proof -
  have h: "bcr_to_header (BytesContentRange (Some 0) (Some 9) (Some 100)) = Ok ''bytes 0-9/100''"
    by (simp add: bcr_to_header_def bcr_display_def num_eval)
  from content_range_roundtrip [OF h] h show ?thesis by simp
qed

text \<open>
  Length of a content range: for known ends \<open>s\<close> and \<open>e\<close> the length is
  \<open>e - s + 1\<close>, the number of offsets in \<open>s..=e\<close>, if \<open>s \<le> e\<close> and it fits, and an overflow
  otherwise; and the parser accepts headers such as \<open>bytes 5-3/10\<close>, on whose result
  asking for the length overflows.
\<close>

theorem content_range_len:
  "bcr_len (BytesContentRange (Some s) (Some e) n) =
     (if unat s \<le> unat e \<and> unat e - unat s < u64_max then Ok (Some (e - s + 1)) else Panic)
   \<and> (\<exists>r. bcr_from_str ''bytes 5-3/10'' = Ok r \<and> bcr_len r = Panic)"
proof
  show "bcr_len (BytesContentRange (Some s) (Some e) n) =
     (if unat s \<le> unat e \<and> unat e - unat s < u64_max then Ok (Some (e - s + 1)) else Panic)"
    by (simp add: bcr_len_def closed_size)
  have "bcr_from_str ''bytes 5-3/10'' = Ok (BytesContentRange (Some 5) (Some 3) (Some 10))"
    by (simp add: bcr_from_str_def bcr_with_range_def bcr_with_size_def num_eval)
  moreover have "bcr_len (BytesContentRange (Some 5) (Some 3) (Some 10)) = Panic"
    by (simp add: bcr_len_def num_eval)
  ultimately have "bcr_from_str ''bytes 5-3/10'' = Ok (BytesContentRange (Some 5) (Some 3) (Some 10))
      \<and> bcr_len (BytesContentRange (Some 5) (Some 3) (Some 10)) = Panic" ..
  then show "\<exists>r. bcr_from_str ''bytes 5-3/10'' = Ok r \<and> bcr_len r = Panic" by blast
qed

end
