(* ===== verification/Buffers.thy ===== *)
theory Buffers
  imports Ranges
begin

text \<open>
  \<open>Buffer\<close>, the byte container every reader and writer passes around
  (\<^verbatim>\<open>core/src/types/buffer.rs\<close>): one contiguous byte string, or a shared array of byte
  strings with a cursor (index, offset in the part) and a remaining size. A byte string
  (\<^verbatim>\<open>Bytes\<close>) is the list of its bytes. Sizes are lengths of byte strings in memory and are
  modelled as \<open>nat\<close>.

  The interface \<open>byte_buf\<close> states what a consumer of \<^verbatim>\<open>bytes::Buf\<close> relies on; the
  consuming loop is proved to drain any buffer that meets it, and \<open>Buffer\<close> meets it
  when none of its parts is empty.
\<close>

type_synonym bytes = "8 word list"

datatype buffer =
    Contiguous bytes
  | NonContiguous (parts: "bytes list") (nc_size: nat) (nc_idx: nat) (nc_offset: nat)

definition bytes_slice :: "nat \<Rightarrow> nat \<Rightarrow> bytes \<Rightarrow> bytes res" where
  "bytes_slice b e bs = guard (b \<le> e \<and> e \<le> length bs) (Ok (take (e - b) (drop b bs)))"

definition part_at :: "bytes list \<Rightarrow> nat \<Rightarrow> bytes res" where
  "part_at ps i = guard (i < length ps) (Ok (ps ! i))"

definition usize_sub :: "nat \<Rightarrow> nat \<Rightarrow> nat res" where
  "usize_sub a b = guard (b \<le> a) (Ok (a - b))"

subsection \<open>Construction and size\<close>

definition buf_new :: buffer where
  "buf_new = Contiguous []"

definition buf_len :: "buffer \<Rightarrow> nat" where
  "buf_len b = (case b of Contiguous bs \<Rightarrow> length bs | NonContiguous ps sz i off \<Rightarrow> sz)"

definition buf_is_empty :: "buffer \<Rightarrow> bool" where
  "buf_is_empty b = (buf_len b = 0)"

definition buf_from_bytes :: "bytes \<Rightarrow> buffer" where
  "buf_from_bytes bs = Contiguous bs"

definition buf_from_parts :: "bytes list \<Rightarrow> buffer" where
  "buf_from_parts bs = NonContiguous bs (sum_list (map length bs)) 0 0"

definition buf_from_iter :: "bytes list \<Rightarrow> buffer" where
  "buf_from_iter it =
     (let (sz, ps) = fold (\<lambda>v (sz, ps). (sz + length v, ps @ [v])) it (0, [])
      in NonContiguous ps sz 0 0)"

definition buf_count :: "buffer \<Rightarrow> nat" where
  "buf_count b =
     (case b of
        Contiguous _ \<Rightarrow> 1
      | NonContiguous ps sz i off \<Rightarrow>
          fst (foldl (\<lambda>(cnt, rest) bs. if rest = 0 then (cnt, 0) else (cnt + 1, rest - length bs))
                 (0, sz + off) (drop i ps)))"

definition buf_current :: "buffer \<Rightarrow> bytes res" where
  "buf_current b =
     (case b of
        Contiguous bs \<Rightarrow> Ok bs
      | NonContiguous ps sz i off \<Rightarrow>
          and_then (part_at ps i) (\<lambda>chunk.
          and_then (usize_sub (length chunk) off) (\<lambda>left.
            let n = min left sz in bytes_slice off (off + n) chunk)))"

definition buf_truncate :: "nat \<Rightarrow> buffer \<Rightarrow> buffer" where
  "buf_truncate len b =
     (case b of
        Contiguous bs \<Rightarrow> Contiguous (take len bs)
      | NonContiguous ps sz i off \<Rightarrow> NonContiguous ps (min sz len) i off)"

subsection \<open>Reading: \<^verbatim>\<open>Buf\<close> and \<^verbatim>\<open>Iterator\<close>\<close>

definition buf_chunk :: "buffer \<Rightarrow> bytes res" where
  "buf_chunk b =
     (case b of
        Contiguous bs \<Rightarrow> Ok bs
      | NonContiguous ps sz i off \<Rightarrow>
          if sz = 0 then Ok []
          else
            and_then (part_at ps i) (\<lambda>chunk.
            and_then (usize_sub (length chunk) off) (\<lambda>left.
              let n = min left sz in bytes_slice off (off + n) chunk)))"

text \<open>The \<open>while\<close> loop of \<open>advance\<close>; each round but the last moves on to the next part.\<close>

function advance_loop :: "bytes list \<Rightarrow> nat \<Rightarrow> nat \<Rightarrow> nat \<Rightarrow> (nat \<times> nat) res" where
  "advance_loop ps new_idx new_offset remaining_cnt =
     (if 0 < remaining_cnt then
        if new_idx < length ps then
          (let part_len = length (ps ! new_idx)
           in if new_offset \<le> part_len then
                (let remaining_in_part = part_len - new_offset
                 in if remaining_cnt < remaining_in_part
                    then Ok (new_idx, new_offset + remaining_cnt)
                    else advance_loop ps (new_idx + 1) 0 (remaining_cnt - remaining_in_part))
              else Panic)
        else Panic
      else Ok (new_idx, new_offset))"
  by pat_completeness auto
termination
  by (relation "measure (\<lambda>(ps, i, off, n). length ps - i)") auto

declare advance_loop.simps [simp del]

definition buf_advance :: "nat \<Rightarrow> buffer \<Rightarrow> buffer res" where
  "buf_advance cnt b =
     (case b of
        Contiguous bs \<Rightarrow> guard (cnt \<le> length bs) (Ok (Contiguous (drop cnt bs)))
      | NonContiguous ps sz i off \<Rightarrow>
          guard (cnt \<le> sz)
            (and_then (advance_loop ps i off cnt) (\<lambda>(i', off').
               Ok (NonContiguous ps (sz - cnt) i' off'))))"

definition buf_next :: "buffer \<Rightarrow> (bytes option \<times> buffer) res" where
  "buf_next b =
     (case b of
        Contiguous bs \<Rightarrow>
          if bs = [] then Ok (None, b) else Ok (Some bs, Contiguous [])
      | NonContiguous ps sz i off \<Rightarrow>
          if sz = 0 then Ok (None, b)
          else
            and_then (part_at ps i) (\<lambda>chunk.
            and_then (usize_sub (length chunk) off) (\<lambda>left.
              let n = min left sz
              in and_then (bytes_slice off (off + n) chunk) (\<lambda>buf.
                 let sz' = sz - n; off' = off + n
                 in Ok (Some buf,
                        if off' = length chunk then NonContiguous ps sz' (i + 1) 0
                        else NonContiguous ps sz' i off')))))"

definition buf_size_hint :: "buffer \<Rightarrow> nat \<times> nat option" where
  "buf_size_hint b =
     (case b of
        Contiguous bs \<Rightarrow> if bs = [] then (0, Some 0) else (1, Some 1)
      | NonContiguous ps sz i off \<Rightarrow> let r = length ps - i in (r, Some r))"

text \<open>
  \<open>to_io_slice\<close> and \<open>chunks_vectored\<close> hand out the parts from the cursor on; the loop over
  the parts resets the offset after the first.
\<close>

fun io_slices :: "nat \<Rightarrow> bytes list \<Rightarrow> bytes list res" where
  "io_slices off [] = Ok []"
| "io_slices off (p # ps) =
     guard (off \<le> length p) (and_then (io_slices 0 ps) (\<lambda>r. Ok (drop off p # r)))"

definition buf_to_io_slice :: "buffer \<Rightarrow> bytes list res" where
  "buf_to_io_slice b =
     (case b of
        Contiguous bs \<Rightarrow> Ok [bs]
      | NonContiguous ps sz i off \<Rightarrow>
          guard (i \<le> length ps) (io_slices off (drop i ps)))"

definition buf_chunks_vectored :: "nat \<Rightarrow> buffer \<Rightarrow> bytes list res" where
  "buf_chunks_vectored dst_len b =
     (case b of
        Contiguous bs \<Rightarrow> if dst_len = 0 then Ok [] else Ok [bs]
      | NonContiguous ps sz i off \<Rightarrow>
          if dst_len = 0 then Ok [] else io_slices off (take dst_len (drop i ps)))"

definition buf_slice :: "nat bound \<Rightarrow> nat bound \<Rightarrow> buffer \<Rightarrow> buffer res" where
  "buf_slice sb eb b =
     (let len = buf_len b;
          begin' = (case sb of Included n \<Rightarrow> n | Excluded n \<Rightarrow> n + 1 | Unbounded \<Rightarrow> 0);
          end' = (case eb of Included n \<Rightarrow> n + 1 | Excluded n \<Rightarrow> n | Unbounded \<Rightarrow> len)
      in guard (begin' \<le> end') (guard (end' \<le> len)
           (if end' = begin' then Ok buf_new
            else buf_advance begin' (buf_truncate end' b))))"

text \<open>
  A consumer of \<^verbatim>\<open>bytes::Buf\<close> copies chunk by chunk until nothing remains; this is how
  \<^verbatim>\<open>BufMut::put\<close>, which \<open>to_vec\<close> and \<open>to_bytes\<close> call, fills its target. \<open>None\<close> means the
  loop does not return.
\<close>

partial_function (option) drain_buf ::
  "('b \<Rightarrow> nat) \<Rightarrow> ('b \<Rightarrow> bytes res) \<Rightarrow> (nat \<Rightarrow> 'b \<Rightarrow> 'b res) \<Rightarrow> bytes \<Rightarrow> 'b \<Rightarrow> bytes res option"
  where
  "drain_buf remaining chunk advance dst src =
     (if remaining src = 0 then Some (Ok dst)
      else case chunk src of
          Ok s \<Rightarrow>
            (case advance (length s) src of
               Ok src' \<Rightarrow> drain_buf remaining chunk advance (dst @ s) src'
             | Err e \<Rightarrow> Some (Err e)
             | Panic \<Rightarrow> Some Panic)
        | Err e \<Rightarrow> Some (Err e)
        | Panic \<Rightarrow> Some Panic)"

definition buf_to_vec :: "buffer \<Rightarrow> bytes res option" where
  "buf_to_vec b = drain_buf buf_len buf_chunk buf_advance [] b"

definition buf_to_bytes :: "buffer \<Rightarrow> bytes res option" where
  "buf_to_bytes b =
     (case b of
        Contiguous bs \<Rightarrow> Some (Ok bs)
      | NonContiguous ps sz i off \<Rightarrow>
          if length ps = 1 then Some (bytes_slice off (off + sz) (ps ! 0))
          else drain_buf buf_len buf_chunk buf_advance [] b)"

subsection \<open>Content and well-formedness\<close>

definition buf_bytes :: "buffer \<Rightarrow> bytes" where
  "buf_bytes b =
     (case b of
        Contiguous bs \<Rightarrow> bs
      | NonContiguous ps sz i off \<Rightarrow> take sz (drop off (concat (drop i ps))))"

text \<open>
  The cursor stands inside a part, or at the start of one, or after the last; the
  remaining size fits in what follows it.
\<close>

definition buf_wf :: "buffer \<Rightarrow> bool" where
  "buf_wf b =
     (case b of
        Contiguous bs \<Rightarrow> True
      | NonContiguous ps sz i off \<Rightarrow>
          i \<le> length ps \<and> off + sz \<le> length (concat (drop i ps))
          \<and> (off = 0 \<or> (i < length ps \<and> off < length (ps ! i))))"

definition parts_nonempty :: "buffer \<Rightarrow> bool" where
  "parts_nonempty b =
     (case b of
        Contiguous bs \<Rightarrow> True
      | NonContiguous ps sz i off \<Rightarrow> \<forall>p \<in> set ps. p \<noteq> [])"

lemma buf_len_bytes [simp]: "buf_wf b \<Longrightarrow> buf_len b = length (buf_bytes b)"
  by (cases b) (auto simp: buf_len_def buf_bytes_def buf_wf_def)

lemma buf_bytes_Contiguous [simp]: "buf_bytes (Contiguous bs) = bs"
  by (simp add: buf_bytes_def)

lemma buf_wf_Contiguous [simp]: "buf_wf (Contiguous bs)"
  by (simp add: buf_wf_def)

lemma buf_wf_new [simp]: "buf_wf buf_new" "buf_bytes buf_new = []"
  by (simp_all add: buf_new_def)

lemma drop_nth: "i < length ps \<Longrightarrow> drop i ps = ps ! i # drop (Suc i) ps"
  by (simp add: Cons_nth_drop_Suc)

lemma buf_wf_from_parts [simp]: "buf_wf (buf_from_parts ps)"
  by (simp add: buf_wf_def buf_from_parts_def length_concat)

lemma buf_bytes_from_parts [simp]: "buf_bytes (buf_from_parts ps) = concat ps"
  by (simp add: buf_bytes_def buf_from_parts_def length_concat)

lemma buf_from_iter_eq [simp]: "buf_from_iter it = buf_from_parts it"
proof -
  have "fold (\<lambda>v (sz, ps). (sz + length v, ps @ [v])) it (a, qs)
      = (a + sum_list (map length it), qs @ it)" for a :: nat and qs
    by (induction it arbitrary: a qs) auto
  then show ?thesis by (simp add: buf_from_iter_def buf_from_parts_def)
qed

lemma buf_wf_truncate [simp]: "buf_wf b \<Longrightarrow> buf_wf (buf_truncate n b)"
  by (cases b) (auto simp: buf_wf_def buf_truncate_def)

lemma buf_bytes_truncate [simp]: "buf_bytes (buf_truncate n b) = take n (buf_bytes b)"
  by (cases b) (simp_all add: buf_bytes_def buf_truncate_def min.commute)

lemma advance_loop_spec:
  assumes "i \<le> length ps" "off + n \<le> length (concat (drop i ps))"
    "off = 0 \<or> (i < length ps \<and> off < length (ps ! i))"
  shows "\<exists>i' off'. advance_loop ps i off n = Ok (i', off') \<and> i' \<le> length ps
    \<and> (off' = 0 \<or> (i' < length ps \<and> off' < length (ps ! i')))
    \<and> drop off' (concat (drop i' ps)) = drop (off + n) (concat (drop i ps))"
  using assms
proof (induction ps i off n rule: advance_loop.induct)
  case (1 ps i off n)
  show ?case
  proof (cases "n = 0")
    case True
    with "1.prems" show ?thesis by (simp add: advance_loop.simps [of ps i off 0])
  next
    case False
    with "1.prems" have i: "i < length ps" by (cases "i = length ps") auto
    let ?p = "ps ! i"
    have off: "off \<le> length ?p" using "1.prems"(3) by auto
    have split: "concat (drop i ps) = ?p @ concat (drop (Suc i) ps)"
      using i by (simp add: drop_nth)
    show ?thesis
    proof (cases "n < length ?p - off")
      case True
      with False i off show ?thesis
        by (simp add: advance_loop.simps [of ps i off n] add.commute)
    next
      case ge: False
      have "off + n = length ?p + (n - (length ?p - off))" using ge off by simp
      then have "drop (off + n) (concat (drop i ps))
          = drop (n - (length ?p - off)) (concat (drop (Suc i) ps))"
        by (simp add: split)
      moreover have "0 + (n - (length ?p - off)) \<le> length (concat (drop (i + 1) ps))"
        using "1.prems"(2) ge off by (simp add: split)
      ultimately show ?thesis
        using "1.IH" [OF _ i refl off refl ge] False i off ge
        by (simp add: advance_loop.simps [of ps i off n])
    qed
  qed
qed

lemma buf_advance_Ok:
  assumes "buf_wf b" "n \<le> buf_len b"
  shows "\<exists>b'. buf_advance n b = Ok b' \<and> buf_wf b' \<and> buf_bytes b' = drop n (buf_bytes b)"
proof (cases b)
  case (Contiguous bs)
  with assms show ?thesis by (simp add: buf_advance_def buf_len_def)
next
  case (NonContiguous ps sz i off)
  with assms have wf: "i \<le> length ps" "off + n \<le> length (concat (drop i ps))"
      "off = 0 \<or> (i < length ps \<and> off < length (ps ! i))"
    and n: "n \<le> sz" and sz: "off + sz \<le> length (concat (drop i ps))"
    by (auto simp: buf_wf_def buf_len_def)
  from advance_loop_spec [OF wf] obtain i' off' where
    adv: "advance_loop ps i off n = Ok (i', off')" "i' \<le> length ps"
      "off' = 0 \<or> (i' < length ps \<and> off' < length (ps ! i'))"
    and eq: "drop off' (concat (drop i' ps)) = drop (off + n) (concat (drop i ps))"
    by blast
  have "length (concat (drop i' ps)) - off' = length (concat (drop i ps)) - (off + n)"
    using arg_cong [OF eq, of length] by simp
  moreover have "off' \<le> length (concat (drop i' ps))"
    using adv by (auto simp: drop_nth)
  ultimately have "off' + (sz - n) \<le> length (concat (drop i' ps))"
    using sz n by linarith
  with adv n have "buf_wf (NonContiguous ps (sz - n) i' off')"
    by (simp add: buf_wf_def)
  moreover have "buf_bytes (NonContiguous ps (sz - n) i' off') = drop n (buf_bytes b)"
    by (simp add: NonContiguous buf_bytes_def eq drop_take add.commute)
  ultimately show ?thesis
    using adv n by (simp add: NonContiguous buf_advance_def)
qed

lemma buf_advance_Panic:
  "buf_len b < n \<Longrightarrow> buf_advance n b = Panic"
  by (cases b) (auto simp: buf_advance_def buf_len_def)

subsection \<open>Iteration\<close>

lemma bytes_slice_Ok: "b \<le> e \<Longrightarrow> e \<le> length bs \<Longrightarrow> bytes_slice b e bs = Ok (take (e - b) (drop b bs))"
  by (simp add: bytes_slice_def)

lemma part_at_Ok_iff: "part_at ps i = Ok c \<longleftrightarrow> i < length ps \<and> c = ps ! i"
  by (auto simp: part_at_def guard_def)

lemma usize_sub_Ok_iff: "usize_sub a b = Ok c \<longleftrightarrow> b \<le> a \<and> c = a - b"
  by (auto simp: usize_sub_def guard_def)

lemma buf_next_Some:
  assumes "buf_next (NonContiguous ps sz i off) = Ok (Some c, b')"
  shows "0 < sz" "i < length ps" "off \<le> length (ps ! i)"
    "c = take (min (length (ps ! i) - off) sz) (drop off (ps ! i))"
    "b' = (if length (ps ! i) \<le> off + sz then NonContiguous ps (sz - (length (ps ! i) - off)) (i + 1) 0
           else NonContiguous ps 0 i (off + sz))"
  using assms
  by (auto simp: buf_next_def outcome_simps part_at_Ok_iff usize_sub_Ok_iff bytes_slice_def
      Let_def min_def split: if_splits)

function buf_iter :: "buffer \<Rightarrow> bytes list res" where
  "buf_iter b =
     (case buf_next b of
        Ok (None, _) \<Rightarrow> Ok []
      | Ok (Some c, b') \<Rightarrow> and_then (buf_iter b') (\<lambda>cs. Ok (c # cs))
      | Err e \<Rightarrow> Err e
      | Panic \<Rightarrow> Panic)"
  by pat_completeness auto
termination
proof (relation "measure (\<lambda>b. case b of Contiguous bs \<Rightarrow> length bs
    | NonContiguous ps sz i off \<Rightarrow> (if sz = 0 then 0 else sz + length ps - i))")
  fix b x y z b' c
  assume "buf_next b = Ok x" "(y, b') = x" "y = Some c"
  then have n: "buf_next b = Ok (Some c, b')" by auto
  show "(b', b) \<in> measure (\<lambda>b. case b of Contiguous bs \<Rightarrow> length bs
    | NonContiguous ps sz i off \<Rightarrow> (if sz = 0 then 0 else sz + length ps - i))"
  proof (cases b)
    case (Contiguous bs)
    with n show ?thesis by (auto simp: buf_next_def split: if_splits)
  next
    case (NonContiguous ps sz i off)
    from buf_next_Some [OF n [unfolded NonContiguous]] NonContiguous
    show ?thesis by auto
  qed
qed simp

declare buf_iter.simps [simp del]

lemma buf_next_wf:
  assumes "buf_wf b"
  shows "(buf_bytes b = [] \<and> buf_next b = Ok (None, b)) \<or>
    (\<exists>c b'. buf_next b = Ok (Some c, b') \<and> buf_wf b' \<and> buf_bytes b \<noteq> [] \<and> buf_bytes b = c @ buf_bytes b')"
proof (cases b)
  case (Contiguous bs)
  then show ?thesis by (auto simp: buf_next_def)
next
  case (NonContiguous ps sz i off)
  show ?thesis
  proof (cases "sz = 0")
    case True
    with NonContiguous show ?thesis by (simp add: buf_next_def buf_bytes_def)
  next
    case False
    have wf: "i \<le> length ps" "off + sz \<le> length (concat (drop i ps))"
      "off = 0 \<or> (i < length ps \<and> off < length (ps ! i))"
      using assms NonContiguous by (auto simp: buf_wf_def)
    then have i: "i < length ps" using False by (cases "i = length ps") auto
    let ?p = "ps ! i" and ?rest = "concat (drop (Suc i) ps)"
    have off: "off \<le> length ?p" using wf(3) by auto
    have split: "concat (drop i ps) = ?p @ ?rest" using i by (simp add: drop_nth)
    define b' where "b' = (if length ?p \<le> off + sz
        then NonContiguous ps (sz - (length ?p - off)) (i + 1) 0 else NonContiguous ps 0 i (off + sz))"
    define c where "c = take (min (length ?p - off) sz) (drop off ?p)"
    have "buf_next b = Ok (Some c, b')"
      using False i off
      by (auto simp: NonContiguous buf_next_def part_at_def usize_sub_def bytes_slice_def c_def b'_def
          Let_def min_def)
    moreover have "buf_wf b'"
      using wf i off by (auto simp: b'_def buf_wf_def split)
    moreover have bytes: "buf_bytes b = take sz (drop off ?p @ ?rest)"
      using off by (simp add: NonContiguous buf_bytes_def split)
    moreover have "buf_bytes b \<noteq> []"
    proof -
      have "length (buf_bytes b) = sz"
        using wf(2) off by (simp add: NonContiguous buf_bytes_def split)
      with False show ?thesis by auto
    qed
    moreover have "buf_bytes b = c @ buf_bytes b'"
      unfolding bytes using off by (auto simp: c_def b'_def buf_bytes_def min_def)
    ultimately show ?thesis by blast
  qed
qed

lemma buf_iter_concat:
  "buf_wf b \<Longrightarrow> \<exists>cs. buf_iter b = Ok cs \<and> concat cs = buf_bytes b"
proof (induction b rule: buf_iter.induct)
  case (1 b)
  from buf_next_wf [OF "1.prems"] show ?case
  proof (elim disjE exE conjE)
    assume "buf_bytes b = []" "buf_next b = Ok (None, b)"
    then show ?thesis by (simp add: buf_iter.simps [of b])
  next
    fix c b' assume n: "buf_next b = Ok (Some c, b')" and wf: "buf_wf b'"
      and eq: "buf_bytes b = c @ buf_bytes b'"
    from "1.IH" [OF n refl refl wf] obtain cs where "buf_iter b' = Ok cs" "concat cs = buf_bytes b'"
      by blast
    with n eq show ?thesis by (simp add: buf_iter.simps [of b])
  qed
qed

subsection \<open>The \<^verbatim>\<open>Buf\<close> interface\<close>

text \<open>
  A queue of bytes that is consumed from the front: its length is the length of its
  content, and advancing within the content drops that many bytes.
\<close>

locale byte_queue =
  fixes remaining :: "'b \<Rightarrow> nat"
    and advance :: "nat \<Rightarrow> 'b \<Rightarrow> 'b res"
    and content :: "'b \<Rightarrow> bytes"
    and invar :: "'b \<Rightarrow> bool"
  assumes remaining_content: "invar b \<Longrightarrow> remaining b = length (content b)"
    and advance_content: "invar b \<Longrightarrow> n \<le> remaining b \<Longrightarrow>
      \<exists>b'. advance n b = Ok b' \<and> invar b' \<and> content b' = drop n (content b)"
begin

text \<open>Consuming a list of lengths in turn is consuming their sum.\<close>

lemma advance_fold:
  "invar b \<Longrightarrow> sum_list ns \<le> remaining b \<Longrightarrow>
     \<exists>b'. fold (\<lambda>n m. and_then m (advance n)) ns (Ok b) = Ok b' \<and> invar b'
       \<and> content b' = drop (sum_list ns) (content b)"
proof (induction ns arbitrary: b)
  case (Cons n ns)
  then obtain b1 where b1: "advance n b = Ok b1" "invar b1" "content b1 = drop n (content b)"
    using advance_content [of b n] by auto
  with Cons.prems have "sum_list ns \<le> remaining b1" by (simp add: remaining_content)
  with Cons.IH [OF b1(2)] b1 show ?case by (simp add: add.commute)
qed simp

end

text \<open>
  A consumer of \<^verbatim>\<open>Buf\<close> relies, beyond that, on the current chunk: it is a prefix of the
  content and empty only when the content is.
\<close>

locale byte_buf = byte_queue remaining advance content invar
  for remaining :: "'b \<Rightarrow> nat"
    and advance :: "nat \<Rightarrow> 'b \<Rightarrow> 'b res"
    and content :: "'b \<Rightarrow> bytes"
    and invar :: "'b \<Rightarrow> bool" +
  fixes chunk :: "'b \<Rightarrow> bytes res"
  assumes chunk_prefix: "invar b \<Longrightarrow> \<exists>c r. chunk b = Ok c \<and> content b = c @ r"
    and chunk_progress: "invar b \<Longrightarrow> content b \<noteq> [] \<Longrightarrow> chunk b \<noteq> Ok []"
begin

lemma drain_content:
  "invar b \<Longrightarrow> drain_buf remaining chunk advance dst b = Some (Ok (dst @ content b))"
proof (induction "length (content b)" arbitrary: b dst rule: less_induct)
  case less
  show ?case
  proof (cases "content b = []")
    case True
    with less.prems show ?thesis
      by (simp add: drain_buf.simps remaining_content)
  next
    case False
    obtain c r where c: "chunk b = Ok c" "content b = c @ r"
      using chunk_prefix less.prems by blast
    then have "c \<noteq> []" using chunk_progress less.prems False by fastforce
    have "length c \<le> remaining b" using c less.prems by (simp add: remaining_content)
    then obtain b' where b': "advance (length c) b = Ok b'" "invar b'" "content b' = r"
      using advance_content [OF less.prems, of "length c"] c by auto
    with \<open>c \<noteq> []\<close> c have "drain_buf remaining chunk advance (dst @ c) b' = Some (Ok ((dst @ c) @ r))"
      using less.hyps [of b' "dst @ c"] by simp
    with b' c False less.prems show ?thesis
      by (subst drain_buf.simps) (simp add: remaining_content)
  qed
qed

end

lemma parts_nonempty_nth:
  "parts_nonempty (NonContiguous ps sz i off) \<Longrightarrow> j < length ps \<Longrightarrow> ps ! j \<noteq> []"
  by (simp add: parts_nonempty_def)

lemma buf_advance_parts:
  "buf_advance n b = Ok b' \<Longrightarrow> parts_nonempty b \<Longrightarrow> parts_nonempty b'"
  by (auto simp: buf_advance_def parts_nonempty_def outcome_simps split: buffer.splits)

lemma buf_chunk_spec:
  assumes "buf_wf b" "buf_bytes b \<noteq> []"
  shows "\<exists>c r. buf_chunk b = Ok c \<and> buf_bytes b = c @ r"
proof (cases b)
  case (Contiguous bs)
  then show ?thesis by (simp add: buf_chunk_def)
next
  case (NonContiguous ps sz i off)
  from buf_next_wf [OF assms(1)] assms(2) obtain c b' where
    n: "buf_next b = Ok (Some c, b')" "buf_bytes b = c @ buf_bytes b'" by auto
  from n(1) NonContiguous have "buf_chunk b = Ok c"
    by (auto simp: buf_next_def buf_chunk_def outcome_simps part_at_Ok_iff usize_sub_Ok_iff
        Let_def split: if_splits)
  with n(2) show ?thesis by blast
qed

lemma buf_chunk_nonempty:
  assumes "buf_wf b" "parts_nonempty b" "buf_bytes b \<noteq> []"
  shows "buf_chunk b \<noteq> Ok []"
proof (cases b)
  case (Contiguous bs)
  with assms show ?thesis by (simp add: buf_chunk_def)
next
  case (NonContiguous ps sz i off)
  from assms have "0 < length (buf_bytes b)" by simp
  with assms(1) NonContiguous have sz: "0 < sz"
    by (simp add: buf_bytes_def)
  then have "i < length ps \<Longrightarrow> off < length (ps ! i)"
    using assms parts_nonempty_nth [of ps sz i off i] by (auto simp: NonContiguous buf_wf_def)
  with sz show ?thesis
    by (auto simp: NonContiguous buf_chunk_def outcome_simps part_at_Ok_iff usize_sub_Ok_iff
        bytes_slice_def Let_def guard_def)
qed

interpretation whole: byte_buf buf_len buf_advance buf_bytes
  "\<lambda>b. buf_wf b \<and> parts_nonempty b" buf_chunk
proof unfold_locales
  fix b :: buffer
  assume b: "buf_wf b \<and> parts_nonempty b"
  then show "buf_len b = length (buf_bytes b)" by simp
  show "\<exists>c r. buf_chunk b = Ok c \<and> buf_bytes b = c @ r"
  proof (cases "buf_bytes b = []")
    case True
    with b have "buf_len b = 0" by simp
    with True show ?thesis
      by (cases b) (auto simp: buf_chunk_def buf_len_def)
  next
    case False
    with b show ?thesis by (blast intro: buf_chunk_spec)
  qed
  show "buf_bytes b \<noteq> [] \<Longrightarrow> buf_chunk b \<noteq> Ok []"
    using b buf_chunk_nonempty by simp
next
  fix b :: buffer and n
  assume "buf_wf b \<and> parts_nonempty b" "n \<le> buf_len b"
  then show "\<exists>b'. buf_advance n b = Ok b' \<and> (buf_wf b' \<and> parts_nonempty b')
      \<and> buf_bytes b' = drop n (buf_bytes b)"
    using buf_advance_Ok buf_advance_parts by blast
qed

subsection \<open>Slices, vectored output and counts\<close>

lemma buf_slice_spec:
  assumes "buf_wf b"
    and "lo = (case sb of Included n \<Rightarrow> n | Excluded n \<Rightarrow> n + 1 | Unbounded \<Rightarrow> 0)"
    and "hi = (case eb of Included n \<Rightarrow> n + 1 | Excluded n \<Rightarrow> n | Unbounded \<Rightarrow> buf_len b)"
  shows "if lo \<le> hi \<and> hi \<le> buf_len b
    then \<exists>b'. buf_slice sb eb b = Ok b' \<and> buf_wf b' \<and> buf_bytes b' = take (hi - lo) (drop lo (buf_bytes b))
    else buf_slice sb eb b = Panic"
proof (cases "lo < hi \<and> hi \<le> buf_len b")
  case True
  have "buf_wf (buf_truncate hi b)" using assms by simp
  moreover have "lo \<le> buf_len (buf_truncate hi b)" using True assms(1) by simp
  ultimately obtain b' where "buf_advance lo (buf_truncate hi b) = Ok b'" "buf_wf b'"
    "buf_bytes b' = drop lo (take hi (buf_bytes b))"
    using buf_advance_Ok by fastforce
  moreover have "buf_slice sb eb b = buf_advance lo (buf_truncate hi b)"
    using True assms(2,3) by (auto simp: buf_slice_def Let_def)
  ultimately show ?thesis using True by (simp add: drop_take)
next
  case False
  then show ?thesis
    using assms(2,3) by (auto simp: buf_slice_def Let_def guard_def)
qed

lemma io_slices_Ok:
  "off = 0 \<or> (ps \<noteq> [] \<and> off < length (hd ps)) \<Longrightarrow>
     \<exists>r. io_slices off ps = Ok r \<and> concat r = drop off (concat ps)"
proof (induction off ps rule: io_slices.induct)
  case (2 off p ps)
  from 2 obtain r where "io_slices 0 ps = Ok r" "concat r = concat ps" by auto
  with 2 show ?case by auto
qed auto

lemma buf_to_io_slice_concat:
  assumes "buf_wf (NonContiguous ps sz i off)"
  shows "\<exists>r. buf_to_io_slice (NonContiguous ps sz i off) = Ok r
    \<and> concat r = drop off (concat (drop i ps))"
proof -
  have "off = 0 \<or> (drop i ps \<noteq> [] \<and> off < length (hd (drop i ps)))"
    using assms by (auto simp: buf_wf_def hd_drop_conv_nth)
  then obtain r where "io_slices off (drop i ps) = Ok r" "concat r = drop off (concat (drop i ps))"
    using io_slices_Ok by blast
  with assms show ?thesis by (auto simp: buf_to_io_slice_def buf_wf_def)
qed

text \<open>The fold of \<open>count\<close>, started with \<open>rest\<close> bytes to cover.\<close>

fun cover :: "nat \<Rightarrow> bytes list \<Rightarrow> nat" where
  "cover rest [] = 0"
| "cover rest (p # ps) = (if rest = 0 then 0 else Suc (cover (rest - length p) ps))"

lemma foldl_cover:
  "fst (foldl (\<lambda>(cnt, rest) bs. if rest = 0 then (cnt, 0) else (cnt + 1, rest - length bs))
     (c, rest) ps) = c + cover rest ps"
proof (induction ps arbitrary: c rest)
  case (Cons p ps)
  have "cover 0 ps = 0" by (cases ps) simp_all
  with Cons show ?case by simp
qed simp

lemma buf_count_cover: "buf_count (NonContiguous ps sz i off) = cover (sz + off) (drop i ps)"
  using foldl_cover [of 0 "sz + off" "drop i ps"] by (simp add: buf_count_def)

lemma cover_0 [simp]: "cover 0 ps = 0"
  by (cases ps) simp_all

lemma buf_iter_count:
  "buf_wf b \<Longrightarrow> buf_bytes b \<noteq> [] \<Longrightarrow> \<exists>cs. buf_iter b = Ok cs \<and> length cs = buf_count b"
proof (induction b rule: buf_iter.induct)
  case (1 b)
  from buf_next_wf [OF "1.prems"(1)] "1.prems"(2) obtain c b' where
    n: "buf_next b = Ok (Some c, b')" and wf': "buf_wf b'" and eq: "buf_bytes b = c @ buf_bytes b'"
    by auto
  show ?case
  proof (cases b)
    case (Contiguous bs)
    with n have "b' = Contiguous []" "buf_iter b' = Ok []"
      by (auto simp: buf_next_def buf_iter.simps split: if_splits)
    with n Contiguous show ?thesis by (simp add: buf_iter.simps [of "Contiguous bs"] buf_count_def)
  next
    case (NonContiguous ps sz i off)
    note b' = buf_next_Some [OF n [unfolded NonContiguous]]
    have cnt: "buf_count b = Suc (cover (sz + off - length (ps ! i)) (drop (Suc i) ps))"
      using b' by (simp add: NonContiguous buf_count_cover drop_nth)
    show ?thesis
    proof (cases "buf_bytes b' = []")
      case True
      then have "buf_iter b' = Ok []"
        using buf_next_wf [OF wf'] by (auto simp: buf_iter.simps [of b'])
      moreover have "sz + off - length (ps ! i) = 0"
      proof (rule ccontr)
        assume "sz + off - length (ps ! i) \<noteq> 0"
        with b' have "buf_len b' \<noteq> 0" by (auto simp: buf_len_def)
        with True wf' show False by simp
      qed
      ultimately show ?thesis using n cnt by (simp add: buf_iter.simps [of b])
    next
      case False
      from "1.IH" [OF n refl refl wf' False] obtain cs where
        cs: "buf_iter b' = Ok cs" "length cs = buf_count b'" by blast
      have "length (ps ! i) \<le> off + sz"
        using False b' by (auto simp: buf_bytes_def split: if_splits)
      then have "buf_count b' = cover (sz + off - length (ps ! i)) (drop (Suc i) ps)"
        using b' by (simp add: buf_count_cover)
      with cs n cnt show ?thesis by (simp add: buf_iter.simps [of b])
    qed
  qed
qed

subsection \<open>A part without bytes\<close>

definition stuck :: "8 word \<Rightarrow> buffer" where
  "stuck x = buf_from_parts [[], [x]]"

lemma stuck_step:
  "buf_len (stuck x) = 1" "buf_chunk (stuck x) = Ok []" "buf_advance 0 (stuck x) = Ok (stuck x)"
  by (simp_all add: stuck_def buf_from_parts_def buf_len_def buf_chunk_def buf_advance_def
      part_at_def usize_sub_def bytes_slice_def advance_loop.simps)

lemma drain_stuck: "drain_buf buf_len buf_chunk buf_advance dst (stuck x) = None"
proof (rule ccontr)
  assume "drain_buf buf_len buf_chunk buf_advance dst (stuck x) \<noteq> None"
  then obtain r where ret: "drain_buf buf_len buf_chunk buf_advance dst (stuck x) = Some r" by auto
  have "\<not> (buf_len = buf_len \<and> buf_chunk = buf_chunk \<and> buf_advance = buf_advance \<and> stuck x = stuck x)"
  proof (rule drain_buf.raw_induct [where P = "\<lambda>rem ch adv dst src r.
      \<not> (rem = buf_len \<and> ch = buf_chunk \<and> adv = buf_advance \<and> src = stuck x)", OF _ ret])
    fix f :: "(buffer \<Rightarrow> nat) \<Rightarrow> (buffer \<Rightarrow> bytes res) \<Rightarrow> (nat \<Rightarrow> buffer \<Rightarrow> buffer res)
        \<Rightarrow> bytes \<Rightarrow> buffer \<Rightarrow> bytes res option"
      and rem ch adv dst src r
    assume IH: "\<And>rem ch adv dst src r. f rem ch adv dst src = Some r \<Longrightarrow>
        \<not> (rem = buf_len \<and> ch = buf_chunk \<and> adv = buf_advance \<and> src = stuck x)"
      and step: "(if rem src = 0 then Some (Ok dst)
        else case ch src of
            Ok s \<Rightarrow> (case adv (length s) src of
               Ok src' \<Rightarrow> f rem ch adv (dst @ s) src' | Err e \<Rightarrow> Some (Err e) | Panic \<Rightarrow> Some Panic)
          | Err e \<Rightarrow> Some (Err e) | Panic \<Rightarrow> Some Panic) = Some r"
    show "\<not> (rem = buf_len \<and> ch = buf_chunk \<and> adv = buf_advance \<and> src = stuck x)"
    proof
      assume "rem = buf_len \<and> ch = buf_chunk \<and> adv = buf_advance \<and> src = stuck x"
      with step have "f buf_len buf_chunk buf_advance dst (stuck x) = Some r"
        by (simp add: stuck_step)
      with IH show False by blast
    qed
  qed
  then show False by simp
qed

subsection \<open>Properties\<close>

text \<open>
  Advancing a buffer: on a well-formed buffer \<open>advance n\<close> drops the first \<open>n\<close> bytes
  of the content and keeps the buffer well formed when \<open>n\<close> is at most the length, and
  panics when \<open>n\<close> is larger.
\<close>

theorem buf_advance_content:
  assumes "buf_wf b"
  shows "if n \<le> buf_len b
    then \<exists>b'. buf_advance n b = Ok b' \<and> buf_wf b' \<and> buf_bytes b' = drop n (buf_bytes b)
    else buf_advance n b = Panic"
  using buf_advance_Ok [OF assms, of n] buf_advance_Panic [of b n] by auto

theorem buf_advance_content_witness:
  "buf_wf (buf_from_parts [[1], [], [2, 3]]) \<and>
   (\<exists>b'. buf_advance 2 (buf_from_parts [[1], [], [2, 3]]) = Ok b' \<and> buf_bytes b' = [3])"
proof -
  have wf: "buf_wf (buf_from_parts [[1], [], [2, 3]])" by simp
  from buf_advance_content [OF wf, of 2] wf show ?thesis by auto
qed

text \<open>
  C27. Slicing a buffer: for bounds that denote \<open>lo..hi\<close> within the buffer, \<open>slice\<close>
  returns a well-formed buffer with exactly the bytes from \<open>lo\<close> up to \<open>hi\<close>; for any other
  bounds it panics.
\<close>

theorem buf_slice_content:
  assumes "buf_wf b"
    and "lo = (case sb of Included n \<Rightarrow> n | Excluded n \<Rightarrow> n + 1 | Unbounded \<Rightarrow> 0)"
    and "hi = (case eb of Included n \<Rightarrow> n + 1 | Excluded n \<Rightarrow> n | Unbounded \<Rightarrow> buf_len b)"
  shows "if lo \<le> hi \<and> hi \<le> buf_len b
    then \<exists>b'. buf_slice sb eb b = Ok b' \<and> buf_wf b' \<and> buf_bytes b' = take (hi - lo) (drop lo (buf_bytes b))
    else buf_slice sb eb b = Panic"
  using assms by (rule buf_slice_spec)

theorem buf_slice_content_witness:
  "\<exists>b'. buf_slice (Included 1) (Excluded 3) (buf_from_parts [[1, 2], [3, 4]]) = Ok b'
     \<and> buf_bytes b' = [2, 3]"
proof -
  have wf: "buf_wf (buf_from_parts [[1, 2], [3, 4]])" by simp
  from buf_slice_content [OF wf, of 1 "Included 1" 3 "Excluded 3"] wf show ?thesis by auto
qed

text \<open>
  Iterating a buffer: a well-formed buffer yields, without panicking and in finitely
  many steps, byte strings whose concatenation is its content; if there is anything left
  to read, their number is what \<open>count\<close> says.
\<close>

theorem buf_iter_content:
  assumes "buf_wf b"
  shows "\<exists>cs. buf_iter b = Ok cs \<and> concat cs = buf_bytes b
    \<and> (buf_bytes b \<noteq> [] \<longrightarrow> length cs = buf_count b)"
proof -
  from buf_iter_concat [OF assms] obtain cs where "buf_iter b = Ok cs" "concat cs = buf_bytes b"
    by blast
  then show ?thesis using buf_iter_count [OF assms] by auto
qed

theorem buf_iter_content_witness:
  "buf_wf (buf_from_parts [[1], [2, 3]]) \<and>
   (\<exists>cs. buf_iter (buf_from_parts [[1], [2, 3]]) = Ok cs \<and> concat cs = [1, 2, 3] \<and> length cs = 2)"
proof -
  have wf: "buf_wf (buf_from_parts [[1], [2, 3]])" by simp
  have "buf_count (buf_from_parts [[1], [2, 3]]) = 2"
    by (simp add: buf_from_parts_def buf_count_def)
  with buf_iter_content [OF wf] wf show ?thesis by auto
qed

text \<open>
  Copying a buffer out: if no part is empty, \<open>to_vec\<close> and \<open>to_bytes\<close> return, and
  return exactly the content, whatever was advanced over or truncated before.
\<close>

theorem buf_to_vec_content:
  assumes "buf_wf b" and "parts_nonempty b"
  shows "buf_to_vec b = Some (Ok (buf_bytes b)) \<and> buf_to_bytes b = Some (Ok (buf_bytes b))"
proof -
  have d: "drain_buf buf_len buf_chunk buf_advance [] b = Some (Ok (buf_bytes b))"
    using whole.drain_content [of b "[]"] assms by simp
  have "bytes_slice off (off + sz) (ps ! 0) = Ok (take sz (drop off (concat (drop i ps))))"
    if "b = NonContiguous ps sz i off" "length ps = 1" for ps sz i off
  proof -
    from that obtain p where p: "ps = [p]" by (cases ps) auto
    have "i = 0 \<or> (i = 1 \<and> off = 0 \<and> sz = 0)"
      using assms(1) that p by (cases i) (auto simp: buf_wf_def)
    then show ?thesis using assms(1) that p by (auto simp: buf_wf_def bytes_slice_def)
  qed
  with d show ?thesis
    by (cases b) (auto simp: buf_to_vec_def buf_to_bytes_def buf_bytes_def)
qed

theorem buf_to_vec_content_witness:
  "buf_to_vec (buf_from_parts [[1, 2], [3]]) = Some (Ok [1, 2, 3])"
proof -
  have "buf_wf (buf_from_parts [[1, 2], [3]])" "parts_nonempty (buf_from_parts [[1, 2], [3]])"
    by (simp_all) (simp add: parts_nonempty_def buf_from_parts_def)
  from buf_to_vec_content [OF this] show ?thesis by simp
qed

text \<open>
  Empty parts: for a buffer built from an empty byte string followed by a byte, one
  byte remains, yet the current chunk is empty and advancing over it changes nothing; the
  copying loop of \<open>to_vec\<close> and \<open>to_bytes\<close> never returns.
\<close>

theorem buf_empty_part_diverges:
  "buf_len (buf_from_parts [[], [x]]) = 1
   \<and> buf_chunk (buf_from_parts [[], [x]]) = Ok []
   \<and> buf_to_vec (buf_from_parts [[], [x]]) = None
   \<and> buf_to_bytes (buf_from_parts [[], [x]]) = None"
proof -
  have "buf_to_bytes (stuck x) = None"
    using drain_stuck [of "[]" x] by (simp add: buf_to_bytes_def stuck_def buf_from_parts_def)
  moreover have "buf_to_vec (stuck x) = None" by (simp add: buf_to_vec_def drain_stuck)
  ultimately show ?thesis using stuck_step [of x] by (simp add: stuck_def)
qed

text \<open>
  Vectored output: \<open>to_io_slice\<close> hands out every byte from the cursor to the end of
  the last part. These are the content followed by whatever a truncation had cut off, so
  for a truncated buffer the slices exceed the content.
\<close>

theorem buf_to_io_slice_ignores_size:
  assumes "buf_wf (NonContiguous ps sz i off)"
  shows "(\<exists>r. buf_to_io_slice (NonContiguous ps sz i off) = Ok r
      \<and> concat r = buf_bytes (NonContiguous ps sz i off) @ drop (off + sz) (concat (drop i ps)))
    \<and> buf_to_io_slice (buf_truncate 1 (buf_from_parts [[1, 2]])) = Ok [[1, 2]]
    \<and> buf_bytes (buf_truncate 1 (buf_from_parts [[1, 2]])) = [1]"
proof (intro conjI)
  have "drop off (concat (drop i ps)) =
      take sz (drop off (concat (drop i ps))) @ drop (off + sz) (concat (drop i ps))"
    by (metis append_take_drop_id add.commute drop_drop)
  then show "\<exists>r. buf_to_io_slice (NonContiguous ps sz i off) = Ok r
      \<and> concat r = buf_bytes (NonContiguous ps sz i off) @ drop (off + sz) (concat (drop i ps))"
    using buf_to_io_slice_concat [OF assms] by (auto simp: buf_bytes_def)
  show "buf_to_io_slice (buf_truncate 1 (buf_from_parts [[1, 2]])) = Ok [[1, 2]]"
    by (simp add: buf_to_io_slice_def buf_truncate_def buf_from_parts_def)
  show "buf_bytes (buf_truncate 1 (buf_from_parts [[1, 2]])) = [1]"
    by simp
qed

theorem buf_to_io_slice_ignores_size_witness:
  "buf_wf (NonContiguous [[1, 2], [3]] 1 0 1)
   \<and> (\<exists>r. buf_to_io_slice (NonContiguous [[1, 2], [3]] 1 0 1) = Ok r \<and> concat r = [2, 3])"
proof -
  have wf: "buf_wf (NonContiguous [[1, 2], [3]] 1 0 1)" by (simp add: buf_wf_def)
  with buf_to_io_slice_ignores_size [OF wf] show ?thesis by (auto simp: buf_bytes_def)
qed

end
