(* ===== verification/Queues.thy ===== *)
theory Queues
  imports Buffers
begin

text \<open>
  The byte queues and pools of \<^verbatim>\<open>core/src/raw/oio/buf\<close>: \<open>QueueBuf\<close> (a queue of buffers,
  consumed in order without copying), \<open>FlexBuf\<close> (a fixed-capacity buffer that is filled,
  frozen, drained and reused) and \<open>PooledBuf\<close> (a pool of reusable byte vectors behind a
  lock that is only ever tried).

  \<open>QueueBuf\<close> and \<open>FlexBuf\<close> both meet the interface \<open>byte_queue\<close>.
\<close>

subsection \<open>\<open>QueueBuf\<close>\<close>

type_synonym queue_buf = "buffer list"

definition queue_new :: queue_buf where
  "queue_new = []"

definition queue_push :: "buffer \<Rightarrow> queue_buf \<Rightarrow> queue_buf" where
  "queue_push buf q = (if buf_is_empty buf then q else q @ [buf])"

definition queue_len :: "queue_buf \<Rightarrow> nat" where
  "queue_len q = sum_list (map buf_len q)"

definition queue_is_empty :: "queue_buf \<Rightarrow> bool" where
  "queue_is_empty q = (queue_len q = 0)"

definition queue_take :: "queue_buf \<Rightarrow> queue_buf \<times> queue_buf" where
  "queue_take q = (q, queue_new)"

fun queue_flatten :: "queue_buf \<Rightarrow> bytes list res" where
  "queue_flatten [] = Ok []"
| "queue_flatten (b # q) =
     and_then (buf_iter b) (\<lambda>cs. and_then (queue_flatten q) (\<lambda>ds. Ok (cs @ ds)))"

definition queue_collect :: "queue_buf \<Rightarrow> buffer res" where
  "queue_collect q =
     (case q of
        [] \<Rightarrow> Ok buf_new
      | [b] \<Rightarrow> Ok b
      | _ \<Rightarrow> and_then (queue_flatten q) (\<lambda>cs. Ok (buf_from_iter cs)))"

text \<open>The \<open>while\<close> loop of \<open>advance\<close>: a front buffer that is used up is popped.\<close>

fun queue_advance_loop :: "nat \<Rightarrow> queue_buf \<Rightarrow> queue_buf res" where
  "queue_advance_loop new_cnt [] = guard (new_cnt = 0) (Ok [])"
| "queue_advance_loop new_cnt (b # q) =
     (if 0 < new_cnt then
        if new_cnt < buf_len b then and_then (buf_advance new_cnt b) (\<lambda>b'. Ok (b' # q))
        else queue_advance_loop (new_cnt - buf_len b) q
      else Ok (b # q))"

definition queue_advance :: "nat \<Rightarrow> queue_buf \<Rightarrow> queue_buf res" where
  "queue_advance cnt q = guard (cnt \<le> queue_len q) (queue_advance_loop cnt q)"

definition queue_clear :: "queue_buf \<Rightarrow> queue_buf" where
  "queue_clear q = []"

text \<open>The abstraction of a queue and its invariant.\<close>

definition queue_bytes :: "queue_buf \<Rightarrow> bytes" where
  "queue_bytes q = concat (map buf_bytes q)"

definition queue_wf :: "queue_buf \<Rightarrow> bool" where
  "queue_wf q = (\<forall>b \<in> set q. buf_wf b \<and> buf_bytes b \<noteq> [])"

lemma queue_simps [simp]:
  "queue_wf []" "queue_bytes [] = []"
  "queue_wf (b # q) \<longleftrightarrow> buf_wf b \<and> buf_bytes b \<noteq> [] \<and> queue_wf q"
  "queue_bytes (b # q) = buf_bytes b @ queue_bytes q"
  "queue_wf (q @ r) \<longleftrightarrow> queue_wf q \<and> queue_wf r"
  "queue_bytes (q @ r) = queue_bytes q @ queue_bytes r"
  by (auto simp: queue_wf_def queue_bytes_def)

lemma queue_new_simps [simp]: "queue_wf queue_new" "queue_bytes queue_new = []"
  by (simp_all add: queue_new_def)

lemma queue_len_bytes [simp]: "queue_wf q \<Longrightarrow> queue_len q = length (queue_bytes q)"
  by (induction q) (auto simp: queue_len_def)

lemma queue_is_empty_iff: "queue_wf q \<Longrightarrow> queue_is_empty q \<longleftrightarrow> q = []"
  by (cases q) (auto simp: queue_is_empty_def)

lemma queue_push_wf [simp]: "queue_wf q \<Longrightarrow> buf_wf b \<Longrightarrow> queue_wf (queue_push b q)"
  by (auto simp: queue_push_def buf_is_empty_def)

lemma queue_push_bytes [simp]:
  "buf_wf b \<Longrightarrow> queue_bytes (queue_push b q) = queue_bytes q @ buf_bytes b"
  by (auto simp: queue_push_def buf_is_empty_def)

lemma queue_flatten_concat:
  "queue_wf q \<Longrightarrow> \<exists>cs. queue_flatten q = Ok cs \<and> concat cs = queue_bytes q"
proof (induction q)
  case (Cons b q)
  then obtain ds where "queue_flatten q = Ok ds" "concat ds = queue_bytes q" by auto
  moreover obtain cs where "buf_iter b = Ok cs" "concat cs = buf_bytes b"
    using Cons.prems buf_iter_concat [of b] by auto
  ultimately show ?case by simp
qed simp

lemma queue_collect_Ok:
  assumes "queue_wf q"
  shows "\<exists>b. queue_collect q = Ok b \<and> buf_wf b \<and> buf_bytes b = queue_bytes q"
proof -
  consider "q = []" | b where "q = [b]" | b c r where "q = b # c # r"
    by (metis list.exhaust)
  then show ?thesis
  proof cases
    case (3 b c r)
    then have "queue_collect q = and_then (queue_flatten q) (\<lambda>cs. Ok (buf_from_iter cs))"
      by (simp only: queue_collect_def list.case)
    with queue_flatten_concat [OF assms] show ?thesis by auto
  qed (use assms in \<open>simp_all add: queue_collect_def\<close>)
qed

lemma queue_advance_loop_Ok:
  "queue_wf q \<Longrightarrow> n \<le> length (queue_bytes q) \<Longrightarrow>
     \<exists>q'. queue_advance_loop n q = Ok q' \<and> queue_wf q' \<and> queue_bytes q' = drop n (queue_bytes q)"
proof (induction n q rule: queue_advance_loop.induct)
  case (2 n b q)
  show ?case
  proof (cases "0 < n \<and> n < buf_len b")
    case True
    moreover obtain b' where "buf_advance n b = Ok b'" "buf_wf b'" "buf_bytes b' = drop n (buf_bytes b)"
      using buf_advance_Ok [of b n] "2.prems"(1) True by auto
    ultimately show ?thesis using "2.prems" by simp
  next
    case False
    with 2 show ?thesis by (cases "n = 0") auto
  qed
qed simp

interpretation qb: byte_queue queue_len queue_advance queue_bytes queue_wf
proof unfold_locales
  fix q :: queue_buf and n
  assume "queue_wf q"
  then show "queue_len q = length (queue_bytes q)" by simp
  show "\<exists>q'. queue_advance n q = Ok q' \<and> queue_wf q' \<and> queue_bytes q' = drop n (queue_bytes q)"
    if "n \<le> queue_len q"
    using \<open>queue_wf q\<close> that queue_advance_loop_Ok [of q n] by (simp add: queue_advance_def)
qed

subsection \<open>\<open>FlexBuf\<close>\<close>

record flex_buf =
  fb_cap :: nat
  fb_len :: nat
  fb_buf :: bytes
  fb_frozen :: "bytes option"

definition flex_new :: "nat \<Rightarrow> flex_buf" where
  "flex_new cap = \<lparr>fb_cap = cap, fb_len = 0, fb_buf = [], fb_frozen = None\<rparr>"

definition flex_put :: "bytes \<Rightarrow> flex_buf \<Rightarrow> (nat \<times> flex_buf) res" where
  "flex_put bs f =
     (if fb_frozen f \<noteq> None then Ok (0, f)
      else and_then (usize_sub (fb_cap f) (fb_len f)) (\<lambda>room.
        let n = min room (length bs);
            f1 = f\<lparr>fb_buf := fb_buf f @ take n bs, fb_len := fb_len f + n\<rparr>;
            f2 = (if fb_cap f1 \<le> fb_len f1
                  then f1\<lparr>fb_buf := [], fb_len := 0, fb_frozen := Some (fb_buf f1)\<rparr>
                  else f1)
        in Ok (n, f2)))"

definition flex_freeze :: "flex_buf \<Rightarrow> flex_buf" where
  "flex_freeze f =
     (if fb_len f = 0 then f
      else f\<lparr>fb_buf := [], fb_len := 0, fb_frozen := Some (fb_buf f)\<rparr>)"

definition flex_get :: "flex_buf \<Rightarrow> bytes option" where
  "flex_get f = fb_frozen f"

definition flex_clean :: "flex_buf \<Rightarrow> flex_buf" where
  "flex_clean f = f\<lparr>fb_frozen := None\<rparr>"

definition flex_advance :: "nat \<Rightarrow> flex_buf \<Rightarrow> flex_buf res" where
  "flex_advance cnt f =
     guard (fb_len f = 0)
       (case fb_frozen f of
          None \<Rightarrow> Panic
        | Some bs \<Rightarrow>
            guard (cnt \<le> length bs)
              (let bs' = drop cnt bs; f1 = f\<lparr>fb_frozen := Some bs'\<rparr>
               in Ok (if bs' = [] then flex_clean f1 else f1)))"

text \<open>
  Filling and frozen are exclusive: while filling, the written length is that of the bytes
  and below the capacity; once frozen, nothing more is written.
\<close>

definition flex_wf :: "flex_buf \<Rightarrow> bool" where
  "flex_wf f =
     (fb_len f = length (fb_buf f) \<and> 0 < fb_cap f
      \<and> (case fb_frozen f of
           None \<Rightarrow> fb_len f < fb_cap f
         | Some bs \<Rightarrow> fb_len f = 0 \<and> bs \<noteq> [] \<and> length bs \<le> fb_cap f))"

definition flex_bytes :: "flex_buf \<Rightarrow> bytes" where
  "flex_bytes f = (case fb_frozen f of Some bs \<Rightarrow> bs | None \<Rightarrow> fb_buf f)"

lemma flex_put_spec:
  assumes "flex_wf f"
  shows "\<exists>n f'. flex_put bs f = Ok (n, f') \<and> flex_wf f'
    \<and> flex_bytes f' = flex_bytes f @ take n bs
    \<and> n = (if flex_get f = None then min (fb_cap f - length (flex_bytes f)) (length bs) else 0)
    \<and> fb_cap f' = fb_cap f"
proof (cases "fb_frozen f")
  case None
  define n where "n = min (fb_cap f - fb_len f) (length bs)"
  define f' where "f' = (if fb_cap f \<le> fb_len f + n
      then f\<lparr>fb_buf := [], fb_len := 0, fb_frozen := Some (fb_buf f @ take n bs)\<rparr>
      else f\<lparr>fb_buf := fb_buf f @ take n bs, fb_len := fb_len f + n\<rparr>)"
  have len: "fb_len f = length (fb_buf f)" "fb_len f < fb_cap f"
    using assms None by (auto simp: flex_wf_def)
  have "flex_put bs f = Ok (n, f')"
    using None len by (simp add: flex_put_def usize_sub_def n_def f'_def Let_def)
  moreover have "flex_wf f'"
    using None len by (auto simp: flex_wf_def f'_def n_def)
  moreover have "flex_bytes f' = flex_bytes f @ take n bs" "fb_cap f' = fb_cap f"
    using None by (auto simp: flex_bytes_def f'_def)
  ultimately show ?thesis
    using None len by (auto simp: flex_get_def flex_bytes_def n_def)
qed (use assms in \<open>simp add: flex_put_def flex_get_def flex_bytes_def\<close>)

lemma flex_freeze_spec:
  "flex_wf f \<Longrightarrow> flex_wf (flex_freeze f) \<and> flex_bytes (flex_freeze f) = flex_bytes f
     \<and> (flex_get (flex_freeze f) = (if flex_bytes f = [] then None else Some (flex_bytes f)))"
  by (auto simp: flex_wf_def flex_freeze_def flex_bytes_def flex_get_def split: option.splits)

lemma flex_advance_spec:
  assumes "flex_wf f" "flex_get f = Some bs" "n \<le> length bs"
  shows "\<exists>f'. flex_advance n f = Ok f' \<and> flex_wf f' \<and> flex_bytes f' = drop n bs
    \<and> flex_get f' = (if n = length bs then None else Some (drop n bs))"
  using assms
  by (auto simp: flex_wf_def flex_get_def flex_advance_def flex_clean_def flex_bytes_def Let_def)

text \<open>What a reader of a frozen buffer sees is a byte queue.\<close>

interpretation fb: byte_queue
  "\<lambda>f. case flex_get f of None \<Rightarrow> 0 | Some bs \<Rightarrow> length bs"
  "\<lambda>n f. if n = 0 then Ok f else flex_advance n f"
  flex_bytes "\<lambda>f. flex_wf f \<and> fb_len f = 0"
proof unfold_locales
  fix f n
  assume f: "flex_wf f \<and> fb_len f = 0"
  then show "(case flex_get f of None \<Rightarrow> 0 | Some bs \<Rightarrow> length bs) = length (flex_bytes f)"
    by (auto simp: flex_get_def flex_bytes_def flex_wf_def split: option.splits)
  show "\<exists>f'. (if n = 0 then Ok f else flex_advance n f) = Ok f' \<and> (flex_wf f' \<and> fb_len f' = 0)
      \<and> flex_bytes f' = drop n (flex_bytes f)"
    if n: "n \<le> (case flex_get f of None \<Rightarrow> 0 | Some bs \<Rightarrow> length bs)"
  proof (cases "flex_get f")
    case None
    with n f show ?thesis by simp
  next
    case (Some bs)
    then have "flex_bytes f = bs" by (simp add: flex_bytes_def flex_get_def)
    moreover have "fb_len f' = 0" if "flex_advance n f = Ok f'" for f'
      using that f by (auto simp: flex_advance_def flex_clean_def outcome_simps Let_def split: option.splits)
    ultimately show ?thesis using flex_advance_spec [of f bs n] Some n f by auto
  qed
qed

subsection \<open>\<open>PooledBuf\<close>\<close>

record bytes_mut =
  bm_bytes :: bytes
  bm_cap :: nat

record pooled_buf =
  pb_pool :: "bytes_mut list"
  pb_size :: nat
  pb_initial_capacity :: nat

definition pooled_new :: "nat \<Rightarrow> pooled_buf" where
  "pooled_new n = \<lparr>pb_pool = [], pb_size = n, pb_initial_capacity = 0\<rparr>"

definition pooled_with_initial_capacity :: "nat \<Rightarrow> pooled_buf \<Rightarrow> pooled_buf" where
  "pooled_with_initial_capacity c p = p\<lparr>pb_initial_capacity := c\<rparr>"

text \<open>\<open>locked\<close> says that another thread holds the lock when it is tried.\<close>

definition pooled_get :: "bool \<Rightarrow> pooled_buf \<Rightarrow> bytes_mut \<times> pooled_buf" where
  "pooled_get locked p =
     (if locked then (\<lparr>bm_bytes = [], bm_cap = pb_initial_capacity p\<rparr>, p)
      else case pb_pool p of
          b # bs \<Rightarrow> (b, p\<lparr>pb_pool := bs\<rparr>)
        | [] \<Rightarrow> (\<lparr>bm_bytes = [], bm_cap = pb_initial_capacity p\<rparr>, p))"

definition pooled_put :: "bool \<Rightarrow> bytes_mut \<Rightarrow> pooled_buf \<Rightarrow> pooled_buf" where
  "pooled_put locked b p =
     (if locked then p
      else if length (pb_pool p) < pb_size p
      then p\<lparr>pb_pool := pb_pool p @ [b\<lparr>bm_bytes := []\<rparr>]\<rparr>
      else p)"

definition pooled_wf :: "pooled_buf \<Rightarrow> bool" where
  "pooled_wf p = (length (pb_pool p) \<le> pb_size p \<and> list_all (\<lambda>b. bm_bytes b = []) (pb_pool p))"

lemma pooled_wf_new: "pooled_wf (pooled_with_initial_capacity c (pooled_new n))"
  by (simp add: pooled_wf_def pooled_new_def pooled_with_initial_capacity_def)

lemma pooled_wf_put: "pooled_wf p \<Longrightarrow> pooled_wf (pooled_put l b p)"
  by (simp add: pooled_wf_def pooled_put_def)

lemma pooled_get_empty:
  "pooled_wf p \<Longrightarrow> bm_bytes (fst (pooled_get l p)) = [] \<and> pooled_wf (snd (pooled_get l p))"
  by (auto simp: pooled_wf_def pooled_get_def split: list.splits)

subsection \<open>Properties\<close>

text \<open>
  C26. The queue of buffers refines a byte string: pushing appends the content of the buffer,
  collecting yields a well-formed buffer with all the bytes in order, and advancing drops
  bytes from the front when there are enough of them and panics otherwise. Every
  operation keeps the invariant that queued buffers are well formed and not empty.
\<close>

theorem queue_refines_bytes:
  assumes "queue_wf q" and "buf_wf b"
  shows "queue_wf (queue_push b q) \<and> queue_bytes (queue_push b q) = queue_bytes q @ buf_bytes b
    \<and> queue_len q = length (queue_bytes q)
    \<and> (\<exists>c. queue_collect q = Ok c \<and> buf_wf c \<and> buf_bytes c = queue_bytes q)
    \<and> (if n \<le> queue_len q
       then \<exists>q'. queue_advance n q = Ok q' \<and> queue_wf q' \<and> queue_bytes q' = drop n (queue_bytes q)
       else queue_advance n q = Panic)"
  using assms qb.advance_content [OF assms(1), of n] queue_collect_Ok [OF assms(1)]
  by (auto simp: queue_advance_def)

theorem queue_refines_bytes_witness:
  "\<exists>q'. queue_advance 3 (queue_push (Contiguous [3, 4]) [Contiguous [1, 2]]) = Ok q'
     \<and> queue_bytes q' = [4]"
proof -
  have q: "queue_wf (queue_push (Contiguous [3, 4]) [Contiguous [1, 2]])" by simp
  from queue_refines_bytes [OF q buf_wf_new(1), of 3] q show ?thesis by auto
qed

text \<open>
  The reusable buffer: from a buffer that meets its invariant, \<open>put\<close> takes as many
  bytes as fit (none once frozen) and appends exactly those, \<open>freeze\<close> makes the content
  readable, and advancing over the frozen bytes drops them and returns the buffer to the
  filling state when they are used up; no operation breaks the invariant.
\<close>

theorem flex_buf_cycle:
  assumes "flex_wf f"
  shows "(\<exists>n f'. flex_put bs f = Ok (n, f') \<and> flex_wf f' \<and> flex_bytes f' = flex_bytes f @ take n bs
      \<and> n = (if flex_get f = None then min (fb_cap f - length (flex_bytes f)) (length bs) else 0))
    \<and> flex_wf (flex_freeze f)
    \<and> flex_get (flex_freeze f) = (if flex_bytes f = [] then None else Some (flex_bytes f))
    \<and> (n \<le> length (flex_bytes f) \<and> flex_bytes f \<noteq> [] \<longrightarrow>
        (\<exists>f'. flex_advance n (flex_freeze f) = Ok f' \<and> flex_wf f'
          \<and> flex_get f' = (if n = length (flex_bytes f) then None else Some (drop n (flex_bytes f)))))"
proof (intro conjI impI)
  show "\<exists>n f'. flex_put bs f = Ok (n, f') \<and> flex_wf f' \<and> flex_bytes f' = flex_bytes f @ take n bs
      \<and> n = (if flex_get f = None then min (fb_cap f - length (flex_bytes f)) (length bs) else 0)"
    using flex_put_spec [OF assms] by blast
  note fr = flex_freeze_spec [OF assms]
  then show "flex_wf (flex_freeze f)"
    "flex_get (flex_freeze f) = (if flex_bytes f = [] then None else Some (flex_bytes f))"
    by simp_all
  assume "n \<le> length (flex_bytes f) \<and> flex_bytes f \<noteq> []"
  with fr flex_advance_spec [of "flex_freeze f" "flex_bytes f" n]
  show "\<exists>f'. flex_advance n (flex_freeze f) = Ok f' \<and> flex_wf f'
      \<and> flex_get f' = (if n = length (flex_bytes f) then None else Some (drop n (flex_bytes f)))"
    by auto
qed

theorem flex_buf_cycle_witness:
  "\<exists>n f'. flex_put [7, 8, 9] \<lparr>fb_cap = 4, fb_len = 2, fb_buf = [5, 6], fb_frozen = None\<rparr> = Ok (n, f')
     \<and> n = 2 \<and> flex_bytes f' = [5, 6, 7, 8]"
proof -
  let ?f = "\<lparr>fb_cap = 4, fb_len = 2, fb_buf = [5, 6], fb_frozen = None\<rparr> :: flex_buf"
  have wf: "flex_wf ?f" by (simp add: flex_wf_def)
  from conjunct1 [OF flex_buf_cycle [OF wf, of "[7, 8, 9]"]] show ?thesis
    by (auto simp: flex_get_def flex_bytes_def)
qed

end
