(* ===== verification/Tasks.thy ===== *)
theory Tasks
  imports Errors
begin

text \<open>
  The two concurrency helpers of \<^verbatim>\<open>core/src/raw/futures_util.rs\<close>. \<open>ConcurrentTasks\<close> runs the
  uploads of a writer and the downloads of a reader; \<open>ConcurrentFutures\<close> is a stream over
  futures that are polled together.

  Time and the outside world enter in one place. When a task is spawned, the world
  \<open>'w\<close> decides what it will return and how many polls of it will find it unfinished
  (\<open>task_delay\<close>); a schedule is the sequence of these decisions. Awaiting a task skips its
  delay. The factory, a function of the caller, is the argument \<open>spawn\<close>. The capacity is the
  one \<^verbatim>\<open>VecDeque::with_capacity\<close> gave, which pushing within it never changes.

  \<^verbatim>\<open>FuturesOrdered\<close>, a type of the \<^verbatim>\<open>futures\<close> crate, is the record of its operations
  (\<open>fo_ops\<close>), with its documented behaviour as the locale \<open>futures_ordered\<close>.
\<close>

subsection \<open>\<open>ConcurrentTasks\<close>: state and operations\<close>

datatype ('i, 'o) task = Task (task_input: 'i) (task_delay: nat) (task_output: "'i \<times> (error + 'o)")

type_synonym ('i, 'o, 'w) spawn = "'i \<Rightarrow> 'w \<Rightarrow> ('i, 'o) task \<times> 'w"

record ('i, 'o) concurrent_tasks =
  ct_cap :: nat
  ct_tasks :: "('i, 'o) task list"
  ct_results :: "'o list"
  ct_errored :: bool

definition ct_new :: "nat \<Rightarrow> ('i, 'o) concurrent_tasks" where
  "ct_new cap = \<lparr>ct_cap = cap, ct_tasks = [], ct_results = [], ct_errored = False\<rparr>"

definition ct_is_concurrent :: "('i, 'o) concurrent_tasks \<Rightarrow> bool" where
  "ct_is_concurrent st = (1 < ct_cap st)"

definition ct_clear :: "('i, 'o) concurrent_tasks \<Rightarrow> ('i, 'o) concurrent_tasks" where
  "ct_clear st = st\<lparr>ct_tasks := [], ct_results := []\<rparr>"

definition ct_has_remaining :: "('i, 'o) concurrent_tasks \<Rightarrow> bool" where
  "ct_has_remaining st = (length (ct_tasks st) < ct_cap st)"

definition ct_has_result :: "('i, 'o) concurrent_tasks \<Rightarrow> bool" where
  "ct_has_result st = (ct_results st \<noteq> [])"

definition ct_error :: error where
  "ct_error = new_error Unexpected ''concurrent tasks met an unrecoverable error''"

text \<open>
  The error arm of the three places that look at a finished front task: a temporary error
  restarts the task in place, any other error cancels everything.
\<close>

definition ct_fail ::
  "('i, 'o, 'w) spawn \<Rightarrow> 'i \<Rightarrow> error \<Rightarrow> ('i, 'o) concurrent_tasks \<Rightarrow> 'w
     \<Rightarrow> ('i, 'o) concurrent_tasks \<times> 'w" where
  "ct_fail spawn i err st w =
     (if is_temporary err
      then let (t, w') = spawn i w in (st\<lparr>ct_tasks := t # tl (ct_tasks st)\<rparr>, w')
      else ((ct_clear st)\<lparr>ct_errored := True\<rparr>, w))"

definition ct_pop_push :: "'o \<Rightarrow> ('i, 'o) concurrent_tasks \<Rightarrow> ('i, 'o) concurrent_tasks" where
  "ct_pop_push out st = st\<lparr>ct_tasks := tl (ct_tasks st), ct_results := ct_results st @ [out]\<rparr>"

text \<open>
  The first block of the loop: the front task is polled once. If it is ready with a result
  the result is queued; if it is ready with an error, its input and the error come back.
\<close>

definition ct_poll_front ::
  "('i, 'o) concurrent_tasks \<Rightarrow> ('i \<times> error) option \<times> ('i, 'o) concurrent_tasks" where
  "ct_poll_front st =
     (case ct_tasks st of
        [] \<Rightarrow> (None, st)
      | t # ts \<Rightarrow>
          if task_delay t = 0 then
            (case task_output t of
               (i, Inr out) \<Rightarrow> (None, ct_pop_push out st)
             | (i, Inl err) \<Rightarrow> (Some (i, err), st))
          else (None, st\<lparr>ct_tasks := Task (task_input t) (task_delay t - 1) (task_output t) # ts\<rparr>))"

lemma ct_poll_front_length:
  "ct_poll_front st = (p, st1) \<Longrightarrow> length (ct_tasks st1) \<le> length (ct_tasks st)"
  by (auto simp: ct_poll_front_def ct_pop_push_def split: list.splits prod.splits sum.splits if_splits)

function ct_execute_loop ::
  "('i, 'o, 'w) spawn \<Rightarrow> 'i \<Rightarrow> ('i, 'o) concurrent_tasks \<Rightarrow> 'w
     \<Rightarrow> unit res \<times> ('i, 'o) concurrent_tasks \<times> 'w" where
  "ct_execute_loop spawn input st w =
     (case ct_poll_front st of
        (Some (i, err), st1) \<Rightarrow> (let (st', w') = ct_fail spawn i err st1 w in (Err err, st', w'))
      | (None, st1) \<Rightarrow>
          if length (ct_tasks st1) < ct_cap st1 then
            (let (t, w') = spawn input w in (Ok (), st1\<lparr>ct_tasks := ct_tasks st1 @ [t]\<rparr>, w'))
          else
            (case ct_tasks st1 of
               [] \<Rightarrow> (Panic, st1, w)
             | t # ts \<Rightarrow>
                 (case task_output t of
                    (i, Inr out) \<Rightarrow> ct_execute_loop spawn input (ct_pop_push out st1) w
                  | (i, Inl err) \<Rightarrow>
                      (let (st', w') = ct_fail spawn i err st1 w in (Err err, st', w')))))"
  by pat_completeness auto
termination
  by (relation "measure (\<lambda>(spawn, input, st, w). length (ct_tasks st))")
    (auto simp: ct_pop_push_def dest!: ct_poll_front_length [OF sym])

declare ct_execute_loop.simps [simp del]

definition ct_execute ::
  "('i, 'o, 'w) spawn \<Rightarrow> 'i \<Rightarrow> ('i, 'o) concurrent_tasks \<Rightarrow> 'w
     \<Rightarrow> unit res \<times> ('i, 'o) concurrent_tasks \<times> 'w" where
  "ct_execute spawn input st w =
     (if ct_errored st then (Err ct_error, st, w)
      else if \<not> ct_is_concurrent st then
        (let (t, w') = spawn input w in
         case snd (task_output t) of
           Inr out \<Rightarrow> (Ok (), st\<lparr>ct_results := ct_results st @ [out]\<rparr>, w')
         | Inl err \<Rightarrow> (Err err, st, w'))
      else ct_execute_loop spawn input st w)"

definition ct_next ::
  "('i, 'o, 'w) spawn \<Rightarrow> ('i, 'o) concurrent_tasks \<Rightarrow> 'w
     \<Rightarrow> (error + 'o) option \<times> ('i, 'o) concurrent_tasks \<times> 'w" where
  "ct_next spawn st w =
     (if ct_errored st then (Some (Inl ct_error), st, w)
      else case ct_results st of
          out # rs \<Rightarrow> (Some (Inr out), st\<lparr>ct_results := rs\<rparr>, w)
        | [] \<Rightarrow>
            (case ct_tasks st of
               t # ts \<Rightarrow>
                 (case task_output t of
                    (i, Inr out) \<Rightarrow> (Some (Inr out), st\<lparr>ct_tasks := ts\<rparr>, w)
                  | (i, Inl err) \<Rightarrow>
                      (let (st', w') = ct_fail spawn i err st w in (Some (Inl err), st', w')))
             | [] \<Rightarrow> (None, st, w)))"

lemma ct_next_shrinks:
  assumes "ct_next spawn st w = (Some (Inr out), st', w')"
  shows "length (ct_results st') + length (ct_tasks st') < length (ct_results st) + length (ct_tasks st)"
  using assms by (auto simp: ct_next_def Let_def split: if_splits list.splits prod.splits sum.splits)

text \<open>
  The loop every client closes with: fetch until there is nothing left or an error comes.
\<close>

function ct_drain ::
  "('i, 'o, 'w) spawn \<Rightarrow> 'o list \<Rightarrow> ('i, 'o) concurrent_tasks \<Rightarrow> 'w
     \<Rightarrow> unit res \<times> 'o list \<times> ('i, 'o) concurrent_tasks \<times> 'w" where
  "ct_drain spawn del st w =
     (case ct_next spawn st w of
        (None, st', w') \<Rightarrow> (Ok (), del, st', w')
      | (Some (Inr out), st', w') \<Rightarrow> ct_drain spawn (del @ [out]) st' w'
      | (Some (Inl err), st', w') \<Rightarrow> (Err err, del, st', w'))"
  by pat_completeness auto
termination
  by (relation "measure (\<lambda>(spawn, del, st, w). length (ct_results st) + length (ct_tasks st))")
    (auto dest!: ct_next_shrinks [OF sym])

declare ct_drain.simps [simp del]

text \<open>
  A client's use of the tasks: a sequence of submissions and fetches. The run collects the
  inputs whose submission succeeded and the results that were fetched.
\<close>

datatype 'i ct_op = Execute 'i | Next

fun ct_run ::
  "('i, 'o, 'w) spawn \<Rightarrow> 'i ct_op list \<Rightarrow> 'i list \<Rightarrow> 'o list \<Rightarrow> ('i, 'o) concurrent_tasks \<Rightarrow> 'w
     \<Rightarrow> 'i list \<times> 'o list \<times> ('i, 'o) concurrent_tasks \<times> 'w" where
  "ct_run spawn [] acc del st w = (acc, del, st, w)"
| "ct_run spawn (Execute i # ops) acc del st w =
     (case ct_execute spawn i st w of
        (Ok u, st', w') \<Rightarrow> ct_run spawn ops (acc @ [i]) del st' w'
      | (_, st', w') \<Rightarrow> ct_run spawn ops acc del st' w')"
| "ct_run spawn (Next # ops) acc del st w =
     (case ct_next spawn st w of
        (Some (Inr out), st', w') \<Rightarrow> ct_run spawn ops acc (del @ [out]) st' w'
      | (_, st', w') \<Rightarrow> ct_run spawn ops acc del st' w')"

subsection \<open>The contract of a factory\<close>

text \<open>
  A task answers for its own input, and its output, when there is one, is one that its
  input may produce.
\<close>

definition honest :: "('i \<Rightarrow> 'o \<Rightarrow> bool) \<Rightarrow> 'i \<Rightarrow> ('i, 'o) task \<Rightarrow> bool" where
  "honest R i t = (task_input t = i \<and> fst (task_output t) = i
     \<and> (case snd (task_output t) of Inr out \<Rightarrow> R i out | Inl err \<Rightarrow> True))"

lemma honest_delay [simp]:
  "honest R i (Task (task_input t) d (task_output t)) = honest R i t"
  by (simp add: honest_def)

definition ct_inv :: "('i \<Rightarrow> 'o \<Rightarrow> bool) \<Rightarrow> ('i, 'o) concurrent_tasks \<Rightarrow> bool" where
  "ct_inv R st = (length (ct_tasks st) \<le> ct_cap st
     \<and> (\<not> ct_is_concurrent st \<longrightarrow> ct_tasks st = [])
     \<and> (\<forall>t \<in> set (ct_tasks st). honest R (task_input t) t)
     \<and> (ct_errored st \<longrightarrow> ct_tasks st = [] \<and> ct_results st = []))"

text \<open>
  What is held for the client: the accepted inputs are those whose results were fetched,
  then those whose results wait, then those of the running tasks, in order.
\<close>

definition tracks ::
  "('i \<Rightarrow> 'o \<Rightarrow> bool) \<Rightarrow> 'i list \<Rightarrow> 'o list \<Rightarrow> ('i, 'o) concurrent_tasks \<Rightarrow> bool" where
  "tracks R acc del st = (\<exists>fin run. acc = fin @ run
     \<and> list_all2 R fin (del @ ct_results st)
     \<and> (ct_errored st \<or> run = map task_input (ct_tasks st)))"

definition ct_holds ::
  "('i \<Rightarrow> 'o \<Rightarrow> bool) \<Rightarrow> 'i list \<Rightarrow> 'o list \<Rightarrow> ('i, 'o) concurrent_tasks \<Rightarrow> bool" where
  "ct_holds R acc del st = (ct_inv R st \<and> tracks R acc del st)"

lemma ct_holds_new: "ct_holds R [] [] (ct_new cap)"
  by (auto simp: ct_holds_def ct_inv_def tracks_def ct_new_def)

lemma tracks_errored:
  assumes "tracks R acc del st" "ct_errored st'" "ct_results st' = []"
  shows "tracks R acc del st'"
proof -
  obtain fin run where d: "acc = fin @ run" "list_all2 R fin (del @ ct_results st)"
    using assms(1) by (auto simp: tracks_def)
  then obtain d1 d2 where "fin = d1 @ d2" "list_all2 R d1 del"
    by (auto simp: list_all2_append2)
  with d assms show ?thesis by (auto simp: tracks_def)
qed

lemma ct_holds_pop_push:
  assumes h: "ct_holds R acc del st" "\<not> ct_errored st" "ct_tasks st = t # ts"
    "task_output t = (i, Inr out)"
  shows "ct_holds R acc del (ct_pop_push out st)" "\<not> ct_errored (ct_pop_push out st)"
    "ct_holds R acc (del @ [out]) (st\<lparr>ct_tasks := ts\<rparr>) \<or> ct_results st \<noteq> []"
proof -
  have R: "R (task_input t) out"
    using h by (auto simp: ct_holds_def ct_inv_def honest_def)
  obtain fin run where d: "acc = fin @ run" "list_all2 R fin (del @ ct_results st)"
    "run = task_input t # map task_input ts"
    using h by (auto simp: ct_holds_def tracks_def)
  have "acc = (fin @ [task_input t]) @ map task_input ts"
    "list_all2 R (fin @ [task_input t]) ((del @ ct_results st) @ [out])"
    using d R by (simp, intro list_all2_appendI) simp_all
  then have tr: "\<exists>fin run. acc = fin @ run \<and> list_all2 R fin (del @ ct_results st @ [out])
      \<and> run = map task_input ts"
    by auto
  then show "ct_holds R acc del (ct_pop_push out st)"
    using h by (auto simp: ct_holds_def ct_inv_def tracks_def ct_pop_push_def ct_is_concurrent_def)
  show "\<not> ct_errored (ct_pop_push out st)" using h by (simp add: ct_pop_push_def)
  show "ct_holds R acc (del @ [out]) (st\<lparr>ct_tasks := ts\<rparr>) \<or> ct_results st \<noteq> []"
    using h tr by (auto simp: ct_holds_def ct_inv_def tracks_def ct_is_concurrent_def)
qed

lemma ct_poll_front_cases:
  assumes "ct_holds R acc del st" "\<not> ct_errored st" "ct_poll_front st = (polled, st1)"
  shows "ct_holds R acc del st1 \<and> \<not> ct_errored st1 \<and> ct_cap st1 = ct_cap st
    \<and> (\<forall>i err. polled = Some (i, err) \<longrightarrow> (\<exists>t ts. ct_tasks st1 = t # ts \<and> task_output t = (i, Inl err)))"
proof (cases "ct_tasks st")
  case Nil
  with assms show ?thesis by (auto simp: ct_poll_front_def)
next
  case (Cons t ts)
  consider "task_delay t \<noteq> 0" | i out where "task_delay t = 0" "task_output t = (i, Inr out)"
    | i err where "task_delay t = 0" "task_output t = (i, Inl err)"
    by (metis prod.exhaust sum.exhaust)
  then show ?thesis
  proof cases
    case 1
    with assms Cons show ?thesis
      by (auto simp: ct_poll_front_def ct_holds_def ct_inv_def tracks_def ct_is_concurrent_def)
  next
    case (2 i out)
    with assms Cons ct_holds_pop_push [OF assms(1,2) Cons 2(2)] show ?thesis
      by (auto simp: ct_poll_front_def ct_pop_push_def)
  next
    case (3 i err)
    with assms Cons show ?thesis by (auto simp: ct_poll_front_def)
  qed
qed

locale task_factory =
  fixes spawn :: "('i, 'o, 'w) spawn"
    and R :: "'i \<Rightarrow> 'o \<Rightarrow> bool"
  assumes spawn_honest: "honest R i (fst (spawn i w))"
begin

lemma spawned: "spawn i w = (t, w') \<Longrightarrow> honest R i t"
  using spawn_honest [of i w] by simp

lemma fail_holds:
  assumes h: "ct_holds R acc del st" "\<not> ct_errored st" "ct_tasks st = t # ts"
    "task_output t = (i, Inl err)" "ct_fail spawn i err st w = (st', w')"
  shows "ct_holds R acc del st' \<and> ct_errored st' = (\<not> is_temporary err)"
proof (cases "is_temporary err")
  case True
  obtain t' w1 where sp: "spawn i w = (t', w1)" by fastforce
  have "i = task_input t" using h by (auto simp: ct_holds_def ct_inv_def honest_def)
  moreover have "honest R (task_input t') t'" "task_input t' = i"
    using spawned [OF sp] by (auto simp: honest_def)
  moreover have "st' = st\<lparr>ct_tasks := t' # ts\<rparr>"
    using h True sp by (auto simp: ct_fail_def)
  ultimately show ?thesis
    using h True
    by (auto simp: ct_holds_def ct_inv_def tracks_def ct_is_concurrent_def)
next
  case False
  then have st': "st' = (ct_clear st)\<lparr>ct_errored := True\<rparr>"
    using h by (simp add: ct_fail_def)
  have "tracks R acc del st'"
    using tracks_errored [of R acc del st st'] h st' by (simp add: ct_holds_def ct_clear_def)
  with h st' False show ?thesis
    by (simp add: ct_holds_def ct_inv_def ct_clear_def ct_is_concurrent_def)
qed

lemma push_holds:
  assumes "ct_holds R acc del st" "\<not> ct_errored st" "ct_is_concurrent st"
    "length (ct_tasks st) < ct_cap st" "spawn i w = (t, w')"
  shows "ct_holds R (acc @ [i]) del (st\<lparr>ct_tasks := ct_tasks st @ [t]\<rparr>)"
  using assms spawned [OF assms(5)]
  by (auto simp: ct_holds_def ct_inv_def tracks_def honest_def ct_is_concurrent_def)

text \<open>
  What a submission may do: accept the input; return an error that some running task met,
  keeping everything else (a temporary error) or cancelling everything. It never panics.
\<close>

lemma execute_loop_holds:
  "ct_holds R acc del st \<Longrightarrow> \<not> ct_errored st \<Longrightarrow> ct_is_concurrent st \<Longrightarrow>
   ct_execute_loop spawn input st w = (r, st', w') \<Longrightarrow>
     (r = Ok () \<and> ct_holds R (acc @ [input]) del st' \<and> \<not> ct_errored st')
     \<or> (\<exists>err. r = Err err \<and> ct_holds R acc del st' \<and> ct_errored st' = (\<not> is_temporary err))"
proof (induction "length (ct_tasks st)" arbitrary: st rule: less_induct)
  case less
  obtain polled st1 where p: "ct_poll_front st = (polled, st1)" by fastforce
  note p1 = ct_poll_front_cases [OF less.prems(1,2) p]
  note unf = ct_execute_loop.simps [of spawn input st w]
  show ?case
  proof (cases polled)
    case (Some ie)
    obtain i err where ie: "ie = (i, err)" by fastforce
    obtain t ts where "ct_tasks st1 = t # ts" "task_output t = (i, Inl err)"
      using p1 Some ie by blast
    moreover obtain st2 w2 where f: "ct_fail spawn i err st1 w = (st2, w2)" by fastforce
    ultimately have "ct_holds R acc del st2 \<and> ct_errored st2 = (\<not> is_temporary err)"
      using fail_holds p1 by blast
    with less.prems(4) p Some ie f show ?thesis by (auto simp: unf)
  next
    case None
    have conc: "ct_is_concurrent st1" using p1 less.prems(3) by (simp add: ct_is_concurrent_def)
    show ?thesis
    proof (cases "length (ct_tasks st1) < ct_cap st1")
      case True
      obtain t w1 where sp: "spawn input w = (t, w1)" by fastforce
      have "ct_holds R (acc @ [input]) del (st1\<lparr>ct_tasks := ct_tasks st1 @ [t]\<rparr>)"
        using push_holds [OF _ _ conc True sp] p1 by blast
      with less.prems(4) p None True sp p1 show ?thesis by (auto simp: unf)
    next
      case False
      with conc obtain t ts where ts: "ct_tasks st1 = t # ts"
        by (cases "ct_tasks st1") (auto simp: ct_is_concurrent_def)
      obtain i s where out: "task_output t = (i, s)" by fastforce
      show ?thesis
      proof (cases s)
        case (Inl err)
        obtain st2 w2 where f: "ct_fail spawn i err st1 w = (st2, w2)" by fastforce
        have "ct_holds R acc del st2 \<and> ct_errored st2 = (\<not> is_temporary err)"
          using fail_holds [OF _ _ ts _ f, of acc del] out Inl p1 by blast
        with less.prems(4) p None False ts out Inl f show ?thesis by (auto simp: unf)
      next
        case (Inr x)
        with less.prems(4) p None False ts out
        have rec: "ct_execute_loop spawn input (ct_pop_push x st1) w = (r, st', w')"
          by (simp add: unf)
        have "ct_holds R acc del (ct_pop_push x st1)" "\<not> ct_errored (ct_pop_push x st1)"
          using ct_holds_pop_push [of R acc del st1] p1 ts out Inr by auto
        moreover have "ct_is_concurrent (ct_pop_push x st1)"
          using conc by (simp add: ct_is_concurrent_def ct_pop_push_def)
        moreover have "length (ct_tasks (ct_pop_push x st1)) < length (ct_tasks st)"
          using ts ct_poll_front_length [OF p] by (simp add: ct_pop_push_def)
        ultimately show ?thesis using less.hyps rec by blast
      qed
    qed
  qed
qed

lemma execute_holds:
  assumes h: "ct_holds R acc del st" and e: "\<not> ct_errored st"
    and r: "ct_execute spawn input st w = (r, st', w')"
  shows "(r = Ok () \<and> ct_holds R (acc @ [input]) del st' \<and> \<not> ct_errored st')
     \<or> (\<exists>err. r = Err err \<and> ct_holds R acc del st'
          \<and> ct_errored st' = (ct_is_concurrent st \<and> \<not> is_temporary err))"
proof (cases "ct_is_concurrent st")
  case True
  with e r have "ct_execute_loop spawn input st w = (r, st', w')" by (simp add: ct_execute_def)
  with execute_loop_holds [OF h e True] True show ?thesis by blast
next
  case False
  obtain t w1 where sp: "spawn input w = (t, w1)" by fastforce
  show ?thesis
  proof (cases "snd (task_output t)")
    case (Inl err)
    with False e r sp h show ?thesis by (auto simp: ct_execute_def)
  next
    case (Inr out)
    have "R input out" using spawned [OF sp] Inr by (simp add: honest_def)
    moreover have "ct_tasks st = []" using h False by (simp add: ct_holds_def ct_inv_def)
    moreover have "st' = st\<lparr>ct_results := ct_results st @ [out]\<rparr>" "r = Ok ()"
      using False e r sp Inr by (simp_all add: ct_execute_def)
    moreover obtain fin where "acc = fin" "list_all2 R fin (del @ ct_results st)"
      using h e \<open>ct_tasks st = []\<close> by (auto simp: ct_holds_def tracks_def)
    ultimately have "list_all2 R (acc @ [input]) (del @ ct_results st')"
      by (auto simp flip: append_assoc intro: list_all2_appendI)
    with h e \<open>st' = _\<close> \<open>r = _\<close> \<open>ct_tasks st = []\<close> show ?thesis
      by (auto simp: ct_holds_def ct_inv_def tracks_def ct_is_concurrent_def)
  qed
qed

lemma next_holds:
  assumes h: "ct_holds R acc del st" and e: "\<not> ct_errored st"
    and r: "ct_next spawn st w = (r, st', w')"
  shows "(r = None \<and> st' = st \<and> ct_tasks st = [] \<and> ct_results st = [])
     \<or> (\<exists>out. r = Some (Inr out) \<and> ct_holds R acc (del @ [out]) st' \<and> \<not> ct_errored st')
     \<or> (\<exists>err. r = Some (Inl err) \<and> ct_holds R acc del st' \<and> ct_errored st' = (\<not> is_temporary err))"
proof (cases "ct_results st")
  case (Cons out rs)
  with e r have "r = Some (Inr out)" "st' = st\<lparr>ct_results := rs\<rparr>" by (simp_all add: ct_next_def)
  with h e Cons show ?thesis
    by (auto simp: ct_holds_def ct_inv_def tracks_def ct_is_concurrent_def)
next
  case res: Nil
  show ?thesis
  proof (cases "ct_tasks st")
    case Nil
    with res e r show ?thesis by (simp add: ct_next_def)
  next
    case (Cons t ts)
    obtain i s where out: "task_output t = (i, s)" by fastforce
    show ?thesis
    proof (cases s)
      case (Inl err)
      obtain st2 w2 where f: "ct_fail spawn i err st w = (st2, w2)" by fastforce
      have "ct_holds R acc del st2 \<and> ct_errored st2 = (\<not> is_temporary err)"
        using fail_holds [OF h e Cons _ f] out Inl by simp
      with r res Cons out Inl f e show ?thesis by (auto simp: ct_next_def)
    next
      case (Inr x)
      with ct_holds_pop_push(3) [OF h e Cons] out res
      have "ct_holds R acc (del @ [x]) (st\<lparr>ct_tasks := ts\<rparr>)" by blast
      with r res Cons out Inr e show ?thesis by (auto simp: ct_next_def)
    qed
  qed
qed

lemma drain_holds:
  "ct_holds R acc (got @ del) st \<Longrightarrow> \<not> ct_errored st \<Longrightarrow> ct_drain spawn del st w = (r, del', st', w') \<Longrightarrow>
     (r = Ok () \<and> ct_holds R acc (got @ del') st' \<and> \<not> ct_errored st' \<and> ct_tasks st' = []
        \<and> ct_results st' = [] \<and> list_all2 R acc (got @ del'))
     \<or> (\<exists>err. r = Err err \<and> ct_holds R acc (got @ del') st' \<and> ct_errored st' = (\<not> is_temporary err))"
proof (induction "length (ct_results st) + length (ct_tasks st)" arbitrary: del st w rule: less_induct)
  case less
  obtain n st1 w1 where n: "ct_next spawn st w = (n, st1, w1)" by (metis prod_cases3)
  note unf = ct_drain.simps [of spawn del st w]
  from next_holds [OF less.prems(1,2) n] show ?case
  proof (elim disjE exE conjE)
    assume *: "n = None" "st1 = st" "ct_tasks st = []" "ct_results st = []"
    with less.prems have "list_all2 R acc (got @ del)" by (auto simp: ct_holds_def tracks_def)
    with * n less.prems show ?thesis by (simp add: unf)
  next
    fix out assume *: "n = Some (Inr out)" "ct_holds R acc ((got @ del) @ [out]) st1" "\<not> ct_errored st1"
    have "length (ct_results st1) + length (ct_tasks st1) < length (ct_results st) + length (ct_tasks st)"
      using ct_next_shrinks [of spawn st w out st1 w1] n *(1) by simp
    moreover have "ct_drain spawn (del @ [out]) st1 w1 = (r, del', st', w')"
      using less.prems(3) n * by (simp add: unf)
    ultimately show ?thesis using less.hyps [of st1 "del @ [out]"] * by simp
  next
    fix err assume "n = Some (Inl err)" "ct_holds R acc (got @ del) st1" "ct_errored st1 = (\<not> is_temporary err)"
    with n less.prems(3) show ?thesis by (auto simp: unf)
  qed
qed

lemma drain_errored:
  "ct_errored st \<Longrightarrow> ct_drain spawn del st w = (Err ct_error, del, st, w)"
  by (simp add: ct_drain.simps ct_next_def)

lemma execute_errored:
  "ct_errored st \<Longrightarrow> ct_execute spawn input st w = (Err ct_error, st, w)"
  by (simp add: ct_execute_def)

lemma run_holds:
  "ct_holds R acc del st \<Longrightarrow> ct_run spawn ops acc del st w = (acc', del', st', w') \<Longrightarrow>
     ct_holds R acc' del' st'"
proof (induction ops arbitrary: acc del st w)
  case (Cons op ops)
  show ?case
  proof (cases "ct_errored st")
    case True
    have "ct_run spawn (op # ops) acc del st w = ct_run spawn ops acc del st w"
      using True by (cases op) (auto simp: ct_execute_def ct_next_def)
    with Cons show ?thesis by simp
  next
    case False
    show ?thesis
    proof (cases op)
      case (Execute i)
      obtain r st1 w1 where x: "ct_execute spawn i st w = (r, st1, w1)" by (metis prod_cases3)
      from execute_holds [OF Cons.prems(1) False x] show ?thesis
      proof (elim disjE exE conjE)
        assume "r = Ok ()" "ct_holds R (acc @ [i]) del st1"
        with Cons.IH [of "acc @ [i]"] Cons.prems(2) Execute x show ?thesis by simp
      next
        fix err assume "r = Err err" "ct_holds R acc del st1"
        with Cons.IH [of acc] Cons.prems(2) Execute x show ?thesis by simp
      qed
    next
      case Next
      obtain r st1 w1 where x: "ct_next spawn st w = (r, st1, w1)" by (metis prod_cases3)
      from next_holds [OF Cons.prems(1) False x] show ?thesis
      proof (elim disjE exE conjE)
        assume "r = None" "st1 = st"
        with Cons.IH [OF Cons.prems(1)] Cons.prems(2) Next x show ?thesis by simp
      next
        fix out assume "r = Some (Inr out)" "ct_holds R acc (del @ [out]) st1"
        with Cons.IH [of acc "del @ [out]"] Cons.prems(2) Next x show ?thesis by simp
      next
        fix err assume "r = Some (Inl err)" "ct_holds R acc del st1"
        with Cons.IH [of acc] Cons.prems(2) Next x show ?thesis by simp
      qed
    qed
  qed
qed simp

end

lemma ct_fail_cap [simp]: "ct_fail spawn i err st w = (st', w') \<Longrightarrow> ct_cap st' = ct_cap st"
  by (auto simp: ct_fail_def ct_clear_def split: if_splits prod.splits)

lemma ct_poll_front_cap: "ct_poll_front st = (p, st1) \<Longrightarrow> ct_cap st1 = ct_cap st"
  by (auto simp: ct_poll_front_def ct_pop_push_def split: list.splits prod.splits sum.splits if_splits)

lemma ct_execute_loop_cap:
  "ct_execute_loop spawn input st w = (r, st', w') \<Longrightarrow> ct_cap st' = ct_cap st"
proof (induction "length (ct_tasks st)" arbitrary: st rule: less_induct)
  case less
  obtain p st1 where p: "ct_poll_front st = (p, st1)" by fastforce
  have rec: "ct_cap st' = ct_cap st"
    if "ct_tasks st1 = t # ts" "ct_execute_loop spawn input (ct_pop_push out st1) w = (r, st', w')" for t ts out
  proof -
    have "length (ct_tasks (ct_pop_push out st1)) < length (ct_tasks st)"
      using that(1) ct_poll_front_length [OF p] by (simp add: ct_pop_push_def)
    from less.hyps [OF this that(2)] ct_poll_front_cap [OF p] show ?thesis
      by (simp add: ct_pop_push_def)
  qed
  show ?case
    using less.prems p rec ct_poll_front_cap [OF p]
    by (subst (asm) ct_execute_loop.simps)
      (auto split: option.splits prod.splits if_splits list.splits sum.splits)
qed

lemma ct_execute_cap: "ct_execute spawn input st w = (r, st', w') \<Longrightarrow> ct_cap st' = ct_cap st"
  by (auto simp: ct_execute_def Let_def split: if_splits prod.splits sum.splits
      dest: ct_execute_loop_cap)

lemma ct_next_cap: "ct_next spawn st w = (r, st', w') \<Longrightarrow> ct_cap st' = ct_cap st"
  by (auto simp: ct_next_def Let_def split: if_splits prod.splits sum.splits list.splits)

lemma ct_run_cap: "ct_run spawn ops acc del st w = (acc', del', st', w') \<Longrightarrow> ct_cap st' = ct_cap st"
proof (induction ops arbitrary: acc del st w)
  case (Cons op ops)
  show ?case
  proof (cases op)
    case (Execute i)
    obtain r st1 w1 where x: "ct_execute spawn i st w = (r, st1, w1)" by (metis prod_cases3)
    with Cons Execute ct_execute_cap [OF x] show ?thesis by (cases r) auto
  next
    case Next
    obtain r st1 w1 where x: "ct_next spawn st w = (r, st1, w1)" by (metis prod_cases3)
    with Cons Next ct_next_cap [OF x] show ?thesis by (auto split: option.splits sum.splits)
  qed
qed simp

text \<open>
  A factory that computes \<open>f\<close>, on a network whose delays and failures are scripted: the world
  is the list of answers still to come.
\<close>

definition flaky :: "('i \<Rightarrow> 'o) \<Rightarrow> ('i, 'o, (nat \<times> error option) list) spawn" where
  "flaky f i w =
     (case w of
        [] \<Rightarrow> (Task i 0 (i, Inr (f i)), [])
      | (d, None) # w' \<Rightarrow> (Task i d (i, Inr (f i)), w')
      | (d, Some err) # w' \<Rightarrow> (Task i d (i, Inl err), w'))"

lemma flaky_honest: "honest (\<lambda>i out. out = f i) i (fst (flaky f i w))"
  by (auto simp: flaky_def honest_def split: list.splits option.splits)

interpretation flaky: task_factory "flaky f" "\<lambda>i out. out = f i" for f
  by unfold_locales (rule flaky_honest)

subsection \<open>\<open>ConcurrentFutures\<close>\<close>

datatype 'a poll = Ready 'a | Pending

datatype 'o future = Fut (fut_delay: nat) (fut_output: 'o)

fun poll_future :: "'o future \<Rightarrow> 'o poll \<times> 'o future" where
  "poll_future (Fut 0 out) = (Ready out, Fut 0 out)"
| "poll_future (Fut (Suc n) out) = (Pending, Fut n out)"

datatype 'o task_result = Polling "'o future" | ResultReady 'o

datatype ('o, 'l) tasks = Once "'o future option" | Small "'o task_result list" | Large 'l

record ('o, 'l) fo_ops =
  fo_new :: 'l
  fo_len :: "'l \<Rightarrow> nat"
  fo_push_back :: "'o future \<Rightarrow> 'l \<Rightarrow> 'l"
  fo_push_front :: "'o future \<Rightarrow> 'l \<Rightarrow> 'l"
  fo_poll_next :: "'l \<Rightarrow> 'o option poll \<times> 'l"

record ('o, 'l) concurrent_futures =
  cf_tasks :: "('o, 'l) tasks"
  cf_concurrent :: nat

definition cf_large_threshold :: nat where
  "cf_large_threshold = 8"

definition cf_new :: "('o, 'l) fo_ops \<Rightarrow> nat \<Rightarrow> ('o, 'l) concurrent_futures" where
  "cf_new fo concurrent =
     (if concurrent < 2 then \<lparr>cf_tasks = Once None, cf_concurrent = concurrent\<rparr>
      else if concurrent \<le> cf_large_threshold
      then \<lparr>cf_tasks = Small [], cf_concurrent = concurrent\<rparr>
      else \<lparr>cf_tasks = Large (fo_new fo), cf_concurrent = concurrent\<rparr>)"

definition cf_clear :: "('o, 'l) fo_ops \<Rightarrow> ('o, 'l) concurrent_futures \<Rightarrow> ('o, 'l) concurrent_futures" where
  "cf_clear fo cf =
     cf\<lparr>cf_tasks := (case cf_tasks cf of
          Once f \<Rightarrow> Once None | Small v \<Rightarrow> Small [] | Large l \<Rightarrow> Large (fo_new fo))\<rparr>"

definition cf_len :: "('o, 'l) fo_ops \<Rightarrow> ('o, 'l) concurrent_futures \<Rightarrow> nat" where
  "cf_len fo cf =
     (case cf_tasks cf of
        Once f \<Rightarrow> if f = None then 0 else 1
      | Small v \<Rightarrow> length v
      | Large l \<Rightarrow> fo_len fo l)"

definition cf_is_empty :: "('o, 'l) fo_ops \<Rightarrow> ('o, 'l) concurrent_futures \<Rightarrow> bool" where
  "cf_is_empty fo cf = (cf_len fo cf = 0)"

definition cf_remaining :: "('o, 'l) fo_ops \<Rightarrow> ('o, 'l) concurrent_futures \<Rightarrow> nat res" where
  "cf_remaining fo cf = guard (cf_len fo cf \<le> cf_concurrent cf) (Ok (cf_concurrent cf - cf_len fo cf))"

definition cf_has_remaining :: "('o, 'l) fo_ops \<Rightarrow> ('o, 'l) concurrent_futures \<Rightarrow> bool res" where
  "cf_has_remaining fo cf = and_then (cf_remaining fo cf) (\<lambda>n. Ok (0 < n))"

definition cf_push_back ::
  "('o, 'l) fo_ops \<Rightarrow> 'o future \<Rightarrow> ('o, 'l) concurrent_futures \<Rightarrow> ('o, 'l) concurrent_futures res" where
  "cf_push_back fo f cf =
     and_then (cf_has_remaining fo cf) (\<lambda>b. guard b
       (Ok (cf\<lparr>cf_tasks := (case cf_tasks cf of
              Once g \<Rightarrow> Once (Some f)
            | Small v \<Rightarrow> Small (v @ [Polling f])
            | Large l \<Rightarrow> Large (fo_push_back fo f l))\<rparr>)))"

definition cf_push_front ::
  "('o, 'l) fo_ops \<Rightarrow> 'o future \<Rightarrow> ('o, 'l) concurrent_futures \<Rightarrow> ('o, 'l) concurrent_futures res" where
  "cf_push_front fo f cf =
     and_then (cf_has_remaining fo cf) (\<lambda>b. guard b
       (Ok (cf\<lparr>cf_tasks := (case cf_tasks cf of
              Once g \<Rightarrow> Once (Some f)
            | Small v \<Rightarrow> Small (Polling f # v)
            | Large l \<Rightarrow> Large (fo_push_front fo f l))\<rparr>)))"

fun poll_task :: "'o task_result \<Rightarrow> 'o task_result" where
  "poll_task (Polling f) =
     (case poll_future f of (Pending, f') \<Rightarrow> Polling f' | (Ready r, f') \<Rightarrow> ResultReady r)"
| "poll_task (ResultReady r) = ResultReady r"

definition small_poll_next :: "'o task_result list \<Rightarrow> 'o option poll \<times> 'o task_result list" where
  "small_poll_next v =
     (let v' = map poll_task v in
      case v' of
        Polling f # rest \<Rightarrow> (Pending, v')
      | ResultReady r # rest \<Rightarrow> (Ready (Some r), rest)
      | [] \<Rightarrow> (Ready None, v'))"

definition cf_poll_next ::
  "('o, 'l) fo_ops \<Rightarrow> ('o, 'l) concurrent_futures \<Rightarrow> 'o option poll \<times> ('o, 'l) concurrent_futures" where
  "cf_poll_next fo cf =
     (case cf_tasks cf of
        Once None \<Rightarrow> (Ready None, cf)
      | Once (Some f) \<Rightarrow>
          (case poll_future f of
             (Ready v, f') \<Rightarrow> (Ready (Some v), cf\<lparr>cf_tasks := Once None\<rparr>)
           | (Pending, f') \<Rightarrow> (Pending, cf\<lparr>cf_tasks := Once (Some f')\<rparr>))
      | Small v \<Rightarrow> (let (r, v') = small_poll_next v in (r, cf\<lparr>cf_tasks := Small v'\<rparr>))
      | Large l \<Rightarrow> (let (r, l') = fo_poll_next fo l in (r, cf\<lparr>cf_tasks := Large l'\<rparr>)))"

subsection \<open>The contract of a queue of futures\<close>

text \<open>
  A queue holds outputs to come. Polling it returns the first of them, or \<open>Pending\<close>, which
  can happen only finitely often (\<open>rank\<close>), or reports the end when there are none.
\<close>

fun poll_many :: "('q \<Rightarrow> 'o option poll \<times> 'q) \<Rightarrow> nat \<Rightarrow> 'q \<Rightarrow> 'o list \<times> 'q" where
  "poll_many p 0 q = ([], q)"
| "poll_many p (Suc n) q =
     (case p q of
        (Ready (Some x), q') \<Rightarrow> (let (xs, q2) = poll_many p n q' in (x # xs, q2))
      | (_, q') \<Rightarrow> poll_many p n q')"

locale future_queue =
  fixes flen :: "'q \<Rightarrow> nat"
    and fpoll :: "'q \<Rightarrow> 'o option poll \<times> 'q"
    and outs :: "'q \<Rightarrow> 'o list"
    and rank :: "'q \<Rightarrow> nat"
  assumes flen_outs: "flen q = length (outs q)"
    and fpoll_Nil: "outs q = [] \<Longrightarrow> \<exists>q'. fpoll q = (Ready None, q') \<and> outs q' = []"
    and fpoll_Cons: "outs q = x # xs \<Longrightarrow>
      (\<exists>q'. fpoll q = (Pending, q') \<and> outs q' = outs q \<and> rank q' < rank q)
      \<or> (\<exists>q'. fpoll q = (Ready (Some x), q') \<and> outs q' = xs \<and> rank q' \<le> rank q)"
begin

lemma poll_many_order: "poll_many fpoll n q = (xs, q') \<Longrightarrow> outs q = xs @ outs q'"
proof (induction n arbitrary: q xs)
  case (Suc n)
  show ?case
  proof (cases "outs q")
    case Nil
    with fpoll_Nil Suc show ?thesis by fastforce
  next
    case (Cons y ys)
    with fpoll_Cons [OF Cons] Suc show ?thesis by (auto split: prod.splits)
  qed
qed simp

lemma poll_many_complete:
  "rank q + length (outs q) \<le> n \<Longrightarrow> fst (poll_many fpoll n q) = outs q"
proof (induction n arbitrary: q)
  case (Suc n)
  show ?case
  proof (cases "outs q")
    case Nil
    then obtain q' where "fpoll q = (Ready None, q')" "outs q' = []" using fpoll_Nil by blast
    moreover have "fst (poll_many fpoll n q') = []"
      using poll_many_order [of n q'] \<open>outs q' = []\<close> by (metis Nil_is_append_conv prod.collapse)
    ultimately show ?thesis using Nil by simp
  next
    case (Cons y ys)
    with fpoll_Cons [OF Cons] Suc show ?thesis by (auto simp: Let_def case_prod_beta)
  qed
qed simp

end

text \<open>What \<^verbatim>\<open>FuturesOrdered\<close> documents: it is such a queue, with pushes at both ends.\<close>

locale futures_ordered = future_queue "fo_len fo" "fo_poll_next fo" outs rank
  for fo :: "('o, 'l) fo_ops"
    and outs :: "'l \<Rightarrow> 'o list"
    and rank :: "'l \<Rightarrow> nat" +
  assumes outs_new: "outs (fo_new fo) = []"
    and outs_push_back: "outs (fo_push_back fo f l) = outs l @ [fut_output f]"
    and outs_push_front: "outs (fo_push_front fo f l) = fut_output f # outs l"

fun result_output :: "'o task_result \<Rightarrow> 'o" where
  "result_output (Polling f) = fut_output f"
| "result_output (ResultReady r) = r"

fun result_delay :: "'o task_result \<Rightarrow> nat" where
  "result_delay (Polling f) = fut_delay f"
| "result_delay (ResultReady r) = 0"

definition cf_outs :: "('l \<Rightarrow> 'o list) \<Rightarrow> ('o, 'l) concurrent_futures \<Rightarrow> 'o list" where
  "cf_outs outs cf =
     (case cf_tasks cf of
        Once None \<Rightarrow> []
      | Once (Some f) \<Rightarrow> [fut_output f]
      | Small v \<Rightarrow> map result_output v
      | Large l \<Rightarrow> outs l)"

definition cf_rank :: "('l \<Rightarrow> nat) \<Rightarrow> ('o, 'l) concurrent_futures \<Rightarrow> nat" where
  "cf_rank rank cf =
     (case cf_tasks cf of
        Once None \<Rightarrow> 0
      | Once (Some f) \<Rightarrow> fut_delay f
      | Small v \<Rightarrow> sum_list (map result_delay v)
      | Large l \<Rightarrow> rank l)"

text \<open>The slot of the non-concurrent case holds one future.\<close>

definition cf_wf :: "('o, 'l) concurrent_futures \<Rightarrow> bool" where
  "cf_wf cf = (case cf_tasks cf of Once f \<Rightarrow> cf_concurrent cf < 2 | _ \<Rightarrow> True)"

lemma poll_future_cases:
  "poll_future f = (Ready (fut_output f), f) \<and> fut_delay f = 0
   \<or> (\<exists>f'. poll_future f = (Pending, f') \<and> fut_output f' = fut_output f \<and> fut_delay f' < fut_delay f)"
  by (cases f rule: poll_future.cases) auto

lemma poll_task_spec:
  "result_output (poll_task r) = result_output r \<and> result_delay (poll_task r) \<le> result_delay r
   \<and> (\<forall>f. poll_task r = Polling f \<longrightarrow> result_delay (poll_task r) < result_delay r)"
proof (cases r)
  case (Polling f)
  then show ?thesis by (cases f rule: poll_future.cases) auto
qed simp

lemmas result_output_poll [simp] = poll_task_spec [THEN conjunct1]
lemmas result_delay_poll = poll_task_spec [THEN conjunct2, THEN conjunct1]
lemmas poll_task_Polling = poll_task_spec [THEN conjunct2, THEN conjunct2, rule_format]

lemma small_poll_Nil: "small_poll_next [] = (Ready None, [])"
  by (simp add: small_poll_next_def)

lemma small_poll_Cons:
  "(\<exists>v'. small_poll_next (r # v) = (Pending, v') \<and> map result_output v' = map result_output (r # v)
      \<and> sum_list (map result_delay v') < sum_list (map result_delay (r # v)))
   \<or> (\<exists>v'. small_poll_next (r # v) = (Ready (Some (result_output r)), v')
      \<and> map result_output v' = map result_output v
      \<and> sum_list (map result_delay v') \<le> sum_list (map result_delay (r # v)))"
proof -
  have le: "sum_list (map result_delay (map poll_task v)) \<le> sum_list (map result_delay v)"
    by (induction v) (auto simp: add_mono result_delay_poll)
  have out: "map result_output (map poll_task v) = map result_output v" by simp
  show ?thesis
  proof (cases "poll_task r")
    case (Polling f)
    with poll_task_Polling [OF Polling] result_output_poll [of r] le out show ?thesis
      by (simp add: small_poll_next_def add_less_le_mono)
  next
    case (ResultReady x)
    with result_output_poll [of r] le out show ?thesis
      by (simp add: small_poll_next_def trans_le_add2)
  qed
qed

definition small_ops :: "('o, 'o task_result list) fo_ops" where
  "small_ops = \<lparr>fo_new = [], fo_len = length, fo_push_back = (\<lambda>f v. v @ [Polling f]),
     fo_push_front = (\<lambda>f v. Polling f # v), fo_poll_next = small_poll_next\<rparr>"

interpretation small: futures_ordered small_ops "map result_output"
  "\<lambda>v. sum_list (map result_delay v)"
proof unfold_locales
  fix q :: "'o task_result list" and x xs
  show "fo_len small_ops q = length (map result_output q)" by (simp add: small_ops_def)
  show "\<exists>q'. fo_poll_next small_ops q = (Ready None, q') \<and> map result_output q' = []"
    if "map result_output q = []"
    using that small_poll_Nil by (simp add: small_ops_def)
  assume "map result_output q = x # xs"
  then obtain r v where "q = r # v" "x = result_output r" "xs = map result_output v" by auto
  then show "(\<exists>q'. fo_poll_next small_ops q = (Pending, q') \<and> map result_output q' = map result_output q
        \<and> sum_list (map result_delay q') < sum_list (map result_delay q))
      \<or> (\<exists>q'. fo_poll_next small_ops q = (Ready (Some x), q') \<and> map result_output q' = xs
        \<and> sum_list (map result_delay q') \<le> sum_list (map result_delay q))"
    using small_poll_Cons [of r v] by (simp add: small_ops_def)
qed (simp_all add: small_ops_def)

text \<open>
  Whatever meets the contract of \<^verbatim>\<open>FuturesOrdered\<close>, the three representations together are
  again a queue of futures.
\<close>

sublocale futures_ordered < cf: future_queue "cf_len fo" "cf_poll_next fo" "cf_outs outs" "cf_rank rank"
proof unfold_locales
  fix q :: "('o, 'l) concurrent_futures" and x xs
  show "cf_len fo q = length (cf_outs outs q)"
    by (auto simp: cf_len_def cf_outs_def flen_outs split: tasks.splits option.splits)
  show "\<exists>q'. cf_poll_next fo q = (Ready None, q') \<and> cf_outs outs q' = []" if "cf_outs outs q = []"
  proof (cases "cf_tasks q")
    case (Once f)
    with that show ?thesis by (auto simp: cf_outs_def cf_poll_next_def split: option.splits)
  next
    case (Small v)
    with that show ?thesis by (auto simp: cf_outs_def cf_poll_next_def small_poll_Nil)
  next
    case (Large l)
    with that fpoll_Nil [of l] show ?thesis by (auto simp: cf_outs_def cf_poll_next_def)
  qed
  assume q: "cf_outs outs q = x # xs"
  show "(\<exists>q'. cf_poll_next fo q = (Pending, q') \<and> cf_outs outs q' = cf_outs outs q
        \<and> cf_rank rank q' < cf_rank rank q)
      \<or> (\<exists>q'. cf_poll_next fo q = (Ready (Some x), q') \<and> cf_outs outs q' = xs
        \<and> cf_rank rank q' \<le> cf_rank rank q)"
  proof (cases "cf_tasks q")
    case (Once g)
    with q obtain f where "g = Some f" "x = fut_output f" "xs = []"
      by (auto simp: cf_outs_def split: option.splits)
    with Once poll_future_cases [of f] show ?thesis
      by (auto simp: cf_outs_def cf_rank_def cf_poll_next_def)
  next
    case (Small v)
    with q obtain r v' where "v = r # v'" "x = result_output r" "xs = map result_output v'"
      by (auto simp: cf_outs_def)
    with Small small_poll_Cons [of r v'] show ?thesis
      by (auto simp: cf_outs_def cf_rank_def cf_poll_next_def)
  next
    case (Large l)
    with q have "outs l = x # xs" by (simp add: cf_outs_def)
    with Large fpoll_Cons [of l x xs] show ?thesis
      by (auto simp: cf_outs_def cf_rank_def cf_poll_next_def)
  qed
qed

context futures_ordered
begin

lemma push_back_outs:
  assumes "cf_wf c" "length (cf_outs outs c) < cf_concurrent c"
  shows "\<exists>c'. cf_push_back fo f c = Ok c' \<and> cf_wf c' \<and> cf_concurrent c' = cf_concurrent c
    \<and> cf_outs outs c' = cf_outs outs c @ [fut_output f]"
  using assms
  by (auto simp: cf_push_back_def cf_has_remaining_def cf_remaining_def cf.flen_outs cf_outs_def
      cf_wf_def outs_push_back split: tasks.splits option.splits)

lemma push_back_full:
  "cf_concurrent c \<le> length (cf_outs outs c) \<Longrightarrow> cf_push_back fo f c = Panic"
  by (auto simp: cf_push_back_def cf_has_remaining_def cf_remaining_def cf.flen_outs guard_def)

lemma push_front_outs:
  assumes "cf_wf c" "length (cf_outs outs c) < cf_concurrent c"
  shows "\<exists>c'. cf_push_front fo f c = Ok c' \<and> cf_wf c'
    \<and> cf_outs outs c' = fut_output f # cf_outs outs c"
  using assms
  by (auto simp: cf_push_front_def cf_has_remaining_def cf_remaining_def cf.flen_outs cf_outs_def
      cf_wf_def outs_push_front split: tasks.splits option.splits)

lemma new_outs: "cf_outs outs (cf_new fo n) = []" "cf_wf (cf_new fo n)" "cf_concurrent (cf_new fo n) = n"
  by (auto simp: cf_new_def cf_outs_def cf_wf_def outs_new)

lemma stream_order:
  "prefix (fst (poll_many (cf_poll_next fo) n c)) (cf_outs outs c)"
  "fst (poll_many (cf_poll_next fo) (cf_rank rank c + length (cf_outs outs c)) c) = cf_outs outs c"
  using cf.poll_many_order [of n c] cf.poll_many_complete
  by (metis prefixI prod.collapse, simp)

lemma push_all_outs:
  "cf_wf c \<Longrightarrow> length (cf_outs outs c) + length fs \<le> cf_concurrent c \<Longrightarrow>
     \<exists>c'. fold (\<lambda>f m. and_then m (cf_push_back fo f)) fs (Ok c) = Ok c'
       \<and> cf_concurrent c' = cf_concurrent c
       \<and> cf_outs outs c' = cf_outs outs c @ map fut_output fs"
proof (induction fs arbitrary: c)
  case (Cons f fs)
  then obtain c1 where c1: "cf_push_back fo f c = Ok c1" "cf_wf c1" "cf_concurrent c1 = cf_concurrent c"
    "cf_outs outs c1 = cf_outs outs c @ [fut_output f]"
    using push_back_outs [of c f] by auto
  with Cons.IH [of c1] Cons.prems show ?case by auto
qed simp

end

subsection \<open>Properties\<close>

text \<open>
  C17. Concurrent tasks keep order and lose nothing: for a factory whose tasks answer for
  their own input, after any sequence of submissions and fetches the fetched results
  belong, one for one and in order, to the first accepted inputs; as long as no
  unrecoverable error was met, the remaining accepted inputs are exactly those of the
  queued results and running tasks, so when nothing is queued or running every accepted
  input has had its result delivered. At most \<open>cap\<close> tasks run at a time.
\<close>

theorem ct_run_order:
  assumes "\<forall>i w. honest R i (fst (spawn i w))"
    and "ct_run spawn ops [] [] (ct_new cap) w = (acc, del, st, w')"
  shows "list_all2 R (take (length del) acc) del \<and> length (ct_tasks st) \<le> cap
    \<and> (ct_errored st \<or> (\<exists>fin. acc = fin @ map task_input (ct_tasks st)
          \<and> list_all2 R fin (del @ ct_results st)))"
proof -
  have tf: "task_factory spawn R" using assms(1) by unfold_locales simp
  have h: "ct_holds R acc del st"
    using task_factory.run_holds [OF tf ct_holds_new assms(2)] .
  have "length (ct_tasks st) \<le> cap"
    using h ct_run_cap [OF assms(2)] by (simp add: ct_holds_def ct_inv_def ct_new_def)
  moreover obtain fin run where fr: "acc = fin @ run" "list_all2 R fin (del @ ct_results st)"
    "ct_errored st \<or> run = map task_input (ct_tasks st)"
    using h by (auto simp: ct_holds_def tracks_def)
  moreover from fr(2) obtain d1 d2 where "fin = d1 @ d2" "list_all2 R d1 del"
    by (auto simp: list_all2_append2)
  then have "list_all2 R (take (length del) acc) del"
    using fr(1) by (simp add: list_all2_lengthD)
  ultimately show ?thesis by blast
qed

theorem ct_run_order_witness:
  "\<exists>st. ct_run (flaky (\<lambda>i. 10 * i)) [Execute 1, Execute 2, Next, Execute 3, Next, Next] [] [] (ct_new 2)
      [(1, None), (0, Some (set_temporary ct_error)), (0, None)]
    = ([1, 2 :: nat], [10, 20 :: nat], st, [])
    \<and> length (ct_tasks st) \<le> 2 \<and> list_all2 (\<lambda>i out. out = 10 * i) (take 2 [1, 2 :: nat]) [10, 20]"
proof -
  let ?w = "[(1, None), (0, Some (set_temporary ct_error)), (0, None)]"
  let ?ops = "[Execute 1, Execute 2, Next, Execute 3, Next, Next] :: nat ct_op list"
  have run: "ct_run (flaky (\<lambda>i. 10 * i)) ?ops [] [] (ct_new 2) ?w = ([1, 2], [10, 20], ct_new 2, [])"
    by code_simp
  have "\<forall>i w. honest (\<lambda>i out. out = 10 * i) i (fst (flaky (\<lambda>i. 10 * i :: nat) i w))"
    using flaky_honest [of "\<lambda>i. 10 * i"] by blast
  from ct_run_order [OF this run] run show ?thesis by auto
qed

text \<open>
  Unrecoverable errors are final: a submission on running tasks that returns a
  permanent error cancels all tasks and queued results, and every later submission or
  fetch returns an \<open>Unexpected\<close> error and changes nothing. A temporary error keeps every
  accepted input; the failed task is started again.
\<close>

theorem ct_error_final:
  assumes "\<forall>i w. honest R i (fst (spawn i w))" "ct_holds R acc del st" "ct_is_concurrent st"
    and "ct_execute spawn input st w = (Err err, st', w')" "\<not> ct_errored st"
  shows "ct_holds R acc del st' \<and> ct_errored st' = (\<not> is_temporary err)
    \<and> (is_temporary err \<or> (ct_tasks st' = [] \<and> ct_results st' = []
        \<and> ct_execute spawn input' st' w'' = (Err ct_error, st', w'')
        \<and> ct_next spawn st' w'' = (Some (Inl ct_error), st', w'')))"
proof -
  have tf: "task_factory spawn R" using assms(1) by unfold_locales simp
  have *: "ct_holds R acc del st' \<and> ct_errored st' = (\<not> is_temporary err)"
    using task_factory.execute_holds [OF tf assms(2,5,4)] assms(3) by simp
  show ?thesis
  proof (cases "is_temporary err")
    case False
    with * have "ct_errored st'" "ct_tasks st' = []" "ct_results st' = []"
      by (auto simp: ct_holds_def ct_inv_def)
    with * False show ?thesis by (simp add: ct_execute_def ct_next_def)
  qed (use * in simp)
qed

theorem ct_error_final_witness:
  "\<exists>st' :: (nat, nat) concurrent_tasks.
     ct_next (flaky Suc) st' [] = (Some (Inl ct_error), st', []) \<and> ct_errored st'"
proof -
  let ?st = "\<lparr>ct_cap = 2, ct_tasks = [Task 1 0 (1, Inl ct_error), Task 5 0 (5, Inr 6)],
    ct_results = [], ct_errored = False\<rparr> :: (nat, nat) concurrent_tasks"
  let ?st' = "\<lparr>ct_cap = 2, ct_tasks = [], ct_results = [], ct_errored = True\<rparr>"
  have h: "ct_holds (\<lambda>i out. out = Suc i) [1, 5] [] ?st"
    by (auto simp: ct_holds_def ct_inv_def tracks_def honest_def ct_is_concurrent_def)
  have e: "ct_execute (flaky Suc) 7 ?st [] = (Err ct_error, ?st', [])"
    by (simp add: ct_execute_def ct_is_concurrent_def ct_execute_loop.simps ct_poll_front_def ct_fail_def
        ct_clear_def is_temporary_def ct_error_def new_error_def)
  have f: "\<forall>i w. honest (\<lambda>i out. out = Suc i) i (fst (flaky Suc i w))"
    using flaky_honest [of Suc] by blast
  have "ct_is_concurrent ?st" "\<not> ct_errored ?st" by (simp_all add: ct_is_concurrent_def)
  from ct_error_final [OF f h this(1) e this(2), of 0 "[]"] show ?thesis
    by (auto simp: is_temporary_def ct_error_def new_error_def)
qed

text \<open>
  Ordered futures: for any queue that behaves as \<^verbatim>\<open>FuturesOrdered\<close> documents, up to
  \<open>concurrent\<close> futures can be pushed and one more trips the debug assertion; whatever the
  number of polls, the outputs handed out so far are the outputs of the pushed futures
  from the first on, in push order, and enough polls hand out all of them.
\<close>

theorem cf_stream_order:
  assumes "futures_ordered fo outs rank" and "length fs \<le> concurrent"
  shows "\<exists>cf. fold (\<lambda>f m. and_then m (cf_push_back fo f)) fs (Ok (cf_new fo concurrent)) = Ok cf
    \<and> (length fs = concurrent \<longrightarrow> cf_push_back fo g cf = Panic)
    \<and> prefix (fst (poll_many (cf_poll_next fo) n cf)) (map fut_output fs)
    \<and> (\<exists>k. fst (poll_many (cf_poll_next fo) k cf) = map fut_output fs)"
proof -
  note q = futures_ordered.new_outs [OF assms(1), of concurrent]
  obtain c where c: "fold (\<lambda>f m. and_then m (cf_push_back fo f)) fs (Ok (cf_new fo concurrent)) = Ok c"
    "cf_concurrent c = concurrent" "cf_outs outs c = map fut_output fs"
    using futures_ordered.push_all_outs [OF assms(1) q(2), of fs] q assms(2) by auto
  from c futures_ordered.stream_order(1) [OF assms(1), of n c]
    futures_ordered.stream_order(2) [OF assms(1), of c] futures_ordered.push_back_full [OF assms(1)]
  show ?thesis by auto
qed

theorem cf_stream_order_witness:
  "\<exists>cf. fold (\<lambda>f m. and_then m (cf_push_back small_ops f)) [Fut 3 CHR ''a'', Fut 0 CHR ''b'']
        (Ok (cf_new small_ops 2)) = Ok cf
    \<and> (\<exists>k. fst (poll_many (cf_poll_next small_ops) k cf) = ''ab'')"
proof -
  have "length [Fut 3 CHR ''a'', Fut 0 CHR ''b''] \<le> 2" by simp
  from cf_stream_order [OF small.futures_ordered_axioms this, of "Fut 0 CHR ''c''" 0] show ?thesis by auto
qed

end
