(* ===== verification/Writers.thy ===== *)
theory Writers
  imports Queues Tasks
begin

text \<open>
  The writers of \<^verbatim>\<open>core/src/raw/oio/write\<close> that turn the primitives of a storage service into
  the writer interface \<^verbatim>\<open>oio::Write\<close>: multipart uploads, block uploads, positioned writes,
  appends and one-shot writes.

  The service is a record of its trait operations over a state \<open>'w\<close>, which also decides when
  a task is ready and when the timer of the executor fires. The interface \<open>oio_write\<close> states
  what a client of any writer relies on: a log of the buffers accepted so far, which a failed
  call leaves alone, and what a successful \<open>close\<close> has committed. Every writer is an
  instance.
\<close>

type_synonym 'a io = "error + 'a"

subsection \<open>The writer interface\<close>

text \<open>
  A client writes a list of buffers and tries each again, at most \<open>n\<close> times, when it
  fails; if the whole run succeeds, every buffer is in the log exactly once and in order.
\<close>

primrec write_retry :: "(buffer \<Rightarrow> 's \<Rightarrow> unit res \<times> 's) \<Rightarrow> nat \<Rightarrow> buffer \<Rightarrow> 's \<Rightarrow> unit res \<times> 's" where
  "write_retry write_op 0 b s = write_op b s"
| "write_retry write_op (Suc n) b s =
     (case write_op b s of (Err e, s') \<Rightarrow> write_retry write_op n b s' | r \<Rightarrow> r)"

primrec write_list :: "(buffer \<Rightarrow> 's \<Rightarrow> unit res \<times> 's) \<Rightarrow> nat \<Rightarrow> buffer list \<Rightarrow> 's \<Rightarrow> unit res \<times> 's" where
  "write_list write_op n [] s = (Ok (), s)"
| "write_list write_op n (b # bs) s =
     (case write_retry write_op n b s of (Ok u, s') \<Rightarrow> write_list write_op n bs s' | r \<Rightarrow> r)"

primrec close_retry :: "('s \<Rightarrow> unit res \<times> 's) \<Rightarrow> nat \<Rightarrow> 's \<Rightarrow> unit res \<times> 's" where
  "close_retry close_op 0 s = close_op s"
| "close_retry close_op (Suc n) s =
     (case close_op s of (Err e, s') \<Rightarrow> close_retry close_op n s' | r \<Rightarrow> r)"

lemma write_list_cong:
  assumes "\<forall>b \<in> set bs. P b" "\<And>b s. P b \<Longrightarrow> f b s = g b s"
  shows "write_list f n bs s = write_list g n bs s"
proof -
  have retry: "P b \<Longrightarrow> write_retry f n b s = write_retry g n b s" for b s
    using assms(2) by (induction n arbitrary: s) (auto split: prod.splits outcome.splits)
  show ?thesis
    using assms(1) by (induction bs arbitrary: s) (auto simp: retry split: prod.splits outcome.splits)
qed

locale oio_write =
  fixes write_op :: "buffer \<Rightarrow> 's \<Rightarrow> unit res \<times> 's"
    and close_op :: "'s \<Rightarrow> unit res \<times> 's"
    and invar :: "buffer list \<Rightarrow> 's \<Rightarrow> bool"
    and committed :: "buffer list \<Rightarrow> 's \<Rightarrow> bool"
  assumes write_Ok: "invar log s \<Longrightarrow> write_op b s = (Ok (), s') \<Longrightarrow> invar (log @ [b]) s'"
    and write_Err: "invar log s \<Longrightarrow> write_op b s = (Err e, s') \<Longrightarrow> invar log s'"
    and close_Ok: "invar log s \<Longrightarrow> close_op s = (Ok (), s') \<Longrightarrow> committed log s'"
begin

lemma write_retry_Ok:
  "invar log s \<Longrightarrow> write_retry write_op n b s = (Ok (), s') \<Longrightarrow> invar (log @ [b]) s'"
proof (induction n arbitrary: s)
  case 0
  then show ?case by (simp add: write_Ok)
next
  case (Suc n)
  obtain r s1 where r: "write_op b s = (r, s1)" by fastforce
  show ?case
  proof (cases r)
    case (Err e)
    with Suc.IH [OF write_Err [OF Suc.prems(1), of b e s1]] Suc.prems(2) r show ?thesis by simp
  qed (use Suc r write_Ok in auto)
qed

lemma write_list_Ok:
  "invar log s \<Longrightarrow> write_list write_op n bs s = (Ok (), s') \<Longrightarrow> invar (log @ bs) s'"
proof (induction bs arbitrary: log s)
  case (Cons b bs)
  obtain r s1 where r: "write_retry write_op n b s = (r, s1)" by fastforce
  with Cons.prems(2) obtain u where "r = Ok u" by (cases r) auto
  with Cons r write_retry_Ok [OF Cons.prems(1), of n b s1] show ?case
    using Cons.IH [of "log @ [b]" s1] by simp
qed simp

lemma write_list_close:
  assumes "invar [] s" "write_list write_op n bs s = (Ok (), s1)" "close_op s1 = (Ok (), s2)"
  shows "committed bs s2"
  using write_list_Ok [OF assms(1,2)] close_Ok assms(3) by simp

end

text \<open>Writers whose \<open>close\<close> can be tried again as well.\<close>

locale oio_write_retry = oio_write +
  assumes close_Err: "invar log s \<Longrightarrow> close_op s = (Err e, s') \<Longrightarrow> invar log s'"
begin

lemma close_retry_Ok:
  "invar log s \<Longrightarrow> close_retry close_op n s = (Ok (), s') \<Longrightarrow> committed log s'"
proof (induction n arbitrary: s)
  case 0
  then show ?case by (simp add: close_Ok)
next
  case (Suc n)
  obtain r s1 where r: "close_op s = (r, s1)" by fastforce
  show ?case
  proof (cases r)
    case (Err e)
    with Suc.IH [OF close_Err [OF Suc.prems(1), of e s1]] Suc.prems(2) r show ?thesis by simp
  qed (use Suc r close_Ok in auto)
qed

lemma write_list_close_retry:
  assumes "invar [] s" "write_list write_op n bs s = (Ok (), s1)" "close_retry close_op k s1 = (Ok (), s2)"
  shows "committed bs s2"
  using close_retry_Ok [OF _ assms(3), of bs] write_list_Ok [OF assms(1,2)] by simp

end

subsection \<open>The executor\<close>

text \<open>Whether the timer fires before a started upload ends, and when the upload is ready.\<close>

record 'w executor =
  ex_timeout :: "'w \<Rightarrow> bool \<times> 'w"
  ex_delay :: "'w \<Rightarrow> nat \<times> 'w"

definition run_task ::
  "'w executor \<Rightarrow> ('w \<Rightarrow> 'o io \<times> 'w) \<Rightarrow> error \<Rightarrow> 'i \<Rightarrow> 'w \<Rightarrow> ('i, 'o) task \<times> 'w" where
  "run_task ex fut timeout_err input w =
     (let (fired, w1) = ex_timeout ex w;
          (r, w2) = fut w1;
          (d, w3) = ex_delay ex w2
      in (Task input d (input, if fired then Inl timeout_err else r), w3))"

lemma run_task_honest:
  "(\<And>w out w'. fut w = (Inr out, w') \<Longrightarrow> R i out) \<Longrightarrow> honest R i (fst (run_task ex fut e i w))"
  by (auto simp: run_task_def honest_def split: prod.splits sum.splits)

subsection \<open>\<open>MultipartWriter\<close>\<close>

record multipart_part =
  part_number :: nat
  part_etag :: string
  part_checksum :: "string option"

record 'w multipart_write =
  mw_write_once :: "nat \<Rightarrow> buffer \<Rightarrow> 'w \<Rightarrow> unit io \<times> 'w"
  mw_initiate_part :: "'w \<Rightarrow> string io \<times> 'w"
  mw_write_part :: "string \<Rightarrow> nat \<Rightarrow> nat \<Rightarrow> buffer \<Rightarrow> 'w \<Rightarrow> multipart_part io \<times> 'w"
  mw_complete_part :: "string \<Rightarrow> multipart_part list \<Rightarrow> 'w \<Rightarrow> unit io \<times> 'w"
  mw_abort_part :: "string \<Rightarrow> 'w \<Rightarrow> unit io \<times> 'w"

record part_input =
  wi_upload_id :: string
  wi_part_number :: nat
  wi_bytes :: buffer

record multipart_writer =
  mw_upload_id :: "string option"
  mw_parts :: "multipart_part list"
  mw_cache :: "buffer option"
  mw_next_part_number :: nat
  mw_tasks :: "(part_input, multipart_part) concurrent_tasks"

definition mw_timeout_error :: "part_input \<Rightarrow> error" where
  "mw_timeout_error input =
     set_temporary
       (with_context ''part_number'' (show_nat (wi_part_number input))
         (with_context ''upload_id'' (wi_upload_id input)
           (new_error Unexpected ''write part timeout'')))"

definition mw_spawn ::
  "'w executor \<Rightarrow> 'w multipart_write \<Rightarrow> (part_input, multipart_part, 'w) spawn" where
  "mw_spawn ex ops input w =
     run_task ex
       (mw_write_part ops (wi_upload_id input) (wi_part_number input) (buf_len (wi_bytes input))
          (wi_bytes input))
       (mw_timeout_error input) input w"

definition mw_new :: "nat \<Rightarrow> multipart_writer" where
  "mw_new concurrent =
     \<lparr>mw_upload_id = None, mw_parts = [], mw_cache = None, mw_next_part_number = 0,
      mw_tasks = ct_new concurrent\<rparr>"

definition mw_fill_cache :: "buffer \<Rightarrow> multipart_writer \<Rightarrow> (nat \<times> multipart_writer) res" where
  "mw_fill_cache bs st =
     guard (mw_cache st = None) (Ok (buf_len bs, st\<lparr>mw_cache := Some bs\<rparr>))"

text \<open>
  The part upload both \<open>write\<close> and \<open>close\<close> contain: the cached buffer is submitted under the
  next part number, and the cache is given up only when the submission succeeded.
\<close>

definition mw_submit ::
  "'w executor \<Rightarrow> 'w multipart_write \<Rightarrow> string \<Rightarrow> buffer \<Rightarrow> multipart_writer \<Rightarrow> 'w
     \<Rightarrow> unit res \<times> multipart_writer \<times> 'w" where
  "mw_submit ex ops upload_id bytes st w =
     (case ct_execute (mw_spawn ex ops)
             \<lparr>wi_upload_id = upload_id, wi_part_number = mw_next_part_number st, wi_bytes = bytes\<rparr>
             (mw_tasks st) w of
        (Ok u, ts, w') \<Rightarrow>
          (Ok (), st\<lparr>mw_tasks := ts, mw_cache := None,
             mw_next_part_number := mw_next_part_number st + 1\<rparr>, w')
      | (Err e, ts, w') \<Rightarrow> (Err e, st\<lparr>mw_tasks := ts\<rparr>, w')
      | (Panic, ts, w') \<Rightarrow> (Panic, st\<lparr>mw_tasks := ts\<rparr>, w'))"

definition mw_write_started ::
  "'w executor \<Rightarrow> 'w multipart_write \<Rightarrow> string \<Rightarrow> buffer \<Rightarrow> multipart_writer \<Rightarrow> 'w
     \<Rightarrow> unit res \<times> multipart_writer \<times> 'w" where
  "mw_write_started ex ops upload_id bs st w =
     (case mw_cache st of
        None \<Rightarrow> (Panic, st, w)
      | Some bytes \<Rightarrow>
          (case mw_submit ex ops upload_id bytes st w of
             (Ok u, st1, w1) \<Rightarrow>
               (case mw_fill_cache bs st1 of
                  Ok (n, st2) \<Rightarrow> (Ok (), st2, w1)
                | Err e \<Rightarrow> (Err e, st1, w1)
                | Panic \<Rightarrow> (Panic, st1, w1))
           | (Err e, st1, w1) \<Rightarrow> (Err e, st1, w1)
           | (Panic, st1, w1) \<Rightarrow> (Panic, st1, w1)))"

definition mw_write ::
  "'w executor \<Rightarrow> 'w multipart_write \<Rightarrow> buffer \<Rightarrow> multipart_writer \<times> 'w
     \<Rightarrow> unit res \<times> multipart_writer \<times> 'w" where
  "mw_write ex ops bs = (\<lambda>(st, w).
     case mw_upload_id st of
       Some v \<Rightarrow> mw_write_started ex ops v bs st w
     | None \<Rightarrow>
         if mw_cache st = None then
           (case mw_fill_cache bs st of
              Ok (n, st1) \<Rightarrow> (Ok (), st1, w) | Err e \<Rightarrow> (Err e, st, w) | Panic \<Rightarrow> (Panic, st, w))
         else
           (case mw_initiate_part ops w of
              (Inl e, w1) \<Rightarrow> (Err e, st, w1)
            | (Inr v, w1) \<Rightarrow> mw_write_started ex ops v bs (st\<lparr>mw_upload_id := Some v\<rparr>) w1))"

definition mw_mismatch_error :: "nat \<Rightarrow> nat \<Rightarrow> string \<Rightarrow> error" where
  "mw_mismatch_error expected actual upload_id =
     with_context ''upload_id'' upload_id
       (with_context ''actual'' (show_nat actual)
         (with_context ''expected'' (show_nat expected)
           (new_error Unexpected ''multipart part numbers mismatch, please report bug to opendal'')))"

text \<open>The second half of \<open>close\<close>: collect the parts of all tasks, then complete the upload.\<close>

definition mw_finish ::
  "'w executor \<Rightarrow> 'w multipart_write \<Rightarrow> string \<Rightarrow> multipart_writer \<Rightarrow> 'w
     \<Rightarrow> unit res \<times> multipart_writer \<times> 'w" where
  "mw_finish ex ops upload_id st w =
     (case ct_drain (mw_spawn ex ops) (mw_parts st) (mw_tasks st) w of
        (Ok u, parts', ts, w') \<Rightarrow>
          (let st' = st\<lparr>mw_parts := parts', mw_tasks := ts\<rparr> in
           if length parts' \<noteq> mw_next_part_number st'
           then (Err (mw_mismatch_error (mw_next_part_number st') (length parts') upload_id), st', w')
           else (case mw_complete_part ops upload_id parts' w' of
                   (Inr u, w2) \<Rightarrow> (Ok (), st', w2) | (Inl e, w2) \<Rightarrow> (Err e, st', w2)))
      | (Err e, parts', ts, w') \<Rightarrow> (Err e, st\<lparr>mw_parts := parts', mw_tasks := ts\<rparr>, w')
      | (Panic, parts', ts, w') \<Rightarrow> (Panic, st\<lparr>mw_parts := parts', mw_tasks := ts\<rparr>, w'))"

definition mw_close ::
  "'w executor \<Rightarrow> 'w multipart_write \<Rightarrow> multipart_writer \<times> 'w \<Rightarrow> unit res \<times> multipart_writer \<times> 'w" where
  "mw_close ex ops = (\<lambda>(st, w).
     case mw_upload_id st of
       None \<Rightarrow>
         (let (sz, body) = (case mw_cache st of Some c \<Rightarrow> (buf_len c, c) | None \<Rightarrow> (0, buf_new)) in
          case mw_write_once ops sz body w of
            (Inl e, w1) \<Rightarrow> (Err e, st, w1)
          | (Inr u, w1) \<Rightarrow> (Ok (), st\<lparr>mw_cache := None\<rparr>, w1))
     | Some v \<Rightarrow>
         (case mw_cache st of
            None \<Rightarrow> mw_finish ex ops v st w
          | Some cache \<Rightarrow>
              (case mw_submit ex ops v cache st w of
                 (Ok u, st1, w1) \<Rightarrow> mw_finish ex ops v st1 w1
               | (Err e, st1, w1) \<Rightarrow> (Err e, st1, w1)
               | (Panic, st1, w1) \<Rightarrow> (Panic, st1, w1))))"

definition mw_abort ::
  "'w multipart_write \<Rightarrow> multipart_writer \<times> 'w \<Rightarrow> unit res \<times> multipart_writer \<times> 'w" where
  "mw_abort ops = (\<lambda>(st, w).
     case mw_upload_id st of
       None \<Rightarrow> (Ok (), st, w)
     | Some v \<Rightarrow>
         (let st1 = st\<lparr>mw_tasks := ct_clear (mw_tasks st), mw_cache := None\<rparr> in
          case mw_abort_part ops v w of
            (Inl e, w1) \<Rightarrow> (Err e, st1, w1) | (Inr u, w1) \<Rightarrow> (Ok (), st1, w1)))"

paragraph \<open>What the multipart writer keeps\<close>

text \<open>A part is right for an input when the service returned it for exactly that input.\<close>

definition mw_part_of :: "'w multipart_write \<Rightarrow> part_input \<Rightarrow> multipart_part \<Rightarrow> bool" where
  "mw_part_of ops i p = (\<exists>w w'. mw_write_part ops (wi_upload_id i) (wi_part_number i)
     (buf_len (wi_bytes i)) (wi_bytes i) w = (Inr p, w'))"

interpretation mp: task_factory "mw_spawn ex ops" "mw_part_of ops" for ex ops
proof
  show "honest (mw_part_of ops) i (fst (mw_spawn ex ops i w))" for i w
    unfolding mw_spawn_def by (rule run_task_honest) (auto simp: mw_part_of_def)
qed

definition mw_inputs :: "string \<Rightarrow> buffer list \<Rightarrow> part_input list" where
  "mw_inputs v bs = map (\<lambda>(k, b). \<lparr>wi_upload_id = v, wi_part_number = k, wi_bytes = b\<rparr>)
     (enumerate 0 bs)"

definition mw_inv :: "'w multipart_write \<Rightarrow> buffer list \<Rightarrow> multipart_writer \<Rightarrow> bool" where
  "mw_inv ops log st =
     (case mw_upload_id st of
        None \<Rightarrow> (\<exists>cap. mw_tasks st = ct_new cap) \<and> mw_parts st = [] \<and> mw_next_part_number st = 0
          \<and> (mw_cache st = None \<and> log = [] \<or> (\<exists>b. mw_cache st = Some b \<and> log = [b]))
      | Some v \<Rightarrow> \<exists>sent. log = sent @ (case mw_cache st of None \<Rightarrow> [] | Some b \<Rightarrow> [b])
          \<and> mw_next_part_number st = length sent
          \<and> ct_holds (mw_part_of ops) (mw_inputs v sent) (mw_parts st) (mw_tasks st))"

lemma mw_inputs_snoc:
  "mw_inputs v (bs @ [b]) = mw_inputs v bs @ [\<lparr>wi_upload_id = v, wi_part_number = length bs, wi_bytes = b\<rparr>]"
  by (simp add: mw_inputs_def enumerate_append_eq)

lemma mw_submit_inv:
  assumes "mw_inv ops log st" "mw_upload_id st = Some v" "mw_cache st = Some b"
    "mw_submit ex ops v b st w = (r, st', w')"
  shows "mw_upload_id st' = Some v \<and>
     ((r = Ok () \<and> mw_inv ops log st' \<and> mw_cache st' = None)
      \<or> (\<exists>e. r = Err e \<and> mw_inv ops log st'))"
proof -
  obtain sent where s: "log = sent @ [b]" "mw_next_part_number st = length sent"
    "ct_holds (mw_part_of ops) (mw_inputs v sent) (mw_parts st) (mw_tasks st)"
    using assms(1-3) by (auto simp: mw_inv_def)
  let ?i = "\<lparr>wi_upload_id = v, wi_part_number = length sent, wi_bytes = b\<rparr>"
  obtain x ts w1 where x: "ct_execute (mw_spawn ex ops) ?i (mw_tasks st) w = (x, ts, w1)"
    by (metis prod_cases3)
  show ?thesis
  proof (cases "ct_errored (mw_tasks st)")
    case True
    with x mp.execute_errored have "x = Err ct_error" "ts = mw_tasks st" by (metis Pair_inject)+
    with assms x s show ?thesis by (auto simp: mw_submit_def mw_inv_def)
  next
    case False
    from mp.execute_holds [OF s(3) False x] show ?thesis
    proof (elim disjE exE conjE)
      assume "x = Ok ()" "ct_holds (mw_part_of ops) (mw_inputs v sent @ [?i]) (mw_parts st) ts"
      with assms x s show ?thesis
        by (auto simp: mw_submit_def mw_inv_def mw_inputs_snoc)
    next
      fix e assume "x = Err e" "ct_holds (mw_part_of ops) (mw_inputs v sent) (mw_parts st) ts"
      with assms x s show ?thesis by (auto simp: mw_submit_def mw_inv_def)
    qed
  qed
qed

lemma mw_write_started_inv:
  assumes inv: "mw_inv ops log st" "mw_upload_id st = Some v" "mw_cache st = Some c"
    and r: "mw_write_started ex ops v b st w = (r, st', w')"
  shows "(r = Ok () \<and> mw_inv ops (log @ [b]) st') \<or> (\<exists>e. r = Err e \<and> mw_inv ops log st')"
proof -
  obtain x st1 w1 where x: "mw_submit ex ops v c st w = (x, st1, w1)" by (metis prod_cases3)
  note s = mw_submit_inv [OF inv x]
  show ?thesis
  proof (cases x)
    case (Ok u)
    with s have "mw_inv ops log st1" "mw_cache st1 = None" "mw_upload_id st1 = Some v" by auto
    then have "mw_inv ops (log @ [b]) (st1\<lparr>mw_cache := Some b\<rparr>)" by (auto simp: mw_inv_def)
    with r inv(3) x Ok \<open>mw_cache st1 = None\<close> show ?thesis
      by (auto simp: mw_write_started_def mw_fill_cache_def)
  qed (use s r inv(3) x in \<open>auto simp: mw_write_started_def\<close>)
qed

lemma mw_write_inv:
  assumes inv: "mw_inv ops log st" and r: "mw_write ex ops b (st, w) = (r, st', w')"
    and ready: "mw_upload_id st = None \<or> mw_cache st \<noteq> None"
  shows "(r = Ok () \<and> mw_inv ops (log @ [b]) st') \<or> (\<exists>e. r = Err e \<and> mw_inv ops log st')"
proof (cases "mw_upload_id st")
  case (Some v)
  with ready obtain c where "mw_cache st = Some c" by auto
  with mw_write_started_inv [OF inv Some] r Some show ?thesis by (auto simp: mw_write_def)
next
  case None
  show ?thesis
  proof (cases "mw_cache st")
    case None
    with r inv \<open>mw_upload_id st = None\<close> show ?thesis
      by (auto simp: mw_write_def mw_fill_cache_def mw_inv_def)
  next
    case (Some c)
    obtain x w1 where x: "mw_initiate_part ops w = (x, w1)" by fastforce
    show ?thesis
    proof (cases x)
      case (Inl e)
      with r x Some None inv show ?thesis by (auto simp: mw_write_def)
    next
      case (Inr v)
      have "mw_inv ops log (st\<lparr>mw_upload_id := Some v\<rparr>)"
        using inv Some None by (auto simp: mw_inv_def mw_inputs_def ct_holds_new)
      from mw_write_started_inv [OF this, of v c] r x Some None Inr show ?thesis
        by (auto simp: mw_write_def)
    qed
  qed
qed

text \<open>Without a cached buffer a started upload has been closed; \<open>write\<close> then panics.\<close>

lemma mw_write_closed:
  "mw_upload_id st = Some v \<Longrightarrow> mw_cache st = None \<Longrightarrow> mw_write ex ops b (st, w) = (Panic, st, w)"
  by (simp add: mw_write_def mw_write_started_def)

definition mw_committed :: "'w multipart_write \<Rightarrow> buffer list \<Rightarrow> multipart_writer \<times> 'w \<Rightarrow> bool" where
  "mw_committed ops log s =
     (case mw_upload_id (fst s) of
        None \<Rightarrow> \<exists>body w0. mw_write_once ops (buf_len body) body w0 = (Inr (), snd s)
          \<and> (log = [] \<and> body = buf_new \<or> log = [body])
      | Some v \<Rightarrow> \<exists>parts w0. list_all2 (mw_part_of ops) (mw_inputs v log) parts
          \<and> mw_complete_part ops v parts w0 = (Inr (), snd s))"

text \<open>
  Closing never reports a part number mismatch: it fails only with what a task or the
  service answered.
\<close>

lemma mw_finish_inv:
  assumes inv: "mw_inv ops log st" "mw_upload_id st = Some v" "mw_cache st = None"
    and r: "mw_finish ex ops v st w = (r, st', w')"
  shows "(r = Ok () \<and> mw_committed ops log (st', w'))
    \<or> (\<exists>e. r = Err e \<and> mw_inv ops log st' \<and> mw_upload_id st' = Some v \<and> mw_cache st' = None
         \<and> (e = ct_error \<or> (\<exists>parts ts w1. ct_drain (mw_spawn ex ops) (mw_parts st) (mw_tasks st) w = (Err e, parts, ts, w1))
            \<or> (\<exists>parts w0. mw_complete_part ops v parts w0 = (Inl e, w'))))"
proof -
  from inv have next_eq: "mw_next_part_number st = length log"
    and h: "ct_holds (mw_part_of ops) (mw_inputs v log) ([] @ mw_parts st) (mw_tasks st)"
    by (auto simp: mw_inv_def)
  obtain d parts ts w1 where d: "ct_drain (mw_spawn ex ops) (mw_parts st) (mw_tasks st) w = (d, parts, ts, w1)"
    by (metis prod_cases4)
  show ?thesis
  proof (cases "ct_errored (mw_tasks st)")
    case True
    with mp.drain_errored [OF True, of ex ops "mw_parts st" w] r inv show ?thesis
      by (auto simp: mw_finish_def)
  next
    case False
    from mp.drain_holds [OF h False d] show ?thesis
    proof (elim disjE exE conjE)
      assume ok: "d = Ok ()" and h': "ct_holds (mw_part_of ops) (mw_inputs v log) ([] @ parts) ts"
        and all: "list_all2 (mw_part_of ops) (mw_inputs v log) ([] @ parts)"
      from all have "length parts = length log"
        by (auto dest: list_all2_lengthD simp: mw_inputs_def)
      obtain c w2 where c: "mw_complete_part ops v parts w1 = (c, w2)" by fastforce
      with r d ok next_eq \<open>length parts = length log\<close> all h' inv show ?thesis
        by (cases c) (auto simp: mw_finish_def mw_committed_def mw_inv_def)
    next
      fix e assume "d = Err e" "ct_holds (mw_part_of ops) (mw_inputs v log) ([] @ parts) ts"
      with r d inv next_eq show ?thesis by (auto simp: mw_finish_def mw_inv_def)
    qed
  qed
qed

lemma mw_close_cases:
  assumes inv: "mw_inv ops log st" and r: "mw_close ex ops (st, w) = (r, st', w')"
  shows "(r = Ok () \<and> mw_committed ops log (st', w')) \<or> (\<exists>e. r = Err e \<and> mw_inv ops log st')"
proof (cases "mw_upload_id st")
  case None
  define body where "body = (case mw_cache st of Some c \<Rightarrow> c | None \<Rightarrow> buf_new)"
  have "(case mw_cache st of Some c \<Rightarrow> (buf_len c, c) | None \<Rightarrow> (0, buf_new)) = (buf_len body, body)"
    by (auto simp: body_def buf_len_def buf_new_def split: option.splits)
  moreover have "log = [] \<and> body = buf_new \<or> log = [body]"
    using inv None by (auto simp: mw_inv_def body_def)
  moreover obtain x w1 where "mw_write_once ops (buf_len body) body w = (x, w1)" by fastforce
  ultimately show ?thesis
    using r None inv by (cases x) (auto simp: mw_close_def mw_committed_def)
next
  case (Some v)
  show ?thesis
  proof (cases "mw_cache st")
    case None
    with r Some have "mw_finish ex ops v st w = (r, st', w')" by (simp add: mw_close_def)
    from mw_finish_inv [OF inv Some None this] show ?thesis by blast
  next
    case c: (Some c)
    obtain x st1 w1 where x: "mw_submit ex ops v c st w = (x, st1, w1)" by (metis prod_cases3)
    note s = mw_submit_inv [OF inv Some c x]
    show ?thesis
    proof (cases x)
      case (Ok u)
      with s have st1: "mw_inv ops log st1" "mw_upload_id st1 = Some v" "mw_cache st1 = None" by auto
      have "mw_finish ex ops v st1 w1 = (r, st', w')"
        using r Some c x Ok by (simp add: mw_close_def)
      from mw_finish_inv [OF st1 this] show ?thesis by auto
    qed (use s r Some c x in \<open>auto simp: mw_close_def\<close>)
  qed
qed

interpretation mpw: oio_write_retry "mw_write ex ops" "mw_close ex ops" "\<lambda>log s. mw_inv ops log (fst s)"
  "mw_committed ops" for ex :: "'w executor" and ops :: "'w multipart_write"
proof unfold_locales
  fix log b and s s' :: "multipart_writer \<times> 'w" and e :: error
  assume inv: "mw_inv ops log (fst s)"
  obtain st w where s: "s = (st, w)" by fastforce
  obtain st' w' where s': "s' = (st', w')" by fastforce
  show "mw_inv ops (log @ [b]) (fst s')" if "mw_write ex ops b s = (Ok (), s')"
    using mw_write_inv [of ops log st ex b w "Ok ()" st' w'] mw_write_closed [of st _ ex ops b w] that inv s s'
    by (cases "mw_upload_id st"; cases "mw_cache st") auto
  show "mw_inv ops log (fst s')" if "mw_write ex ops b s = (Err e, s')"
    using mw_write_inv [of ops log st ex b w "Err e" st' w'] mw_write_closed [of st _ ex ops b w] that inv s s'
    by (cases "mw_upload_id st"; cases "mw_cache st") auto
  show "mw_inv ops log (fst s')" if "mw_close ex ops s = (Err e, s')"
    using mw_close_cases [of ops log st ex w "Err e" st' w'] that inv s s' by auto
  show "mw_committed ops log s'" if "mw_close ex ops s = (Ok (), s')"
    using mw_close_cases [of ops log st ex w "Ok ()" st' w'] that inv s s' by auto
qed

subsection \<open>\<open>BlockWriter\<close>\<close>

type_synonym uuid = "128 word"

record 'w block_write =
  bw_write_once :: "nat \<Rightarrow> buffer \<Rightarrow> 'w \<Rightarrow> unit io \<times> 'w"
  bw_write_block :: "uuid \<Rightarrow> nat \<Rightarrow> buffer \<Rightarrow> 'w \<Rightarrow> unit io \<times> 'w"
  bw_complete_block :: "uuid list \<Rightarrow> 'w \<Rightarrow> unit io \<times> 'w"
  bw_abort_block :: "uuid list \<Rightarrow> 'w \<Rightarrow> unit io \<times> 'w"

record block_input =
  bi_block_id :: uuid
  bi_bytes :: buffer

record block_writer =
  bw_started :: bool
  bw_block_ids :: "uuid list"
  bw_cache :: "buffer option"
  bw_tasks :: "(block_input, uuid) concurrent_tasks"

text \<open>\<open>new_v4\<close> is the generator of the \<^verbatim>\<open>uuid\<close> crate, \<open>uuid_str\<close> its printing.\<close>

record 'w uuid_gen =
  new_v4 :: "'w \<Rightarrow> uuid \<times> 'w"
  uuid_str :: "uuid \<Rightarrow> string"

definition bw_timeout_error :: "'w uuid_gen \<Rightarrow> block_input \<Rightarrow> error" where
  "bw_timeout_error gen input =
     set_temporary
       (with_context ''block_id'' (uuid_str gen (bi_block_id input))
         (new_error Unexpected ''write block timeout''))"

definition bw_spawn ::
  "'w executor \<Rightarrow> 'w uuid_gen \<Rightarrow> 'w block_write \<Rightarrow> (block_input, uuid, 'w) spawn" where
  "bw_spawn ex gen ops input w =
     run_task ex
       (\<lambda>w. let (r, w') = bw_write_block ops (bi_block_id input) (buf_len (bi_bytes input)) (bi_bytes input) w
            in (map_sum id (\<lambda>u. bi_block_id input) r, w'))
       (bw_timeout_error gen input) input w"

definition bw_new :: "nat \<Rightarrow> block_writer" where
  "bw_new concurrent =
     \<lparr>bw_started = False, bw_block_ids = [], bw_cache = None, bw_tasks = ct_new concurrent\<rparr>"

definition bw_fill_cache :: "buffer \<Rightarrow> block_writer \<Rightarrow> (nat \<times> block_writer) res" where
  "bw_fill_cache bs st =
     guard (bw_cache st = None) (Ok (buf_len bs, st\<lparr>bw_cache := Some bs\<rparr>))"

definition bw_submit ::
  "'w executor \<Rightarrow> 'w uuid_gen \<Rightarrow> 'w block_write \<Rightarrow> buffer \<Rightarrow> block_writer \<Rightarrow> 'w
     \<Rightarrow> unit res \<times> block_writer \<times> 'w" where
  "bw_submit ex gen ops bytes st w =
     (let (block_id, w0) = new_v4 gen w in
      case ct_execute (bw_spawn ex gen ops) \<lparr>bi_block_id = block_id, bi_bytes = bytes\<rparr> (bw_tasks st) w0 of
        (Ok u, ts, w') \<Rightarrow> (Ok (), st\<lparr>bw_tasks := ts, bw_cache := None\<rparr>, w')
      | (Err e, ts, w') \<Rightarrow> (Err e, st\<lparr>bw_tasks := ts\<rparr>, w')
      | (Panic, ts, w') \<Rightarrow> (Panic, st\<lparr>bw_tasks := ts\<rparr>, w'))"

definition bw_write ::
  "'w executor \<Rightarrow> 'w uuid_gen \<Rightarrow> 'w block_write \<Rightarrow> buffer \<Rightarrow> block_writer \<times> 'w
     \<Rightarrow> unit res \<times> block_writer \<times> 'w" where
  "bw_write ex gen ops bs = (\<lambda>(st, w).
     if \<not> bw_started st \<and> bw_cache st = None then
       (case bw_fill_cache bs st of
          Ok (n, st1) \<Rightarrow> (Ok (), st1, w) | Err e \<Rightarrow> (Err e, st, w) | Panic \<Rightarrow> (Panic, st, w))
     else
       (let st0 = st\<lparr>bw_started := True\<rparr> in
        case bw_cache st0 of
          None \<Rightarrow> (Panic, st0, w)
        | Some bytes \<Rightarrow>
            (case bw_submit ex gen ops bytes st0 w of
               (Ok u, st1, w1) \<Rightarrow>
                 (case bw_fill_cache bs st1 of
                    Ok (n, st2) \<Rightarrow> (Ok (), st2, w1) | Err e \<Rightarrow> (Err e, st1, w1) | Panic \<Rightarrow> (Panic, st1, w1))
             | (Err e, st1, w1) \<Rightarrow> (Err e, st1, w1)
             | (Panic, st1, w1) \<Rightarrow> (Panic, st1, w1))))"

definition bw_finish ::
  "'w executor \<Rightarrow> 'w uuid_gen \<Rightarrow> 'w block_write \<Rightarrow> block_writer \<Rightarrow> 'w
     \<Rightarrow> unit res \<times> block_writer \<times> 'w" where
  "bw_finish ex gen ops st w =
     (case ct_drain (bw_spawn ex gen ops) (bw_block_ids st) (bw_tasks st) w of
        (Ok u, ids, ts, w') \<Rightarrow>
          (let st' = st\<lparr>bw_block_ids := ids, bw_tasks := ts\<rparr> in
           case bw_complete_block ops ids w' of
             (Inr u, w2) \<Rightarrow> (Ok (), st', w2) | (Inl e, w2) \<Rightarrow> (Err e, st', w2))
      | (Err e, ids, ts, w') \<Rightarrow> (Err e, st\<lparr>bw_block_ids := ids, bw_tasks := ts\<rparr>, w')
      | (Panic, ids, ts, w') \<Rightarrow> (Panic, st\<lparr>bw_block_ids := ids, bw_tasks := ts\<rparr>, w'))"

definition bw_close ::
  "'w executor \<Rightarrow> 'w uuid_gen \<Rightarrow> 'w block_write \<Rightarrow> block_writer \<times> 'w
     \<Rightarrow> unit res \<times> block_writer \<times> 'w" where
  "bw_close ex gen ops = (\<lambda>(st, w).
     if \<not> bw_started st then
       (let (sz, body) = (case bw_cache st of Some c \<Rightarrow> (buf_len c, c) | None \<Rightarrow> (0, buf_new)) in
        case bw_write_once ops sz body w of
          (Inl e, w1) \<Rightarrow> (Err e, st, w1)
        | (Inr u, w1) \<Rightarrow> (Ok (), st\<lparr>bw_cache := None\<rparr>, w1))
     else
       (case bw_cache st of
          None \<Rightarrow> bw_finish ex gen ops st w
        | Some cache \<Rightarrow>
            (case bw_submit ex gen ops cache st w of
               (Ok u, st1, w1) \<Rightarrow> bw_finish ex gen ops st1 w1
             | (Err e, st1, w1) \<Rightarrow> (Err e, st1, w1)
             | (Panic, st1, w1) \<Rightarrow> (Panic, st1, w1))))"

definition bw_abort ::
  "'w block_write \<Rightarrow> block_writer \<times> 'w \<Rightarrow> unit res \<times> block_writer \<times> 'w" where
  "bw_abort ops = (\<lambda>(st, w).
     if \<not> bw_started st then (Ok (), st, w)
     else
       (let st1 = st\<lparr>bw_tasks := ct_clear (bw_tasks st), bw_cache := None\<rparr> in
        case bw_abort_block ops (bw_block_ids st1) w of
          (Inl e, w1) \<Rightarrow> (Err e, st1, w1) | (Inr u, w1) \<Rightarrow> (Ok (), st1, w1)))"

paragraph \<open>What the block writer keeps\<close>

definition bw_block_of :: "'w block_write \<Rightarrow> block_input \<Rightarrow> uuid \<Rightarrow> bool" where
  "bw_block_of ops i v = (v = bi_block_id i
     \<and> (\<exists>w w'. bw_write_block ops v (buf_len (bi_bytes i)) (bi_bytes i) w = (Inr (), w')))"

lemma map_sum_eq_Inr: "map_sum f g x = Inr y \<longleftrightarrow> (\<exists>z. x = Inr z \<and> y = g z)"
  by (cases x) auto

interpretation bk: task_factory "bw_spawn ex gen ops" "bw_block_of ops" for ex gen ops
proof
  show "honest (bw_block_of ops) i (fst (bw_spawn ex gen ops i w))" for i w
    unfolding bw_spawn_def
    by (rule run_task_honest) (auto simp: bw_block_of_def Let_def map_sum_eq_Inr split: prod.splits)
qed

definition bw_inv :: "'w block_write \<Rightarrow> buffer list \<Rightarrow> block_writer \<Rightarrow> bool" where
  "bw_inv ops log st =
     (if bw_started st
      then \<exists>sent. log = map bi_bytes sent @ (case bw_cache st of None \<Rightarrow> [] | Some b \<Rightarrow> [b])
        \<and> ct_holds (bw_block_of ops) sent (bw_block_ids st) (bw_tasks st)
      else (\<exists>cap. bw_tasks st = ct_new cap) \<and> bw_block_ids st = []
        \<and> (bw_cache st = None \<and> log = [] \<or> (\<exists>b. bw_cache st = Some b \<and> log = [b])))"

definition bw_committed :: "'w block_write \<Rightarrow> buffer list \<Rightarrow> block_writer \<times> 'w \<Rightarrow> bool" where
  "bw_committed ops log s =
     (if bw_started (fst s)
      then \<exists>sent ids w0. map bi_bytes sent = log \<and> list_all2 (bw_block_of ops) sent ids
        \<and> bw_complete_block ops ids w0 = (Inr (), snd s)
      else \<exists>body w0. bw_write_once ops (buf_len body) body w0 = (Inr (), snd s)
        \<and> (log = [] \<and> body = buf_new \<or> log = [body]))"

lemma bw_submit_inv:
  assumes "bw_inv ops log st" "bw_started st" "bw_cache st = Some b"
    "bw_submit ex gen ops b st w = (r, st', w')"
  shows "bw_started st' \<and>
     ((r = Ok () \<and> bw_inv ops log st' \<and> bw_cache st' = None)
      \<or> (\<exists>e. r = Err e \<and> bw_inv ops log st'))"
proof -
  obtain sent where s: "log = map bi_bytes sent @ [b]"
    "ct_holds (bw_block_of ops) sent (bw_block_ids st) (bw_tasks st)"
    using assms(1-3) by (auto simp: bw_inv_def)
  obtain v w0 where v: "new_v4 gen w = (v, w0)" by fastforce
  let ?i = "\<lparr>bi_block_id = v, bi_bytes = b\<rparr>"
  obtain x ts w1 where x: "ct_execute (bw_spawn ex gen ops) ?i (bw_tasks st) w0 = (x, ts, w1)"
    by (metis prod_cases3)
  show ?thesis
  proof (cases "ct_errored (bw_tasks st)")
    case True
    with x bk.execute_errored have "x = Err ct_error" "ts = bw_tasks st" by (metis Pair_inject)+
    with assms x s v show ?thesis by (auto simp: bw_submit_def bw_inv_def)
  next
    case False
    from bk.execute_holds [OF s(2) False x] show ?thesis
    proof (elim disjE exE conjE)
      assume "x = Ok ()" "ct_holds (bw_block_of ops) (sent @ [?i]) (bw_block_ids st) ts"
      moreover have "map bi_bytes (sent @ [?i]) = log" using s by simp
      ultimately show ?thesis using assms x v
        by (auto simp: bw_submit_def bw_inv_def simp del: map_append intro!: exI [of _ "sent @ [?i]"])
    next
      fix e assume "x = Err e" "ct_holds (bw_block_of ops) sent (bw_block_ids st) ts"
      with assms x s v show ?thesis by (auto simp: bw_submit_def bw_inv_def)
    qed
  qed
qed

lemma bw_write_inv:
  assumes inv: "bw_inv ops log st" and r: "bw_write ex gen ops b (st, w) = (r, st', w')"
  shows "(r = Ok () \<and> bw_inv ops (log @ [b]) st') \<or> (\<exists>e. r = Err e \<and> bw_inv ops log st') \<or> r = Panic"
proof (cases "bw_cache st")
  case None
  with r inv show ?thesis by (auto simp: bw_write_def bw_fill_cache_def bw_inv_def Let_def split: if_splits)
next
  case (Some c)
  let ?st = "st\<lparr>bw_started := True\<rparr>"
  have "bw_inv ops log ?st"
  proof (cases "bw_started st")
    case True
    with inv show ?thesis by (simp add: bw_inv_def)
  next
    case False
    with inv Some show ?thesis by (auto simp: bw_inv_def ct_holds_new)
  qed
  moreover obtain x st1 w1 where x: "bw_submit ex gen ops c ?st w = (x, st1, w1)" by (metis prod_cases3)
  ultimately have s: "bw_started st1 \<and> ((x = Ok () \<and> bw_inv ops log st1 \<and> bw_cache st1 = None)
      \<or> (\<exists>e. x = Err e \<and> bw_inv ops log st1))"
    using bw_submit_inv [of ops log ?st c ex gen w x st1 w1] Some by simp
  show ?thesis
  proof (cases x)
    case (Ok u)
    with s have "bw_inv ops (log @ [b]) (st1\<lparr>bw_cache := Some b\<rparr>)" by (auto simp: bw_inv_def)
    with r x Ok Some s show ?thesis by (auto simp: bw_write_def bw_fill_cache_def Let_def)
  qed (use s r Some x in \<open>auto simp: bw_write_def Let_def\<close>)
qed

lemma bw_finish_inv:
  assumes inv: "bw_inv ops log st" "bw_started st" "bw_cache st = None"
    and r: "bw_finish ex gen ops st w = (r, st', w')"
  shows "(r = Ok () \<and> bw_committed ops log (st', w')) \<or> (\<exists>e. r = Err e \<and> bw_inv ops log st')"
proof -
  from inv obtain sent where log: "log = map bi_bytes sent"
    and h: "ct_holds (bw_block_of ops) sent ([] @ bw_block_ids st) (bw_tasks st)"
    by (auto simp: bw_inv_def)
  obtain d ids ts w1 where d: "ct_drain (bw_spawn ex gen ops) (bw_block_ids st) (bw_tasks st) w = (d, ids, ts, w1)"
    by (metis prod_cases4)
  show ?thesis
  proof (cases "ct_errored (bw_tasks st)")
    case True
    with bk.drain_errored [OF True, of ex gen ops "bw_block_ids st" w] r inv show ?thesis
      by (auto simp: bw_finish_def)
  next
    case False
    from bk.drain_holds [OF h False d] show ?thesis
    proof (elim disjE exE conjE)
      assume ok: "d = Ok ()" "ct_holds (bw_block_of ops) sent ([] @ ids) ts"
        "list_all2 (bw_block_of ops) sent ([] @ ids)"
      obtain c w2 where c: "bw_complete_block ops ids w1 = (c, w2)" by fastforce
      with r d ok inv log show ?thesis
        by (cases c) (auto simp: bw_finish_def bw_committed_def bw_inv_def)
    next
      fix e assume "d = Err e" "ct_holds (bw_block_of ops) sent ([] @ ids) ts"
      with r d inv log show ?thesis by (auto simp: bw_finish_def bw_inv_def)
    qed
  qed
qed

lemma bw_close_cases:
  assumes inv: "bw_inv ops log st" and r: "bw_close ex gen ops (st, w) = (r, st', w')"
  shows "(r = Ok () \<and> bw_committed ops log (st', w')) \<or> (\<exists>e. r = Err e \<and> bw_inv ops log st')"
proof (cases "bw_started st")
  case False
  define body where "body = (case bw_cache st of Some c \<Rightarrow> c | None \<Rightarrow> buf_new)"
  have "(case bw_cache st of Some c \<Rightarrow> (buf_len c, c) | None \<Rightarrow> (0, buf_new)) = (buf_len body, body)"
    by (auto simp: body_def buf_len_def buf_new_def split: option.splits)
  moreover have "log = [] \<and> body = buf_new \<or> log = [body]"
    using inv False by (auto simp: bw_inv_def body_def)
  moreover obtain x w1 where "bw_write_once ops (buf_len body) body w = (x, w1)" by fastforce
  ultimately show ?thesis
    using r False inv by (cases x) (auto simp: bw_close_def bw_committed_def)
next
  case True
  show ?thesis
  proof (cases "bw_cache st")
    case None
    with r True have "bw_finish ex gen ops st w = (r, st', w')" by (simp add: bw_close_def)
    from bw_finish_inv [OF inv True None this] show ?thesis .
  next
    case c: (Some c)
    obtain x st1 w1 where x: "bw_submit ex gen ops c st w = (x, st1, w1)" by (metis prod_cases3)
    note s = bw_submit_inv [OF inv True c x]
    show ?thesis
    proof (cases x)
      case (Ok u)
      with s have st1: "bw_inv ops log st1" "bw_started st1" "bw_cache st1 = None" by auto
      have "bw_finish ex gen ops st1 w1 = (r, st', w')" using r True c x Ok by (simp add: bw_close_def)
      from bw_finish_inv [OF st1 this] show ?thesis .
    qed (use s r True c x in \<open>auto simp: bw_close_def\<close>)
  qed
qed

interpretation bkw: oio_write_retry "bw_write ex gen ops" "bw_close ex gen ops"
  "\<lambda>log s. bw_inv ops log (fst s)" "bw_committed ops"
  for ex :: "'w executor" and gen :: "'w uuid_gen" and ops :: "'w block_write"
proof unfold_locales
  fix log b and s s' :: "block_writer \<times> 'w" and e :: error
  assume inv: "bw_inv ops log (fst s)"
  obtain st w where s: "s = (st, w)" by fastforce
  obtain st' w' where s': "s' = (st', w')" by fastforce
  show "bw_inv ops (log @ [b]) (fst s')" if "bw_write ex gen ops b s = (Ok (), s')"
    using bw_write_inv [of ops log st ex gen b w "Ok ()" st' w'] that inv s s' by auto
  show "bw_inv ops log (fst s')" if "bw_write ex gen ops b s = (Err e, s')"
    using bw_write_inv [of ops log st ex gen b w "Err e" st' w'] that inv s s' by auto
  show "bw_inv ops log (fst s')" if "bw_close ex gen ops s = (Err e, s')"
    using bw_close_cases [of ops log st ex gen w "Err e" st' w'] that inv s s' by auto
  show "bw_committed ops log s'" if "bw_close ex gen ops s = (Ok (), s')"
    using bw_close_cases [of ops log st ex gen w "Ok ()" st' w'] that inv s s' by auto
qed

subsection \<open>\<open>PositionWriter\<close>\<close>

record 'w position_write =
  pw_write_all_at :: "u64 \<Rightarrow> buffer \<Rightarrow> 'w \<Rightarrow> unit io \<times> 'w"
  pw_close_file :: "'w \<Rightarrow> unit io \<times> 'w"
  pw_abort_file :: "'w \<Rightarrow> unit io \<times> 'w"

record position_input =
  pi_offset :: u64
  pi_bytes :: buffer

record position_writer =
  pw_next_offset :: u64
  pw_cache :: "buffer option"
  pw_tasks :: "(position_input, unit) concurrent_tasks"

definition pw_timeout_error :: "position_input \<Rightarrow> error" where
  "pw_timeout_error input =
     set_temporary
       (with_context ''offset'' (show_u64 (pi_offset input))
         (new_error Unexpected ''write position timeout''))"

definition pw_spawn ::
  "'w executor \<Rightarrow> 'w position_write \<Rightarrow> (position_input, unit, 'w) spawn" where
  "pw_spawn ex ops input w =
     run_task ex (pw_write_all_at ops (pi_offset input) (pi_bytes input)) (pw_timeout_error input) input w"

definition pw_new :: "nat \<Rightarrow> position_writer" where
  "pw_new concurrent = \<lparr>pw_next_offset = 0, pw_cache = None, pw_tasks = ct_new concurrent\<rparr>"

definition pw_fill_cache :: "buffer \<Rightarrow> position_writer \<Rightarrow> (nat \<times> position_writer) res" where
  "pw_fill_cache bs st =
     guard (pw_cache st = None) (Ok (buf_len bs, st\<lparr>pw_cache := Some bs\<rparr>))"

definition pw_write ::
  "'w executor \<Rightarrow> 'w position_write \<Rightarrow> buffer \<Rightarrow> position_writer \<times> 'w
     \<Rightarrow> unit res \<times> position_writer \<times> 'w" where
  "pw_write ex ops bs = (\<lambda>(st, w).
     case pw_cache st of
       None \<Rightarrow>
         (case pw_fill_cache bs st of
            Ok (n, st1) \<Rightarrow> (Ok (), st1, w) | Err e \<Rightarrow> (Err e, st, w) | Panic \<Rightarrow> (Panic, st, w))
     | Some bytes \<Rightarrow>
         (case ct_execute (pw_spawn ex ops) \<lparr>pi_offset = pw_next_offset st, pi_bytes = bytes\<rparr>
                 (pw_tasks st) w of
            (Ok u, ts, w1) \<Rightarrow>
              (let st1 = st\<lparr>pw_tasks := ts, pw_cache := None\<rparr> in
               case u64_add (pw_next_offset st1) (of_nat (buf_len bytes)) of
                 Ok off \<Rightarrow>
                   (case pw_fill_cache bs (st1\<lparr>pw_next_offset := off\<rparr>) of
                      Ok (n, st2) \<Rightarrow> (Ok (), st2, w1) | Err e \<Rightarrow> (Err e, st1, w1) | Panic \<Rightarrow> (Panic, st1, w1))
               | Err e \<Rightarrow> (Err e, st1, w1)
               | Panic \<Rightarrow> (Panic, st1, w1))
          | (Err e, ts, w1) \<Rightarrow> (Err e, st\<lparr>pw_tasks := ts\<rparr>, w1)
          | (Panic, ts, w1) \<Rightarrow> (Panic, st\<lparr>pw_tasks := ts\<rparr>, w1)))"

definition pw_close ::
  "'w executor \<Rightarrow> 'w position_write \<Rightarrow> position_writer \<times> 'w \<Rightarrow> unit res \<times> position_writer \<times> 'w" where
  "pw_close ex ops = (\<lambda>(st, w).
     case ct_drain (pw_spawn ex ops) [] (pw_tasks st) w of
       (Ok u, _, ts, w1) \<Rightarrow>
         (let st1 = st\<lparr>pw_tasks := ts\<rparr>;
              (r, st2, w2) = (case pw_cache st1 of
                  None \<Rightarrow> (Inr (), st1, w1)
                | Some buf \<Rightarrow>
                    (case pw_write_all_at ops (pw_next_offset st1) buf w1 of
                       (Inl e, w2) \<Rightarrow> (Inl e, st1, w2)
                     | (Inr u, w2) \<Rightarrow> (Inr (), st1\<lparr>pw_cache := None\<rparr>, w2)))
          in case r of
               Inl e \<Rightarrow> (Err e, st2, w2)
             | Inr u \<Rightarrow>
                 (case pw_close_file ops w2 of
                    (Inl e, w3) \<Rightarrow> (Err e, st2, w3) | (Inr u, w3) \<Rightarrow> (Ok (), st2, w3)))
     | (Err e, _, ts, w1) \<Rightarrow> (Err e, st\<lparr>pw_tasks := ts\<rparr>, w1)
     | (Panic, _, ts, w1) \<Rightarrow> (Panic, st\<lparr>pw_tasks := ts\<rparr>, w1))"

definition pw_abort ::
  "'w position_write \<Rightarrow> position_writer \<times> 'w \<Rightarrow> unit res \<times> position_writer \<times> 'w" where
  "pw_abort ops = (\<lambda>(st, w).
     let st1 = st\<lparr>pw_tasks := ct_clear (pw_tasks st), pw_cache := None\<rparr> in
     case pw_abort_file ops w of
       (Inl e, w1) \<Rightarrow> (Err e, st1, w1) | (Inr u, w1) \<Rightarrow> (Ok (), st1, w1))"

paragraph \<open>What the positioned writer keeps\<close>

text \<open>The writes of a log laid out without gaps or overlaps from an offset on.\<close>

fun pw_layout :: "nat \<Rightarrow> buffer list \<Rightarrow> position_input list" where
  "pw_layout off [] = []"
| "pw_layout off (b # bs) = \<lparr>pi_offset = of_nat off, pi_bytes = b\<rparr> # pw_layout (off + buf_len b) bs"

lemma pw_layout_append:
  "pw_layout off (xs @ ys) = pw_layout off xs @ pw_layout (off + sum_list (map buf_len xs)) ys"
  by (induction xs arbitrary: off) (auto simp: add.assoc)

definition pw_written :: "'w position_write \<Rightarrow> position_input \<Rightarrow> unit \<Rightarrow> bool" where
  "pw_written ops i u = (\<exists>w w'. pw_write_all_at ops (pi_offset i) (pi_bytes i) w = (Inr (), w'))"

interpretation ps: task_factory "pw_spawn ex ops" "pw_written ops" for ex ops
proof
  show "honest (pw_written ops) i (fst (pw_spawn ex ops i w))" for i w
    unfolding pw_spawn_def by (rule run_task_honest) (auto simp: pw_written_def)
qed

definition pw_inv :: "'w position_write \<Rightarrow> buffer list \<Rightarrow> position_writer \<Rightarrow> bool" where
  "pw_inv ops log st = (\<exists>sent del. log = sent @ (case pw_cache st of None \<Rightarrow> [] | Some b \<Rightarrow> [b])
     \<and> unat (pw_next_offset st) = sum_list (map buf_len sent)
     \<and> ct_holds (pw_written ops) (pw_layout 0 sent) del (pw_tasks st))"

definition pw_committed :: "'w position_write \<Rightarrow> buffer list \<Rightarrow> position_writer \<times> 'w \<Rightarrow> bool" where
  "pw_committed ops log s = (list_all (\<lambda>i. pw_written ops i ()) (pw_layout 0 log)
     \<and> (\<exists>w0. pw_close_file ops w0 = (Inr (), snd s)))"

lemma u64_add_len:
  assumes "u64_add a (of_nat n) = Ok c" "n \<le> u64_max"
  shows "unat c = unat a + n"
proof -
  have "unat (of_nat n :: u64) = n"
    using assms(2) by (simp add: u64_max_eq unat_of_nat take_bit_nat_eq_self)
  with assms(1) show ?thesis by (simp add: u64_add_Ok_iff)
qed

lemma pw_write_inv:
  assumes inv: "pw_inv ops log st" and r: "pw_write ex ops b (st, w) = (r, st', w')"
    and len: "\<forall>c. pw_cache st = Some c \<longrightarrow> buf_len c \<le> u64_max"
  shows "(r = Ok () \<and> pw_inv ops (log @ [b]) st') \<or> (\<exists>e. r = Err e \<and> pw_inv ops log st') \<or> r = Panic"
proof (cases "pw_cache st")
  case None
  with r inv show ?thesis by (auto simp: pw_write_def pw_fill_cache_def pw_inv_def)
next
  case (Some c)
  obtain sent del where s: "log = sent @ [c]" "unat (pw_next_offset st) = sum_list (map buf_len sent)"
    "ct_holds (pw_written ops) (pw_layout 0 sent) del (pw_tasks st)"
    using inv Some by (auto simp: pw_inv_def)
  let ?i = "\<lparr>pi_offset = pw_next_offset st, pi_bytes = c\<rparr>"
  have lay: "pw_layout 0 (sent @ [c]) = pw_layout 0 sent @ [?i]"
    using s(2) by (simp add: pw_layout_append flip: s(2))
  obtain x ts w1 where x: "ct_execute (pw_spawn ex ops) ?i (pw_tasks st) w = (x, ts, w1)"
    by (metis prod_cases3)
  show ?thesis
  proof (cases "ct_errored (pw_tasks st)")
    case True
    with x ps.execute_errored have "x = Err ct_error" "ts = pw_tasks st" by (metis Pair_inject)+
    with r x Some inv show ?thesis by (auto simp: pw_write_def)
  next
    case False
    from ps.execute_holds [OF s(3) False x] show ?thesis
    proof (elim disjE exE conjE)
      assume ok: "x = Ok ()" and h: "ct_holds (pw_written ops) (pw_layout 0 sent @ [?i]) del ts"
      show ?thesis
      proof (cases "u64_add (pw_next_offset st) (of_nat (buf_len c)) :: u64 res")
        case (Ok off)
        then have "unat off = sum_list (map buf_len (sent @ [c]))"
          using u64_add_len [OF Ok] len Some s(2) by simp
        then have "pw_inv ops (log @ [b]) (st\<lparr>pw_tasks := ts, pw_next_offset := off, pw_cache := Some b\<rparr>)"
          using h lay s(1) unfolding pw_inv_def by (auto simp del: map_append intro!: exI [of _ "sent @ [c]"])
        with r Some x ok Ok show ?thesis by (auto simp: pw_write_def pw_fill_cache_def)
      qed (use r Some x ok in \<open>auto simp: pw_write_def u64_add_def guard_def split: if_splits\<close>)
    next
      fix e assume "x = Err e" "ct_holds (pw_written ops) (pw_layout 0 sent) del ts"
      with r Some x s show ?thesis by (auto simp: pw_write_def pw_inv_def)
    qed
  qed
qed

lemma pw_close_Ok:
  assumes inv: "pw_inv ops log st" and r: "pw_close ex ops (st, w) = (Ok (), st', w')"
  shows "pw_committed ops log (st', w')"
proof -
  obtain sent del where s: "log = sent @ (case pw_cache st of None \<Rightarrow> [] | Some b \<Rightarrow> [b])"
    "unat (pw_next_offset st) = sum_list (map buf_len sent)"
    and h: "ct_holds (pw_written ops) (pw_layout 0 sent) (del @ []) (pw_tasks st)"
    using inv by (auto simp: pw_inv_def)
  obtain d ds ts w1 where d: "ct_drain (pw_spawn ex ops) [] (pw_tasks st) w = (d, ds, ts, w1)"
    by (metis prod_cases4)
  have ok: "d = Ok ()" using r d by (cases d) (auto simp: pw_close_def)
  have ne: "\<not> ct_errored (pw_tasks st)"
    using ps.drain_errored [of "pw_tasks st" ex ops "[]" w] d ok by (cases "ct_errored (pw_tasks st)") auto
  have "list_all2 (pw_written ops) (pw_layout 0 sent) (del @ ds)"
    using ps.drain_holds [OF h ne d] ok by auto
  then have sent: "list_all (\<lambda>i. pw_written ops i ()) (pw_layout 0 sent)"
    by (auto simp: list_all2_conv_all_nth list_all_length)
  show ?thesis
  proof (cases "pw_cache st")
    case None
    with r d ok s sent show ?thesis
      by (auto simp: pw_close_def pw_committed_def Let_def split: sum.splits prod.splits)
  next
    case (Some c)
    have lay: "pw_layout 0 (sent @ [c]) = pw_layout 0 sent @ [\<lparr>pi_offset = pw_next_offset st, pi_bytes = c\<rparr>]"
      using s(2) by (simp add: pw_layout_append flip: s(2))
    obtain x w2 where x: "pw_write_all_at ops (pw_next_offset st) c w1 = (x, w2)" by fastforce
    obtain y w3 where y: "pw_close_file ops w2 = (y, w3)" by fastforce
    from r d ok Some x y have w2: "pw_write_all_at ops (pw_next_offset st) c w1 = (Inr (), w2)"
      "pw_close_file ops w2 = (Inr (), w')"
      by (cases x; cases y; simp add: pw_close_def)+
    then have "pw_written ops \<lparr>pi_offset = pw_next_offset st, pi_bytes = c\<rparr> ()"
      by (auto simp: pw_written_def)
    with w2 sent s(1) Some lay show ?thesis by (auto simp: pw_committed_def)
  qed
qed

text \<open>Lengths are lengths in memory, which a 64-bit offset can count.\<close>

interpretation psw: oio_write
  "\<lambda>b s. if buf_len b \<le> u64_max then pw_write ex ops b s else (Panic, s)" "pw_close ex ops"
  "\<lambda>log s. pw_inv ops log (fst s) \<and> (\<forall>c \<in> set log. buf_len c \<le> u64_max)" "pw_committed ops"
  for ex :: "'w executor" and ops :: "'w position_write"
proof unfold_locales
  fix log b and s s' :: "position_writer \<times> 'w" and e :: error
  assume inv: "pw_inv ops log (fst s) \<and> (\<forall>c \<in> set log. buf_len c \<le> u64_max)"
  obtain st w where s: "s = (st, w)" by fastforce
  obtain st' w' where s': "s' = (st', w')" by fastforce
  have len: "\<forall>c. pw_cache st = Some c \<longrightarrow> buf_len c \<le> u64_max"
    using inv s by (auto simp: pw_inv_def)
  show "pw_inv ops (log @ [b]) (fst s') \<and> (\<forall>c \<in> set (log @ [b]). buf_len c \<le> u64_max)"
    if "(if buf_len b \<le> u64_max then pw_write ex ops b s else (Panic, s)) = (Ok (), s')"
    using pw_write_inv [of ops log st ex b w "Ok ()" st' w'] len that inv s s' by (auto split: if_splits)
  show "pw_inv ops log (fst s') \<and> (\<forall>c \<in> set log. buf_len c \<le> u64_max)"
    if "(if buf_len b \<le> u64_max then pw_write ex ops b s else (Panic, s)) = (Err e, s')"
    using pw_write_inv [of ops log st ex b w "Err e" st' w'] len that inv s s' by (auto split: if_splits)
  show "pw_committed ops log s'" if "pw_close ex ops s = (Ok (), s')"
    using pw_close_Ok [of ops log st ex w st' w'] that inv s s' by auto
qed

subsection \<open>\<open>AppendWriter\<close>\<close>

record 'w append_write =
  aw_offset_of :: "'w \<Rightarrow> u64 io \<times> 'w"
  aw_append :: "u64 \<Rightarrow> nat \<Rightarrow> buffer \<Rightarrow> 'w \<Rightarrow> unit io \<times> 'w"

record append_writer =
  aw_offset :: "u64 option"

definition aw_new :: append_writer where
  "aw_new = \<lparr>aw_offset = None\<rparr>"

definition aw_append_at ::
  "'w append_write \<Rightarrow> u64 \<Rightarrow> buffer \<Rightarrow> append_writer \<Rightarrow> 'w \<Rightarrow> unit res \<times> append_writer \<times> 'w" where
  "aw_append_at ops offset bs st w =
     (case aw_append ops offset (buf_len bs) bs w of
        (Inl e, w') \<Rightarrow> (Err e, st, w')
      | (Inr u, w') \<Rightarrow>
          (case u64_add offset (of_nat (buf_len bs)) of
             Ok off \<Rightarrow> (Ok (), st\<lparr>aw_offset := Some off\<rparr>, w')
           | Err e \<Rightarrow> (Err e, st, w')
           | Panic \<Rightarrow> (Panic, st, w')))"

definition aw_write ::
  "'w append_write \<Rightarrow> buffer \<Rightarrow> append_writer \<times> 'w \<Rightarrow> unit res \<times> append_writer \<times> 'w" where
  "aw_write ops bs = (\<lambda>(st, w).
     case aw_offset st of
       Some offset \<Rightarrow> aw_append_at ops offset bs st w
     | None \<Rightarrow>
         (case aw_offset_of ops w of
            (Inl e, w1) \<Rightarrow> (Err e, st, w1)
          | (Inr offset, w1) \<Rightarrow> aw_append_at ops offset bs (st\<lparr>aw_offset := Some offset\<rparr>) w1))"

definition aw_close :: "append_writer \<times> 'w \<Rightarrow> unit res \<times> append_writer \<times> 'w" where
  "aw_close s = (Ok (), s)"

definition aw_abort :: "append_writer \<times> 'w \<Rightarrow> unit res \<times> append_writer \<times> 'w" where
  "aw_abort s = (Ok (), s)"

text \<open>
  Every buffer of the log was appended right after the one before it, from the offset the
  service reported first.
\<close>

definition aw_appended :: "'w append_write \<Rightarrow> position_input \<Rightarrow> bool" where
  "aw_appended ops i =
     (\<exists>w w'. aw_append ops (pi_offset i) (buf_len (pi_bytes i)) (pi_bytes i) w = (Inr (), w'))"

definition aw_inv :: "'w append_write \<Rightarrow> buffer list \<Rightarrow> append_writer \<Rightarrow> bool" where
  "aw_inv ops log st =
     (case aw_offset st of
        None \<Rightarrow> log = []
      | Some off \<Rightarrow> \<exists>base w0 w1. aw_offset_of ops w0 = (Inr base, w1)
          \<and> unat off = unat base + sum_list (map buf_len log)
          \<and> list_all (aw_appended ops) (pw_layout (unat base) log))"

lemma aw_append_at_inv:
  assumes inv: "aw_inv ops log st" "aw_offset st = Some off" and len: "buf_len b \<le> u64_max"
    and r: "aw_append_at ops off b st w = (r, st', w')"
  shows "(r = Ok () \<and> aw_inv ops (log @ [b]) st') \<or> (\<exists>e. r = Err e \<and> aw_inv ops log st') \<or> r = Panic"
proof -
  obtain base w0 w1 where base: "aw_offset_of ops w0 = (Inr base, w1)"
    "unat off = unat base + sum_list (map buf_len log)"
    "list_all (aw_appended ops) (pw_layout (unat base) log)"
    using inv by (auto simp: aw_inv_def)
  obtain x w2 where x: "aw_append ops off (buf_len b) b w = (x, w2)" by fastforce
  show ?thesis
  proof (cases x)
    case (Inl e)
    with r x inv show ?thesis by (auto simp: aw_append_at_def)
  next
    case (Inr u)
    show ?thesis
    proof (cases "u64_add off (of_nat (buf_len b)) :: u64 res")
      case (Ok off')
      have "of_nat (unat base + sum_list (map buf_len log)) = off"
        by (simp flip: base(2))
      then have "pw_layout (unat base) (log @ [b]) = pw_layout (unat base) log @ [\<lparr>pi_offset = off, pi_bytes = b\<rparr>]"
        by (simp add: pw_layout_append)
      moreover have "aw_appended ops \<lparr>pi_offset = off, pi_bytes = b\<rparr>"
        using x Inr by (auto simp: aw_appended_def)
      moreover have "unat off' = unat base + sum_list (map buf_len (log @ [b]))"
        using u64_add_len [OF Ok len] base(2) by simp
      ultimately have "aw_inv ops (log @ [b]) (st\<lparr>aw_offset := Some off'\<rparr>)"
        using base unfolding aw_inv_def by (auto intro!: exI [of _ base])
      with r x Inr Ok show ?thesis by (auto simp: aw_append_at_def)
    qed (use r x Inr in \<open>auto simp: aw_append_at_def u64_add_def guard_def split: if_splits\<close>)
  qed
qed

lemma aw_write_inv:
  assumes inv: "aw_inv ops log st" and len: "buf_len b \<le> u64_max"
    and r: "aw_write ops b (st, w) = (r, st', w')"
  shows "(r = Ok () \<and> aw_inv ops (log @ [b]) st') \<or> (\<exists>e. r = Err e \<and> aw_inv ops log st') \<or> r = Panic"
proof (cases "aw_offset st")
  case (Some off)
  with aw_append_at_inv [OF inv Some len] r show ?thesis by (simp add: aw_write_def)
next
  case None
  obtain x w1 where x: "aw_offset_of ops w = (x, w1)" by fastforce
  show ?thesis
  proof (cases x)
    case (Inl e)
    with r x None inv show ?thesis by (auto simp: aw_write_def)
  next
    case (Inr off)
    have "aw_inv ops log (st\<lparr>aw_offset := Some off\<rparr>)"
      using inv None x Inr by (auto simp: aw_inv_def)
    with aw_append_at_inv [of ops log "st\<lparr>aw_offset := Some off\<rparr>" off b w1] r x None Inr len
    show ?thesis by (simp add: aw_write_def)
  qed
qed

interpretation apw: oio_write_retry
  "\<lambda>b s. if buf_len b \<le> u64_max then aw_write ops b s else (Panic, s)" aw_close
  "\<lambda>log s. aw_inv ops log (fst s)" "\<lambda>log s. aw_inv ops log (fst s)"
  for ops :: "'w append_write"
proof unfold_locales
  fix log b and s s' :: "append_writer \<times> 'w" and e :: error
  assume inv: "aw_inv ops log (fst s)"
  obtain st w where s: "s = (st, w)" by fastforce
  obtain st' w' where s': "s' = (st', w')" by fastforce
  show "aw_inv ops (log @ [b]) (fst s')"
    if "(if buf_len b \<le> u64_max then aw_write ops b s else (Panic, s)) = (Ok (), s')"
    using aw_write_inv [of ops log st b w "Ok ()" st' w'] that inv s s' by (auto split: if_splits)
  show "aw_inv ops log (fst s')"
    if "(if buf_len b \<le> u64_max then aw_write ops b s else (Panic, s)) = (Err e, s')"
    using aw_write_inv [of ops log st b w "Err e" st' w'] that inv s s' by (auto split: if_splits)
qed (simp_all add: aw_close_def)

subsection \<open>\<open>OneShotWriter\<close>\<close>

record one_shot_writer =
  ow_buffer :: "buffer option"

definition ow_new :: one_shot_writer where
  "ow_new = \<lparr>ow_buffer = None\<rparr>"

definition ow_write :: "buffer \<Rightarrow> one_shot_writer \<times> 'w \<Rightarrow> unit res \<times> one_shot_writer \<times> 'w" where
  "ow_write bs = (\<lambda>(st, w).
     case ow_buffer st of
       Some b \<Rightarrow> (Err (new_error Unsupported ''OneShotWriter doesn't support multiple write''), st, w)
     | None \<Rightarrow> (Ok (), st\<lparr>ow_buffer := Some bs\<rparr>, w))"

definition ow_close ::
  "(buffer \<Rightarrow> 'w \<Rightarrow> unit io \<times> 'w) \<Rightarrow> one_shot_writer \<times> 'w \<Rightarrow> unit res \<times> one_shot_writer \<times> 'w" where
  "ow_close write_once = (\<lambda>(st, w).
     case write_once (case ow_buffer st of Some bs \<Rightarrow> bs | None \<Rightarrow> buf_new) w of
       (Inl e, w') \<Rightarrow> (Err e, st, w') | (Inr u, w') \<Rightarrow> (Ok (), st, w'))"

definition ow_abort :: "one_shot_writer \<times> 'w \<Rightarrow> unit res \<times> one_shot_writer \<times> 'w" where
  "ow_abort = (\<lambda>(st, w). (Ok (), st\<lparr>ow_buffer := None\<rparr>, w))"

definition ow_inv :: "buffer list \<Rightarrow> one_shot_writer \<Rightarrow> bool" where
  "ow_inv log st = (log = (case ow_buffer st of None \<Rightarrow> [] | Some b \<Rightarrow> [b]))"

definition ow_committed ::
  "(buffer \<Rightarrow> 'w \<Rightarrow> unit io \<times> 'w) \<Rightarrow> buffer list \<Rightarrow> one_shot_writer \<times> 'w \<Rightarrow> bool" where
  "ow_committed write_once log s =
     (\<exists>body w0. write_once body w0 = (Inr (), snd s) \<and> (log = [] \<and> body = buf_new \<or> log = [body]))"

interpretation osw: oio_write_retry ow_write "ow_close write_once" "\<lambda>log s. ow_inv log (fst s)"
  "ow_committed write_once" for write_once :: "buffer \<Rightarrow> 'w \<Rightarrow> unit io \<times> 'w"
  by unfold_locales
    (auto simp: ow_write_def ow_close_def ow_inv_def ow_committed_def split: option.splits sum.splits prod.splits)

subsection \<open>Properties\<close>

text \<open>
  A service in memory, for concrete runs: the uploaded parts by number, and the object. Its
  executor never times out and starts every task with a delay of one poll.
\<close>

type_synonym mem_store = "(nat \<times> bytes) list \<times> bytes option"

definition mem_executor :: "'w executor" where
  "mem_executor = \<lparr>ex_timeout = (\<lambda>w. (False, w)), ex_delay = (\<lambda>w. (1, w))\<rparr>"

definition mem_multipart :: "mem_store multipart_write" where
  "mem_multipart =
     \<lparr>mw_write_once = (\<lambda>n b (ps, obj). (Inr (), (ps, Some (buf_bytes b)))),
      mw_initiate_part = (\<lambda>w. (Inr ''u'', w)),
      mw_write_part = (\<lambda>v k n b (ps, obj).
        (Inr \<lparr>part_number = k, part_etag = [], part_checksum = None\<rparr>, (ps @ [(k, buf_bytes b)], obj))),
      mw_complete_part = (\<lambda>v parts (ps, obj).
        (Inr (), (ps, Some (concat (map (\<lambda>p. the (map_of ps (part_number p))) parts))))),
      mw_abort_part = (\<lambda>v (ps, obj). (Inr (), ([], obj)))\<rparr>"

definition mem_block :: "mem_store block_write" where
  "mem_block =
     \<lparr>bw_write_once = (\<lambda>n b (ps, obj). (Inr (), (ps, Some (buf_bytes b)))),
      bw_write_block = (\<lambda>v n b (ps, obj). (Inr (), (ps @ [(unat v, buf_bytes b)], obj))),
      bw_complete_block = (\<lambda>ids (ps, obj).
        (Inr (), (ps, Some (concat (map (\<lambda>v. the (map_of ps (unat v))) ids))))),
      bw_abort_block = (\<lambda>ids (ps, obj). (Inr (), ([], obj)))\<rparr>"

definition mem_uuid :: "mem_store uuid_gen" where
  "mem_uuid = \<lparr>new_v4 = (\<lambda>(ps, obj). (of_nat (length ps), (ps, obj))), uuid_str = (\<lambda>v. show_nat (unat v))\<rparr>"

definition mem_position :: "bytes position_write" where
  "mem_position =
     \<lparr>pw_write_all_at = (\<lambda>off b w.
        (Inr (), take (unat off) w @ buf_bytes b @ drop (unat off + length (buf_bytes b)) w)),
      pw_close_file = (\<lambda>w. (Inr (), w)), pw_abort_file = (\<lambda>w. (Inr (), w))\<rparr>"

definition mem_append :: "bytes append_write" where
  "mem_append = \<lparr>aw_offset_of = (\<lambda>w. (Inr (of_nat (length w)), w)),
     aw_append = (\<lambda>off n b w. (Inr (), w @ buf_bytes b))\<rparr>"

text \<open>
  C8. Multipart uploads are complete and in order: if a client writes the buffers \<open>bs\<close>, trying
  failed writes again, and then closes, trying a failed close again, and the last call
  succeeds, then either at most one buffer was written and it was sent by one \<open>write_once\<close>,
  or the service completed the upload with one part per buffer, in order, part \<open>k\<close> being what
  the service returned for the \<open>k\<close>-th buffer under part number \<open>k\<close>. Failures in between,
  on any number of concurrent tasks, neither lose nor duplicate nor reorder a part.
\<close>

theorem multipart_commits:
  assumes "write_list (mw_write ex ops) n bs (mw_new concurrent, w) = (Ok (), s)"
    and "close_retry (mw_close ex ops) k s = (Ok (), st, w')"
  shows "case mw_upload_id st of
      None \<Rightarrow> \<exists>body w0. mw_write_once ops (buf_len body) body w0 = (Inr (), w')
        \<and> (bs = [] \<and> body = buf_new \<or> bs = [body])
    | Some v \<Rightarrow> \<exists>parts w0. list_all2 (mw_part_of ops) (mw_inputs v bs) parts
        \<and> mw_complete_part ops v parts w0 = (Inr (), w')"
proof -
  have "mw_inv ops [] (fst (mw_new concurrent, w))" by (auto simp: mw_inv_def mw_new_def)
  from mpw.write_list_close_retry [OF this assms] show ?thesis by (simp only: mw_committed_def fst_conv snd_conv)
qed

theorem multipart_commits_witness:
  "\<exists>st. close_retry (mw_close mem_executor mem_multipart) 0
      (snd (write_list (mw_write mem_executor mem_multipart) 0
        [Contiguous [1], Contiguous [2], Contiguous [3]] (mw_new 2, ([], None))))
      = (Ok (), st, ([(0, [1]), (1, [2]), (2, [3])], Some [1, 2, 3]))
    \<and> (\<exists>parts. list_all2 (mw_part_of mem_multipart)
          (mw_inputs ''u'' [Contiguous [1], Contiguous [2], Contiguous [3]]) parts)"
proof -
  define r where "r = write_list (mw_write mem_executor mem_multipart) 0
    [Contiguous [1], Contiguous [2], Contiguous [3]] (mw_new 2, ([], None))"
  have "fst r = Ok ()" unfolding r_def by code_simp
  then have w: "write_list (mw_write mem_executor mem_multipart) 0
      [Contiguous [1], Contiguous [2], Contiguous [3]] (mw_new 2, ([], None)) = (Ok (), snd r)"
    unfolding r_def by (metis prod.collapse)
  define c where "c = close_retry (mw_close mem_executor mem_multipart) 0 (snd r)"
  have "fst c = Ok ()" "snd (snd c) = ([(0, [1]), (1, [2]), (2, [3])], Some [1, 2, 3])"
    "mw_upload_id (fst (snd c)) = Some ''u''"
    unfolding c_def r_def by code_simp+
  then have c: "close_retry (mw_close mem_executor mem_multipart) 0 (snd r)
      = (Ok (), fst (snd c), ([(0, [1]), (1, [2]), (2, [3])], Some [1, 2, 3]))"
    unfolding c_def by (metis prod.collapse)
  from multipart_commits [OF w c] \<open>mw_upload_id (fst (snd c)) = Some ''u''\<close> c
  show ?thesis unfolding r_def by auto
qed

text \<open>
  Block uploads are complete and in order: under the same retries, a successful close
  means one \<open>write_once\<close> of the only buffer, or a completed upload whose list of block ids
  has one id per written buffer, in order, each uploaded with exactly that buffer.
\<close>

theorem block_commits:
  assumes "write_list (bw_write ex gen ops) n bs (bw_new concurrent, w) = (Ok (), s)"
    and "close_retry (bw_close ex gen ops) k s = (Ok (), st, w')"
  shows "if bw_started st
    then \<exists>sent ids w0. map bi_bytes sent = bs \<and> list_all2 (bw_block_of ops) sent ids
      \<and> bw_complete_block ops ids w0 = (Inr (), w')
    else \<exists>body w0. bw_write_once ops (buf_len body) body w0 = (Inr (), w')
      \<and> (bs = [] \<and> body = buf_new \<or> bs = [body])"
proof -
  have "bw_inv ops [] (fst (bw_new concurrent, w))" by (auto simp: bw_inv_def bw_new_def)
  from bkw.write_list_close_retry [OF this assms] show ?thesis by (simp only: bw_committed_def fst_conv snd_conv)
qed

theorem block_commits_witness:
  "\<exists>st. close_retry (bw_close mem_executor mem_uuid mem_block) 0
      (snd (write_list (bw_write mem_executor mem_uuid mem_block) 0 [Contiguous [7]] (bw_new 1, ([], None))))
      = (Ok (), st, ([], Some [7])) \<and> \<not> bw_started st
    \<and> (\<exists>body w0. bw_write_once mem_block (buf_len body) body w0 = (Inr (), ([], Some [7])))"
proof -
  have w: "write_list (bw_write mem_executor mem_uuid mem_block) 0 [Contiguous [7]] (bw_new 1, ([], None))
      = (Ok (), \<lparr>bw_started = False, bw_block_ids = [], bw_cache = Some (Contiguous [7]), bw_tasks = ct_new 1\<rparr>, ([], None))"
    by (simp add: bw_write_def bw_fill_cache_def bw_new_def)
  have c: "close_retry (bw_close mem_executor mem_uuid mem_block) 0
      (\<lparr>bw_started = False, bw_block_ids = [], bw_cache = Some (Contiguous [7]), bw_tasks = ct_new 1\<rparr>, ([], None))
      = (Ok (), \<lparr>bw_started = False, bw_block_ids = [], bw_cache = None, bw_tasks = ct_new 1\<rparr>, ([], Some [7]))"
    by (simp add: bw_close_def mem_block_def)
  from block_commits [OF w c] have "\<exists>body w0. bw_write_once mem_block (buf_len body) body w0 = (Inr (), ([], Some [7]))"
    by (simp only: block_writer.simps if_False) blast
  with w c show ?thesis by simp
qed

text \<open>
  Positioned writes tile the file: for buffers whose lengths a 64-bit offset can count, a
  successful close after successful writes (with retries) means every buffer was written
  at the offset where the buffers before it end, the last one included, and the file was
  closed after that.
\<close>

theorem position_commits:
  assumes "\<forall>b \<in> set bs. buf_len b \<le> u64_max"
    and "write_list (pw_write ex ops) n bs (pw_new concurrent, w) = (Ok (), s)"
    and "pw_close ex ops s = (Ok (), st, w')"
  shows "list_all (\<lambda>i. \<exists>w0 w1. pw_write_all_at ops (pi_offset i) (pi_bytes i) w0 = (Inr (), w1)) (pw_layout 0 bs)
    \<and> (\<exists>w0. pw_close_file ops w0 = (Inr (), w'))"
proof -
  let ?wr = "\<lambda>b s. if buf_len b \<le> u64_max then pw_write ex ops b s else (Panic, s)"
  have "write_list ?wr n bs s = write_list (pw_write ex ops) n bs s" for s
    using assms(1) by (rule write_list_cong) simp
  with assms(2) have w: "write_list ?wr n bs (pw_new concurrent, w) = (Ok (), s)" by simp
  have "pw_inv ops [] (fst (pw_new concurrent, w)) \<and> (\<forall>c \<in> set []. buf_len c \<le> u64_max)"
    by (auto simp: pw_inv_def pw_new_def ct_holds_new intro!: exI [of _ "[]"])
  from psw.write_list_close [OF this w assms(3)] show ?thesis
    by (simp add: pw_committed_def pw_written_def)
qed

theorem position_commits_witness:
  "list_all (\<lambda>i. \<exists>w0 w1. pw_write_all_at mem_position (pi_offset i) (pi_bytes i) w0 = (Inr (), w1))
     (pw_layout 0 [Contiguous [1], Contiguous [2, 3]])"
proof -
  let ?bs = "[Contiguous [1], Contiguous [2, 3]]"
  let ?st = "\<lparr>pw_next_offset = 1, pw_cache = Some (Contiguous [2, 3]),
      pw_tasks = \<lparr>ct_cap = 1, ct_tasks = [], ct_results = [()], ct_errored = False\<rparr>\<rparr>"
  have w: "write_list (pw_write mem_executor mem_position) 0 ?bs (pw_new 1, []) = (Ok (), ?st, [1])"
    by (simp add: pw_write_def pw_fill_cache_def pw_new_def ct_execute_def ct_new_def
        ct_is_concurrent_def pw_spawn_def run_task_def mem_executor_def mem_position_def buf_len_def num_eval)
  have l: "\<forall>b \<in> set ?bs. buf_len b \<le> u64_max" by (simp add: buf_len_def u64_max_def)
  have "pw_close mem_executor mem_position (?st, [1]) = (Ok (), \<lparr>pw_next_offset = 1, pw_cache = None,
      pw_tasks = \<lparr>ct_cap = 1, ct_tasks = [], ct_results = [], ct_errored = False\<rparr>\<rparr>, [1, 2, 3])"
    by (simp add: pw_close_def ct_drain.simps ct_next_def mem_position_def)
  from position_commits [OF l w this] show ?thesis by (rule conjunct1)
qed

text \<open>
  Appends are contiguous: after successful writes (with retries), each buffer was
  appended at the offset the service reported first plus the lengths of the buffers
  before it; closing does nothing more.
\<close>

theorem append_contiguous:
  assumes "\<forall>b \<in> set bs. buf_len b \<le> u64_max" "bs \<noteq> []"
    and "write_list (aw_write ops) n bs (aw_new, w) = (Ok (), s)"
  shows "(\<exists>base w0 w1. aw_offset_of ops w0 = (Inr base, w1)
      \<and> list_all (aw_appended ops) (pw_layout (unat base) bs)
      \<and> map_option unat (aw_offset (fst s)) = Some (unat base + sum_list (map buf_len bs)))
    \<and> aw_close s = (Ok (), s)"
proof -
  let ?wr = "\<lambda>b s. if buf_len b \<le> u64_max then aw_write ops b s else (Panic, s)"
  have "write_list ?wr n bs s = write_list (aw_write ops) n bs s" for s
    using assms(1) by (rule write_list_cong) simp
  with assms(3) have w: "write_list ?wr n bs (aw_new, w) = (Ok (), s)" by simp
  have "aw_inv ops [] (fst (aw_new, w))" by (simp add: aw_inv_def aw_new_def)
  from apw.write_list_Ok [OF this w] assms(2) show ?thesis
    by (auto simp: aw_inv_def aw_close_def split: option.splits)
qed

theorem append_contiguous_witness:
  "list_all (aw_appended mem_append) (pw_layout 2 [Contiguous [1]])"
proof -
  have l: "\<forall>b \<in> set [Contiguous [1]]. buf_len b \<le> u64_max" "[Contiguous [1]] \<noteq> []"
    by (simp_all add: buf_len_def u64_max_def)
  have "write_list (aw_write mem_append) 0 [Contiguous [1]] (aw_new, [5, 6])
      = (Ok (), \<lparr>aw_offset = Some 3\<rparr>, [5, 6, 1])"
    by (simp add: aw_write_def aw_new_def aw_append_at_def mem_append_def buf_len_def num_eval)
  from append_contiguous [OF l this] obtain base :: u64 where
    b: "list_all (aw_appended mem_append) (pw_layout (unat base) [Contiguous [1]])"
    and "map_option unat (Some (3 :: u64)) = Some (unat base + sum_list (map buf_len [Contiguous [1]]))"
    by (elim conjE exE) simp
  then have "unat base = 2" by (simp add: buf_len_def)
  with b show ?thesis by (simp only:)
qed

end
