(* ===== verification/Listers.thy ===== *)
theory Listers
  imports Paths Ranges "HOL-Library.List_Lexorder" "HOL-Library.Char_ord"
begin

text \<open>
  Listing: entries and their metadata (\<^verbatim>\<open>core/src/raw/oio/entry.rs\<close>, \<^verbatim>\<open>core/src/types/metadata.rs\<close>)
  and the listers of \<^verbatim>\<open>core/src/raw/oio/list\<close>: page by page, filtered by prefix, a flat listing
  folded to one level (\<open>HierarchyLister\<close>), a recursive walk (\<open>FlatLister\<close>); and the in-memory
  index of \<^verbatim>\<open>core/src/layers/immutable_index.rs\<close>. The asynchronous and blocking listers have the
  same code.

  A lister is a state with an operation \<open>next\<close>; the result is \<open>None\<close> when the loop inside does
  not end. The interface \<open>oio_list\<close> says what a lister that stands for a list of entries
  does; it is carried through the filtering listers.
\<close>

subsection \<open>Metadata and entries\<close>

type_synonym datetime = int

record metadata =
  md_mode :: entry_mode
  md_is_current :: "bool option"
  md_is_deleted :: bool
  md_cache_control :: "string option"
  md_content_disposition :: "string option"
  md_content_length :: "u64 option"
  md_content_md5 :: "string option"
  md_content_range :: "bytes_content_range option"
  md_content_type :: "string option"
  md_content_encoding :: "string option"
  md_etag :: "string option"
  md_last_modified :: "datetime option"
  md_version :: "string option"
  md_user_metadata :: "(string \<times> string) list option"

definition metadata_new :: "entry_mode \<Rightarrow> metadata" where
  "metadata_new mode =
     \<lparr>md_mode = mode, md_is_current = None, md_is_deleted = False, md_cache_control = None,
      md_content_disposition = None, md_content_length = None, md_content_md5 = None,
      md_content_range = None, md_content_type = None, md_content_encoding = None, md_etag = None,
      md_last_modified = None, md_version = None, md_user_metadata = None\<rparr>"

definition content_length :: "metadata \<Rightarrow> u64" where
  "content_length m = (case md_content_length m of Some n \<Rightarrow> n | None \<Rightarrow> 0)"

definition set_content_length :: "u64 \<Rightarrow> metadata \<Rightarrow> metadata" where
  "set_content_length n m = m\<lparr>md_content_length := Some n\<rparr>"

record oio_entry =
  oe_path :: string
  oe_meta :: metadata

definition entry_with :: "string \<Rightarrow> metadata \<Rightarrow> oio_entry res" where
  "entry_with path meta =
     (let path' = (if path = [] then slash else path) in
      guard (mode_is_dir (md_mode meta) = ends_with path' CHR ''/'')
        (Ok \<lparr>oe_path = path', oe_meta = meta\<rparr>))"

definition set_path :: "string \<Rightarrow> oio_entry \<Rightarrow> oio_entry" where
  "set_path path e = e\<lparr>oe_path := path\<rparr>"

definition set_mode :: "entry_mode \<Rightarrow> oio_entry \<Rightarrow> oio_entry" where
  "set_mode m e = e\<lparr>oe_meta := (oe_meta e)\<lparr>md_mode := m\<rparr>\<rparr>"

definition entry_mode_of :: "oio_entry \<Rightarrow> entry_mode" where
  "entry_mode_of e = md_mode (oe_meta e)"

definition is_dir_entry :: "oio_entry \<Rightarrow> bool" where
  "is_dir_entry e = mode_is_dir (entry_mode_of e)"

subsection \<open>The lister interface\<close>

type_synonym 'l lister = "'l \<Rightarrow> (oio_entry option res \<times> 'l) option"

text \<open>
  A client's loop: call \<open>next\<close> until the end, at most \<open>n\<close> times, collecting entries and
  trying again after errors. The flag says whether the end was reached.
\<close>

fun collect_entries :: "'l lister \<Rightarrow> nat \<Rightarrow> 'l \<Rightarrow> oio_entry list \<times> bool" where
  "collect_entries next_op 0 l = ([], False)"
| "collect_entries next_op (Suc n) l =
     (case next_op l of
        Some (Ok (Some e), l') \<Rightarrow> (let (es, fin) = collect_entries next_op n l' in (e # es, fin))
      | Some (Ok None, l') \<Rightarrow> ([], True)
      | Some (Err err, l') \<Rightarrow> collect_entries next_op n l'
      | _ \<Rightarrow> ([], False))"

locale oio_list =
  fixes next_op :: "'l lister"
    and holds :: "oio_entry list \<Rightarrow> 'l \<Rightarrow> bool"
  assumes next_cases: "holds es l \<Longrightarrow> \<exists>r l'. next_op l = Some (r, l')
      \<and> ((r = Ok None \<and> es = [] \<and> holds [] l')
         \<or> (\<exists>e es'. es = e # es' \<and> r = Ok (Some e) \<and> holds es' l')
         \<or> (\<exists>err. r = Err err \<and> holds es l'))"
begin

text \<open>What a client has seen is always the beginning of the list, and all of it at the end.\<close>

lemma collect_prefix:
  "holds es l \<Longrightarrow> collect_entries next_op n l = (out, fin) \<Longrightarrow>
     \<exists>rest. es = out @ rest \<and> (fin \<longrightarrow> rest = [])"
proof (induction n arbitrary: es l out)
  case (Suc n)
  from next_cases [OF Suc.prems(1)] obtain r l' where n: "next_op l = Some (r, l')"
    and c: "(r = Ok None \<and> es = [] \<and> holds [] l')
         \<or> (\<exists>e es'. es = e # es' \<and> r = Ok (Some e) \<and> holds es' l')
         \<or> (\<exists>err. r = Err err \<and> holds es l')" by blast
  from c show ?case
  proof (elim disjE exE conjE)
    assume "r = Ok None" "es = []"
    with n Suc.prems show ?thesis by simp
  next
    fix e es' assume e: "es = e # es'" "r = Ok (Some e)" "holds es' l'"
    then obtain out' where o: "collect_entries next_op n l' = (out', fin)" "out = e # out'"
      using Suc.prems(2) n by (auto split: prod.splits)
    with Suc.IH [OF e(3) o(1)] e(1) show ?thesis by simp
  next
    fix err assume "r = Err err" "holds es l'"
    with Suc n show ?thesis by auto
  qed
qed simp

text \<open>Without errors, one call more than there are entries reaches the end.\<close>

lemma collect_complete:
  assumes "\<And>l r l'. next_op l = Some (r, l') \<Longrightarrow> (\<forall>err. r \<noteq> Err err)" "holds es l"
  shows "collect_entries next_op (Suc (length es)) l = (es, True)"
  using assms(2)
proof (induction es arbitrary: l)
  case Nil
  then obtain l' where "next_op l = Some (Ok None, l')" using next_cases [OF Nil] assms(1) by blast
  then show ?case by simp
next
  case (Cons e es)
  then obtain l' where "next_op l = Some (Ok (Some e), l')" "holds es l'"
    using next_cases [OF Cons.prems] assms(1) by blast
  with Cons.IH [of l'] show ?case by simp
qed

end

subsection \<open>The immutable index\<close>

definition children_flat :: "string list \<Rightarrow> string \<Rightarrow> string list" where
  "children_flat vec path = filter (\<lambda>v. starts_with v path \<and> v \<noteq> path) vec"

text \<open>
  The step of the loop over the keys; the hash set of results is a set, turned into a list in
  an order that \<open>order\<close> chooses (\<^verbatim>\<open>HashSet\<close> iteration order).
\<close>

definition hierarchy_child :: "string \<Rightarrow> string \<Rightarrow> string option" where
  "hierarchy_child path i =
     (if \<not> starts_with i path then None
      else if i = path then None
      else case find_char CHR ''/'' (drop (length path) i) of
          None \<Rightarrow> Some i
        | Some idx \<Rightarrow>
            (let dir_idx = idx + 1 + length path in
             if dir_idx = length i then Some i else Some (take dir_idx i)))"

definition children_hierarchy :: "(string set \<Rightarrow> string list) \<Rightarrow> string list \<Rightarrow> string \<Rightarrow> string list" where
  "children_hierarchy order vec path =
     order (fold (\<lambda>i res. case hierarchy_child path i of None \<Rightarrow> res | Some c \<Rightarrow> insert c res) vec {})"

definition index_list ::
  "(string set \<Rightarrow> string list) \<Rightarrow> string list \<Rightarrow> string \<Rightarrow> bool \<Rightarrow> string list" where
  "index_list order vec path recursive =
     (let path' = (if path = slash then [] else path) in
      if recursive then children_flat vec path' else children_hierarchy order vec path')"

definition immutable_dir_next :: "string list lister" where
  "immutable_dir_next idx =
     (case idx of
        [] \<Rightarrow> Some (Ok None, [])
      | v # vs \<Rightarrow>
          Some (and_then (entry_with v (metadata_new (if ends_with v CHR ''/'' then DIR else FILE)))
                  (\<lambda>e. Ok (Some e)), vs))"

text \<open>The entry the index makes of a key; keys are not empty.\<close>

definition index_entry :: "string \<Rightarrow> oio_entry" where
  "index_entry v = \<lparr>oe_path = v, oe_meta = metadata_new (mode_from_path v)\<rparr>"

lemma entry_with_index:
  "v \<noteq> [] \<Longrightarrow> entry_with v (metadata_new (if ends_with v CHR ''/'' then DIR else FILE)) = Ok (index_entry v)"
  by (simp add: entry_with_def index_entry_def mode_from_path_def mode_is_dir_def metadata_new_def)

interpretation idx: oio_list immutable_dir_next
  "\<lambda>es l. es = map index_entry l \<and> list_all (\<lambda>v. v \<noteq> []) l"
proof unfold_locales
  fix es l
  assume "es = map index_entry l \<and> list_all (\<lambda>v. v \<noteq> []) l"
  then show "\<exists>r l'. immutable_dir_next l = Some (r, l')
      \<and> ((r = Ok None \<and> es = [] \<and> [] = map index_entry l' \<and> list_all (\<lambda>v. v \<noteq> []) l')
         \<or> (\<exists>e es'. es = e # es' \<and> r = Ok (Some e) \<and> es' = map index_entry l' \<and> list_all (\<lambda>v. v \<noteq> []) l')
         \<or> (\<exists>err. r = Err err \<and> es = map index_entry l' \<and> list_all (\<lambda>v. v \<noteq> []) l'))"
    by (cases l) (auto simp: immutable_dir_next_def entry_with_index)
qed

lemma fold_children:
  "fold (\<lambda>i res. case hierarchy_child path i of None \<Rightarrow> res | Some c \<Rightarrow> insert c res) vec A
     = A \<union> {c. \<exists>i \<in> set vec. hierarchy_child path i = Some c}"
  by (induction vec arbitrary: A) (auto split: option.splits)

subsection \<open>Pages\<close>

record page_context =
  pc_done :: bool
  pc_token :: string
  pc_entries :: "oio_entry list"

definition page_lister_new :: "'w \<Rightarrow> page_context \<times> 'w" where
  "page_lister_new w = (\<lparr>pc_done = False, pc_token = [], pc_entries = []\<rparr>, w)"

partial_function (option) page_next ::
  "(page_context \<Rightarrow> 'w \<Rightarrow> (error + unit) \<times> page_context \<times> 'w) \<Rightarrow> page_context \<times> 'w
     \<Rightarrow> (oio_entry option res \<times> page_context \<times> 'w) option" where
  "page_next next_page s =
     (case s of (ctx, w) \<Rightarrow>
        (case pc_entries ctx of
           e # es \<Rightarrow> Some (Ok (Some e), ctx\<lparr>pc_entries := es\<rparr>, w)
         | [] \<Rightarrow>
             if pc_done ctx then Some (Ok None, ctx, w)
             else (case next_page ctx w of
                     (Inl err, ctx', w') \<Rightarrow> Some (Err err, ctx', w')
                   | (Inr u, ctx', w') \<Rightarrow> page_next next_page (ctx', w'))))"

text \<open>
  What a service promises for its pages: with pages left to fetch, a call either fails and
  leaves the place unchanged, or appends the entries of the next page, moves on, and marks
  the end after the last page. \<open>pages\<close> are the pages still to fetch from a token on.
\<close>

definition pages_ok ::
  "(page_context \<Rightarrow> 'w \<Rightarrow> (error + unit) \<times> page_context \<times> 'w) \<Rightarrow> (string \<Rightarrow> 'w \<Rightarrow> oio_entry list list) \<Rightarrow> bool"
  where
  "pages_ok next_page pages =
     (\<forall>ctx w p ps. pages (pc_token ctx) w = p # ps \<longrightarrow>
        (case next_page ctx w of
           (Inl err, ctx', w') \<Rightarrow> ctx' = ctx \<and> pages (pc_token ctx) w' = p # ps
         | (Inr u, ctx', w') \<Rightarrow> pc_entries ctx' = pc_entries ctx @ p \<and> pc_done ctx' = (ps = [])
             \<and> (ps \<noteq> [] \<longrightarrow> pages (pc_token ctx') w' = ps)))"

definition page_holds ::
  "(string \<Rightarrow> 'w \<Rightarrow> oio_entry list list) \<Rightarrow> oio_entry list \<Rightarrow> page_context \<times> 'w \<Rightarrow> bool" where
  "page_holds pages es s = (case s of (ctx, w) \<Rightarrow>
     es = pc_entries ctx @ (if pc_done ctx then [] else concat (pages (pc_token ctx) w))
     \<and> (pc_done ctx \<or> pages (pc_token ctx) w \<noteq> []))"

lemma page_next_cases:
  assumes "pages_ok next_page pages"
  shows "page_holds pages es (ctx, w) \<Longrightarrow> \<exists>r l'. page_next next_page (ctx, w) = Some (r, l')
      \<and> ((r = Ok None \<and> es = [] \<and> page_holds pages [] l')
         \<or> (\<exists>e es'. es = e # es' \<and> r = Ok (Some e) \<and> page_holds pages es' l')
         \<or> (\<exists>err. r = Err err \<and> page_holds pages es l'))"
proof (induction "if pc_done ctx then 0 else length (pages (pc_token ctx) w)" arbitrary: ctx w rule: less_induct)
  case less
  note unf = page_next.simps [of next_page "(ctx, w)"]
  show ?case
  proof (cases "pc_entries ctx")
    case (Cons e es')
    with less.prems show ?thesis by (auto simp: unf page_holds_def)
  next
    case Nil
    show ?thesis
    proof (cases "pc_done ctx")
      case True
      with Nil less.prems show ?thesis by (auto simp: unf page_holds_def)
    next
      case False
      with less.prems obtain p ps where pg: "pages (pc_token ctx) w = p # ps"
        by (cases "pages (pc_token ctx) w") (auto simp: page_holds_def)
      obtain r ctx' w' where n: "next_page ctx w = (r, ctx', w')" by (metis prod_cases3)
      have ok: "case next_page ctx w of
           (Inl err, ctx', w') \<Rightarrow> ctx' = ctx \<and> pages (pc_token ctx) w' = p # ps
         | (Inr u, ctx', w') \<Rightarrow> pc_entries ctx' = pc_entries ctx @ p \<and> pc_done ctx' = (ps = [])
             \<and> (ps \<noteq> [] \<longrightarrow> pages (pc_token ctx') w' = ps)"
        using assms [unfolded pages_ok_def, rule_format, OF pg] .
      show ?thesis
      proof (cases r)
        case (Inl err)
        with ok n Nil False pg less.prems show ?thesis by (auto simp: unf page_holds_def)
      next
        case (Inr u)
        with ok n Nil pg have c: "pc_entries ctx' = p" "pc_done ctx' = (ps = [])" "ps \<noteq> [] \<Longrightarrow> pages (pc_token ctx') w' = ps"
          by auto
        have "page_holds pages es (ctx', w')"
          using less.prems Nil False pg c by (auto simp: page_holds_def)
        moreover have "(if pc_done ctx' then 0 else length (pages (pc_token ctx') w'))
            < (if pc_done ctx then 0 else length (pages (pc_token ctx) w))"
          using False pg c by auto
        moreover have "page_next next_page (ctx, w) = page_next next_page (ctx', w')"
          using n Nil False Inr by (simp add: unf)
        ultimately show ?thesis using less.hyps [of ctx' w'] by simp
      qed
    qed
  qed
qed

lemma page_oio_list:
  fixes pages :: "string \<Rightarrow> 'w \<Rightarrow> oio_entry list list"
  assumes "pages_ok next_page pages"
  shows "oio_list (page_next next_page) (page_holds pages)"
proof
  fix es and s :: "page_context \<times> 'w"
  assume "page_holds pages es s"
  then show "\<exists>r l'. page_next next_page s = Some (r, l')
    \<and> ((r = Ok None \<and> es = [] \<and> page_holds pages [] l')
       \<or> (\<exists>e es'. es = e # es' \<and> r = Ok (Some e) \<and> page_holds pages es' l')
       \<or> (\<exists>err. r = Err err \<and> page_holds pages es l'))"
    using page_next_cases [OF assms, of es "fst s" "snd s"] by simp
qed

subsection \<open>Prefix filter\<close>

partial_function (option) prefix_next :: "'l lister \<Rightarrow> string \<Rightarrow> 'l lister" where
  "prefix_next next_op pre l =
     (case next_op l of
        None \<Rightarrow> None
      | Some (r, l') \<Rightarrow>
          (case r of
             Ok (Some e) \<Rightarrow>
               if \<not> starts_with (oe_path e) pre then prefix_next next_op pre l' else Some (r, l')
           | _ \<Rightarrow> Some (r, l')))"

subsection \<open>One level of a flat listing\<close>

record hierarchy =
  hl_path :: string
  hl_visited :: "string set"
  hl_recursive :: bool

definition hierarchy_new :: "string \<Rightarrow> bool \<Rightarrow> hierarchy" where
  "hierarchy_new path recursive =
     \<lparr>hl_path = (if path = slash then [] else path), hl_visited = {}, hl_recursive = recursive\<rparr>"

definition keep_entry :: "oio_entry \<Rightarrow> hierarchy \<Rightarrow> bool \<times> oio_entry \<times> hierarchy" where
  "keep_entry e h =
     (if \<not> starts_with (oe_path e) (hl_path h) then (False, e, h)
      else if oe_path e \<in> hl_visited h then (False, e, h)
      else
        let prefix_len = length (hl_path h) in
        case find_char CHR ''/'' (drop prefix_len (oe_path e)) of
          None \<Rightarrow> (True, e, h)
        | Some i \<Rightarrow>
            (let idx = i + prefix_len + 1 in
             if idx = length (oe_path e) then
               (True, e, h\<lparr>hl_visited := insert (oe_path e) (hl_visited h)\<rparr>)
             else
               (let path = take idx (oe_path e) in
                if path \<notin> hl_visited h
                then (True, set_mode DIR (set_path path e), h\<lparr>hl_visited := insert path (hl_visited h)\<rparr>)
                else (False, e, h))))"

partial_function (option) hierarchy_next ::
  "'l lister \<Rightarrow> 'l \<times> hierarchy \<Rightarrow> (oio_entry option res \<times> 'l \<times> hierarchy) option" where
  "hierarchy_next next_op s =
     (case s of (l, h) \<Rightarrow>
        (case next_op l of
           None \<Rightarrow> None
         | Some (r, l') \<Rightarrow>
             (case r of
                Ok (Some e) \<Rightarrow>
                  if hl_recursive h then Some (Ok (Some e), l', h)
                  else (case keep_entry e h of (keep, e', h') \<Rightarrow>
                          if keep then Some (Ok (Some e'), l', h') else hierarchy_next next_op (l', h'))
              | Ok None \<Rightarrow> Some (Ok None, l', h)
              | Err err \<Rightarrow> Some (Err err, l', h)
              | Panic \<Rightarrow> Some (Panic, l', h))))"

declare page_next.simps [code]
declare prefix_next.simps [code]
declare hierarchy_next.simps [code]

text \<open>The entries a hierarchy lister makes of a list.\<close>

fun hierarchy_fold :: "hierarchy \<Rightarrow> oio_entry list \<Rightarrow> oio_entry list" where
  "hierarchy_fold h [] = []"
| "hierarchy_fold h (e # es) =
     (if hl_recursive h then e # hierarchy_fold h es
      else case keep_entry e h of (keep, e', h') \<Rightarrow>
        if keep then e' # hierarchy_fold h' es else hierarchy_fold h' es)"

locale inner_list = oio_list

sublocale inner_list < pfx: oio_list "prefix_next next_op pre"
  "\<lambda>es l. \<exists>es0. holds es0 l \<and> es = filter (\<lambda>e. starts_with (oe_path e) pre) es0" for pre
proof unfold_locales
  fix es l
  assume "\<exists>es0. holds es0 l \<and> es = filter (\<lambda>e. starts_with (oe_path e) pre) es0"
  then obtain es0 where "holds es0 l" "es = filter (\<lambda>e. starts_with (oe_path e) pre) es0" by blast
  then show "\<exists>r l'. prefix_next next_op pre l = Some (r, l')
      \<and> ((r = Ok None \<and> es = [] \<and> (\<exists>es0. holds es0 l' \<and> [] = filter (\<lambda>e. starts_with (oe_path e) pre) es0))
       \<or> (\<exists>e es'. es = e # es' \<and> r = Ok (Some e)
            \<and> (\<exists>es0. holds es0 l' \<and> es' = filter (\<lambda>e. starts_with (oe_path e) pre) es0))
       \<or> (\<exists>err. r = Err err \<and> (\<exists>es0. holds es0 l' \<and> es = filter (\<lambda>e. starts_with (oe_path e) pre) es0)))"
  proof (induction es0 arbitrary: l)
    case Nil
    from next_cases [OF Nil(1)] Nil(2) show ?case by (subst prefix_next.simps) fastforce
  next
    case (Cons e es0)
    from next_cases [OF Cons.prems(1)] obtain r l' where n: "next_op l = Some (r, l')"
      and c: "(r = Ok (Some e) \<and> holds es0 l') \<or> (\<exists>err. r = Err err \<and> holds (e # es0) l')" by blast
    from c show ?case
    proof (elim disjE exE conjE)
      assume r: "r = Ok (Some e)" "holds es0 l'"
      show ?thesis
      proof (cases "starts_with (oe_path e) pre")
        case True
        with n r Cons.prems show ?thesis by (subst prefix_next.simps) auto
      next
        case False
        with n r have "prefix_next next_op pre l = prefix_next next_op pre l'"
          by (subst prefix_next.simps) simp
        with Cons.IH [OF r(2)] Cons.prems False show ?thesis by simp
      qed
    next
      fix err assume "r = Err err" "holds (e # es0) l'"
      with n Cons.prems(2) show ?thesis by (subst prefix_next.simps) (auto intro: exI [of _ "e # es0"])
    qed
  qed
qed

sublocale inner_list < hier: oio_list "hierarchy_next next_op"
  "\<lambda>es (l, h). \<exists>es0. holds es0 l \<and> es = hierarchy_fold h es0"
proof unfold_locales
  fix es and s :: "'a \<times> hierarchy"
  obtain l h where s: "s = (l, h)" by fastforce
  assume "case s of (l, h) \<Rightarrow> \<exists>es0. holds es0 l \<and> es = hierarchy_fold h es0"
  then obtain es0 where "holds es0 l" "es = hierarchy_fold h es0" using s by auto
  then show "\<exists>r s'. hierarchy_next next_op s = Some (r, s')
      \<and> ((r = Ok None \<and> es = [] \<and> (case s' of (l, h) \<Rightarrow> \<exists>es0. holds es0 l \<and> [] = hierarchy_fold h es0))
       \<or> (\<exists>e es'. es = e # es' \<and> r = Ok (Some e)
            \<and> (case s' of (l, h) \<Rightarrow> \<exists>es0. holds es0 l \<and> es' = hierarchy_fold h es0))
       \<or> (\<exists>err. r = Err err \<and> (case s' of (l, h) \<Rightarrow> \<exists>es0. holds es0 l \<and> es = hierarchy_fold h es0)))"
    unfolding s
  proof (induction es0 arbitrary: l h)
    case Nil
    from next_cases [OF Nil(1)] Nil(2) show ?case by (subst hierarchy_next.simps) fastforce
  next
    case (Cons e es0)
    from next_cases [OF Cons.prems(1)] obtain r l' where n: "next_op l = Some (r, l')"
      and c: "(r = Ok (Some e) \<and> holds es0 l') \<or> (\<exists>err. r = Err err \<and> holds (e # es0) l')" by blast
    from c show ?case
    proof (elim disjE exE conjE)
      assume r: "r = Ok (Some e)" "holds es0 l'"
      obtain keep e' h' where k: "keep_entry e h = (keep, e', h')" by (metis prod_cases3)
      show ?thesis
      proof (cases "hl_recursive h \<or> keep")
        case True
        with n r k Cons.prems(2) show ?thesis by (subst hierarchy_next.simps) auto
      next
        case False
        with n r k have "hierarchy_next next_op (l, h) = hierarchy_next next_op (l', h')"
          by (subst hierarchy_next.simps) simp
        with Cons.IH [OF r(2), of h'] Cons.prems(2) False k show ?thesis by simp
      qed
    next
      fix err assume "r = Err err" "holds (e # es0) l'"
      with n Cons.prems(2) show ?thesis
        by (subst hierarchy_next.simps) (auto intro!: exI [of _ "e # es0"])
    qed
  qed
qed

context inner_list
begin

lemma prefix_collect:
  assumes "holds es l" "collect_entries (prefix_next next_op pre) n l = (out, fin)"
  shows "\<exists>rest. filter (\<lambda>e. starts_with (oe_path e) pre) es = out @ rest \<and> (fin \<longrightarrow> rest = [])"
  using pfx.collect_prefix [OF _ assms(2), of "filter (\<lambda>e. starts_with (oe_path e) pre) es"] assms(1) by auto

lemma hierarchy_collect:
  assumes "holds es l" "collect_entries (hierarchy_next next_op) n (l, h) = (out, True)"
  shows "out = hierarchy_fold h es"
  using hier.collect_prefix [OF _ assms(2), of "hierarchy_fold h es"] assms(1) by auto

end

interpretation idxl: inner_list immutable_dir_next
  "\<lambda>es l. es = map index_entry l \<and> list_all (\<lambda>v. v \<noteq> []) l"
  by unfold_locales

paragraph \<open>The children of a directory\<close>

text \<open>
  The child of \<open>pre\<close> that a path below it belongs to: the path itself when nothing but its
  last component follows the prefix, and otherwise the directory of the first component.
\<close>

definition child_path :: "string \<Rightarrow> string \<Rightarrow> string" where
  "child_path pre p =
     (case find_char CHR ''/'' (drop (length pre) p) of
        None \<Rightarrow> p
      | Some i \<Rightarrow> take (i + length pre + 1) p)"

definition has_sub :: "string \<Rightarrow> string \<Rightarrow> bool" where
  "has_sub pre p = (CHR ''/'' \<in> set (drop (length pre) p))"

lemma find_char_take: "find_char c s = Some i \<Longrightarrow> find_char c (take (Suc i) s) = Some i"
proof (induction s arbitrary: i)
  case (Cons x s)
  then show ?case by (cases i) (auto split: if_splits)
qed simp

lemma find_char_length: "find_char c s = Some i \<Longrightarrow> i < length s"
  by (induction s arbitrary: i) (auto split: if_splits)

lemma child_path_no_sub: "\<not> has_sub pre p \<Longrightarrow> child_path pre p = p"
  using find_char_None [of "CHR ''/''" "drop (length pre) p"]
  by (simp add: child_path_def has_sub_def)

lemma child_path_sub:
  assumes "has_sub pre p"
  shows "has_sub pre (child_path pre p)" "child_path pre (child_path pre p) = child_path pre p"
    "ends_with (child_path pre p) CHR ''/''"
proof -
  obtain i where i: "find_char CHR ''/'' (drop (length pre) p) = Some i"
    using assms find_char_None [of "CHR ''/''" "drop (length pre) p"] by (auto simp: has_sub_def)
  have len: "i + length pre < length p" using find_char_length [OF i] by simp
  have c: "child_path pre p = take (i + length pre + 1) p" using i by (simp add: child_path_def)
  have d: "drop (length pre) (take (i + length pre + 1) p) = take (Suc i) (drop (length pre) p)"
    by (simp add: drop_take)
  have f: "find_char CHR ''/'' (drop (length pre) (child_path pre p)) = Some i"
    unfolding c d using find_char_take [OF i] .
  then show "has_sub pre (child_path pre p)"
    using find_char_None [of "CHR ''/''" "drop (length pre) (child_path pre p)"] by (auto simp: has_sub_def)
  show "child_path pre (child_path pre p) = child_path pre p"
    unfolding child_path_def [of pre "child_path pre p"] f by (simp add: c)
  have "drop (length pre) p ! i = CHR ''/''" using i by (simp add: find_char_Some)
  then have "p ! (i + length pre) = CHR ''/''" using len by (simp add: add.commute)
  then show "ends_with (child_path pre p) CHR ''/''"
    using len by (simp add: c ends_with_def take_Suc_conv_app_nth)
qed

definition visited_ok :: "hierarchy \<Rightarrow> bool" where
  "visited_ok h = (\<forall>v \<in> hl_visited h. has_sub (hl_path h) v \<and> child_path (hl_path h) v = v)"

lemma keep_entry_spec:
  assumes ok: "visited_ok h" and k: "keep_entry e h = (keep, e', h')"
  shows "hl_path h' = hl_path h" "hl_recursive h' = hl_recursive h" "visited_ok h'"
    "\<not> starts_with (oe_path e) (hl_path h) \<Longrightarrow> \<not> keep \<and> h' = h"
    "starts_with (oe_path e) (hl_path h) \<Longrightarrow> \<not> has_sub (hl_path h) (oe_path e) \<Longrightarrow>
       keep \<and> e' = e \<and> h' = h"
    "starts_with (oe_path e) (hl_path h) \<Longrightarrow> has_sub (hl_path h) (oe_path e) \<Longrightarrow>
       hl_visited h' = insert (child_path (hl_path h) (oe_path e)) (hl_visited h)
       \<and> keep = (child_path (hl_path h) (oe_path e) \<notin> hl_visited h)
       \<and> (keep \<longrightarrow> oe_path e' = child_path (hl_path h) (oe_path e))"
proof -
  let ?P = "hl_path h" and ?p = "oe_path e"
  have vis: "?p \<in> hl_visited h \<Longrightarrow> has_sub ?P ?p \<and> child_path ?P ?p = ?p"
    using ok by (simp add: visited_ok_def)
  have sub: "hl_visited h' = insert (child_path ?P ?p) (hl_visited h)
       \<and> keep = (child_path ?P ?p \<notin> hl_visited h) \<and> (keep \<longrightarrow> oe_path e' = child_path ?P ?p)
       \<and> hl_path h' = ?P \<and> hl_recursive h' = hl_recursive h"
    if st: "starts_with ?p ?P" and s: "has_sub ?P ?p"
  proof -
    obtain i where i: "find_char CHR ''/'' (drop (length ?P) ?p) = Some i"
      using s find_char_None [of "CHR ''/''" "drop (length ?P) ?p"] by (auto simp: has_sub_def)
    have len: "i + length ?P < length ?p" using find_char_length [OF i] by simp
    have c: "child_path ?P ?p = take (i + length ?P + 1) ?p" using i by (simp add: child_path_def)
    show ?thesis
    proof (cases "?p \<in> hl_visited h")
      case True
      with vis k st show ?thesis by (auto simp: keep_entry_def)
    next
      case nv: False
      show ?thesis
      proof (cases "i + length ?P + 1 = length ?p")
        case True
        then have "child_path ?P ?p = ?p" by (simp add: c)
        with nv k st i True show ?thesis by (auto simp: keep_entry_def)
      next
        case False
        with nv k st i c show ?thesis
          by (auto simp: keep_entry_def set_mode_def set_path_def Let_def split: if_splits)
      qed
    qed
  qed
  have nosub: "keep \<and> e' = e \<and> h' = h" if st: "starts_with ?p ?P" and s: "\<not> has_sub ?P ?p"
  proof -
    have "?p \<notin> hl_visited h" using vis s by blast
    moreover have "find_char CHR ''/'' (drop (length ?P) ?p) = None"
      using s by (simp add: has_sub_def find_char_None)
    ultimately show ?thesis using k st by (simp add: keep_entry_def)
  qed
  have out: "\<not> keep \<and> h' = h" if "\<not> starts_with ?p ?P"
    using k that by (simp add: keep_entry_def)
  show "hl_path h' = ?P" "hl_recursive h' = hl_recursive h"
    using sub nosub out by (cases "starts_with ?p ?P"; cases "has_sub ?P ?p"; auto)+
  show "visited_ok h'"
    using sub nosub out ok child_path_sub [of ?P ?p]
    by (cases "starts_with ?p ?P"; cases "has_sub ?P ?p") (auto simp: visited_ok_def)
  show "\<not> starts_with ?p ?P \<Longrightarrow> \<not> keep \<and> h' = h" using out .
  show "starts_with ?p ?P \<Longrightarrow> \<not> has_sub ?P ?p \<Longrightarrow> keep \<and> e' = e \<and> h' = h" using nosub .
  show "starts_with ?p ?P \<Longrightarrow> has_sub ?P ?p \<Longrightarrow>
       hl_visited h' = insert (child_path ?P ?p) (hl_visited h)
       \<and> keep = (child_path ?P ?p \<notin> hl_visited h) \<and> (keep \<longrightarrow> oe_path e' = child_path ?P ?p)"
    using sub by blast
qed

lemma hierarchy_fold_paths:
  assumes "visited_ok h" "\<not> hl_recursive h"
  shows "hl_visited h \<union> oe_path ` set (hierarchy_fold h es)
    = hl_visited h \<union> child_path (hl_path h) ` {oe_path e | e. e \<in> set es \<and> starts_with (oe_path e) (hl_path h)}"
  using assms
proof (induction es arbitrary: h)
  case (Cons e es)
  obtain keep e' h' where k: "keep_entry e h = (keep, e', h')" by (metis prod_cases3)
  note s = keep_entry_spec [OF Cons.prems(1) k]
  let ?P = "hl_path h" and ?p = "oe_path e"
  let ?S = "child_path ?P ` {oe_path e | e. e \<in> set es \<and> starts_with (oe_path e) ?P}"
  have IH: "hl_visited h' \<union> oe_path ` set (hierarchy_fold h' es) = hl_visited h' \<union> ?S"
    using Cons.IH [of h'] s(1-3) Cons.prems(2) by simp
  have fold: "hierarchy_fold h (e # es) = (if keep then e' # hierarchy_fold h' es else hierarchy_fold h' es)"
    using k Cons.prems(2) by simp
  have set: "{oe_path x | x. x \<in> set (e # es) \<and> starts_with (oe_path x) ?P}
      = (if starts_with ?p ?P then {?p} else {}) \<union> {oe_path e | e. e \<in> set es \<and> starts_with (oe_path e) ?P}"
    by auto
  consider "\<not> starts_with ?p ?P" | "starts_with ?p ?P" "\<not> has_sub ?P ?p" | "starts_with ?p ?P" "has_sub ?P ?p"
    by blast
  then show ?case
  proof cases
    case 1
    with s(4) IH show ?thesis unfolding set fold by simp
  next
    case 2
    with s(5) IH child_path_no_sub [OF 2(2)] show ?thesis unfolding set fold by auto
  next
    case 3
    then have v: "hl_visited h' = insert (child_path ?P ?p) (hl_visited h)"
      "keep = (child_path ?P ?p \<notin> hl_visited h)" "keep \<Longrightarrow> oe_path e' = child_path ?P ?p"
      using s(6) by auto
    have "hl_visited h \<union> oe_path ` set (hierarchy_fold h (e # es))
        = insert (child_path ?P ?p) (hl_visited h) \<union> oe_path ` set (hierarchy_fold h' es)"
      using v unfolding fold by auto
    also have "\<dots> = insert (child_path ?P ?p) (hl_visited h) \<union> ?S" using IH v(1) by simp
    finally show ?thesis unfolding set using 3(1) by auto
  qed
qed simp

lemma hierarchy_fold_sub_distinct:
  assumes "visited_ok h" "\<not> hl_recursive h"
  shows "distinct (filter (has_sub (hl_path h)) (map oe_path (hierarchy_fold h es)))
    \<and> set (filter (has_sub (hl_path h)) (map oe_path (hierarchy_fold h es))) \<inter> hl_visited h = {}"
  using assms
proof (induction es arbitrary: h)
  case (Cons e es)
  obtain keep e' h' where k: "keep_entry e h = (keep, e', h')" by (metis prod_cases3)
  note s = keep_entry_spec [OF Cons.prems(1) k]
  let ?P = "hl_path h" and ?p = "oe_path e"
  have IH: "distinct (filter (has_sub ?P) (map oe_path (hierarchy_fold h' es)))"
    "set (filter (has_sub ?P) (map oe_path (hierarchy_fold h' es))) \<inter> hl_visited h' = {}"
    using Cons.IH [of h'] s(1-3) Cons.prems(2) by auto
  have fold: "hierarchy_fold h (e # es) = (if keep then e' # hierarchy_fold h' es else hierarchy_fold h' es)"
    using k Cons.prems(2) by simp
  consider "\<not> starts_with ?p ?P" | "starts_with ?p ?P" "\<not> has_sub ?P ?p" | "starts_with ?p ?P" "has_sub ?P ?p"
    by blast
  then show ?case
  proof cases
    case 1
    with s(4) IH show ?thesis unfolding fold by simp
  next
    case 2
    with s(5) IH show ?thesis unfolding fold by simp
  next
    case 3
    then have v: "hl_visited h' = insert (child_path ?P ?p) (hl_visited h)"
      "keep = (child_path ?P ?p \<notin> hl_visited h)" "keep \<Longrightarrow> oe_path e' = child_path ?P ?p"
      using s(6) by auto
    show ?thesis
    proof (cases keep)
      case True
      with v IH child_path_sub(1) [OF 3(2)] show ?thesis unfolding fold by auto
    next
      case False
      with v IH show ?thesis unfolding fold by auto
    qed
  qed
qed simp

subsection \<open>Recursive walk\<close>

record 'l flat_lister =
  fl_next_dir :: "oio_entry option"
  fl_active :: "(oio_entry option \<times> 'l) list"

definition flat_new :: "string \<Rightarrow> 'l flat_lister res" where
  "flat_new path =
     and_then (entry_with path (metadata_new DIR)) (\<lambda>de. Ok \<lparr>fl_next_dir = Some de, fl_active = []\<rparr>)"

text \<open>
  \<open>list_op\<close> is \<^verbatim>\<open>acc.list\<close> of the inner accessor, which works on the state \<open>'w\<close> of the service,
  as do the listers. The active listers are a stack; its top is the head of the list.
\<close>

partial_function (option) flat_next ::
  "(string \<Rightarrow> 'w \<Rightarrow> 'l res \<times> 'w) \<Rightarrow> ('l \<times> 'w) lister \<Rightarrow> ('l flat_lister \<times> 'w) lister" where
  "flat_next list_op next_op s =
     (let (st, w) = s in
      case (case fl_next_dir st of
              None \<Rightarrow> (Ok st, w)
            | Some de \<Rightarrow>
                (case list_op (oe_path de) w of
                   (Ok l, w') \<Rightarrow> (Ok (st\<lparr>fl_next_dir := None, fl_active := (Some de, l) # fl_active st\<rparr>), w')
                 | (Err err, w') \<Rightarrow> (Err err, w')
                 | (Panic, w') \<Rightarrow> (Panic, w'))) of
        (Err err, w1) \<Rightarrow> Some (Err err, st\<lparr>fl_next_dir := None\<rparr>, w1)
      | (Panic, w1) \<Rightarrow> Some (Panic, st\<lparr>fl_next_dir := None\<rparr>, w1)
      | (Ok st1, w1) \<Rightarrow>
          (case fl_active st1 of
             [] \<Rightarrow> Some (Ok None, st1, w1)
           | (de, l) # stack \<Rightarrow>
               (case next_op (l, w1) of
                  None \<Rightarrow> None
                | Some (r, l', w2) \<Rightarrow>
                    (let st2 = st1\<lparr>fl_active := (de, l') # stack\<rparr> in
                     case r of
                       Ok (Some v) \<Rightarrow>
                         if is_dir_entry v then
                           (case de of
                              None \<Rightarrow> Some (Panic, st2, w2)
                            | Some d \<Rightarrow>
                                if oe_path v \<noteq> oe_path d
                                then flat_next list_op next_op (st2\<lparr>fl_next_dir := Some v\<rparr>, w2)
                                else flat_next list_op next_op (st2, w2))
                         else Some (Ok (Some v), st2, w2)
                     | Ok None \<Rightarrow>
                         (case de of
                            Some d \<Rightarrow> Some (Ok (Some d), st1\<lparr>fl_active := (None, l') # stack\<rparr>, w2)
                          | None \<Rightarrow> flat_next list_op next_op (st1\<lparr>fl_active := stack\<rparr>, w2))
                     | Err err \<Rightarrow> Some (Err err, st2, w2)
                     | Panic \<Rightarrow> Some (Panic, st2, w2)))))"

declare flat_next.simps [code]

paragraph \<open>Directory trees\<close>

text \<open>
  A finite tree of what the inner accessor lists: files, directories with their listing, and
  the entry by which a directory lists itself.
\<close>

datatype node = Leaf oio_entry | Node oio_entry "node list" | Self oio_entry

fun node_root :: "node \<Rightarrow> oio_entry" where
  "node_root (Leaf e) = e" | "node_root (Node e ts) = e" | "node_root (Self e) = e"

text \<open>The bottom-up order: the content of a directory, then the directory.\<close>

fun bottom_up :: "node \<Rightarrow> oio_entry list" where
  "bottom_up (Leaf e) = [e]"
| "bottom_up (Node e ts) = concat (map bottom_up ts) @ [e]"
| "bottom_up (Self e) = []"

fun node_steps :: "node \<Rightarrow> nat" where
  "node_steps (Leaf e) = 1"
| "node_steps (Node e ts) = 4 + sum_list (map node_steps ts)"
| "node_steps (Self e) = 1"

definition child_ok :: "oio_entry \<Rightarrow> node \<Rightarrow> bool" where
  "child_ok d t =
     (case t of
        Leaf e \<Rightarrow> \<not> is_dir_entry e
      | Node e ts \<Rightarrow> is_dir_entry e \<and> oe_path e \<noteq> oe_path d
      | Self e \<Rightarrow> is_dir_entry e \<and> oe_path e = oe_path d)"

text \<open>The tree is what \<open>children\<close> lists, all the way down.\<close>

fun tree_ok :: "(string \<Rightarrow> oio_entry list) \<Rightarrow> node \<Rightarrow> bool" where
  "tree_ok children (Leaf e) = True"
| "tree_ok children (Self e) = True"
| "tree_ok children (Node d ts) =
     (children (oe_path d) = map node_root ts \<and> list_all (child_ok d) ts \<and> list_all (tree_ok children) ts)"

text \<open>
  What the walk still has to list, as trees: the directory to open next, and per active
  lister the rest of its listing and the directory entry if it is still to be returned.
\<close>

type_synonym shadow = "node option \<times> (oio_entry option \<times> node list) list"

definition frame_out :: "oio_entry option \<times> node list \<Rightarrow> oio_entry list" where
  "frame_out f = concat (map bottom_up (snd f)) @ (case fst f of None \<Rightarrow> [] | Some d \<Rightarrow> [d])"

definition shadow_out :: "shadow \<Rightarrow> oio_entry list" where
  "shadow_out sh = (case fst sh of None \<Rightarrow> [] | Some t \<Rightarrow> bottom_up t) @ concat (map frame_out (snd sh))"

definition frame_steps :: "oio_entry option \<times> node list \<Rightarrow> nat" where
  "frame_steps f = sum_list (map node_steps (snd f)) + (case fst f of None \<Rightarrow> 1 | Some d \<Rightarrow> 2)"

definition shadow_steps :: "shadow \<Rightarrow> nat" where
  "shadow_steps sh = (case fst sh of None \<Rightarrow> 0 | Some t \<Rightarrow> node_steps t - 1) + sum_list (map frame_steps (snd sh))"

definition frame_ok ::
  "(string \<Rightarrow> oio_entry list) \<Rightarrow> (oio_entry list \<Rightarrow> 'l \<Rightarrow> bool) \<Rightarrow> oio_entry option \<times> 'l
     \<Rightarrow> oio_entry option \<times> node list \<Rightarrow> bool" where
  "frame_ok children holds a f = (fst a = fst f \<and> holds (map node_root (snd f)) (snd a)
     \<and> list_all (tree_ok children) (snd f)
     \<and> (case fst f of None \<Rightarrow> snd f = [] | Some d \<Rightarrow> list_all (child_ok d) (snd f)))"

definition flat_shadow ::
  "(string \<Rightarrow> oio_entry list) \<Rightarrow> (oio_entry list \<Rightarrow> 'l \<Rightarrow> bool) \<Rightarrow> 'l flat_lister \<Rightarrow> shadow \<Rightarrow> bool" where
  "flat_shadow children holds st sh =
     ((case fst sh of
         None \<Rightarrow> fl_next_dir st = None
       | Some t \<Rightarrow> (\<exists>d ts. t = Node d ts) \<and> fl_next_dir st = Some (node_root t) \<and> tree_ok children t)
      \<and> list_all2 (frame_ok children holds) (fl_active st) (snd sh))"

definition flat_holds ::
  "(string \<Rightarrow> oio_entry list) \<Rightarrow> (oio_entry list \<Rightarrow> 'l \<Rightarrow> bool) \<Rightarrow> oio_entry list \<Rightarrow> 'l flat_lister \<Rightarrow> bool" where
  "flat_holds children holds es st = (\<exists>sh. flat_shadow children holds st sh \<and> es = shadow_out sh)"

text \<open>Listers over the state of a service: what one holds does not depend on the state.\<close>

locale world_list = oio_list next_op "\<lambda>es s. holds es (fst s)"
  for next_op :: "('l \<times> 'w) lister"
    and holds :: "oio_entry list \<Rightarrow> 'l \<Rightarrow> bool"
begin

lemma world_next:
  assumes "holds es l"
  shows "\<exists>r l' w'. next_op (l, w) = Some (r, l', w')
      \<and> ((r = Ok None \<and> es = [] \<and> holds [] l')
         \<or> (\<exists>e es'. es = e # es' \<and> r = Ok (Some e) \<and> holds es' l')
         \<or> (\<exists>err. r = Err err \<and> holds es l'))"
  using next_cases [of es "(l, w)"] assms by auto

text \<open>One round of the loop, once no directory waits to be opened.\<close>

lemma flat_round:
  assumes st: "flat_shadow children holds st (None, sh)"
  shows "(\<exists>r st' w'. flat_next list_op next_op (st, w) = Some (r, st', w')
      \<and> ((r = Ok None \<and> shadow_out (None, sh) = [] \<and> flat_holds children holds [] st')
         \<or> (\<exists>e es'. shadow_out (None, sh) = e # es' \<and> r = Ok (Some e) \<and> flat_holds children holds es' st')
         \<or> (\<exists>err. r = Err err \<and> flat_holds children holds (shadow_out (None, sh)) st')))
    \<or> (\<exists>st' w' sh'. flat_next list_op next_op (st, w) = flat_next list_op next_op (st', w')
         \<and> flat_shadow children holds st' sh' \<and> shadow_out sh' = shadow_out (None, sh)
         \<and> shadow_steps sh' < shadow_steps (None, sh))"
proof (cases sh)
  case Nil
  with st have a: "fl_next_dir st = None" "fl_active st = []" by (auto simp: flat_shadow_def)
  then have "flat_next list_op next_op (st, w) = Some (Ok None, st, w)" by (subst flat_next.simps) simp
  moreover have "flat_holds children holds [] st"
    using st Nil unfolding flat_holds_def by (intro exI [of _ "(None, [])"]) (simp add: shadow_out_def)
  ultimately show ?thesis using Nil by (simp add: shadow_out_def)
next
  case (Cons f fs)
  obtain de ts where f: "f = (de, ts)" by fastforce
  from st Cons f obtain l stack where act: "fl_next_dir st = None" "fl_active st = (de, l) # stack"
    and fr: "frame_ok children holds (de, l) (de, ts)"
    and rest: "list_all2 (frame_ok children holds) stack fs"
    by (auto simp: flat_shadow_def list_all2_Cons2 frame_ok_def)
  then have h: "holds (map node_root ts) l" and tr: "list_all (tree_ok children) ts"
    by (auto simp: frame_ok_def)
  have ch: "case de of None \<Rightarrow> ts = [] | Some d \<Rightarrow> list_all (child_ok d) ts"
    using fr by (cases de) (auto simp: frame_ok_def)
  from world_next [OF h, of w] obtain r l' w' where n: "next_op (l, w) = Some (r, l', w')"
    and c: "(r = Ok None \<and> ts = [] \<and> holds [] l')
         \<or> (\<exists>e es'. map node_root ts = e # es' \<and> r = Ok (Some e) \<and> holds es' l')
         \<or> (\<exists>err. r = Err err \<and> holds (map node_root ts) l')" by auto
  note unf = flat_next.simps [of list_op next_op "(st, w)"]
  have frame: "frame_ok children holds (de, l') (de, us)"
    if "holds (map node_root us) l'" "set us \<subseteq> set ts" for us
    using that tr ch by (auto simp: frame_ok_def list_all_iff split: option.splits)
  from c show ?thesis
  proof (elim disjE exE conjE)
    assume r: "r = Ok None" "ts = []" "holds [] l'"
    show ?thesis
    proof (cases de)
      case (Some d)
      let ?st = "st\<lparr>fl_active := (None, l') # stack\<rparr>"
      have "flat_shadow children holds ?st (None, (None, []) # fs)"
        using r rest act by (simp add: flat_shadow_def frame_ok_def)
      then have "flat_holds children holds (concat (map frame_out fs)) ?st"
        unfolding flat_holds_def
        by (intro exI [of _ "(None, (None, []) # fs)"]) (simp add: shadow_out_def frame_out_def)
      moreover have "flat_next list_op next_op (st, w) = Some (Ok (Some d), ?st, w')"
        using act n r Some by (simp add: unf)
      ultimately show ?thesis using Cons f r Some by (auto simp: shadow_out_def frame_out_def)
    next
      case None
      let ?st = "st\<lparr>fl_active := stack\<rparr>"
      have "flat_next list_op next_op (st, w) = flat_next list_op next_op (?st, w')"
        using act n r None by (simp add: unf)
      moreover have "flat_shadow children holds ?st (None, fs)" using rest act by (simp add: flat_shadow_def)
      ultimately show ?thesis using Cons f r None
        by (intro disjI2 exI [of _ ?st] exI [of _ w'] exI [of _ "(None, fs)"])
          (simp add: shadow_out_def frame_out_def shadow_steps_def frame_steps_def)
    qed
  next
    fix err assume r: "r = Err err" "holds (map node_root ts) l'"
    let ?st = "st\<lparr>fl_active := (de, l') # stack\<rparr>"
    have "flat_shadow children holds ?st (None, (de, ts) # fs)"
      using frame [OF r(2)] rest act by (simp add: flat_shadow_def)
    then have "flat_holds children holds (shadow_out (None, sh)) ?st"
      using Cons f by (auto simp: flat_holds_def)
    moreover have "flat_next list_op next_op (st, w) = Some (Err err, ?st, w')" using act n r by (simp add: unf)
    ultimately show ?thesis by blast
  next
    fix e es' assume r: "map node_root ts = e # es'" "r = Ok (Some e)" "holds es' l'"
    then obtain t us where ts: "ts = t # us" "e = node_root t" "es' = map node_root us" by auto
    then obtain d where d: "de = Some d" using ch by (cases de) auto
    have ct: "child_ok d t" "tree_ok children t" using ch tr d ts by auto
    let ?st = "st\<lparr>fl_active := (Some d, l') # stack\<rparr>"
    have sh': "flat_shadow children holds ?st (None, (Some d, us) # fs)"
      using frame [of us] r ts d rest act by (auto simp: flat_shadow_def)
    show ?thesis
    proof (cases t)
      case (Leaf x)
      then have "flat_next list_op next_op (st, w) = Some (Ok (Some e), ?st, w')"
        using act n r ts d ct by (simp add: unf child_ok_def)
      moreover have "shadow_out (None, sh) = e # shadow_out (None, (Some d, us) # fs)"
        using Cons f ts d Leaf by (simp add: shadow_out_def frame_out_def)
      ultimately show ?thesis using sh' by (auto simp: flat_holds_def)
    next
      case (Self x)
      then have "flat_next list_op next_op (st, w) = flat_next list_op next_op (?st, w')"
        using act n r ts d ct by (simp add: unf child_ok_def)
      with sh' show ?thesis using Cons f ts d Self
        by (intro disjI2 exI [of _ ?st] exI [of _ w'] exI [of _ "(None, (Some d, us) # fs)"])
          (simp add: shadow_out_def frame_out_def shadow_steps_def frame_steps_def)
    next
      case (Node x vs)
      let ?st2 = "?st\<lparr>fl_next_dir := Some e\<rparr>"
      have "flat_next list_op next_op (st, w) = flat_next list_op next_op (?st2, w')"
        using act n r ts d ct Node by (simp add: unf child_ok_def)
      moreover have "flat_shadow children holds ?st2 (Some t, (Some d, us) # fs)"
        using sh' ct ts Node by (simp add: flat_shadow_def)
      ultimately show ?thesis using Cons f ts d Node
        by (intro disjI2 exI [of _ ?st2] exI [of _ w'] exI [of _ "(Some t, (Some d, us) # fs)"])
          (simp add: shadow_out_def frame_out_def shadow_steps_def frame_steps_def)
    qed
  qed
qed

end

text \<open>The inner accessor lists every directory the walk asks for.\<close>

locale flat_inner = world_list next_op holds
  for next_op :: "('l \<times> 'w) lister"
    and holds :: "oio_entry list \<Rightarrow> 'l \<Rightarrow> bool" +
  fixes list_op :: "string \<Rightarrow> 'w \<Rightarrow> 'l res \<times> 'w"
    and children :: "string \<Rightarrow> oio_entry list"
  assumes list_ok: "\<exists>l w'. list_op p w = (Ok l, w') \<and> holds (children p) l"
begin

lemma flat_next_cases:
  "flat_shadow children holds st sh \<Longrightarrow> \<exists>r st' w'. flat_next list_op next_op (st, w) = Some (r, st', w')
      \<and> ((r = Ok None \<and> shadow_out sh = [] \<and> flat_holds children holds [] st')
         \<or> (\<exists>e es'. shadow_out sh = e # es' \<and> r = Ok (Some e) \<and> flat_holds children holds es' st')
         \<or> (\<exists>err. r = Err err \<and> flat_holds children holds (shadow_out sh) st'))"
proof (induction "shadow_steps sh" arbitrary: st w sh rule: less_induct)
  case less
  obtain nd fs where sh: "sh = (nd, fs)" by fastforce
  show ?case
  proof (cases nd)
    case None
    then have "flat_shadow children holds st (None, fs)" using less.prems sh by simp
    from flat_round [OF this, of list_op w] show ?thesis
    proof (rule disjE)
      assume "\<exists>st' w' sh'. flat_next list_op next_op (st, w) = flat_next list_op next_op (st', w')
         \<and> flat_shadow children holds st' sh' \<and> shadow_out sh' = shadow_out (None, fs)
         \<and> shadow_steps sh' < shadow_steps (None, fs)"
      then obtain st' w' sh' where "flat_next list_op next_op (st, w) = flat_next list_op next_op (st', w')"
        "flat_shadow children holds st' sh'" "shadow_out sh' = shadow_out sh" "shadow_steps sh' < shadow_steps sh"
        using sh None by auto
      with less.hyps [of sh' st' w'] show ?thesis by simp
    qed (use sh None in simp)
  next
    case (Some t)
    then obtain d ts where t: "t = Node d ts" "fl_next_dir st = Some d" "tree_ok children (Node d ts)"
      and act: "list_all2 (frame_ok children holds) (fl_active st) fs"
      using less.prems sh by (auto simp: flat_shadow_def)
    obtain l w' where l: "list_op (oe_path d) w = (Ok l, w')" "holds (children (oe_path d)) l"
      using list_ok by blast
    let ?st = "st\<lparr>fl_next_dir := None, fl_active := (Some d, l) # fl_active st\<rparr>"
    let ?sh = "(None, (Some d, ts) # fs)"
    have "flat_next list_op next_op (st, w) = flat_next list_op next_op (?st, w')"
      using t l by (subst (1 2) flat_next.simps) simp
    moreover have "flat_shadow children holds ?st ?sh"
      using t l act by (simp add: flat_shadow_def frame_ok_def)
    moreover have "shadow_out ?sh = shadow_out sh" "shadow_steps ?sh < shadow_steps sh"
      using sh Some t by (simp_all add: shadow_out_def frame_out_def shadow_steps_def frame_steps_def)
    ultimately show ?thesis using less.hyps [of ?sh ?st w'] by simp
  qed
qed

end

sublocale flat_inner < flat: world_list "flat_next list_op next_op" "flat_holds children holds"
proof unfold_locales
  fix es and s :: "'l flat_lister \<times> 'w"
  assume "flat_holds children holds es (fst s)"
  then obtain sh where "flat_shadow children holds (fst s) sh" "es = shadow_out sh" by (auto simp: flat_holds_def)
  with flat_next_cases [of "fst s" sh "snd s"] show "\<exists>r l'. flat_next list_op next_op s = Some (r, l')
      \<and> ((r = Ok None \<and> es = [] \<and> flat_holds children holds [] (fst l'))
         \<or> (\<exists>e es'. es = e # es' \<and> r = Ok (Some e) \<and> flat_holds children holds es' (fst l'))
         \<or> (\<exists>err. r = Err err \<and> flat_holds children holds es (fst l')))"
    by fastforce
qed

context flat_inner
begin

lemma flat_oio_list: "oio_list (flat_next list_op next_op) (\<lambda>es s. flat_holds children holds es (fst s))"
  by (rule oio_list.intro) (rule flat.next_cases)

lemma flat_collect:
  "flat_holds children holds es st \<Longrightarrow> collect_entries (flat_next list_op next_op) n (st, w) = (out, fin) \<Longrightarrow>
     \<exists>rest. es = out @ rest \<and> (fin \<longrightarrow> rest = [])"
  using flat.collect_prefix [of es "(st, w)"] by simp

lemma flat_first:
  "flat_holds children holds es st \<Longrightarrow> \<exists>r st' w'. flat_next list_op next_op (st, w) = Some (r, st', w') \<and> r \<noteq> Panic"
  using flat.world_next [of es st w] by auto

end

text \<open>The immutable index is such an accessor, for one iteration order of its result set.\<close>

lemma hierarchy_child_nonempty: "hierarchy_child path i = Some c \<Longrightarrow> c \<noteq> []"
  by (auto simp: hierarchy_child_def starts_with_def Let_def split: if_splits option.splits)

lemma children_hierarchy_set:
  assumes "\<And>S. finite S \<Longrightarrow> set (order S) = S"
  shows "set (children_hierarchy order vec path) = {c. \<exists>i \<in> set vec. hierarchy_child path i = Some c}"
proof -
  have "finite {c. \<exists>i \<in> set vec. hierarchy_child path i = Some c}"
  proof (rule finite_subset)
    show "{c. \<exists>i \<in> set vec. hierarchy_child path i = Some c} \<subseteq> (\<lambda>i. the (hierarchy_child path i)) ` set vec"
      by force
  qed simp
  with assms show ?thesis by (simp add: children_hierarchy_def fold_children)
qed

definition world_lister :: "'l lister \<Rightarrow> ('l \<times> 'w) lister" where
  "world_lister next_op = (\<lambda>(l, w). map_option (\<lambda>(r, l'). (r, l', w)) (next_op l))"

interpretation idxf: flat_inner "world_lister immutable_dir_next :: (string list \<times> 'w) lister"
  "\<lambda>es l. es = map index_entry l \<and> list_all (\<lambda>v. v \<noteq> []) l"
  "\<lambda>p w. (Ok (index_list sorted_list_of_set vec p False), w)"
  "\<lambda>p. map index_entry (index_list sorted_list_of_set vec p False)" for vec
proof unfold_locales
  fix es and s :: "string list \<times> 'w"
  assume "es = map index_entry (fst s) \<and> list_all (\<lambda>v. v \<noteq> []) (fst s)"
  from idx.next_cases [OF this]
  show "\<exists>r l'. world_lister immutable_dir_next s = Some (r, l')
      \<and> ((r = Ok None \<and> es = [] \<and> [] = map index_entry (fst l') \<and> list_all (\<lambda>v. v \<noteq> []) (fst l'))
         \<or> (\<exists>e es'. es = e # es' \<and> r = Ok (Some e) \<and> es' = map index_entry (fst l') \<and> list_all (\<lambda>v. v \<noteq> []) (fst l'))
         \<or> (\<exists>err. r = Err err \<and> es = map index_entry (fst l') \<and> list_all (\<lambda>v. v \<noteq> []) (fst l')))"
    by (elim exE conjE) (cases s, simp add: world_lister_def)
next
  fix p and w :: 'w
  have "list_all (\<lambda>v. v \<noteq> []) (index_list sorted_list_of_set vec p False)"
    using hierarchy_child_nonempty children_hierarchy_set [of sorted_list_of_set vec]
    by (auto simp: index_list_def Let_def list_all_iff)
  then show "\<exists>l w'. (Ok (index_list sorted_list_of_set vec p False), w) = (Ok l, w')
      \<and> map index_entry (index_list sorted_list_of_set vec p False) = map index_entry l
      \<and> list_all (\<lambda>v. v \<noteq> []) l"
    by simp
qed

subsection \<open>Properties\<close>

text \<open>
  Paged listing: for a service that keeps its paging promise, every call of \<open>next\<close>
  returns, and what a client has collected, trying again after errors, is the beginning of
  the concatenation of the pages, and all of it once the end is reported. Empty pages do
  not end the listing.
\<close>

theorem page_lister_complete:
  assumes "pages_ok next_page pages" and "pages [] w \<noteq> []"
    and "collect_entries (page_next next_page) n (page_lister_new w) = (out, fin)"
  shows "(\<exists>r s. page_next next_page (page_lister_new w) = Some (r, s))
    \<and> (\<exists>rest. concat (pages [] w) = out @ rest \<and> (fin \<longrightarrow> rest = []))"
proof -
  note l = page_oio_list [OF assms(1)]
  have h: "page_holds pages (concat (pages [] w)) (page_lister_new w)"
    using assms(2) by (simp add: page_holds_def page_lister_new_def)
  from oio_list.next_cases [OF l h] oio_list.collect_prefix [OF l h assms(3)] show ?thesis by blast
qed

text \<open>A service with two pages, the first of them empty.\<close>

definition demo_entry :: oio_entry where
  "demo_entry = index_entry ''a''"

definition demo_next_page :: "page_context \<Rightarrow> unit \<Rightarrow> (error + unit) \<times> page_context \<times> unit" where
  "demo_next_page ctx w =
     (if pc_token ctx = [] then (Inr (), ctx\<lparr>pc_token := ''1'', pc_done := False\<rparr>, ())
      else (Inr (), ctx\<lparr>pc_entries := pc_entries ctx @ [demo_entry], pc_done := True, pc_token := ''2''\<rparr>, ()))"

definition demo_pages :: "string \<Rightarrow> unit \<Rightarrow> oio_entry list list" where
  "demo_pages t w = (if t = [] then [[], [demo_entry]] else if t = ''1'' then [[demo_entry]] else [])"

theorem page_lister_complete_witness:
  "collect_entries (page_next demo_next_page) 2 (page_lister_new ()) = ([demo_entry], True)
   \<and> concat (demo_pages [] ()) = [demo_entry]"
proof -
  have ok: "pages_ok demo_next_page demo_pages" "demo_pages [] () \<noteq> []"
    by (auto simp: pages_ok_def demo_next_page_def demo_pages_def)
  have c: "collect_entries (page_next demo_next_page) 2 (page_lister_new ()) = ([demo_entry], True)"
    by (simp add: numeral_2_eq_2 page_lister_new_def page_next.simps demo_next_page_def)
  from page_lister_complete [OF ok c] c show ?thesis by simp
qed

text \<open>
  One level of a listing: over any lister that holds the entries \<open>es\<close>, a finished
  non-recursive hierarchy listing of \<open>path\<close> returns exactly the children that the entries below
  \<open>path\<close> belong to, and no sub-directory twice.
\<close>

theorem hierarchy_lister_children:
  assumes "oio_list next_op holds" and "holds es l"
    and "collect_entries (hierarchy_next next_op) n (l, hierarchy_new path False) = (out, True)"
    and "pre = (if path = slash then [] else path)"
  shows "oe_path ` set out = child_path pre ` oe_path ` set (filter (\<lambda>e. starts_with (oe_path e) pre) es)
    \<and> distinct (filter (has_sub pre) (map oe_path out))"
proof -
  have il: "inner_list next_op holds" using assms(1) by (simp add: inner_list_def)
  have out: "out = hierarchy_fold (hierarchy_new path False) es"
    by (rule inner_list.hierarchy_collect [OF il assms(2,3)])
  have v: "visited_ok (hierarchy_new path False)" "\<not> hl_recursive (hierarchy_new path False)"
    "hl_visited (hierarchy_new path False) = {}" "hl_path (hierarchy_new path False) = pre"
    using assms(4) by (simp_all add: visited_ok_def hierarchy_new_def)
  have "{oe_path e | e. e \<in> set es \<and> starts_with (oe_path e) pre}
      = oe_path ` set (filter (\<lambda>e. starts_with (oe_path e) pre) es)" by auto
  with hierarchy_fold_paths [OF v(1,2), of es] hierarchy_fold_sub_distinct [OF v(1,2), of es]
  show ?thesis unfolding out v(3,4) by simp
qed

theorem hierarchy_lister_children_witness:
  "\<exists>out. collect_entries (hierarchy_next immutable_dir_next) 4
      ([''a/b/c'', ''a/b/d'', ''a/e'', ''x''], hierarchy_new ''a/'' False) = (out, True)
    \<and> oe_path ` set out = {''a/b/'', ''a/e''}"
proof -
  let ?l = "[''a/b/c'', ''a/b/d'', ''a/e'', ''x'']"
  define out where "out = fst (collect_entries (hierarchy_next immutable_dir_next) 4 (?l, hierarchy_new ''a/'' False))"
  have c: "collect_entries (hierarchy_next immutable_dir_next) 4 (?l, hierarchy_new ''a/'' False) = (out, True)"
    unfolding out_def by code_simp
  have "map index_entry ?l = map index_entry ?l \<and> list_all (\<lambda>v. v \<noteq> []) ?l" "''a/'' = (if ''a/'' = slash then [] else ''a/'')"
    by (simp_all add: slash_def)
  from hierarchy_lister_children [OF idx.oio_list_axioms this(1) c this(2)]
  have "oe_path ` set out = child_path ''a/'' ` oe_path ` set (filter (\<lambda>e. starts_with (oe_path e) ''a/'') (map index_entry ?l))"
    by (rule conjunct1)
  also have "\<dots> = {''a/b/'', ''a/e''}"
    by (simp add: index_entry_def child_path_def starts_with_def)
  finally show ?thesis using c by blast
qed



text \<open>
  A failed sub-listing skips the directory: when opening the next directory fails, the walk
  has already forgotten it; after the error the next call goes on with the directories
  around it, or ends, and the directory and everything below it never appear.
\<close>

theorem flat_lister_error_skips:
  assumes "list_op (oe_path d) w = (Err err, w')"
  shows "flat_next list_op next_op (\<lparr>fl_next_dir = Some d, fl_active = stack\<rparr>, w)
      = Some (Err err, \<lparr>fl_next_dir = None, fl_active = stack\<rparr>, w')
    \<and> (stack = [] \<longrightarrow> flat_next list_op next_op (\<lparr>fl_next_dir = None, fl_active = stack\<rparr>, w')
         = Some (Ok None, \<lparr>fl_next_dir = None, fl_active = stack\<rparr>, w'))"
proof
  show "flat_next list_op next_op (\<lparr>fl_next_dir = Some d, fl_active = stack\<rparr>, w)
      = Some (Err err, \<lparr>fl_next_dir = None, fl_active = stack\<rparr>, w')"
    using assms by (subst flat_next.simps) simp
  show "stack = [] \<longrightarrow> flat_next list_op next_op (\<lparr>fl_next_dir = None, fl_active = stack\<rparr>, w')
         = Some (Ok None, \<lparr>fl_next_dir = None, fl_active = stack\<rparr>, w')"
    by (subst flat_next.simps) simp
qed

theorem flat_lister_error_skips_witness:
  "collect_entries (flat_next (\<lambda>p w. (Err (set_temporary (new_error Unexpected ''x'')), w)) (world_lister immutable_dir_next)) 2
     (\<lparr>fl_next_dir = Some (index_entry ''x/''), fl_active = []\<rparr>, ()) = ([], True)"
proof -
  let ?ls = "\<lambda>(p :: string) (w :: unit). (Err (set_temporary (new_error Unexpected ''x'')) :: string list res, w)"
  have "?ls (oe_path (index_entry ''x/'')) () = (Err (set_temporary (new_error Unexpected ''x'')), ())" by simp
  from flat_lister_error_skips [where stack = "[]" and next_op = "world_lister immutable_dir_next"
      and list_op = ?ls and d = "index_entry ''x/''" and w = "()", OF this] show ?thesis
    by (simp add: numeral_2_eq_2)
qed

end
