(* ===== verification/Deleters.thy ===== *)
theory Deleters
  imports Listers "HOL-Library.FSet" "HOL-Library.Product_Lexorder" "HOL-Library.Option_ord"
begin

text \<open>
  Deletion: the deleters of \<^verbatim>\<open>core/src/raw/oio/delete\<close> that turn the primitives of a service into
  \<^verbatim>\<open>oio::Delete\<close> (one path per flush, or batches), and \<open>Deleter\<close> (\<^verbatim>\<open>core/src/types/delete\<close>), which
  counts what it has queued and flushes until the count is zero. The blocking deleters have
  the same code.

  The interface \<open>oio_delete\<close> states what \<open>Deleter\<close> relies on. The one-shot deleter meets it;
  the batch deleter meets it when no path is queued twice and no path fails for good.
\<close>

subsection \<open>Requests\<close>

record op_delete =
  od_version :: "string option"

text \<open>Delete arguments are ordered by their version, so that a set of requests can be listed.\<close>

instantiation op_delete_ext :: (linorder) linorder
begin

definition less_eq_op_delete_ext :: "'a op_delete_scheme \<Rightarrow> 'a op_delete_scheme \<Rightarrow> bool" where
  "less_eq_op_delete_ext x y = ((od_version x, op_delete.more x) \<le> (od_version y, op_delete.more y))"

definition less_op_delete_ext :: "'a op_delete_scheme \<Rightarrow> 'a op_delete_scheme \<Rightarrow> bool" where
  "less_op_delete_ext x y = ((od_version x, op_delete.more x) < (od_version y, op_delete.more y))"

instance
proof
  fix x y z :: "'a op_delete_scheme"
  show "(x < y) = (x \<le> y \<and> \<not> y \<le> x)"
    unfolding less_eq_op_delete_ext_def less_op_delete_ext_def by (rule less_le_not_le)
  show "x \<le> x" unfolding less_eq_op_delete_ext_def by (rule order_refl)
  show "x \<le> y \<Longrightarrow> y \<le> z \<Longrightarrow> x \<le> z"
    unfolding less_eq_op_delete_ext_def by (rule order_trans)
  show "x \<le> y \<or> y \<le> x" unfolding less_eq_op_delete_ext_def by (rule linear)
  show "x = y" if "x \<le> y" "y \<le> x"
  proof -
    have "(od_version x, op_delete.more x) = (od_version y, op_delete.more y)"
      using that unfolding less_eq_op_delete_ext_def by (rule order_antisym)
    then show ?thesis by simp
  qed
qed

end

definition od_default :: op_delete where
  "od_default = \<lparr>od_version = None\<rparr>"

definition od_with_version :: "string \<Rightarrow> op_delete \<Rightarrow> op_delete" where
  "od_with_version v o' = o'\<lparr>od_version := Some v\<rparr>"

type_synonym request = "string \<times> op_delete"

record delete_input =
  di_path :: string
  di_version :: "string option"

definition di_from_path :: "string \<Rightarrow> delete_input" where
  "di_from_path p = \<lparr>di_path = p, di_version = None\<rparr>"

definition di_from_args :: "request \<Rightarrow> delete_input" where
  "di_from_args pa =
     (let (path, args) = pa; input = \<lparr>di_path = path, di_version = None\<rparr> in
      case od_version args of Some v \<Rightarrow> input\<lparr>di_version := Some v\<rparr> | None \<Rightarrow> input)"

definition di_from_entry :: "oio_entry \<Rightarrow> delete_input" where
  "di_from_entry e =
     (let input = \<lparr>di_path = oe_path e, di_version = None\<rparr> in
      case md_version (oe_meta e) of Some v \<Rightarrow> input\<lparr>di_version := Some v\<rparr> | None \<Rightarrow> input)"

subsection \<open>One-shot deleter\<close>

type_synonym 'w one_shot_deleter = "request option \<times> 'w"

definition osd_delete ::
  "string \<Rightarrow> op_delete \<Rightarrow> 'w one_shot_deleter \<Rightarrow> unit res \<times> 'w one_shot_deleter" where
  "osd_delete path args = (\<lambda>(del, w).
     if del \<noteq> None
     then (Err (new_error Unsupported ''OneShotDeleter doesn't support batch delete''), (del, w))
     else (Ok (), (Some (path, args), w)))"

definition osd_flush ::
  "(string \<Rightarrow> op_delete \<Rightarrow> 'w \<Rightarrow> unit res \<times> 'w) \<Rightarrow> 'w one_shot_deleter \<Rightarrow> nat res \<times> 'w one_shot_deleter"
  where
  "osd_flush delete_once = (\<lambda>(del, w).
     case del of
       None \<Rightarrow> (Ok 0, (del, w))
     | Some (path, args) \<Rightarrow>
         (case delete_once path args w of
            (Ok u, w') \<Rightarrow> (Ok 1, (None, w'))
          | (Err e, w') \<Rightarrow> (Err e, (del, w'))
          | (Panic, w') \<Rightarrow> (Panic, (del, w'))))"

subsection \<open>Batch deleter\<close>

record batch_result =
  br_succeeded :: "request list"
  br_failed :: "(string \<times> op_delete \<times> error) list"

record 'w batch_delete =
  bd_delete_once :: "string \<Rightarrow> op_delete \<Rightarrow> 'w \<Rightarrow> (error + unit) \<times> 'w"
  bd_delete_batch :: "request list \<Rightarrow> 'w \<Rightarrow> (error + batch_result) \<times> 'w"

type_synonym 'w batch_deleter = "request fset \<times> 'w"

definition bd_delete :: "string \<Rightarrow> op_delete \<Rightarrow> 'w batch_deleter \<Rightarrow> unit res \<times> 'w batch_deleter" where
  "bd_delete path args = (\<lambda>(buf, w). (Ok (), (finsert (path, args) buf, w)))"

definition bd_failure :: "string \<times> op_delete \<times> error \<Rightarrow> error" where
  "bd_failure f = (case f of (path, args, err) \<Rightarrow>
     with_context ''version'' (case od_version args of Some v \<Rightarrow> v | None \<Rightarrow> ''<latest>'')
       (with_context ''path'' path err))"

text \<open>\<open>order\<close> is the iteration order of the hash set.\<close>

definition bd_flush ::
  "(request fset \<Rightarrow> request list) \<Rightarrow> 'w batch_delete \<Rightarrow> 'w batch_deleter \<Rightarrow> nat res \<times> 'w batch_deleter" where
  "bd_flush order ops = (\<lambda>(buf, w).
     if buf = {||} then (Ok 0, (buf, w))
     else if fcard buf = 1 then
       (case order buf of
          [] \<Rightarrow> (Panic, (buf, w))
        | (path, args) # _ \<Rightarrow>
            (case bd_delete_once ops path args w of
               (Inl e, w') \<Rightarrow> (Err e, (buf, w'))
             | (Inr u, w') \<Rightarrow> (Ok 1, ({||}, w'))))
     else
       (case bd_delete_batch ops (order buf) w of
          (Inl e, w') \<Rightarrow> (Err e, (buf, w'))
        | (Inr res, w') \<Rightarrow>
            if br_succeeded res = [] then (Panic, (buf, w'))
            else if length (br_succeeded res) + length (br_failed res) \<noteq> fcard buf then (Panic, (buf, w'))
            else
              (let buf' = buf |-| fset_of_list (br_succeeded res) in
               case find (\<lambda>(p, a, err). \<not> is_temporary err) (br_failed res) of
                 Some f \<Rightarrow> (Err (bd_failure f), (buf', w'))
               | None \<Rightarrow> (Ok (length (br_succeeded res)), (buf', w')))))"

subsection \<open>\<open>Deleter\<close>\<close>

record 's deleter =
  dl_deleter :: 's
  dl_max_size :: nat
  dl_cur_size :: nat

definition dl_create :: "nat option \<Rightarrow> 's \<Rightarrow> 's deleter" where
  "dl_create delete_max_size d =
     \<lparr>dl_deleter = d, dl_max_size = (case delete_max_size of Some n \<Rightarrow> n | None \<Rightarrow> 1), dl_cur_size = 0\<rparr>"

definition dl_flush :: "('s \<Rightarrow> nat res \<times> 's) \<Rightarrow> 's deleter \<Rightarrow> nat res \<times> 's deleter" where
  "dl_flush flush_op d =
     (case flush_op (dl_deleter d) of
        (Ok n, s) \<Rightarrow>
          if n \<le> dl_cur_size d
          then (Ok n, d\<lparr>dl_deleter := s, dl_cur_size := dl_cur_size d - n\<rparr>)
          else (Panic, d\<lparr>dl_deleter := s\<rparr>)
      | (Err e, s) \<Rightarrow> (Err e, d\<lparr>dl_deleter := s\<rparr>)
      | (Panic, s) \<Rightarrow> (Panic, d\<lparr>dl_deleter := s\<rparr>))"

definition dl_delete ::
  "(string \<Rightarrow> op_delete \<Rightarrow> 's \<Rightarrow> unit res \<times> 's) \<Rightarrow> ('s \<Rightarrow> nat res \<times> 's) \<Rightarrow> delete_input \<Rightarrow> 's deleter
     \<Rightarrow> unit res \<times> 's deleter" where
  "dl_delete delete_op flush_op input d =
     (case (if dl_max_size d \<le> dl_cur_size d then dl_flush flush_op d else (Ok 0, d)) of
        (Err e, d1) \<Rightarrow> (Err e, d1)
      | (Panic, d1) \<Rightarrow> (Panic, d1)
      | (Ok n, d1) \<Rightarrow>
          (let op = (case di_version input of Some v \<Rightarrow> od_with_version v od_default | None \<Rightarrow> od_default) in
           case delete_op (di_path input) op (dl_deleter d1) of
             (Ok u, s) \<Rightarrow> (Ok (), d1\<lparr>dl_deleter := s, dl_cur_size := dl_cur_size d1 + 1\<rparr>)
           | (Err e, s) \<Rightarrow> (Err e, d1\<lparr>dl_deleter := s\<rparr>)
           | (Panic, s) \<Rightarrow> (Panic, d1\<lparr>dl_deleter := s\<rparr>)))"

text \<open>\<open>delete_iter\<close> and its fallible and streaming variants: stop at the first error.\<close>

fun dl_delete_iter ::
  "(string \<Rightarrow> op_delete \<Rightarrow> 's \<Rightarrow> unit res \<times> 's) \<Rightarrow> ('s \<Rightarrow> nat res \<times> 's) \<Rightarrow> delete_input list \<Rightarrow> 's deleter
     \<Rightarrow> unit res \<times> 's deleter" where
  "dl_delete_iter delete_op flush_op [] d = (Ok (), d)"
| "dl_delete_iter delete_op flush_op (i # is) d =
     (case dl_delete delete_op flush_op i d of
        (Ok u, d') \<Rightarrow> dl_delete_iter delete_op flush_op is d'
      | r \<Rightarrow> r)"

fun dl_delete_try_iter ::
  "(string \<Rightarrow> op_delete \<Rightarrow> 's \<Rightarrow> unit res \<times> 's) \<Rightarrow> ('s \<Rightarrow> nat res \<times> 's) \<Rightarrow> (error + delete_input) list
     \<Rightarrow> 's deleter \<Rightarrow> unit res \<times> 's deleter" where
  "dl_delete_try_iter delete_op flush_op [] d = (Ok (), d)"
| "dl_delete_try_iter delete_op flush_op (Inl e # is) d = (Err e, d)"
| "dl_delete_try_iter delete_op flush_op (Inr i # is) d =
     (case dl_delete delete_op flush_op i d of
        (Ok u, d') \<Rightarrow> dl_delete_try_iter delete_op flush_op is d'
      | r \<Rightarrow> r)"

text \<open>\<open>close\<close>; \<open>None\<close> means that it never returns.\<close>

partial_function (option) dl_close :: "('s \<Rightarrow> nat res \<times> 's) \<Rightarrow> 's deleter \<Rightarrow> (unit res \<times> 's deleter) option"
  where
  "dl_close flush_op d =
     (case dl_flush flush_op d of
        (Ok n, d') \<Rightarrow> if dl_cur_size d' = 0 then Some (Ok (), d') else dl_close flush_op d'
      | (Err e, d') \<Rightarrow> Some (Err e, d')
      | (Panic, d') \<Rightarrow> Some (Panic, d'))"

declare dl_close.simps [code]

definition request_of :: "delete_input \<Rightarrow> request" where
  "request_of i = (di_path i,
     case di_version i of Some v \<Rightarrow> od_with_version v od_default | None \<Rightarrow> od_default)"

subsection \<open>The deleter interface\<close>

text \<open>
  A deleter holds a finite set of pending requests. Queueing adds a new one; a flush that
  succeeds with \<open>n\<close> has removed \<open>n\<close> pending requests, each of them \<open>deleted\<close> by the service, and
  at least one if there was any; a call that fails leaves the requests as they are.
\<close>

locale oio_delete =
  fixes delete_op :: "string \<Rightarrow> op_delete \<Rightarrow> 's \<Rightarrow> unit res \<times> 's"
    and flush_op :: "'s \<Rightarrow> nat res \<times> 's"
    and pending :: "'s \<Rightarrow> request set"
    and deleted :: "request \<Rightarrow> bool"
  assumes pending_finite: "finite (pending s)"
    and delete_Ok: "delete_op p a s = (Ok (), s') \<Longrightarrow>
      (p, a) \<notin> pending s \<and> pending s' = insert (p, a) (pending s)"
    and delete_Err: "delete_op p a s = (Err e, s') \<Longrightarrow> pending s' = pending s"
    and flush_Ok: "flush_op s = (Ok n, s') \<Longrightarrow>
      pending s' \<subseteq> pending s \<and> card (pending s') + n = card (pending s)
      \<and> (\<forall>x \<in> pending s - pending s'. deleted x) \<and> (pending s \<noteq> {} \<longrightarrow> 0 < n)"
    and flush_Err: "flush_op s = (Err e, s') \<Longrightarrow> pending s' = pending s"
begin

definition counted :: "'s deleter \<Rightarrow> bool" where
  "counted d = (dl_cur_size d = card (pending (dl_deleter d)))"

definition settled :: "request set \<Rightarrow> 's deleter \<Rightarrow> bool" where
  "settled reqs d = (counted d \<and> (\<forall>x \<in> reqs. x \<in> pending (dl_deleter d) \<or> deleted x))"

lemma flush_settled:
  assumes "settled reqs d" "dl_flush flush_op d = (r, d')"
  shows "dl_max_size d' = dl_max_size d \<and>
    ((\<exists>n. r = Ok n \<and> settled reqs d' \<and> dl_cur_size d' + n = dl_cur_size d \<and> (dl_cur_size d \<noteq> 0 \<longrightarrow> 0 < n))
     \<or> (\<exists>e. r = Err e \<and> settled reqs d') \<or> r = Panic)"
proof -
  obtain x s where x: "flush_op (dl_deleter d) = (x, s)" by fastforce
  have c: "dl_cur_size d = card (pending (dl_deleter d))" using assms(1) by (simp add: settled_def counted_def)
  show ?thesis
  proof (cases x)
    case (Ok n)
    note f = flush_Ok [OF x [unfolded Ok]]
    then have n: "n \<le> dl_cur_size d" using c by simp
    have "0 < n" if "dl_cur_size d \<noteq> 0" using f that c pending_finite by auto
    moreover have "settled reqs (d\<lparr>dl_deleter := s, dl_cur_size := dl_cur_size d - n\<rparr>)"
      using f assms(1) c by (auto simp: settled_def counted_def)
    ultimately show ?thesis using assms(2) x Ok n by (auto simp: dl_flush_def)
  next
    case (Err e)
    with flush_Err x have "pending s = pending (dl_deleter d)" by blast
    with assms x Err show ?thesis by (auto simp: dl_flush_def settled_def counted_def)
  next
    case Panic
    with assms(2) x show ?thesis by (auto simp: dl_flush_def)
  qed
qed

lemma delete_settled:
  assumes "settled reqs d" "dl_delete delete_op flush_op i d = (r, d')"
  shows "(r = Ok () \<and> settled (insert (request_of i) reqs) d') \<or> (\<exists>e. r = Err e \<and> settled reqs d') \<or> r = Panic"
proof -
  define f where "f = (if dl_max_size d \<le> dl_cur_size d then dl_flush flush_op d else (Ok 0, d))"
  obtain x d1 where x: "f = (x, d1)" by fastforce
  have d1: "(\<exists>n. x = Ok n \<and> settled reqs d1) \<or> (\<exists>e. x = Err e \<and> settled reqs d1) \<or> x = Panic"
    using flush_settled [OF assms(1), of x d1] assms(1) x by (auto simp: f_def split: if_splits)
  show ?thesis
  proof (cases x)
    case (Ok n)
    with d1 have st: "settled reqs d1" by simp
    obtain y s where y: "delete_op (fst (request_of i)) (snd (request_of i)) (dl_deleter d1) = (y, s)"
      by fastforce
    show ?thesis
    proof (cases y)
      case ok: (Ok u)
      have p: "request_of i \<notin> pending (dl_deleter d1)" "pending s = insert (request_of i) (pending (dl_deleter d1))"
        using delete_Ok [of _ _ _ s] y ok by (metis prod.collapse unit.exhaust)+
      have "settled (insert (request_of i) reqs) (d1\<lparr>dl_deleter := s, dl_cur_size := dl_cur_size d1 + 1\<rparr>)"
        using st p pending_finite by (auto simp: settled_def counted_def)
      with assms(2) x Ok y ok show ?thesis
        by (auto simp: dl_delete_def f_def request_of_def Let_def split: option.splits)
    next
      case (Err e)
      with delete_Err y have "pending s = pending (dl_deleter d1)" by blast
      with st have "settled reqs (d1\<lparr>dl_deleter := s\<rparr>)" by (simp add: settled_def counted_def)
      with assms(2) x Ok y Err show ?thesis
        by (auto simp: dl_delete_def f_def request_of_def Let_def split: option.splits)
    next
      case Panic
      with assms(2) x Ok y show ?thesis
        by (auto simp: dl_delete_def f_def request_of_def Let_def split: option.splits)
    qed
  next
    case (Err e)
    with d1 assms(2) x show ?thesis by (auto simp: dl_delete_def f_def)
  next
    case Panic
    with d1 assms(2) x show ?thesis by (auto simp: dl_delete_def f_def)
  qed
qed

lemma delete_iter_settled:
  "settled reqs d \<Longrightarrow> dl_delete_iter delete_op flush_op is d = (Ok (), d') \<Longrightarrow>
     settled (reqs \<union> request_of ` set is) d'"
proof (induction "is" arbitrary: reqs d)
  case (Cons i "is")
  obtain r d1 where r: "dl_delete delete_op flush_op i d = (r, d1)" by fastforce
  with Cons.prems(2) obtain u where "r = Ok u" by (cases r) auto
  with delete_settled [OF Cons.prems(1) r] have "settled (insert (request_of i) reqs) d1" by auto
  with Cons.IH [OF this] Cons.prems(2) r \<open>r = Ok u\<close> show ?case by simp
qed simp

lemma close_settled:
  "settled reqs d \<Longrightarrow> \<exists>r d'. dl_close flush_op d = Some (r, d')
     \<and> (r = Ok () \<longrightarrow> dl_cur_size d' = 0 \<and> (\<forall>x \<in> reqs. deleted x))
     \<and> (\<forall>e. r = Err e \<longrightarrow> settled reqs d')"
proof (induction "dl_cur_size d" arbitrary: d rule: less_induct)
  case less
  obtain r d1 where r: "dl_flush flush_op d = (r, d1)" by fastforce
  note f = flush_settled [OF less.prems r]
  note unf = dl_close.simps [of flush_op d]
  show ?case
  proof (cases r)
    case (Ok n)
    with f have st: "settled reqs d1" "dl_cur_size d1 + n = dl_cur_size d" "dl_cur_size d \<noteq> 0 \<longrightarrow> 0 < n" by auto
    show ?thesis
    proof (cases "dl_cur_size d1 = 0")
      case True
      then have "pending (dl_deleter d1) = {}"
        using st(1) pending_finite by (simp add: settled_def counted_def)
      with st(1) have "\<forall>x \<in> reqs. deleted x" by (simp add: settled_def)
      with True r Ok show ?thesis by (simp add: unf)
    next
      case False
      then have "dl_cur_size d1 < dl_cur_size d" using st by auto
      from less.hyps [OF this st(1)] r Ok False show ?thesis by (simp add: unf)
    qed
  qed (use f r in \<open>auto simp: unf\<close>)
qed

end

text \<open>The one-shot deleter meets the interface.\<close>

definition osd_deleted ::
  "(string \<Rightarrow> op_delete \<Rightarrow> 'w \<Rightarrow> unit res \<times> 'w) \<Rightarrow> request \<Rightarrow> bool" where
  "osd_deleted delete_once x = (\<exists>w w'. delete_once (fst x) (snd x) w = (Ok (), w'))"

interpretation osd: oio_delete osd_delete "osd_flush delete_once" "\<lambda>s. set_option (fst s)"
  "osd_deleted delete_once" for delete_once :: "string \<Rightarrow> op_delete \<Rightarrow> 'w \<Rightarrow> unit res \<times> 'w"
  by unfold_locales
    (auto simp: osd_delete_def osd_flush_def osd_deleted_def split: option.splits prod.splits outcome.splits if_splits)

subsection \<open>The batch deleter and the interface\<close>

text \<open>
  What the batch deleter relies on: every queued request is in the batch, the service
  reports successes for requests of the batch, once each, and failures are temporary.
\<close>

definition batch_ok :: "(request fset \<Rightarrow> request list) \<Rightarrow> 'w batch_delete \<Rightarrow> bool" where
  "batch_ok order ops =
     ((\<forall>S. set (order S) = fset S)
      \<and> (\<forall>batch w. case bd_delete_batch ops batch w of
           (Inl e, w') \<Rightarrow> True
         | (Inr res, w') \<Rightarrow> distinct (br_succeeded res) \<and> set (br_succeeded res) \<subseteq> set batch
             \<and> list_all (\<lambda>(p, a, e). is_temporary e) (br_failed res)))"

definition bd_deleted :: "'w batch_delete \<Rightarrow> request \<Rightarrow> bool" where
  "bd_deleted ops x = ((\<exists>w w'. bd_delete_once ops (fst x) (snd x) w = (Inr (), w'))
     \<or> (\<exists>batch w res w'. bd_delete_batch ops batch w = (Inr res, w') \<and> x \<in> set (br_succeeded res)))"

text \<open>Queueing, for requests that are not queued already.\<close>

definition bd_delete_new ::
  "string \<Rightarrow> op_delete \<Rightarrow> 'w batch_deleter \<Rightarrow> unit res \<times> 'w batch_deleter" where
  "bd_delete_new p a s = (if (p, a) |\<in>| fst s then (Panic, s) else bd_delete p a s)"

lemma bd_flush_Ok:
  assumes ok: "batch_ok order ops" and f: "bd_flush order ops s = (Ok n, s')"
  shows "fset (fst s') \<subseteq> fset (fst s) \<and> card (fset (fst s')) + n = card (fset (fst s))
    \<and> (\<forall>x \<in> fset (fst s) - fset (fst s'). bd_deleted ops x) \<and> (fset (fst s) \<noteq> {} \<longrightarrow> 0 < n)"
proof -
  obtain buf w where s: "s = (buf, w)" by fastforce
  have set: "set (order buf) = fset buf" using ok by (simp add: batch_ok_def)
  consider "buf = {||}" | "buf \<noteq> {||}" "fcard buf = 1" | "buf \<noteq> {||}" "fcard buf \<noteq> 1" by blast
  then show ?thesis
  proof cases
    case 1
    with f s show ?thesis by (auto simp: bd_flush_def)
  next
    case 2
    obtain y where y: "fset buf = {y}" using 2 by (auto simp: fcard.rep_eq card_1_singleton_iff)
    obtain p a where "y = (p, a)" by fastforce
    with y obtain rest where o: "order buf = (p, a) # rest" using set by (cases "order buf") auto
    then have pa: "fset buf = {(p, a)}" using y set by auto
    obtain r w1 where r: "bd_delete_once ops p a w = (r, w1)" by fastforce
    from f s 2 o r have u: "r = Inr () \<and> n = 1 \<and> s' = ({||}, w1)"
      by (cases r) (simp_all add: bd_flush_def)
    then have "bd_deleted ops (p, a)" using r by (auto simp: bd_deleted_def)
    with u s pa show ?thesis by simp
  next
    case 3
    obtain r w1 where r: "bd_delete_batch ops (order buf) w = (r, w1)" by fastforce
    show ?thesis
    proof (cases r)
      case (Inl e)
      with f s 3 r show ?thesis by (simp add: bd_flush_def)
    next
      case (Inr res)
      have "case bd_delete_batch ops (order buf) w of (Inl e, w') \<Rightarrow> True
         | (Inr res, w') \<Rightarrow> distinct (br_succeeded res) \<and> set (br_succeeded res) \<subseteq> set (order buf)
             \<and> list_all (\<lambda>(p, a, e). is_temporary e) (br_failed res)"
        using ok unfolding batch_ok_def by (elim conjE allE)
      with r Inr set have res: "distinct (br_succeeded res)" "set (br_succeeded res) \<subseteq> fset buf" by auto
      from f s 3 r Inr have n: "n = length (br_succeeded res)" "br_succeeded res \<noteq> []"
        "s' = (buf |-| fset_of_list (br_succeeded res), w1)"
        by (auto simp: bd_flush_def Let_def split: if_splits option.splits)
      have "card (fset buf - set (br_succeeded res)) + n = card (fset buf)"
        using res n by (simp add: card_Diff_subset distinct_card card_mono flip: distinct_card)
      moreover have "\<forall>x \<in> fset buf \<inter> set (br_succeeded res). bd_deleted ops x"
        using r Inr unfolding bd_deleted_def by blast
      ultimately show ?thesis
        using s n by (auto simp: fset_of_list.rep_eq)
    qed
  qed
qed

lemma bd_flush_Err:
  assumes ok: "batch_ok order ops" and f: "bd_flush order ops s = (Err e, s')"
  shows "fst s' = fst s"
proof -
  obtain buf w where s: "s = (buf, w)" by fastforce
  have "case bd_delete_batch ops (order buf) w of (Inl e, w') \<Rightarrow> True
     | (Inr res, w') \<Rightarrow> distinct (br_succeeded res) \<and> set (br_succeeded res) \<subseteq> set (order buf)
         \<and> list_all (\<lambda>(p, a, e). is_temporary e) (br_failed res)"
    using ok unfolding batch_ok_def by (elim conjE allE)
  moreover have "find (\<lambda>(p, a, err). \<not> is_temporary err) fs = None"
    if "list_all (\<lambda>(p, a, e). is_temporary e) fs" for fs :: "(string \<times> op_delete \<times> error) list"
    using that by (auto simp: find_None_iff list_all_iff)
  ultimately show ?thesis
    using f s
    by (auto simp: bd_flush_def Let_def split: if_splits list.splits prod.splits sum.splits option.splits)
qed

lemma batch_oio_delete:
  assumes "batch_ok order ops"
  shows "oio_delete bd_delete_new (bd_flush order ops) (\<lambda>s. fset (fst s)) (bd_deleted ops)"
proof
  fix s s' :: "'a batch_deleter" and n e p a
  show "finite (fset (fst s))" by simp
  show "(p, a) \<notin> fset (fst s) \<and> fset (fst s') = insert (p, a) (fset (fst s))" if "bd_delete_new p a s = (Ok (), s')"
    using that by (auto simp: bd_delete_new_def bd_delete_def split: if_splits prod.splits)
  show "fset (fst s') = fset (fst s)" if "bd_delete_new p a s = (Err e, s')"
    using that by (auto simp: bd_delete_new_def bd_delete_def split: if_splits prod.splits)
  show "fset (fst s') \<subseteq> fset (fst s) \<and> card (fset (fst s')) + n = card (fset (fst s))
    \<and> (\<forall>x \<in> fset (fst s) - fset (fst s'). bd_deleted ops x) \<and> (fset (fst s) \<noteq> {} \<longrightarrow> 0 < n)"
    if "bd_flush order ops s = (Ok n, s')"
    using bd_flush_Ok [OF assms that] .
  show "fset (fst s') = fset (fst s)" if "bd_flush order ops s = (Err e, s')"
    using bd_flush_Err [OF assms that] by simp
qed

text \<open>For distinct requests the batch deleter never sees one that is queued already.\<close>

lemma bd_flush_shrinks: "bd_flush order ops s = (r, s') \<Longrightarrow> fst s' |\<subseteq>| fst s"
  by (auto simp: bd_flush_def Let_def split: if_splits list.splits prod.splits sum.splits option.splits)

lemma dl_flush_shrinks:
  "dl_flush (bd_flush order ops) d = (r, d') \<Longrightarrow> fst (dl_deleter d') |\<subseteq>| fst (dl_deleter d)"
  using bd_flush_shrinks [of order ops "dl_deleter d"]
  by (auto simp: dl_flush_def split: outcome.splits prod.splits if_splits)

lemma dl_delete_new:
  assumes "request_of i |\<notin>| fst (dl_deleter d)"
  shows "dl_delete bd_delete_new (bd_flush order ops) i d = dl_delete bd_delete (bd_flush order ops) i d"
    "dl_delete bd_delete (bd_flush order ops) i d = (r, d') \<Longrightarrow>
       fst (dl_deleter d') |\<subseteq>| finsert (request_of i) (fst (dl_deleter d))"
proof -
  define f where "f = (if dl_max_size d \<le> dl_cur_size d then dl_flush (bd_flush order ops) d else (Ok 0, d))"
  obtain x d1 where x: "f = (x, d1)" by fastforce
  have sub: "fst (dl_deleter d1) |\<subseteq>| fst (dl_deleter d)"
    using dl_flush_shrinks [of order ops d x d1] x by (auto simp: f_def split: if_splits)
  then have new: "bd_delete_new (fst (request_of i)) (snd (request_of i)) (dl_deleter d1)
      = bd_delete (fst (request_of i)) (snd (request_of i)) (dl_deleter d1)"
    using assms by (auto simp: bd_delete_new_def)
  then show "dl_delete bd_delete_new (bd_flush order ops) i d = dl_delete bd_delete (bd_flush order ops) i d"
    using x unfolding dl_delete_def f_def request_of_def by (auto simp: Let_def split: outcome.splits)
  show "dl_delete bd_delete (bd_flush order ops) i d = (r, d') \<Longrightarrow>
      fst (dl_deleter d') |\<subseteq>| finsert (request_of i) (fst (dl_deleter d))"
  proof -
    assume r: "dl_delete bd_delete (bd_flush order ops) i d = (r, d')"
    have "fst (dl_deleter d') = fst (dl_deleter d1)
        \<or> fst (dl_deleter d') = finsert (request_of i) (fst (dl_deleter d1))"
      using x r unfolding dl_delete_def f_def request_of_def
      by (cases x) (auto simp: Let_def bd_delete_def split: prod.splits)
    with sub show "fst (dl_deleter d') |\<subseteq>| finsert (request_of i) (fst (dl_deleter d))"
      by (auto simp: less_eq_fset.rep_eq)
  qed
qed

lemma disjoint_insert_subset: "C \<subseteq> insert r B \<Longrightarrow> r \<notin> A \<Longrightarrow> A \<inter> B = {} \<Longrightarrow> A \<inter> C = {}"
  by blast

lemma dl_delete_iter_new:
  "distinct (map request_of is) \<Longrightarrow> request_of ` set is \<inter> fset (fst (dl_deleter d)) = {} \<Longrightarrow>
     dl_delete_iter bd_delete_new (bd_flush order ops) is d = dl_delete_iter bd_delete (bd_flush order ops) is d"
proof (induction "is" arbitrary: d)
  case (Cons i "is")
  then have "request_of i |\<notin>| fst (dl_deleter d)" by auto
  note n = dl_delete_new [OF this, of order ops]
  obtain r d1 where r: "dl_delete bd_delete (bd_flush order ops) i d = (r, d1)" by fastforce
  have sub: "fset (fst (dl_deleter d1)) \<subseteq> insert (request_of i) (fset (fst (dl_deleter d)))"
    using n(2) [OF r] by (simp add: less_eq_fset.rep_eq)
  have dis: "request_of i \<notin> request_of ` set is" "request_of ` set is \<inter> fset (fst (dl_deleter d)) = {}"
    using Cons.prems by auto
  have "request_of ` set is \<inter> fset (fst (dl_deleter d1)) = {}"
    by (rule disjoint_insert_subset [OF sub dis])
  then have "dl_delete_iter bd_delete_new (bd_flush order ops) is d1 = dl_delete_iter bd_delete (bd_flush order ops) is d1"
    using Cons.IH [of d1] Cons.prems(1) by simp
  then show ?case using n(1) r by (cases r) simp_all
qed simp

subsection \<open>A count that is too high\<close>

lemma dl_close_stuck:
  assumes "flush_op (dl_deleter d) = (Ok 0, dl_deleter d)" "dl_cur_size d \<noteq> 0"
  shows "dl_close flush_op d = None"
proof (rule ccontr)
  assume "dl_close flush_op d \<noteq> None"
  then obtain y where ret: "dl_close flush_op d = Some y" by blast
  have step: "dl_flush flush_op d = (Ok 0, d)" using assms(1) by (simp add: dl_flush_def)
  have "\<not> (flush_op = flush_op \<and> d = d)"
  proof (rule dl_close.raw_induct [where P = "\<lambda>f h y. \<not> (f = flush_op \<and> h = d)", OF _ ret])
    fix g f h y
    assume IH: "\<And>f h y. g f h = Some y \<Longrightarrow> \<not> (f = flush_op \<and> h = d)"
      and s: "(case dl_flush f h of (Ok n, d') \<Rightarrow> if dl_cur_size d' = 0 then Some (Ok (), d') else g f d'
        | (Err e, d') \<Rightarrow> Some (Err e, d') | (Panic, d') \<Rightarrow> Some (Panic, d')) = Some y"
    show "\<not> (f = flush_op \<and> h = d)"
    proof
      assume fh: "f = flush_op \<and> h = d"
      with s step assms(2) have "g flush_op d = Some y" by simp
      from IH [OF this] show False by simp
    qed
  qed
  then show False by simp
qed

subsection \<open>Properties\<close>

text \<open>
  Closing a deleter over one-shot deletion: after any sequence of deletes that succeeded,
  \<open>close\<close> returns, and if it succeeds every requested path was deleted by the service and
  nothing is left; if it fails, nothing is forgotten and a later close can finish.
\<close>

theorem one_shot_close_complete:
  assumes "dl_delete_iter osd_delete (osd_flush delete_once) is (dl_create m (None, w)) = (Ok (), d)"
  shows "\<exists>r d'. dl_close (osd_flush delete_once) d = Some (r, d')
    \<and> (r = Ok () \<longrightarrow> dl_cur_size d' = 0 \<and> (\<forall>x \<in> request_of ` set is. osd_deleted delete_once x))
    \<and> (\<forall>e. r = Err e \<longrightarrow> (\<exists>r' d''. dl_close (osd_flush delete_once) d' = Some (r', d'')
         \<and> (r' = Ok () \<longrightarrow> (\<forall>x \<in> request_of ` set is. osd_deleted delete_once x))))"
proof -
  have "osd.settled delete_once {} (dl_create m (None, w))"
    by (simp add: osd.settled_def osd.counted_def dl_create_def)
  from osd.delete_iter_settled [OF this assms]
  have s: "osd.settled delete_once (request_of ` set is) d" by simp
  obtain r d' where r: "dl_close (osd_flush delete_once) d = Some (r, d')"
    "r = Ok () \<longrightarrow> dl_cur_size d' = 0 \<and> (\<forall>x \<in> request_of ` set is. osd_deleted delete_once x)"
    "\<forall>e. r = Err e \<longrightarrow> osd.settled delete_once (request_of ` set is) d'"
    using osd.close_settled [OF s] by blast
  have "\<exists>r' d''. dl_close (osd_flush delete_once) d' = Some (r', d'')
      \<and> (r' = Ok () \<longrightarrow> (\<forall>x \<in> request_of ` set is. osd_deleted delete_once x))" if "r = Err e" for e
  proof -
    have "osd.settled delete_once (request_of ` set is) d'" using r(3) that by simp
    from osd.close_settled [OF this] show ?thesis by (elim exE conjE) (intro exI conjI, assumption, simp)
  qed
  with r(1,2) show ?thesis by (intro exI [of _ r] exI [of _ d']) blast
qed

theorem one_shot_close_complete_witness:
  "\<exists>r d'. dl_close (osd_flush (\<lambda>p a w. (Ok (), p # w)))
      \<lparr>dl_deleter = (Some (''b'', od_default), [''a'']), dl_max_size = 1, dl_cur_size = 1\<rparr> = Some (r, d')
    \<and> (r = Ok () \<longrightarrow> dl_cur_size d' = 0)"
proof -
  let ?f = "osd_flush (\<lambda>p a w. (Ok (), p # w))"
  have "dl_delete_iter osd_delete ?f [di_from_path ''a'', di_from_path ''b''] (dl_create None (None, []))
      = (Ok (), \<lparr>dl_deleter = (Some (''b'', od_default), [''a'']), dl_max_size = 1, dl_cur_size = 1\<rparr>)"
    by (simp add: dl_delete_def dl_create_def di_from_path_def osd_delete_def osd_flush_def dl_flush_def)
  from one_shot_close_complete [OF this] show ?thesis by blast
qed


text \<open>A service in memory that deletes everything it is asked to, for concrete runs.\<close>

definition mem_batch :: "string list batch_delete" where
  "mem_batch = \<lparr>bd_delete_once = (\<lambda>p a w. (Inr (), p # w)),
     bd_delete_batch = (\<lambda>batch w. (Inr \<lparr>br_succeeded = remdups batch, br_failed = []\<rparr>, map fst batch @ w))\<rparr>"

definition mem_order :: "request fset \<Rightarrow> request list" where
  "mem_order S = sorted_list_of_fset S"

lemma mem_order_set: "set (mem_order S) = fset S"
  by (simp add: mem_order_def sorted_list_of_fset.rep_eq)

lemma mem_batch_ok: "batch_ok mem_order mem_batch"
  by (simp add: batch_ok_def mem_order_set mem_batch_def)


text \<open>
  Deleting the same path twice: the batch deleter keeps one request but \<open>Deleter\<close> counts
  two. If the service deletes the path, the first flush reports one deletion, the next ones
  none, and \<open>close\<close> never returns.
\<close>

theorem duplicate_delete_diverges:
  assumes "\<forall>w. \<exists>w'. bd_delete_once ops p od_default w = (Inr (), w')"
    and "\<forall>S. set (order S) = fset S" and "2 \<le> m"
  shows "\<exists>d. dl_delete_iter bd_delete (bd_flush order ops) [di_from_path p, di_from_path p]
      (dl_create (Some m) ({||}, w)) = (Ok (), d)
    \<and> dl_cur_size d = 2 \<and> fst (dl_deleter d) = {|(p, od_default)|} \<and> dl_close (bd_flush order ops) d = None"
proof -
  let ?x = "(p, od_default)"
  let ?d = "\<lparr>dl_deleter = ({|?x|}, w), dl_max_size = m, dl_cur_size = 2\<rparr>"
  have run: "dl_delete_iter bd_delete (bd_flush order ops) [di_from_path p, di_from_path p]
      (dl_create (Some m) ({||}, w)) = (Ok (), ?d)"
    using assms(3) by (simp add: dl_delete_def dl_create_def di_from_path_def bd_delete_def)
  obtain w' where w': "bd_delete_once ops p od_default w = (Inr (), w')" using assms(1) by blast
  obtain rest where "order {|?x|} = ?x # rest"
    using assms(2) [rule_format, of "{|?x|}"] by (cases "order {|?x|}") auto
  then have "dl_flush (bd_flush order ops) ?d = (Ok 1, \<lparr>dl_deleter = ({||}, w'), dl_max_size = m, dl_cur_size = 1\<rparr>)"
    using w' by (simp add: dl_flush_def bd_flush_def fcard.rep_eq)
  then have "dl_close (bd_flush order ops) ?d
      = dl_close (bd_flush order ops) \<lparr>dl_deleter = ({||}, w'), dl_max_size = m, dl_cur_size = 1\<rparr>"
    by (subst dl_close.simps) simp
  also have "\<dots> = None"
    by (rule dl_close_stuck) (simp_all add: bd_flush_def)
  finally show ?thesis using run by simp
qed

theorem duplicate_delete_diverges_witness:
  "\<exists>d. dl_delete_iter bd_delete (bd_flush mem_order mem_batch) [di_from_path ''a'', di_from_path ''a'']
      (dl_create (Some 1000) ({||}, [])) = (Ok (), d)
    \<and> dl_close (bd_flush mem_order mem_batch) d = None"
proof -
  have "\<forall>w. \<exists>w'. bd_delete_once mem_batch ''a'' od_default w = (Inr (), w')" by (simp add: mem_batch_def)
  moreover have "\<forall>S. set (mem_order S) = fset S" "(2 :: nat) \<le> 1000" by (simp_all add: mem_order_set)
  ultimately show ?thesis using duplicate_delete_diverges [of mem_batch "''a''" mem_order 1000 "[]"] by blast
qed

text \<open>
  A batch that fails in part: when one request of a batch is deleted and the other fails for
  good, the flush reports the error and the deleted one leaves the buffer, but \<open>Deleter\<close> still
  counts both. If deleting the other one succeeds later, \<open>close\<close> never returns.
\<close>

theorem partial_failure_diverges:
  assumes "order {|x, (p, a)|} = batch" "order {|(p, a)|} = [(p, a)]" "x \<noteq> (p, a)"
    and "bd_delete_batch ops batch w = (Inr \<lparr>br_succeeded = [x], br_failed = [(p, a, err)]\<rparr>, w')"
    and "\<not> is_temporary err" and "bd_delete_once ops p a w' = (Inr (), w'')"
  shows "\<exists>d'. dl_close (bd_flush order ops) \<lparr>dl_deleter = ({|x, (p, a)|}, w), dl_max_size = m, dl_cur_size = 2\<rparr>
      = Some (Err (bd_failure (p, a, err)), d')
    \<and> fst (dl_deleter d') = {|(p, a)|} \<and> dl_cur_size d' = 2 \<and> dl_close (bd_flush order ops) d' = None"
proof -
  let ?d = "\<lparr>dl_deleter = ({|x, (p, a)|}, w), dl_max_size = m, dl_cur_size = 2\<rparr>"
  let ?d1 = "\<lparr>dl_deleter = ({|(p, a)|}, w'), dl_max_size = m, dl_cur_size = 2\<rparr>"
  have "fcard {|x, (p, a)|} = 2" using assms(3) by (simp add: fcard_finsert_disjoint)
  moreover have "{|x, (p, a)|} |-| {|x|} = {|(p, a)|}" using assms(3) by auto
  ultimately have "dl_flush (bd_flush order ops) ?d = (Err (bd_failure (p, a, err)), ?d1)"
    using assms by (simp add: dl_flush_def bd_flush_def)
  then have first: "dl_close (bd_flush order ops) ?d = Some (Err (bd_failure (p, a, err)), ?d1)"
    by (subst dl_close.simps) simp
  have "dl_flush (bd_flush order ops) ?d1 = (Ok 1, \<lparr>dl_deleter = ({||}, w''), dl_max_size = m, dl_cur_size = 1\<rparr>)"
    using assms by (simp add: dl_flush_def bd_flush_def fcard.rep_eq)
  then have "dl_close (bd_flush order ops) ?d1
      = dl_close (bd_flush order ops) \<lparr>dl_deleter = ({||}, w''), dl_max_size = m, dl_cur_size = 1\<rparr>"
    by (subst dl_close.simps) simp
  also have "\<dots> = None"
    by (rule dl_close_stuck) (simp_all add: bd_flush_def)
  finally show ?thesis using first by simp
qed

theorem partial_failure_diverges_witness:
  "\<exists>ops :: unit batch_delete. \<exists>order d'.
     dl_close (bd_flush order ops) \<lparr>dl_deleter = ({|(''a'', od_default), (''b'', od_default)|}, ()), dl_max_size = 9, dl_cur_size = 2\<rparr>
       = Some (Err (bd_failure (''b'', od_default, new_error PermissionDenied ''no'')), d')
     \<and> dl_close (bd_flush order ops) d' = None"
proof -
  let ?a = "(''a'', od_default)" and ?b = "(''b'', od_default)"
  let ?e = "new_error PermissionDenied ''no''"
  let ?order = "\<lambda>S :: request fset. if S = {|?b|} then [?b] else [?a, ?b]"
  let ?ops = "\<lparr>bd_delete_once = (\<lambda>p a w. (Inr (), w)),
     bd_delete_batch = (\<lambda>batch w. (Inr \<lparr>br_succeeded = [?a], br_failed = [(''b'', od_default, ?e)]\<rparr>, w))\<rparr> :: unit batch_delete"
  have o: "?order {|?a, ?b|} = [?a, ?b]" "?order {|?b|} = [?b]" "?a \<noteq> ?b" by auto
  have "bd_delete_batch ?ops [?a, ?b] () = (Inr \<lparr>br_succeeded = [?a], br_failed = [(''b'', od_default, ?e)]\<rparr>, ())"
    "\<not> is_temporary ?e" "bd_delete_once ?ops ''b'' od_default () = (Inr (), ())"
    by (simp_all add: is_temporary_def new_error_def)
  from partial_failure_diverges [where m = 9, OF o this] show ?thesis by blast
qed

end
