(* ===== verification/Accessors.thy ===== *)
theory Accessors
  imports Deleters Buffers
begin

text \<open>
  The interface between services, layers and the operator: the capabilities a service declares
  (\<^verbatim>\<open>core/src/types/capability.rs\<close>), the names of the operations (\<^verbatim>\<open>core/src/raw/operation.rs\<close>),
  their arguments (\<^verbatim>\<open>core/src/raw/ops.rs\<close>), and the trait \<^verbatim>\<open>Access\<close> (\<^verbatim>\<open>core/src/raw/accessor.rs\<close>).

  The trait has every operation twice, asynchronous and blocking. An accessor is therefore a
  pair of records of type \<open>access\<close>, one for each half, with the operations on the readers,
  writers, listers and deleters it hands out as fields; \<open>'w\<close> is the state of the service.
  Executors, which only say where a task runs, and \<^verbatim>\<open>presign\<close>, which signs a request for
  somebody else to send, are left out.
\<close>

subsection \<open>Capabilities\<close>

record capability =
  cap_stat :: bool
  cap_stat_with_if_match :: bool
  cap_stat_with_if_none_match :: bool
  cap_stat_with_if_modified_since :: bool
  cap_stat_with_if_unmodified_since :: bool
  cap_stat_with_override_cache_control :: bool
  cap_stat_with_override_content_disposition :: bool
  cap_stat_with_override_content_type :: bool
  cap_stat_with_version :: bool
  cap_stat_has_cache_control :: bool
  cap_stat_has_content_disposition :: bool
  cap_stat_has_content_length :: bool
  cap_stat_has_content_md5 :: bool
  cap_stat_has_content_range :: bool
  cap_stat_has_content_type :: bool
  cap_stat_has_content_encoding :: bool
  cap_stat_has_etag :: bool
  cap_stat_has_last_modified :: bool
  cap_stat_has_version :: bool
  cap_stat_has_user_metadata :: bool
  cap_read :: bool
  cap_read_with_if_match :: bool
  cap_read_with_if_none_match :: bool
  cap_read_with_if_modified_since :: bool
  cap_read_with_if_unmodified_since :: bool
  cap_read_with_override_cache_control :: bool
  cap_read_with_override_content_disposition :: bool
  cap_read_with_override_content_type :: bool
  cap_read_with_version :: bool
  cap_write :: bool
  cap_write_can_multi :: bool
  cap_write_can_empty :: bool
  cap_write_can_append :: bool
  cap_write_with_content_type :: bool
  cap_write_with_content_disposition :: bool
  cap_write_with_content_encoding :: bool
  cap_write_with_cache_control :: bool
  cap_write_with_if_match :: bool
  cap_write_with_if_none_match :: bool
  cap_write_with_if_not_exists :: bool
  cap_write_with_user_metadata :: bool
  cap_write_multi_max_size :: "nat option"
  cap_write_multi_min_size :: "nat option"
  cap_write_total_max_size :: "nat option"
  cap_create_dir :: bool
  cap_delete :: bool
  cap_delete_with_version :: bool
  cap_delete_max_size :: "nat option"
  cap_copy :: bool
  cap_rename :: bool
  cap_list :: bool
  cap_list_with_limit :: bool
  cap_list_with_start_after :: bool
  cap_list_with_recursive :: bool
  cap_list_with_version :: bool
  cap_list_with_versions :: bool
  cap_list_with_deleted :: bool
  cap_list_has_cache_control :: bool
  cap_list_has_content_disposition :: bool
  cap_list_has_content_length :: bool
  cap_list_has_content_md5 :: bool
  cap_list_has_content_range :: bool
  cap_list_has_content_type :: bool
  cap_list_has_etag :: bool
  cap_list_has_last_modified :: bool
  cap_list_has_version :: bool
  cap_list_has_user_metadata :: bool
  cap_presign :: bool
  cap_presign_read :: bool
  cap_presign_stat :: bool
  cap_presign_write :: bool
  cap_shared :: bool
  cap_blocking :: bool

definition capability_default :: capability where
  "capability_default =
     \<lparr>cap_stat = False, cap_stat_with_if_match = False, cap_stat_with_if_none_match = False,
      cap_stat_with_if_modified_since = False, cap_stat_with_if_unmodified_since = False, cap_stat_with_override_cache_control = False,
      cap_stat_with_override_content_disposition = False, cap_stat_with_override_content_type = False, cap_stat_with_version = False,
      cap_stat_has_cache_control = False, cap_stat_has_content_disposition = False, cap_stat_has_content_length = False,
      cap_stat_has_content_md5 = False, cap_stat_has_content_range = False, cap_stat_has_content_type = False,
      cap_stat_has_content_encoding = False, cap_stat_has_etag = False, cap_stat_has_last_modified = False,
      cap_stat_has_version = False, cap_stat_has_user_metadata = False, cap_read = False,
      cap_read_with_if_match = False, cap_read_with_if_none_match = False, cap_read_with_if_modified_since = False,
      cap_read_with_if_unmodified_since = False, cap_read_with_override_cache_control = False, cap_read_with_override_content_disposition = False,
      cap_read_with_override_content_type = False, cap_read_with_version = False, cap_write = False,
      cap_write_can_multi = False, cap_write_can_empty = False, cap_write_can_append = False,
      cap_write_with_content_type = False, cap_write_with_content_disposition = False, cap_write_with_content_encoding = False,
      cap_write_with_cache_control = False, cap_write_with_if_match = False, cap_write_with_if_none_match = False,
      cap_write_with_if_not_exists = False, cap_write_with_user_metadata = False, cap_write_multi_max_size = None,
      cap_write_multi_min_size = None, cap_write_total_max_size = None, cap_create_dir = False,
      cap_delete = False, cap_delete_with_version = False, cap_delete_max_size = None,
      cap_copy = False, cap_rename = False, cap_list = False,
      cap_list_with_limit = False, cap_list_with_start_after = False, cap_list_with_recursive = False,
      cap_list_with_version = False, cap_list_with_versions = False, cap_list_with_deleted = False,
      cap_list_has_cache_control = False, cap_list_has_content_disposition = False, cap_list_has_content_length = False,
      cap_list_has_content_md5 = False, cap_list_has_content_range = False, cap_list_has_content_type = False,
      cap_list_has_etag = False, cap_list_has_last_modified = False, cap_list_has_version = False,
      cap_list_has_user_metadata = False, cap_presign = False, cap_presign_read = False,
      cap_presign_stat = False, cap_presign_write = False, cap_shared = False,
      cap_blocking = False\<rparr>"

subsection \<open>Operations\<close>

datatype operation =
    OpInfo | OpCreateDir | OpRead | OpReaderRead | OpWrite
  | OpWriterWrite | OpWriterClose | OpWriterAbort | OpCopy | OpRename
  | OpStat | OpDelete | OpDeleterDelete | OpDeleterFlush | OpList
  | OpListerNext | OpPresign | OpBlockingCreateDir | OpBlockingRead | OpBlockingReaderRead
  | OpBlockingWrite | OpBlockingWriterWrite | OpBlockingWriterClose | OpBlockingCopy | OpBlockingRename
  | OpBlockingStat | OpBlockingDelete | OpBlockingDeleterDelete | OpBlockingDeleterFlush | OpBlockingList
  | OpBlockingListerNext

fun op_into_static :: "operation \<Rightarrow> string" where
  "op_into_static OpInfo = ''metadata''"
| "op_into_static OpCreateDir = ''create_dir''"
| "op_into_static OpRead = ''read''"
| "op_into_static OpReaderRead = ''Reader::read''"
| "op_into_static OpWrite = ''write''"
| "op_into_static OpWriterWrite = ''Writer::write''"
| "op_into_static OpWriterClose = ''Writer::close''"
| "op_into_static OpWriterAbort = ''Writer::abort''"
| "op_into_static OpCopy = ''copy''"
| "op_into_static OpRename = ''rename''"
| "op_into_static OpStat = ''stat''"
| "op_into_static OpDelete = ''delete''"
| "op_into_static OpDeleterDelete = ''Deleter::delete''"
| "op_into_static OpDeleterFlush = ''Deleter::flush''"
| "op_into_static OpList = ''list''"
| "op_into_static OpListerNext = ''List::next''"
| "op_into_static OpPresign = ''presign''"
| "op_into_static OpBlockingCreateDir = ''blocking_create_dir''"
| "op_into_static OpBlockingRead = ''blocking_read''"
| "op_into_static OpBlockingReaderRead = ''BlockingReader::read''"
| "op_into_static OpBlockingWrite = ''blocking_write''"
| "op_into_static OpBlockingWriterWrite = ''BlockingWriter::write''"
| "op_into_static OpBlockingWriterClose = ''BlockingWriter::close''"
| "op_into_static OpBlockingCopy = ''blocking_copy''"
| "op_into_static OpBlockingRename = ''blocking_rename''"
| "op_into_static OpBlockingStat = ''blocking_stat''"
| "op_into_static OpBlockingDelete = ''blocking_delete''"
| "op_into_static OpBlockingDeleterDelete = ''BlockingDeleter::delete''"
| "op_into_static OpBlockingDeleterFlush = ''BlockingDeleter::flush''"
| "op_into_static OpBlockingList = ''blocking_list''"
| "op_into_static OpBlockingListerNext = ''BlockingLister::next''"

definition op_is_oneshot :: "operation \<Rightarrow> bool" where
  "op_is_oneshot op =
     (op \<notin> {OpReaderRead, OpWriterWrite, OpListerNext, OpDeleterDelete,
        OpBlockingReaderRead, OpBlockingWriterWrite, OpBlockingListerNext, OpBlockingDeleterDelete})"

subsection \<open>Arguments\<close>

record op_list =
  lo_limit :: "nat option"
  lo_start_after :: "string option"
  lo_recursive :: bool
  lo_concurrent :: nat
  lo_versions :: bool
  lo_deleted :: bool

definition op_list_default :: op_list where
  "op_list_default =
     \<lparr>lo_limit = None, lo_start_after = None, lo_recursive = False, lo_concurrent = 1,
      lo_versions = False, lo_deleted = False\<rparr>"

definition lo_with_limit :: "nat \<Rightarrow> op_list \<Rightarrow> op_list" where
  "lo_with_limit limit args = args\<lparr>lo_limit := Some limit\<rparr>"

definition lo_with_recursive :: "bool \<Rightarrow> op_list \<Rightarrow> op_list" where
  "lo_with_recursive recursive args = args\<lparr>lo_recursive := recursive\<rparr>"

record op_read =
  ro_range :: bytes_range
  ro_if_match :: "string option"
  ro_if_none_match :: "string option"
  ro_if_modified_since :: "datetime option"
  ro_if_unmodified_since :: "datetime option"
  ro_override_content_type :: "string option"
  ro_override_cache_control :: "string option"
  ro_override_content_disposition :: "string option"
  ro_version :: "string option"

definition op_read_default :: op_read where
  "op_read_default =
     \<lparr>ro_range = BytesRange 0 None, ro_if_match = None, ro_if_none_match = None,
      ro_if_modified_since = None, ro_if_unmodified_since = None,
      ro_override_content_type = None, ro_override_cache_control = None,
      ro_override_content_disposition = None, ro_version = None\<rparr>"

definition ro_with_range :: "bytes_range \<Rightarrow> op_read \<Rightarrow> op_read" where
  "ro_with_range rng args = args\<lparr>ro_range := rng\<rparr>"

record op_stat =
  so_if_match :: "string option"
  so_if_none_match :: "string option"
  so_if_modified_since :: "datetime option"
  so_if_unmodified_since :: "datetime option"
  so_override_content_type :: "string option"
  so_override_cache_control :: "string option"
  so_override_content_disposition :: "string option"
  so_version :: "string option"

definition op_stat_default :: op_stat where
  "op_stat_default =
     \<lparr>so_if_match = None, so_if_none_match = None, so_if_modified_since = None,
      so_if_unmodified_since = None, so_override_content_type = None,
      so_override_cache_control = None, so_override_content_disposition = None,
      so_version = None\<rparr>"

definition so_with_version :: "string \<Rightarrow> op_stat \<Rightarrow> op_stat" where
  "so_with_version version args = args\<lparr>so_version := Some version\<rparr>"

record op_write =
  wo_append :: bool
  wo_concurrent :: nat
  wo_content_type :: "string option"
  wo_content_disposition :: "string option"
  wo_content_encoding :: "string option"
  wo_cache_control :: "string option"
  wo_if_match :: "string option"
  wo_if_none_match :: "string option"
  wo_if_not_exists :: bool
  wo_user_metadata :: "(string \<times> string) list option"

definition op_write_default :: op_write where
  "op_write_default =
     \<lparr>wo_append = False, wo_concurrent = 0, wo_content_type = None,
      wo_content_disposition = None, wo_content_encoding = None, wo_cache_control = None,
      wo_if_match = None, wo_if_none_match = None, wo_if_not_exists = False,
      wo_user_metadata = None\<rparr>"

definition wo_with_content_type :: "string \<Rightarrow> op_write \<Rightarrow> op_write" where
  "wo_with_content_type ct args = args\<lparr>wo_content_type := Some ct\<rparr>"

record op_writer =
  opw_chunk :: "nat option"

definition opw_with_chunk :: "nat \<Rightarrow> op_writer \<Rightarrow> op_writer" where
  "opw_with_chunk chunk o' = o'\<lparr>opw_chunk := Some chunk\<rparr>"

subsection \<open>Accessors\<close>

text \<open>A scheme is kept as the name it displays.\<close>

record accessor_info =
  ai_scheme :: string
  ai_root :: string
  ai_name :: string
  ai_native_capability :: capability
  ai_full_capability :: capability

definition set_native_capability :: "capability \<Rightarrow> accessor_info \<Rightarrow> accessor_info" where
  "set_native_capability cap info = info\<lparr>ai_native_capability := cap, ai_full_capability := cap\<rparr>"

text \<open>
  One half of an accessor. The reply structures besides the metadata carry nothing the callers
  use. \<open>None\<close> as the result of \<open>ac_lister_next\<close>, and of \<open>ac_stat\<close>, which may have to list, is a loop
  that does not end.
\<close>

record ('r, 'wr, 'l, 'd, 'w) access =
  ac_info :: accessor_info
  ac_create_dir :: "string \<Rightarrow> 'w \<Rightarrow> unit res \<times> 'w"
  ac_stat :: "string \<Rightarrow> op_stat \<Rightarrow> 'w \<Rightarrow> (metadata res \<times> 'w) option"
  ac_read :: "string \<Rightarrow> op_read \<Rightarrow> 'w \<Rightarrow> 'r res \<times> 'w"
  ac_write :: "string \<Rightarrow> op_write \<Rightarrow> 'w \<Rightarrow> 'wr res \<times> 'w"
  ac_delete :: "'w \<Rightarrow> 'd res \<times> 'w"
  ac_list :: "string \<Rightarrow> op_list \<Rightarrow> 'w \<Rightarrow> 'l res \<times> 'w"
  ac_copy :: "string \<Rightarrow> string \<Rightarrow> 'w \<Rightarrow> unit res \<times> 'w"
  ac_rename :: "string \<Rightarrow> string \<Rightarrow> 'w \<Rightarrow> unit res \<times> 'w"
  ac_reader_read :: "'r \<Rightarrow> 'w \<Rightarrow> buffer res \<times> 'r \<times> 'w"
  ac_writer_write :: "buffer \<Rightarrow> 'wr \<Rightarrow> 'w \<Rightarrow> unit res \<times> 'wr \<times> 'w"
  ac_writer_close :: "'wr \<Rightarrow> 'w \<Rightarrow> unit res \<times> 'wr \<times> 'w"
  ac_writer_abort :: "'wr \<Rightarrow> 'w \<Rightarrow> unit res \<times> 'wr \<times> 'w"
  ac_lister_next :: "'l \<Rightarrow> 'w \<Rightarrow> (oio_entry option res \<times> 'l \<times> 'w) option"
  ac_deleter_delete :: "string \<Rightarrow> op_delete \<Rightarrow> 'd \<Rightarrow> 'w \<Rightarrow> unit res \<times> 'd \<times> 'w"
  ac_deleter_flush :: "'d \<Rightarrow> 'w \<Rightarrow> nat res \<times> 'd \<times> 'w"

text \<open>What an operation does that a service does not implement.\<close>

definition not_supported :: "'w \<Rightarrow> 'a res \<times> 'w" where
  "not_supported w = (Err (new_error Unsupported ''operation is not supported''), w)"

text \<open>Sequencing of fallible steps over the state of the service.\<close>

definition step :: "'a res \<times> 'w \<Rightarrow> ('a \<Rightarrow> 'w \<Rightarrow> 'b res \<times> 'w) \<Rightarrow> 'b res \<times> 'w" where
  "step x f = (case x of (Ok a, w) \<Rightarrow> f a w | (Err e, w) \<Rightarrow> (Err e, w) | (Panic, w) \<Rightarrow> (Panic, w))"

definition io_step :: "(error + 'a) \<times> 'w \<Rightarrow> ('a \<Rightarrow> 'w \<Rightarrow> 'b res \<times> 'w) \<Rightarrow> 'b res \<times> 'w" where
  "io_step x f = (case x of (Inr a, w) \<Rightarrow> f a w | (Inl e, w) \<Rightarrow> (Err e, w))"

lemma step_simps [simp]:
  "step (Ok a, w) f = f a w" "step (Err e, w) f = (Err e, w)" "step (Panic, w) f = (Panic, w)"
  by (simp_all add: step_def)

lemma io_step_simps [simp]: "io_step (Inr a, w) f = f a w" "io_step (Inl e, w) f = (Err e, w)"
  by (simp_all add: io_step_def)

lemma step_unit: "step x (\<lambda>a w. (Ok (), w)) = x"
  by (cases x; cases "fst x") auto

lemma step_Ok_iff: "step x f = (Ok b, w') \<longleftrightarrow> (\<exists>a w. x = (Ok a, w) \<and> f a w = (Ok b, w'))"
  by (cases x; cases "fst x") auto

lemma io_step_Ok_iff: "io_step x f = (Ok b, w') \<longleftrightarrow> (\<exists>a w. x = (Inr a, w) \<and> f a w = (Ok b, w'))"
  by (cases x; cases "fst x") auto

text \<open>The accessor \<^verbatim>\<open>()\<close>: it supports nothing; writing to its writer is not implemented.\<close>

definition dummy_access :: "(unit, unit, unit, unit, 'w) access" where
  "dummy_access =
     \<lparr>ac_info = \<lparr>ai_scheme = ''dummy'', ai_root = '''', ai_name = ''dummy'',
        ai_native_capability = capability_default, ai_full_capability = capability_default\<rparr>,
      ac_create_dir = (\<lambda>path. not_supported),
      ac_stat = (\<lambda>path args w. Some (not_supported w)),
      ac_read = (\<lambda>path args. not_supported),
      ac_write = (\<lambda>path args. not_supported),
      ac_delete = not_supported,
      ac_list = (\<lambda>path args. not_supported),
      ac_copy = (\<lambda>from to. not_supported),
      ac_rename = (\<lambda>from to. not_supported),
      ac_reader_read = (\<lambda>r w. (Err (new_error Unsupported ''output reader doesn't support read''), r, w)),
      ac_writer_write = (\<lambda>bs wr w. (Panic, wr, w)),
      ac_writer_close = (\<lambda>wr w. (Err (new_error Unsupported ''output writer doesn't support close''), wr, w)),
      ac_writer_abort = (\<lambda>wr w. (Err (new_error Unsupported ''output writer doesn't support abort''), wr, w)),
      ac_lister_next = (\<lambda>l w. Some (Ok None, l, w)),
      ac_deleter_delete = (\<lambda>path args d w. (Err (new_error Unsupported ''output deleter doesn't support delete''), d, w)),
      ac_deleter_flush = (\<lambda>d w. (Err (new_error Unsupported ''output deleter doesn't support flush''), d, w))\<rparr>"

end
