(* ===== verification/WriteGen.thy ===== *)
theory WriteGen
  imports Writers Accessors
begin

text \<open>
  \<open>WriteGenerator\<close> (\<^verbatim>\<open>core/src/types/context/write.rs\<close>), which regroups what the user writes
  into chunks before it reaches the writer of the service, and the loops of \<open>Writer\<close> over it
  (\<^verbatim>\<open>core/src/types/write/writer.rs\<close>). The asynchronous and the blocking generator have the same
  code; both are the definitions below with the writer's operations as arguments.

  The lemmas rest on the interface \<open>oio_write\<close> alone, so they hold over each of the writers.
\<close>

subsection \<open>Chunk size\<close>

definition or_else :: "'a option \<Rightarrow> 'a option \<Rightarrow> 'a option" where
  "or_else a b = (case a of None \<Rightarrow> b | Some x \<Rightarrow> a)"

definition calculate_chunk_size :: "op_writer \<Rightarrow> capability \<Rightarrow> nat option \<times> bool" where
  "calculate_chunk_size options cap =
     (let exact = (opw_chunk options \<noteq> None);
          chunk_size = map_option (\<lambda>sz.
            let sz1 = (case cap_write_multi_max_size cap of Some v \<Rightarrow> min sz v | None \<Rightarrow> sz);
                sz2 = (case cap_write_multi_min_size cap of Some v \<Rightarrow> max sz1 v | None \<Rightarrow> sz1)
            in sz2) (or_else (opw_chunk options) (cap_write_multi_min_size cap))
      in (chunk_size, exact))"

subsection \<open>The generator\<close>

record 's write_generator =
  wg_w :: 's
  wg_chunk_size :: "nat option"
  wg_exact :: bool
  wg_buffer :: queue_buf

definition wg_create :: "'s \<Rightarrow> nat option \<times> bool \<Rightarrow> 's write_generator" where
  "wg_create w ce =
     \<lparr>wg_w = w, wg_chunk_size = fst ce, wg_exact = snd ce, wg_buffer = queue_new\<rparr>"

text \<open>The buffer is taken, collected and handed to the writer; it is empty after that.\<close>

definition wg_flush ::
  "(buffer \<Rightarrow> 's \<Rightarrow> unit res \<times> 's) \<Rightarrow> 's write_generator \<Rightarrow> unit res \<times> 's write_generator" where
  "wg_flush write_op g =
     (let (q, rest) = queue_take (wg_buffer g); g1 = g\<lparr>wg_buffer := rest\<rparr> in
      case queue_collect q of
        Ok buf \<Rightarrow> (let (r, s) = write_op buf (wg_w g1) in (r, g1\<lparr>wg_w := s\<rparr>))
      | Err e \<Rightarrow> (Err e, g1)
      | Panic \<Rightarrow> (Panic, g1))"

text \<open>The tail of the exact mode: fill the buffer up to the chunk size.\<close>

definition wg_fill :: "nat \<Rightarrow> buffer \<Rightarrow> 's write_generator \<Rightarrow> nat res \<times> 's write_generator" where
  "wg_fill chunk_size bs g =
     (case usize_sub chunk_size (queue_len (wg_buffer g)) of
        Ok remaining \<Rightarrow>
          (let bs' = buf_truncate remaining bs
           in (Ok (buf_len bs'), g\<lparr>wg_buffer := queue_push bs' (wg_buffer g)\<rparr>))
      | Err e \<Rightarrow> (Err e, g)
      | Panic \<Rightarrow> (Panic, g))"

definition wg_write ::
  "(buffer \<Rightarrow> 's \<Rightarrow> unit res \<times> 's) \<Rightarrow> buffer \<Rightarrow> 's write_generator \<Rightarrow> nat res \<times> 's write_generator"
  where
  "wg_write write_op bs g =
     (case wg_chunk_size g of
        None \<Rightarrow>
          (case write_op bs (wg_w g) of
             (Ok u, s) \<Rightarrow> (Ok (buf_len bs), g\<lparr>wg_w := s\<rparr>)
           | (Err e, s) \<Rightarrow> (Err e, g\<lparr>wg_w := s\<rparr>)
           | (Panic, s) \<Rightarrow> (Panic, g\<lparr>wg_w := s\<rparr>))
      | Some chunk_size \<Rightarrow>
          if queue_len (wg_buffer g) + buf_len bs < chunk_size
          then (Ok (buf_len bs), g\<lparr>wg_buffer := queue_push bs (wg_buffer g)\<rparr>)
          else if \<not> wg_exact g then
            (case wg_flush write_op (g\<lparr>wg_buffer := queue_push bs (wg_buffer g)\<rparr>) of
               (Ok u, g') \<Rightarrow> (Ok (buf_len bs), g') | (Err e, g') \<Rightarrow> (Err e, g') | (Panic, g') \<Rightarrow> (Panic, g'))
          else if chunk_size \<le> queue_len (wg_buffer g) then
            (case wg_flush write_op g of
               (Ok u, g') \<Rightarrow> wg_fill chunk_size bs g'
             | (Err e, g') \<Rightarrow> (Err e, g')
             | (Panic, g') \<Rightarrow> (Panic, g'))
          else wg_fill chunk_size bs g)"

lemma queue_len_Nil [simp]: "queue_len [] = 0"
  by (simp add: queue_len_def)

lemma wg_flush_buffer: "wg_flush write_op g = (r, g') \<Longrightarrow> wg_buffer g' = []"
  by (auto simp: wg_flush_def queue_take_def queue_new_def Let_def split: outcome.splits prod.splits)

text \<open>The loop of \<open>close\<close> runs until the buffer is empty.\<close>

function wg_close ::
  "(buffer \<Rightarrow> 's \<Rightarrow> unit res \<times> 's) \<Rightarrow> ('s \<Rightarrow> unit res \<times> 's) \<Rightarrow> 's write_generator
     \<Rightarrow> unit res \<times> 's write_generator" where
  "wg_close write_op close_op g =
     (if queue_is_empty (wg_buffer g) then
        (let (r, s) = close_op (wg_w g) in (r, g\<lparr>wg_w := s\<rparr>))
      else
        (case wg_flush write_op g of
           (Ok u, g') \<Rightarrow> wg_close write_op close_op g'
         | (Err e, g') \<Rightarrow> (Err e, g')
         | (Panic, g') \<Rightarrow> (Panic, g')))"
  by pat_completeness auto
termination
  by (relation "measure (\<lambda>(wr, cl, g). queue_len (wg_buffer g))")
    (auto simp: queue_is_empty_def dest!: wg_flush_buffer [OF sym])

declare wg_close.simps [simp del]

definition wg_abort :: "('s \<Rightarrow> unit res \<times> 's) \<Rightarrow> 's write_generator \<Rightarrow> unit res \<times> 's write_generator" where
  "wg_abort abort_op g =
     (let g1 = g\<lparr>wg_buffer := queue_clear (wg_buffer g)\<rparr>; (r, s) = abort_op (wg_w g1)
      in (r, g1\<lparr>wg_w := s\<rparr>))"

text \<open>\<open>Writer::write\<close>: write what is left until all is accepted. \<open>None\<close> means it never returns.\<close>

partial_function (option) writer_write ::
  "(buffer \<Rightarrow> 's \<Rightarrow> unit res \<times> 's) \<Rightarrow> buffer \<Rightarrow> 's write_generator
     \<Rightarrow> (unit res \<times> 's write_generator) option" where
  "writer_write write_op bs g =
     (if buf_is_empty bs then Some (Ok (), g)
      else case wg_write write_op bs g of
          (Ok n, g') \<Rightarrow>
            (case buf_advance n bs of
               Ok bs' \<Rightarrow> writer_write write_op bs' g'
             | Err e \<Rightarrow> Some (Err e, g')
             | Panic \<Rightarrow> Some (Panic, g'))
        | (Err e, g') \<Rightarrow> Some (Err e, g')
        | (Panic, g') \<Rightarrow> Some (Panic, g'))"

declare writer_write.simps [code]

subsection \<open>What reaches the writer\<close>

definition log_bytes :: "buffer list \<Rightarrow> bytes" where
  "log_bytes log = concat (map buf_bytes log)"

lemma log_bytes_simps [simp]:
  "log_bytes [] = []" "log_bytes (xs @ ys) = log_bytes xs @ log_bytes ys" "log_bytes [b] = buf_bytes b"
  by (simp_all add: log_bytes_def)

text \<open>
  The shape of the chunks sent so far and the room left in the buffer, for the three modes:
  no chunk size; a chunk size that is a lower bound; an exact chunk size.
\<close>

definition wg_shape :: "nat option \<Rightarrow> bool \<Rightarrow> buffer list \<Rightarrow> queue_buf \<Rightarrow> bool" where
  "wg_shape chunk_size exact log q =
     (list_all buf_wf log \<and> (case chunk_size of
        None \<Rightarrow> q = []
      | Some c \<Rightarrow>
          if exact then list_all (\<lambda>b. length (buf_bytes b) = c) log \<and> length (queue_bytes q) \<le> c
          else list_all (\<lambda>b. c \<le> length (buf_bytes b)) log \<and> (q = [] \<or> length (queue_bytes q) < c)))"

definition wg_inv :: "(buffer list \<Rightarrow> 's \<Rightarrow> bool) \<Rightarrow> bytes \<Rightarrow> 's write_generator \<Rightarrow> bool" where
  "wg_inv invar data g = (\<exists>log. invar log (wg_w g) \<and> queue_wf (wg_buffer g)
     \<and> log_bytes log @ queue_bytes (wg_buffer g) = data
     \<and> wg_shape (wg_chunk_size g) (wg_exact g) log (wg_buffer g))"

definition wg_done :: "(buffer list \<Rightarrow> 's \<Rightarrow> bool) \<Rightarrow> nat option \<Rightarrow> bool \<Rightarrow> bytes \<Rightarrow> 's \<Rightarrow> bool" where
  "wg_done committed chunk_size exact data s = (\<exists>log. committed log s \<and> list_all buf_wf log \<and> log_bytes log = data
     \<and> (case chunk_size of
          None \<Rightarrow> True
        | Some c \<Rightarrow>
            list_all (\<lambda>b. if exact then length (buf_bytes b) = c else c \<le> length (buf_bytes b)) (butlast log)
            \<and> (exact \<longrightarrow> list_all (\<lambda>b. length (buf_bytes b) \<le> c) log)))"

context oio_write
begin

lemma flush_spec:
  assumes "queue_wf (wg_buffer g)" "invar log (wg_w g)" "wg_flush write_op g = (r, g')"
  shows "wg_buffer g' = [] \<and> wg_chunk_size g' = wg_chunk_size g \<and> wg_exact g' = wg_exact g
    \<and> (r = Ok () \<and> (\<exists>b. buf_wf b \<and> buf_bytes b = queue_bytes (wg_buffer g) \<and> invar (log @ [b]) (wg_w g'))
       \<or> (\<exists>e. r = Err e \<and> invar log (wg_w g')) \<or> r = Panic)"
proof -
  obtain b where b: "queue_collect (wg_buffer g) = Ok b" "buf_wf b" "buf_bytes b = queue_bytes (wg_buffer g)"
    using queue_collect_Ok assms(1) by blast
  obtain x s where x: "write_op b (wg_w g) = (x, s)" by fastforce
  have g': "g' = g\<lparr>wg_buffer := [], wg_w := s\<rparr>" "r = x"
    using assms(3) b x by (auto simp: wg_flush_def queue_take_def queue_new_def)
  show ?thesis
  proof (cases x)
    case (Ok u)
    with x assms(2) have "invar (log @ [b]) s" by (simp add: write_Ok)
    with g' b Ok show ?thesis by auto
  next
    case (Err e)
    with x assms(2) write_Err have "invar log s" by blast
    with g' Err show ?thesis by simp
  qed (use g' in simp)
qed

lemma fill_spec:
  assumes "queue_wf (wg_buffer g)" "buf_wf bs" "length (queue_bytes (wg_buffer g)) \<le> c"
    and n: "n = min (c - length (queue_bytes (wg_buffer g))) (length (buf_bytes bs))"
  shows "\<exists>q'. wg_fill c bs g = (Ok n, g\<lparr>wg_buffer := q'\<rparr>) \<and> queue_wf q'
    \<and> queue_bytes q' = queue_bytes (wg_buffer g) @ take n (buf_bytes bs)"
proof -
  let ?bs = "buf_truncate (c - length (queue_bytes (wg_buffer g))) bs"
  have "take (c - length (queue_bytes (wg_buffer g))) (buf_bytes bs) = take n (buf_bytes bs)"
    by (simp add: n min_def)
  moreover have "buf_len ?bs = n" using assms by (simp add: min.commute)
  ultimately show ?thesis
    using assms by (auto simp: wg_fill_def usize_sub_def)
qed

lemma write_spec:
  assumes inv: "wg_inv invar data g" and bs: "buf_wf bs"
    and r: "wg_write write_op bs g = (r, g')"
  shows "wg_chunk_size g' = wg_chunk_size g \<and> wg_exact g' = wg_exact g
    \<and> ((\<exists>n. r = Ok n \<and> n \<le> buf_len bs \<and> wg_inv invar (data @ take n (buf_bytes bs)) g'
          \<and> (buf_bytes bs \<noteq> [] \<and> (wg_exact g \<longrightarrow> wg_chunk_size g \<noteq> Some 0) \<longrightarrow> 0 < n))
       \<or> (\<exists>e. r = Err e) \<or> r = Panic)"
proof -
  obtain log where log: "invar log (wg_w g)" "queue_wf (wg_buffer g)"
    "log_bytes log @ queue_bytes (wg_buffer g) = data"
    "wg_shape (wg_chunk_size g) (wg_exact g) log (wg_buffer g)"
    using inv by (auto simp: wg_inv_def)
  show ?thesis
  proof (cases "wg_chunk_size g")
    case None
    obtain x s where x: "write_op bs (wg_w g) = (x, s)" by fastforce
    show ?thesis
    proof (cases x)
      case (Ok u)
      with x log(1) have "invar (log @ [bs]) s" by (simp add: write_Ok)
      with r None x Ok log bs show ?thesis
        by (auto simp: wg_write_def wg_inv_def wg_shape_def intro!: exI [of _ "log @ [bs]"])
    qed (use r None x in \<open>auto simp: wg_write_def\<close>)
  next
    case (Some c)
    let ?q = "wg_buffer g"
    show ?thesis
    proof (cases "queue_len ?q + buf_len bs < c")
      case True
      with r Some have g': "r = Ok (buf_len bs)" "g' = g\<lparr>wg_buffer := queue_push bs ?q\<rparr>"
        by (simp_all add: wg_write_def)
      have "wg_shape (Some c) (wg_exact g) log (queue_push bs ?q)"
        using log(2,4) True bs Some by (auto simp: wg_shape_def split: if_splits)
      with g' log bs Some show ?thesis
        by (auto simp: wg_inv_def intro!: exI [of _ log])
    next
      case big: False
      show ?thesis
      proof (cases "wg_exact g")
        case False
        let ?g = "g\<lparr>wg_buffer := queue_push bs ?q\<rparr>"
        obtain x g1 where x: "wg_flush write_op ?g = (x, g1)" by fastforce
        have f: "wg_buffer g1 = [] \<and> wg_chunk_size g1 = Some c \<and> \<not> wg_exact g1
          \<and> (x = Ok () \<and> (\<exists>b. buf_wf b \<and> buf_bytes b = queue_bytes ?q @ buf_bytes bs \<and> invar (log @ [b]) (wg_w g1))
             \<or> (\<exists>e. x = Err e \<and> invar log (wg_w g1)) \<or> x = Panic)"
          using flush_spec [of ?g log x g1] x log bs Some False by simp
        show ?thesis
        proof (cases x)
          case (Ok u)
          with f obtain b where b: "buf_wf b" "buf_bytes b = queue_bytes ?q @ buf_bytes bs" "invar (log @ [b]) (wg_w g1)"
            by auto
          have "c \<le> length (buf_bytes b)" using big b log(2) bs by simp
          then have "wg_inv invar (data @ buf_bytes bs) g1"
            unfolding wg_inv_def using f b log(3,4) Some False
            by (intro exI [of _ "log @ [b]"]) (auto simp: wg_shape_def)
          with r Some big False x Ok f bs show ?thesis by (auto simp: wg_write_def)
        qed (use r Some big False x f in \<open>auto simp: wg_write_def\<close>)
      next
        case exact: True
        have le: "length (queue_bytes ?q) \<le> c" and chunks: "list_all (\<lambda>b. length (buf_bytes b) = c) log" "list_all buf_wf log"
          using log(4) Some exact by (auto simp: wg_shape_def)
        have fill: ?thesis
          if g0: "wg_chunk_size g0 = Some c" "wg_exact g0" "queue_wf (wg_buffer g0)"
            "length (queue_bytes (wg_buffer g0)) \<le> c" "c \<noteq> 0 \<Longrightarrow> length (queue_bytes (wg_buffer g0)) < c"
            and log0: "invar log0 (wg_w g0)" "list_all (\<lambda>b. length (buf_bytes b) = c) log0" "list_all buf_wf log0"
            "log_bytes log0 @ queue_bytes (wg_buffer g0) = data"
            and w: "wg_fill c bs g0 = (r, g')" for g0 log0
        proof -
          define n where "n = min (c - length (queue_bytes (wg_buffer g0))) (length (buf_bytes bs))"
          obtain q' where q': "wg_fill c bs g0 = (Ok n, g0\<lparr>wg_buffer := q'\<rparr>)" "queue_wf q'"
            "queue_bytes q' = queue_bytes (wg_buffer g0) @ take n (buf_bytes bs)"
            using fill_spec [OF g0(3) bs g0(4) n_def] by blast
          have "wg_inv invar (data @ take n (buf_bytes bs)) (g0\<lparr>wg_buffer := q'\<rparr>)"
            unfolding wg_inv_def using g0 log0 q'
            by (intro exI [of _ log0]) (auto simp: wg_shape_def n_def)
          moreover have "n \<le> buf_len bs" "c \<noteq> 0 \<and> buf_bytes bs \<noteq> [] \<Longrightarrow> 0 < n"
            using g0(5) bs by (auto simp: n_def)
          ultimately show ?thesis using w q' g0 Some exact by auto
        qed
        show ?thesis
        proof (cases "c \<le> queue_len ?q")
          case True
          obtain x g1 where x: "wg_flush write_op g = (x, g1)" by fastforce
          note f = flush_spec [OF log(2,1) x]
          show ?thesis
          proof (cases x)
            case (Ok u)
            with f obtain b where b: "buf_wf b" "buf_bytes b = queue_bytes ?q" "invar (log @ [b]) (wg_w g1)" by auto
            have "wg_fill c bs g1 = (r, g')" using r Some big exact True x Ok by (simp add: wg_write_def)
            with fill [of g1 "log @ [b]"] f b chunks log(2,3) le True Some exact show ?thesis by simp
          qed (use r Some big exact True x f in \<open>auto simp: wg_write_def\<close>)
        next
          case False
          then have "wg_fill c bs g = (r, g')" using r Some big exact by (simp add: wg_write_def)
          with fill [of g log] Some exact log le chunks False show ?thesis by simp
        qed
      qed
    qed
  qed
qed

lemma writer_write_spec:
  assumes "wg_inv invar data g" "buf_wf bs" "wg_exact g \<longrightarrow> wg_chunk_size g \<noteq> Some 0"
  shows "\<exists>r g'. writer_write write_op bs g = Some (r, g')
    \<and> (r = Ok () \<longrightarrow> wg_inv invar (data @ buf_bytes bs) g' \<and> wg_chunk_size g' = wg_chunk_size g
         \<and> wg_exact g' = wg_exact g)"
  using assms
proof (induction "length (buf_bytes bs)" arbitrary: bs data g rule: less_induct)
  case less
  note unf = writer_write.simps [of write_op bs g]
  show ?case
  proof (cases "buf_bytes bs = []")
    case True
    with less.prems show ?thesis by (simp add: unf buf_is_empty_def)
  next
    case False
    obtain r g1 where w: "wg_write write_op bs g = (r, g1)" by fastforce
    note s = write_spec [OF less.prems(1,2) w]
    have ne: "\<not> buf_is_empty bs" using False less.prems(2) by (simp add: buf_is_empty_def)
    show ?thesis
    proof (cases r)
      case (Ok n)
      with s False less.prems(3) have n: "n \<le> buf_len bs" "0 < n"
        and inv: "wg_inv invar (data @ take n (buf_bytes bs)) g1"
        and g1: "wg_chunk_size g1 = wg_chunk_size g" "wg_exact g1 = wg_exact g" by auto
      obtain bs' where bs': "buf_advance n bs = Ok bs'" "buf_wf bs'" "buf_bytes bs' = drop n (buf_bytes bs)"
        using buf_advance_Ok [OF less.prems(2) n(1)] by blast
      have "length (buf_bytes bs') < length (buf_bytes bs)" using bs' n False by simp
      from less.hyps [OF this inv bs'(2)] obtain r' g' where
        "writer_write write_op bs' g1 = Some (r', g')"
        "r' = Ok () \<longrightarrow> wg_inv invar ((data @ take n (buf_bytes bs)) @ buf_bytes bs') g'
           \<and> wg_chunk_size g' = wg_chunk_size g1 \<and> wg_exact g' = wg_exact g1"
        using g1 less.prems(3) by auto
      with w Ok ne bs' g1 show ?thesis by (auto simp: unf)
    qed (use w ne in \<open>auto simp: unf\<close>)
  qed
qed

lemma close_spec:
  assumes inv: "wg_inv invar data g" and r: "wg_close write_op close_op g = (Ok (), g')"
  shows "wg_done committed (wg_chunk_size g) (wg_exact g) data (wg_w g')"
proof -
  obtain log where log: "invar log (wg_w g)" "queue_wf (wg_buffer g)"
    "log_bytes log @ queue_bytes (wg_buffer g) = data"
    "wg_shape (wg_chunk_size g) (wg_exact g) log (wg_buffer g)"
    using inv by (auto simp: wg_inv_def)
  have fin: "committed l (wg_w g')"
    if "wg_buffer h = []" "invar l (wg_w h)" "wg_close write_op close_op h = (Ok (), g')" for h l
  proof -
    obtain x s where "close_op (wg_w h) = (x, s)" by fastforce
    with that close_Ok show ?thesis
      by (auto simp: wg_close.simps [of write_op close_op h] queue_is_empty_def)
  qed
  show ?thesis
  proof (cases "wg_buffer g = []")
    case True
    with fin [OF True log(1) r] log show ?thesis
      by (auto simp: wg_done_def wg_shape_def list_all_iff split: option.splits if_splits
          dest: in_set_butlastD intro!: exI [of _ log])
  next
    case False
    obtain x g1 where x: "wg_flush write_op g = (x, g1)" by fastforce
    note f = flush_spec [OF log(2,1) x]
    have "\<not> queue_is_empty (wg_buffer g)" using False log(2) by (simp add: queue_is_empty_iff)
    with r x have cl: "x = Ok () \<and> wg_close write_op close_op g1 = (Ok (), g')"
      by (cases x) (auto simp: wg_close.simps [of write_op close_op g])
    with f obtain b where b: "buf_wf b" "buf_bytes b = queue_bytes (wg_buffer g)" "invar (log @ [b]) (wg_w g1)" by auto
    have "committed (log @ [b]) (wg_w g')" using fin [of g1 "log @ [b]"] f b cl by simp
    with b log False show ?thesis
      by (auto simp: wg_done_def wg_shape_def list_all_iff split: option.splits if_splits
          intro!: exI [of _ "log @ [b]"])
  qed
qed

end

text \<open>\<open>Writer\<close> over a list of user buffers: each is written in full, then the next.\<close>

fun writer_write_list ::
  "(buffer \<Rightarrow> 's \<Rightarrow> unit res \<times> 's) \<Rightarrow> buffer list \<Rightarrow> 's write_generator
     \<Rightarrow> (unit res \<times> 's write_generator) option" where
  "writer_write_list write_op [] g = Some (Ok (), g)"
| "writer_write_list write_op (b # bs) g =
     (case writer_write write_op b g of
        Some (Ok u, g') \<Rightarrow> writer_write_list write_op bs g'
      | r \<Rightarrow> r)"

context oio_write
begin

lemma writer_write_list_spec:
  assumes "wg_inv invar data g" "list_all buf_wf bs" "wg_exact g \<longrightarrow> wg_chunk_size g \<noteq> Some 0"
  shows "\<exists>r g'. writer_write_list write_op bs g = Some (r, g')
    \<and> (r = Ok () \<longrightarrow> wg_inv invar (data @ log_bytes bs) g' \<and> wg_chunk_size g' = wg_chunk_size g
         \<and> wg_exact g' = wg_exact g)"
  using assms
proof (induction bs arbitrary: data g)
  case (Cons b bs)
  then obtain r g1 where w: "writer_write write_op b g = Some (r, g1)"
    "r = Ok () \<longrightarrow> wg_inv invar (data @ buf_bytes b) g1 \<and> wg_chunk_size g1 = wg_chunk_size g
         \<and> wg_exact g1 = wg_exact g"
    using writer_write_spec [of data g b] by auto
  show ?case
  proof (cases r)
    case (Ok u)
    with w Cons.IH [of "data @ buf_bytes b" g1] Cons.prems show ?thesis
      by (auto simp: log_bytes_def)
  qed (use w in auto)
qed simp

end

subsection \<open>A chunk size of zero\<close>

lemma zero_round:
  assumes "wg_chunk_size g = Some 0" "wg_exact g" "wg_buffer g = []"
    "write_op buf_new (wg_w g) = (Ok (), s)"
  shows "wg_write write_op bs g = (Ok 0, g\<lparr>wg_w := s\<rparr>)"
proof -
  have "buf_len (buf_truncate 0 bs) = 0" by (cases bs) (simp_all add: buf_len_def buf_truncate_def)
  moreover have "g\<lparr>wg_buffer := [], wg_w := s\<rparr> = g\<lparr>wg_w := s\<rparr>" using assms(3) by (cases g) simp
  ultimately show ?thesis
    using assms
    by (simp add: wg_write_def wg_flush_def wg_fill_def queue_take_def queue_new_def queue_collect_def
        usize_sub_def queue_push_def buf_is_empty_def)
qed

lemma buf_advance_0 [simp]: "buf_advance 0 bs = Ok bs"
  by (cases bs) (simp_all add: buf_advance_def advance_loop.simps)

lemma writer_write_zero:
  fixes g :: "'s write_generator"
  assumes "\<And>s. \<exists>s'. write_op buf_new s = (Ok (), s')" "\<not> buf_is_empty bs"
    "wg_chunk_size g = Some 0" "wg_exact g" "wg_buffer g = []"
  shows "writer_write write_op bs g = None"
proof (rule ccontr)
  define stuck_at where "stuck_at w b h = (w = write_op \<and> b = bs \<and> wg_chunk_size h = Some 0
    \<and> wg_exact h \<and> wg_buffer h = [])" for w b and h :: "'s write_generator"
  assume "writer_write write_op bs g \<noteq> None"
  then obtain y where ret: "writer_write write_op bs g = Some y" by blast
  have "\<not> stuck_at write_op bs g"
  proof (rule writer_write.raw_induct [where P = "\<lambda>w b h y. \<not> stuck_at w b h", OF _ ret])
    fix f w b h y
    assume IH: "\<And>w b h y. f w b h = Some y \<Longrightarrow> \<not> stuck_at w b h"
      and step: "(if buf_is_empty b then Some (Ok (), h)
        else case wg_write w b h of
            (Ok n, g') \<Rightarrow> (case buf_advance n b of Ok bs' \<Rightarrow> f w bs' g'
               | Err e \<Rightarrow> Some (Err e, g') | Panic \<Rightarrow> Some (Panic, g'))
          | (Err e, g') \<Rightarrow> Some (Err e, g') | (Panic, g') \<Rightarrow> Some (Panic, g')) = Some y"
    show "\<not> stuck_at w b h"
    proof
      assume st: "stuck_at w b h"
      obtain s' where "write_op buf_new (wg_w h) = (Ok (), s')" using assms(1) by blast
      with st have "wg_write w b h = (Ok 0, h\<lparr>wg_w := s'\<rparr>)" by (simp add: zero_round stuck_at_def)
      with step st assms(2) have "f w b (h\<lparr>wg_w := s'\<rparr>) = Some y" by (simp add: stuck_at_def)
      from IH [OF this] st show False by (simp add: stuck_at_def)
    qed
  qed
  with assms(3-5) show False by (simp add: stuck_at_def)
qed

lemma chunked_write_done:
  assumes "oio_write write_op close_op invar committed" and "invar [] w"
    and "list_all buf_wf bs" and "exact \<longrightarrow> chunk_size \<noteq> Some 0"
  shows "\<exists>r g. writer_write_list write_op bs (wg_create w (chunk_size, exact)) = Some (r, g)
    \<and> (\<forall>g'. r = Ok () \<and> wg_close write_op close_op g = (Ok (), g')
        \<longrightarrow> wg_done committed chunk_size exact (log_bytes bs) (wg_w g'))"
proof -
  let ?g = "wg_create w (chunk_size, exact)"
  have g: "wg_inv invar [] ?g" "wg_exact ?g \<longrightarrow> wg_chunk_size ?g \<noteq> Some 0"
    "wg_chunk_size ?g = chunk_size" "wg_exact ?g = exact"
    using assms(2,4)
    by (auto simp: wg_inv_def wg_create_def wg_shape_def queue_new_def split: option.splits intro!: exI [of _ "[]"])
  obtain r g' where w: "writer_write_list write_op bs ?g = Some (r, g')"
    "r = Ok () \<longrightarrow> wg_inv invar ([] @ log_bytes bs) g' \<and> wg_chunk_size g' = chunk_size \<and> wg_exact g' = exact"
    using oio_write.writer_write_list_spec [OF assms(1) g(1) assms(3) g(2)] g(3,4) by auto
  then show ?thesis
    using oio_write.close_spec [OF assms(1), of "log_bytes bs" g'] by auto
qed

subsection \<open>Writers that do not fail\<close>

text \<open>
  A writer that accepts up to \<open>room\<close> bytes and closes: over it the generator and \<open>Writer::write\<close>
  succeed as long as the data fits.
\<close>

locale oio_write_total = oio_write +
  fixes room :: nat
  assumes write_total: "invar log s \<Longrightarrow> list_all buf_wf (log @ [b]) \<Longrightarrow> length (log_bytes (log @ [b])) \<le> room \<Longrightarrow>
      \<exists>s'. write_op b s = (Ok (), s')"
    and close_total: "invar log s \<Longrightarrow> list_all buf_wf log \<Longrightarrow> \<exists>s'. close_op s = (Ok (), s')"
begin

lemma flush_total:
  assumes "queue_wf (wg_buffer g)" "invar log (wg_w g)" "list_all buf_wf log"
    and "length (log_bytes log @ queue_bytes (wg_buffer g)) \<le> room"
  shows "\<exists>g'. wg_flush write_op g = (Ok (), g')"
proof -
  obtain b where b: "queue_collect (wg_buffer g) = Ok b" "buf_wf b" "buf_bytes b = queue_bytes (wg_buffer g)"
    using queue_collect_Ok assms(1) by blast
  from write_total [OF assms(2), of b] assms(3,4) b obtain s where "write_op b (wg_w g) = (Ok (), s)" by auto
  with b show ?thesis by (simp add: wg_flush_def queue_take_def)
qed

lemma generator_write_total:
  assumes "wg_inv invar data g" "buf_wf bs" "length (data @ buf_bytes bs) \<le> room"
  shows "\<exists>n g'. wg_write write_op bs g = (Ok n, g')"
proof -
  obtain log where log: "invar log (wg_w g)" "queue_wf (wg_buffer g)" "list_all buf_wf log"
    "log_bytes log @ queue_bytes (wg_buffer g) = data"
    "wg_shape (wg_chunk_size g) (wg_exact g) log (wg_buffer g)"
    using assms(1) by (auto simp: wg_inv_def wg_shape_def)
  show ?thesis
  proof (cases "wg_chunk_size g")
    case None
    then have "log_bytes log = data" using log(4,5) by (simp add: wg_shape_def)
    with write_total [OF log(1), of bs] assms(2,3) log(3) obtain s where "write_op bs (wg_w g) = (Ok (), s)" by auto
    with None show ?thesis by (simp add: wg_write_def)
  next
    case (Some c)
    let ?g = "g\<lparr>wg_buffer := queue_push bs (wg_buffer g)\<rparr>"
    have push: "\<exists>g'. wg_flush write_op ?g = (Ok (), g')"
      using flush_total [of ?g log] log assms(2,3) by auto
    have flush: "\<exists>g'. wg_flush write_op g = (Ok (), g')"
      using flush_total [of g log] log assms(3) by auto
    have fill: "\<exists>n g'. wg_fill c bs h = (Ok n, g')"
      if "queue_wf (wg_buffer h)" "length (queue_bytes (wg_buffer h)) \<le> c" for h :: "'a write_generator"
      using fill_spec [OF that(1) assms(2) that(2) refl] by auto
    show ?thesis
    proof (cases "queue_len (wg_buffer g) + buf_len bs < c \<or> \<not> wg_exact g")
      case True
      with push Some show ?thesis by (auto simp: wg_write_def)
    next
      case False
      with log(5) Some have le: "length (queue_bytes (wg_buffer g)) \<le> c" by (simp add: wg_shape_def)
      obtain g1 where g1: "wg_flush write_op g = (Ok (), g1)" using flush by blast
      from fill [of g1] fill [OF log(2) le] wg_flush_buffer [OF g1] g1 False Some show ?thesis
        by (auto simp: wg_write_def)
    qed
  qed
qed

lemma writer_write_total:
  assumes "wg_inv invar data g" "buf_wf bs" "wg_exact g \<longrightarrow> wg_chunk_size g \<noteq> Some 0"
    and "length (data @ buf_bytes bs) \<le> room"
  shows "\<exists>g'. writer_write write_op bs g = Some (Ok (), g') \<and> wg_inv invar (data @ buf_bytes bs) g'
    \<and> wg_chunk_size g' = wg_chunk_size g \<and> wg_exact g' = wg_exact g"
  using assms
proof (induction "length (buf_bytes bs)" arbitrary: bs data g rule: less_induct)
  case less
  note unf = writer_write.simps [of write_op bs g]
  show ?case
  proof (cases "buf_bytes bs = []")
    case True
    with less.prems show ?thesis by (simp add: unf buf_is_empty_def)
  next
    case False
    obtain n g1 where w: "wg_write write_op bs g = (Ok n, g1)"
      using generator_write_total [OF less.prems(1,2,4)] by blast
    from write_spec [OF less.prems(1,2) w] False less.prems(3) have n: "n \<le> buf_len bs" "0 < n"
      and inv: "wg_inv invar (data @ take n (buf_bytes bs)) g1"
      and g1: "wg_chunk_size g1 = wg_chunk_size g" "wg_exact g1 = wg_exact g" by auto
    obtain bs' where bs': "buf_advance n bs = Ok bs'" "buf_wf bs'" "buf_bytes bs' = drop n (buf_bytes bs)"
      using buf_advance_Ok [OF less.prems(2) n(1)] by blast
    have "length (buf_bytes bs') < length (buf_bytes bs)" using bs' n False by simp
    moreover have "(data @ take n (buf_bytes bs)) @ buf_bytes bs' = data @ buf_bytes bs" using bs'(3) by simp
    ultimately obtain g' where "writer_write write_op bs' g1 = Some (Ok (), g')" "wg_inv invar (data @ buf_bytes bs) g'"
      "wg_chunk_size g' = wg_chunk_size g1" "wg_exact g' = wg_exact g1"
      using less.hyps [OF _ inv bs'(2)] g1 less.prems(3,4) by metis
    with w bs' g1 False less.prems(2) show ?thesis by (auto simp: unf buf_is_empty_def)
  qed
qed

lemma generator_close_total:
  assumes "wg_inv invar data g" "length data \<le> room"
  shows "\<exists>g'. wg_close write_op close_op g = (Ok (), g')"
proof -
  obtain log where log: "invar log (wg_w g)" "queue_wf (wg_buffer g)" "list_all buf_wf log"
    "log_bytes log @ queue_bytes (wg_buffer g) = data"
    using assms(1) by (auto simp: wg_inv_def wg_shape_def)
  have fin: "\<exists>g'. wg_close write_op close_op h = (Ok (), g')"
    if "wg_buffer h = []" "invar l (wg_w h)" "list_all buf_wf l" for h l
    using that close_total [OF that(2,3)] by (auto simp: wg_close.simps [of write_op close_op h] queue_is_empty_def)
  show ?thesis
  proof (cases "wg_buffer g = []")
    case True
    then show ?thesis using fin log by blast
  next
    case False
    obtain g1 where g1: "wg_flush write_op g = (Ok (), g1)" using flush_total [OF log(2,1,3)] log(4) assms(2) by auto
    from flush_spec [OF log(2,1) g1] obtain b where b: "buf_wf b" "invar (log @ [b]) (wg_w g1)" "wg_buffer g1 = []" by auto
    have "\<not> queue_is_empty (wg_buffer g)" using False log(2) by (simp add: queue_is_empty_iff)
    with g1 fin [OF b(3,2)] b(1) log(3) show ?thesis by (simp add: wg_close.simps [of write_op close_op g])
  qed
qed

end

lemma total_write_done:
  assumes "oio_write_total write_op close_op invar committed room" and "invar [] w"
    and "buf_wf bs" "exact \<longrightarrow> chunk_size \<noteq> Some 0" "length (buf_bytes bs) \<le> room"
  shows "\<exists>g g'. writer_write write_op bs (wg_create w (chunk_size, exact)) = Some (Ok (), g)
    \<and> wg_close write_op close_op g = (Ok (), g') \<and> wg_done committed chunk_size exact (buf_bytes bs) (wg_w g')"
proof -
  have ow: "oio_write write_op close_op invar committed" using assms(1) unfolding oio_write_total_def by blast
  let ?g = "wg_create w (chunk_size, exact)"
  have g: "wg_inv invar [] ?g" "wg_exact ?g \<longrightarrow> wg_chunk_size ?g \<noteq> Some 0"
    "wg_chunk_size ?g = chunk_size" "wg_exact ?g = exact"
    using assms(2,4)
    by (auto simp: wg_inv_def wg_create_def wg_shape_def queue_new_def split: option.splits intro!: exI [of _ "[]"])
  obtain g1 where g1: "writer_write write_op bs ?g = Some (Ok (), g1)" "wg_inv invar (buf_bytes bs) g1"
    "wg_chunk_size g1 = chunk_size" "wg_exact g1 = exact"
    using oio_write_total.writer_write_total [OF assms(1) g(1) assms(3) g(2)] assms(5) g(3,4) by auto
  moreover obtain g2 where "wg_close write_op close_op g1 = (Ok (), g2)"
    using oio_write_total.generator_close_total [OF assms(1) g1(2) assms(5)] by blast
  ultimately show ?thesis using oio_write.close_spec [OF ow, of "buf_bytes bs" g1 g2] by auto
qed

subsection \<open>Properties\<close>

text \<open>
  C14. Chunked writes lose nothing and keep their shape: over any writer that meets the
  interface, writing well-formed user buffers through a generator (with a chunk size that
  is not an exact zero) always returns; if the writes and the final close succeed, the
  writer has committed buffers whose concatenation is the user's data in order. With an
  exact chunk size every committed buffer but the last has exactly that many bytes and the
  last no more; with a minimum chunk size every one but the last has at least that many.
\<close>

theorem chunked_write_commits:
  assumes "oio_write write_op close_op invar committed" and "invar [] w"
    and "list_all buf_wf bs" and "exact \<longrightarrow> chunk_size \<noteq> Some 0"
  shows "\<exists>r g. writer_write_list write_op bs (wg_create w (chunk_size, exact)) = Some (r, g)
    \<and> (\<forall>g'. r = Ok () \<and> wg_close write_op close_op g = (Ok (), g')
        \<longrightarrow> wg_done committed chunk_size exact (log_bytes bs) (wg_w g'))"
  using assms by (rule chunked_write_done)

text \<open>A writer that keeps its log, for concrete runs.\<close>

definition log_write :: "buffer \<Rightarrow> buffer list \<Rightarrow> unit res \<times> buffer list" where
  "log_write b s = (Ok (), s @ [b])"

definition log_close :: "buffer list \<Rightarrow> unit res \<times> buffer list" where
  "log_close s = (Ok (), s)"

interpretation logw: oio_write_retry log_write log_close "(=)" "(=)"
  by unfold_locales (auto simp: log_write_def log_close_def)

theorem chunked_write_commits_witness:
  "\<exists>r g. writer_write_list log_write [Contiguous [1, 2, 3]] (wg_create [] (Some 2, True)) = Some (r, g)
    \<and> (\<forall>g'. r = Ok () \<and> wg_close log_write log_close g = (Ok (), g')
        \<longrightarrow> wg_done (=) (Some 2) True [1, 2, 3] (wg_w g'))"
proof -
  have "list_all buf_wf [Contiguous [1, 2, 3]]" "[] = []" "True \<longrightarrow> Some 2 \<noteq> Some (0 :: nat)" by simp_all
  from chunked_write_commits [OF logw.oio_write_axioms this(2,1,3)] show ?thesis
    by (simp add: log_bytes_def)
qed

text \<open>
  A failed flush drops the buffered bytes: when the writer of the service refuses the
  collected buffer, the generator reports the error with an empty buffer, in the exact mode
  and in the other, and also on closing; a second close then closes the writer without
  those bytes.
\<close>

theorem failed_flush_drops_buffer:
  assumes "queue_collect q = Ok buf" and "write_op buf s = (Err e, s')" and "\<not> queue_is_empty q"
    and "close_op s' = (Ok (), s'')"
  shows "wg_close write_op close_op \<lparr>wg_w = s, wg_chunk_size = c, wg_exact = exact, wg_buffer = q\<rparr>
      = (Err e, \<lparr>wg_w = s', wg_chunk_size = c, wg_exact = exact, wg_buffer = []\<rparr>)
    \<and> wg_close write_op close_op \<lparr>wg_w = s', wg_chunk_size = c, wg_exact = exact, wg_buffer = []\<rparr>
      = (Ok (), \<lparr>wg_w = s'', wg_chunk_size = c, wg_exact = exact, wg_buffer = []\<rparr>)
    \<and> (queue_len q = n \<longrightarrow>
        wg_write write_op bs \<lparr>wg_w = s, wg_chunk_size = Some n, wg_exact = True, wg_buffer = q\<rparr>
      = (Err e, \<lparr>wg_w = s', wg_chunk_size = Some n, wg_exact = True, wg_buffer = []\<rparr>))"
  using assms
  by (simp add: wg_close.simps wg_write_def wg_flush_def queue_take_def queue_new_def queue_is_empty_def)

theorem failed_flush_drops_buffer_witness:
  "wg_close (\<lambda>b s. (Err ct_error, s)) log_close
      \<lparr>wg_w = [], wg_chunk_size = Some 4, wg_exact = True, wg_buffer = [Contiguous [1, 2]]\<rparr>
    = (Err ct_error, \<lparr>wg_w = [], wg_chunk_size = Some 4, wg_exact = True, wg_buffer = []\<rparr>)"
proof -
  have "queue_collect [Contiguous [1, 2]] = Ok (Contiguous [1, 2])" "\<not> queue_is_empty [Contiguous [1, 2]]"
    "log_close [] = (Ok (), [])"
    by (simp_all add: queue_collect_def queue_is_empty_def log_close_def)
  from failed_flush_drops_buffer [of "[Contiguous [1, 2]]" "Contiguous [1, 2]" "\<lambda>b s. (Err ct_error, s)"
      "[]" ct_error "[]" log_close "[]", OF this(1) _ this(2,3)]
  show ?thesis by simp
qed

text \<open>
  A chunk size of zero: \<open>OpWriter::with_chunk\<close> accepts it, and unless the service has a
  minimum part size the generator is created with an exact chunk size of zero. If the
  writer accepts empty buffers, writing any non-empty buffer then never returns: every
  round sends an empty buffer and accepts no byte.
\<close>

theorem zero_chunk_diverges:
  assumes "\<forall>s. \<exists>s'. write_op buf_new s = (Ok (), s')" and "\<not> buf_is_empty bs"
    and "cap_write_multi_min_size cap = None"
  shows "calculate_chunk_size (opw_with_chunk 0 options) cap = (Some 0, True)
    \<and> writer_write write_op bs (wg_create w (calculate_chunk_size (opw_with_chunk 0 options) cap)) = None"
proof -
  have "calculate_chunk_size (opw_with_chunk 0 options) cap = (Some 0, True)"
    using assms(3) by (simp add: calculate_chunk_size_def opw_with_chunk_def or_else_def split: option.splits)
  with writer_write_zero [of write_op bs "wg_create w (Some 0, True)"] assms(1,2) show ?thesis
    by (simp add: wg_create_def queue_new_def)
qed

theorem zero_chunk_diverges_witness:
  "writer_write log_write (Contiguous [1]) (wg_create []
     (calculate_chunk_size (opw_with_chunk 0 \<lparr>opw_chunk = None\<rparr>)
       capability_default)) = None"
proof -
  have "\<forall>s. \<exists>s'. log_write buf_new s = (Ok (), s')" "\<not> buf_is_empty (Contiguous [1])"
    "cap_write_multi_min_size capability_default = None"
    by (simp_all add: log_write_def buf_is_empty_def capability_default_def)
  from zero_chunk_diverges [of log_write "Contiguous [1]"
      "capability_default", OF this]
  show ?thesis by blast
qed

end
