(* ===== verification/Readers.thy ===== *)
theory Readers
  imports Queues Tasks
begin

text \<open>
  Reading: the generator that cuts a range into requests (\<^verbatim>\<open>core/src/types/context/read.rs\<close>),
  the two readers over it and the stream they feed
  (\<^verbatim>\<open>core/src/types/read/buffer_stream.rs\<close>), \<open>Reader\<close> with \<open>read\<close>, \<open>read_into\<close> and \<open>fetch\<close>
  (\<^verbatim>\<open>core/src/types/read/reader.rs\<close>), and the seekable adapter
  (\<^verbatim>\<open>core/src/types/read/futures_async_reader.rs\<close>).

  The service is the record \<open>read_ops\<close> over a world \<open>'w\<close>. A reader it hands out, an
  \<^verbatim>\<open>oio::Reader\<close>, is the finite list of what its successive \<open>read\<close> calls return; after its
  end every call returns the empty buffer. The locale \<open>accessor\<close> states the documented
  behaviour of a service: what a reader returns, up to its first error, is the requested
  range of the object, and a request inside the object does not panic. Sizes and offsets are 64-bit words; \<^verbatim>\<open>usize\<close> options that the code
  casts with \<^verbatim>\<open>as u64\<close> are 64-bit words too.
\<close>

subsection \<open>Readers of a service\<close>

type_synonym oio_reader = "(error + buffer) list"

fun oio_read :: "oio_reader \<Rightarrow> (error + buffer) \<times> oio_reader" where
  "oio_read [] = (Inr buf_new, [])"
| "oio_read (x # r) = (x, r)"

definition collect_bufs :: "buffer list \<Rightarrow> buffer res" where
  "collect_bufs bufs = and_then (queue_flatten bufs) (\<lambda>cs. Ok (buf_from_iter cs))"

fun read_all_loop :: "buffer list \<Rightarrow> oio_reader \<Rightarrow> buffer res \<times> oio_reader" where
  "read_all_loop bufs [] = (collect_bufs bufs, [])"
| "read_all_loop bufs (Inr buf # r) =
     (if buf_is_empty buf then (collect_bufs bufs, r) else read_all_loop (bufs @ [buf]) r)"
| "read_all_loop bufs (Inl err # r) = (Err err, r)"

definition oio_read_all :: "oio_reader \<Rightarrow> buffer res \<times> oio_reader" where
  "oio_read_all r = read_all_loop [] r"

record 'w read_ops =
  ra_read :: "bytes_range \<Rightarrow> 'w \<Rightarrow> oio_reader res \<times> 'w"
  ra_stat :: "'w \<Rightarrow> u64 res \<times> 'w"
  ra_delay :: "'w \<Rightarrow> nat \<times> 'w"

subsection \<open>\<open>OpReader\<close>\<close>

record op_reader =
  or_concurrent :: nat
  or_chunk :: "u64 option"
  or_gap :: "u64 option"

definition or_new :: op_reader where
  "or_new = \<lparr>or_concurrent = 1, or_chunk = None, or_gap = None\<rparr>"

definition or_with_concurrent :: "nat \<Rightarrow> op_reader \<Rightarrow> op_reader" where
  "or_with_concurrent concurrent o' = o'\<lparr>or_concurrent := max concurrent 1\<rparr>"

definition or_with_chunk :: "u64 \<Rightarrow> op_reader \<Rightarrow> op_reader" where
  "or_with_chunk chunk o' = o'\<lparr>or_chunk := Some (max chunk 1)\<rparr>"

definition or_with_gap :: "u64 \<Rightarrow> op_reader \<Rightarrow> op_reader" where
  "or_with_gap gap o' = o'\<lparr>or_gap := Some (max gap 1)\<rparr>"

subsection \<open>\<open>ReadContext\<close> and \<open>ReadGenerator\<close>\<close>

definition start_of :: "u64 bound \<Rightarrow> u64 res" where
  "start_of sb = (case sb of Included v \<Rightarrow> Ok v | Excluded v \<Rightarrow> u64_add v 1 | Unbounded \<Rightarrow> Ok 0)"

definition parse_into_range ::
  "'w read_ops \<Rightarrow> u64 bound \<Rightarrow> u64 bound \<Rightarrow> 'w \<Rightarrow> (u64 \<times> u64) res \<times> 'w" where
  "parse_into_range ops sb eb w =
     (case start_of sb of
        Ok start \<Rightarrow>
          (case eb of
             Included v \<Rightarrow> (and_then (u64_add v 1) (\<lambda>e. Ok (start, e)), w)
           | Excluded v \<Rightarrow> (Ok (start, v), w)
           | Unbounded \<Rightarrow>
               (case ra_stat ops w of
                  (Ok n, w') \<Rightarrow> (Ok (start, n), w')
                | (Err err, w') \<Rightarrow> (Err err, w')
                | (Panic, w') \<Rightarrow> (Panic, w')))
      | Err err \<Rightarrow> (Err err, w)
      | Panic \<Rightarrow> (Panic, w))"

record read_generator =
  rg_offset :: u64
  rg_size :: "u64 option"

definition rg_new :: "u64 \<Rightarrow> u64 option \<Rightarrow> read_generator" where
  "rg_new offset sz = \<lparr>rg_offset = offset, rg_size = sz\<rparr>"

definition rg_next_range :: "op_reader \<Rightarrow> read_generator \<Rightarrow> (bytes_range option \<times> read_generator) res"
  where
  "rg_next_range opts g =
     (if rg_size g = Some 0 then Ok (None, g)
      else case rg_size g of
          None \<Rightarrow> Ok (Some (BytesRange (rg_offset g) None), g\<lparr>rg_size := Some 0\<rparr>)
        | Some remaining \<Rightarrow>
            (let read_size = (case or_chunk opts of None \<Rightarrow> remaining | Some chunk \<Rightarrow> min remaining chunk) in
             and_then (u64_add (rg_offset g) read_size) (\<lambda>offset'.
             and_then (u64_sub remaining read_size) (\<lambda>remaining'.
               Ok (Some (BytesRange (rg_offset g) (Some read_size)),
                   \<lparr>rg_offset = offset', rg_size = Some remaining'\<rparr>)))))"

definition rg_next_reader ::
  "'w read_ops \<Rightarrow> op_reader \<Rightarrow> read_generator \<Rightarrow> 'w \<Rightarrow> oio_reader option res \<times> read_generator \<times> 'w" where
  "rg_next_reader ops opts g w =
     (case rg_next_range opts g of
        Ok (None, g') \<Rightarrow> (Ok None, g', w)
      | Ok (Some rng, g') \<Rightarrow>
          (case ra_read ops rng w of
             (Ok r, w') \<Rightarrow> (Ok (Some r), g', w')
           | (Err err, w') \<Rightarrow> (Err err, g', w')
           | (Panic, w') \<Rightarrow> (Panic, g', w'))
      | Err err \<Rightarrow> (Err err, g, w)
      | Panic \<Rightarrow> (Panic, g, w))"

subsection \<open>\<open>StreamingReader\<close>\<close>

record streaming_reader =
  sr_generator :: read_generator
  sr_reader :: "oio_reader option"

definition sr_new :: "bytes_range \<Rightarrow> streaming_reader" where
  "sr_new rng = \<lparr>sr_generator = rg_new (br_offset rng) (br_size rng), sr_reader = None\<rparr>"

partial_function (option) sr_read ::
  "'w read_ops \<Rightarrow> op_reader \<Rightarrow> streaming_reader \<Rightarrow> 'w \<Rightarrow> (buffer res \<times> streaming_reader \<times> 'w) option" where
  "sr_read ops opts st w =
     (case (case sr_reader st of
              Some r \<Rightarrow> (Ok (Some r), sr_generator st, w)
            | None \<Rightarrow> rg_next_reader ops opts (sr_generator st) w) of
        (Err err, g, w1) \<Rightarrow> Some (Err err, st\<lparr>sr_generator := g\<rparr>, w1)
      | (Panic, g, w1) \<Rightarrow> Some (Panic, st\<lparr>sr_generator := g\<rparr>, w1)
      | (Ok None, g, w1) \<Rightarrow> Some (Ok buf_new, st\<lparr>sr_generator := g\<rparr>, w1)
      | (Ok (Some r), g, w1) \<Rightarrow>
          (case oio_read r of
             (Inl err, r') \<Rightarrow> Some (Err err, \<lparr>sr_generator = g, sr_reader = Some r'\<rparr>, w1)
           | (Inr buf, r') \<Rightarrow>
               if buf_is_empty buf
               then sr_read ops opts \<lparr>sr_generator = g, sr_reader = None\<rparr> w1
               else Some (Ok buf, \<lparr>sr_generator = g, sr_reader = Some r'\<rparr>, w1)))"

declare sr_read.simps [code]

subsection \<open>\<open>ChunkedReader\<close>\<close>

record chunked_reader =
  cr_generator :: read_generator
  cr_tasks :: "(oio_reader, buffer) concurrent_tasks"
  cr_done :: bool

definition cr_new :: "op_reader \<Rightarrow> bytes_range \<Rightarrow> chunked_reader" where
  "cr_new opts rng =
     \<lparr>cr_generator = rg_new (br_offset rng) (br_size rng),
      cr_tasks = ct_new (or_concurrent opts), cr_done = False\<rparr>"

text \<open>
  The factory: a task reads its reader to the end and gives it back with the result. A panic
  inside \<open>read_all\<close> does not occur for well-formed buffers; it is the error value
  \<open>task_panicked\<close> so that a task always has an output.
\<close>

definition task_panicked :: error where
  "task_panicked = new_error Unexpected ''task panicked''"

definition cr_spawn :: "'w read_ops \<Rightarrow> (oio_reader, buffer, 'w) spawn" where
  "cr_spawn ops r w =
     (let (res, r') = oio_read_all r; (d, w') = ra_delay ops w in
      (Task r d (r', case res of Ok b \<Rightarrow> Inr b | Err e \<Rightarrow> Inl e | Panic \<Rightarrow> Inl task_panicked), w'))"

lemma ct_execute_loop_grows:
  "ct_execute_loop spawn i st w = (Ok u, st', w') \<Longrightarrow> ct_results st' = [] \<Longrightarrow>
     ct_results st = [] \<and> ct_cap st' = ct_cap st \<and> length (ct_tasks st') = Suc (length (ct_tasks st))"
proof (induction "length (ct_tasks st)" arbitrary: st rule: less_induct)
  case less
  note unf = ct_execute_loop.simps [of spawn i st w]
  obtain polled st1 where p: "ct_poll_front st = (polled, st1)" by fastforce
  have polled: "polled = None"
    using less.prems(1) p by (cases polled) (auto simp: unf split: prod.splits)
  have st1: "ct_cap st1 = ct_cap st" "ct_results st1 = [] \<longrightarrow>
      ct_results st = [] \<and> length (ct_tasks st1) = length (ct_tasks st)"
    using p by (auto simp: ct_poll_front_def ct_pop_push_def
        split: list.splits if_splits prod.splits sum.splits)
  show ?case
  proof (cases "length (ct_tasks st1) < ct_cap st1")
    case True
    then obtain t where "st' = st1\<lparr>ct_tasks := ct_tasks st1 @ [t]\<rparr>"
      using less.prems(1) p polled by (auto simp: unf split: prod.splits)
    with st1 less.prems(2) show ?thesis by simp
  next
    case False
    then obtain t ts j out where t: "ct_tasks st1 = t # ts" "task_output t = (j, Inr out)"
      and rec: "ct_execute_loop spawn i (ct_pop_push out st1) w = (Ok u, st', w')"
      using less.prems(1) p polled
      by (auto simp: unf Let_def split: list.splits prod.splits sum.splits)
    have "length (ct_tasks (ct_pop_push out st1)) < length (ct_tasks st)"
      using t ct_poll_front_length [OF p] by (simp add: ct_pop_push_def)
    from less.hyps [OF this rec less.prems(2)] show ?thesis by (simp add: ct_pop_push_def)
  qed
qed

lemma ct_execute_grows:
  "ct_execute spawn i st w = (Ok u, st', w') \<Longrightarrow> ct_results st' = [] \<Longrightarrow>
     ct_cap st' = ct_cap st \<and> length (ct_tasks st') = Suc (length (ct_tasks st))"
  using ct_execute_loop_grows [of spawn i st w u st' w']
  by (auto simp: ct_execute_def split: if_splits prod.splits sum.splits)

text \<open>The \<open>while\<close> loop of \<open>read\<close>, which starts tasks until one has a result.\<close>

function cr_fill ::
  "'w read_ops \<Rightarrow> op_reader \<Rightarrow> chunked_reader \<Rightarrow> 'w \<Rightarrow> unit res \<times> chunked_reader \<times> 'w" where
  "cr_fill ops opts st w =
     (if ct_has_remaining (cr_tasks st) \<and> \<not> cr_done st then
        (case rg_next_reader ops opts (cr_generator st) w of
           (Ok (Some r), g, w1) \<Rightarrow>
             (case ct_execute (cr_spawn ops) r (cr_tasks st) w1 of
                (Ok u, ts, w2) \<Rightarrow>
                  if ct_has_result ts then (Ok (), st\<lparr>cr_generator := g, cr_tasks := ts\<rparr>, w2)
                  else cr_fill ops opts (st\<lparr>cr_generator := g, cr_tasks := ts\<rparr>) w2
              | (Err e, ts, w2) \<Rightarrow> (Err e, st\<lparr>cr_generator := g, cr_tasks := ts\<rparr>, w2)
              | (Panic, ts, w2) \<Rightarrow> (Panic, st\<lparr>cr_generator := g, cr_tasks := ts\<rparr>, w2))
         | (Ok None, g, w1) \<Rightarrow> (Ok (), st\<lparr>cr_generator := g, cr_done := True\<rparr>, w1)
         | (Err e, g, w1) \<Rightarrow> (Err e, st\<lparr>cr_generator := g\<rparr>, w1)
         | (Panic, g, w1) \<Rightarrow> (Panic, st\<lparr>cr_generator := g\<rparr>, w1))
      else (Ok (), st, w))"
  by pat_completeness auto
termination
  by (relation "measure (\<lambda>(ops, opts, st, w). ct_cap (cr_tasks st) - length (ct_tasks (cr_tasks st)))")
    (auto simp: ct_has_remaining_def ct_has_result_def dest!: ct_execute_grows [OF sym])

declare cr_fill.simps [simp del]

definition cr_read ::
  "'w read_ops \<Rightarrow> op_reader \<Rightarrow> chunked_reader \<Rightarrow> 'w \<Rightarrow> buffer res \<times> chunked_reader \<times> 'w" where
  "cr_read ops opts st w =
     (case cr_fill ops opts st w of
        (Ok u, st1, w1) \<Rightarrow>
          (case ct_next (cr_spawn ops) (cr_tasks st1) w1 of
             (None, ts, w2) \<Rightarrow> (Ok buf_new, st1\<lparr>cr_tasks := ts\<rparr>, w2)
           | (Some (Inr buf), ts, w2) \<Rightarrow> (Ok buf, st1\<lparr>cr_tasks := ts\<rparr>, w2)
           | (Some (Inl e), ts, w2) \<Rightarrow> (Err e, st1\<lparr>cr_tasks := ts\<rparr>, w2))
      | (Err e, st1, w1) \<Rightarrow> (Err e, st1, w1)
      | (Panic, st1, w1) \<Rightarrow> (Panic, st1, w1))"

subsection \<open>\<open>BufferStream\<close>\<close>

text \<open>
  A stream holds one of the two readers. \<open>poll_next\<close> starts a read when the stream is idle and
  polls the started future otherwise, which a pending poll leaves in place: one completed
  \<open>poll_next\<close> is one completed read, the operation \<open>bs_next\<close>. The end of the stream is
  \<open>Ok None\<close>, an item that is an error is \<open>Err\<close>.
\<close>

datatype buffer_stream = One streaming_reader | Two chunked_reader

definition bs_of_range :: "op_reader \<Rightarrow> bytes_range \<Rightarrow> buffer_stream" where
  "bs_of_range opts rng =
     (if or_chunk opts \<noteq> None then Two (cr_new opts rng) else One (sr_new rng))"

definition bs_new :: "op_reader \<Rightarrow> u64 \<Rightarrow> u64 option \<Rightarrow> buffer_stream res" where
  "bs_new opts offset sz =
     guard (sz \<noteq> None \<or> or_chunk opts = None) (Ok (bs_of_range opts (BytesRange offset sz)))"

definition bs_create ::
  "'w read_ops \<Rightarrow> op_reader \<Rightarrow> u64 bound \<Rightarrow> u64 bound \<Rightarrow> 'w \<Rightarrow> buffer_stream res \<times> 'w" where
  "bs_create ops opts sb eb w =
     (if or_chunk opts \<noteq> None then
        (case parse_into_range ops sb eb w of
           (Ok (start, e), w1) \<Rightarrow>
             (and_then (br_from_bounds (Included start) (Excluded e)) (\<lambda>rng.
                Ok (Two (cr_new opts rng))), w1)
         | (Err err, w1) \<Rightarrow> (Err err, w1)
         | (Panic, w1) \<Rightarrow> (Panic, w1))
      else (and_then (br_from_bounds sb eb) (\<lambda>rng. Ok (One (sr_new rng))), w))"

fun bs_read ::
  "'w read_ops \<Rightarrow> op_reader \<Rightarrow> buffer_stream \<Rightarrow> 'w \<Rightarrow> (buffer res \<times> buffer_stream \<times> 'w) option" where
  "bs_read ops opts (One st) w = map_option (\<lambda>(r, st', w'). (r, One st', w')) (sr_read ops opts st w)"
| "bs_read ops opts (Two st) w = (let (r, st', w') = cr_read ops opts st w in Some (r, Two st', w'))"

definition bs_next ::
  "'w read_ops \<Rightarrow> op_reader \<Rightarrow> buffer_stream \<Rightarrow> 'w \<Rightarrow> (buffer option res \<times> buffer_stream \<times> 'w) option"
  where
  "bs_next ops opts bs w =
     map_option (\<lambda>(r, bs', w').
       (case r of
          Ok buf \<Rightarrow> if buf_is_empty buf then Ok None else Ok (Some buf)
        | Err err \<Rightarrow> Err err
        | Panic \<Rightarrow> Panic, bs', w')) (bs_read ops opts bs w)"

subsection \<open>\<open>Reader\<close>\<close>

text \<open>\<^verbatim>\<open>TryStreamExt::try_collect\<close>: the items up to the end, or the first error.\<close>

partial_function (option) try_collect ::
  "'w read_ops \<Rightarrow> op_reader \<Rightarrow> buffer list \<Rightarrow> buffer_stream \<Rightarrow> 'w \<Rightarrow> (buffer list res \<times> 'w) option" where
  "try_collect ops opts bufs bs w =
     (case bs_next ops opts bs w of
        None \<Rightarrow> None
      | Some (Ok (Some buf), bs', w') \<Rightarrow> try_collect ops opts (bufs @ [buf]) bs' w'
      | Some (Ok None, bs', w') \<Rightarrow> Some (Ok bufs, w')
      | Some (Err err, bs', w') \<Rightarrow> Some (Err err, w')
      | Some (Panic, bs', w') \<Rightarrow> Some (Panic, w'))"

declare try_collect.simps [code]

definition reader_read ::
  "'w read_ops \<Rightarrow> op_reader \<Rightarrow> u64 bound \<Rightarrow> u64 bound \<Rightarrow> 'w \<Rightarrow> (buffer res \<times> 'w) option" where
  "reader_read ops opts sb eb w =
     (case bs_create ops opts sb eb w of
        (Ok bs, w1) \<Rightarrow>
          map_option (\<lambda>(r, w2). (and_then r collect_bufs, w2)) (try_collect ops opts [] bs w1)
      | (Err err, w1) \<Rightarrow> Some (Err err, w1)
      | (Panic, w1) \<Rightarrow> Some (Panic, w1))"

text \<open>The loop of \<open>read_into\<close>: the count so far, and the target as the bytes put into it.\<close>

partial_function (option) read_into_loop ::
  "'w read_ops \<Rightarrow> op_reader \<Rightarrow> nat \<Rightarrow> bytes \<Rightarrow> buffer_stream \<Rightarrow> 'w \<Rightarrow> (nat res \<times> bytes \<times> 'w) option" where
  "read_into_loop ops opts n dst bs w =
     (case bs_next ops opts bs w of
        None \<Rightarrow> None
      | Some (Ok (Some buf), bs', w') \<Rightarrow>
          (case drain_buf buf_len buf_chunk buf_advance dst buf of
             None \<Rightarrow> None
           | Some (Ok dst') \<Rightarrow> read_into_loop ops opts (n + buf_len buf) dst' bs' w'
           | Some (Err err) \<Rightarrow> Some (Err err, dst, w')
           | Some Panic \<Rightarrow> Some (Panic, dst, w'))
      | Some (Ok None, bs', w') \<Rightarrow> Some (Ok n, dst, w')
      | Some (Err err, bs', w') \<Rightarrow> Some (Err err, dst, w')
      | Some (Panic, bs', w') \<Rightarrow> Some (Panic, dst, w'))"

declare read_into_loop.simps [code]

definition reader_read_into ::
  "'w read_ops \<Rightarrow> op_reader \<Rightarrow> bytes \<Rightarrow> u64 bound \<Rightarrow> u64 bound \<Rightarrow> 'w \<Rightarrow> (nat res \<times> bytes \<times> 'w) option" where
  "reader_read_into ops opts dst sb eb w =
     (case bs_create ops opts sb eb w of
        (Ok bs, w1) \<Rightarrow> read_into_loop ops opts 0 dst bs w1
      | (Err err, w1) \<Rightarrow> Some (Err err, dst, w1)
      | (Panic, w1) \<Rightarrow> Some (Panic, dst, w1))"

subsection \<open>\<open>fetch\<close>\<close>

text \<open>
  A range is a pair of its start and its end. \<open>sort_unstable_by\<close> is the argument \<open>srt\<close>: which
  of two ranges with the same start comes first is not specified.
\<close>

fun merge_loop :: "u64 \<Rightarrow> u64 \<times> u64 \<Rightarrow> (u64 \<times> u64) list \<Rightarrow> (u64 \<times> u64) list res" where
  "merge_loop gap cur [] = Ok [cur]"
| "merge_loop gap cur (rng # rs) =
     and_then (u64_add (snd cur) gap) (\<lambda>lim.
       if fst rng \<le> lim then merge_loop gap (fst cur, max (snd cur) (snd rng)) rs
       else and_then (merge_loop gap rng rs) (\<lambda>merged. Ok (cur # merged)))"

definition merge_ranges ::
  "((u64 \<times> u64) list \<Rightarrow> (u64 \<times> u64) list) \<Rightarrow> op_reader \<Rightarrow> (u64 \<times> u64) list \<Rightarrow> (u64 \<times> u64) list res" where
  "merge_ranges srt opts ranges =
     (let gap = (case or_gap opts of Some g \<Rightarrow> g | None \<Rightarrow> 1024 * 1024) in
      case srt ranges of [] \<Rightarrow> Panic | cur # rs \<Rightarrow> merge_loop gap cur rs)"

text \<open>
  The reads of the merged ranges run side by side (\<^verbatim>\<open>StreamExt::buffered\<close>) and are collected
  in order up to the first error; \<open>ws i\<close> is the world the \<open>i\<close>-th of them sees.
\<close>

fun fetch_reads ::
  "'w read_ops \<Rightarrow> op_reader \<Rightarrow> (nat \<Rightarrow> 'w) \<Rightarrow> nat \<Rightarrow> (u64 \<times> u64) list \<Rightarrow> buffer list res option" where
  "fetch_reads ops opts ws i [] = Some (Ok [])"
| "fetch_reads ops opts ws i ((s, e) # rs) =
     (case reader_read ops opts (Included s) (Excluded e) (ws i) of
        None \<Rightarrow> None
      | Some (Ok b, w') \<Rightarrow>
          map_option (\<lambda>r. and_then r (\<lambda>bs. Ok (b # bs))) (fetch_reads ops opts ws (Suc i) rs)
      | Some (Err err, w') \<Rightarrow> Some (Err err)
      | Some (Panic, w') \<Rightarrow> Some Panic)"

definition fetch_slice :: "(u64 \<times> u64) list \<Rightarrow> buffer list \<Rightarrow> u64 \<times> u64 \<Rightarrow> buffer res" where
  "fetch_slice merged merged_bufs rng =
     and_then (usize_sub (length (takeWhile (\<lambda>v. fst v \<le> fst rng) merged)) 1) (\<lambda>idx.
       guard (idx < length merged) (
       and_then (u64_sub (fst rng) (fst (merged ! idx))) (\<lambda>start.
       and_then (u64_sub (snd rng) (fst (merged ! idx))) (\<lambda>e.
         guard (idx < length merged_bufs)
           (buf_slice (Included (unat start)) (Excluded (unat e)) (merged_bufs ! idx))))))"

fun fetch_slices :: "(u64 \<times> u64) list \<Rightarrow> buffer list \<Rightarrow> (u64 \<times> u64) list \<Rightarrow> buffer list res" where
  "fetch_slices merged merged_bufs [] = Ok []"
| "fetch_slices merged merged_bufs (rng # rs) =
     and_then (fetch_slice merged merged_bufs rng) (\<lambda>b.
     and_then (fetch_slices merged merged_bufs rs) (\<lambda>bs. Ok (b # bs)))"

definition reader_fetch ::
  "((u64 \<times> u64) list \<Rightarrow> (u64 \<times> u64) list) \<Rightarrow> 'w read_ops \<Rightarrow> op_reader \<Rightarrow> (nat \<Rightarrow> 'w)
     \<Rightarrow> (u64 \<times> u64) list \<Rightarrow> buffer list res option" where
  "reader_fetch srt ops opts ws ranges =
     (case merge_ranges srt opts ranges of
        Ok merged \<Rightarrow>
          map_option (\<lambda>r. and_then r (\<lambda>merged_bufs. fetch_slices merged merged_bufs ranges))
            (fetch_reads ops opts ws 0 merged)
      | Err err \<Rightarrow> Some (Err err)
      | Panic \<Rightarrow> Some Panic)"

subsection \<open>What a service promises\<close>

text \<open>
  The buffers of a service are well-formed; with the flag \<open>np\<close> they also have no empty part,
  which the consumers that copy chunk by chunk need.
\<close>

definition solid :: "bool \<Rightarrow> buffer \<Rightarrow> bool" where
  "solid np b = (buf_wf b \<and> (np \<longrightarrow> parts_nonempty b))"

text \<open>
  A reader serves \<open>bs\<close>: up to its first error it returns successive pieces of \<open>bs\<close>, and the
  empty buffer only when \<open>bs\<close> is used up; it has an error only if the service may fail
  (the flag \<open>fl\<close>).
\<close>

fun serves :: "bool \<Rightarrow> bool \<Rightarrow> oio_reader \<Rightarrow> bytes \<Rightarrow> bool" where
  "serves np fl [] bs = (bs = [])"
| "serves np fl (Inl e # rd) bs = fl"
| "serves np fl (Inr b # rd) bs =
     (solid np b \<and>
      (if buf_bytes b = [] then bs = []
       else take (length (buf_bytes b)) bs = buf_bytes b
         \<and> serves np fl rd (drop (length (buf_bytes b)) bs)))"

lemma solid_new [simp]: "solid np buf_new"
  by (simp add: solid_def parts_nonempty_def buf_new_def)

lemma solid_is_empty: "solid np b \<Longrightarrow> buf_is_empty b \<longleftrightarrow> buf_bytes b = []"
  by (auto simp: solid_def buf_is_empty_def)

lemma buf_next_nonempty:
  assumes "buf_wf b" "parts_nonempty b" "buf_next b = Ok (Some c, b')"
  shows "c \<noteq> [] \<and> parts_nonempty b'"
proof -
  have "buf_bytes b \<noteq> []"
    using buf_next_wf [OF assms(1)] assms(3) by auto
  then have "buf_chunk b \<noteq> Ok []" by (rule buf_chunk_nonempty [OF assms(1,2)])
  with assms(2,3) show ?thesis
    by (auto simp: buf_next_def buf_chunk_def outcome_simps part_at_Ok_iff usize_sub_Ok_iff
        parts_nonempty_def Let_def split: buffer.splits if_splits)
qed

lemma buf_iter_nonempty:
  "buf_wf b \<Longrightarrow> parts_nonempty b \<Longrightarrow> buf_iter b = Ok cs \<Longrightarrow> \<forall>c \<in> set cs. c \<noteq> []"
proof (induction b arbitrary: cs rule: buf_iter.induct)
  case (1 b)
  from buf_next_wf [OF "1.prems"(1)] show ?case
  proof (elim disjE exE conjE)
    assume "buf_next b = Ok (None, b)"
    with "1.prems"(3) show ?thesis by (simp add: buf_iter.simps [of b])
  next
    fix c b' assume n: "buf_next b = Ok (Some c, b')" and wf: "buf_wf b'"
    then obtain ds where ds: "buf_iter b' = Ok ds" "cs = c # ds"
      using "1.prems"(3) by (auto simp: buf_iter.simps [of b] outcome_simps)
    with "1.IH" [OF n refl refl wf] buf_next_nonempty [OF "1.prems"(1,2) n] show ?thesis by simp
  qed
qed

definition solid_queue :: "bool \<Rightarrow> buffer list \<Rightarrow> bool" where
  "solid_queue np bufs = (queue_wf bufs \<and> (\<forall>b \<in> set bufs. solid np b))"

lemma solid_queue_simps [simp]:
  "solid_queue np []"
  "solid_queue np (bufs @ [b]) \<longleftrightarrow> solid_queue np bufs \<and> solid np b \<and> buf_bytes b \<noteq> []"
  by (auto simp: solid_queue_def solid_def)

lemma queue_flatten_nonempty:
  "queue_wf q \<Longrightarrow> \<forall>b \<in> set q. parts_nonempty b \<Longrightarrow> queue_flatten q = Ok cs \<Longrightarrow> \<forall>c \<in> set cs. c \<noteq> []"
proof (induction q arbitrary: cs)
  case (Cons b q)
  then obtain c1 c2 where "buf_iter b = Ok c1" "queue_flatten q = Ok c2" "cs = c1 @ c2"
    by (auto simp: outcome_simps)
  with Cons buf_iter_nonempty [of b c1] show ?case by auto
qed simp

lemma collect_bufs_Ok:
  assumes "solid_queue np bufs"
  shows "\<exists>b. collect_bufs bufs = Ok b \<and> solid np b \<and> buf_bytes b = queue_bytes bufs"
proof -
  obtain cs where cs: "queue_flatten bufs = Ok cs" "concat cs = queue_bytes bufs"
    using assms queue_flatten_concat by (auto simp: solid_queue_def)
  have "parts_nonempty (buf_from_parts cs)" if np
    using queue_flatten_nonempty [OF _ _ cs(1)] assms that
    by (auto simp: solid_queue_def solid_def buf_from_parts_def parts_nonempty_def)
  with cs show ?thesis by (auto simp: collect_bufs_def solid_def)
qed

lemma read_all_loop_serves:
  "solid_queue np bufs \<Longrightarrow> serves np fl rd bs \<Longrightarrow> read_all_loop bufs rd = (res, rd') \<Longrightarrow>
     (\<exists>b. res = Ok b \<and> solid np b \<and> buf_bytes b = queue_bytes bufs @ bs) \<or> (fl \<and> (\<exists>e. res = Err e))"
proof (induction bufs rd arbitrary: bs rule: read_all_loop.induct)
  case (1 bufs)
  with collect_bufs_Ok [of np bufs] show ?case by auto
next
  case (2 bufs buf r)
  show ?case
  proof (cases "buf_bytes buf = []")
    case True
    with 2 collect_bufs_Ok [of np bufs] show ?thesis by (auto simp: solid_is_empty)
  next
    case False
    then have "read_all_loop (bufs @ [buf]) r = (res, rd')"
      and s: "solid_queue np (bufs @ [buf])" "serves np fl r (drop (length (buf_bytes buf)) bs)"
      and t: "take (length (buf_bytes buf)) bs = buf_bytes buf" and e: "\<not> buf_is_empty buf"
      using "2.prems" by (auto simp: solid_is_empty)
    with "2.IH" [OF e s] show ?thesis
      by (metis append.assoc append_take_drop_id queue_simps(6) queue_simps(4) queue_simps(2) append_Nil2)
  qed
qed auto

lemma oio_read_all_serves:
  assumes "serves np fl rd bs" "oio_read_all rd = (res, rd')"
  shows "(\<exists>b. res = Ok b \<and> solid np b \<and> buf_bytes b = bs) \<or> (fl \<and> (\<exists>e. res = Err e))"
  using read_all_loop_serves [of np "[]" fl rd bs] assms by (simp add: oio_read_all_def)

subsection \<open>The generator tiles the range\<close>

definition rg_ok :: "read_generator \<Rightarrow> bool" where
  "rg_ok g = (case rg_size g of None \<Rightarrow> True | Some n \<Rightarrow> unat (rg_offset g) + unat n \<le> u64_max)"

definition rg_rest :: "bytes \<Rightarrow> read_generator \<Rightarrow> bytes" where
  "rg_rest content g = br_select (BytesRange (rg_offset g) (rg_size g)) content"

text \<open>The range lies inside the object.\<close>

definition br_inside :: "bytes_range \<Rightarrow> bytes \<Rightarrow> bool" where
  "br_inside rng content =
     (unat (br_offset rng) + (case br_size rng of None \<Rightarrow> 0 | Some n \<Rightarrow> unat n) \<le> length content)"

definition rg_inside :: "bytes \<Rightarrow> read_generator \<Rightarrow> bool" where
  "rg_inside content g = br_inside (BytesRange (rg_offset g) (rg_size g)) content"

definition rg_left :: "read_generator \<Rightarrow> nat" where
  "rg_left g = (case rg_size g of None \<Rightarrow> 1 | Some n \<Rightarrow> unat n)"

lemma rg_rest_done [simp]: "rg_size g = Some 0 \<Longrightarrow> rg_rest content g = []"
  by (simp add: rg_rest_def br_select_def)

lemma unat_min: "unat (min a b) = min (unat a) (unat (b :: u64))"
  by (simp add: min_def word_le_nat_alt)

lemma take_drop_split:
  "n \<le> m \<Longrightarrow> take m (drop i xs) = take n (drop i xs) @ take (m - n) (drop (i + n) xs)"
  by (metis add.commute drop_drop le_add_diff_inverse take_add)

text \<open>
  A sized generator: the next request starts at the offset, has the size of a chunk or of
  what is left, and the generator goes on behind it.
\<close>

lemma rg_next_range_sized:
  assumes "rg_ok g" "rg_size g = Some n" "n \<noteq> 0"
  shows "\<exists>k g'. rg_next_range opts g = Ok (Some (BytesRange (rg_offset g) (Some k)), g')
    \<and> rg_ok g' \<and> unat k \<le> unat n \<and> unat (rg_offset g') = unat (rg_offset g) + unat k
    \<and> rg_size g' = Some (n - k) \<and> unat (n - k) = unat n - unat k
    \<and> (or_chunk opts \<noteq> Some 0 \<longrightarrow> 0 < unat k)
    \<and> k = (case or_chunk opts of None \<Rightarrow> n | Some chunk \<Rightarrow> min n chunk)"
proof -
  define k where "k = (case or_chunk opts of None \<Rightarrow> n | Some chunk \<Rightarrow> min n chunk)"
  have k: "unat k \<le> unat n" by (simp add: k_def unat_min split: option.split)
  have fits: "unat (rg_offset g) + unat n \<le> u64_max" using assms by (simp add: rg_ok_def)
  have add: "u64_add (rg_offset g) k = (Ok (rg_offset g + k) :: u64 res)"
    using fits k by (simp add: u64_add_def)
  then have off: "unat (rg_offset g + k) = unat (rg_offset g) + unat k"
    by (simp add: u64_add_Ok_iff)
  have sub: "u64_sub n k = (Ok (n - k) :: u64 res)" using k by (simp add: u64_sub_def)
  then have diff: "unat (n - k) = unat n - unat k" by (simp add: u64_sub_Ok_iff)
  have pos: "or_chunk opts \<noteq> Some 0 \<longrightarrow> 0 < unat k"
    using assms(3) by (auto simp: k_def min_def unat_gt_0 split: option.split)
  let ?g = "\<lparr>rg_offset = rg_offset g + k, rg_size = Some (n - k)\<rparr>"
  have "rg_next_range opts g = Ok (Some (BytesRange (rg_offset g) (Some k)), ?g)"
    using assms add sub by (simp add: rg_next_range_def k_def [symmetric])
  moreover have "rg_ok ?g" using fits k off diff by (simp add: rg_ok_def)
  ultimately show ?thesis using k off diff pos k_def by fastforce
qed

lemma rg_next_range_rest:
  assumes "rg_ok g" "rg_size g \<noteq> Some 0" "or_chunk opts \<noteq> Some 0"
  shows "\<exists>rng g'. rg_next_range opts g = Ok (Some rng, g') \<and> rg_ok g'
    \<and> rg_rest content g = br_select rng content @ rg_rest content g' \<and> rg_left g' < rg_left g
    \<and> (rg_inside content g \<longrightarrow> br_inside rng content \<and> rg_inside content g')"
proof (cases "rg_size g")
  case None
  then show ?thesis
    by (auto simp: rg_next_range_def rg_ok_def rg_left_def rg_rest_def br_select_def unat_u64_le
        rg_inside_def br_inside_def)
next
  case (Some n)
  then have "n \<noteq> 0" using assms(2) by auto
  from rg_next_range_sized [OF assms(1) Some this, of opts] obtain k g' where
    g': "rg_next_range opts g = Ok (Some (BytesRange (rg_offset g) (Some k)), g')" "rg_ok g'"
    "unat k \<le> unat n" "unat (rg_offset g') = unat (rg_offset g) + unat k"
    "rg_size g' = Some (n - k)" "unat (n - k) = unat n - unat k" "0 < unat k"
    using assms(3) by blast
  have "rg_rest content g = br_select (BytesRange (rg_offset g) (Some k)) content @ rg_rest content g'"
    using g'(3-6) Some
    by (simp add: rg_rest_def br_select_def take_drop_split [OF g'(3)])
  moreover have "rg_left g' < rg_left g" using g'(3,5-7) Some by (simp add: rg_left_def)
  moreover have "rg_inside content g \<longrightarrow>
      br_inside (BytesRange (rg_offset g) (Some k)) content \<and> rg_inside content g'"
    using g'(3-6) Some by (simp add: rg_inside_def br_inside_def)
  ultimately show ?thesis using g'(1,2) by blast
qed

subsection \<open>The readers deliver the range\<close>

locale accessor =
  fixes ops :: "'w read_ops"
    and content :: bytes
    and np :: bool
    and fl :: bool
  assumes read_serves: "ra_read ops rng w = (Ok rd, w') \<Longrightarrow> serves np fl rd (br_select rng content)"
    and read_inside: "br_inside rng content \<Longrightarrow> fst (ra_read ops rng w) \<noteq> Panic"
    and read_fails: "ra_read ops rng w = (Err e, w') \<Longrightarrow> fl"
    and stat_fails: "ra_stat ops w = (Err e, w') \<Longrightarrow> fl"
    and stat_returns: "fst (ra_stat ops w) \<noteq> Panic"
    and stat_length: "ra_stat ops w = (Ok n, w') \<Longrightarrow> length content \<le> u64_max \<Longrightarrow> unat n = length content"
begin

lemma next_reader_cases:
  assumes "rg_ok g" "or_chunk opts \<noteq> Some 0"
  shows "rg_size g = Some 0 \<and> rg_next_reader ops opts g w = (Ok None, g, w)
    \<or> (fl \<and> (\<exists>e g' w'. rg_next_reader ops opts g w = (Err e, g', w')))
    \<or> (\<exists>g' w'. rg_next_reader ops opts g w = (Panic, g', w') \<and> \<not> rg_inside content g)
    \<or> (\<exists>rd x g' w'. rg_next_reader ops opts g w = (Ok (Some rd), g', w') \<and> serves np fl rd x
        \<and> rg_ok g' \<and> rg_rest content g = x @ rg_rest content g' \<and> rg_left g' < rg_left g
        \<and> (rg_inside content g \<longrightarrow> rg_inside content g'))"
proof (cases "rg_size g = Some 0")
  case True
  then show ?thesis by (simp add: rg_next_reader_def rg_next_range_def)
next
  case False
  from rg_next_range_rest [OF assms(1) False assms(2), of content] obtain rng g' where
    g': "rg_next_range opts g = Ok (Some rng, g')" "rg_ok g'"
    "rg_rest content g = br_select rng content @ rg_rest content g'" "rg_left g' < rg_left g"
    "rg_inside content g \<longrightarrow> br_inside rng content \<and> rg_inside content g'"
    by blast
  obtain r w' where r: "ra_read ops rng w = (r, w')" by fastforce
  show ?thesis
  proof (cases r)
    case (Ok rd)
    with g' r read_serves [of rng w rd w'] show ?thesis by (auto simp: rg_next_reader_def)
  next
    case (Err e)
    with g'(1) r read_fails show ?thesis by (fastforce simp: rg_next_reader_def)
  next
    case Panic
    with g'(1,5) r read_inside [of rng w] show ?thesis by (auto simp: rg_next_reader_def)
  qed
qed

text \<open>What a streaming reader has still to deliver.\<close>

definition sr_inv :: "bool \<Rightarrow> streaming_reader \<Rightarrow> bytes \<Rightarrow> bool" where
  "sr_inv safe st rest = (rg_ok (sr_generator st) \<and> (safe \<longrightarrow> rg_inside content (sr_generator st)) \<and>
     (case sr_reader st of
        None \<Rightarrow> rest = rg_rest content (sr_generator st)
      | Some rd \<Rightarrow> \<exists>x. serves np fl rd x \<and> rest = x @ rg_rest content (sr_generator st)))"

text \<open>
  What one read of a stream may do: deliver the next bytes, deliver the empty buffer at the
  end, or fail. It panics only when the range is not known to be \<open>safe\<close>.
\<close>

definition delivers :: "bool \<Rightarrow> ('s \<Rightarrow> bytes \<Rightarrow> bool) \<Rightarrow> bytes \<Rightarrow> buffer res \<Rightarrow> 's \<Rightarrow> bool" where
  "delivers safe keeps rest r st =
     (case r of
        Ok b \<Rightarrow> solid np b \<and> (\<exists>rest'. rest = buf_bytes b @ rest' \<and> keeps st rest')
          \<and> (buf_bytes b = [] \<longrightarrow> rest = [])
      | Err e \<Rightarrow> fl
      | Panic \<Rightarrow> \<not> safe)"

lemma delivers_Err: "fl \<Longrightarrow> delivers safe keeps rest (Err e) st"
  unfolding delivers_def by simp

lemma oio_read_fails: "serves np fl rd x \<Longrightarrow> oio_read rd = (Inl e, rd') \<Longrightarrow> fl"
  by (cases rd) auto

lemma oio_read_serves:
  assumes "serves np fl rd x" "oio_read rd = (Inr b, rd')"
  shows "solid np b \<and> (if buf_is_empty b then x = []
    else \<exists>y. x = buf_bytes b @ y \<and> buf_bytes b \<noteq> [] \<and> serves np fl rd' y)"
proof (cases rd)
  case Nil
  with assms show ?thesis by (auto simp: solid_is_empty)
next
  case (Cons a l)
  with assms have "rd = Inr b # rd'" by simp
  with assms show ?thesis
    by (auto simp: solid_is_empty split: if_splits) (metis append_take_drop_id)
qed

text \<open>One read from a reader that serves \<open>x\<close>, with the reads behind it as \<open>rec\<close>.\<close>

lemma sr_read_opened:
  assumes x: "serves np fl rd x" and g: "rg_ok g" and safe: "safe \<longrightarrow> rg_inside content g"
    and unf: "sr_read ops opts st w =
      (case oio_read rd of
         (Inl err, r') \<Rightarrow> Some (Err err, \<lparr>sr_generator = g, sr_reader = Some r'\<rparr>, w1)
       | (Inr buf, r') \<Rightarrow>
           if buf_is_empty buf then sr_read ops opts \<lparr>sr_generator = g, sr_reader = None\<rparr> w1
           else Some (Ok buf, \<lparr>sr_generator = g, sr_reader = Some r'\<rparr>, w1))"
    and rec: "\<exists>r st' w'. sr_read ops opts \<lparr>sr_generator = g, sr_reader = None\<rparr> w1 = Some (r, st', w')
      \<and> delivers safe (sr_inv safe) (rg_rest content g) r st'"
  shows "\<exists>r st' w'. sr_read ops opts st w = Some (r, st', w')
    \<and> delivers safe (sr_inv safe) (x @ rg_rest content g) r st'"
proof -
  obtain a rd' where a: "oio_read rd = (a, rd')" by fastforce
  show ?thesis
  proof (cases a)
    case (Inl e)
    with a have fl by (intro oio_read_fails [OF x]) simp
    from delivers_Err [OF this] show ?thesis using a unf Inl by simp
  next
    case (Inr b)
    note s = oio_read_serves [OF x a [unfolded Inr]]
    show ?thesis
    proof (cases "buf_is_empty b")
      case True
      with s a unf Inr rec show ?thesis by simp
    next
      case False
      then obtain y where y: "x = buf_bytes b @ y" "buf_bytes b \<noteq> []" "serves np fl rd' y"
        using s by auto
      then have "sr_inv safe \<lparr>sr_generator = g, sr_reader = Some rd'\<rparr> (y @ rg_rest content g)"
        using g safe by (auto simp: sr_inv_def)
      with False a unf Inr s y show ?thesis by (simp add: delivers_def)
    qed
  qed
qed

lemma sr_read_delivers:
  assumes chunk: "or_chunk opts \<noteq> Some 0"
  shows "sr_inv safe st rest \<Longrightarrow> \<exists>r st' w'. sr_read ops opts st w = Some (r, st', w')
    \<and> delivers safe (sr_inv safe) rest r st'"
proof (induction "2 * rg_left (sr_generator st) + (if sr_reader st = None then 0 else 1)"
    arbitrary: rest st w rule: less_induct)
  case less
  note unf = sr_read.simps [of ops opts st w]
  let ?g = "sr_generator st"
  have ok: "rg_ok ?g" "safe \<longrightarrow> rg_inside content ?g" using less.prems by (simp_all add: sr_inv_def)
  show ?case
  proof (cases "sr_reader st")
    case (Some rd)
    then obtain x where x: "serves np fl rd x" "rest = x @ rg_rest content ?g"
      using less.prems by (auto simp: sr_inv_def)
    have inv: "sr_inv safe \<lparr>sr_generator = ?g, sr_reader = None\<rparr> (rg_rest content ?g)"
      using ok by (simp add: sr_inv_def)
    show ?thesis
      unfolding x(2) by (rule sr_read_opened [OF x(1) ok]) (use less.hyps inv Some in \<open>simp_all add: unf\<close>)
  next
    case None
    then have rest: "rest = rg_rest content ?g" using less.prems by (simp add: sr_inv_def)
    consider "rg_size ?g = Some 0" "rg_next_reader ops opts ?g w = (Ok None, ?g, w)"
      | e g' w' where "rg_next_reader ops opts ?g w = (Err e, g', w')" fl
      | g' w' where "rg_next_reader ops opts ?g w = (Panic, g', w')" "\<not> rg_inside content ?g"
      | rd x g' w' where "rg_next_reader ops opts ?g w = (Ok (Some rd), g', w')" "serves np fl rd x"
        "rg_ok g'" "rg_rest content ?g = x @ rg_rest content g'" "rg_left g' < rg_left ?g"
        "rg_inside content ?g \<longrightarrow> rg_inside content g'"
      using next_reader_cases [OF ok(1) chunk, of w] by blast
    then show ?thesis
    proof cases
      case 1
      with None less.prems rest show ?thesis by (simp add: unf delivers_def)
    next
      case (2 e g' w')
      with None delivers_Err [OF 2(2)] show ?thesis by (simp add: unf)
    next
      case 3
      with None ok show ?thesis by (simp add: unf delivers_def)
    next
      case (4 rd x g' w')
      have inv: "sr_inv safe \<lparr>sr_generator = g', sr_reader = None\<rparr> (rg_rest content g')"
        using 4(3,6) ok(2) by (simp add: sr_inv_def)
      show ?thesis
        unfolding rest 4(4)
        by (rule sr_read_opened [OF 4(2,3)]) (use less.hyps inv None ok(2) 4(1,5,6) in \<open>simp_all add: unf\<close>)
    qed
  qed
qed

end

subsection \<open>Tasks up to the first error\<close>

text \<open>
  The contract \<open>task_factory\<close> does not fit the chunked reader: a reader that failed in the
  middle of a chunk comes back partly consumed. Up to the first error the results still come
  back in order: \<open>xs\<close> are the expectations of the waiting results and of the running tasks.
\<close>

definition yields :: "bool \<Rightarrow> ('x \<Rightarrow> 'o \<Rightarrow> bool) \<Rightarrow> 'x \<Rightarrow> ('i, 'o) task \<Rightarrow> bool" where
  "yields fl R x t = (case snd (task_output t) of Inr out \<Rightarrow> R x out | Inl e \<Rightarrow> fl)"

definition expects :: "bool \<Rightarrow> ('x \<Rightarrow> 'o \<Rightarrow> bool) \<Rightarrow> 'x list \<Rightarrow> ('i, 'o) concurrent_tasks \<Rightarrow> bool" where
  "expects fl R xs st = (\<not> ct_errored st \<and> length (ct_tasks st) \<le> ct_cap st
     \<and> (\<not> ct_is_concurrent st \<longrightarrow> ct_tasks st = [])
     \<and> (\<exists>xs1 xs2. xs = xs1 @ xs2 \<and> list_all2 R xs1 (ct_results st) \<and> list_all2 (yields fl R) xs2 (ct_tasks st)))"

lemma expectsI:
  "\<not> ct_errored st \<Longrightarrow> length (ct_tasks st) \<le> ct_cap st \<Longrightarrow> (\<not> ct_is_concurrent st \<Longrightarrow> ct_tasks st = []) \<Longrightarrow>
     list_all2 R xs1 (ct_results st) \<Longrightarrow> list_all2 (yields fl R) xs2 (ct_tasks st) \<Longrightarrow> xs = xs1 @ xs2 \<Longrightarrow>
     expects fl R xs st"
  by (auto simp: expects_def)

lemma expects_new: "expects fl R [] (ct_new cap)"
  by (simp add: expects_def ct_new_def)

lemma expects_pop_push:
  assumes "expects fl R xs st" "ct_tasks st = t # ts" "task_output t = (i, Inr out)"
  shows "expects fl R xs (ct_pop_push out st)"
proof -
  obtain xs1 xs2 where xs: "xs = xs1 @ xs2" "list_all2 R xs1 (ct_results st)"
    "list_all2 (yields fl R) xs2 (t # ts)"
    using assms by (auto simp: expects_def)
  then obtain x ys where ys: "xs2 = x # ys" "yields fl R x t" "list_all2 (yields fl R) ys ts"
    by (auto simp: list_all2_Cons2)
  have "list_all2 R (xs1 @ [x]) (ct_results st @ [out])"
    using xs(2) ys(2) assms(3) by (intro list_all2_appendI) (auto simp: yields_def)
  moreover have "xs = (xs1 @ [x]) @ ys" using xs(1) ys(1) by simp
  moreover have "\<not> ct_errored st" "length (ct_tasks st) \<le> ct_cap st" "ct_is_concurrent st"
    using assms(1,2) by (auto simp: expects_def)
  ultimately show ?thesis
    using assms(2) ys(3)
    by (intro expectsI [of _ _ "xs1 @ [x]" _ ys]) (simp_all add: ct_pop_push_def ct_is_concurrent_def)
qed

lemma expects_front:
  "expects fl R xs st \<Longrightarrow> ct_tasks st = t # ts \<Longrightarrow> task_output t = (i, Inl err) \<Longrightarrow> fl"
  by (auto simp: expects_def list_all2_Cons2 yields_def)

lemma expects_poll_front:
  assumes "expects fl R xs st" "ct_poll_front st = (polled, st1)"
  shows "expects fl R xs st1 \<and> ct_cap st1 = ct_cap st \<and> (polled \<noteq> None \<longrightarrow> fl)"
proof (cases "ct_tasks st")
  case Nil
  with assms show ?thesis by (simp add: ct_poll_front_def)
next
  case (Cons t ts)
  consider "task_delay t \<noteq> 0" | i out where "task_delay t = 0" "task_output t = (i, Inr out)"
    | i err where "task_delay t = 0" "task_output t = (i, Inl err)"
    by (metis prod.exhaust sum.exhaust)
  then show ?thesis
  proof cases
    case 1
    let ?t = "Task (task_input t) (task_delay t - 1) (task_output t)"
    have "list_all2 (yields fl R) ys (?t # ts) = list_all2 (yields fl R) ys (t # ts)" for ys
      by (cases ys) (auto simp: yields_def)
    then have "expects fl R xs (st\<lparr>ct_tasks := ?t # ts\<rparr>)"
      using assms(1) Cons by (simp add: expects_def ct_is_concurrent_def)
    with 1 assms(2) Cons show ?thesis by (auto simp: ct_poll_front_def)
  next
    case (2 i out)
    with assms Cons expects_pop_push [OF assms(1) Cons 2(2)] show ?thesis
      by (auto simp: ct_poll_front_def ct_pop_push_def)
  next
    case (3 i err)
    with assms Cons expects_front [OF assms(1) Cons] show ?thesis by (auto simp: ct_poll_front_def)
  qed
qed

lemma expects_snoc:
  assumes "expects fl R xs st" "ct_is_concurrent st" "length (ct_tasks st) < ct_cap st" "yields fl R x t"
  shows "expects fl R (xs @ [x]) (st\<lparr>ct_tasks := ct_tasks st @ [t]\<rparr>)"
proof -
  obtain xs1 xs2 where xs: "xs = xs1 @ xs2" "list_all2 R xs1 (ct_results st)"
    "list_all2 (yields fl R) xs2 (ct_tasks st)"
    using assms(1) by (auto simp: expects_def)
  have "list_all2 (yields fl R) (xs2 @ [x]) (ct_tasks st @ [t])"
    using xs(3) assms(4) by (intro list_all2_appendI) auto
  moreover have "\<not> ct_errored st" using assms(1) by (simp add: expects_def)
  ultimately show ?thesis
    using xs assms(2,3)
    by (intro expectsI [of _ _ xs1 _ "xs2 @ [x]"]) (simp_all add: ct_is_concurrent_def)
qed

lemma expects_execute_loop:
  assumes y: "\<And>w. yields fl R x (fst (spawn i w))"
  shows "expects fl R xs st \<Longrightarrow> ct_is_concurrent st \<Longrightarrow> ct_execute_loop spawn i st w = (r, st', w') \<Longrightarrow>
     (r = Ok () \<and> expects fl R (xs @ [x]) st' \<and> ct_cap st' = ct_cap st) \<or> (fl \<and> (\<exists>e. r = Err e))"
proof (induction "length (ct_tasks st)" arbitrary: st rule: less_induct)
  case less
  note unf = ct_execute_loop.simps [of spawn i st w]
  obtain polled st1 where p: "ct_poll_front st = (polled, st1)" by fastforce
  note p1 = expects_poll_front [OF less.prems(1) p]
  have conc: "ct_is_concurrent st1" using p1 less.prems(2) by (simp add: ct_is_concurrent_def)
  show ?case
  proof (cases polled)
    case (Some ie)
    with p p1 less.prems(3) show ?thesis by (cases ie) (auto simp: unf split: prod.splits)
  next
    case None
    show ?thesis
    proof (cases "length (ct_tasks st1) < ct_cap st1")
      case True
      obtain t w1 where sp: "spawn i w = (t, w1)" by fastforce
      have "expects fl R (xs @ [x]) (st1\<lparr>ct_tasks := ct_tasks st1 @ [t]\<rparr>)"
        using expects_snoc p1 conc True y [of w] sp by fastforce
      with less.prems(3) p None True sp p1 show ?thesis by (auto simp: unf)
    next
      case False
      with conc obtain t ts where ts: "ct_tasks st1 = t # ts"
        by (cases "ct_tasks st1") (auto simp: ct_is_concurrent_def)
      obtain j s where out: "task_output t = (j, s)" by fastforce
      show ?thesis
      proof (cases s)
        case (Inl err)
        have fl using expects_front [OF _ ts, of fl R xs] p1 out Inl by blast
        with Inl less.prems(3) p None False ts out show ?thesis by (auto simp: unf split: prod.splits)
      next
        case (Inr v)
        with less.prems(3) p None False ts out
        have rec: "ct_execute_loop spawn i (ct_pop_push v st1) w = (r, st', w')" by (simp add: unf)
        have "expects fl R xs (ct_pop_push v st1)"
          using expects_pop_push [OF _ ts] p1 out Inr by blast
        moreover have "ct_is_concurrent (ct_pop_push v st1)" "ct_cap (ct_pop_push v st1) = ct_cap st"
          using conc p1 by (simp_all add: ct_is_concurrent_def ct_pop_push_def)
        moreover have "length (ct_tasks (ct_pop_push v st1)) < length (ct_tasks st)"
          using ts ct_poll_front_length [OF p] by (simp add: ct_pop_push_def)
        ultimately show ?thesis using less.hyps rec by metis
      qed
    qed
  qed
qed

lemma expects_execute:
  assumes e: "expects fl R xs st" and y: "\<And>w. yields fl R x (fst (spawn i w))"
    and r: "ct_execute spawn i st w = (r, st', w')"
  shows "(r = Ok () \<and> expects fl R (xs @ [x]) st' \<and> ct_cap st' = ct_cap st) \<or> (fl \<and> (\<exists>e. r = Err e))"
proof (cases "ct_is_concurrent st")
  case True
  with e r have "ct_execute_loop spawn i st w = (r, st', w')" by (simp add: ct_execute_def expects_def)
  with expects_execute_loop [of fl R x spawn i, OF y e True] show ?thesis by blast
next
  case False
  obtain t w1 where sp: "spawn i w = (t, w1)" by fastforce
  show ?thesis
  proof (cases "snd (task_output t)")
    case (Inl err)
    with False e r sp y [of w] show ?thesis by (auto simp: ct_execute_def expects_def yields_def)
  next
    case (Inr out)
    have "R x out" using y [of w] sp Inr by (simp add: yields_def)
    moreover have ts: "ct_tasks st = []" using e False by (simp add: expects_def)
    moreover have st': "st' = st\<lparr>ct_results := ct_results st @ [out]\<rparr>" "r = Ok ()"
      using False e r sp Inr by (simp_all add: ct_execute_def expects_def)
    moreover have "list_all2 R xs (ct_results st)" using e ts by (auto simp: expects_def)
    ultimately have "list_all2 R (xs @ [x]) (ct_results st')"
      by (auto intro: list_all2_appendI)
    with e st' ts show ?thesis
      by (auto simp: expects_def ct_is_concurrent_def)
  qed
qed

lemma expects_next:
  assumes e: "expects fl R xs st" and n: "ct_next spawn st w = (a, st', w')"
  shows "(a = None \<and> xs = [] \<and> st' = st \<and> ct_tasks st = [])
    \<or> (\<exists>x ys out. a = Some (Inr out) \<and> xs = x # ys \<and> R x out \<and> expects fl R ys st' \<and> ct_cap st' = ct_cap st)
    \<or> (fl \<and> (\<exists>err. a = Some (Inl err)))"
proof -
  obtain xs1 xs2 where xs: "xs = xs1 @ xs2" "list_all2 R xs1 (ct_results st)"
    "list_all2 (yields fl R) xs2 (ct_tasks st)" and ok: "\<not> ct_errored st"
    using e by (auto simp: expects_def)
  consider out rs where "ct_results st = out # rs"
    | "ct_results st = []" "ct_tasks st = []"
    | t ts j s where "ct_results st = []" "ct_tasks st = t # ts" "task_output t = (j, s)"
    by (metis list.exhaust prod.exhaust)
  then show ?thesis
  proof cases
    case (1 out rs)
    then obtain x ys where "xs1 = x # ys" "R x out" "list_all2 R ys rs"
      using xs(2) by (auto simp: list_all2_Cons2)
    with 1 n ok xs e show ?thesis
      by (auto simp: ct_next_def expects_def ct_is_concurrent_def)
  next
    case 2
    with n ok xs show ?thesis by (auto simp: ct_next_def)
  next
    case (3 t ts j s)
    then obtain x ys where "xs = x # ys" "yields fl R x t" "list_all2 (yields fl R) ys ts"
      using xs by (auto simp: list_all2_Cons2)
    with 3 n ok e show ?thesis
      by (cases s) (auto simp: ct_next_def expects_def ct_is_concurrent_def yields_def split: prod.splits)
  qed
qed

subsection \<open>The chunked reader delivers the range\<close>

text \<open>Consecutive, non-empty ranges from \<open>p\<close> to \<open>q\<close>.\<close>

fun tiles :: "nat \<Rightarrow> (nat \<times> nat) list \<Rightarrow> nat \<Rightarrow> bool" where
  "tiles p [] q = (p = q)"
| "tiles p ((o', n) # rs) q = (o' = p \<and> 0 < n \<and> tiles (p + n) rs q)"

lemma tiles_snoc: "tiles p rs q \<Longrightarrow> 0 < n \<Longrightarrow> tiles p (rs @ [(q, n)]) (q + n)"
  by (induction p rs q rule: tiles.induct) auto

lemma tiles_le: "tiles p rs q \<Longrightarrow> p \<le> q"
  by (induction p rs q rule: tiles.induct) auto

context accessor
begin

definition chunk_of :: "nat \<times> nat \<Rightarrow> buffer \<Rightarrow> bool" where
  "chunk_of = (\<lambda>(o', n) b. solid np b \<and> buf_bytes b = take n (drop o' content))"

text \<open>
  What a chunked reader has still to deliver: the chunks in the tasks from \<open>p\<close> on, then
  what the generator has left.
\<close>

definition cr_inv :: "bool \<Rightarrow> chunked_reader \<Rightarrow> bytes \<Rightarrow> bool" where
  "cr_inv safe st rest = (\<exists>p rs n. rg_ok (cr_generator st)
     \<and> (safe \<longrightarrow> rg_inside content (cr_generator st))
     \<and> rg_size (cr_generator st) = Some n \<and> (cr_done st \<longrightarrow> n = 0)
     \<and> tiles p rs (unat (rg_offset (cr_generator st)))
     \<and> expects fl chunk_of rs (cr_tasks st) \<and> 0 < ct_cap (cr_tasks st)
     \<and> rest = take (unat (rg_offset (cr_generator st)) + unat n - p) (drop p content))"

lemma cr_invI:
  "rg_ok (cr_generator st) \<Longrightarrow> (safe \<Longrightarrow> rg_inside content (cr_generator st)) \<Longrightarrow>
     rg_size (cr_generator st) = Some n \<Longrightarrow> (cr_done st \<Longrightarrow> n = 0) \<Longrightarrow>
     tiles p rs (unat (rg_offset (cr_generator st))) \<Longrightarrow> expects fl chunk_of rs (cr_tasks st) \<Longrightarrow>
     0 < ct_cap (cr_tasks st) \<Longrightarrow>
     rest = take (unat (rg_offset (cr_generator st)) + unat n - p) (drop p content) \<Longrightarrow>
     cr_inv safe st rest"
  unfolding cr_inv_def by blast

lemma cr_spawn_yields:
  "serves np fl rd (take n (drop o' content)) \<Longrightarrow> yields fl chunk_of (o', n) (fst (cr_spawn ops rd w))"
  using oio_read_all_serves [of np fl rd]
  by (auto simp: cr_spawn_def yields_def chunk_of_def Let_def split: prod.splits sum.splits outcome.splits)

lemma sized_next_reader:
  assumes "rg_ok g" "rg_size g = Some n" "or_chunk opts \<noteq> Some 0"
  shows "n = 0 \<and> rg_next_reader ops opts g w = (Ok None, g, w)
    \<or> (fl \<and> (\<exists>e g' w'. rg_next_reader ops opts g w = (Err e, g', w')))
    \<or> (\<exists>g' w'. rg_next_reader ops opts g w = (Panic, g', w') \<and> \<not> rg_inside content g)
    \<or> (\<exists>rd k g' w'. rg_next_reader ops opts g w = (Ok (Some rd), g', w') \<and> 0 < unat k \<and> unat k \<le> unat n
        \<and> serves np fl rd (take (unat k) (drop (unat (rg_offset g)) content)) \<and> rg_ok g'
        \<and> unat (rg_offset g') = unat (rg_offset g) + unat k
        \<and> rg_size g' = Some (n - k) \<and> unat (n - k) = unat n - unat k
        \<and> (rg_inside content g \<longrightarrow> rg_inside content g'))"
proof (cases "n = 0")
  case True
  with assms show ?thesis by (simp add: rg_next_reader_def rg_next_range_def)
next
  case False
  from rg_next_range_sized [OF assms(1,2) False, of opts] assms(3) obtain k g' where
    g': "rg_next_range opts g = Ok (Some (BytesRange (rg_offset g) (Some k)), g')" "rg_ok g'"
    "unat k \<le> unat n" "unat (rg_offset g') = unat (rg_offset g) + unat k"
    "rg_size g' = Some (n - k)" "unat (n - k) = unat n - unat k" "0 < unat k"
    by blast
  let ?rng = "BytesRange (rg_offset g) (Some k)"
  have inside: "rg_inside content g \<longrightarrow> br_inside ?rng content \<and> rg_inside content g'"
    using g'(3-6) assms(2) by (simp add: rg_inside_def br_inside_def)
  obtain r w' where r: "ra_read ops ?rng w = (r, w')" by fastforce
  show ?thesis
  proof (cases r)
    case (Ok rd)
    with read_serves r have "serves np fl rd (take (unat k) (drop (unat (rg_offset g)) content))"
      by (fastforce simp: br_select_def)
    moreover have "rg_next_reader ops opts g w = (Ok (Some rd), g', w')"
      using g'(1) r Ok by (simp add: rg_next_reader_def)
    ultimately show ?thesis using g'(2-7) inside by blast
  next
    case (Err e)
    with g'(1) r read_fails show ?thesis by (fastforce simp: rg_next_reader_def)
  next
    case Panic
    with g'(1) inside r read_inside [of ?rng w] show ?thesis by (auto simp: rg_next_reader_def)
  qed
qed

lemma cr_inv_execute:
  assumes inv: "cr_inv safe st rest" and chunk: "or_chunk opts \<noteq> Some 0"
    and nr: "rg_next_reader ops opts (cr_generator st) w = (Ok (Some rd), g, w1)"
    and ex: "ct_execute (cr_spawn ops) rd (cr_tasks st) w1 = (r, ts, w2)"
  shows "(r = Ok () \<and> cr_inv safe (st\<lparr>cr_generator := g, cr_tasks := ts\<rparr>) rest) \<or> (fl \<and> (\<exists>e. r = Err e))"
proof -
  let ?g = "cr_generator st"
  obtain p rs n where i: "rg_ok ?g" "safe \<longrightarrow> rg_inside content ?g" "rg_size ?g = Some n"
    "cr_done st \<longrightarrow> n = 0" "tiles p rs (unat (rg_offset ?g))" "expects fl chunk_of rs (cr_tasks st)"
    "0 < ct_cap (cr_tasks st)" "rest = take (unat (rg_offset ?g) + unat n - p) (drop p content)"
    using inv by (auto simp: cr_inv_def)
  obtain k where k: "0 < unat k" "unat k \<le> unat n"
    "serves np fl rd (take (unat k) (drop (unat (rg_offset ?g)) content))" "rg_ok g"
    "unat (rg_offset g) = unat (rg_offset ?g) + unat k" "rg_size g = Some (n - k)"
    "unat (n - k) = unat n - unat k" "rg_inside content ?g \<longrightarrow> rg_inside content g"
    using sized_next_reader [OF i(1,3) chunk, of w] nr by auto
  let ?x = "(unat (rg_offset ?g), unat k)"
  have ex': "(r = Ok () \<and> expects fl chunk_of (rs @ [?x]) ts \<and> ct_cap ts = ct_cap (cr_tasks st))
      \<or> (fl \<and> (\<exists>e. r = Err e))"
    by (rule expects_execute [OF i(6) _ ex]) (rule cr_spawn_yields [OF k(3)])
  have "tiles p (rs @ [?x]) (unat (rg_offset g))"
    using tiles_snoc [OF i(5) k(1)] k(5) by simp
  moreover have "unat (rg_offset g) + unat (n - k) = unat (rg_offset ?g) + unat n"
    using k by simp
  moreover have "cr_done st \<longrightarrow> n - k = 0" using i(4) k(1,2) by auto
  ultimately have "expects fl chunk_of (rs @ [?x]) ts \<Longrightarrow> ct_cap ts = ct_cap (cr_tasks st) \<Longrightarrow>
      cr_inv safe (st\<lparr>cr_generator := g, cr_tasks := ts\<rparr>) rest"
    using i(2,7,8) k(4,6,8) by (intro cr_invI [of _ _ "n - k" p "rs @ [?x]"]) simp_all
  with ex' show ?thesis by blast
qed

end

context accessor
begin

lemma cr_fill_inv:
  assumes chunk: "or_chunk opts \<noteq> Some 0"
  shows "cr_inv safe st rest \<Longrightarrow> cr_fill ops opts st w = (r, st', w') \<Longrightarrow>
    (r = Ok () \<and> cr_inv safe st' rest \<and> (cr_done st' \<or> ct_has_result (cr_tasks st')
        \<or> \<not> ct_has_remaining (cr_tasks st')))
\<or> (fl \<and> (\<exists>e. r = Err e)) \<or> (r = Panic \<and> \<not> safe)"
proof (induction "ct_cap (cr_tasks st) - length (ct_tasks (cr_tasks st))" arbitrary: st w rule: less_induct)
  case less
  note unf = cr_fill.simps [of ops opts st w]
  let ?g = "cr_generator st"
  obtain p rs n where i: "rg_ok ?g" "safe \<longrightarrow> rg_inside content ?g" "rg_size ?g = Some n"
    "tiles p rs (unat (rg_offset ?g))" "expects fl chunk_of rs (cr_tasks st)"
    "0 < ct_cap (cr_tasks st)" "rest = take (unat (rg_offset ?g) + unat n - p) (drop p content)"
    using less.prems(1) by (auto simp: cr_inv_def)
  show ?case
  proof (cases "ct_has_remaining (cr_tasks st) \<and> \<not> cr_done st")
    case False
    with less.prems show ?thesis by (auto simp: unf)
  next
    case True
    consider "n = 0" "rg_next_reader ops opts ?g w = (Ok None, ?g, w)"
      | e g' w1 where "rg_next_reader ops opts ?g w = (Err e, g', w1)" fl
      | g' w1 where "rg_next_reader ops opts ?g w = (Panic, g', w1)" "\<not> rg_inside content ?g"
      | rd g' w1 where "rg_next_reader ops opts ?g w = (Ok (Some rd), g', w1)"
      using sized_next_reader [OF i(1,3) chunk, of w] by blast
    then show ?thesis
    proof cases
      case 1
      have "cr_inv safe (st\<lparr>cr_generator := ?g, cr_done := True\<rparr>) rest"
        using i 1(1) by (intro cr_invI [of _ _ n p rs]) simp_all
      with True 1 less.prems(2) show ?thesis by (auto simp: unf)
    next
      case (4 rd g' w1)
      obtain r1 ts w2 where ex: "ct_execute (cr_spawn ops) rd (cr_tasks st) w1 = (r1, ts, w2)"
        by (metis prod_cases3)
      note s = cr_inv_execute [OF less.prems(1) chunk 4(1) ex]
      let ?st = "st\<lparr>cr_generator := g', cr_tasks := ts\<rparr>"
      show ?thesis
      proof (cases "\<exists>e. r1 = Err e")
        case e: True
        with s True 4 ex less.prems(2) show ?thesis by (auto simp: unf)
      next
        case False
        with s have ok: "r1 = Ok ()" "cr_inv safe ?st rest" by auto
        show ?thesis
        proof (cases "ct_has_result ts")
          case h: True
          with True 4 ex ok less.prems(2) show ?thesis by (auto simp: unf)
        next
          case h: False
          with True 4 ex ok less.prems(2) have rec: "cr_fill ops opts ?st w2 = (r, st', w')"
            by (simp add: unf)
          have "ct_cap ts = ct_cap (cr_tasks st) \<and> length (ct_tasks ts) = Suc (length (ct_tasks (cr_tasks st)))"
            using ct_execute_grows [OF ex [unfolded ok(1)]] h by (simp add: ct_has_result_def)
          with True have "ct_cap (cr_tasks ?st) - length (ct_tasks (cr_tasks ?st))
              < ct_cap (cr_tasks st) - length (ct_tasks (cr_tasks st))"
            by (auto simp: ct_has_remaining_def)
          from less.hyps [OF this ok(2) rec] show ?thesis .
        qed
      qed
    qed (use True less.prems(2) i(2) in \<open>auto simp: unf\<close>)
  qed
qed

lemma cr_next_delivers:
  assumes inv: "cr_inv safe st rest" and fin: "cr_done st \<or> ct_has_result (cr_tasks st) \<or> \<not> ct_has_remaining (cr_tasks st)"
    and n: "ct_next (cr_spawn ops) (cr_tasks st) w = (a, ts, w')"
  shows "(a = None \<and> delivers safe (cr_inv safe) rest (Ok buf_new) (st\<lparr>cr_tasks := ts\<rparr>))
    \<or> (\<exists>b. a = Some (Inr b) \<and> delivers safe (cr_inv safe) rest (Ok b) (st\<lparr>cr_tasks := ts\<rparr>))
    \<or> (fl \<and> (\<exists>e. a = Some (Inl e)))"
proof -
  let ?g = "cr_generator st"
  obtain p rs n where i: "rg_ok ?g" "safe \<longrightarrow> rg_inside content ?g" "rg_size ?g = Some n"
    "cr_done st \<longrightarrow> n = 0" "tiles p rs (unat (rg_offset ?g))" "expects fl chunk_of rs (cr_tasks st)"
    "0 < ct_cap (cr_tasks st)" "rest = take (unat (rg_offset ?g) + unat n - p) (drop p content)"
    using inv by (auto simp: cr_inv_def)
  consider "a = None" "rs = []" "ts = cr_tasks st" "ct_tasks (cr_tasks st) = []"
    | x ys b where "a = Some (Inr b)" "rs = x # ys" "chunk_of x b" "expects fl chunk_of ys ts"
      "ct_cap ts = ct_cap (cr_tasks st)"
    | e where "a = Some (Inl e)" fl
    using expects_next [OF i(6) n] by blast
  then show ?thesis
  proof cases
    case 1
    have "\<not> ct_has_result (cr_tasks st)"
      using i(6) 1(2) by (auto simp: expects_def ct_has_result_def)
    with fin 1 i(4,7) have "n = 0" by (auto simp: ct_has_remaining_def)
    with i(5,8) 1(2) have "rest = []" by simp
    moreover have "st\<lparr>cr_tasks := ts\<rparr> = st" using 1(3) by simp
    ultimately show ?thesis using inv 1(1) by (auto simp: delivers_def)
  next
    case (2 x ys b)
    obtain o' k where x: "x = (o', k)" by fastforce
    with i(5) 2(2) have t: "o' = p" "0 < k" "tiles (p + k) ys (unat (rg_offset ?g))" by auto
    have le: "k \<le> unat (rg_offset ?g) + unat n - p" using tiles_le [OF t(3)] by simp
    have b: "solid np b" "buf_bytes b = take k (drop p content)"
      using 2(3) x t(1) by (auto simp: chunk_of_def)
    let ?rest = "take (unat (rg_offset ?g) + unat n - (p + k)) (drop (p + k) content)"
    have "rest = buf_bytes b @ ?rest"
      using take_drop_split [OF le, of p content] i(8) b(2) by simp
    moreover have "cr_inv safe (st\<lparr>cr_tasks := ts\<rparr>) ?rest"
      using i(1-4,7) t(3) 2(4,5) by (intro cr_invI [of _ _ n "p + k" ys]) simp_all
    moreover have "buf_bytes b = [] \<longrightarrow> rest = []" using b(2) i(8) t(2) by auto
    ultimately show ?thesis using 2(1) b(1) by (auto simp: delivers_def)
  qed simp
qed

lemma cr_read_delivers:
  assumes inv: "cr_inv safe st rest" and chunk: "or_chunk opts \<noteq> Some 0"
    and r: "cr_read ops opts st w = (r, st', w')"
  shows "delivers safe (cr_inv safe) rest r st'"
proof -
  obtain f st1 w1 where f: "cr_fill ops opts st w = (f, st1, w1)" by (metis prod_cases3)
  consider "f = Ok ()" "cr_inv safe st1 rest"
      "cr_done st1 \<or> ct_has_result (cr_tasks st1) \<or> \<not> ct_has_remaining (cr_tasks st1)"
| e where "f = Err e" fl | "f = Panic" "\<not> safe"
    using cr_fill_inv [OF chunk inv f] by blast
  then show ?thesis
  proof cases
    case 1
    obtain a ts w2 where n: "ct_next (cr_spawn ops) (cr_tasks st1) w1 = (a, ts, w2)" by (metis prod_cases3)
    from cr_next_delivers [OF 1(2,3) n] show ?thesis
      using f 1(1) n r delivers_Err [of safe "cr_inv safe" rest] by (auto simp only: cr_read_def prod.case outcome.case option.case sum.case prod.inject)
  next
    case (2 e)
    with f r have e: "r = Err e" by (simp add: cr_read_def)
    show ?thesis unfolding e by (rule delivers_Err [OF 2(2)])
  qed (use f r in \<open>auto simp: cr_read_def delivers_def\<close>)
qed

end

subsection \<open>Streams, \<open>read\<close> and \<open>read_into\<close>\<close>

text \<open>The range a pair of bounds denotes, for an object of the given length.\<close>

definition bounds_range :: "u64 bound \<Rightarrow> u64 bound \<Rightarrow> nat \<Rightarrow> (nat \<times> nat) option" where
  "bounds_range sb eb len =
     (let s = (case sb of Included v \<Rightarrow> unat v | Excluded v \<Rightarrow> unat v + 1 | Unbounded \<Rightarrow> 0);
          e = (case eb of Included v \<Rightarrow> unat v + 1 | Excluded v \<Rightarrow> unat v | Unbounded \<Rightarrow> len)
      in if s \<le> e \<and> e \<le> u64_max then Some (s, e) else None)"

context accessor
begin

definition bs_inv :: "bool \<Rightarrow> buffer_stream \<Rightarrow> bytes \<Rightarrow> bool" where
  "bs_inv safe bs rest = (case bs of One st \<Rightarrow> sr_inv safe st rest | Two st \<Rightarrow> cr_inv safe st rest)"

definition streams :: "bool \<Rightarrow> bytes \<Rightarrow> buffer option res \<Rightarrow> buffer_stream \<Rightarrow> bool" where
  "streams safe rest r bs =
     (case r of
        Ok (Some b) \<Rightarrow> solid np b \<and> buf_bytes b \<noteq> [] \<and> (\<exists>rest'. rest = buf_bytes b @ rest' \<and> bs_inv safe bs rest')
      | Ok None \<Rightarrow> rest = [] \<and> bs_inv safe bs []
      | Err e \<Rightarrow> fl
      | Panic \<Rightarrow> \<not> safe)"

lemma bs_read_delivers:
  assumes "bs_inv safe bs rest" "or_chunk opts \<noteq> Some 0"
  shows "\<exists>r bs' w'. bs_read ops opts bs w = Some (r, bs', w') \<and> delivers safe (bs_inv safe) rest r bs'"
proof (cases bs)
  case (One st)
  with assms obtain r st' w' where "sr_read ops opts st w = Some (r, st', w')"
    "delivers safe (sr_inv safe) rest r st'"
    using sr_read_delivers [OF assms(2), of safe st rest w] by (auto simp: bs_inv_def)
  with One show ?thesis
    by (auto simp: delivers_def bs_inv_def split: outcome.splits)
next
  case (Two st)
  obtain r st' w' where r: "cr_read ops opts st w = (r, st', w')" by (metis prod_cases3)
  have "delivers safe (cr_inv safe) rest r st'"
    using cr_read_delivers [OF _ assms(2) r] assms(1) Two by (simp add: bs_inv_def)
  with Two r show ?thesis
    by (auto simp: delivers_def bs_inv_def split: outcome.splits)
qed

lemma streams_Err: "fl \<Longrightarrow> streams safe rest (Err e) bs"
  unfolding streams_def by simp

lemma bs_next_streams:
  assumes "bs_inv safe bs rest" "or_chunk opts \<noteq> Some 0"
  shows "\<exists>r bs' w'. bs_next ops opts bs w = Some (r, bs', w') \<and> streams safe rest r bs'"
proof -
  obtain r bs' w' where r: "bs_read ops opts bs w = Some (r, bs', w')" "delivers safe (bs_inv safe) rest r bs'"
    using bs_read_delivers [OF assms] by blast
  show ?thesis
  proof (cases r)
    case (Ok b)
    with r show ?thesis
      by (cases "buf_bytes b = []") (auto simp: bs_next_def delivers_def streams_def solid_is_empty)
  next
    case (Err e)
    with r(2) have fl unfolding delivers_def by simp
    from streams_Err [OF this] show ?thesis using r(1) Err by (simp add: bs_next_def)
  qed (use r in \<open>auto simp: bs_next_def delivers_def streams_def\<close>)
qed

lemma try_collect_rest:
  assumes chunk: "or_chunk opts \<noteq> Some 0"
  shows "bs_inv safe bs rest \<Longrightarrow> solid_queue np bufs \<Longrightarrow>
    \<exists>r w'. try_collect ops opts bufs bs w = Some (r, w')
      \<and> (case r of Ok q \<Rightarrow> solid_queue np q \<and> queue_bytes q = queue_bytes bufs @ rest
         | Err e \<Rightarrow> fl | Panic \<Rightarrow> \<not> safe)"
proof (induction "length rest" arbitrary: bs rest bufs w rule: less_induct)
  case less
  note unf = try_collect.simps [of ops opts bufs bs w]
  obtain r bs' w' where r: "bs_next ops opts bs w = Some (r, bs', w')" "streams safe rest r bs'"
    using bs_next_streams [OF less.prems(1) chunk] by blast
  consider b where "r = Ok (Some b)" | "r = Ok None" | e where "r = Err e" | "r = Panic"
    by (metis outcome.exhaust option.exhaust)
  then show ?case
  proof cases
    case (1 b)
    with r obtain rest' where rest': "solid np b" "buf_bytes b \<noteq> []" "rest = buf_bytes b @ rest'"
      "bs_inv safe bs' rest'" by (auto simp: streams_def)
    have "length rest' < length rest" "solid_queue np (bufs @ [b])"
      using rest' less.prems(2) by simp_all
    note ih = less.hyps [OF this(1) rest'(4) this(2), of w']
    have eq: "queue_bytes (bufs @ [b]) @ rest' = queue_bytes bufs @ rest" using rest'(3) by simp
    show ?thesis using ih r(1) 1 unfolding eq unf by simp
  qed (use r less.prems in \<open>auto simp: unf streams_def\<close>)
qed

end

lemma u64_add_one:
  "unat v + 1 \<le> u64_max \<Longrightarrow> u64_add v 1 = (Ok (v + 1) :: u64 res) \<and> unat (v + 1 :: u64) = unat v + 1"
  using u64_add_Ok_iff [of v 1 "v + 1"] by (simp add: u64_add_def)

lemma u64_sub_unat:
  "unat b \<le> unat a \<Longrightarrow> u64_sub a b = (Ok (a - b) :: u64 res) \<and> unat (a - b) = unat a - unat b"
  using u64_sub_Ok_iff [of a b "a - b"] by (simp add: u64_sub_def)

lemma ct_cap_new [simp]: "ct_cap (ct_new n) = n"
  by (simp add: ct_new_def)

lemma start_of_Ok:
  assumes "bounds_range sb eb len = Some (s, e)"
  shows "\<exists>start. start_of sb = Ok start \<and> unat start = s"
  using assms u64_add_one
  by (cases sb) (auto simp: bounds_range_def start_of_def Let_def split: if_splits)

lemma br_from_bounds_Ok:
  assumes b: "bounds_range sb eb len = Some (s, e)"
  shows "\<exists>off sz. br_from_bounds sb eb = Ok (BytesRange off sz) \<and> unat off = s
    \<and> (case sz of None \<Rightarrow> eb = Unbounded | Some n \<Rightarrow> unat n = e - s)"
proof -
  have le: "s \<le> e" "e \<le> u64_max" using b by (auto simp: bounds_range_def Let_def split: if_splits)
  obtain off where off: "start_of sb = Ok off" "unat off = s" using start_of_Ok [OF b] by blast
  have unf: "br_from_bounds sb eb = and_then (start_of sb) (\<lambda>offset.
     and_then (case eb of
         Included n \<Rightarrow>
           and_then (u64_add n 1) (\<lambda>m. and_then (u64_sub m offset) (\<lambda>s. Ok (Some s)))
       | Excluded n \<Rightarrow> and_then (u64_sub n offset) (\<lambda>s. Ok (Some s))
       | Unbounded \<Rightarrow> Ok None) (\<lambda>sz.
     Ok (BytesRange offset sz)))"
    by (simp add: br_from_bounds_def start_of_def)
  have sub: "u64_sub v off = (Ok (v - off) :: u64 res) \<and> unat (v - off) = e - s" if "unat v = e" for v
    using u64_sub_unat [of off v] that le off(2) by simp
  show ?thesis
  proof (cases eb)
    case (Included v)
    then have "e = unat v + 1" using b by (auto simp: bounds_range_def Let_def split: if_splits)
    with le have v: "u64_add v 1 = (Ok (v + 1) :: u64 res)" "unat (v + 1) = e"
      using u64_add_one [of v] by simp_all
    have "br_from_bounds sb eb = Ok (BytesRange off (Some (v + 1 - off)))"
      unfolding unf using v sub [OF v(2)] off(1) Included by simp
    with sub [OF v(2)] off(2) show ?thesis by simp
  next
    case (Excluded v)
    then have v: "unat v = e" using b by (auto simp: bounds_range_def Let_def split: if_splits)
    have "br_from_bounds sb eb = Ok (BytesRange off (Some (v - off)))"
      unfolding unf using sub [OF v] off(1) Excluded by simp
    with sub [OF v] off(2) show ?thesis by simp
  next
    case Unbounded
    have "br_from_bounds sb eb = Ok (BytesRange off None)"
      unfolding unf using off(1) Unbounded by simp
    with off(2) Unbounded show ?thesis by simp
  qed
qed

context accessor
begin

lemma parse_into_range_Ok:
  assumes b: "bounds_range sb eb (length content) = Some (s, e)"
  shows "(\<exists>start fin w'. parse_into_range ops sb eb w = (Ok (start, fin), w') \<and> unat start = s \<and> unat fin = e)
    \<or> (fl \<and> (\<exists>err w'. parse_into_range ops sb eb w = (Err err, w')))"
proof -
  have le: "e \<le> u64_max" using b by (auto simp: bounds_range_def Let_def split: if_splits)
  obtain start where start: "start_of sb = Ok start" "unat start = s" using start_of_Ok [OF b] by blast
  show ?thesis
  proof (cases eb)
    case (Included v)
    then have "e = unat v + 1" using b by (auto simp: bounds_range_def Let_def split: if_splits)
    with u64_add_one [of v] le Included start show ?thesis by (simp add: parse_into_range_def)
  next
    case (Excluded v)
    then have "unat v = e" using b by (auto simp: bounds_range_def Let_def split: if_splits)
    with Excluded start show ?thesis by (simp add: parse_into_range_def)
  next
    case Unbounded
    then have e: "e = length content" using b by (auto simp: bounds_range_def Let_def split: if_splits)
    obtain r w' where r: "ra_stat ops w = (r, w')" by fastforce
    with Unbounded start e le stat_length [of w] stat_fails [of w] stat_returns [of w] show ?thesis
      by (cases r) (auto simp: parse_into_range_def)
  qed
qed

text \<open>A stream over a range, streaming or in chunks.\<close>

lemma bs_of_range_inv:
  assumes fits: "unat off + unat n \<le> u64_max" and conc: "0 < or_concurrent opts"
    and safe: "safe \<Longrightarrow> unat off + unat n \<le> length content"
  shows "bs_inv safe (bs_of_range opts (BytesRange off (Some n))) (take (unat n) (drop (unat off) content))"
proof (cases "or_chunk opts")
  case None
  with fits safe show ?thesis
    by (auto simp: bs_of_range_def bs_inv_def sr_inv_def sr_new_def rg_new_def rg_ok_def rg_rest_def
        br_select_def rg_inside_def br_inside_def)
next
  case (Some c)
  have "cr_inv safe (cr_new opts (BytesRange off (Some n))) (take (unat n) (drop (unat off) content))"
    using fits safe conc
    by (intro cr_invI [of _ _ n "unat off" "[]"])
      (simp_all add: cr_new_def rg_new_def rg_ok_def rg_inside_def br_inside_def expects_new)
  with Some show ?thesis by (simp add: bs_of_range_def bs_inv_def)
qed

lemma bs_create_inv:
  assumes b: "bounds_range sb eb (length content) = Some (s, e)" and conc: "0 < or_concurrent opts"
    and r: "bs_create ops opts sb eb w = (r, w')"
  shows "case r of Ok bs \<Rightarrow> bs_inv (e \<le> length content) bs (take (e - s) (drop s content))
    | Err err \<Rightarrow> fl | Panic \<Rightarrow> False"
proof -
  have le: "s \<le> e" "e \<le> u64_max" using b by (auto simp: bounds_range_def Let_def split: if_splits)
  show ?thesis
  proof (cases "or_chunk opts")
    case None
    obtain off sz where br: "br_from_bounds sb eb = Ok (BytesRange off sz)" "unat off = s"
      "case sz of None \<Rightarrow> eb = Unbounded | Some n \<Rightarrow> unat n = e - s"
      using br_from_bounds_Ok [OF b] by blast
    have rr: "r = Ok (bs_of_range opts (BytesRange off sz))"
      using r br(1) None by (simp add: bs_create_def bs_of_range_def)
    show ?thesis
    proof (cases sz)
      case (Some n)
      then show ?thesis
        using rr br(2,3) le bs_of_range_inv [of off n opts "e \<le> length content"] conc by simp
    next
      case sz: None
      then have "e = length content" using br(3) b by (auto simp: bounds_range_def Let_def split: if_splits)
      with rr sz None br(2) le show ?thesis
        by (auto simp: bs_of_range_def bs_inv_def sr_inv_def sr_new_def rg_new_def rg_ok_def rg_rest_def
            br_select_def rg_inside_def br_inside_def)
    qed
  next
    case (Some c)
    show ?thesis
    proof (cases "\<exists>err w'. parse_into_range ops sb eb w = (Err err, w')")
      case True
      with r Some parse_into_range_Ok [OF b, of w] show ?thesis by (auto simp: bs_create_def)
    next
      case False
      then obtain start fin w1 where p: "parse_into_range ops sb eb w = (Ok (start, fin), w1)"
        "unat start = s" "unat fin = e"
        using parse_into_range_Ok [OF b, of w] by blast
      have sub: "u64_sub fin start = (Ok (fin - start) :: u64 res) \<and> unat (fin - start) = e - s"
        using u64_sub_unat [of start fin] p le by simp
      with r Some p have "r = Ok (bs_of_range opts (BytesRange start (Some (fin - start))))"
        by (auto simp: bs_create_def br_from_bounds_def bs_of_range_def)
      with bs_of_range_inv [of start "fin - start" opts "e \<le> length content"] p sub le conc
      show ?thesis by simp
    qed
  qed
qed

lemma reader_read_cases:
  assumes b: "bounds_range sb eb (length content) = Some (s, e)" and conc: "0 < or_concurrent opts"
    and chunk: "or_chunk opts \<noteq> Some 0"
  shows "\<exists>r w'. reader_read ops opts sb eb w = Some (r, w')
    \<and> (case r of Ok b \<Rightarrow> solid np b \<and> buf_bytes b = take (e - s) (drop s content)
       | Err err \<Rightarrow> fl | Panic \<Rightarrow> length content < e)"
proof -
  obtain c w1 where c: "bs_create ops opts sb eb w = (c, w1)" by fastforce
  note inv = bs_create_inv [OF b conc c]
  show ?thesis
  proof (cases c)
    case (Ok bs)
    with inv obtain q w2 where q: "try_collect ops opts [] bs w1 = Some (q, w2)"
      "case q of Ok q \<Rightarrow> solid_queue np q \<and> queue_bytes q = queue_bytes [] @ take (e - s) (drop s content)
         | Err e \<Rightarrow> fl | Panic \<Rightarrow> \<not> e \<le> length content"
      using try_collect_rest [OF chunk, of "e \<le> length content" bs _ "[]" w1] by fastforce
    show ?thesis
    proof (cases q)
      case (Ok bufs)
      with q collect_bufs_Ok [of np bufs] c \<open>c = Ok bs\<close> show ?thesis by (auto simp: reader_read_def)
    qed (use c Ok q in \<open>auto simp: reader_read_def\<close>)
  qed (use c inv in \<open>auto simp: reader_read_def\<close>)
qed

end

context accessor
begin

lemma read_into_loop_rest:
  assumes chunk: "or_chunk opts \<noteq> Some 0" and np: np
  shows "bs_inv safe bs rest \<Longrightarrow>
    \<exists>r dst' w'. read_into_loop ops opts n dst bs w = Some (r, dst', w')
      \<and> (case r of Ok k \<Rightarrow> k = n + length rest \<and> dst' = dst @ rest | Err e \<Rightarrow> fl | Panic \<Rightarrow> \<not> safe)"
proof (induction "length rest" arbitrary: bs rest n dst w rule: less_induct)
  case less
  note unf = read_into_loop.simps [of ops opts n dst bs w]
  obtain r bs' w' where r: "bs_next ops opts bs w = Some (r, bs', w')" "streams safe rest r bs'"
    using bs_next_streams [OF less.prems chunk] by blast
  consider b where "r = Ok (Some b)" | "r = Ok None" | e where "r = Err e" | "r = Panic"
    by (metis outcome.exhaust option.exhaust)
  then show ?case
  proof cases
    case (1 b)
    with r obtain rest' where rest': "solid np b" "buf_bytes b \<noteq> []" "rest = buf_bytes b @ rest'"
      "bs_inv safe bs' rest'" by (auto simp: streams_def)
    then have b: "buf_wf b" "parts_nonempty b" using np by (auto simp: solid_def)
    have less': "length rest' < length rest" using rest' by simp
    note ih = less.hyps [OF this rest'(4), of "n + buf_len b" "dst @ buf_bytes b" w']
    have eqs: "(n + buf_len b) + length rest' = n + length rest"
      "(dst @ buf_bytes b) @ rest' = dst @ rest" using rest'(3) b(1) by simp_all
    show ?thesis
      using ih r(1) 1 whole.drain_content [of b dst] b unfolding eqs unf by simp
  qed (use r in \<open>auto simp: unf streams_def\<close>)
qed

lemma reader_read_into_cases:
  assumes b: "bounds_range sb eb (length content) = Some (s, e)" and conc: "0 < or_concurrent opts"
    and chunk: "or_chunk opts \<noteq> Some 0" and np: np
  shows "\<exists>r dst' w'. reader_read_into ops opts dst sb eb w = Some (r, dst', w')
    \<and> (case r of Ok k \<Rightarrow> dst' = dst @ take (e - s) (drop s content) \<and> k = length (take (e - s) (drop s content))
       | Err err \<Rightarrow> fl | Panic \<Rightarrow> length content < e)"
proof -
  obtain c w1 where c: "bs_create ops opts sb eb w = (c, w1)" by fastforce
  note inv = bs_create_inv [OF b conc c]
  show ?thesis
  proof (cases c)
    case (Ok bs)
    with inv read_into_loop_rest [OF chunk np, of "e \<le> length content" bs _ 0 dst w1]
    obtain r dst' w' where "read_into_loop ops opts 0 dst bs w1 = Some (r, dst', w')"
      "case r of Ok k \<Rightarrow> k = 0 + length (take (e - s) (drop s content)) \<and> dst' = dst @ take (e - s) (drop s content)
        | Err e \<Rightarrow> fl | Panic \<Rightarrow> \<not> e \<le> length content"
      by fastforce
    with c Ok show ?thesis by (cases r) (auto simp: reader_read_into_def)
  qed (use c inv in \<open>auto simp: reader_read_into_def\<close>)
qed

end

subsection \<open>\<open>merge_ranges\<close> and \<open>fetch\<close>\<close>

abbreviation covers :: "u64 \<times> u64 \<Rightarrow> u64 \<times> u64 \<Rightarrow> bool" where
  "covers m r \<equiv> fst m \<le> fst r \<and> snd r \<le> snd m"

text \<open>
  Merged ranges in order, each ending more than \<open>gap\<close> before the next starts, the first
  starting at \<open>s\<close>.
\<close>

fun apart :: "u64 \<Rightarrow> (u64 \<times> u64) list \<Rightarrow> bool" where
  "apart gap [] = True"
| "apart gap [m] = True"
| "apart gap (m # m' # ms) = (unat (snd m) + unat gap < unat (fst m') \<and> apart gap (m' # ms))"

definition sorts :: "((u64 \<times> u64) list \<Rightarrow> (u64 \<times> u64) list) \<Rightarrow> bool" where
  "sorts srt = (\<forall>xs. set (srt xs) = set xs \<and> sorted (map fst (srt xs)))"

lemma u64_add_Ok_le: "u64_add a b = (Ok c :: u64 res) \<Longrightarrow> x \<le> c \<longleftrightarrow> unat x \<le> unat a + unat b"
  by (simp add: u64_add_Ok_iff word_le_nat_alt)

text \<open>The ends of all ranges leave room for the gap, and each range is in order.\<close>

definition ranges_ok :: "u64 \<Rightarrow> nat \<Rightarrow> (u64 \<times> u64) list \<Rightarrow> bool" where
  "ranges_ok gap len rs =
     (len + unat gap \<le> u64_max \<and> (\<forall>r \<in> set rs. fst r \<le> snd r \<and> unat (snd r) \<le> len))"

lemma merge_loop_spec:
  "ranges_ok gap len (cur # rs) \<Longrightarrow> sorted (map fst (cur # rs)) \<Longrightarrow>
     \<exists>m ms. merge_loop gap cur rs = Ok (m # ms) \<and> fst m = fst cur \<and> covers m cur
       \<and> ranges_ok gap len (m # ms) \<and> apart gap (m # ms)
       \<and> (\<forall>r \<in> set rs. \<exists>m' \<in> set (m # ms). covers m' r)"
proof (induction gap cur rs rule: merge_loop.induct)
  case (1 gap cur)
  then show ?case by simp
next
  case (2 gap cur rng rs)
  have fits: "unat (snd cur) + unat gap \<le> u64_max" using "2.prems"(1) by (auto simp: ranges_ok_def)
  then obtain lim where lim: "u64_add (snd cur) gap = (Ok lim :: u64 res)"
    by (auto simp: u64_add_def)
  show ?case
  proof (cases "fst rng \<le> lim")
    case True
    let ?cur = "(fst cur, max (snd cur) (snd rng))"
    have ok: "ranges_ok gap len (?cur # rs)" "sorted (map fst (?cur # rs))"
      using "2.prems" by (auto simp: ranges_ok_def max_def)
    from "2.IH"(1) [OF True ok] obtain m ms where m: "merge_loop gap ?cur rs = Ok (m # ms)"
      "fst m = fst cur" "covers m ?cur" "ranges_ok gap len (m # ms)" "apart gap (m # ms)"
      "\<forall>r \<in> set rs. \<exists>m' \<in> set (m # ms). covers m' r" by auto
    have "covers m cur" "covers m rng" using m(2,3) "2.prems"(2) by auto
    with m lim True show ?thesis by auto
  next
    case False
    have ok: "ranges_ok gap len (rng # rs)" "sorted (map fst (rng # rs))"
      using "2.prems" by (auto simp: ranges_ok_def)
    from "2.IH"(2) [OF False ok] obtain m ms where m: "merge_loop gap rng rs = Ok (m # ms)"
      "fst m = fst rng" "covers m rng" "ranges_ok gap len (m # ms)" "apart gap (m # ms)"
      "\<forall>r \<in> set rs. \<exists>m' \<in> set (m # ms). covers m' r" by auto
    have "apart gap (cur # m # ms)" using m(2,5) False u64_add_Ok_le [OF lim, of "fst rng"] by simp
    moreover have "ranges_ok gap len (cur # m # ms)" using m(4) "2.prems"(1) by (simp add: ranges_ok_def)
    ultimately show ?thesis using m(1,3,6) lim False by auto
  qed
qed

lemma merge_ranges_spec:
  assumes srt: "sorts srt" and ne: "rs \<noteq> []"
    and ok: "ranges_ok (case or_gap opts of Some g \<Rightarrow> g | None \<Rightarrow> 1024 * 1024) len rs"
  shows "\<exists>ms. merge_ranges srt opts rs = Ok ms
    \<and> ranges_ok (case or_gap opts of Some g \<Rightarrow> g | None \<Rightarrow> 1024 * 1024) len ms
    \<and> apart (case or_gap opts of Some g \<Rightarrow> g | None \<Rightarrow> 1024 * 1024) ms
    \<and> (\<forall>r \<in> set rs. \<exists>m \<in> set ms. covers m r)"
proof -
  have s: "set (srt rs) = set rs" "sorted (map fst (srt rs))" using srt by (auto simp: sorts_def)
  with ne obtain cur rs' where c: "srt rs = cur # rs'" by (cases "srt rs") auto
  let ?gap = "case or_gap opts of Some g \<Rightarrow> g | None \<Rightarrow> 1024 * 1024"
  have ok': "ranges_ok ?gap len (cur # rs')"
    using ok s(1) c by (metis ranges_ok_def)
  from merge_loop_spec [OF ok' s(2) [unfolded c]] obtain m ms where
    m: "merge_loop ?gap cur rs' = Ok (m # ms)" "covers m cur" "ranges_ok ?gap len (m # ms)"
    "apart ?gap (m # ms)" "\<forall>r \<in> set rs'. \<exists>m' \<in> set (m # ms). covers m' r" by blast
  have "\<forall>r \<in> set rs. \<exists>m' \<in> set (m # ms). covers m' r"
    using m(2,5) s(1) c by (metis list.set_intros(1) set_ConsD)
  with m c show ?thesis by (auto simp: merge_ranges_def)
qed

text \<open>
  In merged ranges, the last one that starts no later than \<open>r\<close> is the one that covers it.
\<close>

lemma apart_starts:
  "apart gap (m # ms) \<Longrightarrow> \<forall>x \<in> set (m # ms). fst x \<le> snd x \<Longrightarrow> x \<in> set ms \<Longrightarrow> snd m < fst x"
proof (induction ms arbitrary: m)
  case (Cons m' ms)
  have "snd m < fst m'" using Cons.prems(1) by (simp add: word_less_nat_alt)
  moreover have "x \<in> set ms \<Longrightarrow> snd m' < fst x" using Cons by simp
  moreover have "fst m' \<le> snd m'" using Cons.prems(2) by simp
  ultimately show ?case using Cons.prems(3) by force
qed simp

lemma apart_index:
  "apart gap ms \<Longrightarrow> \<forall>x \<in> set ms. fst x \<le> snd x \<Longrightarrow> m \<in> set ms \<Longrightarrow> covers m r \<Longrightarrow> fst r \<le> snd r \<Longrightarrow>
     \<exists>i. length (takeWhile (\<lambda>v. fst v \<le> fst r) ms) = Suc i \<and> i < length ms \<and> ms ! i = m"
proof (induction ms)
  case (Cons a ms)
  have starts: "x \<in> set ms \<Longrightarrow> snd a < fst x" for x
    using apart_starts [OF Cons.prems(1,2)] by blast
  show ?case
  proof (cases "m = a")
    case True
    have "takeWhile (\<lambda>v. fst v \<le> fst r) ms = []"
    proof (cases ms)
      case (Cons b bs)
      with starts [of b] True \<open>covers m r\<close> \<open>fst r \<le> snd r\<close> show ?thesis by auto
    qed simp
    with True Cons.prems(4) show ?thesis by simp
  next
    case False
    then have m: "m \<in> set ms" using Cons.prems(3) by simp
    have ap: "apart gap ms" using Cons.prems(1) by (cases ms) auto
    have "fst a \<le> fst r"
      using starts [OF m] Cons.prems(2,4) by (meson less_imp_le list.set_intros(1) order.trans)
    with Cons.IH [OF ap _ m Cons.prems(4,5)] Cons.prems(2) show ?thesis by auto
  qed
qed simp

text \<open>The bytes of a range that is given by its start and its end.\<close>

definition range_bytes :: "bytes \<Rightarrow> u64 \<times> u64 \<Rightarrow> bytes" where
  "range_bytes content r = take (unat (snd r) - unat (fst r)) (drop (unat (fst r)) content)"

lemma range_bytes_slice:
  assumes "covers m r" "fst r \<le> snd r"
  shows "range_bytes content r =
    take (unat (snd r) - unat (fst r)) (drop (unat (fst r) - unat (fst m)) (range_bytes content m))"
proof -
  have "unat (fst m) \<le> unat (fst r)" "unat (fst r) \<le> unat (snd r)" "unat (snd r) \<le> unat (snd m)"
    using assms by (simp_all add: word_le_nat_alt)
  then show ?thesis
    by (simp add: range_bytes_def drop_take min_def)
qed

lemma fetch_slice_Ok:
  assumes ap: "apart gap ms" and ok: "\<forall>x \<in> set ms. fst x \<le> snd x \<and> unat (snd x) \<le> length content"
    and bufs: "list_all2 (\<lambda>m b. buf_wf b \<and> buf_bytes b = range_bytes content m) ms bufs"
    and r: "fst r \<le> snd r" "m \<in> set ms" "covers m r"
  shows "\<exists>b. fetch_slice ms bufs r = Ok b \<and> buf_bytes b = range_bytes content r"
proof -
  obtain i where i: "length (takeWhile (\<lambda>v. fst v \<le> fst r) ms) = Suc i" "i < length ms" "ms ! i = m"
    using apart_index [OF ap _ r(2,3,1)] ok by blast
  have len: "length ms = length bufs" using bufs by (rule list_all2_lengthD)
  have b: "buf_wf (bufs ! i)" "buf_bytes (bufs ! i) = range_bytes content m"
    using list_all2_nthD [OF bufs i(2)] i(3) by auto
  have le: "unat (fst m) \<le> unat (fst r)" "unat (fst r) \<le> unat (snd r)" "unat (snd r) \<le> unat (snd m)"
    using r by (simp_all add: word_le_nat_alt)
  have "unat (snd m) \<le> length content" using ok r(2) by blast
  then have bl: "buf_len (bufs ! i) = unat (snd m) - unat (fst m)"
    using b le by (simp add: range_bytes_def)
  have s: "u64_sub (fst r) (fst m) = (Ok (fst r - fst m) :: u64 res)" "unat (fst r - fst m) = unat (fst r) - unat (fst m)"
    "u64_sub (snd r) (fst m) = (Ok (snd r - fst m) :: u64 res)" "unat (snd r - fst m) = unat (snd r) - unat (fst m)"
    using u64_sub_unat [of "fst m" "fst r"] u64_sub_unat [of "fst m" "snd r"] le by simp_all
  let ?lo = "unat (fst r - fst m)" and ?hi = "unat (snd r - fst m)"
  have "?lo \<le> ?hi" "?hi \<le> buf_len (bufs ! i)" "?hi - ?lo = unat (snd r) - unat (fst r)"
    using s bl le by simp_all
  then obtain b' where "buf_slice (Included ?lo) (Excluded ?hi) (bufs ! i) = Ok b'"
    "buf_bytes b' = take (unat (snd r) - unat (fst r)) (drop ?lo (range_bytes content m))"
    using buf_slice_spec [OF b(1), of ?lo "Included ?lo" ?hi "Excluded ?hi"] b(2) by auto
  with i len s range_bytes_slice [OF r(3,1)] show ?thesis
    by (simp add: fetch_slice_def usize_sub_def)
qed

lemma fetch_slices_Ok:
  assumes "apart gap ms" "\<forall>x \<in> set ms. fst x \<le> snd x \<and> unat (snd x) \<le> length content"
    and "list_all2 (\<lambda>m b. buf_wf b \<and> buf_bytes b = range_bytes content m) ms bufs"
  shows "\<forall>r \<in> set rs. fst r \<le> snd r \<and> (\<exists>m \<in> set ms. covers m r) \<Longrightarrow>
    \<exists>out. fetch_slices ms bufs rs = Ok out \<and> map buf_bytes out = map (range_bytes content) rs"
proof (induction rs)
  case (Cons r rs)
  then obtain m where "fst r \<le> snd r" "m \<in> set ms" "covers m r" by auto
  from fetch_slice_Ok [OF assms this] Cons show ?case by auto
qed simp

context accessor
begin

lemma fetch_reads_cases:
  assumes conc: "0 < or_concurrent opts" and chunk: "or_chunk opts \<noteq> Some 0"
  shows "\<forall>m \<in> set ms. fst m \<le> snd m \<and> unat (snd m) \<le> length content \<Longrightarrow>
    \<exists>r. fetch_reads ops opts ws i ms = Some r
      \<and> (case r of Ok bufs \<Rightarrow> list_all2 (\<lambda>m b. buf_wf b \<and> buf_bytes b = range_bytes content m) ms bufs
         | Err e \<Rightarrow> fl | Panic \<Rightarrow> False)"
proof (induction ms arbitrary: i)
  case (Cons m ms)
  obtain s e where m: "m = (s, e)" by fastforce
  have le: "s \<le> e" "unat e \<le> length content" using Cons.prems m by auto
  have b: "bounds_range (Included s) (Excluded e) (length content) = Some (unat s, unat e)"
    using le unat_u64_le [of e] by (simp add: bounds_range_def word_le_nat_alt)
  obtain r w' where r: "reader_read ops opts (Included s) (Excluded e) (ws i) = Some (r, w')"
    "case r of Ok b \<Rightarrow> solid np b \<and> buf_bytes b = take (unat e - unat s) (drop (unat s) content)
       | Err err \<Rightarrow> fl | Panic \<Rightarrow> length content < unat e"
    using reader_read_cases [OF b conc chunk] by blast
  obtain q where q: "fetch_reads ops opts ws (Suc i) ms = Some q"
    "case q of Ok bufs \<Rightarrow> list_all2 (\<lambda>m b. buf_wf b \<and> buf_bytes b = range_bytes content m) ms bufs
         | Err e \<Rightarrow> fl | Panic \<Rightarrow> False"
    using Cons.IH [of "Suc i"] Cons.prems by auto
  show ?case
  proof (cases r)
    case (Ok b)
    with r q m show ?thesis by (cases q) (auto simp: solid_def range_bytes_def)
  qed (use r m le in auto)
qed simp

lemma reader_fetch_cases:
  assumes srt: "sorts srt" and ne: "rs \<noteq> []" and conc: "0 < or_concurrent opts"
    and chunk: "or_chunk opts \<noteq> Some 0"
    and ok: "ranges_ok (case or_gap opts of Some g \<Rightarrow> g | None \<Rightarrow> 1024 * 1024) (length content) rs"
  shows "(\<exists>out. reader_fetch srt ops opts ws rs = Some (Ok out)
      \<and> map buf_bytes out = map (range_bytes content) rs)
    \<or> (fl \<and> (\<exists>e. reader_fetch srt ops opts ws rs = Some (Err e)))"
proof -
  let ?gap = "case or_gap opts of Some g \<Rightarrow> g | None \<Rightarrow> 1024 * 1024"
  obtain ms where ms: "merge_ranges srt opts rs = Ok ms" "ranges_ok ?gap (length content) ms"
    "apart ?gap ms" "\<forall>r \<in> set rs. \<exists>m \<in> set ms. covers m r"
    using merge_ranges_spec [OF srt ne ok] by (elim exE conjE)
  have ms': "\<forall>m \<in> set ms. fst m \<le> snd m \<and> unat (snd m) \<le> length content"
    using ms(2) by (simp add: ranges_ok_def)
  have rs: "\<forall>r \<in> set rs. fst r \<le> snd r \<and> (\<exists>m \<in> set ms. covers m r)"
    using ok ms(4) by (simp add: ranges_ok_def)
  obtain q where q: "fetch_reads ops opts ws 0 ms = Some q"
    "case q of Ok bufs \<Rightarrow> list_all2 (\<lambda>m b. buf_wf b \<and> buf_bytes b = range_bytes content m) ms bufs
         | Err e \<Rightarrow> fl | Panic \<Rightarrow> False"
    using fetch_reads_cases [OF conc chunk ms'] by blast
  show ?thesis
  proof (cases q)
    case (Ok bufs)
    with q fetch_slices_Ok [OF ms(3) ms' _ rs, of bufs] ms(1) show ?thesis
      by (auto simp: reader_fetch_def)
  qed (use q ms(1) in \<open>auto simp: reader_fetch_def\<close>)
qed

end

subsection \<open>A service with one object\<close>

text \<open>
  The smallest service: one object in memory, each read one buffer, as \<^verbatim>\<open>impl Read for Buffer\<close>
  gives it.
\<close>

definition object_ops :: "bytes \<Rightarrow> unit read_ops" where
  "object_ops c =
     \<lparr>ra_read = (\<lambda>rng w. (Ok [Inr (buf_from_bytes (br_select rng c))], w)),
      ra_stat = (\<lambda>w. (Ok (of_nat (length c)), w)), ra_delay = (\<lambda>w. (0, w))\<rparr>"

lemma unat_of_length: "length c \<le> u64_max \<Longrightarrow> unat (of_nat (length c) :: u64) = length c"
  by (simp add: unat_of_nat u64_max_eq)

interpretation obj: accessor "object_ops c" c True False for c
  by unfold_locales
    (auto simp: object_ops_def solid_def parts_nonempty_def buf_from_bytes_def unat_of_length)

subsection \<open>Properties\<close>

text \<open>
  C7. Reading is exact. For a service whose readers serve the bytes of an object, and bounds
  that denote the range from \<open>s\<close> to \<open>e\<close>, \<open>Reader::read\<close> returns, whatever the chunk size and
  the concurrency, and whenever it succeeds the buffer holds exactly the bytes of the object
  in that range, which is shorter only where the object ends. It fails only if the service
  does, and it can panic only for a range that ends behind the object.
\<close>

theorem reader_read_exact:
  assumes "accessor ops content np fl" "bounds_range sb eb (length content) = Some (s, e)"
    and "0 < or_concurrent opts" "or_chunk opts \<noteq> Some 0"
  shows "\<exists>r w'. reader_read ops opts sb eb w = Some (r, w')
    \<and> (case r of Ok b \<Rightarrow> buf_bytes b = take (e - s) (drop s content)
       | Err err \<Rightarrow> fl | Panic \<Rightarrow> length content < e)"
proof -
  from accessor.reader_read_cases [OF assms] obtain r w' where
    "reader_read ops opts sb eb w = Some (r, w')"
    "case r of Ok b \<Rightarrow> solid np b \<and> buf_bytes b = take (e - s) (drop s content)
       | Err err \<Rightarrow> fl | Panic \<Rightarrow> length content < e" by blast
  then show ?thesis by (cases r) auto
qed

theorem reader_read_exact_witness:
  "accessor (object_ops [1, 2, 3, 4, 5]) [1, 2, 3, 4, 5] True False
    \<and> (\<exists>b w'. reader_read (object_ops [1, 2, 3, 4, 5])
          \<lparr>or_concurrent = 2, or_chunk = Some 2, or_gap = None\<rparr> (Included 1) (Excluded 4) () = Some (Ok b, w')
        \<and> buf_bytes b = [2, 3, 4])"
proof -
  have a: "accessor (object_ops [1, 2, 3, 4, 5]) [1, 2, 3, 4, 5] True False"
    by (rule obj.accessor_axioms)
  have b: "bounds_range (Included 1) (Excluded 4) (length [1, 2, 3, 4, 5 :: 8 word]) = Some (1, 4)"
    by (simp add: bounds_range_def u64_max_def)
  from reader_read_exact [OF a b, of "\<lparr>or_concurrent = 2, or_chunk = Some 2, or_gap = None\<rparr>" "()"]
  obtain r w' where r: "reader_read (object_ops [1, 2, 3, 4, 5])
      \<lparr>or_concurrent = 2, or_chunk = Some 2, or_gap = None\<rparr> (Included 1) (Excluded 4) () = Some (r, w')"
    "case r of Ok b \<Rightarrow> buf_bytes b = take (4 - 1) (drop 1 [1, 2, 3, 4, 5])
       | Err err \<Rightarrow> False | Panic \<Rightarrow> length [1, 2, 3, 4, 5 :: 8 word] < 4"
    by (elim exE conjE meta_impE) auto
  from r(2) obtain b where "r = Ok b" "buf_bytes b = [2, 3, 4]" by (cases r) auto
  with a r(1) show ?thesis by blast
qed

text \<open>
  Fetching is exact. For a non-empty list of ranges inside the object, in any order and
  overlapping or not, and whatever order the unstable sort gives ranges with the same start,
  \<open>Reader::fetch\<close> returns and does not panic; whenever it succeeds, the \<open>i\<close>-th buffer holds
  exactly the bytes of the \<open>i\<close>-th range. It fails only if the service does. (The object and
  the gap together fit in 64 bits.)
\<close>

theorem fetch_exact:
  assumes "accessor ops content np fl" "sorts srt" "rs \<noteq> []"
    and "0 < or_concurrent opts" "or_chunk opts \<noteq> Some 0"
    and "ranges_ok (case or_gap opts of Some g \<Rightarrow> g | None \<Rightarrow> 1024 * 1024) (length content) rs"
  shows "(\<exists>out. reader_fetch srt ops opts ws rs = Some (Ok out)
      \<and> map buf_bytes out = map (range_bytes content) rs)
    \<or> (fl \<and> (\<exists>e. reader_fetch srt ops opts ws rs = Some (Err e)))"
  using accessor.reader_fetch_cases [OF assms] .

theorem fetch_exact_witness:
  "sorts (sort_key fst)
    \<and> (\<exists>out. reader_fetch (sort_key fst) (object_ops [1, 2, 3, 4, 5])
          \<lparr>or_concurrent = 1, or_chunk = None, or_gap = Some 1\<rparr> (\<lambda>i. ()) [(3, 5), (0, 1), (0, 1)] = Some (Ok out)
        \<and> map buf_bytes out = [[4, 5], [1], [1]])"
proof -
  have s: "sorts (sort_key fst)" by (simp add: sorts_def)
  have a: "accessor (object_ops [1, 2, 3, 4, 5]) [1, 2, 3, 4, 5] True False"
    by (rule obj.accessor_axioms)
  have o: "ranges_ok (case or_gap \<lparr>or_concurrent = 1, or_chunk = None, or_gap = Some 1\<rparr> of
      Some g \<Rightarrow> g | None \<Rightarrow> 1024 * 1024) (length [1, 2, 3, 4, 5 :: 8 word]) [(3, 5), (0, 1), (0, 1)]"
    by (simp add: ranges_ok_def u64_max_def)
  from fetch_exact [OF a s _ _ _ o, of "\<lambda>i. ()"]
  have "\<exists>out. reader_fetch (sort_key fst) (object_ops [1, 2, 3, 4, 5])
          \<lparr>or_concurrent = 1, or_chunk = None, or_gap = Some 1\<rparr> (\<lambda>i. ()) [(3, 5), (0, 1), (0, 1)] = Some (Ok out)
        \<and> map buf_bytes out = map (range_bytes [1, 2, 3, 4, 5]) [(3, 5), (0, 1), (0, 1)]" by simp
  moreover have "map (range_bytes [1, 2, 3, 4, 5]) [(3, 5), (0, 1), (0, 1)] = [[4, 5], [1], [1 :: 8 word]]"
    by (simp add: range_bytes_def)
  ultimately show ?thesis using s by (simp only: simp_thms)
qed

text \<open>
  An empty list of ranges makes \<open>fetch\<close> panic: \<open>merge_ranges\<close> takes the first element of
  the sorted list.
\<close>

theorem fetch_empty_panics:
  "sorts srt \<Longrightarrow> reader_fetch srt ops opts ws [] = Some Panic"
proof -
  assume "sorts srt"
  then have "set (srt []) = set []" unfolding sorts_def by blast
  then have "srt [] = []" by simp
  then show ?thesis by (simp add: reader_fetch_def merge_ranges_def)
qed

theorem fetch_empty_panics_witness:
  "sorts (sort_key fst) \<and> reader_fetch (sort_key fst) (object_ops [1]) or_new (\<lambda>i. ()) [] = Some Panic"
  using fetch_empty_panics [of "sort_key fst"] by (simp add: sorts_def)

text \<open>
  A chunk that fails is lost. When the read of a chunk fails without concurrency, the
  error is returned, but the generator has moved on: the reader is left exactly as one that
  was created for the range behind the chunk, so a caller that reads on gets the following
  bytes with no sign of the gap.
\<close>

theorem chunk_error_skips:
  assumes "rg_next_range opts (rg_new off (Some n)) = Ok (Some rng, rg_new off' (Some n'))"
    and "ra_read ops rng w = (Ok rd, w1)" "oio_read_all rd = (Err e, rd')" "or_concurrent opts = 1"
  shows "cr_read ops opts (cr_new opts (BytesRange off (Some n))) w =
    (Err e, cr_new opts (BytesRange off' (Some n')), snd (ra_delay ops w1))"
proof -
  let ?st = "cr_new opts (BytesRange off (Some n))"
  obtain d w2 where d: "ra_delay ops w1 = (d, w2)" by fastforce
  have "cr_fill ops opts ?st w = (Err e, cr_new opts (BytesRange off' (Some n')), w2)"
    using assms d
    by (subst cr_fill.simps)
      (simp add: cr_new_def ct_new_def ct_has_remaining_def rg_next_reader_def ct_execute_def
        ct_is_concurrent_def cr_spawn_def)
  with d show ?thesis by (simp add: cr_read_def)
qed

theorem chunk_error_skips_witness:
  "cr_read \<lparr>ra_read = (\<lambda>rng w. (Ok [Inl (set_temporary (new_error Unexpected ''''))], w)),
      ra_stat = (\<lambda>w. (Ok 4, w)), ra_delay = (\<lambda>w. (0, w))\<rparr>
    \<lparr>or_concurrent = 1, or_chunk = Some 2, or_gap = None\<rparr>
    (cr_new \<lparr>or_concurrent = 1, or_chunk = Some 2, or_gap = None\<rparr> (BytesRange 0 (Some 4))) () =
   (Err (set_temporary (new_error Unexpected '''')),
    cr_new \<lparr>or_concurrent = 1, or_chunk = Some 2, or_gap = None\<rparr> (BytesRange 2 (Some 2)), ())"
proof -
  let ?opts = "\<lparr>or_concurrent = 1, or_chunk = Some 2, or_gap = None\<rparr> :: op_reader"
  have "rg_next_range ?opts (rg_new 0 (Some 4)) = Ok (Some (BytesRange 0 (Some 2)), rg_new 2 (Some 2))"
    by (simp add: rg_next_range_def rg_new_def num_eval)
  from chunk_error_skips [OF this, of
      "\<lparr>ra_read = (\<lambda>rng w. (Ok [Inl (set_temporary (new_error Unexpected ''''))], w)),
        ra_stat = (\<lambda>w. (Ok 4, w)), ra_delay = (\<lambda>w. (0, w))\<rparr>" "()"]
  show ?thesis by (simp add: oio_read_all_def)
qed

end
