(* ===== verification/Adapters.thy ===== *)
theory Adapters
  imports Readers
begin

text \<open>
  The adapters that turn a stream of buffers into the reading interfaces of the standard
  library and of the \<^verbatim>\<open>futures\<close> crate: \<open>FuturesAsyncReader\<close> and \<open>FuturesBytesStream\<close>
  (\<^verbatim>\<open>core/src/types/read\<close>), and the blocking side with \<open>BufferIterator\<close>, \<open>BlockingReader\<close>,
  \<open>StdReader\<close> and \<open>StdBytesIterator\<close> (\<^verbatim>\<open>core/src/types/blocking_read\<close>).

  The two seekable adapters have the same code over different streams. The operations
  below take the stream's \<open>next\<close> and the way a new stream is opened as arguments; the locale
  \<open>buffer_source\<close> states what they rely on, and both streams are instances.
\<close>

subsection \<open>\<open>BufferIterator\<close> and \<open>BlockingReader\<close>\<close>

definition bi_new :: "u64 bound \<Rightarrow> u64 bound \<Rightarrow> streaming_reader res" where
  "bi_new sb eb = and_then (br_from_bounds sb eb) (\<lambda>rng. Ok (sr_new rng))"

definition bi_next ::
  "'w read_ops \<Rightarrow> op_reader \<Rightarrow> streaming_reader \<Rightarrow> 'w \<Rightarrow> (buffer option res \<times> streaming_reader \<times> 'w) option"
  where
  "bi_next ops opts st w =
     map_option (\<lambda>(r, st', w').
       (case r of
          Ok buf \<Rightarrow> if buf_is_empty buf then Ok None else Ok (Some buf)
        | Err err \<Rightarrow> Err err
        | Panic \<Rightarrow> Panic, st', w')) (sr_read ops opts st w)"

text \<open>The blocking reader keeps the size of the object once a \<open>stat\<close> told it.\<close>

definition blocking_parse_range ::
  "'w read_ops \<Rightarrow> u64 bound \<Rightarrow> u64 bound \<Rightarrow> u64 option \<Rightarrow> 'w \<Rightarrow> (u64 \<times> u64) res \<times> u64 option \<times> 'w" where
  "blocking_parse_range ops sb eb known w =
     (case start_of sb of
        Ok start \<Rightarrow>
          (case eb of
             Included v \<Rightarrow> (and_then (u64_add v 1) (\<lambda>e. Ok (start, e)), known, w)
           | Excluded v \<Rightarrow> (Ok (start, v), known, w)
           | Unbounded \<Rightarrow>
               (case known of
                  Some v \<Rightarrow> (Ok (start, v), known, w)
                | None \<Rightarrow>
                    (case ra_stat ops w of
                       (Ok n, w') \<Rightarrow> (Ok (start, n), Some n, w')
                     | (Err err, w') \<Rightarrow> (Err err, known, w')
                     | (Panic, w') \<Rightarrow> (Panic, known, w'))))
      | Err err \<Rightarrow> (Err err, known, w)
      | Panic \<Rightarrow> (Panic, known, w))"

partial_function (option) bi_collect ::
  "'w read_ops \<Rightarrow> op_reader \<Rightarrow> buffer list \<Rightarrow> streaming_reader \<Rightarrow> 'w \<Rightarrow> (buffer list res \<times> 'w) option" where
  "bi_collect ops opts bufs st w =
     (case bi_next ops opts st w of
        None \<Rightarrow> None
      | Some (Ok (Some buf), st', w') \<Rightarrow> bi_collect ops opts (bufs @ [buf]) st' w'
      | Some (Ok None, st', w') \<Rightarrow> Some (Ok bufs, w')
      | Some (Err err, st', w') \<Rightarrow> Some (Err err, w')
      | Some (Panic, st', w') \<Rightarrow> Some (Panic, w'))"

declare bi_collect.simps [code]

definition blocking_read ::
  "'w read_ops \<Rightarrow> op_reader \<Rightarrow> u64 bound \<Rightarrow> u64 bound \<Rightarrow> u64 option \<Rightarrow> 'w
     \<Rightarrow> (buffer res \<times> u64 option \<times> 'w) option" where
  "blocking_read ops opts sb eb known w =
     (case blocking_parse_range ops sb eb known w of
        (Ok (start, e), known', w1) \<Rightarrow>
          (case bi_new (Included start) (Excluded e) of
             Ok st \<Rightarrow>
               map_option (\<lambda>(r, w2). (and_then r collect_bufs, known', w2)) (bi_collect ops opts [] st w1)
           | Err err \<Rightarrow> Some (Err err, known', w1)
           | Panic \<Rightarrow> Some (Panic, known', w1))
      | (Err err, known', w1) \<Rightarrow> Some (Err err, known', w1)
      | (Panic, known', w1) \<Rightarrow> Some (Panic, known', w1))"

subsection \<open>Copying out of a buffer\<close>

text \<open>
  \<^verbatim>\<open>Buf::copy_to_slice\<close> of the \<^verbatim>\<open>bytes\<close> crate copies chunk by chunk until the target, of length
  \<open>n\<close>, is full, and panics when the buffer has fewer bytes.
\<close>

partial_function (option) copy_loop ::
  "('b \<Rightarrow> bytes res) \<Rightarrow> (nat \<Rightarrow> 'b \<Rightarrow> 'b res) \<Rightarrow> nat \<Rightarrow> bytes \<Rightarrow> 'b \<Rightarrow> (bytes \<times> 'b) res option" where
  "copy_loop chunk advance n dst src =
     (if n = 0 then Some (Ok (dst, src))
      else case chunk src of
          Ok s \<Rightarrow>
            (case advance (min (length s) n) src of
               Ok src' \<Rightarrow> copy_loop chunk advance (n - min (length s) n) (dst @ take n s) src'
             | Err e \<Rightarrow> Some (Err e)
             | Panic \<Rightarrow> Some Panic)
        | Err e \<Rightarrow> Some (Err e)
        | Panic \<Rightarrow> Some Panic)"

declare copy_loop.simps [code]

definition copy_to_slice :: "nat \<Rightarrow> buffer \<Rightarrow> (bytes \<times> buffer) res option" where
  "copy_to_slice n src =
     (if n \<le> buf_len src then copy_loop buf_chunk buf_advance n [] src else Some Panic)"

context byte_buf
begin

lemma copy_content:
  "invar b \<Longrightarrow> n \<le> remaining b \<Longrightarrow>
     \<exists>b'. copy_loop chunk advance n dst b = Some (Ok (dst @ take n (content b), b'))
       \<and> invar b' \<and> content b' = drop n (content b)"
proof (induction n arbitrary: b dst rule: less_induct)
  case (less n)
  show ?case
  proof (cases "n = 0")
    case True
    with less.prems show ?thesis by (simp add: copy_loop.simps)
  next
    case False
    obtain c r where c: "chunk b = Ok c" "content b = c @ r" using chunk_prefix less.prems(1) by blast
    have "content b \<noteq> []" using False less.prems by (auto simp: remaining_content)
    then have ne: "c \<noteq> []" using chunk_progress [OF less.prems(1)] c by auto
    let ?k = "min (length c) n"
    have "?k \<le> remaining b" using less.prems by simp
    then obtain b1 where b1: "advance ?k b = Ok b1" "invar b1" "content b1 = drop ?k (content b)"
      using advance_content [OF less.prems(1)] by blast
    have "n - ?k < n" "n - ?k \<le> remaining b1"
      using ne False less.prems b1(2,3) by (auto simp: remaining_content)
    then obtain b' where b': "copy_loop chunk advance (n - ?k) (dst @ take n c) b1
        = Some (Ok ((dst @ take n c) @ take (n - ?k) (content b1), b'))"
      "invar b'" "content b' = drop (n - ?k) (content b1)"
      using less.IH [OF _ b1(2), of "n - ?k" "dst @ take n c"] by blast
    have "(dst @ take n c) @ take (n - ?k) (content b1) = dst @ take n (content b)"
      using b1(3) c(2) by (cases "n \<le> length c") auto
    moreover have "drop (n - ?k) (content b1) = drop n (content b)" using b1(3) by simp
    moreover have "copy_loop chunk advance n dst b = copy_loop chunk advance (n - ?k) (dst @ take n c) b1"
      using False c(1) b1(1) by (simp add: copy_loop.simps [of chunk advance n])
    ultimately show ?thesis using b' by simp
  qed
qed

end

lemma copy_to_slice_Ok:
  assumes "buf_wf b" "parts_nonempty b" "n \<le> buf_len b"
  shows "\<exists>b'. copy_to_slice n b = Some (Ok (take n (buf_bytes b), b')) \<and> buf_wf b' \<and> parts_nonempty b'
    \<and> buf_bytes b' = drop n (buf_bytes b)"
  using whole.copy_content [of b n "[]"] assms by (auto simp: copy_to_slice_def)

subsection \<open>The seekable adapters\<close>

record 's seekable =
  sk_stream :: 's
  sk_buf :: buffer
  sk_start :: u64
  sk_end :: u64
  sk_pos :: u64

type_synonym ('s, 'w) next_op = "'s \<Rightarrow> 'w \<Rightarrow> (buffer option res \<times> 's \<times> 'w) option"

text \<open>Errors leave as the kind \<open>format_std_io_error\<close> gives them.\<close>

type_synonym 'a io_res = "(io_kind, 'a) outcome"

text \<open>
  \<open>fill_buf\<close>: the current chunk. \<open>read\<close>: at most \<open>n\<close> bytes, the length of the caller's
  slice. Both fetch the next buffer when the current one is used up.
\<close>

partial_function (option) sk_fill_buf ::
  "('s, 'w) next_op \<Rightarrow> 's seekable \<Rightarrow> 'w \<Rightarrow> (bytes io_res \<times> 's seekable \<times> 'w) option" where
  "sk_fill_buf next_op st w =
     (if 0 < buf_len (sk_buf st) then
        (case buf_chunk (sk_buf st) of
           Ok c \<Rightarrow> Some (Ok c, st, w)
         | _ \<Rightarrow> Some (Panic, st, w))
      else case next_op (sk_stream st) w of
          None \<Rightarrow> None
        | Some (Ok (Some buf), s', w') \<Rightarrow> sk_fill_buf next_op (st\<lparr>sk_stream := s', sk_buf := buf\<rparr>) w'
        | Some (Ok None, s', w') \<Rightarrow> Some (Ok [], st\<lparr>sk_stream := s'\<rparr>, w')
        | Some (Err err, s', w') \<Rightarrow> Some (Err (format_std_io_kind err), st\<lparr>sk_stream := s'\<rparr>, w')
        | Some (Panic, s', w') \<Rightarrow> Some (Panic, st\<lparr>sk_stream := s'\<rparr>, w'))"

declare sk_fill_buf.simps [code]

definition sk_consume :: "nat \<Rightarrow> 's seekable \<Rightarrow> 's seekable res" where
  "sk_consume amt st =
     and_then (buf_advance amt (sk_buf st)) (\<lambda>buf.
     and_then (u64_add (sk_pos st) (of_nat amt)) (\<lambda>pos.
       Ok (st\<lparr>sk_buf := (if buf_is_empty buf then buf_new else buf), sk_pos := pos\<rparr>)))"

partial_function (option) sk_read ::
  "('s, 'w) next_op \<Rightarrow> nat \<Rightarrow> 's seekable \<Rightarrow> 'w \<Rightarrow> (bytes io_res \<times> 's seekable \<times> 'w) option" where
  "sk_read next_op n st w =
     (if 0 < buf_len (sk_buf st) then
        (let sz = min (buf_len (sk_buf st)) n in
         case copy_to_slice sz (sk_buf st) of
           None \<Rightarrow> None
         | Some (Ok (bs, buf)) \<Rightarrow>
             (case u64_add (sk_pos st) (of_nat sz) of
                Ok pos \<Rightarrow> Some (Ok bs, st\<lparr>sk_buf := buf, sk_pos := pos\<rparr>, w)
              | Err e \<Rightarrow> Some (Err e, st, w)
              | Panic \<Rightarrow> Some (Panic, st, w))
         | Some _ \<Rightarrow> Some (Panic, st, w))
      else case next_op (sk_stream st) w of
          None \<Rightarrow> None
        | Some (Ok (Some buf), s', w') \<Rightarrow> sk_read next_op n (st\<lparr>sk_stream := s', sk_buf := buf\<rparr>) w'
        | Some (Ok None, s', w') \<Rightarrow> Some (Ok [], st\<lparr>sk_stream := s'\<rparr>, w')
        | Some (Err err, s', w') \<Rightarrow> Some (Err (format_std_io_kind err), st\<lparr>sk_stream := s'\<rparr>, w')
        | Some (Panic, s', w') \<Rightarrow> Some (Panic, st\<lparr>sk_stream := s'\<rparr>, w'))"

declare sk_read.simps [code]

text \<open>Signed 64-bit arithmetic with overflow checks; an \<open>i64\<close> is an integer in range.\<close>

definition i64_check :: "int \<Rightarrow> ('e, int) outcome" where
  "i64_check i = guard (- (2 ^ 63) \<le> i \<and> i < 2 ^ 63) (Ok i)"

datatype seek_from = SeekStart u64 | SeekEnd int | SeekCurrent int

definition sk_target :: "seek_from \<Rightarrow> 's seekable \<Rightarrow> int io_res" where
  "sk_target pos st =
     (case pos of
        SeekStart p \<Rightarrow> Ok (sint p)
      | SeekEnd p \<Rightarrow> and_then (i64_check (sint (sk_end st) - sint (sk_start st))) (\<lambda>d. i64_check (d + p))
      | SeekCurrent p \<Rightarrow> i64_check (sint (sk_pos st) + p))"

definition sk_seek ::
  "(u64 \<Rightarrow> u64 \<Rightarrow> u64 \<Rightarrow> 's res) \<Rightarrow> seek_from \<Rightarrow> 's seekable \<Rightarrow> u64 io_res \<times> 's seekable" where
  "sk_seek open_op pos st =
     (case sk_target pos st of
        Ok t \<Rightarrow>
          if t < 0 then (Err IoInvalidInput, st)
          else
            (let new_pos = word_of_int t :: u64 in
             case u64_add (sk_pos st) (of_nat (buf_len (sk_buf st))) :: u64 res of
               Ok lim \<Rightarrow>
                 if sk_pos st \<le> new_pos \<and> new_pos < lim then
                   (case buf_advance (unat (new_pos - sk_pos st)) (sk_buf st) of
                      Ok buf \<Rightarrow> (Ok new_pos, st\<lparr>sk_buf := buf, sk_pos := new_pos\<rparr>)
                    | _ \<Rightarrow> (Panic, st))
                 else
                   (case open_op new_pos (sk_start st) (sk_end st) of
                      Ok s \<Rightarrow> (Ok new_pos, st\<lparr>sk_buf := buf_new, sk_stream := s, sk_pos := new_pos\<rparr>)
                    | _ \<Rightarrow> (Panic, st\<lparr>sk_buf := buf_new\<rparr>))
             | _ \<Rightarrow> (Panic, st))
      | Err e \<Rightarrow> (Err e, st)
      | Panic \<Rightarrow> (Panic, st))"

paragraph \<open>\<open>FuturesAsyncReader\<close> and \<open>StdReader\<close>\<close>

definition fr_new :: "op_reader \<Rightarrow> u64 \<Rightarrow> u64 \<Rightarrow> buffer_stream seekable res" where
  "fr_new opts start e =
     and_then (u64_sub e start) (\<lambda>n.
     and_then (bs_new opts start (Some n)) (\<lambda>bs.
       Ok \<lparr>sk_stream = bs, sk_buf = buf_new, sk_start = start, sk_end = e, sk_pos = 0\<rparr>))"

definition fr_open :: "op_reader \<Rightarrow> u64 \<Rightarrow> u64 \<Rightarrow> u64 \<Rightarrow> buffer_stream res" where
  "fr_open opts new_pos start e =
     and_then (u64_add new_pos start) (\<lambda>off.
     and_then (u64_sub e start) (\<lambda>d.
     and_then (u64_sub d new_pos) (\<lambda>n. bs_new opts off (Some n))))"

definition std_new :: "u64 \<Rightarrow> u64 \<Rightarrow> streaming_reader seekable res" where
  "std_new start e =
     and_then (bi_new (Included start) (Excluded e)) (\<lambda>it.
       Ok \<lparr>sk_stream = it, sk_buf = buf_new, sk_start = start, sk_end = e, sk_pos = 0\<rparr>)"

definition std_open :: "u64 \<Rightarrow> u64 \<Rightarrow> u64 \<Rightarrow> streaming_reader res" where
  "std_open new_pos start e =
     and_then (u64_add new_pos start) (\<lambda>off. bi_new (Included off) (Excluded e))"

definition fr_read ::
  "'w read_ops \<Rightarrow> op_reader \<Rightarrow> nat \<Rightarrow> buffer_stream seekable \<Rightarrow> 'w
     \<Rightarrow> (bytes io_res \<times> buffer_stream seekable \<times> 'w) option" where
  "fr_read ops opts = sk_read (bs_next ops opts)"

definition fr_fill_buf ::
  "'w read_ops \<Rightarrow> op_reader \<Rightarrow> buffer_stream seekable \<Rightarrow> 'w
     \<Rightarrow> (bytes io_res \<times> buffer_stream seekable \<times> 'w) option" where
  "fr_fill_buf ops opts = sk_fill_buf (bs_next ops opts)"

definition fr_seek ::
  "op_reader \<Rightarrow> seek_from \<Rightarrow> buffer_stream seekable \<Rightarrow> u64 io_res \<times> buffer_stream seekable" where
  "fr_seek opts = sk_seek (fr_open opts)"

definition std_read ::
  "'w read_ops \<Rightarrow> op_reader \<Rightarrow> nat \<Rightarrow> streaming_reader seekable \<Rightarrow> 'w
     \<Rightarrow> (bytes io_res \<times> streaming_reader seekable \<times> 'w) option" where
  "std_read ops opts = sk_read (bi_next ops opts)"

definition std_fill_buf ::
  "'w read_ops \<Rightarrow> op_reader \<Rightarrow> streaming_reader seekable \<Rightarrow> 'w
     \<Rightarrow> (bytes io_res \<times> streaming_reader seekable \<times> 'w) option" where
  "std_fill_buf ops opts = sk_fill_buf (bi_next ops opts)"

definition std_seek ::
  "seek_from \<Rightarrow> streaming_reader seekable \<Rightarrow> u64 io_res \<times> streaming_reader seekable" where
  "std_seek = sk_seek std_open"

subsection \<open>A cursor over bytes\<close>

text \<open>
  The specification of a seekable reader: a position in the bytes \<open>d\<close>. A read returns a piece
  of \<open>d\<close> at the position, non-empty unless the caller's slice is empty or \<open>d\<close> has ended, and
  moves behind it; a seek moves to its target.
\<close>

datatype cmd = CRead nat | CSeek seek_from

datatype reply = Got bytes | At nat

definition seek_target :: "nat \<Rightarrow> nat \<Rightarrow> seek_from \<Rightarrow> int" where
  "seek_target len p f =
     (case f of SeekStart q \<Rightarrow> int (unat q) | SeekEnd i \<Rightarrow> int len + i | SeekCurrent i \<Rightarrow> int p + i)"

fun cursor :: "bytes \<Rightarrow> nat \<Rightarrow> cmd list \<Rightarrow> reply list \<Rightarrow> bool" where
  "cursor d p (CRead n # cs) (Got bs # rs) =
     (bs = take (length bs) (drop p d) \<and> length bs \<le> n \<and> (bs = [] \<longrightarrow> n = 0 \<or> length d \<le> p)
      \<and> cursor d (p + length bs) cs rs)"
| "cursor d p (CSeek f # cs) (At q # rs) = (int q = seek_target (length d) p f \<and> q \<le> length d \<and> cursor d q cs rs)"
| "cursor d p cs rs = (rs = [])"

fun cursor_pos :: "nat \<Rightarrow> reply list \<Rightarrow> nat" where
  "cursor_pos p [] = p"
| "cursor_pos p (Got bs # rs) = cursor_pos (p + length bs) rs"
| "cursor_pos p (At q # rs) = cursor_pos q rs"

text \<open>The next command after the replies is a seek that leaves \<open>d\<close>.\<close>

definition seeks_outside :: "nat \<Rightarrow> nat \<Rightarrow> cmd list \<Rightarrow> reply list \<Rightarrow> bool" where
  "seeks_outside len p cs rs =
     (case drop (length rs) cs of
        CSeek f # _ \<Rightarrow> seek_target len (cursor_pos p rs) f < 0 \<or> int len < seek_target len (cursor_pos p rs) f
      | _ \<Rightarrow> False)"

lemma seeks_outside_Cons [simp]:
  "seeks_outside len p (c # cs) (Got bs # rs) = seeks_outside len (p + length bs) cs rs"
  "seeks_outside len p (c # cs) (At q # rs) = seeks_outside len q cs rs"
  unfolding seeks_outside_def cursor_pos.simps by simp_all

text \<open>
  Running commands on an adapter, up to the first one that does not return \<open>Ok\<close>: the replies
  so far and the way it ended.
\<close>

fun sk_run ::
  "('s, 'w) next_op \<Rightarrow> (u64 \<Rightarrow> u64 \<Rightarrow> u64 \<Rightarrow> 's res) \<Rightarrow> cmd list \<Rightarrow> 's seekable \<Rightarrow> 'w
     \<Rightarrow> (reply list \<times> unit io_res) option" where
  "sk_run next_op open_op [] st w = Some ([], Ok ())"
| "sk_run next_op open_op (CRead n # cs) st w =
     (case sk_read next_op n st w of
        None \<Rightarrow> None
      | Some (Ok bs, st', w') \<Rightarrow> map_option (apfst (\<lambda>rs. Got bs # rs)) (sk_run next_op open_op cs st' w')
      | Some (Err k, st', w') \<Rightarrow> Some ([], Err k)
      | Some (Panic, st', w') \<Rightarrow> Some ([], Panic))"
| "sk_run next_op open_op (CSeek f # cs) st w =
     (case sk_seek open_op f st of
        (Ok q, st') \<Rightarrow> map_option (apfst (\<lambda>rs. At (unat q) # rs)) (sk_run next_op open_op cs st' w)
      | (Err k, st') \<Rightarrow> Some ([], Err k)
      | (Panic, st') \<Rightarrow> Some ([], Panic))"

lemma sint_small: "unat (w :: u64) < 2 ^ 63 \<Longrightarrow> sint w = int (unat w)"
proof -
  assume a: "unat w < 2 ^ 63"
  then have "int (unat w) < 2 ^ 63" by (metis of_nat_less_iff of_nat_numeral of_nat_power)
  then have u: "uint w < 2 ^ 63" by (simp only: uint_nat)
  moreover have "0 \<le> uint w" by simp
  ultimately have "- (2 ^ 63) \<le> uint w" by linarith
  with u have "signed_take_bit 63 (uint w) = uint w" by (simp only: signed_take_bit_int_eq_self_iff simp_thms)
  then show ?thesis by (simp add: sint_uint)
qed

lemma sint_big: "2 ^ 63 \<le> unat (w :: u64) \<Longrightarrow> sint w < 0"
proof -
  assume a: "2 ^ 63 \<le> unat w"
  have b: "unat w < 2 ^ 64" using unat_u64_le [of w] by (simp add: u64_max_eq)
  have "unat w div 2 ^ 63 = 1"
    using a b by (intro div_nat_eqI) simp_all
  then have "bit (unat w) 63" by (simp add: bit_iff_odd)
  then have "bit (uint w) 63" by (metis bit_of_nat_iff_bit uint_nat)
  then show ?thesis by (simp add: sint_uint)
qed

lemma unat_word_of_int: "0 \<le> i \<Longrightarrow> i < 2 ^ 64 \<Longrightarrow> int (unat (word_of_int i :: u64)) = i"
  by (simp add: unat_eq_nat_uint uint_word_of_int)

text \<open>The offset of a seek is an \<open>i64\<close>.\<close>

fun cmd_ok :: "cmd \<Rightarrow> bool" where
  "cmd_ok (CSeek (SeekEnd i)) = (- (2 ^ 63) \<le> i \<and> i < 2 ^ 63)"
| "cmd_ok (CSeek (SeekCurrent i)) = (- (2 ^ 63) \<le> i \<and> i < 2 ^ 63)"
| "cmd_ok c = True"

text \<open>What the adapters rely on.\<close>

locale buffer_source =
  fixes next_op :: "('s, 'w) next_op"
    and open_op :: "u64 \<Rightarrow> u64 \<Rightarrow> u64 \<Rightarrow> 's res"
    and content :: bytes
    and invar :: "'s \<Rightarrow> bytes \<Rightarrow> bool"
    and fl :: bool
  assumes next_streams: "invar s rest \<Longrightarrow> \<exists>r s' w'. next_op s w = Some (r, s', w') \<and>
      (case r of
         Ok (Some b) \<Rightarrow> buf_wf b \<and> parts_nonempty b \<and> buf_bytes b \<noteq> []
           \<and> (\<exists>rest'. rest = buf_bytes b @ rest' \<and> invar s' rest')
       | Ok None \<Rightarrow> rest = [] \<and> invar s' []
       | Err e \<Rightarrow> fl
       | Panic \<Rightarrow> False)"
    and open_streams: "unat start \<le> unat e \<Longrightarrow> unat e \<le> length content \<Longrightarrow> unat p \<le> unat e - unat start \<Longrightarrow>
      \<exists>s. open_op p start e = Ok s
        \<and> invar s (take (unat e - unat start - unat p) (drop (unat start + unat p) content))"
    and open_past: "unat start \<le> unat e \<Longrightarrow> unat e - unat start < unat p \<Longrightarrow> open_op p start e = Panic"
begin

text \<open>The adapter stands at \<open>p\<close> in \<open>d\<close>.\<close>

definition sk_inv :: "bytes \<Rightarrow> nat \<Rightarrow> 's seekable \<Rightarrow> bool" where
  "sk_inv d p st = (unat (sk_start st) \<le> unat (sk_end st) \<and> unat (sk_end st) \<le> length content
     \<and> length content < 2 ^ 63
     \<and> d = take (unat (sk_end st) - unat (sk_start st)) (drop (unat (sk_start st)) content)
     \<and> unat (sk_pos st) = p \<and> p \<le> length d
     \<and> buf_wf (sk_buf st) \<and> parts_nonempty (sk_buf st)
     \<and> (\<exists>rest. invar (sk_stream st) rest \<and> drop p d = buf_bytes (sk_buf st) @ rest))"

lemma sk_read_some:
  assumes inv: "sk_inv d p st" and len: "0 < buf_len (sk_buf st)"
  shows "\<exists>bs st'. sk_read next_op n st w = Some (Ok bs, st', w) \<and> bs = take (length bs) (drop p d)
    \<and> length bs \<le> n \<and> (bs = [] \<longrightarrow> n = 0) \<and> sk_inv d (p + length bs) st'"
proof -
  let ?b = "sk_buf st" let ?k = "min (buf_len (sk_buf st)) n"
  have i: "unat (sk_start st) \<le> unat (sk_end st)" "unat (sk_end st) \<le> length content" "length content < 2 ^ 63"
    "d = take (unat (sk_end st) - unat (sk_start st)) (drop (unat (sk_start st)) content)"
    "unat (sk_pos st) = p" "p \<le> length d" "buf_wf ?b" "parts_nonempty ?b"
    using inv unfolding sk_inv_def by blast+
  obtain rest where rest: "invar (sk_stream st) rest" "drop p d = buf_bytes ?b @ rest"
    using inv by (auto simp: sk_inv_def)
  obtain b' where b': "copy_to_slice ?k ?b = Some (Ok (take ?k (buf_bytes ?b), b'))" "buf_wf b'"
    "parts_nonempty b'" "buf_bytes b' = drop ?k (buf_bytes ?b)"
    using copy_to_slice_Ok [OF i(7,8), of ?k] by auto
  have k: "?k \<le> length (buf_bytes ?b)" using i(7) by simp
  have "p + length (buf_bytes ?b) \<le> length d"
    using arg_cong [OF rest(2), of length] i(6) by simp
  moreover have dl: "length d \<le> length content" using i(4) by simp
  ultimately have small: "p + ?k \<le> length d" "p + ?k < 2 ^ 63" using k i(3) by linarith+
  have "unat (of_nat ?k :: u64) = ?k" using small(2) by (simp add: unat_of_nat)
  then have add: "u64_add (sk_pos st) (of_nat ?k) = (Ok (sk_pos st + of_nat ?k) :: u64 io_res)"
    "unat (sk_pos st + of_nat ?k) = p + ?k"
    using u64_add_Ok_iff [of "sk_pos st" "of_nat ?k" "sk_pos st + of_nat ?k"] small(2) i(5)
    by (auto simp: u64_add_def u64_max_def)
  let ?st = "st\<lparr>sk_buf := b', sk_pos := sk_pos st + of_nat ?k\<rparr>"
  have "drop (p + ?k) d = drop ?k (buf_bytes ?b) @ rest"
    using arg_cong [OF rest(2), of "drop ?k"] k by (simp add: add.commute)
  then have "sk_inv d (p + ?k) ?st"
    using i b' add(2) rest(1) small(1) by (auto simp: sk_inv_def)
  moreover have "take ?k (buf_bytes ?b) = take ?k (drop p d)" using rest(2) k by simp
  moreover have "sk_read next_op n st w = Some (Ok (take ?k (buf_bytes ?b)), ?st, w)"
    using len b'(1) add(1) by (simp add: sk_read.simps [of next_op n st w] Let_def)
  moreover have "length (take ?k (buf_bytes ?b)) = ?k" using k by simp
  ultimately show ?thesis using len i(7) by (metis length_greater_0_conv min.cobounded2 min_0R min_def_raw not_less take_eq_Nil)
qed

lemma sk_inv_end: "sk_inv d p st \<Longrightarrow> drop p d = [] \<longleftrightarrow> p = length d"
  by (auto simp: sk_inv_def)

lemma sk_read_cursor:
  assumes inv: "sk_inv d p st"
  shows "\<exists>r st' w'. sk_read next_op n st w = Some (r, st', w') \<and>
    (case r of
       Ok bs \<Rightarrow> bs = take (length bs) (drop p d) \<and> length bs \<le> n \<and> (bs = [] \<longrightarrow> n = 0 \<or> length d \<le> p)
         \<and> sk_inv d (p + length bs) st'
     | Err k \<Rightarrow> fl
     | Panic \<Rightarrow> False)"
proof (cases "0 < buf_len (sk_buf st)")
  case True
  from sk_read_some [OF inv True, of n w] show ?thesis by fastforce
next
  case False
  note unf = sk_read.simps [of next_op n st w]
  obtain rest where rest: "invar (sk_stream st) rest" "drop p d = rest"
    using inv False by (auto simp: sk_inv_def)
  obtain r s' w' where r: "next_op (sk_stream st) w = Some (r, s', w')"
    "case r of Ok (Some b) \<Rightarrow> buf_wf b \<and> parts_nonempty b \<and> buf_bytes b \<noteq> []
           \<and> (\<exists>rest'. rest = buf_bytes b @ rest' \<and> invar s' rest')
       | Ok None \<Rightarrow> rest = [] \<and> invar s' [] | Err e \<Rightarrow> fl | Panic \<Rightarrow> False"
    using next_streams [OF rest(1)] by blast
  consider b where "r = Ok (Some b)" | "r = Ok None" | e where "r = Err e" fl
    using r(2) by (cases r) (auto split: option.splits)
  then show ?thesis
  proof cases
    case (1 b)
    then obtain rest' where b: "buf_wf b" "parts_nonempty b" "buf_bytes b \<noteq> []"
      "rest = buf_bytes b @ rest'" "invar s' rest'" using r(2) by auto
    let ?st = "st\<lparr>sk_stream := s', sk_buf := b\<rparr>"
    have st: "sk_inv d p ?st" "0 < buf_len (sk_buf ?st)" using inv b rest(2) by (auto simp: sk_inv_def)
    obtain bs st' where "sk_read next_op n ?st w' = Some (Ok bs, st', w')"
      "bs = take (length bs) (drop p d)" "length bs \<le> n" "bs = [] \<longrightarrow> n = 0" "sk_inv d (p + length bs) st'"
      using sk_read_some [OF st, of n w'] by (elim exE conjE)
    moreover have "sk_read next_op n st w = sk_read next_op n ?st w'"
      using 1 r(1) False by (simp add: unf)
    ultimately show ?thesis
      by (intro exI [of _ "Ok bs"] exI [of _ st'] exI [of _ w']) (simp only: outcome.case simp_thms, blast)
  next
    case 2
    then have "sk_inv d p (st\<lparr>sk_stream := s'\<rparr>)" "drop p d = []"
      using inv False r(2) rest(2) by (auto simp: sk_inv_def)
    with 2 r(1) False show ?thesis by (simp add: unf)
  next
    case (3 e)
    with r(1) False show ?thesis by (simp add: unf)
  qed
qed

lemma sk_inv_length: "sk_inv d p st \<Longrightarrow> length d = unat (sk_end st) - unat (sk_start st)"
  by (auto simp: sk_inv_def)

lemma sk_target_cases:
  assumes inv: "sk_inv d p st" and ok: "cmd_ok (CSeek f)"
  shows "(\<exists>i. sk_target f st = Ok i \<and> i < 0 \<and> (seek_target (length d) p f < 0 \<or> int (length d) < seek_target (length d) p f))
    \<or> (sk_target f st = Ok (seek_target (length d) p f) \<and> 0 \<le> seek_target (length d) p f \<and> seek_target (length d) p f < 2 ^ 63)
    \<or> (sk_target f st = Panic \<and> int (length d) < seek_target (length d) p f)"
proof -
  have i: "unat (sk_start st) \<le> unat (sk_end st)" "unat (sk_end st) \<le> length content" "length content < 2 ^ 63"
    "unat (sk_pos st) = p" "p \<le> length d"
    using inv unfolding sk_inv_def by blast+
  have len: "length d = unat (sk_end st) - unat (sk_start st)" using inv by (rule sk_inv_length)
  then have d: "length d < 2 ^ 63" "unat (sk_end st) < 2 ^ 63" "unat (sk_start st) < 2 ^ 63" "unat (sk_pos st) < 2 ^ 63"
    using i by linarith+
  have dl: "int (length d) < 2 ^ 63" using d(1) by (metis of_nat_less_iff of_nat_numeral of_nat_power)
  have se: "sint (sk_end st) - sint (sk_start st) = int (length d)"
    using sint_small [OF d(2)] sint_small [OF d(3)] len i(1) by simp
  have sp: "sint (sk_pos st) = int p" using sint_small [OF d(4)] i(4) by simp
  show ?thesis
  proof (cases f)
    case (SeekStart q)
    show ?thesis
    proof (cases "unat q < 2 ^ 63")
      case True
      then have "int (unat q) < 2 ^ 63" by (metis of_nat_less_iff of_nat_numeral of_nat_power)
      then show ?thesis using SeekStart sint_small [OF True] by (simp add: sk_target_def seek_target_def)
    next
      case False
      then have "sint q < 0" "int (length d) < int (unat q)" using sint_big [of q] d(1) by (simp_all only: of_nat_less_iff)
      with SeekStart show ?thesis by (simp add: sk_target_def seek_target_def)
    qed
  next
    case (SeekEnd k)
    with ok dl show ?thesis by (auto simp: sk_target_def seek_target_def se i64_check_def guard_def)
  next
    case (SeekCurrent k)
    with ok dl i(5) show ?thesis by (auto simp: sk_target_def seek_target_def sp i64_check_def guard_def)
  qed
qed

lemma sk_inv_seek_inside:
  assumes inv: "sk_inv d p st" and q: "p \<le> q" "q < p + buf_len (sk_buf st)" and np: "unat new_pos = q"
  shows "\<exists>b. buf_advance (q - p) (sk_buf st) = Ok b \<and> sk_inv d q (st\<lparr>sk_buf := b, sk_pos := new_pos\<rparr>)"
proof -
  obtain rest where rest: "invar (sk_stream st) rest" "drop p d = buf_bytes (sk_buf st) @ rest"
    and b: "buf_wf (sk_buf st)" "parts_nonempty (sk_buf st)" and p: "p \<le> length d"
    using inv unfolding sk_inv_def by blast
  have le: "q - p \<le> buf_len (sk_buf st)" using q by simp
  obtain b' where b': "buf_advance (q - p) (sk_buf st) = Ok b'" "buf_wf b'" "parts_nonempty b'"
    "buf_bytes b' = drop (q - p) (buf_bytes (sk_buf st))"
    using whole.advance_content [of "sk_buf st" "q - p"] b le by auto
  have "drop q d = buf_bytes b' @ rest"
    using arg_cong [OF rest(2), of "drop (q - p)"] q le b(1) b'(4) by simp
  moreover have "q \<le> length d"
    using arg_cong [OF rest(2), of length] q b(1) p by simp
  ultimately show ?thesis using inv b' rest(1) np by (auto simp: sk_inv_def)
qed

lemma sk_inv_open:
  assumes inv: "sk_inv d p st" and q: "unat new_pos \<le> length d"
  shows "\<exists>s. open_op new_pos (sk_start st) (sk_end st) = Ok s
    \<and> sk_inv d (unat new_pos) (st\<lparr>sk_buf := buf_new, sk_stream := s, sk_pos := new_pos\<rparr>)"
proof -
  have i: "unat (sk_start st) \<le> unat (sk_end st)" "unat (sk_end st) \<le> length content"
    "d = take (unat (sk_end st) - unat (sk_start st)) (drop (unat (sk_start st)) content)"
    using inv unfolding sk_inv_def by blast+
  have len: "length d = unat (sk_end st) - unat (sk_start st)" using inv by (rule sk_inv_length)
  obtain s where s: "open_op new_pos (sk_start st) (sk_end st) = Ok s"
    "invar s (take (unat (sk_end st) - unat (sk_start st) - unat new_pos) (drop (unat (sk_start st) + unat new_pos) content))"
    using open_streams [OF i(1,2), of new_pos] q len by auto
  have "drop (unat new_pos) d
      = take (unat (sk_end st) - unat (sk_start st) - unat new_pos) (drop (unat (sk_start st) + unat new_pos) content)"
    by (simp add: i(3) drop_take add.commute)
  with inv s q show ?thesis by (auto simp: sk_inv_def parts_nonempty_def buf_new_def)
qed

lemma sk_seek_cursor:
  assumes inv: "sk_inv d p st" and ok: "cmd_ok (CSeek f)" and r: "sk_seek open_op f st = (r, st')"
  shows "case r of
     Ok q \<Rightarrow> int (unat q) = seek_target (length d) p f \<and> unat q \<le> length d \<and> sk_inv d (unat q) st'
   | Err k \<Rightarrow> seek_target (length d) p f < 0 \<or> int (length d) < seek_target (length d) p f
   | Panic \<Rightarrow> int (length d) < seek_target (length d) p f"
proof -
  let ?t = "seek_target (length d) p f"
  consider i where "sk_target f st = Ok i" "i < 0" "?t < 0 \<or> int (length d) < ?t"
    | "sk_target f st = Ok ?t" "0 \<le> ?t" "?t < 2 ^ 63" | "sk_target f st = Panic" "int (length d) < ?t"
    using sk_target_cases [OF inv ok] by blast
  then show ?thesis
  proof cases
    case 2
    define q where "q = (word_of_int ?t :: u64)"
    have q: "int (unat q) = ?t" unfolding q_def by (rule unat_word_of_int) (use 2 in simp_all)
    obtain rest where rest: "drop p d = buf_bytes (sk_buf st) @ rest" "buf_wf (sk_buf st)" "p \<le> length d"
        "unat (sk_pos st) = p" "length content < 2 ^ 63" "unat (sk_end st) \<le> length content" "unat (sk_start st) \<le> unat (sk_end st)"
      using inv unfolding sk_inv_def by blast
    have len: "length d = unat (sk_end st) - unat (sk_start st)" using inv by (rule sk_inv_length)
    have lim: "p + buf_len (sk_buf st) \<le> length d"
      using arg_cong [OF rest(1), of length] rest(2,3) by simp
    have small: "p + buf_len (sk_buf st) < 2 ^ 63" using lim len rest(5,6) by linarith
    then have "unat (of_nat (buf_len (sk_buf st)) :: u64) = buf_len (sk_buf st)"
      by (simp add: unat_of_nat)
    then have add: "u64_add (sk_pos st) (of_nat (buf_len (sk_buf st)))
        = (Ok (sk_pos st + of_nat (buf_len (sk_buf st))) :: u64 res)"
      "unat (sk_pos st + of_nat (buf_len (sk_buf st))) = p + buf_len (sk_buf st)"
      using u64_add_Ok_iff [of "sk_pos st" "of_nat (buf_len (sk_buf st))" "sk_pos st + of_nat (buf_len (sk_buf st))"]
        small rest(4) by (auto simp: u64_add_def u64_max_def)
    show ?thesis
    proof (cases "p \<le> unat q \<and> unat q < p + buf_len (sk_buf st)")
      case True
      then obtain b where b: "buf_advance (unat q - p) (sk_buf st) = Ok b"
        "sk_inv d (unat q) (st\<lparr>sk_buf := b, sk_pos := q\<rparr>)"
        using sk_inv_seek_inside [OF inv, of "unat q" q] by auto
      have "unat (q - sk_pos st) = unat q - p"
        using True rest(4) u64_sub_unat [of "sk_pos st" q] by simp
      with True b add 2 r rest(4) have "r = Ok q" "st' = st\<lparr>sk_buf := b, sk_pos := q\<rparr>"
        by (auto simp: sk_seek_def q_def [symmetric] word_le_nat_alt word_less_nat_alt)
      with b q lim True show ?thesis by auto
    next
      case False
      then have unf: "sk_seek open_op f st = (case open_op q (sk_start st) (sk_end st) of
            Ok s \<Rightarrow> (Ok q, st\<lparr>sk_buf := buf_new, sk_stream := s, sk_pos := q\<rparr>)
          | _ \<Rightarrow> (Panic, st\<lparr>sk_buf := buf_new\<rparr>))"
        using add 2 rest(4) by (auto simp: sk_seek_def q_def [symmetric] word_le_nat_alt word_less_nat_alt)
      show ?thesis
      proof (cases "unat q \<le> length d")
        case True
        then obtain s where "open_op q (sk_start st) (sk_end st) = Ok s"
          "sk_inv d (unat q) (st\<lparr>sk_buf := buf_new, sk_stream := s, sk_pos := q\<rparr>)"
          using sk_inv_open [OF inv] by blast
        with unf r q True show ?thesis by auto
      next
        case False
        then have "open_op q (sk_start st) (sk_end st) = Panic" using open_past rest(7) len by simp
        moreover have "int (length d) < ?t" using q False by linarith
        ultimately show ?thesis using unf r by auto
      qed
    qed
  qed (use r in \<open>auto simp: sk_seek_def\<close>)
qed

end

context buffer_source
begin

lemma sk_run_cursor:
  "sk_inv d p st \<Longrightarrow> list_all cmd_ok cs \<Longrightarrow>
     \<exists>rs fin. sk_run next_op open_op cs st w = Some (rs, fin) \<and> cursor d p cs rs
       \<and> (case fin of
            Ok u \<Rightarrow> length rs = length cs
          | _ \<Rightarrow> fl \<or> seeks_outside (length d) p cs rs)"
proof (induction cs arbitrary: p st w)
  case Nil
  then show ?case by simp
next
  case (Cons c cs)
  show ?case
  proof (cases c)
    case (CRead n)
    obtain r st' w' where r: "sk_read next_op n st w = Some (r, st', w')"
      "case r of
       Ok bs \<Rightarrow> bs = take (length bs) (drop p d) \<and> length bs \<le> n \<and> (bs = [] \<longrightarrow> n = 0 \<or> length d \<le> p)
         \<and> sk_inv d (p + length bs) st'
     | Err k \<Rightarrow> fl | Panic \<Rightarrow> False"
      using sk_read_cursor [OF Cons.prems(1), of n w] by (elim exE conjE)
    show ?thesis
    proof (cases r)
      case (Ok bs)
      with r have "sk_inv d (p + length bs) st'" by simp
      from Cons.IH [OF this, of w'] Cons.prems(2) obtain rs fin where
        "sk_run next_op open_op cs st' w' = Some (rs, fin)" "cursor d (p + length bs) cs rs"
        "case fin of Ok u \<Rightarrow> length rs = length cs
          | _ \<Rightarrow> fl \<or> seeks_outside (length d) (p + length bs) cs rs" by auto
      with CRead Ok r show ?thesis by (cases fin) auto
    qed (use CRead r in auto)
  next
    case (CSeek f)
    obtain r st' where r: "sk_seek open_op f st = (r, st')" by fastforce
    have ok: "cmd_ok (CSeek f)" using Cons.prems(2) CSeek by simp
    note s = sk_seek_cursor [OF Cons.prems(1) ok r]
    show ?thesis
    proof (cases r)
      case (Ok q)
      with s have q: "int (unat q) = seek_target (length d) p f" "unat q \<le> length d" "sk_inv d (unat q) st'" by auto
      from Cons.IH [OF q(3), of w] Cons.prems(2) obtain rs fin where
        "sk_run next_op open_op cs st' w = Some (rs, fin)" "cursor d (unat q) cs rs"
        "case fin of Ok u \<Rightarrow> length rs = length cs
          | _ \<Rightarrow> fl \<or> seeks_outside (length d) (unat q) cs rs" by auto
      with CSeek Ok r q show ?thesis by (cases fin) auto
    qed (use CSeek r s in \<open>auto simp: seeks_outside_def\<close>)
  qed
qed

end

subsection \<open>Both streams are sources\<close>

lemma fr_open_Ok:
  assumes "unat start \<le> unat e" "unat p \<le> unat e - unat start"
  shows "\<exists>off n. fr_open opts p start e = Ok (bs_of_range opts (BytesRange off (Some n)))
    \<and> unat off = unat start + unat p \<and> unat n = unat e - unat start - unat p"
proof -
  have "unat p + unat start \<le> unat e" using assms by linarith
  then have add: "u64_add p start = (Ok (p + start) :: u64 res)" "unat (p + start) = unat p + unat start"
    using u64_add_Ok_iff [of p start "p + start"] unat_u64_le [of e] by (auto simp: u64_add_def)
  have d: "u64_sub e start = (Ok (e - start) :: u64 res)" "unat (e - start) = unat e - unat start"
    using u64_sub_unat assms(1) by auto
  have n: "u64_sub (e - start) p = (Ok (e - start - p) :: u64 res)"
    "unat (e - start - p) = unat e - unat start - unat p"
    using u64_sub_unat [of p "e - start"] d(2) assms(2) by auto
  have "fr_open opts p start e = Ok (bs_of_range opts (BytesRange (p + start) (Some (e - start - p))))"
    using add(1) d(1) n(1) by (simp add: fr_open_def bs_new_def)
  with add(2) n(2) show ?thesis by (metis add.commute)
qed

lemma fr_open_past:
  assumes "unat start \<le> unat e" "unat e - unat start < unat p"
  shows "fr_open opts p start e = Panic"
proof -
  have d: "u64_sub e start = (Ok (e - start) :: u64 res)" "unat (e - start) = unat e - unat start"
    using u64_sub_unat assms(1) by auto
  then have "u64_sub (e - start) p = (Panic :: u64 res)" using assms(2) by (simp add: u64_sub_Panic_iff)
  with d(1) show ?thesis by (cases "u64_add p start :: u64 res") (auto simp: fr_open_def u64_add_def guard_def split: if_splits)
qed

lemma bi_new_Ok:
  "unat off \<le> unat e \<Longrightarrow> bi_new (Included off) (Excluded e) = Ok (sr_new (BytesRange off (Some (e - off))))"
  using u64_sub_unat [of off e] by (simp add: bi_new_def br_from_bounds_def)

lemma std_open_Ok:
  assumes "unat start \<le> unat e" "unat p \<le> unat e - unat start"
  shows "\<exists>off n. std_open p start e = Ok (sr_new (BytesRange off (Some n)))
    \<and> unat off = unat start + unat p \<and> unat n = unat e - unat start - unat p"
proof -
  have le: "unat p + unat start \<le> unat e" using assms by linarith
  then have add: "u64_add p start = (Ok (p + start) :: u64 res)" "unat (p + start) = unat p + unat start"
    using u64_add_Ok_iff [of p start "p + start"] unat_u64_le [of e] by (auto simp: u64_add_def)
  moreover have "unat (e - (p + start)) = unat e - unat start - unat p"
    using u64_sub_unat [of "p + start" e] add(2) le by simp
  moreover have "std_open p start e = Ok (sr_new (BytesRange (p + start) (Some (e - (p + start)))))"
    using bi_new_Ok [of "p + start" e] le add by (simp add: std_open_def)
  ultimately show ?thesis by (metis add.commute)
qed

lemma std_open_past:
  assumes "unat start \<le> unat e" "unat e - unat start < unat p"
  shows "std_open p start e = Panic"
proof (cases "u64_add p start :: u64 res")
  case (Ok off)
  then have "unat e < unat off" using assms by (simp add: u64_add_Ok_iff)
  then have "u64_sub e off = (Panic :: u64 res)" by (simp add: u64_sub_Panic_iff)
  with Ok show ?thesis by (simp add: std_open_def bi_new_def br_from_bounds_def)
qed (auto simp: std_open_def u64_add_def guard_def split: if_splits)

context accessor
begin

lemma fr_next:
  assumes np and chunk: "or_chunk opts \<noteq> Some 0" and inv: "bs_inv True s rest"
  shows "\<exists>r s' w'. bs_next ops opts s w = Some (r, s', w') \<and>
      (case r of
         Ok (Some b) \<Rightarrow> buf_wf b \<and> parts_nonempty b \<and> buf_bytes b \<noteq> []
           \<and> (\<exists>rest'. rest = buf_bytes b @ rest' \<and> bs_inv True s' rest')
       | Ok None \<Rightarrow> rest = [] \<and> bs_inv True s' [] | Err e \<Rightarrow> fl | Panic \<Rightarrow> False)"
proof -
  obtain r s' w' where r: "bs_next ops opts s w = Some (r, s', w')" "streams True rest r s'"
    using bs_next_streams [OF inv chunk] by blast
  consider b where "r = Ok (Some b)" | "r = Ok None" | e where "r = Err e" | "r = Panic"
    by (metis outcome.exhaust option.exhaust)
  then show ?thesis
  proof cases
    case 1
    with r \<open>np\<close> show ?thesis unfolding streams_def solid_def by auto
  qed (use r in \<open>auto simp: streams_def\<close>)
qed

lemma bi_next_bs: "bi_next ops opts st w = map_option (\<lambda>(r, bs, w'). (r, case bs of One st' \<Rightarrow> st' | Two c \<Rightarrow> st, w'))
    (bs_next ops opts (One st) w)"
  by (cases "sr_read ops opts st w") (auto simp: bi_next_def bs_next_def)

lemma bi_next:
  assumes np and chunk: "or_chunk opts \<noteq> Some 0" and inv: "sr_inv True s rest"
  shows "\<exists>r s' w'. bi_next ops opts s w = Some (r, s', w') \<and>
      (case r of
         Ok (Some b) \<Rightarrow> buf_wf b \<and> parts_nonempty b \<and> buf_bytes b \<noteq> []
           \<and> (\<exists>rest'. rest = buf_bytes b @ rest' \<and> sr_inv True s' rest')
       | Ok None \<Rightarrow> rest = [] \<and> sr_inv True s' [] | Err e \<Rightarrow> fl | Panic \<Rightarrow> False)"
proof -
  obtain r s' w' where r: "sr_read ops opts s w = Some (r, s', w')" "delivers True (sr_inv True) rest r s'"
    using sr_read_delivers [OF chunk inv] by blast
  show ?thesis
  proof (cases r)
    case (Ok b)
    with r have b: "solid np b" "\<exists>rest'. rest = buf_bytes b @ rest' \<and> sr_inv True s' rest'"
      "buf_bytes b = [] \<longrightarrow> rest = []" unfolding delivers_def by auto
    with \<open>np\<close> have "buf_wf b" "parts_nonempty b" unfolding solid_def by auto
    with r(1) Ok b(2,3) solid_is_empty [OF b(1)] show ?thesis
      by (cases "buf_bytes b = []") (simp_all add: bi_next_def)
  next
    case (Err e)
    with r(2) have fl unfolding delivers_def by simp
    with r(1) Err show ?thesis by (simp add: bi_next_def)
  qed (use r in \<open>simp_all add: bi_next_def delivers_def\<close>)
qed

end

context accessor
begin

lemma fr_source:
  assumes np "or_chunk opts \<noteq> Some 0" and conc: "0 < or_concurrent opts"
  shows "buffer_source (bs_next ops opts) (fr_open opts) content (bs_inv True) fl"
proof
  show "\<exists>s. fr_open opts p start e = Ok s
      \<and> bs_inv True s (take (unat e - unat start - unat p) (drop (unat start + unat p) content))"
    if le: "unat start \<le> unat e" "unat e \<le> length content" "unat p \<le> unat e - unat start" for start e p
  proof -
    from fr_open_Ok [OF le(1,3), of opts] obtain off n where
      o: "fr_open opts p start e = Ok (bs_of_range opts (BytesRange off (Some n)))"
      "unat off = unat start + unat p" "unat n = unat e - unat start - unat p" by blast
    have "bs_inv True (bs_of_range opts (BytesRange off (Some n))) (take (unat n) (drop (unat off) content))"
      using o(2,3) le unat_u64_le [of e] conc by (intro bs_of_range_inv) simp_all
    with o show ?thesis by simp
  qed
qed (use fr_next [OF assms(1,2)] fr_open_past in blast)+

lemma std_source:
  assumes np "or_chunk opts \<noteq> Some 0"
  shows "buffer_source (bi_next ops opts) std_open content (sr_inv True) fl"
proof
  show "\<exists>s. std_open p start e = Ok s
      \<and> sr_inv True s (take (unat e - unat start - unat p) (drop (unat start + unat p) content))"
    if le: "unat start \<le> unat e" "unat e \<le> length content" "unat p \<le> unat e - unat start" for start e p
  proof -
    from std_open_Ok [OF le(1,3)] obtain off n where
      o: "std_open p start e = Ok (sr_new (BytesRange off (Some n)))"
      "unat off = unat start + unat p" "unat n = unat e - unat start - unat p" by blast
    have "sr_inv True (sr_new (BytesRange off (Some n))) (take (unat n) (drop (unat off) content))"
      using o(2,3) le unat_u64_le [of e]
      by (simp add: sr_inv_def sr_new_def rg_new_def rg_ok_def rg_inside_def br_inside_def rg_rest_def br_select_def)
    with o show ?thesis by simp
  qed
qed (use bi_next [OF assms(1,2)] std_open_past in blast)+

end

lemma or_with_ok [simp]:
  "0 < or_concurrent (or_with_concurrent k o')" "or_chunk (or_with_chunk n o') \<noteq> Some 0"
  "or_concurrent (or_with_chunk n o') = or_concurrent o'" "or_chunk (or_with_concurrent k o') = or_chunk o'"
  by (auto simp: or_with_concurrent_def or_with_chunk_def max_def)

interpretation objf: buffer_source "bs_next (object_ops c) (or_with_chunk n (or_with_concurrent k or_new))"
  "fr_open (or_with_chunk n (or_with_concurrent k or_new))" c "obj.bs_inv c True" False for c n k
  by (rule obj.fr_source) simp_all

interpretation objs: buffer_source "bi_next (object_ops c) (or_with_chunk n or_new)" std_open c
  "obj.sr_inv c True" False for c n
  by (rule obj.std_source) simp_all

subsection \<open>\<open>FuturesBytesStream\<close> and \<open>StdBytesIterator\<close>\<close>

text \<open>
  The adapters that hand out the parts of the buffers one by one: the state is the stream and
  the buffer in use.
\<close>

partial_function (option) parts_next ::
  "('s, 'w) next_op \<Rightarrow> 's \<times> buffer \<Rightarrow> 'w \<Rightarrow> (bytes option io_res \<times> ('s \<times> buffer) \<times> 'w) option" where
  "parts_next next_op st w =
     (case buf_next (snd st) of
        Ok (Some bs, buf) \<Rightarrow> Some (Ok (Some bs), (fst st, buf), w)
      | Ok (None, buf) \<Rightarrow>
          (case next_op (fst st) w of
             None \<Rightarrow> None
           | Some (Ok (Some buf'), s', w') \<Rightarrow> parts_next next_op (s', buf') w'
           | Some (Ok None, s', w') \<Rightarrow> Some (Ok None, (s', buf), w')
           | Some (Err err, s', w') \<Rightarrow> Some (Err (format_std_io_kind err), (s', buf), w')
           | Some (Panic, s', w') \<Rightarrow> Some (Panic, (s', buf), w'))
      | _ \<Rightarrow> Some (Panic, st, w))"

declare parts_next.simps [code]

context buffer_source
begin

text \<open>
  Each call returns the next bytes, which are not empty, or ends exactly when everything was
  returned.
\<close>

lemma parts_next_some:
  assumes b: "buf_wf b" "parts_nonempty b" "buf_bytes b \<noteq> []" and inv: "invar s rest"
  shows "\<exists>c b'. parts_next next_op (s, b) w = Some (Ok (Some c), (s, b'), w) \<and> c \<noteq> []
    \<and> buf_wf b' \<and> parts_nonempty b' \<and> buf_bytes b = c @ buf_bytes b'"
proof -
  obtain c b' where n: "buf_next b = Ok (Some c, b')" "buf_wf b'" "buf_bytes b = c @ buf_bytes b'"
    using buf_next_wf [OF b(1)] b(3) by blast
  with buf_next_nonempty [OF b(1,2) n(1)] show ?thesis by (simp add: parts_next.simps)
qed

lemma parts_next_stream:
  assumes b: "buf_wf b" "parts_nonempty b" and inv: "invar s rest"
  shows "\<exists>r s' b' w'. parts_next next_op (s, b) w = Some (r, (s', b'), w') \<and>
    (case r of
       Ok (Some c) \<Rightarrow> c \<noteq> [] \<and> buf_wf b' \<and> parts_nonempty b'
         \<and> (\<exists>rest'. invar s' rest' \<and> buf_bytes b @ rest = c @ buf_bytes b' @ rest')
     | Ok None \<Rightarrow> buf_bytes b @ rest = []
     | Err k \<Rightarrow> fl
     | Panic \<Rightarrow> False)"
proof (cases "buf_bytes b = []")
  case False
  from parts_next_some [OF b False inv, of w] inv show ?thesis by fastforce
next
  case True
  then have n: "buf_next b = Ok (None, b)" using buf_next_wf [OF b(1)] by auto
  obtain r s' w' where r: "next_op s w = Some (r, s', w')"
    "case r of Ok (Some b) \<Rightarrow> buf_wf b \<and> parts_nonempty b \<and> buf_bytes b \<noteq> []
           \<and> (\<exists>rest'. rest = buf_bytes b @ rest' \<and> invar s' rest')
       | Ok None \<Rightarrow> rest = [] \<and> invar s' [] | Err e \<Rightarrow> fl | Panic \<Rightarrow> False"
    using next_streams [OF inv] by blast
  note unf = parts_next.simps [of next_op "(s, b)" w]
  consider b1 where "r = Ok (Some b1)" | "r = Ok None" | e where "r = Err e" fl
    using r(2) by (cases r) (auto split: option.splits)
  then show ?thesis
  proof cases
    case (1 b1)
    then obtain rest' where b1: "buf_wf b1" "parts_nonempty b1" "buf_bytes b1 \<noteq> []"
      "rest = buf_bytes b1 @ rest'" "invar s' rest'" using r(2) by auto
    from parts_next_some [OF b1(1-3,5), of w'] obtain c b' where
      c: "parts_next next_op (s', b1) w' = Some (Ok (Some c), (s', b'), w')" "c \<noteq> []" "buf_wf b'"
      "parts_nonempty b'" "buf_bytes b1 = c @ buf_bytes b'" by blast
    have "parts_next next_op (s, b) w = Some (Ok (Some c), (s', b'), w')"
      using 1 r(1) n c(1) by (simp add: unf)
    moreover have "buf_bytes b @ rest = c @ buf_bytes b' @ rest'" using True b1(4) c(5) by simp
    ultimately show ?thesis using c(2-4) b1(5) by fastforce
  next
    case 2
    with r n True show ?thesis by (simp add: unf)
  next
    case (3 e)
    with r(1) n show ?thesis by (simp add: unf)
  qed
qed

end

subsection \<open>Properties\<close>


lemma range_bytes_length: "unat s \<le> unat e \<Longrightarrow> unat e \<le> length c \<Longrightarrow> length (range_bytes c (s, e)) = unat e - unat s"
  by (simp add: range_bytes_def)

context buffer_source
begin

text \<open>An adapter that was just created: \<open>new\<close> opens the stream as a seek to the start does.\<close>

lemma sk_inv_new:
  assumes le: "unat start \<le> unat e" "unat e \<le> length content" "length content < 2 ^ 63"
    and o: "open_op 0 start e = Ok s"
  shows "sk_inv (range_bytes content (start, e)) 0
    \<lparr>sk_stream = s, sk_buf = buf_new, sk_start = start, sk_end = e, sk_pos = 0\<rparr>"
  using open_streams [OF le(1,2), of 0] o le
  by (auto simp: sk_inv_def range_bytes_def parts_nonempty_def buf_new_def)

end

lemma fr_new_open:
  "fr_new opts start e = Ok st \<Longrightarrow> unat start \<le> unat e \<and> (\<exists>s. fr_open opts 0 start e = Ok s
     \<and> st = \<lparr>sk_stream = s, sk_buf = buf_new, sk_start = start, sk_end = e, sk_pos = 0\<rparr>)"
  using u64_sub_unat [of start e]
  by (auto simp: fr_new_def fr_open_def outcome_simps u64_sub_def u64_add_def guard_def unat_u64_le split: if_splits)

lemma std_new_open:
  "std_new start e = Ok st \<Longrightarrow> unat start \<le> unat e \<and> (\<exists>s. std_open 0 start e = Ok s
     \<and> st = \<lparr>sk_stream = s, sk_buf = buf_new, sk_start = start, sk_end = e, sk_pos = 0\<rparr>)"
  by (auto simp: std_new_def std_open_def bi_new_def br_from_bounds_def outcome_simps u64_sub_def u64_add_def
      guard_def unat_u64_le split: if_splits)



text \<open>
  The blocking seekable reader is a cursor: the same for \<open>StdReader\<close>.
\<close>

theorem std_reader_cursor:
  assumes "accessor ops content True fl" "or_chunk opts \<noteq> Some 0"
    and "std_new start e = Ok st" "unat e \<le> length content" "length content < 2 ^ 63"
    and "list_all cmd_ok cs"
  shows "\<exists>rs fin. sk_run (bi_next ops opts) std_open cs st w = Some (rs, fin)
    \<and> cursor (range_bytes content (start, e)) 0 cs rs
    \<and> (case fin of Ok u \<Rightarrow> length rs = length cs
       | _ \<Rightarrow> fl \<or> seeks_outside (length (range_bytes content (start, e))) 0 cs rs)"
proof -
  have src: "buffer_source (bi_next ops opts) std_open content (accessor.sr_inv content True fl True) fl"
    by (rule accessor.std_source [OF assms(1)]) (use assms in simp_all)
  obtain s where s: "unat start \<le> unat e" "std_open 0 start e = Ok s"
    "st = \<lparr>sk_stream = s, sk_buf = buf_new, sk_start = start, sk_end = e, sk_pos = 0\<rparr>"
    using std_new_open [OF assms(3)] by blast
  from buffer_source.sk_run_cursor [OF src buffer_source.sk_inv_new [OF src s(1) assms(4,5) s(2)] assms(6)]
  show ?thesis unfolding s(3) .
qed

theorem std_reader_cursor_witness:
  "\<exists>st rs fin. std_new 1 4 = Ok st
    \<and> sk_run (bi_next (object_ops [1, 2, 3, 4, 5]) or_new) std_open [CSeek (SeekCurrent 2), CRead 1] st () = Some (rs, fin)
    \<and> cursor [2, 3, 4] 0 [CSeek (SeekCurrent 2), CRead 1] rs"
proof -
  let ?c = "[1, 2, 3, 4, 5] :: bytes"
  have "\<exists>st. std_new 1 4 = Ok st"
    by (simp add: std_new_def bi_new_def br_from_bounds_def num_eval)
  then obtain st where st: "std_new 1 4 = Ok st" by blast
  have o: "or_chunk or_new \<noteq> Some 0" by (simp add: or_new_def)
  have c: "unat (4 :: u64) \<le> length ?c" "length ?c < 2 ^ 63"
    "list_all cmd_ok [CSeek (SeekCurrent 2), CRead 1]" by simp_all
  have d: "range_bytes ?c (1, 4) = [2, 3, 4]" by (simp add: range_bytes_def)
  from std_reader_cursor [OF obj.accessor_axioms o st c, of "()"] st show ?thesis
    unfolding d by blast
qed

text \<open>
  A failed open ends the file. When the request of a blocking reader without chunks fails,
  \<open>StdReader::read\<close> reports the error, as \<^verbatim>\<open>Interrupted\<close> unless the object is missing or
  access is denied, but the request is not made again: every later read of the same reader
  returns zero bytes, the end of the file. Callers that retry interrupted reads, as
  \<^verbatim>\<open>std::io::Read::read_to_end\<close> does, thus take the failure for the end of the data.
\<close>

theorem std_read_retry_truncates:
  assumes "or_chunk opts = None" "std_new start e = Ok st" "unat start < unat e"
    and "ra_read ops (BytesRange start (Some (e - start))) w = (Err err, w1)"
  shows "\<exists>st'. std_read ops opts n st w = Some (Err (format_std_io_kind err), st', w1)
    \<and> (\<forall>m w2. std_read ops opts m st' w2 = Some (Ok [], st', w2))"
proof -
  have le: "unat start \<le> unat e" using assms(3) by simp
  let ?g = "rg_new (start + (e - start)) (Some 0)"
  have st: "st = \<lparr>sk_stream = sr_new (BytesRange start (Some (e - start))), sk_buf = buf_new,
      sk_start = start, sk_end = e, sk_pos = 0\<rparr>"
    using assms(2) bi_new_Ok [OF le] by (simp add: std_new_def)
  have "unat (e - start) \<noteq> 0" using u64_sub_unat [OF le] assms(3) by simp
  then have ne: "e - start \<noteq> 0" by auto
  have "unat start + unat (e - start) \<le> u64_max" using u64_sub_unat [OF le] le unat_u64_le [of e] by simp
  then have g: "rg_next_range opts (rg_new start (Some (e - start)))
      = Ok (Some (BytesRange start (Some (e - start))), ?g)"
    using ne assms(1) by (simp add: rg_next_range_def rg_new_def u64_add_def u64_sub_def)
  let ?st = "st\<lparr>sk_stream := \<lparr>sr_generator = ?g, sr_reader = None\<rparr>\<rparr>"
  have "std_read ops opts n st w = Some (Err (format_std_io_kind err), ?st, w1)"
    using g assms(4)
    by (simp add: std_read_def sk_read.simps [of _ n] st bi_next_def sr_read.simps sr_new_def rg_next_reader_def
        buf_len_def buf_new_def)
  moreover have "std_read ops opts m ?st w2 = Some (Ok [], ?st, w2)" for m w2
    by (simp add: std_read_def sk_read.simps [of _ m] st bi_next_def sr_read.simps rg_next_reader_def
        rg_next_range_def rg_new_def buf_len_def buf_new_def buf_is_empty_def)
  ultimately show ?thesis by blast
qed

theorem std_read_retry_truncates_witness:
  "\<exists>st st'. std_new 0 4 = Ok st
    \<and> std_read \<lparr>ra_read = (\<lambda>rng w. (Err (new_error RateLimited []), w)), ra_stat = (\<lambda>w. (Ok 4, w)),
        ra_delay = (\<lambda>w. (0, w))\<rparr> or_new 8 st () = Some (Err IoInterrupted, st', ())
    \<and> std_read \<lparr>ra_read = (\<lambda>rng w. (Err (new_error RateLimited []), w)), ra_stat = (\<lambda>w. (Ok 4, w)),
        ra_delay = (\<lambda>w. (0, w))\<rparr> or_new 8 st' () = Some (Ok [], st', ())"
proof -
  let ?ops = "\<lparr>ra_read = (\<lambda>rng w. (Err (new_error RateLimited []), w)), ra_stat = (\<lambda>w. (Ok 4, w)),
        ra_delay = (\<lambda>w. (0, w))\<rparr> :: unit read_ops"
  obtain st where st: "std_new 0 4 = Ok st"
    using bi_new_Ok [of 0 4] by (simp add: std_new_def)
  have "\<exists>st'. std_read ?ops or_new 8 st () = Some (Err (format_std_io_kind (new_error RateLimited [])), st', ())
    \<and> (\<forall>m w2. std_read ?ops or_new m st' w2 = Some (Ok [], st', w2))"
    by (rule std_read_retry_truncates [OF _ st]) (simp_all add: or_new_def)
  then show ?thesis using st by (auto simp: format_std_io_kind_def)
qed

text \<open>
  Seeking behind the end panics. \<^verbatim>\<open>AsyncSeek\<close> allows a position behind the end; a
  \<open>FuturesAsyncReader\<close> computes the length that is left by a subtraction that underflows.
\<close>

theorem seek_past_end_panics:
  assumes "fr_new opts start e = Ok st" "unat e < 2 ^ 63" "unat e - unat start < unat q" "unat q < 2 ^ 63"
  shows "fst (fr_seek opts (SeekStart q) st) = Panic"
proof -
  obtain s where s: "unat start \<le> unat e"
    "st = \<lparr>sk_stream = s, sk_buf = buf_new, sk_start = start, sk_end = e, sk_pos = 0\<rparr>"
    using fr_new_open [OF assms(1)] by blast
  have "word_of_int (sint q) = q" by simp
  with s fr_open_past [OF s(1) assms(3), of opts] sint_small [OF assms(4)] show ?thesis
    by (auto simp: fr_seek_def sk_seek_def sk_target_def buf_len_def buf_new_def u64_add_def u64_max_def)
qed

theorem seek_past_end_panics_witness:
  "\<exists>st. fr_new or_new 0 4 = Ok st \<and> fst (fr_seek or_new (SeekStart 5) st) = Panic"
proof -
  have "\<exists>st. fr_new or_new 0 4 = Ok st"
    by (simp add: fr_new_def bs_new_def or_new_def num_eval)
  then obtain st where st: "fr_new or_new 0 4 = Ok st" by blast
  from seek_past_end_panics [OF st, of 5] st show ?thesis by auto
qed

end
