(* ===== verification/KvStores.thy ===== *)
theory KvStores
  imports Readers Writers Accessors
begin

text \<open>
  Services over a key-value store: the adapter interfaces and backends of
  \<^verbatim>\<open>core/src/raw/adapters/kv\<close> and \<^verbatim>\<open>core/src/raw/adapters/typed_kv\<close>, and the memory service
  \<^verbatim>\<open>core/src/services/memory/backend.rs\<close>, whose \<^verbatim>\<open>BTreeMap\<close> is a list of pairs with strictly
  increasing keys. The lock around the map serialises the calls, so each call is one step on
  the map. Blocking and asynchronous operations have the same code.

  An adapter is the record of its operations over a store \<open>'w\<close>. The locale \<open>kv_store\<close> says
  what a backend relies on, a map from keys to values behind the store; the memory adapter is
  an instance.
\<close>

subsection \<open>Ordered maps\<close>

type_synonym 'v btree_map = "(string \<times> 'v) list"

definition bt_ok :: "'v btree_map \<Rightarrow> bool" where
  "bt_ok m = sorted_wrt (<) (map fst m)"

fun bt_insert :: "string \<Rightarrow> 'v \<Rightarrow> 'v btree_map \<Rightarrow> 'v btree_map" where
  "bt_insert k v [] = [(k, v)]"
| "bt_insert k v ((k', v') # m) =
     (if k < k' then (k, v) # (k', v') # m
      else if k = k' then (k, v) # m
      else (k', v') # bt_insert k v m)"

fun bt_remove :: "string \<Rightarrow> 'v btree_map \<Rightarrow> 'v btree_map" where
  "bt_remove k [] = []"
| "bt_remove k ((k', v') # m) = (if k = k' then m else (k', v') # bt_remove k m)"

text \<open>The entries from a key on (\<^verbatim>\<open>range(key..)\<close>).\<close>

fun bt_from :: "string \<Rightarrow> 'v btree_map \<Rightarrow> 'v btree_map" where
  "bt_from k [] = []"
| "bt_from k ((k', v') # m) = (if k' < k then bt_from k m else (k', v') # m)"

lemma bt_ok_Cons [simp]: "bt_ok ((k, v) # m) \<longleftrightarrow> (\<forall>x \<in> fst ` set m. k < x) \<and> bt_ok m"
  by (simp add: bt_ok_def)

lemma bt_ok_Nil [simp]: "bt_ok []"
  by (simp add: bt_ok_def)

lemma bt_insert_keys: "fst ` set (bt_insert k v m) = insert k (fst ` set m)"
  by (induction k v m rule: bt_insert.induct) (simp_all add: insert_commute)

lemma bt_insert_ok: "bt_ok m \<Longrightarrow> bt_ok (bt_insert k v m)"
proof (induction m)
  case (Cons p m)
  obtain k' v' where p: "p = (k', v')" by fastforce
  with Cons show ?case
    by (cases "k < k'"; cases "k = k'") (auto simp: bt_insert_keys intro: less_trans dest: not_less_iff_gr_or_eq [THEN iffD1])
qed simp

lemma bt_insert_map: "map_of (bt_insert k v m) = (map_of m)(k \<mapsto> v)"
  by (induction m) (auto simp: fun_eq_iff)

lemma bt_remove_keys: "x \<in> fst ` set (bt_remove k m) \<Longrightarrow> x \<in> fst ` set m"
  by (induction k m rule: bt_remove.induct) (auto split: if_splits)

lemma bt_remove_ok: "bt_ok m \<Longrightarrow> bt_ok (bt_remove k m)"
proof (induction m)
  case (Cons p m)
  obtain k' v' where p: "p = (k', v')" by fastforce
  have "k' < x" if "x \<in> fst ` set (bt_remove k m)" for x
    using Cons.prems p bt_remove_keys [OF that] by auto
  with Cons p show ?case by auto
qed simp

lemma bt_remove_map:
  assumes "bt_ok m"
  shows "map_of (bt_remove k m) = (map_of m)(k := None)"
  using assms
proof (induction m)
  case (Cons p m)
  obtain k' v' where p: "p = (k', v')" by fastforce
  have "k' \<notin> fst ` set m" using Cons.prems p by auto
  then have "map_of m k' = None" by (simp add: map_of_eq_None_iff)
  with Cons p show ?case by (auto simp: fun_eq_iff)
qed simp

subsection \<open>Prefixes and the order of keys\<close>

lemma starts_with_ge: "starts_with s p \<Longrightarrow> p \<le> (s :: string)"
proof -
  assume "starts_with s p"
  then obtain r where "s = p @ r" by (auto simp: starts_with_iff)
  moreover have "p \<le> p @ r" by (induction p) auto
  ultimately show ?thesis by simp
qed

text \<open>Between a key and a key that starts with it, every key starts with it.\<close>

lemma starts_with_convex:
  "p \<le> s \<Longrightarrow> s \<le> t \<Longrightarrow> starts_with t p \<Longrightarrow> starts_with (s :: string) p"
proof (induction p arbitrary: s t)
  case Nil
  then show ?case by (simp add: starts_with_def)
next
  case (Cons c p)
  obtain r where t: "t = c # p @ r" using Cons.prems(3) by (auto simp: starts_with_iff)
  then obtain d s' where s: "s = d # s'" using Cons.prems(1) by (cases s) auto
  have "d = c" using Cons.prems(1,2) s t by auto
  then have "p \<le> s'" "s' \<le> p @ r" using Cons.prems(1,2) s t by auto
  then have "starts_with s' p" using Cons.IH [of s' "p @ r"] by (auto simp: starts_with_iff)
  with s \<open>d = c\<close> show ?case by (simp add: starts_with_def)
qed

lemma takeWhile_prefix_filter:
  assumes "sorted ks" "\<forall>k \<in> set ks. p \<le> k"
  shows "takeWhile (\<lambda>k. starts_with k p) ks = filter (\<lambda>k. starts_with k p) ks"
  using assms
proof (induction ks)
  case (Cons k ks)
  show ?case
  proof (cases "starts_with k p")
    case False
    have "\<not> starts_with x p" if "x \<in> set ks" for x
      using starts_with_convex [of p k x] Cons.prems that False by auto
    with False show ?thesis by (auto simp: filter_empty_conv)
  qed (use Cons in auto)
qed simp

lemma bt_from_filter:
  "bt_ok m \<Longrightarrow> bt_from p m = filter (\<lambda>(k, v). p \<le> k) m"
proof (induction m)
  case (Cons x m)
  obtain k v where x: "x = (k, v)" by fastforce
  show ?case
  proof (cases "k < p")
    case False
    then have "\<forall>y \<in> set m. p \<le> fst y" using Cons.prems x by force
    then have "filter (\<lambda>(k, v). p \<le> k) m = m" by (auto simp: filter_id_conv)
    with False x show ?thesis by auto
  qed (use Cons x in auto)
qed simp

subsection \<open>Adapters\<close>

record ('v, 'sc, 'w) kv_adapter =
  ka_get :: "string \<Rightarrow> 'w \<Rightarrow> (error + 'v option) \<times> 'w"
  ka_set :: "string \<Rightarrow> 'v \<Rightarrow> 'w \<Rightarrow> (error + unit) \<times> 'w"
  ka_delete :: "string \<Rightarrow> 'w \<Rightarrow> (error + unit) \<times> 'w"
  ka_scan :: "string \<Rightarrow> 'w \<Rightarrow> (error + 'sc) \<times> 'w"

text \<open>
  The operations an adapter need not implement: \<open>scan\<close>, and for the untyped adapters also
  the blocking operations.
\<close>

definition kv_default :: "string \<Rightarrow> 'w \<Rightarrow> (error + 'a) \<times> 'w" where
  "kv_default name w =
     (Inl (with_operation (''kv::Adapter::'' @ name)
        (new_error Unsupported ''kv adapter doesn't support this operation'')), w)"

definition tk_default :: "string \<Rightarrow> 'w \<Rightarrow> (error + 'a) \<times> 'w" where
  "tk_default name w =
     (Inl (with_operation (''typed_kv::Adapter::'' @ name)
        (new_error Unsupported ''typed_kv adapter doesn't support this operation'')), w)"

definition kv_blocking_default :: "('v, string list, 'w) kv_adapter" where
  "kv_blocking_default =
     \<lparr>ka_get = (\<lambda>path. kv_default ''blocking_get''), ka_set = (\<lambda>path v. kv_default ''blocking_set''),
      ka_delete = (\<lambda>path. kv_default ''blocking_delete''), ka_scan = (\<lambda>path. kv_default ''blocking_scan'')\<rparr>"

text \<open>\<open>Value\<close>, what a typed store keeps for a key.\<close>

record kv_value =
  kv_metadata :: metadata
  kv_content :: buffer

paragraph \<open>The memory adapter\<close>

definition mem_get :: "string \<Rightarrow> 'v btree_map \<Rightarrow> 'v option" where
  "mem_get path m = map_of m path"

definition mem_set :: "string \<Rightarrow> 'v \<Rightarrow> 'v btree_map \<Rightarrow> 'v btree_map" where
  "mem_set path v m = bt_insert path v m"

definition mem_delete :: "string \<Rightarrow> 'v btree_map \<Rightarrow> 'v btree_map" where
  "mem_delete path m = bt_remove path m"

definition mem_scan :: "string \<Rightarrow> 'v btree_map \<Rightarrow> string list" where
  "mem_scan path m =
     (if path = [] then map fst m
      else takeWhile (\<lambda>key. starts_with key path) (map fst (bt_from path m)))"

definition mem_adapter :: "('v, string list, 'v btree_map) kv_adapter" where
  "mem_adapter =
     \<lparr>ka_get = (\<lambda>path m. (Inr (mem_get path m), m)),
      ka_set = (\<lambda>path v m. (Inr (), mem_set path v m)),
      ka_delete = (\<lambda>path m. (Inr (), mem_delete path m)),
      ka_scan = (\<lambda>path m. (Inr (mem_scan path m), m))\<rparr>"

lemma filter_from:
  "filter (\<lambda>k. starts_with k p) (map fst (filter (\<lambda>(k, v). p \<le> k) m))
    = filter (\<lambda>k. starts_with k p) (map fst m)"
  by (induction m) (auto dest: starts_with_ge)

lemma mem_scan_filter:
  assumes "bt_ok m"
  shows "mem_scan path m = filter (\<lambda>k. starts_with k path) (map fst m)"
proof (cases "path = []")
  case True
  then show ?thesis by (simp add: mem_scan_def starts_with_def)
next
  case False
  let ?ks = "map fst (bt_from path m)"
  have f: "bt_from path m = filter (\<lambda>(k, v). path \<le> k) m" by (rule bt_from_filter [OF assms])
  have "sorted_wrt (<) ?ks" using assms by (simp add: f bt_ok_def sorted_wrt_map sorted_wrt_filter)
  then have "sorted ?ks" by (rule strict_sorted_imp_sorted)
  moreover have "\<forall>k \<in> set ?ks. path \<le> k" unfolding f by (simp add: case_prod_unfold)
  ultimately have "mem_scan path m = filter (\<lambda>k. starts_with k path) ?ks"
    using False takeWhile_prefix_filter [of ?ks path] by (simp add: mem_scan_def)
  also have "\<dots> = filter (\<lambda>k. starts_with k path) (map fst m)"
    unfolding f by (rule filter_from)
  finally show ?thesis .
qed

subsection \<open>The store interface\<close>

text \<open>
  The map behind a store. A call that succeeds reads or changes it as its name says; a call
  that fails leaves it alone.
\<close>

locale kv_store =
  fixes ad :: "('v, string list, 'w) kv_adapter"
    and store :: "'w \<Rightarrow> (string \<rightharpoonup> 'v)"
    and invar :: "'w \<Rightarrow> bool"
  assumes get_Ok: "invar w \<Longrightarrow> ka_get ad k w = (Inr r, w') \<Longrightarrow> r = store w k \<and> store w' = store w \<and> invar w'"
    and set_Ok: "invar w \<Longrightarrow> ka_set ad k v w = (Inr u, w') \<Longrightarrow> store w' = (store w)(k \<mapsto> v) \<and> invar w'"
    and delete_Ok: "invar w \<Longrightarrow> ka_delete ad k w = (Inr u, w') \<Longrightarrow> store w' = (store w)(k := None) \<and> invar w'"
    and scan_Ok: "invar w \<Longrightarrow> ka_scan ad p w = (Inr ks, w') \<Longrightarrow>
      set ks = {k \<in> dom (store w). starts_with k p} \<and> distinct ks \<and> store w' = store w \<and> invar w'"
    and get_Err: "invar w \<Longrightarrow> ka_get ad k w = (Inl e, w') \<Longrightarrow> store w' = store w \<and> invar w'"
    and set_Err: "invar w \<Longrightarrow> ka_set ad k v w = (Inl e, w') \<Longrightarrow> store w' = store w \<and> invar w'"
    and delete_Err: "invar w \<Longrightarrow> ka_delete ad k w = (Inl e, w') \<Longrightarrow> store w' = store w \<and> invar w'"
    and scan_Err: "invar w \<Longrightarrow> ka_scan ad p w = (Inl e, w') \<Longrightarrow> store w' = store w \<and> invar w'"

interpretation mem: kv_store mem_adapter map_of bt_ok
proof unfold_locales
  fix w w' :: "'a btree_map" and p ks
  assume "bt_ok w" "ka_scan mem_adapter p w = (Inr ks, w')"
  then have ks: "ks = filter (\<lambda>k. starts_with k p) (map fst w)" "w' = w"
    by (auto simp: mem_adapter_def mem_scan_filter)
  have "distinct (map fst w)" using \<open>bt_ok w\<close> by (simp add: bt_ok_def strict_sorted_iff)
  with ks \<open>bt_ok w\<close> show "set ks = {k \<in> dom (map_of w). starts_with k p} \<and> distinct ks
      \<and> map_of w' = map_of w \<and> bt_ok w'"
    by (auto simp: dom_map_of_conv_image_fst)
qed (auto simp: mem_adapter_def mem_get_def mem_set_def mem_delete_def bt_insert_map bt_insert_ok
    bt_remove_map bt_remove_ok)

subsection \<open>The typed backend\<close>

definition kv_not_found :: error where
  "kv_not_found = new_error NotFound ''kv doesn't have this path''"

record kv_capability =
  kc_get :: bool
  kc_set :: bool
  kc_delete :: bool
  kc_scan :: bool
  kc_shared :: bool

definition tk_capability :: "kv_capability \<Rightarrow> capability" where
  "tk_capability kc =
     capability_default\<lparr>cap_read := kc_get kc, cap_stat := kc_get kc, cap_write := kc_set kc,
       cap_write_can_empty := kc_set kc, cap_delete := kc_delete kc, cap_list := kc_scan kc,
       cap_list_with_recursive := kc_scan kc, cap_shared := kc_shared kc, cap_blocking := True\<rparr>"

definition kv_accessor_info :: "string \<Rightarrow> string \<Rightarrow> string \<Rightarrow> capability \<Rightarrow> accessor_info" where
  "kv_accessor_info scheme name root cap =
     set_native_capability cap
       \<lparr>ai_scheme = scheme, ai_root = root, ai_name = name,
        ai_native_capability = capability_default, ai_full_capability = capability_default\<rparr>"

text \<open>
  The three lookups of a backend start alike: the key of a path is the path below the root.
\<close>

definition kv_lookup ::
  "('v, 'sc, 'w) kv_adapter \<Rightarrow> string \<Rightarrow> string \<Rightarrow> 'w \<Rightarrow> 'v res \<times> 'w" where
  "kv_lookup ad root path w =
     step (build_abs_path root path, w) (\<lambda>p w.
     io_step (ka_get ad p w) (\<lambda>v w.
       case v of Some bs \<Rightarrow> (Ok bs, w) | None \<Rightarrow> (Err kv_not_found, w)))"

definition kv_stat ::
  "('v \<Rightarrow> metadata) \<Rightarrow> ('v, 'sc, 'w) kv_adapter \<Rightarrow> string \<Rightarrow> string \<Rightarrow> op_stat \<Rightarrow> 'w \<Rightarrow> metadata res \<times> 'w" where
  "kv_stat meta ad root path args w =
     step (build_abs_path root path, w) (\<lambda>p w.
     step (build_abs_path root [], w) (\<lambda>r w.
       if p = r then (Ok (metadata_new DIR), w)
       else io_step (ka_get ad p w) (\<lambda>v w.
         case v of Some bs \<Rightarrow> (Ok (meta bs), w) | None \<Rightarrow> (Err kv_not_found, w))))"

definition kv_read ::
  "('v \<Rightarrow> buffer) \<Rightarrow> ('v, 'sc, 'w) kv_adapter \<Rightarrow> string \<Rightarrow> string \<Rightarrow> op_read \<Rightarrow> 'w \<Rightarrow> buffer res \<times> 'w" where
  "kv_read content ad root path args w =
     step (kv_lookup ad root path w) (\<lambda>bs w.
     step (br_to_range_as_usize (ro_range args), w) (\<lambda>(sb, eb) w.
       (buf_slice sb eb (content bs), w)))"

text \<open>\<^verbatim>\<open>impl Read for Buffer\<close>: one piece, then the end.\<close>

definition buffer_read :: "buffer \<Rightarrow> 'w \<Rightarrow> buffer res \<times> buffer \<times> 'w" where
  "buffer_read b w = (Ok b, buf_new, w)"

definition tk_stat ::
  "(kv_value, 'sc, 'w) kv_adapter \<Rightarrow> string \<Rightarrow> string \<Rightarrow> op_stat \<Rightarrow> 'w \<Rightarrow> metadata res \<times> 'w" where
  "tk_stat = kv_stat kv_metadata"

definition tk_read ::
  "(kv_value, 'sc, 'w) kv_adapter \<Rightarrow> string \<Rightarrow> string \<Rightarrow> op_read \<Rightarrow> 'w \<Rightarrow> buffer res \<times> 'w" where
  "tk_read = kv_read kv_content"

paragraph \<open>Writer\<close>

record tk_writer =
  tw_path :: string
  tw_op :: op_write
  tw_buf :: "queue_buf option"
  tw_value :: "kv_value option"

definition tw_new :: "string \<Rightarrow> op_write \<Rightarrow> tk_writer" where
  "tw_new path op = \<lparr>tw_path = path, tw_op = op, tw_buf = None, tw_value = None\<rparr>"

definition tk_write :: "string \<Rightarrow> string \<Rightarrow> op_write \<Rightarrow> 'w \<Rightarrow> tk_writer res \<times> 'w" where
  "tk_write root path args w = step (build_abs_path root path, w) (\<lambda>p w. (Ok (tw_new p args), w))"

definition tw_metadata :: "op_write \<Rightarrow> buffer \<Rightarrow> metadata" where
  "tw_metadata op value =
     (let m = set_content_length (of_nat (buf_len value)) (metadata_new FILE);
          m1 = (case wo_cache_control op of Some v \<Rightarrow> m\<lparr>md_cache_control := Some v\<rparr> | None \<Rightarrow> m);
          m2 = (case wo_content_disposition op of Some v \<Rightarrow> m1\<lparr>md_content_disposition := Some v\<rparr> | None \<Rightarrow> m1);
          m3 = (case wo_content_type op of Some v \<Rightarrow> m2\<lparr>md_content_type := Some v\<rparr> | None \<Rightarrow> m2)
      in m3)"

definition tw_build :: "tk_writer \<Rightarrow> kv_value res \<times> tk_writer" where
  "tw_build st =
     (and_then (case tw_buf st of None \<Rightarrow> Ok buf_new | Some q \<Rightarrow> queue_collect q) (\<lambda>value.
        Ok \<lparr>kv_metadata = tw_metadata (tw_op st) value, kv_content = value\<rparr>),
      st\<lparr>tw_buf := None\<rparr>)"

definition tw_write :: "buffer \<Rightarrow> tk_writer \<Rightarrow> 'w \<Rightarrow> unit res \<times> tk_writer \<times> 'w" where
  "tw_write bs st w =
     (let buf = (case tw_buf st of None \<Rightarrow> queue_new | Some q \<Rightarrow> q) in
      (Ok (), st\<lparr>tw_buf := Some (queue_push bs buf)\<rparr>, w))"

text \<open>The value is built at the first call and kept, so that a failed call can be repeated.\<close>

definition tw_close ::
  "(kv_value, 'sc, 'w) kv_adapter \<Rightarrow> tk_writer \<Rightarrow> 'w \<Rightarrow> unit res \<times> tk_writer \<times> 'w" where
  "tw_close ad st w =
     (let (v, st1) = (case tw_value st of
        Some value \<Rightarrow> (Ok value, st)
      | None \<Rightarrow> (case tw_build st of
          (Ok value, st') \<Rightarrow> (Ok value, st'\<lparr>tw_value := Some value\<rparr>)
        | (r, st') \<Rightarrow> (r, st')))
      in let (r, w') = step (v, w) (\<lambda>value w. io_step (ka_set ad (tw_path st1) value w) (\<lambda>u w. (Ok (), w)))
      in (r, st1, w'))"

definition tw_abort :: "tk_writer \<Rightarrow> 'w \<Rightarrow> unit res \<times> tk_writer \<times> 'w" where
  "tw_abort st w = (Ok (), st\<lparr>tw_buf := None\<rparr>, w)"

paragraph \<open>Deleter and lister\<close>

definition kd_delete_once ::
  "('v, 'sc, 'w) kv_adapter \<Rightarrow> string \<Rightarrow> string \<Rightarrow> op_delete \<Rightarrow> 'w \<Rightarrow> unit res \<times> 'w" where
  "kd_delete_once ad root path args w =
     step (build_abs_path root path, w) (\<lambda>p w. io_step (ka_delete ad p w) (\<lambda>u w. (Ok (), w)))"

definition kv_entry :: "string \<Rightarrow> string \<Rightarrow> oio_entry res" where
  "kv_entry root v =
     (let mode = (if ends_with v CHR ''/'' then DIR else FILE) in
      and_then (build_rel_path root v) (\<lambda>path.
        entry_with (if path = [] then slash else path) (metadata_new mode)))"

definition kl_next :: "string \<Rightarrow> string list lister" where
  "kl_next root keys =
     (case keys of
        [] \<Rightarrow> Some (Ok None, [])
      | v # vs \<Rightarrow> Some (and_then (kv_entry root v) (\<lambda>e. Ok (Some e)), vs))"

definition kv_list ::
  "('v, 'sc, 'w) kv_adapter \<Rightarrow> string \<Rightarrow> string \<Rightarrow> op_list \<Rightarrow> 'w \<Rightarrow> ('sc \<times> hierarchy) res \<times> 'w" where
  "kv_list ad root path args w =
     step (build_abs_path root path, w) (\<lambda>p w.
     io_step (ka_scan ad p w) (\<lambda>keys w.
       (Ok (keys, hierarchy_new path (lo_recursive args)), w)))"

paragraph \<open>The accessor\<close>

definition tk_access ::
  "(kv_value, string list, 'w) kv_adapter \<Rightarrow> string \<Rightarrow> string \<Rightarrow> kv_capability \<Rightarrow> string \<Rightarrow>
     (buffer, tk_writer, string list \<times> hierarchy, request option, 'w) access" where
  "tk_access ad scheme name kc root =
     \<lparr>ac_info = kv_accessor_info scheme name root (tk_capability kc),
      ac_create_dir = (\<lambda>path. not_supported),
      ac_stat = (\<lambda>path args w. Some (tk_stat ad root path args w)),
      ac_read = tk_read ad root,
      ac_write = tk_write root,
      ac_delete = (\<lambda>w. (Ok None, w)),
      ac_list = kv_list ad root,
      ac_copy = (\<lambda>from to. not_supported),
      ac_rename = (\<lambda>from to. not_supported),
      ac_reader_read = buffer_read,
      ac_writer_write = tw_write,
      ac_writer_close = tw_close ad,
      ac_writer_abort = tw_abort,
      ac_lister_next = (\<lambda>l w. map_option (\<lambda>(r, l'). (r, l', w)) (hierarchy_next (kl_next root) l)),
      ac_deleter_delete = (\<lambda>path args d w. osd_delete path args (d, w)),
      ac_deleter_flush = (\<lambda>d w. osd_flush (kd_delete_once ad root) (d, w))\<rparr>"

definition mem_capability :: kv_capability where
  "mem_capability = \<lparr>kc_get = True, kc_set = True, kc_delete = True, kc_scan = True, kc_shared = False\<rparr>"

text \<open>The name is the address of the map, printed.\<close>

definition memory_access ::
  "string \<Rightarrow> string option \<Rightarrow>
     (buffer, tk_writer, string list \<times> hierarchy, request option, kv_value btree_map) access" where
  "memory_access name root =
     tk_access mem_adapter ''memory'' name mem_capability
       (normalize_root (case root of Some r \<Rightarrow> r | None \<Rightarrow> ''''))"

subsection \<open>The untyped backend\<close>

definition uk_capability :: "capability \<Rightarrow> capability" where
  "uk_capability kc =
     (let c1 = (if cap_read kc then kc\<lparr>cap_stat := True\<rparr> else kc);
          c2 = (if cap_write c1 then c1\<lparr>cap_write_can_empty := True, cap_delete := True\<rparr> else c1);
          c3 = (if cap_list c2 then c2\<lparr>cap_list_with_recursive := True\<rparr> else c2)
      in c3)"

definition uk_stat ::
  "(buffer, 'sc, 'w) kv_adapter \<Rightarrow> string \<Rightarrow> string \<Rightarrow> op_stat \<Rightarrow> 'w \<Rightarrow> metadata res \<times> 'w" where
  "uk_stat = kv_stat (\<lambda>bs. set_content_length (of_nat (buf_len bs)) (metadata_new FILE))"

definition uk_read ::
  "(buffer, 'sc, 'w) kv_adapter \<Rightarrow> string \<Rightarrow> string \<Rightarrow> op_read \<Rightarrow> 'w \<Rightarrow> buffer res \<times> 'w" where
  "uk_read = kv_read (\<lambda>bs. bs)"

record uk_writer =
  uw_path :: string
  uw_buffer :: queue_buf

definition uk_write :: "string \<Rightarrow> string \<Rightarrow> op_write \<Rightarrow> 'w \<Rightarrow> uk_writer res \<times> 'w" where
  "uk_write root path args w =
     step (build_abs_path root path, w) (\<lambda>p w. (Ok \<lparr>uw_path = p, uw_buffer = queue_new\<rparr>, w))"

definition uw_write :: "buffer \<Rightarrow> uk_writer \<Rightarrow> 'w \<Rightarrow> unit res \<times> uk_writer \<times> 'w" where
  "uw_write bs st w = (Ok (), st\<lparr>uw_buffer := queue_push bs (uw_buffer st)\<rparr>, w)"

definition uw_close ::
  "(buffer, 'sc, 'w) kv_adapter \<Rightarrow> uk_writer \<Rightarrow> 'w \<Rightarrow> unit res \<times> uk_writer \<times> 'w" where
  "uw_close ad st w =
     (let (r, w') = step (queue_collect (uw_buffer st), w) (\<lambda>buf w.
          io_step (ka_set ad (uw_path st) buf w) (\<lambda>u w. (Ok (), w)))
      in (r, st, w'))"

definition uw_abort :: "uk_writer \<Rightarrow> 'w \<Rightarrow> unit res \<times> uk_writer \<times> 'w" where
  "uw_abort st w = (Ok (), st\<lparr>uw_buffer := queue_clear (uw_buffer st)\<rparr>, w)"

text \<open>The asynchronous scanner hands out keys one by one and may fail at each.\<close>

definition ks_next :: "string \<Rightarrow> (error + string) list lister" where
  "ks_next root keys =
     (case keys of
        [] \<Rightarrow> Some (Ok None, [])
      | Inl e # vs \<Rightarrow> Some (Err e, vs)
      | Inr v # vs \<Rightarrow> Some (and_then (kv_entry root v) (\<lambda>e. Ok (Some e)), vs))"

definition uk_access ::
  "(buffer, 'sc, 'w) kv_adapter \<Rightarrow> (string \<Rightarrow> 'sc lister) \<Rightarrow> string \<Rightarrow> string \<Rightarrow> capability \<Rightarrow> string \<Rightarrow>
     (buffer, uk_writer, 'sc \<times> hierarchy, request option, 'w) access" where
  "uk_access ad scan_next scheme name kc root =
     \<lparr>ac_info = kv_accessor_info scheme name root (uk_capability kc),
      ac_create_dir = (\<lambda>path. not_supported),
      ac_stat = (\<lambda>path args w. Some (uk_stat ad root path args w)),
      ac_read = uk_read ad root,
      ac_write = uk_write root,
      ac_delete = (\<lambda>w. (Ok None, w)),
      ac_list = kv_list ad root,
      ac_copy = (\<lambda>from to. not_supported),
      ac_rename = (\<lambda>from to. not_supported),
      ac_reader_read = buffer_read,
      ac_writer_write = uw_write,
      ac_writer_close = uw_close ad,
      ac_writer_abort = uw_abort,
      ac_lister_next = (\<lambda>l w. map_option (\<lambda>(r, l'). (r, l', w)) (hierarchy_next (scan_next root) l)),
      ac_deleter_delete = (\<lambda>path args d w. osd_delete path args (d, w)),
      ac_deleter_flush = (\<lambda>d w. osd_flush (kd_delete_once ad root) (d, w))\<rparr>"

subsection \<open>Keys\<close>

text \<open>
  The key of a path below a root, and the keys a lister turns into entries: an empty key, or
  one with a leading slash, is not made from a path of the operator.
\<close>

definition kv_key :: "string \<Rightarrow> string \<Rightarrow> string" where
  "kv_key root path = drop 1 root @ (if path = slash then [] else path)"

definition key_ok :: "string \<Rightarrow> string \<Rightarrow> bool" where
  "key_ok root v = (v \<noteq> [] \<and> \<not> starts_char v CHR ''/'' \<and> starts_with v (drop 1 root))"

definition rel_of :: "string \<Rightarrow> string \<Rightarrow> string" where
  "rel_of root v = (let p = drop (length root - 1) v in if p = [] then slash else p)"

lemma build_abs_path_key:
  assumes "normalized_root root" "normalized_path path"
  shows "build_abs_path root path = Ok (kv_key root path)"
  using assms build_abs_path_Ok [OF assms] build_abs_path_root [OF assms(1)]
  by (cases "path = slash") (simp_all add: kv_key_def)

lemma normalize_root_slash: "normalize_root [] = slash"
  by code_simp

lemma build_abs_path_empty: "normalized_root root \<Longrightarrow> build_abs_path root [] = Ok (drop 1 root)"
  using normalized_root_slashes [of root] by (simp add: build_abs_path_def slash_def starts_char_def)

lemma normalized_path_nonempty: "normalized_path p \<Longrightarrow> p \<noteq> []"
  unfolding normalized_path_def by (elim disjE exE conjE) (simp_all add: slash_def)

lemma kv_key_ok:
  "normalized_root root \<Longrightarrow> normalized_path path \<Longrightarrow> path \<noteq> slash \<Longrightarrow> key_ok root (kv_key root path)"
  using abs_not_leading [of root path] normalized_path_nonempty [of path]
  by (simp add: key_ok_def kv_key_def starts_with_def)

lemma rel_of_key:
  "normalized_root root \<Longrightarrow> normalized_path path \<Longrightarrow> path \<noteq> slash \<Longrightarrow> rel_of root (kv_key root path) = path"
  using normalized_path_nonempty [of path] by (simp add: rel_of_def kv_key_def)

lemma kv_entry_Ok:
  assumes "normalized_root root" "key_ok root v"
  shows "kv_entry root v = Ok (index_entry (rel_of root v))"
proof -
  have r: "starts_char root CHR ''/''" "ends_with root CHR ''/''" "root \<noteq> []"
    using normalized_root_slashes [OF assms(1)] by (auto simp: starts_char_def)
  have v: "\<not> starts_char v CHR ''/''" "v \<noteq> []" "starts_with v (drop 1 root)"
    using assms(2) by (auto simp: key_ok_def)
  let ?p = "drop (length root - 1) v"
  have rel: "build_rel_path root v = Ok ?p"
    using r v by (cases "root = v") (auto simp: build_rel_path_def)
  obtain s where s: "v = drop 1 root @ s" using v(3) by (auto simp: starts_with_iff)
  have p: "?p = s" using s by simp
  have ends: "ends_with v CHR ''/'' = ends_with (if s = [] then slash else s) CHR ''/''"
  proof (cases "s = []")
    case True
    then have "v = drop 1 root" using s by simp
    moreover have "ends_with (drop 1 root) CHR ''/''" if "drop 1 root \<noteq> []"
      using r(2) that by (simp add: ends_with_def last_drop)
    ultimately show ?thesis using True v(2) by (simp add: slash_def ends_with_def)
  next
    case False
    then show ?thesis using s by (simp add: ends_with_def)
  qed
  have "kv_entry root v = entry_with (if s = [] then slash else s)
      (metadata_new (if ends_with (if s = [] then slash else s) CHR ''/'' then DIR else FILE))"
    using rel p ends by (simp add: kv_entry_def)
  also have "\<dots> = Ok (index_entry (if s = [] then slash else s))"
    by (rule entry_with_index) (simp add: slash_def)
  finally show ?thesis using p by (simp add: rel_of_def)
qed

interpretation kvl: inner_list "kl_next root"
  "\<lambda>es keys. normalized_root root \<and> list_all (key_ok root) keys \<and> es = map (index_entry \<circ> rel_of root) keys"
  for root
proof unfold_locales
  fix es keys
  assume "normalized_root root \<and> list_all (key_ok root) keys \<and> es = map (index_entry \<circ> rel_of root) keys"
  then show "\<exists>r l'. kl_next root keys = Some (r, l')
      \<and> ((r = Ok None \<and> es = [] \<and> normalized_root root \<and> list_all (key_ok root) l' \<and> [] = map (index_entry \<circ> rel_of root) l')
       \<or> (\<exists>e es'. es = e # es' \<and> r = Ok (Some e) \<and> normalized_root root \<and> list_all (key_ok root) l'
            \<and> es' = map (index_entry \<circ> rel_of root) l')
       \<or> (\<exists>err. r = Err err \<and> normalized_root root \<and> list_all (key_ok root) l'
            \<and> es = map (index_entry \<circ> rel_of root) l'))"
    by (cases keys) (auto simp: kl_next_def kv_entry_Ok)
qed

subsection \<open>The writers meet the interface\<close>

definition tw_queue :: "tk_writer \<Rightarrow> queue_buf" where
  "tw_queue st = (case tw_buf st of None \<Rightarrow> queue_new | Some q \<Rightarrow> q)"

definition tw_holds :: "string \<Rightarrow> op_write \<Rightarrow> 'w \<Rightarrow> buffer list \<Rightarrow> tk_writer \<times> 'w \<Rightarrow> bool" where
  "tw_holds p op w0 log = (\<lambda>(st, w). w = w0 \<and> tw_path st = p \<and> tw_op st = op \<and> tw_value st = None
     \<and> (list_all buf_wf log \<longrightarrow> queue_wf (tw_queue st) \<and> queue_bytes (tw_queue st) = concat (map buf_bytes log)))"

definition value_of :: "op_write \<Rightarrow> bytes \<Rightarrow> kv_value \<Rightarrow> bool" where
  "value_of op bs v = (kv_metadata v = tw_metadata op (kv_content v) \<and> buf_wf (kv_content v)
     \<and> buf_bytes (kv_content v) = bs)"

definition tw_committed ::
  "(kv_value, 'sc, 'w) kv_adapter \<Rightarrow> string \<Rightarrow> op_write \<Rightarrow> 'w \<Rightarrow> buffer list \<Rightarrow> tk_writer \<times> 'w \<Rightarrow> bool" where
  "tw_committed ad p op w0 log = (\<lambda>(st, w). list_all buf_wf log \<longrightarrow>
     (\<exists>v. ka_set ad p v w0 = (Inr (), w) \<and> value_of op (concat (map buf_bytes log)) v))"

lemma tw_build_value:
  assumes "queue_wf (tw_queue st)"
  shows "\<exists>v. tw_build st = (Ok v, st\<lparr>tw_buf := None\<rparr>) \<and> value_of (tw_op st) (queue_bytes (tw_queue st)) v"
proof (cases "tw_buf st")
  case None
  then show ?thesis by (simp add: tw_build_def tw_queue_def value_of_def)
next
  case (Some q)
  with assms queue_collect_Ok [of q] show ?thesis by (auto simp: tw_build_def tw_queue_def value_of_def)
qed

interpretation tkw: oio_write "\<lambda>b (st, w). tw_write b st w" "\<lambda>(st, w). tw_close ad st w"
  "tw_holds p op w0" "tw_committed ad p op w0"
  for ad :: "(kv_value, 'sc, 'w) kv_adapter" and p op w0
proof unfold_locales
  fix log s b s'
  assume "tw_holds p op w0 log s" "(case s of (st, w) \<Rightarrow> tw_write b st w) = (Ok (), s')"
  then show "tw_holds p op w0 (log @ [b]) s'"
    by (auto simp: tw_holds_def tw_write_def tw_queue_def split: prod.splits option.splits)
next
  fix log s b e s'
  assume "tw_holds p op w0 log s" "(case s of (st, w) \<Rightarrow> tw_write b st w) = (Err e, s')"
  then show "tw_holds p op w0 log s'" by (auto simp: tw_write_def split: prod.splits)
next
  fix log s s'
  assume h: "tw_holds p op w0 log s" and c: "(case s of (st, w) \<Rightarrow> tw_close ad st w) = (Ok (), s')"
  show "tw_committed ad p op w0 log s'"
  proof (cases "list_all buf_wf log")
    case True
    obtain st where s: "s = (st, w0)" using h by (cases s) (auto simp: tw_holds_def)
    have q: "queue_wf (tw_queue st)" "queue_bytes (tw_queue st) = concat (map buf_bytes log)"
      "tw_value st = None" "tw_path st = p" "tw_op st = op" using h s True by (auto simp: tw_holds_def)
    from tw_build_value [OF q(1)] obtain v where v: "tw_build st = (Ok v, st\<lparr>tw_buf := None\<rparr>)"
      "value_of op (concat (map buf_bytes log)) v" using q by auto
    obtain r w where r: "ka_set ad p v w0 = (r, w)" by fastforce
    then have "r = Inr ()" "snd s' = w" using c s v q
      by (cases r; auto simp: tw_close_def)+
    with r v show ?thesis by (auto simp: tw_committed_def split: prod.splits)
  qed (simp add: tw_committed_def split: prod.splits)
qed

text \<open>The untyped writer keeps its buffer when closing fails, so closing can be repeated.\<close>

definition uw_holds :: "string \<Rightarrow> buffer list \<Rightarrow> uk_writer \<Rightarrow> bool" where
  "uw_holds p log st = (uw_path st = p
     \<and> (list_all buf_wf log \<longrightarrow> queue_wf (uw_buffer st) \<and> queue_bytes (uw_buffer st) = concat (map buf_bytes log)))"

definition uw_committed ::
  "(buffer, 'sc, 'w) kv_adapter \<Rightarrow> string \<Rightarrow> buffer list \<Rightarrow> uk_writer \<times> 'w \<Rightarrow> bool" where
  "uw_committed ad p log = (\<lambda>(st, w). list_all buf_wf log \<longrightarrow>
     (\<exists>v w0. ka_set ad p v w0 = (Inr (), w) \<and> buf_wf v \<and> buf_bytes v = concat (map buf_bytes log)))"

interpretation ukw: oio_write_retry "\<lambda>b (st, w). uw_write b st w" "\<lambda>(st, w). uw_close ad st w"
  "\<lambda>log s. uw_holds p log (fst s)" "uw_committed ad p"
  for ad :: "(buffer, 'sc, 'w) kv_adapter" and p
proof unfold_locales
  fix log and s s' :: "uk_writer \<times> 'w"
  assume h: "uw_holds p log (fst s)" and c: "(case s of (st, w) \<Rightarrow> uw_close ad st w) = (Ok (), s')"
  show "uw_committed ad p log s'"
  proof (cases "list_all buf_wf log")
    case True
    with h have q: "queue_wf (uw_buffer (fst s))" "queue_bytes (uw_buffer (fst s)) = concat (map buf_bytes log)"
      "uw_path (fst s) = p" by (auto simp: uw_holds_def)
    from queue_collect_Ok [OF q(1)] obtain v where v: "queue_collect (uw_buffer (fst s)) = Ok v" "buf_wf v"
      "buf_bytes v = concat (map buf_bytes log)" using q(2) by auto
    obtain r w where r: "ka_set ad p v (snd s) = (r, w)" by fastforce
    then have "r = Inr ()" "snd s' = w" using c v q
      by (cases r; auto simp: uw_close_def split: prod.splits)+
    with r v have "ka_set ad p v (snd s) = (Inr (), snd s')" by simp
    with v(2,3) show ?thesis unfolding uw_committed_def by (cases s') (simp, blast)
  qed (simp add: uw_committed_def split: prod.splits)
qed (auto simp: uw_holds_def uw_write_def uw_close_def split: prod.splits)

subsection \<open>Reading a value\<close>

text \<open>
  What \<^verbatim>\<open>ReadContext\<close> calls, while the store is \<open>w\<close>: reading and \<open>stat\<close> leave the map alone. (A
  \<open>stat\<close> that does not end, which the services here do not have, counts as a panic.)
\<close>

definition snapshot ::
  "(buffer, 'wr, 'l, 'd, 'w) access \<Rightarrow> string \<Rightarrow> op_read \<Rightarrow> 'w \<Rightarrow> unit read_ops" where
  "snapshot ac path args w =
     \<lparr>ra_read = (\<lambda>rng u. (and_then (fst (ac_read ac path (ro_with_range rng args) w)) (\<lambda>b. Ok [Inr b]), u)),
      ra_stat = (\<lambda>u. (case ac_stat ac path (case ro_version args of
          Some v \<Rightarrow> so_with_version v op_stat_default | None \<Rightarrow> op_stat_default) w of
        None \<Rightarrow> Panic
      | Some (r, w') \<Rightarrow> and_then r (\<lambda>md. Ok (content_length md)), u)),
      ra_delay = (\<lambda>u. (0, u))\<rparr>"

text \<open>Whatever a range selects of a buffer is its slice, if the range lies inside.\<close>

lemma slice_range:
  assumes "buf_wf b" "br_to_range_as_usize rng = Ok (sb, eb)" "buf_slice sb eb b = Ok b'"
  shows "buf_wf b' \<and> buf_bytes b' = br_select rng (buf_bytes b)"
proof -
  define lo hi where "lo = unat (br_offset rng)"
    and "hi = (case br_size rng of Some n \<Rightarrow> unat (br_offset rng) + unat n | None \<Rightarrow> buf_len b)"
  have r: "lo = (case sb of Included n \<Rightarrow> n | Excluded n \<Rightarrow> n + 1 | Unbounded \<Rightarrow> 0)"
    "hi = (case eb of Included n \<Rightarrow> n + 1 | Excluded n \<Rightarrow> n | Unbounded \<Rightarrow> buf_len b)"
    using assms(2) by (auto simp: lo_def hi_def br_to_range_as_usize_def outcome_simps u64_add_def
        unat_u64_add guard_def split: option.splits if_splits)
  from buf_slice_spec [OF assms(1) r] assms(3)
  have s: "lo \<le> hi" "hi \<le> buf_len b" "buf_wf b'" "buf_bytes b' = take (hi - lo) (drop lo (buf_bytes b))"
    by (auto split: if_splits)
  then show ?thesis
    using assms(1) by (auto simp: br_select_def lo_def hi_def split: option.splits)
qed

lemma slice_inside:
  assumes "buf_wf b" "length (buf_bytes b) \<le> u64_max" "br_inside rng (buf_bytes b)"
  shows "\<exists>sb eb b'. br_to_range_as_usize rng = Ok (sb, eb) \<and> buf_slice sb eb b = Ok b'"
proof (cases "br_size rng")
  case None
  with assms buf_slice_spec [of b "unat (br_offset rng)" "Included (unat (br_offset rng))" "buf_len b" Unbounded]
  show ?thesis by (auto simp: br_to_range_as_usize_def br_inside_def split: if_splits)
next
  case (Some n)
  with assms have le: "unat (br_offset rng) + unat n \<le> u64_max" by (auto simp: br_inside_def)
  with Some assms buf_slice_spec [of b "unat (br_offset rng)" "Included (unat (br_offset rng))"
      "unat (br_offset rng) + unat n" "Excluded (unat (br_offset rng) + unat n)"]
  show ?thesis by (auto simp: br_to_range_as_usize_def br_inside_def unat_u64_add split: if_splits)
qed

locale tk_store = kv_store ad store invar
  for ad :: "(kv_value, string list, 'w) kv_adapter"
    and store :: "'w \<Rightarrow> (string \<rightharpoonup> kv_value)"
    and invar :: "'w \<Rightarrow> bool"
begin

text \<open>
  A value that a writer has stored is read exactly, from whatever range inside it; reading
  fails only if the store does.
\<close>

lemma lookup_cases:
  assumes "invar w" "normalized_root root" "normalized_path path"
  shows "(\<exists>w'. kv_lookup ad root path w =
      ((case store w (kv_key root path) of Some v \<Rightarrow> Ok v | None \<Rightarrow> Err kv_not_found), w') \<and> store w' = store w \<and> invar w')
    \<or> (\<exists>e w'. ka_get ad (kv_key root path) w = (Inl e, w') \<and> kv_lookup ad root path w = (Err e, w')
        \<and> store w' = store w \<and> invar w')"
proof -
  obtain r w' where r: "ka_get ad (kv_key root path) w = (r, w')" by fastforce
  have l: "kv_lookup ad root path w = io_step (r, w') (\<lambda>v w.
      case v of Some bs \<Rightarrow> (Ok bs, w) | None \<Rightarrow> (Err kv_not_found, w))"
    using assms r by (simp add: kv_lookup_def build_abs_path_key)
  show ?thesis
  proof (cases r)
    case (Inl e)
    with r l get_Err [OF assms(1)] show ?thesis by auto
  next
    case (Inr v)
    with r get_Ok [OF assms(1)] have "v = store w (kv_key root path)" "store w' = store w" "invar w'" by auto
    with Inr l show ?thesis by (auto split: option.splits)
  qed
qed

lemma stat_cases:
  assumes "invar w" "normalized_root root" "normalized_path path" "path \<noteq> slash"
  shows "(\<exists>w'. tk_stat ad root path args w =
      ((case store w (kv_key root path) of Some v \<Rightarrow> Ok (kv_metadata v) | None \<Rightarrow> Err kv_not_found), w')
        \<and> store w' = store w \<and> invar w')
    \<or> (\<exists>e w'. ka_get ad (kv_key root path) w = (Inl e, w') \<and> tk_stat ad root path args w = (Err e, w')
        \<and> store w' = store w \<and> invar w')"
proof -
  have "kv_key root path \<noteq> drop 1 root"
    using assms(3,4) normalized_path_nonempty [of path] by (simp add: kv_key_def)
  then have "tk_stat ad root path args w =
      (case kv_lookup ad root path w of (Ok v, w') \<Rightarrow> (Ok (kv_metadata v), w')
       | (Err e, w') \<Rightarrow> (Err e, w') | (Panic, w') \<Rightarrow> (Panic, w'))"
    using assms by (auto simp: tk_stat_def kv_stat_def kv_lookup_def build_abs_path_key build_abs_path_empty
        io_step_def split: prod.splits sum.splits option.splits)
  with lookup_cases [OF assms(1-3)] show ?thesis by (auto split: option.splits)
qed

lemma snapshot_accessor:
  assumes "invar w" "normalized_root root" "normalized_path path" "path \<noteq> slash"
    and v: "store w (kv_key root path) = Some v" "buf_wf (kv_content v)"
    and len: "length (buf_bytes (kv_content v)) \<le> u64_max"
      "content_length (kv_metadata v) = of_nat (length (buf_bytes (kv_content v)))"
    and fl: "\<And>e w'. ka_get ad (kv_key root path) w = (Inl e, w') \<Longrightarrow> fl"
  shows "accessor (snapshot (tk_access ad scheme name kc root) path args w) (buf_bytes (kv_content v)) False fl"
proof -
  let ?ops = "snapshot (tk_access ad scheme name kc root) path args w"
  have rd: "ra_read ?ops rng u = (and_then (fst (tk_read ad root path (args\<lparr>ro_range := rng\<rparr>) w)) (\<lambda>b. Ok [Inr b]), u)" for rng u
    by (simp add: snapshot_def tk_access_def ro_with_range_def)
  have look: "fst (kv_lookup ad root path w) = Ok v \<or> (fl \<and> (\<exists>e. fst (kv_lookup ad root path w) = Err e))"
    using lookup_cases [OF assms(1-3)] v(1) fl by auto
  have read: "fst (tk_read ad root path (args\<lparr>ro_range := rng\<rparr>) w) =
      and_then (br_to_range_as_usize rng) (\<lambda>(sb, eb). buf_slice sb eb (kv_content v))
    \<or> (fl \<and> (\<exists>e. fst (tk_read ad root path (args\<lparr>ro_range := rng\<rparr>) w) = Err e))" for rng
    using look
    by (cases "kv_lookup ad root path w") (auto simp: tk_read_def kv_read_def step_def split: outcome.splits prod.splits)
  have range: "br_to_range_as_usize rng \<noteq> Err e" for rng e
    by (auto simp: br_to_range_as_usize_def outcome_simps u64_add_def guard_def split: option.splits if_splits)
  have slice: "buf_slice sb eb (kv_content v) \<noteq> Err e" for sb eb e
    using buf_slice_spec [OF v(2) refl refl, of sb eb] by (auto split: if_splits)
  show ?thesis
  proof unfold_locales
    fix rng rd and u u' :: unit
    assume "ra_read ?ops rng u = (Ok rd, u')"
    then obtain sb eb b where b: "br_to_range_as_usize rng = Ok (sb, eb)" "buf_slice sb eb (kv_content v) = Ok b"
      "rd = [Inr b]"
      using read [of rng] by (auto simp: rd outcome_simps)
    with slice_range [OF v(2) b(1,2)] show "serves False fl rd (br_select rng (buf_bytes (kv_content v)))"
      by (simp add: solid_def)
  next
    fix rng and u :: unit
    assume "br_inside rng (buf_bytes (kv_content v))"
    with slice_inside [OF v(2) len(1)] read [of rng] show "fst (ra_read ?ops rng u) \<noteq> Panic"
      by (fastforce simp: rd)
  next
    fix rng e and u u' :: unit
    assume "ra_read ?ops rng u = (Err e, u')"
    then have "fst (tk_read ad root path (args\<lparr>ro_range := rng\<rparr>) w) = Err e" by (simp add: rd outcome_simps)
    with read [of rng] range [of rng] slice not_sym [OF slice] show fl
      by (cases "br_to_range_as_usize rng") (auto split: prod.splits)
  next
    fix e and u u' :: unit
    assume "ra_stat ?ops u = (Err e, u')"
    with stat_cases [OF assms(1-4), of "case ro_version args of
        Some v \<Rightarrow> so_with_version v op_stat_default | None \<Rightarrow> op_stat_default"] v(1) fl
    show fl by (auto simp: snapshot_def tk_access_def outcome_simps)
  next
    fix u :: unit
    show "fst (ra_stat ?ops u) \<noteq> Panic"
      using stat_cases [OF assms(1-4), of "case ro_version args of
        Some v \<Rightarrow> so_with_version v op_stat_default | None \<Rightarrow> op_stat_default"] v(1)
      by (auto simp: snapshot_def tk_access_def)
  next
    fix n and u u' :: unit
    assume "ra_stat ?ops u = (Ok n, u')" "length (buf_bytes (kv_content v)) \<le> u64_max"
    with stat_cases [OF assms(1-4), of "case ro_version args of
        Some v \<Rightarrow> so_with_version v op_stat_default | None \<Rightarrow> op_stat_default"] v(1)
    have "n = content_length (kv_metadata v)" by (auto simp: snapshot_def tk_access_def)
    then show "unat n = length (buf_bytes (kv_content v))" by (simp only: len(2) unat_of_length [OF len(1)])
  qed
qed

end

interpretation memt: tk_store mem_adapter map_of bt_ok
  by unfold_locales

subsection \<open>Properties\<close>

text \<open>
  The keys of a store with a root that the listers can turn into entries.
\<close>

definition keys_ok :: "string \<Rightarrow> 'v btree_map \<Rightarrow> bool" where
  "keys_ok root m = (bt_ok m \<and> (\<forall>k \<in> fst ` set m. starts_with k (drop 1 root) \<longrightarrow> key_ok root k))"

text \<open>The paths below a root that a map holds, in order.\<close>

definition stored_paths :: "string \<Rightarrow> 'v btree_map \<Rightarrow> string list" where
  "stored_paths root m = map (rel_of root) (filter (\<lambda>k. starts_with k (drop 1 root)) (map fst m))"

text \<open>
  The range scan of the memory service, which starts at the prefix and stops at the first key
  without it, finds exactly the keys with the prefix, in order.
\<close>

theorem memory_scan_prefix:
  "bt_ok m \<Longrightarrow> mem_scan path m = filter (\<lambda>k. starts_with k path) (map fst m)"
  by (rule mem_scan_filter)

theorem memory_scan_prefix_witness:
  "bt_ok [(''a'', 0 :: nat), (''a/b'', 1), (''a/c'', 2), (''b'', 3)]
    \<and> mem_scan ''a/'' [(''a'', 0 :: nat), (''a/b'', 1), (''a/c'', 2), (''b'', 3)] = [''a/b'', ''a/c'']"
proof -
  have ok: "bt_ok [(''a'', 0 :: nat), (''a/b'', 1), (''a/c'', 2), (''b'', 3)]" by code_simp
  show ?thesis using memory_scan_prefix [OF ok, of "''a/''"] ok by (simp add: starts_with_def)
qed

lemma kv_read_outside:
  assumes "normalized_root root" "normalized_path path" "ka_get ad (kv_key root path) w = (Inr (Some v), w')"
    and "buf_wf (content v)" "length (buf_bytes (content v)) \<le> u64_max"
    and "\<not> br_inside (ro_range args) (buf_bytes (content v))"
  shows "kv_read content ad root path args w = (Panic, w')"
proof -
  let ?rng = "ro_range args" and ?b = "content v"
  have l: "kv_lookup ad root path w = (Ok v, w')"
    using assms(1-3) by (simp add: kv_lookup_def build_abs_path_key)
  have "and_then (br_to_range_as_usize ?rng) (\<lambda>(sb, eb). buf_slice sb eb ?b) = Panic"
  proof (cases "br_size ?rng")
    case None
    with assms(4-6) buf_slice_spec [of ?b "unat (br_offset ?rng)" "Included (unat (br_offset ?rng))" "buf_len ?b" Unbounded]
    show ?thesis by (auto simp: br_to_range_as_usize_def br_inside_def)
  next
    case (Some n)
    show ?thesis
    proof (cases "unat (br_offset ?rng) + unat n \<le> u64_max")
      case True
      with Some assms(4-6) buf_slice_spec [of ?b "unat (br_offset ?rng)" "Included (unat (br_offset ?rng))"
          "unat (br_offset ?rng) + unat n" "Excluded (unat (br_offset ?rng) + unat n)"]
      show ?thesis by (auto simp: br_to_range_as_usize_def br_inside_def unat_u64_add)
    next
      case False
      with Some show ?thesis by (simp add: br_to_range_as_usize_def u64_add_def)
    qed
  qed
  then show ?thesis
    using l by (cases "br_to_range_as_usize ?rng") (auto simp: kv_read_def)
qed

text \<open>
  Reading behind the end of a value panics: the backend slices the stored buffer without
  comparing the range with its length.
\<close>

theorem kv_read_past_end_panics:
  assumes "normalized_root root" "normalized_path path" "ka_get ad (kv_key root path) w = (Inr (Some v), w')"
    and "buf_wf (content v)" "length (buf_bytes (content v)) \<le> u64_max"
    and "\<not> br_inside (ro_range args) (buf_bytes (content v))"
  shows "kv_read content ad root path args w = (Panic, w')"
  using assms by (rule kv_read_outside)

theorem kv_read_past_end_panics_witness:
  "ac_read (memory_access ''0x0'' None) ''f'' (ro_with_range (BytesRange 2 (Some 2)) op_read_default)
     [(''f'', \<lparr>kv_metadata = metadata_new FILE, kv_content = Contiguous [1, 2, 3]\<rparr>)]
   = (Panic, [(''f'', \<lparr>kv_metadata = metadata_new FILE, kv_content = Contiguous [1, 2, 3]\<rparr>)])"
proof -
  let ?v = "\<lparr>kv_metadata = metadata_new FILE, kv_content = Contiguous [1, 2, 3]\<rparr>"
  let ?args = "ro_with_range (BytesRange 2 (Some 2)) op_read_default"
  have n: "normalized_root slash" "normalized_path ''f''"
    using normalized_root_normalize [of "[]"] normalized_path_path_of [of "[''f'']" False]
    by (simp_all add: normalize_root_slash)
  have g: "ka_get mem_adapter (kv_key slash ''f'') [(''f'', ?v)] = (Inr (Some ?v), [(''f'', ?v)])"
    by (simp add: mem_adapter_def mem_get_def kv_key_def slash_def)
  have b: "buf_wf (kv_content ?v)" "length (buf_bytes (kv_content ?v)) \<le> u64_max"
    "\<not> br_inside (ro_range ?args) (buf_bytes (kv_content ?v))"
    by (simp_all add: u64_max_def br_inside_def ro_with_range_def)
  from kv_read_past_end_panics [where content = kv_content, OF n g b] show ?thesis
    by (simp add: memory_access_def tk_access_def tk_read_def normalize_root_slash)
qed

paragraph \<open>Listing the memory service\<close>

lemma starts_with_key:
  assumes "pre = [] \<or> \<not> starts_char pre CHR ''/''" "root \<noteq> []"
  shows "starts_with k (drop 1 root @ pre) \<longleftrightarrow> starts_with k (drop 1 root) \<and> starts_with (rel_of root k) pre"
proof (cases "starts_with k (drop 1 root)")
  case True
  then obtain s where s: "k = drop 1 root @ s" by (auto simp: starts_with_iff)
  then have rel: "rel_of root k = (if s = [] then slash else s)" by (simp add: rel_of_def Let_def)
  show ?thesis
  proof (cases "s = [] \<and> pre \<noteq> []")
    case True
    then have "\<not> starts_with slash pre" using assms(1)
      by (cases pre) (auto simp: starts_with_def slash_def starts_char_def)
    with True s rel show ?thesis by (simp add: starts_with_def)
  next
    case False
    with s rel show ?thesis by (auto simp: starts_with_def)
  qed
next
  case False
  then show ?thesis by (auto simp: starts_with_iff)
qed

definition list_prefix :: "string \<Rightarrow> string" where
  "list_prefix path = (if path = slash then [] else path)"

lemma mem_scan_paths:
  assumes "bt_ok m" "normalized_root root" "normalized_path path"
  shows "map (rel_of root) (mem_scan (kv_key root path) m)
    = filter (\<lambda>q. starts_with q (list_prefix path)) (stored_paths root m)"
proof -
  let ?pre = "list_prefix path"
  have k: "kv_key root path = drop 1 root @ ?pre" by (simp add: kv_key_def list_prefix_def)
  have pre: "?pre = [] \<or> \<not> starts_char ?pre CHR ''/''"
    using assms(3) normalized_path_no_leading [of path] by (auto simp: list_prefix_def)
  have "root \<noteq> []" using normalized_root_slashes [OF assms(2)] by (auto simp: starts_char_def)
  note sw = starts_with_key [OF pre this]
  have "map (rel_of root) (filter (\<lambda>k. starts_with k (drop 1 root @ ?pre)) ks)
      = filter (\<lambda>q. starts_with q ?pre) (map (rel_of root) (filter (\<lambda>k. starts_with k (drop 1 root)) ks))" for ks
    by (induction ks) (simp_all add: sw [unfolded One_nat_def])
  then show ?thesis by (simp only: mem_scan_filter [OF assms(1)] k stored_paths_def)
qed

lemma kv_entry_not_Err: "kv_entry root v \<noteq> Err e"
  by (auto simp: kv_entry_def build_rel_path_def entry_with_def guard_def Let_def outcome_simps)

lemma hierarchy_next_no_error:
  assumes "\<And>l r l'. next_op l = Some (r, l') \<Longrightarrow> (\<forall>err. r \<noteq> Err err)"
    and "hierarchy_next next_op s = Some (r, s')"
  shows "\<forall>err. r \<noteq> Err err"
proof -
  have "next_op = next_op \<longrightarrow> (\<forall>err. fst (r, s') \<noteq> Err err)"
  proof (rule hierarchy_next.raw_induct [where P = "\<lambda>f s y. f = next_op \<longrightarrow> (\<forall>err. fst y \<noteq> Err err)", OF _ assms(2)])
    fix hn f s y
    assume IH: "\<And>f s y. hn f s = Some y \<Longrightarrow> f = next_op \<longrightarrow> (\<forall>err. fst y \<noteq> Err err)"
      and st: "(case s of (l, h) \<Rightarrow>
        (case f l of
           None \<Rightarrow> None
         | Some (r, l') \<Rightarrow>
             (case r of
                Ok (Some e) \<Rightarrow>
                  if hl_recursive h then Some (Ok (Some e), l', h)
                  else (case keep_entry e h of (keep, e', h') \<Rightarrow>
                          if keep then Some (Ok (Some e'), l', h') else hn f (l', h'))
              | Ok None \<Rightarrow> Some (Ok None, l', h)
              | Err err \<Rightarrow> Some (Err err, l', h)
              | Panic \<Rightarrow> Some (Panic, l', h)))) = Some y"
    show "f = next_op \<longrightarrow> (\<forall>err. fst y \<noteq> Err err)"
    proof
      assume f: "f = next_op"
      obtain l h where s: "s = (l, h)" by fastforce
      with st f obtain x l' where x: "next_op l = Some (x, l')" by (auto split: option.splits)
      note no_err = assms(1) [OF x]
      show "\<forall>err. fst y \<noteq> Err err"
      proof (cases x)
        case (Ok oe)
        show ?thesis
        proof (cases oe)
          case None
          with st s f x Ok show ?thesis by auto
        next
          case (Some e)
          obtain keep e' h' where k: "keep_entry e h = (keep, e', h')" by (metis prod_cases3)
          show ?thesis
          proof (cases "hl_recursive h \<or> keep")
            case True
            with st s f x Ok Some k show ?thesis by (cases "hl_recursive h") auto
          next
            case False
            with st s f x Ok Some k have "hn f (l', h') = Some y" by simp
            with IH f show ?thesis by blast
          qed
        qed
      next
        case (Err e)
        with no_err show ?thesis by simp
      next
        case Panic
        with st s f x show ?thesis by auto
      qed
    qed
  qed
  then show ?thesis by simp
qed

lemma hierarchy_fold_recursive: "hl_recursive h \<Longrightarrow> hierarchy_fold h es = es"
  by (induction es) simp_all

lemma index_entry_paths: "map oe_path (map (index_entry \<circ> f) ks) = map f ks"
  by (simp add: index_entry_def)

text \<open>
  Listing the memory service. A listing ends without an error; a recursive one has exactly the
  stored paths with the prefix, in order, and any other one exactly their children, each
  directory once. (A stored key is never empty; see \<open>memory_root_dir_breaks_list\<close>.)
\<close>

theorem memory_list_children:
  assumes "keys_ok root m" "normalized_root root" "normalized_path path"
  shows "\<exists>l out n. ac_list (tk_access mem_adapter scheme name kc root) path args m = (Ok l, m)
    \<and> collect_entries (hierarchy_next (kl_next root)) n l = (out, True)
    \<and> (let pre = list_prefix path; qs = filter (\<lambda>q. starts_with q pre) (stored_paths root m) in
       if lo_recursive args then map oe_path out = qs
       else oe_path ` set out = child_path pre ` set qs \<and> distinct (filter (has_sub pre) (map oe_path out)))"
proof -
  let ?ks = "mem_scan (kv_key root path) m" and ?h = "hierarchy_new path (lo_recursive args)"
  let ?pre = "list_prefix path" and ?qs = "filter (\<lambda>q. starts_with q (list_prefix path)) (stored_paths root m)"
  let ?es = "map (index_entry \<circ> rel_of root) ?ks"
  have ok: "bt_ok m" using assms(1) by (simp add: keys_ok_def)
  have list: "ac_list (tk_access mem_adapter scheme name kc root) path args m = (Ok (?ks, ?h), m)"
    using assms by (simp add: tk_access_def kv_list_def build_abs_path_key mem_adapter_def)
  have "starts_with k (drop 1 root)" if "starts_with k (kv_key root path)" for k
    using that by (auto simp: kv_key_def starts_with_iff)
  then have keys: "list_all (key_ok root) ?ks"
    using assms(1) unfolding mem_scan_filter [OF ok] by (auto simp: keys_ok_def list_all_iff)
  have holds: "normalized_root root \<and> list_all (key_ok root) ?ks \<and> ?es = map (index_entry \<circ> rel_of root) ?ks"
    using keys assms(2) by simp
  have "\<forall>err. r \<noteq> Err err" if "kl_next root l = Some (r, l')" for l r l'
    using that kv_entry_not_Err by (cases l) (auto simp: kl_next_def outcome_simps)
  note no_err = hierarchy_next_no_error [OF this]
  let ?out = "hierarchy_fold ?h ?es"
  have out: "collect_entries (hierarchy_next (kl_next root)) (Suc (length ?out)) (?ks, ?h) = (?out, True)"
  proof (rule kvl.hier.collect_complete)
    show "case (?ks, ?h) of (l, h) \<Rightarrow> \<exists>es0. (normalized_root root \<and> list_all (key_ok root) l
        \<and> es0 = map (index_entry \<circ> rel_of root) l) \<and> ?out = hierarchy_fold h es0"
      using holds by blast
  qed (rule no_err)
  have paths: "map oe_path ?es = ?qs"
    by (simp only: index_entry_paths mem_scan_paths [OF ok assms(2,3)])
  have h: "visited_ok ?h" "hl_visited ?h = {}" "hl_path ?h = ?pre" "hl_recursive ?h = lo_recursive args"
    by (simp_all add: visited_ok_def hierarchy_new_def list_prefix_def)
  have "{oe_path e | e. e \<in> set ?es \<and> starts_with (oe_path e) ?pre} = set ?qs"
  proof -
    have "{oe_path e | e. e \<in> set ?es \<and> starts_with (oe_path e) ?pre}
        = {q \<in> set (map oe_path ?es). starts_with q ?pre}" by auto
    then show ?thesis unfolding paths by auto
  qed
  then have "oe_path ` set ?out = child_path ?pre ` set ?qs \<and> distinct (filter (has_sub ?pre) (map oe_path ?out))"
    if "\<not> lo_recursive args"
    using hierarchy_fold_paths [OF h(1), of ?es] hierarchy_fold_sub_distinct [OF h(1), of ?es] that h(2-4) by simp
  moreover have "map oe_path ?out = ?qs" if "lo_recursive args"
    using hierarchy_fold_recursive [of ?h ?es] that h(4) paths by simp
  ultimately have "if lo_recursive args then map oe_path ?out = ?qs
      else oe_path ` set ?out = child_path ?pre ` set ?qs \<and> distinct (filter (has_sub ?pre) (map oe_path ?out))"
    by presburger
  with list out show ?thesis unfolding Let_def by (intro exI conjI)
qed

theorem memory_list_children_witness:
  "\<exists>out n. collect_entries (hierarchy_next (kl_next slash)) n
      ([''a/b'', ''a/c/d'', ''a/c/e''], hierarchy_new ''a/'' False) = (out, True)
    \<and> oe_path ` set out = {''a/b'', ''a/c/''}"
proof -
  let ?v = "\<lparr>kv_metadata = metadata_new FILE, kv_content = buf_new\<rparr>"
  let ?m = "[(''a/b'', ?v), (''a/c/d'', ?v), (''a/c/e'', ?v), (''b'', ?v)]"
  have ok: "bt_ok ?m" by (simp add: bt_ok_def)
  have k: "keys_ok slash ?m" using ok by (simp add: keys_ok_def key_ok_def starts_char_def slash_def starts_with_def)
  have n: "normalized_root slash" "normalized_path ''a/''"
    using normalized_root_normalize [of "[]"] normalized_path_path_of [of "[''a'']" True]
    by (simp_all add: normalize_root_slash slash_def)
  have p: "list_prefix ''a/'' = ''a/''" by (simp add: list_prefix_def slash_def)
  have s: "filter (\<lambda>q. starts_with q ''a/'') (stored_paths slash ?m) = [''a/b'', ''a/c/d'', ''a/c/e'']"
    by (simp add: stored_paths_def rel_of_def starts_with_def slash_def)
  have l: "ac_list (tk_access mem_adapter ''memory'' [] mem_capability slash) ''a/'' op_list_default ?m
      = (Ok ([''a/b'', ''a/c/d'', ''a/c/e''], hierarchy_new ''a/'' False), ?m)"
    using n by (simp add: tk_access_def kv_list_def build_abs_path_key mem_adapter_def mem_scan_def
        kv_key_def slash_def starts_with_def op_list_default_def)
  from memory_list_children [OF k n, of "''memory''" "[]" mem_capability op_list_default]
  obtain out i where "collect_entries (hierarchy_next (kl_next slash)) i
      ([''a/b'', ''a/c/d'', ''a/c/e''], hierarchy_new ''a/'' False) = (out, True)"
    "oe_path ` set out = child_path ''a/'' ` set [''a/b'', ''a/c/d'', ''a/c/e'']"
    unfolding l p Let_def s by (auto simp: op_list_default_def)
  then show ?thesis by (auto simp: child_path_def)
qed

end
