(* ===== verification/Layers.thy ===== *)
theory Layers
  imports KvStores
begin

text \<open>
  The layers between the operator and a service that have logic of their own:
  \<^verbatim>\<open>core/src/layers/correctness_check.rs\<close>, \<^verbatim>\<open>capability_check.rs\<close>, \<^verbatim>\<open>complete.rs\<close>,
  \<^verbatim>\<open>error_context.rs\<close> and \<^verbatim>\<open>mime_guess.rs\<close>, and the stack that every operator gets
  (\<^verbatim>\<open>core/src/types/operator/builder.rs\<close>).

  A layer maps an accessor to an accessor; the flag \<open>blk\<close> says whether the half at hand is the
  blocking one, where the code of the two halves differs.
\<close>

subsection \<open>Checking arguments against capabilities\<close>

definition new_unsupported_error :: "accessor_info \<Rightarrow> operation \<Rightarrow> string \<Rightarrow> error" where
  "new_unsupported_error info op args =
     with_operation (op_into_static op) (new_error Unsupported
       (''The service '' @ ai_scheme info @ '' does not support the operation '' @ op_into_static op
        @ '' with the arguments '' @ args
        @ ''. Please verify if the relevant flags have been enabled, or submit an issue if you believe this is incorrect.''))"

text \<open>The checks are tried in order; the first argument that is set but not supported is reported.\<close>

fun unsupported_arg :: "(bool \<times> string) list \<Rightarrow> string option" where
  "unsupported_arg [] = None"
| "unsupported_arg ((c, name) # cs) = (if c then Some name else unsupported_arg cs)"

definition checked ::
  "accessor_info \<Rightarrow> operation \<Rightarrow> (bool \<times> string) list \<Rightarrow> ('w \<Rightarrow> 'a res \<times> 'w) \<Rightarrow> 'w \<Rightarrow> 'a res \<times> 'w" where
  "checked info op cs run w =
     (case unsupported_arg cs of
        Some name \<Rightarrow> (Err (new_unsupported_error info op name), w)
      | None \<Rightarrow> run w)"

definition cc_read_args :: "capability \<Rightarrow> bool \<Rightarrow> op_read \<Rightarrow> (bool \<times> string) list" where
  "cc_read_args cap blk args =
     (\<not> cap_read_with_version cap \<and> ro_version args \<noteq> None, ''version'')
     # (if blk then [] else
        [(\<not> cap_read_with_if_match cap \<and> ro_if_match args \<noteq> None, ''if_match''),
         (\<not> cap_read_with_if_none_match cap \<and> ro_if_none_match args \<noteq> None, ''if_none_match''),
         (\<not> cap_read_with_if_modified_since cap \<and> ro_if_modified_since args \<noteq> None, ''if_modified_since''),
         (\<not> cap_read_with_if_unmodified_since cap \<and> ro_if_unmodified_since args \<noteq> None, ''if_unmodified_since'')])"

definition cc_read ::
  "bool \<Rightarrow> ('r, 'wr, 'l, 'd, 'w) access \<Rightarrow> string \<Rightarrow> op_read \<Rightarrow> 'w \<Rightarrow> 'r res \<times> 'w" where
  "cc_read blk ac path args =
     checked (ac_info ac) (if blk then OpBlockingRead else OpRead)
       (cc_read_args (ai_full_capability (ac_info ac)) blk args) (ac_read ac path args)"

definition cc_write ::
  "bool \<Rightarrow> ('r, 'wr, 'l, 'd, 'w) access \<Rightarrow> string \<Rightarrow> op_write \<Rightarrow> 'w \<Rightarrow> 'wr res \<times> 'w" where
  "cc_write blk ac path args w =
     (let info = ac_info ac; cap = ai_full_capability info; op = (if blk then OpBlockingWrite else OpWrite) in
      if wo_append args \<and> \<not> cap_write_can_append cap
      then (Err (new_unsupported_error info op ''append''), w)
      else if wo_if_not_exists args \<and> \<not> cap_write_with_if_not_exists cap
      then (Err (new_unsupported_error info op ''if_not_exists''), w)
      else (case wo_if_none_match args of
              None \<Rightarrow> ac_write ac path args w
            | Some v \<Rightarrow>
                if \<not> cap_write_with_if_none_match cap
                then let err = new_unsupported_error info op ''if_none_match'' in
                     (Err (if \<not> blk \<and> v = ''*'' \<and> cap_write_with_if_not_exists cap
                           then with_context ''hint'' ''use if_not_exists instead'' err else err), w)
                else ac_write ac path args w))"

definition cc_stat_args :: "capability \<Rightarrow> bool \<Rightarrow> op_stat \<Rightarrow> (bool \<times> string) list" where
  "cc_stat_args cap blk args =
     (\<not> cap_stat_with_version cap \<and> so_version args \<noteq> None, ''version'')
     # (if blk then [] else
        [(\<not> cap_stat_with_if_match cap \<and> so_if_match args \<noteq> None, ''if_match''),
         (\<not> cap_stat_with_if_none_match cap \<and> so_if_none_match args \<noteq> None, ''if_none_match''),
         (\<not> cap_stat_with_if_modified_since cap \<and> so_if_modified_since args \<noteq> None, ''if_modified_since''),
         (\<not> cap_stat_with_if_unmodified_since cap \<and> so_if_unmodified_since args \<noteq> None, ''if_unmodified_since'')])"

definition cc_stat ::
  "bool \<Rightarrow> ('r, 'wr, 'l, 'd, 'w) access \<Rightarrow> string \<Rightarrow> op_stat \<Rightarrow> 'w \<Rightarrow> (metadata res \<times> 'w) option" where
  "cc_stat blk ac path args w =
     (case unsupported_arg (cc_stat_args (ai_full_capability (ac_info ac)) blk args) of
        Some name \<Rightarrow> Some (Err (new_unsupported_error (ac_info ac) (if blk then OpBlockingStat else OpStat) name), w)
      | None \<Rightarrow> ac_stat ac path args w)"

definition cc_delete ::
  "('r, 'wr, 'l, 'd, 'w) access \<Rightarrow> string \<Rightarrow> op_delete \<Rightarrow> 'd \<Rightarrow> 'w \<Rightarrow> unit res \<times> 'd \<times> 'w" where
  "cc_delete ac path args d w =
     (if od_version args \<noteq> None \<and> \<not> cap_delete_with_version (ai_full_capability (ac_info ac))
      then (Err (new_unsupported_error (ac_info ac) OpDeleterDelete ''version''), d, w)
      else ac_deleter_delete ac path args d w)"

definition correctness_check ::
  "bool \<Rightarrow> ('r, 'wr, 'l, 'd, 'w) access \<Rightarrow> ('r, 'wr, 'l, 'd, 'w) access" where
  "correctness_check blk ac =
     ac\<lparr>ac_read := cc_read blk ac, ac_write := cc_write blk ac, ac_stat := cc_stat blk ac,
        ac_deleter_delete := cc_delete ac\<rparr>"

paragraph \<open>The stricter check\<close>

definition kc_write ::
  "bool \<Rightarrow> ('r, 'wr, 'l, 'd, 'w) access \<Rightarrow> string \<Rightarrow> op_write \<Rightarrow> 'w \<Rightarrow> 'wr res \<times> 'w" where
  "kc_write blk ac path args =
     (let cap = ai_full_capability (ac_info ac) in
      checked (ac_info ac) (if blk then OpBlockingWrite else OpWrite)
       [(\<not> cap_write_with_content_type cap \<and> wo_content_type args \<noteq> None, ''content_type''),
        (\<not> cap_write_with_cache_control cap \<and> wo_cache_control args \<noteq> None, ''cache_control''),
        (\<not> cap_write_with_content_disposition cap \<and> wo_content_disposition args \<noteq> None, ''content_disposition'')]
       (ac_write ac path args))"

definition kc_list ::
  "bool \<Rightarrow> ('r, 'wr, 'l, 'd, 'w) access \<Rightarrow> string \<Rightarrow> op_list \<Rightarrow> 'w \<Rightarrow> 'l res \<times> 'w" where
  "kc_list blk ac path args =
     checked (ac_info ac) (if blk then OpBlockingList else OpList)
       [(\<not> cap_list_with_versions (ai_full_capability (ac_info ac)) \<and> lo_versions args, ''version'')]
       (ac_list ac path args)"

definition capability_check ::
  "bool \<Rightarrow> ('r, 'wr, 'l, 'd, 'w) access \<Rightarrow> ('r, 'wr, 'l, 'd, 'w) access" where
  "capability_check blk ac = ac\<lparr>ac_write := kc_write blk ac, ac_list := kc_list blk ac\<rparr>"

subsection \<open>Guessing content types\<close>

text \<open>\<open>mime\<close> is \<^verbatim>\<open>mime_guess::from_path(path).first_raw()\<close>.\<close>

definition opwrite_with_mime :: "(string \<Rightarrow> string option) \<Rightarrow> string \<Rightarrow> op_write \<Rightarrow> op_write" where
  "opwrite_with_mime mime path op =
     (if wo_content_type op \<noteq> None then op
      else case mime path of Some m \<Rightarrow> wo_with_content_type m op | None \<Rightarrow> op)"

definition rpstat_with_mime :: "(string \<Rightarrow> string option) \<Rightarrow> string \<Rightarrow> metadata \<Rightarrow> metadata" where
  "rpstat_with_mime mime path md =
     (if md_content_type md \<noteq> None then md
      else case mime path of Some m \<Rightarrow> md\<lparr>md_content_type := Some m\<rparr> | None \<Rightarrow> md)"

definition mime_guess_layer ::
  "(string \<Rightarrow> string option) \<Rightarrow> ('r, 'wr, 'l, 'd, 'w) access \<Rightarrow> ('r, 'wr, 'l, 'd, 'w) access" where
  "mime_guess_layer mime ac =
     ac\<lparr>ac_write := (\<lambda>path args. ac_write ac path (opwrite_with_mime mime path args)),
        ac_stat := (\<lambda>path args w. map_option (\<lambda>x. step x (\<lambda>md w. (Ok (rpstat_with_mime mime path md), w)))
          (ac_stat ac path args w))\<rparr>"

subsection \<open>The immutable index\<close>

text \<open>\<open>order\<close> is the iteration order of the set of children.\<close>

definition index_info :: "accessor_info \<Rightarrow> accessor_info" where
  "index_info info =
     info\<lparr>ai_full_capability := (ai_full_capability info)\<lparr>cap_list := True, cap_list_with_recursive := True\<rparr>\<rparr>"

definition immutable_index_layer ::
  "(string set \<Rightarrow> string list) \<Rightarrow> string list \<Rightarrow> ('r, 'wr, 'l, 'd, 'w) access \<Rightarrow> ('r, 'wr, string list, 'd, 'w) access" where
  "immutable_index_layer order vec ac =
     \<lparr>ac_info = index_info (ac_info ac),
      ac_create_dir = ac_create_dir ac, ac_stat = ac_stat ac, ac_read = ac_read ac,
      ac_write = ac_write ac, ac_delete = ac_delete ac,
      ac_list = (\<lambda>path args w. (Ok (index_list order vec path (lo_recursive args)), w)),
      ac_copy = ac_copy ac, ac_rename = ac_rename ac,
      ac_reader_read = ac_reader_read ac, ac_writer_write = ac_writer_write ac,
      ac_writer_close = ac_writer_close ac, ac_writer_abort = ac_writer_abort ac,
      ac_lister_next = (\<lambda>l w. world_lister immutable_dir_next (l, w)),
      ac_deleter_delete = ac_deleter_delete ac, ac_deleter_flush = ac_deleter_flush ac\<rparr>"

subsection \<open>Completing a service\<close>

record 'r complete_reader =
  cpr_inner :: 'r
  cpr_size :: "u64 option"
  cpr_read :: u64

definition cpr_new :: "'r \<Rightarrow> u64 option \<Rightarrow> 'r complete_reader" where
  "cpr_new r sz = \<lparr>cpr_inner = r, cpr_size = sz, cpr_read = 0\<rparr>"

definition cpr_check :: "'r complete_reader \<Rightarrow> unit res" where
  "cpr_check st =
     (case cpr_size st of
        None \<Rightarrow> Ok ()
      | Some sz \<Rightarrow>
          if cpr_read st = sz then Ok ()
          else Err (with_context ''actual'' (show_u64 (cpr_read st)) (with_context ''expect'' (show_u64 sz)
                 (new_error Unexpected
                   (if cpr_read st < sz then ''reader got too little data'' else ''reader got too much data'')))))"

definition cpr_next ::
  "('r \<Rightarrow> 'w \<Rightarrow> buffer res \<times> 'r \<times> 'w) \<Rightarrow> 'r complete_reader \<Rightarrow> 'w \<Rightarrow> buffer res \<times> 'r complete_reader \<times> 'w" where
  "cpr_next read st w =
     (let (r, inner, w') = read (cpr_inner st) w; st' = st\<lparr>cpr_inner := inner\<rparr> in
      case r of
        Ok buf \<Rightarrow>
          if buf_is_empty buf then (and_then (cpr_check st') (\<lambda>u. Ok buf), st', w')
          else (case u64_add (cpr_read st') (of_nat (buf_len buf)) of
                  Ok n \<Rightarrow> (Ok buf, st'\<lparr>cpr_read := n\<rparr>, w')
                | Err e \<Rightarrow> (Err e, st', w') | Panic \<Rightarrow> (Panic, st', w'))
      | Err e \<Rightarrow> (Err e, st', w')
      | Panic \<Rightarrow> (Panic, st', w'))"

text \<open>A writer that is used up by a successful \<open>close\<close> or \<open>abort\<close>.\<close>

definition cpw_closed :: error where
  "cpw_closed = new_error Unexpected ''writer has been closed or aborted''"

definition cpw_write ::
  "(buffer \<Rightarrow> 'wr \<Rightarrow> 'w \<Rightarrow> unit res \<times> 'wr \<times> 'w) \<Rightarrow> buffer \<Rightarrow> 'wr option \<Rightarrow> 'w \<Rightarrow> unit res \<times> 'wr option \<times> 'w" where
  "cpw_write write_op bs st w =
     (case st of
        None \<Rightarrow> (Err cpw_closed, None, w)
      | Some wr \<Rightarrow> (let (r, wr', w') = write_op bs wr w in (r, Some wr', w')))"

definition cpw_finish ::
  "('wr \<Rightarrow> 'w \<Rightarrow> unit res \<times> 'wr \<times> 'w) \<Rightarrow> 'wr option \<Rightarrow> 'w \<Rightarrow> unit res \<times> 'wr option \<times> 'w" where
  "cpw_finish finish st w =
     (case st of
        None \<Rightarrow> (Err cpw_closed, None, w)
      | Some wr \<Rightarrow>
          (let (r, wr', w') = finish wr w in (r, if r = Ok () then None else Some wr', w')))"

definition cpw_close ::
  "('wr \<Rightarrow> 'w \<Rightarrow> unit res \<times> 'wr \<times> 'w) \<Rightarrow> 'wr option \<Rightarrow> 'w \<Rightarrow> unit res \<times> 'wr option \<times> 'w" where
  "cpw_close = cpw_finish"

definition cpw_abort ::
  "('wr \<Rightarrow> 'w \<Rightarrow> unit res \<times> 'wr \<times> 'w) \<Rightarrow> 'wr option \<Rightarrow> 'w \<Rightarrow> unit res \<times> 'wr option \<times> 'w" where
  "cpw_abort = cpw_finish"

text \<open>The four kinds of listers; the string is the prefix of a \<^verbatim>\<open>PrefixLister\<close>.\<close>

datatype 'l complete_lister =
    LOne 'l
  | LTwo "'l flat_lister"
  | LThree 'l string
  | LFour "'l flat_lister" string

definition ac_next :: "('r, 'wr, 'l, 'd, 'w) access \<Rightarrow> ('l \<times> 'w) lister" where
  "ac_next ac = (\<lambda>(l, w). ac_lister_next ac l w)"

definition cpl_flat :: "('r, 'wr, 'l, 'd, 'w) access \<Rightarrow> ('l flat_lister \<times> 'w) lister" where
  "cpl_flat ac = flat_next (\<lambda>p. ac_list ac p op_list_default) (ac_next ac)"

fun cpl_next ::
  "('r, 'wr, 'l, 'd, 'w) access \<Rightarrow> 'l complete_lister \<Rightarrow> 'w
     \<Rightarrow> (oio_entry option res \<times> 'l complete_lister \<times> 'w) option" where
  "cpl_next ac (LOne l) w = map_option (\<lambda>(r, l', w'). (r, LOne l', w')) (ac_next ac (l, w))"
| "cpl_next ac (LTwo l) w = map_option (\<lambda>(r, l', w'). (r, LTwo l', w')) (cpl_flat ac (l, w))"
| "cpl_next ac (LThree l pre) w =
     map_option (\<lambda>(r, l', w'). (r, LThree l' pre, w')) (prefix_next (ac_next ac) pre (l, w))"
| "cpl_next ac (LFour l pre) w =
     map_option (\<lambda>(r, l', w'). (r, LFour l' pre, w')) (prefix_next (cpl_flat ac) pre (l, w))"

definition complete_create_dir ::
  "bool \<Rightarrow> ('r, 'wr, 'l, 'd, 'w) access \<Rightarrow> string \<Rightarrow> 'w \<Rightarrow> unit res \<times> 'w" where
  "complete_create_dir blk ac path w =
     (let cap = ai_full_capability (ac_info ac); can = (\<not> blk \<or> cap_blocking cap) in
      if cap_create_dir cap \<and> can then ac_create_dir ac path w
      else if cap_write_can_empty cap \<and> cap_list cap \<and> can
      then step (ac_write ac path op_write_default w) (\<lambda>wr w.
             let (r, wr', w') = ac_writer_close ac wr w in step (r, w') (\<lambda>u w. (Ok (), w)))
      else ac_create_dir ac path w)"

text \<open>The blocking half replaces the metadata of a directory by an empty one.\<close>

definition complete_stat ::
  "bool \<Rightarrow> ('r, 'wr, 'l, 'd, 'w) access \<Rightarrow> string \<Rightarrow> op_stat \<Rightarrow> 'w \<Rightarrow> (metadata res \<times> 'w) option" where
  "complete_stat blk ac path args w =
     (let cap = ai_full_capability (ac_info ac) in
      if path = slash then Some (Ok (metadata_new DIR), w)
      else if ends_with path CHR ''/'' \<and> cap_create_dir cap
      then map_option (\<lambda>x. step x (\<lambda>md w.
             if mode_is_file (md_mode md)
             then (Err (new_error NotFound ''stat expected a directory, but found a file''), w)
             else (Ok (if blk then metadata_new DIR else md), w))) (ac_stat ac path args w)
      else if ends_with path CHR ''/'' \<and> cap_list_with_recursive cap
      then (case ac_list ac path (lo_with_limit 1 (lo_with_recursive True op_list_default)) w of
              (Ok l, w1) \<Rightarrow>
                map_option (\<lambda>(r, l', w'). step (r, w') (\<lambda>e w.
                    if e \<noteq> None then (Ok (metadata_new DIR), w)
                    else (Err (new_error NotFound ''the directory is not found''), w)))
                  (ac_lister_next ac l w1)
            | (Err e, w1) \<Rightarrow> Some (Err e, w1)
            | (Panic, w1) \<Rightarrow> Some (Panic, w1))
      else ac_stat ac path args w)"

definition complete_list ::
  "('r, 'wr, 'l, 'd, 'w) access \<Rightarrow> string \<Rightarrow> op_list \<Rightarrow> 'w \<Rightarrow> 'l complete_lister res \<times> 'w" where
  "complete_list ac path args w =
     (if cap_list_with_recursive (ai_full_capability (ac_info ac))
      then step (ac_list ac path args w) (\<lambda>l w. (Ok (LOne l), w))
      else if lo_recursive args
      then (if ends_with path CHR ''/''
            then (and_then (flat_new path) (\<lambda>fl. Ok (LTwo fl)), w)
            else (and_then (flat_new (get_parent path)) (\<lambda>fl. Ok (LFour fl path)), w))
      else (if ends_with path CHR ''/''
            then step (ac_list ac path args w) (\<lambda>l w. (Ok (LOne l), w))
            else step (ac_list ac (get_parent path) args w) (\<lambda>l w. (Ok (LThree l path), w))))"

definition complete_info :: "accessor_info \<Rightarrow> accessor_info" where
  "complete_info info =
     (let cap = ai_full_capability info in
      if cap_list cap \<and> cap_write_can_empty cap
      then info\<lparr>ai_full_capability := cap\<lparr>cap_create_dir := True\<rparr>\<rparr> else info)"

definition complete_layer ::
  "bool \<Rightarrow> ('r, 'wr, 'l, 'd, 'w) access
     \<Rightarrow> ('r complete_reader, 'wr option, 'l complete_lister, 'd, 'w) access" where
  "complete_layer blk ac =
     \<lparr>ac_info = complete_info (ac_info ac),
      ac_create_dir = complete_create_dir blk ac,
      ac_stat = complete_stat blk ac,
      ac_read = (\<lambda>path args w. step (ac_read ac path args w) (\<lambda>r w. (Ok (cpr_new r (br_size (ro_range args))), w))),
      ac_write = (\<lambda>path args w. step (ac_write ac path args w) (\<lambda>wr w. (Ok (Some wr), w))),
      ac_delete = ac_delete ac,
      ac_list = complete_list ac,
      ac_copy = ac_copy ac,
      ac_rename = ac_rename ac,
      ac_reader_read = cpr_next (ac_reader_read ac),
      ac_writer_write = cpw_write (ac_writer_write ac),
      ac_writer_close = cpw_close (ac_writer_close ac),
      ac_writer_abort = cpw_abort (ac_writer_abort ac),
      ac_lister_next = cpl_next ac,
      ac_deleter_delete = ac_deleter_delete ac,
      ac_deleter_flush = ac_deleter_flush ac\<rparr>"

subsection \<open>Error context\<close>

record 't ec_wrapper =
  ecw_scheme :: string
  ecw_path :: string
  ecw_inner :: 't
  ecw_range :: bytes_range
  ecw_processed :: u64

definition ecw_new :: "string \<Rightarrow> string \<Rightarrow> 't \<Rightarrow> 't ec_wrapper" where
  "ecw_new scheme path inner =
     \<lparr>ecw_scheme = scheme, ecw_path = path, ecw_inner = inner, ecw_range = BytesRange 0 None, ecw_processed = 0\<rparr>"

text \<open>
  An error gets the operation and a list of contexts; the text of a range, which is only made for
  an error, may panic.
\<close>

definition ec_error :: "operation \<Rightarrow> (string \<times> string) list \<Rightarrow> error \<Rightarrow> error" where
  "ec_error op cs e = fold (\<lambda>(k, v). with_context k v) cs (with_operation (op_into_static op) e)"

definition ec_call ::
  "operation \<Rightarrow> (string \<times> string) list \<Rightarrow> 'a res \<times> 'w \<Rightarrow> ('a \<Rightarrow> 'b) \<Rightarrow> 'b res \<times> 'w" where
  "ec_call op cs x wrap =
     (case x of
        (Ok a, w) \<Rightarrow> (Ok (wrap a), w)
      | (Err e, w) \<Rightarrow> (Err (ec_error op cs e), w)
      | (Panic, w) \<Rightarrow> (Panic, w))"

definition ec_read ::
  "bool \<Rightarrow> ('r, 'wr, 'l, 'd, 'w) access \<Rightarrow> string \<Rightarrow> op_read \<Rightarrow> 'w \<Rightarrow> 'r ec_wrapper res \<times> 'w" where
  "ec_read blk ac path args w =
     (let scheme = ai_scheme (ac_info ac); rng = ro_range args in
      case ac_read ac path args w of
        (Ok r, w') \<Rightarrow> (Ok ((ecw_new scheme path r)\<lparr>ecw_range := rng\<rparr>), w')
      | (Err e, w') \<Rightarrow>
          (and_then (br_display rng) (\<lambda>t. Err (ec_error (if blk then OpBlockingRead else OpRead)
             [(''service'', scheme), (''path'', path), (''range'', t)] e)), w')
      | (Panic, w') \<Rightarrow> (Panic, w'))"

text \<open>The calls that count: a successful one adds what it processed.\<close>

definition ec_counted ::
  "'t ec_wrapper \<Rightarrow> ('a \<Rightarrow> u64) \<Rightarrow> (error \<Rightarrow> error res) \<Rightarrow> 'a res \<times> 't \<times> 'w \<Rightarrow> 'a res \<times> 't ec_wrapper \<times> 'w" where
  "ec_counted st amount on_error = (\<lambda>(r, inner, w').
     let st' = st\<lparr>ecw_inner := inner\<rparr> in
     case r of
       Ok a \<Rightarrow> (case u64_add (ecw_processed st') (amount a) of
                  Ok n \<Rightarrow> (Ok a, st'\<lparr>ecw_processed := n\<rparr>, w')
                | Err err \<Rightarrow> (Err err, st', w') | Panic \<Rightarrow> (Panic, st', w'))
     | Err e \<Rightarrow> (and_then (on_error e) Err, st', w')
     | Panic \<Rightarrow> (Panic, st', w'))"

definition ec_reader_read ::
  "bool \<Rightarrow> ('r, 'wr, 'l, 'd, 'w) access \<Rightarrow> 'r ec_wrapper \<Rightarrow> 'w \<Rightarrow> buffer res \<times> 'r ec_wrapper \<times> 'w" where
  "ec_reader_read blk ac st w =
     ec_counted st (\<lambda>bs. of_nat (buf_len bs))
       (\<lambda>e. and_then (br_display (ecw_range st)) (\<lambda>t.
          Ok (ec_error (if blk then OpBlockingReaderRead else OpReaderRead)
            [(''service'', ecw_scheme st), (''path'', ecw_path st), (''range'', t),
             (''read'', show_u64 (ecw_processed st))] e)))
       (ac_reader_read ac (ecw_inner st) w)"

definition ec_writer_write ::
  "bool \<Rightarrow> ('r, 'wr, 'l, 'd, 'w) access \<Rightarrow> buffer \<Rightarrow> 'wr ec_wrapper \<Rightarrow> 'w \<Rightarrow> unit res \<times> 'wr ec_wrapper \<times> 'w" where
  "ec_writer_write blk ac bs st w =
     ec_counted st (\<lambda>u. of_nat (buf_len bs))
       (\<lambda>e. Ok (ec_error (if blk then OpBlockingWriterWrite else OpWriterWrite)
          [(''service'', ecw_scheme st), (''path'', ecw_path st), (''size'', show_nat (buf_len bs)),
           (''written'', show_u64 (ecw_processed st))] e))
       (ac_writer_write ac bs (ecw_inner st) w)"

definition ec_writer_close ::
  "bool \<Rightarrow> ('r, 'wr, 'l, 'd, 'w) access \<Rightarrow> 'wr ec_wrapper \<Rightarrow> 'w \<Rightarrow> unit res \<times> 'wr ec_wrapper \<times> 'w" where
  "ec_writer_close blk ac st w =
     ec_counted st (\<lambda>u. 0)
       (\<lambda>e. Ok (ec_error (if blk then OpBlockingWriterClose else OpWriterClose)
          [(''service'', ecw_scheme st), (''path'', ecw_path st), (''written'', show_u64 (ecw_processed st))] e))
       (ac_writer_close ac (ecw_inner st) w)"

definition ec_writer_abort ::
  "('r, 'wr, 'l, 'd, 'w) access \<Rightarrow> 'wr ec_wrapper \<Rightarrow> 'w \<Rightarrow> unit res \<times> 'wr ec_wrapper \<times> 'w" where
  "ec_writer_abort ac st w =
     ec_counted st (\<lambda>u. 0)
       (\<lambda>e. Ok (ec_error OpWriterAbort
          [(''service'', ecw_scheme st), (''path'', ecw_path st), (''processed'', show_u64 (ecw_processed st))] e))
       (ac_writer_abort ac (ecw_inner st) w)"

definition ec_deleter_delete ::
  "('r, 'wr, 'l, 'd, 'w) access \<Rightarrow> string \<Rightarrow> op_delete \<Rightarrow> 'd ec_wrapper \<Rightarrow> 'w \<Rightarrow> unit res \<times> 'd ec_wrapper \<times> 'w" where
  "ec_deleter_delete ac path args st w =
     ec_counted st (\<lambda>u. 0)
       (\<lambda>e. Ok (ec_error OpDeleterDelete
          [(''service'', ecw_scheme st), (''path'', path), (''deleted'', show_u64 (ecw_processed st))] e))
       (ac_deleter_delete ac path args (ecw_inner st) w)"

definition ec_deleter_flush ::
  "('r, 'wr, 'l, 'd, 'w) access \<Rightarrow> 'd ec_wrapper \<Rightarrow> 'w \<Rightarrow> nat res \<times> 'd ec_wrapper \<times> 'w" where
  "ec_deleter_flush ac st w =
     ec_counted st of_nat
       (\<lambda>e. Ok (ec_error OpDeleterFlush
          [(''service'', ecw_scheme st), (''deleted'', show_u64 (ecw_processed st))] e))
       (ac_deleter_flush ac (ecw_inner st) w)"

definition ec_lister_next ::
  "bool \<Rightarrow> ('r, 'wr, 'l, 'd, 'w) access \<Rightarrow> 'l ec_wrapper \<Rightarrow> 'w
     \<Rightarrow> (oio_entry option res \<times> 'l ec_wrapper \<times> 'w) option" where
  "ec_lister_next blk ac st w =
     map_option (ec_counted st (\<lambda>e. if e \<noteq> None then 1 else 0)
       (\<lambda>e. Ok (ec_error (if blk then OpBlockingListerNext else OpListerNext)
          [(''service'', ecw_scheme st), (''path'', ecw_path st), (''listed'', show_u64 (ecw_processed st))] e)))
       (ac_lister_next ac (ecw_inner st) w)"

definition error_context_layer ::
  "bool \<Rightarrow> ('r, 'wr, 'l, 'd, 'w) access
     \<Rightarrow> ('r ec_wrapper, 'wr ec_wrapper, 'l ec_wrapper, 'd ec_wrapper, 'w) access" where
  "error_context_layer blk ac =
     (let scheme = ai_scheme (ac_info ac);
          at = (\<lambda>path. [(''service'', scheme), (''path'', path)]);
          between = (\<lambda>from to. [(''service'', scheme), (''from'', from), (''to'', to)]) in
      \<lparr>ac_info = ac_info ac,
       ac_create_dir = (\<lambda>path w. ec_call (if blk then OpBlockingCreateDir else OpCreateDir) (at path)
          (ac_create_dir ac path w) id),
       ac_stat = (\<lambda>path args w. map_option (\<lambda>x. ec_call (if blk then OpBlockingStat else OpStat) (at path) x id)
          (ac_stat ac path args w)),
       ac_read = ec_read blk ac,
       ac_write = (\<lambda>path args w. ec_call (if blk then OpBlockingWrite else OpWrite) (at path)
          (ac_write ac path args w) (ecw_new scheme path)),
       ac_delete = (\<lambda>w. ec_call (if blk then OpBlockingDelete else OpDelete) [(''service'', scheme)]
          (ac_delete ac w) (ecw_new scheme '''')),
       ac_list = (\<lambda>path args w. ec_call (if blk then OpBlockingList else OpList) (at path)
          (ac_list ac path args w) (ecw_new scheme path)),
       ac_copy = (\<lambda>from to w. ec_call (if blk then OpBlockingCopy else OpCopy) (between from to)
          (ac_copy ac from to w) id),
       ac_rename = (\<lambda>from to w. ec_call (if blk then OpBlockingRename else OpRename) (between from to)
          (ac_rename ac from to w) id),
       ac_reader_read = ec_reader_read blk ac,
       ac_writer_write = ec_writer_write blk ac,
       ac_writer_close = ec_writer_close blk ac,
       ac_writer_abort = ec_writer_abort ac,
       ac_lister_next = ec_lister_next blk ac,
       ac_deleter_delete = ec_deleter_delete ac,
       ac_deleter_flush = ec_deleter_flush ac\<rparr>)"

text \<open>The layers every operator is built with.\<close>

definition default_layers ::
  "bool \<Rightarrow> ('r, 'wr, 'l, 'd, 'w) access
     \<Rightarrow> ('r ec_wrapper complete_reader, 'wr ec_wrapper option, 'l ec_wrapper complete_lister, 'd ec_wrapper, 'w) access" where
  "default_layers blk ac = correctness_check blk (complete_layer blk (error_context_layer blk ac))"

lemma error_context_fields:
  "ac_read (error_context_layer blk ac) = ec_read blk ac"
  "ac_write (error_context_layer blk ac) path wa w =
     ec_call (if blk then OpBlockingWrite else OpWrite) [(''service'', ai_scheme (ac_info ac)), (''path'', path)]
       (ac_write ac path wa w) (ecw_new (ai_scheme (ac_info ac)) path)"
  "ac_list (error_context_layer blk ac) path la w =
     ec_call (if blk then OpBlockingList else OpList) [(''service'', ai_scheme (ac_info ac)), (''path'', path)]
       (ac_list ac path la w) (ecw_new (ai_scheme (ac_info ac)) path)"
  "ac_stat (error_context_layer blk ac) path sa w =
     map_option (\<lambda>x. ec_call (if blk then OpBlockingStat else OpStat)
       [(''service'', ai_scheme (ac_info ac)), (''path'', path)] x id) (ac_stat ac path sa w)"
  "ac_reader_read (error_context_layer blk ac) = ec_reader_read blk ac"
  "ac_writer_write (error_context_layer blk ac) = ec_writer_write blk ac"
  "ac_writer_close (error_context_layer blk ac) = ec_writer_close blk ac"
  "ac_lister_next (error_context_layer blk ac) = ec_lister_next blk ac"
  "ac_deleter_delete (error_context_layer blk ac) = ec_deleter_delete ac"
  "ac_info (error_context_layer blk ac) = ac_info ac"
  by (simp_all add: error_context_layer_def Let_def)

subsection \<open>The layers keep the writer interface\<close>

text \<open>The writer of an accessor, on pairs of its state and the state of the service.\<close>

abbreviation writer_writes :: "('r, 'wr, 'l, 'd, 'w) access \<Rightarrow> buffer \<Rightarrow> 'wr \<times> 'w \<Rightarrow> unit res \<times> 'wr \<times> 'w" where
  "writer_writes ac \<equiv> \<lambda>b (wr, w). ac_writer_write ac b wr w"

abbreviation writer_closes :: "('r, 'wr, 'l, 'd, 'w) access \<Rightarrow> 'wr \<times> 'w \<Rightarrow> unit res \<times> 'wr \<times> 'w" where
  "writer_closes ac \<equiv> \<lambda>(wr, w). ac_writer_close ac wr w"

lemma ec_counted_Ok:
  "ec_counted st amount on_error x = (Ok a, st', w') \<Longrightarrow> x = (Ok a, ecw_inner st', w')"
  by (cases x; cases "fst x")
    (auto simp: ec_counted_def u64_add_def guard_def outcome_simps Let_def split: if_splits)

lemma ec_counted_Err:
  "ec_counted st amount on_error x = (Err e, st', w') \<Longrightarrow> \<exists>e0. x = (Err e0, ecw_inner st', w')"
  by (cases x; cases "fst x")
    (auto simp: ec_counted_def u64_add_def guard_def outcome_simps Let_def split: if_splits)

lemma error_context_writer:
  fixes ac :: "('r, 'wr, 'l, 'd, 'w) access"
  assumes "oio_write (writer_writes ac) (writer_closes ac) keeps committed"
  shows "oio_write (writer_writes (error_context_layer blk ac)) (writer_closes (error_context_layer blk ac))
    (\<lambda>log (st, w). keeps log (ecw_inner st, w)) (\<lambda>log (st, w). committed log (ecw_inner st, w))"
proof -
  note l = oio_write.write_Ok [OF assms] oio_write.write_Err [OF assms] oio_write.close_Ok [OF assms]
  show ?thesis
  proof unfold_locales
    fix log b and s s' :: "'wr ec_wrapper \<times> 'w"
    assume "case s of (st, w) \<Rightarrow> keeps log (ecw_inner st, w)"
      "(case s of (wr, w) \<Rightarrow> ac_writer_write (error_context_layer blk ac) b wr w) = (Ok (), s')"
    then show "case s' of (st, w) \<Rightarrow> keeps (log @ [b]) (ecw_inner st, w)"
      using l(1) [of log] by (auto simp: error_context_layer_def Let_def ec_writer_write_def dest!: ec_counted_Ok split: prod.splits)
  next
    fix log b e and s s' :: "'wr ec_wrapper \<times> 'w"
    assume "case s of (st, w) \<Rightarrow> keeps log (ecw_inner st, w)"
      "(case s of (wr, w) \<Rightarrow> ac_writer_write (error_context_layer blk ac) b wr w) = (Err e, s')"
    then show "case s' of (st, w) \<Rightarrow> keeps log (ecw_inner st, w)"
      using l(2) [of log] by (auto simp: error_context_layer_def Let_def ec_writer_write_def dest!: ec_counted_Err split: prod.splits)
  next
    fix log and s s' :: "'wr ec_wrapper \<times> 'w"
    assume "case s of (st, w) \<Rightarrow> keeps log (ecw_inner st, w)"
      "(case s of (wr, w) \<Rightarrow> ac_writer_close (error_context_layer blk ac) wr w) = (Ok (), s')"
    then show "case s' of (st, w) \<Rightarrow> committed log (ecw_inner st, w)"
      using l(3) [of log] by (auto simp: error_context_layer_def Let_def ec_writer_close_def dest!: ec_counted_Ok split: prod.splits)
  qed
qed

lemma complete_writer:
  fixes ac :: "('r, 'wr, 'l, 'd, 'w) access"
  assumes "oio_write (writer_writes ac) (writer_closes ac) keeps committed"
  shows "oio_write (writer_writes (complete_layer blk ac)) (writer_closes (complete_layer blk ac))
    (\<lambda>log (st, w). \<exists>wr. st = Some wr \<and> keeps log (wr, w)) (\<lambda>log (st, w). \<exists>wr. committed log (wr, w))"
proof -
  note l = oio_write.write_Ok [OF assms] oio_write.write_Err [OF assms] oio_write.close_Ok [OF assms]
  show ?thesis
  proof unfold_locales
    fix log b and s s' :: "'wr option \<times> 'w"
    assume "case s of (st, w) \<Rightarrow> \<exists>wr. st = Some wr \<and> keeps log (wr, w)"
      "(case s of (wr, w) \<Rightarrow> ac_writer_write (complete_layer blk ac) b wr w) = (Ok (), s')"
    then show "case s' of (st, w) \<Rightarrow> \<exists>wr. st = Some wr \<and> keeps (log @ [b]) (wr, w)"
      using l(1) [of log] by (auto simp: complete_layer_def cpw_write_def Let_def split: prod.splits)
  next
    fix log b e and s s' :: "'wr option \<times> 'w"
    assume "case s of (st, w) \<Rightarrow> \<exists>wr. st = Some wr \<and> keeps log (wr, w)"
      "(case s of (wr, w) \<Rightarrow> ac_writer_write (complete_layer blk ac) b wr w) = (Err e, s')"
    then show "case s' of (st, w) \<Rightarrow> \<exists>wr. st = Some wr \<and> keeps log (wr, w)"
      using l(2) [of log] by (auto simp: complete_layer_def cpw_write_def Let_def split: prod.splits)
  next
    fix log and s s' :: "'wr option \<times> 'w"
    assume "case s of (st, w) \<Rightarrow> \<exists>wr. st = Some wr \<and> keeps log (wr, w)"
      "(case s of (wr, w) \<Rightarrow> ac_writer_close (complete_layer blk ac) wr w) = (Ok (), s')"
    then show "case s' of (st, w) \<Rightarrow> \<exists>wr. committed log (wr, w)"
      using l(3) [of log]
      by (fastforce simp: complete_layer_def cpw_close_def cpw_finish_def Let_def split: prod.splits if_splits)
  qed
qed

lemma correctness_writer:
  "writer_writes (correctness_check blk ac) = writer_writes ac"
  "writer_closes (correctness_check blk ac) = writer_closes ac"
  by (simp_all add: correctness_check_def)

lemma default_layers_writer:
  fixes ac :: "('r, 'wr, 'l, 'd, 'w) access"
  assumes "oio_write (writer_writes ac) (writer_closes ac) keeps committed"
  shows "oio_write (writer_writes (default_layers blk ac)) (writer_closes (default_layers blk ac))
    (\<lambda>log (st, w). \<exists>wr. st = Some wr \<and> keeps log (ecw_inner wr, w))
    (\<lambda>log (st, w). \<exists>wr :: 'wr ec_wrapper. committed log (ecw_inner wr, w))"
  using complete_writer [OF error_context_writer [OF assms, of blk], of blk]
  unfolding default_layers_def correctness_writer by simp

subsection \<open>Reading to the end\<close>

text \<open>A client's loop: read until the empty buffer, at most \<open>n\<close> times.\<close>

fun rd_all :: "('r \<Rightarrow> 'w \<Rightarrow> buffer res \<times> 'r \<times> 'w) \<Rightarrow> nat \<Rightarrow> 'r \<Rightarrow> 'w \<Rightarrow> (buffer list res \<times> 'r \<times> 'w) option" where
  "rd_all read 0 r w = None"
| "rd_all read (Suc n) r w =
     (case read r w of
        (Ok b, r', w') \<Rightarrow>
          if buf_is_empty b then Some (Ok [], r', w')
          else map_option (\<lambda>(bs, s). (and_then bs (\<lambda>bs. Ok (b # bs)), s)) (rd_all read n r' w')
      | (Err e, r', w') \<Rightarrow> Some (Err e, r', w')
      | (Panic, r', w') \<Rightarrow> Some (Panic, r', w'))"

definition total_len :: "buffer list \<Rightarrow> nat" where
  "total_len bs = sum_list (map buf_len bs)"

lemma rd_all_complete:
  assumes "rd_all read n (cpr_inner st) w = Some (Ok bs, r', w')"
    and "unat (cpr_read st) + total_len bs \<le> u64_max"
  shows "case cpr_size st of
      None \<Rightarrow> \<exists>st'. rd_all (cpr_next read) n st w = Some (Ok bs, st', w')
    | Some sz \<Rightarrow>
        if unat (cpr_read st) + total_len bs = unat sz
        then \<exists>st'. rd_all (cpr_next read) n st w = Some (Ok bs, st', w')
        else \<exists>e st'. rd_all (cpr_next read) n st w = Some (Err e, st', w') \<and> err_kind e = Unexpected"
  using assms
proof (induction n arbitrary: st w bs)
  case (Suc n)
  obtain b r1 w1 where b: "read (cpr_inner st) w = (Ok b, r1, w1)"
    using Suc.prems(1) by (auto split: prod.splits outcome.splits)
  show ?case
  proof (cases "buf_is_empty b")
    case True
    with Suc.prems b have bs: "bs = []" "w' = w1" by auto
    with b True show ?thesis
      by (auto simp: cpr_next_def cpr_check_def total_len_def word_unat_eq_iff new_error_def with_context_def
          split: option.splits)
  next
    case False
    with Suc.prems(1) b obtain bs' where bs': "rd_all read n r1 w1 = Some (Ok bs', r', w')" "bs = b # bs'"
      by (auto simp: outcome_simps)
    define n1 where "n1 = cpr_read st + of_nat (buf_len b)"
    have len: "unat (cpr_read st) + buf_len b + total_len bs' \<le> u64_max"
      using Suc.prems(2) bs' by (simp add: total_len_def)
    then have add: "u64_add (cpr_read st) (of_nat (buf_len b)) = (Ok n1 :: u64 res)" "unat n1 = unat (cpr_read st) + buf_len b"
      using unat_of_nat_u64 [of "buf_len b"] by (simp_all add: n1_def unat_u64_add)
    let ?st = "st\<lparr>cpr_inner := r1, cpr_read := n1\<rparr>"
    have nx: "cpr_next read st w = (Ok b, ?st, w1)"
      using b False add(1) by (simp add: cpr_next_def Let_def)
    have "case cpr_size ?st of
      None \<Rightarrow> \<exists>st'. rd_all (cpr_next read) n ?st w1 = Some (Ok bs', st', w')
    | Some sz \<Rightarrow>
        if unat (cpr_read ?st) + total_len bs' = unat sz
        then \<exists>st'. rd_all (cpr_next read) n ?st w1 = Some (Ok bs', st', w')
        else \<exists>e st'. rd_all (cpr_next read) n ?st w1 = Some (Err e, st', w') \<and> err_kind e = Unexpected"
      by (rule Suc.IH) (use bs' len add in simp_all)
    then show ?thesis
      using nx False bs' add by (auto simp: total_len_def add.assoc split: option.splits if_splits)
  qed
qed simp

subsection \<open>Reading through the layers\<close>

text \<open>
  The readers that \<^verbatim>\<open>ReadContext\<close> opens on an accessor while the service is in state \<open>w\<close>, each as the
  script of what it returns. At most \<open>n\<close> buffers of a reader are looked at; a reader of a
  key-value service returns one buffer and then the end, so two calls see all of it.
\<close>

fun reader_script :: "('r \<Rightarrow> 'w \<Rightarrow> buffer res \<times> 'r \<times> 'w) \<Rightarrow> nat \<Rightarrow> 'r \<Rightarrow> 'w \<Rightarrow> oio_reader res" where
  "reader_script read 0 r w = Ok []"
| "reader_script read (Suc n) r w =
     (case read r w of
        (Ok b, r', w') \<Rightarrow>
          if buf_is_empty b then Ok []
          else and_then (reader_script read n r' w') (\<lambda>s. Ok (Inr b # s))
      | (Err e, r', w') \<Rightarrow> Ok [Inl e]
      | (Panic, r', w') \<Rightarrow> Panic)"

definition context_ops ::
  "nat \<Rightarrow> ('r, 'wr, 'l, 'd, 'w) access \<Rightarrow> string \<Rightarrow> op_read \<Rightarrow> 'w \<Rightarrow> unit read_ops" where
  "context_ops n ac path args w =
     \<lparr>ra_read = (\<lambda>rng u. (case ac_read ac path (ro_with_range rng args) w of
          (Ok r, w') \<Rightarrow> reader_script (ac_reader_read ac) n r w'
        | (Err e, w') \<Rightarrow> Err e
        | (Panic, w') \<Rightarrow> Panic, u)),
      ra_stat = (\<lambda>u. (case ac_stat ac path (case ro_version args of
          Some v \<Rightarrow> so_with_version v op_stat_default | None \<Rightarrow> op_stat_default) w of
        None \<Rightarrow> Panic
      | Some (r, w') \<Rightarrow> and_then r (\<lambda>md. Ok (content_length md)), u)),
      ra_delay = (\<lambda>u. (0, u))\<rparr>"

text \<open>One buffer, read through the error context and the completing layer.\<close>

lemma layered_script:
  assumes "ac_reader_read ac = buffer_read" "buf_wf b" "length (buf_bytes b) \<le> u64_max"
    and "\<forall>k. sz = Some k \<longrightarrow> unat k = length (buf_bytes b)"
  shows "reader_script (cpr_next (ec_reader_read blk ac)) 2 (cpr_new ((ecw_new scheme path b)\<lparr>ecw_range := rng\<rparr>) sz) w
    = Ok (if buf_bytes b = [] then [] else [Inr b])"
proof (cases "buf_bytes b = []")
  case True
  then have "buf_is_empty b" "buf_len b = 0" using assms(2) by (simp_all add: buf_is_empty_def)
  moreover have "sz = None \<or> sz = Some 0" using assms(4) True by (cases sz) (auto simp: word_unat_eq_iff)
  ultimately show ?thesis
    using True assms by (auto simp: numeral_2_eq_2 cpr_next_def ec_reader_read_def ec_counted_def buffer_read_def
        cpr_new_def ecw_new_def cpr_check_def Let_def)
next
  case False
  have len: "buf_len b = length (buf_bytes b)" "\<not> buf_is_empty b"
    using False assms(2) by (simp_all add: buf_is_empty_def)
  let ?n = "of_nat (length (buf_bytes b)) :: u64"
  let ?st = "cpr_new ((ecw_new scheme path b)\<lparr>ecw_range := rng\<rparr>) sz"
  let ?e1 = "(ecw_new scheme path b)\<lparr>ecw_range := rng, ecw_inner := buf_new, ecw_processed := ?n\<rparr>"
  have n: "unat ?n = length (buf_bytes b)" by (rule unat_of_nat_u64 [OF assms(3)])
  have e1: "ec_reader_read blk ac ((ecw_new scheme path b)\<lparr>ecw_range := rng\<rparr>) w = (Ok b, ?e1, w)"
    using assms(1,3) len n by (simp add: ec_reader_read_def ec_counted_def buffer_read_def ecw_new_def)
  have e2: "ec_reader_read blk ac ?e1 w = (Ok buf_new, ?e1, w)"
    using assms(1,3) n by (simp add: ec_reader_read_def ec_counted_def buffer_read_def ecw_new_def)
  have c1: "cpr_next (ec_reader_read blk ac) ?st w = (Ok b, ?st\<lparr>cpr_inner := ?e1, cpr_read := ?n\<rparr>, w)"
    using e1 len assms(3) n by (simp add: cpr_next_def cpr_new_def)
  have "cpr_check (?st\<lparr>cpr_inner := ?e1, cpr_read := ?n\<rparr>) = Ok ()"
    using assms(4) n by (auto simp: cpr_check_def cpr_new_def word_unat_eq_iff split: option.splits)
  then have c2: "cpr_next (ec_reader_read blk ac) (?st\<lparr>cpr_inner := ?e1, cpr_read := ?n\<rparr>) w
      = (Ok buf_new, ?st\<lparr>cpr_inner := ?e1, cpr_read := ?n\<rparr>, w)"
    using e2 by (simp add: cpr_next_def cpr_new_def Let_def buf_is_empty_def)
  moreover have "buf_is_empty buf_new" by (simp add: buf_is_empty_def)
  ultimately show ?thesis using c1 len False by (simp add: numeral_2_eq_2 del: fun_upd_apply)
qed

lemma default_read_default:
  "ac_read (default_layers blk ac) path (ro_with_range rng op_read_default) w =
    step (ec_read blk ac path (ro_with_range rng op_read_default) w) (\<lambda>r w. (Ok (cpr_new r (br_size rng)), w))"
  by (simp add: default_layers_def correctness_check_def cc_read_def checked_def cc_read_args_def complete_layer_def
      error_context_fields ro_with_range_def op_read_default_def)

lemma default_reader_read: "ac_reader_read (default_layers blk ac) = cpr_next (ec_reader_read blk ac)"
  by (simp add: default_layers_def correctness_check_def complete_layer_def error_context_fields)

lemma ro_range_with [simp]: "ro_range (ro_with_range rng args) = rng"
  by (simp add: ro_with_range_def)

lemma default_stat_file:
  assumes "\<not> ends_with path CHR ''/''"
  shows "ac_stat (default_layers blk ac) path op_stat_default w =
    map_option (\<lambda>x. ec_call (if blk then OpBlockingStat else OpStat)
       [(''service'', ai_scheme (ac_info ac)), (''path'', path)] x id) (ac_stat ac path op_stat_default w)"
proof -
  have "path \<noteq> slash" using assms by (auto simp: slash_def ends_with_def)
  moreover have "cc_stat_args cap blk op_stat_default = (False, ''version'') # (if blk then [] else
      [(False, ''if_match''), (False, ''if_none_match''), (False, ''if_modified_since''), (False, ''if_unmodified_since'')])" for cap
    by (simp add: cc_stat_args_def op_stat_default_def)
  ultimately show ?thesis
    using assms by (simp add: default_layers_def correctness_check_def cc_stat_def complete_layer_def
        complete_stat_def error_context_fields Let_def)
qed

text \<open>
  A value of a key-value service is served through the default layers as it is without them.
\<close>

lemma layered_accessor:
  assumes acc: "accessor (snapshot ac path op_read_default w) content False False"
    and rd: "ac_reader_read ac = buffer_read" and len: "length content \<le> u64_max" "\<not> ends_with path CHR ''/''"
    and exact: "\<And>rng b w'. ac_read ac path (ro_with_range rng op_read_default) w = (Ok b, w') \<Longrightarrow> br_inside rng content"
  shows "accessor (context_ops 2 (default_layers blk ac) path op_read_default w) content False False"
proof -
  let ?in = "snapshot ac path op_read_default w" and ?out = "context_ops 2 (default_layers blk ac) path op_read_default w"
  have err: "ac_read ac path (ro_with_range rng op_read_default) w \<noteq> (Err e, w')" for rng e w'
    using accessor.read_fails [OF acc, of rng "()" e "()"] by (auto simp: snapshot_def)
  have ok: "ra_read ?out rng u = (Ok (if buf_bytes b = [] then [] else [Inr b]), u)
      \<and> serves False False [Inr b] (br_select rng content)"
    if "ac_read ac path (ro_with_range rng op_read_default) w = (Ok b, w')" for rng u b w'
  proof -
    have s: "serves False False [Inr b] (br_select rng content)"
    proof (rule accessor.read_serves [OF acc])
      show "ra_read ?in rng () = (Ok [Inr b], ())" using that by (simp add: snapshot_def)
    qed
    then have b: "buf_wf b" "buf_bytes b = br_select rng content"
      by (auto simp: solid_def split: if_splits)
    have in': "br_inside rng content" by (rule exact [OF that])
    have "length (buf_bytes b) \<le> u64_max"
      using b(2) len(1) by (auto simp: br_select_def Let_def split: option.splits)
    moreover have "\<forall>k. br_size rng = Some k \<longrightarrow> unat k = length (buf_bytes b)"
      using b(2) in' by (auto simp: br_select_def br_inside_def Let_def)
    ultimately have "reader_script (cpr_next (ec_reader_read blk ac)) 2
        (cpr_new ((ecw_new (ai_scheme (ac_info ac)) path b)\<lparr>ecw_range := rng\<rparr>) (br_size rng)) w'
      = Ok (if buf_bytes b = [] then [] else [Inr b])"
      by (rule layered_script [OF rd b(1)])
    moreover have "ac_read (default_layers blk ac) path (ro_with_range rng op_read_default) w
      = (Ok (cpr_new ((ecw_new (ai_scheme (ac_info ac)) path b)\<lparr>ecw_range := rng\<rparr>) (br_size rng)), w')"
      using that by (simp add: default_read_default ec_read_def ro_range_with)
    ultimately have "ra_read ?out rng u = (Ok (if buf_bytes b = [] then [] else [Inr b]), u)"
      by (simp add: context_ops_def default_reader_read)
    with s show ?thesis by blast
  qed
  have panic: "ac_read ac path (ro_with_range rng op_read_default) w = (Panic, w') \<Longrightarrow> \<not> br_inside rng content" for rng w'
    using accessor.read_inside [OF acc, of rng "()"] by (auto simp: snapshot_def)
  have out_panic: "ra_read ?out rng u = (Panic, u)"
    if "ac_read ac path (ro_with_range rng op_read_default) w = (Panic, w')" for rng u w'
    using that by (simp add: context_ops_def default_read_default ec_read_def)
  have cases: "(\<exists>b w'. ac_read ac path (ro_with_range rng op_read_default) w = (Ok b, w'))
      \<or> (\<exists>w'. ac_read ac path (ro_with_range rng op_read_default) w = (Panic, w'))" for rng
    using err [of rng] by (cases "ac_read ac path (ro_with_range rng op_read_default) w";
      cases "fst (ac_read ac path (ro_with_range rng op_read_default) w)") auto
  have stat: "fst (ra_stat ?out u) = Ok n \<longleftrightarrow> fst (ra_stat ?in u) = Ok n"
    "fst (ra_stat ?out u) = Panic \<longleftrightarrow> fst (ra_stat ?in u) = Panic" for u n
    by (auto simp: context_ops_def snapshot_def op_read_default_def default_stat_file [OF len(2)] ec_call_def
        outcome_simps split: option.splits prod.splits outcome.splits)
  show ?thesis
  proof unfold_locales
    fix rng rd' and u u' :: unit
    assume r: "ra_read ?out rng u = (Ok rd', u')"
    from cases [of rng] show "serves False False rd' (br_select rng content)"
    proof (elim disjE exE)
      fix b w' assume "ac_read ac path (ro_with_range rng op_read_default) w = (Ok b, w')"
      from ok [OF this, of u] r show ?thesis by (auto split: if_splits)
    next
      fix w' assume "ac_read ac path (ro_with_range rng op_read_default) w = (Panic, w')"
      from out_panic [OF this, of u] r show ?thesis by simp
    qed
  next
    fix rng and u :: unit
    assume "br_inside rng content"
    with cases [of rng] panic obtain b w' where "ac_read ac path (ro_with_range rng op_read_default) w = (Ok b, w')" by blast
    from ok [OF this, of u] show "fst (ra_read ?out rng u) \<noteq> Panic" by simp
  next
    fix rng e and u u' :: unit
    assume "ra_read ?out rng u = (Err e, u')"
    with cases [of rng] ok [of rng _ _ u] out_panic [of rng _ u] show False by (auto split: if_splits)
  next
    fix e and u u' :: unit
    assume e: "ra_stat ?out u = (Err e, u')"
    have "fst (ra_stat ?in u) \<noteq> Err e'" for e'
      using accessor.stat_fails [OF acc, of u e' "snd (ra_stat ?in u)"] by (metis prod.collapse)
    with accessor.stat_returns [OF acc, of u] obtain n where "fst (ra_stat ?in u) = Ok n"
      by (cases "fst (ra_stat ?in u)") auto
    with stat(1) [of u n] e show False by simp
  next
    fix u :: unit
    show "fst (ra_stat ?out u) \<noteq> Panic" using stat(2) [of u] accessor.stat_returns [OF acc, of u] by simp
  next
    fix n and u u' :: unit
    assume "ra_stat ?out u = (Ok n, u')" "length content \<le> u64_max"
    with stat(1) [of u n] have "ra_stat ?in u = (Ok n, snd (ra_stat ?in u))" by (simp add: prod_eq_iff)
    from accessor.stat_length [OF acc this len(1)] show "unat n = length content" .
  qed
qed

subsection \<open>Properties\<close>

text \<open>
  C25. Short reads do not pass. A read of a range with a size, taken to its end through the
  completing layer, succeeds exactly when the service delivered as many bytes as the range
  asks for, and fails otherwise; a read without a size is left as it is.
\<close>

theorem complete_reader_exact:
  assumes "rd_all (ac_reader_read ac) n r w = Some (Ok bs, r', w')" "total_len bs \<le> u64_max"
  shows "case sz of
      None \<Rightarrow> \<exists>st'. rd_all (ac_reader_read (complete_layer blk ac)) n (cpr_new r sz) w = Some (Ok bs, st', w')
    | Some k \<Rightarrow>
        if total_len bs = unat k
        then \<exists>st'. rd_all (ac_reader_read (complete_layer blk ac)) n (cpr_new r sz) w = Some (Ok bs, st', w')
        else \<exists>e st'. rd_all (ac_reader_read (complete_layer blk ac)) n (cpr_new r sz) w = Some (Err e, st', w')
               \<and> err_kind e = Unexpected"
proof -
  have l: "ac_reader_read (complete_layer blk ac) = cpr_next (ac_reader_read ac)"
    by (simp add: complete_layer_def)
  have s: "cpr_inner (cpr_new r sz) = r" "cpr_size (cpr_new r sz) = sz" "unat (cpr_read (cpr_new r sz)) = 0"
    by (simp_all add: cpr_new_def)
  show ?thesis
    using rd_all_complete [of "ac_reader_read ac" n "cpr_new r sz" w bs r' w'] assms
    unfolding l s add_0 by (simp only: simp_thms)
qed

theorem complete_reader_exact_witness:
  "\<exists>e st'. rd_all (ac_reader_read (complete_layer False (memory_access ''0x0'' None))) 2
      (cpr_new (Contiguous [1, 2]) (Some 3)) [] = Some (Err e, st', []) \<and> err_kind e = Unexpected"
proof -
  have "rd_all (ac_reader_read (memory_access ''0x0'' None)) 2 (Contiguous [1, 2]) []
      = Some (Ok [Contiguous [1, 2]], buf_new, [])"
    by (simp add: numeral_2_eq_2 memory_access_def tk_access_def buffer_read_def buf_is_empty_def buf_new_def)
  from complete_reader_exact [OF this, where sz = "Some 3" and blk = False] show ?thesis
    by (simp add: total_len_def u64_max_def)
qed

text \<open>The arguments of a call that the capabilities cover.\<close>

definition read_covered :: "capability \<Rightarrow> op_read \<Rightarrow> bool" where
  "read_covered cap args =
     ((ro_version args \<noteq> None \<longrightarrow> cap_read_with_version cap)
      \<and> (ro_if_match args \<noteq> None \<longrightarrow> cap_read_with_if_match cap)
      \<and> (ro_if_none_match args \<noteq> None \<longrightarrow> cap_read_with_if_none_match cap)
      \<and> (ro_if_modified_since args \<noteq> None \<longrightarrow> cap_read_with_if_modified_since cap)
      \<and> (ro_if_unmodified_since args \<noteq> None \<longrightarrow> cap_read_with_if_unmodified_since cap))"

definition stat_covered :: "capability \<Rightarrow> op_stat \<Rightarrow> bool" where
  "stat_covered cap args =
     ((so_version args \<noteq> None \<longrightarrow> cap_stat_with_version cap)
      \<and> (so_if_match args \<noteq> None \<longrightarrow> cap_stat_with_if_match cap)
      \<and> (so_if_none_match args \<noteq> None \<longrightarrow> cap_stat_with_if_none_match cap)
      \<and> (so_if_modified_since args \<noteq> None \<longrightarrow> cap_stat_with_if_modified_since cap)
      \<and> (so_if_unmodified_since args \<noteq> None \<longrightarrow> cap_stat_with_if_unmodified_since cap))"

definition write_covered :: "capability \<Rightarrow> op_write \<Rightarrow> bool" where
  "write_covered cap args =
     ((wo_append args \<longrightarrow> cap_write_can_append cap)
      \<and> (wo_if_not_exists args \<longrightarrow> cap_write_with_if_not_exists cap)
      \<and> (wo_if_none_match args \<noteq> None \<longrightarrow> cap_write_with_if_none_match cap))"

definition refused :: "'a res \<times> 'w \<Rightarrow> 'w \<Rightarrow> bool" where
  "refused x w = (\<exists>e. x = (Err e, w) \<and> err_kind e = Unsupported)"

lemma unsupported_kind [simp]: "err_kind (new_unsupported_error info op name) = Unsupported"
  by (simp add: new_unsupported_error_def with_operation_def new_error_def Let_def)

lemma with_context_kind [simp]:
  "err_kind (with_context k v e) = err_kind e" "err_status (with_context k v e) = err_status e"
  by (simp_all add: with_context_def)

lemma with_operation_kind [simp]:
  "err_kind (with_operation op e) = err_kind e" "err_status (with_operation op e) = err_status e"
  by (simp_all add: with_operation_def Let_def)

text \<open>
  Unsupported arguments stop at the operator. For asynchronous reads, writes and \<open>stat\<close>, a call
  whose arguments the capabilities cover reaches the service unchanged; any other one is
  refused with \<open>Unsupported\<close> before the service sees it. The same holds for a versioned delete.
\<close>

theorem correctness_check_guards:
  "(if read_covered (ai_full_capability (ac_info ac)) ra
    then ac_read (correctness_check False ac) path ra w = ac_read ac path ra w
    else refused (ac_read (correctness_check False ac) path ra w) w)
   \<and> (if stat_covered (ai_full_capability (ac_info ac)) sa
      then ac_stat (correctness_check False ac) path sa w = ac_stat ac path sa w
      else \<exists>x. ac_stat (correctness_check False ac) path sa w = Some x \<and> refused x w)
   \<and> (if write_covered (ai_full_capability (ac_info ac)) wa
      then ac_write (correctness_check False ac) path wa w = ac_write ac path wa w
      else refused (ac_write (correctness_check False ac) path wa w) w)
   \<and> (if od_version da = None \<or> cap_delete_with_version (ai_full_capability (ac_info ac))
      then ac_deleter_delete (correctness_check False ac) path da d w = ac_deleter_delete ac path da d w
      else refused (ac_deleter_delete (correctness_check False ac) path da d w) (d, w))"
proof (intro conjI)
  show "if read_covered (ai_full_capability (ac_info ac)) ra
    then ac_read (correctness_check False ac) path ra w = ac_read ac path ra w
    else refused (ac_read (correctness_check False ac) path ra w) w"
    by (auto simp: correctness_check_def cc_read_def checked_def cc_read_args_def read_covered_def refused_def)
  show "if stat_covered (ai_full_capability (ac_info ac)) sa
      then ac_stat (correctness_check False ac) path sa w = ac_stat ac path sa w
      else \<exists>x. ac_stat (correctness_check False ac) path sa w = Some x \<and> refused x w"
    by (auto simp: correctness_check_def cc_stat_def cc_stat_args_def stat_covered_def refused_def)
  show "if write_covered (ai_full_capability (ac_info ac)) wa
      then ac_write (correctness_check False ac) path wa w = ac_write ac path wa w
      else refused (ac_write (correctness_check False ac) path wa w) w"
    by (auto simp: correctness_check_def cc_write_def write_covered_def refused_def Let_def split: option.splits)
  show "if od_version da = None \<or> cap_delete_with_version (ai_full_capability (ac_info ac))
      then ac_deleter_delete (correctness_check False ac) path da d w = ac_deleter_delete ac path da d w
      else refused (ac_deleter_delete (correctness_check False ac) path da d w) (d, w)"
    by (auto simp: correctness_check_def cc_delete_def refused_def)
qed

text \<open>
  The blocking half does not check conditions: a blocking read or \<open>stat\<close> with \<open>if_match\<close> (or
  another condition) and no version reaches a service that ignores the condition.
\<close>

theorem blocking_conditions_unchecked:
  "ro_version ra = None \<Longrightarrow> so_version sa = None \<Longrightarrow>
     ac_read (correctness_check True ac) path ra w = ac_read ac path ra w
     \<and> ac_stat (correctness_check True ac) path sa w = ac_stat ac path sa w"
  by (simp add: correctness_check_def cc_read_def cc_stat_def checked_def cc_read_args_def cc_stat_args_def)

theorem blocking_conditions_unchecked_witness:
  "\<not> read_covered (ai_full_capability (ac_info (memory_access ''0x0'' None))) (op_read_default\<lparr>ro_if_match := Some ''x''\<rparr>)
   \<and> ac_read (correctness_check True (memory_access ''0x0'' None)) ''f'' (op_read_default\<lparr>ro_if_match := Some ''x''\<rparr>) []
     = ac_read (memory_access ''0x0'' None) ''f'' (op_read_default\<lparr>ro_if_match := Some ''x''\<rparr>) []"
  using blocking_conditions_unchecked [of "op_read_default\<lparr>ro_if_match := Some ''x''\<rparr>" op_stat_default
      "memory_access ''0x0'' None" "''f''" "[]"]
  by (simp add: op_read_default_def op_stat_default_def read_covered_def memory_access_def tk_access_def
      kv_accessor_info_def set_native_capability_def tk_capability_def capability_default_def)

lemma memory_list_opens:
  assumes "normalized_root root" "normalized_path path"
  shows "ac_list (tk_access mem_adapter scheme name kc root) path args m
    = (Ok (mem_scan (kv_key root path) m, hierarchy_new path (lo_recursive args)), m)"
  using assms by (simp add: tk_access_def kv_list_def build_abs_path_key mem_adapter_def)

lemma memory_next_recursive:
  assumes "normalized_root root" "list_all (key_ok root) keys" "hl_recursive h"
  shows "ac_lister_next (tk_access mem_adapter scheme name kc root) (keys, h) m =
    Some (case keys of [] \<Rightarrow> (Ok None, ([], h), m) | v # vs \<Rightarrow> (Ok (Some (index_entry (rel_of root v))), (vs, h), m))"
  using assms by (cases keys) (simp_all add: tk_access_def hierarchy_next.simps kl_next_def kv_entry_Ok)

lemma memory_keys_ok:
  assumes "keys_ok root m"
  shows "list_all (key_ok root) (mem_scan (kv_key root path) m)"
proof -
  have ok: "bt_ok m" using assms by (simp add: keys_ok_def)
  have "starts_with k (drop 1 root)" if "starts_with k (kv_key root path)" for k
    using that by (auto simp: kv_key_def starts_with_iff)
  then show ?thesis using assms unfolding mem_scan_filter [OF ok] by (auto simp: keys_ok_def list_all_iff)
qed

text \<open>
  Directories of the memory service. It stores no directories of its own, yet through the
  completing layer \<open>stat\<close> finds a directory exactly when some stored path lies below it, and the
  root always.
\<close>

theorem memory_stat_dir:
  assumes "keys_ok root m" "normalized_root root" "normalized_path path" "ends_with path CHR ''/''"
  shows "\<exists>r. complete_stat blk (tk_access mem_adapter scheme name mem_capability root) path args m = Some (r, m)
    \<and> (if path = slash \<or> (\<exists>q \<in> set (stored_paths root m). starts_with q path)
       then r = Ok (metadata_new DIR) else \<exists>e. r = Err e \<and> err_kind e = NotFound)"
proof (cases "path = slash")
  case True
  then show ?thesis by (simp add: complete_stat_def)
next
  case False
  let ?ac = "tk_access mem_adapter scheme name mem_capability root"
  let ?la = "lo_with_limit 1 (lo_with_recursive True op_list_default)"
  let ?ks = "mem_scan (kv_key root path) m"
  have cap: "\<not> cap_create_dir (ai_full_capability (ac_info ?ac))" "cap_list_with_recursive (ai_full_capability (ac_info ?ac))"
    by (simp_all add: tk_access_def kv_accessor_info_def set_native_capability_def tk_capability_def
        mem_capability_def capability_default_def)
  have h: "hl_recursive (hierarchy_new path (lo_recursive ?la))"
    by (simp add: hierarchy_new_def lo_with_limit_def lo_with_recursive_def)
  note nx = memory_next_recursive [OF assms(2) memory_keys_ok [OF assms(1), of path] h]
  have "(\<exists>q \<in> set (stored_paths root m). starts_with q path) \<longleftrightarrow> ?ks \<noteq> []"
  proof -
    have "map (rel_of root) ?ks = filter (\<lambda>q. starts_with q path) (stored_paths root m)"
      using mem_scan_paths [OF _ assms(2,3), of m] assms(1) False by (simp add: keys_ok_def list_prefix_def)
    then have "?ks = [] \<longleftrightarrow> filter (\<lambda>q. starts_with q path) (stored_paths root m) = []"
      by (metis map_is_Nil_conv)
    then show ?thesis by (auto simp: filter_empty_conv)
  qed
  then show ?thesis
    using False assms(4) cap nx [where scheme = scheme and name = name and kc = mem_capability and m = m,
        unfolded One_nat_def]
      memory_list_opens [OF assms(2,3), of scheme name mem_capability ?la m, unfolded One_nat_def]
    by (cases ?ks) (simp_all add: complete_stat_def new_error_def)
qed

theorem memory_stat_dir_witness:
  "\<exists>r. complete_stat False (tk_access mem_adapter ''memory'' [] mem_capability slash) ''a/'' op_stat_default
      [(''a/b'', \<lparr>kv_metadata = metadata_new FILE, kv_content = buf_new\<rparr>)]
    = Some (r, [(''a/b'', \<lparr>kv_metadata = metadata_new FILE, kv_content = buf_new\<rparr>)]) \<and> r = Ok (metadata_new DIR)"
proof -
  let ?m = "[(''a/b'', \<lparr>kv_metadata = metadata_new FILE, kv_content = buf_new\<rparr>)]"
  have k: "keys_ok slash ?m" by (simp add: keys_ok_def key_ok_def starts_char_def slash_def starts_with_def)
  have n: "normalized_root slash" "normalized_path ''a/''"
    using normalized_root_normalize [of "[]"] normalized_path_path_of [of "[''a'']" True]
    by (simp_all add: normalize_root_slash slash_def)
  have e: "ends_with ''a/'' CHR ''/''" by (simp add: ends_with_def)
  have s: "stored_paths slash ?m = [''a/b'']" by (simp add: stored_paths_def rel_of_def starts_with_def slash_def)
  from memory_stat_dir [OF k n e, of False "''memory''" "[]" op_stat_default] show ?thesis
    unfolding s by (auto simp: starts_with_def)
qed

text \<open>
  Creating the root directory breaks the memory service. Without a root of its own,
  \<open>create_dir("/")\<close> stores an empty value under the empty key; a listing of the root
  then meets that key first, takes it for a file called \<open>/\<close>, and panics in the debug assertion of
  the entry (a release build returns a file entry \<open>/\<close>).
\<close>

theorem memory_root_dir_breaks_list:
  "\<exists>m' l l'. complete_create_dir blk (memory_access name None) slash m = (Ok (), m')
    \<and> ac_list (memory_access name None) slash op_list_default m' = (Ok l, m')
    \<and> ac_lister_next (memory_access name None) l m' = Some (Panic, l', m')"
proof -
  let ?ac = "memory_access name None"
  have root: "normalized_root slash" "normalized_path slash" "kv_key slash slash = []"
    using normalized_root_normalize [of "[]"]
    by (simp_all add: normalize_root_slash normalized_path_def kv_key_def slash_def)
  have ac: "?ac = tk_access mem_adapter ''memory'' name mem_capability slash"
    by (simp add: memory_access_def normalize_root_slash)
  have cap: "\<not> cap_create_dir (ai_full_capability (ac_info ?ac))" "cap_write_can_empty (ai_full_capability (ac_info ?ac))"
    "cap_list (ai_full_capability (ac_info ?ac))" "cap_blocking (ai_full_capability (ac_info ?ac))"
    by (simp_all add: ac tk_access_def kv_accessor_info_def set_native_capability_def tk_capability_def
        mem_capability_def capability_default_def)
  define v where "v = \<lparr>kv_metadata = tw_metadata op_write_default buf_new, kv_content = buf_new\<rparr>"
  obtain rest where m': "bt_insert [] v m = ([], v) # rest"
    by (cases m; cases "fst (hd m)") auto
  have create: "complete_create_dir blk ?ac slash m = (Ok (), bt_insert [] v m)"
    using cap root build_abs_path_key [OF root(1,2)]
    by (simp add: complete_create_dir_def ac tk_access_def tk_write_def tw_new_def tw_close_def tw_build_def
        mem_adapter_def mem_set_def v_def Let_def)
  have list: "ac_list ?ac slash op_list_default (bt_insert [] v m)
      = (Ok ([] # map fst rest, hierarchy_new slash False), bt_insert [] v m)"
    unfolding ac memory_list_opens [OF root(1,2)] root(3)
    by (simp add: mem_scan_def m' op_list_default_def)
  have "kv_entry slash [] = Panic"
    by (simp add: kv_entry_def build_rel_path_def slash_def starts_char_def starts_with_def entry_with_def
        ends_with_def metadata_new_def mode_is_dir_def)
  then have "ac_lister_next ?ac ([] # map fst rest, hierarchy_new slash False) (bt_insert [] v m)
      = Some (Panic, (map fst rest, hierarchy_new slash False), bt_insert [] v m)"
    by (simp add: ac tk_access_def hierarchy_next.simps kl_next_def)
  with create list show ?thesis by blast
qed

paragraph \<open>Listing a service that lists one directory at a time\<close>

definition complete_next :: "('r, 'wr, 'l, 'd, 'w) access \<Rightarrow> ('l complete_lister \<times> 'w) lister" where
  "complete_next ac = ac_next (complete_layer False ac)"

lemma complete_next_eq: "complete_next ac (cl, w) = cpl_next ac cl w"
  by (simp add: complete_next_def ac_next_def complete_layer_def)

lemma collect_complete_next:
  assumes "\<And>l w. cpl_next ac (K l) w = map_option (\<lambda>(r, l', w'). (r, K l', w')) (nx (l, w))"
  shows "collect_entries (complete_next ac) n (K l, w) = collect_entries nx n (l, w)"
proof (induction n arbitrary: l w)
  case (Suc n)
  show ?case
  proof (cases "nx (l, w)")
    case (Some x)
    obtain r l' w' where "x = (r, l', w')" by (metis prod_cases3)
    with Some Suc show ?thesis
      by (auto simp: complete_next_eq assms split: outcome.splits option.splits)
  qed (simp add: complete_next_eq assms)
qed simp


text \<open>A service that lists one directory of an index at a time.\<close>

definition index_service :: "string list \<Rightarrow> (unit, unit, string list, unit, unit) access" where
  "index_service vec =
     (let dummy = dummy_access :: (unit, unit, unit, unit, unit) access
      in (immutable_index_layer sorted_list_of_set vec dummy)\<lparr>ac_info := ac_info dummy\<rparr>)"


paragraph \<open>Error context\<close>

definition same_error :: "error \<Rightarrow> error \<Rightarrow> bool" where
  "same_error e e' = (err_kind e' = err_kind e \<and> err_status e' = err_status e
     \<and> err_message e' = err_message e \<and> err_source e' = err_source e)"

text \<open>The outer result is the inner one, but for the operation and the context of an error.\<close>

fun same_result :: "('a \<Rightarrow> 'b \<Rightarrow> bool) \<Rightarrow> 'a res \<Rightarrow> 'b res \<Rightarrow> bool" where
  "same_result R (Ok a) (Ok b) = R a b"
| "same_result R (Err e) (Err e') = same_error e e'"
| "same_result R Panic Panic = True"
| "same_result R _ _ = False"

definition mirrors :: "'a res \<times> 't \<times> 'w \<Rightarrow> 'a res \<times> 't ec_wrapper \<times> 'w \<Rightarrow> bool" where
  "mirrors x y = (case x of (r, t, w) \<Rightarrow> case y of (r', st, w') \<Rightarrow>
     same_result (=) r r' \<and> ecw_inner st = t \<and> w' = w)"

definition opens :: "('a \<Rightarrow> 'b \<Rightarrow> bool) \<Rightarrow> 'a res \<times> 'w \<Rightarrow> 'b res \<times> 'w \<Rightarrow> bool" where
  "opens R x y = (same_result R (fst x) (fst y) \<and> snd y = snd x)"

lemma same_error_refl [simp]: "same_error e e"
  by (simp add: same_error_def)

lemma ec_error_same [simp]: "same_error e (ec_error op cs e)"
proof -
  have ctx: "same_error e (with_context k v e')" if "same_error e e'" for k v e'
    using that by (simp add: same_error_def with_context_def)
  have "same_error e (fold (\<lambda>(k, v). with_context k v) cs e')" if "same_error e e'" for e'
    using that
  proof (induction cs arbitrary: e')
    case (Cons c cs)
    then show ?case by (cases c) (simp add: ctx)
  qed simp
  moreover have "same_error e (with_operation (op_into_static op) e)"
    by (simp add: same_error_def with_operation_def Let_def)
  ultimately show ?thesis unfolding ec_error_def by blast
qed

lemma ec_call_opens: "(\<And>a. R a (wrap a)) \<Longrightarrow> opens R x (ec_call op cs x wrap)"
  by (cases x; cases "fst x") (auto simp: opens_def ec_call_def)

lemma ec_counted_mirrors:
  assumes "\<And>a. fst x = Ok a \<Longrightarrow> unat (ecw_processed st) + unat (amount a) \<le> u64_max"
    and "\<And>e. \<exists>e'. on_error e = Ok e' \<and> same_error e e'"
  shows "mirrors x (ec_counted st amount on_error x)"
proof -
  obtain r t w where x: "x = (r, t, w)" by (metis prod_cases3)
  show ?thesis
  proof (cases r)
    case (Ok a)
    with x assms(1) [of a] show ?thesis by (simp add: mirrors_def ec_counted_def)
  next
    case (Err e)
    with x assms(2) [of e] show ?thesis by (auto simp: mirrors_def ec_counted_def)
  next
    case Panic
    with x show ?thesis by (simp add: mirrors_def ec_counted_def)
  qed
qed

text \<open>
  Adding context changes nothing else. Every operation of the error-context layer has the
  outcome of the inner one: success with the same value, the same panic, or an error of the same
  kind, status, message and source; the wrapped state and the service are left as the
  inner call leaves them. (A counter must not overflow, and the range of a failed read
  must have a printable form; see \<open>empty_range_error_panics\<close>.)
\<close>

theorem error_context_transparent:
  assumes "unat (ecw_processed wst) + buf_len bs \<le> u64_max" "unat (ecw_processed lst) < u64_max"
    and "br_display (ro_range ra) \<noteq> Panic"
  shows "opens (\<lambda>r st. ecw_inner st = r) (ac_read ac path ra w) (ac_read (error_context_layer blk ac) path ra w)
    \<and> opens (\<lambda>r st. ecw_inner st = r) (ac_write ac path wa w) (ac_write (error_context_layer blk ac) path wa w)
    \<and> opens (\<lambda>r st. ecw_inner st = r) (ac_list ac path la w) (ac_list (error_context_layer blk ac) path la w)
    \<and> rel_option (opens (=)) (ac_stat ac path sa w) (ac_stat (error_context_layer blk ac) path sa w)
    \<and> mirrors (ac_writer_write ac bs (ecw_inner wst) w) (ac_writer_write (error_context_layer blk ac) bs wst w)
    \<and> mirrors (ac_writer_close ac (ecw_inner wst) w) (ac_writer_close (error_context_layer blk ac) wst w)
    \<and> rel_option mirrors (ac_lister_next ac (ecw_inner lst) w) (ac_lister_next (error_context_layer blk ac) lst w)
    \<and> mirrors (ac_deleter_delete ac path da (ecw_inner dst) w) (ac_deleter_delete (error_context_layer blk ac) path da dst w)"
  unfolding error_context_fields
proof (intro conjI)
  have no_err: "br_display rng \<noteq> Err e" for rng e
    by (auto simp: br_display_def outcome_simps u64_add_def u64_sub_def guard_def split: option.splits if_splits)
  obtain t where t: "br_display (ro_range ra) = Ok t"
    using assms(3) no_err [of "ro_range ra"] by (cases "br_display (ro_range ra)") auto
  show "opens (\<lambda>r st. ecw_inner st = r) (ac_read ac path ra w) (ec_read blk ac path ra w)"
    by (cases "ac_read ac path ra w"; cases "fst (ac_read ac path ra w)")
      (auto simp: opens_def ec_read_def t ecw_new_def)
  show "rel_option (opens (=)) (ac_stat ac path sa w) (map_option (\<lambda>x. ec_call (if blk then OpBlockingStat else OpStat)
       [(''service'', ai_scheme (ac_info ac)), (''path'', path)] x id) (ac_stat ac path sa w))"
    by (cases "ac_stat ac path sa w") (simp_all add: ec_call_opens)
  show "mirrors (ac_writer_write ac bs (ecw_inner wst) w) (ec_writer_write blk ac bs wst w)"
    unfolding ec_writer_write_def
    by (rule ec_counted_mirrors) (use assms(1) unat_of_nat_u64 [of "buf_len bs"] in auto)
  show "mirrors (ac_writer_close ac (ecw_inner wst) w) (ec_writer_close blk ac wst w)"
    unfolding ec_writer_close_def by (rule ec_counted_mirrors) (use assms(1) in auto)
  show "rel_option mirrors (ac_lister_next ac (ecw_inner lst) w) (ec_lister_next blk ac lst w)"
    unfolding ec_lister_next_def
    by (cases "ac_lister_next ac (ecw_inner lst) w") (use assms(2) in \<open>auto intro!: ec_counted_mirrors\<close>)
  show "mirrors (ac_deleter_delete ac path da (ecw_inner dst) w) (ec_deleter_delete ac path da dst w)"
    unfolding ec_deleter_delete_def
    by (rule ec_counted_mirrors) (use unat_u64_le [of "ecw_processed dst"] in auto)
qed (rule ec_call_opens, simp add: ecw_new_def)+

theorem error_context_transparent_witness:
  "opens (\<lambda>r st. ecw_inner st = r) (ac_read (memory_access ''0x0'' None) ''f'' op_read_default [])
      (ac_read (error_context_layer False (memory_access ''0x0'' None)) ''f'' op_read_default [])
   \<and> mirrors (ac_writer_write (memory_access ''0x0'' None) (Contiguous [1]) (tw_new ''f'' op_write_default) [])
      (ac_writer_write (error_context_layer False (memory_access ''0x0'' None)) (Contiguous [1])
        (ecw_new ''memory'' ''f'' (tw_new ''f'' op_write_default)) [])"
proof -
  let ?wst = "ecw_new ''memory'' ''f'' (tw_new ''f'' op_write_default)"
  have h: "unat (ecw_processed ?wst) + buf_len (Contiguous [1]) \<le> u64_max"
    "unat (ecw_processed (ecw_new [] [] ([], hierarchy_new [] False) :: (string list \<times> hierarchy) ec_wrapper)) < u64_max"
    "br_display (ro_range op_read_default) \<noteq> Panic"
    by (simp_all add: ecw_new_def u64_max_def op_read_default_def br_display_def)
  note t = error_context_transparent [OF h, where ac = "memory_access ''0x0'' None" and path = "''f''" and w = "[]" and blk = False]
  show ?thesis using t by (simp add: ecw_new_def)
qed

text \<open>
  A failed read of no bytes at the start makes the error-context layer panic instead of
  returning the error: the text of the range 0 to 0 subtracts one from zero.
\<close>

lemma empty_range_error_panics:
  assumes "ac_read ac path ra w = (Err e, w')" "ro_range ra = BytesRange 0 (Some 0)"
  shows "ac_read (error_context_layer blk ac) path ra w = (Panic, w')"
  using assms by (simp add: error_context_fields ec_read_def br_display_def u64_sub_def)

text \<open>
  The blocking half of the completing layer forgets the metadata of a directory that the
  asynchronous half returns.
\<close>

lemma blocking_stat_forgets_metadata:
  assumes "ends_with path CHR ''/''" "path \<noteq> slash" "cap_create_dir (ai_full_capability (ac_info ac))"
    and "ac_stat ac path args w = Some (Ok md, w')" "\<not> mode_is_file (md_mode md)"
  shows "complete_stat False ac path args w = Some (Ok md, w')
    \<and> complete_stat True ac path args w = Some (Ok (metadata_new DIR), w')"
  using assms by (simp add: complete_stat_def)

end
