(* ===== verification/Retry.thy ===== *)
theory Retry
  imports Layers WriteGen
begin

text \<open>
  The retry layer (\<^verbatim>\<open>core/src/layers/retry.rs\<close>). The loop that calls an operation again is
  the \<^verbatim>\<open>backon\<close> crate's: it is a parameter of every definition here, a \<open>retrier\<close> that gets the
  condition of \<open>when\<close> and the operation. The predicate \<open>retries\<close> states what the crate documents: the
  operation is called until it succeeds, fails with an error outside the condition, or the
  \<open>max_times\<close> delays of the backoff are used up, and the last result is returned. A retrier is used at
  several types, so a layer takes a record \<open>backon\<close> of its instances. The delays, the jitter and the
  interceptor that is notified before a delay have no influence on results and are left out.

  The theorems: a reader that fails in the middle is opened again where it stopped, so a
  client sees exactly the bytes of its range; the writer and lister interfaces survive the
  layer; a second retry layer adds nothing.
\<close>

subsection \<open>The retry loop\<close>

type_synonym ('s, 'a) retrier = "(error \<Rightarrow> bool) \<Rightarrow> ('s \<Rightarrow> 'a res \<times> 's) \<Rightarrow> 's \<Rightarrow> 'a res \<times> 's"
type_synonym ('s, 'a) retrier_opt =
  "(error \<Rightarrow> bool) \<Rightarrow> ('s \<Rightarrow> ('a res \<times> 's) option) \<Rightarrow> 's \<Rightarrow> ('a res \<times> 's) option"

text \<open>\<open>x\<close> is the result of the last of \<open>k + 1\<close> calls; those before it failed under the condition.\<close>

fun attempts :: "(error \<Rightarrow> bool) \<Rightarrow> ('s \<Rightarrow> ('a res \<times> 's) option) \<Rightarrow> nat \<Rightarrow> 's \<Rightarrow> ('a res \<times> 's) option \<Rightarrow> bool" where
  "attempts cond call 0 s x = (call s = x)"
| "attempts cond call (Suc k) s x = (\<exists>e s'. call s = Some (Err e, s') \<and> cond e \<and> attempts cond call k s' x)"

definition retries_opt :: "nat \<Rightarrow> ('s, 'a) retrier_opt \<Rightarrow> bool" where
  "retries_opt max_times retry =
     (\<forall>cond call s. \<exists>k \<le> max_times. attempts cond call k s (retry cond call s)
        \<and> (\<forall>e s'. retry cond call s = Some (Err e, s') \<longrightarrow> cond e \<longrightarrow> k = max_times))"

definition retries :: "nat \<Rightarrow> ('s, 'a) retrier \<Rightarrow> bool" where
  "retries max_times retry =
     (\<forall>cond call s. \<exists>k \<le> max_times. attempts cond (\<lambda>s. Some (call s)) k s (Some (retry cond call s))
        \<and> (\<forall>e s'. retry cond call s = (Err e, s') \<longrightarrow> cond e \<longrightarrow> k = max_times))"

text \<open>\<open>map_err(|e| e.set_persistent())\<close>\<close>

fun persist :: "'a res \<Rightarrow> 'a res" where
  "persist (Ok a) = Ok a"
| "persist (Err e) = Err (set_persistent e)"
| "persist Panic = Panic"

subsection \<open>Readers that open again\<close>

record 'r retry_reader =
  rr_reader :: "'r option"
  rr_path :: string
  rr_args :: op_read

definition rr_new :: "string \<Rightarrow> op_read \<Rightarrow> 'r \<Rightarrow> 'r retry_reader" where
  "rr_new path args r = \<lparr>rr_reader = Some r, rr_path = path, rr_args = args\<rparr>"

text \<open>The reader is taken out for the call: a failed one is dropped. What was read moves the range on.\<close>

definition rr_take ::
  "('r, 'wr, 'l, 'd, 'w) access \<Rightarrow> 'r \<Rightarrow> 'r retry_reader \<Rightarrow> 'w \<Rightarrow> buffer res \<times> 'r retry_reader \<times> 'w" where
  "rr_take ac reader st w =
     (case ac_reader_read ac reader w of
        (Ok buf, reader', w') \<Rightarrow>
          (let st' = st\<lparr>rr_reader := Some reader'\<rparr> in
           case br_advance (of_nat (buf_len buf)) (ro_range (rr_args st)) of
             Ok rng \<Rightarrow> (Ok buf, st'\<lparr>rr_args := ro_with_range rng (rr_args st)\<rparr>, w')
           | Err e \<Rightarrow> (Err e, st', w')
           | Panic \<Rightarrow> (Panic, st', w'))
      | (Err e, reader', w') \<Rightarrow> (Err e, st\<lparr>rr_reader := None\<rparr>, w')
      | (Panic, reader', w') \<Rightarrow> (Panic, st\<lparr>rr_reader := None\<rparr>, w'))"

definition rr_read ::
  "('r, 'wr, 'l, 'd, 'w) access \<Rightarrow> 'r retry_reader \<Rightarrow> 'w \<Rightarrow> buffer res \<times> 'r retry_reader \<times> 'w" where
  "rr_read ac st w =
     (case rr_reader st of
        None \<Rightarrow>
          (case ac_read ac (rr_path st) (rr_args st) w of
             (Ok r, w') \<Rightarrow> rr_take ac r st w'
           | (Err e, w') \<Rightarrow> (Err e, st, w')
           | (Panic, w') \<Rightarrow> (Panic, st, w'))
      | Some reader \<Rightarrow> rr_take ac reader st w)"

subsection \<open>The wrapper\<close>

text \<open>The wrapper is empty only while a call is under way, and stays so when its future is dropped.\<close>

record 't retry_wrapper =
  rw_inner :: "'t option"

definition rw_new :: "'t \<Rightarrow> 't retry_wrapper" where
  "rw_new inner = \<lparr>rw_inner = Some inner\<rparr>"

definition rw_bad_state :: error where
  "rw_bad_state =
     new_error Unexpected ''retry layer is in bad state, please make sure future not dropped before ready''"

definition rw_take_inner :: "'t retry_wrapper \<Rightarrow> 't res \<times> 't retry_wrapper" where
  "rw_take_inner st =
     (case rw_inner st of
        Some inner \<Rightarrow> (Ok inner, st\<lparr>rw_inner := None\<rparr>)
      | None \<Rightarrow> (Err rw_bad_state, st\<lparr>rw_inner := None\<rparr>))"

definition rw_call ::
  "('t \<times> 'w, 'a) retrier \<Rightarrow> ('t \<Rightarrow> 'w \<Rightarrow> 'a res \<times> 't \<times> 'w) \<Rightarrow> 't retry_wrapper \<Rightarrow> 'w
     \<Rightarrow> 'a res \<times> 't retry_wrapper \<times> 'w" where
  "rw_call retry call st w =
     (case rw_take_inner st of
        (Ok inner, st') \<Rightarrow>
          (let (res, inner', w') = retry is_temporary (\<lambda>(r, w). call r w) (inner, w)
           in (persist res, st'\<lparr>rw_inner := Some inner'\<rparr>, w'))
      | (Err e, st') \<Rightarrow> (Err e, st', w)
      | (Panic, st') \<Rightarrow> (Panic, st', w))"

text \<open>The synchronous calls borrow the inner value and unwrap it.\<close>

definition rw_call_mut ::
  "('t \<times> 'w, 'a) retrier \<Rightarrow> ('t \<Rightarrow> 'w \<Rightarrow> 'a res \<times> 't \<times> 'w) \<Rightarrow> 't retry_wrapper \<Rightarrow> 'w
     \<Rightarrow> 'a res \<times> 't retry_wrapper \<times> 'w" where
  "rw_call_mut retry call st w =
     (case rw_inner st of
        None \<Rightarrow> (Panic, st, w)
      | Some inner \<Rightarrow>
          (let (res, inner', w') = retry is_temporary (\<lambda>(r, w). call r w) (inner, w)
           in (persist res, st\<lparr>rw_inner := Some inner'\<rparr>, w')))"

definition rw_next ::
  "bool \<Rightarrow> ('t \<times> 'w, 'a) retrier_opt \<Rightarrow> ('t \<Rightarrow> 'w \<Rightarrow> ('a res \<times> 't \<times> 'w) option) \<Rightarrow> 't retry_wrapper \<Rightarrow> 'w
     \<Rightarrow> ('a res \<times> 't retry_wrapper \<times> 'w) option" where
  "rw_next blk retry call st w =
     (case rw_inner st of
        None \<Rightarrow> Some (if blk then Panic else Err rw_bad_state, st, w)
      | Some inner \<Rightarrow>
          map_option (\<lambda>(res, inner', w'). (persist res, st\<lparr>rw_inner := Some inner'\<rparr>, w'))
            (retry is_temporary (\<lambda>(r, w). call r w) (inner, w)))"

subsection \<open>The accessor\<close>

record ('r, 'wr, 'l, 'd, 'w) backon =
  bk_unit :: "('w, unit) retrier"
  bk_stat :: "('w, metadata) retrier_opt"
  bk_read :: "('w, 'r) retrier"
  bk_write :: "('w, 'wr) retrier"
  bk_list :: "('w, 'l) retrier"
  bk_delete :: "('w, 'd) retrier"
  bk_reader_read :: "('r retry_reader \<times> 'w, buffer) retrier"
  bk_writer :: "('wr \<times> 'w, unit) retrier"
  bk_lister :: "('l \<times> 'w, oio_entry option) retrier_opt"
  bk_deleter_delete :: "('d \<times> 'w, unit) retrier"
  bk_deleter_flush :: "('d \<times> 'w, nat) retrier"

definition retry_open :: "('w, 'a) retrier \<Rightarrow> ('w \<Rightarrow> 'a res \<times> 'w) \<Rightarrow> ('a \<Rightarrow> 'b) \<Rightarrow> 'w \<Rightarrow> 'b res \<times> 'w" where
  "retry_open retry call wrap w =
     (let (res, w') = retry is_temporary call w in step (persist res, w') (\<lambda>a w. (Ok (wrap a), w)))"

definition retry_read ::
  "('w, 'r) retrier \<Rightarrow> ('r, 'wr, 'l, 'd, 'w) access \<Rightarrow> string \<Rightarrow> op_read \<Rightarrow> 'w \<Rightarrow> 'r retry_reader retry_wrapper res \<times> 'w" where
  "retry_read retry ac path args = retry_open retry (ac_read ac path args) (\<lambda>r. rw_new (rr_new path args r))"

definition retry_layer ::
  "bool \<Rightarrow> ('r, 'wr, 'l, 'd, 'w) backon \<Rightarrow> ('r, 'wr, 'l, 'd, 'w) access
     \<Rightarrow> ('r retry_reader retry_wrapper, 'wr retry_wrapper, 'l retry_wrapper, 'd retry_wrapper, 'w) access" where
  "retry_layer blk bk ac =
     \<lparr>ac_info = ac_info ac,
      ac_create_dir = (\<lambda>path. retry_open (bk_unit bk) (ac_create_dir ac path) id),
      ac_stat = (\<lambda>path args w. map_option (\<lambda>(res, w'). (persist res, w'))
         (bk_stat bk is_temporary (ac_stat ac path args) w)),
      ac_read = retry_read (bk_read bk) ac,
      ac_write = (\<lambda>path args. retry_open (bk_write bk) (ac_write ac path args) rw_new),
      ac_delete = retry_open (bk_delete bk) (ac_delete ac) rw_new,
      ac_list = (\<lambda>path args. retry_open (bk_list bk) (ac_list ac path args) rw_new),
      ac_copy = (\<lambda>from to. retry_open (bk_unit bk) (ac_copy ac from to) id),
      ac_rename = (\<lambda>from to. retry_open (bk_unit bk) (ac_rename ac from to) id),
      ac_reader_read = rw_call (bk_reader_read bk) (rr_read ac),
      ac_writer_write = (\<lambda>bs. (if blk then rw_call_mut else rw_call) (bk_writer bk) (ac_writer_write ac bs)),
      ac_writer_close = (if blk then rw_call_mut else rw_call) (bk_writer bk) (ac_writer_close ac),
      ac_writer_abort = rw_call (bk_writer bk) (ac_writer_abort ac),
      ac_lister_next = rw_next blk (bk_lister bk) (ac_lister_next ac),
      ac_deleter_delete = (\<lambda>path args. rw_call_mut (bk_deleter_delete bk) (ac_deleter_delete ac path args)),
      ac_deleter_flush = (if blk then rw_call_mut else rw_call) (bk_deleter_flush bk) (ac_deleter_flush ac)\<rparr>"

subsection \<open>What the loop guarantees\<close>

lemma attempts_last:
  assumes "attempts cond call k s x" "P s"
    and "\<And>s e s'. P s \<Longrightarrow> call s = Some (Err e, s') \<Longrightarrow> cond e \<Longrightarrow> P s'"
  shows "\<exists>s0. P s0 \<and> call s0 = x"
  using assms by (induction k arbitrary: s) auto

text \<open>What failed calls keep holds before the last one.\<close>

lemma retries_last:
  assumes "retries n retry" "retry cond call s = (r, s')" "P s"
    and "\<And>s e s'. P s \<Longrightarrow> call s = (Err e, s') \<Longrightarrow> cond e \<Longrightarrow> P s'"
  shows "\<exists>s0. P s0 \<and> call s0 = (r, s')"
proof -
  obtain k where "attempts cond (\<lambda>s. Some (call s)) k s (Some (retry cond call s))"
    using assms(1) unfolding retries_def by blast
  then have "attempts cond (\<lambda>s. Some (call s)) k s (Some (r, s'))" using assms(2) by simp
  from attempts_last [where P = P, OF this assms(3)] assms(4) show ?thesis by auto
qed

lemma retries_opt_last:
  assumes "retries_opt n retry" "P s"
    and "\<And>s e s'. P s \<Longrightarrow> call s = Some (Err e, s') \<Longrightarrow> cond e \<Longrightarrow> P s'"
  shows "\<exists>s0. P s0 \<and> call s0 = retry cond call s"
proof -
  obtain k where "attempts cond call k s (retry cond call s)"
    using assms(1) unfolding retries_opt_def by blast
  from attempts_last [where P = P, OF this assms(2)] assms(3) show ?thesis by auto
qed

text \<open>A call that needs no retry is made once.\<close>

lemma retries_once:
  assumes "retries n retry" "\<And>e s'. call s = (Err e, s') \<Longrightarrow> \<not> cond e"
  shows "retry cond call s = call s"
proof -
  obtain k where "attempts cond (\<lambda>s. Some (call s)) k s (Some (retry cond call s))"
    using assms(1) unfolding retries_def by blast
  then show ?thesis using assms(2) by (cases k) auto
qed

lemma retries_opt_once:
  assumes "retries_opt n retry" "\<And>e s'. call s = Some (Err e, s') \<Longrightarrow> \<not> cond e"
  shows "retry cond call s = call s"
proof -
  obtain k where "attempts cond call k s (retry cond call s)"
    using assms(1) unfolding retries_opt_def by blast
  then show ?thesis using assms(2) by (cases k) auto
qed

text \<open>Results on which a further retry layer has no effect.\<close>

fun settled :: "'a res \<Rightarrow> bool" where
  "settled (Err e) = (err_status e = Persistent)"
| "settled r = True"

lemma settled_persist [simp]: "settled (persist r)" "settled r \<Longrightarrow> persist r = r"
  by (cases r; simp add: set_persistent_def)+

lemma settled_not_temporary: "settled (Err e) \<Longrightarrow> \<not> is_temporary e"
  by (simp add: is_temporary_def)

lemma retry_settled:
  "retries n retry \<Longrightarrow> settled (fst (call s)) \<Longrightarrow> retry is_temporary call s = call s"
  by (rule retries_once) (auto simp: is_temporary_def)

subsection \<open>Retriers to compute with\<close>

fun retry_n :: "nat \<Rightarrow> ('s, 'a) retrier" where
  "retry_n 0 cond call s = call s"
| "retry_n (Suc n) cond call s =
     (case call s of (Err e, s') \<Rightarrow> if cond e then retry_n n cond call s' else (Err e, s') | x \<Rightarrow> x)"

fun retry_opt_n :: "nat \<Rightarrow> ('s, 'a) retrier_opt" where
  "retry_opt_n 0 cond call s = call s"
| "retry_opt_n (Suc n) cond call s =
     (case call s of Some (Err e, s') \<Rightarrow> if cond e then retry_opt_n n cond call s' else Some (Err e, s') | x \<Rightarrow> x)"

lemma retry_opt_n_attempts:
  "\<exists>k \<le> n. attempts cond call k s (retry_opt_n n cond call s)
     \<and> (\<forall>e s'. retry_opt_n n cond call s = Some (Err e, s') \<longrightarrow> cond e \<longrightarrow> k = n)"
proof (induction n arbitrary: s)
  case (Suc n)
  show ?case
  proof (cases "\<exists>e s'. call s = Some (Err e, s') \<and> cond e")
    case True
    then obtain e s' where e: "call s = Some (Err e, s')" "cond e" by blast
    from Suc.IH [of s'] obtain k where "k \<le> n" "attempts cond call k s' (retry_opt_n n cond call s')"
      "\<forall>e s1. retry_opt_n n cond call s' = Some (Err e, s1) \<longrightarrow> cond e \<longrightarrow> k = n" by blast
    with e show ?thesis by (intro exI [of _ "Suc k"]) auto
  next
    case False
    then have "retry_opt_n (Suc n) cond call s = call s"
      by (auto split: option.splits prod.splits outcome.splits)
    with False show ?thesis by (intro exI [of _ 0]) (auto simp del: retry_opt_n.simps)
  qed
qed simp

lemma retry_opt_n_Some: "retry_opt_n n cond (\<lambda>s. Some (call s)) s = Some (retry_n n cond call s)"
  by (induction n arbitrary: s) (auto split: prod.splits outcome.splits)

lemma retries_n: "retries n (retry_n n)"
  unfolding retries_def
proof (intro allI)
  fix cond and call :: "'a \<Rightarrow> 'b res \<times> 'a" and s
  show "\<exists>k\<le>n. attempts cond (\<lambda>s. Some (call s)) k s (Some (retry_n n cond call s))
      \<and> (\<forall>e s'. retry_n n cond call s = (Err e, s') \<longrightarrow> cond e \<longrightarrow> k = n)"
    using retry_opt_n_attempts [of n cond "\<lambda>s. Some (call s)" s] unfolding retry_opt_n_Some by auto
qed

lemma retries_opt_n: "retries_opt n (retry_opt_n n)"
  unfolding retries_opt_def by (intro allI) (rule retry_opt_n_attempts)

definition backon_n :: "nat \<Rightarrow> ('r, 'wr, 'l, 'd, 'w) backon" where
  "backon_n n =
     \<lparr>bk_unit = retry_n n, bk_stat = retry_opt_n n, bk_read = retry_n n, bk_write = retry_n n, bk_list = retry_n n,
      bk_delete = retry_n n, bk_reader_read = retry_n n, bk_writer = retry_n n, bk_lister = retry_opt_n n,
      bk_deleter_delete = retry_n n, bk_deleter_flush = retry_n n\<rparr>"

text \<open>Every retrier of a record keeps the contract.\<close>

definition backon_ok :: "nat \<Rightarrow> ('r, 'wr, 'l, 'd, 'w) backon \<Rightarrow> bool" where
  "backon_ok n bk =
     (retries n (bk_unit bk) \<and> retries_opt n (bk_stat bk) \<and> retries n (bk_read bk) \<and> retries n (bk_write bk)
      \<and> retries n (bk_list bk) \<and> retries n (bk_delete bk) \<and> retries n (bk_reader_read bk) \<and> retries n (bk_writer bk)
      \<and> retries_opt n (bk_lister bk) \<and> retries n (bk_deleter_delete bk) \<and> retries n (bk_deleter_flush bk))"

lemma backon_ok_n: "backon_ok n (backon_n n)"
  by (simp add: backon_ok_def backon_n_def retries_n retries_opt_n)

subsection \<open>Reading on after a failure\<close>

lemma br_advance_inside:
  assumes "br_inside rng content" "length content \<le> u64_max" "n \<le> length (br_select rng content)"
  shows "\<exists>rng'. br_advance (of_nat n) rng = Ok rng' \<and> br_inside rng' content
    \<and> br_select rng' content = drop n (br_select rng content)"
proof -
  have le: "unat (br_offset rng) + n \<le> length content" "\<And>sz. br_size rng = Some sz \<Longrightarrow> n \<le> unat sz"
    using assms(1,3) by (auto simp: br_inside_def br_select_def Let_def split: option.splits)
  have n: "unat (of_nat n :: u64) = n" using unat_of_nat_u64 [of n] le(1) assms(2) by linarith
  have off: "unat (br_offset rng + of_nat n) = unat (br_offset rng) + n"
    using unat_u64_add [of "br_offset rng" "of_nat n"] n le(1) assms(2) by auto
  have sz: "unat (k - of_nat n) = unat k - n" if "br_size rng = Some k" for k
    using unat_u64_sub [of "of_nat n" k] n le(2) [OF that] by auto
  show ?thesis
    using n off sz le assms(1,2)
    by (cases "br_size rng") (auto simp: br_advance_eq br_inside_def br_select_def drop_take add.commute)
qed

text \<open>
  The contract of a service that serves ranges of one object. Its readers may fail at any call; the
  pieces they do return are those of the range, in order, and the empty piece is the end. It may
  leave out some ranges: \<open>usable\<close> are those it can serve, and advancing a usable range gives another one.
\<close>

locale range_service =
  fixes ac :: "('r, 'wr, 'l, 'd, 'w) access"
    and path :: string
    and args :: op_read
    and content :: bytes
    and invar :: "'w \<Rightarrow> bool"
    and holds :: "bytes \<Rightarrow> 'r \<Rightarrow> bool"
    and usable :: "bytes_range \<Rightarrow> bool"
  assumes open_Ok: "invar w \<Longrightarrow> br_inside rng content \<Longrightarrow> usable rng \<Longrightarrow> ac_read ac path (ro_with_range rng args) w = (Ok r, w')
      \<Longrightarrow> invar w' \<and> holds (br_select rng content) r"
    and open_Err: "invar w \<Longrightarrow> br_inside rng content \<Longrightarrow> usable rng \<Longrightarrow> ac_read ac path (ro_with_range rng args) w = (Err e, w')
      \<Longrightarrow> invar w'"
    and open_Panic: "invar w \<Longrightarrow> br_inside rng content \<Longrightarrow> usable rng \<Longrightarrow> fst (ac_read ac path (ro_with_range rng args) w) \<noteq> Panic"
    and read_Ok: "invar w \<Longrightarrow> holds bs r \<Longrightarrow> ac_reader_read ac r w = (Ok b, r', w')
      \<Longrightarrow> invar w' \<and> buf_wf b \<and> (\<exists>rest. bs = buf_bytes b @ rest \<and> holds rest r' \<and> (buf_bytes b = [] \<longrightarrow> rest = []))"
    and read_Err: "invar w \<Longrightarrow> holds bs r \<Longrightarrow> ac_reader_read ac r w = (Err e, r', w') \<Longrightarrow> invar w'"
    and read_Panic: "invar w \<Longrightarrow> holds bs r \<Longrightarrow> fst (ac_reader_read ac r w) \<noteq> Panic"
    and fits: "invar w \<Longrightarrow> length content \<le> u64_max"
    and usable_advance: "usable rng \<Longrightarrow> br_advance n rng = Ok rng' \<Longrightarrow> usable rng'"
begin

text \<open>A retrying reader whose client still has to see \<open>bs\<close>.\<close>

definition rr_holds :: "bytes \<Rightarrow> 'r retry_reader \<Rightarrow> bool" where
  "rr_holds bs st =
     (rr_path st = path \<and> (\<exists>rng. rr_args st = ro_with_range rng args \<and> br_inside rng content \<and> usable rng
        \<and> bs = br_select rng content \<and> (\<forall>r. rr_reader st = Some r \<longrightarrow> holds bs r)))"

lemma rr_holds_dropped: "rr_holds bs st \<Longrightarrow> rr_holds bs (st\<lparr>rr_reader := None\<rparr>)"
  by (auto simp: rr_holds_def)

lemma rr_take_cases:
  assumes "invar w" "rr_holds bs st" "holds bs reader" "rr_take ac reader st w = (res, st', w')"
  shows "invar w' \<and> (case res of
      Ok b \<Rightarrow> buf_wf b \<and> (\<exists>rest. bs = buf_bytes b @ rest \<and> rr_holds rest st' \<and> (buf_bytes b = [] \<longrightarrow> rest = []))
    | Err e \<Rightarrow> rr_holds bs st'
    | Panic \<Rightarrow> False)"
proof -
  obtain rng where rng: "rr_path st = path" "rr_args st = ro_with_range rng args" "br_inside rng content"
    "bs = br_select rng content" "usable rng" using assms(2) by (auto simp: rr_holds_def)
  obtain r reader' w1 where r: "ac_reader_read ac reader w = (r, reader', w1)" by (metis prod_cases3)
  show ?thesis
  proof (cases r)
    case (Ok b)
    with read_Ok [OF assms(1,3)] r obtain rest where b: "invar w1" "buf_wf b" "bs = buf_bytes b @ rest" "holds rest reader'"
      "buf_bytes b = [] \<longrightarrow> rest = []" by blast
    obtain rng' where rng': "br_advance (of_nat (buf_len b)) rng = Ok rng'" "br_inside rng' content"
      "br_select rng' content = drop (buf_len b) (br_select rng content)"
      using br_advance_inside [OF rng(3) fits [OF assms(1)], of "buf_len b"] b rng(4) by auto
    have us: "usable rng'" by (rule usable_advance [OF rng(5) rng'(1)])
    have res: "res = Ok b" "w' = w1"
      "st' = st\<lparr>rr_reader := Some reader', rr_args := ro_with_range rng' (rr_args st)\<rparr>"
      using assms(4) r Ok rng(2) rng'(1) by (simp_all add: rr_take_def ro_with_range_def)
    have "rr_holds rest st'"
      unfolding rr_holds_def
    proof (intro conjI exI [of _ rng'])
      have "drop (buf_len b) bs = rest" using b by simp
      then show "rest = br_select rng' content" using rng'(3) rng(4) by simp
    qed (use res rng rng' us b in \<open>simp_all add: ro_with_range_def\<close>)
    with res b show ?thesis by auto
  next
    case (Err e)
    with read_Err [OF assms(1,3)] r assms(4) rr_holds_dropped [OF assms(2)] show ?thesis by (auto simp: rr_take_def)
  next
    case Panic
    with read_Panic [OF assms(1,3)] r show ?thesis by simp
  qed
qed

lemma rr_read_cases:
  assumes "invar w" "rr_holds bs st" "rr_read ac st w = (res, st', w')"
  shows "invar w' \<and> (case res of
      Ok b \<Rightarrow> buf_wf b \<and> (\<exists>rest. bs = buf_bytes b @ rest \<and> rr_holds rest st' \<and> (buf_bytes b = [] \<longrightarrow> rest = []))
    | Err e \<Rightarrow> rr_holds bs st'
    | Panic \<Rightarrow> False)"
proof (cases "rr_reader st")
  case None
  obtain rng where rng: "rr_path st = path" "rr_args st = ro_with_range rng args" "br_inside rng content"
    "bs = br_select rng content" "usable rng" using assms(2) by (auto simp: rr_holds_def)
  obtain r w1 where r: "ac_read ac path (ro_with_range rng args) w = (r, w1)" by fastforce
  show ?thesis
  proof (cases r)
    case (Ok reader)
    with open_Ok [OF assms(1) rng(3,5)] r rng have o: "invar w1" "holds bs reader" by auto
    have "rr_take ac reader st w1 = (res, st', w')"
      using assms(3) None r Ok rng by (simp add: rr_read_def)
    from rr_take_cases [OF o(1) assms(2) o(2) this] show ?thesis .
  next
    case (Err e)
    with open_Err [OF assms(1) rng(3,5)] r rng None assms(2,3) show ?thesis by (auto simp: rr_read_def)
  next
    case Panic
    with open_Panic [OF assms(1) rng(3,5)] r show ?thesis by simp
  qed
next
  case (Some reader)
  with assms(2) have "holds bs reader" by (auto simp: rr_holds_def)
  with rr_take_cases [OF assms(1,2)] Some assms(3) show ?thesis by (simp add: rr_read_def)
qed

text \<open>One call of the wrapper, however often the loop calls the reader.\<close>

lemma rw_read_cases:
  assumes "retries n retry" "invar w" "rr_holds bs st" "rw_call retry (rr_read ac) (rw_new st) w = (res, st', w')"
  shows "invar w' \<and> (case res of
      Ok b \<Rightarrow> buf_wf b \<and> (\<exists>rest st1. bs = buf_bytes b @ rest \<and> st' = rw_new st1 \<and> rr_holds rest st1
                        \<and> (buf_bytes b = [] \<longrightarrow> rest = []))
    | Err e \<Rightarrow> err_status e = Persistent
    | Panic \<Rightarrow> False)"
proof -
  obtain r st1 w1 where r: "retry is_temporary (\<lambda>(r, w). rr_read ac r w) (st, w) = (r, st1, w1)" by (metis prod_cases3)
  let ?P = "\<lambda>(st, w). invar w \<and> rr_holds bs st"
  obtain s0 where "?P s0" "(\<lambda>(r, w). rr_read ac r w) s0 = (r, st1, w1)"
  proof -
    have "\<exists>s0. ?P s0 \<and> (\<lambda>(r, w). rr_read ac r w) s0 = (r, st1, w1)"
    proof (rule retries_last [OF assms(1) r])
      show "?P (st, w)" using assms(2,3) by simp
      show "?P s'" if "?P s" "(\<lambda>(r, w). rr_read ac r w) s = (Err e, s')" for s e s'
        using rr_read_cases [of "snd s" bs "fst s" "Err e" "fst s'" "snd s'"] that by (auto split: prod.splits)
    qed
    then show ?thesis using that by blast
  qed
  then obtain st0 w0 where s0: "invar w0" "rr_holds bs st0" "rr_read ac st0 w0 = (r, st1, w1)" by (auto split: prod.splits)
  have "res = persist r" "st' = rw_new st1" "w' = w1"
    using assms(4) r by (auto simp: rw_call_def rw_take_inner_def rw_new_def)
  with rr_read_cases [OF s0] show ?thesis by (cases r) (auto simp: set_persistent_def)
qed

lemma retry_rd_all:
  assumes "retries n retry" "invar w" "rr_holds bs st" "length bs < m"
  shows "\<exists>res st' w'. rd_all (rw_call retry (rr_read ac)) m (rw_new st) w = Some (res, st', w')
    \<and> (case res of Ok bufs \<Rightarrow> log_bytes bufs = bs | Err e \<Rightarrow> err_status e = Persistent | Panic \<Rightarrow> False)"
  using assms(2-)
proof (induction m arbitrary: w bs st)
  case (Suc m)
  obtain r st1 w1 where r: "rw_call retry (rr_read ac) (rw_new st) w = (r, st1, w1)" by (metis prod_cases3)
  note c = rw_read_cases [OF assms(1) Suc.prems(1,2) r]
  show ?case
  proof (cases r)
    case (Ok b)
    with c obtain rest st2 where b: "invar w1" "buf_wf b" "bs = buf_bytes b @ rest" "st1 = rw_new st2" "rr_holds rest st2"
      "buf_bytes b = [] \<longrightarrow> rest = []" by auto
    show ?thesis
    proof (cases "buf_bytes b = []")
      case True
      with b Ok r show ?thesis by (simp add: buf_is_empty_def log_bytes_def)
    next
      case False
      with b(3) Suc.prems(3) have "length rest < m" by (cases "buf_bytes b") auto
      from Suc.IH [OF b(1,5) this] obtain res st' w' where
        ih: "rd_all (rw_call retry (rr_read ac)) m (rw_new st2) w1 = Some (res, st', w')"
        "case res of Ok bufs \<Rightarrow> log_bytes bufs = rest | Err e \<Rightarrow> err_status e = Persistent | Panic \<Rightarrow> False" by blast
      with False b Ok r show ?thesis
        by (cases res) (auto simp: buf_is_empty_def log_bytes_def outcome_simps)
    qed
  qed (use r c in auto)
qed simp

end

text \<open>The memory service serves the ranges of a stored value.\<close>

definition mem_serves :: "string \<Rightarrow> string \<Rightarrow> kv_value \<Rightarrow> kv_value btree_map \<Rightarrow> bool" where
  "mem_serves root path v m =
     (normalized_root root \<and> normalized_path path \<and> map_of m (kv_key root path) = Some v
      \<and> buf_wf (kv_content v) \<and> length (buf_bytes (kv_content v)) \<le> u64_max)"

lemma mem_serves_read:
  assumes "mem_serves root path v m"
  shows "ac_read (tk_access mem_adapter scheme name kc root) path args m =
    (and_then (br_to_range_as_usize (ro_range args)) (\<lambda>(sb, eb). buf_slice sb eb (kv_content v)), m)"
  using assms by (auto simp: mem_serves_def tk_access_def tk_read_def kv_read_def kv_lookup_def build_abs_path_key
      mem_adapter_def mem_get_def step_def outcome_simps split: outcome.splits)

interpretation memr: range_service "tk_access mem_adapter scheme name kc root" path args "buf_bytes (kv_content v)"
  "mem_serves root path v" "\<lambda>bs b. buf_wf b \<and> buf_bytes b = bs" "\<lambda>rng. True" for scheme name kc root path args v
proof unfold_locales
  fix m m' :: "kv_value btree_map" and rng r e
  assume m: "mem_serves root path v m"
  then have v: "buf_wf (kv_content v)" "length (buf_bytes (kv_content v)) \<le> u64_max" by (simp_all add: mem_serves_def)
  note rd = mem_serves_read [OF m, of scheme name kc "ro_with_range rng args", unfolded ro_range_with]
  assume inside: "br_inside rng (buf_bytes (kv_content v))"
  obtain sb eb b where b: "br_to_range_as_usize rng = Ok (sb, eb)" "buf_slice sb eb (kv_content v) = Ok b"
    using slice_inside [OF v inside] by blast
  with rd have eq: "ac_read (tk_access mem_adapter scheme name kc root) path (ro_with_range rng args) m = (Ok b, m)"
    by simp
  from slice_range [OF v(1) b] have s: "buf_wf b" "buf_bytes b = br_select rng (buf_bytes (kv_content v))" by blast+
  show "fst (ac_read (tk_access mem_adapter scheme name kc root) path (ro_with_range rng args) m) \<noteq> Panic"
    by (simp add: eq)
  show "mem_serves root path v m' \<and> buf_wf r \<and> buf_bytes r = br_select rng (buf_bytes (kv_content v))"
    if "ac_read (tk_access mem_adapter scheme name kc root) path (ro_with_range rng args) m = (Ok r, m')"
    using that eq s m by simp
  show "mem_serves root path v m'"
    if "ac_read (tk_access mem_adapter scheme name kc root) path (ro_with_range rng args) m = (Err e, m')"
    using that eq by simp
qed (auto simp: tk_access_def buffer_read_def mem_serves_def)

subsection \<open>The layer keeps the interfaces\<close>

lemma rw_call_new:
  "rw_call retry call (rw_new x) w =
     (let (res, x', w') = retry is_temporary (\<lambda>(r, w). call r w) (x, w) in (persist res, rw_new x', w'))"
  "rw_call_mut retry call (rw_new x) w =
     (let (res, x', w') = retry is_temporary (\<lambda>(r, w). call r w) (x, w) in (persist res, rw_new x', w'))"
  by (simp_all add: rw_call_def rw_call_mut_def rw_take_inner_def rw_new_def split: prod.splits)

lemma persist_Ok [simp]: "persist r = Ok a \<longleftrightarrow> r = Ok a"
  by (cases r) simp_all

lemma persist_Err: "persist r = Err e \<longleftrightarrow> (\<exists>e0. r = Err e0 \<and> e = set_persistent e0)"
  by (cases r) auto

text \<open>A writer that keeps what it holds when a call fails can be retried.\<close>

lemma retry_writer:
  fixes ac :: "('r, 'wr, 'l, 'd, 'w) access"
  assumes "oio_write_retry (writer_writes ac) (writer_closes ac) keeps committed" "retries n (bk_writer bk)"
  shows "oio_write_retry (writer_writes (retry_layer blk bk ac)) (writer_closes (retry_layer blk bk ac))
    (\<lambda>log (st, w). \<exists>wr. st = rw_new wr \<and> keeps log (wr, w))
    (\<lambda>log (st, w). \<exists>wr. st = rw_new wr \<and> committed log (wr, w))"
proof -
  from assms(1) have law: "keeps log s \<Longrightarrow> writer_writes ac b s = (Ok (), s') \<Longrightarrow> keeps (log @ [b]) s'"
    "keeps log s \<Longrightarrow> writer_writes ac b s = (Err e, s') \<Longrightarrow> keeps log s'"
    "keeps log s \<Longrightarrow> writer_closes ac s = (Ok (), s') \<Longrightarrow> committed log s'"
    "keeps log s \<Longrightarrow> writer_closes ac s = (Err e, s') \<Longrightarrow> keeps log s'" for log b s s' e
    by (blast dest: oio_write_retry.axioms(1) oio_write.write_Ok oio_write.write_Err oio_write.close_Ok
        oio_write_retry.close_Err)+
  have wr: "\<exists>s0. keeps log s0 \<and> writer_writes ac b s0 = x"
    if "bk_writer bk is_temporary (writer_writes ac b) s = x" "keeps log s" for log b s x
    using retries_last [OF assms(2), of is_temporary "writer_writes ac b" s "fst x" "snd x" "keeps log"] that law(2) by auto
  have cl: "\<exists>s0. keeps log s0 \<and> writer_closes ac s0 = x"
    if "bk_writer bk is_temporary (writer_closes ac) s = x" "keeps log s" for log s x
    using retries_last [OF assms(2), of is_temporary "writer_closes ac" s "fst x" "snd x" "keeps log"] that law(4) by auto
  show ?thesis
    by unfold_locales
      (auto simp: retry_layer_def rw_call_new Let_def persist_Err split: prod.splits if_splits
        dest!: wr cl intro: law)
qed

text \<open>So can a lister that keeps its place.\<close>

lemma retry_lister:
  fixes ac :: "('r, 'wr, 'l, 'd, 'w) access"
  assumes "oio_list (ac_next ac) holds" "retries_opt n (bk_lister bk)"
  shows "oio_list (ac_next (retry_layer blk bk ac)) (\<lambda>es (st, w). \<exists>l. st = rw_new l \<and> holds es (l, w))"
proof
  fix es and s :: "'l retry_wrapper \<times> 'w"
  assume "(\<lambda>(st, w). \<exists>l. st = rw_new l \<and> holds es (l, w)) s"
  then obtain l w where s: "s = (rw_new l, w)" "holds es (l, w)" by auto
  let ?call = "\<lambda>(r, w). ac_lister_next ac r w"
  have call: "?call = ac_next ac" by (simp add: ac_next_def)
  note cases = oio_list.next_cases [OF assms(1)]
  obtain s0 where s0: "holds es s0" "?call s0 = bk_lister bk is_temporary ?call (l, w)"
  proof -
    have "\<exists>s0. holds es s0 \<and> ?call s0 = bk_lister bk is_temporary ?call (l, w)"
    proof (rule retries_opt_last [OF assms(2)])
      show "holds es s'" if "holds es s" "?call s = Some (Err e, s')" for s e s'
        using cases [OF that(1)] that(2) unfolding call by auto
    qed (rule s(2))
    then show ?thesis using that by blast
  qed
  from cases [OF s0(1)] obtain r l' w' where r: "?call s0 = Some (r, l', w')"
    "r = Ok None \<and> es = [] \<and> holds [] (l', w') \<or> (\<exists>e es'. es = e # es' \<and> r = Ok (Some e) \<and> holds es' (l', w'))
       \<or> (\<exists>err. r = Err err \<and> holds es (l', w'))"
    unfolding call by auto
  have "ac_next (retry_layer blk bk ac) s = Some (persist r, rw_new l', w')"
    using s0(2) [symmetric] r(1) s(1) by (simp add: ac_next_def retry_layer_def rw_next_def rw_new_def)
  with r(2) show "\<exists>r l'. ac_next (retry_layer blk bk ac) s = Some (r, l')
      \<and> ((r = Ok None \<and> es = [] \<and> (\<lambda>(st, w). \<exists>l. st = rw_new l \<and> holds [] (l, w)) l')
         \<or> (\<exists>e es'. es = e # es' \<and> r = Ok (Some e) \<and> (\<lambda>(st, w). \<exists>l. st = rw_new l \<and> holds es' (l, w)) l')
         \<or> (\<exists>err. r = Err err \<and> (\<lambda>(st, w). \<exists>l. st = rw_new l \<and> holds es (l, w)) l'))"
    by auto
qed

subsection \<open>A service with scripted failures\<close>

text \<open>
  An object served byte by byte, like the service of the source's own tests: its state says
  which of the next reads fail with a temporary error.
\<close>

definition flaky_error :: error where
  "flaky_error = set_temporary (new_error Unexpected ''retryable_error from reader'')"

definition flaky_object :: "bytes \<Rightarrow> (bytes, unit, unit, unit, bool list) access" where
  "flaky_object content =
     \<lparr>ac_info = ac_info (dummy_access :: (unit, unit, unit, unit, unit) access),
      ac_create_dir = (\<lambda>path. not_supported),
      ac_stat = (\<lambda>path args w. Some (not_supported w)),
      ac_read = (\<lambda>path args s. (Ok (br_select (ro_range args) content), s)),
      ac_write = (\<lambda>path args. not_supported),
      ac_delete = not_supported,
      ac_list = (\<lambda>path args. not_supported),
      ac_copy = (\<lambda>from to. not_supported),
      ac_rename = (\<lambda>from to. not_supported),
      ac_reader_read = (\<lambda>bs s. case s of
          True # s' \<Rightarrow> (Err flaky_error, bs, s')
        | _ \<Rightarrow> (Ok (Contiguous (take 1 bs)), drop 1 bs, tl s)),
      ac_writer_write = ac_writer_write dummy_access,
      ac_writer_close = ac_writer_close dummy_access,
      ac_writer_abort = ac_writer_abort dummy_access,
      ac_lister_next = ac_lister_next dummy_access,
      ac_deleter_delete = ac_deleter_delete dummy_access,
      ac_deleter_flush = ac_deleter_flush dummy_access\<rparr>"

interpretation flk: range_service "flaky_object c" path args c "\<lambda>s. length c \<le> u64_max" "(=)" "\<lambda>rng. True" for c path args
  by unfold_locales
    (auto simp: flaky_object_def ro_with_range_def split: list.splits bool.splits)

lemma retry_reader_spec:
  assumes "range_service ac path args content invar holds usable" "backon_ok n bk" "invar w" "br_inside rng content" "usable rng"
    and "ac_read (retry_layer blk bk ac) path (ro_with_range rng args) w = (Ok rd, w1)"
  shows "\<exists>res rd' w'. rd_all (ac_reader_read (retry_layer blk bk ac)) (Suc (length content)) rd w1 = Some (res, rd', w')
    \<and> (case res of Ok bufs \<Rightarrow> log_bytes bufs = br_select rng content
       | Err e \<Rightarrow> err_status e = Persistent | Panic \<Rightarrow> False)"
proof -
  have srv: "range_service ac path args content invar holds usable" by (rule assms(1))
  have bk: "retries n (bk_read bk)" "retries n (bk_reader_read bk)" using assms(2) by (simp_all add: backon_ok_def)
  obtain r w0 where r: "bk_read bk is_temporary (ac_read ac path (ro_with_range rng args)) w = (r, w0)" by fastforce
  then obtain r0 where r0: "r = Ok r0" "w0 = w1" "rd = rw_new (rr_new path (ro_with_range rng args) r0)"
    using assms(6) by (cases r) (auto simp: retry_layer_def retry_read_def retry_open_def)
  obtain w2 where "invar w2" "ac_read ac path (ro_with_range rng args) w2 = (Ok r0, w1)"
    using retries_last [OF bk(1) r, of invar] assms(3) range_service.open_Err [OF srv _ assms(4,5)] r0 by blast
  from range_service.open_Ok [OF srv this(1) assms(4,5) this(2)]
  have "invar w1" "range_service.rr_holds path args content holds usable (br_select rng content) (rr_new path (ro_with_range rng args) r0)"
    using assms(4,5) by (auto simp: range_service.rr_holds_def [OF srv] rr_new_def)
  note holds = this
  have "length (br_select rng content) < Suc (length content)"
    by (auto simp: br_select_def Let_def split: option.splits)
  from range_service.retry_rd_all [OF srv bk(2) holds this]
  show ?thesis unfolding r0 by (simp add: retry_layer_def del: rd_all.simps)
qed

subsection \<open>Properties\<close>



paragraph \<open>Two retry layers\<close>

lemma settled_open: "settled (fst (retry_open retry call wrap w))"
  by (cases "retry is_temporary call w"; cases "fst (retry is_temporary call w)")
    (auto simp: retry_open_def set_persistent_def)

lemma retry_open_settled:
  assumes "retries n retry" "settled (fst (call w))"
  shows "retry_open retry call wrap w = step (call w) (\<lambda>a w. (Ok (wrap a), w))"
  using retry_settled [where call = call, OF assms] assms(2)
  by (cases "call w") (simp add: retry_open_def)

lemma unit_id: "(\<lambda>a. ()) = id"
  by (simp add: fun_eq_iff)

lemma settled_rw_call:
  "settled (fst (rw_call retry call (rw_new x) w))" "settled (fst (rw_call_mut retry call (rw_new x) w))"
  by (simp_all add: rw_call_new Let_def split: prod.splits)

lemma rw_call_settled:
  assumes "retries n retry" "settled (fst (call x w))"
  shows "rw_call retry call (rw_new x) w = (let (r, x', w') = call x w in (r, rw_new x', w'))"
    "rw_call_mut retry call (rw_new x) w = (let (r, x', w') = call x w in (r, rw_new x', w'))"
  using retry_settled [where call = "\<lambda>(r, w). call r w" and s = "(x, w)", OF assms(1)] assms(2)
  by (cases "call x w"; simp add: rw_call_new)+

lemma settled_rw_next: "rw_next blk retry call (rw_new x) w = Some (r, s) \<Longrightarrow> settled r"
  by (auto simp: rw_next_def rw_new_def split: prod.splits)

lemma settled_rr_read:
  "settled (fst (ac_reader_read ac r w)) \<Longrightarrow> settled (fst (rr_read ac (rr_new path args r) w))"
  by (auto simp: rr_read_def rr_new_def rr_take_def br_advance_eq Let_def split: prod.splits outcome.splits)

lemma retry_stat_settled:
  assumes "retries_opt n retry" "\<And>r s. call w = Some (r, s) \<Longrightarrow> settled r"
  shows "map_option (\<lambda>(res, w'). (persist res, w')) (retry is_temporary call w) = call w"
proof -
  have "retry is_temporary call w = call w"
    by (rule retries_opt_once [OF assms(1)]) (use assms(2) in \<open>force simp: is_temporary_def\<close>)
  then show ?thesis using assms(2) by (cases "call w") auto
qed

lemma rw_next_settled:
  assumes "retries_opt n retry" "\<And>r s. call x w = Some (r, s) \<Longrightarrow> settled r"
  shows "rw_next blk retry call (rw_new x) w = map_option (\<lambda>(r, x, w'). (r, rw_new x, w')) (call x w)"
proof -
  have "retry is_temporary (\<lambda>(r, w). call r w) (x, w) = call x w"
    using retries_opt_once [OF assms(1), of "\<lambda>(r, w). call r w" "(x, w)" is_temporary] assms(2)
    by (force simp: is_temporary_def)
  then show ?thesis using assms(2) by (cases "call x w") (auto simp: rw_next_def rw_new_def)
qed




text \<open>
  Uploads survive failures. Let the writer of a service keep what it holds when a call fails. Data written
  through the write generator to the retry layer over it reaches the service
  completely, in order and in chunks of the agreed shape, as soon as the writes and the
  close return success, however many calls failed underneath.
\<close>

theorem retry_chunked_write:
  assumes "oio_write_retry (writer_writes ac) (writer_closes ac) keeps committed" "backon_ok n bk" "keeps [] (wr, w)"
    and "list_all buf_wf bs" "exact \<longrightarrow> chunk_size \<noteq> Some 0"
  shows "\<exists>r g. writer_write_list (writer_writes (retry_layer blk bk ac)) bs
        (wg_create (rw_new wr, w) (chunk_size, exact)) = Some (r, g)
    \<and> (\<forall>g'. r = Ok () \<and> wg_close (writer_writes (retry_layer blk bk ac)) (writer_closes (retry_layer blk bk ac)) g = (Ok (), g')
        \<longrightarrow> wg_done (\<lambda>log (st, w). \<exists>x. st = rw_new x \<and> committed log (x, w)) chunk_size exact (log_bytes bs) (wg_w g'))"
proof -
  have "retries n (bk_writer bk)" using assms(2) by (simp add: backon_ok_def)
  from chunked_write_done [OF oio_write_retry.axioms(1) [OF retry_writer [OF assms(1) this]] _ assms(4,5), of "(rw_new wr, w)"]
    assms(3) show ?thesis by auto
qed

theorem retry_chunked_write_witness:
  "\<exists>r g. writer_write_list (writer_writes (retry_layer True (backon_n 3) (uk_access mem_adapter kl_next [] [] capability_default slash)))
       [Contiguous [1, 2, 3]] (wg_create (rw_new \<lparr>uw_path = ''f'', uw_buffer = []\<rparr>, []) (Some 2, True)) = Some (r, g)"
proof -
  let ?ac = "uk_access mem_adapter kl_next [] [] capability_default slash"
  have w: "oio_write_retry (writer_writes ?ac) (writer_closes ?ac)
    (\<lambda>log s. uw_holds ''f'' log (fst s)) (uw_committed mem_adapter ''f'')"
    using ukw.oio_write_retry_axioms by (simp add: uk_access_def)
  have "uw_holds ''f'' [] (fst (\<lparr>uw_path = ''f'', uw_buffer = []\<rparr>, []))" by (simp add: uw_holds_def)
  from retry_chunked_write [OF w backon_ok_n this, of "[Contiguous [1, 2, 3]]" True "Some 2" True 3] show ?thesis by auto
qed

paragraph \<open>Corner cases\<close>

text \<open>
  An error that is permanent, and so was never retried, leaves the layer as \<open>Persistent\<close>, the status
  documented for errors that kept failing after retries.
\<close>

lemma retry_marks_permanent:
  assumes "retries n (bk_unit bk)" "ac_create_dir ac path w = (Err e, w')" "err_status e = Permanent"
  shows "ac_create_dir (retry_layer blk bk ac) path w = (Err (set_persistent e), w')"
proof -
  have "bk_unit bk is_temporary (ac_create_dir ac path) w = ac_create_dir ac path w"
    by (rule retries_once [OF assms(1)]) (use assms in \<open>auto simp: is_temporary_def\<close>)
  with assms show ?thesis by (simp add: retry_layer_def retry_open_def)
qed

text \<open>
  When the call that would see the end of a sized range fails, all of the range has been
  delivered, and the reader is opened again with an empty range. Printed as a header it is
  reversed, for example \<open>bytes=5-4\<close>.
\<close>

lemma retry_reopens_empty_range:
  assumes "ac_reader_read ac r w = (Ok b, r', w')" "buf_len b = unat k" "unat a + unat k \<le> u64_max"
    and "rr_args st = ro_with_range (BytesRange a (Some k)) args" "0 < unat k"
  shows "\<exists>st'. rr_take ac r st w = (Ok b, st', w') \<and> ro_range (rr_args st') = BytesRange (a + k) (Some 0)"
    and "br_to_header (BytesRange (a + k) (Some 0)) = Ok (''bytes='' @ show_u64 (a + k) @ ''-'' @ show_u64 (a + k - 1))"
proof -
  have k: "of_nat (buf_len b) = k" using assms(2) by simp
  show "\<exists>st'. rr_take ac r st w = (Ok b, st', w') \<and> ro_range (rr_args st') = BytesRange (a + k) (Some 0)"
    using assms(1,3,4) k by (simp add: rr_take_def br_advance_eq ro_with_range_def Let_def)
  have "unat (a + k) = unat a + unat k" using unat_u64_add assms(3) by blast
  then show "br_to_header (BytesRange (a + k) (Some 0)) = Ok (''bytes='' @ show_u64 (a + k) @ ''-'' @ show_u64 (a + k - 1))"
    using assms(3,5) by (simp add: br_to_header_def br_display_def u64_add_def u64_sub_def guard_def unat_u64_le
        outcome_simps)
qed

end
