(* ===== verification/Sinks.thy ===== *)
theory Sinks
  imports WriteGen Adapters Deleters
begin

text \<open>
  The adapters that feed writers and deleters from the interfaces of the \<^verbatim>\<open>futures\<close> crate and of the
  standard library: \<open>BufferSink\<close>, \<open>FuturesAsyncWriter\<close> and \<open>FuturesBytesSink\<close>
  (\<^verbatim>\<open>core/src/types/write\<close>), \<open>StdWriter\<close> (\<^verbatim>\<open>core/src/types/blocking_write/std_writer.rs\<close>) and
  \<open>FuturesDeleteSink\<close> (\<^verbatim>\<open>core/src/types/delete/futures_delete_sink.rs\<close>).

  A boxed future in the state of a sink is its arguments together with the number of polls that still
  find it pending; its body runs at the poll that completes it, and never if that poll does
  not come. The function \<open>delay\<close> chooses that number when a future is made, so that a theorem for
  every \<open>delay\<close> holds for every schedule. \<open>None\<close> is a poll that does not return.

  The theorems: what a client sends through a sink or an asynchronous writer and closes has been
  committed, all of it and in order. Three places where this fails are proved too: flushing a
  \<open>StdWriter\<close> with a chunk size drops bytes, empty writes panic, and closing a delete sink deletes
  nothing.
\<close>

subsection \<open>\<open>BufferSink\<close>\<close>

datatype 's sink_state =
    SIdle "'s write_generator option"
  | SWriting nat buffer "'s write_generator"
  | SClosing nat "'s write_generator"

text \<open>
  \<open>bk_dropped\<close> is not in the code: it holds the generator that a successful close drops, and with it the
  state of the service, for the statements below.
\<close>

record 's buffer_sink =
  bk_state :: "'s sink_state"
  bk_buf :: buffer
  bk_dropped :: "'s write_generator option"

definition bsk_new :: "'s write_generator \<Rightarrow> 's buffer_sink" where
  "bsk_new g = \<lparr>bk_state = SIdle (Some g), bk_buf = buf_new, bk_dropped = None\<rparr>"

definition bsk_closed :: error where
  "bsk_closed = new_error Unexpected ''state invalid: sink has been closed''"

definition bsk_closing :: error where
  "bsk_closing = new_error Unexpected ''state invalid: sink is closing''"

text \<open>The completed future of \<open>write\<close>: the generator is put back, the buffer advanced.\<close>

definition bsk_written ::
  "(buffer \<Rightarrow> 's \<Rightarrow> unit res \<times> 's) \<Rightarrow> buffer \<Rightarrow> 's write_generator \<Rightarrow> 's buffer_sink \<Rightarrow> unit res \<times> 's buffer_sink" where
  "bsk_written write_op b g st =
     (let (res, g') = wg_write write_op b g; st' = st\<lparr>bk_state := SIdle (Some g')\<rparr> in
      case res of
        Ok n \<Rightarrow> (case buf_advance n (bk_buf st') of
                   Ok b' \<Rightarrow> (Ok (), st'\<lparr>bk_buf := b'\<rparr>) | Err e \<Rightarrow> (Err e, st') | Panic \<Rightarrow> (Panic, st'))
      | Err e \<Rightarrow> (Err e, st')
      | Panic \<Rightarrow> (Panic, st'))"

partial_function (option) bsk_poll_flush ::
  "('s write_generator \<Rightarrow> nat) \<Rightarrow> (buffer \<Rightarrow> 's \<Rightarrow> unit res \<times> 's) \<Rightarrow> 's buffer_sink
     \<Rightarrow> (unit res poll \<times> 's buffer_sink) option" where
  "bsk_poll_flush delay write_op st =
     (case bk_state st of
        SIdle w \<Rightarrow>
          if buf_is_empty (bk_buf st) then Some (Ready (Ok ()), st)
          else (case w of
                  None \<Rightarrow> Some (Ready (Err bsk_closed), st)
                | Some g \<Rightarrow> bsk_poll_flush delay write_op (st\<lparr>bk_state := SWriting (delay g) (bk_buf st) g\<rparr>))
      | SWriting n b g \<Rightarrow>
          if 0 < n then Some (Pending, st\<lparr>bk_state := SWriting (n - 1) b g\<rparr>)
          else (case bsk_written write_op b g st of
                  (Ok u, st') \<Rightarrow> bsk_poll_flush delay write_op st'
                | (Err e, st') \<Rightarrow> Some (Ready (Err e), st')
                | (Panic, st') \<Rightarrow> Some (Ready Panic, st'))
      | SClosing n g \<Rightarrow> Some (Ready (Err bsk_closing), st))"

definition bsk_poll_ready ::
  "('s write_generator \<Rightarrow> nat) \<Rightarrow> (buffer \<Rightarrow> 's \<Rightarrow> unit res \<times> 's) \<Rightarrow> 's buffer_sink
     \<Rightarrow> (unit res poll \<times> 's buffer_sink) option" where
  "bsk_poll_ready = bsk_poll_flush"

definition bsk_start_send :: "buffer \<Rightarrow> 's buffer_sink \<Rightarrow> unit res \<times> 's buffer_sink" where
  "bsk_start_send item st = (Ok (), st\<lparr>bk_buf := item\<rparr>)"

partial_function (option) bsk_poll_close ::
  "('s write_generator \<Rightarrow> nat) \<Rightarrow> (buffer \<Rightarrow> 's \<Rightarrow> unit res \<times> 's) \<Rightarrow> ('s \<Rightarrow> unit res \<times> 's) \<Rightarrow> 's buffer_sink
     \<Rightarrow> (unit res poll \<times> 's buffer_sink) option" where
  "bsk_poll_close delay write_op close_op st =
     (case bk_state st of
        SIdle w \<Rightarrow>
          (case w of
             None \<Rightarrow> Some (Ready (Err bsk_closed), st)
           | Some g \<Rightarrow>
               bsk_poll_close delay write_op close_op
                 (if buf_is_empty (bk_buf st) then st\<lparr>bk_state := SClosing (delay g) g\<rparr>
                  else st\<lparr>bk_state := SWriting (delay g) (bk_buf st) g\<rparr>))
      | SWriting n b g \<Rightarrow>
          if 0 < n then Some (Pending, st\<lparr>bk_state := SWriting (n - 1) b g\<rparr>)
          else (case bsk_written write_op b g st of
                  (Ok u, st') \<Rightarrow> bsk_poll_close delay write_op close_op st'
                | (Err e, st') \<Rightarrow> Some (Ready (Err e), st')
                | (Panic, st') \<Rightarrow> Some (Ready Panic, st'))
      | SClosing n g \<Rightarrow>
          if 0 < n then Some (Pending, st\<lparr>bk_state := SClosing (n - 1) g\<rparr>)
          else (case wg_close write_op close_op g of
                  (Ok u, g') \<Rightarrow> Some (Ready (Ok ()), st\<lparr>bk_state := SIdle None, bk_dropped := Some g'\<rparr>)
                | (Err e, g') \<Rightarrow> Some (Ready (Err e), st\<lparr>bk_state := SIdle (Some g')\<rparr>)
                | (Panic, g') \<Rightarrow> Some (Ready Panic, st\<lparr>bk_state := SIdle (Some g')\<rparr>)))"

declare bsk_poll_flush.simps [code] bsk_poll_close.simps [code]

text \<open>Polling until the result is there.\<close>

partial_function (option) await :: "('t \<Rightarrow> ('a poll \<times> 't) option) \<Rightarrow> 't \<Rightarrow> ('a \<times> 't) option" where
  "await poll_op st =
     (case poll_op st of
        None \<Rightarrow> None
      | Some (Pending, st') \<Rightarrow> await poll_op st'
      | Some (Ready a, st') \<Rightarrow> Some (a, st'))"

declare await.simps [code]

subsection \<open>\<open>FuturesBytesSink\<close>\<close>

definition io_poll :: "('a res poll \<times> 't) option \<Rightarrow> ('a io_res poll \<times> 't) option" where
  "io_poll x = map_option (\<lambda>(p, st).
     (case p of
        Pending \<Rightarrow> Pending
      | Ready r \<Rightarrow> Ready (case r of Ok a \<Rightarrow> Ok a | Err e \<Rightarrow> Err (format_std_io_kind e) | Panic \<Rightarrow> Panic), st)) x"

definition bys_poll_ready ::
  "('s write_generator \<Rightarrow> nat) \<Rightarrow> (buffer \<Rightarrow> 's \<Rightarrow> unit res \<times> 's) \<Rightarrow> 's buffer_sink
     \<Rightarrow> (unit io_res poll \<times> 's buffer_sink) option" where
  "bys_poll_ready delay write_op st = io_poll (bsk_poll_ready delay write_op st)"

definition bys_start_send :: "bytes \<Rightarrow> 's buffer_sink \<Rightarrow> unit res \<times> 's buffer_sink" where
  "bys_start_send item st = bsk_start_send (buf_from_bytes item) st"

definition bys_poll_flush ::
  "('s write_generator \<Rightarrow> nat) \<Rightarrow> (buffer \<Rightarrow> 's \<Rightarrow> unit res \<times> 's) \<Rightarrow> 's buffer_sink
     \<Rightarrow> (unit io_res poll \<times> 's buffer_sink) option" where
  "bys_poll_flush delay write_op st = io_poll (bsk_poll_flush delay write_op st)"

definition bys_poll_close ::
  "('s write_generator \<Rightarrow> nat) \<Rightarrow> (buffer \<Rightarrow> 's \<Rightarrow> unit res \<times> 's) \<Rightarrow> ('s \<Rightarrow> unit res \<times> 's) \<Rightarrow> 's buffer_sink
     \<Rightarrow> (unit io_res poll \<times> 's buffer_sink) option" where
  "bys_poll_close delay write_op close_op st = io_poll (bsk_poll_close delay write_op close_op st)"

subsection \<open>\<open>FuturesAsyncWriter\<close>\<close>

record 's async_writer =
  fa_sink :: "'s buffer_sink"
  fa_buf :: flex_buf

definition fa_new :: "'s write_generator \<Rightarrow> 's async_writer" where
  "fa_new g = \<lparr>fa_sink = bsk_new g, fa_buf = flex_new (256 * 1024)\<rparr>"

text \<open>
  Waiting for the sink, then handing over the frozen buffer. The result says whether the caller's loop goes
  on (\<open>Inl\<close>) or what it returns.
\<close>

definition fa_send ::
  "('s write_generator \<Rightarrow> nat) \<Rightarrow> (buffer \<Rightarrow> 's \<Rightarrow> unit res \<times> 's) \<Rightarrow> bytes option \<Rightarrow> 's async_writer
     \<Rightarrow> ((unit + 'a io_res poll) \<times> 's async_writer) option" where
  "fa_send delay write_op bs st =
     (case bsk_poll_ready delay write_op (fa_sink st) of
        None \<Rightarrow> None
      | Some (Pending, k) \<Rightarrow> Some (Inr Pending, st\<lparr>fa_sink := k\<rparr>)
      | Some (Ready (Err e), k) \<Rightarrow> Some (Inr (Ready (Err (format_std_io_kind e))), st\<lparr>fa_sink := k\<rparr>)
      | Some (Ready Panic, k) \<Rightarrow> Some (Inr (Ready Panic), st\<lparr>fa_sink := k\<rparr>)
      | Some (Ready (Ok u), k) \<Rightarrow>
          (case bs of
             None \<Rightarrow> Some (Inr (Ready Panic), st\<lparr>fa_sink := k\<rparr>)
           | Some bs \<Rightarrow>
               let (r, k') = bsk_start_send (buf_from_bytes bs) k in
               Some (Inl (), st\<lparr>fa_sink := k', fa_buf := flex_clean (fa_buf st)\<rparr>)))"

partial_function (option) fa_poll_write ::
  "('s write_generator \<Rightarrow> nat) \<Rightarrow> (buffer \<Rightarrow> 's \<Rightarrow> unit res \<times> 's) \<Rightarrow> bytes \<Rightarrow> 's async_writer
     \<Rightarrow> (nat io_res poll \<times> 's async_writer) option" where
  "fa_poll_write delay write_op bs st =
     (case flex_put bs (fa_buf st) of
        Ok (n, f) \<Rightarrow>
          if 0 < n then Some (Ready (Ok n), st\<lparr>fa_buf := f\<rparr>)
          else (case fa_send delay write_op (flex_get f) (st\<lparr>fa_buf := f\<rparr>) of
                  None \<Rightarrow> None
                | Some (Inr p, st') \<Rightarrow> Some (p, st')
                | Some (Inl u, st') \<Rightarrow> fa_poll_write delay write_op bs st')
      | Err e \<Rightarrow> Some (Ready Panic, st)
      | Panic \<Rightarrow> Some (Ready Panic, st))"

partial_function (option) fa_poll_flush ::
  "('s write_generator \<Rightarrow> nat) \<Rightarrow> (buffer \<Rightarrow> 's \<Rightarrow> unit res \<times> 's) \<Rightarrow> 's async_writer
     \<Rightarrow> (unit io_res poll \<times> 's async_writer) option" where
  "fa_poll_flush delay write_op st =
     (let st1 = st\<lparr>fa_buf := flex_freeze (fa_buf st)\<rparr> in
      case flex_get (fa_buf st1) of
        None \<Rightarrow> Some (Ready (Ok ()), st1)
      | Some bs \<Rightarrow>
          (case fa_send delay write_op (Some bs) st1 of
             None \<Rightarrow> None
           | Some (Inr p, st') \<Rightarrow> Some (p, st')
           | Some (Inl u, st') \<Rightarrow> fa_poll_flush delay write_op st'))"

partial_function (option) fa_poll_close ::
  "('s write_generator \<Rightarrow> nat) \<Rightarrow> (buffer \<Rightarrow> 's \<Rightarrow> unit res \<times> 's) \<Rightarrow> ('s \<Rightarrow> unit res \<times> 's) \<Rightarrow> 's async_writer
     \<Rightarrow> (unit io_res poll \<times> 's async_writer) option" where
  "fa_poll_close delay write_op close_op st =
     (let st1 = st\<lparr>fa_buf := flex_freeze (fa_buf st)\<rparr> in
      case flex_get (fa_buf st1) of
        None \<Rightarrow> map_option (\<lambda>(p, k). (p, st1\<lparr>fa_sink := k\<rparr>))
                  (io_poll (bsk_poll_close delay write_op close_op (fa_sink st1)))
      | Some bs \<Rightarrow>
          (case fa_send delay write_op (Some bs) st1 of
             None \<Rightarrow> None
           | Some (Inr p, st') \<Rightarrow> Some (p, st')
           | Some (Inl u, st') \<Rightarrow> fa_poll_close delay write_op close_op st'))"

declare fa_poll_write.simps [code] fa_poll_flush.simps [code] fa_poll_close.simps [code]

subsection \<open>\<open>StdWriter\<close>\<close>

text \<open>\<open>sw_dropped\<close> is the generator dropped by a successful close, as above.\<close>

record 's std_writer =
  sw_w :: "'s write_generator option"
  sw_buf :: flex_buf
  sw_dropped :: "'s write_generator option"

definition sw_new :: "'s write_generator \<Rightarrow> 's std_writer" where
  "sw_new g = \<lparr>sw_w = Some g, sw_buf = flex_new (256 * 1024), sw_dropped = None\<rparr>"

text \<open>Every error of the adapter has the kind \<^verbatim>\<open>io::ErrorKind::Other\<close>.\<close>

partial_function (option) sw_write ::
  "(buffer \<Rightarrow> 's \<Rightarrow> unit res \<times> 's) \<Rightarrow> bytes \<Rightarrow> 's std_writer \<Rightarrow> (nat io_res \<times> 's std_writer) option" where
  "sw_write write_op bs st =
     (case sw_w st of
        None \<Rightarrow> Some (Err IoOther, st)
      | Some g \<Rightarrow>
          (case flex_put bs (sw_buf st) of
             Ok (n, f) \<Rightarrow>
               if 0 < n then Some (Ok n, st\<lparr>sw_buf := f\<rparr>)
               else (case flex_get f of
                       None \<Rightarrow> Some (Panic, st\<lparr>sw_buf := f\<rparr>)
                     | Some fz \<Rightarrow>
                         (case wg_write write_op (buf_from_bytes fz) g of
                            (Ok k, g') \<Rightarrow>
                              (case flex_advance k f of
                                 Ok f' \<Rightarrow> sw_write write_op bs (st\<lparr>sw_w := Some g', sw_buf := f'\<rparr>)
                               | Err e \<Rightarrow> Some (Panic, st\<lparr>sw_w := Some g', sw_buf := f\<rparr>)
                               | Panic \<Rightarrow> Some (Panic, st\<lparr>sw_w := Some g', sw_buf := f\<rparr>))
                          | (Err e, g') \<Rightarrow> Some (Err IoOther, st\<lparr>sw_w := Some g', sw_buf := f\<rparr>)
                          | (Panic, g') \<Rightarrow> Some (Panic, st\<lparr>sw_w := Some g', sw_buf := f\<rparr>)))
           | Err e \<Rightarrow> Some (Panic, st)
           | Panic \<Rightarrow> Some (Panic, st)))"

partial_function (option) sw_flush ::
  "(buffer \<Rightarrow> 's \<Rightarrow> unit res \<times> 's) \<Rightarrow> 's std_writer \<Rightarrow> (unit io_res \<times> 's std_writer) option" where
  "sw_flush write_op st =
     (case sw_w st of
        None \<Rightarrow> Some (Err IoOther, st)
      | Some g \<Rightarrow>
          (let f = flex_freeze (sw_buf st) in
           case flex_get f of
             None \<Rightarrow> Some (Ok (), st\<lparr>sw_buf := f\<rparr>)
           | Some bs \<Rightarrow>
               (case wg_write write_op (buf_from_bytes bs) g of
                  (Ok k, g') \<Rightarrow> sw_flush write_op (st\<lparr>sw_w := Some g', sw_buf := flex_clean f\<rparr>)
                | (Err e, g') \<Rightarrow> Some (Err IoOther, st\<lparr>sw_w := Some g', sw_buf := f\<rparr>)
                | (Panic, g') \<Rightarrow> Some (Panic, st\<lparr>sw_w := Some g', sw_buf := f\<rparr>))))"

declare sw_write.simps [code] sw_flush.simps [code]

definition sw_close ::
  "(buffer \<Rightarrow> 's \<Rightarrow> unit res \<times> 's) \<Rightarrow> ('s \<Rightarrow> unit res \<times> 's) \<Rightarrow> 's std_writer \<Rightarrow> (unit io_res \<times> 's std_writer) option" where
  "sw_close write_op close_op st =
     (case sw_flush write_op st of
        None \<Rightarrow> None
      | Some (Ok u, st1) \<Rightarrow>
          (case sw_w st1 of
             None \<Rightarrow> Some (Err IoOther, st1)
           | Some g \<Rightarrow>
               (case wg_close write_op close_op g of
                  (Ok u, g') \<Rightarrow> Some (Ok (), st1\<lparr>sw_w := None, sw_dropped := Some g'\<rparr>)
                | (Err e, g') \<Rightarrow> Some (Err IoOther, st1\<lparr>sw_w := Some g'\<rparr>)
                | (Panic, g') \<Rightarrow> Some (Panic, st1\<lparr>sw_w := Some g'\<rparr>)))
      | Some (Err e, st1) \<Rightarrow> Some (Err e, st1)
      | Some (Panic, st1) \<Rightarrow> Some (Panic, st1))"

text \<open>\<open>Drop\<close>: a writer that was not closed is closed, without its buffer.\<close>

definition sw_drop ::
  "(buffer \<Rightarrow> 's \<Rightarrow> unit res \<times> 's) \<Rightarrow> ('s \<Rightarrow> unit res \<times> 's) \<Rightarrow> 's std_writer \<Rightarrow> 's std_writer" where
  "sw_drop write_op close_op st =
     (case sw_w st of
        None \<Rightarrow> st
      | Some g \<Rightarrow> let (r, g') = wg_close write_op close_op g in st\<lparr>sw_w := None, sw_dropped := Some g'\<rparr>)"

subsection \<open>\<open>FuturesDeleteSink\<close>\<close>

datatype 's delete_sink =
    DIdle "'s deleter option"
  | DDelete nat delete_input "'s deleter"
  | DFlush nat "'s deleter"
  | DClose nat "'s deleter"

definition ds_new :: "'s deleter \<Rightarrow> 's delete_sink" where
  "ds_new d = DIdle (Some d)"

definition ds_closed :: error where
  "ds_closed = new_error Unexpected ''FuturesDeleteSink has been closed or errored''"

definition ds_not_ready :: error where
  "ds_not_ready = new_error Unexpected ''FuturesDeleteSink is not ready to send, please poll_ready first''"

text \<open>
  Polling the future of a state. \<open>Inl\<close> is a finished future: its result and the deleter, which goes
  back into the idle state; \<open>Inr\<close> is the state after a pending poll.
\<close>

fun ds_poll_future ::
  "(string \<Rightarrow> op_delete \<Rightarrow> 's \<Rightarrow> unit res \<times> 's) \<Rightarrow> ('s \<Rightarrow> nat res \<times> 's) \<Rightarrow> 's delete_sink
     \<Rightarrow> ((unit res \<times> 's deleter) + 's delete_sink) option" where
  "ds_poll_future delete_op flush_op (DIdle d) = Some (Inr (DIdle d))"
| "ds_poll_future delete_op flush_op (DDelete n i d) =
     Some (if 0 < n then Inr (DDelete (n - 1) i d) else Inl (dl_delete delete_op flush_op i d))"
| "ds_poll_future delete_op flush_op (DFlush n d) =
     Some (if 0 < n then Inr (DFlush (n - 1) d)
           else Inl (let (r, d') = dl_flush flush_op d in (and_then r (\<lambda>k. Ok ()), d')))"
| "ds_poll_future delete_op flush_op (DClose n d) =
     (if 0 < n then Some (Inr (DClose (n - 1) d)) else map_option Inl (dl_close flush_op d))"

definition ds_poll_ready ::
  "(string \<Rightarrow> op_delete \<Rightarrow> 's \<Rightarrow> unit res \<times> 's) \<Rightarrow> ('s \<Rightarrow> nat res \<times> 's) \<Rightarrow> 's delete_sink
     \<Rightarrow> (unit res poll \<times> 's delete_sink) option" where
  "ds_poll_ready delete_op flush_op st =
     (case st of
        DIdle d \<Rightarrow> Some (Ready (Ok ()), st)
      | _ \<Rightarrow> map_option (\<lambda>x. case x of
                Inl (r, d) \<Rightarrow> (Ready r, DIdle (Some d)) | Inr st' \<Rightarrow> (Pending, st'))
              (ds_poll_future delete_op flush_op st))"

definition ds_start_send :: "('s deleter \<Rightarrow> nat) \<Rightarrow> delete_input \<Rightarrow> 's delete_sink \<Rightarrow> unit res \<times> 's delete_sink" where
  "ds_start_send delay input st =
     (case st of
        DIdle (Some d) \<Rightarrow> (Ok (), DDelete (delay d) input d)
      | DIdle None \<Rightarrow> (Err ds_closed, st)
      | _ \<Rightarrow> (Err ds_not_ready, st))"

text \<open>
  The loops of \<open>poll_flush\<close> and \<open>poll_close\<close>: a finished future brings the sink back to the idle state, whose
  branch makes a new future and returns at once.
\<close>

fun ds_idle :: "('s deleter \<Rightarrow> 's delete_sink) \<Rightarrow> 's deleter option \<Rightarrow> unit res poll \<times> 's delete_sink" where
  "ds_idle start None = (Ready (Err ds_closed), DIdle None)"
| "ds_idle start (Some d) = (Ready (Ok ()), start d)"

definition ds_poll_flush ::
  "('s deleter \<Rightarrow> nat) \<Rightarrow> (string \<Rightarrow> op_delete \<Rightarrow> 's \<Rightarrow> unit res \<times> 's) \<Rightarrow> ('s \<Rightarrow> nat res \<times> 's) \<Rightarrow> 's delete_sink
     \<Rightarrow> (unit res poll \<times> 's delete_sink) option" where
  "ds_poll_flush delay delete_op flush_op st =
     (let start = (\<lambda>d. DFlush (delay d) d) in
      case st of
        DIdle d \<Rightarrow> Some (ds_idle start d)
      | _ \<Rightarrow>
          map_option (\<lambda>x.
            case x of
              Inr st' \<Rightarrow> (Pending, st')
            | Inl (Ok u, d) \<Rightarrow>
                (case st of DFlush n d' \<Rightarrow> (Ready (Ok ()), DIdle (Some d)) | _ \<Rightarrow> ds_idle start (Some d))
            | Inl (Err e, d) \<Rightarrow> (Ready (Err e), DIdle (Some d))
            | Inl (Panic, d) \<Rightarrow> (Ready Panic, DIdle (Some d)))
            (ds_poll_future delete_op flush_op st))"

definition ds_poll_close ::
  "('s deleter \<Rightarrow> nat) \<Rightarrow> (string \<Rightarrow> op_delete \<Rightarrow> 's \<Rightarrow> unit res \<times> 's) \<Rightarrow> ('s \<Rightarrow> nat res \<times> 's) \<Rightarrow> 's delete_sink
     \<Rightarrow> (unit res poll \<times> 's delete_sink) option" where
  "ds_poll_close delay delete_op flush_op st =
     (let start = (\<lambda>d. DClose (delay d) d) in
      case st of
        DIdle d \<Rightarrow> Some (ds_idle start d)
      | _ \<Rightarrow>
          map_option (\<lambda>x.
            case x of
              Inr st' \<Rightarrow> (Pending, st')
            | Inl (Ok u, d) \<Rightarrow>
                (case st of DClose n d' \<Rightarrow> (Ready (Ok ()), DIdle (Some d)) | _ \<Rightarrow> ds_idle start (Some d))
            | Inl (Err e, d) \<Rightarrow> (Ready (Err e), DIdle (Some d))
            | Inl (Panic, d) \<Rightarrow> (Ready Panic, DIdle (Some d)))
            (ds_poll_future delete_op flush_op st))"

text \<open>The deleter a sink holds, wherever it is.\<close>

fun ds_deleter :: "'s delete_sink \<Rightarrow> 's deleter option" where
  "ds_deleter (DIdle d) = d"
| "ds_deleter (DDelete n i d) = Some d"
| "ds_deleter (DFlush n d) = Some d"
| "ds_deleter (DClose n d) = Some d"

subsection \<open>What a client of a sink sees\<close>

text \<open>Waiting for a sink, and sending item after item as the \<open>Sink\<close> contract asks.\<close>

fun bsk_feed ::
  "('s write_generator \<Rightarrow> nat) \<Rightarrow> (buffer \<Rightarrow> 's \<Rightarrow> unit res \<times> 's) \<Rightarrow> buffer list \<Rightarrow> 's buffer_sink
     \<Rightarrow> (unit res \<times> 's buffer_sink) option" where
  "bsk_feed delay write_op [] st = Some (Ok (), st)"
| "bsk_feed delay write_op (b # bs) st =
     (case await (bsk_poll_ready delay write_op) st of
        Some (Ok u, st1) \<Rightarrow> bsk_feed delay write_op bs (snd (bsk_start_send b st1))
      | r \<Rightarrow> r)"

text \<open>The progress of a sink: bytes in its buffer, whether a future is under way, polls it still needs.\<close>

definition sink_rank :: "'s buffer_sink \<Rightarrow> nat \<times> nat \<times> nat" where
  "sink_rank st =
     (length (buf_bytes (bk_buf st)),
      case bk_state st of SIdle w \<Rightarrow> (1, 0) | SWriting n b g \<Rightarrow> (0, n) | SClosing n g \<Rightarrow> (0, n))"

definition rank_less :: "(nat \<times> nat \<times> nat) rel" where
  "rank_less = less_than <*lex*> less_than <*lex*> less_than"

lemma wf_rank_less: "wf rank_less"
  by (simp add: rank_less_def wf_lex_prod)

lemma trans_rank_less: "trans rank_less"
  by (simp add: rank_less_def trans_lex_prod)

lemma rank_less_iff:
  "((a, b, c), (a', b', c')) \<in> rank_less \<longleftrightarrow> a < a' \<or> (a = a' \<and> (b < b' \<or> (b = b' \<and> c < c')))"
  by (simp add: rank_less_def)

lemma rank_induct [case_names less]:
  assumes "\<And>st. (\<And>st'. (sink_rank st', sink_rank st) \<in> rank_less \<Longrightarrow> P st') \<Longrightarrow> P st"
  shows "P st"
proof -
  have "wf (inv_image rank_less sink_rank)" by (rule wf_inv_image [OF wf_rank_less])
  then show ?thesis by (rule wf_induct_rule) (use assms in \<open>auto simp: in_inv_image\<close>)
qed

text \<open>A poll that makes progress whenever it is pending is awaited.\<close>

lemma await_progress:
  assumes "wf R" "P st"
    and "\<And>st. P st \<Longrightarrow> \<exists>r st'. poll_op st = Some (r, st')
      \<and> (case r of Pending \<Rightarrow> P st' \<and> (rank st', rank st) \<in> R | Ready a \<Rightarrow> Q a st')"
  shows "\<exists>a st'. await poll_op st = Some (a, st') \<and> Q a st'"
proof -
  have "wf (inv_image R rank)" by (rule wf_inv_image [OF assms(1)])
  then show ?thesis using assms(2)
  proof (induction st rule: wf_induct_rule)
    case (less st)
    from assms(3) [OF less.prems] obtain r st' where r: "poll_op st = Some (r, st')"
      "case r of Pending \<Rightarrow> P st' \<and> (rank st', rank st) \<in> R | Ready a \<Rightarrow> Q a st'" by blast
    show ?case
    proof (cases r)
      case Pending
      with r less.IH [of st'] show ?thesis by (simp add: await.simps [of poll_op st] in_inv_image)
    qed (use r in \<open>simp add: await.simps [of poll_op st]\<close>)
  qed
qed

context oio_write
begin

definition gen_holds :: "bytes \<Rightarrow> nat option \<Rightarrow> bool \<Rightarrow> 's write_generator \<Rightarrow> bool" where
  "gen_holds data c x g = (wg_inv invar data g \<and> wg_chunk_size g = c \<and> wg_exact g = x)"

text \<open>The bytes a sink has taken: those its generator holds and those still in its buffer.\<close>

definition sink_holds :: "bytes \<Rightarrow> nat option \<Rightarrow> bool \<Rightarrow> 's buffer_sink \<Rightarrow> bool" where
  "sink_holds data c x st =
     (buf_wf (bk_buf st) \<and> (\<exists>done_bytes. data = done_bytes @ buf_bytes (bk_buf st)
        \<and> (case bk_state st of
             SIdle (Some g) \<Rightarrow> gen_holds done_bytes c x g
           | SWriting n b g \<Rightarrow> gen_holds done_bytes c x g \<and> b = bk_buf st \<and> buf_bytes b \<noteq> []
           | _ \<Rightarrow> False)))"

lemma written_cases:
  assumes "buf_wf (bk_buf st)" "gen_holds d c x g" "buf_bytes (bk_buf st) \<noteq> []" "x \<longrightarrow> c \<noteq> Some 0"
    and "bsk_written write_op (bk_buf st) g st = (r, st')"
  shows "r = Ok () \<longrightarrow> (\<exists>g'. bk_state st' = SIdle (Some g'))
    \<and> sink_holds (d @ buf_bytes (bk_buf st)) c x st' \<and> length (buf_bytes (bk_buf st')) < length (buf_bytes (bk_buf st))"
proof -
  obtain res g' where w: "wg_write write_op (bk_buf st) g = (res, g')" by fastforce
  note s = write_spec [OF _ assms(1) w]
  show ?thesis
  proof (cases res)
    case (Ok n)
    with s [of d] assms(2-4) have n: "n \<le> buf_len (bk_buf st)" "0 < n" and g': "gen_holds (d @ take n (buf_bytes (bk_buf st))) c x g'"
      by (auto simp: gen_holds_def)
    obtain b' where b': "buf_advance n (bk_buf st) = Ok b'" "buf_wf b'" "buf_bytes b' = drop n (buf_bytes (bk_buf st))"
      using buf_advance_Ok [OF assms(1) n(1)] by blast
    have "st' = st\<lparr>bk_state := SIdle (Some g'), bk_buf := b'\<rparr>"
      using assms(5) w Ok b' by (simp add: bsk_written_def)
    with b' g' n assms(3) show ?thesis by (auto simp: sink_holds_def intro!: exI [of _ "d @ take n (buf_bytes (bk_buf st))"])
  qed (use w assms(5) in \<open>auto simp: bsk_written_def\<close>)
qed

lemma poll_flush_cases:
  assumes "sink_holds data c x st" "x \<longrightarrow> c \<noteq> Some 0"
  shows "\<exists>r st'. bsk_poll_flush delay write_op st = Some (r, st')
    \<and> (case r of
         Pending \<Rightarrow> sink_holds data c x st' \<and> (sink_rank st', sink_rank st) \<in> rank_less
       | Ready q \<Rightarrow> q = Ok () \<longrightarrow> sink_holds data c x st' \<and> buf_bytes (bk_buf st') = [] \<and> (\<exists>g. bk_state st' = SIdle (Some g)))"
  using assms(1)
proof (induction st rule: rank_induct)
  case (less st)
  note unf = bsk_poll_flush.simps [of delay write_op st]
  have wf: "buf_wf (bk_buf st)" using less.prems by (simp add: sink_holds_def)
  have go_on: ?case
    if eq: "bsk_poll_flush delay write_op st = bsk_poll_flush delay write_op st1"
      and h: "sink_holds data c x st1" and lt: "(sink_rank st1, sink_rank st) \<in> rank_less" for st1
  proof -
    from less.IH [OF lt h] obtain r st' where "bsk_poll_flush delay write_op st1 = Some (r, st')"
      "case r of
         Pending \<Rightarrow> sink_holds data c x st' \<and> (sink_rank st', sink_rank st1) \<in> rank_less
       | Ready q \<Rightarrow> q = Ok () \<longrightarrow> sink_holds data c x st' \<and> buf_bytes (bk_buf st') = [] \<and> (\<exists>g. bk_state st' = SIdle (Some g))"
      by blast
    then show ?thesis using eq transD [OF trans_rank_less _ lt] by (cases r) auto
  qed
  show ?case
  proof (cases "bk_state st")
    case (SIdle w)
    with less.prems obtain g where g: "w = Some g" by (auto simp: sink_holds_def split: option.splits)
    show ?thesis
    proof (cases "buf_bytes (bk_buf st) = []")
      case True
      with SIdle g less.prems wf show ?thesis by (simp add: unf buf_is_empty_def)
    next
      case False
      let ?st = "st\<lparr>bk_state := SWriting (delay g) (bk_buf st) g\<rparr>"
      show ?thesis
      proof (rule go_on)
        show "bsk_poll_flush delay write_op st = bsk_poll_flush delay write_op ?st"
          using SIdle g False wf by (simp add: unf buf_is_empty_def)
        show "sink_holds data c x ?st" using less.prems SIdle g False by (auto simp: sink_holds_def)
        show "(sink_rank ?st, sink_rank st) \<in> rank_less" using SIdle by (simp add: sink_rank_def rank_less_iff)
      qed
    qed
  next
    case (SWriting n b g)
    with less.prems obtain d where d: "data = d @ buf_bytes (bk_buf st)" "gen_holds d c x g" "b = bk_buf st"
      "buf_bytes (bk_buf st) \<noteq> []" by (auto simp: sink_holds_def)
    show ?thesis
    proof (cases "0 < n")
      case True
      with SWriting less.prems d show ?thesis
        by (auto simp: unf sink_holds_def sink_rank_def rank_less_iff)
    next
      case False
      obtain r st1 where r: "bsk_written write_op (bk_buf st) g st = (r, st1)" by fastforce
      note w = written_cases [OF wf d(2,4) assms(2) r]
      show ?thesis
      proof (cases r)
        case (Ok u)
        show ?thesis
        proof (rule go_on)
          show "bsk_poll_flush delay write_op st = bsk_poll_flush delay write_op st1"
            using SWriting False r Ok d(3) by (simp add: unf)
          show "sink_holds data c x st1" using w Ok d(1) by simp
          show "(sink_rank st1, sink_rank st) \<in> rank_less"
            using w Ok SWriting by (auto simp: sink_rank_def rank_less_iff)
        qed
      qed (use SWriting False r d(3) in \<open>auto simp: unf\<close>)
    qed
  qed (use less.prems in \<open>auto simp: sink_holds_def\<close>)
qed

text \<open>While closing, the buffer is empty.\<close>

definition closing_holds :: "bytes \<Rightarrow> nat option \<Rightarrow> bool \<Rightarrow> 's buffer_sink \<Rightarrow> bool" where
  "closing_holds data c x st =
     (sink_holds data c x st
      \<or> (\<exists>n g. bk_state st = SClosing n g \<and> gen_holds data c x g \<and> buf_wf (bk_buf st) \<and> buf_bytes (bk_buf st) = []))"

definition sink_done :: "bytes \<Rightarrow> nat option \<Rightarrow> bool \<Rightarrow> 's buffer_sink \<Rightarrow> bool" where
  "sink_done data c x st = (\<exists>g. bk_dropped st = Some g \<and> wg_done committed c x data (wg_w g))"

lemma poll_close_cases:
  assumes "closing_holds data c x st" "x \<longrightarrow> c \<noteq> Some 0"
  shows "\<exists>r st'. bsk_poll_close delay write_op close_op st = Some (r, st')
    \<and> (case r of
         Pending \<Rightarrow> closing_holds data c x st' \<and> (sink_rank st', sink_rank st) \<in> rank_less
       | Ready q \<Rightarrow> q = Ok () \<longrightarrow> sink_done data c x st')"
  using assms(1)
proof (induction st rule: rank_induct)
  case (less st)
  note unf = bsk_poll_close.simps [of delay write_op close_op st]
  have wf: "buf_wf (bk_buf st)" using less.prems by (auto simp: closing_holds_def sink_holds_def)
  have go_on: ?case
    if eq: "bsk_poll_close delay write_op close_op st = bsk_poll_close delay write_op close_op st1"
      and h: "closing_holds data c x st1" and lt: "(sink_rank st1, sink_rank st) \<in> rank_less" for st1
  proof -
    from less.IH [OF lt h] obtain r st' where "bsk_poll_close delay write_op close_op st1 = Some (r, st')"
      "case r of
         Pending \<Rightarrow> closing_holds data c x st' \<and> (sink_rank st', sink_rank st1) \<in> rank_less
       | Ready q \<Rightarrow> q = Ok () \<longrightarrow> sink_done data c x st'" by blast
    then show ?thesis using eq transD [OF trans_rank_less _ lt] by (cases r) auto
  qed
  show ?case
  proof (cases "bk_state st")
    case (SIdle w)
    with less.prems obtain g d where g: "w = Some g" "data = d @ buf_bytes (bk_buf st)" "gen_holds d c x g"
      by (auto simp: closing_holds_def sink_holds_def split: option.splits)
    let ?st = "if buf_is_empty (bk_buf st) then st\<lparr>bk_state := SClosing (delay g) g\<rparr>
        else st\<lparr>bk_state := SWriting (delay g) (bk_buf st) g\<rparr>"
    show ?thesis
    proof (rule go_on)
      show "bsk_poll_close delay write_op close_op st = bsk_poll_close delay write_op close_op ?st"
        using SIdle g by (simp add: unf)
      show "closing_holds data c x ?st" using g wf by (auto simp: closing_holds_def sink_holds_def buf_is_empty_def)
      show "(sink_rank ?st, sink_rank st) \<in> rank_less" using SIdle by (simp add: sink_rank_def rank_less_iff)
    qed
  next
    case (SWriting n b g)
    with less.prems obtain d where d: "data = d @ buf_bytes (bk_buf st)" "gen_holds d c x g" "b = bk_buf st"
      "buf_bytes (bk_buf st) \<noteq> []" by (auto simp: closing_holds_def sink_holds_def)
    show ?thesis
    proof (cases "0 < n")
      case True
      with SWriting wf d show ?thesis
        by (auto simp: unf closing_holds_def sink_holds_def sink_rank_def rank_less_iff)
    next
      case False
      obtain r st1 where r: "bsk_written write_op (bk_buf st) g st = (r, st1)" by fastforce
      note w = written_cases [OF wf d(2,4) assms(2) r]
      show ?thesis
      proof (cases r)
        case (Ok u)
        show ?thesis
        proof (rule go_on)
          show "bsk_poll_close delay write_op close_op st = bsk_poll_close delay write_op close_op st1"
            using SWriting False r Ok d(3) by (simp add: unf)
          show "closing_holds data c x st1" using w Ok d(1) by (simp add: closing_holds_def)
          show "(sink_rank st1, sink_rank st) \<in> rank_less"
            using w Ok SWriting by (auto simp: sink_rank_def rank_less_iff)
        qed
      qed (use SWriting False r d(3) in \<open>auto simp: unf\<close>)
    qed
  next
    case (SClosing n g)
    with less.prems have g: "gen_holds data c x g" "buf_bytes (bk_buf st) = []"
      by (auto simp: closing_holds_def sink_holds_def)
    obtain r g' where r: "wg_close write_op close_op g = (r, g')" by fastforce
    have done_ok: "r = Ok () \<Longrightarrow> wg_done committed c x data (wg_w g')"
      using close_spec [of data g g'] g(1) r by (auto simp: gen_holds_def)
    show ?thesis
    proof (cases "0 < n")
      case True
      with SClosing g wf show ?thesis by (auto simp: unf closing_holds_def sink_rank_def rank_less_iff)
    next
      case False
      with SClosing r done_ok show ?thesis by (cases r) (simp_all add: unf sink_done_def)
    qed
  qed
qed

lemma await_close:
  assumes "closing_holds data c x st" "x \<longrightarrow> c \<noteq> Some 0"
  shows "\<exists>r st'. await (bsk_poll_close delay write_op close_op) st = Some (r, st') \<and> (r = Ok () \<longrightarrow> sink_done data c x st')"
  by (rule await_progress [where P = "closing_holds data c x" and rank = sink_rank, OF wf_rank_less assms(1)])
    (use poll_close_cases assms(2) in blast)

lemma await_ready:
  assumes "sink_holds data c x st" "x \<longrightarrow> c \<noteq> Some 0"
  shows "\<exists>r st'. await (bsk_poll_ready delay write_op) st = Some (r, st')
    \<and> (r = Ok () \<longrightarrow> sink_holds data c x st' \<and> buf_bytes (bk_buf st') = [] \<and> (\<exists>g. bk_state st' = SIdle (Some g)))"
  unfolding bsk_poll_ready_def
  by (rule await_progress [where P = "sink_holds data c x" and rank = sink_rank, OF wf_rank_less assms(1)])
    (use poll_flush_cases assms(2) in blast)

lemma sink_holds_new:
  assumes "invar [] w" "g = wg_create w (c, x)"
  shows "sink_holds [] c x (bsk_new g)"
  using assms by (auto simp: sink_holds_def bsk_new_def gen_holds_def wg_inv_def wg_create_def wg_shape_def queue_new_def
      split: option.splits intro!: exI [of _ "[]"])

lemma sink_holds_send:
  assumes "sink_holds data c x st" "buf_bytes (bk_buf st) = []" "bk_state st = SIdle (Some g)" "buf_wf b"
  shows "sink_holds (data @ buf_bytes b) c x (snd (bsk_start_send b st))"
  using assms by (auto simp: sink_holds_def bsk_start_send_def)

lemma feed_holds:
  assumes "sink_holds data c x st" "x \<longrightarrow> c \<noteq> Some 0" "list_all buf_wf bs"
  shows "\<exists>r st'. bsk_feed delay write_op bs st = Some (r, st') \<and> (r = Ok () \<longrightarrow> sink_holds (data @ log_bytes bs) c x st')"
  using assms(1,3)
proof (induction bs arbitrary: data st)
  case (Cons b bs)
  from await_ready [OF Cons.prems(1) assms(2)] obtain r st1 where
    r: "await (bsk_poll_ready delay write_op) st = Some (r, st1)"
    "r = Ok () \<longrightarrow> sink_holds data c x st1 \<and> buf_bytes (bk_buf st1) = [] \<and> (\<exists>g. bk_state st1 = SIdle (Some g))" by blast
  show ?case
  proof (cases r)
    case (Ok u)
    with r(2) Cons.prems(2) have "sink_holds (data @ buf_bytes b) c x (snd (bsk_start_send b st1))"
      using sink_holds_send by auto
    from Cons.IH [OF this] Cons.prems(2) Ok r(1) show ?thesis by (auto simp: log_bytes_def)
  qed (use r in auto)
qed simp

paragraph \<open>The asynchronous writer\<close>

definition fa_holds :: "bytes \<Rightarrow> nat option \<Rightarrow> bool \<Rightarrow> 's async_writer \<Rightarrow> bool" where
  "fa_holds data c x st =
     (\<exists>d. sink_holds d c x (fa_sink st) \<and> flex_wf (fa_buf st) \<and> data = d @ flex_bytes (fa_buf st))"

lemma fa_send_cases:
  assumes "fa_holds data c x st" "x \<longrightarrow> c \<noteq> Some 0" "flex_get (fa_buf st) = Some bs"
  shows "\<exists>r st'. (fa_send delay write_op (Some bs) st :: ((unit + 'a io_res poll) \<times> 's async_writer) option) = Some (r, st')
    \<and> (case r of
         Inl u \<Rightarrow> fa_holds data c x st' \<and> flex_get (fa_buf st') = None \<and> flex_bytes (fa_buf st') = []
       | Inr Pending \<Rightarrow> fa_holds data c x st' \<and> fa_buf st' = fa_buf st
                          \<and> (sink_rank (fa_sink st'), sink_rank (fa_sink st)) \<in> rank_less
       | Inr (Ready q) \<Rightarrow> \<not> is_Ok q)"
proof -
  obtain d where d: "sink_holds d c x (fa_sink st)" "flex_wf (fa_buf st)" "data = d @ bs"
    using assms(1,3) by (auto simp: fa_holds_def flex_bytes_def flex_get_def)
  from poll_flush_cases [OF d(1) assms(2), of delay] obtain r k where
    r: "bsk_poll_ready delay write_op (fa_sink st) = Some (r, k)"
    "case r of
         Pending \<Rightarrow> sink_holds d c x k \<and> (sink_rank k, sink_rank (fa_sink st)) \<in> rank_less
       | Ready q \<Rightarrow> q = Ok () \<longrightarrow> sink_holds d c x k \<and> buf_bytes (bk_buf k) = [] \<and> (\<exists>g. bk_state k = SIdle (Some g))"
    unfolding bsk_poll_ready_def by blast
  have clean: "flex_wf (flex_clean (fa_buf st))" "flex_get (flex_clean (fa_buf st)) = None"
    "flex_bytes (flex_clean (fa_buf st)) = []"
    using d(2) assms(3) by (auto simp: flex_wf_def flex_clean_def flex_get_def flex_bytes_def)
  show ?thesis
  proof (cases r)
    case (Ready q)
    show ?thesis
    proof (cases q)
      case (Ok u)
      with r(2) Ready obtain g where k: "sink_holds d c x k" "buf_bytes (bk_buf k) = []" "bk_state k = SIdle (Some g)" by auto
      have "sink_holds (d @ bs) c x (snd (bsk_start_send (buf_from_bytes bs) k))"
        using sink_holds_send [OF k, of "buf_from_bytes bs"] by (simp add: buf_from_bytes_def)
      with r(1) Ready Ok clean d(3) show ?thesis by (auto simp: fa_send_def fa_holds_def split: prod.splits)
    qed (use r(1) Ready in \<open>auto simp: fa_send_def\<close>)
  next
    case Pending
    with r d assms(3) show ?thesis by (auto simp: fa_send_def fa_holds_def flex_bytes_def flex_get_def)
  qed
qed

text \<open>An empty or half full buffer takes at least one byte.\<close>

lemma fa_put:
  assumes "fa_holds data c x st" "flex_get (fa_buf st) = None" "bs \<noteq> []"
  shows "\<exists>n f. flex_put bs (fa_buf st) = Ok (n, f) \<and> 0 < n \<and> n \<le> length bs
    \<and> fa_holds (data @ take n bs) c x (st\<lparr>fa_buf := f\<rparr>)"
proof -
  from assms(1) have wf: "flex_wf (fa_buf st)" by (auto simp: fa_holds_def)
  from flex_put_spec [OF this, of bs] obtain n f where f: "flex_put bs (fa_buf st) = Ok (n, f)" "flex_wf f"
    "flex_bytes f = flex_bytes (fa_buf st) @ take n bs"
    "n = min (fb_cap (fa_buf st) - length (flex_bytes (fa_buf st))) (length bs)" using assms(2) by auto
  have "length (flex_bytes (fa_buf st)) < fb_cap (fa_buf st)"
    using wf assms(2) by (auto simp: flex_wf_def flex_get_def flex_bytes_def)
  with f assms(1,3) show ?thesis by (auto simp: fa_holds_def)
qed

lemma fa_poll_write_cases:
  assumes "fa_holds data c x st" "x \<longrightarrow> c \<noteq> Some 0" "bs \<noteq> []"
  shows "\<exists>r st'. fa_poll_write delay write_op bs st = Some (r, st')
    \<and> (case r of
         Pending \<Rightarrow> fa_holds data c x st' \<and> (sink_rank (fa_sink st'), sink_rank (fa_sink st)) \<in> rank_less
       | Ready (Ok n) \<Rightarrow> 0 < n \<and> n \<le> length bs \<and> fa_holds (data @ take n bs) c x st'
       | Ready q \<Rightarrow> True)"
proof (cases "flex_get (fa_buf st)")
  case None
  with fa_put [OF assms(1) None assms(3)] show ?thesis
    by (auto simp: fa_poll_write.simps [of delay write_op bs st])
next
  case (Some fz)
  then have put: "flex_put bs (fa_buf st) = Ok (0, fa_buf st)" by (simp add: flex_put_def flex_get_def)
  obtain r st1 where s: "fa_send delay write_op (Some fz) st = Some (r :: unit + nat io_res poll, st1)"
    "case r of
         Inl u \<Rightarrow> fa_holds data c x st1 \<and> flex_get (fa_buf st1) = None \<and> flex_bytes (fa_buf st1) = []
       | Inr Pending \<Rightarrow> fa_holds data c x st1 \<and> fa_buf st1 = fa_buf st
                          \<and> (sink_rank (fa_sink st1), sink_rank (fa_sink st)) \<in> rank_less
       | Inr (Ready q) \<Rightarrow> \<not> is_Ok q"
    using fa_send_cases [OF assms(1,2) Some] by blast
  have st: "st\<lparr>fa_buf := fa_buf st\<rparr> = st" by simp
  show ?thesis
  proof (cases r)
    case (Inl u)
    with s have h: "fa_holds data c x st1" "flex_get (fa_buf st1) = None" by auto
    have "fa_poll_write delay write_op bs st = fa_poll_write delay write_op bs st1"
      using put s(1) Inl Some by (simp add: fa_poll_write.simps [of delay write_op bs st] st)
    with fa_put [OF h assms(3)] show ?thesis
      by (auto simp: fa_poll_write.simps [of delay write_op bs st1])
  next
    case (Inr p)
    with put s Some show ?thesis
      by (cases p) (auto simp: fa_poll_write.simps [of delay write_op bs st] st is_Ok_iff split: outcome.splits)
  qed
qed

definition fa_closing :: "bytes \<Rightarrow> nat option \<Rightarrow> bool \<Rightarrow> 's async_writer \<Rightarrow> bool" where
  "fa_closing data c x st =
     (fa_holds data c x st
      \<or> (flex_wf (fa_buf st) \<and> flex_bytes (fa_buf st) = [] \<and> closing_holds data c x (fa_sink st)))"

definition fa_rank :: "'s async_writer \<Rightarrow> nat \<times> nat \<times> nat \<times> nat" where
  "fa_rank st = (if flex_bytes (fa_buf st) = [] then 0 else 1, sink_rank (fa_sink st))"

text \<open>With nothing left in the byte buffer, closing the writer is closing the sink.\<close>

lemma fa_poll_close_empty:
  assumes "fa_closing data c x st" "x \<longrightarrow> c \<noteq> Some 0" "flex_bytes (fa_buf st) = []"
  shows "\<exists>r st'. fa_poll_close delay write_op close_op st = Some (r, st')
    \<and> (case r of
         Pending \<Rightarrow> fa_closing data c x st' \<and> flex_bytes (fa_buf st') = []
                      \<and> (sink_rank (fa_sink st'), sink_rank (fa_sink st)) \<in> rank_less
       | Ready q \<Rightarrow> q = Ok () \<longrightarrow> sink_done data c x (fa_sink st'))"
proof -
  have wf: "flex_wf (fa_buf st)" and cl: "closing_holds data c x (fa_sink st)"
    using assms(1,3) by (auto simp: fa_closing_def fa_holds_def closing_holds_def)
  from flex_freeze_spec [OF wf] assms(3) have f: "flex_get (flex_freeze (fa_buf st)) = None"
    "flex_wf (flex_freeze (fa_buf st))" "flex_bytes (flex_freeze (fa_buf st)) = []" by auto
  from poll_close_cases [OF cl assms(2), of delay] obtain r k where r: "bsk_poll_close delay write_op close_op (fa_sink st) = Some (r, k)"
    "case r of
         Pending \<Rightarrow> closing_holds data c x k \<and> (sink_rank k, sink_rank (fa_sink st)) \<in> rank_less
       | Ready q \<Rightarrow> q = Ok () \<longrightarrow> sink_done data c x k" by blast
  show ?thesis
  proof (cases r)
    case (Ready q)
    with r f show ?thesis
      by (cases q) (auto simp: fa_poll_close.simps [of delay write_op close_op st] io_poll_def)
  next
    case Pending
    with r f show ?thesis
      by (auto simp: fa_poll_close.simps [of delay write_op close_op st] io_poll_def fa_closing_def)
  qed
qed

lemma fa_poll_close_cases:
  assumes "fa_closing data c x st" "x \<longrightarrow> c \<noteq> Some 0"
  shows "\<exists>r st'. fa_poll_close delay write_op close_op st = Some (r, st')
    \<and> (case r of
         Pending \<Rightarrow> fa_closing data c x st' \<and> (fa_rank st', fa_rank st) \<in> less_than <*lex*> rank_less
       | Ready q \<Rightarrow> q = Ok () \<longrightarrow> sink_done data c x (fa_sink st'))"
proof (cases "flex_bytes (fa_buf st) = []")
  case True
  from fa_poll_close_empty [OF assms True, of delay] show ?thesis
    using True by (fastforce simp: fa_rank_def split: poll.splits)
next
  case False
  let ?st = "st\<lparr>fa_buf := flex_freeze (fa_buf st)\<rparr>"
  have h: "fa_holds data c x st" and wf: "flex_wf (fa_buf st)" using assms(1) False by (auto simp: fa_closing_def fa_holds_def)
  from flex_freeze_spec [OF wf] False have f: "flex_get (fa_buf ?st) = Some (flex_bytes (fa_buf st))"
    "flex_bytes (fa_buf ?st) = flex_bytes (fa_buf st)" "flex_wf (fa_buf ?st)" by auto
  have h': "fa_holds data c x ?st" using h f by (auto simp: fa_holds_def)
  obtain r st1 where s: "fa_send delay write_op (Some (flex_bytes (fa_buf st))) ?st = Some (r :: unit + unit io_res poll, st1)"
    "case r of
         Inl u \<Rightarrow> fa_holds data c x st1 \<and> flex_get (fa_buf st1) = None \<and> flex_bytes (fa_buf st1) = []
       | Inr Pending \<Rightarrow> fa_holds data c x st1 \<and> fa_buf st1 = fa_buf ?st
                          \<and> (sink_rank (fa_sink st1), sink_rank (fa_sink ?st)) \<in> rank_less
       | Inr (Ready q) \<Rightarrow> \<not> is_Ok q"
    using fa_send_cases [OF h' assms(2) f(1)] by blast
  note unf = fa_poll_close.simps [of delay write_op close_op st]
  show ?thesis
  proof (cases r)
    case (Inl u)
    with s have e: "fa_closing data c x st1" "flex_bytes (fa_buf st1) = []" by (auto simp: fa_closing_def)
    have "fa_poll_close delay write_op close_op st = fa_poll_close delay write_op close_op st1"
      using s(1) Inl f(1) by (simp add: unf)
    with fa_poll_close_empty [OF e(1) assms(2) e(2), of delay] show ?thesis
      using False by (fastforce simp: fa_rank_def split: poll.splits)
  next
    case (Inr p)
    with s f False show ?thesis
      by (cases p) (auto simp: unf fa_closing_def fa_rank_def is_Ok_iff)
  qed
qed

lemma fa_await_write:
  assumes "fa_holds data c x st" "x \<longrightarrow> c \<noteq> Some 0" "bs \<noteq> []"
  shows "\<exists>r st'. await (fa_poll_write delay write_op bs) st = Some (r, st')
    \<and> (\<forall>n. r = Ok n \<longrightarrow> 0 < n \<and> n \<le> length bs \<and> fa_holds (data @ take n bs) c x st')"
proof (rule await_progress [where P = "fa_holds data c x" and rank = "sink_rank \<circ> fa_sink", OF wf_rank_less assms(1)])
  fix st
  assume "fa_holds data c x st"
  from fa_poll_write_cases [OF this assms(2,3), of delay] show "\<exists>r st'. fa_poll_write delay write_op bs st = Some (r, st')
      \<and> (case r of
           Pending \<Rightarrow> fa_holds data c x st' \<and> ((sink_rank \<circ> fa_sink) st', (sink_rank \<circ> fa_sink) st) \<in> rank_less
         | Ready a \<Rightarrow> \<forall>n. a = Ok n \<longrightarrow> 0 < n \<and> n \<le> length bs \<and> fa_holds (data @ take n bs) c x st')"
    by (fastforce split: poll.splits)
qed

lemma fa_await_close:
  assumes "fa_holds data c x st" "x \<longrightarrow> c \<noteq> Some 0"
  shows "\<exists>r st'. await (fa_poll_close delay write_op close_op) st = Some (r, st')
    \<and> (r = Ok () \<longrightarrow> sink_done data c x (fa_sink st'))"
proof (rule await_progress [where P = "fa_closing data c x" and rank = fa_rank])
  show "wf (less_than <*lex*> rank_less)" by (simp add: wf_lex_prod wf_rank_less)
  show "fa_closing data c x st" using assms(1) by (simp add: fa_closing_def)
qed (use fa_poll_close_cases assms(2) in blast)

paragraph \<open>The blocking writer\<close>

definition sw_holds :: "bytes \<Rightarrow> nat option \<Rightarrow> bool \<Rightarrow> 's std_writer \<Rightarrow> bool" where
  "sw_holds data c x st =
     (\<exists>g d. sw_w st = Some g \<and> gen_holds d c x g \<and> flex_wf (sw_buf st) \<and> data = d @ flex_bytes (sw_buf st))"

lemma sw_put:
  assumes "sw_holds data c x st" "flex_get (sw_buf st) = None" "bs \<noteq> []"
  shows "\<exists>n f. flex_put bs (sw_buf st) = Ok (n, f) \<and> 0 < n \<and> n \<le> length bs
    \<and> sw_holds (data @ take n bs) c x (st\<lparr>sw_buf := f\<rparr>)"
proof -
  from assms(1) have wf: "flex_wf (sw_buf st)" by (auto simp: sw_holds_def)
  from flex_put_spec [OF this, of bs] obtain n f where f: "flex_put bs (sw_buf st) = Ok (n, f)" "flex_wf f"
    "flex_bytes f = flex_bytes (sw_buf st) @ take n bs"
    "n = min (fb_cap (sw_buf st) - length (flex_bytes (sw_buf st))) (length bs)" using assms(2) by auto
  have "length (flex_bytes (sw_buf st)) < fb_cap (sw_buf st)"
    using wf assms(2) by (auto simp: flex_wf_def flex_get_def flex_bytes_def)
  with f assms(1,3) show ?thesis by (auto simp: sw_holds_def)
qed

lemma sw_write_cases:
  assumes "sw_holds data c x st" "x \<longrightarrow> c \<noteq> Some 0" "bs \<noteq> []"
  shows "\<exists>r st'. sw_write write_op bs st = Some (r, st')
    \<and> (\<forall>n. r = Ok n \<longrightarrow> 0 < n \<and> n \<le> length bs \<and> sw_holds (data @ take n bs) c x st')"
  using assms(1)
proof (induction "length (flex_bytes (sw_buf st))" arbitrary: st rule: less_induct)
  case less
  from less.prems obtain g d where g: "sw_w st = Some g" "gen_holds d c x g" "flex_wf (sw_buf st)"
    "data = d @ flex_bytes (sw_buf st)" by (auto simp: sw_holds_def)
  note unf = sw_write.simps [of write_op bs st]
  show ?case
  proof (cases "flex_get (sw_buf st)")
    case None
    from sw_put [OF less.prems None assms(3)] g(1) show ?thesis by (auto simp: unf)
  next
    case (Some fz)
    then have put: "flex_put bs (sw_buf st) = Ok (0, sw_buf st)" and fz: "flex_bytes (sw_buf st) = fz" "fz \<noteq> []"
      using g(3) by (auto simp: flex_put_def flex_get_def flex_bytes_def flex_wf_def)
    obtain res g' where w: "wg_write write_op (buf_from_bytes fz) g = (res, g')" by fastforce
    have b: "buf_wf (buf_from_bytes fz)" "buf_bytes (buf_from_bytes fz) = fz" by (simp_all add: buf_from_bytes_def)
    note s = write_spec [OF _ b(1) w, of d]
    show ?thesis
    proof (cases res)
      case (Ok n)
      with s g(2) b fz assms(2) have n: "n \<le> length fz" "0 < n" and g': "gen_holds (d @ take n fz) c x g'"
        by (auto simp: gen_holds_def)
      from flex_advance_spec [OF g(3) Some n(1)] obtain f' where f': "flex_advance n (sw_buf st) = Ok f'" "flex_wf f'"
        "flex_bytes f' = drop n fz" by auto
      let ?st = "st\<lparr>sw_w := Some g', sw_buf := f'\<rparr>"
      have h: "sw_holds data c x ?st" using g' f' g(4) fz by (auto simp: sw_holds_def)
      have "sw_write write_op bs st = sw_write write_op bs ?st"
        using g(1) put Some w Ok f'(1) by (simp add: unf)
      moreover have "length (flex_bytes (sw_buf ?st)) < length (flex_bytes (sw_buf st))" using f'(3) n fz by simp
      ultimately show ?thesis using less.hyps [of ?st] h by simp
    qed (use g(1) put Some w in \<open>auto simp: unf\<close>)
  qed
qed

text \<open>Without an exact chunk size the generator takes every buffer whole.\<close>

lemma write_takes_all: "wg_write write_op b g = (Ok n, g') \<Longrightarrow> \<not> wg_exact g \<or> wg_chunk_size g = None \<Longrightarrow> n = buf_len b"
  by (auto simp: wg_write_def split: option.splits if_splits prod.splits outcome.splits)

lemma sw_flush_cases:
  assumes "sw_holds data c x st" "\<not> x \<or> c = None"
  shows "\<exists>r st'. sw_flush write_op st = Some (r, st')
    \<and> (r = Ok () \<longrightarrow> sw_holds data c x st' \<and> flex_bytes (sw_buf st') = [])"
proof -
  from assms(1) obtain g d where g: "sw_w st = Some g" "gen_holds d c x g" "flex_wf (sw_buf st)"
    "data = d @ flex_bytes (sw_buf st)" by (auto simp: sw_holds_def)
  let ?f = "flex_freeze (sw_buf st)"
  note f = flex_freeze_spec [OF g(3)]
  note unf = sw_flush.simps [of write_op st]
  show ?thesis
  proof (cases "flex_bytes (sw_buf st) = []")
    case True
    with g f show ?thesis by (simp add: unf sw_holds_def)
  next
    case False
    let ?bs = "flex_bytes (sw_buf st)"
    obtain res g' where w: "wg_write write_op (buf_from_bytes ?bs) g = (res, g')" by fastforce
    have b: "buf_wf (buf_from_bytes ?bs)" "buf_bytes (buf_from_bytes ?bs) = ?bs" by (simp_all add: buf_from_bytes_def)
    note s = write_spec [OF _ b(1) w, of d]
    have fz: "flex_get ?f = Some ?bs" using f False by simp
    show ?thesis
    proof (cases res)
      case (Ok n)
      have n: "n = length ?bs" using write_takes_all [of "buf_from_bytes ?bs" g n g'] w Ok g(2) assms(2) b by (auto simp: gen_holds_def)
      with s Ok g(2,4) b have g': "gen_holds data c x g'" by (auto simp: gen_holds_def)
      let ?st = "st\<lparr>sw_w := Some g', sw_buf := flex_clean ?f\<rparr>"
      have cl: "flex_wf (flex_clean ?f)" "flex_bytes (flex_clean ?f) = []" "flex_get (flex_freeze (flex_clean ?f)) = None"
        using f fz False by (auto simp: flex_wf_def flex_clean_def flex_get_def flex_bytes_def flex_freeze_def split: if_splits)
      have "sw_flush write_op st = sw_flush write_op ?st" using g(1) fz w Ok by (simp add: unf)
      also have "\<dots> = Some (Ok (), ?st\<lparr>sw_buf := flex_freeze (flex_clean ?f)\<rparr>)"
        using cl(3) by (simp add: sw_flush.simps [of write_op ?st])
      finally show ?thesis using g' flex_freeze_spec [OF cl(1)] cl(2) by (auto simp: sw_holds_def)
    qed (use g(1) fz w in \<open>auto simp: unf\<close>)
  qed
qed

lemma sw_close_cases:
  assumes "sw_holds data c x st" "\<not> x \<or> c = None"
  shows "\<exists>r st'. sw_close write_op close_op st = Some (r, st')
    \<and> (r = Ok () \<longrightarrow> (\<exists>g. sw_dropped st' = Some g \<and> wg_done committed c x data (wg_w g)))"
proof -
  from sw_flush_cases [OF assms] obtain r st1 where r: "sw_flush write_op st = Some (r, st1)"
    "r = Ok () \<longrightarrow> sw_holds data c x st1 \<and> flex_bytes (sw_buf st1) = []" by blast
  show ?thesis
  proof (cases r)
    case (Ok u)
    with r(2) obtain g where g: "sw_w st1 = Some g" "gen_holds data c x g" by (auto simp: sw_holds_def)
    obtain q g' where q: "wg_close write_op close_op g = (q, g')" by fastforce
    have "q = Ok () \<Longrightarrow> wg_done committed c x data (wg_w g')"
      using close_spec [of data g g'] g(2) q by (auto simp: gen_holds_def)
    with r(1) Ok g(1) q show ?thesis by (cases q) (auto simp: sw_close_def)
  qed (use r(1) in \<open>auto simp: sw_close_def\<close>)
qed

end

subsection \<open>Clients\<close>

text \<open>\<open>write_all\<close>: write what is left until all is accepted.\<close>

partial_function (option) fa_write_all ::
  "('s write_generator \<Rightarrow> nat) \<Rightarrow> (buffer \<Rightarrow> 's \<Rightarrow> unit res \<times> 's) \<Rightarrow> bytes \<Rightarrow> 's async_writer
     \<Rightarrow> (unit io_res \<times> 's async_writer) option" where
  "fa_write_all delay write_op bs st =
     (if bs = [] then Some (Ok (), st)
      else case await (fa_poll_write delay write_op bs) st of
          None \<Rightarrow> None
        | Some (Ok n, st') \<Rightarrow> fa_write_all delay write_op (drop n bs) st'
        | Some (Err e, st') \<Rightarrow> Some (Err e, st')
        | Some (Panic, st') \<Rightarrow> Some (Panic, st'))"

partial_function (option) sw_write_all ::
  "(buffer \<Rightarrow> 's \<Rightarrow> unit res \<times> 's) \<Rightarrow> bytes \<Rightarrow> 's std_writer \<Rightarrow> (unit io_res \<times> 's std_writer) option" where
  "sw_write_all write_op bs st =
     (if bs = [] then Some (Ok (), st)
      else case sw_write write_op bs st of
          None \<Rightarrow> None
        | Some (Ok n, st') \<Rightarrow> sw_write_all write_op (drop n bs) st'
        | Some (Err e, st') \<Rightarrow> Some (Err e, st')
        | Some (Panic, st') \<Rightarrow> Some (Panic, st'))"

declare fa_write_all.simps [code] sw_write_all.simps [code]

context oio_write
begin

lemma fa_write_all_cases:
  assumes "fa_holds data c x st" "x \<longrightarrow> c \<noteq> Some 0"
  shows "\<exists>r st'. fa_write_all delay write_op bs st = Some (r, st') \<and> (r = Ok () \<longrightarrow> fa_holds (data @ bs) c x st')"
  using assms(1)
proof (induction "length bs" arbitrary: bs data st rule: less_induct)
  case less
  note unf = fa_write_all.simps [of delay write_op bs st]
  show ?case
  proof (cases "bs = []")
    case True
    with less.prems show ?thesis unfolding unf by simp
  next
    case False
    from fa_await_write [OF less.prems assms(2) False] obtain r st1 where
      r: "await (fa_poll_write delay write_op bs) st = Some (r, st1)"
      "\<forall>n. r = Ok n \<longrightarrow> 0 < n \<and> n \<le> length bs \<and> fa_holds (data @ take n bs) c x st1" by blast
    show ?thesis
    proof (cases r)
      case (Ok n)
      with r(2) have n: "0 < n" "fa_holds (data @ take n bs) c x st1" by auto
      have "length (drop n bs) < length bs" using n(1) False by simp
      from less.hyps [OF this n(2)] r(1) Ok False show ?thesis by (auto simp: unf)
    qed (use r(1) False in \<open>auto simp: unf\<close>)
  qed
qed

lemma sw_write_all_cases:
  assumes "sw_holds data c x st" "x \<longrightarrow> c \<noteq> Some 0"
  shows "\<exists>r st'. sw_write_all write_op bs st = Some (r, st') \<and> (r = Ok () \<longrightarrow> sw_holds (data @ bs) c x st')"
  using assms(1)
proof (induction "length bs" arbitrary: bs data st rule: less_induct)
  case less
  note unf = sw_write_all.simps [of write_op bs st]
  show ?case
  proof (cases "bs = []")
    case True
    with less.prems show ?thesis unfolding unf by simp
  next
    case False
    from sw_write_cases [OF less.prems assms(2) False] obtain r st1 where
      r: "sw_write write_op bs st = Some (r, st1)"
      "\<forall>n. r = Ok n \<longrightarrow> 0 < n \<and> n \<le> length bs \<and> sw_holds (data @ take n bs) c x st1" by blast
    show ?thesis
    proof (cases r)
      case (Ok n)
      with r(2) have n: "0 < n" "sw_holds (data @ take n bs) c x st1" by auto
      have "length (drop n bs) < length bs" using n(1) False by simp
      from less.hyps [OF this n(2)] r(1) Ok False show ?thesis by (auto simp: unf)
    qed (use r(1) False in \<open>auto simp: unf\<close>)
  qed
qed

lemma fa_holds_new:
  assumes "invar [] w"
  shows "fa_holds [] c x (fa_new (wg_create w (c, x)))"
  using sink_holds_new [OF assms refl, of c x]
  by (auto simp: fa_holds_def fa_new_def flex_wf_def flex_new_def flex_bytes_def)

lemma sw_holds_new:
  assumes "invar [] w"
  shows "sw_holds [] c x (sw_new (wg_create w (c, x)))"
  using sink_holds_new [OF assms refl, of c x]
  by (auto simp: sw_holds_def sw_new_def sink_holds_def bsk_new_def flex_wf_def flex_new_def flex_bytes_def)

end

subsection \<open>Properties\<close>

text \<open>
  C19. Sinks commit what they are sent. Over any writer that meets the interface and for every schedule of
  pending polls, a client that waits for the sink before each item and closes it at the end always gets an
  answer; if all answers are successes, the writer has committed the concatenation of the
  items, in order and in chunks of the agreed shape.
\<close>

theorem buffer_sink_commits:
  assumes "oio_write write_op close_op invar committed" "invar [] w" "list_all buf_wf bs" "x \<longrightarrow> c \<noteq> Some 0"
  shows "\<exists>r st. bsk_feed delay write_op bs (bsk_new (wg_create w (c, x))) = Some (r, st)
    \<and> (r = Ok () \<longrightarrow> (\<exists>q st'. await (bsk_poll_close delay write_op close_op) st = Some (q, st')
        \<and> (q = Ok () \<longrightarrow> (\<exists>g. bk_dropped st' = Some g \<and> wg_done committed c x (log_bytes bs) (wg_w g)))))"
proof -
  note law = assms(1)
  from oio_write.feed_holds [OF law oio_write.sink_holds_new [OF law assms(2) refl] assms(4,3), of delay] obtain r st where
    r: "bsk_feed delay write_op bs (bsk_new (wg_create w (c, x))) = Some (r, st)"
    "r = Ok () \<longrightarrow> oio_write.sink_holds invar (log_bytes bs) c x st" by auto
  have "\<exists>q st'. await (bsk_poll_close delay write_op close_op) st = Some (q, st')
        \<and> (q = Ok () \<longrightarrow> oio_write.sink_done committed (log_bytes bs) c x st')" if "r = Ok ()"
    using oio_write.await_close [OF law _ assms(4)] r(2) that by (simp add: oio_write.closing_holds_def [OF law])
  with r(1) show ?thesis by (auto simp: oio_write.sink_done_def [OF law])
qed

theorem buffer_sink_commits_witness:
  "\<exists>r st. bsk_feed (\<lambda>g. 2) log_write [Contiguous [1, 2, 3], Contiguous [4]] (bsk_new (wg_create [] (Some 2, True))) = Some (r, st)"
proof -
  have "list_all buf_wf [Contiguous [1, 2, 3], Contiguous [4]]" by simp
  from buffer_sink_commits [OF logw.oio_write_axioms refl this, of True "Some 2" "\<lambda>g. 2"] show ?thesis by auto
qed

text \<open>
  The asynchronous writer commits what is written to it. The same for \<open>AsyncWrite\<close>: writing all of
  some bytes and closing always return, for every schedule, and if both succeed the bytes have
  been committed.
\<close>

theorem async_writer_commits:
  assumes "oio_write write_op close_op invar committed" "invar [] w" "x \<longrightarrow> c \<noteq> Some 0"
  shows "\<exists>r st. fa_write_all delay write_op bs (fa_new (wg_create w (c, x))) = Some (r, st)
    \<and> (r = Ok () \<longrightarrow> (\<exists>q st'. await (fa_poll_close delay write_op close_op) st = Some (q, st')
        \<and> (q = Ok () \<longrightarrow> (\<exists>g. bk_dropped (fa_sink st') = Some g \<and> wg_done committed c x bs (wg_w g)))))"
proof -
  note law = assms(1)
  from oio_write.fa_write_all_cases [OF law oio_write.fa_holds_new [OF law assms(2)] assms(3), of delay bs] obtain r st where
    r: "fa_write_all delay write_op bs (fa_new (wg_create w (c, x))) = Some (r, st)"
    "r = Ok () \<longrightarrow> oio_write.fa_holds invar bs c x st" by auto
  have "\<exists>q st'. await (fa_poll_close delay write_op close_op) st = Some (q, st')
        \<and> (q = Ok () \<longrightarrow> oio_write.sink_done committed bs c x (fa_sink st'))" if "r = Ok ()"
    using oio_write.fa_await_close [OF law _ assms(3)] r(2) that by blast
  with r(1) show ?thesis by (auto simp: oio_write.sink_done_def [OF law])
qed

theorem async_writer_commits_witness:
  "\<exists>r st. fa_write_all (\<lambda>g. 1) log_write [1, 2, 3] (fa_new (wg_create [] (Some 2, True))) = Some (r, st)"
  using async_writer_commits [OF logw.oio_write_axioms refl, of True "Some 2" "\<lambda>g. 1" "[1, 2, 3]"] by auto

text \<open>
  The blocking writer commits what is written to it, as long as no exact chunk size is set: then
  writing all of some bytes and closing return, and if both succeed the bytes have been committed.
\<close>

theorem std_writer_commits:
  assumes "oio_write write_op close_op invar committed" "invar [] w" "\<not> x \<or> c = None"
  shows "\<exists>r st. sw_write_all write_op bs (sw_new (wg_create w (c, x))) = Some (r, st)
    \<and> (r = Ok () \<longrightarrow> (\<exists>q st'. sw_close write_op close_op st = Some (q, st')
        \<and> (q = Ok () \<longrightarrow> (\<exists>g. sw_dropped st' = Some g \<and> wg_done committed c x bs (wg_w g)))))"
proof -
  note law = assms(1)
  have x: "x \<longrightarrow> c \<noteq> Some 0" using assms(3) by auto
  from oio_write.sw_write_all_cases [OF law oio_write.sw_holds_new [OF law assms(2)] x, of bs] obtain r st where
    r: "sw_write_all write_op bs (sw_new (wg_create w (c, x))) = Some (r, st)"
    "r = Ok () \<longrightarrow> oio_write.sw_holds invar bs c x st" by auto
  with oio_write.sw_close_cases [OF law _ assms(3)] show ?thesis by blast
qed

theorem std_writer_commits_witness:
  "\<exists>r st. sw_write_all log_write [1, 2, 3] (sw_new (wg_create [] (Some 2, False))) = Some (r, st)"
  using std_writer_commits [OF logw.oio_write_axioms refl, of False "Some 2" "[1, 2, 3]"] by auto


text \<open>
  Empty writes panic. Both writers take a write of no bytes for a full buffer and expect frozen bytes, which a
  buffer that is not full does not have.
\<close>

lemma empty_write_panics:
  "\<exists>st. fa_poll_write delay write_op [] (fa_new g) = Some (Ready Panic, st)"
  "\<exists>st. sw_write write_op [] (sw_new g) = Some (Panic, st)"
  unfolding fa_poll_write.simps [of delay write_op "[]" "fa_new g"] sw_write.simps [of write_op "[]" "sw_new g"]
  by (simp_all add: fa_send_def fa_new_def sw_new_def bsk_poll_ready_def bsk_new_def flex_new_def flex_put_def flex_get_def
      usize_sub_def guard_def bsk_poll_flush.simps buf_is_empty_def buf_new_def buf_len_def)

text \<open>
  Closing a delete sink deletes nothing. \<open>poll_close\<close> makes the future that closes the deleter and reports
  success without polling it. So a client that sends a request to a sink over a one-shot
  deleter, waits for it and closes the sink is told that all is well, while the service has not been
  called and the request still sits in the deleter.
\<close>

theorem delete_sink_close_deletes_nothing:
  "\<exists>st1 st2 st3 d. ds_start_send delay i (ds_new (dl_create None (None, w))) = (Ok (), st1)
    \<and> await (ds_poll_ready osd_delete (osd_flush delete_once)) st1 = Some (Ok (), st2)
    \<and> await (ds_poll_close delay osd_delete (osd_flush delete_once)) st2 = Some (Ok (), st3)
    \<and> ds_deleter st3 = Some d \<and> dl_deleter d = (Some (request_of i), w)"
proof -
  let ?d = "dl_create None (None, w)"
  let ?d' = "?d\<lparr>dl_deleter := (Some (request_of i), w), dl_cur_size := 1\<rparr>"
  have del: "dl_delete osd_delete (osd_flush delete_once) i ?d = (Ok (), ?d')"
    by (simp add: dl_delete_def dl_create_def osd_delete_def request_of_def Let_def split: option.splits)
  have ready: "await (ds_poll_ready osd_delete (osd_flush delete_once)) (DDelete n i ?d) = Some (Ok (), DIdle (Some ?d'))" for n
    by (induction n) (simp_all add: await.simps [of _ "DDelete _ i ?d"] ds_poll_ready_def del)
  have "await (ds_poll_close delay osd_delete (osd_flush delete_once)) (DIdle (Some ?d')) = Some (Ok (), DClose (delay ?d') ?d')"
    by (simp add: await.simps ds_poll_close_def)
  with ready [of "delay ?d"] show ?thesis by (auto simp: ds_start_send_def ds_new_def)
qed

end
