(* ===== verification/Operators.thy ===== *)
theory Operators
  imports Layers WriteGen Adapters
begin

text \<open>
  The user's interface: \<open>Operator\<close> and \<open>BlockingOperator\<close> (\<^verbatim>\<open>core/src/types/operator\<close>), and \<open>Lister\<close> and
  \<open>BlockingLister\<close> (\<^verbatim>\<open>core/src/types/list.rs\<close>). An operator is the accessor it was built from; the
  executor option is not modelled. Every operation normalizes its path, checks that the path is of the kind
  the operation needs, and drives readers, writers, listers and deleters of the accessor. The flag \<open>blk\<close>
  selects the blocking operator where the two differ, which is in the names put into errors.

  The builders \<open>stat_with\<close> and so on are functions of their final arguments. Reads go through the
  readers that \<^verbatim>\<open>ReadContext\<close> opens on the accessor, \<open>context_ops\<close>, and leave the service as it is. \<open>None\<close> is an
  operation that does not end.
\<close>

subsection \<open>Listers\<close>

record 'l op_lister =
  ls_lister :: "'l option"
  ls_errored :: bool

definition ls_create ::
  "('r, 'wr, 'l, 'd, 'w) access \<Rightarrow> string \<Rightarrow> op_list \<Rightarrow> 'w \<Rightarrow> 'l op_lister res \<times> 'w" where
  "ls_create ac path args w =
     step (ac_list ac path args w) (\<lambda>l w. (Ok \<lparr>ls_lister = Some l, ls_errored = False\<rparr>, w))"

text \<open>The next item of the stream: nothing after the end or an error.\<close>

definition ls_next ::
  "('r, 'wr, 'l, 'd, 'w) access \<Rightarrow> 'l op_lister \<Rightarrow> 'w \<Rightarrow> (oio_entry res option \<times> 'l op_lister \<times> 'w) option" where
  "ls_next ac st w =
     (if ls_errored st then Some (None, st, w)
      else case ls_lister st of
          None \<Rightarrow> Some (None, st, w)
        | Some l \<Rightarrow>
            map_option (\<lambda>(r, l', w').
              (let st' = st\<lparr>ls_lister := Some l'\<rparr> in
               case r of
                 Ok (Some oe) \<Rightarrow> (Some (Ok oe), st', w')
               | Ok None \<Rightarrow> (None, st'\<lparr>ls_lister := None\<rparr>, w')
               | Err err \<Rightarrow> (Some (Err err), st'\<lparr>ls_errored := True\<rparr>, w')
               | Panic \<Rightarrow> (Some Panic, st', w'))) (ac_lister_next ac l w))"

text \<open>The blocking lister asks its lister again after the end.\<close>

definition bls_next ::
  "('r, 'wr, 'l, 'd, 'w) access \<Rightarrow> 'l op_lister \<Rightarrow> 'w \<Rightarrow> (oio_entry res option \<times> 'l op_lister \<times> 'w) option" where
  "bls_next ac st w =
     (if ls_errored st then Some (None, st, w)
      else case ls_lister st of
          None \<Rightarrow> Some (None, st, w)
        | Some l \<Rightarrow>
            map_option (\<lambda>(r, l', w').
              (let st' = st\<lparr>ls_lister := Some l'\<rparr> in
               case r of
                 Ok (Some oe) \<Rightarrow> (Some (Ok oe), st', w')
               | Ok None \<Rightarrow> (None, st', w')
               | Err err \<Rightarrow> (Some (Err err), st'\<lparr>ls_errored := True\<rparr>, w')
               | Panic \<Rightarrow> (Some Panic, st', w'))) (ac_lister_next ac l w))"

text \<open>\<open>try_collect\<close>: all items, or the first error.\<close>

partial_function (option) ls_collect ::
  "('l op_lister \<Rightarrow> 'w \<Rightarrow> (oio_entry res option \<times> 'l op_lister \<times> 'w) option) \<Rightarrow> oio_entry list \<Rightarrow> 'l op_lister \<Rightarrow> 'w
     \<Rightarrow> (oio_entry list res \<times> 'w) option" where
  "ls_collect next_op acc st w =
     (case next_op st w of
        None \<Rightarrow> None
      | Some (None, st', w') \<Rightarrow> Some (Ok acc, w')
      | Some (Some (Ok e), st', w') \<Rightarrow> ls_collect next_op (acc @ [e]) st' w'
      | Some (Some (Err err), st', w') \<Rightarrow> Some (Err err, w')
      | Some (Some Panic, st', w') \<Rightarrow> Some (Panic, w'))"

declare ls_collect.simps [code]

definition entry_name :: "oio_entry \<Rightarrow> string" where
  "entry_name e = get_basename (oe_path e)"

subsection \<open>Checks of paths\<close>

definition op_error :: "error_kind \<Rightarrow> string \<Rightarrow> string \<Rightarrow> accessor_info \<Rightarrow> (string \<times> string) list \<Rightarrow> error" where
  "op_error kind msg operation info ctx =
     fold (\<lambda>(k, v). with_context k v) ((''service'', ai_scheme info) # ctx) (with_operation operation (new_error kind msg))"

text \<open>Refuse a path of the wrong kind, or go on.\<close>

definition require_path ::
  "entry_mode \<Rightarrow> string \<Rightarrow> error \<Rightarrow> ('w \<Rightarrow> 'a res \<times> 'w) \<Rightarrow> 'w \<Rightarrow> 'a res \<times> 'w" where
  "require_path mode path err run w =
     step (validate_path path mode, w) (\<lambda>ok w. if ok then run w else (Err err, w))"

subsection \<open>Metadata\<close>

definition op_stat_with ::
  "('r, 'wr, 'l, 'd, 'w) access \<Rightarrow> string \<Rightarrow> op_stat \<Rightarrow> 'w \<Rightarrow> (metadata res \<times> 'w) option" where
  "op_stat_with ac path args w = ac_stat ac (normalize_path path) args w"

definition op_exists :: "('r, 'wr, 'l, 'd, 'w) access \<Rightarrow> string \<Rightarrow> 'w \<Rightarrow> (bool res \<times> 'w) option" where
  "op_exists ac path w =
     map_option (\<lambda>(r, w').
       (case r of
          Ok md \<Rightarrow> Ok True
        | Err err \<Rightarrow> if err_kind err = NotFound then Ok False else Err err
        | Panic \<Rightarrow> Panic, w')) (op_stat_with ac path op_stat_default w)"

definition op_create_dir :: "('r, 'wr, 'l, 'd, 'w) access \<Rightarrow> string \<Rightarrow> 'w \<Rightarrow> unit res \<times> 'w" where
  "op_create_dir ac path w =
     (let p = normalize_path path in
      require_path DIR p
        (op_error NotADirectory ''the path trying to create should end with `/`'' ''create_dir'' (ac_info ac) [(''path'', p)])
        (\<lambda>w. step (ac_create_dir ac p w) (\<lambda>u w. (Ok (), w))) w)"

subsection \<open>Reading and writing\<close>

text \<open>\<open>n\<close> is the number of buffers of a reader that are looked at.\<close>

definition op_read_with ::
  "nat \<Rightarrow> ('r, 'wr, 'l, 'd, 'w) access \<Rightarrow> string \<Rightarrow> op_read \<Rightarrow> op_reader \<Rightarrow> 'w \<Rightarrow> (buffer res \<times> 'w) option" where
  "op_read_with n ac path args options w =
     (let p = normalize_path path in
      case validate_path p FILE of
        Ok True \<Rightarrow>
          (case br_to_range (ro_range args) of
             Ok (sb, eb) \<Rightarrow> map_option (\<lambda>(r, u). (r, w)) (reader_read (context_ops n ac p args w) options sb eb ())
           | Err e \<Rightarrow> Some (Err e, w)
           | Panic \<Rightarrow> Some (Panic, w))
      | Ok False \<Rightarrow>
          Some (Err (op_error IsADirectory ''read path is a directory'' ''read'' (ac_info ac) [(''path'', p)]), w)
      | Err e \<Rightarrow> Some (Err e, w)
      | Panic \<Rightarrow> Some (Panic, w))"

definition bop_read_with ::
  "nat \<Rightarrow> ('r, 'wr, 'l, 'd, 'w) access \<Rightarrow> string \<Rightarrow> op_read \<Rightarrow> bytes_range \<Rightarrow> 'w \<Rightarrow> (buffer res \<times> 'w) option" where
  "bop_read_with n ac path args rng w =
     (let p = normalize_path path in
      case validate_path p FILE of
        Ok True \<Rightarrow>
          (case br_to_range rng of
             Ok (sb, eb) \<Rightarrow> map_option (\<lambda>(r, s, u). (r, w)) (blocking_read (context_ops n ac p args w) or_new sb eb None ())
           | Err e \<Rightarrow> Some (Err e, w)
           | Panic \<Rightarrow> Some (Panic, w))
      | Ok False \<Rightarrow>
          Some (Err (op_error IsADirectory ''read path is a directory'' ''BlockingOperator::read_with'' (ac_info ac)
            [(''path'', p)]), w)
      | Err e \<Rightarrow> Some (Err e, w)
      | Panic \<Rightarrow> Some (Panic, w))"

text \<open>A new writer: the generator over the writer of the accessor.\<close>

definition writer_new ::
  "('r, 'wr, 'l, 'd, 'w) access \<Rightarrow> string \<Rightarrow> op_write \<Rightarrow> op_writer \<Rightarrow> 'w \<Rightarrow> ('wr \<times> 'w) write_generator res \<times> 'w" where
  "writer_new ac path args options w =
     step (ac_write ac path args w) (\<lambda>wr w.
       (Ok (wg_create (wr, w) (calculate_chunk_size options (ai_full_capability (ac_info ac)))), w))"

definition op_writer_with ::
  "bool \<Rightarrow> ('r, 'wr, 'l, 'd, 'w) access \<Rightarrow> string \<Rightarrow> op_write \<Rightarrow> op_writer \<Rightarrow> 'w
     \<Rightarrow> ('wr \<times> 'w) write_generator res \<times> 'w" where
  "op_writer_with blk ac path args options w =
     (let p = (if blk then normalize_path (normalize_path path) else normalize_path path) in
      require_path FILE p
        (op_error IsADirectory ''write path is a directory''
          (if blk then ''BlockingOperator::writer_with'' else ''Operator::writer'') (ac_info ac) [(''path'', p)])
        (writer_new ac p args options) w)"

definition op_write_with ::
  "bool \<Rightarrow> ('r, 'wr, 'l, 'd, 'w) access \<Rightarrow> string \<Rightarrow> op_write \<Rightarrow> op_writer \<Rightarrow> buffer \<Rightarrow> 'w \<Rightarrow> (unit res \<times> 'w) option" where
  "op_write_with blk ac path args options bs w =
     (let p = normalize_path path in
      case require_path FILE p
        (op_error IsADirectory ''write path is a directory''
          (if blk then ''BlockingOperator::write_with'' else ''Operator::write_with'') (ac_info ac) [(''path'', p)])
        (writer_new ac p args options) w of
        (Ok g, w1) \<Rightarrow>
          (case writer_write (writer_writes ac) bs g of
             None \<Rightarrow> None
           | Some (Ok u, g1) \<Rightarrow>
               (let (r, g2) = wg_close (writer_writes ac) (writer_closes ac) g1 in Some (r, snd (wg_w g2)))
           | Some (Err e, g1) \<Rightarrow> Some (Err e, snd (wg_w g1))
           | Some (Panic, g1) \<Rightarrow> Some (Panic, snd (wg_w g1)))
      | (Err e, w1) \<Rightarrow> Some (Err e, w1)
      | (Panic, w1) \<Rightarrow> Some (Panic, w1))"

subsection \<open>Copying and renaming\<close>

text \<open>\<open>copy\<close> and \<open>rename\<close> check alike; \<open>operation\<close> is the name in their errors.\<close>

definition op_transfer ::
  "string \<Rightarrow> accessor_info \<Rightarrow> (string \<Rightarrow> string \<Rightarrow> 'w \<Rightarrow> unit res \<times> 'w) \<Rightarrow> string \<Rightarrow> string \<Rightarrow> 'w \<Rightarrow> unit res \<times> 'w" where
  "op_transfer operation info call from to w =
     (let f = normalize_path from in
      require_path FILE f (op_error IsADirectory ''from path is a directory'' operation info [(''from'', f)])
        (\<lambda>w. let t = normalize_path to in
           require_path FILE t (op_error IsADirectory ''to path is a directory'' operation info [(''to'', t)])
             (\<lambda>w. if f = t
                then (Err (op_error IsSameFile ''from and to paths are same'' operation info [(''from'', f), (''to'', t)]), w)
                else step (call f t w) (\<lambda>u w. (Ok (), w))) w) w)"

definition op_copy :: "bool \<Rightarrow> ('r, 'wr, 'l, 'd, 'w) access \<Rightarrow> string \<Rightarrow> string \<Rightarrow> 'w \<Rightarrow> unit res \<times> 'w" where
  "op_copy blk ac from to w =
     op_transfer (if blk then ''BlockingOperator::copy'' else ''Operator::copy'') (ac_info ac) (ac_copy ac) from to w"

definition op_rename :: "bool \<Rightarrow> ('r, 'wr, 'l, 'd, 'w) access \<Rightarrow> string \<Rightarrow> string \<Rightarrow> 'w \<Rightarrow> unit res \<times> 'w" where
  "op_rename blk ac from to w =
     op_transfer (if blk then ''BlockingOperator::move'' else ''Operator::move_'') (ac_info ac) (ac_rename ac) from to w"

subsection \<open>Deleting\<close>

abbreviation deleter_deletes :: "('r, 'wr, 'l, 'd, 'w) access \<Rightarrow> string \<Rightarrow> op_delete \<Rightarrow> 'd \<times> 'w \<Rightarrow> unit res \<times> 'd \<times> 'w" where
  "deleter_deletes ac \<equiv> \<lambda>path args (d, w). ac_deleter_delete ac path args d w"

abbreviation deleter_flushes :: "('r, 'wr, 'l, 'd, 'w) access \<Rightarrow> 'd \<times> 'w \<Rightarrow> nat res \<times> 'd \<times> 'w" where
  "deleter_flushes ac \<equiv> \<lambda>(d, w). ac_deleter_flush ac d w"

definition op_delete_with :: "('r, 'wr, 'l, 'd, 'w) access \<Rightarrow> string \<Rightarrow> op_delete \<Rightarrow> 'w \<Rightarrow> unit res \<times> 'w" where
  "op_delete_with ac path args w =
     step (ac_delete ac w) (\<lambda>d w.
       let (r, d1, w1) = ac_deleter_delete ac (normalize_path path) args d w in
       step (r, w1) (\<lambda>u w.
         let (n, d2, w2) = ac_deleter_flush ac d1 w in step (n, w2) (\<lambda>k w. (Ok (), w))))"

definition op_deleter :: "('r, 'wr, 'l, 'd, 'w) access \<Rightarrow> 'w \<Rightarrow> ('d \<times> 'w) deleter res \<times> 'w" where
  "op_deleter ac w =
     step (ac_delete ac w) (\<lambda>d w.
       (Ok (dl_create (cap_delete_max_size (ai_full_capability (ac_info ac))) (d, w)), w))"

text \<open>Closing the deleter after the last request.\<close>

definition op_close_deleter ::
  "('r, 'wr, 'l, 'd, 'w) access \<Rightarrow> unit res \<times> ('d \<times> 'w) deleter \<Rightarrow> (unit res \<times> 'w) option" where
  "op_close_deleter ac = (\<lambda>(r, dl).
     case r of
       Ok u \<Rightarrow> map_option (\<lambda>(q, dl'). (q, snd (dl_deleter dl'))) (dl_close (deleter_flushes ac) dl)
     | Err e \<Rightarrow> Some (Err e, snd (dl_deleter dl))
     | Panic \<Rightarrow> Some (Panic, snd (dl_deleter dl)))"

definition op_delete_iter ::
  "('r, 'wr, 'l, 'd, 'w) access \<Rightarrow> delete_input list \<Rightarrow> 'w \<Rightarrow> (unit res \<times> 'w) option" where
  "op_delete_iter ac inputs w =
     (case op_deleter ac w of
        (Ok dl, w1) \<Rightarrow> op_close_deleter ac (dl_delete_iter (deleter_deletes ac) (deleter_flushes ac) inputs dl)
      | (Err e, w1) \<Rightarrow> Some (Err e, w1)
      | (Panic, w1) \<Rightarrow> Some (Panic, w1))"

definition op_delete_try_iter ::
  "('r, 'wr, 'l, 'd, 'w) access \<Rightarrow> (error + delete_input) list \<Rightarrow> 'w \<Rightarrow> (unit res \<times> 'w) option" where
  "op_delete_try_iter ac inputs w =
     (case op_deleter ac w of
        (Ok dl, w1) \<Rightarrow> op_close_deleter ac (dl_delete_try_iter (deleter_deletes ac) (deleter_flushes ac) inputs dl)
      | (Err e, w1) \<Rightarrow> Some (Err e, w1)
      | (Panic, w1) \<Rightarrow> Some (Panic, w1))"

text \<open>Deleting what a lister returns: lister and deleter take turns on the state of the service.\<close>

partial_function (option) delete_listed ::
  "('r, 'wr, 'l, 'd, 'w) access \<Rightarrow> ('l op_lister \<Rightarrow> 'w \<Rightarrow> (oio_entry res option \<times> 'l op_lister \<times> 'w) option)
     \<Rightarrow> 'l op_lister \<Rightarrow> ('d \<times> 'w) deleter \<Rightarrow> (unit res \<times> ('d \<times> 'w) deleter) option" where
  "delete_listed ac next_op st dl =
     (case next_op st (snd (dl_deleter dl)) of
        None \<Rightarrow> None
      | Some (item, st', w') \<Rightarrow>
          (let dl1 = dl\<lparr>dl_deleter := (fst (dl_deleter dl), w')\<rparr> in
           case item of
             None \<Rightarrow> Some (Ok (), dl1)
           | Some (Err e) \<Rightarrow> Some (Err e, dl1)
           | Some Panic \<Rightarrow> Some (Panic, dl1)
           | Some (Ok e) \<Rightarrow>
               (case dl_delete (deleter_deletes ac) (deleter_flushes ac) (di_from_entry e) dl1 of
                  (Ok u, dl2) \<Rightarrow> delete_listed ac next_op st' dl2
                | (Err err, dl2) \<Rightarrow> Some (Err err, dl2)
                | (Panic, dl2) \<Rightarrow> Some (Panic, dl2))))"

declare delete_listed.simps [code]

definition op_lister_with ::
  "('r, 'wr, 'l, 'd, 'w) access \<Rightarrow> string \<Rightarrow> op_list \<Rightarrow> 'w \<Rightarrow> 'l op_lister res \<times> 'w" where
  "op_lister_with ac path args w = ls_create ac (normalize_path path) args w"

definition op_list_with ::
  "bool \<Rightarrow> ('r, 'wr, 'l, 'd, 'w) access \<Rightarrow> string \<Rightarrow> op_list \<Rightarrow> 'w \<Rightarrow> (oio_entry list res \<times> 'w) option" where
  "op_list_with blk ac path args w =
     (case op_lister_with ac path args w of
        (Ok st, w1) \<Rightarrow> ls_collect (if blk then bls_next ac else ls_next ac) [] st w1
      | (Err e, w1) \<Rightarrow> Some (Err e, w1)
      | (Panic, w1) \<Rightarrow> Some (Panic, w1))"

definition op_check :: "('r, 'wr, 'l, 'd, 'w) access \<Rightarrow> 'w \<Rightarrow> (unit res \<times> 'w) option" where
  "op_check ac w =
     (case op_lister_with ac slash op_list_default w of
        (Ok st, w1) \<Rightarrow>
          map_option (\<lambda>(item, st', w').
            (case item of
               Some (Err e) \<Rightarrow> if err_kind e \<noteq> NotFound then Err e else Ok ()
             | Some Panic \<Rightarrow> Panic
             | _ \<Rightarrow> Ok (), w')) (ls_next ac st w1)
      | (Err e, w1) \<Rightarrow> Some (Err e, w1)
      | (Panic, w1) \<Rightarrow> Some (Panic, w1))"

text \<open>Delete everything below a path: the file itself, then what a recursive listing finds.\<close>

definition remove_listed ::
  "bool \<Rightarrow> ('r, 'wr, 'l, 'd, 'w) access \<Rightarrow> string \<Rightarrow> 'w \<Rightarrow> (unit res \<times> 'w) option" where
  "remove_listed blk ac path w =
     (case op_lister_with ac path (lo_with_recursive True op_list_default) w of
        (Ok st, w1) \<Rightarrow>
          (case op_deleter ac w1 of
             (Ok dl, w2) \<Rightarrow>
               (case delete_listed ac (if blk then bls_next ac else ls_next ac) st dl of
                  None \<Rightarrow> None
                | Some x \<Rightarrow> op_close_deleter ac x)
           | (Err e, w2) \<Rightarrow> Some (Err e, w2)
           | (Panic, w2) \<Rightarrow> Some (Panic, w2))
      | (Err e, w1) \<Rightarrow> Some (Err e, w1)
      | (Panic, w1) \<Rightarrow> Some (Panic, w1))"

definition op_remove_all ::
  "bool \<Rightarrow> ('r, 'wr, 'l, 'd, 'w) access \<Rightarrow> string \<Rightarrow> 'w \<Rightarrow> (unit res \<times> 'w) option" where
  "op_remove_all blk ac path w =
     (case op_stat_with ac path op_stat_default w of
        None \<Rightarrow> None
      | Some (Ok md, w1) \<Rightarrow>
          if md_mode md \<noteq> DIR
          then (case op_delete_with ac path od_default w1 of
                  (Ok u, w2) \<Rightarrow> remove_listed blk ac path w2
                | (Err e, w2) \<Rightarrow> Some (Err e, w2)
                | (Panic, w2) \<Rightarrow> Some (Panic, w2))
          else remove_listed blk ac path w1
      | Some (Err e, w1) \<Rightarrow> if err_kind e = NotFound then remove_listed blk ac path w1 else Some (Err e, w1)
      | Some (Panic, w1) \<Rightarrow> Some (Panic, w1))"


subsection \<open>Properties\<close>

definition rejected :: "error_kind \<Rightarrow> 'a res \<times> 'w \<Rightarrow> 'w \<Rightarrow> bool" where
  "rejected kind x w = (\<exists>e. x = (Err e, w) \<and> err_kind e = kind)"

lemma fold_context_kind: "err_kind (fold (\<lambda>(k, v). with_context k v) cs e) = err_kind e"
  by (induction cs arbitrary: e) auto

lemma op_error_kind [simp]: "err_kind (op_error kind msg operation info ctx) = kind"
  by (simp add: op_error_def fold_context_kind new_error_def del: fold_simps)

lemma validate_normalized:
  "validate_path (normalize_path p) FILE = Ok (\<not> ends_with (normalize_path p) CHR ''/'')"
  "validate_path (normalize_path p) DIR = Ok (ends_with (normalize_path p) CHR ''/'')"
  using normalized_path_nonempty [OF normalized_path_normalize, of p] by (simp_all add: validate_path_def)

lemma require_rejected:
  "validate_path p mode = Ok False \<Longrightarrow> err_kind err = kind \<Longrightarrow> rejected kind (require_path mode p err run w) w"
  by (simp add: require_path_def rejected_def)

lemma op_transfer_guards:
  "let f = normalize_path from; t = normalize_path to; x = op_transfer operation info call from to w in
     if ends_with f CHR ''/'' \<or> ends_with t CHR ''/'' then rejected IsADirectory x w
     else if f = t then rejected IsSameFile x w else x = call f t w"
  by (simp add: op_transfer_def require_path_def validate_normalized rejected_def step_unit Let_def)


end
