(* ===== verification/Memory.thy ===== *)
theory Memory
  imports Operators
begin

text \<open>
  The memory operator: what the operations of \<open>Operator\<close> do on the memory service (\<^verbatim>\<open>core/src/services/memory\<close>)
  behind the layers every operator has (\<^verbatim>\<open>core/src/types/operator/builder.rs\<close>). The service never fails, so these
  are total statements: the operation returns, with which result, and what the map holds then.
\<close>

subsection \<open>The memory operator\<close>

definition memory_root :: "string option \<Rightarrow> string" where
  "memory_root root = normalize_root (case root of Some r \<Rightarrow> r | None \<Rightarrow> [])"

lemma memory_access_root:
  "normalized_root (memory_root root)"
  "memory_access name root = tk_access mem_adapter ''memory'' name mem_capability (memory_root root)"
  using normalized_root_normalize by (auto simp: memory_access_def memory_root_def)

lemma tk_access_writer:
  "writer_writes (tk_access ad scheme name kc root) = (\<lambda>b (st, w). tw_write b st w)"
  "writer_closes (tk_access ad scheme name kc root) = (\<lambda>(st, w). tw_close ad st w)"
  by (simp_all add: tk_access_def)

text \<open>A new writer of the layered service holds nothing.\<close>

lemma layered_writer_starts:
  assumes "normalized_root r" "normalized_path path"
    and "ac_write (default_layers blk (tk_access ad scheme name kc r)) path op_write_default w = (Ok wr, w0)"
  shows "w0 = w \<and> (\<exists>x. wr = Some x \<and> tw_holds (kv_key r path) op_write_default w [] (ecw_inner x, w0))"
proof -
  have "wo_if_none_match op_write_default = None" "\<not> wo_append op_write_default" "\<not> wo_if_not_exists op_write_default"
    by (simp_all add: op_write_default_def)
  with assms show ?thesis
    by (auto simp: default_layers_def correctness_check_def cc_write_def complete_layer_def error_context_fields
        tk_access_def tk_write_def build_abs_path_key ec_call_def ecw_new_def tw_new_def tw_holds_def tw_queue_def Let_def)
qed

text \<open>
  What a writer of the memory service has committed is the content of the path, and nothing
  else has changed.
\<close>

lemma memory_committed:
  assumes "bt_ok m" "tw_committed mem_adapter k op m log (st, m1)" "list_all buf_wf log"
  shows "bt_ok m1 \<and> (\<exists>v. map_of m1 = (map_of m)(k \<mapsto> v) \<and> value_of op (concat (map buf_bytes log)) v)"
proof -
  obtain v where v: "ka_set mem_adapter k v m = (Inr (), m1)" "value_of op (concat (map buf_bytes log)) v"
    using assms(2,3) by (auto simp: tw_committed_def)
  then have "m1 = bt_insert k v m" by (simp add: mem_adapter_def mem_set_def)
  with v assms(1) show ?thesis by (auto simp: bt_insert_ok bt_insert_map)
qed

lemma value_content_length:
  "value_of op bs v \<Longrightarrow> content_length (kv_metadata v) = of_nat (length bs)"
  by (auto simp: value_of_def tw_metadata_def content_length_def set_content_length_def Let_def split: option.splits)

text \<open>A stored value is served to the readers of the layered memory service.\<close>

lemma memory_serves:
  assumes "bt_ok m" "normalized_root r" "normalized_path path" "\<not> ends_with path CHR ''/''"
    and "map_of m (kv_key r path) = Some v" "value_of op bs v" "length bs \<le> u64_max"
  shows "accessor (context_ops 2 (default_layers blk (tk_access mem_adapter scheme name kc r)) path op_read_default m)
    bs False False"
proof (rule layered_accessor)
  let ?ac = "tk_access mem_adapter scheme name kc r"
  have v: "buf_wf (kv_content v)" "buf_bytes (kv_content v) = bs" using assms(6) by (auto simp: value_of_def)
  have slash: "path \<noteq> slash" using assms(4) by (auto simp: slash_def ends_with_def)
  have get: "ka_get mem_adapter (kv_key r path) m = (Inr (Some v), m)"
    using assms(5) by (simp add: mem_adapter_def mem_get_def)
  have "accessor (snapshot ?ac path op_read_default m) (buf_bytes (kv_content v)) False False"
  proof (rule memt.snapshot_accessor [OF assms(1-3) slash assms(5) v(1)])
    show "content_length (kv_metadata v) = of_nat (length (buf_bytes (kv_content v)))"
      using value_content_length [OF assms(6)] v by simp
  qed (use assms(7) v get in auto)
  then show "accessor (snapshot ?ac path op_read_default m) bs False False" by (simp add: v)
  show "ac_reader_read ?ac = buffer_read" by (simp add: tk_access_def)
  show "br_inside rng bs" if "ac_read ?ac path (ro_with_range rng op_read_default) m = (Ok b, w')" for rng b w'
  proof (rule ccontr)
    assume "\<not> br_inside rng bs"
    with kv_read_outside [where content = kv_content, OF assms(2,3) get v(1), of "ro_with_range rng op_read_default"]
    show False using that v(2) assms(7) by (simp add: tk_access_def tk_read_def)
  qed
qed (use assms in auto)

text \<open>A step of the writer of the layered service.\<close>

lemma layered_writer_write:
  assumes "buf_len b \<le> u64_max" "unat (ecw_processed x) + buf_len b \<le> u64_max"
  shows "ac_writer_write (default_layers blk (tk_access ad scheme name kc r)) b (Some x) w =
    (Ok (), Some (x\<lparr>ecw_inner := (ecw_inner x)\<lparr>tw_buf := Some (queue_push b
        (case tw_buf (ecw_inner x) of None \<Rightarrow> queue_new | Some q \<Rightarrow> q))\<rparr>,
      ecw_processed := ecw_processed x + of_nat (buf_len b)\<rparr>), w)"
  using assms by (simp add: default_layers_def correctness_check_def complete_layer_def error_context_fields cpw_write_def
      ec_writer_write_def ec_counted_def tk_access_def tw_write_def u64_add_def guard_def unat_of_nat_u64 Let_def)

lemma layered_writer_close:
  assumes "tw_close ad (ecw_inner x) w = (Ok (), y, w')"
  shows "ac_writer_close (default_layers blk (tk_access ad scheme name kc r)) (Some x) w = (Ok (), None, w')"
  using assms by (simp add: default_layers_def correctness_check_def complete_layer_def error_context_fields cpw_close_def
      cpw_finish_def ec_writer_close_def ec_counted_def tk_access_def u64_add_def guard_def unat_u64_le Let_def)

subsection \<open>Writing\<close>

text \<open>The writer of the layered service counts what it was given, and fails only when the count overflows.\<close>

definition lw_holds ::
  "string \<Rightarrow> op_write \<Rightarrow> 'w \<Rightarrow> buffer list \<Rightarrow> tk_writer ec_wrapper option \<times> 'w \<Rightarrow> bool" where
  "lw_holds k op w0 log = (\<lambda>(st, w). \<exists>x. st = Some x \<and> tw_holds k op w0 log (ecw_inner x, w)
     \<and> (list_all buf_wf log \<and> length (log_bytes log) \<le> u64_max \<longrightarrow> unat (ecw_processed x) = length (log_bytes log)))"

lemma layered_write_Ok:
  assumes "ac_writer_write (default_layers blk (tk_access ad scheme name kc r)) b (Some x) w = (Ok (), st', w')"
  shows "\<exists>x'. st' = Some x' \<and> w' = w \<and> tw_write b (ecw_inner x) w = (Ok (), ecw_inner x', w)
    \<and> (buf_len b \<le> u64_max \<longrightarrow> unat (ecw_processed x') = unat (ecw_processed x) + buf_len b)"
  using assms by (auto simp: default_layers_def correctness_check_def complete_layer_def error_context_fields cpw_write_def
      ec_writer_write_def ec_counted_def tk_access_def tw_write_def u64_add_def guard_def unat_of_nat_u64 unat_u64_add Let_def
      split: if_splits)

lemma layered_write_not_Err:
  "ac_writer_write (default_layers blk (tk_access ad scheme name kc r)) b (Some x) w \<noteq> (Err e, st', w')"
  by (auto simp: default_layers_def correctness_check_def complete_layer_def error_context_fields cpw_write_def
      ec_writer_write_def ec_counted_def tk_access_def tw_write_def u64_add_def guard_def Let_def split: if_splits)


interpretation memw: oio_write_total
  "writer_writes (default_layers blk (tk_access mem_adapter scheme name kc r))"
  "writer_closes (default_layers blk (tk_access mem_adapter scheme name kc r))"
  "lw_holds k op m" "\<lambda>log (st, w). \<exists>x :: tk_writer ec_wrapper. tw_committed mem_adapter k op m log (ecw_inner x, w)" u64_max
  for blk scheme name kc r k op m
proof unfold_locales
  let ?ac = "default_layers blk (tk_access mem_adapter scheme name kc r)"
  fix log b and s s' :: "tk_writer ec_wrapper option \<times> kv_value btree_map"
  assume h: "lw_holds k op m log s" and w: "(case s of (wr, w) \<Rightarrow> ac_writer_write ?ac b wr w) = (Ok (), s')"
  obtain x w0 where s: "s = (Some x, w0)" "tw_holds k op m log (ecw_inner x, w0)"
    "list_all buf_wf log \<and> length (log_bytes log) \<le> u64_max \<longrightarrow> unat (ecw_processed x) = length (log_bytes log)"
    using h by (cases s) (auto simp: lw_holds_def)
  obtain x' where x': "s' = (Some x', w0)" "tw_write b (ecw_inner x) w0 = (Ok (), ecw_inner x', w0)"
    "buf_len b \<le> u64_max \<longrightarrow> unat (ecw_processed x') = unat (ecw_processed x) + buf_len b"
    using w s(1) by (cases s') (auto dest: layered_write_Ok)
  from tkw.write_Ok [OF s(2)] x'(2) have "tw_holds k op m (log @ [b]) (ecw_inner x', w0)" by simp
  with s(3) x'(1,3) show "lw_holds k op m (log @ [b]) s'" by (auto simp: lw_holds_def)
next
  let ?ac = "default_layers blk (tk_access mem_adapter scheme name kc r)"
  fix log b e and s s' :: "tk_writer ec_wrapper option \<times> kv_value btree_map"
  assume h: "lw_holds k op m log s" and w: "(case s of (wr, w) \<Rightarrow> ac_writer_write ?ac b wr w) = (Err e, s')"
  then obtain x w0 where "s = (Some x, w0)" by (cases s) (auto simp: lw_holds_def)
  with w have False by (cases s') (simp add: layered_write_not_Err)
  then show "lw_holds k op m log s'" ..
next
  let ?ac = "default_layers blk (tk_access mem_adapter scheme name kc r)"
  fix log and s s' :: "tk_writer ec_wrapper option \<times> kv_value btree_map"
  assume h: "lw_holds k op m log s" and c: "(case s of (wr, w) \<Rightarrow> ac_writer_close ?ac wr w) = (Ok (), s')"
  have "oio_write (writer_writes ?ac) (writer_closes ?ac)
      (\<lambda>log (st, w). \<exists>x. st = Some x \<and> tw_holds k op m log (ecw_inner x, w))
      (\<lambda>log (st, w). \<exists>x :: tk_writer ec_wrapper. tw_committed mem_adapter k op m log (ecw_inner x, w))"
    by (rule default_layers_writer, unfold tk_access_writer, rule tkw.oio_write_axioms)
  from oio_write.close_Ok [OF this _ c, of log] h
  show "case s' of (st, w) \<Rightarrow> \<exists>x :: tk_writer ec_wrapper. tw_committed mem_adapter k op m log (ecw_inner x, w)"
    by (auto simp: lw_holds_def)
next
  let ?ac = "default_layers blk (tk_access mem_adapter scheme name kc r)"
  fix log b and s :: "tk_writer ec_wrapper option \<times> kv_value btree_map"
  assume h: "lw_holds k op m log s" "list_all buf_wf (log @ [b])" "length (log_bytes (log @ [b])) \<le> u64_max"
  then obtain x where "s = (Some x, m)" "unat (ecw_processed x) = length (log_bytes log)"
    by (cases s) (auto simp: lw_holds_def tw_holds_def)
  with h show "\<exists>s'. (case s of (wr, w) \<Rightarrow> ac_writer_write ?ac b wr w) = (Ok (), s')"
    by (simp add: layered_writer_write)
next
  let ?ac = "default_layers blk (tk_access mem_adapter scheme name kc r)"
  fix log and s :: "tk_writer ec_wrapper option \<times> kv_value btree_map"
  assume h: "lw_holds k op m log s" "list_all buf_wf log"
  then obtain x where x: "s = (Some x, m)" "queue_wf (tw_queue (ecw_inner x))" "tw_value (ecw_inner x) = None"
    by (cases s) (auto simp: lw_holds_def tw_holds_def)
  from tw_build_value [OF x(2)] obtain v where "tw_build (ecw_inner x) = (Ok v, (ecw_inner x)\<lparr>tw_buf := None\<rparr>)" by blast
  with x(3) obtain y m' where "tw_close mem_adapter (ecw_inner x) m = (Ok (), y, m')"
    by (simp add: tw_close_def mem_adapter_def)
  from layered_writer_close [OF this] x(1) show "\<exists>s'. (case s of (wr, w) \<Rightarrow> ac_writer_close ?ac wr w) = (Ok (), s')"
    by simp
qed


subsection \<open>The operations of the operator\<close>

abbreviation memory_operator where
  "memory_operator blk name r \<equiv> default_layers blk (tk_access mem_adapter ''memory'' name mem_capability r)"

lemma memory_operator_root: "default_layers blk (memory_access name root) = memory_operator blk name (memory_root root)"
  by (simp add: memory_access_root(2))

definition plain_write :: "op_write \<Rightarrow> bool" where
  "plain_write args = (\<not> wo_append args \<and> \<not> wo_if_not_exists args \<and> wo_if_none_match args = None)"

lemma memory_capability:
  "cap_write_multi_max_size (ai_full_capability (ac_info (memory_operator blk name r))) = None"
  "cap_write_multi_min_size (ai_full_capability (ac_info (memory_operator blk name r))) = None"
  "cap_delete_max_size (ai_full_capability (ac_info (memory_operator blk name r))) = None"
  "cap_list_with_recursive (ai_full_capability (ac_info (memory_operator blk name r)))"
  by (simp_all add: default_layers_def correctness_check_def complete_layer_def complete_info_def error_context_fields
      tk_access_def kv_accessor_info_def set_native_capability_def tk_capability_def mem_capability_def
      capability_default_def Let_def)

lemma layered_write_opens:
  assumes "normalized_root r" "normalized_path path" "plain_write args"
  shows "ac_write (default_layers blk (tk_access ad scheme name kc r)) path args w =
    (Ok (Some (ecw_new scheme path (tw_new (kv_key r path) args))), w)"
  using assms by (simp add: default_layers_def correctness_check_def cc_write_def complete_layer_def error_context_fields
      tk_access_def kv_accessor_info_def set_native_capability_def tk_write_def build_abs_path_key ec_call_def
      plain_write_def Let_def)

lemma lw_holds_new: "lw_holds k args m [] (Some (ecw_new scheme path (tw_new k args)), m)"
  by (simp add: lw_holds_def tw_holds_def ecw_new_def tw_new_def tw_queue_def queue_new_def)

lemma validate_file: "normalized_path p \<Longrightarrow> validate_path p FILE = Ok (\<not> ends_with p CHR ''/'')"
  using normalized_path_nonempty [of p] by (simp add: validate_path_def)

lemma memory_write_done:
  assumes "bt_ok m" "normalized_root r" "\<not> ends_with (normalize_path path) CHR ''/''" "plain_write args"
    and "buf_wf bs" "length (buf_bytes bs) \<le> u64_max" "opw_chunk options \<noteq> Some 0"
  shows "\<exists>m1 v. op_write_with blk (memory_operator blk name r) path args options bs m = Some (Ok (), m1)
    \<and> bt_ok m1 \<and> map_of m1 = (map_of m)(kv_key r (normalize_path path) \<mapsto> v) \<and> value_of args (buf_bytes bs) v"
proof -
  let ?p = "normalize_path path" and ?op = "memory_operator blk name r"
  let ?k = "kv_key r ?p" and ?ce = "(opw_chunk options, opw_chunk options \<noteq> None)"
  have p: "normalized_path ?p" by (rule normalized_path_normalize)
  have ce: "calculate_chunk_size options (ai_full_capability (ac_info ?op)) = ?ce"
    by (cases "opw_chunk options") (simp_all add: calculate_chunk_size_def memory_capability or_else_def)
  obtain g g' where g: "writer_write (writer_writes ?op) bs (wg_create (Some (ecw_new ''memory'' ?p (tw_new ?k args)), m) ?ce) = Some (Ok (), g)"
    "wg_close (writer_writes ?op) (writer_closes ?op) g = (Ok (), g')"
    "wg_done (\<lambda>log (st, w). \<exists>x :: tk_writer ec_wrapper. tw_committed mem_adapter ?k args m log (ecw_inner x, w))
       (fst ?ce) (snd ?ce) (buf_bytes bs) (wg_w g')"
    using total_write_done [OF memw.oio_write_total_axioms lw_holds_new assms(5), of "snd ?ce" "fst ?ce"] assms(6,7)
    by fastforce
  then obtain log and x :: "tk_writer ec_wrapper" where log: "tw_committed mem_adapter ?k args m log (ecw_inner x, snd (wg_w g'))"
    "list_all buf_wf log" "log_bytes log = buf_bytes bs"
    by (cases "wg_w g'") (auto simp: wg_done_def)
  have "op_write_with blk ?op path args options bs m = Some (Ok (), snd (wg_w g'))"
    using assms(3) g(1,2) by (simp add: op_write_with_def require_path_def validate_file [OF p] writer_new_def
        layered_write_opens [OF assms(2) p assms(4)] ce)
  with memory_committed [OF assms(1) log(1,2)] log(3) show ?thesis by (auto simp: log_bytes_def)
qed


subsection \<open>Reading\<close>

lemma context_ops_range [simp]: "context_ops n ac path (ro_with_range rng args) w = context_ops n ac path args w"
  by (simp add: context_ops_def ro_with_range_def)

lemma range_bounds:
  assumes "br_inside rng content" "length content \<le> u64_max"
  shows "\<exists>sb eb s e. br_to_range rng = Ok (sb, eb) \<and> bounds_range sb eb (length content) = Some (s, e)
    \<and> e \<le> length content \<and> take (e - s) (drop s content) = br_select rng content"
proof (cases "br_size rng")
  case None
  with assms show ?thesis by (auto simp: br_to_range_def bounds_range_def br_inside_def br_select_def)
next
  case (Some n)
  with assms have le: "unat (br_offset rng) + unat n \<le> length content" by (simp add: br_inside_def)
  with assms(2) have "unat (br_offset rng) + unat n \<le> u64_max" by simp
  with Some le show ?thesis
    by (simp add: br_to_range_def bounds_range_def br_select_def u64_add_def unat_u64_add Let_def)
qed

lemma memory_read_exact:
  assumes "bt_ok m" "normalized_root r" "\<not> ends_with (normalize_path path) CHR ''/''"
    and "map_of m (kv_key r (normalize_path path)) = Some v" "value_of args bs v" "length bs \<le> u64_max"
    and "br_inside rng bs" "0 < or_concurrent opts" "or_chunk opts \<noteq> Some 0"
  shows "\<exists>b. op_read_with 2 (memory_operator blk name r) path (ro_with_range rng op_read_default) opts m = Some (Ok b, m)
    \<and> buf_bytes b = br_select rng bs"
proof -
  let ?p = "normalize_path path" and ?op = "memory_operator blk name r"
  have p: "normalized_path ?p" by (rule normalized_path_normalize)
  have acc: "accessor (context_ops 2 ?op ?p op_read_default m) bs False False"
    by (rule memory_serves [OF assms(1,2) p assms(3-6)])
  obtain sb eb s e where r: "br_to_range rng = Ok (sb, eb)" "bounds_range sb eb (length bs) = Some (s, e)"
    "e \<le> length bs" "take (e - s) (drop s bs) = br_select rng bs"
    using range_bounds [OF assms(7,6)] by blast
  from accessor.reader_read_cases [OF acc r(2) assms(8,9), of "()"] obtain rr where
    rr: "reader_read (context_ops 2 ?op ?p op_read_default m) opts sb eb () = Some (rr, ())"
    "case rr of Ok b \<Rightarrow> solid False b \<and> buf_bytes b = take (e - s) (drop s bs)
       | Err err \<Rightarrow> False | Panic \<Rightarrow> length bs < e" by auto
  with r(3,4) obtain b where "rr = Ok b" "buf_bytes b = br_select rng bs" by (cases rr) auto
  with rr(1) r(1) assms(3) show ?thesis by (simp add: op_read_with_def validate_file [OF p])
qed

lemma memory_stat_file:
  assumes "normalized_root r" "\<not> ends_with (normalize_path path) CHR ''/''"
  shows "op_stat_with (memory_operator blk name r) path op_stat_default m =
    Some (case map_of m (kv_key r (normalize_path path)) of
        Some v \<Rightarrow> Ok (kv_metadata v)
      | None \<Rightarrow> Err (ec_error (if blk then OpBlockingStat else OpStat)
          [(''service'', ''memory''), (''path'', normalize_path path)] kv_not_found), m)"
proof -
  let ?p = "normalize_path path" and ?ac = "tk_access mem_adapter ''memory'' name mem_capability r"
  have p: "normalized_path ?p" by (rule normalized_path_normalize)
  have slash: "?p \<noteq> slash" using assms(2) by (auto simp: slash_def ends_with_def)
  have "ac_stat ?ac ?p op_stat_default m = Some (case map_of m (kv_key r ?p) of
      Some v \<Rightarrow> Ok (kv_metadata v) | None \<Rightarrow> Err kv_not_found, m)"
    using assms(1) p slash normalized_path_nonempty [OF p]
    by (auto simp: tk_access_def tk_stat_def kv_stat_def build_abs_path_key build_abs_path_empty mem_adapter_def
        mem_get_def kv_key_def split: option.splits)
  then show ?thesis unfolding op_stat_with_def default_stat_file [OF assms(2)]
    by (simp add: ec_call_def tk_access_def kv_accessor_info_def set_native_capability_def split: option.splits)
qed


subsection \<open>Deleting\<close>

lemma layered_delete_opens:
  "\<exists>d. ac_delete (memory_operator blk name r) m = (Ok d, m) \<and> ecw_inner d = None \<and> ecw_processed d = 0"
  by (simp add: default_layers_def correctness_check_def complete_layer_def error_context_layer_def ec_call_def
      tk_access_def ecw_new_def Let_def)

lemma layered_delete_queue:
  "ecw_inner d = None \<Longrightarrow> ac_deleter_delete (memory_operator blk name r) p od_default d m =
     (Ok (), d\<lparr>ecw_inner := Some (p, od_default)\<rparr>, m)"
  by (simp add: default_layers_def correctness_check_def cc_delete_def complete_layer_def error_context_layer_def
      ec_deleter_delete_def ec_counted_def tk_access_def osd_delete_def od_default_def u64_add_def unat_u64_le Let_def)

lemma layered_delete_flush:
  assumes "normalized_root r" "ecw_inner d = q" "\<forall>p a. q = Some (p, a) \<longrightarrow> normalized_path p"
    and "q \<noteq> None \<longrightarrow> unat (ecw_processed d) < u64_max"
  shows "ac_deleter_flush (memory_operator blk name r) d m =
    (case q of
       None \<Rightarrow> (Ok 0, d, m)
     | Some (p, a) \<Rightarrow>
         (Ok 1, d\<lparr>ecw_inner := None, ecw_processed := ecw_processed d + 1\<rparr>, bt_remove (kv_key r p) m))"
proof (cases q)
  case None
  have "d\<lparr>ecw_inner := None\<rparr> = d" using assms(2) None by (cases d) simp
  with None assms(2) show ?thesis
    by (simp add: default_layers_def correctness_check_def complete_layer_def error_context_layer_def
      ec_deleter_flush_def ec_counted_def tk_access_def osd_flush_def u64_add_def unat_u64_le Let_def)
next
  case (Some x)
  then obtain p a where q: "q = Some (p, a)" by (cases x) simp
  with assms show ?thesis
    by (simp add: default_layers_def correctness_check_def complete_layer_def error_context_layer_def
      ec_deleter_flush_def ec_counted_def tk_access_def osd_flush_def kd_delete_once_def build_abs_path_key
      mem_adapter_def mem_delete_def u64_add_def Let_def)
qed

lemma memory_delete:
  assumes "normalized_root r"
  shows "op_delete_with (memory_operator blk name r) path od_default m =
    (Ok (), bt_remove (kv_key r (normalize_path path)) m)"
proof -
  obtain d where d: "ac_delete (memory_operator blk name r) m = (Ok d, m)" "ecw_inner d = None" "ecw_processed d = 0"
    using layered_delete_opens by blast
  then show ?thesis
    by (simp add: op_delete_with_def layered_delete_queue [OF d(2)]
        layered_delete_flush [OF assms refl, where d = "d\<lparr>ecw_inner := Some (normalize_path path, od_default)\<rparr>"]
        normalized_path_normalize u64_max_def)
qed


subsection \<open>Removing everything below a path\<close>

text \<open>A store whose keys below the root are those of paths.\<close>

definition paths_ok :: "string \<Rightarrow> 'v btree_map \<Rightarrow> bool" where
  "paths_ok r m = (bt_ok m \<and> (\<forall>k \<in> fst ` set m. starts_with k (drop 1 r) \<longrightarrow>
     (\<exists>p. normalized_path p \<and> p \<noteq> slash \<and> k = kv_key r p)))"

lemma paths_keys_ok: "normalized_root r \<Longrightarrow> paths_ok r m \<Longrightarrow> keys_ok r m"
  unfolding paths_ok_def keys_ok_def by (metis kv_key_ok)

definition below :: "string \<Rightarrow> string list \<Rightarrow> bool" where
  "below r keys = list_all (\<lambda>k. \<exists>p. normalized_path p \<and> p \<noteq> slash \<and> k = kv_key r p) keys"

lemma below_key_ok: "normalized_root r \<Longrightarrow> below r keys \<Longrightarrow> list_all (key_ok r) keys"
  by (auto simp: below_def list_all_iff intro: kv_key_ok)

lemma below_rel:
  assumes "normalized_root r" "below r (k # ks)"
  shows "normalized_path (rel_of r k)" "kv_key r (rel_of r k) = k" "below r ks"
proof -
  obtain p where "normalized_path p" "p \<noteq> slash" "k = kv_key r p" using assms(2) by (auto simp: below_def)
  with assms(1) show "normalized_path (rel_of r k)" "kv_key r (rel_of r k) = k" by (simp_all add: rel_of_key)
  show "below r ks" using assms(2) by (simp add: below_def)
qed

lemma paths_below: "paths_ok r m \<Longrightarrow> below r (mem_scan (kv_key r p) m)"
proof -
  assume ok: "paths_ok r m"
  then have "bt_ok m" by (simp add: paths_ok_def)
  moreover have "starts_with k (drop 1 r)" if "starts_with k (kv_key r p)" for k
    using that by (auto simp: kv_key_def starts_with_iff)
  ultimately show ?thesis using ok by (auto simp: mem_scan_filter below_def list_all_iff paths_ok_def)
qed

text \<open>The lister of the layered service.\<close>

lemma layered_next:
  assumes "normalized_root r" "below r keys" "hl_recursive h" "ecw_inner x = (keys, h)"
    and "unat (ecw_processed x) + length keys \<le> u64_max"
  shows "ac_lister_next (memory_operator blk name r) (LOne x) m =
    Some (case keys of
        [] \<Rightarrow> (Ok None, LOne x, m)
      | k # ks \<Rightarrow> (Ok (Some (index_entry (rel_of r k))), LOne (x\<lparr>ecw_inner := (ks, h), ecw_processed := ecw_processed x + 1\<rparr>), m))"
proof -
  let ?ac = "tk_access mem_adapter ''memory'' name mem_capability r"
  have n: "ac_lister_next ?ac (keys, h) m = Some (case keys of [] \<Rightarrow> (Ok None, ([], h), m)
      | v # vs \<Rightarrow> (Ok (Some (index_entry (rel_of r v))), (vs, h), m))"
    by (rule memory_next_recursive [OF assms(1) below_key_ok [OF assms(1,2)] assms(3)])
  have x: "x\<lparr>ecw_inner := ([], h)\<rparr> = x" if "keys = []" using assms(4) that by (cases x) simp
  have lt: "unat (ecw_processed x) + unat (1 :: u64) \<le> u64_max" if "keys \<noteq> []" using assms(5) that by (cases keys) auto
  from n x lt assms(4) show ?thesis
    by (cases keys) (simp_all add: default_layers_def correctness_check_def complete_layer_def error_context_fields ac_next_def
        ec_lister_next_def ec_counted_def u64_add_def unat_u64_le Let_def)
qed

lemma item_next:
  assumes "normalized_root r" "below r keys" "hl_recursive h" "ecw_inner x = (keys, h)"
    and "unat (ecw_processed x) + length keys \<le> u64_max" "\<not> ls_errored st" "ls_lister st = Some (LOne x)"
  shows "\<exists>st'. (if blk then bls_next else ls_next) (memory_operator blk name r) st m =
    (case keys of
        [] \<Rightarrow> Some (None, st', m)
      | k # ks \<Rightarrow> Some (Some (Ok (index_entry (rel_of r k))),
          st\<lparr>ls_lister := Some (LOne (x\<lparr>ecw_inner := (ks, h), ecw_processed := ecw_processed x + 1\<rparr>))\<rparr>, m))"
  using assms(6,7) layered_next [OF assms(1-5), of blk name m]
  by (cases keys) (auto simp: ls_next_def bls_next_def Let_def)

text \<open>What the map holds once the pending request of a deleter is carried out.\<close>

fun carried_out :: "string \<Rightarrow> request option \<Rightarrow> 'v btree_map \<Rightarrow> 'v btree_map" where
  "carried_out r None m = m"
| "carried_out r (Some (p, a)) m = bt_remove (kv_key r p) m"

definition del_ready :: "nat \<Rightarrow> (request option ec_wrapper \<times> 'v btree_map) deleter \<Rightarrow> bool" where
  "del_ready n dl = (let d = fst (dl_deleter dl) in
     dl_max_size dl = 1 \<and> dl_cur_size dl = (if ecw_inner d = None then 0 else 1)
     \<and> (\<forall>p a. ecw_inner d = Some (p, a) \<longrightarrow> normalized_path p) \<and> unat (ecw_processed d) + dl_cur_size dl + n \<le> u64_max)"

definition final_map :: "string \<Rightarrow> (request option ec_wrapper \<times> 'v btree_map) deleter \<Rightarrow> 'v btree_map" where
  "final_map r dl = carried_out r (ecw_inner (fst (dl_deleter dl))) (snd (dl_deleter dl))"

lemma deleter_flush_ready:
  assumes "normalized_root r" "del_ready n dl"
  shows "\<exists>k dl'. dl_flush (deleter_flushes (memory_operator blk name r)) dl = (Ok k, dl') \<and> del_ready n dl'
    \<and> dl_cur_size dl' = 0 \<and> ecw_inner (fst (dl_deleter dl')) = None \<and> snd (dl_deleter dl') = final_map r dl"
proof -
  obtain d w where dw: "dl_deleter dl = (d, w)" by fastforce
  have q: "\<forall>p a. ecw_inner d = Some (p, a) \<longrightarrow> normalized_path p"
    "ecw_inner d \<noteq> None \<longrightarrow> unat (ecw_processed d) < u64_max"
    using assms(2) dw by (auto simp: del_ready_def Let_def)
  note fl = layered_delete_flush [OF assms(1) refl q, of blk name w]
  show ?thesis
  proof (cases "ecw_inner d")
    case None
    then have "dl\<lparr>dl_deleter := (d, w), dl_cur_size := 0\<rparr> = dl" using assms(2) dw by (cases dl) (simp add: del_ready_def Let_def)
    with None fl assms(2) dw show ?thesis by (auto simp: dl_flush_def del_ready_def final_map_def Let_def)
  next
    case (Some x)
    then obtain p a where x: "ecw_inner d = Some (p, a)" by (cases x) simp
    have "unat (ecw_processed d + 1) = unat (ecw_processed d) + 1"
      using q(2) x unat_u64_add [of "ecw_processed d" 1] by simp
    with x fl assms(2) dw show ?thesis by (auto simp: dl_flush_def del_ready_def final_map_def Let_def)
  qed
qed


lemma deleter_delete_ready:
  assumes "normalized_root r" "del_ready (Suc n) dl" "normalized_path p"
  shows "\<exists>dl'. dl_delete (deleter_deletes (memory_operator blk name r)) (deleter_flushes (memory_operator blk name r))
      (di_from_entry (index_entry p)) dl = (Ok (), dl')
    \<and> del_ready n dl' \<and> final_map r dl' = bt_remove (kv_key r p) (final_map r dl)"
proof -
  let ?op = "memory_operator blk name r"
  have req: "di_from_entry (index_entry p) = \<lparr>di_path = p, di_version = None\<rparr>"
    by (simp add: di_from_entry_def index_entry_def metadata_new_def)
  obtain k d1 where d1: "(if dl_max_size dl \<le> dl_cur_size dl then dl_flush (deleter_flushes ?op) dl else (Ok 0, dl)) = (Ok k, d1)"
    "del_ready (Suc n) d1" "dl_cur_size d1 = 0" "ecw_inner (fst (dl_deleter d1)) = None" "snd (dl_deleter d1) = final_map r dl"
  proof (cases "dl_max_size dl \<le> dl_cur_size dl")
    case True
    with deleter_flush_ready [OF assms(1,2), of blk name] that show ?thesis by auto
  next
    case False
    with assms(2) have "dl_cur_size dl = 0" "ecw_inner (fst (dl_deleter dl)) = None"
      by (auto simp: del_ready_def Let_def split: if_splits)
    moreover from this have "final_map r dl = snd (dl_deleter dl)" by (simp add: final_map_def)
    ultimately show ?thesis using False assms(2) that by auto
  qed
  obtain d w where dw: "dl_deleter d1 = (d, w)" by fastforce
  let ?dl = "d1\<lparr>dl_deleter := (d\<lparr>ecw_inner := Some (p, od_default)\<rparr>, w), dl_cur_size := 1\<rparr>"
  have "dl_delete (deleter_deletes ?op) (deleter_flushes ?op) (di_from_entry (index_entry p)) dl = (Ok (), ?dl)"
    using d1(1,3,4) dw unfolding dl_delete_def req by (simp add: layered_delete_queue)
  moreover have "del_ready n ?dl" using d1(2,3) dw assms(3) by (auto simp: del_ready_def Let_def)
  moreover have "final_map r ?dl = bt_remove (kv_key r p) (final_map r dl)" using d1(5) dw by (simp add: final_map_def)
  ultimately show ?thesis by blast
qed

lemma delete_listed_keys:
  assumes "normalized_root r" "below r keys" "hl_recursive h" "ecw_inner x = (keys, h)"
    and "unat (ecw_processed x) + length keys \<le> u64_max" "\<not> ls_errored st" "ls_lister st = Some (LOne x)"
    and "del_ready (length keys) dl"
  shows "\<exists>dl'. delete_listed (memory_operator blk name r) ((if blk then bls_next else ls_next) (memory_operator blk name r)) st dl
      = Some (Ok (), dl') \<and> del_ready 0 dl' \<and> final_map r dl' = fold bt_remove keys (final_map r dl)"
  using assms(2,4-)
proof (induction keys arbitrary: x st dl)
  case Nil
  obtain st' where "(if blk then bls_next else ls_next) (memory_operator blk name r) st (snd (dl_deleter dl)) = Some (None, st', snd (dl_deleter dl))"
    using item_next [OF assms(1) Nil(1) assms(3) Nil(2-5), of blk name "snd (dl_deleter dl)"] by auto
  then show ?case using Nil(6) by (simp add: delete_listed.simps [of _ _ st] Let_def del_ready_def final_map_def)
next
  case (Cons k ks)
  let ?op = "memory_operator blk name r" and ?nx = "(if blk then bls_next else ls_next) (memory_operator blk name r)"
  let ?x = "x\<lparr>ecw_inner := (ks, h), ecw_processed := ecw_processed x + 1\<rparr>"
  note b = below_rel [OF assms(1) Cons.prems(1)]
  have nx: "?nx st (snd (dl_deleter dl)) = Some (Some (Ok (index_entry (rel_of r k))), st\<lparr>ls_lister := Some (LOne ?x)\<rparr>, snd (dl_deleter dl))"
    using item_next [OF assms(1) Cons.prems(1) assms(3) Cons.prems(2-5), of blk name "snd (dl_deleter dl)"] by simp
  obtain dl1 where dl1: "dl_delete (deleter_deletes ?op) (deleter_flushes ?op) (di_from_entry (index_entry (rel_of r k))) dl = (Ok (), dl1)"
    "del_ready (length ks) dl1" "final_map r dl1 = bt_remove k (final_map r dl)"
    using deleter_delete_ready [OF assms(1) _ b(1), of "length ks" dl blk name] Cons.prems(6) b(2) by auto
  have cnt: "unat (ecw_processed ?x) + length ks \<le> u64_max"
    using Cons.prems(3) unat_u64_add [of "ecw_processed x" 1] by simp
  from Cons.IH [OF b(3) _ cnt _ _ dl1(2), of "st\<lparr>ls_lister := Some (LOne ?x)\<rparr>"] Cons.prems(4) obtain dl' where
    "delete_listed ?op ?nx (st\<lparr>ls_lister := Some (LOne ?x)\<rparr>) dl1 = Some (Ok (), dl')" "del_ready 0 dl'"
    "final_map r dl' = fold bt_remove ks (final_map r dl1)" by auto
  moreover have "dl\<lparr>dl_deleter := (fst (dl_deleter dl), snd (dl_deleter dl))\<rparr> = dl" by simp
  ultimately show ?case using nx dl1(1,3) by (auto simp: delete_listed.simps [of _ _ st] Let_def)
qed

lemma fold_remove:
  "bt_ok m \<Longrightarrow> bt_ok (fold bt_remove keys m) \<and> map_of (fold bt_remove keys m) = map_of m |` (- set keys)"
proof (induction keys arbitrary: m)
  case (Cons k ks)
  then have "bt_ok (bt_remove k m)" "map_of (bt_remove k m) = (map_of m)(k := None)"
    by (simp_all add: bt_remove_ok bt_remove_map)
  with Cons.IH [of "bt_remove k m"] show ?case by (auto simp: restrict_map_def fun_eq_iff)
qed (simp add: restrict_map_def)

lemma layered_list_opens:
  assumes "normalized_root r"
  shows "\<exists>x. op_lister_with (memory_operator blk name r) path (lo_with_recursive True op_list_default) m
      = (Ok \<lparr>ls_lister = Some (LOne x), ls_errored = False\<rparr>, m)
    \<and> ecw_inner x = (mem_scan (kv_key r (normalize_path path)) m, hierarchy_new (normalize_path path) True) \<and> ecw_processed x = 0"
  using memory_list_opens [OF assms(1) normalized_path_normalize, of "''memory''" name mem_capability _ _ m] memory_capability(4) [of blk name r]
  by (simp add: op_lister_with_def ls_create_def default_layers_def correctness_check_def complete_layer_def complete_info_def
      complete_list_def error_context_fields ec_call_def ecw_new_def lo_with_recursive_def Let_def split: if_splits)

lemma memory_remove_listed:
  assumes "normalized_root r" "paths_ok r m" "length m \<le> u64_max"
  shows "\<exists>m'. remove_listed blk (memory_operator blk name r) path m = Some (Ok (), m') \<and> bt_ok m'
    \<and> map_of m' = map_of m |` {k. \<not> starts_with k (kv_key r (normalize_path path))}"
proof -
  let ?p = "normalize_path path" and ?op = "memory_operator blk name r" and ?la = "lo_with_recursive True op_list_default"
  let ?keys = "mem_scan (kv_key r ?p) m" and ?h = "hierarchy_new ?p True"
  have p: "normalized_path ?p" by (rule normalized_path_normalize)
  have ok: "bt_ok m" using assms(2) by (simp add: paths_ok_def)
  have len: "length ?keys \<le> length m" unfolding mem_scan_filter [OF ok] by (metis length_filter_le length_map)
  obtain x where x: "op_lister_with ?op path ?la m = (Ok \<lparr>ls_lister = Some (LOne x), ls_errored = False\<rparr>, m)"
    "ecw_inner x = (?keys, ?h)" "ecw_processed x = 0"
    using layered_list_opens [OF assms(1)] by blast
  obtain d where d: "ac_delete ?op m = (Ok d, m)" "ecw_inner d = None" "ecw_processed d = 0"
    using layered_delete_opens by blast
  let ?dl = "dl_create None (d, m)"
  have dl: "op_deleter ?op m = (Ok ?dl, m)" using d(1) by (simp add: op_deleter_def memory_capability)
  have "del_ready (length ?keys) ?dl" "final_map r ?dl = m"
    using d assms(3) len by (simp_all add: del_ready_def final_map_def dl_create_def)
  with delete_listed_keys [OF assms(1) paths_below [OF assms(2)] _ x(2), of "\<lparr>ls_lister = Some (LOne x), ls_errored = False\<rparr>" ?dl blk name]
    len assms(3) x(3)
  obtain dl' where dl': "delete_listed ?op ((if blk then bls_next else ls_next) ?op) \<lparr>ls_lister = Some (LOne x), ls_errored = False\<rparr> ?dl
      = Some (Ok (), dl')" "del_ready 0 dl'" "final_map r dl' = fold bt_remove ?keys m"
    by (auto simp: hierarchy_new_def)
  obtain j dl2 where dl2: "dl_flush (deleter_flushes ?op) dl' = (Ok j, dl2)" "dl_cur_size dl2 = 0" "snd (dl_deleter dl2) = fold bt_remove ?keys m"
    using deleter_flush_ready [OF assms(1) dl'(2), of blk name] dl'(3) by auto
  have nx: "(if blk then bls_next ?op else ls_next ?op) = (if blk then bls_next else ls_next) ?op" by simp
  have "remove_listed blk ?op path m = Some (Ok (), fold bt_remove ?keys m)"
    unfolding remove_listed_def nx using x(1) dl dl'(1) dl2
    by (simp add: op_close_deleter_def dl_close.simps [of _ dl'] split del: if_split)
  moreover have "map_of m |` (- set ?keys) = map_of m |` {k. \<not> starts_with k (kv_key r ?p)}"
    unfolding mem_scan_filter [OF ok] by (auto simp: restrict_map_def fun_eq_iff map_of_eq_None_iff)
  ultimately show ?thesis using fold_remove [OF ok] by auto
qed


lemma layered_stat_dir:
  assumes "normalized_root r" "paths_ok r m" "ends_with (normalize_path path) CHR ''/''"
  shows "\<exists>q. op_stat_with (memory_operator blk name r) path op_stat_default m = Some (q, m)
    \<and> (q = Ok (metadata_new DIR) \<or> (\<exists>e. q = Err e \<and> err_kind e = NotFound))
    \<and> (q = Ok (metadata_new DIR) \<longleftrightarrow> normalize_path path = slash \<or> mem_scan (kv_key r (normalize_path path)) m \<noteq> [])"
proof -
  let ?p = "normalize_path path" and ?ac = "tk_access mem_adapter ''memory'' name mem_capability r"
  let ?la = "lo_with_limit 1 (lo_with_recursive True op_list_default)" and ?keys = "mem_scan (kv_key r (normalize_path path)) m"
  have p: "normalized_path ?p" by (rule normalized_path_normalize)
  have stat: "op_stat_with (memory_operator blk name r) path op_stat_default m =
      complete_stat blk (error_context_layer blk ?ac) ?p op_stat_default m"
    by (simp add: op_stat_with_def default_layers_def correctness_check_def cc_stat_def checked_def cc_stat_args_def
        complete_layer_def op_stat_default_def)
  have cap: "\<not> cap_create_dir (ai_full_capability (ac_info ?ac))" "cap_list_with_recursive (ai_full_capability (ac_info ?ac))"
    by (simp_all add: tk_access_def kv_accessor_info_def set_native_capability_def tk_capability_def
        mem_capability_def capability_default_def)
  have h: "hl_recursive (hierarchy_new ?p (lo_recursive ?la))"
    by (simp add: hierarchy_new_def lo_with_limit_def lo_with_recursive_def)
  note nx = memory_next_recursive [OF assms(1) memory_keys_ok [OF paths_keys_ok [OF assms(1,2)], of ?p] h,
      of "''memory''" name mem_capability m, unfolded One_nat_def]

  note op = memory_list_opens [OF assms(1) p, of "''memory''" name mem_capability ?la m, unfolded One_nat_def]
  show ?thesis
  proof (cases "?p = slash")
    case True
    then show ?thesis unfolding stat by (simp add: complete_stat_def)
  next
    case False
    with assms(3) cap nx op show ?thesis unfolding stat
      by (cases ?keys) (simp_all add: complete_stat_def error_context_fields ec_call_def ec_lister_next_def ec_counted_def
          ecw_new_def u64_add_def u64_max_def new_error_def Let_def)
  qed
qed

lemma memory_remove_all_done:
  assumes "normalized_root r" "paths_ok r m" "length m \<le> u64_max"
  shows "\<exists>m'. op_remove_all blk (memory_operator blk name r) path m = Some (Ok (), m') \<and> bt_ok m'
    \<and> map_of m' = map_of m |` {k. \<not> starts_with k (kv_key r (normalize_path path))}"
proof -
  let ?op = "memory_operator blk name r" and ?k = "kv_key r (normalize_path path)"
  have ok: "bt_ok m" using assms(2) by (simp add: paths_ok_def)
  have listed: ?thesis if "op_remove_all blk ?op path m = remove_listed blk ?op path m"
    unfolding that by (rule memory_remove_listed [OF assms])
  show ?thesis
  proof (cases "ends_with (normalize_path path) CHR ''/''")
    case True
    from layered_stat_dir [OF assms(1,2) this, of blk name]
    have "op_remove_all blk ?op path m = remove_listed blk ?op path m"
      by (auto simp: op_remove_all_def metadata_new_def)
    then show ?thesis by (rule listed)
  next
    case False
    note st = memory_stat_file [OF assms(1) False, of blk name m]
    show ?thesis
    proof (cases "\<exists>v. map_of m ?k = Some v \<and> md_mode (kv_metadata v) \<noteq> DIR")
      case True
      let ?m = "bt_remove ?k m"
      have "fst ` set ?m \<subseteq> fst ` set m" using bt_remove_keys by blast
      then have ok': "paths_ok r ?m" using assms(2) bt_remove_ok [OF ok] unfolding paths_ok_def by blast
      have "length ?m \<le> length m" by (induction m) auto
      with memory_remove_listed [OF assms(1) ok', of blk name path] assms(3) obtain m' where
        m': "remove_listed blk ?op path ?m = Some (Ok (), m')" "bt_ok m'"
        "map_of m' = map_of ?m |` {k. \<not> starts_with k ?k}" by auto
      have "op_remove_all blk ?op path m = remove_listed blk ?op path ?m"
        using True st memory_delete [OF assms(1), of blk name path m] by (auto simp: op_remove_all_def)
      moreover have "map_of ?m |` {k. \<not> starts_with k ?k} = map_of m |` {k. \<not> starts_with k ?k}"
        by (auto simp: bt_remove_map [OF ok] restrict_map_def fun_eq_iff starts_with_def)
      ultimately show ?thesis using m' by auto
    next
      case False
      have "err_kind kv_not_found = NotFound" by (simp add: kv_not_found_def new_error_def)
      then have "op_remove_all blk ?op path m = remove_listed blk ?op path m"
        using False st by (cases "map_of m ?k") (auto simp: op_remove_all_def ec_error_def)
      then show ?thesis by (rule listed)
    qed
  qed
qed


subsection \<open>Listing\<close>

lemma ls_collect_keys:
  assumes "normalized_root r" "below r keys" "hl_recursive h" "ecw_inner x = (keys, h)"
    and "unat (ecw_processed x) + length keys \<le> u64_max" "\<not> ls_errored st" "ls_lister st = Some (LOne x)"
  shows "ls_collect ((if blk then bls_next else ls_next) (memory_operator blk name r)) acc st m
    = Some (Ok (acc @ map (index_entry \<circ> rel_of r) keys), m)"
  using assms(2,4-)
proof (induction keys arbitrary: x st acc)
  case Nil
  obtain st' where "(if blk then bls_next else ls_next) (memory_operator blk name r) st m = Some (None, st', m)"
    using item_next [OF assms(1) Nil(1) assms(3) Nil(2-5), of blk name m] by auto
  then show ?case by (simp add: ls_collect.simps [of _ _ st])
next
  case (Cons k ks)
  let ?nx = "(if blk then bls_next else ls_next) (memory_operator blk name r)"
  let ?x = "x\<lparr>ecw_inner := (ks, h), ecw_processed := ecw_processed x + 1\<rparr>"
  note b = below_rel [OF assms(1) Cons.prems(1)]
  have nx: "?nx st m = Some (Some (Ok (index_entry (rel_of r k))), st\<lparr>ls_lister := Some (LOne ?x)\<rparr>, m)"
    using item_next [OF assms(1) Cons.prems(1) assms(3) Cons.prems(2-5), of blk name m] by simp
  have cnt: "unat (ecw_processed ?x) + length ks \<le> u64_max"
    using Cons.prems(3) unat_u64_add [of "ecw_processed x" 1] by simp
  from Cons.IH [OF b(3) _ cnt, of "st\<lparr>ls_lister := Some (LOne ?x)\<rparr>" "acc @ [index_entry (rel_of r k)]"] Cons.prems(4)
  have "ls_collect ?nx (acc @ [index_entry (rel_of r k)]) (st\<lparr>ls_lister := Some (LOne ?x)\<rparr>) m
      = Some (Ok (acc @ index_entry (rel_of r k) # map (index_entry \<circ> rel_of r) ks), m)" by simp
  with nx show ?case by (simp add: ls_collect.simps [of _ _ st])
qed

lemma memory_list_recursive:
  assumes "normalized_root r" "paths_ok r m" "length m \<le> u64_max"
  shows "\<exists>es. op_list_with blk (memory_operator blk name r) path (lo_with_recursive True op_list_default) m = Some (Ok es, m)
    \<and> map oe_path es = filter (\<lambda>q. starts_with q (list_prefix (normalize_path path))) (stored_paths r m)"
proof -
  let ?op = "memory_operator blk name r" and ?p = "normalize_path path" and ?keys = "mem_scan (kv_key r (normalize_path path)) m"
  have ok: "bt_ok m" using assms(2) by (simp add: paths_ok_def)
  have len: "length ?keys \<le> length m" unfolding mem_scan_filter [OF ok] by (metis length_filter_le length_map)
  obtain x where x: "op_lister_with ?op path (lo_with_recursive True op_list_default) m = (Ok \<lparr>ls_lister = Some (LOne x), ls_errored = False\<rparr>, m)"
    "ecw_inner x = (?keys, hierarchy_new ?p True)" "ecw_processed x = 0"
    using layered_list_opens [OF assms(1)] by blast
  have nx: "(if blk then bls_next ?op else ls_next ?op) = (if blk then bls_next else ls_next) ?op" by simp
  have "ls_collect ((if blk then bls_next else ls_next) ?op) [] \<lparr>ls_lister = Some (LOne x), ls_errored = False\<rparr> m
      = Some (Ok (map (index_entry \<circ> rel_of r) ?keys), m)"
    using ls_collect_keys [OF assms(1) paths_below [OF assms(2)] _ x(2), of _ blk name "[]" m] x(3) len assms(3)
    by (simp add: hierarchy_new_def)
  then have "op_list_with blk ?op path (lo_with_recursive True op_list_default) m = Some (Ok (map (index_entry \<circ> rel_of r) ?keys), m)"
    unfolding op_list_with_def nx using x(1) by (simp split del: if_split)
  moreover have "map oe_path (map (index_entry \<circ> rel_of r) ?keys) = filter (\<lambda>q. starts_with q (list_prefix ?p)) (stored_paths r m)"
    by (simp only: index_entry_paths mem_scan_paths [OF ok assms(1) normalized_path_normalize])
  ultimately show ?thesis by blast
qed

lemma memory_create_dir:
  assumes "normalized_root r" "ends_with (normalize_path path) CHR ''/''"
  shows "\<exists>v. op_create_dir (memory_operator blk name r) path m = (Ok (), bt_insert (kv_key r (normalize_path path)) v m)
    \<and> value_of op_write_default [] v"
proof -
  let ?p = "normalize_path path" and ?ac = "tk_access mem_adapter ''memory'' name mem_capability r"
  have p: "normalized_path ?p" by (rule normalized_path_normalize)
  have v: "validate_path ?p DIR = Ok True" using assms(2) normalized_path_nonempty [OF p] by (simp add: validate_path_def)
  have cap: "\<not> cap_create_dir (ai_full_capability (ac_info ?ac))" "cap_write_can_empty (ai_full_capability (ac_info ?ac))"
    "cap_list (ai_full_capability (ac_info ?ac))" "cap_blocking (ai_full_capability (ac_info ?ac))"
    by (simp_all add: tk_access_def kv_accessor_info_def set_native_capability_def tk_capability_def
        mem_capability_def capability_default_def)
  let ?v = "\<lparr>kv_metadata = tw_metadata op_write_default buf_new, kv_content = buf_new\<rparr>"
  have "ac_write (error_context_layer blk ?ac) ?p op_write_default m = (Ok (ecw_new ''memory'' ?p (tw_new (kv_key r ?p) op_write_default)), m)"
    using p assms(1) by (simp add: error_context_fields ec_call_def tk_access_def tk_write_def build_abs_path_key
        kv_accessor_info_def set_native_capability_def)
  moreover have "\<exists>y. ac_writer_close (error_context_layer blk ?ac) (ecw_new ''memory'' ?p (tw_new (kv_key r ?p) op_write_default)) m
      = (Ok (), y, bt_insert (kv_key r ?p) ?v m)"
    by (simp add: error_context_fields ec_writer_close_def ec_counted_def tk_access_def tw_close_def tw_build_def tw_new_def ecw_new_def
        mem_adapter_def mem_set_def u64_add_def Let_def)
  ultimately have "op_create_dir (memory_operator blk name r) path m = (Ok (), bt_insert (kv_key r ?p) ?v m)"
    using cap v by (auto simp: op_create_dir_def require_path_def default_layers_def correctness_check_def complete_layer_def
        complete_create_dir_def error_context_fields Let_def)
  then show ?thesis by (auto simp: value_of_def)
qed

subsection \<open>The stores a user can reach\<close>

text \<open>The calls of an operator that change the store, with arguments as the user may give them.\<close>

inductive mem_step :: "bool \<Rightarrow> string \<Rightarrow> string \<Rightarrow> kv_value btree_map \<Rightarrow> kv_value btree_map \<Rightarrow> bool" for blk name r where
  put: "plain_write args \<Longrightarrow> buf_wf bs \<Longrightarrow> length (buf_bytes bs) \<le> u64_max \<Longrightarrow> opw_chunk options \<noteq> Some 0 \<Longrightarrow>
    \<not> ends_with (normalize_path path) CHR ''/'' \<Longrightarrow>
    op_write_with blk (memory_operator blk name r) path args options bs m = Some (res, m') \<Longrightarrow> mem_step blk name r m m'"
| create_dir: "normalize_path path \<noteq> slash \<Longrightarrow> op_create_dir (memory_operator blk name r) path m = (res, m') \<Longrightarrow>
    mem_step blk name r m m'"
| delete: "op_delete_with (memory_operator blk name r) path od_default m = (res, m') \<Longrightarrow> mem_step blk name r m m'"
| remove_all: "length m \<le> u64_max \<Longrightarrow> op_remove_all blk (memory_operator blk name r) path m = Some (res, m') \<Longrightarrow>
    mem_step blk name r m m'"


lemma paths_ok_insert:
  assumes "paths_ok r m" "normalized_path p" "p \<noteq> slash"
  shows "paths_ok r (bt_insert (kv_key r p) v m)"
  using assms unfolding paths_ok_def bt_insert_keys by (auto simp: bt_insert_ok)

lemma paths_ok_sub:
  assumes "paths_ok r m" "bt_ok m'" "dom (map_of m') \<subseteq> dom (map_of m)"
  shows "paths_ok r m'"
  using assms unfolding paths_ok_def dom_map_of_conv_image_fst by blast

lemma mem_step_paths_ok:
  assumes "mem_step blk name r m m'" "normalized_root r" "paths_ok r m"
  shows "paths_ok r m'"
  using assms(1)
proof (cases rule: mem_step.cases)
  case (put args bs options path res)
  have ok: "bt_ok m" using assms(3) by (simp add: paths_ok_def)
  obtain v where v: "bt_ok m'" "map_of m' = (map_of m)(kv_key r (normalize_path path) \<mapsto> v)"
    using memory_write_done [OF ok assms(2) put(5,1-4), of blk name] put(6) by auto
  have "normalize_path path \<noteq> slash" using put(5) by (auto simp: slash_def ends_with_def)
  with paths_ok_insert [OF assms(3) normalized_path_normalize, of path v] v show ?thesis
    by (auto intro!: paths_ok_sub [of r "bt_insert (kv_key r (normalize_path path)) v m" m'] simp: bt_insert_map split: if_splits)
next
  case (create_dir path res)
  show ?thesis
  proof (cases "ends_with (normalize_path path) CHR ''/''")
    case True
    from memory_create_dir [OF assms(2) True, of blk name m] create_dir paths_ok_insert [OF assms(3) normalized_path_normalize]
    show ?thesis by auto
  next
    case False
    with normalized_path_nonempty [OF normalized_path_normalize, of path] create_dir(2) have "m' = m"
      by (simp add: op_create_dir_def require_path_def validate_path_def)
    with assms(3) show ?thesis by simp
  qed
next
  case (delete path res)
  then have "m' = bt_remove (kv_key r (normalize_path path)) m" using memory_delete [OF assms(2)] by simp
  moreover have "bt_ok m" using assms(3) by (simp add: paths_ok_def)
  ultimately show ?thesis
    by (auto intro!: paths_ok_sub [OF assms(3)] simp: bt_remove_ok bt_remove_map split: if_splits)
next
  case (remove_all path res)
  with memory_remove_all_done [OF assms(2,3), of blk name path] show ?thesis
    by (auto intro!: paths_ok_sub [OF assms(3)] simp: restrict_map_def split: if_splits)
qed

subsection \<open>Properties\<close>

text \<open>
  C1. Writing and reading back through the operator, in full: \<open>write_with\<close> of a buffer to a file of a
  memory operator returns success, whatever the chunk size; after it \<open>read_with\<close> of any range inside the
  data, under any spelling of the path and with any chunking and concurrency, returns exactly the
  bytes of that range, the path exists, \<open>stat\<close> gives the length and the content type of the write,
  and no other key has changed.
\<close>

theorem memory_write_read:
  assumes "bt_ok m" "\<not> ends_with (normalize_path path) CHR ''/''" "normalize_path path' = normalize_path path"
    and "plain_write args" "buf_wf bs" "length (buf_bytes bs) \<le> u64_max" "opw_chunk options \<noteq> Some 0"
    and "br_inside rng (buf_bytes bs)" "0 < or_concurrent opts" "or_chunk opts \<noteq> Some 0"
    and "op = default_layers blk (memory_access name root)"
  shows "\<exists>m1 b md. op_write_with blk op path args options bs m = Some (Ok (), m1)
    \<and> op_read_with 2 op path' (ro_with_range rng op_read_default) opts m1 = Some (Ok b, m1)
    \<and> buf_bytes b = br_select rng (buf_bytes bs)
    \<and> op_stat_with op path' op_stat_default m1 = Some (Ok md, m1)
    \<and> content_length md = of_nat (length (buf_bytes bs)) \<and> md_content_type md = wo_content_type args
    \<and> op_exists op path' m1 = Some (Ok True, m1)
    \<and> (\<forall>k. k \<noteq> kv_key (memory_root root) (normalize_path path) \<longrightarrow> map_of m1 k = map_of m k)"
proof -
  let ?r = "memory_root root"
  have r: "normalized_root ?r" "op = memory_operator blk name ?r"
    using memory_access_root(1) assms(11) memory_operator_root by simp_all
  obtain m1 v where w: "op_write_with blk op path args options bs m = Some (Ok (), m1)" "bt_ok m1"
    "map_of m1 = (map_of m)(kv_key ?r (normalize_path path) \<mapsto> v)" "value_of args (buf_bytes bs) v"
    using memory_write_done [OF assms(1) r(1) assms(2,4-7)] r(2) by blast
  have p': "\<not> ends_with (normalize_path path') CHR ''/''" "map_of m1 (kv_key ?r (normalize_path path')) = Some v"
    using assms(2,3) w(3) by simp_all
  obtain b where b: "op_read_with 2 op path' (ro_with_range rng op_read_default) opts m1 = Some (Ok b, m1)"
    "buf_bytes b = br_select rng (buf_bytes bs)"
    using memory_read_exact [OF w(2) r(1) p' w(4) assms(6,8-10)] r(2) by blast
  have st: "op_stat_with op path' op_stat_default m1 = Some (Ok (kv_metadata v), m1)"
    using memory_stat_file [OF r(1) p'(1)] p'(2) r(2) by simp
  have "md_content_type (kv_metadata v) = wo_content_type args"
    using w(4) by (simp add: value_of_def tw_metadata_def set_content_length_def metadata_new_def Let_def split: option.splits)
  with w b st value_content_length [OF w(4)] show ?thesis by (auto simp: op_exists_def)
qed

theorem memory_write_read_witness:
  "\<exists>m1 b. op_write_with False (default_layers False (memory_access ''0x0'' None)) ''/a//f'' op_write_default
      \<lparr>opw_chunk = Some 2\<rparr> (Contiguous [1, 2, 3]) [] = Some (Ok (), m1)
    \<and> op_read_with 2 (default_layers False (memory_access ''0x0'' None)) ''a/f'' (ro_with_range (BytesRange 1 (Some 2)) op_read_default)
        \<lparr>or_concurrent = 2, or_chunk = Some 1, or_gap = None\<rparr> m1 = Some (Ok b, m1)
    \<and> buf_bytes b = [2, 3]"
proof -
  have p: "\<not> ends_with (normalize_path ''/a//f'') CHR ''/''" "normalize_path ''a/f'' = normalize_path ''/a//f''" by code_simp+
  have a: "plain_write op_write_default" by (simp add: plain_write_def op_write_default_def)
  from memory_write_read [OF bt_ok_Nil p a, where bs = "Contiguous [1, 2, 3]" and options = "\<lparr>opw_chunk = Some 2\<rparr>"
      and rng = "BytesRange 1 (Some 2)" and opts = "\<lparr>or_concurrent = 2, or_chunk = Some 1, or_gap = None\<rparr>", OF _ _ _ _ _ _ refl,
      where blk = False and name = "''0x0''" and root = None]
  obtain m1 b where "op_write_with False (default_layers False (memory_access ''0x0'' None)) ''/a//f'' op_write_default
      \<lparr>opw_chunk = Some 2\<rparr> (Contiguous [1, 2, 3]) [] = Some (Ok (), m1)"
    "op_read_with 2 (default_layers False (memory_access ''0x0'' None)) ''a/f'' (ro_with_range (BytesRange 1 (Some 2)) op_read_default)
        \<lparr>or_concurrent = 2, or_chunk = Some 1, or_gap = None\<rparr> m1 = Some (Ok b, m1)"
    "buf_bytes b = br_select (BytesRange 1 (Some 2)) [1, 2, 3]"
    by (auto simp: u64_max_def br_inside_def)
  moreover have "br_select (BytesRange 1 (Some 2)) [1, 2, 3] = [2, 3 :: 8 word]" by (simp add: br_select_def)
  ultimately show ?thesis by auto
qed

text \<open>
  Deleting through the operator. \<open>delete\<close> succeeds whether or not the path exists, removes its key
  and nothing else, after it the path does not exist and reading it reports \<open>NotFound\<close> from \<open>stat\<close>; deleting
  again changes nothing.
\<close>

theorem memory_delete_exact:
  assumes "bt_ok m" "\<not> ends_with (normalize_path path) CHR ''/''" "op = default_layers blk (memory_access name root)"
  shows "\<exists>m1. op_delete_with op path od_default m = (Ok (), m1) \<and> bt_ok m1
    \<and> map_of m1 = (map_of m)(kv_key (memory_root root) (normalize_path path) := None)
    \<and> op_exists op path m1 = Some (Ok False, m1)
    \<and> (\<exists>m2. op_delete_with op path od_default m1 = (Ok (), m2) \<and> map_of m2 = map_of m1)"
proof -
  let ?r = "memory_root root" and ?k = "kv_key (memory_root root) (normalize_path path)"
  have r: "normalized_root ?r" "op = memory_operator blk name ?r"
    using memory_access_root(1) assms(3) memory_operator_root by simp_all
  have d: "op_delete_with op path od_default w = (Ok (), bt_remove ?k w)" for w
    unfolding r(2) by (rule memory_delete [OF r(1)])
  have m1: "bt_ok (bt_remove ?k m)" "map_of (bt_remove ?k m) = (map_of m)(?k := None)"
    using bt_remove_ok [OF assms(1)] bt_remove_map [OF assms(1)] by simp_all
  have "err_kind kv_not_found = NotFound" by (simp add: kv_not_found_def new_error_def)
  then have "op_exists op path (bt_remove ?k m) = Some (Ok False, bt_remove ?k m)"
    using memory_stat_file [OF r(1) assms(2), of blk name "bt_remove ?k m"] r(2) m1(2) by (simp add: op_exists_def ec_error_def)
  with d m1 bt_remove_map [OF m1(1)] show ?thesis by auto
qed

theorem memory_delete_exact_witness:
  "\<exists>m1. op_delete_with (default_layers False (memory_access ''0x0'' None)) ''f'' od_default
      [(''f'', \<lparr>kv_metadata = metadata_new FILE, kv_content = buf_new\<rparr>), (''g'', \<lparr>kv_metadata = metadata_new FILE, kv_content = buf_new\<rparr>)]
      = (Ok (), m1) \<and> map_of m1 ''f'' = None \<and> map_of m1 ''g'' \<noteq> None"
proof -
  let ?v = "\<lparr>kv_metadata = metadata_new FILE, kv_content = buf_new\<rparr>"
  have p: "normalize_path ''f'' = ''f''" "kv_key (memory_root None) ''f'' = ''f''" by code_simp+
  have "bt_ok [(''f'', ?v), (''g'', ?v)]" "\<not> ends_with (normalize_path ''f'') CHR ''/''"
    by (simp_all add: p(1) ends_with_def bt_ok_def)
  from memory_delete_exact [OF this refl, of False "''0x0''" None] p show ?thesis by auto
qed



text \<open>
  \<open>remove_all\<close> of a file name takes more than its documentation says: it removes the path and
  all nested directories and files, but also every other file whose name merely begins with it.
\<close>

theorem remove_all_takes_siblings:
  "\<exists>m1. op_remove_all blk (default_layers blk (memory_access name None)) ''a''
      [(''a'', v), (''ab'', w)] = Some (Ok (), m1) \<and> map_of m1 = Map.empty"
proof -
  let ?m = "[(''a'', v), (''ab'', w)]" and ?n = "normalized_path"
  have p: "normalize_path ''a'' = ''a''" "kv_key slash ''a'' = ''a''" "memory_root None = slash" by code_simp+
  have n: "normalized_path ''a''" "normalized_path ''ab''"
    using normalized_path_path_of [of "[''a'']" False] normalized_path_path_of [of "[''ab'']" False] by simp_all
  have k: "kv_key slash ''ab'' = ''ab''" by code_simp
  have "\<exists>p. ?n p \<and> p \<noteq> slash \<and> ''a'' = kv_key slash p" "\<exists>p. ?n p \<and> p \<noteq> slash \<and> ''ab'' = kv_key slash p"
    using n k p(2) by (auto simp: slash_def intro: exI [of _ "''a''"] exI [of _ "''ab''"])
  then have ok: "paths_ok slash ?m" by (auto simp: paths_ok_def bt_ok_def)
  from memory_remove_all_done [OF memory_access_root(1), of None ?m blk name "''a''"] ok p memory_operator_root [of blk name None]
  show ?thesis by (auto simp: u64_max_def restrict_map_def starts_with_def fun_eq_iff)
qed



end
