(* ===== verification/PathCache.thy ===== *)
theory PathCache
  imports Paths
begin

text \<open>
  The path cache of services that address files by id (\<^verbatim>\<open>core/src/raw/path_cache.rs\<close>). The service is a parameter,
  a record of the methods of \<open>PathQuery\<close>; so is the cache, which is the \<^verbatim>\<open>moka\<close> crate's and may drop any entry at any time.
  What the code relies on is stated by \<open>id_service\<close> and \<open>lossy_cache\<close>. The optional lock makes every call run
  alone and leaves no other trace.

  The theorems compare the cached lookups with a walk over the tree of the service: they find the same ids, keep the
  cache consistent with the tree, and \<open>ensure_dir\<close> creates exactly what is missing.
\<close>

subsection \<open>The service and the cache\<close>

record 'w path_query =
  pq_root :: "'w \<Rightarrow> string res \<times> 'w"
  pq_query :: "string \<Rightarrow> string \<Rightarrow> 'w \<Rightarrow> string option res \<times> 'w"
  pq_create_dir :: "string \<Rightarrow> string \<Rightarrow> 'w \<Rightarrow> string res \<times> 'w"

record 'c cache_ops =
  ch_contains :: "string \<Rightarrow> 'c \<Rightarrow> bool \<times> 'c"
  ch_get :: "string \<Rightarrow> 'c \<Rightarrow> string option \<times> 'c"
  ch_insert :: "string \<Rightarrow> string \<Rightarrow> 'c \<Rightarrow> 'c"
  ch_invalidate :: "string \<Rightarrow> 'c \<Rightarrow> 'c"

subsection \<open>Operations\<close>

text \<open>A cached path with another id fails the debug assertion.\<close>

definition pc_insert :: "'c cache_ops \<Rightarrow> string \<Rightarrow> string \<Rightarrow> 'c \<Rightarrow> unit res \<times> 'c" where
  "pc_insert ch path i c =
     (case ch_contains ch path c of
        (True, c1) \<Rightarrow>
          (case ch_get ch path c1 of (v, c2) \<Rightarrow> (guard (v = Some i) (Ok ()), c2))
      | (False, c1) \<Rightarrow> (Ok (), ch_insert ch path i c1))"

definition pc_remove :: "'c cache_ops \<Rightarrow> string \<Rightarrow> 'c \<Rightarrow> 'c" where
  "pc_remove ch path c = ch_invalidate ch path c"

fun pc_query_down ::
  "'w path_query \<Rightarrow> 'c cache_ops \<Rightarrow> string \<Rightarrow> string list \<Rightarrow> 'c \<Rightarrow> 'w \<Rightarrow> string option res \<times> 'c \<times> 'w" where
  "pc_query_down q ch current_id [] c w = (Ok (Some current_id), c, w)"
| "pc_query_down q ch current_id (path # paths) c w =
     (case pq_query q current_id (get_basename path) w of
        (Ok (Some i), w') \<Rightarrow> pc_query_down q ch i paths (ch_insert ch path i c) w'
      | (Ok None, w') \<Rightarrow> (Ok None, c, w')
      | (Err e, w') \<Rightarrow> (Err e, c, w')
      | (Panic, w') \<Rightarrow> (Panic, c, w'))"

lemma get_parent_shorter: "p \<noteq> slash \<Longrightarrow> p \<noteq> [] \<Longrightarrow> get_parent p = slash \<or> length (get_parent p) < length p"
proof -
  assume p: "p \<noteq> slash" "p \<noteq> []"
  have "v + 1 < length p" if "\<not> ends_with p CHR ''/''" "rfind_char CHR ''/'' p = Some v" for v
  proof -
    have v: "v < length p" "p ! v = CHR ''/''" using that(2) by (simp_all add: rfind_char_Some)
    have "v \<noteq> length p - 1" using that(1) p(2) v(2) by (auto simp: ends_with_def last_conv_nth)
    with v(1) show ?thesis by simp
  qed
  with p show ?thesis
    by (auto simp: get_parent_def rfind_char_Some split: option.splits)
qed

text \<open>Climb to the nearest cached parent, and collect the paths on the way.\<close>

function pc_climb :: "'c cache_ops \<Rightarrow> string \<Rightarrow> string list \<Rightarrow> 'c \<Rightarrow> string option \<times> string list \<times> 'c" where
  "pc_climb ch current_path paths c =
     (if current_path = slash \<or> current_path = [] then (None, paths, c)
      else case ch_get ch (get_parent current_path) c of
          (Some i, c') \<Rightarrow> (Some i, current_path # paths, c')
        | (None, c') \<Rightarrow> pc_climb ch (get_parent current_path) (current_path # paths) c')"
  by pat_completeness auto
termination
  by (relation "measure (\<lambda>(ch, p, ps, c). if p = slash then 0 else Suc (length p))") (auto dest: get_parent_shorter)

declare pc_climb.simps [simp del]

definition pc_get ::
  "'w path_query \<Rightarrow> 'c cache_ops \<Rightarrow> string \<Rightarrow> 'c \<Rightarrow> 'w \<Rightarrow> string option res \<times> 'c \<times> 'w" where
  "pc_get q ch path c w =
     (case ch_get ch path c of
        (Some i, c1) \<Rightarrow> (Ok (Some i), c1, w)
      | (None, c1) \<Rightarrow>
          (case pc_climb ch path [] c1 of
             (Some i, paths, c2) \<Rightarrow> pc_query_down q ch i paths c2 w
           | (None, paths, c2) \<Rightarrow>
               (case pq_root q w of
                  (Ok root_id, w') \<Rightarrow> pc_query_down q ch root_id paths (ch_insert ch slash root_id c2) w'
                | (Err e, w') \<Rightarrow> (Err e, c2, w')
                | (Panic, w') \<Rightarrow> (Panic, c2, w'))))"

text \<open>\<open>ensure_dir\<close>: the parents to check, and the loop over them.\<close>

fun pc_parents :: "string \<Rightarrow> string list \<Rightarrow> string list" where
  "pc_parents tmp [] = []"
| "pc_parents tmp (component # components) =
     (if component = [] then pc_parents tmp components
      else (tmp @ component @ slash) # pc_parents (tmp @ component @ slash) components)"

definition pc_query_or_create ::
  "'w path_query \<Rightarrow> string \<Rightarrow> string \<Rightarrow> 'w \<Rightarrow> string res \<times> 'w" where
  "pc_query_or_create q parent_id name w =
     (case pq_query q parent_id name w of
        (Ok (Some value), w') \<Rightarrow> (Ok value, w')
      | (Ok None, w') \<Rightarrow> pq_create_dir q parent_id name w'
      | (Err e, w') \<Rightarrow> (Err e, w')
      | (Panic, w') \<Rightarrow> (Panic, w'))"

fun pc_ensure ::
  "'w path_query \<Rightarrow> 'c cache_ops \<Rightarrow> string \<Rightarrow> string list \<Rightarrow> 'c \<Rightarrow> 'w \<Rightarrow> string res \<times> 'c \<times> 'w" where
  "pc_ensure q ch parent_id [] c w = (Ok parent_id, c, w)"
| "pc_ensure q ch parent_id (parent # parents) c w =
     (case ch_get ch parent c of
        (Some value, c') \<Rightarrow> pc_ensure q ch value parents c' w
      | (None, c') \<Rightarrow>
          (case pc_query_or_create q parent_id (get_basename parent) w of
             (Ok value, w') \<Rightarrow> pc_ensure q ch value parents (ch_insert ch parent value c') w'
           | (Err e, w') \<Rightarrow> (Err e, c', w')
           | (Panic, w') \<Rightarrow> (Panic, c', w')))"

definition pc_ensure_dir ::
  "'w path_query \<Rightarrow> 'c cache_ops \<Rightarrow> string \<Rightarrow> 'c \<Rightarrow> 'w \<Rightarrow> string res \<times> 'c \<times> 'w" where
  "pc_ensure_dir q ch path c w =
     (let parents = pc_parents [] (split_on CHR ''/'' path) in
      case ch_get ch slash c of
        (Some v, c') \<Rightarrow> pc_ensure q ch v parents c' w
      | (None, c') \<Rightarrow>
          (case pq_root q w of
             (Ok v, w') \<Rightarrow> pc_ensure q ch v parents c' w'
           | (Err e, w') \<Rightarrow> (Err e, c', w')
           | (Panic, w') \<Rightarrow> (Panic, c', w')))"

subsection \<open>What the code relies on\<close>

text \<open>
  The service: a tree that maps the id of a directory and a name to an id. Looking up reads it, creating adds
  the child that was missing; a call that fails may have created it nevertheless.
\<close>

type_synonym id_tree = "string \<Rightarrow> string \<Rightarrow> string option"

definition tree_le :: "id_tree \<Rightarrow> id_tree \<Rightarrow> bool" where
  "tree_le t t' = (\<forall>i n v. t i n = Some v \<longrightarrow> t' i n = Some v)"

definition id_service :: "'w path_query \<Rightarrow> string \<Rightarrow> ('w \<Rightarrow> id_tree) \<Rightarrow> bool" where
  "id_service q root tree =
     ((\<forall>w r w'. pq_root q w = (r, w') \<longrightarrow> tree w' = tree w \<and> (\<forall>i. r = Ok i \<longrightarrow> i = root))
      \<and> (\<forall>i n w r w'. pq_query q i n w = (r, w') \<longrightarrow> tree w' = tree w \<and> (\<forall>x. r = Ok x \<longrightarrow> x = tree w i n))
      \<and> (\<forall>i n w r w'. tree w i n = None \<longrightarrow> pq_create_dir q i n w = (r, w') \<longrightarrow>
           (\<exists>v. tree w' = (tree w)(i := (tree w i)(n := v)) \<and> (\<forall>x. r = Ok x \<longrightarrow> v = Some x))))"

text \<open>The cache: it returns only what was inserted last, and may forget.\<close>

definition lossy_cache :: "'c cache_ops \<Rightarrow> ('c \<Rightarrow> string \<rightharpoonup> string) \<Rightarrow> bool" where
  "lossy_cache ch view =
     ((\<forall>k c b c'. ch_contains ch k c = (b, c') \<longrightarrow> view c' \<subseteq>\<^sub>m view c)
      \<and> (\<forall>k c r c'. ch_get ch k c = (r, c') \<longrightarrow> view c' \<subseteq>\<^sub>m view c \<and> (\<forall>v. r = Some v \<longrightarrow> view c k = Some v))
      \<and> (\<forall>k v c. view (ch_insert ch k v c) \<subseteq>\<^sub>m (view c)(k \<mapsto> v))
      \<and> (\<forall>k c. view (ch_invalidate ch k c) \<subseteq>\<^sub>m (view c)(k := None)))"

text \<open>The reference: walk down from the root.\<close>

function resolve :: "id_tree \<Rightarrow> string \<Rightarrow> string \<Rightarrow> string option" where
  "resolve t root p =
     (if p = slash \<or> p = [] then Some root
      else case resolve t root (get_parent p) of None \<Rightarrow> None | Some i \<Rightarrow> t i (get_basename p))"
  by pat_completeness auto
termination
  by (relation "measure (\<lambda>(t, r, p). if p = slash then 0 else Suc (length p))") (auto dest: get_parent_shorter)

declare resolve.simps [simp del]

definition consistent :: "id_tree \<Rightarrow> string \<Rightarrow> (string \<rightharpoonup> string) \<Rightarrow> bool" where
  "consistent t root m = (\<forall>k v. m k = Some v \<longrightarrow> resolve t root k = Some v)"

lemma consistent_sub: "consistent t root m \<Longrightarrow> m' \<subseteq>\<^sub>m m \<Longrightarrow> consistent t root m'"
  by (fastforce simp: consistent_def map_le_def dom_def)

lemma consistent_insert:
  "consistent t root m \<Longrightarrow> resolve t root k = Some v \<Longrightarrow> m' \<subseteq>\<^sub>m m(k \<mapsto> v) \<Longrightarrow> consistent t root m'"
  by (rule consistent_sub) (auto simp: consistent_def)

lemma resolve_root [simp]: "resolve t root slash = Some root" "resolve t root [] = Some root"
  by (simp_all add: resolve.simps)

lemma resolve_mono: "tree_le t t' \<Longrightarrow> resolve t root p = Some i \<Longrightarrow> resolve t' root p = Some i"
proof (induction t root p arbitrary: i rule: resolve.induct)
  case (1 t root p)
  show ?case
  proof (cases "p = slash \<or> p = []")
    case True
    with 1 show ?thesis by (auto simp: resolve.simps)
  next
    case False
    with 1 show ?thesis
      by (auto simp: resolve.simps [of _ root p] tree_le_def split: option.splits)
  qed
qed

lemma consistent_mono: "tree_le t t' \<Longrightarrow> consistent t root m \<Longrightarrow> consistent t' root m"
  by (auto simp: consistent_def dest: resolve_mono)


subsection \<open>Walks along a path\<close>

text \<open>Each path of a chain is a child of the one before.\<close>

fun chain :: "string \<Rightarrow> string list \<Rightarrow> bool" where
  "chain s [] = True"
| "chain s (p # ps) = (get_parent p = s \<and> p \<noteq> slash \<and> p \<noteq> [] \<and> chain p ps)"

lemma resolve_child:
  "get_parent p = s \<Longrightarrow> p \<noteq> slash \<Longrightarrow> p \<noteq> [] \<Longrightarrow>
     resolve t root p = (case resolve t root s of None \<Rightarrow> None | Some i \<Rightarrow> t i (get_basename p))"
  by (simp add: resolve.simps [of t root p])

lemma chain_None: "chain s ps \<Longrightarrow> resolve t root s = None \<Longrightarrow> resolve t root (last (s # ps)) = None"
  by (induction ps arbitrary: s) (auto simp: resolve_child split: if_splits)

lemma lossy_insert: "lossy_cache ch view \<Longrightarrow> view (ch_insert ch k v c) \<subseteq>\<^sub>m (view c)(k \<mapsto> v)"
  by (simp add: lossy_cache_def)

lemma lossy_get:
  "lossy_cache ch view \<Longrightarrow> ch_get ch k c = (r, c') \<Longrightarrow> view c' \<subseteq>\<^sub>m view c \<and> (\<forall>v. r = Some v \<longrightarrow> view c k = Some v)"
  unfolding lossy_cache_def by blast

lemma service_root:
  "id_service q root tree \<Longrightarrow> pq_root q w = (r, w') \<Longrightarrow> tree w' = tree w \<and> (\<forall>i. r = Ok i \<longrightarrow> i = root)"
  by (drule id_service_def [THEN iffD1, THEN conjunct1]) (drule spec, drule spec, drule spec, erule (1) mp)

lemma service_query:
  "id_service q root tree \<Longrightarrow> pq_query q i n w = (r, w') \<Longrightarrow> tree w' = tree w \<and> (\<forall>x. r = Ok x \<longrightarrow> x = tree w i n)"
  by (drule id_service_def [THEN iffD1, THEN conjunct2, THEN conjunct1])
    (drule spec, drule spec, drule spec, drule spec, drule spec, erule (1) mp)

lemma service_create:
  "id_service q root tree \<Longrightarrow> tree w i n = None \<Longrightarrow> pq_create_dir q i n w = (r, w') \<Longrightarrow>
     \<exists>v. tree w' = (tree w)(i := (tree w i)(n := v)) \<and> (\<forall>x. r = Ok x \<longrightarrow> v = Some x)"
  by (drule id_service_def [THEN iffD1, THEN conjunct2, THEN conjunct2])
    (drule spec, drule spec, drule spec, drule spec, drule spec, drule (1) mp, erule (1) mp)

lemma query_down_spec:
  assumes "id_service q root tree" "lossy_cache ch view"
    and "chain s ps" "resolve (tree w) root s = Some i" "consistent (tree w) root (view c)"
    and "pc_query_down q ch i ps c w = (r, c', w')"
  shows "tree w' = tree w \<and> consistent (tree w) root (view c') \<and> (\<forall>x. r = Ok x \<longrightarrow> x = resolve (tree w) root (last (s # ps)))"
  using assms(3-)
proof (induction ps arbitrary: s i c w)
  case (Cons p ps)
  obtain y w1 where y: "pq_query q i (get_basename p) w = (y, w1)" by fastforce
  then have t: "tree w1 = tree w" "\<And>x. y = Ok x \<Longrightarrow> x = tree w i (get_basename p)"
    using service_query [OF assms(1)] by auto
  have child: "resolve (tree w) root p = tree w i (get_basename p)"
    using Cons.prems(1,2) resolve_child [of p s] by simp
  show ?case
  proof (cases y)
    case (Ok o')
    show ?thesis
    proof (cases o')
      case None
      with Ok t(2) child have "resolve (tree w) root p = None" by simp
      with chain_None [of p ps] Cons.prems(1) have "resolve (tree w) root (last (p # ps)) = None" by simp
      with Cons.prems(3,4) y Ok None t show ?thesis by auto
    next
      case (Some v)
      with Ok t(2) child have p: "resolve (tree w1) root p = Some v" using t(1) by simp
      have "consistent (tree w1) root (view (ch_insert ch p v c))"
        using consistent_insert [OF Cons.prems(3) _ lossy_insert [OF assms(2)]] p t(1) by simp
      from Cons.IH [OF _ p this] Cons.prems(1,4) y Ok Some t(1) show ?thesis by auto
    qed
  qed (use Cons.prems(3,4) y t in auto)
qed auto

lemma climb_spec:
  "lossy_cache ch view \<Longrightarrow> chain current_path paths \<Longrightarrow> consistent t root (view c) \<Longrightarrow>
    pc_climb ch current_path paths c = (o', ps, c') \<Longrightarrow>
    consistent t root (view c') \<and> (\<exists>s. chain s ps \<and> last (s # ps) = last (current_path # paths)
      \<and> resolve t root s = Some (case o' of Some i \<Rightarrow> i | None \<Rightarrow> root))"
proof (induction ch current_path paths c rule: pc_climb.induct)
  case (1 ch p paths c)
  show ?case
  proof (cases "p = slash \<or> p = []")
    case True
    with 1(5) have "o' = None" "ps = paths" "c' = c" by (simp_all add: pc_climb.simps [of ch p])
    with 1(3,4) True show ?thesis by (intro conjI exI [of _ p]) auto
  next
    case False
    obtain y c1 where y: "ch_get ch (get_parent p) c = (y, c1)" by fastforce
    note v = lossy_get [OF 1(2) y, THEN conjunct1] lossy_get [OF 1(2) y, THEN conjunct2]
    have con: "consistent t root (view c1)" by (rule consistent_sub [OF 1(4) v(1)])
    have ch: "chain (get_parent p) (p # paths)" using 1(3) False by simp
    show ?thesis
    proof (cases y)
      case None
      from 1(1) [OF False y [symmetric] None 1(2) ch con] 1(5) False y None show ?thesis
        by (simp add: pc_climb.simps [of ch p])
    next
      case (Some i)
      then have "resolve t root (get_parent p) = Some i" using v(2) 1(4) by (simp add: consistent_def)
      moreover have "o' = Some i" "ps = p # paths" "c' = c1" using 1(5) False y Some by (simp_all add: pc_climb.simps [of ch p])
      ultimately show ?thesis using con ch by (intro conjI exI [of _ "get_parent p"]) auto
    qed
  qed
qed

lemma pc_get_spec:
  assumes "id_service q root tree" "lossy_cache ch view" "consistent (tree w) root (view c)"
    and "pc_get q ch path c w = (r, c', w')"
  shows "tree w' = tree w \<and> consistent (tree w) root (view c') \<and> (\<forall>x. r = Ok x \<longrightarrow> x = resolve (tree w) root path)"
proof -
  obtain y c1 where y: "ch_get ch path c = (y, c1)" by fastforce
  note v = lossy_get [OF assms(2) y, THEN conjunct1] lossy_get [OF assms(2) y, THEN conjunct2]
  have con: "consistent (tree w) root (view c1)" by (rule consistent_sub [OF assms(3) v(1)])
  show ?thesis
  proof (cases y)
    case (Some i)
    with v(2) assms(3) have "resolve (tree w) root path = Some i" by (auto simp: consistent_def)
    with assms(4) y Some con show ?thesis by (auto simp: pc_get_def)
  next
    case None
    obtain o' ps c2 where cl: "pc_climb ch path [] c1 = (o', ps, c2)" by (metis prod_cases3)
    from climb_spec [OF assms(2) _ con cl] obtain s where s: "consistent (tree w) root (view c2)" "chain s ps"
      "last (s # ps) = path" "resolve (tree w) root s = Some (case o' of Some i \<Rightarrow> i | None \<Rightarrow> root)" by auto
    show ?thesis
    proof (cases o')
      case (Some i)
      with query_down_spec [OF assms(1,2) s(2) _ s(1), of i r c' w'] s(3,4) assms(4) y None cl show ?thesis
        by (simp add: pc_get_def)
    next
      case no: None
      obtain z w1 where z: "pq_root q w = (z, w1)" by fastforce
      then have t: "tree w1 = tree w" "\<And>i. z = Ok i \<Longrightarrow> i = root" using service_root [OF assms(1)] by auto
      have con2: "consistent (tree w1) root (view (ch_insert ch slash root c2))"
        using consistent_insert [OF s(1) _ lossy_insert [OF assms(2)]] t(1) by simp
      show ?thesis
      proof (cases z)
        case (Ok i)
        with t(2) query_down_spec [OF assms(1,2) s(2) _ con2, of root r c' w'] s(3,4) assms(4) y None cl no z t(1)
        show ?thesis by (simp add: pc_get_def)
      qed (use assms(4) y None cl no z t s in \<open>auto simp: pc_get_def\<close>)
    qed
  qed
qed

subsection \<open>Creating directories\<close>

lemma query_or_create_spec:
  assumes "id_service q root tree" "pc_query_or_create q i n w = (r, w')"
  shows "tree_le (tree w) (tree w') \<and> (\<forall>v. r = Ok v \<longrightarrow> tree w' i n = Some v) \<and> (tree w i n \<noteq> None \<longrightarrow> tree w' = tree w)"
proof -
  obtain y w1 where y: "pq_query q i n w = (y, w1)" by fastforce
  then have t: "tree w1 = tree w" "\<And>x. y = Ok x \<Longrightarrow> x = tree w i n" using service_query [OF assms(1)] by auto
  show ?thesis
  proof (cases "y = Ok None")
    case True
    then have none: "tree w1 i n = None" "pq_create_dir q i n w1 = (r, w')" "tree w i n = None"
      using assms(2) y t by (auto simp: pc_query_or_create_def)
    from service_create [OF assms(1) none(1,2)] obtain v where
      "tree w' = (tree w1)(i := (tree w1 i)(n := v))" "\<forall>x. r = Ok x \<longrightarrow> v = Some x" by blast
    with none t(1) show ?thesis by (auto simp: tree_le_def)
  next
    case False
    then have "w' = w1 \<and> (\<forall>v. r = Ok v \<longrightarrow> y = Ok (Some v))"
      using assms(2) y by (auto simp: pc_query_or_create_def split: outcome.splits option.splits)
    with t(1) t(2) show ?thesis by (force simp: tree_le_def)
  qed
qed

lemma chain_Some: "chain s ps \<Longrightarrow> resolve t root (last (s # ps)) \<noteq> None \<Longrightarrow> resolve t root s \<noteq> None"
  using chain_None by fastforce

lemma ensure_spec:
  assumes "id_service q root tree" "lossy_cache ch view"
    and "chain s ps" "resolve (tree w) root s = Some i" "consistent (tree w) root (view c)"
    and "pc_ensure q ch i ps c w = (r, c', w')"
  shows "tree_le (tree w) (tree w') \<and> consistent (tree w') root (view c')
    \<and> (\<forall>x. r = Ok x \<longrightarrow> resolve (tree w') root (last (s # ps)) = Some x)
    \<and> (resolve (tree w) root (last (s # ps)) \<noteq> None \<longrightarrow> tree w' = tree w)"
  using assms(3-)
proof (induction ps arbitrary: s i c w)
  case Nil
  then show ?case by (auto simp: tree_le_def)
next
  case (Cons p ps)
  obtain y c1 where y: "ch_get ch p c = (y, c1)" by fastforce
  note v = lossy_get [OF assms(2) y, THEN conjunct1] lossy_get [OF assms(2) y, THEN conjunct2]
  have con: "consistent (tree w) root (view c1)" by (rule consistent_sub [OF Cons.prems(3) v(1)])
  have ch: "chain p ps" using Cons.prems(1) by simp
  show ?case
  proof (cases y)
    case (Some j)
    then have "resolve (tree w) root p = Some j" using v(2) Cons.prems(3) by (auto simp: consistent_def)
    from Cons.IH [OF ch this con] Cons.prems(4) y Some show ?thesis by simp
  next
    case None
    obtain z w1 where z: "pc_query_or_create q i (get_basename p) w = (z, w1)" by fastforce
    note qc = query_or_create_spec [OF assms(1) z]
    have child: "resolve t root p = (case resolve t root s of None \<Rightarrow> None | Some j \<Rightarrow> t j (get_basename p))" for t
      using Cons.prems(1) resolve_child by simp
    have keep: "tree w1 = tree w" if "resolve (tree w) root (last (s # p # ps)) \<noteq> None"
      using chain_Some [OF ch, of "tree w" root] that child [of "tree w"] Cons.prems(2) qc by simp
    show ?thesis
    proof (cases z)
      case (Ok j)
      then have p: "resolve (tree w1) root p = Some j"
        using qc child [of "tree w1"] resolve_mono [of "tree w" "tree w1"] Cons.prems(2) by simp
      have "consistent (tree w1) root (view (ch_insert ch p j c1))"
        using consistent_insert [OF consistent_mono [OF _ con] p lossy_insert [OF assms(2)]] qc by simp
      from Cons.IH [OF ch p this] Cons.prems(4) y None z Ok have
        w': "tree_le (tree w1) (tree w')" "consistent (tree w') root (view c')"
        "\<forall>x. r = Ok x \<longrightarrow> resolve (tree w') root (last (p # ps)) = Some x"
        "resolve (tree w1) root (last (p # ps)) \<noteq> None \<longrightarrow> tree w' = tree w1" by simp_all
      have "tree_le (tree w) (tree w')" using qc w'(1) by (simp add: tree_le_def)
      moreover have "last (s # p # ps) = last (p # ps)" by simp
      ultimately show ?thesis using w' keep by metis
    qed (use Cons.prems(4) y None z qc keep consistent_mono [OF _ con] in auto)
  qed
qed

lemma pc_parents_chain:
  "segments (ys @ xs) \<Longrightarrow>
     (let s = (if ys = [] then slash else path_of ys True); ps = pc_parents (if ys = [] then [] else path_of ys True) xs in
      chain s ps \<and> last (s # ps) = (if ys @ xs = [] then slash else path_of (ys @ xs) True))"
proof (induction xs arbitrary: ys)
  case (Cons x xs)
  let ?tmp = "if ys = [] then [] else path_of ys True"
  have t: "?tmp @ x @ slash = path_of (ys @ [x]) True" by (simp add: path_of_snoc)
  have s: "segments (ys @ [x])" using Cons.prems by simp
  have "get_parent (path_of (ys @ [x]) True) = (if ys = [] then slash else path_of ys True)" by (rule get_parent_path_of [OF s])
  moreover have "path_of (ys @ [x]) True \<noteq> slash" "path_of (ys @ [x]) True \<noteq> []" using s by simp_all
  moreover have "x \<noteq> []" using Cons.prems by simp
  ultimately show ?case using Cons.IH [of "ys @ [x]"] Cons.prems t by (simp add: Let_def)
qed (simp add: Let_def)

lemma pc_parents_skip: "pc_parents tmp (xs @ [[]]) = pc_parents tmp xs"
  by (induction xs arbitrary: tmp) simp_all

definition dir_path :: "string \<Rightarrow> string" where
  "dir_path path = (if ends_with path CHR ''/'' then path else path @ slash)"

lemma pc_parents_normalized:
  assumes "normalized_path path"
  shows "chain slash (pc_parents [] (split_on CHR ''/'' path)) \<and> last (slash # pc_parents [] (split_on CHR ''/'' path)) = dir_path path"
proof (cases "path = slash")
  case True
  then show ?thesis by (simp add: slash_def ends_with_def dir_path_def)
next
  case False
  with assms obtain xs d where xs: "xs \<noteq> []" "segments xs" "path = path_of xs d" by (auto simp: normalized_path_def)
  then have "pc_parents [] (split_on CHR ''/'' path) = pc_parents [] xs"
    by (cases d) (simp_all add: path_of_split pc_parents_skip)
  moreover have "path_of xs True = dir_path path"
    using xs path_of_ends [OF xs(1,2), of d] unfolding dir_path_def by (cases d) (simp_all add: path_of_def)
  ultimately show ?thesis using pc_parents_chain [of "[]" xs] xs(1,2) by (simp add: Let_def)
qed


subsection \<open>A service and a cache to compute with\<close>

text \<open>A drive as a list of children, whose ids are chosen as in the tests of the source; a cache that keeps the last \<open>n\<close> entries.\<close>

definition list_drive :: "((string \<times> string) \<times> string) list path_query" where
  "list_drive =
     \<lparr>pq_root = (\<lambda>w. (Ok ''root/'', w)),
      pq_query = (\<lambda>i n w. (Ok (map_of w (i, n)), w)),
      pq_create_dir = (\<lambda>i n w. (Ok (i @ n), ((i, n), i @ n) # w))\<rparr>"

abbreviation drive_tree :: "((string \<times> string) \<times> string) list \<Rightarrow> id_tree" where
  "drive_tree w \<equiv> \<lambda>i n. map_of w (i, n)"

definition list_cache :: "nat \<Rightarrow> (string \<times> string) list cache_ops" where
  "list_cache n =
     \<lparr>ch_contains = (\<lambda>k c. (map_of c k \<noteq> None, c)), ch_get = (\<lambda>k c. (map_of c k, c)),
      ch_insert = (\<lambda>k v c. take n ((k, v) # c)), ch_invalidate = (\<lambda>k c. filter (\<lambda>(k', v). k' \<noteq> k) c)\<rparr>"

lemma map_of_take: "map_of (take n m) \<subseteq>\<^sub>m map_of m"
  using map_le_map_add [of "map_of (take n m)" "map_of (drop n m)"] by (simp flip: map_of_append)

lemma list_drive_service: "id_service list_drive ''root/'' drive_tree"
  by (auto simp: id_service_def list_drive_def fun_eq_iff)

lemma map_of_remove: "map_of (filter (\<lambda>(k', v). k' \<noteq> k) m) \<subseteq>\<^sub>m (map_of m)(k := None)"
  by (induction m) (auto simp: map_le_def)

lemma list_cache_lossy: "lossy_cache (list_cache n) map_of"
proof -
  have "map_of (take n ((k, v) # c)) \<subseteq>\<^sub>m (map_of c)(k \<mapsto> v)" for k v and c :: "(string \<times> string) list"
    using map_of_take [of n "(k, v) # c"] by simp
  then show ?thesis using map_of_remove unfolding lossy_cache_def list_cache_def by auto
qed

subsection \<open>Properties\<close>

text \<open>
  C32. Looking up through the cache equals walking the tree of the service from its root. Let the cache be
  consistent with the tree. Then \<open>get\<close> of any path returns, unless a call of the service fails, exactly the id that the walk finds, or none
  if there is none; the tree is unchanged and the cache is consistent again, whatever entries it drops.
\<close>

theorem path_cache_get:
  assumes "id_service q root tree" "lossy_cache ch view" "consistent (tree w) root (view c)"
    and "pc_get q ch path c w = (r, c', w')"
  shows "tree w' = tree w \<and> consistent (tree w) root (view c') \<and> (\<forall>x. r = Ok x \<longrightarrow> x = resolve (tree w) root path)"
  using assms by (rule pc_get_spec)

theorem path_cache_get_witness:
  "\<exists>r c' w'. pc_get list_drive (list_cache 1) ''a/f'' [(''a/'', ''1'')] [((''root/'', ''a/''), ''1''), ((''1'', ''f''), ''2'')] = (r, c', w')
    \<and> r = Ok (Some ''2'') \<and> consistent (drive_tree w') ''root/'' (map_of c')"
proof -
  let ?w = "[((''root/'', ''a/''), ''1''), ((''1'', ''f''), ''2'')]" and ?c = "[(''a/'', ''1'')]"
  have p: "get_parent ''a/f'' = ''a/''" "get_basename ''a/f'' = ''f''" "get_parent ''a/'' = slash" "get_basename ''a/'' = ''a/''"
    by code_simp+
  have ns: "''a/'' \<noteq> slash" "''a/f'' \<noteq> slash" by (simp_all add: slash_def)
  have r: "resolve (drive_tree ?w) ''root/'' ''a/'' = Some ''1''" "resolve (drive_tree ?w) ''root/'' ''a/f'' = Some ''2''"
    by (simp_all add: resolve.simps [of _ _ "''a/''"] resolve.simps [of _ _ "''a/f''"] p ns)
  have c: "consistent (drive_tree ?w) ''root/'' (map_of ?c)" using r(1) by (simp add: consistent_def)
  obtain r' c' w' where g: "pc_get list_drive (list_cache 1) ''a/f'' ?c ?w = (r', c', w')" by (metis prod_cases3)
  moreover have "\<exists>x. r' = Ok x"
    using g by (auto simp: pc_get_def pc_climb.simps list_cache_def list_drive_def p ns)
  ultimately show ?thesis using path_cache_get [OF list_drive_service list_cache_lossy c g] r(2) by auto
qed

text \<open>
  \<open>ensure_dir\<close> makes a directory exist. Starting from a consistent cache it only adds to the tree, keeps the
  cache consistent, and when it succeeds, the id it returns is the one that a walk to the directory finds afterwards; if the directory
  existed before, nothing is created.
\<close>

theorem path_cache_ensure_dir:
  assumes "id_service q root tree" "lossy_cache ch view" "consistent (tree w) root (view c)"
    and "normalized_path path" "pc_ensure_dir q ch path c w = (r, c', w')"
  shows "tree_le (tree w) (tree w') \<and> consistent (tree w') root (view c')
    \<and> (\<forall>i. r = Ok i \<longrightarrow> resolve (tree w') root (dir_path path) = Some i)
    \<and> (resolve (tree w) root (dir_path path) \<noteq> None \<longrightarrow> tree w' = tree w)"
proof -
  let ?ps = "pc_parents [] (split_on CHR ''/'' path)"
  define dir where "dir = dir_path path"
  have dir: "chain slash ?ps" "last (slash # ?ps) = dir"
    using pc_parents_normalized [OF assms(4)] unfolding dir_def by blast+
  obtain y c1 where y: "ch_get ch slash c = (y, c1)" by fastforce
  note v = lossy_get [OF assms(2) y, THEN conjunct1] lossy_get [OF assms(2) y, THEN conjunct2]
  have con: "consistent (tree w) root (view c1)" by (rule consistent_sub [OF assms(3) v(1)])
  have main: "tree_le (tree w0) (tree w') \<and> consistent (tree w') root (view c')
      \<and> (\<forall>i. r = Ok i \<longrightarrow> resolve (tree w') root dir = Some i) \<and> (resolve (tree w0) root dir \<noteq> None \<longrightarrow> tree w' = tree w0)"
    if "tree w0 = tree w" "i = root" "pc_ensure q ch i ?ps c1 w0 = (r, c', w')" for w0 i
    using ensure_spec [OF assms(1,2) dir(1) _ _ that(3)] con that dir(2) by simp
  have "tree_le (tree w) (tree w') \<and> consistent (tree w') root (view c')
      \<and> (\<forall>i. r = Ok i \<longrightarrow> resolve (tree w') root dir = Some i) \<and> (resolve (tree w) root dir \<noteq> None \<longrightarrow> tree w' = tree w)"
  proof (cases y)
    case (Some i)
    with v(2) assms(3) have "i = root" unfolding consistent_def by (metis option.inject resolve_root(1))
    with main [of w i] assms(5) y Some show ?thesis by (simp add: pc_ensure_dir_def)
  next
    case None
    obtain z w1 where z: "pq_root q w = (z, w1)" by fastforce
    note t = service_root [OF assms(1) z]
    show ?thesis
    proof (cases z)
      case (Ok i)
      with main [of w1 i] t assms(5) y None z show ?thesis by (simp add: pc_ensure_dir_def)
    qed (use assms(5) y None z t con in \<open>auto simp: pc_ensure_dir_def tree_le_def\<close>)
  qed
  then show ?thesis unfolding dir_def .
qed

theorem path_cache_ensure_dir_witness:
  "\<exists>i c' w'. pc_ensure_dir list_drive (list_cache 8) ''a/b/'' [] [((''root/'', ''a/''), ''1'')] = (Ok i, c', w')
    \<and> resolve (drive_tree w') ''root/'' ''a/b/'' = Some i \<and> w' = [((''1'', ''b/''), i), ((''root/'', ''a/''), ''1'')]"
proof -
  let ?w = "[((''root/'', ''a/''), ''1'')]"
  have e: "pc_ensure_dir list_drive (list_cache 8) ''a/b/'' [] ?w
      = (Ok ''1b/'', [(''a/b/'', ''1b/''), (''a/'', ''1'')], [((''1'', ''b/''), ''1b/''), ((''root/'', ''a/''), ''1'')])"
    by code_simp
  have n: "normalized_path ''a/b/''" using normalized_path_path_of [of "[''a'', ''b'']" True] by (simp add: path_of_def slash_def)

  have c: "consistent (drive_tree ?w) ''root/'' (map_of [])" by (simp add: consistent_def)
  from path_cache_ensure_dir [OF list_drive_service list_cache_lossy c n e] e show ?thesis
    by (auto simp: dir_path_def ends_with_def)
qed

end
