(* ===== verification/Limits.thy ===== *)
theory Limits
  imports Retry
begin

text \<open>
  Layers that limit or disturb the calls of a service: timeouts (\<^verbatim>\<open>core/src/layers/timeout.rs\<close>), injected read
  errors (\<^verbatim>\<open>chaos.rs\<close>), bandwidth (\<^verbatim>\<open>throttle.rs\<close>) and concurrency (\<^verbatim>\<open>concurrent_limit.rs\<close>). What decides about a call is a
  crate's and a parameter here: whether a deadline of \<^verbatim>\<open>tokio\<close> elapses and what a dropped future leaves behind, the
  random numbers, the answers of the rate limiter.

  The theorems are about how these layers combine with the retry layer, about the semaphore as a state machine,
  and about when a throttled write goes through.
\<close>

subsection \<open>Timeouts\<close>

text \<open>
  A deadline looks at the state a call starts in: \<open>None\<close> lets the call finish, \<open>Some s\<close> drops its future and
  leaves \<open>s\<close>. The durations appear only as text in errors.
\<close>

type_synonym 's deadline = "'s \<Rightarrow> 's option"

definition timeout_error :: "string \<Rightarrow> operation \<Rightarrow> string \<Rightarrow> error" where
  "timeout_error msg op secs =
     set_temporary (with_context ''timeout'' secs (with_operation (op_into_static op) (new_error Unexpected msg)))"

definition with_deadline :: "'s deadline \<Rightarrow> error \<Rightarrow> ('s \<Rightarrow> 'a res \<times> 's) \<Rightarrow> 's \<Rightarrow> 'a res \<times> 's" where
  "with_deadline elapses err call s = (case elapses s of None \<Rightarrow> call s | Some s' \<Rightarrow> (Err err, s'))"

definition with_deadline_opt :: "'s deadline \<Rightarrow> error \<Rightarrow> ('s \<Rightarrow> ('a res \<times> 's) option) \<Rightarrow> 's \<Rightarrow> ('a res \<times> 's) option" where
  "with_deadline_opt elapses err call s = (case elapses s of None \<Rightarrow> call s | Some s' \<Rightarrow> Some (Err err, s'))"

record ('r, 'wr, 'l, 'd, 'w) clock =
  ck_op :: "operation \<Rightarrow> 'w deadline"
  ck_reader :: "('r \<times> 'w) deadline"
  ck_writer :: "operation \<Rightarrow> ('wr \<times> 'w) deadline"
  ck_lister :: "('l \<times> 'w) deadline"
  ck_deleter :: "('d \<times> 'w) deadline"

record 't timeout_wrapper =
  tmo_inner :: 't
  tmo_timeout :: string

definition tmo_new :: "'t \<Rightarrow> string \<Rightarrow> 't timeout_wrapper" where
  "tmo_new inner secs = \<lparr>tmo_inner = inner, tmo_timeout = secs\<rparr>"

definition tmo_call ::
  "('t \<times> 'w) deadline \<Rightarrow> operation \<Rightarrow> ('t \<Rightarrow> 'w \<Rightarrow> 'a res \<times> 't \<times> 'w) \<Rightarrow> 't timeout_wrapper \<Rightarrow> 'w
     \<Rightarrow> 'a res \<times> 't timeout_wrapper \<times> 'w" where
  "tmo_call elapses op call st w =
     (let (r, inner, w') = with_deadline elapses (timeout_error ''io operation timeout reached'' op (tmo_timeout st))
        (\<lambda>(t, w). call t w) (tmo_inner st, w)
      in (r, st\<lparr>tmo_inner := inner\<rparr>, w'))"

definition tmo_next ::
  "('t \<times> 'w) deadline \<Rightarrow> operation \<Rightarrow> ('t \<Rightarrow> 'w \<Rightarrow> ('a res \<times> 't \<times> 'w) option) \<Rightarrow> 't timeout_wrapper \<Rightarrow> 'w
     \<Rightarrow> ('a res \<times> 't timeout_wrapper \<times> 'w) option" where
  "tmo_next elapses op call st w =
     map_option (\<lambda>(r, inner, w'). (r, st\<lparr>tmo_inner := inner\<rparr>, w'))
       (with_deadline_opt elapses (timeout_error ''io operation timeout reached'' op (tmo_timeout st))
          (\<lambda>(t, w). call t w) (tmo_inner st, w))"

text \<open>The asynchronous half; the blocking half forwards every call.\<close>

definition timeout_layer ::
  "('r, 'wr, 'l, 'd, 'w) clock \<Rightarrow> string \<Rightarrow> string \<Rightarrow> ('r, 'wr, 'l, 'd, 'w) access
     \<Rightarrow> ('r timeout_wrapper, 'wr timeout_wrapper, 'l timeout_wrapper, 'd timeout_wrapper, 'w) access" where
  "timeout_layer ck secs io_secs ac =
     (let slow = (\<lambda>op. with_deadline (ck_op ck op) (timeout_error ''operation timeout reached'' op secs));
          io = (\<lambda>op. timeout_error ''io timeout reached'' op io_secs) in
      \<lparr>ac_info = ac_info ac,
       ac_create_dir = (\<lambda>path. slow OpCreateDir (ac_create_dir ac path)),
       ac_stat = (\<lambda>path args. with_deadline_opt (ck_op ck OpStat) (timeout_error ''operation timeout reached'' OpStat secs)
          (ac_stat ac path args)),
       ac_read = (\<lambda>path args w. step (with_deadline (ck_op ck OpRead) (io OpRead) (ac_read ac path args) w)
          (\<lambda>r w. (Ok (tmo_new r io_secs), w))),
       ac_write = (\<lambda>path args w. step (with_deadline (ck_op ck OpWrite) (io OpWrite) (ac_write ac path args) w)
          (\<lambda>r w. (Ok (tmo_new r io_secs), w))),
       ac_delete = (\<lambda>w. step (with_deadline (ck_op ck OpDelete) (timeout_error ''operation timeout reached'' OpDelete secs)
          (ac_delete ac) w) (\<lambda>r w. (Ok (tmo_new r io_secs), w))),
       ac_list = (\<lambda>path args w. step (with_deadline (ck_op ck OpList) (io OpList) (ac_list ac path args) w)
          (\<lambda>r w. (Ok (tmo_new r io_secs), w))),
       ac_copy = (\<lambda>from to. slow OpCopy (ac_copy ac from to)),
       ac_rename = (\<lambda>from to. slow OpRename (ac_rename ac from to)),
       ac_reader_read = tmo_call (ck_reader ck) OpReaderRead (ac_reader_read ac),
       ac_writer_write = (\<lambda>bs. tmo_call (ck_writer ck OpWriterWrite) OpWriterWrite (ac_writer_write ac bs)),
       ac_writer_close = tmo_call (ck_writer ck OpWriterClose) OpWriterClose (ac_writer_close ac),
       ac_writer_abort = tmo_call (ck_writer ck OpWriterAbort) OpWriterAbort (ac_writer_abort ac),
       ac_lister_next = tmo_next (ck_lister ck) OpListerNext (ac_lister_next ac),
       ac_deleter_delete = (\<lambda>path args st w.
          let (r, d, w') = ac_deleter_delete ac path args (tmo_inner st) w in (r, st\<lparr>tmo_inner := d\<rparr>, w')),
       ac_deleter_flush = tmo_call (ck_deleter ck) OpDeleterFlush (ac_deleter_flush ac)\<rparr>)"

subsection \<open>Chaos\<close>

text \<open>\<open>lucky\<close> draws a number and compares it with the error ratio.\<close>

record ('r, 'g) chaos_reader =
  chr_inner :: 'r
  chr_rng :: 'g

definition chaos_error :: error where
  "chaos_error = set_temporary (with_operation ''chaos'' (new_error Unexpected ''I am your chaos!''))"

definition chr_read ::
  "('g \<Rightarrow> bool \<times> 'g) \<Rightarrow> ('r \<Rightarrow> 'w \<Rightarrow> buffer res \<times> 'r \<times> 'w) \<Rightarrow> ('r, 'g) chaos_reader \<Rightarrow> 'w
     \<Rightarrow> buffer res \<times> ('r, 'g) chaos_reader \<times> 'w" where
  "chr_read lucky read_op st w =
     (let (luck, rng) = lucky (chr_rng st); st1 = st\<lparr>chr_rng := rng\<rparr> in
      if luck then let (r, inner, w') = read_op (chr_inner st1) w in (r, st1\<lparr>chr_inner := inner\<rparr>, w')
      else (Err chaos_error, st1, w))"

text \<open>Every reader starts with a copy of the generator of the accessor.\<close>

definition chaos_layer ::
  "('g \<Rightarrow> bool \<times> 'g) \<Rightarrow> 'g \<Rightarrow> ('r, 'wr, 'l, 'd, 'w) access \<Rightarrow> (('r, 'g) chaos_reader, 'wr, 'l, 'd, 'w) access" where
  "chaos_layer lucky rng ac =
     \<lparr>ac_info = ac_info ac, ac_create_dir = ac_create_dir ac, ac_stat = ac_stat ac,
      ac_read = (\<lambda>path args w. step (ac_read ac path args w) (\<lambda>r w. (Ok \<lparr>chr_inner = r, chr_rng = rng\<rparr>, w))),
      ac_write = ac_write ac, ac_delete = ac_delete ac, ac_list = ac_list ac, ac_copy = ac_copy ac, ac_rename = ac_rename ac,
      ac_reader_read = chr_read lucky (ac_reader_read ac),
      ac_writer_write = ac_writer_write ac, ac_writer_close = ac_writer_close ac, ac_writer_abort = ac_writer_abort ac,
      ac_lister_next = ac_lister_next ac, ac_deleter_delete = ac_deleter_delete ac, ac_deleter_flush = ac_deleter_flush ac\<rparr>"

subsection \<open>Throttling\<close>

datatype limiter_answer = Conforms | NotUntil | Insufficient

type_synonym u32 = "32 word"

definition th_insufficient :: error where
  "th_insufficient =
     new_error RateLimited ''InsufficientCapacity due to burst size being smaller than the request size''"

text \<open>\<open>bs.len() as u32\<close> keeps the low bits; the loop asks the limiter until it answers for good.\<close>

partial_function (option) th_write ::
  "(u32 \<Rightarrow> 'g \<Rightarrow> limiter_answer \<times> 'g) \<Rightarrow> (buffer \<Rightarrow> 's \<Rightarrow> unit res \<times> 's) \<Rightarrow> buffer \<Rightarrow> 's \<Rightarrow> 'g
     \<Rightarrow> (unit res \<times> 's \<times> 'g) option" where
  "th_write check write_op bs s g =
     (if (of_nat (buf_len bs) :: u32) = 0 then Some (Panic, s, g)
      else case check (of_nat (buf_len bs)) g of
          (Conforms, g') \<Rightarrow> (case write_op bs s of (r, s') \<Rightarrow> Some (r, s', g'))
        | (NotUntil, g') \<Rightarrow> th_write check write_op bs s g'
        | (Insufficient, g') \<Rightarrow> Some (Err th_insufficient, s, g'))"

declare th_write.simps [code]

text \<open>What \<^verbatim>\<open>governor\<close> documents: a request above the burst is never accommodated, any other one after waiting.\<close>

definition governor :: "nat \<Rightarrow> (u32 \<Rightarrow> 'g \<Rightarrow> limiter_answer \<times> 'g) \<Rightarrow> ('g \<Rightarrow> nat) \<Rightarrow> bool" where
  "governor burst check waiting =
     (\<forall>n g a g'. check n g = (a, g') \<longrightarrow> (a = Insufficient \<longleftrightarrow> burst < unat n) \<and> (a = NotUntil \<longrightarrow> waiting g' < waiting g))"

lemma throttle_done:
  assumes "governor burst check waiting" "(of_nat (buf_len bs) :: u32) \<noteq> 0"
  shows "\<exists>g'. th_write check write_op bs s g = Some (if burst < buf_len bs mod 2 ^ 32 then (Err th_insufficient, s, g')
    else (fst (write_op bs s), snd (write_op bs s), g'))"
proof (induction "waiting g" arbitrary: g rule: less_induct)
  case less
  obtain a g1 where a: "check (of_nat (buf_len bs)) g = (a, g1)" by fastforce
  with assms(1) have l: "a = Insufficient \<longleftrightarrow> burst < buf_len bs mod 2 ^ 32" "a = NotUntil \<longrightarrow> waiting g1 < waiting g"
    unfolding governor_def by (auto simp: unat_of_nat)
  note unf = th_write.simps [of check write_op bs s g]
  show ?case
  proof (cases a)
    case Conforms
    with a l assms(2) show ?thesis by (auto simp: unf split: prod.splits)
  next
    case NotUntil
    with l less [of g1] obtain g' where "th_write check write_op bs s g1 = Some (if burst < buf_len bs mod 2 ^ 32 then (Err th_insufficient, s, g')
        else (fst (write_op bs s), snd (write_op bs s), g'))" by blast
    with NotUntil a assms(2) show ?thesis by (auto simp: unf)
  next
    case Insufficient
    with a l assms(2) show ?thesis by (auto simp: unf)
  qed
qed

subsection \<open>Limiting concurrency\<close>

text \<open>
  The semaphore and what holds its permits: calls under way, and readers, writers, listers and deleters that are open. A call takes
  a permit when it starts. When it ends, the permit goes back, unless the call has opened something,
  which keeps it until it is dropped.
\<close>

record limit_state =
  lm_available :: nat
  lm_calls :: "nat set"
  lm_open :: "nat set"

definition lm_new :: "nat \<Rightarrow> limit_state" where
  "lm_new permits = \<lparr>lm_available = permits, lm_calls = {}, lm_open = {}\<rparr>"

inductive limit_step :: "limit_state \<Rightarrow> limit_state \<Rightarrow> bool" where
  acquire: "0 < lm_available s \<Longrightarrow> c \<notin> lm_calls s \<Longrightarrow>
    limit_step s (s\<lparr>lm_available := lm_available s - 1, lm_calls := insert c (lm_calls s)\<rparr>)"
| finish: "c \<in> lm_calls s \<Longrightarrow> limit_step s (s\<lparr>lm_available := lm_available s + 1, lm_calls := lm_calls s - {c}\<rparr>)"
| opened: "c \<in> lm_calls s \<Longrightarrow> h \<notin> lm_open s \<Longrightarrow>
    limit_step s (s\<lparr>lm_calls := lm_calls s - {c}, lm_open := insert h (lm_open s)\<rparr>)"
| dropped: "h \<in> lm_open s \<Longrightarrow> limit_step s (s\<lparr>lm_available := lm_available s + 1, lm_open := lm_open s - {h}\<rparr>)"

definition lm_inv :: "nat \<Rightarrow> limit_state \<Rightarrow> bool" where
  "lm_inv permits s = (finite (lm_calls s) \<and> finite (lm_open s)
     \<and> lm_available s + card (lm_calls s) + card (lm_open s) = permits)"

lemma limit_step_inv: "limit_step s s' \<Longrightarrow> lm_inv permits s \<Longrightarrow> lm_inv permits s'"
proof (induction rule: limit_step.induct)
  case (acquire s c)
  then show ?case by (auto simp: lm_inv_def)
next
  case (finish c s)
  then have "0 < card (lm_calls s)" by (auto simp: lm_inv_def card_gt_0_iff)
  with finish show ?case by (auto simp: lm_inv_def)
next
  case (opened c s h)
  then have "0 < card (lm_calls s)" by (auto simp: lm_inv_def card_gt_0_iff)
  with opened show ?case by (auto simp: lm_inv_def)
next
  case (dropped h s)
  then have "0 < card (lm_open s)" by (auto simp: lm_inv_def card_gt_0_iff)
  with dropped show ?case by (auto simp: lm_inv_def)
qed

lemma lm_inv_reachable: "limit_step\<^sup>*\<^sup>* (lm_new permits) s \<Longrightarrow> lm_inv permits s"
proof (induction rule: rtranclp_induct)
  case base
  show ?case by (simp add: lm_inv_def lm_new_def)
qed (rule limit_step_inv)

lemma limit_can_start:
  assumes "lm_inv permits s" "card (lm_calls s) + card (lm_open s) < permits"
  shows "\<exists>s' c. limit_step s s' \<and> c \<notin> lm_calls s \<and> lm_calls s' = insert c (lm_calls s)"
proof -
  obtain c where c: "c \<notin> lm_calls s" using ex_new_if_finite [OF infinite_UNIV_nat] assms(1) by (auto simp: lm_inv_def)
  moreover have "0 < lm_available s" using assms by (simp add: lm_inv_def)
  ultimately have "limit_step s (s\<lparr>lm_available := lm_available s - 1, lm_calls := insert c (lm_calls s)\<rparr>)" by (intro limit_step.acquire)
  with c show ?thesis by force
qed

lemma limit_drains: "lm_inv permits s \<Longrightarrow> limit_step\<^sup>*\<^sup>* s (lm_new permits)"
proof (induction "card (lm_calls s) + card (lm_open s)" arbitrary: s rule: less_induct)
  case less
  then have f: "finite (lm_calls s)" "finite (lm_open s)" by (simp_all add: lm_inv_def)
  have drained: "limit_step\<^sup>*\<^sup>* s (lm_new permits)"
    if "limit_step s s'" "card (lm_calls s') + card (lm_open s') < card (lm_calls s) + card (lm_open s)" for s'
    using less.hyps [OF that(2) limit_step_inv [OF that(1) less.prems]] that(1) by (rule converse_rtranclp_into_rtranclp [rotated])
  consider (call) c where "c \<in> lm_calls s" | (handle) h where "h \<in> lm_open s" | (idle) "lm_calls s = {}" "lm_open s = {}" by blast
  then show ?case
  proof cases
    case call
    then have "0 < card (lm_calls s)" using f by (auto simp: card_gt_0_iff)
    with call f drained [OF limit_step.finish [OF call]] show ?thesis by simp
  next
    case handle
    then have "0 < card (lm_open s)" using f by (auto simp: card_gt_0_iff)
    with handle f drained [OF limit_step.dropped [OF handle]] show ?thesis by simp
  next
    case idle
    with less.prems have "s = lm_new permits" by (cases s) (simp add: lm_inv_def lm_new_def)
    then show ?thesis by simp
  qed
qed

text \<open>
  The blocking calls run one after the other. They do not wait for a permit: without one, the \<open>expect\<close>
  panics. The state of the service is paired with the permits that are available.
\<close>

record 't limited =
  lmw_inner :: 't

definition lm_call :: "('w \<Rightarrow> 'a res \<times> 'w) \<Rightarrow> 'w \<times> nat \<Rightarrow> 'a res \<times> 'w \<times> nat" where
  "lm_call call = (\<lambda>(w, available).
     if available = 0 then (Panic, w, available)
     else let (r, w') = call w in (r, w', available))"

definition lm_call_opt :: "('w \<Rightarrow> ('a res \<times> 'w) option) \<Rightarrow> 'w \<times> nat \<Rightarrow> ('a res \<times> 'w \<times> nat) option" where
  "lm_call_opt call = (\<lambda>(w, available).
     if available = 0 then Some (Panic, w, available)
     else map_option (\<lambda>(r, w'). (r, w', available)) (call w))"

definition lm_call_open :: "('w \<Rightarrow> 'a res \<times> 'w) \<Rightarrow> 'w \<times> nat \<Rightarrow> 'a limited res \<times> 'w \<times> nat" where
  "lm_call_open call = (\<lambda>(w, available).
     if available = 0 then (Panic, w, available)
     else case call w of
         (Ok a, w') \<Rightarrow> (Ok \<lparr>lmw_inner = a\<rparr>, w', available - 1)
       | (Err e, w') \<Rightarrow> (Err e, w', available)
       | (Panic, w') \<Rightarrow> (Panic, w', available))"

definition lm_drop :: "'w \<times> nat \<Rightarrow> 'w \<times> nat" where
  "lm_drop = (\<lambda>(w, available). (w, available + 1))"

definition lm_forward :: "('t \<Rightarrow> 'w \<Rightarrow> 'a res \<times> 't \<times> 'w) \<Rightarrow> 't limited \<Rightarrow> 'w \<times> nat \<Rightarrow> 'a res \<times> 't limited \<times> 'w \<times> nat" where
  "lm_forward call st = (\<lambda>(w, available).
     let (r, t, w') = call (lmw_inner st) w in (r, st\<lparr>lmw_inner := t\<rparr>, w', available))"

definition lm_forward_opt ::
  "('t \<Rightarrow> 'w \<Rightarrow> ('a res \<times> 't \<times> 'w) option) \<Rightarrow> 't limited \<Rightarrow> 'w \<times> nat \<Rightarrow> ('a res \<times> 't limited \<times> 'w \<times> nat) option" where
  "lm_forward_opt call st = (\<lambda>(w, available).
     map_option (\<lambda>(r, t, w'). (r, st\<lparr>lmw_inner := t\<rparr>, w', available)) (call (lmw_inner st) w))"

text \<open>Copying and renaming are not overridden and take no permit.\<close>

definition lm_pass :: "('w \<Rightarrow> 'a res \<times> 'w) \<Rightarrow> 'w \<times> nat \<Rightarrow> 'a res \<times> 'w \<times> nat" where
  "lm_pass call = (\<lambda>(w, available). let (r, w') = call w in (r, w', available))"

definition limit_layer ::
  "('r, 'wr, 'l, 'd, 'w) access \<Rightarrow> ('r limited, 'wr limited, 'l limited, 'd limited, 'w \<times> nat) access" where
  "limit_layer ac =
     \<lparr>ac_info = ac_info ac,
      ac_create_dir = (\<lambda>path. lm_call (ac_create_dir ac path)),
      ac_stat = (\<lambda>path args. lm_call_opt (ac_stat ac path args)),
      ac_read = (\<lambda>path args. lm_call_open (ac_read ac path args)),
      ac_write = (\<lambda>path args. lm_call_open (ac_write ac path args)),
      ac_delete = lm_call_open (ac_delete ac),
      ac_list = (\<lambda>path args. lm_call_open (ac_list ac path args)),
      ac_copy = (\<lambda>from to. lm_pass (ac_copy ac from to)),
      ac_rename = (\<lambda>from to. lm_pass (ac_rename ac from to)),
      ac_reader_read = lm_forward (ac_reader_read ac),
      ac_writer_write = (\<lambda>bs. lm_forward (ac_writer_write ac bs)),
      ac_writer_close = lm_forward (ac_writer_close ac),
      ac_writer_abort = lm_forward (ac_writer_abort ac),
      ac_lister_next = lm_forward_opt (ac_lister_next ac),
      ac_deleter_delete = (\<lambda>path args. lm_forward (ac_deleter_delete ac path args)),
      ac_deleter_flush = lm_forward (ac_deleter_flush ac)\<rparr>"

text \<open>The blocking calls follow the state machine, and panic where an asynchronous call would wait.\<close>

lemma limited_open_step:
  assumes "ac_read (limit_layer ac) path args (w, lm_available s) = (Ok rd, w', available)" "h \<notin> lm_open s" "c \<notin> lm_calls s"
  shows "\<exists>s'. limit_step\<^sup>*\<^sup>* s s' \<and> lm_available s' = available \<and> lm_open s' = insert h (lm_open s) \<and> lm_calls s' = lm_calls s"
proof -
  let ?s1 = "s\<lparr>lm_available := lm_available s - 1, lm_calls := insert c (lm_calls s)\<rparr>"
  from assms(1) have a: "0 < lm_available s" "available = lm_available s - 1"
    by (auto simp: limit_layer_def lm_call_open_def split: if_splits prod.splits outcome.splits)
  have "limit_step s ?s1" using a(1) assms(3) by (rule limit_step.acquire)
  moreover have "limit_step ?s1 (?s1\<lparr>lm_calls := lm_calls ?s1 - {c}, lm_open := insert h (lm_open ?s1)\<rparr>)"
    using assms(2) by (intro limit_step.opened) simp_all
  ultimately show ?thesis using a(2) assms(3)
    by (intro exI [of _ "?s1\<lparr>lm_calls := lm_calls ?s1 - {c}, lm_open := insert h (lm_open ?s1)\<rparr>"]) auto
qed

lemma limited_exhausted_panics:
  "ac_read (limit_layer ac) path args (w, 0) = (Panic, w, 0)"
  "ac_stat (limit_layer ac) path sargs (w, 0) = Some (Panic, w, 0)"
  "ac_delete (limit_layer ac) (w, 0) = (Panic, w, 0)"
  by (simp_all add: limit_layer_def lm_call_open_def lm_call_opt_def)

subsection \<open>Retrying what these layers let fail\<close>

text \<open>A service keeps serving the ranges of an object behind both layers, if dropping a call does not change the object.\<close>

lemma timeout_fields:
  "ac_read (timeout_layer ck secs io_secs ac) path args w =
     step (with_deadline (ck_op ck OpRead) (timeout_error ''io timeout reached'' OpRead io_secs) (ac_read ac path args) w)
       (\<lambda>r w. (Ok (tmo_new r io_secs), w))"
  "ac_reader_read (timeout_layer ck secs io_secs ac) = tmo_call (ck_reader ck) OpReaderRead (ac_reader_read ac)"
  by (simp_all add: timeout_layer_def Let_def)

lemma tmo_call_Ok:
  "tmo_call elapses op call st w = (Ok a, st', w') \<Longrightarrow>
     elapses (tmo_inner st, w) = None \<and> call (tmo_inner st) w = (Ok a, tmo_inner st', w')"
  by (auto simp: tmo_call_def with_deadline_def Let_def split: option.splits prod.splits)

lemma tmo_call_Err:
  "tmo_call elapses op call st w = (Err e, st', w') \<Longrightarrow>
     elapses (tmo_inner st, w) = Some (tmo_inner st', w') \<or> call (tmo_inner st) w = (Err e, tmo_inner st', w')"
  by (auto simp: tmo_call_def with_deadline_def Let_def split: option.splits prod.splits)

lemma timeout_range_service:
  fixes ac :: "('r, 'wr, 'l, 'd, 'w) access"
  assumes "range_service ac path args content invar holds usable"
    and op: "\<And>w w'. invar w \<Longrightarrow> ck_op ck OpRead w = Some w' \<Longrightarrow> invar w'"
    and rd: "\<And>r w r' w'. invar w \<Longrightarrow> ck_reader ck (r, w) = Some (r', w') \<Longrightarrow> invar w'"
  shows "range_service (timeout_layer ck secs io_secs ac) path args content invar (\<lambda>bs st. holds bs (tmo_inner st)) usable"
proof unfold_locales
  let ?ac = "timeout_layer ck secs io_secs ac"
  note srv = assms(1)
  fix w rng st w'
  assume w: "invar w" "br_inside rng content" "usable rng"
  { assume "ac_read ?ac path (ro_with_range rng args) w = (Ok st, w')"
    then show "invar w' \<and> holds (br_select rng content) (tmo_inner st)"
      using range_service.open_Ok [OF srv w]
      by (auto simp: timeout_fields with_deadline_def tmo_new_def step_Ok_iff split: option.splits) }
  { fix e assume "ac_read ?ac path (ro_with_range rng args) w = (Err e, w')"
    then show "invar w'"
      using range_service.open_Err [OF srv w] op [OF w(1)]
      by (cases "ac_read ac path (ro_with_range rng args) w"; cases "fst (ac_read ac path (ro_with_range rng args) w)")
        (auto simp: timeout_fields with_deadline_def split: option.splits) }
  show "fst (ac_read ?ac path (ro_with_range rng args) w) \<noteq> Panic"
    using range_service.open_Panic [OF srv w]
    by (cases "ac_read ac path (ro_with_range rng args) w"; cases "fst (ac_read ac path (ro_with_range rng args) w)")
      (auto simp: timeout_fields with_deadline_def split: option.splits)
next
  let ?ac = "timeout_layer ck secs io_secs ac"
  note srv = assms(1)
  fix w bs w' and st st' :: "'r timeout_wrapper"
  assume w: "invar w" "holds bs (tmo_inner st)"
  { fix b assume "ac_reader_read ?ac st w = (Ok b, st', w')"
    then have "ac_reader_read ac (tmo_inner st) w = (Ok b, tmo_inner st', w')" unfolding timeout_fields by (rule tmo_call_Ok [THEN conjunct2])
    from range_service.read_Ok [OF srv w this]
    show "invar w' \<and> buf_wf b \<and> (\<exists>rest. bs = buf_bytes b @ rest \<and> holds rest (tmo_inner st') \<and> (buf_bytes b = [] \<longrightarrow> rest = []))" . }
  { fix e assume "ac_reader_read ?ac st w = (Err e, st', w')"
    then show "invar w'" using range_service.read_Err [OF srv w] rd [OF w(1)] unfolding timeout_fields by (blast dest: tmo_call_Err) }
  show "fst (ac_reader_read ?ac st w) \<noteq> Panic"
    using range_service.read_Panic [OF srv w]
    by (auto simp: timeout_fields tmo_call_def with_deadline_def split: option.splits prod.splits)
qed (rule range_service.fits [OF assms(1)] range_service.usable_advance [OF assms(1)]; assumption)+


lemma chr_read_cases:
  assumes "chr_read lucky read_op st w = (r, st', w')"
  shows "(\<not> fst (lucky (chr_rng st)) \<and> r = Err chaos_error \<and> w' = w)
    \<or> (fst (lucky (chr_rng st)) \<and> read_op (chr_inner st) w = (r, chr_inner st', w'))"
  using assms by (auto simp: chr_read_def Let_def split: prod.splits if_splits)

lemma chaos_range_service:
  fixes ac :: "('r, 'wr, 'l, 'd, 'w) access" and rng :: 'g
  assumes srv: "range_service ac path args content invar holds usable"
  shows "range_service (chaos_layer lucky rng ac) path args content invar (\<lambda>bs st. holds bs (chr_inner st)) usable"
proof unfold_locales
  let ?ac = "chaos_layer lucky rng ac"
  fix w rg st w'
  assume w: "invar w" "br_inside rg content" "usable rg"
  { assume "ac_read ?ac path (ro_with_range rg args) w = (Ok st, w')"
    then show "invar w' \<and> holds (br_select rg content) (chr_inner st)"
      using range_service.open_Ok [OF srv w] by (auto simp: chaos_layer_def step_Ok_iff) }
  { fix e assume "ac_read ?ac path (ro_with_range rg args) w = (Err e, w')"
    then show "invar w'"
      using range_service.open_Err [OF srv w]
      by (cases "ac_read ac path (ro_with_range rg args) w"; cases "fst (ac_read ac path (ro_with_range rg args) w)")
        (auto simp: chaos_layer_def) }
  show "fst (ac_read ?ac path (ro_with_range rg args) w) \<noteq> Panic"
    using range_service.open_Panic [OF srv w]
    by (cases "ac_read ac path (ro_with_range rg args) w"; cases "fst (ac_read ac path (ro_with_range rg args) w)")
      (auto simp: chaos_layer_def)
next
  let ?ac = "chaos_layer lucky rng ac"
  fix w bs w' and st st' :: "('r, 'g) chaos_reader"
  assume w: "invar w" "holds bs (chr_inner st)"
  have rd: "ac_reader_read ?ac = chr_read lucky (ac_reader_read ac)" by (simp add: chaos_layer_def)
  { fix b assume "ac_reader_read ?ac st w = (Ok b, st', w')"
    then have "ac_reader_read ac (chr_inner st) w = (Ok b, chr_inner st', w')" unfolding rd by (auto dest: chr_read_cases)
    from range_service.read_Ok [OF srv w this]
    show "invar w' \<and> buf_wf b \<and> (\<exists>rest. bs = buf_bytes b @ rest \<and> holds rest (chr_inner st') \<and> (buf_bytes b = [] \<longrightarrow> rest = []))" . }
  { fix e assume "ac_reader_read ?ac st w = (Err e, st', w')"
    then show "invar w'" using range_service.read_Err [OF srv w] w(1) unfolding rd by (auto dest!: chr_read_cases) }
  show "fst (ac_reader_read ?ac st w) \<noteq> Panic"
    using range_service.read_Panic [OF srv w] chr_read_cases [of lucky "ac_reader_read ac" st w] unfolding rd
    by (metis fst_conv outcome.distinct(5) prod.exhaust)
qed (rule range_service.fits [OF srv] range_service.usable_advance [OF srv]; assumption)+

text \<open>A reader that fails at its first draw fails again whenever it is opened again.\<close>

definition doomed :: "'g \<Rightarrow> ('r, 'g) chaos_reader retry_reader \<Rightarrow> bool" where
  "doomed rng st = (\<forall>r. rr_reader st = Some r \<longrightarrow> chr_rng r = rng)"

lemma doomed_read:
  assumes "\<not> fst (lucky rng)" "doomed rng st" "rr_read (chaos_layer lucky rng ac) st w = (r, st', w')"
  shows "(r = Panic \<or> (\<exists>e. r = Err e)) \<and> doomed rng st'"
proof -
  have rd: "ac_reader_read (chaos_layer lucky rng ac) = chr_read lucky (ac_reader_read ac)" by (simp add: chaos_layer_def)
  have take: "(r = Panic \<or> (\<exists>e. r = Err e)) \<and> doomed rng st'"
    if "chr_rng x = rng" "rr_take (chaos_layer lucky rng ac) x st w1 = (r, st', w')" for x w1
    using that assms(1,2) by (auto simp: rr_take_def rd chr_read_def doomed_def Let_def split: prod.splits)
  show ?thesis
  proof (cases "rr_reader st")
    case (Some x)
    with assms(2,3) take [of x w] show ?thesis by (simp add: rr_read_def doomed_def)
  next
    case None
    obtain y w1 where y: "ac_read ac (rr_path st) (rr_args st) w = (y, w1)" by fastforce
    show ?thesis
    proof (cases y)
      case (Ok x)
      with y None assms(3) take [of "\<lparr>chr_inner = x, chr_rng = rng\<rparr>" w1] show ?thesis
        by (simp add: rr_read_def chaos_layer_def [of lucky rng ac])
    qed (use y None assms(2,3) in \<open>auto simp: rr_read_def chaos_layer_def\<close>)
  qed
qed


subsection \<open>Properties\<close>

text \<open>A clock that cuts off every read that starts at a \<open>False\<close> of the schedule, and takes it off.\<close>

definition busy_clock :: "(bytes, unit, unit, unit, bool list) clock" where
  "busy_clock = \<lparr>ck_op = \<lambda>op w. None,
     ck_reader = (\<lambda>(r, w). case w of False # w' \<Rightarrow> Some (r, w') | _ \<Rightarrow> None),
     ck_writer = \<lambda>op s. None, ck_lister = \<lambda>s. None, ck_deleter = \<lambda>s. None\<rparr>"

text \<open>
  Timeouts below the retry layer, the order the documentation recommends, are harmless for readers. Let a service serve the ranges of an object and let a dropped call not change the object. A client
  that reads a range to the end gets exactly its bytes, however many calls were cut off on the way, or an error marked
  as retried.
\<close>

theorem retry_over_timeout_exact:
  assumes "range_service ac path args content invar holds usable" "backon_ok n bk" "invar w" "br_inside rng content" "usable rng"
    and "\<And>w w'. invar w \<Longrightarrow> ck_op ck OpRead w = Some w' \<Longrightarrow> invar w'"
    and "\<And>r w r' w'. invar w \<Longrightarrow> ck_reader ck (r, w) = Some (r', w') \<Longrightarrow> invar w'"
    and "ac_read (retry_layer blk bk (timeout_layer ck secs io_secs ac)) path (ro_with_range rng args) w = (Ok rd, w1)"
  shows "\<exists>res rd' w'. rd_all (ac_reader_read (retry_layer blk bk (timeout_layer ck secs io_secs ac))) (Suc (length content)) rd w1
      = Some (res, rd', w')
    \<and> (case res of Ok bufs \<Rightarrow> log_bytes bufs = br_select rng content
       | Err e \<Rightarrow> err_status e = Persistent | Panic \<Rightarrow> False)"
  by (rule retry_reader_spec [OF timeout_range_service [where ck = ck, OF assms(1) assms(6,7)] assms(2,3,4,5,8)])

theorem retry_over_timeout_exact_witness:
  "\<exists>rd w1 res rd' w'. ac_read (retry_layer False (backon_n 3) (timeout_layer busy_clock ''60'' ''10'' (flaky_object [1, 2, 3]))) ''f''
        (ro_with_range (BytesRange 1 (Some 2)) op_read_default) [True, False, True] = (Ok rd, w1)
    \<and> rd_all (ac_reader_read (retry_layer False (backon_n 3) (timeout_layer busy_clock ''60'' ''10'' (flaky_object [1, 2, 3])))) 4 rd w1
        = Some (res, rd', w')
    \<and> (case res of Ok bufs \<Rightarrow> log_bytes bufs = [2, 3] | Err e \<Rightarrow> err_status e = Persistent | Panic \<Rightarrow> False)"
proof -
  let ?ac = "retry_layer False (backon_n 3) (timeout_layer busy_clock ''60'' ''10'' (flaky_object [1, 2, 3]))"
  let ?rng = "BytesRange 1 (Some 2) :: bytes_range" and ?w = "[True, False, True]"
  define rd where "rd = rw_new (rr_new ''f'' (ro_with_range ?rng op_read_default) (tmo_new [2, 3 :: 8 word] ''10''))"
  have rng: "br_inside ?rng [1, 2, 3]" "br_select ?rng [1, 2, 3 :: 8 word] = [2, 3]"
    by (simp_all add: br_inside_def br_select_def)
  have opn: "ac_read ?ac ''f'' (ro_with_range ?rng op_read_default) ?w = (Ok rd, ?w)"
    using rng by (simp add: retry_layer_def retry_read_def retry_open_def backon_n_def flaky_object_def timeout_fields
        with_deadline_def busy_clock_def numeral_3_eq_3 rd_def)
  have "length [1, 2, 3 :: 8 word] \<le> u64_max" by (simp add: u64_max_def)
  note exact = retry_over_timeout_exact [OF flk.range_service_axioms backon_ok_n this rng(1) TrueI _ _ opn, unfolded rng(2)]
  have "\<exists>res rd' w'. rd_all (ac_reader_read ?ac) (Suc (length [1, 2, 3 :: 8 word])) rd ?w = Some (res, rd', w')
    \<and> (case res of Ok bufs \<Rightarrow> log_bytes bufs = [2, 3] | Err e \<Rightarrow> err_status e = Persistent | Panic \<Rightarrow> False)"
    by (rule exact)
  moreover have "Suc (length [1, 2, 3 :: 8 word]) = 4" by simp
  ultimately show ?thesis using opn by metis
qed

text \<open>
  A timeout around the retry layer, the order the documentation calls wrong, breaks the reader for good: the future that is dropped owns
  the reader the wrapper has taken out. Every later read that is in time reports the bad state, and the service
  is not called any more.
\<close>

theorem timeout_over_retry_breaks:
  assumes "ac = timeout_layer ck secs io_secs (retry_layer blk bk srv)"
    and "ck_reader ck (rw, w) = Some (rw\<lparr>rw_inner := None\<rparr>, w1)"
    and "ck_reader ck (rw\<lparr>rw_inner := None\<rparr>, w2) = None"
  shows "\<exists>e st'. ac_reader_read ac (tmo_new rw io_secs) w = (Err e, st', w1) \<and> is_temporary e
    \<and> ac_reader_read ac st' w2 = (Err rw_bad_state, st', w2) \<and> \<not> is_temporary rw_bad_state"
  using assms by (simp add: timeout_layer_def retry_layer_def tmo_call_def tmo_new_def with_deadline_def rw_call_def rw_take_inner_def
      timeout_error_def set_temporary_def is_temporary_def rw_bad_state_def new_error_def Let_def)

theorem timeout_over_retry_breaks_witness:
  "\<exists>e st'. ac_reader_read (timeout_layer \<lparr>ck_op = \<lambda>op w. None, ck_reader = \<lambda>(rw, w). if rw_inner rw = None then None else Some (rw\<lparr>rw_inner := None\<rparr>, w),
        ck_writer = \<lambda>op s. None, ck_lister = \<lambda>s. None, ck_deleter = \<lambda>s. None\<rparr> ''60'' ''10''
        (retry_layer False (backon_n 3) (flaky_object [1])))
      (tmo_new (rw_new (rr_new ''f'' op_read_default [1])) ''10'') [] = (Err e, st', []) \<and> is_temporary e"
  using timeout_over_retry_breaks [OF refl, of "\<lparr>ck_op = \<lambda>op w. None,
        ck_reader = \<lambda>(rw, w). if rw_inner rw = None then None else Some (rw\<lparr>rw_inner := None\<rparr>, w),
        ck_writer = \<lambda>op s. None, ck_lister = \<lambda>s. None, ck_deleter = \<lambda>s. None\<rparr>" "rw_new (rr_new ''f'' op_read_default [1])" "[]" "[]" "[]"
      "''60''" "''10''" False "backon_n 3" "flaky_object [1]"]
  by (auto simp: rw_new_def)

text \<open>
  Chaos can defeat the retry layer. Every reader starts with a copy of the accessor's random generator, which itself never
  moves. So if its first draw means failure, each reader that the retry layer opens in place of a failed one fails at
  once too: no read ever succeeds, although the service itself never fails and the error is marked
  temporary.
\<close>

theorem chaos_defeats_retry:
  assumes "backon_ok n bk" "\<not> fst (lucky rng)" "ac = retry_layer blk bk (chaos_layer lucky rng srv)"
    and "ac_read ac path args w = (Ok rd, w1)" "ac_reader_read ac rd w2 = (r, rd', w3)"
  shows "r = Panic \<or> (\<exists>e. r = Err e)"
proof -
  have bk: "retries n (bk_read bk)" "retries n (bk_reader_read bk)" using assms(1) by (simp_all add: backon_ok_def)
  let ?ch = "chaos_layer lucky rng srv"
  obtain x w0 where x: "bk_read bk is_temporary (ac_read ?ch path args) w = (x, w0)" by fastforce
  then obtain y where y: "x = Ok y" "rd = rw_new (rr_new path args y)"
    using assms(3,4) by (cases x) (auto simp: retry_layer_def retry_read_def retry_open_def)
  obtain wa where "ac_read ?ch path args wa = (Ok y, w0)"
    using retries_last [OF bk(1) x, of "\<lambda>w. True"] y(1) by blast
  then have "chr_rng y = rng" by (auto simp: chaos_layer_def step_Ok_iff)
  then have d: "doomed rng (rr_new path args y)" by (simp add: doomed_def rr_new_def)
  obtain q st1 w4 where q: "bk_reader_read bk is_temporary (\<lambda>(r, w). rr_read ?ch r w) (rr_new path args y, w2) = (q, st1, w4)"
    by (metis prod_cases3)
  obtain s0 where "doomed rng (fst s0)" "(\<lambda>(r, w). rr_read ?ch r w) s0 = (q, st1, w4)"
    using retries_last [OF bk(2) q, of "\<lambda>s. doomed rng (fst s)"] d doomed_read [where lucky = lucky, OF assms(2)]
    by (fastforce split: prod.splits)
  with doomed_read [where lucky = lucky, OF assms(2), of "fst s0" srv "snd s0" q st1 w4] have "q = Panic \<or> (\<exists>e. q = Err e)"
    by (simp add: case_prod_unfold)
  moreover have "r = persist q"
    using assms(3,5) q y(2) by (auto simp: retry_layer_def rw_call_def rw_take_inner_def rw_new_def)
  ultimately show ?thesis by auto
qed


theorem chaos_defeats_retry_witness:
  "\<exists>rd r rd' w3. ac_read (retry_layer False (backon_n 3) (chaos_layer (\<lambda>g. (False, g)) () (flaky_object [1]))) ''f''
        (ro_with_range (BytesRange 0 (Some 1)) op_read_default) [] = (Ok rd, [])
    \<and> ac_reader_read (retry_layer False (backon_n 3) (chaos_layer (\<lambda>g. (False, g)) () (flaky_object [1]))) rd [] = (r, rd', w3)
    \<and> (r = Panic \<or> (\<exists>e. r = Err e))"
proof -
  let ?ac = "retry_layer False (backon_n 3) (chaos_layer (\<lambda>g. (False, g)) () (flaky_object [1]))"
  let ?rng = "BytesRange 0 (Some 1) :: bytes_range"
  define rd where "rd = rw_new (rr_new ''f'' (ro_with_range ?rng op_read_default) \<lparr>chr_inner = [1 :: 8 word], chr_rng = ()\<rparr>)"
  have opn: "ac_read ?ac ''f'' (ro_with_range ?rng op_read_default) [] = (Ok rd, [])"
    by (simp add: retry_layer_def retry_read_def retry_open_def backon_n_def flaky_object_def chaos_layer_def
        numeral_3_eq_3 rd_def br_inside_def br_select_def)
  obtain r rd' w3 where r: "ac_reader_read ?ac rd [] = (r, rd', w3)" by (metis prod_cases3)
  from chaos_defeats_retry [OF backon_ok_n _ refl opn r] opn r show ?thesis by simp
qed





end
