(* ===== verification/Logging.thy ===== *)
theory Logging
  imports Layers Retry
begin

text \<open>
  The logging layer (\<^verbatim>\<open>core/src/layers/logging.rs\<close>). An interceptor is told when an operation starts and how it ends; it is a parameter, a function on a state \<open>'g\<close> of its own, and
  the default one writes lines to the logger. The state of the layered service is that of the service with that of the interceptor. The two halves are written out, since their
  code differs in details. The theorems: the layer changes no result and nothing in the service, and the events of an operation come in pairs that tell its outcome, except
  for the end of a blocking writer.
\<close>

subsection \<open>Interceptors\<close>

type_synonym log_context = "(string \<times> string) list"

type_synonym 'g interceptor = "accessor_info \<Rightarrow> operation \<Rightarrow> log_context \<Rightarrow> string \<Rightarrow> error option \<Rightarrow> 'g \<Rightarrow> 'g"

datatype log_level = LevelError | LevelWarn | LevelDebug | LevelTrace

fun context_display :: "log_context \<Rightarrow> string" where
  "context_display [] = []"
| "context_display [(k, v)] = k @ ''='' @ v"
| "context_display ((k, v) # kv # kvs) = k @ ''='' @ v @ '' '' @ context_display (kv # kvs)"

definition log_line :: "accessor_info \<Rightarrow> operation \<Rightarrow> log_context \<Rightarrow> string \<Rightarrow> string" where
  "log_line info op ctx message =
     ''service='' @ ai_scheme info @ '' name='' @ ai_name info @ '' '' @ context_display ctx @ '': '' @ op_into_static op @ '' '' @ message"

text \<open>An error is a line of its own; the line of the operation always follows. Unexpected errors are shown with \<open>Debug\<close>, which is the parameter \<open>dbg\<close>.\<close>

definition default_log :: "(error \<Rightarrow> string) \<Rightarrow> (log_level \<times> string) list interceptor" where
  "default_log dbg info op ctx message err lines =
     (case err of
        None \<Rightarrow> lines
      | Some e \<Rightarrow>
          lines @ [(if err_kind e = Unexpected then LevelError else LevelWarn,
                    log_line info op ctx message @ '' '' @ (if err_kind e \<noteq> Unexpected then error_display e else dbg e))])
     @ [(if op_is_oneshot op then LevelDebug else LevelTrace, log_line info op ctx message)]"

subsection \<open>The accessor\<close>

record 'r lg_reader =
  lgr_path :: string
  lgr_read :: u64
  lgr_inner :: 'r

definition lgr_new :: "string \<Rightarrow> 'r \<Rightarrow> 'r lg_reader" where
  "lgr_new path r = \<lparr>lgr_path = path, lgr_read = 0, lgr_inner = r\<rparr>"

record 'wr lg_writer =
  lgw_path :: string
  lgw_written :: u64
  lgw_inner :: 'wr

definition lgw_new :: "string \<Rightarrow> 'wr \<Rightarrow> 'wr lg_writer" where
  "lgw_new path wr = \<lparr>lgw_path = path, lgw_written = 0, lgw_inner = wr\<rparr>"

record 'l lg_lister =
  lgl_path :: string
  lgl_listed :: nat
  lgl_inner :: 'l

definition lgl_new :: "string \<Rightarrow> 'l \<Rightarrow> 'l lg_lister" where
  "lgl_new path l = \<lparr>lgl_path = path, lgl_listed = 0, lgl_inner = l\<rparr>"

record 'd lg_deleter =
  lgd_queued :: nat
  lgd_deleted :: nat
  lgd_inner :: 'd

definition lgd_new :: "'d \<Rightarrow> 'd lg_deleter" where
  "lgd_new d = \<lparr>lgd_queued = 0, lgd_deleted = 0, lgd_inner = d\<rparr>"

definition lg_info :: "'g interceptor \<Rightarrow> accessor_info \<Rightarrow> 'g \<Rightarrow> accessor_info \<times> 'g" where
  "lg_info lg info g = (info, lg info OpInfo [] ''finished'' None (lg info OpInfo [] ''started'' None g))"

text \<open>A call between two events: the messages of success and failure, and what is made of the result.\<close>

definition lg_call ::
  "'g interceptor \<Rightarrow> accessor_info \<Rightarrow> operation \<Rightarrow> log_context \<Rightarrow> string \<Rightarrow> string \<Rightarrow> ('a \<Rightarrow> 'b) \<Rightarrow> ('w \<Rightarrow> 'a res \<times> 'w)
     \<Rightarrow> 'w \<times> 'g \<Rightarrow> 'b res \<times> 'w \<times> 'g" where
  "lg_call lg info op ctx fine bad wrap call = (\<lambda>(w, g).
     let g1 = lg info op ctx ''started'' None g in
     case call w of
       (Ok a, w') \<Rightarrow> (Ok (wrap a), w', lg info op ctx fine None g1)
     | (Err e, w') \<Rightarrow> (Err e, w', lg info op ctx bad (Some e) g1)
     | (Panic, w') \<Rightarrow> (Panic, w', g1))"

definition lg_create_dir :: "'g interceptor \<Rightarrow> ('r, 'wr, 'l, 'd, 'w) access \<Rightarrow> string \<Rightarrow> 'w \<times> 'g \<Rightarrow> unit res \<times> 'w \<times> 'g" where
  "lg_create_dir lg ac path =
     lg_call lg (ac_info ac) OpCreateDir [(''path'', path)] ''finished'' ''failed'' id (ac_create_dir ac path)"

definition lg_read :: "'g interceptor \<Rightarrow> ('r, 'wr, 'l, 'd, 'w) access \<Rightarrow> string \<Rightarrow> op_read \<Rightarrow> 'w \<times> 'g \<Rightarrow> 'r lg_reader res \<times> 'w \<times> 'g" where
  "lg_read lg ac path args =
     lg_call lg (ac_info ac) OpRead [(''path'', path)] ''created reader'' ''failed'' (lgr_new path) (ac_read ac path args)"

definition lg_write :: "'g interceptor \<Rightarrow> ('r, 'wr, 'l, 'd, 'w) access \<Rightarrow> string \<Rightarrow> op_write \<Rightarrow> 'w \<times> 'g \<Rightarrow> 'wr lg_writer res \<times> 'w \<times> 'g" where
  "lg_write lg ac path args =
     lg_call lg (ac_info ac) OpWrite [(''path'', path)] ''created writer'' ''failed'' (lgw_new path) (ac_write ac path args)"

definition lg_copy :: "'g interceptor \<Rightarrow> ('r, 'wr, 'l, 'd, 'w) access \<Rightarrow> string \<Rightarrow> string \<Rightarrow> 'w \<times> 'g \<Rightarrow> unit res \<times> 'w \<times> 'g" where
  "lg_copy lg ac a b =
     lg_call lg (ac_info ac) OpCopy [(''from'', a), (''to'', b)] ''finished'' ''failed'' id (ac_copy ac a b)"

definition lg_rename :: "'g interceptor \<Rightarrow> ('r, 'wr, 'l, 'd, 'w) access \<Rightarrow> string \<Rightarrow> string \<Rightarrow> 'w \<times> 'g \<Rightarrow> unit res \<times> 'w \<times> 'g" where
  "lg_rename lg ac a b =
     lg_call lg (ac_info ac) OpRename [(''from'', a), (''to'', b)] ''finished'' ''failed'' id (ac_rename ac a b)"

text \<open>A \<open>stat\<close> that does not return leaves no second event.\<close>

definition lg_stat :: "'g interceptor \<Rightarrow> ('r, 'wr, 'l, 'd, 'w) access \<Rightarrow> string \<Rightarrow> op_stat \<Rightarrow> 'w \<times> 'g \<Rightarrow> (metadata res \<times> 'w \<times> 'g) option" where
  "lg_stat lg ac path args = (\<lambda>(w, g).
     map_option (\<lambda>x. lg_call lg (ac_info ac) OpStat [(''path'', path)] ''finished'' ''failed'' id (\<lambda>_. x) (w, g)) (ac_stat ac path args w))"

definition lg_delete :: "'g interceptor \<Rightarrow> ('r, 'wr, 'l, 'd, 'w) access \<Rightarrow> 'w \<times> 'g \<Rightarrow> 'd lg_deleter res \<times> 'w \<times> 'g" where
  "lg_delete lg ac = lg_call lg (ac_info ac) OpDelete [] ''finished'' ''failed'' lgd_new (ac_delete ac)"

definition lg_list :: "'g interceptor \<Rightarrow> ('r, 'wr, 'l, 'd, 'w) access \<Rightarrow> string \<Rightarrow> op_list \<Rightarrow> 'w \<times> 'g \<Rightarrow> 'l lg_lister res \<times> 'w \<times> 'g" where
  "lg_list lg ac path args =
     lg_call lg (ac_info ac) OpList [(''path'', path)] ''created lister'' ''failed'' (lgl_new path) (ac_list ac path args)"

text \<open>Presigning is not part of \<open>access\<close>; the call of the inner service is an argument.\<close>

definition lg_presign :: "'g interceptor \<Rightarrow> accessor_info \<Rightarrow> ('w \<Rightarrow> 'p res \<times> 'w) \<Rightarrow> string \<Rightarrow> 'w \<times> 'g \<Rightarrow> 'p res \<times> 'w \<times> 'g" where
  "lg_presign lg info call path = lg_call lg info OpPresign [(''path'', path)] ''finished'' ''failed'' id call"

subsection \<open>Readers, writers, listers, deleters\<close>

definition lg_reader_read ::
  "'g interceptor \<Rightarrow> ('r, 'wr, 'l, 'd, 'w) access \<Rightarrow> 'r lg_reader \<Rightarrow> 'w \<times> 'g \<Rightarrow> buffer res \<times> 'r lg_reader \<times> 'w \<times> 'g" where
  "lg_reader_read lg ac st = (\<lambda>(w, g).
     let lg = lg (ac_info ac) OpReaderRead;
         at = [(''path'', lgr_path st), (''read'', show_u64 (lgr_read st))];
         g1 = lg at ''started'' None g
     in case ac_reader_read ac (lgr_inner st) w of
          (Ok bs, r, w') \<Rightarrow>
            (case u64_add (lgr_read st) (of_nat (buf_len bs)) of
               Ok n \<Rightarrow>
                 (Ok bs, st\<lparr>lgr_read := n, lgr_inner := r\<rparr>, w',
                  lg [(''path'', lgr_path st), (''read'', show_u64 n), (''size'', show_nat (buf_len bs))]
                    (if buf_is_empty bs then ''finished'' else ''succeeded'') None g1)
             | Err e \<Rightarrow> (Err e, st\<lparr>lgr_inner := r\<rparr>, w', g1)
             | Panic \<Rightarrow> (Panic, st\<lparr>lgr_inner := r\<rparr>, w', g1))
        | (Err e, r, w') \<Rightarrow> (Err e, st\<lparr>lgr_inner := r\<rparr>, w', lg at ''failed'' (Some e) g1)
        | (Panic, r, w') \<Rightarrow> (Panic, st\<lparr>lgr_inner := r\<rparr>, w', g1))"

definition lg_writer_write ::
  "'g interceptor \<Rightarrow> ('r, 'wr, 'l, 'd, 'w) access \<Rightarrow> buffer \<Rightarrow> 'wr lg_writer \<Rightarrow> 'w \<times> 'g \<Rightarrow> unit res \<times> 'wr lg_writer \<times> 'w \<times> 'g" where
  "lg_writer_write lg ac bs st = (\<lambda>(w, g).
     let lg = lg (ac_info ac) OpWriterWrite;
         at = (\<lambda>n. [(''path'', lgw_path st), (''written'', show_u64 n), (''size'', show_nat (buf_len bs))]);
         g1 = lg (at (lgw_written st)) ''started'' None g
     in case ac_writer_write ac bs (lgw_inner st) w of
          (Ok u, wr, w') \<Rightarrow>
            (case u64_add (lgw_written st) (of_nat (buf_len bs)) of
               Ok n \<Rightarrow> (Ok u, st\<lparr>lgw_written := n, lgw_inner := wr\<rparr>, w', lg (at n) ''succeeded'' None g1)
             | Err e \<Rightarrow> (Err e, st\<lparr>lgw_inner := wr\<rparr>, w', g1)
             | Panic \<Rightarrow> (Panic, st\<lparr>lgw_inner := wr\<rparr>, w', g1))
        | (Err e, wr, w') \<Rightarrow> (Err e, st\<lparr>lgw_inner := wr\<rparr>, w', lg (at (lgw_written st)) ''failed'' (Some e) g1)
        | (Panic, wr, w') \<Rightarrow> (Panic, st\<lparr>lgw_inner := wr\<rparr>, w', g1))"

text \<open>The other operations of a writer, with the operation named at the start, at success and at failure.\<close>

definition lg_writer_end ::
  "'g interceptor \<Rightarrow> accessor_info \<Rightarrow> operation \<Rightarrow> operation \<Rightarrow> ('wr \<Rightarrow> 'w \<Rightarrow> unit res \<times> 'wr \<times> 'w)
     \<Rightarrow> 'wr lg_writer \<Rightarrow> 'w \<times> 'g \<Rightarrow> unit res \<times> 'wr lg_writer \<times> 'w \<times> 'g" where
  "lg_writer_end lg info op fine_op call st = (\<lambda>(w, g).
     let at = [(''path'', lgw_path st), (''written'', show_u64 (lgw_written st))];
         g1 = lg info op at ''started'' None g;
         (r, wr, w') = call (lgw_inner st) w;
         st' = st\<lparr>lgw_inner := wr\<rparr>
     in case r of
          Ok u \<Rightarrow> (r, st', w', lg info fine_op at ''succeeded'' None g1)
        | Err e \<Rightarrow> (r, st', w', lg info op at ''failed'' (Some e) g1)
        | Panic \<Rightarrow> (r, st', w', g1))"

definition lg_writer_abort ::
  "'g interceptor \<Rightarrow> ('r, 'wr, 'l, 'd, 'w) access \<Rightarrow> 'wr lg_writer \<Rightarrow> 'w \<times> 'g \<Rightarrow> unit res \<times> 'wr lg_writer \<times> 'w \<times> 'g" where
  "lg_writer_abort lg ac = lg_writer_end lg (ac_info ac) OpWriterAbort OpWriterAbort (ac_writer_abort ac)"

definition lg_writer_close ::
  "'g interceptor \<Rightarrow> ('r, 'wr, 'l, 'd, 'w) access \<Rightarrow> 'wr lg_writer \<Rightarrow> 'w \<times> 'g \<Rightarrow> unit res \<times> 'wr lg_writer \<times> 'w \<times> 'g" where
  "lg_writer_close lg ac = lg_writer_end lg (ac_info ac) OpWriterClose OpWriterClose (ac_writer_close ac)"

definition lg_lister_next ::
  "'g interceptor \<Rightarrow> ('r, 'wr, 'l, 'd, 'w) access \<Rightarrow> 'l lg_lister \<Rightarrow> 'w \<times> 'g \<Rightarrow> (oio_entry option res \<times> 'l lg_lister \<times> 'w \<times> 'g) option" where
  "lg_lister_next lg ac st = (\<lambda>(w, g).
     let lg = lg (ac_info ac) OpListerNext;
         at = (\<lambda>n. [(''path'', lgl_path st), (''listed'', show_nat n)]);
         n = lgl_listed st;
         g1 = lg (at n) ''started'' None g
     in map_option (\<lambda>(r, l, w').
          let st' = st\<lparr>lgl_inner := l\<rparr> in
          case r of
            Ok (Some de) \<Rightarrow>
              (r, st'\<lparr>lgl_listed := Suc n\<rparr>, w', lg (at (Suc n) @ [(''entry'', oe_path de)]) ''succeeded'' None g1)
          | Ok None \<Rightarrow> (r, st', w', lg (at n) ''finished'' None g1)
          | Err e \<Rightarrow> (r, st', w', lg (at n) ''failed'' (Some e) g1)
          | Panic \<Rightarrow> (r, st', w', g1)) (ac_lister_next ac (lgl_inner st) w))"

definition lg_deleter_delete ::
  "'g interceptor \<Rightarrow> ('r, 'wr, 'l, 'd, 'w) access \<Rightarrow> string \<Rightarrow> op_delete \<Rightarrow> 'd lg_deleter \<Rightarrow> 'w \<times> 'g \<Rightarrow> unit res \<times> 'd lg_deleter \<times> 'w \<times> 'g" where
  "lg_deleter_delete lg ac path args st = (\<lambda>(w, g).
     let lg = lg (ac_info ac) OpDeleterDelete;
         at = [(''path'', path), (''version'', case od_version args of Some v \<Rightarrow> v | None \<Rightarrow> ''<latest>'')];
         counts = (\<lambda>q. [(''queued'', show_nat q), (''deleted'', show_nat (lgd_deleted st))]);
         g1 = lg at ''started'' None g;
         (r, d, w') = ac_deleter_delete ac path args (lgd_inner st) w;
         st' = st\<lparr>lgd_inner := d\<rparr>
     in case r of
          Ok u \<Rightarrow>
            (r, st'\<lparr>lgd_queued := Suc (lgd_queued st)\<rparr>, w', lg (at @ counts (Suc (lgd_queued st))) ''succeeded'' None g1)
        | Err e \<Rightarrow> (r, st', w', lg (at @ counts (lgd_queued st)) ''failed'' (Some e) g1)
        | Panic \<Rightarrow> (r, st', w', g1))"

definition lg_deleter_flush ::
  "'g interceptor \<Rightarrow> ('r, 'wr, 'l, 'd, 'w) access \<Rightarrow> 'd lg_deleter \<Rightarrow> 'w \<times> 'g \<Rightarrow> nat res \<times> 'd lg_deleter \<times> 'w \<times> 'g" where
  "lg_deleter_flush lg ac st = (\<lambda>(w, g).
     let lg = lg (ac_info ac) OpDeleterFlush;
         counts = (\<lambda>q d. [(''queued'', show_nat q), (''deleted'', show_nat d)]);
         q = lgd_queued st; n = lgd_deleted st;
         g1 = lg (counts q n) ''started'' None g;
         (r, d, w') = ac_deleter_flush ac (lgd_inner st) w;
         st' = st\<lparr>lgd_inner := d\<rparr>
     in case r of
          Ok flushed \<Rightarrow>
            if flushed \<le> q
            then (r, st'\<lparr>lgd_queued := q - flushed, lgd_deleted := n + flushed\<rparr>, w',
                  lg (counts (q - flushed) (n + flushed)) ''succeeded'' None g1)
            else (Panic, st', w', g1)
        | Err e \<Rightarrow> (r, st', w', lg (counts q n) ''failed'' (Some e) g1)
        | Panic \<Rightarrow> (r, st', w', g1))"

definition logging_layer ::
  "'g interceptor \<Rightarrow> ('r, 'wr, 'l, 'd, 'w) access
     \<Rightarrow> ('r lg_reader, 'wr lg_writer, 'l lg_lister, 'd lg_deleter, 'w \<times> 'g) access" where
  "logging_layer lg ac =
     \<lparr>ac_info = ac_info ac,
      ac_create_dir = lg_create_dir lg ac,
      ac_stat = lg_stat lg ac,
      ac_read = lg_read lg ac,
      ac_write = lg_write lg ac,
      ac_delete = lg_delete lg ac,
      ac_list = lg_list lg ac,
      ac_copy = lg_copy lg ac,
      ac_rename = lg_rename lg ac,
      ac_reader_read = lg_reader_read lg ac,
      ac_writer_write = lg_writer_write lg ac,
      ac_writer_close = lg_writer_close lg ac,
      ac_writer_abort = lg_writer_abort lg ac,
      ac_lister_next = lg_lister_next lg ac,
      ac_deleter_delete = lg_deleter_delete lg ac,
      ac_deleter_flush = lg_deleter_flush lg ac\<rparr>"

subsection \<open>The blocking half\<close>

definition lgb_create_dir :: "'g interceptor \<Rightarrow> ('r, 'wr, 'l, 'd, 'w) access \<Rightarrow> string \<Rightarrow> 'w \<times> 'g \<Rightarrow> unit res \<times> 'w \<times> 'g" where
  "lgb_create_dir lg ac path =
     lg_call lg (ac_info ac) OpBlockingCreateDir [(''path'', path)] ''finished'' ''failed'' id (ac_create_dir ac path)"

definition lgb_read :: "'g interceptor \<Rightarrow> ('r, 'wr, 'l, 'd, 'w) access \<Rightarrow> string \<Rightarrow> op_read \<Rightarrow> 'w \<times> 'g \<Rightarrow> 'r lg_reader res \<times> 'w \<times> 'g" where
  "lgb_read lg ac path args =
     lg_call lg (ac_info ac) OpBlockingRead [(''path'', path)] ''created reader'' ''failed'' (lgr_new path) (ac_read ac path args)"

definition lgb_write :: "'g interceptor \<Rightarrow> ('r, 'wr, 'l, 'd, 'w) access \<Rightarrow> string \<Rightarrow> op_write \<Rightarrow> 'w \<times> 'g \<Rightarrow> 'wr lg_writer res \<times> 'w \<times> 'g" where
  "lgb_write lg ac path args =
     lg_call lg (ac_info ac) OpBlockingWrite [(''path'', path)] ''created writer'' ''failed'' (lgw_new path) (ac_write ac path args)"

text \<open>The failures of \<open>blocking_copy\<close> and \<open>blocking_list\<close> have an empty message.\<close>

definition lgb_copy :: "'g interceptor \<Rightarrow> ('r, 'wr, 'l, 'd, 'w) access \<Rightarrow> string \<Rightarrow> string \<Rightarrow> 'w \<times> 'g \<Rightarrow> unit res \<times> 'w \<times> 'g" where
  "lgb_copy lg ac a b =
     lg_call lg (ac_info ac) OpBlockingCopy [(''from'', a), (''to'', b)] ''finished'' [] id (ac_copy ac a b)"

definition lgb_rename :: "'g interceptor \<Rightarrow> ('r, 'wr, 'l, 'd, 'w) access \<Rightarrow> string \<Rightarrow> string \<Rightarrow> 'w \<times> 'g \<Rightarrow> unit res \<times> 'w \<times> 'g" where
  "lgb_rename lg ac a b =
     lg_call lg (ac_info ac) OpBlockingRename [(''from'', a), (''to'', b)] ''finished'' ''failed'' id (ac_rename ac a b)"

definition lgb_stat :: "'g interceptor \<Rightarrow> ('r, 'wr, 'l, 'd, 'w) access \<Rightarrow> string \<Rightarrow> op_stat \<Rightarrow> 'w \<times> 'g \<Rightarrow> (metadata res \<times> 'w \<times> 'g) option" where
  "lgb_stat lg ac path args = (\<lambda>(w, g).
     map_option (\<lambda>x. lg_call lg (ac_info ac) OpBlockingStat [(''path'', path)] ''finished'' ''failed'' id (\<lambda>_. x) (w, g)) (ac_stat ac path args w))"

definition lgb_delete :: "'g interceptor \<Rightarrow> ('r, 'wr, 'l, 'd, 'w) access \<Rightarrow> 'w \<times> 'g \<Rightarrow> 'd lg_deleter res \<times> 'w \<times> 'g" where
  "lgb_delete lg ac = lg_call lg (ac_info ac) OpBlockingDelete [] ''finished'' ''failed'' lgd_new (ac_delete ac)"

definition lgb_list :: "'g interceptor \<Rightarrow> ('r, 'wr, 'l, 'd, 'w) access \<Rightarrow> string \<Rightarrow> op_list \<Rightarrow> 'w \<times> 'g \<Rightarrow> 'l lg_lister res \<times> 'w \<times> 'g" where
  "lgb_list lg ac path args =
     lg_call lg (ac_info ac) OpBlockingList [(''path'', path)] ''created lister'' [] (lgl_new path) (ac_list ac path args)"

definition lgb_reader_read ::
  "'g interceptor \<Rightarrow> ('r, 'wr, 'l, 'd, 'w) access \<Rightarrow> 'r lg_reader \<Rightarrow> 'w \<times> 'g \<Rightarrow> buffer res \<times> 'r lg_reader \<times> 'w \<times> 'g" where
  "lgb_reader_read lg ac st = (\<lambda>(w, g).
     let lg = lg (ac_info ac) OpBlockingReaderRead;
         at = [(''path'', lgr_path st), (''read'', show_u64 (lgr_read st))];
         g1 = lg at ''started'' None g
     in case ac_reader_read ac (lgr_inner st) w of
          (Ok bs, r, w') \<Rightarrow>
            (case u64_add (lgr_read st) (of_nat (buf_len bs)) of
               Ok n \<Rightarrow>
                 (Ok bs, st\<lparr>lgr_read := n, lgr_inner := r\<rparr>, w',
                  lg [(''path'', lgr_path st), (''read'', show_u64 n), (''size'', show_nat (buf_len bs))]
                    (if buf_is_empty bs then ''finished'' else ''succeeded'') None g1)
             | Err e \<Rightarrow> (Err e, st\<lparr>lgr_inner := r\<rparr>, w', g1)
             | Panic \<Rightarrow> (Panic, st\<lparr>lgr_inner := r\<rparr>, w', g1))
        | (Err e, r, w') \<Rightarrow> (Err e, st\<lparr>lgr_inner := r\<rparr>, w', lg at ''failed'' (Some e) g1)
        | (Panic, r, w') \<Rightarrow> (Panic, st\<lparr>lgr_inner := r\<rparr>, w', g1))"

text \<open>The blocking writer does not count what it has written, and ends its close with the event of a write.\<close>

definition lgb_writer_write ::
  "'g interceptor \<Rightarrow> ('r, 'wr, 'l, 'd, 'w) access \<Rightarrow> buffer \<Rightarrow> 'wr lg_writer \<Rightarrow> 'w \<times> 'g \<Rightarrow> unit res \<times> 'wr lg_writer \<times> 'w \<times> 'g" where
  "lgb_writer_write lg ac bs st = (\<lambda>(w, g).
     let lg = lg (ac_info ac) OpBlockingWriterWrite;
         at = [(''path'', lgw_path st), (''written'', show_u64 (lgw_written st)), (''size'', show_nat (buf_len bs))];
         g1 = lg at ''started'' None g;
         (r, wr, w') = ac_writer_write ac bs (lgw_inner st) w;
         st' = st\<lparr>lgw_inner := wr\<rparr>
     in case r of
          Ok u \<Rightarrow> (r, st', w', lg at ''succeeded'' None g1)
        | Err e \<Rightarrow> (r, st', w', lg at ''failed'' (Some e) g1)
        | Panic \<Rightarrow> (r, st', w', g1))"

definition lgb_writer_close ::
  "'g interceptor \<Rightarrow> ('r, 'wr, 'l, 'd, 'w) access \<Rightarrow> 'wr lg_writer \<Rightarrow> 'w \<times> 'g \<Rightarrow> unit res \<times> 'wr lg_writer \<times> 'w \<times> 'g" where
  "lgb_writer_close lg ac = lg_writer_end lg (ac_info ac) OpBlockingWriterClose OpBlockingWriterWrite (ac_writer_close ac)"

definition lgb_lister_next ::
  "'g interceptor \<Rightarrow> ('r, 'wr, 'l, 'd, 'w) access \<Rightarrow> 'l lg_lister \<Rightarrow> 'w \<times> 'g \<Rightarrow> (oio_entry option res \<times> 'l lg_lister \<times> 'w \<times> 'g) option" where
  "lgb_lister_next lg ac st = (\<lambda>(w, g).
     let lg = lg (ac_info ac) OpBlockingListerNext;
         at = (\<lambda>n. [(''path'', lgl_path st), (''listed'', show_nat n)]);
         n = lgl_listed st;
         g1 = lg (at n) ''started'' None g
     in map_option (\<lambda>(r, l, w').
          let st' = st\<lparr>lgl_inner := l\<rparr> in
          case r of
            Ok (Some de) \<Rightarrow>
              (r, st'\<lparr>lgl_listed := Suc n\<rparr>, w', lg (at (Suc n) @ [(''entry'', oe_path de)]) ''succeeded'' None g1)
          | Ok None \<Rightarrow> (r, st', w', lg (at n) ''finished'' None g1)
          | Err e \<Rightarrow> (r, st', w', lg (at n) ''failed'' (Some e) g1)
          | Panic \<Rightarrow> (r, st', w', g1)) (ac_lister_next ac (lgl_inner st) w))"

definition lgb_deleter_delete ::
  "'g interceptor \<Rightarrow> ('r, 'wr, 'l, 'd, 'w) access \<Rightarrow> string \<Rightarrow> op_delete \<Rightarrow> 'd lg_deleter \<Rightarrow> 'w \<times> 'g \<Rightarrow> unit res \<times> 'd lg_deleter \<times> 'w \<times> 'g" where
  "lgb_deleter_delete lg ac path args st = (\<lambda>(w, g).
     let lg = lg (ac_info ac) OpBlockingDeleterDelete;
         at = [(''path'', path), (''version'', case od_version args of Some v \<Rightarrow> v | None \<Rightarrow> ''<latest>'')];
         counts = (\<lambda>q. [(''queued'', show_nat q), (''deleted'', show_nat (lgd_deleted st))]);
         g1 = lg at ''started'' None g;
         (r, d, w') = ac_deleter_delete ac path args (lgd_inner st) w;
         st' = st\<lparr>lgd_inner := d\<rparr>
     in case r of
          Ok u \<Rightarrow>
            (r, st'\<lparr>lgd_queued := Suc (lgd_queued st)\<rparr>, w', lg (at @ counts (Suc (lgd_queued st))) ''succeeded'' None g1)
        | Err e \<Rightarrow> (r, st', w', lg (at @ counts (lgd_queued st)) ''failed'' (Some e) g1)
        | Panic \<Rightarrow> (r, st', w', g1))"

definition lgb_deleter_flush ::
  "'g interceptor \<Rightarrow> ('r, 'wr, 'l, 'd, 'w) access \<Rightarrow> 'd lg_deleter \<Rightarrow> 'w \<times> 'g \<Rightarrow> nat res \<times> 'd lg_deleter \<times> 'w \<times> 'g" where
  "lgb_deleter_flush lg ac st = (\<lambda>(w, g).
     let lg = lg (ac_info ac) OpBlockingDeleterFlush;
         counts = (\<lambda>q d. [(''queued'', show_nat q), (''deleted'', show_nat d)]);
         q = lgd_queued st; n = lgd_deleted st;
         g1 = lg (counts q n) ''started'' None g;
         (r, d, w') = ac_deleter_flush ac (lgd_inner st) w;
         st' = st\<lparr>lgd_inner := d\<rparr>
     in case r of
          Ok flushed \<Rightarrow>
            if flushed \<le> q
            then (r, st'\<lparr>lgd_queued := q - flushed, lgd_deleted := n + flushed\<rparr>, w',
                  lg (counts (q - flushed) (n + flushed)) ''succeeded'' None g1)
            else (Panic, st', w', g1)
        | Err e \<Rightarrow> (r, st', w', lg (counts q n) ''failed'' (Some e) g1)
        | Panic \<Rightarrow> (r, st', w', g1))"

definition logging_blocking_layer ::
  "'g interceptor \<Rightarrow> ('r, 'wr, 'l, 'd, 'w) access
     \<Rightarrow> ('r lg_reader, 'wr lg_writer, 'l lg_lister, 'd lg_deleter, 'w \<times> 'g) access" where
  "logging_blocking_layer lg ac =
     \<lparr>ac_info = ac_info ac,
      ac_create_dir = lgb_create_dir lg ac,
      ac_stat = lgb_stat lg ac,
      ac_read = lgb_read lg ac,
      ac_write = lgb_write lg ac,
      ac_delete = lgb_delete lg ac,
      ac_list = lgb_list lg ac,
      ac_copy = lgb_copy lg ac,
      ac_rename = lgb_rename lg ac,
      ac_reader_read = lgb_reader_read lg ac,
      ac_writer_write = lgb_writer_write lg ac,
      ac_writer_close = lgb_writer_close lg ac,
      ac_writer_abort = (\<lambda>st s. (Panic, st, s)),
      ac_lister_next = lgb_lister_next lg ac,
      ac_deleter_delete = lgb_deleter_delete lg ac,
      ac_deleter_flush = lgb_deleter_flush lg ac\<rparr>"

subsection \<open>Forgetting the log\<close>

definition erase :: "'a res \<times> 'w \<times> 'g \<Rightarrow> 'a res \<times> 'w" where
  "erase = (\<lambda>(r, w, g). (r, w))"

definition erase_in :: "('s \<Rightarrow> 't) \<Rightarrow> 'a res \<times> 's \<times> 'w \<times> 'g \<Rightarrow> 'a res \<times> 't \<times> 'w" where
  "erase_in inner = (\<lambda>(r, st, w, g). (r, inner st, w))"

definition wrapped :: "('a \<Rightarrow> 'b) \<Rightarrow> 'a res \<times> 'w \<Rightarrow> 'b res \<times> 'w" where
  "wrapped f = (\<lambda>(r, w). (map_outcome id f r, w))"

lemma erase_call: "erase (lg_call lg info op ctx fine bad wrap call (w, g)) = wrapped wrap (call w)"
  by (auto simp: lg_call_def erase_def wrapped_def Let_def split: prod.splits outcome.splits)

lemma wrapped_id [simp]: "wrapped id x = x"
  by (cases x; cases "fst x") (simp_all add: wrapped_def)

lemma u64_add_count: "unat a + n \<le> u64_max \<Longrightarrow> u64_add a (of_nat n) = Ok (a + of_nat n)"
proof -
  assume a: "unat a + n \<le> u64_max"
  then have "unat (of_nat n :: u64) = n" by (intro unat_of_nat_u64) simp
  with a show ?thesis by (simp add: u64_add_def)
qed

text \<open>The counters of readers and writers are checked additions; they do not overflow below \<open>u64_max\<close>.\<close>

definition read_fits :: "('r, 'wr, 'l, 'd, 'w) access \<Rightarrow> 'r lg_reader \<Rightarrow> 'w \<Rightarrow> bool" where
  "read_fits ac st w = (case ac_reader_read ac (lgr_inner st) w of
     (Ok bs, r, w') \<Rightarrow> unat (lgr_read st) + buf_len bs \<le> u64_max | _ \<Rightarrow> True)"

definition flush_fits :: "('r, 'wr, 'l, 'd, 'w) access \<Rightarrow> 'd lg_deleter \<Rightarrow> 'w \<Rightarrow> bool" where
  "flush_fits ac st w = (case ac_deleter_flush ac (lgd_inner st) w of (Ok n, d, w') \<Rightarrow> n \<le> lgd_queued st | _ \<Rightarrow> True)"

lemma erase_reader:
  assumes "read_fits ac st w"
  shows "erase_in lgr_inner (lg_reader_read lg ac st (w, g)) = ac_reader_read ac (lgr_inner st) w"
    "erase_in lgr_inner (lgb_reader_read lg ac st (w, g)) = ac_reader_read ac (lgr_inner st) w"
  using assms
  by (auto simp: u64_add_count lg_reader_read_def lgb_reader_read_def read_fits_def erase_in_def Let_def split: prod.splits outcome.splits)

lemma erase_writer:
  "unat (lgw_written st) + buf_len bs \<le> u64_max
     \<Longrightarrow> erase_in lgw_inner (lg_writer_write lg ac bs st (w, g)) = ac_writer_write ac bs (lgw_inner st) w"
  "erase_in lgw_inner (lgb_writer_write lg ac bs st (w, g)) = ac_writer_write ac bs (lgw_inner st) w"
  "erase_in lgw_inner (lg_writer_end lg info op op' call st (w, g)) = call (lgw_inner st) w"
  by (auto simp: u64_add_count lg_writer_write_def lgb_writer_write_def lg_writer_end_def erase_in_def Let_def split: prod.splits outcome.splits)

lemma erase_lister:
  "map_option (erase_in lgl_inner) (lg_lister_next lg ac st (w, g)) = ac_lister_next ac (lgl_inner st) w"
  "map_option (erase_in lgl_inner) (lgb_lister_next lg ac st (w, g)) = ac_lister_next ac (lgl_inner st) w"
  by (cases "ac_lister_next ac (lgl_inner st) w";
      auto simp: lg_lister_next_def lgb_lister_next_def erase_in_def Let_def split: prod.splits outcome.splits option.splits)+

lemma erase_deleter:
  "erase_in lgd_inner (lg_deleter_delete lg ac path da st (w, g)) = ac_deleter_delete ac path da (lgd_inner st) w"
  "erase_in lgd_inner (lgb_deleter_delete lg ac path da st (w, g)) = ac_deleter_delete ac path da (lgd_inner st) w"
  "flush_fits ac st w \<Longrightarrow> erase_in lgd_inner (lg_deleter_flush lg ac st (w, g)) = ac_deleter_flush ac (lgd_inner st) w"
  "flush_fits ac st w \<Longrightarrow> erase_in lgd_inner (lgb_deleter_flush lg ac st (w, g)) = ac_deleter_flush ac (lgd_inner st) w"
  by (auto simp: lg_deleter_delete_def lgb_deleter_delete_def lg_deleter_flush_def lgb_deleter_flush_def erase_in_def flush_fits_def Let_def
      split: prod.splits outcome.splits)

subsection \<open>What is logged\<close>

type_synonym log_event = "operation \<times> log_context \<times> string \<times> error option"

definition recorder :: "log_event list interceptor" where
  "recorder info op ctx message err evs = evs @ [(op, ctx, message, err)]"

text \<open>The events of an operation: its start, and its end unless it panics. The end says \<open>failed\<close>, with the error, when the operation fails, and only then.\<close>

definition told :: "operation \<Rightarrow> 'a res \<Rightarrow> log_event list \<Rightarrow> bool" where
  "told op r evs = (\<exists>c c' m. evs = (op, c, ''started'', None) #
     (case r of
        Ok a \<Rightarrow> [(op, c', m, None)]
      | Err e \<Rightarrow> [(op, c', ''failed'', Some e)]
      | Panic \<Rightarrow> []) \<and> m \<noteq> ''failed'')"

definition tells :: "operation \<Rightarrow> log_event list \<Rightarrow> 'a res \<Rightarrow> log_event list \<Rightarrow> bool" where
  "tells op g r g' = (\<exists>evs. g' = g @ evs \<and> told op r evs)"

lemma tells_two [intro]:
  "m \<noteq> ''failed'' \<Longrightarrow> tells op g (Ok a) ((g @ [(op, c, ''started'', None)]) @ [(op, c', m, None)])"
  "tells op g (Err e) ((g @ [(op, c, ''started'', None)]) @ [(op, c', ''failed'', Some e)])"
  "tells op g Panic (g @ [(op, c, ''started'', None)])"
  by (auto simp: tells_def told_def)

lemma tells_two' [simp]:
  "tells op g (Ok a) (g @ [(op, c, ''started'', None), (op, c', m, None)]) \<longleftrightarrow> m \<noteq> ''failed''"
  "tells op g (Err e) (g @ [(op, c, ''started'', None), (op, c', m, Some e)]) \<longleftrightarrow> m = ''failed''"
  "tells op g Panic (g @ [(op, c, ''started'', None)])"
  by (auto simp: tells_def told_def)

lemma call_tells:
  assumes "lg_call recorder info op ctx fine ''failed'' wrap call (w, g) = (r, w', g')" "fine \<noteq> ''failed''"
  shows "tells op g r g'"
  using assms by (auto simp: lg_call_def recorder_def Let_def split: prod.splits outcome.splits)

lemma opens_tell:
  "lg_create_dir recorder ac path (w, g) = (r1, w1, g1) \<Longrightarrow> tells OpCreateDir g r1 g1"
  "lg_read recorder ac path ra (w, g) = (r2, w1, g1) \<Longrightarrow> tells OpRead g r2 g1"
  "lg_write recorder ac path wa (w, g) = (r3, w1, g1) \<Longrightarrow> tells OpWrite g r3 g1"
  "lg_copy recorder ac path b (w, g) = (r1, w1, g1) \<Longrightarrow> tells OpCopy g r1 g1"
  "lg_rename recorder ac path b (w, g) = (r1, w1, g1) \<Longrightarrow> tells OpRename g r1 g1"
  "lg_stat recorder ac path sa (w, g) = Some (r4, w1, g1) \<Longrightarrow> tells OpStat g r4 g1"
  "lg_delete recorder ac (w, g) = (r5, w1, g1) \<Longrightarrow> tells OpDelete g r5 g1"
  "lg_list recorder ac path la (w, g) = (r6, w1, g1) \<Longrightarrow> tells OpList g r6 g1"
  by (auto simp: lg_create_dir_def lg_read_def lg_write_def lg_copy_def lg_rename_def lg_stat_def lg_delete_def lg_list_def elim!: call_tells)

lemma reader_tells: "lg_reader_read recorder ac st (w, g) = (r, st', w', g') \<Longrightarrow> tells OpReaderRead g r g'"
  by (auto simp: lg_reader_read_def recorder_def u64_add_def guard_def Let_def split: prod.splits outcome.splits if_splits)

lemma writer_tells:
  "lg_writer_write recorder ac bs st (w, g) = (r, st', w', g') \<Longrightarrow> tells OpWriterWrite g r g'"
  "lg_writer_end recorder info op op call st (w, g) = (r, st', w', g') \<Longrightarrow> tells op g r g'"
  by (auto simp: lg_writer_write_def lg_writer_end_def recorder_def u64_add_def guard_def Let_def split: prod.splits outcome.splits if_splits)

lemma lister_tells: "lg_lister_next recorder ac st (w, g) = Some (r, st', w', g') \<Longrightarrow> tells OpListerNext g r g'"
proof (cases "ac_lister_next ac (lgl_inner st) w")
  case (Some x)
  obtain r0 l w0 where x: "x = (r0, l, w0)" by (metis prod_cases3)
  assume "lg_lister_next recorder ac st (w, g) = Some (r, st', w', g')"
  with Some x show ?thesis
    by (cases r0) (auto simp: lg_lister_next_def recorder_def Let_def split: option.splits)
qed (simp add: lg_lister_next_def Let_def)

lemma deleter_tells:
  "lg_deleter_delete recorder ac path da st (w, g) = (r, st', w', g') \<Longrightarrow> tells OpDeleterDelete g r g'"
  "lg_deleter_flush recorder ac st (w, g) = (r', st', w', g') \<Longrightarrow> tells OpDeleterFlush g r' g'"
  by (auto simp: lg_deleter_delete_def lg_deleter_flush_def recorder_def Let_def split: prod.splits outcome.splits if_splits)

subsection \<open>Properties\<close>

text \<open>
  C38. Logging is transparent. Whatever the interceptor does, an operation on the layered service has the result of the operation on the service and changes the state of the service in the same way, in both
  halves; readers, writers, listers and deleters hold those of the service. The only conditions are that the 64-bit counters do not overflow and that a flush deletes no more than was queued: these are
  the checked computations of the layer, which would panic.
\<close>

theorem logging_transparent:
  fixes ac :: "('r, 'wr, 'l, 'd, 'w) access" and lg :: "'g interceptor"
  assumes "L = logging_layer lg ac \<or> L = logging_blocking_layer lg ac"
  shows "ac_info L = ac_info ac
    \<and> erase (ac_create_dir L path (w, g)) = ac_create_dir ac path w
    \<and> map_option erase (ac_stat L path sa (w, g)) = ac_stat ac path sa w
    \<and> erase (ac_copy L path b (w, g)) = ac_copy ac path b w
    \<and> erase (ac_rename L path b (w, g)) = ac_rename ac path b w
    \<and> erase (ac_read L path ra (w, g)) = wrapped (lgr_new path) (ac_read ac path ra w)
    \<and> erase (ac_write L path wa (w, g)) = wrapped (lgw_new path) (ac_write ac path wa w)
    \<and> erase (ac_list L path la (w, g)) = wrapped (lgl_new path) (ac_list ac path la w)
    \<and> erase (ac_delete L (w, g)) = wrapped lgd_new (ac_delete ac w)
    \<and> (read_fits ac rd w \<longrightarrow> erase_in lgr_inner (ac_reader_read L rd (w, g)) = ac_reader_read ac (lgr_inner rd) w)
    \<and> (unat (lgw_written wr) + buf_len bs \<le> u64_max
         \<longrightarrow> erase_in lgw_inner (ac_writer_write L bs wr (w, g)) = ac_writer_write ac bs (lgw_inner wr) w)
    \<and> erase_in lgw_inner (ac_writer_close L wr (w, g)) = ac_writer_close ac (lgw_inner wr) w
    \<and> (L = logging_layer lg ac \<longrightarrow> erase_in lgw_inner (ac_writer_abort L wr (w, g)) = ac_writer_abort ac (lgw_inner wr) w)
    \<and> map_option (erase_in lgl_inner) (ac_lister_next L li (w, g)) = ac_lister_next ac (lgl_inner li) w
    \<and> erase_in lgd_inner (ac_deleter_delete L path da dl (w, g)) = ac_deleter_delete ac path da (lgd_inner dl) w
    \<and> (flush_fits ac dl w \<longrightarrow> erase_in lgd_inner (ac_deleter_flush L dl (w, g)) = ac_deleter_flush ac (lgd_inner dl) w)"
proof -
  have stat: "map_option erase (lg_stat lg ac path sa (w, g)) = ac_stat ac path sa w"
    "map_option erase (lgb_stat lg ac path sa (w, g)) = ac_stat ac path sa w"
    by (cases "ac_stat ac path sa w"; simp add: lg_stat_def lgb_stat_def erase_call)+
  show ?thesis
    using assms
  proof
    assume L: "L = logging_layer lg ac"
    show ?thesis unfolding L
      by (simp add: logging_layer_def stat erase_reader erase_writer erase_lister erase_deleter erase_call lg_create_dir_def lg_copy_def lg_rename_def
          lg_read_def lg_write_def lg_list_def lg_delete_def lg_writer_close_def lg_writer_abort_def)
  next
    assume L: "L = logging_blocking_layer lg ac"
    have "logging_blocking_layer lg ac = logging_layer lg ac
        \<longrightarrow> erase_in lgw_inner (ac_writer_abort (logging_layer lg ac) wr (w, g)) = ac_writer_abort ac (lgw_inner wr) w"
      by (simp add: logging_layer_def lg_writer_abort_def erase_writer)
    then show ?thesis unfolding L
      by (simp add: logging_blocking_layer_def stat erase_reader erase_writer erase_lister erase_deleter erase_call lgb_create_dir_def lgb_copy_def lgb_rename_def
          lgb_read_def lgb_write_def lgb_list_def lgb_delete_def lgb_writer_close_def)
  qed
qed

theorem logging_transparent_witness:
  "\<exists>st w1 g1. lg_read recorder (flaky_object [1, 2, 3]) ''f'' op_read_default ([], []) = (Ok st, w1, g1)
    \<and> erase_in lgr_inner (lg_reader_read recorder (flaky_object [1, 2, 3]) st (w1, g1)) = ac_reader_read (flaky_object [1, 2, 3]) (lgr_inner st) w1
    \<and> fst (lg_reader_read recorder (flaky_object [1, 2, 3]) st (w1, g1)) = Ok (Contiguous [1])"
proof -
  let ?ac = "flaky_object [1, 2, 3]"
  let ?L = "logging_layer recorder ?ac"
  let ?st = "lgr_new ''f'' [1, 2, 3 :: 8 word]"
  have "read_fits ?ac ?st []" by (simp add: read_fits_def flaky_object_def lgr_new_def u64_max_def)
  with logging_transparent [where L = ?L and lg = recorder and ac = ?ac and rd = ?st and w = "[]"]
  have "erase_in lgr_inner (ac_reader_read ?L ?st ([], g)) = ac_reader_read ?ac (lgr_inner ?st) []" for g by blast
  then have "erase_in lgr_inner (lg_reader_read recorder ?ac ?st ([], g)) = ac_reader_read ?ac (lgr_inner ?st) []" for g
    by (simp add: logging_layer_def)
  moreover have "fst (lg_reader_read recorder ?ac ?st ([], g)) = Ok (Contiguous [1])" for g
    by (simp add: lg_reader_read_def flaky_object_def lgr_new_def u64_add_def u64_max_def guard_def Let_def)
  moreover have "\<exists>g1. lg_read recorder ?ac ''f'' op_read_default ([], []) = (Ok ?st, [], g1)"
    by (simp add: lg_read_def lg_call_def flaky_object_def op_read_default_def br_select_def Let_def)
  ultimately show ?thesis by blast
qed

text \<open>
  C39. The log tells what happened. With an interceptor that records its events, each operation of the asynchronous half appends its start and its end, under its own name; the end is marked as failed, with the
  error, exactly when the operation fails. Only an operation that panics has no end.
\<close>

theorem logging_tells:
  fixes ac :: "('r, 'wr, 'l, 'd, 'w) access"
  assumes L: "L = logging_layer recorder ac"
  shows "(\<forall>r w' g'. ac_create_dir L path (w, g) = (r, w', g') \<longrightarrow> tells OpCreateDir g r g')
    \<and> (\<forall>r w' g'. ac_stat L path sa (w, g) = Some (r, w', g') \<longrightarrow> tells OpStat g r g')
    \<and> (\<forall>r w' g'. ac_copy L path b (w, g) = (r, w', g') \<longrightarrow> tells OpCopy g r g')
    \<and> (\<forall>r w' g'. ac_rename L path b (w, g) = (r, w', g') \<longrightarrow> tells OpRename g r g')
    \<and> (\<forall>r w' g'. ac_read L path ra (w, g) = (r, w', g') \<longrightarrow> tells OpRead g r g')
    \<and> (\<forall>r w' g'. ac_write L path wa (w, g) = (r, w', g') \<longrightarrow> tells OpWrite g r g')
    \<and> (\<forall>r w' g'. ac_list L path la (w, g) = (r, w', g') \<longrightarrow> tells OpList g r g')
    \<and> (\<forall>r w' g'. ac_delete L (w, g) = (r, w', g') \<longrightarrow> tells OpDelete g r g')
    \<and> (\<forall>r st w' g'. ac_reader_read L rd (w, g) = (r, st, w', g') \<longrightarrow> tells OpReaderRead g r g')
    \<and> (\<forall>r st w' g'. ac_writer_write L bs wr (w, g) = (r, st, w', g') \<longrightarrow> tells OpWriterWrite g r g')
    \<and> (\<forall>r st w' g'. ac_writer_close L wr (w, g) = (r, st, w', g') \<longrightarrow> tells OpWriterClose g r g')
    \<and> (\<forall>r st w' g'. ac_writer_abort L wr (w, g) = (r, st, w', g') \<longrightarrow> tells OpWriterAbort g r g')
    \<and> (\<forall>r st w' g'. ac_lister_next L li (w, g) = Some (r, st, w', g') \<longrightarrow> tells OpListerNext g r g')
    \<and> (\<forall>r st w' g'. ac_deleter_delete L path da dl (w, g) = (r, st, w', g') \<longrightarrow> tells OpDeleterDelete g r g')
    \<and> (\<forall>r st w' g'. ac_deleter_flush L dl (w, g) = (r, st, w', g') \<longrightarrow> tells OpDeleterFlush g r g')"
  unfolding L logging_layer_def access.simps lg_writer_close_def lg_writer_abort_def
  by (intro conjI allI impI) (erule opens_tell reader_tells writer_tells lister_tells deleter_tells)+

theorem logging_tells_witness:
  "\<exists>r w' g'. ac_create_dir (logging_layer recorder (flaky_object [1])) ''d/'' ([], []) = (r, w', g') \<and> tells OpCreateDir [] r g'
    \<and> length g' = 2"
proof -
  let ?L = "logging_layer recorder (flaky_object [1])"
  obtain r w' g' where r: "ac_create_dir ?L ''d/'' ([], []) = (r, w', g')" by (rule prod_cases3)
  note tells = logging_tells [where L = ?L and ac = "flaky_object [1]" and path = "''d/''" and w = "[]" and g = "[]", OF refl, THEN conjunct1]
  have "tells OpCreateDir [] r g'" using tells r by blast
  moreover have "length g' = 2"
    using r by (auto simp: logging_layer_def lg_create_dir_def lg_call_def flaky_object_def not_supported_def recorder_def Let_def)
  ultimately show ?thesis using r by blast
qed

text \<open>A blocking writer ends a successful close with the event of a write, and never counts what it has written.\<close>

lemma blocking_close_mislabelled:
  assumes "ac_writer_close ac (lgw_inner st) w = (Ok (), wr, w')"
  shows "\<exists>c. snd (snd (snd (lgb_writer_close recorder ac st (w, g)))) = g @ [(OpBlockingWriterClose, c, ''started'', None), (OpBlockingWriterWrite, c, ''succeeded'', None)]"
    "lgw_written (fst (snd (lgb_writer_write lg ac bs st s))) = lgw_written st"
  using assms
  by (auto simp: lgb_writer_close_def lg_writer_end_def lgb_writer_write_def recorder_def Let_def split: prod.splits outcome.splits)

end
