(* ===== verification/Schemes.thy ===== *)
theory Schemes
  imports Prelude
begin

text \<open>
  The names of the services (\<^verbatim>\<open>core/src/types/scheme.rs\<close>): the enumeration, its names, reading a name, and the schemes that are compiled in. \<^verbatim>\<open>str::to_lowercase\<close> is a
  parameter that is known on ASCII, and so are the features of the build.
\<close>

datatype (plugins only: code) scheme =
    SchemeAliyunDrive | SchemeAtomicserver | SchemeAzblob | SchemeAzdls | SchemeB2 | SchemeCompfs | SchemeSeafile | SchemeUpyun | SchemeVercelBlob |
    SchemeYandexDisk | SchemePcloud | SchemeKoofr | SchemeChainsafe | SchemeCacache | SchemeCloudflareKv | SchemeCos | SchemeD1 | SchemeDashmap |
    SchemeEtcd | SchemeFoundationdb | SchemeDbfs | SchemeFs | SchemeFtp | SchemeGcs | SchemeGhac | SchemeHdfs | SchemeHttp | SchemeHuggingface |
    SchemeAlluxio | SchemeIpfs | SchemeIpmfs | SchemeIcloud | SchemeMemcached | SchemeMemory | SchemeMiniMoka | SchemeMoka | SchemeMonoiofs |
    SchemeObs | SchemeOnedrive | SchemeGdrive | SchemeDropbox | SchemeOss | SchemePersy | SchemeRedis | SchemePostgresql | SchemeLibsql |
    SchemeMysql | SchemeSqlite | SchemeRocksdb | SchemeS3 | SchemeSftp | SchemeSled | SchemeSupabase | SchemeSwift | SchemeVercelArtifacts |
    SchemeWebdav | SchemeWebhdfs | SchemeRedb | SchemeTikv | SchemeAzfile | SchemeMongodb | SchemeGridfs | SchemeGithub | SchemeHdfsNative |
    SchemeSurrealdb | SchemeLakefs | SchemeNebulaGraph | SchemeCustom string

fun scheme_into_static :: "scheme \<Rightarrow> string" where
  "scheme_into_static SchemeAliyunDrive = ''aliyun_drive''"
| "scheme_into_static SchemeAtomicserver = ''atomicserver''"
| "scheme_into_static SchemeAzblob = ''azblob''"
| "scheme_into_static SchemeAzdls = ''azdls''"
| "scheme_into_static SchemeB2 = ''b2''"
| "scheme_into_static SchemeChainsafe = ''chainsafe''"
| "scheme_into_static SchemeCacache = ''cacache''"
| "scheme_into_static SchemeCloudflareKv = ''cloudflare_kv''"
| "scheme_into_static SchemeCos = ''cos''"
| "scheme_into_static SchemeCompfs = ''compfs''"
| "scheme_into_static SchemeD1 = ''d1''"
| "scheme_into_static SchemeDashmap = ''dashmap''"
| "scheme_into_static SchemeEtcd = ''etcd''"
| "scheme_into_static SchemeDbfs = ''dbfs''"
| "scheme_into_static SchemeFs = ''fs''"
| "scheme_into_static SchemeGcs = ''gcs''"
| "scheme_into_static SchemeGhac = ''ghac''"
| "scheme_into_static SchemeGridfs = ''gridfs''"
| "scheme_into_static SchemeHdfs = ''hdfs''"
| "scheme_into_static SchemeHttp = ''http''"
| "scheme_into_static SchemeHuggingface = ''huggingface''"
| "scheme_into_static SchemeFoundationdb = ''foundationdb''"
| "scheme_into_static SchemeFtp = ''ftp''"
| "scheme_into_static SchemeIpfs = ''ipfs''"
| "scheme_into_static SchemeIpmfs = ''ipmfs''"
| "scheme_into_static SchemeIcloud = ''icloud''"
| "scheme_into_static SchemeKoofr = ''koofr''"
| "scheme_into_static SchemeLibsql = ''libsql''"
| "scheme_into_static SchemeMemcached = ''memcached''"
| "scheme_into_static SchemeMemory = ''memory''"
| "scheme_into_static SchemeMiniMoka = ''mini_moka''"
| "scheme_into_static SchemeMoka = ''moka''"
| "scheme_into_static SchemeMonoiofs = ''monoiofs''"
| "scheme_into_static SchemeObs = ''obs''"
| "scheme_into_static SchemeOnedrive = ''onedrive''"
| "scheme_into_static SchemePersy = ''persy''"
| "scheme_into_static SchemePostgresql = ''postgresql''"
| "scheme_into_static SchemeMysql = ''mysql''"
| "scheme_into_static SchemeGdrive = ''gdrive''"
| "scheme_into_static SchemeGithub = ''github''"
| "scheme_into_static SchemeDropbox = ''dropbox''"
| "scheme_into_static SchemeRedis = ''redis''"
| "scheme_into_static SchemeRocksdb = ''rocksdb''"
| "scheme_into_static SchemeS3 = ''s3''"
| "scheme_into_static SchemeSeafile = ''seafile''"
| "scheme_into_static SchemeSftp = ''sftp''"
| "scheme_into_static SchemeSled = ''sled''"
| "scheme_into_static SchemeSupabase = ''supabase''"
| "scheme_into_static SchemeSwift = ''swift''"
| "scheme_into_static SchemeVercelArtifacts = ''vercel_artifacts''"
| "scheme_into_static SchemeVercelBlob = ''vercel_blob''"
| "scheme_into_static SchemeOss = ''oss''"
| "scheme_into_static SchemeWebdav = ''webdav''"
| "scheme_into_static SchemeWebhdfs = ''webhdfs''"
| "scheme_into_static SchemeRedb = ''redb''"
| "scheme_into_static SchemeTikv = ''tikv''"
| "scheme_into_static SchemeAzfile = ''azfile''"
| "scheme_into_static SchemeSqlite = ''sqlite''"
| "scheme_into_static SchemeMongodb = ''mongodb''"
| "scheme_into_static SchemeAlluxio = ''alluxio''"
| "scheme_into_static SchemeUpyun = ''upyun''"
| "scheme_into_static SchemeYandexDisk = ''yandex_disk''"
| "scheme_into_static SchemePcloud = ''pcloud''"
| "scheme_into_static SchemeHdfsNative = ''hdfs_native''"
| "scheme_into_static SchemeSurrealdb = ''surrealdb''"
| "scheme_into_static SchemeLakefs = ''lakefs''"
| "scheme_into_static SchemeNebulaGraph = ''nebula_graph''"
| "scheme_into_static (SchemeCustom v) = v"

definition scheme_names :: "(string \<times> scheme) list" where
  "scheme_names =
    [(''aliyun_drive'', SchemeAliyunDrive), (''atomicserver'', SchemeAtomicserver), (''azblob'', SchemeAzblob), (''alluxio'', SchemeAlluxio),
     (''azdls'', SchemeAzdls), (''azdfs'', SchemeAzdls), (''abfs'', SchemeAzdls), (''b2'', SchemeB2), (''chainsafe'', SchemeChainsafe),
     (''cacache'', SchemeCacache), (''compfs'', SchemeCompfs), (''cloudflare_kv'', SchemeCloudflareKv), (''cos'', SchemeCos), (''d1'', SchemeD1),
     (''dashmap'', SchemeDashmap), (''dropbox'', SchemeDropbox), (''etcd'', SchemeEtcd), (''dbfs'', SchemeDbfs), (''fs'', SchemeFs),
     (''gcs'', SchemeGcs), (''gdrive'', SchemeGdrive), (''ghac'', SchemeGhac), (''gridfs'', SchemeGridfs), (''github'', SchemeGithub),
     (''hdfs'', SchemeHdfs), (''http'', SchemeHttp), (''https'', SchemeHttp), (''huggingface'', SchemeHuggingface), (''hf'', SchemeHuggingface),
     (''ftp'', SchemeFtp), (''ftps'', SchemeFtp), (''ipfs'', SchemeIpfs), (''ipns'', SchemeIpfs), (''ipmfs'', SchemeIpmfs),
     (''icloud'', SchemeIcloud), (''koofr'', SchemeKoofr), (''libsql'', SchemeLibsql), (''memcached'', SchemeMemcached), (''memory'', SchemeMemory),
     (''mysql'', SchemeMysql), (''sqlite'', SchemeSqlite), (''mini_moka'', SchemeMiniMoka), (''moka'', SchemeMoka), (''monoiofs'', SchemeMonoiofs),
     (''obs'', SchemeObs), (''onedrive'', SchemeOnedrive), (''persy'', SchemePersy), (''postgresql'', SchemePostgresql), (''redb'', SchemeRedb),
     (''redis'', SchemeRedis), (''rocksdb'', SchemeRocksdb), (''s3'', SchemeS3), (''seafile'', SchemeSeafile), (''upyun'', SchemeUpyun),
     (''yandex_disk'', SchemeYandexDisk), (''pcloud'', SchemePcloud), (''sftp'', SchemeSftp), (''sled'', SchemeSled), (''supabase'', SchemeSupabase),
     (''swift'', SchemeSwift), (''oss'', SchemeOss), (''vercel_artifacts'', SchemeVercelArtifacts), (''vercel_blob'', SchemeVercelBlob),
     (''webdav'', SchemeWebdav), (''webhdfs'', SchemeWebhdfs), (''tikv'', SchemeTikv), (''azfile'', SchemeAzfile), (''mongodb'', SchemeMongodb),
     (''hdfs_native'', SchemeHdfsNative), (''surrealdb'', SchemeSurrealdb), (''lakefs'', SchemeLakefs), (''nebula_graph'', SchemeNebulaGraph)]"

definition scheme_from_str :: "(string \<Rightarrow> string) \<Rightarrow> string \<Rightarrow> scheme" where
  "scheme_from_str to_lowercase s =
     (let s = to_lowercase s in case map_of scheme_names s of Some x \<Rightarrow> x | None \<Rightarrow> SchemeCustom s)"

definition scheme_features :: "(string \<times> scheme) list" where
  "scheme_features =
    [(''services-aliyun-drive'', SchemeAliyunDrive), (''services-atomicserver'', SchemeAtomicserver), (''services-alluxio'', SchemeAlluxio),
     (''services-azblob'', SchemeAzblob), (''services-azdls'', SchemeAzdls), (''services-azfile'', SchemeAzfile), (''services-b2'', SchemeB2),
     (''services-cacache'', SchemeCacache), (''services-cos'', SchemeCos), (''services-compfs'', SchemeCompfs),
     (''services-dashmap'', SchemeDashmap), (''services-dropbox'', SchemeDropbox), (''services-etcd'', SchemeEtcd),
     (''services-foundationdb'', SchemeFoundationdb), (''services-fs'', SchemeFs), (''services-ftp'', SchemeFtp), (''services-gcs'', SchemeGcs),
     (''services-ghac'', SchemeGhac), (''services-hdfs'', SchemeHdfs), (''services-http'', SchemeHttp),
     (''services-huggingface'', SchemeHuggingface), (''services-ipfs'', SchemeIpfs), (''services-ipmfs'', SchemeIpmfs),
     (''services-icloud'', SchemeIcloud), (''services-libsql'', SchemeLibsql), (''services-memcached'', SchemeMemcached),
     (''services-memory'', SchemeMemory), (''services-mini-moka'', SchemeMiniMoka), (''services-moka'', SchemeMoka),
     (''services-monoiofs'', SchemeMonoiofs), (''services-mysql'', SchemeMysql), (''services-obs'', SchemeObs),
     (''services-onedrive'', SchemeOnedrive), (''services-postgresql'', SchemePostgresql), (''services-gdrive'', SchemeGdrive),
     (''services-oss'', SchemeOss), (''services-persy'', SchemePersy), (''services-redis'', SchemeRedis), (''services-rocksdb'', SchemeRocksdb),
     (''services-s3'', SchemeS3), (''services-seafile'', SchemeSeafile), (''services-upyun'', SchemeUpyun),
     (''services-yandex-disk'', SchemeYandexDisk), (''services-pcloud'', SchemePcloud), (''services-sftp'', SchemeSftp),
     (''services-sled'', SchemeSled), (''services-sqlite'', SchemeSqlite), (''services-supabase'', SchemeSupabase),
     (''services-swift'', SchemeSwift), (''services-tikv'', SchemeTikv), (''services-vercel-artifacts'', SchemeVercelArtifacts),
     (''services-vercel-blob'', SchemeVercelBlob), (''services-webdav'', SchemeWebdav), (''services-webhdfs'', SchemeWebhdfs),
     (''services-redb'', SchemeRedb), (''services-mongodb'', SchemeMongodb), (''services-hdfs-native'', SchemeHdfsNative),
     (''services-surrealdb'', SchemeSurrealdb), (''services-lakefs'', SchemeLakefs), (''services-nebula-graph'', SchemeNebulaGraph)]"

definition scheme_enabled :: "(string \<Rightarrow> bool) \<Rightarrow> scheme set" where
  "scheme_enabled feature = set (map snd (filter (\<lambda>(f, s). feature f) scheme_features))"

subsection \<open>Properties\<close>

definition ascii_lower :: "char \<Rightarrow> char" where
  "ascii_lower c = (let n = of_char c :: nat in if 65 \<le> n \<and> n \<le> 90 then char_of (n + 32) else c)"

text \<open>\<open>to_lowercase\<close> is known on ASCII, and leaves what it gives alone.\<close>

definition lowers :: "(string \<Rightarrow> string) \<Rightarrow> bool" where
  "lowers f = ((\<forall>s. (\<forall>c \<in> set s. of_char c < (128 :: nat)) \<longrightarrow> f s = map ascii_lower s) \<and> (\<forall>s. f (f s) = f s))"

definition plain_name :: "string \<Rightarrow> bool" where
  "plain_name s = list_all (\<lambda>c. of_char c < (128 :: nat) \<and> ascii_lower c = c) s"

lemma lowers_plain: "lowers f \<Longrightarrow> plain_name s \<Longrightarrow> f s = s"
  by (auto simp: lowers_def plain_name_def list_all_iff intro: map_idI)

lemma scheme_names_plain: "list_all (\<lambda>(s, x). plain_name s) scheme_names"
  by code_simp

text \<open>Every scheme has its name in the table, but one.\<close>

lemma scheme_static_named:
  "s \<noteq> SchemeFoundationdb \<Longrightarrow> (\<forall>v. s \<noteq> SchemeCustom v) \<Longrightarrow> map_of scheme_names (scheme_into_static s) = Some s"
  by (cases s) (simp_all add: scheme_names_def)

lemma scheme_names_range: "map_of scheme_names s = Some x \<Longrightarrow> x \<noteq> SchemeFoundationdb \<and> (\<forall>v. x \<noteq> SchemeCustom v)"
proof -
  assume "map_of scheme_names s = Some x"
  then have "x \<in> set (map snd scheme_names)" by (force dest: map_of_SomeD)
  then show ?thesis by (auto simp: scheme_names_def)
qed

text \<open>
  C40. Names of services round trip. Reading the name of a scheme gives the scheme, for every scheme of the enumeration but \<open>Foundationdb\<close>, whatever the case of the letters; and the name of a scheme that was read is read
  as the same scheme again, so that a name can be stored.
\<close>

theorem scheme_roundtrip:
  assumes "lowers f"
  shows "(s \<noteq> SchemeFoundationdb \<and> (\<forall>v. s \<noteq> SchemeCustom v) \<longrightarrow> (\<forall>t. f t = scheme_into_static s \<longrightarrow> scheme_from_str f t = s)
      \<and> scheme_from_str f (scheme_into_static s) = s)
    \<and> scheme_from_str f (scheme_into_static (scheme_from_str f t)) = scheme_from_str f t"
proof -
  have named: "scheme_from_str f (scheme_into_static s) = s" if "s \<noteq> SchemeFoundationdb" "\<forall>v. s \<noteq> SchemeCustom v" for s
  proof -
    have "plain_name (scheme_into_static s)"
      using map_of_SomeD [OF scheme_static_named [OF that]] scheme_names_plain by (auto simp: list_all_iff)
    then show ?thesis using lowers_plain [OF assms] scheme_static_named [OF that] by (simp add: scheme_from_str_def)
  qed
  have idem: "f (f t) = f t" for t using assms by (simp add: lowers_def)
  have "scheme_from_str f (scheme_into_static (scheme_from_str f t)) = scheme_from_str f t"
  proof (cases "map_of scheme_names (f t)")
    case None
    with idem [of t] show ?thesis by (simp add: scheme_from_str_def)
  next
    case (Some x)
    then have "scheme_from_str f t = x" by (simp add: scheme_from_str_def)
    with named [of x] scheme_names_range [OF Some] show ?thesis by simp
  qed
  with named show ?thesis by (auto simp: scheme_from_str_def Let_def scheme_static_named)
qed

theorem scheme_roundtrip_witness:
  "scheme_from_str (map ascii_lower) ''S3'' = SchemeS3"
proof -
  have low: "ascii_lower (ascii_lower c) = ascii_lower c" for c
    by (auto simp: ascii_lower_def Let_def)
  have "lowers (map ascii_lower)" by (simp add: lowers_def low)
  note trip = scheme_roundtrip [where s = SchemeS3, OF this]
  have "map ascii_lower ''S3'' = scheme_into_static SchemeS3" by code_simp
  moreover have "SchemeS3 \<noteq> SchemeFoundationdb \<and> (\<forall>v. SchemeS3 \<noteq> SchemeCustom v)" by simp
  ultimately show ?thesis using trip by blast
qed

text \<open>The name of \<open>Foundationdb\<close> is read as a custom scheme, and seven schemes are never enabled.\<close>

lemma scheme_gaps:
  "lowers f \<Longrightarrow> scheme_from_str f (scheme_into_static SchemeFoundationdb) = SchemeCustom ''foundationdb''"
  "scheme_enabled (\<lambda>x. True) \<inter> {SchemeChainsafe, SchemeCloudflareKv, SchemeD1, SchemeDbfs, SchemeGithub, SchemeGridfs, SchemeKoofr} = {}"
proof -
  have "plain_name ''foundationdb''" "map_of scheme_names ''foundationdb'' = None" by code_simp+
  then show "lowers f \<Longrightarrow> scheme_from_str f (scheme_into_static SchemeFoundationdb) = SchemeCustom ''foundationdb''"
    by (simp add: scheme_from_str_def lowers_plain)
qed (simp add: scheme_enabled_def scheme_features_def)

end
