(* ===== verification/Http.thy ===== *)
theory Http
  imports Accessors Readers "HOL-Library.AList"
begin

text \<open>
  The HTTP toolbox of the services (\<^verbatim>\<open>core/src/raw/http_util\<close>): encoding of paths (\<^verbatim>\<open>uri.rs\<close>), response headers
  (\<^verbatim>\<open>header.rs\<close>, \<^verbatim>\<open>core/src/raw/chrono_util.rs\<close>), errors (\<^verbatim>\<open>error.rs\<close>), the streaming body that checks its length (\<^verbatim>\<open>body.rs\<close>) and the client
  (\<^verbatim>\<open>client.rs\<close>).

  What crates do is a parameter: percent encoding, the formats of dates, the debug output of a response, and \<^verbatim>\<open>reqwest\<close>, which
  answers a request with an error or with a response whose body is a finite stream of pieces and
  errors. Header names are lower-case strings, as \<^verbatim>\<open>HeaderName\<close> keeps them.

  The theorems show that an encoded path decodes to itself and keeps its segments, that a response body is
  delivered in full or reported as failed, and that secrets of a response do not reach an error.
\<close>

subsection \<open>Paths in a URL\<close>

definition is_alphanumeric :: "char \<Rightarrow> bool" where
  "is_alphanumeric c = (let n = of_char c :: nat in (48 \<le> n \<and> n \<le> 57) \<or> (65 \<le> n \<and> n \<le> 90) \<or> (97 \<le> n \<and> n \<le> 122))"

definition path_encode_set :: "char \<Rightarrow> bool" where
  "path_encode_set c = (\<not> is_alphanumeric c \<and> c \<notin> set ''/-_.!~*'' \<and> c \<noteq> CHR 0x27 \<and> c \<notin> set ''()'')"

type_synonym percent_encoder = "(char \<Rightarrow> bool) \<Rightarrow> string \<Rightarrow> string"

type_synonym percent_decoder = "string \<Rightarrow> string option"

definition percent_encode_path :: "percent_encoder \<Rightarrow> string \<Rightarrow> string" where
  "percent_encode_path enc path = enc path_encode_set path"

definition percent_decode_path :: "percent_decoder \<Rightarrow> string \<Rightarrow> string" where
  "percent_decode_path dec path = (case dec path of Some v \<Rightarrow> v | None \<Rightarrow> path)"

text \<open>
  What \<^verbatim>\<open>percent_encoding\<close> documents: the bytes of the set, and those that are not ASCII, become a percent sign with two
  upper-case hexadecimal digits; decoding replaces each percent sign that two hexadecimal digits follow, and fails when
  the bytes are not UTF-8.
\<close>

definition hex_char :: "nat \<Rightarrow> char" where
  "hex_char n = (if n < 10 then char_of (48 + n) else char_of (55 + n))"

definition hex_val :: "char \<Rightarrow> nat option" where
  "hex_val c = (let n = of_char c :: nat in
     if 48 \<le> n \<and> n \<le> 57 then Some (n - 48) else if 65 \<le> n \<and> n \<le> 70 then Some (n - 55)
     else if 97 \<le> n \<and> n \<le> 102 then Some (n - 87) else None)"

definition pct_byte :: "char \<Rightarrow> string" where
  "pct_byte c = [CHR ''%'', hex_char (of_char c div 16), hex_char (of_char c mod 16)]"

definition pct_encode :: percent_encoder where
  "pct_encode S s = concat (map (\<lambda>c. if S c \<or> 128 \<le> (of_char c :: nat) then pct_byte c else [c]) s)"

fun pct_decode :: "string \<Rightarrow> string" where
  "pct_decode (c # h # l # s) =
     (if c = CHR ''%'' then
        case (hex_val h, hex_val l) of
          (Some a, Some b) \<Rightarrow> char_of (16 * a + b) # pct_decode s
        | _ \<Rightarrow> c # pct_decode (h # l # s)
      else c # pct_decode (h # l # s))"
| "pct_decode s = s"

definition percent_codec :: "(string \<Rightarrow> bool) \<Rightarrow> percent_encoder \<Rightarrow> percent_decoder \<Rightarrow> bool" where
  "percent_codec utf8 enc dec =
     ((\<forall>S s. enc S s = pct_encode S s)
      \<and> (\<forall>s. dec s = (if utf8 (pct_decode s) then Some (pct_decode s) else None)))"

subsection \<open>Dates\<close>

definition source_err :: "string \<Rightarrow> error \<Rightarrow> 'a res" where
  "source_err src e = and_then (set_source src e) Err"

definition parse_datetime_from_rfc2822 :: "(string \<Rightarrow> string + datetime) \<Rightarrow> string \<Rightarrow> datetime res" where
  "parse_datetime_from_rfc2822 parse s =
     (case parse s of Inr v \<Rightarrow> Ok v
      | Inl e \<Rightarrow> source_err e (new_error Unexpected ''parse datetime from rfc2822 failed''))"

definition parse_datetime_from_rfc3339 :: "(string \<Rightarrow> string + datetime) \<Rightarrow> string \<Rightarrow> datetime res" where
  "parse_datetime_from_rfc3339 parse s =
     (case parse s of Inr v \<Rightarrow> Ok v
      | Inl e \<Rightarrow> source_err e (new_error Unexpected ''parse datetime from rfc3339 failed''))"

subsection \<open>Headers\<close>

text \<open>A value that is not visible ASCII keeps the text of the error that reading it as a string gives.\<close>

datatype header_value = HeaderText string | HeaderOpaque string

type_synonym headers = "(string \<times> header_value) list"

definition hdr_remove :: "string \<Rightarrow> headers \<Rightarrow> headers" where
  "hdr_remove name hs = filter (\<lambda>(k, v). k \<noteq> name) hs"

definition parse_header_to_str :: "headers \<Rightarrow> string \<Rightarrow> string option res" where
  "parse_header_to_str hs name =
     (case map_of hs name of
        None \<Rightarrow> Ok None
      | Some (HeaderText v) \<Rightarrow> Ok (Some v)
      | Some (HeaderOpaque e) \<Rightarrow>
          source_err e (with_context ''header_name'' name (with_operation ''http_util::parse_header_to_str''
            (new_error Unexpected ''header value must be valid utf-8 string but not''))))"

definition transpose_res :: "('a \<Rightarrow> 'b res) \<Rightarrow> 'a option \<Rightarrow> 'b option res" where
  "transpose_res f x = (case x of None \<Rightarrow> Ok None | Some v \<Rightarrow> and_then (f v) (\<lambda>y. Ok (Some y)))"

definition parse_location :: "headers \<Rightarrow> string option res" where
  "parse_location hs = parse_header_to_str hs ''location''"

definition parse_cache_control :: "headers \<Rightarrow> string option res" where
  "parse_cache_control hs = parse_header_to_str hs ''cache-control''"

definition parse_content_length :: "headers \<Rightarrow> u64 option res" where
  "parse_content_length hs =
     and_then (parse_header_to_str hs ''content-length'')
       (transpose_res (\<lambda>v. parse_int_res (new_error Unexpected ''header value is not valid integer'') (parse_u64 v)))"

definition parse_content_md5 :: "headers \<Rightarrow> string option res" where
  "parse_content_md5 hs = parse_header_to_str hs ''content-md5''"

definition parse_content_type :: "headers \<Rightarrow> string option res" where
  "parse_content_type hs = parse_header_to_str hs ''content-type''"

definition parse_content_encoding :: "headers \<Rightarrow> string option res" where
  "parse_content_encoding hs = parse_header_to_str hs ''content-encoding''"

definition parse_content_range :: "headers \<Rightarrow> bytes_content_range option res" where
  "parse_content_range hs = and_then (parse_header_to_str hs ''content-range'') (transpose_res bcr_from_str)"

definition parse_last_modified :: "(string \<Rightarrow> string + datetime) \<Rightarrow> headers \<Rightarrow> datetime option res" where
  "parse_last_modified rfc2822 hs =
     and_then (parse_header_to_str hs ''last-modified'') (transpose_res (parse_datetime_from_rfc2822 rfc2822))"

definition parse_etag :: "headers \<Rightarrow> string option res" where
  "parse_etag hs = parse_header_to_str hs ''etag''"

definition parse_content_disposition :: "headers \<Rightarrow> string option res" where
  "parse_content_disposition hs = parse_header_to_str hs ''content-disposition''"

definition set_if_some :: "('a \<Rightarrow> metadata \<Rightarrow> metadata) \<Rightarrow> 'a option \<Rightarrow> metadata \<Rightarrow> metadata" where
  "set_if_some upd v m = (case v of None \<Rightarrow> m | Some x \<Rightarrow> upd x m)"

definition parse_into_metadata :: "(string \<Rightarrow> string + datetime) \<Rightarrow> string \<Rightarrow> headers \<Rightarrow> metadata res" where
  "parse_into_metadata rfc2822 path hs =
     (let mode = (if ends_with path CHR ''/'' then DIR else FILE); m = metadata_new mode in
      and_then (parse_cache_control hs) (\<lambda>v. let m = set_if_some (\<lambda>x m. m\<lparr>md_cache_control := Some x\<rparr>) v m in
      and_then (parse_content_length hs) (\<lambda>v. let m = set_if_some (\<lambda>x m. m\<lparr>md_content_length := Some x\<rparr>) v m in
      and_then (parse_content_type hs) (\<lambda>v. let m = set_if_some (\<lambda>x m. m\<lparr>md_content_type := Some x\<rparr>) v m in
      and_then (parse_content_encoding hs) (\<lambda>v. let m = set_if_some (\<lambda>x m. m\<lparr>md_content_encoding := Some x\<rparr>) v m in
      and_then (parse_content_range hs) (\<lambda>v. let m = set_if_some (\<lambda>x m. m\<lparr>md_content_range := Some x\<rparr>) v m in
      and_then (parse_etag hs) (\<lambda>v. let m = set_if_some (\<lambda>x m. m\<lparr>md_etag := Some x\<rparr>) v m in
      and_then (parse_content_md5 hs) (\<lambda>v. let m = set_if_some (\<lambda>x m. m\<lparr>md_content_md5 := Some x\<rparr>) v m in
      and_then (parse_last_modified rfc2822 hs) (\<lambda>v. let m = set_if_some (\<lambda>x m. m\<lparr>md_last_modified := Some x\<rparr>) v m in
      and_then (parse_content_disposition hs) (\<lambda>v. Ok (set_if_some (\<lambda>x m. m\<lparr>md_content_disposition := Some x\<rparr>) v m)))))))))))"

text \<open>The result is a hash map: a name that occurs again replaces the earlier value.\<close>

definition parse_prefixed_headers :: "headers \<Rightarrow> string \<Rightarrow> (string \<times> string) list" where
  "parse_prefixed_headers hs pre =
     fold (\<lambda>(k, v) m. AList.update k v m)
       (List.map_filter (\<lambda>(name, value).
          case strip_prefix name pre of
            None \<Rightarrow> None
          | Some key \<Rightarrow> (case value of HeaderText v \<Rightarrow> Some (key, v) | HeaderOpaque e \<Rightarrow> None)) hs) []"

definition parse_multipart_boundary :: "headers \<Rightarrow> string option res" where
  "parse_multipart_boundary hs =
     and_then (parse_header_to_str hs ''content-type'') (\<lambda>v.
       Ok (Option.bind v (\<lambda>v. case split_str ''boundary='' v of _ # b # _ \<Rightarrow> Some b | _ \<Rightarrow> None)))"

definition format_authorization_by_basic :: "(string \<Rightarrow> string) \<Rightarrow> string \<Rightarrow> string \<Rightarrow> string res" where
  "format_authorization_by_basic base64 username password =
     (if username = [] then Err (new_error Unexpected ''can't build authorization header with empty username'')
      else Ok (''Basic '' @ base64 (username @ '':'' @ password)))"

definition format_authorization_by_bearer :: "string \<Rightarrow> string res" where
  "format_authorization_by_bearer token =
     (if token = [] then Err (new_error Unexpected ''can't build authorization header with empty token'')
      else Ok (''Bearer '' @ token))"

subsection \<open>Requests, responses and their errors\<close>

datatype http_method = GET | HEAD | PUT | POST | DELETE

record http_request =
  rq_method :: http_method
  rq_uri :: string
  rq_headers :: "(string \<times> string) list"
  rq_body :: buffer

record 'b http_response =
  rs_status :: nat
  rs_headers :: headers
  rs_uri :: "string option"
  rs_body :: 'b

text \<open>The head of a response: what \<^verbatim>\<open>into_parts\<close> separates from the body.\<close>

definition rs_parts :: "'b http_response \<Rightarrow> unit http_response" where
  "rs_parts resp = \<lparr>rs_status = rs_status resp, rs_headers = rs_headers resp, rs_uri = rs_uri resp, rs_body = ()\<rparr>"

definition rs_from_parts :: "unit http_response \<Rightarrow> 'b \<Rightarrow> 'b http_response" where
  "rs_from_parts pts body =
     \<lparr>rs_status = rs_status pts, rs_headers = rs_headers pts, rs_uri = rs_uri pts, rs_body = body\<rparr>"

definition new_request_build_error :: "string \<Rightarrow> error res" where
  "new_request_build_error err =
     set_source err (with_operation ''http::Request::build'' (new_error Unexpected ''building http request''))"

definition new_request_credential_error :: "string \<Rightarrow> error res" where
  "new_request_credential_error err =
     set_source err (with_operation ''reqsign::LoadCredential''
       (set_temporary (new_error Unexpected ''loading credential to sign http request'')))"

definition new_request_sign_error :: "string \<Rightarrow> error res" where
  "new_request_sign_error err =
     set_source err (with_operation ''reqsign::Sign'' (new_error Unexpected ''signing http request''))"

definition with_error_response_context :: "(unit http_response \<Rightarrow> string) \<Rightarrow> error \<Rightarrow> unit http_response \<Rightarrow> error" where
  "with_error_response_context dbg err pts =
     (let err = (case rs_uri pts of Some uri \<Rightarrow> with_context ''uri'' uri err | None \<Rightarrow> err);
          pts = pts\<lparr>rs_headers := hdr_remove ''proxy-authenticate'' (hdr_remove ''www-authenticate''
            (hdr_remove ''set-cookie'' (rs_headers pts)))\<rparr>
      in with_context ''response'' (dbg pts) err)"

subsection \<open>The body of a response\<close>

record http_body =
  hb_stream :: "(error + buffer) list"
  hb_size :: "u64 option"
  hb_consumed :: u64

definition hb_new :: "(error + buffer) list \<Rightarrow> u64 option \<Rightarrow> http_body" where
  "hb_new stream sz = \<lparr>hb_stream = stream, hb_size = sz, hb_consumed = 0\<rparr>"

definition hb_check :: "http_body \<Rightarrow> unit res" where
  "hb_check hb =
     (case hb_size hb of
        None \<Rightarrow> Ok ()
      | Some expect \<Rightarrow>
          (let actual = hb_consumed hb in
           if actual = expect then Ok ()
           else if actual < expect then
             Err (set_temporary (new_error Unexpected (''http response got too little data, expect: ''
               @ show_u64 expect @ '', actual: '' @ show_u64 actual)))
           else
             Err (set_temporary (new_error Unexpected (''http response got too much data, expect: ''
               @ show_u64 expect @ '', actual: '' @ show_u64 actual)))))"

definition hb_read :: "http_body \<Rightarrow> buffer res \<times> http_body" where
  "hb_read hb =
     (case hb_stream hb of
        Inr buf # stream \<Rightarrow>
          (let hb = hb\<lparr>hb_stream := stream\<rparr> in
           case u64_add (hb_consumed hb) (of_nat (buf_len buf)) of
             Ok n \<Rightarrow> (Ok buf, hb\<lparr>hb_consumed := n\<rparr>)
           | Err e \<Rightarrow> (Err e, hb)
           | Panic \<Rightarrow> (Panic, hb))
      | Inl err # stream \<Rightarrow> (Err err, hb\<lparr>hb_stream := stream\<rparr>)
      | [] \<Rightarrow> (and_then (hb_check hb) (\<lambda>_. Ok buf_new), hb))"

lemma hb_read_shorter: "hb_read hb = (Ok buf, hb') \<Longrightarrow> \<not> buf_is_empty buf \<Longrightarrow> length (hb_stream hb') < length (hb_stream hb)"
  by (auto simp: hb_read_def Let_def buf_new_def buf_is_empty_def buf_len_def outcome_simps
      split: list.splits sum.splits outcome.splits)

function hb_read_all_loop :: "buffer list \<Rightarrow> http_body \<Rightarrow> buffer res \<times> http_body" where
  "hb_read_all_loop bufs hb =
     (case hb_read hb of
        (Ok buf, hb') \<Rightarrow>
          if buf_is_empty buf then (collect_bufs bufs, hb') else hb_read_all_loop (bufs @ [buf]) hb'
      | (Err err, hb') \<Rightarrow> (Err err, hb')
      | (Panic, hb') \<Rightarrow> (Panic, hb'))"
  by pat_completeness auto
termination
  by (relation "measure (\<lambda>(bufs, hb). length (hb_stream hb))") (auto dest: hb_read_shorter [OF sym])

declare hb_read_all_loop.simps [simp del]

definition hb_to_buffer :: "http_body \<Rightarrow> buffer res \<times> http_body" where
  "hb_to_buffer hb = hb_read_all_loop [] hb"

subsection \<open>The client\<close>

record reqwest_error =
  re_is_request :: bool
  re_is_body :: bool
  re_is_decode :: bool
  re_text :: string

definition is_temporary_error :: "reqwest_error \<Rightarrow> bool" where
  "is_temporary_error err = (re_is_request err \<or> re_is_body err \<or> re_is_decode err)"

type_synonym 'w transport =
  "http_request \<Rightarrow> 'w \<Rightarrow> (reqwest_error + (reqwest_error + bytes) list http_response) \<times> 'w"

definition client_error :: "string \<Rightarrow> string \<Rightarrow> reqwest_error \<Rightarrow> error" where
  "client_error msg uri err =
     (with_temporary (is_temporary_error err) (with_context ''url'' uri
        (with_operation ''http_util::Client::send'' (new_error Unexpected msg))))\<lparr>err_source := Some (re_text err)\<rparr>"

text \<open>The stream leaves out empty pieces and translates errors.\<close>

definition body_stream :: "string \<Rightarrow> (reqwest_error + bytes) list \<Rightarrow> (error + buffer) list" where
  "body_stream uri pieces =
     map (\<lambda>x. case x of Inr bs \<Rightarrow> Inr (buf_from_bytes bs) | Inl e \<Rightarrow> Inl (client_error ''read data from http response'' uri e))
       (filter (\<lambda>x. x \<noteq> Inr []) pieces)"

definition fetch_size :: "http_method \<Rightarrow> headers \<Rightarrow> u64 option res" where
  "fetch_size method hs =
     (if method = HEAD then Ok None
      else and_then (parse_content_encoding hs) (\<lambda>enc. if enc \<noteq> None then Ok None else parse_content_length hs))"

definition http_fetch :: "(string \<Rightarrow> bool) \<Rightarrow> 'w transport \<Rightarrow> http_request \<Rightarrow> 'w \<Rightarrow> http_body http_response res \<times> 'w" where
  "http_fetch url_ok reqwest req w =
     (if \<not> url_ok (rq_uri req) then (Panic, w)
      else case reqwest req w of
          (Inl e, w') \<Rightarrow> (Err (client_error ''send http request'' (rq_uri req) e), w')
        | (Inr resp, w') \<Rightarrow>
            (and_then (fetch_size (rq_method req) (rs_headers resp)) (\<lambda>content_length.
               Ok \<lparr>rs_status = rs_status resp, rs_headers = rs_headers resp, rs_uri = Some (rq_uri req),
                   rs_body = hb_new (body_stream (rq_uri req) (rs_body resp)) content_length\<rparr>), w'))"

definition http_send :: "(string \<Rightarrow> bool) \<Rightarrow> 'w transport \<Rightarrow> http_request \<Rightarrow> 'w \<Rightarrow> buffer http_response res \<times> 'w" where
  "http_send url_ok reqwest req w =
     (case http_fetch url_ok reqwest req w of
        (Ok resp, w') \<Rightarrow>
          (and_then (fst (hb_to_buffer (rs_body resp))) (\<lambda>buffer. Ok (rs_from_parts (rs_parts resp) buffer)), w')
      | (Err e, w') \<Rightarrow> (Err e, w')
      | (Panic, w') \<Rightarrow> (Panic, w'))"

subsection \<open>Encoded paths\<close>

lemma hex_val_hex_char: "n < 16 \<Longrightarrow> hex_val (hex_char n) = Some n"
  by (auto simp: hex_val_def hex_char_def Let_def)

lemma hex_char_alphanumeric: "n < 16 \<Longrightarrow> is_alphanumeric (hex_char n)"
  by (auto simp: is_alphanumeric_def hex_char_def Let_def)

lemma of_char_div16: "(of_char c :: nat) div 16 < 16" "(of_char c :: nat) mod 16 < 16"
  using less_mult_imp_div_less [of "of_char c" 16 16] nat_of_char_less_256 [of c]
  by (simp_all del: nat_of_char_less_256)

lemma pct_decode_byte: "pct_decode (pct_byte c @ s) = c # pct_decode s"
proof -
  have "16 * ((of_char c :: nat) div 16) + of_char c mod 16 = of_char c" by simp
  then have "char_of (16 * ((of_char c :: nat) div 16) + of_char c mod 16) = c" by (metis char_of_char)
  then show ?thesis using of_char_div16 [of c] by (simp add: pct_byte_def hex_val_hex_char)
qed

lemma pct_decode_plain: "c \<noteq> CHR ''%'' \<Longrightarrow> pct_decode (c # s) = c # pct_decode s"
  by (cases s rule: pct_decode.cases; cases "tl s") auto

lemma pct_encode_Cons:
  "pct_encode S [] = []"
  "pct_encode S (c # s) = (if S c \<or> 128 \<le> (of_char c :: nat) then pct_byte c else [c]) @ pct_encode S s"
  by (simp_all add: pct_encode_def)

lemma pct_decode_encode: "S CHR ''%'' \<Longrightarrow> pct_decode (pct_encode S s) = s"
proof (induction s)
  case (Cons c s)
  then have "pct_decode (c # pct_encode S s) = c # pct_decode (pct_encode S s)" if "\<not> S c"
    using that by (intro pct_decode_plain) auto
  with Cons show ?case by (simp add: pct_encode_Cons pct_decode_byte)
qed (simp add: pct_encode_Cons)

lemma alphanumeric_kept: "is_alphanumeric c \<Longrightarrow> \<not> path_encode_set c" "\<not> is_alphanumeric CHR ''/''"
  by (simp_all add: path_encode_set_def is_alphanumeric_def)

lemma pct_byte_set: "x \<in> set (pct_byte c) \<Longrightarrow> x = CHR ''%'' \<or> is_alphanumeric x"
  using of_char_div16 [of c] by (auto simp: pct_byte_def hex_char_alphanumeric)

lemma pct_encode_chars: "x \<in> set (pct_encode path_encode_set s) \<Longrightarrow> x = CHR ''%'' \<or> (\<not> path_encode_set x \<and> of_char x < (128 :: nat))"
proof (induction s)
  case (Cons c s)
  have "x = CHR ''%'' \<or> (\<not> path_encode_set x \<and> of_char x < (128 :: nat))" if "x \<in> set (pct_byte c)"
    using pct_byte_set [OF that] alphanumeric_kept(1) [of x] by (auto simp: is_alphanumeric_def Let_def)
  with Cons show ?case by (auto simp: pct_encode_Cons split: if_splits)
qed (simp add: pct_encode_Cons)

lemma slash_kept: "\<not> path_encode_set CHR ''/''" "\<not> (128 \<le> (of_char CHR ''/'' :: nat))"
  by (simp_all add: path_encode_set_def)

lemma slash_not_in_byte: "CHR ''/'' \<notin> set (pct_byte c)"
  using pct_byte_set [of "CHR ''/''" c] alphanumeric_kept(2) by auto

lemma split_on_prepend: "c \<notin> set p \<Longrightarrow> split_on c (p @ s) = (p @ hd (split_on c s)) # tl (split_on c s)"
  by (induction p) (auto simp: split_on_Cons_hd_tl [of c s, symmetric] simp flip: split_on_Cons_hd_tl)

lemma pct_encode_segments:
  "split_on CHR ''/'' (pct_encode path_encode_set p) = map (pct_encode path_encode_set) (split_on CHR ''/'' p)"
proof (induction p)
  case (Cons c p)
  note ih = split_on_Cons_hd_tl [of "CHR ''/''" p]
  show ?case
  proof (cases "c = CHR ''/''")
    case True
    with Cons show ?thesis by (simp add: pct_encode_Cons slash_kept)
  next
    case False
    let ?x = "if path_encode_set c \<or> 128 \<le> (of_char c :: nat) then pct_byte c else [c]"
    have "CHR ''/'' \<notin> set ?x" using False slash_not_in_byte by auto
    then have "split_on CHR ''/'' (pct_encode path_encode_set (c # p))
        = (?x @ hd (split_on CHR ''/'' (pct_encode path_encode_set p))) # tl (split_on CHR ''/'' (pct_encode path_encode_set p))"
      by (simp only: pct_encode_Cons split_on_prepend not_False_eq_True)
    with False Cons ih show ?thesis
      by (cases "split_on CHR ''/'' p") (simp_all add: pct_encode_Cons)
  qed
qed (simp add: pct_encode_Cons)

subsection \<open>Bodies\<close>

text \<open>What a stream comes to: its first error, or all its data.\<close>

fun stream_result :: "('e + bytes) list \<Rightarrow> 'e + bytes" where
  "stream_result [] = Inr []"
| "stream_result (Inl e # pieces) = Inl e"
| "stream_result (Inr bs # pieces) = map_sum id (\<lambda>data. bs @ data) (stream_result pieces)"

definition size_ok :: "u64 option \<Rightarrow> nat \<Rightarrow> bool" where
  "size_ok sz n = (case sz of None \<Rightarrow> True | Some expect \<Rightarrow> unat expect = n)"

lemma hb_check_iff:
  "(hb_check hb = Ok () \<longleftrightarrow> size_ok (hb_size hb) (unat (hb_consumed hb)))
   \<and> (hb_check hb = Ok () \<or> (\<exists>e. hb_check hb = Err e \<and> is_temporary e \<and> err_kind e = Unexpected))"
  by (auto simp: hb_check_def size_ok_def Let_def word_unat_eq_iff split: option.splits)

fun data_len :: "('e + bytes) list \<Rightarrow> nat" where
  "data_len [] = 0"
| "data_len (Inl e # pieces) = data_len pieces"
| "data_len (Inr bs # pieces) = length bs + data_len pieces"

lemma body_stream_simps:
  "body_stream uri [] = []"
  "body_stream uri (Inl e # pieces) = Inl (client_error ''read data from http response'' uri e) # body_stream uri pieces"
  "body_stream uri (Inr bs # pieces) = (if bs = [] then body_stream uri pieces else Inr (Contiguous bs) # body_stream uri pieces)"
  by (simp_all add: body_stream_def buf_from_bytes_def)

lemma read_all_stream:
  assumes "solid_queue False bufs" "unat (hb_consumed hb) + data_len pieces \<le> u64_max"
    and "hb_stream hb = body_stream uri pieces"
  shows "case stream_result pieces of
      Inl e \<Rightarrow> fst (hb_read_all_loop bufs hb) = Err (client_error ''read data from http response'' uri e)
    | Inr data \<Rightarrow>
        if size_ok (hb_size hb) (unat (hb_consumed hb) + length data)
        then \<exists>b. fst (hb_read_all_loop bufs hb) = Ok b \<and> buf_bytes b = queue_bytes bufs @ data
        else \<exists>e. fst (hb_read_all_loop bufs hb) = Err e \<and> is_temporary e \<and> err_kind e = Unexpected"
  using assms
proof (induction pieces arbitrary: bufs hb rule: stream_result.induct)
  case 1
  then have rd: "hb_read hb = (and_then (hb_check hb) (\<lambda>_. Ok buf_new), hb)" by (simp add: hb_read_def body_stream_simps)
  have e: "buf_is_empty buf_new" by (simp add: buf_is_empty_def buf_new_def buf_len_def)
  show ?case
  proof (cases "hb_check hb = Ok ()")
    case True
    with e rd collect_bufs_Ok [OF "1.prems"(1)] hb_check_iff [of hb] show ?thesis
      by (auto simp: hb_read_all_loop.simps [of bufs hb])
  next
    case False
    with rd hb_check_iff [of hb] show ?thesis by (auto simp: hb_read_all_loop.simps [of bufs hb])
  qed
next
  case (2 e pieces)
  then show ?case by (simp add: hb_read_all_loop.simps [of bufs hb] hb_read_def body_stream_simps)
next
  case (3 bs pieces)
  show ?case
  proof (cases "bs = []")
    case True
    with 3 show ?thesis by (cases "stream_result pieces") (simp_all add: body_stream_simps)
  next
    case False
    let ?hb = "hb\<lparr>hb_stream := body_stream uri pieces, hb_consumed := hb_consumed hb + of_nat (length bs)\<rparr>"
    have le: "unat (hb_consumed hb) + length bs \<le> u64_max" using "3.prems"(2) by simp
    then have n: "unat (of_nat (length bs) :: u64) = length bs"
      by (intro unat_of_length) simp
    with le have add: "(u64_add (hb_consumed hb) (of_nat (length bs)) :: u64 res) = Ok (hb_consumed hb + of_nat (length bs))"
      "unat (hb_consumed hb + of_nat (length bs)) = unat (hb_consumed hb) + length bs"
      by (simp_all add: unat_u64_add)
    have rd: "hb_read hb = (Ok (Contiguous bs), ?hb)"
      using "3.prems"(3) False add(1) by (simp add: hb_read_def body_stream_simps buf_len_def Let_def)
    have ne: "\<not> buf_is_empty (Contiguous bs)" using False by (simp add: buf_is_empty_def buf_len_def)
    have loop: "hb_read_all_loop bufs hb = hb_read_all_loop (bufs @ [Contiguous bs]) ?hb"
      by (simp add: hb_read_all_loop.simps [of bufs hb] rd ne)
    have "solid_queue False (bufs @ [Contiguous bs])" using "3.prems"(1) False by (simp add: solid_def)
    from "3.IH" [OF this, of ?hb] add(2) "3.prems"(2) show ?thesis
      by (cases "stream_result pieces") (simp_all add: loop add.assoc queue_bytes_def split: if_splits)
  qed
qed

text \<open>A body that was read without an error came as it is.\<close>

lemma read_all_Ok:
  assumes "fst (hb_read_all_loop bufs hb) = Ok b" "solid_queue False bufs" "hb_stream hb = body_stream uri pieces"
  shows "\<exists>data. stream_result pieces = Inr data \<and> buf_bytes b = queue_bytes bufs @ data"
  using assms
proof (induction pieces arbitrary: bufs hb rule: stream_result.induct)
  case 1
  then have "hb_read hb = (and_then (hb_check hb) (\<lambda>_. Ok buf_new), hb)" by (simp add: hb_read_def body_stream_simps)
  moreover have "buf_is_empty buf_new" by (simp add: buf_is_empty_def buf_new_def buf_len_def)
  ultimately show ?case using "1.prems"(1) collect_bufs_Ok [OF "1.prems"(2)]
    by (cases "hb_check hb") (auto simp: hb_read_all_loop.simps [of bufs hb])
next
  case (2 e pieces)
  then show ?case by (simp add: hb_read_all_loop.simps [of bufs hb] hb_read_def body_stream_simps)
next
  case (3 bs pieces)
  show ?case
  proof (cases "bs = []")
    case True
    then have "hb_stream hb = body_stream uri pieces" using "3.prems"(3) by (simp add: body_stream_simps)
    from "3.IH" [OF "3.prems"(1,2) this] True show ?thesis by auto
  next
    case False
    have ne: "\<not> buf_is_empty (Contiguous bs)" using False by (simp add: buf_is_empty_def buf_len_def)
    obtain k where k: "(u64_add (hb_consumed hb) (of_nat (length bs)) :: u64 res) = Ok k"
      using "3.prems"(1,3) False by (cases "u64_add (hb_consumed hb) (of_nat (length bs)) :: u64 res")
        (simp_all add: hb_read_all_loop.simps [of bufs hb] hb_read_def body_stream_simps buf_len_def Let_def)
    let ?hb = "hb\<lparr>hb_stream := body_stream uri pieces, hb_consumed := k\<rparr>"
    have "hb_read hb = (Ok (Contiguous bs), ?hb)"
      using "3.prems"(3) False k by (simp add: hb_read_def body_stream_simps buf_len_def Let_def)
    then have "fst (hb_read_all_loop (bufs @ [Contiguous bs]) ?hb) = Ok b"
      using "3.prems"(1) ne by (simp add: hb_read_all_loop.simps [of bufs hb])
    moreover have "solid_queue False (bufs @ [Contiguous bs])" using "3.prems"(2) False by (simp add: solid_def)
    ultimately show ?thesis using "3.IH" [of "bufs @ [Contiguous bs]" ?hb] by auto
  qed
qed

lemma http_send_Ok:
  assumes "http_send url_ok reqwest req w = (Ok resp, w')"
  shows "\<exists>raw. reqwest req w = (Inr raw, w') \<and> rs_status raw = rs_status resp \<and> rs_headers raw = rs_headers resp
    \<and> stream_result (rs_body raw) = Inr (buf_bytes (rs_body resp))"
proof -
  obtain raw sz b where r: "reqwest req w = (Inr raw, w')" "rs_status raw = rs_status resp" "rs_headers raw = rs_headers resp"
    "fst (hb_to_buffer (hb_new (body_stream (rq_uri req) (rs_body raw)) sz)) = Ok b" "b = rs_body resp"
    using assms by (auto simp: http_send_def http_fetch_def rs_from_parts_def rs_parts_def outcome_simps
        split: if_splits prod.splits sum.splits outcome.splits)
  from read_all_Ok [of "[]" "hb_new (body_stream (rq_uri req) (rs_body raw)) sz" b "rq_uri req" "rs_body raw"] r
  show ?thesis by (auto simp: hb_to_buffer_def hb_new_def)
qed

subsection \<open>Properties\<close>

text \<open>
  Paths in URLs. Encoding loses nothing: with the encoder and decoder of \<^verbatim>\<open>percent_encoding\<close> a path decodes to itself, so two paths
  never share a URL. The slashes stay, so that an encoded path has the encoded segments of the path, and nothing but
  unreserved ASCII characters, slashes and percent signs occurs in it.
\<close>

theorem percent_path_roundtrip:
  assumes "percent_codec utf8 enc dec" "utf8 path"
  shows "percent_decode_path dec (percent_encode_path enc path) = path
    \<and> split_on CHR ''/'' (percent_encode_path enc path) = map (percent_encode_path enc) (split_on CHR ''/'' path)
    \<and> (\<forall>c \<in> set (percent_encode_path enc path). c = CHR ''%'' \<or> (\<not> path_encode_set c \<and> of_char c < (128 :: nat)))"
proof -
  have enc: "enc path_encode_set p = pct_encode path_encode_set p" for p using assms(1) by (simp add: percent_codec_def)
  have "path_encode_set CHR ''%''" by (simp add: path_encode_set_def is_alphanumeric_def)
  then have d: "pct_decode (enc path_encode_set path) = path" unfolding enc by (rule pct_decode_encode)
  moreover have "dec (enc path_encode_set path) = Some path"
    using assms d unfolding percent_codec_def by metis
  ultimately show ?thesis
    using pct_encode_chars pct_encode_segments [of path]
    by (simp add: percent_encode_path_def percent_decode_path_def enc)
qed

theorem percent_path_roundtrip_witness:
  "percent_encode_path pct_encode ''a b/c?'' = ''a%20b/c%3F''
   \<and> percent_decode_path (\<lambda>s. Some (pct_decode s)) ''a%20b/c%3F'' = ''a b/c?''"
proof -
  have "percent_codec (\<lambda>s. True) pct_encode (\<lambda>s. Some (pct_decode s))" by (simp add: percent_codec_def)
  from percent_path_roundtrip [OF this, of "''a b/c?''"]
  have "percent_decode_path (\<lambda>s. Some (pct_decode s)) (percent_encode_path pct_encode ''a b/c?'') = ''a b/c?''" by simp
  moreover have "percent_encode_path pct_encode ''a b/c?'' = ''a%20b/c%3F''"
    by code_simp
  ultimately show ?thesis by simp
qed

text \<open>
  C35. Sending a request. When the transport answers, the client reads the whole body. An error inside the stream is reported. Otherwise
  the response carries exactly the data of the stream, unless the size that the headers announced, where it counts,
  is another one: then the result is a temporary error. A body that was cut off is never taken for a
  whole one.
\<close>

theorem http_send_exact:
  assumes "url_ok (rq_uri req)" "reqwest req w = (Inr resp, w')"
    and "fetch_size (rq_method req) (rs_headers resp) = Ok sz" "data_len (rs_body resp) \<le> u64_max"
  shows "case stream_result (rs_body resp) of
      Inl e \<Rightarrow> http_send url_ok reqwest req w = (Err (client_error ''read data from http response'' (rq_uri req) e), w')
    | Inr data \<Rightarrow>
        if size_ok sz (length data)
        then \<exists>b. http_send url_ok reqwest req w = (Ok \<lparr>rs_status = rs_status resp, rs_headers = rs_headers resp,
               rs_uri = Some (rq_uri req), rs_body = b\<rparr>, w') \<and> buf_bytes b = data
        else \<exists>e. http_send url_ok reqwest req w = (Err e, w') \<and> is_temporary e \<and> err_kind e = Unexpected"
  using read_all_stream [of "[]" "hb_new (body_stream (rq_uri req) (rs_body resp)) sz" "rs_body resp" "rq_uri req"] assms
  by (cases "stream_result (rs_body resp)")
    (auto simp: http_send_def http_fetch_def hb_to_buffer_def hb_new_def rs_from_parts_def rs_parts_def split: if_splits)

theorem http_send_exact_witness:
  "\<exists>e. http_send (\<lambda>u. True) (\<lambda>req w. (Inr \<lparr>rs_status = 200, rs_headers = [(''content-length'', HeaderText ''4'')],
       rs_uri = None, rs_body = [Inr [1, 2], Inr [], Inr [3]]\<rparr>, w)) \<lparr>rq_method = GET, rq_uri = ''u'', rq_headers = [], rq_body = buf_new\<rparr> ()
     = (Err e, ()) \<and> is_temporary e"
proof -
  let ?req = "\<lparr>rq_method = GET, rq_uri = ''u'', rq_headers = [], rq_body = buf_new\<rparr>"
  let ?resp = "\<lparr>rs_status = 200, rs_headers = [(''content-length'', HeaderText ''4'')], rs_uri = None,
     rs_body = [Inr [1, 2], Inr [], Inr [3 :: 8 word]]\<rparr>"
  have "fetch_size (rq_method ?req) (rs_headers ?resp) = Ok (Some 4)"
    by (simp add: fetch_size_def parse_content_encoding_def parse_header_to_str_def parse_content_length_def transpose_res_def
        parse_int_res_def parse_u64_def digit_val_def num_eval)
  from http_send_exact [of "\<lambda>u. True" ?req "\<lambda>req w. (Inr ?resp, w)" "()" ?resp "()", OF _ _ this]
  show ?thesis by (auto simp: size_ok_def u64_max_def)
qed

text \<open>
  An error that carries a response does not depend on its cookies and challenges: responses that differ in these
  headers alone give the same error, whatever the debug output shows.
\<close>

theorem error_response_redacted:
  assumes "filter (\<lambda>(k, v). k \<notin> {''set-cookie'', ''www-authenticate'', ''proxy-authenticate''}) hs
    = filter (\<lambda>(k, v). k \<notin> {''set-cookie'', ''www-authenticate'', ''proxy-authenticate''}) hs'"
  shows "with_error_response_context dbg err (pts\<lparr>rs_headers := hs\<rparr>) = with_error_response_context dbg err (pts\<lparr>rs_headers := hs'\<rparr>)"
proof -
  have "hdr_remove ''proxy-authenticate'' (hdr_remove ''www-authenticate'' (hdr_remove ''set-cookie'' h))
      = filter (\<lambda>(k, v). k \<notin> {''set-cookie'', ''www-authenticate'', ''proxy-authenticate''}) h" for h
    by (auto simp: hdr_remove_def intro!: filter_cong)
  with assms show ?thesis by (simp add: with_error_response_context_def)
qed

theorem error_response_redacted_witness:
  "with_error_response_context (\<lambda>p. show_nat (length (rs_headers p))) (new_error Unexpected ''failed'')
     \<lparr>rs_status = 401, rs_headers = [(''www-authenticate'', HeaderText ''secret''), (''etag'', HeaderText ''1'')], rs_uri = None, rs_body = ()\<rparr>
   = with_error_response_context (\<lambda>p. show_nat (length (rs_headers p))) (new_error Unexpected ''failed'')
     \<lparr>rs_status = 401, rs_headers = [(''etag'', HeaderText ''1'')], rs_uri = None, rs_body = ()\<rparr>"
  using error_response_redacted [of "[(''www-authenticate'', HeaderText ''secret''), (''etag'', HeaderText ''1'')]"
      "[(''etag'', HeaderText ''1'')]" "\<lambda>p. show_nat (length (rs_headers p))" "new_error Unexpected ''failed''"
      "\<lparr>rs_status = 401, rs_headers = [], rs_uri = None, rs_body = ()\<rparr>"]
  by simp

end
