(* ===== verification/Multiparts.thy ===== *)
theory Multiparts
  imports Http
begin

text \<open>
  Messages of several parts (\<^verbatim>\<open>core/src/raw/http_util/multipart.rs\<close>): the builder and parser around a boundary, form data
  parts, and mixed parts, which carry HTTP requests to a batch endpoint and its responses back.

  Texts are UTF-8 strings. What the \<^verbatim>\<open>http\<close> crate decides is a parameter: which header names, values and status codes are valid,
  and how a URI is taken apart. Headers are in the order in which the header map iterates over them.

  The theorems show that the parser finds exactly the parts a message was built from, and what it makes of
  a response.
\<close>

subsection \<open>Texts\<close>

definition text_bytes :: "string \<Rightarrow> bytes" where
  "text_bytes s = map of_char s"

definition bytes_text :: "bytes \<Rightarrow> string" where
  "bytes_text bs = map (\<lambda>b. char_of (unat b)) bs"

definition crlf :: string where
  "crlf = [CHR 0x0D, CHR 0x0A]"

text \<open>\<^verbatim>\<open>String::from_utf8\<close>.\<close>

definition cont_byte :: "nat \<Rightarrow> bool" where
  "cont_byte b = (128 \<le> b \<and> b \<le> 191)"

fun utf8_valid :: "nat list \<Rightarrow> bool" where
  "utf8_valid [] = True"
| "utf8_valid (a # s) =
     (if a < 128 then utf8_valid s
      else case s of
        b # s1 \<Rightarrow>
          if 194 \<le> a \<and> a \<le> 223 then cont_byte b \<and> utf8_valid s1
          else (case s1 of
            c # s2 \<Rightarrow>
              if a = 224 then 160 \<le> b \<and> b \<le> 191 \<and> cont_byte c \<and> utf8_valid s2
              else if a = 237 then 128 \<le> b \<and> b \<le> 159 \<and> cont_byte c \<and> utf8_valid s2
              else if 225 \<le> a \<and> a \<le> 239 then cont_byte b \<and> cont_byte c \<and> utf8_valid s2
              else (case s2 of
                d # s3 \<Rightarrow>
                  (if a = 240 then 144 \<le> b \<and> b \<le> 191
                   else if a = 244 then 128 \<le> b \<and> b \<le> 143
                   else 241 \<le> a \<and> a \<le> 243 \<and> cont_byte b)
                  \<and> cont_byte c \<and> cont_byte d \<and> utf8_valid s3
              | [] \<Rightarrow> False)
          | [] \<Rightarrow> False)
      | [] \<Rightarrow> False)"

text \<open>\<^verbatim>\<open>str::lines\<close>: a carriage return before the line feed goes too, and a last empty line is no line.\<close>

definition strip_cr :: "string \<Rightarrow> string" where
  "strip_cr l = (if ends_with l CHR 0x0D then butlast l else l)"

definition lines :: "string \<Rightarrow> string list" where
  "lines s =
     (let ls = split_on CHR 0x0A s in
      map strip_cr (butlast ls) @ (if last ls = [] then [] else [last ls]))"

definition splitn2 :: "string \<Rightarrow> string \<Rightarrow> string list" where
  "splitn2 sep s = (case split_once sep s of None \<Rightarrow> [s] | Some (a, b) \<Rightarrow> [a, b])"

text \<open>The second word of a text, \<^verbatim>\<open>split_whitespace().nth(1)\<close>, empty when there is none.\<close>

definition starts_space :: "string \<Rightarrow> bool" where
  "starts_space s = list_ex (starts_with s) white_space"

fun take_word :: "string \<Rightarrow> string \<times> string" where
  "take_word [] = ([], [])"
| "take_word (c # s) =
     (if starts_space (c # s) then ([], c # s) else (let (w, rest) = take_word s in (c # w, rest)))"

definition second_word :: "string \<Rightarrow> string" where
  "second_word s =
     (let (w, rest) = take_word (trim_start_any white_space s) in fst (take_word (trim_start_any white_space rest)))"

subsection \<open>Messages\<close>

record 'p multipart =
  mp_boundary :: string
  mp_parts :: "'p list"

definition mp_new :: "string \<Rightarrow> 'p multipart" where
  "mp_new uuid = \<lparr>mp_boundary = ''opendal-'' @ uuid, mp_parts = []\<rparr>"

definition mp_with_boundary :: "string \<Rightarrow> 'p multipart \<Rightarrow> 'p multipart" where
  "mp_with_boundary boundary m = m\<lparr>mp_boundary := boundary\<rparr>"

definition mp_part :: "'p \<Rightarrow> 'p multipart \<Rightarrow> 'p multipart" where
  "mp_part p m = m\<lparr>mp_parts := mp_parts m @ [p]\<rparr>"

fun parse_parts :: "(string \<Rightarrow> 'p res) \<Rightarrow> string list \<Rightarrow> 'p list \<Rightarrow> 'p list res" where
  "parse_parts parse_one [] acc = Ok acc"
| "parse_parts parse_one (s # ss) acc =
     (if s = [] \<or> starts_with s ''--'' then parse_parts parse_one ss acc
      else and_then (parse_one s) (\<lambda>p. parse_parts parse_one ss (acc @ [p])))"

text \<open>The text of the UTF-8 error is a parameter.\<close>

definition mp_parse :: "(bytes \<Rightarrow> string) \<Rightarrow> (string \<Rightarrow> 'p res) \<Rightarrow> bytes \<Rightarrow> 'p multipart \<Rightarrow> 'p multipart res" where
  "mp_parse utf8_error parse_one bs m =
     (if utf8_valid (map unat bs) then
        and_then (parse_parts parse_one (split_str (''--'' @ mp_boundary m) (bytes_text bs)) (mp_parts m))
          (\<lambda>ps. Ok (m\<lparr>mp_parts := ps\<rparr>))
      else source_err (utf8_error bs) (new_error Unexpected ''multipart response contains invalid utf-8 chars''))"

fun build_parts :: "('p \<Rightarrow> buffer res) \<Rightarrow> buffer \<Rightarrow> 'p list \<Rightarrow> buffer list res" where
  "build_parts format_one pre [] = Ok []"
| "build_parts format_one pre (p # ps) =
     and_then (format_one p) (\<lambda>b. and_then (build_parts format_one pre ps) (\<lambda>bs. Ok (pre # b # bs)))"

definition mp_build :: "('p \<Rightarrow> buffer res) \<Rightarrow> 'p multipart \<Rightarrow> buffer res" where
  "mp_build format_one m =
     and_then (build_parts format_one (Contiguous (text_bytes (''--'' @ mp_boundary m @ crlf))) (mp_parts m)) (\<lambda>bufs.
       collect_bufs (bufs @ [Contiguous (text_bytes (''--'' @ mp_boundary m @ ''--'' @ crlf))]))"

text \<open>\<open>ty\<close> is the type of the parts, \<open>finish\<close> the request builder of the \<^verbatim>\<open>http\<close> crate.\<close>

definition mp_apply ::
  "string \<Rightarrow> ('p \<Rightarrow> buffer res) \<Rightarrow> (http_request \<Rightarrow> http_request res) \<Rightarrow> 'p multipart \<Rightarrow> http_request \<Rightarrow> http_request res" where
  "mp_apply ty format_one finish m builder =
     and_then (mp_build format_one m) (\<lambda>buf.
       finish (builder\<lparr>rq_headers := rq_headers builder @
           [(''content-type'', ''multipart/'' @ ty @ ''; boundary='' @ mp_boundary m),
            (''content-length'', show_nat (buf_len buf))],
         rq_body := buf\<rparr>))"

subsection \<open>Parts\<close>

definition hdr_insert :: "string \<Rightarrow> 'v \<Rightarrow> (string \<times> 'v) list \<Rightarrow> (string \<times> 'v) list" where
  "hdr_insert k v hs = AList.update k v hs"

record form_data_part =
  fdp_headers :: "(string \<times> string) list"
  fdp_content :: buffer

definition fdp_new :: "(string \<Rightarrow> bool) \<Rightarrow> string \<Rightarrow> form_data_part res" where
  "fdp_new value_ok name =
     (let v = ''form-data; name='' @ [CHR 0x22] @ name @ [CHR 0x22] in
      guard (value_ok v) (Ok \<lparr>fdp_headers = [(''content-disposition'', v)], fdp_content = buf_new\<rparr>))"

definition fdp_header :: "string \<Rightarrow> string \<Rightarrow> form_data_part \<Rightarrow> form_data_part" where
  "fdp_header k v p = p\<lparr>fdp_headers := hdr_insert k v (fdp_headers p)\<rparr>"

definition fdp_set_content :: "buffer \<Rightarrow> form_data_part \<Rightarrow> form_data_part" where
  "fdp_set_content content p = p\<lparr>fdp_content := content\<rparr>"

definition header_line :: "(string \<Rightarrow> string) \<Rightarrow> string \<times> string \<Rightarrow> string" where
  "header_line spell h = spell (fst h) @ '': '' @ snd h @ crlf"

definition fdp_spell :: "string \<Rightarrow> string" where
  "fdp_spell k = (if k = ''content-disposition'' then ''Content-Disposition'' else k)"

definition fdp_format :: "form_data_part \<Rightarrow> buffer res" where
  "fdp_format p =
     collect_bufs [Contiguous (text_bytes (concat (map (header_line fdp_spell) (fdp_headers p)) @ crlf)),
       fdp_content p, Contiguous (text_bytes crlf)]"

definition fdp_parse :: "string \<Rightarrow> form_data_part res" where
  "fdp_parse s = Err (new_error Unsupported ''parse of form-data is not supported'')"

record mixed_part =
  mxp_part_headers :: "(string \<times> string) list"
  mxp_version :: string
  mxp_headers :: "(string \<times> string) list"
  mxp_content :: buffer
  mxp_method :: "http_method option"
  mxp_uri :: "string option"
  mxp_status_code :: "nat option"

record http_crate =
  hc_name :: "string \<Rightarrow> string + string"
  hc_value :: "string \<Rightarrow> string + string"
  hc_status :: "nat \<Rightarrow> string option"
  hc_path :: "string \<Rightarrow> string"
  hc_path_and_query :: "string \<Rightarrow> string option"
  hc_uri_ok :: "string \<Rightarrow> bool"

definition batch_headers :: "(string \<times> string) list" where
  "batch_headers = [(''content-type'', ''application/http''), (''content-transfer-encoding'', ''binary'')]"

definition mxp_new :: "http_crate \<Rightarrow> string \<Rightarrow> mixed_part res" where
  "mxp_new hc uri =
     guard (hc_uri_ok hc uri) (Ok \<lparr>mxp_part_headers = batch_headers, mxp_version = ''HTTP/1.1'', mxp_headers = [], mxp_content = buf_new,
       mxp_method = None, mxp_uri = Some uri, mxp_status_code = None\<rparr>)"

definition mxp_from_request :: "http_crate \<Rightarrow> string \<Rightarrow> http_request \<Rightarrow> mixed_part res" where
  "mxp_from_request hc version req =
     (let uri = (case hc_path_and_query hc (rq_uri req) of Some pq \<Rightarrow> pq | None \<Rightarrow> ''/'') in
      guard (hc_uri_ok hc uri) (Ok \<lparr>mxp_part_headers = batch_headers, mxp_version = version, mxp_headers = rq_headers req,
        mxp_content = rq_body req, mxp_method = Some (rq_method req), mxp_uri = Some uri, mxp_status_code = None\<rparr>))"

definition mxp_into_response :: "mixed_part \<Rightarrow> buffer http_response" where
  "mxp_into_response p =
     \<lparr>rs_status = (case mxp_status_code p of Some c \<Rightarrow> c | None \<Rightarrow> 200),
      rs_headers = map (\<lambda>(k, v). (k, HeaderText v)) (mxp_headers p), rs_uri = None, rs_body = mxp_content p\<rparr>"

definition mxp_part_header :: "string \<Rightarrow> string \<Rightarrow> mixed_part \<Rightarrow> mixed_part" where
  "mxp_part_header k v p = p\<lparr>mxp_part_headers := hdr_insert k v (mxp_part_headers p)\<rparr>"

definition mxp_spell :: "string \<Rightarrow> string" where
  "mxp_spell k =
     (if k = ''content-type'' then ''Content-Type''
      else if k = ''content-id'' then ''Content-ID''
      else if k = ''content-transfer-encoding'' then ''Content-Transfer-Encoding'' else k)"

fun method_text :: "http_method \<Rightarrow> string" where
  "method_text GET = ''GET''"
| "method_text HEAD = ''HEAD''"
| "method_text PUT = ''PUT''"
| "method_text POST = ''POST''"
| "method_text DELETE = ''DELETE''"

definition mxp_format :: "http_crate \<Rightarrow> mixed_part \<Rightarrow> buffer res" where
  "mxp_format hc p =
     (case (mxp_method p, mxp_uri p) of
        (Some method, Some uri) \<Rightarrow>
          (let bs = concat (map (header_line mxp_spell) (mxp_part_headers p)) @ crlf
             @ method_text method @ '' '' @ hc_path hc uri @ '' '' @ mxp_version p @ crlf
             @ concat (map (header_line id) (mxp_headers p)) @ crlf
           in collect_bufs (Contiguous (text_bytes bs)
                # (if buf_is_empty (mxp_content p) then [] else [mxp_content p, Contiguous (text_bytes crlf)])))
      | _ \<Rightarrow> Panic)"

fun parse_header_lines :: "http_crate \<Rightarrow> string list \<Rightarrow> (string \<times> string) list \<Rightarrow> (string \<times> string) list res" where
  "parse_header_lines hc [] hs = Ok hs"
| "parse_header_lines hc (l # ls) hs =
     (case splitn2 '': '' l of
        [k, v] \<Rightarrow>
          (case hc_name hc k of
             Inl e \<Rightarrow> source_err e (new_error Unexpected ''multipart response contains invalid part header name'')
           | Inr name \<Rightarrow>
               (case hc_value hc v of
                  Inl e \<Rightarrow> source_err e (new_error Unexpected ''multipart response contains invalid part header value'')
                | Inr value \<Rightarrow> parse_header_lines hc ls (hdr_insert name value hs)))
      | _ \<Rightarrow> parse_header_lines hc ls hs)"

definition parse_status_line :: "string \<Rightarrow> nat" where
  "parse_status_line l =
     (case parse_u64 (second_word l) of Inr n \<Rightarrow> if unat n \<le> 65535 then unat n else 200 | Inl e \<Rightarrow> 200)"

definition mxp_parse :: "http_crate \<Rightarrow> string \<Rightarrow> mixed_part res" where
  "mxp_parse hc s =
     (let ps = splitn2 (crlf @ crlf) s;
          part_headers_content = hd ps;
          http_response = (case ps of [_, r] \<Rightarrow> r | _ \<Rightarrow> [])
      in and_then (parse_header_lines hc (lines part_headers_content) []) (\<lambda>part_headers.
           let ps = split_str (crlf @ crlf) http_response;
               headers_content = hd ps;
               body_content = (case ps of _ # b # _ \<Rightarrow> b | _ \<Rightarrow> []);
               status_code = parse_status_line (case lines headers_content of l # _ \<Rightarrow> l | [] \<Rightarrow> [])
           in and_then (parse_header_lines hc (drop 1 (lines headers_content)) []) (\<lambda>headers.
                case hc_status hc status_code of
                  Some e \<Rightarrow> source_err e (new_error Unexpected ''multipart response contains invalid status code'')
                | None \<Rightarrow> Ok \<lparr>mxp_part_headers = part_headers, mxp_version = ''HTTP/1.1'', mxp_headers = headers,
                    mxp_content = Contiguous (text_bytes body_content), mxp_method = None, mxp_uri = None,
                    mxp_status_code = Some status_code\<rparr>)))"

subsection \<open>Finding the parts of a message\<close>

lemma bytes_text_of_text [simp]: "bytes_text (text_bytes s) = s"
proof -
  have "char_of (unat (of_char c :: 8 word)) = c" for c :: char
  proof -
    have "(of_char c :: 8 word) = of_nat (of_char c)" by (rule of_nat_of_char [symmetric])
    then have "unat (of_char c :: 8 word) = of_char c mod 2 ^ 8" by (simp only: unat_of_nat) simp
    then show ?thesis by simp
  qed
  then show ?thesis by (induction s) (simp_all add: bytes_text_def text_bytes_def)
qed

lemma text_bytes_append [simp]: "text_bytes (a @ b) = text_bytes a @ text_bytes b"
  by (simp add: text_bytes_def)

lemma split_str_pieces:
  assumes "sep \<noteq> []" "\<forall>x \<in> set (a # xs). \<not> contains_str x sep" "\<forall>x \<in> set (butlast (a # xs)). x = [] \<or> last x \<notin> set sep"
  shows "split_str sep (a @ concat (map (\<lambda>x. sep @ x) xs)) = a # xs"
  using assms(2,3)
proof (induction xs arbitrary: a)
  case Nil
  then show ?case by (simp add: split_str_no)
next
  case (Cons x xs)
  have "split_str sep (a @ sep @ x @ concat (map (\<lambda>x. sep @ x) xs)) = a # split_str sep (x @ concat (map (\<lambda>x. sep @ x) xs))"
    using Cons.prems assms(1) by (intro split_str_append) (auto split: if_splits)
  also have "split_str sep (x @ concat (map (\<lambda>x. sep @ x) xs)) = x # xs"
    using Cons.prems by (intro Cons.IH) (auto split: if_splits)
  finally show ?case by simp
qed

lemma build_parts_text:
  assumes "\<forall>p \<in> set ps. \<exists>b. format_one p = Ok b \<and> buf_wf b \<and> buf_bytes b = text_bytes (txt p) \<and> txt p \<noteq> []" "pre \<noteq> []"
  shows "\<exists>bufs. build_parts format_one (Contiguous (text_bytes pre)) ps = Ok bufs \<and> solid_queue False bufs
    \<and> queue_bytes bufs = text_bytes (concat (map (\<lambda>p. pre @ txt p) ps))"
  using assms(1)
proof (induction ps)
  case (Cons p ps)
  then obtain b bufs where "format_one p = Ok b" "buf_wf b" "buf_bytes b = text_bytes (txt p)" "txt p \<noteq> []"
    "build_parts format_one (Contiguous (text_bytes pre)) ps = Ok bufs" "solid_queue False bufs"
    "queue_bytes bufs = text_bytes (concat (map (\<lambda>p. pre @ txt p) ps))"
    by auto
  with assms(2) show ?case
    by (auto simp: solid_queue_def solid_def text_bytes_def)
qed (simp add: text_bytes_def)

text \<open>The texts between the boundaries of a message with the parts \<open>ps\<close>.\<close>

definition mp_pieces :: "('p \<Rightarrow> string) \<Rightarrow> 'p list \<Rightarrow> string list" where
  "mp_pieces txt ps = map (\<lambda>p. crlf @ txt p) ps @ [''--'' @ crlf]"

lemma mp_build_text:
  assumes "\<forall>p \<in> set ps. \<exists>b. format_one p = Ok b \<and> buf_wf b \<and> buf_bytes b = text_bytes (txt p) \<and> txt p \<noteq> []"
  shows "\<exists>b. mp_build format_one \<lparr>mp_boundary = boundary, mp_parts = ps\<rparr> = Ok b
    \<and> buf_bytes b = text_bytes (concat (map (\<lambda>x. (''--'' @ boundary) @ x) (mp_pieces txt ps)))"
proof -
  let ?pre = "''--'' @ boundary @ crlf" and ?fin = "Contiguous (text_bytes (''--'' @ boundary @ ''--'' @ crlf))"
  obtain bufs where b: "build_parts format_one (Contiguous (text_bytes ?pre)) ps = Ok bufs" "solid_queue False bufs"
    "queue_bytes bufs = text_bytes (concat (map (\<lambda>p. ?pre @ txt p) ps))"
    using build_parts_text [OF assms, of ?pre] by auto
  have "solid_queue False (bufs @ [?fin])" using b(2) by (simp add: solid_def text_bytes_def)
  from collect_bufs_Ok [OF this] b show ?thesis
    by (auto simp: mp_build_def mp_pieces_def comp_def)
qed

lemma mp_pieces_split:
  assumes "boundary \<noteq> []" "CHR 0x0A \<notin> set boundary" "CHR 0x0D \<notin> set boundary"
    and "\<forall>p \<in> set ps. ends_with (txt p) CHR 0x0A \<and> \<not> contains_str (txt p) (''--'' @ boundary)"
  shows "split_str (''--'' @ boundary) (concat (map (\<lambda>x. (''--'' @ boundary) @ x) (mp_pieces txt ps))) = [] # mp_pieces txt ps"
proof -
  let ?sep = "''--'' @ boundary"
  have skip: "contains_str (crlf @ t) (CHR ''-'' # CHR ''-'' # boundary) \<longleftrightarrow> contains_str t (CHR ''-'' # CHR ''-'' # boundary)" for t
    using contains_skip [of "CHR ''-''" crlf t "CHR ''-'' # boundary"] by (simp add: crlf_def)
  have len: "length boundary + 2 \<le> length s" if "contains_str s ?sep" for s
    using that by (auto simp: contains_str_def)
  have fin: "\<not> contains_str (''--'' @ crlf) ?sep"
  proof
    assume "contains_str (''--'' @ crlf) ?sep"
    then obtain u v where "''--'' @ crlf = u @ ?sep @ v" by (auto simp: contains_str_def)
    with assms(1-3) show False
      by (cases u; cases "tl u"; cases boundary) (auto simp: crlf_def Cons_eq_append_conv)
  qed
  have "split_str ?sep ([] @ concat (map (\<lambda>x. ?sep @ x) (mp_pieces txt ps))) = [] # mp_pieces txt ps"
  proof (rule split_str_pieces)
    show "\<forall>x \<in> set ([] # mp_pieces txt ps). \<not> contains_str x ?sep"
      using assms(4) fin len [of "[]"] by (auto simp: mp_pieces_def skip)
    show "\<forall>x \<in> set (butlast ([] # mp_pieces txt ps)). x = [] \<or> last x \<notin> set ?sep"
      using assms(2,4) by (auto simp: mp_pieces_def butlast_append ends_with_iff)
  qed simp
  then show ?thesis by simp
qed

lemma parse_parts_pieces:
  "parse_parts parse_one ([] # mp_pieces txt ps) acc = parse_parts parse_one (map (\<lambda>p. crlf @ txt p) ps) acc"
proof -
  have "parse_parts parse_one (map (\<lambda>p. crlf @ txt p) ps @ [''--'' @ crlf]) acc
      = parse_parts parse_one (map (\<lambda>p. crlf @ txt p) ps) acc" for acc
    by (induction ps arbitrary: acc) (simp_all add: starts_with_def)
  then show ?thesis by (simp add: mp_pieces_def)
qed

subsection \<open>Reading a response\<close>

lemma starts_space_iff: "starts_space (c # s) \<Longrightarrow> of_char c \<in> {9 .. 13 :: nat} \<or> of_char c = (32 :: nat) \<or> 128 \<le> (of_char c :: nat)"
  by (auto simp: starts_space_def starts_with_def white_space_def)

definition word_char :: "char \<Rightarrow> bool" where
  "word_char c = (33 \<le> (of_char c :: nat) \<and> of_char c < (128 :: nat))"

lemma word_char_no_space: "word_char c \<Longrightarrow> \<not> starts_space (c # s)"
  using starts_space_iff [of c s] by (auto simp: word_char_def)

lemma take_word_append: "list_all word_char w \<Longrightarrow> starts_space s \<Longrightarrow> take_word (w @ s) = (w, s)"
proof (induction w)
  case Nil
  then show ?case by (cases s) simp_all
qed (simp add: word_char_no_space)

lemma trim_start_word: "word_char c \<Longrightarrow> trim_start_any white_space (c # s) = c # s"
proof -
  assume "word_char c"
  then have "find (\<lambda>w. w \<noteq> [] \<and> starts_with (c # s) w) white_space = None"
    using word_char_no_space [of c s] by (auto simp: find_None_iff starts_space_def list_ex_iff)
  then show ?thesis by (simp add: trim_start_any.simps [of white_space "c # s"])
qed

lemma trim_start_space: "trim_start_any white_space (CHR '' '' # s) = trim_start_any white_space s"
proof -
  have "find (\<lambda>w. w \<noteq> [] \<and> starts_with (CHR '' '' # s) w) white_space = Some '' ''"
    by (simp add: white_space_def starts_with_def)
  then show ?thesis by (simp add: trim_start_any.simps [of white_space "CHR '' '' # s"])
qed

lemma starts_space_blank: "starts_space (CHR '' '' # s)"
  by (simp add: starts_space_def white_space_def starts_with_def)

lemma second_word_status:
  assumes "list_all word_char w" "w \<noteq> []" "list_all word_char v" "v \<noteq> []"
  shows "second_word (w @ CHR '' '' # v @ CHR '' '' # s) = v"
proof -
  obtain c w' d v' where c: "w = c # w'" "v = d # v'" using assms(2,4) by (auto simp: neq_Nil_conv)
  have "trim_start_any white_space (w @ CHR '' '' # v @ CHR '' '' # s) = w @ CHR '' '' # v @ CHR '' '' # s"
    using assms(1) c(1) by (simp add: trim_start_word)
  moreover have "trim_start_any white_space (v @ CHR '' '' # s) = v @ CHR '' '' # s"
    using assms(3) c(2) by (simp add: trim_start_word)
  moreover have "take_word (w @ CHR '' '' # v @ CHR '' '' # s) = (w, CHR '' '' # v @ CHR '' '' # s)"
    using assms(1) by (intro take_word_append starts_space_blank)
  moreover have "take_word (v @ CHR '' '' # s) = (v, CHR '' '' # s)" using assms(3) by (intro take_word_append starts_space_blank)
  ultimately show ?thesis by (simp add: second_word_def trim_start_space)
qed

lemma status_line_code:
  assumes "n \<le> 999"
  shows "parse_status_line (''HTTP/1.1 '' @ show_nat n @ '' '' @ reason) = n"
proof -
  have d: "list_all word_char (show_nat n)"
    by (auto simp: list_all_iff word_char_def of_char_digit_char dest!: show_nat_digits)
  have "second_word (''HTTP/1.1'' @ CHR '' '' # show_nat n @ CHR '' '' # reason) = show_nat n"
    using d by (intro second_word_status) (simp_all add: word_char_def)
  moreover have "n \<le> u64_max" "n < 2 ^ 64" using assms by (simp_all add: u64_max_eq)
  ultimately show ?thesis using assms parse_show_nat [of n]
    by (simp add: parse_status_line_def unat_of_nat_u64)
qed

text \<open>Lines that are not empty and have no line break, each after a line break.\<close>

definition plain_line :: "string \<Rightarrow> bool" where
  "plain_line l = (l \<noteq> [] \<and> CHR 0x0D \<notin> set l \<and> CHR 0x0A \<notin> set l)"

lemma plain_line_ends: "plain_line l \<Longrightarrow> CHR 0x0A \<notin> set l \<and> l \<noteq> [] \<and> \<not> ends_with l CHR 0x0D"
  by (auto simp: plain_line_def ends_with_def dest: last_in_set)

definition crlf_lines :: "string list \<Rightarrow> string" where
  "crlf_lines ls = concat (map (\<lambda>l. crlf @ l) ls)"

lemma crlf_lines_Cons [simp]: "crlf_lines [] = []" "crlf_lines (l # ls) = crlf @ l @ crlf_lines ls"
  by (simp_all add: crlf_lines_def)

lemma no_blank_line: "list_all plain_line ls \<Longrightarrow> \<not> contains_str (crlf_lines ls) (crlf @ crlf)"
proof (induction ls)
  case Nil
  show ?case by (simp add: contains_str_def crlf_def)
next
  case (Cons l ls)
  show ?case
  proof
    assume "contains_str (crlf_lines (l # ls)) (crlf @ crlf)"
    then obtain u v where uv: "crlf @ l @ crlf_lines ls = u @ (crlf @ crlf) @ v" by (auto simp: contains_str_def)
    obtain c l' where l: "l = c # l'" "c \<noteq> CHR 0x0D" using Cons.prems by (cases l) (auto simp: plain_line_def)
    then obtain u' where "u = crlf @ u'" using uv
      by (cases u; cases "tl u") (auto simp: crlf_def)
    with uv have "contains_str (l @ crlf_lines ls) (crlf @ crlf)" by (auto simp: contains_str_def)
    moreover have "CHR 0x0D \<notin> set l" using Cons.prems by (simp add: plain_line_def)
    ultimately have "contains_str (crlf_lines ls) (crlf @ crlf)"
      using contains_skip [of "CHR 0x0D" l "crlf_lines ls" "CHR 0x0A # crlf"] by (simp add: crlf_def)
    with Cons show False by simp
  qed
qed

lemma crlf_lines_last: "list_all plain_line ls \<Longrightarrow> crlf_lines ls = [] \<or> last (crlf_lines ls) \<notin> set (crlf @ crlf)"
proof (induction ls rule: rev_induct)
  case (snoc l ls)
  then have "plain_line l" by simp
  then have "l \<noteq> []" "last l \<notin> set (crlf @ crlf)" by (auto simp: plain_line_def crlf_def dest: last_in_set)
  then show ?case by (simp add: crlf_lines_def)
qed simp

lemma lines_plain:
  assumes "list_all plain_line ls" "CHR 0x0A \<notin> set l0" "ls = [] \<longrightarrow> l0 \<noteq> []" "\<not> ends_with l0 CHR 0x0D"
  shows "lines (l0 @ crlf_lines ls) = l0 # ls"
proof -
  have split: "split_on CHR 0x0A (l0 @ crlf_lines ls) = map (\<lambda>l. l @ [CHR 0x0D]) (butlast (l0 # ls)) @ [last (l0 # ls)]"
    if "list_all plain_line ls" "CHR 0x0A \<notin> set l0" for l0 ls
    using that
  proof (induction ls arbitrary: l0)
    case (Cons l ls)
    have "split_on CHR 0x0A ((l0 @ [CHR 0x0D]) @ CHR 0x0A # (l @ crlf_lines ls))
        = (l0 @ [CHR 0x0D]) # split_on CHR 0x0A (l @ crlf_lines ls)"
      using Cons.prems(2) by (simp only: split_on_append) (simp add: split_on_no)
    with Cons show ?case by (simp add: crlf_def plain_line_def)
  qed (simp add: split_on_no)
  have plain: "last (l0 # ls) \<noteq> []" using assms(1,3) by (cases ls rule: rev_cases) (auto simp: plain_line_def)
  have "map strip_cr (map (\<lambda>l. l @ [CHR 0x0D]) (butlast (l0 # ls))) = butlast (l0 # ls)"
    by (simp add: strip_cr_def comp_def)
  then show ?thesis using split [OF assms(1,2)] plain
    by (simp add: lines_def Let_def append_butlast_last_id [of "l0 # ls", simplified])
qed

text \<open>Headers as lines.\<close>

definition clean_header :: "http_crate \<Rightarrow> (string \<Rightarrow> string) \<Rightarrow> string \<times> string \<Rightarrow> bool" where
  "clean_header hc nm h =
     (CHR '':'' \<notin> set (fst h) \<and> plain_line (fst h) \<and> CHR 0x0D \<notin> set (snd h) \<and> CHR 0x0A \<notin> set (snd h)
      \<and> hc_name hc (fst h) = Inr (nm (fst h)) \<and> hc_value hc (snd h) = Inr (snd h))"

definition header_text :: "string \<times> string \<Rightarrow> string" where
  "header_text h = fst h @ '': '' @ snd h"

lemma header_text_plain: "clean_header hc nm h \<Longrightarrow> plain_line (header_text h)"
  by (auto simp: clean_header_def header_text_def plain_line_def)

lemma header_text_split: "clean_header hc nm h \<Longrightarrow> splitn2 '': '' (header_text h) = [fst h, snd h]"
  using split_once_first [of "CHR '':''" "fst h" "'' ''" "snd h"]
  by (simp add: splitn2_def header_text_def clean_header_def case_prod_unfold)

definition insert_headers :: "(string \<Rightarrow> string) \<Rightarrow> (string \<times> string) list \<Rightarrow> (string \<times> string) list \<Rightarrow> (string \<times> string) list" where
  "insert_headers nm hs acc = fold (\<lambda>(k, v) acc. hdr_insert (nm k) v acc) hs acc"

lemma parse_header_lines_clean:
  "list_all (clean_header hc nm) hs \<Longrightarrow> parse_header_lines hc (map header_text hs) acc = Ok (insert_headers nm hs acc)"
proof (induction hs arbitrary: acc)
  case (Cons h hs)
  then have h: "clean_header hc nm h" by simp
  then have "hc_name hc (fst h) = Inr (nm (fst h))" "hc_value hc (snd h) = Inr (snd h)" by (simp_all add: clean_header_def)
  with Cons header_text_split [OF h] show ?case by (simp add: insert_headers_def case_prod_unfold)
qed (simp add: insert_headers_def)

lemma parse_header_lines_blank: "parse_header_lines hc ([] # ls) acc = parse_header_lines hc ls acc"
proof -
  have "split_once '': '' [] = None" by (rule split_once_None) (simp add: contains_str_def)
  then show ?thesis by (simp add: splitn2_def)
qed

text \<open>A response of a batch: headers of the part, status line, headers, body.\<close>

definition response_text :: "(string \<times> string) list \<Rightarrow> nat \<Rightarrow> string \<Rightarrow> (string \<times> string) list \<Rightarrow> string \<Rightarrow> string" where
  "response_text part_headers code reason hs body =
     crlf_lines (map header_text part_headers) @ (crlf @ crlf)
     @ (''HTTP/1.1 '' @ show_nat code @ '' '' @ reason) @ crlf_lines (map header_text hs) @ (crlf @ crlf) @ body"

lemma clean_plain: "list_all (clean_header hc nm) hs \<Longrightarrow> list_all plain_line (map header_text hs)"
  by (auto simp: list_all_iff header_text_plain)

lemma blank_line_neq: "crlf \<noteq> []" "crlf @ crlf \<noteq> []"
  by (simp_all add: crlf_def)

lemma status_text_plain:
  assumes "plain_line reason" "list_all plain_line ls"
  shows "plain_line (''HTTP/1.1 '' @ show_nat code @ '' '' @ reason)"
    "\<not> contains_str ((''HTTP/1.1 '' @ show_nat code @ '' '' @ reason) @ crlf_lines ls) (crlf @ crlf)"
    "last ((''HTTP/1.1 '' @ show_nat code @ '' '' @ reason) @ crlf_lines ls) \<notin> set (crlf @ crlf)"
proof -
  let ?l0 = "''HTTP/1.1 '' @ show_nat code @ '' '' @ reason"
  have "CHR 0x0D \<notin> set (show_nat code)" "CHR 0x0A \<notin> set (show_nat code)"
    by (simp_all add: show_nat_not_in)
  with assms(1) show p: "plain_line ?l0" by (auto simp: plain_line_def)
  then have "CHR 0x0D \<notin> set ?l0" by (simp add: plain_line_def)
  then show "\<not> contains_str (?l0 @ crlf_lines ls) (crlf @ crlf)"
    using no_blank_line [OF assms(2)] contains_skip [of "CHR 0x0D" ?l0 "crlf_lines ls" "CHR 0x0A # crlf"]
    by (simp add: crlf_def)
  have "last ?l0 \<in> set ?l0" by (rule last_in_set) simp
  with p have "last ?l0 \<notin> set (crlf @ crlf)" by (auto simp: plain_line_def crlf_def simp del: last_append)
  then show "last (?l0 @ crlf_lines ls) \<notin> set (crlf @ crlf)"
    using crlf_lines_last [OF assms(2)] by (metis append_Nil2 last_appendR)
qed

subsection \<open>Properties\<close>

text \<open>
  A message falls into its parts. Let each part be formatted as a text that ends with a line break and does
  not contain the delimiter. Building the message and parsing it with the same boundary parses exactly the texts of the
  parts, in order, each with the line break of its delimiter in front.
\<close>

theorem multipart_parse_build:
  assumes "boundary \<noteq> []" "CHR 0x0A \<notin> set boundary" "CHR 0x0D \<notin> set boundary"
    and "\<forall>p \<in> set ps. ends_with (txt p) CHR 0x0A \<and> \<not> contains_str (txt p) (''--'' @ boundary)"
    and "\<forall>p \<in> set ps. \<exists>b. format_one p = Ok b \<and> buf_wf b \<and> buf_bytes b = text_bytes (txt p)"
  shows "\<exists>b. mp_build format_one \<lparr>mp_boundary = boundary, mp_parts = ps\<rparr> = Ok b
    \<and> (utf8_valid (map unat (buf_bytes b)) \<longrightarrow>
        mp_parse utf8_error parse_one (buf_bytes b) \<lparr>mp_boundary = boundary, mp_parts = []\<rparr>
        = and_then (parse_parts parse_one (map (\<lambda>p. crlf @ txt p) ps) [])
            (\<lambda>qs. Ok \<lparr>mp_boundary = boundary, mp_parts = qs\<rparr>))"
proof -
  have "\<forall>p \<in> set ps. \<exists>b. format_one p = Ok b \<and> buf_wf b \<and> buf_bytes b = text_bytes (txt p) \<and> txt p \<noteq> []"
    using assms(4,5) ends_with_Nil by metis
  from mp_build_text [OF this, of boundary] obtain b where
    b: "mp_build format_one \<lparr>mp_boundary = boundary, mp_parts = ps\<rparr> = Ok b"
    "buf_bytes b = text_bytes (concat (map (\<lambda>x. (''--'' @ boundary) @ x) (mp_pieces txt ps)))" by blast
  have "bytes_text (buf_bytes b) = concat (map (\<lambda>x. (''--'' @ boundary) @ x) (mp_pieces txt ps))"
    unfolding b(2) by (rule bytes_text_of_text)
  with b(1) mp_pieces_split [OF assms(1-4)] parse_parts_pieces [of parse_one "txt" ps "[]"] show ?thesis
    by (simp add: mp_parse_def)
qed

text \<open>
  What a batch response parses to: the status code of its status line, the headers of the part and of the response
  under the names the \<^verbatim>\<open>http\<close> crate gives them, and the body up to its first blank line. The rest of the body is lost, since
  the parser splits it at every blank line and takes the first piece.
\<close>

theorem mixed_response_parse:
  assumes "list_all (clean_header hc nm) part_headers" "list_all (clean_header hc nm) hs"
    and "code \<le> 999" "hc_status hc code = None" "plain_line reason"
  shows "mxp_parse hc (response_text part_headers code reason hs body) =
    Ok \<lparr>mxp_part_headers = insert_headers nm part_headers [], mxp_version = ''HTTP/1.1'', mxp_headers = insert_headers nm hs [],
        mxp_content = Contiguous (text_bytes (hd (split_str (crlf @ crlf) body))), mxp_method = None, mxp_uri = None,
        mxp_status_code = Some code\<rparr>"
proof -
  let ?p = "map header_text part_headers" and ?h = "map header_text hs"
  let ?l0 = "''HTTP/1.1 '' @ show_nat code @ '' '' @ reason" and ?sep = "crlf @ crlf"
  have p: "list_all plain_line ?p" "list_all plain_line ?h" using assms(1,2) by (simp_all add: clean_plain)
  note l0 = status_text_plain [OF assms(5) p(2), of code]
  let ?rest = "?l0 @ crlf_lines ?h @ ?sep @ body"
  have fst: "split_once ?sep (crlf_lines ?p @ ?sep @ ?rest) = Some (crlf_lines ?p, ?rest)"
    using no_blank_line [OF p(1)] crlf_lines_last [OF p(1)] by (intro split_once_append) (simp_all add: blank_line_neq)
  have "split_str ?sep ((?l0 @ crlf_lines ?h) @ ?sep @ body) = (?l0 @ crlf_lines ?h) # split_str ?sep body"
    using l0(2,3) by (intro split_str_append disjI2) (simp_all only: blank_line_neq not_False_eq_True)
  then have snd: "split_str ?sep ?rest = (?l0 @ crlf_lines ?h) # split_str ?sep body" by (simp only: append_assoc)
  have ne: "split_str ?sep body \<noteq> []" by (simp add: split_str.simps [of ?sep body] split: option.splits)
  have "lines (?l0 @ crlf_lines ?h) = ?l0 # ?h"
    using plain_line_ends [OF l0(1)] p(2) by (intro lines_plain) blast+
  moreover have "parse_header_lines hc (lines (crlf_lines ?p)) [] = Ok (insert_headers nm part_headers [])"
  proof (cases "part_headers = []")
    case True
    then show ?thesis by (simp add: lines_def insert_headers_def)
  next
    case False
    then have "lines ([] @ crlf_lines ?p) = [] # ?p" using p(1) by (intro lines_plain) simp_all
    then show ?thesis by (simp only: append_Nil parse_header_lines_blank parse_header_lines_clean [OF assms(1)])
  qed
  ultimately show ?thesis
    using fst snd ne parse_header_lines_clean [OF assms(2)] status_line_code [OF assms(3), of reason] assms(4)
    by (cases "split_str ?sep body") (simp_all add: mxp_parse_def response_text_def splitn2_def)
qed

theorem multipart_parse_build_witness:
  "\<exists>b. mp_build (\<lambda>s. Ok (Contiguous (text_bytes s))) \<lparr>mp_boundary = ''B'', mp_parts = [''x'' @ crlf, ''y'' @ crlf]\<rparr> = Ok b
    \<and> (utf8_valid (map unat (buf_bytes b)) \<longrightarrow>
        mp_parse (\<lambda>bs. []) Ok (buf_bytes b) \<lparr>mp_boundary = ''B'', mp_parts = []\<rparr>
        = Ok \<lparr>mp_boundary = ''B'', mp_parts = [crlf @ ''x'' @ crlf, crlf @ ''y'' @ crlf]\<rparr>)"
proof -
  have "\<not> contains_str (''x'' @ crlf) (''--'' @ ''B'')" "\<not> contains_str (''y'' @ crlf) (''--'' @ ''B'')"
    by (auto simp: contains_str_def crlf_def Cons_eq_append_conv)
  then have ok: "\<forall>p \<in> set [''x'' @ crlf, ''y'' @ crlf]. ends_with (id p) CHR 0x0A \<and> \<not> contains_str (id p) (''--'' @ ''B'')"
    by (simp add: crlf_def ends_with_def)
  have f: "\<forall>p \<in> set [''x'' @ crlf, ''y'' @ crlf]. \<exists>b. Ok (Contiguous (text_bytes p)) = (Ok b :: buffer res) \<and> buf_wf b \<and> buf_bytes b = text_bytes (id p)"
    by simp
  have "''B'' \<noteq> []" "CHR 0x0A \<notin> set ''B''" "CHR 0x0D \<notin> set ''B''" by simp_all
  from multipart_parse_build [OF this ok f, of "\<lambda>bs. []" Ok] show ?thesis
    by (simp add: crlf_def starts_with_def)
qed

theorem mixed_response_parse_witness:
  "mxp_parse \<lparr>hc_name = Inr, hc_value = Inr, hc_status = \<lambda>n. if 100 \<le> n \<and> n < 1000 then None else Some ''invalid status code'',
       hc_path = id, hc_path_and_query = Some, hc_uri_ok = \<lambda>u. True\<rparr>
     (response_text [(''content-id'', ''1'')] 404 ''Not Found'' [(''x'', ''y'')] (''a'' @ crlf @ crlf @ ''b''))
   = Ok \<lparr>mxp_part_headers = [(''content-id'', ''1'')], mxp_version = ''HTTP/1.1'', mxp_headers = [(''x'', ''y'')],
        mxp_content = Contiguous (text_bytes ''a''), mxp_method = None, mxp_uri = None, mxp_status_code = Some 404\<rparr>"
proof -
  let ?hc = "\<lparr>hc_name = Inr, hc_value = Inr, hc_status = \<lambda>n. if 100 \<le> n \<and> n < 1000 then None else Some ''invalid status code'',
       hc_path = id, hc_path_and_query = Some, hc_uri_ok = \<lambda>u. True\<rparr>"
  have "list_all (clean_header ?hc id) [(''content-id'', ''1'')]" "list_all (clean_header ?hc id) [(''x'', ''y'')]"
    "(404 :: nat) \<le> 999" "hc_status ?hc 404 = None" "plain_line ''Not Found''"
    by (simp_all add: clean_header_def plain_line_def)
  from mixed_response_parse [OF this, of "''a'' @ crlf @ crlf @ ''b''"]
  have "mxp_parse ?hc (response_text [(''content-id'', ''1'')] 404 ''Not Found'' [(''x'', ''y'')] (''a'' @ crlf @ crlf @ ''b''))
   = Ok \<lparr>mxp_part_headers = insert_headers id [(''content-id'', ''1'')] [], mxp_version = ''HTTP/1.1'', mxp_headers = insert_headers id [(''x'', ''y'')] [],
        mxp_content = Contiguous (text_bytes (hd (split_str (crlf @ crlf) (''a'' @ crlf @ crlf @ ''b'')))), mxp_method = None, mxp_uri = None,
        mxp_status_code = Some 404\<rparr>" .
  moreover have "hd (split_str (crlf @ crlf) (''a'' @ crlf @ crlf @ ''b'')) = ''a''"
    using split_str_append [of "''a''" "crlf @ crlf" "''b''"] by (simp add: crlf_def contains_str_def Cons_eq_append_conv)
  ultimately show ?thesis by (simp add: insert_headers_def hdr_insert_def)
qed

end
