(* ===== verification/S3.thy ===== *)
theory S3
  imports Http Retry
begin

text \<open>
  The S3 service (\<^verbatim>\<open>core/src/services/s3\<close>): requests (\<^verbatim>\<open>core.rs\<close>), errors (\<^verbatim>\<open>error.rs\<close>), the writer, the listers, the deleter and the
  accessor (\<^verbatim>\<open>writer.rs\<close>, \<^verbatim>\<open>lister.rs\<close>, \<^verbatim>\<open>delete.rs\<close>, \<^verbatim>\<open>backend.rs\<close>) over the HTTP client.

  The environment is a parameter: the transport and the server behind it, credentials and signing (\<^verbatim>\<open>reqsign\<close>), the request builder
  of the \<^verbatim>\<open>http\<close> crate, which keeps header names in lower case, XML (\<^verbatim>\<open>quick_xml\<close>), dates, digests, and texts that appear in messages only. The state of the service is that
  of the environment with the flag that credentials were loaded once.

  The theorems are about reading an object through the retry layer, about the metadata a write sends and \<open>stat\<close>
  returns, and about the pages of a listing.
\<close>

subsection \<open>Messages\<close>

record s3_error =
  s3e_code :: string
  s3e_message :: string
  s3e_resource :: string
  s3e_request_id :: string

record complete_part =
  cpp_part_number :: nat
  cpp_etag :: string
  cpp_checksum_crc32c :: "string option"

record delete_object =
  dob_key :: string
  dob_version_id :: "string option"

record delete_error =
  der_code :: string
  der_key :: string
  der_message :: string

record delete_objects_result =
  dor_deleted :: "string list"
  dor_error :: "delete_error list"

record list_object =
  loc_key :: string
  loc_size :: u64
  loc_last_modified :: string
  loc_etag :: "string option"

record list_output =
  lout_is_truncated :: "bool option"
  lout_next_continuation_token :: "string option"
  lout_common_prefixes :: "string list"
  lout_contents :: "list_object list"

record object_version =
  ver_key :: string
  ver_version_id :: string
  ver_is_latest :: bool
  ver_size :: u64
  ver_last_modified :: string
  ver_etag :: "string option"

record delete_marker =
  dm_key :: string
  dm_version_id :: string
  dm_is_latest :: bool
  dm_last_modified :: string

record versions_output =
  vout_is_truncated :: "bool option"
  vout_next_key_marker :: "string option"
  vout_next_version_id_marker :: "string option"
  vout_common_prefixes :: "string list"
  vout_version :: "object_version list"
  vout_delete_marker :: "delete_marker list"

datatype checksum_algorithm = Crc32c

fun checksum_header_name :: "checksum_algorithm \<Rightarrow> string" where
  "checksum_header_name Crc32c = ''x-amz-checksum-crc32c''"

fun checksum_display :: "checksum_algorithm \<Rightarrow> string" where
  "checksum_display Crc32c = ''CRC32C''"

subsection \<open>The environment and the core\<close>

record ('c, 'w) s3_env =
  se_encode :: percent_encoder
  se_decode :: percent_decoder
  se_http_date :: "datetime \<Rightarrow> string"
  se_rfc2822 :: "string \<Rightarrow> string + datetime"
  se_rfc3339 :: "string \<Rightarrow> string + datetime"
  se_header_name :: "string \<Rightarrow> string"
  se_builder :: "http_request \<Rightarrow> string option"
  se_load :: "'w \<Rightarrow> (string + 'c option) \<times> 'w"
  se_sign :: "'c \<Rightarrow> http_request \<Rightarrow> string + http_request"
  se_url_ok :: "string \<Rightarrow> bool"
  se_reqwest :: "'w transport"
  se_dbg :: "unit http_response \<Rightarrow> string"
  se_content_md5 :: "string \<Rightarrow> string"
  se_crc32c_append :: "32 word \<Rightarrow> bytes \<Rightarrow> 32 word"
  se_crc_text :: "32 word \<Rightarrow> string"
  se_error_text :: "s3_error \<Rightarrow> string"
  se_body_text :: "buffer \<Rightarrow> string"
  se_delete_text :: "delete_error \<Rightarrow> string"
  se_xml_error :: "buffer \<Rightarrow> string + s3_error"
  se_xml_initiate :: "buffer \<Rightarrow> string + string"
  se_xml_complete :: "complete_part list \<Rightarrow> string + string"
  se_xml_delete :: "delete_object list \<Rightarrow> string + string"
  se_xml_delete_result :: "buffer \<Rightarrow> string + delete_objects_result"
  se_xml_list :: "buffer \<Rightarrow> string + list_output"
  se_xml_versions :: "buffer \<Rightarrow> string + versions_output"

record s3_core =
  s3_bucket :: string
  s3_endpoint :: string
  s3_root :: string
  s3_sse :: "string option"
  s3_sse_aws_kms_key_id :: "string option"
  s3_sse_customer_algorithm :: "string option"
  s3_sse_customer_key :: "string option"
  s3_sse_customer_key_md5 :: "string option"
  s3_default_storage_class :: "string option"
  s3_allow_anonymous :: bool
  s3_disable_stat_with_override :: bool
  s3_enable_versioning :: bool
  s3_delete_max_size :: nat
  s3_checksum_algorithm :: "checksum_algorithm option"
  s3_disable_write_with_if_match :: bool

type_synonym 'w s3_state = "'w \<times> bool"

definition xml_error :: "string \<Rightarrow> error" where
  "xml_error e = (new_error Unexpected ''deserialize xml'')\<lparr>err_source := Some e\<rparr>"

definition s3_load_credential :: "('c, 'w) s3_env \<Rightarrow> s3_core \<Rightarrow> 'w s3_state \<Rightarrow> 'c option res \<times> 'w s3_state" where
  "s3_load_credential env core = (\<lambda>(w, loaded).
     case se_load env w of
       (Inl e, w') \<Rightarrow> (and_then (new_request_credential_error e) Err, w', loaded)
     | (Inr (Some cred), w') \<Rightarrow> (Ok (Some cred), w', True)
     | (Inr None, w') \<Rightarrow>
         (if loaded then
            Err (set_temporary (new_error PermissionDenied
              ''credential was previously loaded successfully but has failed this time''))
          else if s3_allow_anonymous core then Ok None
          else Err (new_error PermissionDenied ''no valid credential found and anonymous access is not allowed''), w', loaded))"

definition s3_sign :: "('c, 'w) s3_env \<Rightarrow> s3_core \<Rightarrow> http_request \<Rightarrow> 'w s3_state \<Rightarrow> http_request res \<times> 'w s3_state" where
  "s3_sign env core req s =
     step (s3_load_credential env core s) (\<lambda>cred s.
       case cred of
         None \<Rightarrow> (Ok req, s)
       | Some c \<Rightarrow>
           (case se_sign env c req of
              Inl e \<Rightarrow> (and_then (new_request_sign_error e) Err, s)
            | Inr req' \<Rightarrow> (Ok (req'\<lparr>rq_headers := filter (\<lambda>(k, v). k \<noteq> ''host'') (rq_headers req')\<rparr>), s)))"

definition s3_build :: "('c, 'w) s3_env \<Rightarrow> http_request \<Rightarrow> http_request res" where
  "s3_build env req =
     (case se_builder env req of None \<Rightarrow> Ok req | Some e \<Rightarrow> and_then (new_request_build_error e) Err)"

definition s3_send :: "('c, 'w) s3_env \<Rightarrow> http_request \<Rightarrow> 'w s3_state \<Rightarrow> buffer http_response res \<times> 'w s3_state" where
  "s3_send env req = (\<lambda>(w, loaded).
     let (r, w') = http_send (se_url_ok env) (se_reqwest env) req w in (r, w', loaded))"

definition s3_fetch :: "('c, 'w) s3_env \<Rightarrow> http_request \<Rightarrow> 'w s3_state \<Rightarrow> http_body http_response res \<times> 'w s3_state" where
  "s3_fetch env req = (\<lambda>(w, loaded).
     let (r, w') = http_fetch (se_url_ok env) (se_reqwest env) req w in (r, w', loaded))"

text \<open>Every operation builds, signs and sends its request.\<close>

definition s3_call :: "('c, 'w) s3_env \<Rightarrow> s3_core \<Rightarrow> http_request res \<Rightarrow> 'w s3_state \<Rightarrow> buffer http_response res \<times> 'w s3_state" where
  "s3_call env core req s =
     step (and_then req (s3_build env), s) (\<lambda>req s.
       step (s3_sign env core req s) (\<lambda>req s. s3_send env req s))"

definition opt_header :: "string \<Rightarrow> string option \<Rightarrow> (string \<times> string) list" where
  "opt_header name v = (case v of None \<Rightarrow> [] | Some x \<Rightarrow> [(name, x)])"

definition sse_headers :: "s3_core \<Rightarrow> bool \<Rightarrow> (string \<times> string) list" where
  "sse_headers core is_write =
     (if is_write then opt_header ''x-amz-server-side-encryption'' (s3_sse core)
        @ opt_header ''x-amz-server-side-encryption-aws-kms-key-id'' (s3_sse_aws_kms_key_id core) else [])
     @ opt_header ''x-amz-server-side-encryption-customer-algorithm'' (s3_sse_customer_algorithm core)
     @ opt_header ''x-amz-server-side-encryption-customer-key'' (s3_sse_customer_key core)
     @ opt_header ''x-amz-server-side-encryption-customer-key-md5'' (s3_sse_customer_key_md5 core)"

definition calculate_checksum :: "('c, 'w) s3_env \<Rightarrow> s3_core \<Rightarrow> buffer \<Rightarrow> string option res" where
  "calculate_checksum env core body =
     (case s3_checksum_algorithm core of
        None \<Rightarrow> Ok None
      | Some Crc32c \<Rightarrow>
          and_then (buf_iter body) (\<lambda>chunks. Ok (Some (se_crc_text env (fold (\<lambda>b crc. se_crc32c_append env crc b) chunks 0)))))"

definition checksum_header :: "s3_core \<Rightarrow> string \<Rightarrow> (string \<times> string) list" where
  "checksum_header core checksum =
     (case s3_checksum_algorithm core of None \<Rightarrow> [] | Some a \<Rightarrow> [(checksum_header_name a, checksum)])"

definition checksum_type_header :: "s3_core \<Rightarrow> (string \<times> string) list" where
  "checksum_type_header core =
     (case s3_checksum_algorithm core of None \<Rightarrow> [] | Some a \<Rightarrow> [(''x-amz-checksum-algorithm'', checksum_display a)])"

subsection \<open>Requests\<close>

definition s3_enc :: "('c, 'w) s3_env \<Rightarrow> string \<Rightarrow> string" where
  "s3_enc env s = percent_encode_path (se_encode env) s"

definition opt_arg :: "string \<Rightarrow> (string \<Rightarrow> string) \<Rightarrow> string option \<Rightarrow> string list" where
  "opt_arg name f v = (case v of None \<Rightarrow> [] | Some x \<Rightarrow> [name @ ''='' @ f x])"

definition with_query :: "string \<Rightarrow> string list \<Rightarrow> string" where
  "with_query url args = (if args = [] then url else url @ ''?'' @ join_with ''&'' args)"

definition s3_url :: "('c, 'w) s3_env \<Rightarrow> s3_core \<Rightarrow> string \<Rightarrow> string res" where
  "s3_url env core path =
     and_then (build_abs_path (s3_root core) path) (\<lambda>p. Ok (s3_endpoint core @ slash @ s3_enc env p))"

definition s3_head_object_request :: "('c, 'w) s3_env \<Rightarrow> s3_core \<Rightarrow> string \<Rightarrow> op_stat \<Rightarrow> http_request res" where
  "s3_head_object_request env core path args =
     and_then (s3_url env core path) (\<lambda>url.
       s3_build env \<lparr>rq_method = HEAD,
         rq_uri = with_query url
           (opt_arg ''response-content-disposition'' (s3_enc env) (so_override_content_disposition args)
            @ opt_arg ''response-content-type'' (s3_enc env) (so_override_content_type args)
            @ opt_arg ''response-cache-control'' (s3_enc env) (so_override_cache_control args)
            @ opt_arg ''versionId'' (percent_decode_path (se_decode env)) (so_version args)),
         rq_headers = sse_headers core False
           @ opt_header ''if-none-match'' (so_if_none_match args)
           @ opt_header ''if-match'' (so_if_match args)
           @ opt_header ''if-modified-since'' (map_option (se_http_date env) (so_if_modified_since args))
           @ opt_header ''if-unmodified-since'' (map_option (se_http_date env) (so_if_unmodified_since args)),
         rq_body = buf_new\<rparr>)"

definition s3_get_object_request :: "('c, 'w) s3_env \<Rightarrow> s3_core \<Rightarrow> string \<Rightarrow> bytes_range \<Rightarrow> op_read \<Rightarrow> http_request res" where
  "s3_get_object_request env core path rng args =
     and_then (s3_url env core path) (\<lambda>url.
     and_then (if br_is_full rng then Ok [] else and_then (br_to_header rng) (\<lambda>h. Ok [(''range'', h)])) (\<lambda>range_header.
       s3_build env \<lparr>rq_method = GET,
         rq_uri = with_query url
           (opt_arg ''response-content-disposition'' (s3_enc env) (ro_override_content_disposition args)
            @ opt_arg ''response-content-type'' (s3_enc env) (ro_override_content_type args)
            @ opt_arg ''response-cache-control'' (s3_enc env) (ro_override_cache_control args)
            @ opt_arg ''versionId'' (percent_decode_path (se_decode env)) (ro_version args)),
         rq_headers = range_header
           @ opt_header ''if-none-match'' (ro_if_none_match args)
           @ opt_header ''if-match'' (ro_if_match args)
           @ opt_header ''if-modified-since'' (map_option (se_http_date env) (ro_if_modified_since args))
           @ opt_header ''if-unmodified-since'' (map_option (se_http_date env) (ro_if_unmodified_since args))
           @ sse_headers core False,
         rq_body = buf_new\<rparr>))"

definition s3_get_object :: "('c, 'w) s3_env \<Rightarrow> s3_core \<Rightarrow> string \<Rightarrow> bytes_range \<Rightarrow> op_read \<Rightarrow> 'w s3_state \<Rightarrow> http_body http_response res \<times> 'w s3_state" where
  "s3_get_object env core path rng args s =
     step (s3_get_object_request env core path rng args, s) (\<lambda>req s.
       step (s3_sign env core req s) (\<lambda>req s. s3_fetch env req s))"

definition user_metadata_headers :: "('c, 'w) s3_env \<Rightarrow> op_write \<Rightarrow> (string \<times> string) list" where
  "user_metadata_headers env args =
     (case wo_user_metadata args of None \<Rightarrow> [] | Some m \<Rightarrow> map (\<lambda>(k, v). (se_header_name env (''x-amz-meta-'' @ k), v)) m)"

definition s3_put_object_request ::
  "('c, 'w) s3_env \<Rightarrow> s3_core \<Rightarrow> string \<Rightarrow> nat option \<Rightarrow> op_write \<Rightarrow> buffer \<Rightarrow> http_request res" where
  "s3_put_object_request env core path sz args body =
     and_then (s3_url env core path) (\<lambda>url.
     and_then (calculate_checksum env core body) (\<lambda>checksum.
       s3_build env \<lparr>rq_method = PUT, rq_uri = url,
         rq_headers = opt_header ''content-length'' (map_option show_nat sz)
           @ opt_header ''content-type'' (wo_content_type args)
           @ opt_header ''content-disposition'' (wo_content_disposition args)
           @ opt_header ''content-encoding'' (wo_content_encoding args)
           @ opt_header ''cache-control'' (wo_cache_control args)
           @ opt_header ''if-match'' (wo_if_match args)
           @ (if wo_if_not_exists args then [(''if-none-match'', ''*'')] else [])
           @ opt_header ''x-amz-storage-class'' (s3_default_storage_class core)
           @ user_metadata_headers env args
           @ sse_headers core True
           @ (case checksum of None \<Rightarrow> [] | Some c \<Rightarrow> checksum_header core c),
         rq_body = body\<rparr>))"

definition s3_head_object :: "('c, 'w) s3_env \<Rightarrow> s3_core \<Rightarrow> string \<Rightarrow> op_stat \<Rightarrow> 'w s3_state \<Rightarrow> buffer http_response res \<times> 'w s3_state" where
  "s3_head_object env core path args s =
     step (s3_head_object_request env core path args, s) (\<lambda>req s.
       step (s3_sign env core req s) (\<lambda>req s. s3_send env req s))"

definition s3_delete_object :: "('c, 'w) s3_env \<Rightarrow> s3_core \<Rightarrow> string \<Rightarrow> op_delete \<Rightarrow> 'w s3_state \<Rightarrow> buffer http_response res \<times> 'w s3_state" where
  "s3_delete_object env core path args =
     s3_call env core (and_then (s3_url env core path) (\<lambda>url.
       Ok \<lparr>rq_method = DELETE, rq_uri = with_query url (opt_arg ''versionId'' (s3_enc env) (od_version args)),
           rq_headers = [], rq_body = buf_new\<rparr>))"

definition s3_copy_object :: "('c, 'w) s3_env \<Rightarrow> s3_core \<Rightarrow> string \<Rightarrow> string \<Rightarrow> 'w s3_state \<Rightarrow> buffer http_response res \<times> 'w s3_state" where
  "s3_copy_object env core source target =
     s3_call env core
       (and_then (build_abs_path (s3_root core) source) (\<lambda>source.
        and_then (build_abs_path (s3_root core) target) (\<lambda>target.
          Ok \<lparr>rq_method = PUT, rq_uri = s3_endpoint core @ slash @ s3_enc env target,
              rq_headers = sse_headers core True
                @ opt_header ''x-amz-copy-source-server-side-encryption-customer-algorithm'' (s3_sse_customer_algorithm core)
                @ opt_header ''x-amz-copy-source-server-side-encryption-customer-key'' (s3_sse_customer_key core)
                @ opt_header ''x-amz-copy-source-server-side-encryption-customer-key-md5'' (s3_sse_customer_key_md5 core)
                @ [(''x-amz-copy-source'', s3_bucket core @ slash @ s3_enc env source)],
              rq_body = buf_new\<rparr>)))"

definition s3_list_objects ::
  "('c, 'w) s3_env \<Rightarrow> s3_core \<Rightarrow> string \<Rightarrow> string \<Rightarrow> string \<Rightarrow> nat option \<Rightarrow> string option \<Rightarrow> 'w s3_state
     \<Rightarrow> buffer http_response res \<times> 'w s3_state" where
  "s3_list_objects env core path continuation_token delimiter limit start_after =
     s3_call env core
       (and_then (build_abs_path (s3_root core) path) (\<lambda>p.
          Ok \<lparr>rq_method = GET,
              rq_uri = s3_endpoint core @ ''?list-type=2''
                @ (if p = [] then [] else ''&prefix='' @ s3_enc env p)
                @ (if delimiter = [] then [] else ''&delimiter='' @ delimiter)
                @ (case limit of None \<Rightarrow> [] | Some n \<Rightarrow> ''&max-keys='' @ show_nat n)
                @ (case start_after of None \<Rightarrow> [] | Some x \<Rightarrow> ''&start-after='' @ s3_enc env x)
                @ (if continuation_token = [] then [] else ''&continuation-token='' @ s3_enc env continuation_token),
              rq_headers = [], rq_body = buf_new\<rparr>))"

definition s3_initiate_multipart_upload ::
  "('c, 'w) s3_env \<Rightarrow> s3_core \<Rightarrow> string \<Rightarrow> op_write \<Rightarrow> 'w s3_state \<Rightarrow> buffer http_response res \<times> 'w s3_state" where
  "s3_initiate_multipart_upload env core path args =
     s3_call env core (and_then (s3_url env core path) (\<lambda>url.
       Ok \<lparr>rq_method = POST, rq_uri = url @ ''?uploads'',
           rq_headers = opt_header ''content-type'' (wo_content_type args)
             @ opt_header ''content-disposition'' (wo_content_disposition args)
             @ opt_header ''cache-control'' (wo_cache_control args)
             @ opt_header ''x-amz-storage-class'' (s3_default_storage_class core)
             @ user_metadata_headers env args
             @ sse_headers core True
             @ checksum_type_header core,
           rq_body = buf_new\<rparr>))"

definition s3_upload_part_request ::
  "('c, 'w) s3_env \<Rightarrow> s3_core \<Rightarrow> string \<Rightarrow> string \<Rightarrow> nat \<Rightarrow> nat \<Rightarrow> buffer \<Rightarrow> string option \<Rightarrow> http_request res" where
  "s3_upload_part_request env core path upload_id number sz body checksum =
     and_then (s3_url env core path) (\<lambda>url.
       s3_build env \<lparr>rq_method = PUT,
         rq_uri = url @ ''?partNumber='' @ show_nat number @ ''&uploadId='' @ s3_enc env upload_id,
         rq_headers = [(''content-length'', show_nat sz)] @ sse_headers core True
           @ (case checksum of None \<Rightarrow> [] | Some c \<Rightarrow> checksum_header core c),
         rq_body = body\<rparr>)"

definition text_buffer :: "string \<Rightarrow> buffer" where
  "text_buffer s = Contiguous (map of_char s)"

definition s3_complete_multipart_upload ::
  "('c, 'w) s3_env \<Rightarrow> s3_core \<Rightarrow> string \<Rightarrow> string \<Rightarrow> complete_part list \<Rightarrow> 'w s3_state \<Rightarrow> buffer http_response res \<times> 'w s3_state" where
  "s3_complete_multipart_upload env core path upload_id ps =
     s3_call env core (and_then (s3_url env core path) (\<lambda>url.
       case se_xml_complete env ps of
         Inl e \<Rightarrow> Err (xml_error e)
       | Inr content \<Rightarrow>
           Ok \<lparr>rq_method = POST, rq_uri = url @ ''?uploadId='' @ s3_enc env upload_id,
               rq_headers = sse_headers core True
                 @ [(''content-length'', show_nat (length content)), (''content-type'', ''application/xml'')],
               rq_body = text_buffer content\<rparr>))"

definition s3_abort_multipart_upload ::
  "('c, 'w) s3_env \<Rightarrow> s3_core \<Rightarrow> string \<Rightarrow> string \<Rightarrow> 'w s3_state \<Rightarrow> buffer http_response res \<times> 'w s3_state" where
  "s3_abort_multipart_upload env core path upload_id =
     s3_call env core (and_then (s3_url env core path) (\<lambda>url.
       Ok \<lparr>rq_method = DELETE, rq_uri = url @ ''?uploadId='' @ s3_enc env upload_id, rq_headers = [], rq_body = buf_new\<rparr>))"

fun delete_objects_of :: "s3_core \<Rightarrow> request list \<Rightarrow> delete_object list res" where
  "delete_objects_of core [] = Ok []"
| "delete_objects_of core ((path, args) # rs) =
     and_then (build_abs_path (s3_root core) path) (\<lambda>key.
     and_then (delete_objects_of core rs) (\<lambda>os. Ok (\<lparr>dob_key = key, dob_version_id = od_version args\<rparr> # os)))"

definition s3_delete_objects :: "('c, 'w) s3_env \<Rightarrow> s3_core \<Rightarrow> request list \<Rightarrow> 'w s3_state \<Rightarrow> buffer http_response res \<times> 'w s3_state" where
  "s3_delete_objects env core paths =
     s3_call env core (and_then (delete_objects_of core paths) (\<lambda>os.
       case se_xml_delete env os of
         Inl e \<Rightarrow> Err (xml_error e)
       | Inr content \<Rightarrow>
           Ok \<lparr>rq_method = POST, rq_uri = s3_endpoint core @ ''/?delete'',
               rq_headers = [(''content-length'', show_nat (length content)), (''content-type'', ''application/xml''),
                 (''content-md5'', se_content_md5 env content)],
               rq_body = text_buffer content\<rparr>))"

definition s3_list_object_versions ::
  "('c, 'w) s3_env \<Rightarrow> s3_core \<Rightarrow> string \<Rightarrow> string \<Rightarrow> nat option \<Rightarrow> string \<Rightarrow> string \<Rightarrow> 'w s3_state
     \<Rightarrow> buffer http_response res \<times> 'w s3_state" where
  "s3_list_object_versions env core path delimiter limit key_marker version_id_marker =
     s3_call env core
       (and_then (build_abs_path (s3_root core) path) (\<lambda>p.
          Ok \<lparr>rq_method = GET,
              rq_uri = s3_endpoint core @ ''?versions''
                @ (if p = [] then [] else ''&prefix='' @ s3_enc env p)
                @ (if delimiter = [] then [] else ''&delimiter='' @ delimiter)
                @ (case limit of None \<Rightarrow> [] | Some n \<Rightarrow> ''&max-keys='' @ show_nat n)
                @ (if key_marker = [] then [] else ''&key-marker='' @ s3_enc env key_marker)
                @ (if version_id_marker = [] then [] else ''&version-id-marker='' @ s3_enc env version_id_marker),
              rq_headers = [], rq_body = buf_new\<rparr>))"

subsection \<open>Errors\<close>

definition parse_s3_error_code :: "string \<Rightarrow> (error_kind \<times> bool) option" where
  "parse_s3_error_code code =
     (if code = ''NoSuchBucket'' then Some (ConfigInvalid, False)
      else if code = ''RequestTimeout'' then Some (Unexpected, True)
      else if code = ''InternalError'' then Some (Unexpected, True)
      else if code = ''OperationAborted'' then Some (Unexpected, True)
      else if code = ''SlowDown'' then Some (RateLimited, True)
      else if code = ''ServiceUnavailable'' then Some (Unexpected, True)
      else None)"

definition s3_status_kind :: "nat \<Rightarrow> error_kind \<times> bool" where
  "s3_status_kind status =
     (if status = 403 then (PermissionDenied, False)
      else if status = 404 then (NotFound, False)
      else if status \<in> {304, 412} then (ConditionNotMatch, False)
      else if status = 499 then (Unexpected, True)
      else if status \<in> {500, 502, 503, 504} then (Unexpected, True)
      else (Unexpected, False))"

definition temporary_if :: "bool \<Rightarrow> error \<Rightarrow> error" where
  "temporary_if retryable err = (if retryable then set_temporary err else err)"

definition s3_parse_error :: "('c, 'w) s3_env \<Rightarrow> buffer http_response \<Rightarrow> error" where
  "s3_parse_error env resp =
     (let (message, s3_err) = (case se_xml_error env (rs_body resp) of
            Inr e \<Rightarrow> (se_error_text env e, Some e)
          | Inl _ \<Rightarrow> (se_body_text env (rs_body resp), None));
          (kind, retryable) = (case s3_err of
            Some e \<Rightarrow> (case parse_s3_error_code (s3e_code e) of Some kr \<Rightarrow> kr | None \<Rightarrow> s3_status_kind (rs_status resp))
          | None \<Rightarrow> s3_status_kind (rs_status resp))
      in temporary_if retryable (with_error_response_context (se_dbg env) (new_error kind message) (rs_parts resp)))"

definition from_s3_error :: "('c, 'w) s3_env \<Rightarrow> s3_error \<Rightarrow> unit http_response \<Rightarrow> error" where
  "from_s3_error env e pts =
     (let (kind, retryable) = (case parse_s3_error_code (s3e_code e) of Some kr \<Rightarrow> kr | None \<Rightarrow> (Unexpected, False))
      in temporary_if retryable (with_error_response_context (se_dbg env) (new_error kind (se_error_text env e)) pts))"

subsection \<open>The writer\<close>

definition s3_write_once :: "('c, 'w) s3_env \<Rightarrow> s3_core \<Rightarrow> string \<Rightarrow> op_write \<Rightarrow> nat \<Rightarrow> buffer \<Rightarrow> 'w s3_state \<Rightarrow> unit res \<times> 'w s3_state" where
  "s3_write_once env core path args sz body s =
     step (s3_put_object_request env core path (Some sz) args body, s) (\<lambda>req s.
     step (s3_sign env core req s) (\<lambda>req s.
     step (s3_send env req s) (\<lambda>resp s.
       (if rs_status resp \<in> {200, 201} then Ok () else Err (s3_parse_error env resp), s))))"

definition s3_initiate_part :: "('c, 'w) s3_env \<Rightarrow> s3_core \<Rightarrow> string \<Rightarrow> op_write \<Rightarrow> 'w s3_state \<Rightarrow> string res \<times> 'w s3_state" where
  "s3_initiate_part env core path args s =
     step (s3_initiate_multipart_upload env core path args s) (\<lambda>resp s.
       (if rs_status resp = 200 then
          case se_xml_initiate env (rs_body resp) of Inl e \<Rightarrow> Err (xml_error e) | Inr upload_id \<Rightarrow> Ok upload_id
        else Err (s3_parse_error env resp), s))"

definition s3_write_part ::
  "('c, 'w) s3_env \<Rightarrow> s3_core \<Rightarrow> string \<Rightarrow> string \<Rightarrow> nat \<Rightarrow> nat \<Rightarrow> buffer \<Rightarrow> 'w s3_state \<Rightarrow> multipart_part res \<times> 'w s3_state" where
  "s3_write_part env core path upload_id number sz body s =
     (let number = number + 1 in
      step (calculate_checksum env core body, s) (\<lambda>checksum s.
      step (s3_upload_part_request env core path upload_id number sz body checksum, s) (\<lambda>req s.
      step (s3_sign env core req s) (\<lambda>req s.
      step (s3_send env req s) (\<lambda>resp s.
        (if rs_status resp = 200 then
           and_then (parse_etag (rs_headers resp)) (\<lambda>etag.
             case etag of
               None \<Rightarrow> Err (new_error Unexpected ''ETag not present in returning response'')
             | Some etag \<Rightarrow> Ok \<lparr>part_number = number, part_etag = etag, part_checksum = checksum\<rparr>)
         else Err (s3_parse_error env resp), s))))))"

definition complete_part_of :: "s3_core \<Rightarrow> multipart_part \<Rightarrow> complete_part" where
  "complete_part_of core p =
     (case s3_checksum_algorithm core of
        None \<Rightarrow> \<lparr>cpp_part_number = part_number p, cpp_etag = part_etag p, cpp_checksum_crc32c = None\<rparr>
      | Some Crc32c \<Rightarrow> \<lparr>cpp_part_number = part_number p, cpp_etag = part_etag p, cpp_checksum_crc32c = part_checksum p\<rparr>)"

definition s3_complete_part ::
  "('c, 'w) s3_env \<Rightarrow> s3_core \<Rightarrow> string \<Rightarrow> string \<Rightarrow> multipart_part list \<Rightarrow> 'w s3_state \<Rightarrow> unit res \<times> 'w s3_state" where
  "s3_complete_part env core path upload_id ps s =
     step (s3_complete_multipart_upload env core path upload_id (map (complete_part_of core) ps) s) (\<lambda>resp s.
       (if rs_status resp = 200 then
          case se_xml_error env (rs_body resp) of
            Inl e \<Rightarrow> Err (xml_error e)
          | Inr maybe_error \<Rightarrow> if s3e_code maybe_error \<noteq> [] then Err (from_s3_error env maybe_error (rs_parts resp)) else Ok ()
        else Err (s3_parse_error env resp), s))"

definition s3_abort_part :: "('c, 'w) s3_env \<Rightarrow> s3_core \<Rightarrow> string \<Rightarrow> string \<Rightarrow> 'w s3_state \<Rightarrow> unit res \<times> 'w s3_state" where
  "s3_abort_part env core path upload_id s =
     step (s3_abort_multipart_upload env core path upload_id s) (\<lambda>resp s.
       (if rs_status resp = 204 then Ok () else Err (s3_parse_error env resp), s))"

text \<open>
  The generic writer takes operations that return or fail. A panic, which an invalid URL or a path outside the conventions causes, ends the task
  it happens in; it is kept as an error of its own.
\<close>

definition panic_error :: error where
  "panic_error = new_error Unexpected ''panicked''"

definition io_of :: "'a res \<times> 's \<Rightarrow> 'a io \<times> 's" where
  "io_of x = (case x of (Ok a, s) \<Rightarrow> (Inr a, s) | (Err e, s) \<Rightarrow> (Inl e, s) | (Panic, s) \<Rightarrow> (Inl panic_error, s))"

definition s3_writer :: "('c, 'w) s3_env \<Rightarrow> s3_core \<Rightarrow> string \<Rightarrow> op_write \<Rightarrow> 'w s3_state multipart_write" where
  "s3_writer env core path args =
     \<lparr>mw_write_once = (\<lambda>sz body s. io_of (s3_write_once env core path args sz body s)),
      mw_initiate_part = (\<lambda>s. io_of (s3_initiate_part env core path args s)),
      mw_write_part = (\<lambda>upload_id number sz body s. io_of (s3_write_part env core path upload_id number sz body s)),
      mw_complete_part = (\<lambda>upload_id ps s. io_of (s3_complete_part env core path upload_id ps s)),
      mw_abort_part = (\<lambda>upload_id s. io_of (s3_abort_part env core path upload_id s))\<rparr>"

subsection \<open>Listing\<close>

definition pc_push :: "oio_entry \<Rightarrow> page_context \<Rightarrow> page_context" where
  "pc_push e ctx = ctx\<lparr>pc_entries := pc_entries ctx @ [e]\<rparr>"

text \<open>A loop that pushes an entry for each element, and leaves what it has pushed when an element fails.\<close>

fun push_each :: "('a \<Rightarrow> oio_entry option res) \<Rightarrow> 'a list \<Rightarrow> page_context \<Rightarrow> unit res \<times> page_context" where
  "push_each f [] ctx = (Ok (), ctx)"
| "push_each f (x # xs) ctx =
     (case f x of
        Ok (Some e) \<Rightarrow> push_each f xs (pc_push e ctx)
      | Ok None \<Rightarrow> push_each f xs ctx
      | Err e \<Rightarrow> (Err e, ctx)
      | Panic \<Rightarrow> (Panic, ctx))"

definition prefix_entry :: "string \<Rightarrow> string \<Rightarrow> oio_entry option res" where
  "prefix_entry root p =
     and_then (build_rel_path root p) (\<lambda>path. and_then (entry_with path (metadata_new DIR)) (\<lambda>e. Ok (Some e)))"

definition trim_quotes :: "string \<Rightarrow> string" where
  "trim_quotes s = (let t = dropWhile (\<lambda>c. c = CHR 0x22) s in rev (dropWhile (\<lambda>c. c = CHR 0x22) (rev t)))"

definition rel_or_root :: "string \<Rightarrow> string \<Rightarrow> string res" where
  "rel_or_root root key = and_then (build_rel_path root key) (\<lambda>path. Ok (if path = [] then slash else path))"

definition object_entry :: "('c, 'w) s3_env \<Rightarrow> s3_core \<Rightarrow> list_object \<Rightarrow> oio_entry option res" where
  "object_entry env core obj =
     and_then (rel_or_root (s3_root core) (loc_key obj)) (\<lambda>path.
       let meta = (metadata_new (mode_from_path path))\<lparr>md_is_current := Some True\<rparr>;
           meta = (case loc_etag obj of None \<Rightarrow> meta
             | Some etag \<Rightarrow> meta\<lparr>md_etag := Some etag, md_content_md5 := Some (trim_quotes etag)\<rparr>);
           meta = meta\<lparr>md_content_length := Some (loc_size obj)\<rparr>
       in and_then (parse_datetime_from_rfc3339 (se_rfc3339 env) (loc_last_modified obj)) (\<lambda>t.
          and_then (entry_with path (meta\<lparr>md_last_modified := Some t\<rparr>)) (\<lambda>e. Ok (Some e))))"

record s3_lister =
  s3l_path :: string
  s3l_args :: op_list
  s3l_delimiter :: string
  s3l_abs_start_after :: "string option"

definition s3l_new :: "s3_core \<Rightarrow> string \<Rightarrow> op_list \<Rightarrow> s3_lister res" where
  "s3l_new core path args =
     and_then (transpose_res (build_abs_path (s3_root core)) (lo_start_after args)) (\<lambda>start.
       Ok \<lparr>s3l_path = path, s3l_args = args, s3l_delimiter = (if lo_recursive args then [] else slash), s3l_abs_start_after = start\<rparr>)"

definition list_done :: "list_output \<Rightarrow> bool" where
  "list_done output =
     (case lout_is_truncated output of
        Some is_truncated \<Rightarrow> \<not> is_truncated
      | None \<Rightarrow> (case lout_next_continuation_token output of
          Some token \<Rightarrow> token = []
        | None \<Rightarrow> lout_common_prefixes output = [] \<and> lout_contents output = []))"

definition s3_next_page ::
  "('c, 'w) s3_env \<Rightarrow> s3_core \<Rightarrow> s3_lister \<Rightarrow> page_context \<Rightarrow> 'w s3_state \<Rightarrow> unit res \<times> page_context \<times> 'w s3_state" where
  "s3_next_page env core l ctx s =
     (case s3_list_objects env core (s3l_path l) (pc_token ctx) (s3l_delimiter l) (lo_limit (s3l_args l))
             (if pc_token ctx = [] then s3l_abs_start_after l else None) s of
        (Err e, s') \<Rightarrow> (Err e, ctx, s')
      | (Panic, s') \<Rightarrow> (Panic, ctx, s')
      | (Ok resp, s') \<Rightarrow>
          if rs_status resp \<noteq> 200 then (Err (s3_parse_error env resp), ctx, s')
          else (case se_xml_list env (rs_body resp) of
              Inl e \<Rightarrow> (Err (set_temporary (xml_error e)), ctx, s')
            | Inr output \<Rightarrow>
                (let ctx = ctx\<lparr>pc_done := list_done output,
                       pc_token := (case lout_next_continuation_token output of Some t \<Rightarrow> t | None \<Rightarrow> [])\<rparr>
                 in case push_each (prefix_entry (s3_root core)) (lout_common_prefixes output) ctx of
                      (Ok u, ctx1) \<Rightarrow>
                        (case push_each (object_entry env core) (lout_contents output) ctx1 of (r, ctx2) \<Rightarrow> (r, ctx2, s'))
                    | (Err e, ctx1) \<Rightarrow> (Err e, ctx1, s')
                    | (Panic, ctx1) \<Rightarrow> (Panic, ctx1, s'))))"

definition version_entry :: "('c, 'w) s3_env \<Rightarrow> s3_core \<Rightarrow> op_list \<Rightarrow> object_version \<Rightarrow> oio_entry option res" where
  "version_entry env core args v =
     (if \<not> (lo_versions args \<or> ver_is_latest v) then Ok None
      else and_then (rel_or_root (s3_root core) (ver_key v)) (\<lambda>path.
        and_then (parse_datetime_from_rfc3339 (se_rfc3339 env) (ver_last_modified v)) (\<lambda>t.
          let meta = (metadata_new (mode_from_path path))\<lparr>md_version := Some (ver_version_id v), md_is_current := Some (ver_is_latest v),
                md_content_length := Some (ver_size v), md_last_modified := Some t\<rparr>;
              meta = (case ver_etag v of None \<Rightarrow> meta
                | Some etag \<Rightarrow> meta\<lparr>md_etag := Some etag, md_content_md5 := Some (trim_quotes etag)\<rparr>)
          in and_then (entry_with path meta) (\<lambda>e. Ok (Some e)))))"

definition marker_entry :: "('c, 'w) s3_env \<Rightarrow> s3_core \<Rightarrow> delete_marker \<Rightarrow> oio_entry option res" where
  "marker_entry env core m =
     and_then (rel_or_root (s3_root core) (dm_key m)) (\<lambda>path.
     and_then (parse_datetime_from_rfc3339 (se_rfc3339 env) (dm_last_modified m)) (\<lambda>t.
     and_then (entry_with path ((metadata_new FILE)\<lparr>md_version := Some (dm_version_id m), md_is_deleted := True,
         md_is_current := Some (dm_is_latest m), md_last_modified := Some t\<rparr>)) (\<lambda>e. Ok (Some e))))"

definition rsplit_space :: "string \<Rightarrow> (string \<times> string) option" where
  "rsplit_space s = (case rfind_char CHR '' '' s of None \<Rightarrow> None | Some i \<Rightarrow> Some (take i s, drop (i + 1) s))"

definition s3_next_versions_page ::
  "('c, 'w) s3_env \<Rightarrow> s3_core \<Rightarrow> s3_lister \<Rightarrow> page_context \<Rightarrow> 'w s3_state \<Rightarrow> unit res \<times> page_context \<times> 'w s3_state" where
  "s3_next_versions_page env core l ctx s =
     (let (key_marker, version_id_marker) = (case rsplit_space (pc_token ctx) of
            Some data \<Rightarrow> data
          | None \<Rightarrow> (case s3l_abs_start_after l of Some start \<Rightarrow> (start, []) | None \<Rightarrow> ([], [])))
      in case s3_list_object_versions env core (s3l_path l) (s3l_delimiter l) (lo_limit (s3l_args l)) key_marker version_id_marker s of
        (Err e, s') \<Rightarrow> (Err e, ctx, s')
      | (Panic, s') \<Rightarrow> (Panic, ctx, s')
      | (Ok resp, s') \<Rightarrow>
          if rs_status resp \<noteq> 200 then (Err (s3_parse_error env resp), ctx, s')
          else (case se_xml_versions env (rs_body resp) of
              Inl e \<Rightarrow> (Err (set_temporary (xml_error e)), ctx, s')
            | Inr output \<Rightarrow>
                (let ctx = ctx\<lparr>pc_done := (case vout_is_truncated output of Some t \<Rightarrow> \<not> t | None \<Rightarrow> False),
                       pc_token := (case vout_next_key_marker output of Some k \<Rightarrow> k | None \<Rightarrow> []) @ '' ''
                         @ (case vout_next_version_id_marker output of Some k \<Rightarrow> k | None \<Rightarrow> [])\<rparr>;
                     (r1, ctx1) = push_each (prefix_entry (s3_root core)) (vout_common_prefixes output) ctx;
                     (r2, ctx2) = (case r1 of Ok u \<Rightarrow> push_each (version_entry env core (s3l_args l)) (vout_version output) ctx1
                       | Err e \<Rightarrow> (Err e, ctx1) | Panic \<Rightarrow> (Panic, ctx1));
                     (r3, ctx3) = (case r2 of
                         Ok u \<Rightarrow> (if lo_deleted (s3l_args l) then push_each (marker_entry env core) (vout_delete_marker output) ctx2 else (Ok (), ctx2))
                       | Err e \<Rightarrow> (Err e, ctx2) | Panic \<Rightarrow> (Panic, ctx2))
                 in (r3, ctx3, s'))))"

subsection \<open>Deleting\<close>

definition s3_delete_once :: "('c, 'w) s3_env \<Rightarrow> s3_core \<Rightarrow> string \<Rightarrow> op_delete \<Rightarrow> 'w s3_state \<Rightarrow> unit res \<times> 'w s3_state" where
  "s3_delete_once env core path args s =
     (if s3_root core = slash \<and> path = slash then (Ok (), s)
      else step (s3_delete_object env core path args s) (\<lambda>resp s.
        (if rs_status resp \<in> {204, 404} then Ok () else Err (s3_parse_error env resp), s)))"

definition parse_delete_objects_result_error :: "('c, 'w) s3_env \<Rightarrow> delete_error \<Rightarrow> error" where
  "parse_delete_objects_result_error env e =
     (let (kind, retryable) = (case parse_s3_error_code (der_code e) of Some kr \<Rightarrow> kr | None \<Rightarrow> (Unexpected, False))
      in temporary_if retryable (new_error kind (se_delete_text env e)))"

fun deleted_paths :: "s3_core \<Rightarrow> string list \<Rightarrow> request list res" where
  "deleted_paths core [] = Ok []"
| "deleted_paths core (k # ks) =
     and_then (build_rel_path (s3_root core) k) (\<lambda>path.
     and_then (deleted_paths core ks) (\<lambda>rs. Ok ((path, od_default) # rs)))"

fun failed_paths :: "('c, 'w) s3_env \<Rightarrow> s3_core \<Rightarrow> delete_error list \<Rightarrow> (string \<times> op_delete \<times> error) list res" where
  "failed_paths env core [] = Ok []"
| "failed_paths env core (e # es) =
     and_then (build_rel_path (s3_root core) (der_key e)) (\<lambda>path.
     and_then (failed_paths env core es) (\<lambda>fs. Ok ((path, od_default, parse_delete_objects_result_error env e) # fs)))"

definition s3_delete_batch :: "('c, 'w) s3_env \<Rightarrow> s3_core \<Rightarrow> request list \<Rightarrow> 'w s3_state \<Rightarrow> batch_result res \<times> 'w s3_state" where
  "s3_delete_batch env core batch s =
     step (s3_delete_objects env core batch s) (\<lambda>resp s.
       (if rs_status resp \<noteq> 200 then Err (s3_parse_error env resp)
        else case se_xml_delete_result env (rs_body resp) of
            Inl e \<Rightarrow> Err (xml_error e)
          | Inr result \<Rightarrow>
              if dor_deleted result = [] then
                (case dor_error result of
                   [] \<Rightarrow> Panic
                 | e # _ \<Rightarrow> Err (parse_delete_objects_result_error env e))
              else and_then (deleted_paths core (dor_deleted result)) (\<lambda>succeeded.
                   and_then (failed_paths env core (dor_error result)) (\<lambda>failed.
                     Ok \<lparr>br_succeeded = succeeded, br_failed = failed\<rparr>)), s))"

definition s3_deleter :: "('c, 'w) s3_env \<Rightarrow> s3_core \<Rightarrow> 'w s3_state batch_delete" where
  "s3_deleter env core =
     \<lparr>bd_delete_once = (\<lambda>path args s. io_of (s3_delete_once env core path args s)),
      bd_delete_batch = (\<lambda>batch s. io_of (s3_delete_batch env core batch s))\<rparr>"

subsection \<open>The accessor\<close>

definition s3_capability :: "s3_core \<Rightarrow> capability" where
  "s3_capability core = capability_default\<lparr>
     cap_stat := True, cap_stat_has_content_encoding := True, cap_stat_with_if_match := True, cap_stat_with_if_none_match := True,
     cap_stat_with_if_modified_since := True, cap_stat_with_if_unmodified_since := True,
     cap_stat_with_override_cache_control := \<not> s3_disable_stat_with_override core,
     cap_stat_with_override_content_disposition := \<not> s3_disable_stat_with_override core,
     cap_stat_with_override_content_type := \<not> s3_disable_stat_with_override core,
     cap_stat_with_version := s3_enable_versioning core, cap_stat_has_cache_control := True, cap_stat_has_content_length := True,
     cap_stat_has_content_type := True, cap_stat_has_content_range := True, cap_stat_has_etag := True, cap_stat_has_content_md5 := True,
     cap_stat_has_last_modified := True, cap_stat_has_content_disposition := True, cap_stat_has_user_metadata := True,
     cap_stat_has_version := True,
     cap_read := True, cap_read_with_if_match := True, cap_read_with_if_none_match := True, cap_read_with_if_modified_since := True,
     cap_read_with_if_unmodified_since := True, cap_read_with_override_cache_control := True,
     cap_read_with_override_content_disposition := True, cap_read_with_override_content_type := True,
     cap_read_with_version := s3_enable_versioning core,
     cap_write := True, cap_write_can_empty := True, cap_write_can_multi := True, cap_write_with_cache_control := True,
     cap_write_with_content_type := True, cap_write_with_content_encoding := True,
     cap_write_with_if_match := \<not> s3_disable_write_with_if_match core, cap_write_with_if_not_exists := True,
     cap_write_with_user_metadata := True, cap_write_multi_min_size := Some (5 * 1024 * 1024),
     cap_write_multi_max_size := Some (5 * 1024 * 1024 * 1024),
     cap_delete := True, cap_delete_max_size := Some (s3_delete_max_size core), cap_delete_with_version := s3_enable_versioning core,
     cap_copy := True,
     cap_list := True, cap_list_with_limit := True, cap_list_with_start_after := True, cap_list_with_recursive := True,
     cap_list_with_versions := s3_enable_versioning core, cap_list_with_deleted := s3_enable_versioning core,
     cap_list_has_etag := True, cap_list_has_content_md5 := True, cap_list_has_content_length := True, cap_list_has_last_modified := True,
     cap_presign := True, cap_presign_stat := True, cap_presign_read := True, cap_presign_write := True, cap_shared := True\<rparr>"

definition s3_stat :: "('c, 'w) s3_env \<Rightarrow> s3_core \<Rightarrow> string \<Rightarrow> op_stat \<Rightarrow> 'w s3_state \<Rightarrow> metadata res \<times> 'w s3_state" where
  "s3_stat env core path args s =
     step (s3_head_object env core path args s) (\<lambda>resp s.
       (if rs_status resp = 200 then
          and_then (parse_into_metadata (se_rfc2822 env) path (rs_headers resp)) (\<lambda>meta.
            let user_meta = parse_prefixed_headers (rs_headers resp) ''x-amz-meta-'';
                meta = (if user_meta = [] then meta else meta\<lparr>md_user_metadata := Some user_meta\<rparr>)
            in and_then (parse_header_to_str (rs_headers resp) ''x-amz-version-id'') (\<lambda>v.
                 Ok (set_if_some (\<lambda>x m. m\<lparr>md_version := Some x\<rparr>) v meta)))
        else Err (s3_parse_error env resp), s))"

definition s3_read :: "('c, 'w) s3_env \<Rightarrow> s3_core \<Rightarrow> string \<Rightarrow> op_read \<Rightarrow> 'w s3_state \<Rightarrow> http_body res \<times> 'w s3_state" where
  "s3_read env core path args s =
     step (s3_get_object env core path (ro_range args) args s) (\<lambda>resp s.
       (if rs_status resp \<in> {200, 206} then Ok (rs_body resp)
        else and_then (fst (hb_to_buffer (rs_body resp))) (\<lambda>buf. Err (s3_parse_error env (rs_from_parts (rs_parts resp) buf))), s))"

record s3_writers =
  s3w_path :: string
  s3w_op :: op_write
  s3w_multipart :: multipart_writer

definition s3w_run ::
  "(multipart_writer \<times> 'w s3_state \<Rightarrow> unit res \<times> multipart_writer \<times> 'w s3_state) \<Rightarrow> s3_writers \<Rightarrow> 'w s3_state
     \<Rightarrow> unit res \<times> s3_writers \<times> 'w s3_state" where
  "s3w_run call wr s = (case call (s3w_multipart wr, s) of (r, st, s') \<Rightarrow> (r, wr\<lparr>s3w_multipart := st\<rparr>, s'))"

datatype s3_listers = ListObjects s3_lister page_context | ListVersions s3_lister page_context

definition page_io :: "unit res \<times> page_context \<times> 's \<Rightarrow> (error + unit) \<times> page_context \<times> 's" where
  "page_io x = (case x of (Ok u, p) \<Rightarrow> (Inr (), p) | (Err e, p) \<Rightarrow> (Inl e, p) | (Panic, p) \<Rightarrow> (Inl panic_error, p))"

fun s3_lister_next ::
  "('c, 'w) s3_env \<Rightarrow> s3_core \<Rightarrow> s3_listers \<Rightarrow> 'w s3_state \<Rightarrow> (oio_entry option res \<times> s3_listers \<times> 'w s3_state) option" where
  "s3_lister_next env core (ListObjects l ctx) s =
     map_option (\<lambda>(r, ctx', s'). (r, ListObjects l ctx', s'))
       (page_next (\<lambda>ctx s. page_io (s3_next_page env core l ctx s)) (ctx, s))"
| "s3_lister_next env core (ListVersions l ctx) s =
     map_option (\<lambda>(r, ctx', s'). (r, ListVersions l ctx', s'))
       (page_next (\<lambda>ctx s. page_io (s3_next_versions_page env core l ctx s)) (ctx, s))"

definition s3_list :: "s3_core \<Rightarrow> string \<Rightarrow> op_list \<Rightarrow> 'w s3_state \<Rightarrow> s3_listers res \<times> 'w s3_state" where
  "s3_list core path args s =
     (and_then (s3l_new core path args) (\<lambda>l.
        Ok ((if lo_versions args \<or> lo_deleted args then ListVersions else ListObjects) l (fst (page_lister_new ())))), s)"

definition s3_copy :: "('c, 'w) s3_env \<Rightarrow> s3_core \<Rightarrow> string \<Rightarrow> string \<Rightarrow> 'w s3_state \<Rightarrow> unit res \<times> 'w s3_state" where
  "s3_copy env core source target s =
     step (s3_copy_object env core source target s) (\<lambda>resp s.
       (if rs_status resp = 200 then Ok () else Err (s3_parse_error env resp), s))"

text \<open>\<open>ex\<close> is the executor of the uploads, \<open>order\<close> the order of the set of pending deletions.\<close>

definition s3_access ::
  "('c, 'w) s3_env \<Rightarrow> 'w s3_state executor \<Rightarrow> (request fset \<Rightarrow> request list) \<Rightarrow> s3_core
     \<Rightarrow> (http_body, s3_writers, s3_listers, request fset, 'w s3_state) access" where
  "s3_access env ex order core =
     \<lparr>ac_info = \<lparr>ai_scheme = ''s3'', ai_root = s3_root core, ai_name = s3_bucket core,
        ai_native_capability = s3_capability core, ai_full_capability = s3_capability core\<rparr>,
      ac_create_dir = (\<lambda>path. not_supported),
      ac_stat = (\<lambda>path args s. Some (s3_stat env core path args s)),
      ac_read = s3_read env core,
      ac_write = (\<lambda>path args s. (Ok \<lparr>s3w_path = path, s3w_op = args, s3w_multipart = mw_new (wo_concurrent args)\<rparr>, s)),
      ac_delete = (\<lambda>s. (Ok {||}, s)),
      ac_list = s3_list core,
      ac_copy = s3_copy env core,
      ac_rename = (\<lambda>source target. not_supported),
      ac_reader_read = (\<lambda>hb s. case hb_read hb of (r, hb') \<Rightarrow> (r, hb', s)),
      ac_writer_write = (\<lambda>bs wr. s3w_run (mw_write ex (s3_writer env core (s3w_path wr) (s3w_op wr)) bs) wr),
      ac_writer_close = (\<lambda>wr. s3w_run (mw_close ex (s3_writer env core (s3w_path wr) (s3w_op wr))) wr),
      ac_writer_abort = (\<lambda>wr. s3w_run (mw_abort (s3_writer env core (s3w_path wr) (s3w_op wr))) wr),
      ac_lister_next = s3_lister_next env core,
      ac_deleter_delete = (\<lambda>path args buf s. bd_delete path args (buf, s)),
      ac_deleter_flush = (\<lambda>buf s. bd_flush order (s3_deleter env core) (buf, s))\<rparr>"

end
