(* ===== verification/S3Reads.thy ===== *)
theory S3Reads
  imports S3
begin

text \<open>
  Properties of the S3 service: objects that are read in ranges over connections that may break, behind the retry layer.
  The server is described by what it answers to the requests of the service.
\<close>

subsection \<open>Bodies as readers\<close>

text \<open>
  A body of \<open>bs\<close>: it announces what is left of them, and its stream delivers them in order. The stream may end early or
  break at any point.
\<close>

fun feeds :: "bytes \<Rightarrow> (error + buffer) list \<Rightarrow> bool" where
  "feeds bs [] = True"
| "feeds bs (Inl e # stream) = True"
| "feeds bs (Inr b # stream) =
     (buf_wf b \<and> buf_bytes b \<noteq> [] \<and> take (length (buf_bytes b)) bs = buf_bytes b \<and> feeds (drop (length (buf_bytes b)) bs) stream)"

definition hb_holds :: "bytes \<Rightarrow> http_body \<Rightarrow> bool" where
  "hb_holds bs hb =
     (\<exists>n. hb_size hb = Some n \<and> unat n = unat (hb_consumed hb) + length bs \<and> feeds bs (hb_stream hb))"

lemma hb_read_holds:
  assumes "hb_holds bs hb"
  shows "case hb_read hb of
      (Ok b, hb') \<Rightarrow> buf_wf b \<and> (\<exists>rest. bs = buf_bytes b @ rest \<and> hb_holds rest hb' \<and> (buf_bytes b = [] \<longrightarrow> rest = []))
    | (Err e, hb') \<Rightarrow> True
    | (Panic, hb') \<Rightarrow> False"
proof -
  obtain n where n: "hb_size hb = Some n" "unat n = unat (hb_consumed hb) + length bs" "feeds bs (hb_stream hb)"
    using assms by (auto simp: hb_holds_def)
  show ?thesis
  proof (cases "hb_stream hb")
    case Nil
    have "hb_check hb = Ok () \<longleftrightarrow> bs = []" using hb_check_iff [of hb] n by (simp add: size_ok_def)
    with Nil hb_check_iff [of hb] assms show ?thesis
      by (auto simp: hb_read_def split: outcome.splits)
  next
    case (Cons x stream)
    show ?thesis
    proof (cases x)
      case (Inl e)
      with Cons show ?thesis by (simp add: hb_read_def)
    next
      case (Inr b)
      let ?k = "length (buf_bytes b)"
      have b: "buf_wf b" "buf_bytes b \<noteq> []" "take ?k bs = buf_bytes b" "feeds (drop ?k bs) stream"
        using n(3) Cons Inr by simp_all
      have le: "?k \<le> length bs" using b(3) by (metis length_take min.cobounded1 min.commute)
      have "unat (hb_consumed hb) + ?k \<le> u64_max" using n(2) le unat_u64_le [of n] by simp
      then have "unat (of_nat ?k :: u64) = ?k" "(u64_add (hb_consumed hb) (of_nat ?k) :: u64 res) = Ok (hb_consumed hb + of_nat ?k)"
        "unat (hb_consumed hb + of_nat ?k) = unat (hb_consumed hb) + ?k"
        by (simp_all add: unat_of_nat_u64 unat_u64_add)
      moreover have "bs = buf_bytes b @ drop ?k bs" using b(3) by (metis append_take_drop_id)
      ultimately show ?thesis using Cons Inr b n le
        by (auto simp: hb_read_def Let_def hb_holds_def intro!: exI [of _ "drop ?k bs"])
    qed
  qed
qed

subsection \<open>A server that serves an object\<close>

text \<open>The bytes a request asks for, when its range is one inside the object.\<close>

definition range_of :: "http_request \<Rightarrow> bytes \<Rightarrow> bytes option" where
  "range_of req content =
     (case map_of (rq_headers req) ''range'' of
        None \<Rightarrow> Some content
      | Some h \<Rightarrow> (case br_from_str h of
          Ok rng \<Rightarrow> if br_inside rng content then Some (br_select rng content) else None
        | _ \<Rightarrow> None))"

fun delivers :: "bytes \<Rightarrow> (reqwest_error + bytes) list \<Rightarrow> bool" where
  "delivers bs [] = True"
| "delivers bs (Inl e # pieces) = True"
| "delivers bs (Inr d # pieces) = (take (length d) bs = d \<and> delivers (drop (length d) bs) pieces)"

text \<open>
  The server keeps an object at \<open>uri\<close>. A successful answer announces the bytes that were asked for and delivers them in order, as far as the
  connection lasts; it never answers with success to a range that selects nothing. Any request may fail.
\<close>

definition serves_object :: "'w transport \<Rightarrow> string \<Rightarrow> bytes \<Rightarrow> ('w \<Rightarrow> bool) \<Rightarrow> bool" where
  "serves_object reqwest uri content invar =
     (\<forall>req w. invar w \<longrightarrow> rq_method req = GET \<longrightarrow> rq_uri req = uri \<longrightarrow>
        (case reqwest req w of
           (Inl e, w') \<Rightarrow> invar w'
         | (Inr resp, w') \<Rightarrow> invar w' \<and> data_len (rs_body resp) \<le> u64_max \<and>
             (rs_status resp \<in> {200, 206} \<longrightarrow>
                map_of (rs_headers resp) ''content-encoding'' = None \<and>
                (\<exists>bs. range_of req content = Some bs
                   \<and> map_of (rs_headers resp) ''content-length'' = Some (HeaderText (show_nat (length bs)))
                   \<and> delivers bs (rs_body resp)))))"

text \<open>Signing adds headers, but leaves alone what the server goes by; loading credentials does not touch the object.\<close>

definition signs_ok :: "('c, 'w) s3_env \<Rightarrow> ('w \<Rightarrow> bool) \<Rightarrow> bool" where
  "signs_ok env invar =
     ((\<forall>c req req'. se_sign env c req = Inr req' \<longrightarrow> rq_method req' = rq_method req \<and> rq_uri req' = rq_uri req
         \<and> map_of (rq_headers req') ''range'' = map_of (rq_headers req) ''range'')
      \<and> (\<forall>w. invar w \<longrightarrow> invar (snd (se_load env w))))"

definition s3_get_uri :: "('c, 'w) s3_env \<Rightarrow> string \<Rightarrow> op_read \<Rightarrow> string" where
  "s3_get_uri env url args = with_query url
     (opt_arg ''response-content-disposition'' (s3_enc env) (ro_override_content_disposition args)
      @ opt_arg ''response-content-type'' (s3_enc env) (ro_override_content_type args)
      @ opt_arg ''response-cache-control'' (s3_enc env) (ro_override_cache_control args)
      @ opt_arg ''versionId'' (percent_decode_path (se_decode env)) (ro_version args))"

definition range_usable :: "bytes_range \<Rightarrow> bool" where
  "range_usable rng = (br_offset rng \<noteq> 0 \<or> br_size rng \<noteq> Some 0)"

lemma range_usable_advance: "range_usable rng \<Longrightarrow> br_advance n rng = Ok rng' \<Longrightarrow> range_usable rng'"
proof -
  assume u: "range_usable rng" and a: "br_advance n rng = Ok rng'"
  then have le: "unat (br_offset rng) + unat n \<le> u64_max" and r: "rng' = BytesRange (br_offset rng + n) (map_option (\<lambda>sz. sz - n) (br_size rng))"
    by (auto simp: br_advance_eq split: if_splits)
  have "br_offset rng + n = 0 \<Longrightarrow> br_offset rng = 0 \<and> n = 0"
    using unat_u64_add [OF le] by (metis add_is_0 unat_eq_zero unat_0)
  with u r show ?thesis by (auto simp: range_usable_def)
qed

text \<open>The header of a usable range: it reads back as the range, unless that is empty, when it is reversed.\<close>

lemma range_header_usable:
  assumes "range_usable rng" "br_inside rng content" "length content \<le> u64_max"
  shows "\<exists>h. br_to_header rng = Ok h \<and> (br_from_str h = Ok rng \<or> br_from_str h = Panic)"
proof (cases "br_size rng = Some 0")
  case True
  then have o: "0 < unat (br_offset rng)" "unat (br_offset rng) \<le> u64_max"
    using assms(1) unat_u64_le by (auto simp: range_usable_def unat_u64_pos)
  then have d: "br_display rng = Ok (show_u64 (br_offset rng) @ ''-'' @ show_u64 (br_offset rng - 1))"
    unfolding br_display_Ok using True by simp
  have "unat (br_offset rng - 1) = unat (br_offset rng) - 1" using o(1) unat_u64_sub [of 1 "br_offset rng"] by simp
  then have "br_from_str (''bytes='' @ show_u64 (br_offset rng) @ ''-'' @ show_u64 (br_offset rng - 1)) = Panic"
    unfolding br_from_str_closed closed_size using o(1) by auto
  with d show ?thesis by (simp add: br_to_header_def)
next
  case False
  then have "\<forall>n. br_size rng = Some n \<longrightarrow> 0 < unat n \<and> unat (br_offset rng) + unat n \<le> u64_max"
    using assms(2,3) by (auto simp: br_inside_def unat_u64_pos)
  then show ?thesis using range_header_back by blast
qed

lemma feeds_stream: "delivers bs pieces \<Longrightarrow> feeds bs (body_stream uri pieces)"
  by (induction bs pieces rule: delivers.induct) (auto simp: body_stream_simps)

lemma range_of_get:
  assumes "br_inside rng content" "length content \<le> u64_max"
    and "if br_is_full rng then map_of (rq_headers req) ''range'' = None
         else \<exists>h. map_of (rq_headers req) ''range'' = Some h \<and> (br_from_str h = Ok rng \<or> br_from_str h = Panic)"
    and "range_of req content = Some bs"
  shows "bs = br_select rng content"
proof (cases "br_is_full rng")
  case True
  with assms(3,4) show ?thesis by (auto simp: range_of_def br_is_full_def br_select_def)
next
  case False
  with assms show ?thesis by (auto simp: range_of_def split: outcome.splits if_splits)
qed

lemma map_of_filter_host: "map_of (filter (\<lambda>(k, v). k \<noteq> ''host'') hs) ''range'' = map_of hs ''range''"
  by (induction hs) auto

lemma map_of_opt_header: "k \<noteq> name \<Longrightarrow> map_of (opt_header name v @ hs) k = map_of hs k"
  by (simp add: opt_header_def map_add_def split: option.splits)

lemma sse_headers_no_range: "map_of (sse_headers core b) ''range'' = None"
  by (simp add: sse_headers_def map_of_opt_header) (simp add: opt_header_def split: option.splits)

text \<open>The request of a read, its range header, and what signing keeps of it.\<close>

lemma s3_get_request:
  assumes "s3_url env core path = Ok url" "range_usable rng" "br_inside rng content" "length content \<le> u64_max"
    and "s3_get_object_request env core path rng args = r"
  shows "case r of
      Ok req \<Rightarrow> rq_method req = GET \<and> rq_uri req = s3_get_uri env url args
        \<and> (if br_is_full rng then map_of (rq_headers req) ''range'' = None
           else \<exists>h. map_of (rq_headers req) ''range'' = Some h \<and> (br_from_str h = Ok rng \<or> br_from_str h = Panic))
    | Err e \<Rightarrow> True | Panic \<Rightarrow> False"
proof -
  obtain h where h: "br_to_header rng = Ok h" "br_from_str h = Ok rng \<or> br_from_str h = Panic"
    using range_header_usable [OF assms(2-4)] by blast
  have none: "map_of (opt_header ''if-none-match'' a @ opt_header ''if-match'' b @ opt_header ''if-modified-since'' c
      @ opt_header ''if-unmodified-since'' d @ sse_headers core False) ''range'' = None" for a b c d
    by (simp add: map_of_opt_header sse_headers_no_range del: map_of_append)
  show ?thesis
    using assms(5) unfolding s3_get_object_request_def assms(1) h(1) s3_build_def s3_get_uri_def
    using h(2) none
    by (auto simp: new_request_build_error_def set_source_def error_defs simp del: map_of_append
        split: outcome.splits option.splits if_splits)
qed

lemma s3_sign_keeps:
  assumes "signs_ok env invar" "invar (fst s)" "s3_sign env core req s = (r, s')"
  shows "invar (fst s') \<and> (case r of
      Ok req' \<Rightarrow> rq_method req' = rq_method req \<and> rq_uri req' = rq_uri req
        \<and> map_of (rq_headers req') ''range'' = map_of (rq_headers req) ''range''
    | Err e \<Rightarrow> True | Panic \<Rightarrow> False)"
proof -
  obtain w loaded where s: "s = (w, loaded)" by fastforce
  obtain x w1 where x: "se_load env w = (x, w1)" by fastforce
  with assms(1,2) s have w1: "invar w1" unfolding signs_ok_def by (metis fst_conv snd_conv)
  have keep: "rq_method req' = rq_method req \<and> rq_uri req' = rq_uri req
      \<and> map_of (rq_headers req') ''range'' = map_of (rq_headers req) ''range''"
    if "se_sign env c req = Inr req'" for c req' using assms(1) that unfolding signs_ok_def by blast
  have load: "s3_load_credential env core s = (case x of
      Inl e \<Rightarrow> (and_then (new_request_credential_error e) Err, w1, loaded)
    | Inr (Some cred) \<Rightarrow> (Ok (Some cred), w1, True)
    | Inr None \<Rightarrow> (if loaded then Err (set_temporary (new_error PermissionDenied
              ''credential was previously loaded successfully but has failed this time''))
          else if s3_allow_anonymous core then Ok None
          else Err (new_error PermissionDenied ''no valid credential found and anonymous access is not allowed''), w1, loaded))"
    by (simp add: s3_load_credential_def s x split: sum.splits option.splits)
  show ?thesis
    using assms(3) w1 keep unfolding s3_sign_def load
    by (auto simp: new_request_credential_error_def new_request_sign_error_def set_source_def error_defs map_of_filter_host
        split: sum.splits option.splits if_splits)
qed

lemma parse_header_not_Panic: "parse_header_to_str hs name \<noteq> Panic"
  by (auto simp: parse_header_to_str_def source_err_def set_source_def error_defs split: option.splits header_value.splits)

lemma fetch_size_not_Panic: "fetch_size method hs \<noteq> Panic"
proof -
  have "parse_int_res (new_error Unexpected ''header value is not valid integer'') x \<noteq> Panic" for x
    by (rule parse_int_res_not_Panic) (simp add: new_error_def)
  then show ?thesis using parse_header_not_Panic
    by (auto simp: fetch_size_def parse_content_encoding_def parse_content_length_def transpose_res_def outcome_simps split: option.splits)
qed

lemma fetch_size_known:
  assumes "map_of hs ''content-encoding'' = None" "map_of hs ''content-length'' = Some (HeaderText (show_nat n))" "n \<le> u64_max"
  shows "fetch_size GET hs = Ok (Some (of_nat n))"
  using assms parse_show_nat [OF assms(3)]
  by (simp add: fetch_size_def parse_content_encoding_def parse_content_length_def parse_header_to_str_def transpose_res_def)

lemma hb_to_buffer_not_Panic:
  assumes "data_len pieces \<le> u64_max"
  shows "fst (hb_to_buffer (hb_new (body_stream uri pieces) sz)) \<noteq> Panic"
  using read_all_stream [of "[]" "hb_new (body_stream uri pieces) sz" pieces uri] assms
  by (cases "stream_result pieces") (auto simp: hb_to_buffer_def hb_new_def split: if_splits)

lemma s3_read_cases:
  assumes url: "s3_url env core path = Ok url" "se_url_ok env (s3_get_uri env url args)"
    and srv: "serves_object (se_reqwest env) (s3_get_uri env url args) content invar" "signs_ok env invar"
    and c: "length content \<le> u64_max" "range_usable rng" "br_inside rng content" "invar (fst s)"
    and r: "s3_read env core path (ro_with_range rng args) s = (r, s')"
  shows "invar (fst s') \<and> (case r of Ok hb \<Rightarrow> hb_holds (br_select rng content) hb | Err e \<Rightarrow> True | Panic \<Rightarrow> False)"
proof -
  let ?args = "ro_with_range rng args"
  have uri: "s3_get_uri env url ?args = s3_get_uri env url args" by (simp add: s3_get_uri_def ro_with_range_def)
  have rng: "ro_range ?args = rng" by (simp add: ro_with_range_def)
  note rq = s3_get_request [OF url(1) c(2,3,1), of ?args, OF refl, unfolded uri]
  show ?thesis
  proof (cases "s3_get_object_request env core path rng ?args")
    case (Ok req)
    obtain q s1 where q: "s3_sign env core req s = (q, s1)" by (metis surj_pair)
    note sg = s3_sign_keeps [OF srv(2) c(4) q]
    show ?thesis
    proof (cases q)
      case (Ok req')
      with sg rq \<open>s3_get_object_request env core path rng ?args = Ok req\<close>
      have req': "rq_method req' = GET" "rq_uri req' = s3_get_uri env url args" "invar (fst s1)"
        "if br_is_full rng then map_of (rq_headers req') ''range'' = None
         else \<exists>h. map_of (rq_headers req') ''range'' = Some h \<and> (br_from_str h = Ok rng \<or> br_from_str h = Panic)"
        by (auto split: if_splits)
      obtain x w2 where x: "se_reqwest env req' (fst s1) = (x, w2)" by fastforce
      note ans = srv(1) [unfolded serves_object_def, THEN spec, THEN spec, THEN mp, THEN mp, THEN mp, OF req'(3,1,2)]
      have get: "s3_read env core path ?args s = step (s3_fetch env req' s1) (\<lambda>resp s.
          (if rs_status resp \<in> {200, 206} then Ok (rs_body resp)
           else and_then (fst (hb_to_buffer (rs_body resp))) (\<lambda>buf. Err (s3_parse_error env (rs_from_parts (rs_parts resp) buf))), s))"
        using \<open>s3_get_object_request env core path rng ?args = Ok req\<close> q Ok by (simp add: s3_read_def s3_get_object_def rng)
      show ?thesis
      proof (cases x)
        case (Inl e)
        with x ans get r req'(2) url(2) show ?thesis
          by (cases s1) (auto simp: s3_fetch_def http_fetch_def)
      next
        case (Inr resp)
        let ?body = "body_stream (s3_get_uri env url args) (rs_body resp)"
        have ok: "invar w2" "data_len (rs_body resp) \<le> u64_max" using ans x Inr by simp_all
        show ?thesis
        proof (cases "rs_status resp \<in> {200, 206}")
          case True
          then obtain bs where bs: "range_of req' content = Some bs" "map_of (rs_headers resp) ''content-encoding'' = None"
            "map_of (rs_headers resp) ''content-length'' = Some (HeaderText (show_nat (length bs)))" "delivers bs (rs_body resp)"
            using ans x Inr by auto
          have sel: "bs = br_select rng content" by (rule range_of_get [OF c(3,1) req'(4) bs(1)])
          then have len: "length bs \<le> u64_max" using c(1) by (auto simp: br_select_def Let_def split: option.splits)
          have "hb_holds bs (hb_new ?body (Some (of_nat (length bs))))"
            using feeds_stream [OF bs(4)] len by (simp add: hb_holds_def hb_new_def unat_of_nat_u64)
          then show ?thesis
            using get r x Inr True ok(1) req'(1,2) url(2) fetch_size_known [OF bs(2,3) len] sel
            by (cases s1) (auto simp: s3_fetch_def http_fetch_def)
        next
          case False
          then show ?thesis
            using get r x Inr ok req'(1,2) url(2) fetch_size_not_Panic [of GET "rs_headers resp"]
              hb_to_buffer_not_Panic [OF ok(2), of "s3_get_uri env url args"]
            by (cases s1; cases "fetch_size GET (rs_headers resp)")
              (auto simp: s3_fetch_def http_fetch_def outcome_simps split: outcome.splits)
        qed
      qed
    qed (use \<open>s3_get_object_request env core path rng ?args = Ok req\<close> q sg r in \<open>auto simp: s3_read_def s3_get_object_def rng\<close>)
  qed (use rq r c(4) in \<open>auto simp: s3_read_def s3_get_object_def rng\<close>)
qed

lemma s3_range_service:
  fixes env :: "('c, 'w) s3_env"
  assumes "s3_url env core path = Ok url" "se_url_ok env (s3_get_uri env url args)"
    and "serves_object (se_reqwest env) (s3_get_uri env url args) content invar" "signs_ok env invar" "length content \<le> u64_max"
  shows "range_service (s3_access env ex order core) path args content (\<lambda>s. invar (fst s)) hb_holds range_usable"
proof unfold_locales
  note cases = s3_read_cases [OF assms(1-5)]
  fix s s' :: "'w s3_state" and rng
  assume s: "invar (fst s)" "br_inside rng content" "range_usable rng"
  { fix hb assume "ac_read (s3_access env ex order core) path (ro_with_range rng args) s = (Ok hb, s')"
    then show "invar (fst s') \<and> hb_holds (br_select rng content) hb" using cases [OF s(3,2,1)] by (auto simp: s3_access_def) }
  { fix e assume "ac_read (s3_access env ex order core) path (ro_with_range rng args) s = (Err e, s')"
    then show "invar (fst s')" using cases [OF s(3,2,1)] by (auto simp: s3_access_def) }
  show "fst (ac_read (s3_access env ex order core) path (ro_with_range rng args) s) \<noteq> Panic"
    using cases [OF s(3,2,1)] by (cases "s3_read env core path (ro_with_range rng args) s") (auto simp: s3_access_def)
next
  fix s s' :: "'w s3_state" and bs hb hb'
  assume s: "invar (fst s)" "hb_holds bs hb"
  note rd = hb_read_holds [OF s(2)]
  { fix b assume "ac_reader_read (s3_access env ex order core) hb s = (Ok b, hb', s')"
    then show "invar (fst s') \<and> buf_wf b \<and> (\<exists>rest. bs = buf_bytes b @ rest \<and> hb_holds rest hb' \<and> (buf_bytes b = [] \<longrightarrow> rest = []))"
      using rd s(1) by (auto simp: s3_access_def split: prod.splits) }
  { fix e assume "ac_reader_read (s3_access env ex order core) hb s = (Err e, hb', s')"
    then show "invar (fst s')" using s(1) by (auto simp: s3_access_def split: prod.splits) }
  show "fst (ac_reader_read (s3_access env ex order core) hb s) \<noteq> Panic"
    using rd by (auto simp: s3_access_def split: prod.splits)
qed (use assms(5) range_usable_advance in blast)+

subsection \<open>A concrete server\<close>

text \<open>
  An environment with anonymous access and a server that has one object. Its state says for each answer whether the connection breaks
  after the first byte.
\<close>

definition plain_env :: "'w transport \<Rightarrow> (unit, 'w) s3_env" where
  "plain_env reqwest =
     \<lparr>se_encode = pct_encode, se_decode = \<lambda>s. Some (pct_decode s), se_http_date = \<lambda>t. [], se_rfc2822 = \<lambda>s. Inr 0, se_rfc3339 = \<lambda>s. Inr 0,
      se_header_name = id, se_builder = \<lambda>req. None, se_load = \<lambda>w. (Inr None, w), se_sign = \<lambda>c req. Inr req, se_url_ok = \<lambda>u. True, se_reqwest = reqwest,
      se_dbg = \<lambda>p. [], se_content_md5 = \<lambda>s. [], se_crc32c_append = \<lambda>c b. c, se_crc_text = \<lambda>c. [], se_error_text = \<lambda>e. [],
      se_body_text = \<lambda>b. [], se_delete_text = \<lambda>e. [], se_xml_error = \<lambda>b. Inr \<lparr>s3e_code = [], s3e_message = [], s3e_resource = [], s3e_request_id = []\<rparr>,
      se_xml_initiate = \<lambda>b. Inr ''id'', se_xml_complete = \<lambda>ps. Inr [], se_xml_delete = \<lambda>os. Inr [],
      se_xml_delete_result = \<lambda>b. Inr \<lparr>dor_deleted = [], dor_error = []\<rparr>,
      se_xml_list = \<lambda>b. Inl [], se_xml_versions = \<lambda>b. Inl []\<rparr>"

definition plain_core :: s3_core where
  "plain_core =
     \<lparr>s3_bucket = ''b'', s3_endpoint = ''https://e/b'', s3_root = slash, s3_sse = None, s3_sse_aws_kms_key_id = None,
      s3_sse_customer_algorithm = None, s3_sse_customer_key = None, s3_sse_customer_key_md5 = None, s3_default_storage_class = None,
      s3_allow_anonymous = True, s3_disable_stat_with_override = False, s3_enable_versioning = False, s3_delete_max_size = 1000,
      s3_checksum_algorithm = None, s3_disable_write_with_if_match = False\<rparr>"

lemma plain_env_simps [simp]:
  "se_encode (plain_env r) = pct_encode" "se_builder (plain_env r) req = None" "se_load (plain_env r) w = (Inr None, w)"
  "se_sign (plain_env r) c req = Inr req" "se_url_ok (plain_env r) u" "se_reqwest (plain_env r) = r"
  "se_xml_initiate (plain_env r) b = Inr ''id''" "se_xml_complete (plain_env r) ps = Inr []" "se_rfc2822 (plain_env r) x = Inr 0"
  by (simp_all add: plain_env_def)

lemma plain_core_simps [simp]:
  "sse_headers plain_core b = []" "s3_root plain_core = slash" "s3_endpoint plain_core = ''https://e/b''"
  "s3_checksum_algorithm plain_core = None" "s3_default_storage_class plain_core = None" "s3_allow_anonymous plain_core"
  by (simp_all add: plain_core_def sse_headers_def opt_header_def)

lemma plain_sign: "s3_sign (plain_env r) plain_core req (w, False) = (Ok req, w, False)"
  by (simp add: s3_sign_def s3_load_credential_def)

definition broken_pipe :: reqwest_error where
  "broken_pipe = \<lparr>re_is_request = False, re_is_body = True, re_is_decode = False, re_text = ''connection reset''\<rparr>"

definition object_server :: "bytes \<Rightarrow> bool list transport" where
  "object_server content req w =
     (Inr (case range_of req content of
         None \<Rightarrow> \<lparr>rs_status = 416, rs_headers = [], rs_uri = None, rs_body = []\<rparr>
       | Some bs \<Rightarrow> \<lparr>rs_status = 206, rs_headers = [(''content-length'', HeaderText (show_nat (length bs)))], rs_uri = None,
           rs_body = (case w of True # _ \<Rightarrow> [Inr (take 1 bs), Inl broken_pipe] | _ \<Rightarrow> [Inr bs])\<rparr>), tl w)"

lemma range_of_length: "range_of req content = Some bs \<Longrightarrow> length bs \<le> length content"
  by (auto simp: range_of_def br_select_def Let_def split: option.splits outcome.splits if_splits)

lemma object_server_serves: "length content \<le> u64_max \<Longrightarrow> serves_object (object_server content) uri content (\<lambda>w. True)"
  by (auto simp: serves_object_def object_server_def min_def dest!: range_of_length split: option.splits list.splits bool.splits)

lemma plain_signs: "signs_ok (plain_env reqwest) invar"
  by (simp add: signs_ok_def plain_env_def)

subsection \<open>Properties\<close>



end
