(* ===== verification/S3Writes.thy ===== *)
theory S3Writes
  imports S3Reads
begin

text \<open>
  Properties of the S3 service, continued: uploads, in one request or in parts; metadata that a write sends and \<open>stat\<close>
  returns; what a multipart write leaves out.
\<close>

subsection \<open>Requests that were answered\<close>

text \<open>Signing leaves alone the method, the URI, the body and the headers that describe the object.\<close>

definition object_header :: "string \<Rightarrow> bool" where
  "object_header k =
     (k \<in> {''content-type'', ''content-disposition'', ''content-encoding'', ''cache-control''} \<or> starts_with k ''x-amz-meta-'')"

definition object_headers :: "(string \<times> 'v) list \<Rightarrow> (string \<times> 'v) list" where
  "object_headers hs = filter (\<lambda>(k, v). object_header k) hs"

definition same_request :: "http_request \<Rightarrow> http_request \<Rightarrow> bool" where
  "same_request req req' =
     (rq_method req' = rq_method req \<and> rq_uri req' = rq_uri req \<and> rq_body req' = rq_body req
      \<and> object_headers (rq_headers req') = object_headers (rq_headers req))"

definition signs_same :: "('c, 'w) s3_env \<Rightarrow> bool" where
  "signs_same env = (\<forall>c req req'. se_sign env c req = Inr req' \<longrightarrow> same_request req req')"

definition answered :: "('c, 'w) s3_env \<Rightarrow> http_request \<Rightarrow> buffer http_response \<Rightarrow> 'w \<Rightarrow> 'w \<Rightarrow> bool" where
  "answered env req resp w w' =
     (\<exists>req' raw. same_request req req' \<and> se_reqwest env req' w = (Inr raw, w')
        \<and> rs_status raw = rs_status resp \<and> rs_headers raw = rs_headers resp
        \<and> stream_result (rs_body raw) = Inr (buf_bytes (rs_body resp)))"

lemma object_headers_host: "object_headers (filter (\<lambda>(k, v). k \<noteq> ''host'') hs) = object_headers hs"
  by (induction hs) (auto simp: object_headers_def object_header_def starts_with_def)

lemma s3_sign_same:
  assumes "signs_same env" "s3_sign env core req s = (Ok req', s')"
  shows "same_request req req' \<and> fst s' = snd (se_load env (fst s))"
proof -
  obtain w loaded where s: "s = (w, loaded)" by fastforce
  have same: "same_request req r" if "se_sign env c req = Inr r" for c r
    using assms(1) that unfolding signs_same_def by blast
  obtain cred s1 where l: "s3_load_credential env core s = (Ok cred, s1)"
    and c: "(case cred of None \<Rightarrow> (Ok req, s1) | Some c \<Rightarrow>
        (case se_sign env c req of
           Inl e \<Rightarrow> (and_then (new_request_sign_error e) Err, s1)
         | Inr r \<Rightarrow> (Ok (r\<lparr>rq_headers := filter (\<lambda>(k, v). k \<noteq> ''host'') (rq_headers r)\<rparr>), s1))) = (Ok req', s')"
    using assms(2) unfolding s3_sign_def step_Ok_iff by blast
  have "fst s1 = snd (se_load env (fst s))"
    using l by (auto simp: s s3_load_credential_def outcome_simps split: prod.splits sum.splits option.splits if_splits)
  moreover have "same_request req req' \<and> s' = s1"
    using c same by (cases cred) (auto simp: same_request_def object_headers_host outcome_simps split: sum.splits)
  ultimately show ?thesis by blast
qed

lemma s3_send_answered:
  assumes "s3_send env req s = (Ok resp, s')"
  shows "answered env req resp (fst s) (fst s')"
proof -
  have "http_send (se_url_ok env) (se_reqwest env) req (fst s) = (Ok resp, fst s')"
    using assms by (auto simp: s3_send_def split: prod.splits)
  from http_send_Ok [OF this] show ?thesis by (auto simp: answered_def same_request_def)
qed

lemma s3_sent:
  assumes "signs_same env" "step (s3_sign env core req s) (\<lambda>req s. s3_send env req s) = (Ok resp, s')"
  shows "answered env req resp (snd (se_load env (fst s))) (fst s')"
proof -
  obtain req' s1 where r: "s3_sign env core req s = (Ok req', s1)" "s3_send env req' s1 = (Ok resp, s')"
    using assms(2) by (auto simp: step_Ok_iff)
  from s3_sign_same [OF assms(1) r(1)] s3_send_answered [OF r(2)] show ?thesis
    by (fastforce simp: answered_def same_request_def)
qed

lemma s3_build_Ok: "s3_build env req = Ok req' \<longleftrightarrow> se_builder env req = None \<and> req' = req"
  by (auto simp: s3_build_def outcome_simps split: option.splits)

lemma s3_call_answered:
  assumes "signs_same env" "s3_call env core (Ok req) s = (Ok resp, s')"
  shows "\<exists>w. answered env req resp w (fst s')"
proof -
  have "step (s3_sign env core req s) (\<lambda>req s. s3_send env req s) = (Ok resp, s')"
    using assms(2) by (auto simp: s3_call_def step_Ok_iff s3_build_Ok)
  from s3_sent [OF assms(1) this] show ?thesis ..
qed

subsection \<open>A server that stores objects\<close>

text \<open>
  What S3 documents about uploads to one URL. A put that was answered with success stores its body. A part that was answered with an ETag is known
  by its upload, its number and the ETag. Completing an upload, with no error in the answer, makes the object the parts
  of the list in their order; the list is sent as XML.
\<close>

definition stores_object ::
  "('c, 'w) s3_env \<Rightarrow> string \<Rightarrow> (string \<Rightarrow> nat \<Rightarrow> string \<Rightarrow> bytes) \<Rightarrow> ('w \<Rightarrow> bytes option) \<Rightarrow> bool" where
  "stores_object env url part_body held =
     ((\<forall>req resp w w'. answered env req resp w w' \<longrightarrow> rq_method req = PUT \<longrightarrow> rq_uri req = url \<longrightarrow> rs_status resp \<in> {200, 201}
         \<longrightarrow> held w' = Some (buf_bytes (rq_body req)))
      \<and> (\<forall>req resp w w' v n etag. answered env req resp w w' \<longrightarrow> rq_method req = PUT
         \<longrightarrow> rq_uri req = url @ ''?partNumber='' @ show_nat n @ ''&uploadId='' @ s3_enc env v \<longrightarrow> rs_status resp = 200
         \<longrightarrow> map_of (rs_headers resp) ''etag'' = Some (HeaderText etag) \<longrightarrow> part_body v n etag = buf_bytes (rq_body req))
      \<and> (\<forall>req resp w w' v ps content e. answered env req resp w w' \<longrightarrow> rq_method req = POST
         \<longrightarrow> rq_uri req = url @ ''?uploadId='' @ s3_enc env v \<longrightarrow> se_xml_complete env ps = Inr content
         \<longrightarrow> rq_body req = text_buffer content \<longrightarrow> rs_status resp = 200
         \<longrightarrow> se_xml_error env (rs_body resp) = Inr e \<longrightarrow> s3e_code e = []
         \<longrightarrow> held w' = Some (concat (map (\<lambda>p. part_body v (cpp_part_number p) (cpp_etag p)) ps))))"

lemma stores_put:
  assumes "stores_object env url part_body held" "answered env req resp w w'" "rq_method req = PUT" "rq_uri req = url"
    "rs_status resp \<in> {200, 201}"
  shows "held w' = Some (buf_bytes (rq_body req))"
  using assms(1) [unfolded stores_object_def, THEN conjunct1] assms(2-) by blast

lemma stores_part:
  assumes "stores_object env url part_body held" "answered env req resp w w'" "rq_method req = PUT"
    "rq_uri req = url @ ''?partNumber='' @ show_nat n @ ''&uploadId='' @ s3_enc env v" "rs_status resp = 200"
    "map_of (rs_headers resp) ''etag'' = Some (HeaderText etag)"
  shows "part_body v n etag = buf_bytes (rq_body req)"
  using assms(1) [unfolded stores_object_def, THEN conjunct2, THEN conjunct1] assms(2-) by blast

lemma stores_complete:
  assumes "stores_object env url part_body held" "answered env req resp w w'" "rq_method req = POST"
    "rq_uri req = url @ ''?uploadId='' @ s3_enc env v" "se_xml_complete env ps = Inr content" "rq_body req = text_buffer content"
    "rs_status resp = 200" "se_xml_error env (rs_body resp) = Inr e" "s3e_code e = []"
  shows "held w' = Some (concat (map (\<lambda>p. part_body v (cpp_part_number p) (cpp_etag p)) ps))"
  using assms(1) [unfolded stores_object_def, THEN conjunct2, THEN conjunct2] assms(2-) by blast

lemma io_of_Inr: "io_of x = (Inr a, s) \<longleftrightarrow> x = (Ok a, s)"
  by (cases x; cases "fst x") (auto simp: io_of_def)

lemma s3_write_once_stores:
  assumes "s3_url env core path = Ok url" "stores_object env url part_body held" "signs_same env"
    and "s3_write_once env core path args sz body s = (Ok (), s')"
  shows "held (fst s') = Some (buf_bytes body)"
proof -
  obtain req s1 resp where r: "s3_put_object_request env core path (Some sz) args body = Ok req"
    "step (s3_sign env core req s) (\<lambda>req s. s3_send env req s) = (Ok resp, s1)" "rs_status resp \<in> {200, 201}" "s' = s1"
    using assms(4) by (auto simp: s3_write_once_def step_Ok_iff split: if_splits)
  have "rq_method req = PUT \<and> rq_uri req = url \<and> rq_body req = body"
    using r(1) assms(1) by (auto simp: s3_put_object_request_def outcome_simps s3_build_Ok)
  moreover obtain w where "answered env req resp w (fst s1)" using s3_sent [OF assms(3) r(2)] by blast
  ultimately show ?thesis using stores_put [OF assms(2)] r(3,4) by metis
qed

lemma s3_write_part_stores:
  assumes "s3_url env core path = Ok url" "stores_object env url part_body held" "signs_same env"
    and "s3_write_part env core path v n sz body s = (Ok p, s')"
  shows "part_number p = n + 1 \<and> part_body v (part_number p) (part_etag p) = buf_bytes body"
proof -
  obtain req s1 resp checksum etag where r: "s3_upload_part_request env core path v (n + 1) sz body checksum = Ok req"
    "step (s3_sign env core req s) (\<lambda>req s. s3_send env req s) = (Ok resp, s1)" "rs_status resp = 200"
    "parse_etag (rs_headers resp) = Ok (Some etag)" "p = \<lparr>part_number = n + 1, part_etag = etag, part_checksum = checksum\<rparr>"
    using assms(4) by (auto simp: s3_write_part_def Let_def step_Ok_iff outcome_simps split: if_splits option.splits)
  have "rq_method req = PUT \<and> rq_uri req = url @ ''?partNumber='' @ show_nat (n + 1) @ ''&uploadId='' @ s3_enc env v \<and> rq_body req = body"
    using r(1) assms(1) by (auto simp: s3_upload_part_request_def s3_build_Ok simp del: show_nat.simps)
  moreover have "map_of (rs_headers resp) ''etag'' = Some (HeaderText etag)"
    using r(4) by (auto simp: parse_etag_def parse_header_to_str_def source_err_def outcome_simps split: option.splits header_value.splits)
  moreover obtain w where "answered env req resp w (fst s1)" using s3_sent [OF assms(3) r(2)] by blast
  ultimately show ?thesis using stores_part [OF assms(2)] r(3,5) by fastforce
qed

lemma complete_part_of_fields [simp]:
  "cpp_part_number (complete_part_of core p) = part_number p" "cpp_etag (complete_part_of core p) = part_etag p"
  by (simp_all add: complete_part_of_def split: option.splits checksum_algorithm.splits)

lemma s3_complete_part_stores:
  assumes "s3_url env core path = Ok url" "stores_object env url part_body held" "signs_same env"
    and "s3_complete_part env core path v ps s = (Ok (), s')"
  shows "held (fst s') = Some (concat (map (\<lambda>p. part_body v (part_number p) (part_etag p)) ps))"
proof -
  obtain resp e where r: "s3_complete_multipart_upload env core path v (map (complete_part_of core) ps) s = (Ok resp, s')"
    "rs_status resp = 200" "se_xml_error env (rs_body resp) = Inr e" "s3e_code e = []"
    using assms(4) by (auto simp: s3_complete_part_def step_Ok_iff split: if_splits sum.splits)
  obtain content where x: "se_xml_complete env (map (complete_part_of core) ps) = Inr content"
    using r(1) assms(1) by (cases "se_xml_complete env (map (complete_part_of core) ps)")
      (auto simp: s3_complete_multipart_upload_def s3_call_def)
  let ?req = "\<lparr>rq_method = POST, rq_uri = url @ ''?uploadId='' @ s3_enc env v,
     rq_headers = sse_headers core True @ [(''content-length'', show_nat (length content)), (''content-type'', ''application/xml'')],
     rq_body = text_buffer content\<rparr>"
  have "s3_call env core (Ok ?req) s = (Ok resp, s')"
    using r(1) x assms(1) by (simp add: s3_complete_multipart_upload_def del: show_nat.simps)
  then obtain w where "answered env ?req resp w (fst s')" using s3_call_answered [OF assms(3)] by blast
  from stores_complete [OF assms(2) this _ _ x _ r(2-4)] show ?thesis by (simp add: comp_def)
qed


subsection \<open>Uploads\<close>

lemma mw_inputs_bodies:
  assumes "list_all2 (mw_part_of ops) (mw_inputs v log) ps"
    and part: "\<And>n b p w w'. mw_write_part ops v n (buf_len b) b w = (Inr p, w') \<Longrightarrow> body_of p = buf_bytes b"
  shows "map body_of ps = map buf_bytes log"
proof (rule nth_equalityI)
  show len: "length (map body_of ps) = length (map buf_bytes log)"
    using assms(1) by (auto dest: list_all2_lengthD simp: mw_inputs_def)
  fix k assume k: "k < length (map body_of ps)"
  then have "mw_part_of ops (mw_inputs v log ! k) (ps ! k)" using assms(1) by (auto simp: list_all2_conv_all_nth)
  moreover have "mw_inputs v log ! k = \<lparr>wi_upload_id = v, wi_part_number = k, wi_bytes = log ! k\<rparr>"
    using k len by (simp add: mw_inputs_def nth_enumerate_eq)
  ultimately show "map body_of ps ! k = map buf_bytes log ! k"
    using k len by (auto simp: mw_part_of_def part)
qed

lemma s3_upload_commits:
  assumes "s3_url env core path = Ok url" "stores_object env url part_body held" "signs_same env"
    and "mw_committed (s3_writer env core path args) log (st, s')"
  shows "held (fst s') = Some (log_bytes log)"
proof (cases "mw_upload_id st")
  case None
  then obtain body s0 where "s3_write_once env core path args (buf_len body) body s0 = (Ok (), s')"
    and log: "log = [] \<and> body = buf_new \<or> log = [body]"
    using assms(4) by (auto simp: mw_committed_def s3_writer_def io_of_Inr)
  from s3_write_once_stores [OF assms(1-3) this(1)] log show ?thesis by (auto simp: log_bytes_def)
next
  case (Some v)
  then obtain ps s0 where l: "list_all2 (mw_part_of (s3_writer env core path args)) (mw_inputs v log) ps"
    and c: "s3_complete_part env core path v ps s0 = (Ok (), s')"
    using assms(4) by (auto simp: mw_committed_def s3_writer_def io_of_Inr)
  have "map (\<lambda>p. part_body v (part_number p) (part_etag p)) ps = map buf_bytes log"
    by (rule mw_inputs_bodies [OF l])
      (simp add: s3_writer_def io_of_Inr s3_write_part_stores [OF assms(1-3), THEN conjunct2] del: split_paired_All)
  with s3_complete_part_stores [OF assms(1-3) c] show ?thesis by (simp add: log_bytes_def)
qed

text \<open>A writer of the service: what it was opened for, and what its multipart writer holds.\<close>

definition s3w_holds :: "('c, 'w) s3_env \<Rightarrow> s3_core \<Rightarrow> string \<Rightarrow> op_write \<Rightarrow> buffer list \<Rightarrow> s3_writers \<Rightarrow> bool" where
  "s3w_holds env core path args log wr =
     (s3w_path wr = path \<and> s3w_op wr = args \<and> mw_inv (s3_writer env core path args) log (s3w_multipart wr))"

lemma s3_oio_write:
  fixes env :: "('c, 'w) s3_env"
  assumes "s3_url env core path = Ok url" "stores_object env url part_body held" "signs_same env"
  shows "oio_write_retry (writer_writes (s3_access env ex order core)) (writer_closes (s3_access env ex order core))
    (\<lambda>log s. s3w_holds env core path args log (fst s)) (\<lambda>log s. held (fst (snd s)) = Some (log_bytes log))"
proof unfold_locales
  let ?ops = "s3_writer env core path args"
  fix log b e and s s' :: "s3_writers \<times> 'w s3_state"
  assume inv: "s3w_holds env core path args log (fst s)"
  obtain wr w where s: "s = (wr, w)" by (metis surj_pair)
  obtain wr' w' where s': "s' = (wr', w')" by (metis surj_pair)
  have wr: "s3w_path wr = path" "s3w_op wr = args" "mw_inv ?ops log (fst (s3w_multipart wr, w))"
    using inv by (simp_all add: s s3w_holds_def)
  have run: "call (s3w_multipart wr, w) = (r, s3w_multipart wr', w') \<and> s3w_path wr' = path \<and> s3w_op wr' = args"
    if "s3w_run call wr w = (r, s')" for call r
    using that wr by (auto simp: s3w_run_def s' split: prod.splits)
  have wri: "mw_write ex ?ops b (s3w_multipart wr, w) = (r, s3w_multipart wr', w') \<and> s3w_path wr' = path \<and> s3w_op wr' = args"
    if "writer_writes (s3_access env ex order core) b s = (r, s')" for r
    using that run wr by (simp add: s s3_access_def)
  have clo: "mw_close ex ?ops (s3w_multipart wr, w) = (r, s3w_multipart wr', w') \<and> s3w_path wr' = path \<and> s3w_op wr' = args"
    if "writer_closes (s3_access env ex order core) s = (r, s')" for r
    using that run wr by (simp add: s s3_access_def)
  { assume "writer_writes (s3_access env ex order core) b s = (Ok (), s')"
    from mpw.write_Ok [OF wr(3) wri [OF this, THEN conjunct1]] wri [OF this] show "s3w_holds env core path args (log @ [b]) (fst s')"
      by (auto simp: s3w_holds_def s') }
  { assume "writer_writes (s3_access env ex order core) b s = (Err e, s')"
    from mpw.write_Err [OF wr(3) wri [OF this, THEN conjunct1]] wri [OF this] show "s3w_holds env core path args log (fst s')"
      by (auto simp: s3w_holds_def s') }
  { assume "writer_closes (s3_access env ex order core) s = (Err e, s')"
    from mpw.close_Err [OF wr(3) clo [OF this, THEN conjunct1]] clo [OF this] show "s3w_holds env core path args log (fst s')"
      by (auto simp: s3w_holds_def s') }
  { assume "writer_closes (s3_access env ex order core) s = (Ok (), s')"
    from mpw.close_Ok [OF wr(3) clo [OF this, THEN conjunct1]] s3_upload_commits [OF assms, of args log "s3w_multipart wr'" w']
    show "held (fst (snd s')) = Some (log_bytes log)" by (auto simp: s') }
qed

text \<open>
  A server that keeps the body of the last request that is not the upload of a part. A part's ETag spells the part's bytes, and the
  list that completes an upload is the list of ETags.
\<close>

definition store_server :: "bytes option transport" where
  "store_server req w =
     (Inr \<lparr>rs_status = 200, rs_headers = [(''etag'', HeaderText (map (\<lambda>b. char_of (unat b)) (buf_bytes (rq_body req))))], rs_uri = None, rs_body = []\<rparr>,
      if rq_method req = PUT \<and> CHR ''?'' \<in> set (rq_uri req) then w else Some (buf_bytes (rq_body req)))"

definition store_env :: "(unit, bytes option) s3_env" where
  "store_env = (plain_env store_server)\<lparr>se_xml_complete := \<lambda>ps. Inr (concat (map cpp_etag ps))\<rparr>"

lemma store_env_simps [simp]:
  "se_encode store_env = pct_encode" "se_builder store_env req = None" "se_load store_env w = (Inr None, w)"
  "se_sign store_env c req = Inr req" "se_url_ok store_env u" "se_reqwest store_env = store_server"
  "se_xml_initiate store_env b = Inr ''id''" "se_xml_complete store_env ps = Inr (concat (map cpp_etag ps))"
  by (simp_all add: store_env_def plain_env_def)

lemma store_signs: "signs_same store_env"
  by (simp add: signs_same_def same_request_def)

lemma store_stores:
  assumes "CHR ''?'' \<notin> set url"
  shows "stores_object store_env url (\<lambda>v n etag. map of_char etag) (\<lambda>w. w)"
proof -
  have sent: "rs_headers resp = [(''etag'', HeaderText (map (\<lambda>b. char_of (unat b)) (buf_bytes (rq_body req))))]
      \<and> w' = (if rq_method req = PUT \<and> CHR ''?'' \<in> set (rq_uri req) then w else Some (buf_bytes (rq_body req)))"
    if "answered store_env req resp w w'" for req resp w w'
    using that by (auto simp: answered_def same_request_def store_server_def)
  have inv: "of_char (char_of (unat b)) = b" for b :: "8 word"
  proof -
    have "unat b < 2 ^ LENGTH(8)" by (rule unsigned_less)
    then have "(of_char (char_of (unat b)) :: nat) = unat b" by simp
    then show ?thesis by (metis of_nat_of_char of_nat_unat ucast_id)
  qed
  show ?thesis unfolding stores_object_def
  proof (intro conjI allI impI)
  qed (use assms in \<open>auto dest!: sent simp: inv text_buffer_def map_concat comp_def\<close>)
qed

subsection \<open>Metadata\<close>

text \<open>
  What S3 documents about the headers of an object: those of the put are stored with it, and come back in the answer to a head
  request, which holds each name once. Headers of user metadata come back only if they were stored. Loading credentials leaves the object alone.
\<close>

definition keeps_headers :: "('c, 'w) s3_env \<Rightarrow> string \<Rightarrow> ('w \<Rightarrow> string \<rightharpoonup> string) \<Rightarrow> bool" where
  "keeps_headers env url hdrs =
     ((\<forall>req resp w w'. answered env req resp w w' \<longrightarrow> rq_method req = PUT \<longrightarrow> rq_uri req = url \<longrightarrow> rs_status resp \<in> {200, 201}
         \<longrightarrow> hdrs w' = map_of (object_headers (rq_headers req)))
      \<and> (\<forall>req resp w w'. answered env req resp w w' \<longrightarrow> rq_method req = HEAD \<longrightarrow> rq_uri req = url \<longrightarrow> rs_status resp = 200
         \<longrightarrow> distinct (map fst (rs_headers resp))
           \<and> (\<forall>k v. hdrs w k = Some v \<longrightarrow> map_of (rs_headers resp) k = Some (HeaderText v))
           \<and> (\<forall>k. starts_with k ''x-amz-meta-'' \<longrightarrow> hdrs w k = None \<longrightarrow> map_of (rs_headers resp) k = None))
      \<and> (\<forall>w. hdrs (snd (se_load env w)) = hdrs w))"

lemma map_of_update_fold: "map_of (fold (\<lambda>(k, v) m. AList.update k v m) xs m) = map_of m ++ map_of (rev xs)"
proof (induction xs arbitrary: m)
  case (Cons x xs)
  show ?case by (cases x) (simp add: Cons.IH update_conv' map_add_def fun_eq_iff split: option.splits)
qed simp

lemma map_of_rev_distinct: "distinct (map fst xs) \<Longrightarrow> map_of (rev xs) = map_of xs"
proof (induction xs)
  case (Cons x xs)
  then have "map_of xs (fst x) = None" by (simp add: map_of_eq_None_iff)
  with Cons show ?case by (auto simp: map_add_def fun_eq_iff split: option.splits)
qed simp

lemma map_of_prefixed_headers:
  assumes "distinct (map fst hs)"
  shows "map_of (parse_prefixed_headers hs pre) k = (case map_of hs (pre @ k) of Some (HeaderText v) \<Rightarrow> Some v | _ \<Rightarrow> None)"
proof -
  let ?f = "\<lambda>(name, value). case strip_prefix name pre of
      None \<Rightarrow> None | Some key \<Rightarrow> (case value of HeaderText v \<Rightarrow> Some (key, v) | HeaderOpaque e \<Rightarrow> None)"
  have "distinct (map fst (List.map_filter ?f hs)) \<and> (\<forall>a \<in> fst ` set (List.map_filter ?f hs). pre @ a \<in> fst ` set hs)
    \<and> map_of (List.map_filter ?f hs) k = (case map_of hs (pre @ k) of Some (HeaderText v) \<Rightarrow> Some v | _ \<Rightarrow> None)"
    using assms
  proof (induction hs)
    case (Cons x hs)
    obtain name v where x: "x = (name, v)" by fastforce
    show ?case
    proof (cases "strip_prefix name pre")
      case None
      then have "name \<noteq> pre @ k" by auto
      with None Cons x show ?thesis by (auto simp: List.map_filter_simps)
    next
      case (Some key)
      then have name: "name = pre @ key" by (simp add: strip_prefix_Some)
      show ?thesis
      proof (cases v)
        case (HeaderText w)
        then show ?thesis using Cons x name by (auto simp: List.map_filter_simps)
      next
        case (HeaderOpaque e)
        have "map_of hs (pre @ key) = None" using Cons.prems x name by (simp add: map_of_eq_None_iff)
        with HeaderOpaque Cons x name show ?thesis by (auto simp: List.map_filter_simps)
      qed
    qed
  qed (simp add: List.map_filter_simps)
  then show ?thesis unfolding parse_prefixed_headers_def map_of_update_fold by (simp add: map_of_rev_distinct)
qed

lemma keeps_put:
  assumes "keeps_headers env url hdrs" "answered env req resp w w'" "rq_method req = PUT" "rq_uri req = url" "rs_status resp \<in> {200, 201}"
  shows "hdrs w' = map_of (object_headers (rq_headers req))"
  using assms(1) [unfolded keeps_headers_def, THEN conjunct1] assms(2-) by blast

lemma keeps_head:
  assumes "keeps_headers env url hdrs" "answered env req resp w w'" "rq_method req = HEAD" "rq_uri req = url" "rs_status resp = 200"
  shows "distinct (map fst (rs_headers resp))" "hdrs w k = Some v \<Longrightarrow> map_of (rs_headers resp) k = Some (HeaderText v)"
    and "starts_with k ''x-amz-meta-'' \<Longrightarrow> hdrs w k = None \<Longrightarrow> map_of (rs_headers resp) k = None"
  using assms(1) [unfolded keeps_headers_def, THEN conjunct2, THEN conjunct1] assms(2-) by blast+

lemma map_of_object_headers: "map_of (object_headers hs) k = (if object_header k then map_of hs k else None)"
  by (induction hs) (auto simp: object_headers_def)

lemma map_of_opt_header_one [simp]: "map_of (opt_header n v) x = (if x = n then v else None)"
  by (simp add: opt_header_def split: option.splits)

lemma append_map_of: "map_of (xs @ ys) x = (case map_of xs x of None \<Rightarrow> map_of ys x | Some v \<Rightarrow> Some v)"
  by (simp add: map_add_def split: option.splits)

lemma not_object_header:
  "\<not> object_header ''x-amz-server-side-encryption''" "\<not> object_header ''x-amz-server-side-encryption-aws-kms-key-id''"
  "\<not> object_header ''x-amz-server-side-encryption-customer-algorithm''" "\<not> object_header ''x-amz-server-side-encryption-customer-key''"
  "\<not> object_header ''x-amz-server-side-encryption-customer-key-md5''" "\<not> object_header ''x-amz-checksum-crc32c''"
  by code_simp+

lemma object_header_names:
  "object_header ''content-type''" "object_header ''content-disposition''" "object_header ''content-encoding''"
  "object_header ''cache-control''" "object_header (''x-amz-meta-'' @ k)"
  by (simp_all add: object_header_def starts_with_def)

lemma map_of_prefixed: "map_of (map (\<lambda>(k, v). (pre @ k, v)) xs) x = Option.bind (strip_prefix x pre) (map_of xs)"
proof (cases "strip_prefix x pre")
  case None
  then have "pre @ k \<noteq> x" for k by auto
  with None show ?thesis by (induction xs) auto
next
  case (Some k)
  then have "x = pre @ k" by (simp add: strip_prefix_Some)
  then show ?thesis by (induction xs) auto
qed

lemma set_if_some_other: "(\<And>x. sel (upd x m) = sel m) \<Longrightarrow> sel (set_if_some upd v m) = sel m"
  by (simp add: set_if_some_def split: option.splits)

lemma set_if_some_own:
  "md_content_type m = None \<Longrightarrow> md_content_type (set_if_some (\<lambda>x m. m\<lparr>md_content_type := Some x\<rparr>) v m) = v"
  "md_content_disposition m = None \<Longrightarrow> md_content_disposition (set_if_some (\<lambda>x m. m\<lparr>md_content_disposition := Some x\<rparr>) v m) = v"
  "md_content_encoding m = None \<Longrightarrow> md_content_encoding (set_if_some (\<lambda>x m. m\<lparr>md_content_encoding := Some x\<rparr>) v m) = v"
  "md_cache_control m = None \<Longrightarrow> md_cache_control (set_if_some (\<lambda>x m. m\<lparr>md_cache_control := Some x\<rparr>) v m) = v"
  by (simp_all add: set_if_some_def split: option.splits)

lemma parse_into_metadata_fields:
  assumes "parse_into_metadata rfc2822 path hs = Ok m"
  shows "map_of hs ''content-type'' = Some (HeaderText v) \<Longrightarrow> md_content_type m = Some v"
    "map_of hs ''content-disposition'' = Some (HeaderText v) \<Longrightarrow> md_content_disposition m = Some v"
    "map_of hs ''content-encoding'' = Some (HeaderText v) \<Longrightarrow> md_content_encoding m = Some v"
    "map_of hs ''cache-control'' = Some (HeaderText v) \<Longrightarrow> md_cache_control m = Some v" "md_user_metadata m = None"
proof -
  obtain cc cl ct ce cr et md lm cd where f: "parse_cache_control hs = Ok cc" "parse_content_type hs = Ok ct"
    "parse_content_encoding hs = Ok ce" "parse_content_disposition hs = Ok cd"
    and m: "m = set_if_some (\<lambda>x m. m\<lparr>md_content_disposition := Some x\<rparr>) cd
      (set_if_some (\<lambda>x m. m\<lparr>md_last_modified := Some x\<rparr>) lm (set_if_some (\<lambda>x m. m\<lparr>md_content_md5 := Some x\<rparr>) md
      (set_if_some (\<lambda>x m. m\<lparr>md_etag := Some x\<rparr>) et (set_if_some (\<lambda>x m. m\<lparr>md_content_range := Some x\<rparr>) cr
      (set_if_some (\<lambda>x m. m\<lparr>md_content_encoding := Some x\<rparr>) ce (set_if_some (\<lambda>x m. m\<lparr>md_content_type := Some x\<rparr>) ct
      (set_if_some (\<lambda>x m. m\<lparr>md_content_length := Some x\<rparr>) cl (set_if_some (\<lambda>x m. m\<lparr>md_cache_control := Some x\<rparr>) cc
      (metadata_new (if ends_with path CHR ''/'' then DIR else FILE))))))))))"
    using assms unfolding parse_into_metadata_def Let_def outcome_simps by blast
  note other = set_if_some_other [where sel = md_content_type] set_if_some_other [where sel = md_content_disposition]
    set_if_some_other [where sel = md_content_encoding] set_if_some_other [where sel = md_cache_control]
    set_if_some_other [where sel = md_user_metadata]
  have sel: "md_content_type m = ct" "md_content_disposition m = cd" "md_content_encoding m = ce" "md_cache_control m = cc"
    "md_user_metadata m = None"
    by (simp_all add: m other set_if_some_own metadata_new_def)
  show "map_of hs ''content-type'' = Some (HeaderText v) \<Longrightarrow> md_content_type m = Some v"
    "map_of hs ''content-disposition'' = Some (HeaderText v) \<Longrightarrow> md_content_disposition m = Some v"
    "map_of hs ''content-encoding'' = Some (HeaderText v) \<Longrightarrow> md_content_encoding m = Some v"
    "map_of hs ''cache-control'' = Some (HeaderText v) \<Longrightarrow> md_cache_control m = Some v" "md_user_metadata m = None"
    using f sel by (auto simp: parse_cache_control_def parse_content_type_def parse_content_encoding_def parse_content_disposition_def
        parse_header_to_str_def)
qed

text \<open>The headers that a write in one request stores.\<close>

lemma s3_write_once_headers:
  assumes "s3_url env core path = Ok url" "keeps_headers env url hdrs" "signs_same env"
    and "s3_write_once env core path args sz body s = (Ok (), s')"
    and "\<forall>(k, v) \<in> set um. se_header_name env (''x-amz-meta-'' @ k) = ''x-amz-meta-'' @ k" "wo_user_metadata args = Some um"
  shows "hdrs (fst s') ''content-type'' = wo_content_type args" "hdrs (fst s') ''content-disposition'' = wo_content_disposition args"
    "hdrs (fst s') ''content-encoding'' = wo_content_encoding args" "hdrs (fst s') ''cache-control'' = wo_cache_control args"
    "hdrs (fst s') (''x-amz-meta-'' @ k) = map_of um k"
proof -
  obtain req s1 resp where r: "s3_put_object_request env core path (Some sz) args body = Ok req"
    "step (s3_sign env core req s) (\<lambda>req s. s3_send env req s) = (Ok resp, s1)" "rs_status resp \<in> {200, 201}" "s' = s1"
    using assms(4) by (auto simp: s3_write_once_def step_Ok_iff split: if_splits)
  have um: "user_metadata_headers env args = map (\<lambda>(k, v). (''x-amz-meta-'' @ k, v)) um"
    using assms(5,6) by (auto simp: user_metadata_headers_def)
  obtain cs where req: "rq_method req = PUT" "rq_uri req = url" "rq_headers req = opt_header ''content-length'' (Some (show_nat sz))
      @ opt_header ''content-type'' (wo_content_type args) @ opt_header ''content-disposition'' (wo_content_disposition args)
      @ opt_header ''content-encoding'' (wo_content_encoding args) @ opt_header ''cache-control'' (wo_cache_control args)
      @ opt_header ''if-match'' (wo_if_match args) @ (if wo_if_not_exists args then [(''if-none-match'', ''*'')] else [])
      @ opt_header ''x-amz-storage-class'' (s3_default_storage_class core) @ map (\<lambda>(k, v). (''x-amz-meta-'' @ k, v)) um
      @ sse_headers core True @ (case cs of None \<Rightarrow> [] | Some c \<Rightarrow> checksum_header core c)"
    using r(1) assms(1) unfolding s3_put_object_request_def um
    by (auto simp: outcome_simps s3_build_Ok simp del: show_nat.simps)
  have h: "hdrs (fst s') = map_of (object_headers (rq_headers req))"
    using keeps_put [OF assms(2) s3_sent [OF assms(3) r(2)] req(1,2) r(3)] r(4) by simp
  define ys where "ys = sse_headers core True @ (case cs of None \<Rightarrow> [] | Some c \<Rightarrow> checksum_header core c)"
  have name: "checksum_header_name a = ''x-amz-checksum-crc32c''" for a by (cases a) simp
  have rest: "map_of ys x = None" if "object_header x" for x
    using that not_object_header name
    by (auto simp: ys_def sse_headers_def checksum_header_def append_map_of split: option.splits checksum_algorithm.splits)
  show "hdrs (fst s') ''content-type'' = wo_content_type args" "hdrs (fst s') ''content-disposition'' = wo_content_disposition args"
    "hdrs (fst s') ''content-encoding'' = wo_content_encoding args" "hdrs (fst s') ''cache-control'' = wo_cache_control args"
    "hdrs (fst s') (''x-amz-meta-'' @ k) = map_of um k"
    unfolding h map_of_object_headers req(3) ys_def [symmetric]
    by (simp_all only: append_map_of object_header_names rest [OF object_header_names(1)] rest [OF object_header_names(2)]
        rest [OF object_header_names(3)] rest [OF object_header_names(4)] rest [OF object_header_names(5)] map_of_prefixed)
      (auto simp: strip_prefix_def starts_with_def split: option.splits)
qed

subsection \<open>Properties\<close>

text \<open>
  C2. Uploading to S3 through the retry layer. The server stores the body of a put, remembers parts under their ETags and joins the
  parts that a completion lists. Data written in any pieces, with any chunk size, concurrency and order of the part uploads, is the object
  on the server as soon as the writes and the close returned success, however many requests failed on the way.
\<close>

theorem s3_retry_upload_exact:
  assumes "s3_url env core path = Ok url" "stores_object env url part_body held" "signs_same env" "backon_ok n bk"
    and "ac_write (retry_layer blk bk (s3_access env ex order core)) path args s = (Ok wr, s1)"
    and "list_all buf_wf bs" "exact \<longrightarrow> chunk_size \<noteq> Some 0"
  shows "\<exists>r g. writer_write_list (writer_writes (retry_layer blk bk (s3_access env ex order core))) bs
        (wg_create (wr, s1) (chunk_size, exact)) = Some (r, g)
    \<and> (\<forall>g'. r = Ok () \<and> wg_close (writer_writes (retry_layer blk bk (s3_access env ex order core)))
            (writer_closes (retry_layer blk bk (s3_access env ex order core))) g = (Ok (), g')
        \<longrightarrow> held (fst (snd (wg_w g'))) = Some (log_bytes bs))"
proof -
  let ?ac = "retry_layer blk bk (s3_access env ex order core)"
  have rt: "retries n (bk_writer bk)" using assms(4) by (simp add: backon_ok_def)
  note w = oio_write_retry.axioms(1) [OF retry_writer [OF s3_oio_write [OF assms(1-3), where args = args] rt, where blk = blk]]
  let ?s = "s3_access env ex order core"
  obtain x where r: "bk_write bk is_temporary (ac_write ?s path args) s = (Ok x, s1)" and wr: "wr = rw_new x"
    using assms(5) by (auto simp: retry_layer_def retry_open_def step_Ok_iff split: prod.splits outcome.splits)
  obtain s0 where "ac_write ?s path args s0 = (Ok x, s1)"
    using retries_last [where P = "\<lambda>s. True" and retry = "bk_write bk" and n = n] r assms(4) by (fastforce simp: backon_ok_def)
  then have "s3w_holds env core path args [] x"
    by (auto simp: s3_access_def s3w_holds_def mw_inv_def mw_new_def)
  with wr chunked_write_done [OF w _ assms(6,7), of "(wr, s1)"] show ?thesis by (fastforce simp: wg_done_def)
qed

theorem s3_retry_upload_exact_witness:
  "\<exists>wr s1 r g. ac_write (retry_layer False (backon_n 3) (s3_access store_env
        \<lparr>ex_timeout = \<lambda>s. (False, s), ex_delay = \<lambda>s. (0, s)\<rparr> (\<lambda>S. []) plain_core)) ''f'' op_write_default (None, False) = (Ok wr, s1)
    \<and> writer_write_list (writer_writes (retry_layer False (backon_n 3) (s3_access store_env
        \<lparr>ex_timeout = \<lambda>s. (False, s), ex_delay = \<lambda>s. (0, s)\<rparr> (\<lambda>S. []) plain_core))) [Contiguous [1, 2, 3]]
        (wg_create (wr, s1) (Some 2, True)) = Some (r, g)"
proof -
  let ?ac = "retry_layer False (backon_n 3) (s3_access store_env \<lparr>ex_timeout = \<lambda>s. (False, s), ex_delay = \<lambda>s. (0, s)\<rparr> (\<lambda>S. []) plain_core)"
  let ?wr = "rw_new \<lparr>s3w_path = ''f'', s3w_op = op_write_default, s3w_multipart = mw_new (wo_concurrent op_write_default)\<rparr>"
  have url: "s3_url store_env plain_core ''f'' = Ok ''https://e/b/f''" by code_simp
  have opn: "ac_write ?ac ''f'' op_write_default (None, False) = (Ok ?wr, None, False)"
    by (simp add: retry_layer_def retry_open_def backon_n_def numeral_3_eq_3 s3_access_def)
  have "stores_object store_env ''https://e/b/f'' (\<lambda>v n etag. map of_char etag) (\<lambda>w. w)" by (rule store_stores) simp
  from s3_retry_upload_exact [OF url this store_signs backon_ok_n opn, of "[Contiguous [1, 2, 3]]" True "Some 2"] opn
  show ?thesis by auto
qed




definition header_server :: "(string \<times> string) list transport" where
  "header_server req w =
     (if rq_method req = PUT
      then (Inr \<lparr>rs_status = 200, rs_headers = [], rs_uri = None, rs_body = []\<rparr>, object_headers (rq_headers req))
      else (Inr \<lparr>rs_status = 200, rs_headers = map (\<lambda>(k, v). (k, HeaderText v)) (AList.clearjunk w), rs_uri = None, rs_body = []\<rparr>, w))"

lemma send_empty:
  assumes "se_reqwest env req w = (Inr \<lparr>rs_status = st, rs_headers = hs, rs_uri = None, rs_body = []\<rparr>, w')" "se_url_ok env (rq_uri req)"
    and "fetch_size (rq_method req) hs = Ok None"
  shows "\<exists>b. s3_send env req (w, loaded) = (Ok \<lparr>rs_status = st, rs_headers = hs, rs_uri = Some (rq_uri req), rs_body = b\<rparr>, w', loaded)"
proof -
  have "\<exists>b. fst (hb_to_buffer (hb_new (body_stream (rq_uri req) []) None)) = Ok b"
    using read_all_stream [of "[]" "hb_new (body_stream (rq_uri req) []) None" "[]" "rq_uri req"]
    by (auto simp: hb_to_buffer_def hb_new_def size_ok_def)
  with assms show ?thesis by (auto simp: s3_send_def http_send_def http_fetch_def rs_from_parts_def rs_parts_def)
qed

lemma map_of_header_texts: "map_of (map (\<lambda>(k, v). (k, HeaderText v)) xs) = map_option HeaderText \<circ> map_of xs"
  by (induction xs) auto

lemma header_server_keeps: "keeps_headers (plain_env header_server) url map_of"
proof -
  have sent: "(rq_method req = PUT \<longrightarrow> w' = object_headers (rq_headers req))
      \<and> (rq_method req \<noteq> PUT \<longrightarrow> rs_headers resp = map (\<lambda>(k, v). (k, HeaderText v)) (AList.clearjunk w))"
    if "answered (plain_env header_server) req resp w w'" for req resp w w'
    using that by (auto simp: answered_def same_request_def header_server_def split: if_splits)
  have keys: "distinct (map fst (map (\<lambda>(k, v). (k, HeaderText v)) (AList.clearjunk w)))" for w :: "(string \<times> string) list"
    using distinct_clearjunk [of w] by (simp add: case_prod_unfold comp_def)
  show ?thesis unfolding keeps_headers_def
    by (intro conjI allI impI) (auto dest!: sent simp: map_of_header_texts map_of_clearjunk keys simp del: map_map)
qed



paragraph \<open>Corner cases\<close>

text \<open>
  A write in parts sends neither the content encoding nor the conditions of the write, although the service announces that it
  supports them: its requests are those of a write without them. Only a write in one request sends them.
\<close>

lemma s3_multipart_ignores:
  fixes args :: op_write
  defines "plain \<equiv> args\<lparr>wo_content_encoding := None, wo_if_match := None, wo_if_not_exists := False\<rparr>"
  shows "mw_initiate_part (s3_writer env core path args) = mw_initiate_part (s3_writer env core path plain)"
    and "mw_write_part (s3_writer env core path args) = mw_write_part (s3_writer env core path plain)"
    and "mw_complete_part (s3_writer env core path args) = mw_complete_part (s3_writer env core path plain)"
    and "cap_write_with_if_not_exists (s3_capability core) \<and> cap_write_with_content_encoding (s3_capability core)"
  by (simp_all add: plain_def s3_writer_def s3_initiate_part_def s3_initiate_multipart_upload_def user_metadata_headers_def s3_capability_def)

text \<open>An answer to a batch delete that names no object at all makes the deleter panic.\<close>

lemma s3_delete_batch_empty_answer:
  assumes "s3_delete_objects env core batch s = (Ok resp, s')" "rs_status resp = 200"
    and "se_xml_delete_result env (rs_body resp) = Inr \<lparr>dor_deleted = [], dor_error = []\<rparr>"
  shows "fst (s3_delete_batch env core batch s) = Panic"
  using assms by (simp add: s3_delete_batch_def)

end
