(* ===== verification/S3Lists.thy ===== *)
theory S3Lists
  imports S3Writes
begin

text \<open>
  Properties of the S3 service, continued: listing and deleting. A server that answers with pages is listed completely and in its order, through the
  retry layer and however many requests fail; what the entries of a page are; where a listing or a batch of deletions goes wrong.
\<close>

subsection \<open>Pages\<close>

lemma push_each_frame:
  "\<exists>r out. \<forall>c. push_each f xs c = (r, c\<lparr>pc_entries := pc_entries c @ out\<rparr>)"
proof (induction xs)
  case (Cons x xs)
  then obtain r out where ih: "push_each f xs c = (r, c\<lparr>pc_entries := pc_entries c @ out\<rparr>)" for c by blast
  show ?case
  proof (cases "f x")
    case (Ok e)
    then show ?thesis by (cases e) (auto simp: ih pc_push_def intro!: exI)
  next
    case (Err e)
    then show ?thesis by (intro exI [of _ "Err e"] exI [of _ "[]"]) simp
  next
    case Panic
    then show ?thesis by (intro exI [of _ Panic] exI [of _ "[]"]) simp
  qed
qed (intro exI [of _ "Ok ()"] exI [of _ "[]"], simp)

text \<open>The entries of a page, in the order in which the lister reports them.\<close>

definition page_entries :: "('c, 'w) s3_env \<Rightarrow> s3_core \<Rightarrow> list_output \<Rightarrow> oio_entry list option" where
  "page_entries env core output =
     (case push_each (prefix_entry (s3_root core)) (lout_common_prefixes output) (fst (page_lister_new ())) of
        (Ok u, ctx1) \<Rightarrow> (case push_each (object_entry env core) (lout_contents output) ctx1 of
            (Ok u, ctx2) \<Rightarrow> Some (pc_entries ctx2) | _ \<Rightarrow> None)
      | _ \<Rightarrow> None)"

lemma page_entries_push:
  assumes "page_entries env core output = Some es"
  shows "\<exists>ctx1. push_each (prefix_entry (s3_root core)) (lout_common_prefixes output) ctx = (Ok (), ctx1)
    \<and> push_each (object_entry env core) (lout_contents output) ctx1 = (Ok (), ctx\<lparr>pc_entries := pc_entries ctx @ es\<rparr>)"
proof -
  obtain r out where p: "push_each (prefix_entry (s3_root core)) (lout_common_prefixes output) c
      = (r, c\<lparr>pc_entries := pc_entries c @ out\<rparr>)" for c using push_each_frame by metis
  obtain r' out' where q: "push_each (object_entry env core) (lout_contents output) c
      = (r', c\<lparr>pc_entries := pc_entries c @ out'\<rparr>)" for c using push_each_frame by metis
  show ?thesis using assms
    by (auto simp: page_entries_def p q page_lister_new_def split: outcome.splits)
qed

text \<open>What a page says of an object: its key below the root, its size, and a directory exactly when the key ends in a slash.\<close>

lemma object_entry_spec:
  assumes "object_entry env core obj = Ok (Some e)" "build_rel_path (s3_root core) (loc_key obj) = Ok rel"
  shows "oe_path e = (if rel = [] then slash else rel)" "md_content_length (oe_meta e) = Some (loc_size obj)"
    "md_etag (oe_meta e) = loc_etag obj" "mode_is_dir (md_mode (oe_meta e)) = ends_with (oe_path e) CHR ''/''"
  using assms by (auto simp: object_entry_def rel_or_root_def entry_with_def Let_def outcome_simps slash_def metadata_new_def ends_with_def
      split: option.splits if_splits)

definition s3_list_uri :: "('c, 'w) s3_env \<Rightarrow> s3_core \<Rightarrow> s3_lister \<Rightarrow> string \<Rightarrow> string \<Rightarrow> string" where
  "s3_list_uri env core l p token =
     s3_endpoint core @ ''?list-type=2''
       @ (if p = [] then [] else ''&prefix='' @ s3_enc env p)
       @ (if s3l_delimiter l = [] then [] else ''&delimiter='' @ s3l_delimiter l)
       @ (case lo_limit (s3l_args l) of None \<Rightarrow> [] | Some n \<Rightarrow> ''&max-keys='' @ show_nat n)
       @ (case (if token = [] then s3l_abs_start_after l else None) of None \<Rightarrow> [] | Some x \<Rightarrow> ''&start-after='' @ s3_enc env x)
       @ (if token = [] then [] else ''&continuation-token='' @ s3_enc env token)"

text \<open>
  What S3 documents about listings. \<open>answers token\<close> are the pages from a token on. A page that was delivered is the page of the token it was asked for; it says whether more
  pages follow and names the token of the next one. The message of a page may fail to parse.
\<close>

definition lists_pages :: "('c, 'w) s3_env \<Rightarrow> (string \<Rightarrow> string) \<Rightarrow> (string \<Rightarrow> list_output list) \<Rightarrow> bool" where
  "lists_pages env uri answers =
     ((\<forall>token page pages req resp w w' output. answers token = page # pages \<longrightarrow> answered env req resp w w' \<longrightarrow> rq_method req = GET
         \<longrightarrow> rq_uri req = uri token \<longrightarrow> rs_status resp = 200 \<longrightarrow> se_xml_list env (rs_body resp) = Inr output \<longrightarrow> output = page)
      \<and> (\<forall>token page pages. answers token = page # pages \<longrightarrow> lout_is_truncated page = Some (pages \<noteq> [])
         \<and> (pages \<noteq> [] \<longrightarrow> (\<exists>next. lout_next_continuation_token page = Some next \<and> answers next = pages))))"

lemma s3_pages_ok:
  fixes env :: "('c, 'w) s3_env"
  assumes p: "build_abs_path (s3_root core) (s3l_path l) = Ok p" and lst: "lists_pages env (s3_list_uri env core l p) answers" "signs_same env"
    and es: "\<forall>token. \<forall>page \<in> set (answers token). page_entries env core page \<noteq> None"
  shows "pages_ok (\<lambda>ctx s. page_io (s3_next_page env core l ctx s)) (\<lambda>token s. map (\<lambda>page. the (page_entries env core page)) (answers token))"
  unfolding pages_ok_def
proof (intro allI impI)
  fix ctx :: page_context and s :: "'w s3_state" and q qs
  assume "map (\<lambda>page. the (page_entries env core page)) (answers (pc_token ctx)) = q # qs"
  then obtain page pages where a: "answers (pc_token ctx) = page # pages" "q = the (page_entries env core page)"
    "qs = map (\<lambda>page. the (page_entries env core page)) pages" by auto
  have q: "page_entries env core page = Some q" using es [THEN spec, of "pc_token ctx"] a by auto
  let ?req = "\<lparr>rq_method = GET, rq_uri = s3_list_uri env core l p (pc_token ctx), rq_headers = [], rq_body = buf_new\<rparr>"
  have call: "s3_list_objects env core (s3l_path l) (pc_token ctx) (s3l_delimiter l) (lo_limit (s3l_args l))
      (if pc_token ctx = [] then s3l_abs_start_after l else None) s = s3_call env core (Ok ?req) s"
    by (simp add: s3_list_objects_def s3_list_uri_def p)
  obtain r s' where r: "s3_call env core (Ok ?req) s = (r, s')" by (metis surj_pair)
  show "case page_io (s3_next_page env core l ctx s) of
      (Inl err, ctx', s') \<Rightarrow> ctx' = ctx \<and> map (\<lambda>page. the (page_entries env core page)) (answers (pc_token ctx)) = q # qs
    | (Inr u, ctx', s') \<Rightarrow> pc_entries ctx' = pc_entries ctx @ q \<and> pc_done ctx' = (qs = [])
        \<and> (qs \<noteq> [] \<longrightarrow> map (\<lambda>page. the (page_entries env core page)) (answers (pc_token ctx')) = qs)"
  proof (cases "\<exists>resp output. r = Ok resp \<and> rs_status resp = 200 \<and> se_xml_list env (rs_body resp) = Inr output")
    case False
    then have "\<exists>e. page_io (s3_next_page env core l ctx s) = (Inl e, ctx, s')"
      unfolding s3_next_page_def call r by (cases r) (auto simp: page_io_def split: sum.splits)
    with a show ?thesis by auto
  next
    case True
    then obtain resp out where ok: "r = Ok resp" "rs_status resp = 200" "se_xml_list env (rs_body resp) = Inr out" by blast
    from s3_call_answered [OF lst(2), of core ?req s resp s'] r ok(1) obtain w where "answered env ?req resp w (fst s')" by blast
    then have out: "out = page"
      using lst(1) [unfolded lists_pages_def, THEN conjunct1] a(1) ok(2,3) by force
    have chain: "lout_is_truncated page = Some (pages \<noteq> [])"
      "pages \<noteq> [] \<longrightarrow> (\<exists>n. lout_next_continuation_token page = Some n \<and> answers n = pages)"
      using lst(1) [unfolded lists_pages_def, THEN conjunct2] a(1) by blast+
    let ?ctx = "ctx\<lparr>pc_done := list_done page, pc_token := (case lout_next_continuation_token page of Some t \<Rightarrow> t | None \<Rightarrow> [])\<rparr>"
    from page_entries_push [OF q, of ?ctx] obtain ctx1 where
      "push_each (prefix_entry (s3_root core)) (lout_common_prefixes page) ?ctx = (Ok (), ctx1)"
      "push_each (object_entry env core) (lout_contents page) ctx1 = (Ok (), ?ctx\<lparr>pc_entries := pc_entries ?ctx @ q\<rparr>)" by blast
    then have "page_io (s3_next_page env core l ctx s) = (Inr (), ?ctx\<lparr>pc_entries := pc_entries ctx @ q\<rparr>, s')"
      unfolding s3_next_page_def call r by (simp add: ok out page_io_def Let_def)
    with chain a(3) show ?thesis by (auto simp: list_done_def)
  qed
qed

text \<open>A lister of objects over the pages that are left to it.\<close>

definition s3l_holds :: "(string \<Rightarrow> 'w s3_state \<Rightarrow> oio_entry list list) \<Rightarrow> s3_lister \<Rightarrow> oio_entry list \<Rightarrow> s3_listers \<times> 'w s3_state \<Rightarrow> bool" where
  "s3l_holds pages l es = (\<lambda>(li, s). \<exists>ctx. li = ListObjects l ctx \<and> page_holds pages es (ctx, s))"

lemma s3_oio_list:
  fixes env :: "('c, 'w) s3_env"
  assumes "pages_ok (\<lambda>ctx s. page_io (s3_next_page env core l ctx s)) pages"
  shows "oio_list (ac_next (s3_access env ex order core)) (s3l_holds pages l)"
proof
  fix es and li :: "s3_listers \<times> 'w s3_state"
  assume "s3l_holds pages l es li"
  then obtain ctx s where li: "li = (ListObjects l ctx, s)" "page_holds pages es (ctx, s)" by (auto simp: s3l_holds_def)
  from oio_list.next_cases [OF page_oio_list [OF assms] li(2)] obtain r ctx' s' where
    n: "page_next (\<lambda>ctx s. page_io (s3_next_page env core l ctx s)) (ctx, s) = Some (r, ctx', s')"
      "(r = Ok None \<and> es = [] \<and> page_holds pages [] (ctx', s'))
         \<or> (\<exists>e es'. es = e # es' \<and> r = Ok (Some e) \<and> page_holds pages es' (ctx', s'))
         \<or> (\<exists>err. r = Err err \<and> page_holds pages es (ctx', s'))" by auto
  have "ac_next (s3_access env ex order core) li = Some (r, ListObjects l ctx', s')"
    using n(1) by (simp add: li ac_next_def s3_access_def)
  then show "\<exists>r l'. ac_next (s3_access env ex order core) li = Some (r, l')
      \<and> ((r = Ok None \<and> es = [] \<and> s3l_holds pages l [] l')
         \<or> (\<exists>e es'. es = e # es' \<and> r = Ok (Some e) \<and> s3l_holds pages l es' l')
         \<or> (\<exists>err. r = Err err \<and> s3l_holds pages l es l'))"
    using n(2) by (auto simp: s3l_holds_def)
qed

subsection \<open>Properties\<close>


text \<open>A bucket with a directory and an object, on two pages.\<close>

definition page_one :: list_output where
  "page_one = \<lparr>lout_is_truncated = Some True, lout_next_continuation_token = Some ''t'', lout_common_prefixes = [''d/''], lout_contents = []\<rparr>"

definition page_two :: list_output where
  "page_two = \<lparr>lout_is_truncated = Some False, lout_next_continuation_token = None, lout_common_prefixes = [],
     lout_contents = [\<lparr>loc_key = ''f'', loc_size = 3, loc_last_modified = [], loc_etag = None\<rparr>]\<rparr>"

definition two_pages :: "string \<Rightarrow> list_output list" where
  "two_pages token = (if token = [] then [page_one, page_two] else if token = ''t'' then [page_two] else [])"

definition list_server :: "unit transport" where
  "list_server req w =
     (Inr \<lparr>rs_status = 200, rs_headers = [], rs_uri = None,
        rs_body = [Inr [if rq_uri req = ''https://e/b?list-type=2&delimiter=/'' then 1 else 2]]\<rparr>, w)"

definition list_env :: "(unit, unit) s3_env" where
  "list_env = (plain_env list_server)\<lparr>se_xml_list := \<lambda>b. Inr (if buf_bytes b = [1] then page_one else page_two)\<rparr>"

lemma list_env_simps [simp]:
  "se_encode list_env = pct_encode" "se_sign list_env c req = Inr req" "se_reqwest list_env = list_server" "se_rfc3339 list_env x = Inr 0"
  "se_xml_list list_env b = Inr (if buf_bytes b = [1] then page_one else page_two)"
  by (simp_all add: list_env_def plain_env_def)

lemma list_server_lists:
  "lists_pages list_env (s3_list_uri list_env plain_core
     \<lparr>s3l_path = slash, s3l_args = op_list_default, s3l_delimiter = slash, s3l_abs_start_after = None\<rparr> []) two_pages"
proof -
  let ?l = "\<lparr>s3l_path = slash, s3l_args = op_list_default, s3l_delimiter = slash, s3l_abs_start_after = None\<rparr>"
  have uri: "s3_list_uri list_env plain_core ?l [] token
      = ''https://e/b?list-type=2&delimiter=/'' @ (if token = [] then [] else ''&continuation-token='' @ s3_enc list_env token)" for token
    by (simp add: s3_list_uri_def slash_def op_list_default_def)
  have body: "buf_bytes (rs_body resp) = [if rq_uri req = ''https://e/b?list-type=2&delimiter=/'' then 1 else 2]"
    if "answered list_env req resp w w'" for req resp w w'
    using that by (auto simp: answered_def same_request_def list_server_def)
  show ?thesis unfolding lists_pages_def uri
    by (intro conjI allI impI) (auto dest!: body simp: two_pages_def page_one_def page_two_def split: if_splits)
qed



paragraph \<open>Corner cases\<close>

text \<open>
  When an object of a page cannot be read, for example its time, the error leaves the lister past that page: asked again it reports
  what it had pushed and goes on with the next page. The objects behind the broken one are never reported, and neither is an error again.
\<close>

lemma s3_list_broken_object_skips:
  assumes "s3_list_objects env core (s3l_path l) (pc_token ctx) (s3l_delimiter l) (lo_limit (s3l_args l))
      (if pc_token ctx = [] then s3l_abs_start_after l else None) s = (Ok resp, s')" "rs_status resp = 200"
    and "se_xml_list env (rs_body resp) = Inr out" "fst (push_each (prefix_entry (s3_root core)) (lout_common_prefixes out) ctx) = Ok ()"
    and "fst (push_each (object_entry env core) (lout_contents out) ctx) = Err e"
  shows "\<exists>ctx'. s3_next_page env core l ctx s = (Err e, ctx', s') \<and> pc_done ctx' = list_done out
    \<and> pc_token ctx' = (case lout_next_continuation_token out of Some t \<Rightarrow> t | None \<Rightarrow> [])"
proof -
  obtain r1 out1 where p: "push_each (prefix_entry (s3_root core)) (lout_common_prefixes out) c
      = (r1, c\<lparr>pc_entries := pc_entries c @ out1\<rparr>)" for c using push_each_frame by metis
  obtain r2 out2 where q: "push_each (object_entry env core) (lout_contents out) c
      = (r2, c\<lparr>pc_entries := pc_entries c @ out2\<rparr>)" for c using push_each_frame by metis
  show ?thesis using assms by (simp add: s3_next_page_def p q Let_def)
qed

text \<open>An object whose key begins with a slash is listed under a path that names another object.\<close>

lemma s3_leading_slash_key:
  "build_rel_path slash ''/f'' = Ok ''f'' \<and> build_abs_path slash ''f'' = Ok ''f''"
  by code_simp

text \<open>
  An answer to a listing of versions that does not say whether it is truncated never ends the listing, even if it is empty: with an
  empty page the lister asks again, with the markers of the answer.
\<close>

lemma s3_versions_untruncated:
  assumes "vout_is_truncated out = None" "vout_common_prefixes out = []" "vout_version out = []" "vout_delete_marker out = []"
    and "s3_list_object_versions env core (s3l_path l) (s3l_delimiter l) (lo_limit (s3l_args l)) key marker s = (Ok resp, s')"
    and "rs_status resp = 200" "se_xml_versions env (rs_body resp) = Inr out"
    and "(case rsplit_space (pc_token ctx) of Some data \<Rightarrow> data
          | None \<Rightarrow> (case s3l_abs_start_after l of Some start \<Rightarrow> (start, []) | None \<Rightarrow> ([], []))) = (key, marker)"
  shows "\<exists>ctx'. s3_next_versions_page env core l ctx s = (Ok (), ctx', s') \<and> \<not> pc_done ctx' \<and> pc_entries ctx' = pc_entries ctx"
  using assms by (simp add: s3_next_versions_page_def Let_def)


text \<open>
  A batch of deletions of versions. The service reports the deleted objects without their versions, so the deleter finds none of them among the
  requests it waits for: flushing returns success and a positive count, and keeps every request.
\<close>

lemma deleted_paths_default: "deleted_paths core ks = Ok rs \<Longrightarrow> (path, args) \<in> set rs \<Longrightarrow> args = od_default"
  by (induction ks arbitrary: rs) (auto simp: outcome_simps)

lemma s3_versioned_batch_stays:
  assumes "\<forall>(path, args) \<in> fset buf. od_version args \<noteq> None" "2 \<le> fcard buf"
    and "bd_flush order (s3_deleter env core) (buf, s) = (Ok n, buf', s')"
  shows "buf' = buf \<and> 0 < n"
proof -
  obtain res where res: "s3_delete_batch env core (order buf) s = (Ok res, s')" "br_succeeded res \<noteq> []"
    "buf' = buf |-| fset_of_list (br_succeeded res)" "n = length (br_succeeded res)"
    using assms(2,3) by (auto simp: bd_flush_def fcard_fempty s3_deleter_def io_of_Inr Let_def split: if_splits prod.splits sum.splits option.splits list.splits)
  obtain ks where "deleted_paths core ks = Ok (br_succeeded res)"
    using res(1) by (auto simp: s3_delete_batch_def step_Ok_iff outcome_simps split: if_splits sum.splits list.splits)
  then have "args = od_default" if "(path, args) \<in> set (br_succeeded res)" for path args
    using deleted_paths_default that by blast
  then have "r \<notin> set (br_succeeded res)" if "r |\<in>| buf" for r
    using assms(1) that by (cases r) (fastforce simp: od_default_def)
  then have "buf |-| fset_of_list (br_succeeded res) = buf" by (auto simp: fset_of_list.rep_eq)
  with res show ?thesis by simp
qed

end
