(* ===== verification/S3Config.thy ===== *)
theory S3Config
  imports S3
begin

text \<open>
  The builder of the S3 service, from \<^verbatim>\<open>services/s3/config.rs\<close> and \<^verbatim>\<open>services/s3/backend.rs\<close>: the configuration, the
  endpoint of a bucket, the detection of its region, building the service, and presigned requests. The crates \<open>url\<close> (how a URL is printed), \<open>http\<close> (which
  texts are header values) and \<open>reqsign\<close> (what a profile and the environment configure, and its loaders) are parameters.
\<close>

subsection \<open>The configuration\<close>

record s3_config =
  c3_root :: "string option"
  c3_bucket :: string
  c3_enable_versioning :: bool
  c3_endpoint :: "string option"
  c3_region :: "string option"
  c3_access_key_id :: "string option"
  c3_secret_access_key :: "string option"
  c3_session_token :: "string option"
  c3_role_arn :: "string option"
  c3_external_id :: "string option"
  c3_role_session_name :: "string option"
  c3_disable_config_load :: bool
  c3_disable_ec2_metadata :: bool
  c3_allow_anonymous :: bool
  c3_sse :: "string option"
  c3_sse_aws_kms_key_id :: "string option"
  c3_sse_customer_algorithm :: "string option"
  c3_sse_customer_key :: "string option"
  c3_sse_customer_key_md5 :: "string option"
  c3_default_storage_class :: "string option"
  c3_enable_virtual_host_style :: bool
  c3_batch_max_operations :: "nat option"
  c3_delete_max_size :: "nat option"
  c3_disable_stat_with_override :: bool
  c3_checksum_algorithm :: "string option"
  c3_disable_write_with_if_match :: bool

definition s3_config_default :: s3_config where
  "s3_config_default =
     \<lparr>c3_root = None, c3_bucket = [], c3_enable_versioning = False, c3_endpoint = None, c3_region = None, c3_access_key_id = None,
      c3_secret_access_key = None, c3_session_token = None, c3_role_arn = None, c3_external_id = None, c3_role_session_name = None,
      c3_disable_config_load = False, c3_disable_ec2_metadata = False, c3_allow_anonymous = False, c3_sse = None, c3_sse_aws_kms_key_id = None,
      c3_sse_customer_algorithm = None, c3_sse_customer_key = None, c3_sse_customer_key_md5 = None, c3_default_storage_class = None,
      c3_enable_virtual_host_style = False, c3_batch_max_operations = None, c3_delete_max_size = None, c3_disable_stat_with_override = False,
      c3_checksum_algorithm = None, c3_disable_write_with_if_match = False\<rparr>"

definition trim_end_char :: "char \<Rightarrow> string \<Rightarrow> string" where
  "trim_end_char c s = rev (dropWhile (\<lambda>x. x = c) (rev s))"

definition cb_root :: "string \<Rightarrow> s3_config \<Rightarrow> s3_config" where
  "cb_root root cfg = cfg\<lparr>c3_root := (if root = [] then None else Some root)\<rparr>"

definition cb_bucket :: "string \<Rightarrow> s3_config \<Rightarrow> s3_config" where
  "cb_bucket bucket cfg = cfg\<lparr>c3_bucket := bucket\<rparr>"

definition cb_endpoint :: "string \<Rightarrow> s3_config \<Rightarrow> s3_config" where
  "cb_endpoint endpoint cfg = (if endpoint \<noteq> [] then cfg\<lparr>c3_endpoint := Some (trim_end_char CHR ''/'' endpoint)\<rparr> else cfg)"

text \<open>The other texts of the configuration: an empty one leaves the field alone.\<close>

definition cb_text :: "(string option \<Rightarrow> s3_config \<Rightarrow> s3_config) \<Rightarrow> string \<Rightarrow> s3_config \<Rightarrow> s3_config" where
  "cb_text set_field v cfg = (if v \<noteq> [] then set_field (Some v) cfg else cfg)"

definition cb_sse_managed_kms :: "s3_config \<Rightarrow> s3_config" where
  "cb_sse_managed_kms cfg = cfg\<lparr>c3_sse := Some ''aws:kms''\<rparr>"

definition cb_sse_customer_kms :: "string \<Rightarrow> s3_config \<Rightarrow> s3_config" where
  "cb_sse_customer_kms key_id cfg = cfg\<lparr>c3_sse := Some ''aws:kms'', c3_sse_aws_kms_key_id := Some key_id\<rparr>"

definition cb_sse_s3_key :: "s3_config \<Rightarrow> s3_config" where
  "cb_sse_s3_key cfg = cfg\<lparr>c3_sse := Some ''AES256''\<rparr>"

definition cb_sse_customer_key ::
  "(bytes \<Rightarrow> string) \<Rightarrow> (bytes \<Rightarrow> bytes) \<Rightarrow> string \<Rightarrow> bytes \<Rightarrow> s3_config \<Rightarrow> s3_config" where
  "cb_sse_customer_key base64 md5 algorithm key cfg =
     cfg\<lparr>c3_sse_customer_algorithm := Some algorithm, c3_sse_customer_key := Some (base64 key),
         c3_sse_customer_key_md5 := Some (base64 (md5 key))\<rparr>"

definition cb_delete_max_size :: "nat \<Rightarrow> s3_config \<Rightarrow> s3_config" where
  "cb_delete_max_size n cfg = cfg\<lparr>c3_delete_max_size := Some n\<rparr>"

subsection \<open>The endpoint\<close>

definition is_bucket_valid :: "s3_config \<Rightarrow> bool" where
  "is_bucket_valid cfg =
     (c3_bucket cfg \<noteq> [] \<and> \<not> (c3_enable_virtual_host_style cfg \<and> CHR ''.'' \<in> set (c3_bucket cfg)))"

text \<open>\<open>str::replace\<close>: all occurrences, from the left.\<close>

definition replace_str :: "string \<Rightarrow> string \<Rightarrow> string \<Rightarrow> string" where
  "replace_str p r s = join_with r (split_str p s)"

definition endpoint_templates :: "string \<rightharpoonup> string" where
  "endpoint_templates = [''https://s3.amazonaws.com'' \<mapsto> ''https://s3.{region}.amazonaws.com'']"

definition with_scheme :: "string \<Rightarrow> string" where
  "with_scheme endpoint = (if starts_with endpoint ''http'' then endpoint else ''https://'' @ endpoint)"

definition build_endpoint :: "(string \<Rightarrow> string option) \<Rightarrow> s3_config \<Rightarrow> string \<Rightarrow> string res" where
  "build_endpoint url cfg region =
     guard (is_bucket_valid cfg)
       (let bucket = c3_bucket cfg;
            endpoint = (case c3_endpoint cfg of Some endpoint \<Rightarrow> with_scheme endpoint | None \<Rightarrow> ''https://s3.amazonaws.com'');
            endpoint = replace_str (''//'' @ bucket @ ''.'') ''//'' endpoint;
            endpoint = (case url endpoint of Some text \<Rightarrow> trim_end_char CHR ''/'' text | None \<Rightarrow> endpoint);
            endpoint = (case endpoint_templates endpoint of
                Some template \<Rightarrow> replace_str ''{region}'' region template | None \<Rightarrow> endpoint)
        in Ok (if c3_enable_virtual_host_style cfg then replace_str ''//'' (''//'' @ bucket @ ''.'') endpoint
               else endpoint @ slash @ bucket))"

definition strip_suffix :: "string \<Rightarrow> string \<Rightarrow> string option" where
  "strip_suffix s p = map_option rev (strip_prefix (rev s) (rev p))"

subsection \<open>The region\<close>

definition region_of_endpoint :: "string \<Rightarrow> string option" where
  "region_of_endpoint endpoint =
     (if strip_suffix endpoint ''r2.cloudflarestorage.com'' \<noteq> None then Some ''auto''
      else case Option.bind (strip_prefix endpoint ''https://s3.'') (\<lambda>v. strip_suffix v ''.amazonaws.com'') of
        Some region \<Rightarrow> Some region
      | None \<Rightarrow>
          (case strip_prefix endpoint ''https://'' of
             Some v \<Rightarrow> (case strip_suffix v ''.aliyuncs.com'' of
                 Some region \<Rightarrow> Some region
               | None \<Rightarrow> strip_suffix v ''-internal.aliyuncs.com'')
           | None \<Rightarrow> None))"

definition detect_region ::
  "(http_request \<Rightarrow> string option) \<Rightarrow> (string \<Rightarrow> bool) \<Rightarrow> 'w transport \<Rightarrow> string \<Rightarrow> string \<Rightarrow> 'w \<Rightarrow> string option res \<times> 'w" where
  "detect_region builder url_ok reqwest endpoint bucket w =
     (let endpoint = replace_str (''//'' @ bucket @ ''.'') ''//'' (with_scheme (trim_end_char CHR ''/'' endpoint));
          req = \<lparr>rq_method = HEAD, rq_uri = endpoint @ slash @ bucket, rq_headers = [], rq_body = buf_new\<rparr>
      in case region_of_endpoint endpoint of
          Some region \<Rightarrow> (Ok (Some region), w)
        | None \<Rightarrow>
            (if builder req \<noteq> None then (Ok None, w)
             else case http_send url_ok reqwest req w of
                 (Panic, w') \<Rightarrow> (Panic, w')
               | (Err e, w') \<Rightarrow> (Ok None, w')
               | (Ok res, w') \<Rightarrow>
                   (case map_of (rs_headers res) ''x-amz-bucket-region'' of
                      Some (HeaderText region) \<Rightarrow> (Ok (Some region), w')
                    | _ \<Rightarrow> (Ok (if rs_status res \<in> {403, 200} then Some ''us-east-1'' else None), w'))))"

subsection \<open>Building the service\<close>

text \<open>
  \<open>sb_profile\<close> is the region and the endpoint that the profile and the environment give, \<open>sb_assume_role\<close> the failure of the loader
  of a role.
\<close>

record s3_build_env =
  sb_header_value :: "string \<Rightarrow> string option"
  sb_url :: "string \<Rightarrow> string option"
  sb_profile :: "string option \<times> string option"
  sb_debug :: "string option \<Rightarrow> string"
  sb_assume_role :: "string \<Rightarrow> string \<Rightarrow> string option \<Rightarrow> string option \<Rightarrow> string option"

datatype credential_loader =
    CustomizedLoad
  | AssumeRoleLoad string string "string option" "string option"
  | DefaultLoad bool

definition build_header_value :: "(string \<Rightarrow> string option) \<Rightarrow> string \<Rightarrow> string res" where
  "build_header_value from_str v =
     (case from_str v of
        None \<Rightarrow> Ok v
      | Some e \<Rightarrow> source_err e (with_operation ''http_util::build_header_value''
          (new_error ConfigInvalid ''header value contains invalid characters'')))"

definition header_field :: "s3_build_env \<Rightarrow> string \<Rightarrow> string option \<Rightarrow> string option res" where
  "header_field env key v =
     (case v of
        None \<Rightarrow> Ok None
      | Some v \<Rightarrow> (case build_header_value (sb_header_value env) v of
          Ok h \<Rightarrow> Ok (Some h) | Err e \<Rightarrow> Err (with_context ''key'' key e) | Panic \<Rightarrow> Panic))"

definition checksum_field :: "s3_build_env \<Rightarrow> string option \<Rightarrow> checksum_algorithm option res" where
  "checksum_field env v =
     (if v = Some ''crc32c'' then Ok (Some Crc32c)
      else if v = None then Ok None
      else Err (new_error ConfigInvalid (sb_debug env v @ '' is not a supported checksum_algorithm.'')))"

definition region_missing :: error where
  "region_missing = with_context ''service'' ''s3'' (with_operation ''Builder::build''
     (new_error ConfigInvalid ''region is missing. Please find it by S3::detect_region() or set them in env.''))"

definition build_loader :: "s3_build_env \<Rightarrow> bool \<Rightarrow> s3_config \<Rightarrow> string \<Rightarrow> credential_loader res" where
  "build_loader env customized cfg region =
     (case c3_role_arn cfg of
        Some role_arn \<Rightarrow>
          (case sb_assume_role env region role_arn (c3_external_id cfg) (c3_role_session_name cfg) of
             None \<Rightarrow> Ok (AssumeRoleLoad region role_arn (c3_external_id cfg) (c3_role_session_name cfg))
           | Some e \<Rightarrow> source_err e (with_context ''service'' ''s3'' (new_error ConfigInvalid ''The assume_role_loader is misconfigured'')))
      | None \<Rightarrow> Ok (if customized then CustomizedLoad else DefaultLoad (c3_disable_ec2_metadata cfg)))"

definition s3_build_service :: "s3_build_env \<Rightarrow> bool \<Rightarrow> s3_config \<Rightarrow> (s3_core \<times> credential_loader \<times> string) res" where
  "s3_build_service env customized cfg =
     (let root = normalize_root (case c3_root cfg of Some r \<Rightarrow> r | None \<Rightarrow> []) in
      if \<not> is_bucket_valid cfg then Err (with_context ''service'' ''s3'' (new_error ConfigInvalid ''The bucket is misconfigured''))
      else
      and_then (header_field env ''storage_class'' (c3_default_storage_class cfg)) (\<lambda>storage_class.
      and_then (header_field env ''server_side_encryption'' (c3_sse cfg)) (\<lambda>sse.
      and_then (header_field env ''server_side_encryption_aws_kms_key_id'' (c3_sse_aws_kms_key_id cfg)) (\<lambda>kms.
      and_then (header_field env ''server_side_encryption_customer_algorithm'' (c3_sse_customer_algorithm cfg)) (\<lambda>algorithm.
      and_then (header_field env ''server_side_encryption_customer_key'' (c3_sse_customer_key cfg)) (\<lambda>key.
      and_then (header_field env ''server_side_encryption_customer_key_md5'' (c3_sse_customer_key_md5 cfg)) (\<lambda>md5.
      and_then (checksum_field env (c3_checksum_algorithm cfg)) (\<lambda>checksum.
      let (profile_region, profile_endpoint) = (if c3_disable_config_load cfg then (None, None) else sb_profile env) in
      case (case c3_region cfg of Some v \<Rightarrow> Some v | None \<Rightarrow> profile_region) of
        None \<Rightarrow> Err region_missing
      | Some region \<Rightarrow>
          let cfg = cfg\<lparr>c3_endpoint := (case c3_endpoint cfg of Some e \<Rightarrow> Some e | None \<Rightarrow> profile_endpoint)\<rparr> in
          and_then (build_endpoint (sb_url env) cfg region) (\<lambda>endpoint.
          and_then (build_loader env customized cfg region) (\<lambda>loader.
            Ok (\<lparr>s3_bucket = c3_bucket cfg, s3_endpoint = endpoint, s3_root = root, s3_sse = sse, s3_sse_aws_kms_key_id = kms,
                 s3_sse_customer_algorithm = algorithm, s3_sse_customer_key = key, s3_sse_customer_key_md5 = md5,
                 s3_default_storage_class = storage_class, s3_allow_anonymous = c3_allow_anonymous cfg,
                 s3_disable_stat_with_override = c3_disable_stat_with_override cfg, s3_enable_versioning = c3_enable_versioning cfg,
                 s3_delete_max_size = (case c3_delete_max_size cfg of Some n \<Rightarrow> n | None \<Rightarrow> 1000),
                 s3_checksum_algorithm = checksum, s3_disable_write_with_if_match = c3_disable_write_with_if_match cfg\<rparr>,
                loader, region)))))))))))"

subsection \<open>Presigned requests\<close>

datatype presign_operation = PresignStat op_stat | PresignRead op_read | PresignWrite op_write

text \<open>\<open>sign_query\<close> is the query signer of the crate.\<close>

definition s3_sign_query ::
  "('c, 'w) s3_env \<Rightarrow> ('c \<Rightarrow> nat \<Rightarrow> http_request \<Rightarrow> string + http_request) \<Rightarrow> s3_core \<Rightarrow> nat \<Rightarrow> http_request \<Rightarrow> 'w s3_state
     \<Rightarrow> http_request res \<times> 'w s3_state" where
  "s3_sign_query env sign_query core expire req s =
     step (s3_load_credential env core s) (\<lambda>cred s.
       case cred of
         None \<Rightarrow> (Ok req, s)
       | Some c \<Rightarrow>
           (case sign_query c expire req of
              Inl e \<Rightarrow> (and_then (new_request_sign_error e) Err, s)
            | Inr req' \<Rightarrow> (Ok (req'\<lparr>rq_headers := filter (\<lambda>(k, v). k \<noteq> ''host'') (rq_headers req')\<rparr>), s)))"

definition s3_presign ::
  "('c, 'w) s3_env \<Rightarrow> ('c \<Rightarrow> nat \<Rightarrow> http_request \<Rightarrow> string + http_request) \<Rightarrow> s3_core \<Rightarrow> string \<Rightarrow> nat \<Rightarrow> presign_operation \<Rightarrow> 'w s3_state
     \<Rightarrow> (http_method \<times> string \<times> (string \<times> string) list) res \<times> 'w s3_state" where
  "s3_presign env sign_query core path expire operation s =
     step (case operation of
             PresignStat v \<Rightarrow> s3_head_object_request env core path v
           | PresignRead v \<Rightarrow> s3_get_object_request env core path (BytesRange 0 None) v
           | PresignWrite _ \<Rightarrow> s3_put_object_request env core path None op_write_default buf_new, s) (\<lambda>req s.
       step (s3_sign_query env sign_query core expire req s) (\<lambda>req s. (Ok (rq_method req, rq_uri req, rq_headers req), s)))"

subsection \<open>Endpoints and their spellings\<close>

lemma slashes_in_url:
  assumes "CHR ''/'' \<notin> set x"
  shows "contains_str (''https://'' @ x) (''//'' @ p) \<longleftrightarrow> (\<exists>r. x = p @ r)"
proof -
  have "contains_str (''https://'' @ x) (''//'' @ p) \<longleftrightarrow> contains_str (''//'' @ x) (''//'' @ p)"
    using contains_skip [of "CHR ''/''" "''https:''" "''//'' @ x" "CHR ''/'' # p"] by simp
  also have "\<dots> \<longleftrightarrow> (\<exists>r. x = p @ r)"
  proof
    assume "contains_str (''//'' @ x) (''//'' @ p)"
    then obtain u v where uv: "''//'' @ x = u @ ''//'' @ p @ v" by (auto simp: contains_str_def)
    have "u = []"
    proof (rule ccontr)
      assume "u \<noteq> []"
      with uv obtain u' where "CHR ''/'' # x = u' @ ''//'' @ p @ v" by (cases u) auto
      then show False using assms by (cases u') auto
    qed
    with uv show "\<exists>r. x = p @ r" by simp
  qed (auto simp: contains_str_def intro: exI [of _ "[]"])
  finally show ?thesis .
qed

lemma replace_bucket:
  assumes "CHR ''/'' \<notin> set x"
  shows "(\<forall>r. x \<noteq> p @ r) \<Longrightarrow> replace_str (''//'' @ p) q (''https://'' @ x) = ''https://'' @ x"
    and "x = p @ r \<Longrightarrow> replace_str (''//'' @ p) q (''https://'' @ x) = ''https:'' @ q @ r"
proof -
  show "replace_str (''//'' @ p) q (''https://'' @ x) = ''https://'' @ x" if "\<forall>r. x \<noteq> p @ r"
    using slashes_in_url [OF assms, of p] that split_str_no [of "''https://'' @ x" "''//'' @ p"] by (simp add: replace_str_def)
  show "replace_str (''//'' @ p) q (''https://'' @ x) = ''https:'' @ q @ r" if "x = p @ r"
  proof -
    have r: "\<not> contains_str r (CHR ''/'' # ''/'' @ p)"
      using assms that by (force simp: contains_str_def)
    have "split_once (CHR ''/'' # ''/'' @ p) (''https:'' @ (CHR ''/'' # ''/'' @ p) @ r) = Some (''https:'', r)"
      by (rule split_once_first) simp
    then have "split_str (''//'' @ p) (''https://'' @ x) = ''https:'' # split_str (''//'' @ p) r"
      using that by (simp add: split_str.simps [of "CHR ''/'' # CHR ''/'' # p"])
    with split_str_no [OF r] show ?thesis by (simp add: replace_str_def)
  qed
qed

lemma trim_end_snoc: "trim_end_char c (s @ replicate n c) = trim_end_char c s"
proof -
  have "dropWhile (\<lambda>x. x = c) (replicate n c @ xs) = dropWhile (\<lambda>x. x = c) xs" for xs by (induction n) simp_all
  then show ?thesis by (simp add: trim_end_char_def)
qed

lemma trim_end_id: "s = [] \<or> last s \<noteq> c \<Longrightarrow> trim_end_char c s = s"
  by (cases s rule: rev_cases) (simp_all add: trim_end_char_def)

text \<open>The host of a bucket: the global host of the service stands for the host of the region.\<close>

definition region_host :: "string \<Rightarrow> string \<Rightarrow> string" where
  "region_host host region = (if host = ''s3.amazonaws.com'' then ''s3.'' @ region @ ''.amazonaws.com'' else host)"

definition bucket_endpoint :: "s3_config \<Rightarrow> string \<Rightarrow> string \<Rightarrow> string" where
  "bucket_endpoint cfg host region =
     (if c3_enable_virtual_host_style cfg then ''https://'' @ c3_bucket cfg @ ''.'' @ region_host host region
      else ''https://'' @ region_host host region @ slash @ c3_bucket cfg)"

lemma template_region: "replace_str ''{region}'' region ''https://s3.{region}.amazonaws.com'' = ''https://s3.'' @ region @ ''.amazonaws.com''"
proof -
  have "split_str ''{region}'' ''https://s3.{region}.amazonaws.com'' = [''https://s3.'', ''.amazonaws.com'']" by code_simp
  then show ?thesis by (simp add: replace_str_def)
qed

lemma build_endpoint_host:
  assumes "is_bucket_valid cfg" "CHR ''/'' \<notin> set host" "host \<noteq> []" "CHR ''/'' \<notin> set region" "CHR ''/'' \<notin> set (c3_bucket cfg)"
    and "url (''https://'' @ host) = Some (''https://'' @ host @ ''/'')" "\<forall>r. host \<noteq> c3_bucket cfg @ ''.'' @ r"
    and "(case c3_endpoint cfg of Some e \<Rightarrow> with_scheme e | None \<Rightarrow> ''https://s3.amazonaws.com'') = ''https://'' @ label @ host"
    and "label \<in> {[], c3_bucket cfg @ ''.''}"
  shows "build_endpoint url cfg region = Ok (bucket_endpoint cfg host region)"
proof -
  let ?p = "c3_bucket cfg @ ''.''"
  have e1: "replace_str (''//'' @ c3_bucket cfg @ ''.'') ''//'' (''https://'' @ label @ host) = ''https://'' @ host"
    using replace_bucket(1) [of host ?p "''//''"] replace_bucket(2) [of "?p @ host" ?p host "''//''"] assms(2,5,7,9) by auto
  have "trim_end_char CHR ''/'' (''https://'' @ host @ ''/'') = ''https://'' @ host"
    using trim_end_snoc [of "CHR ''/''" "''https://'' @ host" 1] assms(2,3) trim_end_id [of "''https://'' @ host" "CHR ''/''"]
    by (metis One_nat_def append_assoc append_is_Nil_conv last_appendR last_in_set replicate_0 replicate_Suc)
  then have e2: "(case url (''https://'' @ host) of Some text \<Rightarrow> trim_end_char CHR ''/'' text | None \<Rightarrow> ''https://'' @ host) = ''https://'' @ host"
    unfolding assms(6) by simp
  have e3: "(case endpoint_templates (''https://'' @ host) of
      Some template \<Rightarrow> replace_str ''{region}'' region template | None \<Rightarrow> ''https://'' @ host) = ''https://'' @ region_host host region"
    using template_region [of region] by (simp add: endpoint_templates_def region_host_def)
  have "CHR ''/'' \<notin> set (region_host host region)" using assms(2,4) by (simp add: region_host_def)
  then have "replace_str ''//'' (''//'' @ c3_bucket cfg @ ''.'') (''https://'' @ region_host host region)
      = ''https://'' @ c3_bucket cfg @ ''.'' @ region_host host region"
    using replace_bucket(2) [of "region_host host region" "[]" "region_host host region"] by simp
  with assms(1) show ?thesis
    unfolding build_endpoint_def Let_def assms(8) e1 e2 e3 by (simp add: guard_def bucket_endpoint_def)
qed

subsection \<open>Properties\<close>

text \<open>
  The endpoint of a bucket does not depend on how the user spells it: with or without the scheme, with or without the bucket as
  the first label of the host, with any number of trailing slashes. The global host of the service becomes the host of the region, and the
  bucket goes to the front of the host or to the path, as configured. The host must not itself begin with the name of the bucket and a
  dot, and without a scheme the text must not begin with \<open>http\<close>.
\<close>

theorem endpoint_spellings:
  assumes "is_bucket_valid cfg" "CHR ''/'' \<notin> set host" "host \<noteq> []" "CHR ''/'' \<notin> set region" "CHR ''/'' \<notin> set (c3_bucket cfg)"
    and "url (''https://'' @ host) = Some (''https://'' @ host @ ''/'')" "\<forall>r. host \<noteq> c3_bucket cfg @ ''.'' @ r"
    and "label \<in> {[], c3_bucket cfg @ ''.''}" "scheme \<in> {[], ''https://''}" "scheme = [] \<longrightarrow> \<not> starts_with (label @ host) ''http''"
  shows "build_endpoint url (cb_endpoint (scheme @ label @ host @ replicate n CHR ''/'') cfg) region = Ok (bucket_endpoint cfg host region)"
proof -
  let ?ep = "scheme @ label @ host"
  have "last ?ep \<noteq> CHR ''/''" using assms(2,3) by (metis append_is_Nil_conv last_appendR last_in_set)
  then have trim: "trim_end_char CHR ''/'' (?ep @ replicate n CHR ''/'') = ?ep"
    unfolding trim_end_snoc by (intro trim_end_id disjI2)
  define cfg' where "cfg' = cb_endpoint (?ep @ replicate n CHR ''/'') cfg"
  have ep: "c3_endpoint cfg' = Some ?ep" using trim assms(3) by (simp add: cfg'_def cb_endpoint_def)
  have rest: "c3_bucket cfg' = c3_bucket cfg" "is_bucket_valid cfg' = is_bucket_valid cfg" "bucket_endpoint cfg' = bucket_endpoint cfg"
    by (simp_all add: cfg'_def cb_endpoint_def is_bucket_valid_def bucket_endpoint_def fun_eq_iff)
  have "with_scheme ?ep = ''https://'' @ label @ host"
    using assms(9,10) by (auto simp: with_scheme_def starts_with_def)
  then have "build_endpoint url cfg' region = Ok (bucket_endpoint cfg' host region)"
    using assms(1-8) by (intro build_endpoint_host) (simp_all add: rest ep)
  then show ?thesis unfolding rest(3) by (simp add: cfg'_def)
qed

theorem endpoint_spellings_witness:
  "build_endpoint (\<lambda>u. Some (u @ ''/'')) (cb_endpoint ''data.s3.amazonaws.com//'' (s3_config_default\<lparr>c3_bucket := ''data''\<rparr>)) ''us-east-2''
     = Ok ''https://s3.us-east-2.amazonaws.com/data''"
  using endpoint_spellings [of "s3_config_default\<lparr>c3_bucket := ''data''\<rparr>" "''s3.amazonaws.com''" "''us-east-2''" "\<lambda>u. Some (u @ ''/'')"
      "''data.''" "[]" 2]
  by (simp add: is_bucket_valid_def s3_config_default_def bucket_endpoint_def region_host_def slash_def starts_with_def numeral_2_eq_2)

lemma strip_suffix_append [simp]: "strip_suffix (s @ p) p = Some s"
  by (simp add: strip_suffix_def)

text \<open>
  Region detection undoes the endpoint of a region: for a bucket in the host, detecting the region of the endpoint that was built for a region of the
  global service finds that region, and sends no request.
\<close>

theorem region_roundtrip:
  assumes "is_bucket_valid cfg" "c3_enable_virtual_host_style cfg" "c3_endpoint cfg = None"
    and "CHR ''/'' \<notin> set region" "CHR ''/'' \<notin> set (c3_bucket cfg)" "c3_bucket cfg \<noteq> ''s3''"
    and "url ''https://s3.amazonaws.com'' = Some ''https://s3.amazonaws.com/''"
  shows "\<exists>endpoint. build_endpoint url cfg region = Ok endpoint
    \<and> detect_region builder url_ok reqwest endpoint (c3_bucket cfg) w = (Ok (Some region), w)"
proof -
  let ?b = "c3_bucket cfg" and ?h = "''s3.'' @ region @ ''.amazonaws.com''"
  have dot: "CHR ''.'' \<notin> set ?b" using assms(1,2) by (simp add: is_bucket_valid_def)
  have "\<forall>r. ''s3.amazonaws.com'' \<noteq> ?b @ ''.'' @ r"
  proof (intro allI notI)
    fix r assume "''s3.amazonaws.com'' = ?b @ ''.'' @ r"
    then have "takeWhile (\<lambda>c. c \<noteq> CHR ''.'') ''s3.amazonaws.com'' = takeWhile (\<lambda>c. c \<noteq> CHR ''.'') (?b @ ''.'' @ r)" by simp
    moreover have "takeWhile (\<lambda>c. c \<noteq> CHR ''.'') (?b @ ''.'' @ r) = ?b"
      using dot by (subst takeWhile_append2) auto
    ultimately show False using assms(6) by simp
  qed
  then have be: "build_endpoint url cfg region = Ok (''https://'' @ ?b @ ''.'' @ ?h)"
    using build_endpoint_host [of cfg "''s3.amazonaws.com''" region url "[]"] assms by (simp add: bucket_endpoint_def region_host_def)
  let ?e = "''https://'' @ ?b @ ''.'' @ ?h"
  have trim: "trim_end_char CHR ''/'' ?e = ?e" by (rule trim_end_id) simp
  have sch: "with_scheme ?e = ?e" by (simp add: with_scheme_def starts_with_def)
  have "replace_str (''//'' @ ?b @ ''.'') ''//'' ?e = ''https://'' @ ?h"
    using replace_bucket(2) [of "?b @ ''.'' @ ?h" "?b @ ''.''" ?h "''//''"] assms(4,5) by simp
  moreover have "region_of_endpoint (''https://'' @ ?h) = Some region"
  proof -
    have "strip_suffix (''https://'' @ ?h) ''r2.cloudflarestorage.com'' = None"
      by (simp add: strip_suffix_def strip_prefix_def starts_with_def)
    moreover have "strip_prefix (''https://'' @ ?h) ''https://s3.'' = Some (region @ ''.amazonaws.com'')"
      by (simp add: strip_prefix_def starts_with_def)
    ultimately show ?thesis by (simp only: region_of_endpoint_def strip_suffix_append) simp
  qed
  ultimately have "detect_region builder url_ok reqwest ?e ?b w = (Ok (Some region), w)"
    unfolding detect_region_def Let_def trim sch by simp
  with be show ?thesis by blast
qed

theorem region_roundtrip_witness:
  "\<exists>endpoint. build_endpoint (\<lambda>u. Some (u @ ''/'')) (s3_config_default\<lparr>c3_bucket := ''data'', c3_enable_virtual_host_style := True\<rparr>) ''us-east-2'' = Ok endpoint
    \<and> detect_region (\<lambda>req. None) (\<lambda>u. True) (\<lambda>req w. (Inl \<lparr>re_is_request = True, re_is_body = False, re_is_decode = False, re_text = []\<rparr>, w)) endpoint ''data'' ()
      = (Ok (Some ''us-east-2''), ())"
  using region_roundtrip [of "s3_config_default\<lparr>c3_bucket := ''data'', c3_enable_virtual_host_style := True\<rparr>" "''us-east-2''"
      "\<lambda>u. Some (u @ ''/'')" "\<lambda>req. None" "\<lambda>u. True"
      "\<lambda>req w. (Inl \<lparr>re_is_request = True, re_is_body = False, re_is_decode = False, re_text = []\<rparr>, w)" "()"]
  by (simp add: is_bucket_valid_def s3_config_default_def)

text \<open>Steps of the builder: none panics, and a failure is one of the configuration.\<close>

definition config_result :: "('a \<Rightarrow> bool) \<Rightarrow> 'a res \<Rightarrow> bool" where
  "config_result P r = (case r of Ok x \<Rightarrow> P x | Err e \<Rightarrow> err_kind e = ConfigInvalid | Panic \<Rightarrow> False)"

lemma config_result_simps [simp]:
  "config_result P (Ok x) = P x" "config_result P (Err e) = (err_kind e = ConfigInvalid)" "\<not> config_result P Panic"
  by (simp_all add: config_result_def)

lemma config_then: "config_result Q r \<Longrightarrow> (\<And>x. Q x \<Longrightarrow> config_result P (f x)) \<Longrightarrow> config_result P (and_then r f)"
  by (cases r) auto

lemma config_source: "err_kind e = ConfigInvalid \<Longrightarrow> err_source e = None \<Longrightarrow> config_result P (source_err src e)"
  by (simp add: source_err_def set_source_def guard_def)

lemma config_header: "config_result (\<lambda>x. True) (header_field env key v)"
proof -
  have "build_header_value f v \<noteq> Panic \<and> (\<forall>e. build_header_value f v = Err e \<longrightarrow> err_kind e = ConfigInvalid)" for f v
    by (auto simp: build_header_value_def source_err_def error_defs guard_def split: option.splits)
  from this [of "sb_header_value env"] show ?thesis
    by (cases v) (auto simp: header_field_def with_context_def split: outcome.splits)
qed

lemma config_checksum: "config_result (\<lambda>x. True) (checksum_field env v)"
  by (simp add: checksum_field_def error_defs)

lemma config_loader:
  "config_result (\<lambda>loader. case loader of
      AssumeRoleLoad r role ext session \<Rightarrow> r = region \<and> c3_role_arn cfg = Some role
    | CustomizedLoad \<Rightarrow> c3_role_arn cfg = None \<and> customized
    | DefaultLoad ec2 \<Rightarrow> c3_role_arn cfg = None \<and> \<not> customized \<and> ec2 = c3_disable_ec2_metadata cfg) (build_loader env customized cfg region)"
  by (auto simp: build_loader_def error_defs intro!: config_source split: option.splits)

lemma config_endpoint: "is_bucket_valid cfg \<Longrightarrow> config_result (\<lambda>x. True) (build_endpoint url cfg region)"
  by (simp add: build_endpoint_def guard_def Let_def)



paragraph \<open>Corner cases\<close>

text \<open>
  The rule for internal endpoints of OSS is never reached: the rule for its public endpoints matches them first and keeps the suffix in
  the region.
\<close>

lemma region_keeps_internal: "region_of_endpoint (''https://'' @ r @ ''-internal.aliyuncs.com'') = Some (r @ ''-internal'')"
proof -
  let ?e = "''https://'' @ r @ ''-internal.aliyuncs.com''"
  have "strip_suffix ?e ''r2.cloudflarestorage.com'' = None"
    by (simp add: strip_suffix_def strip_prefix_def starts_with_def)
  moreover have "Option.bind (strip_prefix ?e ''https://s3.'') (\<lambda>v. strip_suffix v ''.amazonaws.com'') = None"
  proof (cases "strip_prefix ?e ''https://s3.''")
    case (Some v)
    then have "?e = ''https://s3.'' @ v" by (simp only: strip_prefix_Some)
    then have v: "r @ ''-internal.aliyuncs.com'' = ''s3.'' @ v" by simp
    have "strip_suffix v ''.amazonaws.com'' = None"
    proof (rule ccontr)
      assume "strip_suffix v ''.amazonaws.com'' \<noteq> None"
      then obtain x where "rev v = rev ''.amazonaws.com'' @ x" by (auto simp: strip_suffix_def strip_prefix_Some)
      then have "rev (r @ ''-internal.aliyuncs.com'') = rev ''.amazonaws.com'' @ x @ rev ''s3.''" unfolding v by simp
      then show False by simp
    qed
    with Some show ?thesis by simp
  qed simp
  moreover have "strip_prefix ?e ''https://'' = Some (r @ ''-internal.aliyuncs.com'')"
    "strip_suffix (r @ ''-internal.aliyuncs.com'') ''.aliyuncs.com'' = Some (r @ ''-internal'')"
    using strip_suffix_append [of "r @ ''-internal''" "''.aliyuncs.com''"] by (simp_all add: strip_prefix_def starts_with_def)
  ultimately show ?thesis by (simp add: region_of_endpoint_def)
qed

text \<open>A host that begins with the name of the bucket loses its first label, although the bucket is not part of it.\<close>

lemma endpoint_loses_label:
  "build_endpoint (\<lambda>u. Some (u @ ''/'')) (cb_endpoint ''http://minio.example.com'' (s3_config_default\<lparr>c3_bucket := ''minio''\<rparr>)) ''auto''
     = Ok ''http://example.com/minio''"
  by code_simp

text \<open>Presigning ignores the arguments of a write.\<close>

lemma s3_presign_ignores_write_args:
  "s3_presign env sign_query core path expire (PresignWrite a) = s3_presign env sign_query core path expire (PresignWrite b)"
  by (simp add: s3_presign_def fun_eq_iff)

end
