(* ===== verification/FileSystem.thy ===== *)
theory FileSystem
  imports Errors Buffers "HOL-Library.Sublist"
begin

text \<open>
  The part of \<^verbatim>\<open>std::path\<close> and \<^verbatim>\<open>std::fs\<close> that the service \<^verbatim>\<open>core/src/services/fs\<close> uses, on a POSIX file system without
  links and permissions. A file system is a table of names, a content for each inode, and a script of events: each system
  call takes the next event, which lets it go through, makes it fail, or makes a \<open>read\<close> or \<open>write\<close> transfer fewer bytes than it was asked
  for. When the script has run out every call goes through.

  A path is the list of its segments, as the kernel walks it: slashes at the end and repeated ones are gone, while \<^verbatim>\<open>.\<close> and \<^verbatim>\<open>..\<close> are still
  there. \<open>fs_ok\<close> is the invariant of a file system; \<open>fs_files\<close> is the map from names to contents that the calls refine.
\<close>

subsection \<open>Paths\<close>

datatype path_buf = PathBuf (path_absolute: bool) (path_segs: "string list")

definition path_split :: "string \<Rightarrow> string list" where
  "path_split s = filter (\<lambda>x. x \<noteq> []) (split_on CHR ''/'' s)"

definition path_from :: "string \<Rightarrow> path_buf" where
  "path_from s = PathBuf (starts_char s CHR ''/'') (path_split s)"

definition path_join :: "path_buf \<Rightarrow> string \<Rightarrow> path_buf" where
  "path_join p s =
     (if starts_char s CHR ''/'' then path_from s
      else PathBuf (path_absolute p) (path_segs p @ path_split s))"

text \<open>The components, where \<^verbatim>\<open>.\<close> counts only at the beginning of a relative path; \<open>parent\<close> drops the last one.\<close>

definition path_components :: "path_buf \<Rightarrow> string list" where
  "path_components p =
     (let cs = filter (\<lambda>x. x \<noteq> ''.'') (path_segs p)
      in if \<not> path_absolute p \<and> path_segs p \<noteq> [] \<and> hd (path_segs p) = ''.'' then ''.'' # cs else cs)"

definition path_parent :: "path_buf \<Rightarrow> path_buf option" where
  "path_parent p =
     (let cs = path_components p in if cs = [] then None else Some (PathBuf (path_absolute p) (butlast cs)))"

definition path_is_empty :: "path_buf \<Rightarrow> bool" where
  "path_is_empty p = (\<not> path_absolute p \<and> path_segs p = [])"

text \<open>The path as a string, and the rest behind a prefix.\<close>

definition path_display :: "path_buf \<Rightarrow> string" where
  "path_display p = (if path_absolute p then ''/'' else []) @ join_with ''/'' (path_segs p)"

definition path_strip_prefix :: "path_buf \<Rightarrow> path_buf \<Rightarrow> path_buf option" where
  "path_strip_prefix p base =
     (if path_absolute p = path_absolute base \<and> take (length (path_segs base)) (path_segs p) = path_segs base
      then Some (PathBuf False (dropWhile (\<lambda>x. x = ''.'') (drop (length (path_segs base)) (path_segs p))))
      else None)"

lemma path_parent_shorter: "path_parent p = Some q \<Longrightarrow> length (path_segs q) < length (path_segs p)"
proof -
  assume "path_parent p = Some q"
  then have q: "path_components p \<noteq> []" "path_segs q = butlast (path_components p)"
    by (auto simp: path_parent_def Let_def split: if_splits)
  have "length (path_components p) \<le> length (path_segs p)"
  proof (cases "\<not> path_absolute p \<and> path_segs p \<noteq> [] \<and> hd (path_segs p) = ''.''")
    case True
    then obtain ss where "path_segs p = ''.'' # ss" by (cases "path_segs p") auto
    with True show ?thesis by (simp add: path_components_def Let_def length_filter_le)
  qed (auto simp: path_components_def Let_def length_filter_le)
  with q show ?thesis by (cases "path_components p") (auto simp: less_Suc_eq_le)
qed

subsection \<open>File systems\<close>

datatype fs_node = DirNode | FileNode nat

datatype sys_event = Fine | Fault io_error | Short nat

record file_system =
  fs_tree :: "(string list \<times> fs_node) list"
  fs_data :: "nat \<Rightarrow> bytes"
  fs_next :: nat
  fs_cwd :: "string list"
  fs_events :: "sys_event list"

type_synonym 'a sys = "file_system \<Rightarrow> (io_error + 'a) \<times> file_system"

definition enoent :: io_error where
  "enoent = \<lparr>ioe_kind = IoNotFound, ioe_kind_text = ''entity not found'', ioe_text = ''No such file or directory (os error 2)''\<rparr>"

definition eexist :: io_error where
  "eexist = \<lparr>ioe_kind = IoAlreadyExists, ioe_kind_text = ''entity already exists'', ioe_text = ''File exists (os error 17)''\<rparr>"

definition enotdir :: io_error where
  "enotdir = \<lparr>ioe_kind = IoUnlisted 20, ioe_kind_text = ''not a directory'', ioe_text = ''Not a directory (os error 20)''\<rparr>"

definition eisdir :: io_error where
  "eisdir = \<lparr>ioe_kind = IoUnlisted 21, ioe_kind_text = ''is a directory'', ioe_text = ''Is a directory (os error 21)''\<rparr>"

definition enotempty :: io_error where
  "enotempty = \<lparr>ioe_kind = IoUnlisted 39, ioe_kind_text = ''directory not empty'', ioe_text = ''Directory not empty (os error 39)''\<rparr>"

definition ebusy :: io_error where
  "ebusy = \<lparr>ioe_kind = IoUnlisted 16, ioe_kind_text = ''resource busy'', ioe_text = ''Device or resource busy (os error 16)''\<rparr>"

definition einval :: io_error where
  "einval = \<lparr>ioe_kind = IoInvalidInput, ioe_kind_text = ''invalid input parameter'', ioe_text = ''Invalid argument (os error 22)''\<rparr>"

definition no_whole_tree :: io_error where
  "no_whole_tree = \<lparr>ioe_kind = IoUnlisted 0, ioe_kind_text = ''uncategorized error'', ioe_text = ''failed to create whole tree''\<rparr>"

definition not_regular :: io_error where
  "not_regular = \<lparr>ioe_kind = IoInvalidInput, ioe_kind_text = ''invalid input parameter'',
     ioe_text = ''the source path is neither a regular file nor a symlink to a regular file''\<rparr>"

text \<open>The name at the end of a path: every segment is looked up in a directory that exists.\<close>

definition node_at :: "file_system \<Rightarrow> string list \<Rightarrow> fs_node option" where
  "node_at fs p = (if p = [] then Some DirNode else map_of (fs_tree fs) p)"

fun walk :: "(string list \<Rightarrow> fs_node option) \<Rightarrow> string list \<Rightarrow> string list \<Rightarrow> io_error + string list" where
  "walk t cur [] = Inr cur"
| "walk t cur (s # ss) =
     (case t cur of
        None \<Rightarrow> Inl enoent
      | Some (FileNode i) \<Rightarrow> Inl enotdir
      | Some DirNode \<Rightarrow>
          if s = ''.'' then walk t cur ss
          else if s = ''..'' then walk t (butlast cur) ss
          else walk t (cur @ [s]) ss)"

definition locate :: "file_system \<Rightarrow> path_buf \<Rightarrow> io_error + string list" where
  "locate fs p =
     (if path_is_empty p then Inl enoent
      else walk (node_at fs) (if path_absolute p then [] else fs_cwd fs) (path_segs p))"

text \<open>A call that fails leaves the files alone.\<close>

definition sys_call :: "'a sys \<Rightarrow> 'a sys" where
  "sys_call f fs =
     (case fs_events fs of
        [] \<Rightarrow> f fs
      | Fault e # es \<Rightarrow> (Inl e, fs\<lparr>fs_events := es\<rparr>)
      | _ # es \<Rightarrow> f (fs\<lparr>fs_events := es\<rparr>))"

definition sys_at :: "path_buf \<Rightarrow> (string list \<Rightarrow> 'a sys) \<Rightarrow> 'a sys" where
  "sys_at p f = sys_call (\<lambda>fs. case locate fs p of Inl e \<Rightarrow> (Inl e, fs) | Inr q \<Rightarrow> f q fs)"

text \<open>How many of \<open>n\<close> bytes the next transfer moves; a transfer is one call.\<close>

definition sys_limit :: "file_system \<Rightarrow> nat \<Rightarrow> nat" where
  "sys_limit fs n = (case fs_events fs of Short k # es \<Rightarrow> min k n | _ \<Rightarrow> n)"

subsection \<open>Directories\<close>

record file_meta =
  fm_node :: fs_node
  fm_name :: "string list"
  fm_file_len :: nat

definition fm_is_dir :: "file_meta \<Rightarrow> bool" where
  "fm_is_dir m = (fm_node m = DirNode)"

definition sys_metadata :: "path_buf \<Rightarrow> file_meta sys" where
  "sys_metadata p = sys_at p (\<lambda>q fs.
     case node_at fs q of
       None \<Rightarrow> (Inl enoent, fs)
     | Some DirNode \<Rightarrow> (Inr \<lparr>fm_node = DirNode, fm_name = q, fm_file_len = 0\<rparr>, fs)
     | Some (FileNode i) \<Rightarrow> (Inr \<lparr>fm_node = FileNode i, fm_name = q, fm_file_len = length (fs_data fs i)\<rparr>, fs))"

definition sys_try_exists :: "path_buf \<Rightarrow> bool sys" where
  "sys_try_exists p fs =
     (case sys_metadata p fs of
        (Inr m, fs') \<Rightarrow> (Inr True, fs')
      | (Inl e, fs') \<Rightarrow> if ioe_kind e = IoNotFound then (Inr False, fs') else (Inl e, fs'))"

definition sys_is_dir :: "path_buf \<Rightarrow> file_system \<Rightarrow> bool \<times> file_system" where
  "sys_is_dir p fs = (case sys_metadata p fs of (Inr m, fs') \<Rightarrow> (fm_is_dir m, fs') | (Inl e, fs') \<Rightarrow> (False, fs'))"

definition sys_mkdir :: "path_buf \<Rightarrow> unit sys" where
  "sys_mkdir p = sys_at p (\<lambda>q fs.
     if node_at fs q \<noteq> None then (Inl eexist, fs)
     else (Inr (), fs\<lparr>fs_tree := (q, DirNode) # fs_tree fs\<rparr>))"

function sys_create_dir_all :: "path_buf \<Rightarrow> unit sys" where
  "sys_create_dir_all p fs =
     (if path_is_empty p then (Inr (), fs)
      else case sys_mkdir p fs of
        (Inr u, fs1) \<Rightarrow> (Inr (), fs1)
      | (Inl e, fs1) \<Rightarrow>
          if ioe_kind e = IoNotFound then
            (case path_parent p of
               None \<Rightarrow> (Inl no_whole_tree, fs1)
             | Some q \<Rightarrow>
                 (case sys_create_dir_all q fs1 of
                    (Inl e, fs2) \<Rightarrow> (Inl e, fs2)
                  | (Inr u, fs2) \<Rightarrow>
                      (case sys_mkdir p fs2 of
                         (Inr u, fs3) \<Rightarrow> (Inr (), fs3)
                       | (Inl e, fs3) \<Rightarrow> (case sys_is_dir p fs3 of (d, fs4) \<Rightarrow> (if d then Inr () else Inl e, fs4)))))
          else (case sys_is_dir p fs1 of (d, fs2) \<Rightarrow> (if d then Inr () else Inl e, fs2)))"
  by pat_completeness auto
termination
  by (relation "measure (\<lambda>(p, fs). length (path_segs p))") (auto dest: path_parent_shorter)

declare sys_create_dir_all.simps [simp del]

definition dir_children :: "file_system \<Rightarrow> string list \<Rightarrow> (string \<times> fs_node) list" where
  "dir_children fs d =
     map (\<lambda>(k, n). (last k, n)) (filter (\<lambda>(k, n). k \<noteq> [] \<and> butlast k = d) (fs_tree fs))"

definition sys_read_dir :: "path_buf \<Rightarrow> (string \<times> fs_node) list sys" where
  "sys_read_dir p = sys_at p (\<lambda>q fs.
     case node_at fs q of
       None \<Rightarrow> (Inl enoent, fs)
     | Some (FileNode i) \<Rightarrow> (Inl enotdir, fs)
     | Some DirNode \<Rightarrow> (Inr (dir_children fs q), fs))"

definition sys_next_entry :: "(string \<times> fs_node) list \<Rightarrow> ((string \<times> fs_node) option \<times> (string \<times> fs_node) list) sys" where
  "sys_next_entry rd = sys_call (\<lambda>fs. (Inr (case rd of [] \<Rightarrow> (None, []) | e # es \<Rightarrow> (Some e, es)), fs))"

definition sys_remove_file :: "path_buf \<Rightarrow> unit sys" where
  "sys_remove_file p = sys_at p (\<lambda>q fs.
     case node_at fs q of
       None \<Rightarrow> (Inl enoent, fs)
     | Some DirNode \<Rightarrow> (Inl eisdir, fs)
     | Some (FileNode i) \<Rightarrow> (Inr (), fs\<lparr>fs_tree := filter (\<lambda>(k, n). k \<noteq> q) (fs_tree fs)\<rparr>))"

definition sys_remove_dir :: "path_buf \<Rightarrow> unit sys" where
  "sys_remove_dir p = sys_at p (\<lambda>q fs.
     case node_at fs q of
       None \<Rightarrow> (Inl enoent, fs)
     | Some (FileNode i) \<Rightarrow> (Inl enotdir, fs)
     | Some DirNode \<Rightarrow>
         if q = [] then (Inl ebusy, fs)
         else if dir_children fs q \<noteq> [] then (Inl enotempty, fs)
         else (Inr (), fs\<lparr>fs_tree := filter (\<lambda>(k, n). k \<noteq> q) (fs_tree fs)\<rparr>))"

text \<open>\<open>rename\<close> takes everything below a directory along, and replaces a file or an empty directory at the new name.\<close>

definition move_key :: "string list \<Rightarrow> string list \<Rightarrow> string list \<Rightarrow> string list" where
  "move_key f t k = (if prefix f k then t @ drop (length f) k else k)"

definition move_tree :: "string list \<Rightarrow> string list \<Rightarrow> (string list \<times> fs_node) list \<Rightarrow> (string list \<times> fs_node) list" where
  "move_tree f t tree = map (\<lambda>(k, n). (move_key f t k, n)) (filter (\<lambda>(k, n). k \<noteq> t) tree)"

definition rename_at :: "string list \<Rightarrow> string list \<Rightarrow> unit sys" where
  "rename_at f t fs =
     (let moved = (Inr (), fs\<lparr>fs_tree := move_tree f t (fs_tree fs)\<rparr>) in
      case node_at fs f of
        None \<Rightarrow> (Inl enoent, fs)
      | Some nf \<Rightarrow>
          if f = t then (Inr (), fs)
          else if f = [] \<or> t = [] then (Inl ebusy, fs)
          else if prefix f t then (Inl einval, fs)
          else case node_at fs t of
              None \<Rightarrow> moved
            | Some (FileNode j) \<Rightarrow> if nf = DirNode then (Inl enotdir, fs) else moved
            | Some DirNode \<Rightarrow>
                if nf \<noteq> DirNode then (Inl eisdir, fs)
                else if dir_children fs t \<noteq> [] then (Inl enotempty, fs)
                else moved)"

definition sys_rename :: "path_buf \<Rightarrow> path_buf \<Rightarrow> unit sys" where
  "sys_rename p p' = sys_at p (\<lambda>f fs. case locate fs p' of Inl e \<Rightarrow> (Inl e, fs) | Inr t \<Rightarrow> rename_at f t fs)"

definition sys_canonicalize :: "path_buf \<Rightarrow> path_buf sys" where
  "sys_canonicalize p = sys_at p (\<lambda>q fs. if node_at fs q = None then (Inl enoent, fs) else (Inr (PathBuf True q), fs))"

subsection \<open>Files\<close>

record file_handle =
  fh_node :: fs_node
  fh_pos :: nat
  fh_append :: bool

definition i64_max :: nat where
  "i64_max = 9223372036854775807"

definition sys_open_read :: "path_buf \<Rightarrow> file_handle sys" where
  "sys_open_read p = sys_at p (\<lambda>q fs.
     case node_at fs q of
       None \<Rightarrow> (Inl enoent, fs)
     | Some n \<Rightarrow> (Inr \<lparr>fh_node = n, fh_pos = 0, fh_append = False\<rparr>, fs))"

text \<open>\<^verbatim>\<open>create(true).write(true)\<close> with \<open>append\<close> or else \<open>truncate\<close>.\<close>

definition sys_open_write :: "bool \<Rightarrow> path_buf \<Rightarrow> file_handle sys" where
  "sys_open_write app p = sys_at p (\<lambda>q fs.
     case node_at fs q of
       Some DirNode \<Rightarrow> (Inl eisdir, fs)
     | Some (FileNode i) \<Rightarrow>
         (Inr \<lparr>fh_node = FileNode i, fh_pos = 0, fh_append = app\<rparr>,
          if app then fs else fs\<lparr>fs_data := (fs_data fs)(i := [])\<rparr>)
     | None \<Rightarrow>
         (let i = fs_next fs in
          (Inr \<lparr>fh_node = FileNode i, fh_pos = 0, fh_append = app\<rparr>,
           fs\<lparr>fs_tree := (q, FileNode i) # fs_tree fs, fs_data := (fs_data fs)(i := []), fs_next := Suc i\<rparr>)))"

definition sys_seek :: "nat \<Rightarrow> file_handle \<Rightarrow> file_handle sys" where
  "sys_seek off h = sys_call (\<lambda>fs. if off \<le> i64_max then (Inr (h\<lparr>fh_pos := off\<rparr>), fs) else (Inl einval, fs))"

text \<open>A read moves at least one byte, unless it is at the end of the file.\<close>

definition sys_read :: "nat \<Rightarrow> file_handle \<Rightarrow> (bytes \<times> file_handle) sys" where
  "sys_read n h fs =
     (let k = max (min 1 n) (sys_limit fs n) in
      sys_call (\<lambda>fs.
        case fh_node h of
          DirNode \<Rightarrow> (Inl eisdir, fs)
        | FileNode i \<Rightarrow>
            (let bs = take k (drop (fh_pos h) (fs_data fs i))
             in (Inr (bs, h\<lparr>fh_pos := fh_pos h + length bs\<rparr>), fs))) fs)"

definition overlay :: "bytes \<Rightarrow> nat \<Rightarrow> bytes \<Rightarrow> bytes" where
  "overlay d off bs =
     (if bs = [] then d
      else take off d @ replicate (off - length d) 0 @ bs @ drop (off + length bs) d)"

definition sys_write_at :: "file_handle \<Rightarrow> bytes \<Rightarrow> nat \<Rightarrow> nat sys" where
  "sys_write_at h bs off fs =
     (let k = sys_limit fs (length bs) in
      sys_call (\<lambda>fs.
        case fh_node h of
          DirNode \<Rightarrow> (Inl eisdir, fs)
        | FileNode i \<Rightarrow>
            if off \<le> i64_max
            then (Inr k, fs\<lparr>fs_data := (fs_data fs)(i := overlay (fs_data fs i) off (take k bs))\<rparr>)
            else (Inl einval, fs)) fs)"

definition handle_len :: "file_handle \<Rightarrow> file_system \<Rightarrow> nat" where
  "handle_len h fs = (case fh_node h of DirNode \<Rightarrow> 0 | FileNode i \<Rightarrow> length (fs_data fs i))"

definition sys_write :: "bytes \<Rightarrow> file_handle \<Rightarrow> (nat \<times> file_handle) sys" where
  "sys_write bs h fs =
     (let off = (if fh_append h then handle_len h fs else fh_pos h) in
      case sys_write_at h bs off fs of
        (Inl e, fs') \<Rightarrow> (Inl e, fs')
      | (Inr n, fs') \<Rightarrow> (Inr (n, h\<lparr>fh_pos := off + n\<rparr>), fs'))"

definition sys_sync_all :: "file_handle \<Rightarrow> unit sys" where
  "sys_sync_all h = sys_call (\<lambda>fs. (Inr (), fs))"

definition sys_try_clone :: "file_handle \<Rightarrow> file_handle sys" where
  "sys_try_clone h = sys_call (\<lambda>fs. (Inr h, fs))"

text \<open>
  \<^verbatim>\<open>std::fs::copy\<close>: the source is opened and must be a regular file, then the target is opened and truncated, then the
  bytes the source has now are transferred until none is left. When both are the same file there are none.
\<close>

function copy_rounds :: "bytes \<Rightarrow> nat \<Rightarrow> nat \<Rightarrow> unit sys" where
  "copy_rounds rest j pos fs =
     (if rest = [] then (Inr (), fs)
      else case fs_events fs of
          Fault e # es \<Rightarrow> (Inl e, fs\<lparr>fs_events := es\<rparr>)
        | _ \<Rightarrow>
          (let k = max 1 (sys_limit fs (length rest)) in
           copy_rounds (drop k rest) j (pos + k)
            (fs\<lparr>fs_events := tl (fs_events fs), fs_data := (fs_data fs)(j := overlay (fs_data fs j) pos (take k rest))\<rparr>)))"
  by pat_completeness auto
termination
  by (relation "measure (\<lambda>(rest, j, pos, fs). length rest)") auto

declare copy_rounds.simps [simp del]

definition sys_copy :: "path_buf \<Rightarrow> path_buf \<Rightarrow> unit sys" where
  "sys_copy p p' fs =
     (case sys_open_read p fs of
        (Inl e, fs1) \<Rightarrow> (Inl e, fs1)
      | (Inr h, fs1) \<Rightarrow>
          (case fh_node h of
             DirNode \<Rightarrow> (Inl not_regular, fs1)
           | FileNode i \<Rightarrow>
               (case sys_open_write False p' fs1 of
                  (Inl e, fs2) \<Rightarrow> (Inl e, fs2)
                | (Inr h', fs2) \<Rightarrow>
                    (case fh_node h' of
                       DirNode \<Rightarrow> (Inl eisdir, fs2)
                     | FileNode j \<Rightarrow> copy_rounds (fs_data fs2 i) j 0 fs2))))"

subsection \<open>The invariant, and the map that a file system stands for\<close>

definition fs_ok :: "file_system \<Rightarrow> bool" where
  "fs_ok fs = (distinct (map fst (fs_tree fs)) \<and> [] \<notin> fst ` set (fs_tree fs)
     \<and> (\<forall>p n. node_at fs (p @ [n]) \<noteq> None \<longrightarrow> node_at fs p = Some DirNode)
     \<and> (\<forall>p i. node_at fs p = Some (FileNode i) \<longrightarrow> i < fs_next fs)
     \<and> (\<forall>p q i. node_at fs p = Some (FileNode i) \<longrightarrow> node_at fs q = Some (FileNode i) \<longrightarrow> p = q))"

definition fs_files :: "file_system \<Rightarrow> string list \<Rightarrow> bytes option" where
  "fs_files fs p = (case node_at fs p of Some (FileNode i) \<Rightarrow> Some (fs_data fs i) | _ \<Rightarrow> None)"

lemma node_at_events [simp]: "node_at (fs\<lparr>fs_events := es\<rparr>) = node_at fs"
  by (simp add: node_at_def fun_eq_iff)

lemma node_at_data [simp]: "node_at (fs\<lparr>fs_data := d\<rparr>) = node_at fs"
  by (simp add: node_at_def fun_eq_iff)

lemma fs_events_simps [simp]:
  "fs_ok (fs\<lparr>fs_events := es\<rparr>) = fs_ok fs" "fs_files (fs\<lparr>fs_events := es\<rparr>) = fs_files fs"
  "locate (fs\<lparr>fs_events := es\<rparr>) p = locate fs p" "dir_children (fs\<lparr>fs_events := es\<rparr>) = dir_children fs"
  "fs_ok (fs\<lparr>fs_data := d\<rparr>) = fs_ok fs"
  by (simp_all add: fs_ok_def fs_files_def locate_def dir_children_def fun_eq_iff cong: option.case_cong fs_node.case_cong)

lemma node_at_root [simp]: "node_at fs [] = Some DirNode"
  by (simp add: node_at_def)

lemma fs_okD:
  assumes "fs_ok fs"
  shows "node_at fs (p @ [n]) \<noteq> None \<Longrightarrow> node_at fs p = Some DirNode"
    and "node_at fs p = Some (FileNode i) \<Longrightarrow> i < fs_next fs"
    and "node_at fs p = Some (FileNode i) \<Longrightarrow> node_at fs q = Some (FileNode i) \<Longrightarrow> p = q"
    and "distinct (map fst (fs_tree fs))" "[] \<notin> fst ` set (fs_tree fs)"
  using assms by (auto simp: fs_ok_def)

lemma fs_ok_prefix: "fs_ok fs \<Longrightarrow> node_at fs (p @ q) \<noteq> None \<Longrightarrow> q \<noteq> [] \<Longrightarrow> node_at fs p = Some DirNode"
proof (induction q rule: rev_induct)
  case (snoc x q)
  then have "node_at fs (p @ q) = Some DirNode" using fs_okD(1) [of fs "p @ q" x] by simp
  with snoc show ?case by (cases "q = []") auto
qed simp

text \<open>What a walk finds.\<close>

lemma walk_parent:
  assumes "fs_ok fs" "walk (node_at fs) cur ss = Inr q" "node_at fs q = None"
    and "ss \<noteq> [] \<or> node_at fs cur \<noteq> None \<or> (cur \<noteq> [] \<and> node_at fs (butlast cur) = Some DirNode)"
  shows "q \<noteq> [] \<and> node_at fs (butlast q) = Some DirNode"
  using assms(2-)
proof (induction ss arbitrary: cur)
  case (Cons s ss)
  then have dir: "node_at fs cur = Some DirNode" by (auto split: option.splits fs_node.splits)
  have up: "node_at fs (butlast cur) \<noteq> None"
    using fs_ok_prefix [OF assms(1), of "butlast cur" "[last cur]"] dir by (cases "cur = []") auto
  show ?case
    using Cons.IH [of cur] Cons.IH [of "butlast cur"] Cons.IH [of "cur @ [s]"] Cons.prems(1,2) dir up
    by (auto split: if_splits)
qed auto

lemma locate_parent:
  assumes "fs_ok fs" "locate fs p = Inr q" "node_at fs q = None"
  shows "q \<noteq> []" "node_at fs (butlast q) = Some DirNode"
  using walk_parent [OF assms(1) _ assms(3), of "if path_absolute p then [] else fs_cwd fs" "path_segs p"] assms(2)
  by (auto simp: locate_def path_is_empty_def split: if_splits)

definition seg_ok :: "string \<Rightarrow> bool" where
  "seg_ok s = (s \<noteq> [] \<and> s \<noteq> ''.'' \<and> s \<noteq> ''..'' \<and> CHR ''/'' \<notin> set s)"

lemma walk_plain: "list_all seg_ok ss \<Longrightarrow> walk t cur ss = Inr q \<Longrightarrow> q = cur @ ss"
proof (induction ss arbitrary: cur)
  case (Cons s ss)
  from Cons.IH [of "cur @ [s]"] Cons.prems show ?case
    by (auto simp: seg_ok_def split: option.splits fs_node.splits if_splits)
qed simp

lemma walk_plain_Ok:
  "list_all seg_ok ss \<Longrightarrow> fs_ok fs \<Longrightarrow> node_at fs (cur @ butlast ss) = Some DirNode \<Longrightarrow> walk (node_at fs) cur ss = Inr (cur @ ss)"
proof (induction ss arbitrary: cur)
  case (Cons s ss)
  show ?case
  proof (cases "ss = []")
    case False
    have "node_at fs cur = Some DirNode"
      using fs_ok_prefix [OF Cons.prems(2), of cur "s # butlast ss"] Cons.prems(3) False by simp
    with Cons.IH [of "cur @ [s]"] Cons.prems False show ?thesis by (auto simp: seg_ok_def)
  qed (use Cons.prems in \<open>simp add: seg_ok_def\<close>)
qed simp

lemma locate_plain: "locate fs (PathBuf True ss) = Inr q \<Longrightarrow> list_all seg_ok ss \<Longrightarrow> q = ss"
  using walk_plain [of ss "node_at fs" "[]" q] by (simp add: locate_def path_is_empty_def)

lemma locate_plain_Ok:
  assumes "list_all seg_ok ss" "fs_ok fs" "node_at fs (butlast ss) = Some DirNode"
  shows "locate fs (PathBuf True ss) = Inr ss"
  using walk_plain_Ok [OF assms(1,2), of "[]"] assms(3) by (simp add: locate_def path_is_empty_def)

lemma locate_plain_node:
  assumes "list_all seg_ok ss" "fs_ok fs" "node_at fs ss \<noteq> None"
  shows "locate fs (PathBuf True ss) = Inr ss"
proof (rule locate_plain_Ok [OF assms(1,2)])
  show "node_at fs (butlast ss) = Some DirNode"
    using fs_ok_prefix [OF assms(2), of "butlast ss" "[last ss]"] assms(3) by (cases "ss = []") auto
qed

text \<open>What a call does: it fails and leaves the files alone, or goes through.\<close>

lemma sys_call_cases:
  assumes "sys_call f fs = (r, fs')"
  obtains es e where "r = Inl e" "fs' = fs\<lparr>fs_events := es\<rparr>"
  | es where "f (fs\<lparr>fs_events := es\<rparr>) = (r, fs')"
proof (cases "fs_events fs")
  case Nil
  then have "fs\<lparr>fs_events := []\<rparr> = fs" by simp
  with that(2) [of "[]"] assms Nil show ?thesis by (simp add: sys_call_def)
next
  case (Cons e es)
  with that(1) [of _ es] that(2) [of es] assms show ?thesis
    by (cases e) (auto simp: sys_call_def)
qed

lemma sys_at_cases:
  assumes "sys_at p f fs = (r, fs')"
  obtains es e where "r = Inl e" "fs' = fs\<lparr>fs_events := es\<rparr>"
  | es q where "locate fs p = Inr q" "f q (fs\<lparr>fs_events := es\<rparr>) = (r, fs')"
  using assms unfolding sys_at_def
  by (rule sys_call_cases) (auto split: sum.splits intro: that)

subsection \<open>What the calls do to the map of files\<close>

text \<open>Directories come into being, files stay as they are.\<close>

definition fs_grows :: "file_system \<Rightarrow> file_system \<Rightarrow> bool" where
  "fs_grows fs fs' = (fs_ok fs' \<and> fs_files fs' = fs_files fs \<and> node_at fs \<subseteq>\<^sub>m node_at fs')"

lemma fs_grows_refl [simp]: "fs_ok fs \<Longrightarrow> fs_grows fs (fs\<lparr>fs_events := es\<rparr>)" "fs_ok fs \<Longrightarrow> fs_grows fs fs"
  by (simp_all add: fs_grows_def)

lemma fs_grows_trans: "fs_grows a b \<Longrightarrow> fs_grows b c \<Longrightarrow> fs_grows a c"
  by (auto simp: fs_grows_def intro: map_le_trans)

lemma fs_grows_ok: "fs_grows fs fs' \<Longrightarrow> fs_ok fs'"
  by (simp add: fs_grows_def)

lemma fs_ok_add:
  assumes ok: "fs_ok fs" and q: "node_at fs q = None" "q \<noteq> []" "node_at fs (butlast q) = Some DirNode"
    and fs': "fs_tree fs' = (q, n) # fs_tree fs" "fs_next fs \<le> fs_next fs'" "\<And>i. n = FileNode i \<Longrightarrow> i = fs_next fs \<and> i < fs_next fs'"
  shows "fs_ok fs'" "node_at fs' = (node_at fs)(q \<mapsto> n)"
proof -
  show nd: "node_at fs' = (node_at fs)(q \<mapsto> n)"
    using q(2) fs'(1) by (auto simp: node_at_def fun_eq_iff)
  have "q \<notin> fst ` set (fs_tree fs)" using q(1,2) by (auto simp: node_at_def map_of_eq_None_iff)
  then have d: "distinct (map fst (fs_tree fs'))" "[] \<notin> fst ` set (fs_tree fs')"
    using fs_okD(4,5) [OF ok] fs'(1) q(2) by auto
  have par: "node_at fs' p = Some DirNode" if "node_at fs' (p @ [x]) \<noteq> None" for p x
  proof (cases "p @ [x] = q")
    case True
    with q show ?thesis by (auto simp: nd)
  next
    case False
    with that fs_okD(1) [OF ok, of p x] q(1) show ?thesis by (auto simp: nd)
  qed
  have fresh: "node_at fs p \<noteq> Some (FileNode (fs_next fs))" for p using fs_okD(2) [OF ok, of p "fs_next fs"] by auto
  have nxt: "i < fs_next fs'" if "node_at fs' p = Some (FileNode i)" for p i
    using that fs_okD(2) [OF ok, of p i] fs'(2) fs'(3) [of i] by (auto simp: nd split: if_splits)
  have inj: "p = p'" if "node_at fs' p = Some (FileNode i)" "node_at fs' p' = Some (FileNode i)" for p p' i
    using that fs_okD(3) [OF ok, of p i p'] fs'(3) [of i] fresh by (auto simp: nd split: if_splits)
  show "fs_ok fs'"
    unfolding fs_ok_def using d par nxt inj by blast
qed

lemma sys_mkdir_spec:
  assumes "fs_ok fs" "sys_mkdir p fs = (r, fs')"
  shows "fs_grows fs fs'"
  using assms(2) unfolding sys_mkdir_def
proof (cases rule: sys_at_cases)
  case (2 es q)
  show ?thesis
  proof (cases "node_at fs q")
    case None
    note par = locate_parent [OF assms(1) 2(1) None]
    with None 2(2) have fs': "fs' = fs\<lparr>fs_events := es, fs_tree := (q, DirNode) # fs_tree fs\<rparr>" by auto
    note add = fs_ok_add [OF assms(1) None par, of fs' DirNode]
    then have "fs_ok fs'" "node_at fs' = (node_at fs)(q \<mapsto> DirNode)" using fs' by simp_all
    moreover from this have "fs_files fs' = fs_files fs" using fs' None
      by (auto simp: fs_files_def fun_eq_iff cong: option.case_cong fs_node.case_cong)
    ultimately show ?thesis using None by (auto simp: fs_grows_def map_le_def)
  qed (use 2 assms(1) in auto)
qed (use assms(1) in auto)

lemma sys_metadata_files:
  assumes "sys_metadata p fs = (r, fs')"
  shows "\<exists>es. fs' = fs\<lparr>fs_events := es\<rparr>"
  using assms unfolding sys_metadata_def
  by (cases rule: sys_at_cases) (auto split: option.splits fs_node.splits)

lemma sys_is_dir_files:
  assumes "sys_is_dir p fs = (d, fs')"
  shows "\<exists>es. fs' = fs\<lparr>fs_events := es\<rparr>"
proof -
  obtain r fs1 where m: "sys_metadata p fs = (r, fs1)" by fastforce
  with assms have "fs1 = fs'" by (cases r) (auto simp: sys_is_dir_def)
  with sys_metadata_files [OF m] show ?thesis by simp
qed

lemma sys_is_dir_grows: "sys_is_dir p fs = (d, fs') \<Longrightarrow> fs_ok fs \<Longrightarrow> fs_grows fs fs'"
  using sys_is_dir_files by fastforce

lemma sys_create_dir_all_spec:
  "fs_ok fs \<Longrightarrow> sys_create_dir_all p fs = (r, fs') \<Longrightarrow> fs_grows fs fs'"
proof (induction p fs arbitrary: r fs' rule: sys_create_dir_all.induct)
  case (1 p fs)
  note unf = sys_create_dir_all.simps [of p fs]
  obtain m fs1 where m: "sys_mkdir p fs = (m, fs1)" by fastforce
  note g1 = sys_mkdir_spec [OF "1.prems"(1) m]
  note ok1 = fs_grows_ok [OF g1]
  show ?case
  proof (cases "path_is_empty p")
    case True
    with 1 show ?thesis by (simp add: unf)
  next
    case ne: False
    show ?thesis
    proof (cases m)
      case (Inr u)
      with "1.prems"(2) m ne g1 show ?thesis by (simp add: unf)
    next
      case (Inl e)
      show ?thesis
      proof (cases "ioe_kind e = IoNotFound")
        case False
        obtain d fs2 where d: "sys_is_dir p fs1 = (d, fs2)" by fastforce
        with "1.prems"(2) m ne Inl False have "fs' = fs2" by (simp add: unf)
        with fs_grows_trans [OF g1 sys_is_dir_grows [OF d ok1]] show ?thesis by simp
      next
        case nf: True
        show ?thesis
        proof (cases "path_parent p")
          case None
          with "1.prems"(2) m ne Inl nf g1 show ?thesis by (simp add: unf)
        next
          case (Some q)
          obtain c fs2 where c: "sys_create_dir_all q fs1 = (c, fs2)" by fastforce
          have g2: "fs_grows fs1 fs2"
            using "1.IH" [OF ne m [symmetric] Inl nf Some ok1 c] .
          note g12 = fs_grows_trans [OF g1 g2] and ok2 = fs_grows_ok [OF g2]
          obtain m' fs3 where m': "sys_mkdir p fs2 = (m', fs3)" by fastforce
          note g3 = fs_grows_trans [OF g12 sys_mkdir_spec [OF ok2 m']]
          obtain d fs4 where d: "sys_is_dir p fs3 = (d, fs4)" by fastforce
          note g4 = fs_grows_trans [OF g3 sys_is_dir_grows [OF d fs_grows_ok [OF g3]]]
          show ?thesis
            using "1.prems"(2) m ne Inl nf Some c m' d g12 g3 g4 by (cases c; cases m') (auto simp: unf)
        qed
      qed
    qed
  qed
qed

text \<open>Writing into a file, through any handle on its inode.\<close>

definition open_at :: "file_system \<Rightarrow> string list \<Rightarrow> file_handle \<Rightarrow> bool" where
  "open_at fs p h = (fs_ok fs \<and> (\<exists>i. fh_node h = FileNode i \<and> node_at fs p = Some (FileNode i)))"

lemma open_at_events [simp]: "open_at (fs\<lparr>fs_events := es\<rparr>) = open_at fs"
  by (auto simp: open_at_def fun_eq_iff)

lemma open_at_pos [simp]: "open_at fs p (h\<lparr>fh_pos := n\<rparr>) = open_at fs p h"
  by (simp add: open_at_def)

lemma open_at_ok: "open_at fs p h \<Longrightarrow> fs_ok fs"
  by (simp add: open_at_def)

definition file_bytes :: "file_system \<Rightarrow> string list \<Rightarrow> bytes" where
  "file_bytes fs p = (case fs_files fs p of Some d \<Rightarrow> d | None \<Rightarrow> [])"

lemma file_bytes_events [simp]: "file_bytes (fs\<lparr>fs_events := es\<rparr>) = file_bytes fs"
  by (simp add: file_bytes_def fun_eq_iff)

lemma open_at_files: "open_at fs p h \<Longrightarrow> fs_files fs p = Some (file_bytes fs p)"
  by (auto simp: open_at_def file_bytes_def fs_files_def)

lemma handle_len_open_at: "open_at fs p h \<Longrightarrow> handle_len h fs = length (file_bytes fs p)"
  by (auto simp: open_at_def file_bytes_def fs_files_def handle_len_def)

lemma fs_files_data:
  assumes "fs_ok fs" "node_at fs p = Some (FileNode i)"
  shows "fs_files (fs\<lparr>fs_data := (fs_data fs)(i := d)\<rparr>) = (fs_files fs)(p \<mapsto> d)"
proof
  fix q
  show "fs_files (fs\<lparr>fs_data := (fs_data fs)(i := d)\<rparr>) q = ((fs_files fs)(p \<mapsto> d)) q"
  proof (cases "q = p")
    case False
    then have "node_at fs q \<noteq> Some (FileNode i)" using fs_okD(3) [OF assms] by metis
    with False show ?thesis by (auto simp: fs_files_def split: option.split fs_node.split)
  qed (use assms(2) in \<open>simp add: fs_files_def\<close>)
qed

lemma sys_write_at_spec:
  assumes "open_at fs p h" "sys_write_at h bs off fs = (r, fs')"
  shows "node_at fs' = node_at fs \<and> open_at fs' p h \<and>
    (case r of Inl e \<Rightarrow> fs_files fs' = fs_files fs
     | Inr n \<Rightarrow> n \<le> length bs \<and> off \<le> i64_max \<and> fs_files fs' = (fs_files fs)(p \<mapsto> overlay (file_bytes fs p) off (take n bs)))"
proof -
  obtain i where i: "fh_node h = FileNode i" "node_at fs p = Some (FileNode i)" "fs_ok fs" using assms(1) by (auto simp: open_at_def)
  then have d: "file_bytes fs p = fs_data fs i" by (simp add: file_bytes_def fs_files_def)
  let ?k = "sys_limit fs (length bs)"
  have k: "?k \<le> length bs" by (auto simp: sys_limit_def split: list.splits sys_event.splits)
  from assms(2) show ?thesis
    unfolding sys_write_at_def Let_def
  proof (cases rule: sys_call_cases)
    case (2 es)
    show ?thesis
    proof (cases "off \<le> i64_max")
      case True
      let ?d = "overlay (fs_data fs i) off (take ?k bs)"
      have r: "r = Inr ?k" "fs' = fs\<lparr>fs_events := es, fs_data := (fs_data fs)(i := ?d)\<rparr>"
        using 2 i(1) True by auto
      have "fs_files fs' = (fs_files fs)(p \<mapsto> ?d)"
        using fs_files_data [of "fs\<lparr>fs_events := es\<rparr>" p i ?d] i r(2) by simp
      moreover have "open_at fs' p h" using i r(2) by (simp add: open_at_def)
      ultimately show ?thesis using r k d True by simp
    qed (use 2 i assms(1) in auto)
  qed (use assms(1) in auto)
qed

lemma sys_open_write_spec:
  assumes "fs_ok fs" "sys_open_write app p fs = (r, fs')"
  shows "node_at fs \<subseteq>\<^sub>m node_at fs' \<and> (case r of Inl e \<Rightarrow> fs_ok fs' \<and> fs_files fs' = fs_files fs
    | Inr h \<Rightarrow> \<exists>q. locate fs p = Inr q \<and> open_at fs' q h \<and> fh_pos h = 0 \<and> fh_append h = app
        \<and> fs_files fs' = (fs_files fs)(q \<mapsto> if app then file_bytes fs q else []))"
  using assms(2) unfolding sys_open_write_def
proof (cases rule: sys_at_cases)
  case (2 es q)
  show ?thesis
  proof (cases "node_at fs q")
    case None
    let ?i = "fs_next fs"
    note par = locate_parent [OF assms(1) 2(1) None]
    from None 2(2) have r: "r = Inr \<lparr>fh_node = FileNode ?i, fh_pos = 0, fh_append = app\<rparr>"
      "fs' = fs\<lparr>fs_events := es, fs_tree := (q, FileNode ?i) # fs_tree fs, fs_data := (fs_data fs)(?i := []), fs_next := Suc ?i\<rparr>"
      by (auto simp: Let_def)
    note add = fs_ok_add [OF assms(1) None par, of fs' "FileNode ?i"]
    then have ok: "fs_ok fs'" "node_at fs' = (node_at fs)(q \<mapsto> FileNode ?i)" using r(2) by simp_all
    have "fs_files fs' k = ((fs_files fs)(q \<mapsto> [])) k" for k
    proof (cases "k = q")
      case False
      then have "node_at fs k \<noteq> Some (FileNode ?i)" using fs_okD(2) [OF assms(1), of k ?i] by auto
      with False ok(2) r(2) show ?thesis by (auto simp: fs_files_def split: option.split fs_node.split)
    qed (simp add: fs_files_def ok(2), simp add: r(2))
    moreover have "file_bytes fs q = []" using None by (simp add: file_bytes_def fs_files_def)
    ultimately show ?thesis using r(1) ok None 2(1) by (auto simp: open_at_def fun_eq_iff map_le_def)
  next
    case (Some n)
    show ?thesis
    proof (cases n)
      case (FileNode i)
      let ?d = "if app then fs_data fs i else []"
      have r: "r = Inr \<lparr>fh_node = FileNode i, fh_pos = 0, fh_append = app\<rparr>"
        "fs' = fs\<lparr>fs_events := es, fs_data := (fs_data fs)(i := ?d)\<rparr>"
        using 2(2) Some FileNode by auto
      have "fs_files fs' = (fs_files fs)(q \<mapsto> ?d)"
        using fs_files_data [of "fs\<lparr>fs_events := es\<rparr>" q i ?d] assms(1) Some FileNode r(2) by simp
      moreover have "file_bytes fs q = fs_data fs i" using Some FileNode by (simp add: file_bytes_def fs_files_def)
      ultimately show ?thesis using r assms(1) Some FileNode 2(1) by (simp add: open_at_def)
    qed (use 2 Some assms(1) in auto)
  qed
qed (use assms(1) in auto)

lemma overlay_end [simp]: "overlay d (length d) bs = d @ bs"
  by (simp add: overlay_def)

lemma sys_write_append:
  assumes "open_at fs p h" "fh_append h \<or> fh_pos h = length (file_bytes fs p)" "sys_write bs h fs = (r, fs')"
  shows "case r of Inl e \<Rightarrow> open_at fs' p h \<and> fs_files fs' = fs_files fs
    | Inr (n, h') \<Rightarrow> n \<le> length bs \<and> open_at fs' p h' \<and> fs_files fs' = (fs_files fs)(p \<mapsto> file_bytes fs p @ take n bs)
        \<and> fh_append h' = fh_append h \<and> fh_pos h' = length (file_bytes fs' p)"
proof -
  let ?off = "if fh_append h then handle_len h fs else fh_pos h"
  have off: "?off = length (file_bytes fs p)" using assms(1,2) handle_len_open_at by auto
  obtain r0 fs0 where w: "sys_write_at h bs ?off fs = (r0, fs0)" by fastforce
  note s = sys_write_at_spec [OF assms(1) w]
  have "fs' = fs0" using assms(3) w by (cases r0) (auto simp: sys_write_def Let_def)
  show ?thesis
  proof (cases r0)
    case (Inl e)
    with assms(3) w s \<open>fs' = fs0\<close> show ?thesis by (auto simp: sys_write_def Let_def)
  next
    case (Inr n)
    with s have n: "n \<le> length bs" "open_at fs' p h" "fs_files fs' = (fs_files fs)(p \<mapsto> file_bytes fs p @ take n bs)"
      using \<open>fs' = fs0\<close> by (simp_all add: off)
    have r: "r = Inr (n, h\<lparr>fh_pos := ?off + n\<rparr>)" using assms(3) w Inr by (simp add: sys_write_def Let_def)
    have "length (file_bytes fs' p) = ?off + n" using n off by (simp add: file_bytes_def)
    with r n show ?thesis by simp
  qed
qed

subsection \<open>Moving and removing\<close>

lemma map_of_filter_key: "map_of (filter (\<lambda>(k, n). k \<noteq> q) xs) = (map_of xs)(q := None)"
  by (induction xs) (auto simp: fun_eq_iff)

lemma fs_remove:
  assumes ok: "fs_ok fs" and q: "q \<noteq> []" "\<And>x. node_at fs (q @ [x]) = None"
    and fs': "fs_tree fs' = filter (\<lambda>(k, n). k \<noteq> q) (fs_tree fs)" "fs_next fs' = fs_next fs" "fs_data fs' = fs_data fs"
  shows "fs_ok fs'" "node_at fs' = (node_at fs)(q := None)" "fs_files fs' = (fs_files fs)(q := None)"
proof -
  show nd: "node_at fs' = (node_at fs)(q := None)"
    using q(1) by (auto simp: node_at_def fs'(1) map_of_filter_key fun_eq_iff)
  then show "fs_files fs' = (fs_files fs)(q := None)" using fs'(3)
    by (auto simp: fs_files_def fun_eq_iff cong: option.case_cong fs_node.case_cong)
  have d: "distinct (map fst (fs_tree fs'))" "[] \<notin> fst ` set (fs_tree fs')"
    using fs_okD(4,5) [OF ok] fs'(1) by (auto simp: distinct_map_filter)
  show "fs_ok fs'"
    unfolding fs_ok_def
  proof (intro conjI allI impI d)
    fix p n
    assume "node_at fs' (p @ [n]) \<noteq> None"
    then show "node_at fs' p = Some DirNode" using fs_okD(1) [OF ok, of p n] q(2) by (auto simp: nd split: if_splits)
  qed (use fs_okD(2,3) [OF ok] fs'(2) in \<open>auto simp: nd split: if_splits\<close>)
qed

lemma node_at_mem:
  assumes "fs_ok fs" "k \<noteq> []"
  shows "node_at fs k = Some n \<longleftrightarrow> (k, n) \<in> set (fs_tree fs)"
  using map_of_eq_Some_iff [OF fs_okD(4) [OF assms(1)]] assms(2) by (simp add: node_at_def)

lemma move_key_inj:
  assumes "\<not> prefix f t" "\<And>d. d \<noteq> [] \<Longrightarrow> t @ d \<notin> K"
  shows "inj_on (move_key f t) (K - {t})"
proof (rule inj_onI)
  fix a b
  assume a: "a \<in> K - {t}" and b: "b \<in> K - {t}" and eq: "move_key f t a = move_key f t b"
  have no: "\<not> prefix t k" if "k \<in> K - {t}" for k using that assms(2) by (auto simp: prefix_def)
  show "a = b"
  proof (cases "prefix f a"; cases "prefix f b")
    assume "prefix f a" "prefix f b"
    with eq show ?thesis by (auto simp: move_key_def prefix_def)
  next
    assume "prefix f a" "\<not> prefix f b"
    with eq have "prefix t b" by (auto simp: move_key_def)
    with no [OF b] show ?thesis by simp
  next
    assume "\<not> prefix f a" "prefix f b"
    with eq have "prefix t a" by (auto simp: move_key_def prefix_def)
    with no [OF a] show ?thesis by simp
  next
    assume "\<not> prefix f a" "\<not> prefix f b"
    with eq show ?thesis by (simp add: move_key_def)
  qed
qed

lemma option_eqI: "(\<And>x. a = Some x \<longleftrightarrow> b = Some x) \<Longrightarrow> a = b"
  by (cases a; cases b) auto

text \<open>A move of \<open>f\<close> to \<open>t\<close>, where nothing is below \<open>t\<close>.\<close>

lemma node_at_move:
  assumes ok: "fs_ok fs" and ft: "f \<noteq> []" "t \<noteq> []" "\<not> prefix f t" "\<And>d. d \<noteq> [] \<Longrightarrow> node_at fs (t @ d) = None"
    and fs': "fs_tree fs' = move_tree f t (fs_tree fs)"
  shows "distinct (map fst (fs_tree fs'))" "[] \<notin> fst ` set (fs_tree fs')"
    "node_at fs' k = (if prefix t k then node_at fs (f @ drop (length t) k) else if prefix f k then None else node_at fs k)"
proof -
  let ?K = "fst ` set (fs_tree fs)" and ?g = "move_key f t"
  let ?tr = "filter (\<lambda>(k, n). k \<noteq> t) (fs_tree fs)"
  have no: "t @ d \<notin> ?K" if "d \<noteq> []" for d
    using ft(2) ft(4) [OF that] by (auto simp: node_at_def map_of_eq_None_iff)
  have keys: "map fst (fs_tree fs') = map ?g (map fst ?tr)" by (auto simp: fs' move_tree_def)
  have dis: "distinct (map fst ?tr)" using fs_okD(4) [OF ok] by (simp add: distinct_map_filter)
  have sub: "set (map fst ?tr) = ?K - {t}" by force
  have inj: "inj_on ?g (?K - {t})" by (rule move_key_inj [OF ft(3)]) (rule no)
  show dist: "distinct (map fst (fs_tree fs'))"
    unfolding keys using dis inj by (subst distinct_map) (simp only: sub)
  show ne: "[] \<notin> fst ` set (fs_tree fs')"
    using ft(1,2) fs_okD(5) [OF ok] by (auto simp: fs' move_tree_def move_key_def split: if_splits)
  have mem: "(k, n) \<in> set (fs_tree fs') \<longleftrightarrow> (\<exists>a. (a, n) \<in> set (fs_tree fs) \<and> a \<noteq> t \<and> ?g a = k)" for n
    by (force simp: fs' move_tree_def)
  have src: "(\<exists>a. (a, n) \<in> set (fs_tree fs) \<and> a \<noteq> t \<and> ?g a = k) \<longleftrightarrow>
      (if prefix t k then (f @ drop (length t) k, n) \<in> set (fs_tree fs) else \<not> prefix f k \<and> (k, n) \<in> set (fs_tree fs))" (is "?l \<longleftrightarrow> ?r") for n
  proof
    assume ?l
    then obtain a where a: "(a, n) \<in> set (fs_tree fs)" "a \<noteq> t" "?g a = k" by blast
    then have K: "a \<in> ?K" by force
    show ?r
    proof (cases "prefix f a")
      case True
      then obtain d where "a = f @ d" by (auto simp: prefix_def)
      with a True show ?thesis by (auto simp: move_key_def)
    next
      case False
      with a have "k = a" by (simp add: move_key_def)
      moreover have "\<not> prefix t a"
      proof
        assume "prefix t a"
        then obtain d where "a = t @ d" by (auto simp: prefix_def)
        with no [of d] K a(2) show False by auto
      qed
      ultimately show ?thesis using a False by simp
    qed
  next
    assume r: ?r
    show ?l
    proof (cases "prefix t k")
      case True
      then obtain d where d: "k = t @ d" by (auto simp: prefix_def)
      with r have "(f @ d, n) \<in> set (fs_tree fs)" by simp
      moreover have "f @ d \<noteq> t" using ft(3) by auto
      ultimately show ?thesis using d by (intro exI [of _ "f @ d"]) (simp add: move_key_def)
    next
      case False
      with r show ?thesis by (intro exI [of _ k]) (auto simp: move_key_def)
    qed
  qed
  have main: "node_at fs' k = Some n \<longleftrightarrow>
      (if prefix t k then node_at fs (f @ drop (length t) k) = Some n else \<not> prefix f k \<and> node_at fs k = Some n)" if "k \<noteq> []" for n
    using mem [of n] src [of n] that ft(1) node_at_mem [OF ok, of k n] node_at_mem [OF ok, of "f @ drop (length t) k" n]
      map_of_eq_Some_iff [OF dist, of k n] by (simp add: node_at_def)
  show "node_at fs' k = (if prefix t k then node_at fs (f @ drop (length t) k) else if prefix f k then None else node_at fs k)"
  proof (cases "k = []")
    case False
    show ?thesis by (rule option_eqI) (use main [OF False] in \<open>auto split: if_splits\<close>)
  qed (use ft in \<open>simp add: prefix_def\<close>)
qed

lemma fs_move:
  assumes ok: "fs_ok fs" and ft: "f \<noteq> []" "t \<noteq> []" "\<not> prefix f t" "\<And>d. d \<noteq> [] \<Longrightarrow> node_at fs (t @ d) = None"
    and par: "node_at fs (butlast t) = Some DirNode"
    and fs': "fs_tree fs' = move_tree f t (fs_tree fs)" "fs_next fs' = fs_next fs" "fs_data fs' = fs_data fs"
  shows "fs_ok fs'"
    "fs_files fs' k = (if prefix t k then fs_files fs (f @ drop (length t) k) else if prefix f k then None else fs_files fs k)"
proof -
  note mv = node_at_move [OF ok ft fs'(1)]
  show "fs_files fs' k = (if prefix t k then fs_files fs (f @ drop (length t) k) else if prefix f k then None else fs_files fs k)"
    using mv(3) [of k] fs'(3) by (simp add: fs_files_def cong: option.case_cong fs_node.case_cong)
  show "fs_ok fs'"
    unfolding fs_ok_def
  proof (intro conjI allI impI)
    fix p n
    assume ne: "node_at fs' (p @ [n]) \<noteq> None"
    show "node_at fs' p = Some DirNode"
    proof (cases "prefix t (p @ [n])")
      case True
      then consider "p @ [n] = t" | d where "p = t @ d" by (metis prefixE prefix_snoc)
      then show ?thesis
      proof cases
        case 1
        have "\<not> prefix t p" using 1 by (auto simp: prefix_def)
        moreover have "\<not> prefix f p" using 1 ft(3) by (auto simp: prefix_def)
        ultimately show ?thesis using par 1 [symmetric] mv(3) [of p] by simp
      next
        case (2 d)
        with ne mv(3) [of "p @ [n]"] have "node_at fs ((f @ d) @ [n]) \<noteq> None" by (simp split: if_splits)
        with fs_okD(1) [OF ok] have "node_at fs (f @ d) = Some DirNode" by blast
        with 2 mv(3) [of p] show ?thesis by simp
      qed
    next
      case False
      then have "\<not> prefix t p" by (auto simp: prefix_def)
      moreover have *: "\<not> prefix f (p @ [n])" "node_at fs (p @ [n]) \<noteq> None"
        using False ne mv(3) [of "p @ [n]"] by (auto split: if_splits)
      moreover from *(1) have "\<not> prefix f p" by (auto simp: prefix_def)
      ultimately show ?thesis using fs_okD(1) [OF ok] mv(3) [of p] by simp
    qed
  next
    fix p i
    assume "node_at fs' p = Some (FileNode i)"
    then show "i < fs_next fs'" using fs_okD(2) [OF ok] fs'(2) mv(3) [of p] by (auto split: if_splits)
  next
    fix p q i
    assume p: "node_at fs' p = Some (FileNode i)" and q: "node_at fs' q = Some (FileNode i)"
    let ?o = "\<lambda>k. if prefix t k then f @ drop (length t) k else k"
    have "node_at fs (?o p) = Some (FileNode i)" "node_at fs (?o q) = Some (FileNode i)"
      "prefix t p \<or> \<not> prefix f p" "prefix t q \<or> \<not> prefix f q"
      using p q mv(3) [of p] mv(3) [of q] by (auto split: if_splits)
    moreover from this have "?o p = ?o q" using fs_okD(3) [OF ok] by blast
    ultimately show "p = q" by (auto split: if_splits simp: prefix_def)
  qed (use mv in auto)
qed

lemma no_children:
  assumes ok: "fs_ok fs" and nd: "node_at fs t \<noteq> Some DirNode \<or> dir_children fs t = []"
  shows "d \<noteq> [] \<Longrightarrow> node_at fs (t @ d) = None"
proof (rule ccontr)
  assume "d \<noteq> []" "node_at fs (t @ d) \<noteq> None"
  then obtain x d' where d: "d = x # d'" by (cases d) auto
  then have child: "node_at fs (t @ [x]) \<noteq> None"
    using fs_ok_prefix [OF ok, of "t @ [x]" d'] \<open>node_at fs (t @ d) \<noteq> None\<close> by (cases d') auto
  then have "node_at fs t = Some DirNode" using fs_okD(1) [OF ok] by blast
  moreover obtain n where "(t @ [x], n) \<in> set (fs_tree fs)"
    using child node_at_mem [OF ok, of "t @ [x]"] by auto
  then have "(x, n) \<in> set (dir_children fs t)" by (force simp: dir_children_def)
  ultimately show False using nd by auto
qed

lemma dir_children_child: "fs_ok fs \<Longrightarrow> dir_children fs q = [] \<Longrightarrow> node_at fs (q @ [x]) = None"
  using no_children [of fs q "[x]"] by simp

lemma file_no_children: "fs_ok fs \<Longrightarrow> node_at fs q = Some (FileNode i) \<Longrightarrow> d \<noteq> [] \<Longrightarrow> node_at fs (q @ d) = None"
  using no_children [of fs q d] by simp

lemma rename_at_cases:
  assumes "rename_at f t fs = (r, fs')"
  obtains e where "r = Inl e" "fs' = fs"
  | "r = Inr ()" "f = t" "fs' = fs"
  | "r = Inr ()" "f \<noteq> t" "f \<noteq> []" "t \<noteq> []" "\<not> prefix f t" "node_at fs t \<noteq> Some DirNode \<or> dir_children fs t = []"
      "fs' = fs\<lparr>fs_tree := move_tree f t (fs_tree fs)\<rparr>"
proof (cases "node_at fs f")
  case None
  with assms that(1) show ?thesis by (auto simp: rename_at_def)
next
  case (Some nf)
  consider "f = t" | "f \<noteq> t" "f = [] \<or> t = [] \<or> prefix f t" | "f \<noteq> t" "f \<noteq> []" "t \<noteq> []" "\<not> prefix f t" by blast
  then show ?thesis
  proof cases
    case 1
    with assms Some that(2) show ?thesis by (simp add: rename_at_def)
  next
    case 2
    with assms Some that(1) show ?thesis by (cases "f = [] \<or> t = []") (auto simp: rename_at_def Let_def)
  next
    case 3
    note res = assms [unfolded rename_at_def Let_def, simplified Some option.case if_not_P [OF 3(1)] 3(2-4) if_False simp_thms]
    show ?thesis
    proof (cases "node_at fs t")
      case None
      with res that(3) 3 show ?thesis by simp
    next
      case t: (Some nt)
      have "(\<exists>e. r = Inl e) \<and> fs' = fs \<or> r = Inr () \<and> (nt \<noteq> DirNode \<or> dir_children fs t = [])
          \<and> fs' = fs\<lparr>fs_tree := move_tree f t (fs_tree fs)\<rparr>"
        using res t by (cases nt) (auto split: if_splits)
      then show ?thesis
      proof (elim disjE conjE exE)
        fix e assume "r = Inl e" "fs' = fs"
        then show ?thesis by (rule that(1))
      qed (rule that(3); use 3 t in simp)+
    qed
  qed
qed

lemma sys_rename_spec:
  assumes "fs_ok fs" "sys_rename p p' fs = (r, fs')"
  shows "case r of Inl e \<Rightarrow> \<exists>es. fs' = fs\<lparr>fs_events := es\<rparr>
    | Inr u \<Rightarrow> fs_ok fs' \<and> (\<exists>f t. locate fs p = Inr f \<and> locate fs p' = Inr t
        \<and> (if f = t then fs_files fs' = fs_files fs
           else (\<forall>d. d \<noteq> [] \<longrightarrow> node_at fs (t @ d) = None) \<and> (\<forall>k. fs_files fs' k =
             (if prefix t k then fs_files fs (f @ drop (length t) k) else if prefix f k then None else fs_files fs k))))"
  using assms(2) unfolding sys_rename_def
proof (cases rule: sys_at_cases)
  case (2 es f)
  show ?thesis
  proof (cases "locate fs p'")
    case (Inl e)
    with 2 show ?thesis by auto
  next
    case (Inr t)
    have par: "node_at fs (butlast t) = Some DirNode" if "t \<noteq> []"
    proof (cases "node_at fs t")
      case None
      with locate_parent [OF assms(1) Inr] show ?thesis by simp
    next
      case (Some n)
      with that fs_ok_prefix [OF assms(1), of "butlast t" "[last t]"] show ?thesis by simp
    qed
    from 2(2) Inr have "rename_at f t (fs\<lparr>fs_events := es\<rparr>) = (r, fs')" by simp
    then show ?thesis
    proof (cases rule: rename_at_cases)
      case 2
      with \<open>locate fs p = Inr f\<close> Inr assms(1) show ?thesis by auto
    next
      case 3
      have no: "d \<noteq> [] \<Longrightarrow> node_at fs (t @ d) = None" for d using no_children [OF assms(1), of t] 3(6) by simp
      note mv = fs_move [OF assms(1) 3(3,4,5) no par [OF 3(4)], of fs']
      have "fs_ok fs'" using mv(1) 3(7) by simp
      moreover have "\<forall>k. fs_files fs' k = (if prefix t k then fs_files fs (f @ drop (length t) k) else if prefix f k then None else fs_files fs k)"
        using mv(2) 3(7) by simp
      ultimately show ?thesis using 3(1,2) \<open>locate fs p = Inr f\<close> Inr no by auto
    qed auto
  qed
qed auto

lemma sys_rename_file:
  assumes "fs_ok fs" "locate fs p = Inr f" "node_at fs f = Some (FileNode i)" "sys_rename p p' fs = (Inr (), fs')"
  shows "fs_ok fs' \<and> (\<exists>t. locate fs p' = Inr t \<and> fs_files fs' = (fs_files fs)(f := None, t := fs_files fs f))"
proof -
  obtain t where t: "fs_ok fs'" "locate fs p' = Inr t"
    and eq: "f = t \<Longrightarrow> fs_files fs' = fs_files fs"
    and mv: "f \<noteq> t \<Longrightarrow> (\<forall>d. d \<noteq> [] \<longrightarrow> node_at fs (t @ d) = None) \<and> (\<forall>k. fs_files fs' k =
      (if prefix t k then fs_files fs (f @ drop (length t) k) else if prefix f k then None else fs_files fs k))"
  proof -
    note s = sys_rename_spec [OF assms(1,4), unfolded sum.case]
    then obtain f' t where "locate fs p = Inr f'" "locate fs p' = Inr t" "fs_ok fs'"
      "if f' = t then fs_files fs' = fs_files fs
       else (\<forall>d. d \<noteq> [] \<longrightarrow> node_at fs (t @ d) = None) \<and> (\<forall>k. fs_files fs' k =
         (if prefix t k then fs_files fs (f' @ drop (length t) k) else if prefix f' k then None else fs_files fs k))"
      by blast
    with that [of t] assms(2) show ?thesis by (cases "f = t") simp_all
  qed
  have below: "fs_files fs (f @ d) = None" if "d \<noteq> []" for d
    using file_no_children [OF assms(1,3) that] by (simp add: fs_files_def)
  show ?thesis
  proof (cases "f = t")
    case True
    with eq t show ?thesis by auto
  next
    case False
    have "fs_files fs' k = ((fs_files fs)(f := None, t := fs_files fs f)) k" for k
    proof -
      have free: "fs_files fs (t @ d) = None" if "d \<noteq> []" for d
        using mv [OF False] that by (simp add: fs_files_def)
      have main: "fs_files fs' k = (if prefix t k then fs_files fs (f @ drop (length t) k) else if prefix f k then None else fs_files fs k)"
        using mv [OF False] by blast
      show ?thesis
      proof (cases "prefix t k")
        case True
        then obtain d where k: "k = t @ d" by (auto simp: prefix_def)
        show ?thesis
        proof (cases "d = []")
          case False
          then show ?thesis using main k below [of d] free [of d] by (cases "k = f") auto
        qed (use main k in simp)
      next
        case not_t: False
        then have "k \<noteq> t" by auto
        show ?thesis
        proof (cases "prefix f k")
          case True
          then obtain d where k: "k = f @ d" by (auto simp: prefix_def)
          with below [of d] main not_t True \<open>k \<noteq> t\<close> show ?thesis by (cases "d = []") auto
        next
          case no: False
          then have "k \<noteq> f" by auto
          with main not_t no \<open>k \<noteq> t\<close> show ?thesis by simp
        qed
      qed
    qed
    with t show ?thesis by auto
  qed
qed

end
