(* ===== verification/Fs.thy ===== *)
theory Fs
  imports FileSystem Writers Listers Accessors Deleters
begin

text \<open>
  The file system service (\<^verbatim>\<open>core/src/services/fs\<close>): core, reader, writer, lister, deleter, accessor and builder, over the calls of
  \<open>FileSystem\<close>. The state of the service is the disk, the pool of read buffers, and a state \<open>'x\<close> for what happens
  elsewhere: the executor of the position writer and the generator of UUIDs.

  \<^verbatim>\<open>tokio::fs\<close> runs the call of \<^verbatim>\<open>std::fs\<close> with the same name on another thread, so that the two halves of the service differ where
  their code does: in the writer and its \<open>close\<close>. A \<open>write\<close> to a tokio file is taken to be done when it returns. The loop
  of \<open>write\<close> need not end (a buffer may have an empty part, and \<open>write\<close> may return 0 for ever): \<open>fs_write_loop\<close> is then \<open>None\<close>, which
  a writer passes on as \<open>Panic\<close>, since it does not return either, and a task as an error of joining it.
\<close>

subsection \<open>The state of the service\<close>

record 'x fs_world =
  fw_disk :: file_system
  fw_pool :: pooled_buf
  fw_locks :: "bool list"
  fw_exec :: 'x

definition std_io_err :: "io_error \<Rightarrow> 'a res" where
  "std_io_err e = (case new_std_io_error e of Ok err \<Rightarrow> Err err | Err err \<Rightarrow> Err err | Panic \<Rightarrow> Panic)"

text \<open>A call of \<^verbatim>\<open>std::fs\<close> followed by \<^verbatim>\<open>.map_err(new_std_io_error)\<close>.\<close>

definition on_disk :: "'a sys \<Rightarrow> 'x fs_world \<Rightarrow> 'a res \<times> 'x fs_world" where
  "on_disk f w =
     (case f (fw_disk w) of
        (Inr a, d) \<Rightarrow> (Ok a, w\<lparr>fw_disk := d\<rparr>)
      | (Inl e, d) \<Rightarrow> (std_io_err e, w\<lparr>fw_disk := d\<rparr>))"

text \<open>Whether the next \<open>try_lock\<close> of the pool finds it locked.\<close>

definition try_pool :: "'x fs_world \<Rightarrow> bool \<times> 'x fs_world" where
  "try_pool w = (case fw_locks w of [] \<Rightarrow> (False, w) | l # ls \<Rightarrow> (l, w\<lparr>fw_locks := ls\<rparr>))"

definition on_exec :: "('x \<Rightarrow> 'a \<times> 'x) \<Rightarrow> 'x fs_world \<Rightarrow> 'a \<times> 'x fs_world" where
  "on_exec f w = (case f (fw_exec w) of (a, x) \<Rightarrow> (a, w\<lparr>fw_exec := x\<rparr>))"

definition fs_executor :: "'x executor \<Rightarrow> 'x fs_world executor" where
  "fs_executor ex = \<lparr>ex_timeout = on_exec (ex_timeout ex), ex_delay = on_exec (ex_delay ex)\<rparr>"

subsection \<open>Core\<close>

record fs_core =
  fc_root :: path_buf
  fc_atomic_write_dir :: "path_buf option"

definition malformed_path :: "path_buf \<Rightarrow> error" where
  "malformed_path p =
     with_context ''input'' (path_display p)
       (new_error Unexpected ''path should have parent but not, it must be malformed'')"

definition ensure_write_abs_path :: "path_buf \<Rightarrow> string \<Rightarrow> 'x fs_world \<Rightarrow> path_buf res \<times> 'x fs_world" where
  "ensure_write_abs_path parent path w =
     (let p = path_join parent path in
      case path_parent p of
        None \<Rightarrow> (Err (malformed_path p), w)
      | Some q \<Rightarrow> step (on_disk (sys_create_dir_all q) w) (\<lambda>u w. (Ok p, w)))"

definition tmp_file_of :: "string \<Rightarrow> string \<Rightarrow> string" where
  "tmp_file_of uuid path = get_basename path @ ''.'' @ uuid"

definition trim_end_slash :: "string \<Rightarrow> string" where
  "trim_end_slash s = rev (dropWhile (\<lambda>c. c = CHR ''/'') (rev s))"

definition fs_path :: "fs_core \<Rightarrow> string \<Rightarrow> path_buf" where
  "fs_path core path = path_join (fc_root core) (trim_end_slash path)"

subsection \<open>Reader\<close>

record fs_reader =
  fsr_f :: file_handle
  fsr_done :: nat
  fsr_size :: nat
  fsr_buf_size :: nat

definition fsr_new :: "file_handle \<Rightarrow> nat \<Rightarrow> fs_reader" where
  "fsr_new f sz = \<lparr>fsr_f = f, fsr_done = 0, fsr_size = sz, fsr_buf_size = 2 * 1024 * 1024\<rparr>"

text \<open>
  A buffer comes from the pool, is filled behind what it holds, cut to the number of bytes that were read, and what is left of it goes back.
  When the call fails the buffer is dropped.
\<close>

definition fsr_read :: "fs_reader \<Rightarrow> 'x fs_world \<Rightarrow> buffer res \<times> fs_reader \<times> 'x fs_world" where
  "fsr_read st w =
     (if fsr_size st \<le> fsr_done st then (Ok buf_new, st, w)
      else
        let (l, w1) = try_pool w;
            (bs, pool) = pooled_get l (fw_pool w1);
            w2 = w1\<lparr>fw_pool := pool\<rparr>;
            sz = min (fsr_size st - fsr_done st) (fsr_buf_size st)
        in case on_disk (sys_read sz (fsr_f st)) w2 of
             (Ok (data, f), w3) \<Rightarrow>
               (let n = length data;
                    st' = st\<lparr>fsr_f := f, fsr_done := fsr_done st + n\<rparr>;
                    frozen = take n (bm_bytes bs @ data);
                    (l', w4) = try_pool w3
                in (Ok (Contiguous frozen), st', w4\<lparr>fw_pool := pooled_put l' (bs\<lparr>bm_bytes := []\<rparr>) (fw_pool w4)\<rparr>))
           | (Err e, w3) \<Rightarrow> (Err e, st, w3)
           | (Panic, w3) \<Rightarrow> (Panic, st, w3))"

subsection \<open>Writers\<close>

record fs_writer =
  fsw_target :: path_buf
  fsw_tmp :: "path_buf option"
  fsw_f :: "file_handle option"

partial_function (option) fs_write_loop ::
  "(bytes \<Rightarrow> 's \<Rightarrow> nat res \<times> 's) \<Rightarrow> buffer \<Rightarrow> 's \<Rightarrow> (unit res \<times> 's) option" where
  "fs_write_loop write_op bs s =
     (if buf_len bs = 0 then Some (Ok (), s)
      else case buf_chunk bs of
          Err e \<Rightarrow> Some (Err e, s)
        | Panic \<Rightarrow> Some (Panic, s)
        | Ok chunk \<Rightarrow>
            (case write_op chunk s of
               (Err e, s') \<Rightarrow> Some (Err e, s')
             | (Panic, s') \<Rightarrow> Some (Panic, s')
             | (Ok n, s') \<Rightarrow>
                 (case buf_advance n bs of
                    Ok bs' \<Rightarrow> fs_write_loop write_op bs' s'
                  | Err e \<Rightarrow> Some (Err e, s')
                  | Panic \<Rightarrow> Some (Panic, s'))))"

declare fs_write_loop.simps [code]

text \<open>One \<open>write\<close> at the cursor of the file.\<close>

definition seq_write :: "bytes \<Rightarrow> file_handle \<times> 'x fs_world \<Rightarrow> nat res \<times> file_handle \<times> 'x fs_world" where
  "seq_write chunk = (\<lambda>(h, w).
     case on_disk (sys_write chunk h) w of
       (Ok (n, h'), w') \<Rightarrow> (Ok n, h', w')
     | (Err e, w') \<Rightarrow> (Err e, h, w')
     | (Panic, w') \<Rightarrow> (Panic, h, w'))"

definition fsw_write :: "buffer \<Rightarrow> fs_writer \<Rightarrow> 'x fs_world \<Rightarrow> unit res \<times> fs_writer \<times> 'x fs_world" where
  "fsw_write bs st w =
     (case fsw_f st of
        None \<Rightarrow> (Panic, st, w)
      | Some h \<Rightarrow>
          (case fs_write_loop seq_write bs (h, w) of
             None \<Rightarrow> (Panic, st, w)
           | Some (r, h', w') \<Rightarrow> (r, st\<lparr>fsw_f := Some h'\<rparr>, w')))"

text \<open>The end of both closes: the data is on the disk, then the file gets its name.\<close>

definition fsw_publish :: "fs_writer \<Rightarrow> file_handle \<Rightarrow> 'x fs_world \<Rightarrow> unit res \<times> 'x fs_world" where
  "fsw_publish st h w =
     step (on_disk (sys_sync_all h) w) (\<lambda>u w.
       case fsw_tmp st of None \<Rightarrow> (Ok (), w) | Some tmp \<Rightarrow> on_disk (sys_rename tmp (fsw_target st)) w)"

definition fsw_close :: "fs_writer \<Rightarrow> 'x fs_world \<Rightarrow> unit res \<times> fs_writer \<times> 'x fs_world" where
  "fsw_close st w =
     (case fsw_f st of
        None \<Rightarrow> (Panic, st, w)
      | Some h \<Rightarrow> (case fsw_publish st h w of (r, w') \<Rightarrow> (r, st, w')))"

definition fsw_abort :: "fs_writer \<Rightarrow> 'x fs_world \<Rightarrow> unit res \<times> 'x fs_world" where
  "fsw_abort st w =
     (case fsw_tmp st of
        Some tmp \<Rightarrow> on_disk (sys_remove_file tmp) w
      | None \<Rightarrow> (Err (new_error Unsupported ''Fs doesn't support abort if atomic_write_dir is not set''), w))"

definition fsw_blocking_close :: "fs_writer \<Rightarrow> 'x fs_world \<Rightarrow> unit res \<times> fs_writer \<times> 'x fs_world" where
  "fsw_blocking_close st w =
     (case fsw_f st of
        None \<Rightarrow> (Ok (), st, w)
      | Some h \<Rightarrow> (case fsw_publish st h w of (r, w') \<Rightarrow> (r, st\<lparr>fsw_f := None\<rparr>, w')))"

text \<open>Writing at a position: the loop runs in a task of its own, whose panic is an error for the one who waits.\<close>

definition task_join_error :: error where
  "task_join_error = new_error Unexpected ''tokio task join failed''"

definition res_io :: "'a res \<Rightarrow> error \<Rightarrow> 'a io" where
  "res_io r join_err = (case r of Ok a \<Rightarrow> Inr a | Err e \<Rightarrow> Inl e | Panic \<Rightarrow> Inl join_err)"

definition offset_add :: "u64 \<Rightarrow> nat \<Rightarrow> u64 res" where
  "offset_add off n = guard (unat off + n \<le> u64_max) (Ok (off + of_nat n))"

definition at_write ::
  "file_handle \<Rightarrow> bytes \<Rightarrow> u64 \<times> 'x fs_world \<Rightarrow> nat res \<times> u64 \<times> 'x fs_world" where
  "at_write h chunk = (\<lambda>(off, w).
     case on_disk (sys_write_at h chunk (unat off)) w of
       (Ok n, w') \<Rightarrow>
         (case offset_add off n of
            Ok off' \<Rightarrow> (Ok n, off', w') | Err e \<Rightarrow> (Err e, off, w') | Panic \<Rightarrow> (Panic, off, w'))
     | (Err e, w') \<Rightarrow> (Err e, off, w')
     | (Panic, w') \<Rightarrow> (Panic, off, w'))"

definition fsw_write_all_at :: "fs_writer \<Rightarrow> u64 \<Rightarrow> buffer \<Rightarrow> 'x fs_world \<Rightarrow> unit io \<times> 'x fs_world" where
  "fsw_write_all_at st offset buf w =
     (case fsw_f st of
        None \<Rightarrow> (Inl task_join_error, w)
      | Some h0 \<Rightarrow>
          (case on_disk (sys_try_clone h0) w of
             (Ok h, w1) \<Rightarrow>
               (case fs_write_loop (at_write h) buf (offset, w1) of
                  None \<Rightarrow> (Inl task_join_error, w1)
                | Some (r, off, w2) \<Rightarrow> (res_io r task_join_error, w2))
           | (Err e, w1) \<Rightarrow> (Inl e, w1)
           | (Panic, w1) \<Rightarrow> (Inl task_join_error, w1)))"

definition fsw_position_close :: "fs_writer \<Rightarrow> 'x fs_world \<Rightarrow> unit io \<times> 'x fs_world" where
  "fsw_position_close st w =
     (case fsw_f st of
        None \<Rightarrow> (Inl task_join_error, w)
      | Some h0 \<Rightarrow>
          (case step (on_disk (sys_try_clone h0) w) (fsw_publish st) of (r, w') \<Rightarrow> (res_io r task_join_error, w')))"

definition fs_position_write :: "fs_writer \<Rightarrow> 'x fs_world position_write" where
  "fs_position_write st =
     \<lparr>pw_write_all_at = fsw_write_all_at st, pw_close_file = fsw_position_close st,
      pw_abort_file = (\<lambda>w. case fsw_abort st w of (r, w') \<Rightarrow> (res_io r task_join_error, w'))\<rparr>"

text \<open>\<open>FsWriters\<close>: the file itself for appending, and a position writer for everything else.\<close>

datatype fs_writers = OneWay fs_writer | TwoWay fs_writer position_writer

fun fs_writer_write :: "'x executor \<Rightarrow> buffer \<Rightarrow> fs_writers \<Rightarrow> 'x fs_world \<Rightarrow> unit res \<times> fs_writers \<times> 'x fs_world" where
  "fs_writer_write ex bs (OneWay st) w = (case fsw_write bs st w of (r, st', w') \<Rightarrow> (r, OneWay st', w'))"
| "fs_writer_write ex bs (TwoWay st pw) w =
     (case pw_write (fs_executor ex) (fs_position_write st) bs (pw, w) of (r, pw', w') \<Rightarrow> (r, TwoWay st pw', w'))"

fun fs_writer_close :: "'x executor \<Rightarrow> fs_writers \<Rightarrow> 'x fs_world \<Rightarrow> unit res \<times> fs_writers \<times> 'x fs_world" where
  "fs_writer_close ex (OneWay st) w = (case fsw_close st w of (r, st', w') \<Rightarrow> (r, OneWay st', w'))"
| "fs_writer_close ex (TwoWay st pw) w =
     (case pw_close (fs_executor ex) (fs_position_write st) (pw, w) of (r, pw', w') \<Rightarrow> (r, TwoWay st pw', w'))"

fun fs_writer_abort :: "fs_writers \<Rightarrow> 'x fs_world \<Rightarrow> unit res \<times> fs_writers \<times> 'x fs_world" where
  "fs_writer_abort (OneWay st) w = (case fsw_abort st w of (r, w') \<Rightarrow> (r, OneWay st, w'))"
| "fs_writer_abort (TwoWay st pw) w =
     (case pw_abort (fs_position_write st) (pw, w) of (r, pw', w') \<Rightarrow> (r, TwoWay st pw', w'))"

subsection \<open>Lister\<close>

record fs_lister =
  fl_root :: path_buf
  fl_current :: "string option"
  fl_dir :: path_buf
  fl_rd :: "(string \<times> fs_node) list"

definition backslash_to_slash :: "string \<Rightarrow> string" where
  "backslash_to_slash s = map (\<lambda>c. if c = CHR 0x5C then CHR ''/'' else c) s"

definition fl_entry :: "path_buf \<Rightarrow> path_buf \<Rightarrow> string \<times> fs_node \<Rightarrow> oio_entry res" where
  "fl_entry root dir = (\<lambda>(name, node).
     case path_strip_prefix (PathBuf (path_absolute dir) (path_segs dir @ [name])) root of
       None \<Rightarrow> Panic
     | Some p \<Rightarrow>
         (let rel_path = normalize_path (backslash_to_slash (path_display p)) in
          case node of
            DirNode \<Rightarrow> entry_with (rel_path @ ''/'') (metadata_new DIR)
          | FileNode i \<Rightarrow> entry_with rel_path (metadata_new FILE)))"

text \<open>After an error of \<^verbatim>\<open>readdir\<close> the iterator of \<^verbatim>\<open>std\<close> is at its end.\<close>

definition fl_next :: "fs_lister \<Rightarrow> 'x fs_world \<Rightarrow> oio_entry option res \<times> fs_lister \<times> 'x fs_world" where
  "fl_next st w =
     (case fl_current st of
        Some path \<Rightarrow> (and_then (entry_with path (metadata_new DIR)) (\<lambda>e. Ok (Some e)), st\<lparr>fl_current := None\<rparr>, w)
      | None \<Rightarrow>
          (case on_disk (sys_next_entry (fl_rd st)) w of
             (Ok (None, rd), w') \<Rightarrow> (Ok None, st\<lparr>fl_rd := rd\<rparr>, w')
           | (Ok (Some de, rd), w') \<Rightarrow>
               (and_then (fl_entry (fl_root st) (fl_dir st) de) (\<lambda>e. Ok (Some e)), st\<lparr>fl_rd := rd\<rparr>, w')
           | (Err e, w') \<Rightarrow> (Err e, st\<lparr>fl_rd := []\<rparr>, w')
           | (Panic, w') \<Rightarrow> (Panic, st, w')))"

subsection \<open>Deleter\<close>

definition fs_delete_once :: "fs_core \<Rightarrow> string \<Rightarrow> op_delete \<Rightarrow> 'x fs_world \<Rightarrow> unit res \<times> 'x fs_world" where
  "fs_delete_once core path args w =
     (let p = fs_path core path in
      case sys_metadata p (fw_disk w) of
        (Inr meta, d) \<Rightarrow>
          (let w1 = w\<lparr>fw_disk := d\<rparr> in
           if fm_is_dir meta then on_disk (sys_remove_dir p) w1 else on_disk (sys_remove_file p) w1)
      | (Inl err, d) \<Rightarrow>
          (let w1 = w\<lparr>fw_disk := d\<rparr> in if ioe_kind err = IoNotFound then (Ok (), w1) else (std_io_err err, w1)))"

subsection \<open>Accessor\<close>

definition fs_create_dir :: "fs_core \<Rightarrow> string \<Rightarrow> 'x fs_world \<Rightarrow> unit res \<times> 'x fs_world" where
  "fs_create_dir core path w = on_disk (sys_create_dir_all (fs_path core path)) w"

text \<open>What else the file system says about a name: the size of a directory and the time of the last change.\<close>

type_synonym fs_info = "file_system \<Rightarrow> string list \<Rightarrow> nat \<times> (io_error + datetime)"

definition fs_stat :: "fs_info \<Rightarrow> fs_core \<Rightarrow> string \<Rightarrow> 'x fs_world \<Rightarrow> metadata res \<times> 'x fs_world" where
  "fs_stat info core path w =
     step (on_disk (sys_metadata (fs_path core path)) w) (\<lambda>meta w.
       let mode = (if fm_is_dir meta then DIR else FILE);
           (dir_len, modified) = info (fw_disk w) (fm_name meta);
           len = (if fm_is_dir meta then dir_len else fm_file_len meta)
       in case modified of
            Inl e \<Rightarrow> (std_io_err e, w)
          | Inr t \<Rightarrow> (Ok ((set_content_length (of_nat len) (metadata_new mode))\<lparr>md_last_modified := Some t\<rparr>), w))"

definition fs_read :: "fs_core \<Rightarrow> string \<Rightarrow> op_read \<Rightarrow> 'x fs_world \<Rightarrow> fs_reader res \<times> 'x fs_world" where
  "fs_read core path args w =
     step (on_disk (sys_open_read (fs_path core path)) w) (\<lambda>f w.
       step (if br_offset (ro_range args) \<noteq> 0 then on_disk (sys_seek (unat (br_offset (ro_range args))) f) w else (Ok f, w)) (\<lambda>f w.
         (Ok (fsr_new f (case br_size (ro_range args) of Some n \<Rightarrow> unat n | None \<Rightarrow> u64_max)), w)))"

text \<open>The paths of a write: the target, and the file that is written first when there is a directory for such files.\<close>

definition fs_write_paths ::
  "('x \<Rightarrow> string \<times> 'x) \<Rightarrow> fs_core \<Rightarrow> string \<Rightarrow> bool \<Rightarrow> 'x fs_world
     \<Rightarrow> (path_buf \<times> path_buf option) res \<times> 'x fs_world" where
  "fs_write_paths uuid core path app w =
     (case fc_atomic_write_dir core of
        Some dir \<Rightarrow>
          step (ensure_write_abs_path (fc_root core) path w) (\<lambda>target w.
            let (u, w) = on_exec uuid w in
            step (ensure_write_abs_path dir (tmp_file_of u path) w) (\<lambda>tmp w.
              if app
              then step (on_disk (sys_try_exists target) w) (\<lambda>e w. (Ok (target, if e then None else Some tmp), w))
              else (Ok (target, Some tmp), w)))
      | None \<Rightarrow> step (ensure_write_abs_path (fc_root core) path w) (\<lambda>p w. (Ok (p, None), w)))"

definition fs_open_writer ::
  "('x \<Rightarrow> string \<times> 'x) \<Rightarrow> fs_core \<Rightarrow> string \<Rightarrow> op_write \<Rightarrow> 'x fs_world \<Rightarrow> fs_writer res \<times> 'x fs_world" where
  "fs_open_writer uuid core path args w =
     step (fs_write_paths uuid core path (wo_append args) w) (\<lambda>(target, tmp) w.
       step (on_disk (sys_open_write (wo_append args) (case tmp of Some p \<Rightarrow> p | None \<Rightarrow> target)) w) (\<lambda>f w.
         (Ok \<lparr>fsw_target = target, fsw_tmp = tmp, fsw_f = Some f\<rparr>, w)))"

definition fs_write ::
  "('x \<Rightarrow> string \<times> 'x) \<Rightarrow> fs_core \<Rightarrow> string \<Rightarrow> op_write \<Rightarrow> 'x fs_world \<Rightarrow> fs_writers res \<times> 'x fs_world" where
  "fs_write uuid core path args w =
     step (fs_open_writer uuid core path args w) (\<lambda>st w.
       (Ok (if wo_append args then OneWay st else TwoWay st (pw_new (wo_concurrent args))), w))"

definition fs_list :: "fs_core \<Rightarrow> string \<Rightarrow> op_list \<Rightarrow> 'x fs_world \<Rightarrow> fs_lister option res \<times> 'x fs_world" where
  "fs_list core path args w =
     (let p = fs_path core path in
      case sys_read_dir p (fw_disk w) of
        (Inl e, d) \<Rightarrow>
          (let w1 = w\<lparr>fw_disk := d\<rparr> in if ioe_kind e = IoNotFound then (Ok None, w1) else (std_io_err e, w1))
      | (Inr rd, d) \<Rightarrow>
          (Ok (Some \<lparr>fl_root = fc_root core, fl_current = Some path, fl_dir = p, fl_rd = rd\<rparr>), w\<lparr>fw_disk := d\<rparr>))"

text \<open>\<open>copy\<close> and \<open>rename\<close> differ in the last call.\<close>

definition fs_from_to ::
  "(path_buf \<Rightarrow> path_buf \<Rightarrow> unit sys) \<Rightarrow> fs_core \<Rightarrow> string \<Rightarrow> string \<Rightarrow> 'x fs_world \<Rightarrow> unit res \<times> 'x fs_world" where
  "fs_from_to call core from to w =
     (let p = fs_path core from in
      step (on_disk (sys_metadata p) w) (\<lambda>m w.
        step (ensure_write_abs_path (fc_root core) (trim_end_slash to) w) (\<lambda>q w. on_disk (call p q) w)))"

definition fs_copy :: "fs_core \<Rightarrow> string \<Rightarrow> string \<Rightarrow> 'x fs_world \<Rightarrow> unit res \<times> 'x fs_world" where
  "fs_copy = fs_from_to sys_copy"

definition fs_rename :: "fs_core \<Rightarrow> string \<Rightarrow> string \<Rightarrow> 'x fs_world \<Rightarrow> unit res \<times> 'x fs_world" where
  "fs_rename = fs_from_to sys_rename"

definition fs_capability :: capability where
  "fs_capability = capability_default
     \<lparr>cap_stat := True, cap_stat_has_content_length := True, cap_stat_has_last_modified := True, cap_read := True,
      cap_write := True, cap_write_can_empty := True, cap_write_can_append := True, cap_write_can_multi := True,
      cap_create_dir := True, cap_delete := True, cap_list := True, cap_copy := True, cap_rename := True,
      cap_blocking := True, cap_shared := True\<rparr>"

definition fs_accessor_info :: "fs_core \<Rightarrow> accessor_info" where
  "fs_accessor_info core =
     set_native_capability fs_capability
       \<lparr>ai_scheme = ''fs'', ai_root = path_display (fc_root core), ai_name = '''',
        ai_native_capability = capability_default, ai_full_capability = capability_default\<rparr>"

text \<open>A missing directory has no lister, and the lister \<open>None\<close> has no entries.\<close>

definition fs_access ::
  "'x executor \<Rightarrow> ('x \<Rightarrow> string \<times> 'x) \<Rightarrow> fs_info \<Rightarrow> fs_core
     \<Rightarrow> (fs_reader, fs_writers, fs_lister option, request option, 'x fs_world) access" where
  "fs_access ex uuid info core =
     \<lparr>ac_info = fs_accessor_info core,
      ac_create_dir = fs_create_dir core,
      ac_stat = (\<lambda>path args w. Some (fs_stat info core path w)),
      ac_read = fs_read core,
      ac_write = fs_write uuid core,
      ac_delete = (\<lambda>w. (Ok None, w)),
      ac_list = fs_list core,
      ac_copy = fs_copy core,
      ac_rename = fs_rename core,
      ac_reader_read = fsr_read,
      ac_writer_write = fs_writer_write ex,
      ac_writer_close = fs_writer_close ex,
      ac_writer_abort = fs_writer_abort,
      ac_lister_next = (\<lambda>l w. case l of
          None \<Rightarrow> Some (Ok None, None, w)
        | Some l \<Rightarrow> (case fl_next l w of (r, l', w') \<Rightarrow> Some (r, Some l', w'))),
      ac_deleter_delete = (\<lambda>path args d w. osd_delete path args (d, w)),
      ac_deleter_flush = (\<lambda>d w. osd_flush (fs_delete_once core) (d, w))\<rparr>"

text \<open>The blocking half: only the writer is another one. A blocking writer has no \<open>abort\<close>.\<close>

definition fs_blocking_access ::
  "('x \<Rightarrow> string \<times> 'x) \<Rightarrow> fs_info \<Rightarrow> fs_core
     \<Rightarrow> (fs_reader, fs_writer, fs_lister option, request option, 'x fs_world) access" where
  "fs_blocking_access uuid info core =
     \<lparr>ac_info = fs_accessor_info core,
      ac_create_dir = fs_create_dir core,
      ac_stat = (\<lambda>path args w. Some (fs_stat info core path w)),
      ac_read = fs_read core,
      ac_write = fs_open_writer uuid core,
      ac_delete = (\<lambda>w. (Ok None, w)),
      ac_list = fs_list core,
      ac_copy = fs_copy core,
      ac_rename = fs_rename core,
      ac_reader_read = fsr_read,
      ac_writer_write = fsw_write,
      ac_writer_close = fsw_blocking_close,
      ac_writer_abort = (\<lambda>st w. (Panic, st, w)),
      ac_lister_next = (\<lambda>l w. case l of
          None \<Rightarrow> Some (Ok None, None, w)
        | Some l \<Rightarrow> (case fl_next l w of (r, l', w') \<Rightarrow> Some (r, Some l', w'))),
      ac_deleter_delete = (\<lambda>path args d w. osd_delete path args (d, w)),
      ac_deleter_flush = (\<lambda>d w. osd_flush (fs_delete_once core) (d, w))\<rparr>"

subsection \<open>Builder\<close>

record fs_config =
  fcfg_root :: "string option"
  fcfg_atomic_write_dir :: "string option"

definition fsb_root :: "string \<Rightarrow> fs_config \<Rightarrow> fs_config" where
  "fsb_root root cfg = cfg\<lparr>fcfg_root := if root = [] then None else Some root\<rparr>"

definition fsb_atomic_write_dir :: "string \<Rightarrow> fs_config \<Rightarrow> fs_config" where
  "fsb_atomic_write_dir dir cfg = (if dir \<noteq> [] then cfg\<lparr>fcfg_atomic_write_dir := Some dir\<rparr> else cfg)"

definition fs_build_error :: "string \<Rightarrow> string \<Rightarrow> path_buf \<Rightarrow> io_error \<Rightarrow> 'a res" where
  "fs_build_error msg key p e =
     (case set_source (ioe_text e)
             (with_context key (path_display p) (with_operation ''Builder::build'' (new_error Unexpected msg))) of
        Ok err \<Rightarrow> Err err | Err err \<Rightarrow> Err err | Panic \<Rightarrow> Panic)"

text \<open>A directory that is missing is created; other errors of \<open>metadata\<close> are left to the calls that follow.\<close>

definition fs_build_dir :: "string \<Rightarrow> string \<Rightarrow> path_buf \<Rightarrow> file_system \<Rightarrow> unit res \<times> file_system" where
  "fs_build_dir msg key p fs =
     (case sys_metadata p fs of
        (Inr m, fs1) \<Rightarrow> (Ok (), fs1)
      | (Inl e, fs1) \<Rightarrow>
          if ioe_kind e = IoNotFound
          then (case sys_create_dir_all p fs1 of
                  (Inr u, fs2) \<Rightarrow> (Ok (), fs2)
                | (Inl e, fs2) \<Rightarrow> (fs_build_error msg key p e, fs2))
          else (Ok (), fs1))"

definition fs_build_canonical :: "string \<Rightarrow> path_buf \<Rightarrow> path_buf \<Rightarrow> file_system \<Rightarrow> path_buf res \<times> file_system" where
  "fs_build_canonical msg shown p fs =
     (case sys_canonicalize p fs of
        (Inr q, fs1) \<Rightarrow> (Ok q, fs1)
      | (Inl e, fs1) \<Rightarrow> (fs_build_error msg ''root'' shown e, fs1))"

definition fs_build :: "fs_config \<Rightarrow> file_system \<Rightarrow> fs_core res \<times> file_system" where
  "fs_build cfg fs =
     (case fcfg_root cfg of
        None \<Rightarrow> (Err (new_error ConfigInvalid ''root is not specified''), fs)
      | Some r \<Rightarrow>
          (let root = path_from r; dir = map_option path_from (fcfg_atomic_write_dir cfg) in
           step (fs_build_dir ''create root dir failed'' ''root'' root fs) (\<lambda>u fs.
           step (case dir of
                   None \<Rightarrow> (Ok (), fs)
                 | Some d \<Rightarrow> fs_build_dir ''create atomic write dir failed'' ''atomic_write_dir'' d fs) (\<lambda>u fs.
           step (fs_build_canonical ''canonicalize of root directory failed'' root root fs) (\<lambda>root fs.
           step (case dir of
                   None \<Rightarrow> (Ok None, fs)
                 | Some d \<Rightarrow>
                     step (fs_build_canonical ''canonicalize of atomic_write_dir directory failed'' root d fs) (\<lambda>q fs. (Ok (Some q), fs)))
             (\<lambda>dir fs. (Ok \<lparr>fc_root = root, fc_atomic_write_dir = dir\<rparr>, fs)))))))"

definition fs_pool :: pooled_buf where
  "fs_pool = pooled_with_initial_capacity (256 * 1024) (pooled_new 16)"

end
