(* ===== verification/FsWrites.thy ===== *)
theory FsWrites
  imports Fs WriteGen
begin

text \<open>
  What the writers of the file system service put on the disk. The interface \<open>task_effects\<close> follows the effects of spawned tasks on the state of a service, and
  \<open>position_file\<close> carries them through the position writer: whatever tasks fail, run twice or are reported late, every accepted buffer is at its place when
  \<open>close\<close> succeeds. The file system service is an instance, so that a successful write leaves exactly the written bytes and changes no other file.
\<close>

subsection \<open>Calls on the disk\<close>

lemma std_io_err_Err: "\<exists>err. std_io_err e = Err err"
  by (auto simp: std_io_err_def new_std_io_error_def Let_def error_defs split: prod.splits)

lemma on_disk_cases:
  assumes "on_disk f w = (r, w')"
  obtains a where "r = Ok a" "f (fw_disk w) = (Inr a, fw_disk w')" "w' = w\<lparr>fw_disk := fw_disk w'\<rparr>"
  | e err where "r = Err err" "f (fw_disk w) = (Inl e, fw_disk w')" "w' = w\<lparr>fw_disk := fw_disk w'\<rparr>"
proof (cases "f (fw_disk w)")
  case (Pair x d)
  show ?thesis
  proof (cases x)
    case (Inl e)
    obtain err where err: "std_io_err e = (Err err :: 'a res)" using std_io_err_Err by blast
    show ?thesis by (rule that(2) [of err e]) (use Pair Inl assms err in \<open>auto simp: on_disk_def\<close>)
  next
    case (Inr a)
    with that(1) Pair assms show ?thesis by (auto simp: on_disk_def)
  qed
qed

subsection \<open>The write loop\<close>

text \<open>
  \<open>P acc s\<close> says that \<open>acc\<close> has been written; a call that fails may have written a part of its chunk, which \<open>Q\<close> describes.
\<close>

definition writes_chunks ::
  "(bytes \<Rightarrow> 's \<Rightarrow> nat res \<times> 's) \<Rightarrow> (bytes \<Rightarrow> 's \<Rightarrow> bool) \<Rightarrow> (bytes \<Rightarrow> 's \<Rightarrow> bool) \<Rightarrow> bool" where
  "writes_chunks write_op P Q =
     ((\<forall>acc s. P acc s \<longrightarrow> Q acc s)
      \<and> (\<forall>acc chunk s r s'. P acc s \<longrightarrow> write_op chunk s = (r, s') \<longrightarrow>
          (case r of Ok n \<Rightarrow> n \<le> length chunk \<and> P (acc @ take n chunk) s'
           | _ \<Rightarrow> \<exists>m \<le> length chunk. Q (acc @ take m chunk) s')))"

definition loop_result ::
  "(bytes \<Rightarrow> 's \<Rightarrow> bool) \<Rightarrow> (bytes \<Rightarrow> 's \<Rightarrow> bool) \<Rightarrow> bytes \<Rightarrow> buffer \<Rightarrow> unit res \<times> 's \<Rightarrow> bool" where
  "loop_result P Q acc bs y =
     (if fst y = Ok () then P (acc @ buf_bytes bs) (snd y) else \<exists>a b. buf_bytes bs = a @ b \<and> Q (acc @ a) (snd y))"

lemma fs_write_loop_writes:
  assumes "writes_chunks write_op P Q" "fs_write_loop write_op bs s = Some y" "buf_wf bs" "P acc s"
  shows "loop_result P Q acc bs y"
proof -
  let ?I = "\<lambda>f bs s y. f = write_op \<longrightarrow> (\<forall>acc. buf_wf bs \<longrightarrow> P acc s \<longrightarrow> loop_result P Q acc bs y)"
  have "?I write_op bs s y"
  proof (rule fs_write_loop.raw_induct [where P = ?I, OF _ assms(2)], intro impI allI)
    fix loop f bs s y acc
    assume IH: "\<And>f bs s y. loop f bs s = Some y \<Longrightarrow> ?I f bs s y"
      and f: "f = write_op" and wf: "buf_wf bs" and P: "P acc s"
      and st: "(if buf_len bs = 0 then Some (Ok (), s)
        else case buf_chunk bs of
          Ok chunk \<Rightarrow>
            (case f chunk s of
               (Ok n, s') \<Rightarrow>
                 (case buf_advance n bs of
                    Ok bs' \<Rightarrow> loop f bs' s' | Err e \<Rightarrow> Some (Err e, s') | Panic \<Rightarrow> Some (Panic, s'))
             | (Err e, s') \<Rightarrow> Some (Err e, s') | (Panic, s') \<Rightarrow> Some (Panic, s'))
        | Err e \<Rightarrow> Some (Err e, s) | Panic \<Rightarrow> Some (Panic, s)) = Some y"
    show "loop_result P Q acc bs y"
    proof (cases "buf_bytes bs = []")
      case True
      with st wf P show ?thesis by (auto simp: loop_result_def)
    next
      case False
      obtain c r where c: "buf_chunk bs = Ok c" "buf_bytes bs = c @ r" using buf_chunk_spec [OF wf False] by blast
      obtain x s1 where x: "f c s = (x, s1)" by fastforce
      with assms(1) P f have law: "case x of Ok n \<Rightarrow> n \<le> length c \<and> P (acc @ take n c) s1
          | _ \<Rightarrow> \<exists>m \<le> length c. Q (acc @ take m c) s1"
        unfolding writes_chunks_def by blast
      have part: "\<exists>a b. buf_bytes bs = a @ b \<and> Q (acc @ a) s1" if "\<exists>m \<le> length c. Q (acc @ take m c) s1"
        using that c(2) append_take_drop_id append_assoc by metis
      show ?thesis
      proof (cases x)
        case (Ok n)
        with law have n: "n \<le> length c" "P (acc @ take n c) s1" by simp_all
        then have "n \<le> buf_len bs" using c(2) wf by simp
        then obtain bs' where bs': "buf_advance n bs = Ok bs'" "buf_wf bs'" "buf_bytes bs' = drop n (buf_bytes bs)"
          using buf_advance_Ok [OF wf] by blast
        have "buf_len bs \<noteq> 0" using False wf by simp
        with st c(1) x Ok bs'(1) have "loop f bs' s1 = Some y" by simp
        from IH [OF this] f n(2) bs'(2) have res: "loop_result P Q (acc @ take n c) bs' y" by blast
        have eq: "buf_bytes bs = take n c @ buf_bytes bs'" using bs'(3) c(2) n(1) by simp
        show ?thesis
        proof (cases "fst y = Ok ()")
          case False
          with res obtain a b where "buf_bytes bs' = a @ b" "Q ((acc @ take n c) @ a) (snd y)" by (auto simp: loop_result_def)
          with False eq show ?thesis
            unfolding loop_result_def by (simp only: if_False) (rule exI [of _ "take n c @ a"], auto)
        qed (use res eq in \<open>simp add: loop_result_def\<close>)
      next
        case (Err e)
        then have "y = (Err e, s1)" using st c x False wf by (simp split: if_splits)
        moreover have "\<exists>a b. buf_bytes bs = a @ b \<and> Q (acc @ a) s1" using law Err part by simp
        ultimately show ?thesis unfolding loop_result_def by simp
      next
        case Panic
        then have "y = (Panic, s1)" using st c x False wf by (simp split: if_splits)
        moreover have "\<exists>a b. buf_bytes bs = a @ b \<and> Q (acc @ a) s1" using law Panic part by simp
        ultimately show ?thesis unfolding loop_result_def by simp
      qed
    qed
  qed
  with assms(3,4) show ?thesis by blast
qed

text \<open>The loop ends when the parts of the buffer are not empty and a call that writes nothing uses something up.\<close>

lemma fs_write_loop_ends:
  assumes "\<And>chunk s n s'. write_op chunk s = (Ok n, s') \<Longrightarrow> n \<le> length chunk \<and> \<mu> s' \<le> \<mu> s \<and> (n = 0 \<longrightarrow> chunk = [] \<or> \<mu> s' < (\<mu> s :: nat))"
    and "buf_wf bs" "parts_nonempty bs"
  shows "\<exists>y. fs_write_loop write_op bs s = Some y"
  using assms(2,3)
proof (induction "\<mu> s + length (buf_bytes bs)" arbitrary: bs s rule: less_induct)
  case less
  note unf = fs_write_loop.simps [of write_op bs s]
  show ?case
  proof (cases "buf_bytes bs = []")
    case True
    with less.prems show ?thesis by (simp add: unf)
  next
    case False
    obtain c r where c: "buf_chunk bs = Ok c" "buf_bytes bs = c @ r" using buf_chunk_spec [OF less.prems(1) False] by blast
    have ne: "c \<noteq> []" using buf_chunk_nonempty [OF less.prems False] c(1) by auto
    obtain x s1 where x: "write_op c s = (x, s1)" by fastforce
    show ?thesis
    proof (cases x)
      case (Ok n)
      with assms(1) x ne have n: "n \<le> length c" "\<mu> s1 \<le> \<mu> s" "n = 0 \<longrightarrow> \<mu> s1 < \<mu> s" by blast+
      then have "n \<le> buf_len bs" using c(2) less.prems by simp
      then obtain bs' where bs': "buf_advance n bs = Ok bs'" "buf_wf bs'" "buf_bytes bs' = drop n (buf_bytes bs)"
        using buf_advance_Ok [OF less.prems(1)] by blast
      have "\<mu> s1 + length (buf_bytes bs') < \<mu> s + length (buf_bytes bs)"
        using n bs'(3) False by (cases "n = 0") (auto simp: c(2))
      with less.hyps bs' buf_advance_parts [OF bs'(1) less.prems(2)] have "\<exists>y. fs_write_loop write_op bs' s1 = Some y" by blast
      with c x Ok bs' False less.prems show ?thesis by (simp add: unf)
    qed (use c x False less.prems in \<open>simp_all add: unf\<close>)
  qed
qed

subsection \<open>Writing at the cursor\<close>

text \<open>The disk holds the files \<open>fm\<close> with \<open>data\<close> at \<open>p\<close>, which the handle \<open>h\<close> has open.\<close>

definition disk_holds :: "(string list \<Rightarrow> bytes option) \<Rightarrow> string list \<Rightarrow> file_handle \<Rightarrow> bytes \<Rightarrow> file_system \<Rightarrow> bool" where
  "disk_holds fm p h data fs = (open_at fs p h \<and> fs_files fs = fm(p \<mapsto> data))"

lemma disk_holds_events [simp]: "disk_holds fm p h data (fs\<lparr>fs_events := es\<rparr>) = disk_holds fm p h data fs"
  by (simp add: disk_holds_def)

lemma disk_holds_bytes: "disk_holds fm p h data fs \<Longrightarrow> file_bytes fs p = data"
  by (simp add: disk_holds_def file_bytes_def)

lemma disk_holds_pos [simp]: "disk_holds fm p (h\<lparr>fh_pos := n\<rparr>) data fs = disk_holds fm p h data fs"
  by (simp add: disk_holds_def)

definition at_end :: "file_handle \<Rightarrow> bytes \<Rightarrow> bool" where
  "at_end h data = (fh_append h \<or> fh_pos h = length data)"

lemma seq_write_chunks:
  fixes Q :: "bytes \<Rightarrow> file_handle \<times> 'x fs_world \<Rightarrow> bool"
  assumes "\<And>acc h w. Q acc (h, w) = (disk_holds fm p h (data @ acc) (fw_disk w) \<and> at_end h (data @ acc))"
  shows "writes_chunks seq_write Q Q"
  unfolding writes_chunks_def
proof (intro conjI allI impI)
  fix acc chunk and s s' :: "file_handle \<times> 'x fs_world" and r
  assume P: "Q acc s" and r: "seq_write chunk s = (r, s')"
  obtain h w where s: "s = (h, w)" by fastforce
  obtain x w' where x: "on_disk (sys_write chunk h) w = (x, w')" by fastforce
  from P have d: "disk_holds fm p h (data @ acc) (fw_disk w)" "at_end h (data @ acc)" by (simp_all add: s assms)
  then have o: "open_at (fw_disk w) p h" "fh_append h \<or> fh_pos h = length (file_bytes (fw_disk w) p)" "fs_files (fw_disk w) = fm(p \<mapsto> data @ acc)"
    "file_bytes (fw_disk w) p = data @ acc"
    using disk_holds_bytes [OF d(1)] by (auto simp: disk_holds_def at_end_def)
  from x show "case r of Ok n \<Rightarrow> n \<le> length chunk \<and> Q (acc @ take n chunk) s' | _ \<Rightarrow> \<exists>m \<le> length chunk. Q (acc @ take m chunk) s'"
  proof (cases rule: on_disk_cases)
    case (1 a)
    obtain n h' where a: "a = (n, h')" by fastforce
    from sys_write_append [OF o(1,2), of chunk "Inr (n, h')" "fw_disk w'"] 1(2) a o(3,4)
    have w': "n \<le> length chunk" "open_at (fw_disk w') p h'" "fs_files (fw_disk w') = fm(p \<mapsto> (data @ acc) @ take n chunk)"
      "fh_pos h' = length (file_bytes (fw_disk w') p)" by auto
    then have "Q (acc @ take n chunk) (h', w')" by (simp add: assms disk_holds_def at_end_def file_bytes_def)
    with r s x 1 a w'(1) show ?thesis by (auto simp: seq_write_def)
  next
    case (2 e err)
    from sys_write_append [OF o(1,2), of chunk "Inl e" "fw_disk w'"] 2(2) o(3,4)
    have "Q (acc @ take 0 chunk) (h, w')" using d(2) by (simp add: assms disk_holds_def)
    with r s x 2 show ?thesis by (auto simp: seq_write_def intro!: exI [of _ 0])
  qed
qed

text \<open>What one \<open>write\<close> of the sequential writer does: all of the buffer, or a part of it and an error.\<close>

lemma fsw_write_spec:
  assumes "disk_holds fm p h data (fw_disk w)" "at_end h data" "fsw_f st = Some h" "buf_wf bs"
    and "fsw_write bs st w = (r, st', w')" "r \<noteq> Panic"
  shows "\<exists>h' a b. st' = st\<lparr>fsw_f := Some h'\<rparr> \<and> buf_bytes bs = a @ b \<and> (r = Ok () \<longrightarrow> b = [])
    \<and> disk_holds fm p h' (data @ a) (fw_disk w') \<and> at_end h' (data @ a)"
proof -
  let ?Q = "\<lambda>acc (h, w). disk_holds fm p h (data @ acc) (fw_disk w) \<and> at_end h (data @ acc)"
  obtain h' where l: "fs_write_loop seq_write bs (h, w) = Some (r, h', w')" "st' = st\<lparr>fsw_f := Some h'\<rparr>"
    using assms(3,5,6) by (auto simp: fsw_write_def split: option.splits prod.splits)
  have "loop_result ?Q ?Q [] bs (r, h', w')"
    by (rule fs_write_loop_writes [OF seq_write_chunks l(1) assms(4)]) (use assms(1,2) in auto)
  with l(2) show ?thesis by (auto simp: loop_result_def split: if_splits)
qed

lemma sys_call_events: "sys_call f fs = (Inr a, fs') \<Longrightarrow> (\<And>fs r fs'. f fs = (r, fs') \<Longrightarrow> fs_events fs' = fs_events fs)
    \<Longrightarrow> fs_events fs' = tl (fs_events fs)"
  by (auto simp: sys_call_def split: list.splits sys_event.splits)

lemma sys_write_at_progress:
  assumes "sys_write_at h chunk off fs = (Inr n, fs')"
  shows "n \<le> length chunk \<and> length (fs_events fs') \<le> length (fs_events fs)
    \<and> (n = 0 \<longrightarrow> chunk = [] \<or> length (fs_events fs') < length (fs_events fs))"
proof -
  have ev: "fs_events fs' = tl (fs_events fs)"
    using assms unfolding sys_write_at_def Let_def
    by (rule sys_call_events) (auto split: fs_node.splits if_splits)
  have n: "n = sys_limit fs (length chunk)"
    using assms by (auto simp: sys_write_at_def Let_def elim!: sys_call_cases split: fs_node.splits if_splits)
  show ?thesis
    unfolding ev n by (cases "fs_events fs") (auto simp: sys_limit_def split: sys_event.splits)
qed

text \<open>A sequential write always returns, for a buffer without empty parts.\<close>

lemma fsw_write_returns:
  fixes w :: "'x fs_world"
  assumes "buf_wf bs" "parts_nonempty bs" "fsw_f st = Some h"
  shows "\<exists>y. fs_write_loop seq_write bs (h, w) = Some y"
proof (rule fs_write_loop_ends [where \<mu> = "\<lambda>(h, w). length (fs_events (fw_disk w))", OF _ assms(1,2)])
  fix chunk s n s'
  assume "seq_write chunk s = (Ok n, s' :: file_handle \<times> 'x fs_world)"
  then obtain h w h' w' where s: "s = (h, w)" "s' = (h', w')" "on_disk (sys_write chunk h) w = (Ok (n, h'), w')"
    by (auto simp: seq_write_def split: prod.splits outcome.splits)
  from s(3) have "sys_write chunk h (fw_disk w) = (Inr (n, h'), fw_disk w')" by (cases rule: on_disk_cases) auto
  then obtain off where "sys_write_at h chunk off (fw_disk w) = (Inr n, fw_disk w')"
    by (auto simp: sys_write_def Let_def split: prod.splits sum.splits)
  from sys_write_at_progress [OF this] s(1,2)
  show "n \<le> length chunk \<and> (case s' of (h, w) \<Rightarrow> length (fs_events (fw_disk w))) \<le> (case s of (h, w) \<Rightarrow> length (fs_events (fw_disk w)))
    \<and> (n = 0 \<longrightarrow> chunk = [] \<or> (case s' of (h, w) \<Rightarrow> length (fs_events (fw_disk w))) < (case s of (h, w) \<Rightarrow> length (fs_events (fw_disk w))))"
    by simp
qed

text \<open>A run of writes in which every call succeeds.\<close>

primrec fsw_writes :: "buffer list \<Rightarrow> fs_writer \<Rightarrow> 'x fs_world \<Rightarrow> unit res \<times> fs_writer \<times> 'x fs_world" where
  "fsw_writes [] st w = (Ok (), st, w)"
| "fsw_writes (b # bs) st w =
     (case fsw_write b st w of (Ok u, st', w') \<Rightarrow> fsw_writes bs st' w' | r \<Rightarrow> r)"

lemma fsw_writes_spec:
  "disk_holds fm p h data (fw_disk w) \<Longrightarrow> at_end h data \<Longrightarrow> fsw_f st = Some h \<Longrightarrow> list_all buf_wf bs \<Longrightarrow>
   fsw_writes bs st w = (Ok (), st', w') \<Longrightarrow>
     \<exists>h'. st' = st\<lparr>fsw_f := Some h'\<rparr> \<and> disk_holds fm p h' (data @ log_bytes bs) (fw_disk w')"
proof (induction bs arbitrary: data h st w)
  case Nil
  have "st\<lparr>fsw_f := Some h\<rparr> = st" using Nil.prems(3) by (cases st) simp
  with Nil.prems show ?case by (intro exI [of _ h]) (auto simp: log_bytes_def)
next
  case (Cons b bs)
  obtain st1 w1 where b: "fsw_write b st w = (Ok (), st1, w1)" "fsw_writes bs st1 w1 = (Ok (), st', w')"
    using Cons.prems(5) by (auto split: prod.splits outcome.splits)
  from fsw_write_spec [OF Cons.prems(1,2,3) _ b(1)] Cons.prems(4) obtain h1 where
    h1: "st1 = st\<lparr>fsw_f := Some h1\<rparr>" "disk_holds fm p h1 (data @ buf_bytes b) (fw_disk w1)" "at_end h1 (data @ buf_bytes b)"
    by auto
  from Cons.IH [OF h1(2,3) _ _ b(2)] h1(1) Cons.prems(4) show ?case by (auto simp: log_bytes_def)
qed

subsection \<open>Writing at a position\<close>

lemma overlay_Nil [simp]: "overlay d off [] = d"
  by (simp add: overlay_def)

lemma length_overlay: "bs \<noteq> [] \<Longrightarrow> length (overlay d off bs) = max (length d) (off + length bs)"
  by (auto simp: overlay_def)

lemma nth_overlay:
  assumes "p < length (overlay d off bs)"
  shows "overlay d off bs ! p =
    (if off \<le> p \<and> p < off + length bs then bs ! (p - off) else if p < length d then d ! p else 0)"
proof (cases "bs = []")
  case False
  have min: "length (take off d @ replicate (off - length d) (0 :: 8 word)) = off" by simp
  have spl: "overlay d off bs = (take off d @ replicate (off - length d) 0) @ (bs @ drop (off + length bs) d)"
    using False by (simp add: overlay_def)
  show ?thesis
  proof (cases "p < off")
    case True
    then have "overlay d off bs ! p = (take off d @ replicate (off - length d) 0) ! p"
      unfolding spl by (subst nth_append) (simp only: min if_True)
    with True show ?thesis by (auto simp: nth_append)
  next
    case ge: False
    then have "overlay d off bs ! p = (bs @ drop (off + length bs) d) ! (p - off)"
      unfolding spl by (subst nth_append) (simp only: min if_False)
    moreover have "p < length d" if "\<not> p < off + length bs"
      using that assms length_overlay [OF False, of d off] ge by auto
    ultimately show ?thesis using ge by (auto simp: nth_append)
  qed
qed (use assms in auto)

lemma overlay_overlay: "overlay (overlay d off a) (off + length a) b = overlay d off (a @ b)"
proof (cases "a = [] \<or> b = []")
  case False
  then have ne: "a \<noteq> []" "b \<noteq> []" by auto
  have len: "length (overlay (overlay d off a) (off + length a) b) = length (overlay d off (a @ b))"
    using ne by (simp add: length_overlay)
  show ?thesis
  proof (rule nth_equalityI [OF len])
    fix p
    assume p: "p < length (overlay (overlay d off a) (off + length a) b)"
    have p': "p < length (overlay d off (a @ b))" using p len by simp
    show "overlay (overlay d off a) (off + length a) b ! p = overlay d off (a @ b) ! p"
    proof (cases "p < length (overlay d off a)")
      case True
      show ?thesis
        unfolding nth_overlay [OF p] nth_overlay [OF p'] nth_overlay [OF True] using True
        by (auto simp: nth_append diff_diff_eq)
    next
      case no: False
      then have "off + length a \<le> p" "\<not> p < length d" using ne by (auto simp: length_overlay)
      then show ?thesis
        unfolding nth_overlay [OF p] nth_overlay [OF p'] using no by (auto simp: nth_append diff_diff_eq)
    qed
  qed
qed auto

lemma offset_add_Ok: "offset_add a n = Ok c \<Longrightarrow> unat c = unat a + n"
  using unat_of_nat_u64 [of n] unat_u64_add [of a "of_nat n"] by (auto simp: offset_add_def outcome_simps)

lemma at_write_chunks:
  fixes P Q :: "bytes \<Rightarrow> u64 \<times> 'x fs_world \<Rightarrow> bool"
  assumes Q: "\<And>acc o' w. Q acc (o', w) = disk_holds fm p h (overlay d off acc) (fw_disk w)"
    and P: "\<And>acc o' w. P acc (o', w) = (unat o' = off + length acc \<and> Q acc (o', w))"
  shows "writes_chunks (at_write h) P Q"
  unfolding writes_chunks_def
proof (intro conjI allI impI)
  show "P acc s \<Longrightarrow> Q acc s" for acc s by (cases s) (simp add: P)
  fix acc chunk and s s' :: "u64 \<times> 'x fs_world" and r
  assume pre: "P acc s" and r: "at_write h chunk s = (r, s')"
  obtain o' w where s: "s = (o', w)" by fastforce
  obtain x w' where x: "on_disk (sys_write_at h chunk (unat o')) w = (x, w')" by fastforce
  from pre have o': "unat o' = off + length acc" and d: "disk_holds fm p h (overlay d off acc) (fw_disk w)"
    by (simp_all add: s P Q)
  note w_at = sys_write_at_spec [of "fw_disk w" p h chunk "unat o'"]
  from x show "case r of Ok n \<Rightarrow> n \<le> length chunk \<and> P (acc @ take n chunk) s' | _ \<Rightarrow> \<exists>m \<le> length chunk. Q (acc @ take m chunk) s'"
  proof (cases rule: on_disk_cases)
    case (1 n)
    from w_at [OF _ 1(2)] d have n: "n \<le> length chunk" and w': "open_at (fw_disk w') p h"
      "fs_files (fw_disk w') = fm(p \<mapsto> overlay (file_bytes (fw_disk w) p) (unat o') (take n chunk))"
      by (auto simp: disk_holds_def)
    have "overlay (file_bytes (fw_disk w) p) (unat o') (take n chunk) = overlay d off (acc @ take n chunk)"
      by (simp add: disk_holds_bytes [OF d] o' overlay_overlay)
    with w' have Qn: "Q (acc @ take n chunk) (o2, w')" for o2 by (simp add: Q disk_holds_def)
    show ?thesis
    proof (cases "offset_add o' n")
      case (Ok o2)
      then have "unat o2 = off + length (acc @ take n chunk)" using o' n offset_add_Ok [OF Ok] by simp
      with Qn have "P (acc @ take n chunk) (o2, w')" by (simp add: P)
      with r s x 1 n Ok show ?thesis by (auto simp: at_write_def)
    next
      case (Err e)
      then show ?thesis by (simp add: offset_add_def guard_def split: if_splits)
    next
      case Panic
      with r s x 1 n Qn show ?thesis by (auto simp: at_write_def)
    qed
  next
    case (2 e err)
    from w_at [OF _ 2(2)] d have "open_at (fw_disk w') p h" "fs_files (fw_disk w') = fs_files (fw_disk w)"
      by (auto simp: disk_holds_def)
    with d have "Q (acc @ take 0 chunk) (o', w')" by (simp add: Q disk_holds_def)
    with r s x 2 show ?thesis by (auto simp: at_write_def intro!: exI [of _ 0])
  qed
qed

lemma on_disk_try_clone:
  assumes "on_disk (sys_try_clone h) w = (r, w')"
  shows "(\<exists>es. fw_disk w' = (fw_disk w)\<lparr>fs_events := es\<rparr>) \<and> (r = Ok h \<or> (\<exists>e. r = Err e))"
proof -
  have "(\<exists>es. d = (fw_disk w)\<lparr>fs_events := es\<rparr>) \<and> (\<forall>a. x = Inr a \<longrightarrow> a = h)" if "sys_try_clone h (fw_disk w) = (x, d)" for x d
    using that unfolding sys_try_clone_def by (cases rule: sys_call_cases) auto
  with assms show ?thesis by (cases rule: on_disk_cases) auto
qed

lemma fsw_write_all_at_spec:
  assumes "disk_holds fm p h d (fw_disk w)" "fsw_f st = Some h" "buf_wf buf"
    and "fsw_write_all_at st off buf w = (r, w')"
  shows "\<exists>a b. buf_bytes buf = a @ b \<and> (r = Inr () \<longrightarrow> b = []) \<and> disk_holds fm p h (overlay d (unat off) a) (fw_disk w')"
proof -
  obtain x w1 where x: "on_disk (sys_try_clone h) w = (x, w1)" by fastforce
  have w1: "disk_holds fm p h d (fw_disk w1)" and xh: "x = Ok h \<or> (\<exists>e. x = Err e)"
    using on_disk_try_clone [OF x] assms(1) by (fastforce, blast)
  show ?thesis
  proof (cases "x = Ok h")
    case True
    let ?Q = "\<lambda>acc (o', w). disk_holds fm p h (overlay d (unat off) acc) (fw_disk w)"
    let ?P = "\<lambda>acc (o', w). unat o' = unat off + length acc \<and> disk_holds fm p h (overlay d (unat off) acc) (fw_disk w)"
    show ?thesis
    proof (cases "fs_write_loop (at_write h) buf (off, w1)")
      case None
      with assms(2,4) x True w1 show ?thesis by - (rule exI [of _ "[]"], auto simp: fsw_write_all_at_def)
    next
      case (Some y)
      obtain res o' w2 where y: "y = (res, o', w2)" by (metis prod_cases3)
      have "writes_chunks (at_write h) ?P ?Q" by (rule at_write_chunks) auto
      then have "loop_result ?P ?Q [] buf y"
        by (rule fs_write_loop_writes [OF _ Some assms(3)]) (use w1 in simp)
      moreover have "w' = w2" "r = Inr () \<longleftrightarrow> res = Ok ()"
        using assms(2,4) x True Some y by (auto simp: fsw_write_all_at_def res_io_def split: outcome.splits)
      ultimately show ?thesis using y by (auto simp: loop_result_def split: if_splits)
    qed
  next
    case False
    with xh assms(2,4) x w1 show ?thesis by - (rule exI [of _ "[]"], auto simp: fsw_write_all_at_def)
  qed
qed

subsection \<open>The effects of tasks\<close>

text \<open>
  A task acts on the state of the service when it is spawned. The inputs that may be submitted are \<open>good\<close>; a spawned task keeps the state \<open>sound\<close>,
  does not undo what other tasks have done, and has \<open>effected\<close> its own input when it reports success.
\<close>

locale task_effects =
  fixes spawn :: "('i, 'o, 'w) spawn"
    and good :: "'i \<Rightarrow> bool"
    and sound :: "'w \<Rightarrow> bool"
    and effected :: "'i \<Rightarrow> 'w \<Rightarrow> bool"
  assumes spawn_effect: "good i \<Longrightarrow> sound w \<Longrightarrow> spawn i w = (t, w') \<Longrightarrow>
      sound w' \<and> task_input t = i \<and> fst (task_output t) = i \<and> (\<forall>j. good j \<longrightarrow> effected j w \<longrightarrow> effected j w')
      \<and> (\<forall>out. snd (task_output t) = Inr out \<longrightarrow> effected i w')"
begin

definition task_ok :: "'w \<Rightarrow> ('i, 'o) task \<Rightarrow> bool" where
  "task_ok w t = (good (task_input t) \<and> fst (task_output t) = task_input t
     \<and> (\<forall>out. snd (task_output t) = Inr out \<longrightarrow> effected (task_input t) w))"

definition te_holds :: "'i list \<Rightarrow> ('i, 'o) concurrent_tasks \<Rightarrow> 'w \<Rightarrow> bool" where
  "te_holds acc st w = (sound w \<and> (\<forall>t \<in> set (ct_tasks st). task_ok w t) \<and> (\<forall>i \<in> set acc. good i)
     \<and> (ct_errored st \<or> (\<forall>i \<in> set acc. effected i w \<or> i \<in> task_input ` set (ct_tasks st))))"

lemma te_new: "sound w \<Longrightarrow> te_holds [] (ct_new n) w"
  by (simp add: te_holds_def ct_new_def)

lemma te_sound: "te_holds acc st w \<Longrightarrow> sound w"
  by (simp add: te_holds_def)

lemma te_spawn:
  assumes "te_holds acc st w" "good i" "spawn i w = (t, w')"
  shows "te_holds acc st w'" "task_ok w' t" "task_input t = i"
proof -
  have e: "sound w'" "task_input t = i" "fst (task_output t) = i" "\<And>j. good j \<Longrightarrow> effected j w \<Longrightarrow> effected j w'"
    "\<And>out. snd (task_output t) = Inr out \<Longrightarrow> effected i w'"
    using spawn_effect [OF assms(2) te_sound [OF assms(1)] assms(3)] by blast+
  show "task_input t = i" by (rule e(2))
  show "task_ok w' t" using e assms(2) by (simp add: task_ok_def)
  show "te_holds acc st w'" using assms(1) e(1,4) by (auto simp: te_holds_def task_ok_def)
qed

lemma te_pop:
  assumes "te_holds acc st w" "ct_tasks st = t # ts" "task_output t = (i, Inr out)"
  shows "te_holds acc (st\<lparr>ct_tasks := ts\<rparr>) w" "te_holds acc (ct_pop_push out st) w"
  using assms by (auto simp: te_holds_def task_ok_def ct_pop_push_def)

lemma te_fail:
  assumes "te_holds acc st w" "ct_tasks st = t # ts" "task_output t = (i, Inl err)" "ct_fail spawn i err st w = (st', w')"
  shows "te_holds acc st' w'"
proof (cases "is_temporary err")
  case True
  obtain t' w1 where sp: "spawn i w = (t', w1)" by fastforce
  have "task_ok w t" using assms(1,2) by (simp add: te_holds_def)
  then have i: "i = task_input t" "good i" using assms(3) by (simp_all add: task_ok_def)
  have "ct_fail spawn i err st w = (st\<lparr>ct_tasks := t' # ts\<rparr>, w1)" by (simp add: ct_fail_def True sp assms(2))
  then have "st' = st\<lparr>ct_tasks := t' # ts\<rparr>" "w' = w1" using assms(4) by auto
  with te_spawn [OF assms(1) i(2) sp] assms(2) i(1) show ?thesis by (auto simp: te_holds_def)
next
  case False
  then have "ct_fail spawn i err st w = ((ct_clear st)\<lparr>ct_errored := True\<rparr>, w)" by (simp add: ct_fail_def)
  then have "st' = (ct_clear st)\<lparr>ct_errored := True\<rparr>" "w' = w" using assms(4) by auto
  with assms(1) show ?thesis by (simp add: te_holds_def ct_clear_def)
qed

lemma te_poll:
  assumes "te_holds acc st w" "ct_poll_front st = (polled, st1)"
  shows "te_holds acc st1 w \<and> (\<forall>i err. polled = Some (i, err) \<longrightarrow> (\<exists>t ts. ct_tasks st1 = t # ts \<and> task_output t = (i, Inl err)))"
proof (cases "ct_tasks st")
  case Nil
  with assms show ?thesis by (auto simp: ct_poll_front_def)
next
  case (Cons t ts)
  show ?thesis
  proof (cases "task_delay t = 0")
    case True
    obtain i s where out: "task_output t = (i, s)" by fastforce
    show ?thesis
    proof (cases s)
      case (Inl err)
      with assms(2) Cons True out have "polled = Some (i, err)" "st1 = st" by (simp_all add: ct_poll_front_def)
      with assms(1) Cons out Inl show ?thesis by simp
    next
      case (Inr x)
      with assms(2) Cons True out have "polled = None" "st1 = ct_pop_push x st" by (simp_all add: ct_poll_front_def)
      with te_pop(2) [OF assms(1) Cons] out Inr show ?thesis by simp
    qed
  next
    case False
    with assms Cons show ?thesis by (auto simp: ct_poll_front_def te_holds_def task_ok_def)
  qed
qed

lemma te_execute_loop:
  "te_holds acc st w \<Longrightarrow> good input \<Longrightarrow> ct_execute_loop spawn input st w = (r, st', w') \<Longrightarrow>
     te_holds (if r = Ok () then acc @ [input] else acc) st' w'"
proof (induction "length (ct_tasks st)" arbitrary: st rule: less_induct)
  case less
  obtain polled st1 where p: "ct_poll_front st = (polled, st1)" by fastforce
  note p1 = te_poll [OF less.prems(1) p] and unf = ct_execute_loop.simps [of spawn input st w]
  show ?case
  proof (cases polled)
    case (Some ie)
    obtain i err where ie: "ie = (i, err)" by fastforce
    obtain st2 w2 where f: "ct_fail spawn i err st1 w = (st2, w2)" by fastforce
    from p1 Some ie te_fail [OF _ _ _ f] have "te_holds acc st2 w2" by blast
    with less.prems(3) p Some ie f show ?thesis by (auto simp: unf)
  next
    case None
    show ?thesis
    proof (cases "length (ct_tasks st1) < ct_cap st1")
      case True
      obtain t w1 where sp: "spawn input w = (t, w1)" by fastforce
      note t = te_spawn [OF p1 [THEN conjunct1] less.prems(2) sp]
      have "te_holds (acc @ [input]) (st1\<lparr>ct_tasks := ct_tasks st1 @ [t]\<rparr>) w1"
        using t less.prems(2) by (auto simp: te_holds_def)
      with less.prems(3) p None True sp show ?thesis by (auto simp: unf)
    next
      case full: False
      show ?thesis
      proof (cases "ct_tasks st1")
        case Nil
        with less.prems(3) p None full p1 show ?thesis by (auto simp: unf)
      next
        case (Cons t ts)
        obtain i s where out: "task_output t = (i, s)" by fastforce
        show ?thesis
        proof (cases s)
          case (Inl err)
          obtain st2 w2 where f: "ct_fail spawn i err st1 w = (st2, w2)" by fastforce
          have "te_holds acc st2 w2" using te_fail [OF _ Cons _ f] out Inl p1 by blast
          with less.prems(3) p None full Cons out Inl f show ?thesis by (auto simp: unf)
        next
          case (Inr x)
          then have rec: "ct_execute_loop spawn input (ct_pop_push x st1) w = (r, st', w')"
            using less.prems(3) p None full Cons out by (simp add: unf)
          have "length (ct_tasks (ct_pop_push x st1)) < length (ct_tasks st)"
            using Cons ct_poll_front_length [OF p] by (simp add: ct_pop_push_def)
          from less.hyps [OF this _ less.prems(2) rec] te_pop(2) [OF p1 [THEN conjunct1] Cons] out Inr
          show ?thesis by simp
        qed
      qed
    qed
  qed
qed

lemma te_execute:
  assumes "te_holds acc st w" "good input" "ct_execute spawn input st w = (r, st', w')"
  shows "te_holds (if r = Ok () then acc @ [input] else acc) st' w'"
proof (cases "ct_errored st \<or> ct_is_concurrent st")
  case True
  then show ?thesis
    using assms te_execute_loop [OF assms(1,2)] by (auto simp: ct_execute_def split: if_splits)
next
  case False
  obtain t w1 where sp: "spawn input w = (t, w1)" by fastforce
  note t = te_spawn [OF assms(1,2) sp]
  show ?thesis
  proof (cases "snd (task_output t)")
    case (Inl err)
    with False assms(3) sp t show ?thesis by (auto simp: ct_execute_def)
  next
    case (Inr out)
    then have "effected input w1" using t by (auto simp: task_ok_def)
    with False assms(2,3) sp t Inr show ?thesis by (auto simp: ct_execute_def te_holds_def)
  qed
qed

lemma te_drain:
  "te_holds acc st w \<Longrightarrow> ct_drain spawn del st w = (r, del', st', w') \<Longrightarrow>
     te_holds acc st' w' \<and> (r = Ok () \<longrightarrow> (\<forall>i \<in> set acc. effected i w'))"
proof (induction "length (ct_results st) + length (ct_tasks st)" arbitrary: del st w rule: less_induct)
  case less
  obtain n st1 w1 where n: "ct_next spawn st w = (n, st1, w1)" by (metis prod_cases3)
  note unf = ct_drain.simps [of spawn del st w]
  consider "n = None" "st1 = st" "w1 = w" "ct_tasks st = []" "\<not> ct_errored st"
    | e where "n = Some (Inl e)" "te_holds acc st1 w1" | out where "n = Some (Inr out)" "te_holds acc st1 w1"
  proof (cases "ct_errored st")
    case True
    with n less.prems(1) that(2) show ?thesis by (auto simp: ct_next_def)
  next
    case ne: False
    show ?thesis
    proof (cases "ct_results st")
      case (Cons out rs)
      then show ?thesis
        using n ne less.prems(1) that(3) [of out] by (auto simp: ct_next_def te_holds_def)
    next
      case Nil
      show ?thesis
      proof (cases "ct_tasks st")
        case (Cons t ts)
        obtain i s where out: "task_output t = (i, s)" by fastforce
        show ?thesis
        proof (cases s)
          case (Inl err)
          obtain st2 w2 where f: "ct_fail spawn i err st w = (st2, w2)" by fastforce
          from te_fail [OF less.prems(1) Cons _ f] out Inl have "te_holds acc st2 w2" by simp
          with n ne Nil Cons out Inl f that(2) show ?thesis by (auto simp: ct_next_def)
        next
          case (Inr x)
          with n ne Nil Cons out te_pop(1) [OF less.prems(1) Cons] that(3) show ?thesis by (auto simp: ct_next_def)
        qed
      qed (use n ne Nil that(1) in \<open>auto simp: ct_next_def\<close>)
    qed
  qed
  then show ?case
  proof cases
    case 1
    with less.prems n show ?thesis by (auto simp: unf te_holds_def)
  next
    case (2 e)
    with less.prems(2) n show ?thesis by (auto simp: unf)
  next
    case (3 out)
    then have "ct_drain spawn (del @ [out]) st1 w1 = (r, del', st', w')" using less.prems(2) n by (simp add: unf)
    with less.hyps [of st1 w1 "del @ [out]"] ct_next_shrinks [of spawn st w out st1 w1] n 3 show ?thesis by simp
  qed
qed

end

subsection \<open>Files that are written at positions\<close>

definition log_ok :: "buffer list \<Rightarrow> bool" where
  "log_ok log = (list_all buf_wf log \<and> length (log_bytes log) \<le> u64_max)"

lemma log_ok_append: "log_ok (log @ bs) \<Longrightarrow> log_ok log"
  by (simp add: log_ok_def)

lemma log_len: "list_all buf_wf log \<Longrightarrow> sum_list (map buf_len log) = length (log_bytes log)"
  by (induction log) (auto simp: log_bytes_def)

lemma pw_layout_snoc:
  assumes "list_all buf_wf sent" "unat off = length (log_bytes sent)"
  shows "pw_layout 0 (sent @ [c]) = pw_layout 0 sent @ [\<lparr>pi_offset = off, pi_bytes = c\<rparr>]"
proof -
  have "of_nat (length (log_bytes sent)) = off" using arg_cong [OF assms(2), of "of_nat :: nat \<Rightarrow> u64"] by simp
  then show ?thesis using log_len [OF assms(1)] by (simp add: pw_layout_append)
qed

text \<open>
  \<open>holds log\<close> describes the service when the buffers of \<open>log\<close> have been accepted; \<open>placed i\<close> says that an input is where it belongs.
  A write of any input of the log keeps both, also when it fails halfway or comes late, and places its own input when it succeeds.
\<close>

locale position_file =
  fixes ex :: "'w executor"
    and ops :: "'w position_write"
    and holds :: "buffer list \<Rightarrow> 'w \<Rightarrow> bool"
    and placed :: "position_input \<Rightarrow> 'w \<Rightarrow> bool"
  assumes write_effect: "log_ok log \<Longrightarrow> i \<in> set (pw_layout 0 log) \<Longrightarrow> holds log w \<Longrightarrow>
      pw_write_all_at ops (pi_offset i) (pi_bytes i) w = (r, w') \<Longrightarrow>
      holds log w' \<and> (\<forall>j \<in> set (pw_layout 0 log). placed j w \<longrightarrow> placed j w') \<and> (r = Inr () \<longrightarrow> placed i w')"
    and holds_more: "log_ok (log @ [b]) \<Longrightarrow> holds log w \<Longrightarrow> holds (log @ [b]) w"
    and timeout_keeps: "ex_timeout ex w = (f, w') \<Longrightarrow> (holds log w \<longrightarrow> holds log w') \<and> (placed i w \<longrightarrow> placed i w')"
    and delay_keeps: "ex_delay ex w = (n, w') \<Longrightarrow> (holds log w \<longrightarrow> holds log w') \<and> (placed i w \<longrightarrow> placed i w')"
begin

lemma effects:
  assumes "log_ok log"
  shows "task_effects (pw_spawn ex ops) (\<lambda>i. i \<in> set (pw_layout 0 log)) (holds log) placed"
proof
  fix i w t w'
  assume i: "i \<in> set (pw_layout 0 log)" and w: "holds log w" and sp: "pw_spawn ex ops i w = (t, w')"
  obtain f w1 where f: "ex_timeout ex w = (f, w1)" by fastforce
  obtain r w2 where r: "pw_write_all_at ops (pi_offset i) (pi_bytes i) w1 = (r, w2)" by fastforce
  obtain n w3 where n: "ex_delay ex w2 = (n, w3)" by fastforce
  have t: "t = Task i n (i, if f then Inl (pw_timeout_error i) else r)" "w' = w3"
    using sp f r n by (auto simp: pw_spawn_def run_task_def)
  note e = write_effect [OF assms i _ r] and k = timeout_keeps [OF f] delay_keeps [OF n]
  show "holds log w' \<and> task_input t = i \<and> fst (task_output t) = i
      \<and> (\<forall>j. j \<in> set (pw_layout 0 log) \<longrightarrow> placed j w \<longrightarrow> placed j w')
      \<and> (\<forall>out. snd (task_output t) = Inr out \<longrightarrow> placed i w')"
    using e k w t by (auto split: if_splits)
qed

abbreviation pf_holds :: "buffer list \<Rightarrow> position_input list \<Rightarrow> (position_input, unit) concurrent_tasks \<Rightarrow> 'w \<Rightarrow> bool" where
  "pf_holds log \<equiv> task_effects.te_holds (\<lambda>i. i \<in> set (pw_layout 0 log)) (holds log) placed"

lemma pf_holds_def:
  assumes "log_ok log"
  shows "pf_holds log acc st w = (holds log w
     \<and> (\<forall>t \<in> set (ct_tasks st). task_input t \<in> set (pw_layout 0 log) \<and> fst (task_output t) = task_input t
          \<and> (\<forall>out. snd (task_output t) = Inr out \<longrightarrow> placed (task_input t) w))
     \<and> (\<forall>i \<in> set acc. i \<in> set (pw_layout 0 log))
     \<and> (ct_errored st \<or> (\<forall>i \<in> set acc. placed i w \<or> i \<in> task_input ` set (ct_tasks st))))"
  using task_effects.te_holds_def [OF effects [OF assms]] task_effects.task_ok_def [OF effects [OF assms]] by simp

lemma pf_holds_more:
  assumes "log_ok (log @ [b])" "pf_holds log acc st w"
  shows "pf_holds (log @ [b]) acc st w"
  using assms(2) holds_more [OF assms(1)]
  unfolding pf_holds_def [OF assms(1)] pf_holds_def [OF log_ok_append [OF assms(1)]] by (auto simp: pw_layout_append)

definition pf_inv :: "buffer list \<Rightarrow> position_writer \<times> 'w \<Rightarrow> bool" where
  "pf_inv log = (\<lambda>(st, w). log_ok log \<longrightarrow> (\<exists>sent. log = sent @ (case pw_cache st of None \<Rightarrow> [] | Some b \<Rightarrow> [b])
     \<and> unat (pw_next_offset st) = length (log_bytes sent) \<and> pf_holds log (pw_layout 0 sent) (pw_tasks st) w))"

lemma pf_new:
  assumes "holds [] w"
  shows "pf_inv [] (pw_new n, w)"
proof -
  have ok: "log_ok []" by (simp add: log_ok_def)
  with task_effects.te_new [OF effects [OF ok] assms] show ?thesis by (auto simp: pf_inv_def pw_new_def)
qed

lemma pf_write:
  assumes inv: "pf_inv log (st, w)" and r: "pw_write ex ops b (st, w) = (r, st', w')"
  shows "r = Ok () \<Longrightarrow> pf_inv (log @ [b]) (st', w')" "r = Err e \<Longrightarrow> pf_inv log (st', w')"
proof -
  have "log_ok log \<longrightarrow> (r = Ok () \<longrightarrow> pf_inv (log @ [b]) (st', w')) \<and> (r = Err e \<longrightarrow> pf_inv log (st', w'))"
  proof
    assume ok: "log_ok log"
    then obtain sent where s: "log = sent @ (case pw_cache st of None \<Rightarrow> [] | Some b \<Rightarrow> [b])"
      "unat (pw_next_offset st) = length (log_bytes sent)" and h: "pf_holds log (pw_layout 0 sent) (pw_tasks st) w"
      using inv by (auto simp: pf_inv_def)
    show "(r = Ok () \<longrightarrow> pf_inv (log @ [b]) (st', w')) \<and> (r = Err e \<longrightarrow> pf_inv log (st', w'))"
    proof (cases "pw_cache st")
      case None
      then have "r = Ok ()" "st' = st\<lparr>pw_cache := Some b\<rparr>" "w' = w" using r by (auto simp: pw_write_def pw_fill_cache_def)
      with s None h show ?thesis by (auto simp: pf_inv_def intro: pf_holds_more)
    next
      case (Some c)
      let ?i = "\<lparr>pi_offset = pw_next_offset st, pi_bytes = c\<rparr>"
      have log: "log = sent @ [c]" and wf: "list_all buf_wf sent" "buf_wf c" using s(1) Some ok by (auto simp: log_ok_def)
      note lay = pw_layout_snoc [OF wf(1) s(2), of c]
      obtain x ts w1 where x: "ct_execute (pw_spawn ex ops) ?i (pw_tasks st) w = (x, ts, w1)" by (metis prod_cases3)
      have t: "pf_holds log (if x = Ok () then pw_layout 0 sent @ [?i] else pw_layout 0 sent) ts w1"
        by (rule task_effects.te_execute [OF effects [OF ok] h _ x]) (simp add: log lay)
      show ?thesis
      proof (cases x)
        case (Ok u)
        then have tok: "pf_holds log (pw_layout 0 (sent @ [c])) ts w1" using t lay by simp
        show ?thesis
        proof (cases "u64_add (pw_next_offset st) (of_nat (buf_len c)) :: u64 res")
          case off: (Ok off)
          have "buf_len c \<le> u64_max" using ok log wf(2) by (simp add: log_ok_def)
          then have "unat off = length (log_bytes (sent @ [c]))" using u64_add_len [OF off] s(2) wf(2) by simp
          moreover have "r = Ok ()" "st' = st\<lparr>pw_tasks := ts, pw_next_offset := off, pw_cache := Some b\<rparr>" "w' = w1"
            using r Some x Ok off by (auto simp: pw_write_def pw_fill_cache_def Let_def)
          moreover have "log_ok (log @ [b]) \<longrightarrow> pf_holds (log @ [b]) (pw_layout 0 (sent @ [c])) ts w1"
            using pf_holds_more tok by blast
          ultimately show ?thesis using log
            by (auto simp: pf_inv_def simp del: log_bytes_simps intro!: exI [of _ "sent @ [c]"])
        qed (use r Some x Ok in \<open>auto simp: pw_write_def Let_def u64_add_def guard_def split: if_splits\<close>)
      next
        case (Err err)
        then have "r = Err err" "st' = st\<lparr>pw_tasks := ts\<rparr>" "w' = w1" using r Some x by (auto simp: pw_write_def)
        with t Err s Some show ?thesis by (auto simp: pf_inv_def)
      qed (use r Some x in \<open>auto simp: pw_write_def\<close>)
    qed
  qed
  moreover have "pf_inv log (st', w')" "pf_inv (log @ [b]) (st', w')" if "\<not> log_ok log"
    using that log_ok_append by (auto simp: pf_inv_def)
  ultimately show "r = Ok () \<Longrightarrow> pf_inv (log @ [b]) (st', w')" "r = Err e \<Longrightarrow> pf_inv log (st', w')" by blast+
qed

text \<open>Closing: everything is placed before the file is closed, and an error before that leaves the service as it may be.\<close>

lemma pf_close:
  assumes inv: "pf_inv log (st, w)" and ok: "log_ok log" and r: "pw_close ex ops (st, w) = (r, st', w')"
  shows "(\<exists>w0 y. holds log w0 \<and> (\<forall>i \<in> set (pw_layout 0 log). placed i w0) \<and> pw_close_file ops w0 = (y, w')
      \<and> (r = Ok () \<longrightarrow> y = Inr ())) \<or> (r \<noteq> Ok () \<and> holds log w')"
proof -
  obtain sent where s: "log = sent @ (case pw_cache st of None \<Rightarrow> [] | Some b \<Rightarrow> [b])"
    "unat (pw_next_offset st) = length (log_bytes sent)" and h: "pf_holds log (pw_layout 0 sent) (pw_tasks st) w"
    using inv ok by (auto simp: pf_inv_def)
  obtain d ds ts w1 where d: "ct_drain (pw_spawn ex ops) [] (pw_tasks st) w = (d, ds, ts, w1)" by (metis prod_cases4)
  note dr = task_effects.te_drain [OF effects [OF ok] h d]
  have h1: "holds log w1" using dr pf_holds_def [OF ok] by blast
  show ?thesis
  proof (cases "d = Ok ()")
    case False
    with r d h1 show ?thesis by (cases d) (auto simp: pw_close_def)
  next
    case True
    have sent: "\<forall>i \<in> set (pw_layout 0 sent). placed i w1" using dr True by blast
    show ?thesis
    proof (cases "pw_cache st")
      case None
      obtain y w3 where y: "pw_close_file ops w1 = (y, w3)" by fastforce
      have "w' = w3" "r = Ok () \<longrightarrow> y = Inr ()" using r d True None y by (auto simp: pw_close_def Let_def split: sum.splits)
      moreover have "log = sent" using s None by simp
      ultimately show ?thesis using y h1 sent by blast
    next
      case (Some c)
      let ?i = "\<lparr>pi_offset = pw_next_offset st, pi_bytes = c\<rparr>"
      have log: "log = sent @ [c]" and wf: "list_all buf_wf sent" using s(1) Some ok by (auto simp: log_ok_def)
      note lay = pw_layout_snoc [OF wf s(2), of c]
      obtain x w2 where x: "pw_write_all_at ops (pw_next_offset st) c w1 = (x, w2)" by fastforce
      have e: "holds log w2 \<and> (\<forall>j \<in> set (pw_layout 0 log). placed j w1 \<longrightarrow> placed j w2) \<and> (x = Inr () \<longrightarrow> placed ?i w2)"
        by (rule write_effect [OF ok _ h1]) (use x log lay in auto)
      obtain y w3 where y: "pw_close_file ops w2 = (y, w3)" by fastforce
      show ?thesis
      proof (cases x)
        case (Inl err)
        then have "r = Err err" "w' = w2" using r d True Some x by (auto simp: pw_close_def)
        with e show ?thesis by auto
      next
        case (Inr u)
        have "w' = w3" "r = Ok () \<longrightarrow> y = Inr ()" using r d True Some x Inr y by (auto simp: pw_close_def Let_def split: sum.splits)
        moreover have "\<forall>i \<in> set (pw_layout 0 log). placed i w2" using e Inr sent log lay by auto
        ultimately show ?thesis using e y by blast
      qed
    qed
  qed
qed

end

subsection \<open>The file system service is such a file\<close>

lemma pw_layout_mem:
  assumes "i \<in> set (pw_layout off log)" "list_all buf_wf log" "off + length (log_bytes log) \<le> u64_max"
  shows "\<exists>pre post. log_bytes log = pre @ buf_bytes (pi_bytes i) @ post \<and> unat (pi_offset i) = off + length pre \<and> buf_wf (pi_bytes i)"
  using assms
proof (induction log arbitrary: off)
  case (Cons b log)
  have lb: "log_bytes (b # log) = buf_bytes b @ log_bytes log" by (simp add: log_bytes_def)
  show ?case
  proof (cases "i = \<lparr>pi_offset = of_nat off, pi_bytes = b\<rparr>")
    case True
    then have "unat (pi_offset i) = off" using Cons.prems(3) unat_of_nat_u64 [of off] by simp
    with True lb Cons.prems(2) show ?thesis by (intro exI [of _ "[]"] exI [of _ "log_bytes log"]) auto
  next
    case False
    with Cons.prems lb have "i \<in> set (pw_layout (off + length (buf_bytes b)) log)" by auto
    from Cons.IH [OF this] Cons.prems(2,3) lb obtain pre post where
      "log_bytes log = pre @ buf_bytes (pi_bytes i) @ post" "unat (pi_offset i) = off + length (buf_bytes b) + length pre" "buf_wf (pi_bytes i)"
      by auto
    with lb show ?thesis by (intro exI [of _ "buf_bytes b @ pre"] exI [of _ post]) simp
  qed
qed simp

lemma pw_layout_covers:
  assumes "q < length (log_bytes log)" "list_all buf_wf log" "off + length (log_bytes log) \<le> u64_max"
  shows "\<exists>i \<in> set (pw_layout off log). \<exists>k < length (buf_bytes (pi_bytes i)). off + q = unat (pi_offset i) + k"
  using assms
proof (induction log arbitrary: off q)
  case (Cons b log)
  have lb: "log_bytes (b # log) = buf_bytes b @ log_bytes log" by (simp add: log_bytes_def)
  show ?case
  proof (cases "q < length (buf_bytes b)")
    case True
    have "unat (of_nat off :: u64) = off" using Cons.prems(3) unat_of_nat_u64 [of off] by simp
    with True show ?thesis by (intro bexI [of _ "\<lparr>pi_offset = of_nat off, pi_bytes = b\<rparr>"] exI [of _ q]) auto
  next
    case False
    with Cons.IH [of "q - length (buf_bytes b)" "off + length (buf_bytes b)"] Cons.prems lb show ?thesis by fastforce
  qed
qed (simp add: log_bytes_def)

definition fsp_holds ::
  "(string list \<Rightarrow> bytes option) \<Rightarrow> string list \<Rightarrow> file_handle \<Rightarrow> buffer list \<Rightarrow> 'x fs_world \<Rightarrow> bool" where
  "fsp_holds fm p h log w = (\<exists>d. disk_holds fm p h d (fw_disk w) \<and> length d \<le> length (log_bytes log))"

definition fsp_placed :: "string list \<Rightarrow> position_input \<Rightarrow> 'x fs_world \<Rightarrow> bool" where
  "fsp_placed p i w = (\<forall>k < length (buf_bytes (pi_bytes i)).
     unat (pi_offset i) + k < length (file_bytes (fw_disk w) p)
     \<and> file_bytes (fw_disk w) p ! (unat (pi_offset i) + k) = buf_bytes (pi_bytes i) ! k)"

lemma layout_nth:
  assumes "log_ok log" "i \<in> set (pw_layout 0 log)" "k < length (buf_bytes (pi_bytes i))"
  shows "unat (pi_offset i) + k < length (log_bytes log) \<and> log_bytes log ! (unat (pi_offset i) + k) = buf_bytes (pi_bytes i) ! k"
proof -
  obtain pre post where "log_bytes log = pre @ buf_bytes (pi_bytes i) @ post" "unat (pi_offset i) = length pre"
    using pw_layout_mem [OF assms(2)] assms(1) by (auto simp: log_ok_def)
  with assms(3) show ?thesis by (simp add: nth_append)
qed

lemma fs_position_effect:
  assumes ok: "log_ok log" and i: "i \<in> set (pw_layout 0 log)" and w: "fsp_holds fm p h log w" and f: "fsw_f st = Some h"
    and r: "fsw_write_all_at st (pi_offset i) (pi_bytes i) w = (r, w')"
  shows "fsp_holds fm p h log w' \<and> (\<forall>j \<in> set (pw_layout 0 log). fsp_placed p j w \<longrightarrow> fsp_placed p j w')
    \<and> (r = Inr () \<longrightarrow> fsp_placed p i w')"
proof -
  let ?off = "unat (pi_offset i)"
  obtain pre post where full: "log_bytes log = pre @ buf_bytes (pi_bytes i) @ post" "?off = length pre" "buf_wf (pi_bytes i)"
    using pw_layout_mem [OF i] ok by (auto simp: log_ok_def)
  obtain d where d: "disk_holds fm p h d (fw_disk w)" "length d \<le> length (log_bytes log)" using w by (auto simp: fsp_holds_def)
  from fsw_write_all_at_spec [OF d(1) f full(3) r] obtain a b where ab: "buf_bytes (pi_bytes i) = a @ b" "r = Inr () \<longrightarrow> b = []"
    "disk_holds fm p h (overlay d ?off a) (fw_disk w')" by blast
  have bytes: "file_bytes (fw_disk w) p = d" "file_bytes (fw_disk w') p = overlay d ?off a"
    using disk_holds_bytes d(1) ab(3) by blast+
  have len: "length (overlay d ?off a) \<le> length (log_bytes log)"
    using d(2) full(1,2) ab(1) by (cases "a = []") (auto simp: length_overlay)
  have grow: "length d \<le> length (overlay d ?off a)" by (cases "a = []") (auto simp: length_overlay)
  have at: "log_bytes log ! q = a ! (q - ?off)" if "?off \<le> q" "q < ?off + length a" for q
  proof -
    have "q - length pre < length a" using that full(2) by linarith
    then show ?thesis using that full(1,2) ab(1) by (simp add: nth_append)
  qed
  have keep: "fsp_placed p j w'" if j: "j \<in> set (pw_layout 0 log)" "fsp_placed p j w" for j
    unfolding fsp_placed_def bytes(2)
  proof (intro allI impI)
    fix k
    assume k: "k < length (buf_bytes (pi_bytes j))"
    let ?q = "unat (pi_offset j) + k"
    have q: "?q < length d" "d ! ?q = buf_bytes (pi_bytes j) ! k" using j(2) k by (simp_all add: fsp_placed_def bytes(1))
    with grow have q': "?q < length (overlay d ?off a)" by simp
    have "overlay d ?off a ! ?q = buf_bytes (pi_bytes j) ! k"
      using nth_overlay [OF q'] q at [of ?q] layout_nth [OF ok j(1) k] by (auto split: if_splits)
    with q' show "?q < length (overlay d ?off a) \<and> overlay d ?off a ! ?q = buf_bytes (pi_bytes j) ! k" by simp
  qed
  have own: "fsp_placed p i w'" if "r = Inr ()"
    unfolding fsp_placed_def bytes(2)
  proof (intro allI impI)
    fix k
    assume k: "k < length (buf_bytes (pi_bytes i))"
    have a: "a = buf_bytes (pi_bytes i)" using ab(1,2) that by simp
    with k have ne: "a \<noteq> []" by auto
    have q: "?off + k < length (overlay d ?off a)" using length_overlay [OF ne, of d ?off] k a by simp
    with nth_overlay [OF q] k a show "?off + k < length (overlay d ?off a) \<and> overlay d ?off a ! (?off + k) = buf_bytes (pi_bytes i) ! k" by simp
  qed
  show ?thesis using keep own ab(3) len by (auto simp: fsp_holds_def)
qed

interpretation fsp: position_file "fs_executor ex" "fs_position_write \<lparr>fsw_target = t, fsw_tmp = tmp, fsw_f = Some h\<rparr>"
  "fsp_holds fm p h" "fsp_placed p" for ex :: "'x executor" and t tmp h fm p
proof unfold_locales
  fix log i and w w' :: "'x fs_world" and r
  assume "log_ok log" "i \<in> set (pw_layout 0 log)" "fsp_holds fm p h log w"
    "pw_write_all_at (fs_position_write \<lparr>fsw_target = t, fsw_tmp = tmp, fsw_f = Some h\<rparr>) (pi_offset i) (pi_bytes i) w = (r, w')"
  then show "fsp_holds fm p h log w' \<and> (\<forall>j \<in> set (pw_layout 0 log). fsp_placed p j w \<longrightarrow> fsp_placed p j w')
      \<and> (r = Inr () \<longrightarrow> fsp_placed p i w')"
    by (intro fs_position_effect) (auto simp: fs_position_write_def)
qed (auto simp: fsp_holds_def fsp_placed_def fs_executor_def on_exec_def split: prod.splits)

lemma fsp_complete:
  assumes "log_ok log" "fsp_holds fm p h log w" "\<forall>i \<in> set (pw_layout 0 log). fsp_placed p i w"
  shows "disk_holds fm p h (log_bytes log) (fw_disk w)"
proof -
  obtain d where d: "disk_holds fm p h d (fw_disk w)" "length d \<le> length (log_bytes log)" using assms(2) by (auto simp: fsp_holds_def)
  note bytes = disk_holds_bytes [OF d(1)]
  have at: "q < length d \<and> d ! q = log_bytes log ! q" if in_log: "q < length (log_bytes log)" for q
  proof -
    obtain i k where i: "i \<in> set (pw_layout 0 log)" "k < length (buf_bytes (pi_bytes i))" "q = unat (pi_offset i) + k"
      using pw_layout_covers [OF in_log, of 0] assms(1) by (auto simp: log_ok_def)
    with assms(3) bytes layout_nth [OF assms(1) i(1,2)] show ?thesis by (auto simp: fsp_placed_def)
  qed
  have "length (log_bytes log) \<le> length d" using at [of "length d"] by (meson leI less_irrefl)
  with d(2) at have "d = log_bytes log" by (intro nth_equalityI) auto
  with d(1) show ?thesis by simp
qed

end
