(* ===== verification/FsService.thy ===== *)
theory FsService
  imports FsWrites Layers Retry "HOL-Library.Code_Target_Nat"
begin

text \<open>
  Writing with the file system service: a write through the layers of an operator, with whatever chunks, tasks and failing system calls, leaves exactly the written bytes
  and changes no other file; with a directory for temporary files nobody sees a part of a write; sequential writes are exact. It closes with a write that is repeated after a part of it was done.
\<close>

subsection \<open>Paths of the service\<close>

text \<open>The roots are canonical; the path of a file has ordinary segments.\<close>

definition root_ok :: "path_buf \<Rightarrow> bool" where
  "root_ok p = (path_absolute p \<and> list_all seg_ok (path_segs p))"

definition core_ok :: "fs_core \<Rightarrow> bool" where
  "core_ok core = (root_ok (fc_root core) \<and> (\<forall>d. fc_atomic_write_dir core = Some d \<longrightarrow> root_ok d))"

definition file_path :: "string \<Rightarrow> bool" where
  "file_path path = (normalized_path path \<and> \<not> ends_with path CHR ''/'' \<and> list_all seg_ok (path_split path))"

definition target_of :: "fs_core \<Rightarrow> string \<Rightarrow> string list" where
  "target_of core path = path_segs (fc_root core) @ path_split path"

lemma path_split_path_of: "xs \<noteq> [] \<Longrightarrow> segments xs \<Longrightarrow> path_split (path_of xs dir) = xs"
  by (simp add: path_split_def split_path_of)

lemma file_pathE:
  assumes "file_path path"
  obtains xs x where "path = path_of (xs @ [x]) False" "path_split path = xs @ [x]" "segments (xs @ [x])" "list_all seg_ok (xs @ [x])"
proof -
  have "path \<noteq> slash" using assms by (auto simp: file_path_def slash_def ends_with_def)
  then obtain xs x dir where x: "segments (xs @ [x])" "path = path_of (xs @ [x]) dir"
    using normalized_path_snocE assms unfolding file_path_def by metis
  then have "\<not> dir" using assms by (auto simp: file_path_def simp del: segments_append)
  with x that path_split_path_of [OF _ x(1), of False] assms show ?thesis by (auto simp: file_path_def simp del: segments_append)
qed

lemma path_join_plain:
  "root_ok r \<Longrightarrow> \<not> starts_char s CHR ''/'' \<Longrightarrow> path_join r s = PathBuf True (path_segs r @ path_split s)"
  by (simp add: path_join_def root_ok_def)

lemma target_join:
  assumes "root_ok (fc_root core)" "file_path path"
  shows "path_join (fc_root core) path = PathBuf True (target_of core path)"
    "list_all seg_ok (target_of core path)" "target_of core path \<noteq> []"
proof -
  obtain xs x where x: "path = path_of (xs @ [x]) False" "path_split path = xs @ [x]" "segments (xs @ [x])" "list_all seg_ok (xs @ [x])"
    using file_pathE [OF assms(2)] .
  from path_of_starts [OF _ x(3), of False] x(1) have "\<not> starts_char path CHR ''/''" by simp
  with path_join_plain [OF assms(1)] show "path_join (fc_root core) path = PathBuf True (target_of core path)"
    by (simp add: target_of_def)
  show "list_all seg_ok (target_of core path)" "target_of core path \<noteq> []"
    using assms(1) x(2,4) by (simp_all add: target_of_def root_ok_def)
qed

lemma tmp_join:
  assumes "root_ok d" "file_path path" "CHR ''/'' \<notin> set u"
  shows "path_join d (tmp_file_of u path) = PathBuf True (path_segs d @ [tmp_file_of u path])" "seg_ok (tmp_file_of u path)"
proof -
  obtain xs x where x: "path = path_of (xs @ [x]) False" "path_split path = xs @ [x]" "segments (xs @ [x])" "list_all seg_ok (xs @ [x])"
    using file_pathE [OF assms(2)] .
  have base: "get_basename path = x" using get_basename_path_of [OF x(3), of False] x(1) by simp
  have seg: "seg_ok x" using x(4) by simp
  then have t: "tmp_file_of u path = x @ ''.'' @ u" "CHR ''/'' \<notin> set (tmp_file_of u path)" "tmp_file_of u path \<noteq> []"
    using assms(3) base by (auto simp: tmp_file_of_def seg_ok_def)
  then have "path_split (tmp_file_of u path) = [tmp_file_of u path]" by (simp add: path_split_def split_on_no)
  moreover have "\<not> starts_char (tmp_file_of u path) CHR ''/''" using t(2,3) hd_in_set by (fastforce simp: starts_char_def)
  ultimately show "path_join d (tmp_file_of u path) = PathBuf True (path_segs d @ [tmp_file_of u path])"
    using path_join_plain [OF assms(1)] by simp
  have "x @ ''.'' @ u \<noteq> ''.''" "x @ ''.'' @ u \<noteq> ''..''"
    using seg by (auto simp: seg_ok_def append_eq_Cons_conv)
  with t show "seg_ok (tmp_file_of u path)" by (simp add: seg_ok_def)
qed

subsection \<open>Opening and closing a file for writing\<close>

lemma ensure_write_Ok:
  assumes "fs_ok (fw_disk w)" "ensure_write_abs_path parent path w = (r, w')"
  shows "fs_grows (fw_disk w) (fw_disk w') \<and> (\<forall>q. r = Ok q \<longrightarrow> q = path_join parent path)"
proof (cases "path_parent (path_join parent path)")
  case None
  with assms show ?thesis by (auto simp: ensure_write_abs_path_def Let_def)
next
  case (Some q)
  obtain x w1 where x: "on_disk (sys_create_dir_all q) w = (x, w1)" by fastforce
  then have "fs_grows (fw_disk w) (fw_disk w1)"
    by (cases rule: on_disk_cases) (use assms(1) sys_create_dir_all_spec in blast)+
  with assms(2) Some x show ?thesis by (cases x) (auto simp: ensure_write_abs_path_def Let_def)
qed

text \<open>The file a write goes to first.\<close>

definition file_of :: "fs_core \<Rightarrow> string \<Rightarrow> path_buf option \<Rightarrow> string list" where
  "file_of core path tmp = (case tmp of None \<Rightarrow> target_of core path | Some p \<Rightarrow> path_segs p)"

definition tmp_ok :: "fs_core \<Rightarrow> string \<Rightarrow> path_buf option \<Rightarrow> bool" where
  "tmp_ok core path tmp = (\<forall>p. tmp = Some p \<longrightarrow> (\<exists>d u. fc_atomic_write_dir core = Some d \<and> CHR ''/'' \<notin> set u
     \<and> p = PathBuf True (path_segs d @ [tmp_file_of u path])))"

lemma file_of_plain:
  assumes "core_ok core" "file_path path" "tmp_ok core path tmp"
  shows "(case tmp of Some p \<Rightarrow> p | None \<Rightarrow> PathBuf True (target_of core path)) = PathBuf True (file_of core path tmp)
    \<and> list_all seg_ok (file_of core path tmp)"
proof (cases tmp)
  case None
  with target_join [of core path] assms show ?thesis by (simp add: file_of_def core_ok_def)
next
  case (Some p)
  then obtain d u where d: "fc_atomic_write_dir core = Some d" "CHR ''/'' \<notin> set u" "p = PathBuf True (path_segs d @ [tmp_file_of u path])"
    using assms(3) by (auto simp: tmp_ok_def)
  moreover have "root_ok d" using assms(1) d(1) by (simp add: core_ok_def)
  ultimately show ?thesis using Some tmp_join [of d path u] assms(2) by (simp add: file_of_def root_ok_def)
qed

lemma fs_write_paths_Ok:
  assumes "core_ok core" "file_path path" "fs_ok (fw_disk w)" "\<And>x. CHR ''/'' \<notin> set (fst (uuid x))"
    and "fs_write_paths uuid core path app w = (Ok (target, tmp), w')"
  shows "fs_grows (fw_disk w) (fw_disk w') \<and> target = PathBuf True (target_of core path) \<and> tmp_ok core path tmp
    \<and> (fc_atomic_write_dir core \<noteq> None \<and> \<not> app \<longrightarrow> tmp \<noteq> None)"
proof (cases "fc_atomic_write_dir core")
  case None
  then obtain w1 where "ensure_write_abs_path (fc_root core) path w = (Ok target, w1)" "w' = w1" "tmp = None"
    using assms(5) by (auto simp: fs_write_paths_def step_Ok_iff)
  with ensure_write_Ok [OF assms(3)] target_join(1) [of core path] assms(1,2) None show ?thesis
    by (auto simp: tmp_ok_def core_ok_def)
next
  case (Some d)
  obtain w1 w2 t w3 where s: "ensure_write_abs_path (fc_root core) path w = (Ok target, w1)"
    "on_exec uuid w1 = (t, w2)" "fw_disk w2 = fw_disk w1" "CHR ''/'' \<notin> set t"
    "\<exists>tp. ensure_write_abs_path d (tmp_file_of t path) w2 = (Ok tp, w3) \<and> (tmp = Some tp \<or> tmp = None \<and> app)"
    "\<exists>es. fw_disk w' = (fw_disk w3)\<lparr>fs_events := es\<rparr>"
  proof -
    obtain q w1 where q: "ensure_write_abs_path (fc_root core) path w = (Ok q, w1)"
      and rest: "(let (u, w) = on_exec uuid w1 in
            step (ensure_write_abs_path d (tmp_file_of u path) w) (\<lambda>tmp w.
              if app
              then step (on_disk (sys_try_exists q) w) (\<lambda>e w. (Ok (q, if e then None else Some tmp), w))
              else (Ok (q, Some tmp), w))) = (Ok (target, tmp), w')"
      using assms(5) Some by (auto simp: fs_write_paths_def step_Ok_iff)
    obtain u w2 where u: "on_exec uuid w1 = (u, w2)" by fastforce
    then have u': "fw_disk w2 = fw_disk w1" "CHR ''/'' \<notin> set u"
      using assms(4) [of "fw_exec w1"] by (auto simp: on_exec_def split: prod.splits)
    obtain tp w3 where tp: "ensure_write_abs_path d (tmp_file_of u path) w2 = (Ok tp, w3)"
      and r3: "(if app then step (on_disk (sys_try_exists q) w3) (\<lambda>e w. (Ok (q, if e then None else Some tp), w))
              else (Ok (q, Some tp), w3)) = (Ok (target, tmp), w')"
      using rest u by (auto simp: step_Ok_iff)
    show ?thesis
    proof (cases app)
      case False
      have "\<exists>es. fw_disk w3 = (fw_disk w3)\<lparr>fs_events := es\<rparr>" by (rule exI [of _ "fs_events (fw_disk w3)"]) simp
      with False that [of w1 u w2 w3] q u u' tp r3 show ?thesis by auto
    next
      case True
      obtain e where e: "on_disk (sys_try_exists q) w3 = (Ok e, w')" "target = q" "tmp = (if e then None else Some tp)"
        using r3 True by (auto simp: step_Ok_iff)
      from e(1) have "sys_try_exists q (fw_disk w3) = (Inr e, fw_disk w')" by (cases rule: on_disk_cases) auto
      then obtain x where "sys_metadata q (fw_disk w3) = (x, fw_disk w')"
        by (auto simp: sys_try_exists_def split: prod.splits sum.splits if_splits)
      from sys_metadata_files [OF this] have "\<exists>es. fw_disk w' = (fw_disk w3)\<lparr>fs_events := es\<rparr>" .
      with True that [of w1 u w2 w3] q u u' tp e show ?thesis by auto
    qed
  qed
  note g1 = ensure_write_Ok [OF assms(3) s(1)]
  have "fs_ok (fw_disk w2)" using g1 s(3) by (auto dest: fs_grows_ok)
  then have g2: "fs_grows (fw_disk w2) (fw_disk w3)" "\<And>tp. ensure_write_abs_path d (tmp_file_of t path) w2 = (Ok tp, w3) \<Longrightarrow> tp = path_join d (tmp_file_of t path)"
    using s(5) ensure_write_Ok by blast+
  have "fs_grows (fw_disk w) (fw_disk w')"
    using fs_grows_trans [OF g1 [THEN conjunct1]] g2(1) s(3,6) by (auto simp: fs_grows_def)
  moreover have "tmp_ok core path tmp"
    using s(4,5) g2(2) Some tmp_join(1) [of d path t] assms(1,2) by (auto simp: tmp_ok_def core_ok_def)
  moreover have "target = PathBuf True (target_of core path)" using g1 target_join(1) [of core path] assms(1,2) by (simp add: core_ok_def)
  ultimately show ?thesis using s(5) by auto
qed

lemma fs_open_writer_Ok:
  assumes "core_ok core" "file_path path" "fs_ok (fw_disk w)" "\<And>x. CHR ''/'' \<notin> set (fst (uuid x))"
    and "fs_open_writer uuid core path args w = (Ok st, w')"
  shows "\<exists>tmp h. st = \<lparr>fsw_target = PathBuf True (target_of core path), fsw_tmp = tmp, fsw_f = Some h\<rparr> \<and> tmp_ok core path tmp
    \<and> (fc_atomic_write_dir core \<noteq> None \<and> \<not> wo_append args \<longrightarrow> tmp \<noteq> None) \<and> fh_pos h = 0 \<and> fh_append h = wo_append args
    \<and> disk_holds (fs_files (fw_disk w)) (file_of core path tmp) h
        (if wo_append args then file_bytes (fw_disk w) (file_of core path tmp) else []) (fw_disk w')"
proof -
  obtain target tmp w1 h where s: "fs_write_paths uuid core path (wo_append args) w = (Ok (target, tmp), w1)"
    "on_disk (sys_open_write (wo_append args) (case tmp of Some p \<Rightarrow> p | None \<Rightarrow> target)) w1 = (Ok h, w')"
    "st = \<lparr>fsw_target = target, fsw_tmp = tmp, fsw_f = Some h\<rparr>"
    using assms(5) by (auto simp: fs_open_writer_def step_Ok_iff)
  note p = fs_write_paths_Ok [OF assms(1-4) s(1)]
  let ?F = "file_of core path tmp"
  have F: "(case tmp of Some p \<Rightarrow> p | None \<Rightarrow> target) = PathBuf True ?F" "list_all seg_ok ?F"
    using file_of_plain [OF assms(1,2), of tmp] p by (cases tmp; simp)+
  have files: "fs_files (fw_disk w1) = fs_files (fw_disk w)" "fs_ok (fw_disk w1)" using p by (auto simp: fs_grows_def)
  from s(2) have "sys_open_write (wo_append args) (PathBuf True ?F) (fw_disk w1) = (Inr h, fw_disk w')"
    unfolding F(1) by (cases rule: on_disk_cases) auto
  from sys_open_write_spec [OF files(2) this] obtain q where q: "locate (fw_disk w1) (PathBuf True ?F) = Inr q"
    "open_at (fw_disk w') q h" "fh_pos h = 0" "fh_append h = wo_append args"
    "fs_files (fw_disk w') = (fs_files (fw_disk w1))(q \<mapsto> if wo_append args then file_bytes (fw_disk w1) q else [])" by auto
  have "q = ?F" by (rule locate_plain [OF q(1) F(2)])
  with q files(1) s(3) p show ?thesis by (auto simp: disk_holds_def file_bytes_def)
qed

lemma sys_sync_all_files: "sys_sync_all h fs = (r, fs') \<Longrightarrow> \<exists>es. fs' = fs\<lparr>fs_events := es\<rparr>"
  unfolding sys_sync_all_def by (erule sys_call_cases) auto

text \<open>The files after \<open>close\<close>: the target has the data, and the temporary file is gone.\<close>

definition published ::
  "(string list \<Rightarrow> bytes option) \<Rightarrow> fs_core \<Rightarrow> string \<Rightarrow> path_buf option \<Rightarrow> bytes \<Rightarrow> string list \<Rightarrow> bytes option" where
  "published fm core path tmp data =
     (case tmp of None \<Rightarrow> fm | Some p \<Rightarrow> fm(path_segs p := None))(target_of core path \<mapsto> data)"

lemma fsw_publish_spec:
  assumes "core_ok core" "file_path path" "tmp_ok core path tmp"
    and st: "st = \<lparr>fsw_target = PathBuf True (target_of core path), fsw_tmp = tmp, fsw_f = f\<rparr>"
    and d: "disk_holds fm (file_of core path tmp) h data (fw_disk w)"
    and r: "fsw_publish st h' w = (r, w')"
  shows "if r = Ok () then fs_ok (fw_disk w') \<and> fs_files (fw_disk w') = published fm core path tmp data
    else (\<exists>e. r = Err e) \<and> disk_holds fm (file_of core path tmp) h data (fw_disk w')"
proof -
  obtain x w1 where x: "on_disk (sys_sync_all h') w = (x, w1)" by fastforce
  then have w1: "\<exists>es. fw_disk w1 = (fw_disk w)\<lparr>fs_events := es\<rparr>" "x = Ok () \<or> (\<exists>e. x = Err e)"
    by (cases rule: on_disk_cases, use sys_sync_all_files in auto)+
  then have d1: "disk_holds fm (file_of core path tmp) h data (fw_disk w1)" using d by auto
  show ?thesis
  proof (cases "x = Ok ()")
    case False
    with w1(2) x r d1 show ?thesis by (auto simp: fsw_publish_def)
  next
    case True
    show ?thesis
    proof (cases tmp)
      case None
      with True x r st d1 show ?thesis by (auto simp: fsw_publish_def published_def file_of_def disk_holds_def open_at_def)
    next
      case (Some tp)
      let ?F = "file_of core path tmp" and ?T = "target_of core path" and ?fs = "fw_disk w1"
      have F: "tp = PathBuf True ?F" "list_all seg_ok ?F" "path_segs tp = ?F"
        using file_of_plain [OF assms(1-3)] Some by (auto simp: file_of_def)
      have T: "list_all seg_ok ?T" using target_join(2) [of core path] assms(1,2) by (simp add: core_ok_def)
      have r': "on_disk (sys_rename tp (PathBuf True ?T)) w1 = (r, w')" using True x r st Some by (simp add: fsw_publish_def)
      obtain i where i: "fs_ok ?fs" "node_at ?fs ?F = Some (FileNode i)" "fs_files ?fs = fm(?F \<mapsto> data)"
        using d1 by (auto simp: disk_holds_def open_at_def)
      from r' show ?thesis
      proof (cases rule: on_disk_cases)
        case (1 a)
        then have ren: "sys_rename tp (PathBuf True ?T) ?fs = (Inr (), fw_disk w')" by simp
        have "locate ?fs tp = Inr ?F" using locate_plain_node [OF F(2) i(1)] i(2) F(1) by simp
        from sys_rename_file [OF i(1) this i(2) ren] obtain t where t: "fs_ok (fw_disk w')" "locate ?fs (PathBuf True ?T) = Inr t"
          "fs_files (fw_disk w') = (fs_files ?fs)(?F := None, t := fs_files ?fs ?F)" by blast
        have "t = ?T" by (rule locate_plain [OF t(2) T])
        with t 1(1) i(3) F(3) Some show ?thesis by (auto simp: published_def)
      next
        case (2 e err)
        with sys_rename_spec [OF i(1), of tp "PathBuf True ?T" "Inl e" "fw_disk w'"] d1 show ?thesis by auto
      qed
    qed
  qed
qed

subsection \<open>The writer of the service\<close>

text \<open>What the position writer of a write to \<open>path\<close> keeps, and what it has committed.\<close>

definition fsx_inv ::
  "(string list \<Rightarrow> bytes option) \<Rightarrow> fs_core \<Rightarrow> string \<Rightarrow> buffer list \<Rightarrow> fs_writers \<times> 'x fs_world \<Rightarrow> bool" where
  "fsx_inv fm core path log = (\<lambda>(wr, w). \<exists>tmp h pw. tmp_ok core path tmp
     \<and> wr = TwoWay \<lparr>fsw_target = PathBuf True (target_of core path), fsw_tmp = tmp, fsw_f = Some h\<rparr> pw
     \<and> position_file.pf_inv (fsp_holds fm (file_of core path tmp) h) (fsp_placed (file_of core path tmp)) log (pw, w))"

definition fsx_committed ::
  "(string list \<Rightarrow> bytes option) \<Rightarrow> fs_core \<Rightarrow> string \<Rightarrow> buffer list \<Rightarrow> fs_writers \<times> 'x fs_world \<Rightarrow> bool" where
  "fsx_committed fm core path log = (\<lambda>(wr, w). log_ok log \<longrightarrow> fs_ok (fw_disk w)
     \<and> (\<exists>tmp. tmp_ok core path tmp \<and> fs_files (fw_disk w) = published fm core path tmp (log_bytes log)))"

lemma fs_position_close_spec:
  assumes "core_ok core" "file_path path" "tmp_ok core path tmp"
    and st: "st = \<lparr>fsw_target = PathBuf True (target_of core path), fsw_tmp = tmp, fsw_f = Some h\<rparr>"
    and d: "disk_holds fm (file_of core path tmp) h data (fw_disk w)"
    and r: "fsw_position_close st w = (r, w')"
  shows "if r = Inr () then fs_ok (fw_disk w') \<and> fs_files (fw_disk w') = published fm core path tmp data
    else disk_holds fm (file_of core path tmp) h data (fw_disk w')"
proof -
  obtain x w1 where x: "on_disk (sys_try_clone h) w = (x, w1)" by fastforce
  note c = on_disk_try_clone [OF x]
  then have d1: "disk_holds fm (file_of core path tmp) h data (fw_disk w1)" using d by auto
  show ?thesis
  proof (cases "x = Ok h")
    case True
    obtain y w2 where y: "fsw_publish st h w1 = (y, w2)" by fastforce
    have "w' = w2" "r = res_io y task_join_error" using r st x True y by (auto simp: fsw_position_close_def)
    with fsw_publish_spec [OF assms(1-3) st d1 y] show ?thesis by (auto simp: res_io_def split: if_splits)
  next
    case False
    with c r st x d1 show ?thesis by (auto simp: fsw_position_close_def res_io_def)
  qed
qed

lemma fs_oio_write:
  fixes ex :: "'x executor"
  assumes core: "core_ok core" "file_path path"
  shows "oio_write (writer_writes (fs_access ex uuid info core)) (writer_closes (fs_access ex uuid info core))
    (fsx_inv fm core path) (fsx_committed fm core path)"
proof
  fix log b and s s' :: "fs_writers \<times> 'x fs_world" and e
  assume inv: "fsx_inv fm core path log s"
  obtain wr' w' where s': "s' = (wr', w')" by fastforce
  obtain tmp h pw w where s: "tmp_ok core path tmp"
    "s = (TwoWay \<lparr>fsw_target = PathBuf True (target_of core path), fsw_tmp = tmp, fsw_f = Some h\<rparr> pw, w)"
    and pf: "position_file.pf_inv (fsp_holds fm (file_of core path tmp) h) (fsp_placed (file_of core path tmp)) log (pw, w)"
    using inv by (auto simp: fsx_inv_def)
  let ?st = "\<lparr>fsw_target = PathBuf True (target_of core path), fsw_tmp = tmp, fsw_f = Some h\<rparr>"
  note laws = fsp.pf_write [where ex = ex and t = "PathBuf True (target_of core path)" and tmp = tmp, OF pf]
  show "fsx_inv fm core path (log @ [b]) s'" if call: "writer_writes (fs_access ex uuid info core) b s = (Ok (), s')"
  proof -
    obtain pw' where "pw_write (fs_executor ex) (fs_position_write ?st) b (pw, w) = (Ok (), pw', w')" "wr' = TwoWay ?st pw'"
      using call s s' by (auto simp: fs_access_def split: prod.splits)
    with laws(1) s(1) s' show ?thesis by (auto simp: fsx_inv_def)
  qed
  show "fsx_inv fm core path log s'" if call: "writer_writes (fs_access ex uuid info core) b s = (Err e, s')"
  proof -
    obtain pw' where "pw_write (fs_executor ex) (fs_position_write ?st) b (pw, w) = (Err e, pw', w')" "wr' = TwoWay ?st pw'"
      using call s s' by (auto simp: fs_access_def split: prod.splits)
    with laws(2) s(1) s' show ?thesis by (auto simp: fsx_inv_def)
  qed
  show "fsx_committed fm core path log s'" if call: "writer_closes (fs_access ex uuid info core) s = (Ok (), s')"
  proof -
    obtain pw' where c: "pw_close (fs_executor ex) (fs_position_write ?st) (pw, w) = (Ok (), pw', w')"
      using call s s' by (auto simp: fs_access_def split: prod.splits)
    have "fs_ok (fw_disk w') \<and> fs_files (fw_disk w') = published fm core path tmp (log_bytes log)" if ok: "log_ok log"
    proof -
      obtain w0 where w0: "fsp_holds fm (file_of core path tmp) h log w0" "\<forall>i \<in> set (pw_layout 0 log). fsp_placed (file_of core path tmp) i w0"
        "pw_close_file (fs_position_write ?st) w0 = (Inr (), w')"
        using fsp.pf_close [OF pf ok c] by auto
      have "disk_holds fm (file_of core path tmp) h (log_bytes log) (fw_disk w0)" by (rule fsp_complete [OF ok w0(1,2)])
      from fs_position_close_spec [OF core s(1) refl this, of "Inr ()" w'] w0(3) show ?thesis by (simp add: fs_position_write_def)
    qed
    with s(1) s' show ?thesis by (auto simp: fsx_committed_def)
  qed
qed

lemma default_layers_write_Ok:
  assumes "ac_write (default_layers blk ac) path args w = (Ok wr, w0)"
  shows "\<exists>x. wr = Some x \<and> ac_write ac path args w = (Ok (ecw_inner x), w0)"
proof -
  have "ac_write (complete_layer blk (error_context_layer blk ac)) path args w = (Ok wr, w0)"
    using assms by (auto simp: default_layers_def correctness_check_def cc_write_def Let_def split: if_splits option.splits)
  then show ?thesis
    by (auto simp: complete_layer_def error_context_fields ec_call_def ecw_new_def split: prod.splits outcome.splits)
qed

lemma fs_write_starts:
  assumes "core_ok core" "file_path path" "fs_ok (fw_disk w)" "\<And>x. CHR ''/'' \<notin> set (fst (uuid x))" "\<not> wo_append args"
    and "fs_write uuid core path args w = (Ok wr, w0)"
  shows "fsx_inv (fs_files (fw_disk w)) core path [] (wr, w0)"
proof -
  obtain st where st: "fs_open_writer uuid core path args w = (Ok st, w0)" "wr = TwoWay st (pw_new (wo_concurrent args))"
    using assms(5,6) by (auto simp: fs_write_def step_Ok_iff)
  from fs_open_writer_Ok [OF assms(1-4) st(1)] assms(5) obtain tmp h where
    h: "st = \<lparr>fsw_target = PathBuf True (target_of core path), fsw_tmp = tmp, fsw_f = Some h\<rparr>" "tmp_ok core path tmp"
    "disk_holds (fs_files (fw_disk w)) (file_of core path tmp) h [] (fw_disk w0)" by auto
  have "fsp_holds (fs_files (fw_disk w)) (file_of core path tmp) h [] w0" using h(3) by (auto simp: fsp_holds_def)
  from fsp.pf_new [OF this] st(2) h(1,2) show ?thesis by (auto simp: fsx_inv_def)
qed

text \<open>Only the target and a temporary file with its name change.\<close>

definition only_changes :: "fs_core \<Rightarrow> string \<Rightarrow> (string list \<Rightarrow> bytes option) \<Rightarrow> (string list \<Rightarrow> bytes option) \<Rightarrow> bool" where
  "only_changes core path fm fm' = (\<forall>q. q \<noteq> target_of core path \<longrightarrow> fm' q = fm q
     \<or> (\<exists>d u. fc_atomic_write_dir core = Some d \<and> q = path_segs d @ [tmp_file_of u path]))"

lemma published_only:
  assumes "tmp_ok core path tmp"
  shows "only_changes core path fm (published fm core path tmp data)"
proof (cases tmp)
  case (Some p)
  then obtain d u where "fc_atomic_write_dir core = Some d" "p = PathBuf True (path_segs d @ [tmp_file_of u path])"
    using assms by (auto simp: tmp_ok_def)
  with Some show ?thesis unfolding only_changes_def published_def by simp blast
qed (simp add: only_changes_def published_def)

lemma fs_write_committed:
  fixes ex :: "'x executor" and g' :: "((fs_writers ec_wrapper) option \<times> 'x fs_world) write_generator"
  assumes "core_ok core" "file_path path" "fs_ok (fw_disk w)" "\<And>x. CHR ''/'' \<notin> set (fst (uuid x))" "\<not> wo_append args"
    and "list_all buf_wf bs" "length (log_bytes bs) \<le> u64_max" "exact \<longrightarrow> chunk_size \<noteq> Some 0"
    and "op = default_layers False (fs_access ex uuid info core)"
    and "ac_write op path args w = (Ok wr, w0)"
    and "writer_write_list (writer_writes op) bs (wg_create (wr, w0) (chunk_size, exact)) = Some (Ok (), g)"
    and "wg_close (writer_writes op) (writer_closes op) g = (Ok (), g')"
  shows "fs_ok (fw_disk (snd (wg_w g'))) \<and> (\<exists>tmp. tmp_ok core path tmp
    \<and> fs_files (fw_disk (snd (wg_w g'))) = published (fs_files (fw_disk w)) core path tmp (log_bytes bs))"
proof -
  let ?ac = "fs_access ex uuid info core" and ?fm = "fs_files (fw_disk w)"
  let ?com = "\<lambda>log (st, w). \<exists>x :: fs_writers ec_wrapper. fsx_committed ?fm core path log (ecw_inner x, w)"
  have law: "oio_write (writer_writes op) (writer_closes op)
      (\<lambda>log (st, w). \<exists>x. st = Some x \<and> fsx_inv ?fm core path log (ecw_inner x, w)) ?com"
    using default_layers_writer [OF fs_oio_write [OF assms(1,2), of ex uuid info ?fm], of False] unfolding assms(9) .
  obtain x where x: "wr = Some x" "ac_write ?ac path args w = (Ok (ecw_inner x), w0)"
    using default_layers_write_Ok [OF assms(10) [unfolded assms(9)]] by auto
  have "fsx_inv ?fm core path [] (ecw_inner x, w0)"
    by (rule fs_write_starts [OF assms(1-5)]) (use x(2) in \<open>simp add: fs_access_def\<close>)
  with chunked_write_done [OF law _ assms(6,8), of "(wr, w0)"] x(1) assms(11,12)
  have "wg_done ?com chunk_size exact (log_bytes bs) (wg_w g')" by auto
  then obtain log where log: "?com log (wg_w g')" "list_all buf_wf log" "log_bytes log = log_bytes bs"
    unfolding wg_done_def by (elim exE conjE) (rule that)
  with assms(7) have "log_ok log" by (simp add: log_ok_def)
  with log show ?thesis by (cases "wg_w g'") (auto simp: fsx_committed_def)
qed

subsection \<open>Nobody sees a part of a write\<close>

definition some_data :: "(string list \<Rightarrow> bytes option) \<Rightarrow> string list \<Rightarrow> file_handle \<Rightarrow> 'x fs_world \<Rightarrow> bool" where
  "some_data fm p h w = (\<exists>d. disk_holds fm p h d (fw_disk w))"

lemma some_data_exec: "on_exec f w = (a, w') \<Longrightarrow> some_data fm p h w \<Longrightarrow> some_data fm p h w'"
  by (auto simp: some_data_def on_exec_def split: prod.splits)

lemma some_data_write_at:
  assumes "some_data fm p h w" "fsw_f st = Some h" "buf_wf buf" "fsw_write_all_at st off buf w = (r, w')"
  shows "some_data fm p h w'"
  using assms(1) fsw_write_all_at_spec [OF _ assms(2-4)] by (fastforce simp: some_data_def)

interpretation fsa: task_effects
  "pw_spawn (fs_executor ex) (fs_position_write \<lparr>fsw_target = t, fsw_tmp = tmp, fsw_f = Some h\<rparr>)"
  "\<lambda>i. buf_wf (pi_bytes i)" "some_data fm p h" "\<lambda>i w. True" for ex :: "'x executor" and t tmp h fm p
proof
  fix i and w w' :: "'x fs_world" and ta
  let ?st = "\<lparr>fsw_target = t, fsw_tmp = tmp, fsw_f = Some h\<rparr>"
  assume i: "buf_wf (pi_bytes i)" and w: "some_data fm p h w" and sp: "pw_spawn (fs_executor ex) (fs_position_write ?st) i w = (ta, w')"
  obtain f w1 where f: "on_exec (ex_timeout ex) w = (f, w1)" by fastforce
  obtain r w2 where r: "fsw_write_all_at ?st (pi_offset i) (pi_bytes i) w1 = (r, w2)" by fastforce
  obtain n w3 where n: "on_exec (ex_delay ex) w2 = (n, w3)" by fastforce
  have "ta = Task i n (i, if f then Inl (pw_timeout_error i) else r)" "w' = w3"
    using sp f r n by (auto simp: pw_spawn_def run_task_def fs_executor_def fs_position_write_def)
  moreover have "some_data fm p h w1" by (rule some_data_exec [OF f w])
  then have "some_data fm p h w2" by (rule some_data_write_at) (use i r in auto)
  then have "some_data fm p h w3" by (rule some_data_exec [OF n])
  ultimately show "some_data fm p h w' \<and> task_input ta = i \<and> fst (task_output ta) = i
      \<and> (\<forall>j. buf_wf (pi_bytes j) \<longrightarrow> True \<longrightarrow> True) \<and> (\<forall>out. snd (task_output ta) = Inr out \<longrightarrow> True)" by simp
qed

definition fsa_inv ::
  "(string list \<Rightarrow> bytes option) \<Rightarrow> fs_core \<Rightarrow> string \<Rightarrow> path_buf option \<Rightarrow> fs_writers \<times> 'x fs_world \<Rightarrow> bool" where
  "fsa_inv fm core path tmp = (\<lambda>(wr, w). \<exists>h pw.
     wr = TwoWay \<lparr>fsw_target = PathBuf True (target_of core path), fsw_tmp = tmp, fsw_f = Some h\<rparr> pw
     \<and> (\<forall>c. pw_cache pw = Some c \<longrightarrow> buf_wf c)
     \<and> task_effects.te_holds (\<lambda>i. buf_wf (pi_bytes i)) (some_data fm (file_of core path tmp) h) (\<lambda>i w. True) [] (pw_tasks pw) w)"

lemma fsa_write:
  assumes "fsa_inv fm core path tmp (wr, w)" "buf_wf b" "fs_writer_write ex b wr w = (r, wr', w')"
  shows "fsa_inv fm core path tmp (wr', w')"
proof -
  let ?F = "file_of core path tmp" and ?t = "PathBuf True (target_of core path)"
  obtain h pw where wr: "wr = TwoWay \<lparr>fsw_target = ?t, fsw_tmp = tmp, fsw_f = Some h\<rparr> pw" "\<forall>c. pw_cache pw = Some c \<longrightarrow> buf_wf c"
    and te: "task_effects.te_holds (\<lambda>i. buf_wf (pi_bytes i)) (some_data fm ?F h) (\<lambda>i w. True) [] (pw_tasks pw) w"
    using assms(1) by (auto simp: fsa_inv_def)
  let ?ops = "fs_position_write \<lparr>fsw_target = ?t, fsw_tmp = tmp, fsw_f = Some h\<rparr>"
  obtain pw' where p: "pw_write (fs_executor ex) ?ops b (pw, w) = (r, pw', w')" "wr' = TwoWay \<lparr>fsw_target = ?t, fsw_tmp = tmp, fsw_f = Some h\<rparr> pw'"
    using assms(3) wr(1) by (auto split: prod.splits)
  show ?thesis
  proof (cases "pw_cache pw")
    case None
    then have "pw' = pw\<lparr>pw_cache := Some b\<rparr>" "w' = w" using p(1) by (auto simp: pw_write_def pw_fill_cache_def)
    with p(2) te assms(2) show ?thesis by (auto simp: fsa_inv_def)
  next
    case (Some c)
    let ?i = "\<lparr>pi_offset = pw_next_offset pw, pi_bytes = c\<rparr>"
    obtain x ts w1 where x: "ct_execute (pw_spawn (fs_executor ex) ?ops) ?i (pw_tasks pw) w = (x, ts, w1)" by (metis prod_cases3)
    have good: "buf_wf (pi_bytes ?i)" using wr(2) Some by simp
    have "task_effects.te_holds (\<lambda>i. buf_wf (pi_bytes i)) (some_data fm ?F h) (\<lambda>i w. True) (if x = Ok () then [] @ [?i] else []) ts w1"
      by (rule fsa.te_execute [OF te good x])
    then have te': "task_effects.te_holds (\<lambda>i. buf_wf (pi_bytes i)) (some_data fm ?F h) (\<lambda>i w. True) [] ts w1"
      unfolding fsa.te_holds_def by (simp split: if_splits)
    have "w' = w1 \<and> pw_tasks pw' = ts \<and> (\<forall>c. pw_cache pw' = Some c \<longrightarrow> buf_wf c)"
      using p(1) Some x wr(2) assms(2)
      by (cases x; cases "u64_add (pw_next_offset pw) (of_nat (buf_len c)) :: u64 res") (auto simp: pw_write_def pw_fill_cache_def Let_def)
    with p(2) te' show ?thesis by (auto simp: fsa_inv_def)
  qed
qed

lemma fsa_close:
  assumes core: "core_ok core" "file_path path" "tmp_ok core path tmp"
    and inv: "fsa_inv fm core path tmp (wr, w)" and r: "fs_writer_close ex wr w = (r, wr', w')"
  shows "if r = Ok () then fs_ok (fw_disk w') \<and> (\<exists>data. fs_files (fw_disk w') = published fm core path tmp data)
    else fsa_inv fm core path tmp (wr', w')"
proof -
  let ?F = "file_of core path tmp" and ?t = "PathBuf True (target_of core path)"
  obtain h pw where wr: "wr = TwoWay \<lparr>fsw_target = ?t, fsw_tmp = tmp, fsw_f = Some h\<rparr> pw" "\<forall>c. pw_cache pw = Some c \<longrightarrow> buf_wf c"
    and te: "task_effects.te_holds (\<lambda>i. buf_wf (pi_bytes i)) (some_data fm ?F h) (\<lambda>i w. True) [] (pw_tasks pw) w"
    using inv by (auto simp: fsa_inv_def)
  let ?st = "\<lparr>fsw_target = ?t, fsw_tmp = tmp, fsw_f = Some h\<rparr>"
  let ?ops = "fs_position_write ?st"
  let ?te = "\<lambda>ts w. task_effects.te_holds (\<lambda>i. buf_wf (pi_bytes i)) (some_data fm ?F h) (\<lambda>i w. True) [] ts w"
  obtain pw' where p: "pw_close (fs_executor ex) ?ops (pw, w) = (r, pw', w')" "wr' = TwoWay ?st pw'"
    using r wr(1) by (auto split: prod.splits)
  obtain d ds ts w1 where d: "ct_drain (pw_spawn (fs_executor ex) ?ops) [] (pw_tasks pw) w = (d, ds, ts, w1)" by (metis prod_cases4)
  have te1: "?te ts w1" using fsa.te_drain [OF te d] by simp
  have move: "?te ts w2" if "some_data fm ?F h w2" for w2 using te1 that by (auto simp: fsa.te_holds_def fsa.task_ok_def)
  show ?thesis
  proof (cases "d = Ok ()")
    case False
    then have "r \<noteq> Ok () \<and> pw' = pw\<lparr>pw_tasks := ts\<rparr> \<and> w' = w1" using p(1) d by (cases d) (auto simp: pw_close_def)
    with p(2) te1 wr(2) show ?thesis by (auto simp: fsa_inv_def)
  next
    case True
    obtain x pw2 w2 where x: "(case pw_cache pw of None \<Rightarrow> (Inr (), pw\<lparr>pw_tasks := ts\<rparr>, w1)
        | Some buf \<Rightarrow> (case pw_write_all_at ?ops (pw_next_offset pw) buf w1 of
            (Inl e, w2) \<Rightarrow> (Inl e, pw\<lparr>pw_tasks := ts\<rparr>, w2) | (Inr u, w2) \<Rightarrow> (Inr (), pw\<lparr>pw_tasks := ts, pw_cache := None\<rparr>, w2))) = (x, pw2, w2)"
      by (rule prod_cases3)
    have s2: "some_data fm ?F h w2" "pw_tasks pw2 = ts" "\<forall>c. pw_cache pw2 = Some c \<longrightarrow> buf_wf c"
    proof -
      have s1: "some_data fm ?F h w1" using te1 by (simp add: fsa.te_holds_def)
      show "some_data fm ?F h w2"
      proof (cases "pw_cache pw")
        case None
        with x s1 show ?thesis by simp
      next
        case (Some c)
        obtain y w3 where y: "fsw_write_all_at ?st (pw_next_offset pw) c w1 = (y, w3)" by fastforce
        have "some_data fm ?F h w3" by (rule some_data_write_at [OF s1 _ _ y]) (use wr(2) Some in auto)
        with x Some y show ?thesis by (cases y) (auto simp: fs_position_write_def)
      qed
    qed (use x wr(2) in \<open>auto split: option.splits prod.splits sum.splits\<close>)
    then have te2: "?te (pw_tasks pw2) w2" using move by simp
    show ?thesis
    proof (cases x)
      case (Inl e)
      have "r = Err e \<and> pw' = pw2 \<and> w' = w2"
        using p(1) d True x Inl by (cases "pw_cache pw") (auto simp: pw_close_def Let_def split: prod.splits sum.splits)
      with p(2) te2 s2(3) show ?thesis by (auto simp: fsa_inv_def)
    next
      case (Inr u)
      obtain y w3 where y: "fsw_position_close ?st w2 = (y, w3)" by fastforce
      have res: "pw' = pw2 \<and> w' = w3 \<and> r = (case y of Inl e \<Rightarrow> Err e | Inr u \<Rightarrow> Ok ())"
        using p(1) d True x Inr y by (cases "pw_cache pw") (auto simp: pw_close_def Let_def fs_position_write_def split: prod.splits sum.splits)
      obtain data where "disk_holds fm ?F h data (fw_disk w2)" using s2(1) by (auto simp: some_data_def)
      note c = fs_position_close_spec [OF core refl this y]
      show ?thesis
      proof (cases y)
        case (Inl e)
        with c have "some_data fm ?F h w3" by (auto simp: some_data_def)
        with move s2(2) have "?te (pw_tasks pw2) w3" by simp
        with res Inl p(2) s2(3) show ?thesis by (auto simp: fsa_inv_def)
      qed (use c res in auto)
    qed
  qed
qed

text \<open>The states a writer goes through before a \<open>close\<close> succeeds: writes with any result, and closes that fail.\<close>

inductive fs_writer_reach :: "'x executor \<Rightarrow> fs_writers \<times> 'x fs_world \<Rightarrow> fs_writers \<times> 'x fs_world \<Rightarrow> bool"
  for ex s0 where
  reach_start: "fs_writer_reach ex s0 s0"
| reach_write: "fs_writer_reach ex s0 (wr, w) \<Longrightarrow> buf_wf b \<Longrightarrow> fs_writer_write ex b wr w = (r, wr', w') \<Longrightarrow>
    fs_writer_reach ex s0 (wr', w')"
| reach_close: "fs_writer_reach ex s0 (wr, w) \<Longrightarrow> fs_writer_close ex wr w = (r, wr', w') \<Longrightarrow> r \<noteq> Ok () \<Longrightarrow>
    fs_writer_reach ex s0 (wr', w')"

lemma fs_reach_inv:
  assumes "fs_writer_reach ex s0 s" "core_ok core" "file_path path" "tmp_ok core path tmp" "fsa_inv fm core path tmp s0"
  shows "fsa_inv fm core path tmp s"
  using assms(1,5)
proof (induction rule: fs_writer_reach.induct)
  case (reach_write wr w b r wr' w')
  then show ?case using fsa_write by blast
next
  case (reach_close wr w r wr' w')
  then show ?case using fsa_close [OF assms(2-4)] by fastforce
qed

lemma tmp_not_target: "file_path path \<Longrightarrow> target_of core path \<noteq> d @ [tmp_file_of u path]"
proof
  assume p: "file_path path" and eq: "target_of core path = d @ [tmp_file_of u path]"
  obtain xs x where x: "path = path_of (xs @ [x]) False" "path_split path = xs @ [x]" "segments (xs @ [x])"
    using file_pathE [OF p] by metis
  have "get_basename path = x" using get_basename_path_of [OF x(3), of False] x(1) by simp
  then have "x = x @ ''.'' @ u" using arg_cong [OF eq, of last] x(2) by (simp add: target_of_def tmp_file_of_def)
  then show False by simp
qed

lemma fs_atomic_start:
  assumes "core_ok core" "file_path path" "fs_ok (fw_disk w)" "\<And>x. CHR ''/'' \<notin> set (fst (uuid x))" "\<not> wo_append args"
    and "fc_atomic_write_dir core \<noteq> None" "fs_write uuid core path args w = (Ok wr, w0)"
  shows "\<exists>tmp. tmp \<noteq> None \<and> tmp_ok core path tmp \<and> fsa_inv (fs_files (fw_disk w)) core path tmp (wr, w0)"
proof -
  obtain st where st: "fs_open_writer uuid core path args w = (Ok st, w0)" "wr = TwoWay st (pw_new (wo_concurrent args))"
    using assms(5,7) by (auto simp: fs_write_def step_Ok_iff)
  from fs_open_writer_Ok [OF assms(1-4) st(1)] assms(5,6) obtain tmp h where
    h: "st = \<lparr>fsw_target = PathBuf True (target_of core path), fsw_tmp = tmp, fsw_f = Some h\<rparr>" "tmp_ok core path tmp" "tmp \<noteq> None"
    "disk_holds (fs_files (fw_disk w)) (file_of core path tmp) h [] (fw_disk w0)" by auto
  then have "some_data (fs_files (fw_disk w)) (file_of core path tmp) h w0" by (auto simp: some_data_def)
  from fsa.te_new [OF this] st(2) h show ?thesis by (auto simp: fsa_inv_def pw_new_def)
qed

lemma fsa_files:
  assumes "fsa_inv fm core path tmp (wr, w)"
  shows "\<exists>d. fs_ok (fw_disk w) \<and> fs_files (fw_disk w) = fm(file_of core path tmp \<mapsto> d)"
proof -
  from assms obtain h and ts :: "(position_input, unit) concurrent_tasks" where "task_effects.te_holds (\<lambda>i. buf_wf (pi_bytes i)) (some_data fm (file_of core path tmp) h) (\<lambda>i w. True) [] ts w"
    by (auto simp: fsa_inv_def)
  then have "some_data fm (file_of core path tmp) h w" by (simp add: fsa.te_holds_def)
  then show ?thesis by (auto simp: some_data_def disk_holds_def open_at_def)
qed

subsection \<open>A disk for concrete runs\<close>

definition demo_disk :: "sys_event list \<Rightarrow> file_system" where
  "demo_disk es = \<lparr>fs_tree = [([''r''], DirNode), ([''t''], DirNode), ([''r'', ''f''], FileNode 0)],
     fs_data = (\<lambda>i. [9]), fs_next = 1, fs_cwd = [], fs_events = es\<rparr>"

definition demo_world :: "sys_event list \<Rightarrow> unit fs_world" where
  "demo_world es = \<lparr>fw_disk = demo_disk es, fw_pool = pooled_new 1, fw_locks = [], fw_exec = ()\<rparr>"

definition demo_core :: "bool \<Rightarrow> fs_core" where
  "demo_core atomic = \<lparr>fc_root = PathBuf True [''r''], fc_atomic_write_dir = if atomic then Some (PathBuf True [''t'']) else None\<rparr>"

definition demo_executor :: "unit executor" where
  "demo_executor = \<lparr>ex_timeout = \<lambda>x. (False, x), ex_delay = \<lambda>x. (0, x)\<rparr>"

definition demo_uuid :: "unit \<Rightarrow> string \<times> unit" where
  "demo_uuid = (\<lambda>x. (''u'', x))"

lemma demo_disk_simps [simp]:
  "fs_tree (demo_disk es) = [([''r''], DirNode), ([''t''], DirNode), ([''r'', ''f''], FileNode 0)]" "fs_next (demo_disk es) = 1"
  "fs_data (demo_disk es) = (\<lambda>i. [9])" "fs_events (demo_disk es) = es"
  by (simp_all add: demo_disk_def)

lemma demo_nodes: "node_at (demo_disk es) p = (if p = [] then Some DirNode else if p = [''r''] then Some DirNode
    else if p = [''t''] then Some DirNode else if p = [''r'', ''f''] then Some (FileNode 0) else None)"
  by (simp add: node_at_def)

lemma demo_disk_ok: "fs_ok (demo_disk es)"
  unfolding fs_ok_def
proof (intro conjI allI impI)
  fix p :: "string list" and n
  assume "node_at (demo_disk es) (p @ [n]) \<noteq> None"
  then have "p @ [n] \<in> {[''r''], [''t''], [''r'', ''f'']}" by (auto simp: demo_nodes split: if_splits)
  then have "p = [] \<or> p = [''r'']" by (auto simp: append_eq_Cons_conv)
  then show "node_at (demo_disk es) p = Some DirNode" by (auto simp: demo_nodes)
qed (auto simp: demo_nodes split: if_splits)

lemma demo_ok:
  "core_ok (demo_core atomic)" "file_path ''f''" "fs_ok (fw_disk (demo_world es))" "CHR ''/'' \<notin> set (fst (demo_uuid x))"
  "target_of (demo_core atomic) ''f'' = [''r'', ''f'']"
proof -
  have s: "path_split ''f'' = [''f'']" by code_simp
  show "core_ok (demo_core atomic)" by (simp add: core_ok_def root_ok_def demo_core_def seg_ok_def)
  show "file_path ''f''"
    using normalized_path_path_of [of "[''f'']" False] by (simp add: file_path_def s seg_ok_def ends_with_def)
  show "fs_ok (fw_disk (demo_world es))" by (simp add: demo_world_def demo_disk_ok)
  show "CHR ''/'' \<notin> set (fst (demo_uuid x))" by (simp add: demo_uuid_def)
  show "target_of (demo_core atomic) ''f'' = [''r'', ''f'']" by (simp add: target_of_def demo_core_def s)
qed

definition demo_info :: fs_info where
  "demo_info = (\<lambda>fs q. (4096, Inr 0))"

text \<open>Data is written in chunks to \<open>/r/f\<close>, which held one byte, by an operator with its default layers.\<close>

definition demo_write ::
  "bool \<Rightarrow> sys_event list \<Rightarrow> buffer list \<Rightarrow> unit fs_world option" where
  "demo_write atomic es bs =
     (let op = default_layers False (fs_access demo_executor demo_uuid demo_info (demo_core atomic)) in
      case ac_write op ''f'' op_write_default (demo_world es) of
        (Ok wr, w0) \<Rightarrow>
          (case writer_write_list (writer_writes op) bs (wg_create (wr, w0) (Some 2, True)) of
             Some (Ok u, g) \<Rightarrow>
               (case wg_close (writer_writes op) (writer_closes op) g of (Ok u, g') \<Rightarrow> Some (snd (wg_w g')) | _ \<Rightarrow> None)
           | _ \<Rightarrow> None)
      | _ \<Rightarrow> None)"

lemma run_Some:
  assumes "(case a of
      (Ok wr, w0) \<Rightarrow> (case f wr w0 of
          Some (Ok u, g) \<Rightarrow> (case h g of (Ok u, g') \<Rightarrow> Some (k g') | _ \<Rightarrow> None)
        | _ \<Rightarrow> None)
    | _ \<Rightarrow> None) = Some y"
  shows "\<exists>wr w0 g g'. a = (Ok wr, w0) \<and> f wr w0 = Some (Ok (), g) \<and> h g = (Ok (), g') \<and> y = k g'"
proof -
  obtain r w0 where a: "a = (r, w0)" by fastforce
  then obtain wr where wr: "r = Ok wr" using assms by (cases r) auto
  then obtain r2 g where f: "f wr w0 = Some (r2, g)" using assms a by (cases "f wr w0") auto
  then have r2: "r2 = Ok ()" using assms a wr by (cases r2) auto
  obtain r3 g' where h: "h g = (r3, g')" by fastforce
  have r3: "r3 = Ok ()" using assms by (cases r3) (simp_all add: a wr f r2 h)
  have "y = k g'" using assms by (simp add: a wr f r2 h r3)
  then show ?thesis using a wr f r2 h r3 by blast
qed

subsection \<open>Properties of writing\<close>

text \<open>
  C4. Files are written exactly. Let a user write buffers to a file through the generator and the default layers of an operator on the file system service, with whatever chunk size, number of
  concurrent tasks and directory for temporary files. System calls may fail or write fewer bytes than asked, tasks may time out, finish late and run twice. When the writes and
  the close have succeeded, the file holds exactly the concatenated buffers, no other file has changed but a temporary one, and the disk is sound.
\<close>

theorem fs_write_exact:
  fixes ex :: "'x executor" and g' :: "((fs_writers ec_wrapper) option \<times> 'x fs_world) write_generator"
  assumes "core_ok core" "file_path path" "fs_ok (fw_disk w)" "\<And>x. CHR ''/'' \<notin> set (fst (uuid x))" "\<not> wo_append args"
    and "list_all buf_wf bs" "length (log_bytes bs) \<le> u64_max" "exact \<longrightarrow> chunk_size \<noteq> Some 0"
    and "op = default_layers False (fs_access ex uuid info core)"
    and "ac_write op path args w = (Ok wr, w0)"
    and "writer_write_list (writer_writes op) bs (wg_create (wr, w0) (chunk_size, exact)) = Some (Ok (), g)"
    and "wg_close (writer_writes op) (writer_closes op) g = (Ok (), g')"
  shows "fs_ok (fw_disk (snd (wg_w g'))) \<and> fs_files (fw_disk (snd (wg_w g'))) (target_of core path) = Some (log_bytes bs)
    \<and> only_changes core path (fs_files (fw_disk w)) (fs_files (fw_disk (snd (wg_w g'))))"
proof -
  obtain tmp where "fs_ok (fw_disk (snd (wg_w g')))" and tmp: "tmp_ok core path tmp"
    "fs_files (fw_disk (snd (wg_w g'))) = published (fs_files (fw_disk w)) core path tmp (log_bytes bs)"
    using fs_write_committed [OF assms] by blast
  with published_only [OF tmp(1), of "fs_files (fw_disk w)" "log_bytes bs"] show ?thesis by (simp add: published_def)
qed

theorem fs_write_exact_witness:
  "\<exists>w'. demo_write True [Fine, Fine, Fine, Fine, Fine, Fine, Short 1] [Contiguous [1, 2, 3]] = Some w'
    \<and> fs_files (fw_disk w') [''r'', ''f''] = Some [1, 2, 3]"
proof -
  let ?es = "[Fine, Fine, Fine, Fine, Fine, Fine, Short 1]" and ?bs = "[Contiguous [1, 2, 3]]"
  let ?op = "default_layers False (fs_access demo_executor demo_uuid demo_info (demo_core True))"
  have "demo_write True ?es ?bs \<noteq> None" by code_simp
  then obtain w' where w': "demo_write True ?es ?bs = Some w'" by blast
  obtain wr w0 g g' where r: "ac_write ?op ''f'' op_write_default (demo_world ?es) = (Ok wr, w0)"
    "writer_write_list (writer_writes ?op) ?bs (wg_create (wr, w0) (Some 2, True)) = Some (Ok (), g)"
    "wg_close (writer_writes ?op) (writer_closes ?op) g = (Ok (), g')" "w' = snd (wg_w g')"
    using run_Some [OF w' [unfolded demo_write_def Let_def]] by blast
  have a: "\<not> wo_append op_write_default" "list_all buf_wf ?bs" "length (log_bytes ?bs) \<le> u64_max" "True \<longrightarrow> Some 2 \<noteq> Some (0 :: nat)"
    by (simp_all add: op_write_default_def log_bytes_def u64_max_def)
  from fs_write_exact [OF demo_ok(1-4) a refl r(1-3)] have "fs_files (fw_disk w') [''r'', ''f''] = Some [1, 2, 3]"
    unfolding r(4) demo_ok(5) by (simp add: log_bytes_def)
  with w' show ?thesis by blast
qed

text \<open>
  C5. Writes are atomic. With a directory for temporary files, nobody sees a part of a write: in every state between the opening of a writer and a successful close,
  after whatever writes and failed closes, every file but the temporary one is as it was, so a reader of the path sees the old content. A close that succeeds
  replaces it in one step.
\<close>

theorem fs_write_atomic:
  fixes ex :: "'x executor"
  assumes "core_ok core" "file_path path" "fs_ok (fw_disk w)" "\<And>x. CHR ''/'' \<notin> set (fst (uuid x))" "\<not> wo_append args"
    and "fc_atomic_write_dir core \<noteq> None" "ac_write (fs_access ex uuid info core) path args w = (Ok wr, w0)"
    and "fs_writer_reach ex (wr, w0) (wr1, w1)"
  shows "fs_files (fw_disk w1) (target_of core path) = fs_files (fw_disk w) (target_of core path)
    \<and> only_changes core path (fs_files (fw_disk w)) (fs_files (fw_disk w1))
    \<and> (\<forall>wr2 w2. fs_writer_close ex wr1 w1 = (Ok (), wr2, w2) \<longrightarrow>
         (\<exists>data. fs_files (fw_disk w2) (target_of core path) = Some data)
         \<and> only_changes core path (fs_files (fw_disk w)) (fs_files (fw_disk w2)))"
proof -
  let ?fm = "fs_files (fw_disk w)"
  have "fs_write uuid core path args w = (Ok wr, w0)" using assms(7) by (simp add: fs_access_def)
  from fs_atomic_start [OF assms(1-6) this] obtain tmp where
    tmp: "tmp \<noteq> None" "tmp_ok core path tmp" "fsa_inv ?fm core path tmp (wr, w0)" by blast
  have inv: "fsa_inv ?fm core path tmp (wr1, w1)" by (rule fs_reach_inv [OF assms(8,1,2) tmp(2,3)])
  then obtain d where d: "fs_files (fw_disk w1) = ?fm(file_of core path tmp \<mapsto> d)" using fsa_files by blast
  obtain dir u where f: "fc_atomic_write_dir core = Some dir" "file_of core path tmp = path_segs dir @ [tmp_file_of u path]"
    using tmp(1,2) by (auto simp: tmp_ok_def file_of_def)
  have "only_changes core path ?fm (fs_files (fw_disk w1))" unfolding only_changes_def d f(2) using f(1) by auto
  moreover have "fs_files (fw_disk w1) (target_of core path) = ?fm (target_of core path)"
    unfolding d f(2) using tmp_not_target [OF assms(2), of core "path_segs dir" u] by simp
  moreover have "(\<exists>data. fs_files (fw_disk w2) (target_of core path) = Some data) \<and> only_changes core path ?fm (fs_files (fw_disk w2))"
    if "fs_writer_close ex wr1 w1 = (Ok (), wr2, w2)" for wr2 w2
    using fsa_close [OF assms(1,2) tmp(2) inv that] published_only [OF tmp(2), of ?fm] by (auto simp: published_def)
  ultimately show ?thesis by blast
qed

theorem fs_write_atomic_witness:
  "\<exists>wr w0 wr1 w1. ac_write (fs_access demo_executor demo_uuid demo_info (demo_core True)) ''f'' op_write_default (demo_world []) = (Ok wr, w0)
    \<and> fs_writer_write demo_executor (Contiguous [1, 2, 3]) wr w0 = (Ok (), wr1, w1)
    \<and> fs_files (fw_disk w1) [''r'', ''f''] = Some [9]"
proof -
  let ?ac = "fs_access demo_executor demo_uuid demo_info (demo_core True)"
  have "case ac_write ?ac ''f'' op_write_default (demo_world []) of
      (Ok wr, w0) \<Rightarrow> fst (fs_writer_write demo_executor (Contiguous [1, 2, 3]) wr w0) = Ok () | _ \<Rightarrow> False" by code_simp
  then obtain wr w0 wr1 w1 where r: "ac_write ?ac ''f'' op_write_default (demo_world []) = (Ok wr, w0)"
    "fs_writer_write demo_executor (Contiguous [1, 2, 3]) wr w0 = (Ok (), wr1, w1)"
    by (auto split: prod.splits outcome.splits) (metis prod.collapse fst_conv)
  have "fs_writer_reach demo_executor (wr, w0) (wr1, w1)"
    by (rule reach_write [OF reach_start _ r(2)]) simp
  moreover have "\<not> wo_append op_write_default" "fc_atomic_write_dir (demo_core True) \<noteq> None"
    by (simp_all add: op_write_default_def demo_core_def)
  ultimately have "fs_files (fw_disk w1) [''r'', ''f''] = fs_files (fw_disk (demo_world [])) [''r'', ''f'']"
    using fs_write_atomic [OF demo_ok(1-4) _ _ r(1)] unfolding demo_ok(5) by blast
  also have "\<dots> = Some [9]" by (simp add: fs_files_def demo_world_def demo_nodes)
  finally show ?thesis using r by blast
qed

lemma fsw_close_sequential:
  assumes "core_ok core" "file_path path" "tmp_ok core path tmp"
    and st: "st = \<lparr>fsw_target = PathBuf True (target_of core path), fsw_tmp = tmp, fsw_f = Some h\<rparr>"
    and d: "disk_holds fm (file_of core path tmp) h data (fw_disk w)"
    and r: "fsw_close st w = (Ok (), st', w') \<or> fsw_blocking_close st w = (Ok (), st', w')"
  shows "fs_ok (fw_disk w') \<and> fs_files (fw_disk w') = published fm core path tmp data"
proof -
  obtain x w1 where x: "fsw_publish st h w = (x, w1)" by fastforce
  then have "x = Ok ()" "w' = w1" using r st by (auto simp: fsw_close_def fsw_blocking_close_def)
  with fsw_publish_spec [OF assms(1-3) st d x] show ?thesis by simp
qed

text \<open>
  C37. Appending and blocking writes are exact. A writer that writes at the cursor, as the blocking one and the one that appends do, returns for every buffer without empty parts, however short the writes of the
  file system are. When all its writes and the close succeed, what it wrote follows what the file held, when it appends, or replaces it; no other file changes.
\<close>

theorem fs_sequential_exact:
  fixes w :: "'x fs_world"
  assumes "core_ok core" "file_path path" "fs_ok (fw_disk w)" "\<And>x. CHR ''/'' \<notin> set (fst (uuid x))"
    and "fc_atomic_write_dir core = None" "list_all buf_wf bs"
    and "ac_write (fs_blocking_access uuid info core) path args w = (Ok st, w0)"
    and "fsw_writes bs st w0 = (Ok (), st1, w1)"
    and "fsw_close st1 w1 = (Ok (), st2, w2) \<or> ac_writer_close (fs_blocking_access uuid info core) st1 w1 = (Ok (), st2, w2)"
  shows "fs_files (fw_disk w2) = (fs_files (fw_disk w))(target_of core path \<mapsto>
      (if wo_append args then file_bytes (fw_disk w) (target_of core path) else []) @ log_bytes bs)
    \<and> (\<forall>b \<in> set bs. parts_nonempty b \<longrightarrow> (\<forall>h s. \<exists>y. fs_write_loop seq_write b (h, s :: 'x fs_world) = Some y))"
proof -
  have op: "fs_open_writer uuid core path args w = (Ok st, w0)" using assms(7) by (simp add: fs_blocking_access_def)
  from fs_open_writer_Ok [OF assms(1-4) op] obtain tmp h where
    h: "st = \<lparr>fsw_target = PathBuf True (target_of core path), fsw_tmp = tmp, fsw_f = Some h\<rparr>" "tmp_ok core path tmp"
    "fh_pos h = 0" "fh_append h = wo_append args"
    "disk_holds (fs_files (fw_disk w)) (file_of core path tmp) h
        (if wo_append args then file_bytes (fw_disk w) (file_of core path tmp) else []) (fw_disk w0)" by blast
  have tmp: "tmp = None" using h(2) assms(5) by (cases tmp) (auto simp: tmp_ok_def)
  have "at_end h (if wo_append args then file_bytes (fw_disk w) (file_of core path tmp) else [])" using h(3,4) by (simp add: at_end_def)
  from fsw_writes_spec [OF h(5) this _ assms(6,8)] h(1) obtain h' where
    h': "st1 = st\<lparr>fsw_f := Some h'\<rparr>" "disk_holds (fs_files (fw_disk w)) (file_of core path tmp) h'
        ((if wo_append args then file_bytes (fw_disk w) (file_of core path tmp) else []) @ log_bytes bs) (fw_disk w1)" by auto
  have "fsw_close st1 w1 = (Ok (), st2, w2) \<or> fsw_blocking_close st1 w1 = (Ok (), st2, w2)"
    using assms(9) by (simp add: fs_blocking_access_def)
  from fsw_close_sequential [OF assms(1,2) h(2) _ h'(2) this] h'(1) h(1) tmp
  have "fs_files (fw_disk w2) = (fs_files (fw_disk w))(target_of core path \<mapsto>
      (if wo_append args then file_bytes (fw_disk w) (target_of core path) else []) @ log_bytes bs)"
    by (simp add: published_def file_of_def)
  moreover have "\<exists>y. fs_write_loop seq_write b (k, s) = Some y" if "b \<in> set bs" "parts_nonempty b" for b k and s :: "'x fs_world"
    using fsw_write_returns [of b "\<lparr>fsw_target = PathBuf True [], fsw_tmp = None, fsw_f = Some k\<rparr>" k s] that assms(6)
    by (simp add: list_all_iff)
  ultimately show ?thesis by blast
qed

definition demo_append ::
  "sys_event list \<Rightarrow> buffer list \<Rightarrow> (unit res \<times> bytes option \<times> (unit res \<times> bytes option)) option" where
  "demo_append es bs =
     (case fs_open_writer demo_uuid (demo_core False) ''f'' (op_write_default\<lparr>wo_append := True\<rparr>) (demo_world es) of
        (Ok st, w0) \<Rightarrow>
          (case fsw_writes bs st w0 of
             (r, st1, w1) \<Rightarrow>
               (case fsw_writes bs st1 w1 of
                  (r', st2, w2) \<Rightarrow>
                    Some (r, fs_files (fw_disk w1) [''r'', ''f''], (r', fs_files (fw_disk w2) [''r'', ''f'']))))
      | _ \<Rightarrow> None)"

lemma run_True:
  assumes "case a of (Ok st, w0) \<Rightarrow> (case f st w0 of (r, st1, w1) \<Rightarrow> r = Ok () \<and> fst (h st1 w1) = Ok ()) | _ \<Rightarrow> False"
  shows "\<exists>st w0 st1 w1 st2 w2. a = (Ok st, w0) \<and> f st w0 = (Ok (), st1, w1) \<and> h st1 w1 = (Ok (), st2, w2)"
proof -
  obtain r w0 where a: "a = (r, w0)" by fastforce
  then obtain st where st: "r = Ok st" using assms by (cases r) auto
  obtain r1 st1 w1 where f: "f st w0 = (r1, st1, w1)" by (rule prod_cases3)
  obtain r2 st2 w2 where h: "h st1 w1 = (r2, st2, w2)" by (rule prod_cases3)
  have "r1 = Ok ()" "r2 = Ok ()" using assms by (simp_all add: a st f h)
  with a st f h show ?thesis by blast
qed

theorem fs_sequential_exact_witness:
  "\<exists>st w0 st1 w1 st2 w2. ac_write (fs_blocking_access demo_uuid demo_info (demo_core False)) ''f'' (op_write_default\<lparr>wo_append := True\<rparr>) (demo_world []) = (Ok st, w0)
    \<and> fsw_writes [Contiguous [1, 2]] st w0 = (Ok (), st1, w1) \<and> fsw_close st1 w1 = (Ok (), st2, w2)
    \<and> fs_files (fw_disk w2) [''r'', ''f''] = Some [9, 1, 2]"
proof -
  let ?ac = "fs_blocking_access demo_uuid demo_info (demo_core False)" and ?a = "op_write_default\<lparr>wo_append := True\<rparr>"
  have "case ac_write ?ac ''f'' ?a (demo_world []) of
      (Ok st, w0) \<Rightarrow> (case fsw_writes [Contiguous [1, 2]] st w0 of (r, st1, w1) \<Rightarrow> r = Ok () \<and> fst (fsw_close st1 w1) = Ok ()) | _ \<Rightarrow> False" by code_simp
  then obtain st w0 st1 w1 st2 w2 where r: "ac_write ?ac ''f'' ?a (demo_world []) = (Ok st, w0)"
    "fsw_writes [Contiguous [1, 2]] st w0 = (Ok (), st1, w1)" "fsw_close st1 w1 = (Ok (), st2, w2)"
    using run_True by blast
  have a: "fc_atomic_write_dir (demo_core False) = None" "list_all buf_wf [Contiguous [1, 2]]" by (simp_all add: demo_core_def)
  from fs_sequential_exact [OF demo_ok(1-4) a r(1,2) disjI1 [OF r(3)]]
  have "fs_files (fw_disk w2) [''r'', ''f''] = Some (file_bytes (fw_disk (demo_world [])) [''r'', ''f''] @ [1, 2])"
    unfolding demo_ok(5) by (simp add: log_bytes_def)
  moreover have "file_bytes (fw_disk (demo_world [])) [''r'', ''f''] = [9]" by (simp add: file_bytes_def fs_files_def demo_world_def demo_nodes)
  ultimately show ?thesis using r by auto
qed

text \<open>
  A sequential write that fails halfway keeps what it has written. The error of the system call is temporary, so the retry layer writes the whole buffer again, and the
  part that was written appears twice.
\<close>

lemma fs_append_retry_duplicates:
  "demo_append [Fine, Fine, Fine, Short 1, Fault ebusy] [Contiguous [1, 2]] =
     Some (std_io_err ebusy, Some [9, 1], (Ok (), Some [9, 1, 1, 2]))"
  "\<exists>e. std_io_err ebusy = (Err e :: unit res) \<and> is_temporary e"
proof -
  show "demo_append [Fine, Fine, Fine, Short 1, Fault ebusy] [Contiguous [1, 2]] =
     Some (std_io_err ebusy, Some [9, 1], (Ok (), Some [9, 1, 1, 2]))" by code_simp
qed (simp add: std_io_err_def new_std_io_error_def ebusy_def error_defs)

end
