(* ===== verification/FsReads.thy ===== *)
theory FsReads
  imports FsService
begin

text \<open>
  Reading and changing the files of the service \<^verbatim>\<open>core/src/services/fs\<close>. A file is a range service, so that the reader of the retry layer returns exactly the bytes of
  a range; \<open>create_dir\<close>, \<open>delete\<close>, \<open>copy\<close> and \<open>rename\<close> do on the disk what they promise on the map of files.
\<close>

subsection \<open>Paths\<close>

lemma trim_end_slash_file: "\<not> ends_with path CHR ''/'' \<Longrightarrow> trim_end_slash path = path"
  by (cases path rule: rev_cases) (auto simp: trim_end_slash_def ends_with_def)

lemma fs_path_file:
  assumes "core_ok core" "file_path path"
  shows "fs_path core path = PathBuf True (target_of core path)"
  using assms target_join(1) [of core path] by (simp add: fs_path_def file_path_def core_ok_def trim_end_slash_file)

subsection \<open>Reading\<close>

text \<open>The file a range is read from stays as it is, and the pool holds empty buffers.\<close>

definition reads_file :: "string list \<Rightarrow> nat \<Rightarrow> bytes \<Rightarrow> 'x fs_world \<Rightarrow> bool" where
  "reads_file q i content w =
     (fs_ok (fw_disk w) \<and> node_at (fw_disk w) q = Some (FileNode i) \<and> fs_data (fw_disk w) i = content \<and> pooled_wf (fw_pool w))"

definition reader_holds :: "nat \<Rightarrow> bytes \<Rightarrow> bytes \<Rightarrow> fs_reader \<Rightarrow> bool" where
  "reader_holds i content bs st =
     (fh_node (fsr_f st) = FileNode i \<and> fsr_done st \<le> fsr_size st \<and> 0 < fsr_buf_size st
      \<and> bs = take (fsr_size st - fsr_done st) (drop (fh_pos (fsr_f st)) content))"

lemma reads_file_events:
  "reads_file q i content (w\<lparr>fw_disk := (fw_disk w)\<lparr>fs_events := es\<rparr>\<rparr>) = reads_file q i content w"
  by (simp add: reads_file_def)

lemma sys_open_read_cases:
  assumes "list_all seg_ok q" "sys_open_read (PathBuf True q) fs = (r, fs')"
  shows "\<exists>es. fs' = fs\<lparr>fs_events := es\<rparr>
    \<and> (\<forall>h. r = Inr h \<longrightarrow> (\<exists>n. node_at fs q = Some n \<and> h = \<lparr>fh_node = n, fh_pos = 0, fh_append = False\<rparr>))"
  using assms(2) unfolding sys_open_read_def
proof (cases rule: sys_at_cases)
  case (2 es p)
  with locate_plain [OF 2(1) assms(1)] show ?thesis by (auto split: option.splits)
qed auto

lemma sys_seek_cases:
  assumes "sys_seek off h fs = (r, fs')"
  shows "\<exists>es. fs' = fs\<lparr>fs_events := es\<rparr> \<and> (\<forall>h'. r = Inr h' \<longrightarrow> h' = h\<lparr>fh_pos := off\<rparr>)"
  using assms unfolding sys_seek_def by (cases rule: sys_call_cases) (auto split: if_splits)

lemma sys_read_cases:
  assumes "fh_node h = FileNode i" "sys_read n h fs = (r, fs')"
  shows "\<exists>es. fs' = fs\<lparr>fs_events := es\<rparr>
    \<and> (\<forall>data h'. r = Inr (data, h') \<longrightarrow> (\<exists>k \<le> n. min 1 n \<le> k \<and> data = take k (drop (fh_pos h) (fs_data fs i))
         \<and> h' = h\<lparr>fh_pos := fh_pos h + length data\<rparr>))"
proof -
  let ?k = "max (min 1 n) (sys_limit fs n)"
  have k: "?k \<le> n" "min 1 n \<le> ?k" by (auto simp: sys_limit_def split: list.splits sys_event.splits)
  from assms(2) show ?thesis unfolding sys_read_def Let_def
  proof (cases rule: sys_call_cases)
    case (2 es)
    with k assms(1) show ?thesis by (auto intro!: exI [of _ es] exI [of _ ?k])
  qed auto
qed

lemma on_disk_pool: "on_disk f w = (r, w') \<Longrightarrow> fw_pool w' = fw_pool w"
  by (auto simp: on_disk_def split: prod.splits sum.splits)

lemma on_disk_reads_file:
  assumes "on_disk f w = (r, w')" "reads_file q i content w" "fw_disk w' = (fw_disk w)\<lparr>fs_events := es\<rparr>"
  shows "reads_file q i content w'"
  using assms(2,3) on_disk_pool [OF assms(1)] by (simp add: reads_file_def)

lemma fs_read_spec:
  assumes "core_ok core" "file_path path" "reads_file (target_of core path) i content w" "length content \<le> u64_max"
    and "fs_read core path (ro_with_range rng args) w = (r, w')"
  shows "reads_file (target_of core path) i content w' \<and> r \<noteq> Panic
    \<and> (\<forall>st. r = Ok st \<longrightarrow> reader_holds i content (br_select rng content) st)"
proof -
  let ?q = "target_of core path" and ?off = "unat (br_offset rng)"
  have q: "list_all seg_ok ?q" "fs_path core path = PathBuf True ?q"
    using fs_path_file [OF assms(1,2)] target_join(2) [OF _ assms(2), of core] assms(1) by (auto simp: core_ok_def)
  have rng: "ro_range (ro_with_range rng args) = rng" by (simp add: ro_with_range_def)
  obtain x w1 where x: "on_disk (sys_open_read (PathBuf True ?q)) w = (x, w1)" by fastforce
  have w1: "reads_file ?q i content w1 \<and> x \<noteq> Panic \<and> (\<forall>h. x = Ok h \<longrightarrow> fh_node h = FileNode i \<and> fh_pos h = 0)"
    using x
  proof (cases rule: on_disk_cases)
    case (1 h)
    have "node_at (fw_disk w) ?q = Some (FileNode i)" using assms(3) by (simp add: reads_file_def)
    with 1(1) sys_open_read_cases [OF q(1) 1(2)] on_disk_reads_file [OF x assms(3)] show ?thesis by auto
  next
    case (2 e err)
    from 2(1) sys_open_read_cases [OF q(1) 2(2)] on_disk_reads_file [OF x assms(3)] show ?thesis by blast
  qed
  show ?thesis
  proof (cases x)
    case (Ok h)
    let ?seek = "if br_offset rng \<noteq> 0 then on_disk (sys_seek ?off h) w1 else (Ok h, w1)"
    obtain y w2 where y: "?seek = (y, w2)" by fastforce
    have w2: "reads_file ?q i content w2 \<and> y \<noteq> Panic \<and> (\<forall>h'. y = Ok h' \<longrightarrow> fh_node h' = FileNode i \<and> fh_pos h' = ?off)"
    proof (cases "br_offset rng = 0")
      case False
      with y have "on_disk (sys_seek ?off h) w1 = (y, w2)" by simp
      note keep = on_disk_reads_file [OF this, of ?q i content]
      from \<open>on_disk (sys_seek ?off h) w1 = (y, w2)\<close> show ?thesis
      proof (cases rule: on_disk_cases)
        case (1 h')
        from sys_seek_cases [OF 1(2)] obtain es where es: "fw_disk w2 = (fw_disk w1)\<lparr>fs_events := es\<rparr>" "h' = h\<lparr>fh_pos := ?off\<rparr>" by blast
        show ?thesis using keep [OF _ es(1)] w1 Ok 1(1) es(2) by simp
      next
        case (2 e err)
        from 2(1) sys_seek_cases [OF 2(2)] keep w1 show ?thesis by blast
      qed
    qed (use y w1 Ok in auto)
    have sel: "br_select rng content = take (case br_size rng of Some n \<Rightarrow> unat n | None \<Rightarrow> u64_max) (drop ?off content)"
      using assms(4) by (auto simp: br_select_def split: option.splits)
    have "(r, w') = step ?seek (\<lambda>f w. (Ok (fsr_new f (case br_size rng of Some n \<Rightarrow> unat n | None \<Rightarrow> u64_max)), w))"
      using assms(5) unfolding fs_read_def rng q(2) x Ok by simp
    with y w2 show ?thesis by (cases y) (auto simp: fsr_new_def reader_holds_def sel)
  qed (use assms(5) x w1 in \<open>auto simp: fs_read_def q(2)\<close>)
qed

lemma take_step: "k \<le> n \<Longrightarrow> take n xs = take k xs @ take (n - length (take k xs)) (drop (length (take k xs)) xs)"
  by (cases "k \<le> length xs") (auto simp: min_def take_add [symmetric])

lemma fsr_read_spec:
  assumes "reads_file q i content w" "reader_holds i content bs st" "fsr_read st w = (r, st', w')"
  shows "reads_file q i content w' \<and> r \<noteq> Panic
    \<and> (\<forall>b. r = Ok b \<longrightarrow> buf_wf b
        \<and> (\<exists>rest. bs = buf_bytes b @ rest \<and> reader_holds i content rest st' \<and> (buf_bytes b = [] \<longrightarrow> rest = [])))"
proof (cases "fsr_size st \<le> fsr_done st")
  case True
  with assms show ?thesis by (auto simp: fsr_read_def reader_holds_def)
next
  case False
  let ?sz = "min (fsr_size st - fsr_done st) (fsr_buf_size st)"
  have h: "fh_node (fsr_f st) = FileNode i" "0 < ?sz" "bs = take (fsr_size st - fsr_done st) (drop (fh_pos (fsr_f st)) content)"
    using assms(2) False by (auto simp: reader_holds_def)
  obtain l w1 where l: "try_pool w = (l, w1)" by fastforce
  obtain b0 pool where b0: "pooled_get l (fw_pool w1) = (b0, pool)" by fastforce
  have w1: "fw_disk w1 = fw_disk w" "fw_pool w1 = fw_pool w" using l by (auto simp: try_pool_def split: list.splits)
  then have pool: "bm_bytes b0 = []" "pooled_wf pool"
    using pooled_get_empty [of "fw_pool w1" l] b0 assms(1) by (simp_all add: reads_file_def)
  let ?w2 = "w1\<lparr>fw_pool := pool\<rparr>"
  obtain x w3 where x: "on_disk (sys_read ?sz (fsr_f st)) ?w2 = (x, w3)" by fastforce
  from x show ?thesis
  proof (cases rule: on_disk_cases)
    case (1 a)
    obtain data f where a: "a = (data, f)" by fastforce
    from sys_read_cases [OF h(1) 1(2)] a w1 assms(1) obtain es k where
      d: "fw_disk w3 = (fw_disk w)\<lparr>fs_events := es\<rparr>" "k \<le> ?sz" "min 1 ?sz \<le> k"
        "data = take k (drop (fh_pos (fsr_f st)) content)" "f = fsr_f st\<lparr>fh_pos := fh_pos (fsr_f st) + length data\<rparr>"
      by (auto simp: reads_file_def)
    obtain l' w4 where l': "try_pool w3 = (l', w4)" by fastforce
    then have w4: "fw_disk w4 = fw_disk w3" "fw_pool w4 = fw_pool w3" by (auto simp: try_pool_def split: list.splits)
    have res: "r = Ok (Contiguous data)" "st' = st\<lparr>fsr_f := f, fsr_done := fsr_done st + length data\<rparr>"
      "w' = w4\<lparr>fw_pool := pooled_put l' (b0\<lparr>bm_bytes := []\<rparr>) (fw_pool w4)\<rparr>"
      using assms(3) False l b0 x 1(1) a l' pool(1) by (auto simp: fsr_read_def)
    have "fw_pool w3 = pool" using on_disk_pool [OF x] by simp
    then have "reads_file q i content w'"
      using assms(1) pool(2) w4 d(1) pooled_wf_put by (simp add: res(3) reads_file_def)
    moreover have "bs = data @ take (fsr_size st - (fsr_done st + length data)) (drop (fh_pos (fsr_f st) + length data) content)"
      using take_step [of k "fsr_size st - fsr_done st" "drop (fh_pos (fsr_f st)) content"] d(2,4) h(3)
      by (simp add: add.commute diff_diff_add)
    moreover have "fsr_done st + length data \<le> fsr_size st" using d(2,4) False by (auto simp: min_le_iff_disj)
    moreover have "drop (fh_pos (fsr_f st)) content = []" if "data = []" using that d(3,4) h(2) by (cases k) auto
    ultimately show ?thesis
      using h(1) assms(2) by (auto simp: res(1,2) d(5) reader_holds_def)
  next
    case (2 e err)
    obtain es where "fw_disk w3 = (fw_disk w)\<lparr>fs_events := es\<rparr>" using sys_read_cases [OF h(1) 2(2)] w1 by auto
    then have "reads_file q i content w3" using assms(1) on_disk_pool [OF x] pool(2) by (simp add: reads_file_def)
    with assms(3) False l b0 x 2(1) show ?thesis by (auto simp: fsr_read_def)
  qed
qed

lemma fs_range_service:
  assumes "core_ok core" "file_path path" "length content \<le> u64_max"
  shows "range_service (fs_access ex uuid info core) path args content (reads_file (target_of core path) i content) (reader_holds i content) (\<lambda>rng. True)"
proof unfold_locales
  note spec = fs_read_spec [OF assms(1,2) _ assms(3)]
  let ?ac = "fs_access ex uuid info core" and ?inv = "reads_file (target_of core path) i content"
  fix w w' :: "'a fs_world" and rng
  assume w: "?inv w"
  { fix st assume "ac_read ?ac path (ro_with_range rng args) w = (Ok st, w')"
    with spec [OF w] show "?inv w' \<and> reader_holds i content (br_select rng content) st" by (auto simp: fs_access_def) }
  { fix e assume "ac_read ?ac path (ro_with_range rng args) w = (Err e, w')"
    with spec [OF w] show "?inv w'" by (auto simp: fs_access_def) }
  show "fst (ac_read ?ac path (ro_with_range rng args) w) \<noteq> Panic"
    using spec [OF w] by (cases "fs_read core path (ro_with_range rng args) w") (auto simp: fs_access_def)
next
  let ?ac = "fs_access ex uuid info core" and ?inv = "reads_file (target_of core path) i content"
  fix w w' :: "'a fs_world" and bs st st'
  assume w: "?inv w" "reader_holds i content bs st"
  note spec = fsr_read_spec [OF w]
  { fix b assume "ac_reader_read ?ac st w = (Ok b, st', w')"
    with spec show "?inv w' \<and> buf_wf b \<and> (\<exists>rest. bs = buf_bytes b @ rest \<and> reader_holds i content rest st' \<and> (buf_bytes b = [] \<longrightarrow> rest = []))"
      by (auto simp: fs_access_def) }
  { fix e assume "ac_reader_read ?ac st w = (Err e, st', w')"
    with spec show "?inv w'" by (auto simp: fs_access_def) }
  obtain r st1 w1 where "fsr_read st w = (r, st1, w1)" by (rule prod_cases3)
  with spec show "fst (ac_reader_read ?ac st w) \<noteq> Panic" by (auto simp: fs_access_def)
qed (use assms(3) in auto)

text \<open>
  C10. Files are read exactly. Let a file hold \<open>content\<close>. A client of the retry layer that opens a reader for a range inside the file and reads to the end gets exactly the bytes of
  the range, whatever system calls fail and however few bytes a read gives, or an error that is marked as retried; reading returns after at most one call per byte and one more.
\<close>

theorem fs_retry_read_exact:
  fixes w :: "'x fs_world"
  assumes "core_ok core" "file_path path" "fs_ok (fw_disk w)" "fs_files (fw_disk w) (target_of core path) = Some content"
    and "pooled_wf (fw_pool w)" "length content \<le> u64_max" "backon_ok n bk" "br_inside rng content"
    and "ac_read (retry_layer blk bk (fs_access ex uuid info core)) path (ro_with_range rng args) w = (Ok rd, w1)"
  shows "\<exists>res rd' w'. rd_all (ac_reader_read (retry_layer blk bk (fs_access ex uuid info core))) (Suc (length content)) rd w1 = Some (res, rd', w')
    \<and> (case res of Ok bufs \<Rightarrow> log_bytes bufs = br_select rng content
       | Err e \<Rightarrow> err_status e = Persistent | Panic \<Rightarrow> False)"
proof -
  obtain i where "reads_file (target_of core path) i content w"
    using assms(3-5) by (auto simp: reads_file_def fs_files_def split: option.splits fs_node.splits)
  from retry_reader_spec [OF fs_range_service [OF assms(1,2,6)] assms(7) this assms(8) TrueI assms(9)] show ?thesis .
qed

theorem fs_retry_read_exact_witness:
  "\<exists>rd w1 res rd' w'. ac_read (retry_layer False (backon_n 3) (fs_access demo_executor demo_uuid demo_info (demo_core False))) ''f''
        (ro_with_range (BytesRange 0 None) op_read_default) (demo_world [Fault ebusy, Fine, Fault ebusy, Fine, Short 0]) = (Ok rd, w1)
    \<and> rd_all (ac_reader_read (retry_layer False (backon_n 3) (fs_access demo_executor demo_uuid demo_info (demo_core False)))) 2 rd w1
        = Some (res, rd', w')
    \<and> (case res of Ok bufs \<Rightarrow> log_bytes bufs = [9] | Err e \<Rightarrow> err_status e = Persistent | Panic \<Rightarrow> False)"
proof -
  let ?ac = "retry_layer False (backon_n 3) (fs_access demo_executor demo_uuid demo_info (demo_core False))"
  let ?w = "demo_world [Fault ebusy, Fine, Fault ebusy, Fine, Short 0]" and ?rng = "BytesRange 0 None :: bytes_range"
  have "case ac_read ?ac ''f'' (ro_with_range ?rng op_read_default) ?w of (Ok rd, w1) \<Rightarrow> True | _ \<Rightarrow> False" by code_simp
  then obtain rd w1 where opn: "ac_read ?ac ''f'' (ro_with_range ?rng op_read_default) ?w = (Ok rd, w1)"
    by (auto split: prod.splits outcome.splits)
  have f: "fs_files (fw_disk ?w) (target_of (demo_core False) ''f'') = Some [9]"
    unfolding demo_ok(5) by (simp add: fs_files_def demo_world_def demo_nodes)
  have a: "pooled_wf (fw_pool ?w)" "length [9 :: 8 word] \<le> u64_max" "br_inside ?rng [9]" "br_select ?rng [9 :: 8 word] = [9]"
    by (simp_all add: demo_world_def pooled_wf_def pooled_new_def u64_max_def br_inside_def br_select_def)
  from fs_retry_read_exact [OF demo_ok(1-3) f a(1,2) backon_ok_n a(3) opn] opn show ?thesis
    unfolding a(4) by (simp add: numeral_2_eq_2 del: rd_all.simps)
qed

subsection \<open>Changing the map of files\<close>

text \<open>The path of a file or directory below the root.\<close>

definition entry_path :: "string \<Rightarrow> bool" where
  "entry_path path = (normalized_path path \<and> path \<noteq> slash \<and> list_all seg_ok (path_split path))"

lemma trim_end_slash_path_of: "xs \<noteq> [] \<Longrightarrow> segments xs \<Longrightarrow> trim_end_slash (path_of xs dir) = path_of xs False"
proof -
  assume x: "xs \<noteq> []" "segments xs"
  have f: "trim_end_slash (path_of xs False) = path_of xs False"
    by (rule trim_end_slash_file) (use path_of_ends [of xs False] x in simp)
  show ?thesis
    using f x by (cases dir) (simp_all add: path_of_def trim_end_slash_def slash_def)
qed

lemma entry_target:
  assumes "root_ok (fc_root core)" "entry_path path"
  shows "path_join (fc_root core) (trim_end_slash path) = PathBuf True (target_of core path)"
    "list_all seg_ok (target_of core path)" "target_of core path \<noteq> []"
proof -
  obtain xs x dir where x: "segments (xs @ [x])" "path = path_of (xs @ [x]) dir"
    using normalized_path_snocE assms(2) unfolding entry_path_def by metis
  have t: "trim_end_slash path = path_of (xs @ [x]) False" using trim_end_slash_path_of [OF _ x(1)] x(2) by simp
  have s: "path_split path = xs @ [x]" "path_split (trim_end_slash path) = xs @ [x]"
    unfolding t using path_split_path_of [OF _ x(1)] x(2) by simp_all
  have "\<not> starts_char (trim_end_slash path) CHR ''/''" unfolding t using path_of_starts [OF _ x(1), of False] by simp
  with path_join_plain [OF assms(1)] s show "path_join (fc_root core) (trim_end_slash path) = PathBuf True (target_of core path)"
    by (simp add: target_of_def)
  show "list_all seg_ok (target_of core path)" "target_of core path \<noteq> []"
    using assms s(1) by (simp_all add: target_of_def root_ok_def entry_path_def)
qed

lemma fs_path_entry: "core_ok core \<Longrightarrow> entry_path path \<Longrightarrow> fs_path core path = PathBuf True (target_of core path)"
  using entry_target(1) [of core path] by (simp add: fs_path_def core_ok_def)

lemma sys_remove_spec:
  assumes ok: "fs_ok fs" and q: "list_all seg_ok q" "q \<noteq> []"
    and call: "sys_remove_file (PathBuf True q) fs = (r, fs') \<or> sys_remove_dir (PathBuf True q) fs = (r, fs')"
  shows "fs_ok fs' \<and> (case r of Inl e \<Rightarrow> fs_files fs' = fs_files fs
    | Inr u \<Rightarrow> node_at fs' = (node_at fs)(q := None) \<and> fs_files fs' = (fs_files fs)(q := None))"
  using call
proof
  assume "sys_remove_file (PathBuf True q) fs = (r, fs')"
  then show ?thesis unfolding sys_remove_file_def
  proof (cases rule: sys_at_cases)
    case (2 es p)
    have p: "p = q" by (rule locate_plain [OF 2(1) q(1)])
    show ?thesis
    proof (cases "node_at fs q")
      case (Some n)
      show ?thesis
      proof (cases n)
        case (FileNode i)
        with file_no_children [OF ok, of q i "[_]"] Some have "\<And>x. node_at fs (q @ [x]) = None" by simp
        note rm = fs_remove [OF ok q(2) this, of fs']
        with 2(2) p Some FileNode show ?thesis by auto
      qed (use 2 p Some ok in auto)
    qed (use 2 p ok in auto)
  qed (use ok in auto)
next
  assume "sys_remove_dir (PathBuf True q) fs = (r, fs')"
  then show ?thesis unfolding sys_remove_dir_def
  proof (cases rule: sys_at_cases)
    case (2 es p)
    have p: "p = q" by (rule locate_plain [OF 2(1) q(1)])
    show ?thesis
    proof (cases "node_at fs q = Some DirNode \<and> dir_children fs q = []")
      case True
      have "node_at fs (q @ [x]) = None" for x using dir_children_child [OF ok] True by blast
      note rm = fs_remove [OF ok q(2) this, of fs']
      with 2(2) p True q(2) show ?thesis by auto
    qed (use 2 p q(2) ok in \<open>auto split: option.splits fs_node.splits if_splits\<close>)
  qed (use ok in auto)
qed

text \<open>A copy transfers a prefix of what is left, and all of it when it succeeds.\<close>

lemma copy_rounds_spec:
  assumes "copy_rounds rest j pos fs = (r, fs')" "fs_ok fs" "node_at fs t = Some (FileNode j)" "length (fs_data fs j) = pos"
  shows "fs_ok fs' \<and> (\<exists>k. (\<forall>u. r = Inr u \<longrightarrow> length rest \<le> k) \<and> fs_files fs' = (fs_files fs)(t \<mapsto> fs_data fs j @ take k rest))"
  using assms
proof (induction "length rest" arbitrary: rest pos fs rule: less_induct)
  case less
  note unf = copy_rounds.simps [of rest j pos fs]
  have same: "(fs_files fs)(t \<mapsto> fs_data fs j) = fs_files fs" using less.prems(3) by (simp add: fs_files_def fun_eq_iff)
  consider "rest = []" | e es where "rest \<noteq> []" "fs_events fs = Fault e # es"
    | "rest \<noteq> []" "\<nexists>e es. fs_events fs = Fault e # es" by blast
  then show ?case
  proof cases
    case 1
    with less.prems(1) [unfolded unf] less.prems(2) same show ?thesis by auto
  next
    case 2
    with less.prems(1) [unfolded unf] less.prems(2) same show ?thesis by (auto intro!: exI [of _ 0])
  next
    case 3
    let ?k = "max 1 (sys_limit fs (length rest))" and ?mid = "fs\<lparr>fs_events := tl (fs_events fs)\<rparr>"
    let ?fs = "?mid\<lparr>fs_data := (fs_data ?mid)(j := overlay (fs_data fs j) pos (take ?k rest))\<rparr>"
    have rec: "copy_rounds (drop ?k rest) j (pos + ?k) ?fs = (r, fs')"
      using less.prems(1) [unfolded unf] 3 by (auto simp: Let_def split: list.splits sys_event.splits)
    have k: "?k \<le> length rest" using 3(1) by (auto simp: sys_limit_def Suc_leI split: list.splits sys_event.splits)
    have data: "overlay (fs_data fs j) pos (take ?k rest) = fs_data fs j @ take ?k rest" using less.prems(4) overlay_end by blast
    have files: "fs_files ?fs = (fs_files fs)(t \<mapsto> fs_data fs j @ take ?k rest)"
    proof -
      have "fs_ok ?mid" "node_at ?mid t = Some (FileNode j)" using less.prems(2,3) by simp_all
      from fs_files_data [OF this, of "fs_data fs j @ take ?k rest"] show ?thesis unfolding data fs_events_simps(2) .
    qed
    have "length (drop ?k rest) < length rest" using 3(1) by simp
    note ih = less.hyps [OF this rec]
    have "fs_ok ?fs" "node_at ?fs t = Some (FileNode j)" "length (fs_data ?fs j) = pos + ?k"
      using less.prems(2-4) k by (simp_all add: data [unfolded One_nat_def])
    from ih [OF this] obtain k' where
      k': "fs_ok fs'" "\<And>u. r = Inr u \<Longrightarrow> length (drop ?k rest) \<le> k'"
        "fs_files fs' = (fs_files ?fs)(t \<mapsto> fs_data ?fs j @ take k' (drop ?k rest))" by blast
    then have "fs_files fs' = (fs_files fs)(t \<mapsto> fs_data fs j @ take (?k + k') rest)"
      unfolding files by (simp add: data [unfolded One_nat_def] take_add)
    moreover have "length rest \<le> ?k + k'" if "r = Inr u" for u using k'(2) [OF that] by simp
    ultimately show ?thesis using k'(1) by blast
  qed
qed

lemma sys_copy_spec:
  assumes ok: "fs_ok fs" and seg: "list_all seg_ok f" "list_all seg_ok t" and call: "sys_copy (PathBuf True f) (PathBuf True t) fs = (r, fs')"
  shows "fs_ok fs' \<and> (\<forall>k. k \<noteq> t \<longrightarrow> fs_files fs' k = fs_files fs k)
    \<and> (\<forall>u. r = Inr u \<longrightarrow> fs_files fs f \<noteq> None \<and> fs_files fs' t = (if f = t then Some [] else fs_files fs f))"
proof -
  obtain x fs1 where x: "sys_open_read (PathBuf True f) fs = (x, fs1)" by fastforce
  from sys_open_read_cases [OF seg(1) x] obtain es where fs1: "fs1 = fs\<lparr>fs_events := es\<rparr>" by blast
  have h: "node_at fs f = Some (fh_node h)" if "x = Inr h" for h using sys_open_read_cases [OF seg(1) x] that by auto
  show ?thesis
  proof (cases "\<exists>h i. x = Inr h \<and> fh_node h = FileNode i")
    case True
    then obtain h0 i where i: "x = Inr h0" "fh_node h0 = FileNode i" by blast
    with h have f: "node_at fs f = Some (FileNode i)" by simp
    obtain y fs2 where y: "sys_open_write False (PathBuf True t) fs1 = (y, fs2)" by fastforce
    have "fs_ok fs1" using ok fs1 by simp
    note w = sys_open_write_spec [OF this y]
    show ?thesis
    proof (cases y)
      case (Inl e)
      with call x i y w fs1 show ?thesis by (auto simp: sys_copy_def)
    next
      case (Inr h')
      with w obtain q where q: "locate fs1 (PathBuf True t) = Inr q" "open_at fs2 q h'" "fs_files fs2 = (fs_files fs1)(q \<mapsto> [])" by auto
      have t: "q = t" by (rule locate_plain [OF q(1) seg(2)])
      from q(2) t obtain j where j: "fs_ok fs2" "fh_node h' = FileNode j" "node_at fs2 t = Some (FileNode j)" by (auto simp: open_at_def)
      have i2: "node_at fs2 f = Some (FileNode i)" using w f fs1 by (auto simp: map_le_def dom_def)
      have files: "fs_files fs2 = (fs_files fs)(t \<mapsto> [])" using q(3) t fs1 by simp
      have data: "fs_data fs2 j = []" "Some (fs_data fs2 i) = (if f = t then Some [] else fs_files fs f)"
        using fun_cong [OF files, of t] fun_cong [OF files, of f] j(3) i2 by (auto simp: fs_files_def)
      have "copy_rounds (fs_data fs2 i) j 0 fs2 = (r, fs')" using call x i y Inr j(2) by (simp add: sys_copy_def)
      from copy_rounds_spec [OF this j(1,3)] data(1) obtain k where
        k: "fs_ok fs'" "\<And>u. r = Inr u \<Longrightarrow> length (fs_data fs2 i) \<le> k" "fs_files fs' = (fs_files fs2)(t \<mapsto> take k (fs_data fs2 i))" by auto
      moreover have "fs_files fs f \<noteq> None" using f by (simp add: fs_files_def)
      ultimately show ?thesis using data(2) files by (auto simp: fun_eq_iff)
    qed
  next
    case False
    then have "\<exists>e. (r, fs') = (Inl e, fs1)"
      using call x by (cases x) (auto simp: sys_copy_def split: fs_node.splits)
    with ok fs1 show ?thesis by auto
  qed
qed

text \<open>What can be done with files, on an accessor, and on the map of files.\<close>

datatype file_call = DoCreateDir string | DoDelete string | DoCopy string string | DoRename string string

fun file_call_on :: "('r, 'wr, 'l, 'd, 'w) access \<Rightarrow> file_call \<Rightarrow> 'w \<Rightarrow> unit res \<times> 'w" where
  "file_call_on ac (DoCreateDir path) w = ac_create_dir ac path w"
| "file_call_on ac (DoDelete path) w =
     step (ac_delete ac w) (\<lambda>d w.
       case ac_deleter_delete ac path od_default d w of
         (r, d, w) \<Rightarrow> step (r, w) (\<lambda>u w. case ac_deleter_flush ac d w of (r, d, w) \<Rightarrow> step (r, w) (\<lambda>n w. (Ok (), w))))"
| "file_call_on ac (DoCopy a b) w = ac_copy ac a b w"
| "file_call_on ac (DoRename a b) w = ac_rename ac a b w"

fun call_paths :: "file_call \<Rightarrow> string list" where
  "call_paths (DoCreateDir path) = [path]" | "call_paths (DoDelete path) = [path]"
| "call_paths (DoCopy a b) = [a, b]" | "call_paths (DoRename a b) = [a, b]"

definition map_move :: "string list \<Rightarrow> string list \<Rightarrow> (string list \<rightharpoonup> bytes) \<Rightarrow> (string list \<rightharpoonup> bytes)" where
  "map_move f t m = (if f = t then m
     else (\<lambda>k. if prefix t k then m (f @ drop (length t) k) else if prefix f k then None else m k))"

fun file_call_spec :: "fs_core \<Rightarrow> file_call \<Rightarrow> (string list \<rightharpoonup> bytes) \<Rightarrow> (string list \<rightharpoonup> bytes)" where
  "file_call_spec core (DoCreateDir path) m = m"
| "file_call_spec core (DoDelete path) m = m(target_of core path := None)"
| "file_call_spec core (DoCopy a b) m =
     m(target_of core b := if target_of core a = target_of core b then Some [] else m (target_of core a))"
| "file_call_spec core (DoRename a b) m = map_move (target_of core a) (target_of core b) m"

text \<open>A call that fails changes nothing, except that a copy may have begun to write its target.\<close>

fun call_scratch :: "fs_core \<Rightarrow> file_call \<Rightarrow> string list set" where
  "call_scratch core (DoCopy a b) = {target_of core b}" | "call_scratch core c = {}"

text \<open>The file system reports a missing name only when the name is missing.\<close>

definition honest_faults :: "file_system \<Rightarrow> bool" where
  "honest_faults fs = list_all (\<lambda>ev. \<forall>e. ev = Fault e \<longrightarrow> ioe_kind e \<noteq> IoNotFound) (fs_events fs)"

lemma sys_metadata_honest:
  assumes "fs_ok fs" "list_all seg_ok q" "honest_faults fs" "sys_metadata (PathBuf True q) fs = (Inl e, fs')" "ioe_kind e = IoNotFound"
  shows "node_at fs q = None"
proof (rule ccontr)
  assume n: "node_at fs q \<noteq> None"
  note loc = locate_plain_node [OF assms(2,1) n]
  show False
  proof (cases "fs_events fs")
    case Nil
    with assms(4) loc n show ?thesis by (auto simp: sys_metadata_def sys_at_def sys_call_def split: fs_node.splits)
  next
    case (Cons ev es)
    with assms(3-5) loc n show ?thesis
      by (cases ev) (auto simp: honest_faults_def sys_metadata_def sys_at_def sys_call_def split: fs_node.splits)
  qed
qed

lemma on_disk_not_Panic: "fst (on_disk f w) \<noteq> Panic"
proof -
  obtain r w' where c: "on_disk f w = (r, w')" by fastforce
  then have "r \<noteq> Panic" by (cases rule: on_disk_cases) auto
  with c show ?thesis by simp
qed

lemma fs_delete_spec:
  assumes ok: "core_ok core" "entry_path path" "fs_ok (fw_disk w)" "honest_faults (fw_disk w)"
    and call: "fs_delete_once core path args w = (r, w')"
  shows "fs_ok (fw_disk w') \<and> r \<noteq> Panic \<and> fs_files (fw_disk w') =
    (if r = Ok () then (fs_files (fw_disk w))(target_of core path := None) else fs_files (fw_disk w))"
proof -
  let ?q = "target_of core path"
  have root: "root_ok (fc_root core)" using ok(1) by (simp add: core_ok_def)
  note q = entry_target(2,3) [OF root ok(2)] and p = fs_path_entry [OF ok(1,2)]
  obtain x d where x: "sys_metadata (PathBuf True ?q) (fw_disk w) = (x, d)" by fastforce
  then obtain es where d: "d = (fw_disk w)\<lparr>fs_events := es\<rparr>" using sys_metadata_files by blast
  show ?thesis
  proof (cases x)
    case (Inl e)
    obtain err where err: "std_io_err e = (Err err :: unit res)" using std_io_err_Err by blast
    have "(fs_files (fw_disk w))(?q := None) = fs_files (fw_disk w)" if "ioe_kind e = IoNotFound"
      using sys_metadata_honest [OF ok(3) q(1) ok(4) x [unfolded Inl] that] by (auto simp: fs_files_def fun_eq_iff)
    with call x Inl d ok(3) err show ?thesis by (auto simp: fs_delete_once_def p Let_def split: if_splits)
  next
    case (Inr m)
    let ?f = "if fm_is_dir m then sys_remove_dir (PathBuf True ?q) else sys_remove_file (PathBuf True ?q)" and ?w1 = "w\<lparr>fw_disk := d\<rparr>"
    have c: "on_disk ?f ?w1 = (r, w')" using call x Inr by (auto simp: fs_delete_once_def p Let_def split: if_splits)
    have okd: "fs_ok d" using ok(3) d by simp
    from c show ?thesis
    proof (cases rule: on_disk_cases)
      case (1 u)
      have "sys_remove_file (PathBuf True ?q) d = (Inr u, fw_disk w') \<or> sys_remove_dir (PathBuf True ?q) d = (Inr u, fw_disk w')"
        using 1(2) by (auto split: if_splits)
      from sys_remove_spec [OF okd q this] 1(1) d show ?thesis by simp
    next
      case (2 e err)
      have "sys_remove_file (PathBuf True ?q) d = (Inl e, fw_disk w') \<or> sys_remove_dir (PathBuf True ?q) d = (Inl e, fw_disk w')"
        using 2(2) by (auto split: if_splits)
      from sys_remove_spec [OF okd q this] 2(1) d show ?thesis by simp
    qed
  qed
qed

lemma ensure_not_Panic: "fst (ensure_write_abs_path parent path w) \<noteq> Panic"
proof (cases "path_parent (path_join parent path)")
  case (Some q)
  obtain x w1 where x: "on_disk (sys_create_dir_all q) w = (x, w1)" by fastforce
  with on_disk_not_Panic [of "sys_create_dir_all q" w] Some show ?thesis by (cases x) (auto simp: ensure_write_abs_path_def Let_def)
qed (simp add: ensure_write_abs_path_def Let_def)

lemma on_disk_grows:
  assumes "on_disk f w = (r, w')" "\<And>x d. f (fw_disk w) = (x, d) \<Longrightarrow> fs_grows (fw_disk w) d"
  shows "fs_grows (fw_disk w) (fw_disk w')"
  using assms(1) by (cases rule: on_disk_cases) (use assms(2) in blast)+

lemma sys_metadata_grows: "fs_ok fs \<Longrightarrow> sys_metadata p fs = (x, d) \<Longrightarrow> fs_grows fs d"
  using sys_metadata_files [of p fs x d] by auto

text \<open>A copy or a rename ends before its last call, with new directories at most, or with this call.\<close>

lemma fs_from_to_cases:
  assumes ok: "core_ok core" "entry_path a" "entry_path b" "fs_ok (fw_disk w)" and run: "fs_from_to call core a b w = (r, w')"
  obtains e where "r = Err e" "fs_grows (fw_disk w) (fw_disk w')"
  | w1 where "fs_grows (fw_disk w) (fw_disk w1)" "on_disk (call (PathBuf True (target_of core a)) (PathBuf True (target_of core b))) w1 = (r, w')"
proof -
  have root: "root_ok (fc_root core)" using ok(1) by (simp add: core_ok_def)
  obtain m w1 where m: "on_disk (sys_metadata (fs_path core a)) w = (m, w1)" by fastforce
  have g1: "fs_grows (fw_disk w) (fw_disk w1)" by (rule on_disk_grows [OF m]) (rule sys_metadata_grows [OF ok(4)])
  obtain q w2 where q: "ensure_write_abs_path (fc_root core) (trim_end_slash b) w1 = (q, w2)" by fastforce
  note en = ensure_write_Ok [OF fs_grows_ok [OF g1] q]
  have g2: "fs_grows (fw_disk w) (fw_disk w2)" using fs_grows_trans [OF g1] en by blast
  show ?thesis
  proof (cases "(\<exists>x. m = Ok x) \<and> (\<exists>y. q = Ok y)")
    case True
    then have "q = Ok (PathBuf True (target_of core b))" using en entry_target(1) [OF root ok(3)] by auto
    with True run m q fs_path_entry [OF ok(1,2)] that(2) [OF g2] show ?thesis by (auto simp: fs_from_to_def Let_def)
  next
    case False
    have "m \<noteq> Panic" using on_disk_not_Panic [of "sys_metadata (fs_path core a)" w] m by simp
    moreover have "q \<noteq> Panic" using ensure_not_Panic q by (metis fst_conv)
    ultimately show ?thesis using False run m q g1 g2 that(1) by (cases m; cases q) (auto simp: fs_from_to_def Let_def)
  qed
qed

lemma sys_mkdir_dir:
  assumes "fs_ok fs" "list_all seg_ok q" "sys_mkdir (PathBuf True q) fs = (Inr u, fs')"
  shows "node_at fs' q = Some DirNode"
  using assms(3) unfolding sys_mkdir_def
proof (cases rule: sys_at_cases)
  case (2 es p)
  with locate_plain [OF 2(1) assms(2)] show ?thesis by (auto simp: node_at_def split: if_splits)
qed simp

lemma sys_is_dir_dir:
  assumes "list_all seg_ok q" "sys_is_dir (PathBuf True q) fs = (True, fs')"
  shows "node_at fs' q = Some DirNode"
proof -
  obtain m where "sys_metadata (PathBuf True q) fs = (Inr m, fs')" "fm_is_dir m"
    using assms(2) by (auto simp: sys_is_dir_def split: prod.splits sum.splits)
  then show ?thesis unfolding sys_metadata_def
  proof (cases rule: sys_at_cases)
    case (2 es p)
    with locate_plain [OF 2(1) assms(1)] \<open>fm_is_dir m\<close> show ?thesis by (auto simp: fm_is_dir_def split: option.splits fs_node.splits)
  qed simp
qed

lemma sys_create_dir_all_dir:
  assumes ok: "fs_ok fs" and q: "list_all seg_ok q" and call: "sys_create_dir_all (PathBuf True q) fs = (Inr u, fs')"
  shows "node_at fs' q = Some DirNode"
proof -
  let ?p = "PathBuf True q"
  note unf = sys_create_dir_all.simps [of ?p fs]
  obtain m fs1 where m: "sys_mkdir ?p fs = (m, fs1)" by fastforce
  have ok1: "fs_ok fs1" using sys_mkdir_spec [OF ok m] fs_grows_ok by blast
  consider "m = Inr ()" "fs' = fs1" | fs2 where "sys_is_dir ?p fs2 = (True, fs')"
    | p fs2 where "sys_create_dir_all p fs1 = (Inr (), fs2)" "sys_mkdir ?p fs2 = (Inr (), fs')"
    using call m by (auto simp: unf path_is_empty_def split: sum.splits if_splits option.splits prod.splits)
  then show ?thesis
  proof cases
    case 1
    with sys_mkdir_dir [OF ok q] m show ?thesis by simp
  next
    case (2 fs2)
    with sys_is_dir_dir [OF q] show ?thesis by simp
  next
    case (3 p fs2)
    with sys_mkdir_dir [OF _ q] sys_create_dir_all_spec [OF ok1] fs_grows_ok show ?thesis by blast
  qed
qed

lemma fs_copy_spec:
  assumes ok: "core_ok core" "entry_path a" "entry_path b" "fs_ok (fw_disk w)" and run: "fs_copy core a b w = (r, w')"
  shows "fs_ok (fw_disk w') \<and> r \<noteq> Panic \<and> (if r = Ok () then fs_files (fw_disk w') = file_call_spec core (DoCopy a b) (fs_files (fw_disk w))
    else \<forall>k. k \<noteq> target_of core b \<longrightarrow> fs_files (fw_disk w') k = fs_files (fw_disk w) k)"
proof -
  have root: "root_ok (fc_root core)" using ok(1) by (simp add: core_ok_def)
  note seg = entry_target(2) [OF root ok(2)] entry_target(2) [OF root ok(3)]
  show ?thesis
  proof (rule fs_from_to_cases [OF ok run [unfolded fs_copy_def]])
    fix e assume "r = Err e" "fs_grows (fw_disk w) (fw_disk w')"
    then show ?thesis by (simp add: fs_grows_def)
  next
    fix w1 assume 2: "fs_grows (fw_disk w) (fw_disk w1)"
      "on_disk (sys_copy (PathBuf True (target_of core a)) (PathBuf True (target_of core b))) w1 = (r, w')"
    have g: "fs_ok (fw_disk w1)" "fs_files (fw_disk w1) = fs_files (fw_disk w)" using 2(1) by (auto simp: fs_grows_def)
    note spec = sys_copy_spec [OF g(1) seg, unfolded g(2)]
    from 2(2) show ?thesis
    proof (cases rule: on_disk_cases)
      case 1
      from spec [OF 1(2)] 1(1) show ?thesis by (auto simp: fun_eq_iff)
    next
      case (2 e err)
      from spec [OF 2(2)] 2(1) show ?thesis by auto
    qed
  qed
qed

lemma fs_rename_spec:
  assumes ok: "core_ok core" "entry_path a" "entry_path b" "fs_ok (fw_disk w)" and run: "fs_rename core a b w = (r, w')"
  shows "fs_ok (fw_disk w') \<and> r \<noteq> Panic \<and> fs_files (fw_disk w') =
    (if r = Ok () then file_call_spec core (DoRename a b) (fs_files (fw_disk w)) else fs_files (fw_disk w))"
proof -
  have root: "root_ok (fc_root core)" using ok(1) by (simp add: core_ok_def)
  note seg = entry_target(2) [OF root ok(2)] entry_target(2) [OF root ok(3)]
  show ?thesis
  proof (rule fs_from_to_cases [OF ok run [unfolded fs_rename_def]])
    fix e assume "r = Err e" "fs_grows (fw_disk w) (fw_disk w')"
    then show ?thesis by (simp add: fs_grows_def)
  next
    fix w1 assume 2: "fs_grows (fw_disk w) (fw_disk w1)"
      "on_disk (sys_rename (PathBuf True (target_of core a)) (PathBuf True (target_of core b))) w1 = (r, w')"
    have g: "fs_ok (fw_disk w1)" "fs_files (fw_disk w1) = fs_files (fw_disk w)" using 2(1) by (auto simp: fs_grows_def)
    note spec = sys_rename_spec [OF g(1)]
    from 2(2) show ?thesis
    proof (cases rule: on_disk_cases)
      case 1
      from spec [OF 1(2), unfolded sum.case g(2)] obtain f t where ft: "fs_ok (fw_disk w')"
        "locate (fw_disk w1) (PathBuf True (target_of core a)) = Inr f" "locate (fw_disk w1) (PathBuf True (target_of core b)) = Inr t"
        and mv: "if f = t then fs_files (fw_disk w') = fs_files (fw_disk w)
          else (\<forall>d. d \<noteq> [] \<longrightarrow> node_at (fw_disk w1) (t @ d) = None) \<and> (\<forall>k. fs_files (fw_disk w') k =
            (if prefix t k then fs_files (fw_disk w) (f @ drop (length t) k) else if prefix f k then None else fs_files (fw_disk w) k))"
        by (elim exE conjE) (rule that)
      have "fs_files (fw_disk w') = map_move f t (fs_files (fw_disk w))"
        using mv by (cases "f = t") (simp_all add: map_move_def fun_eq_iff)
      with ft(1) locate_plain [OF ft(2) seg(1)] locate_plain [OF ft(3) seg(2)] 1(1) show ?thesis by simp
    next
      case (2 e err)
      obtain es where "fw_disk w' = (fw_disk w1)\<lparr>fs_events := es\<rparr>" using spec [OF 2(2)] by auto
      with g 2(1) show ?thesis by simp
    qed
  qed
qed

lemma fs_create_dir_spec:
  assumes ok: "core_ok core" "entry_path path" "fs_ok (fw_disk w)" and run: "fs_create_dir core path w = (r, w')"
  shows "fs_ok (fw_disk w') \<and> r \<noteq> Panic \<and> fs_files (fw_disk w') = fs_files (fw_disk w)
    \<and> (r = Ok () \<longrightarrow> node_at (fw_disk w') (target_of core path) = Some DirNode)"
proof -
  have root: "root_ok (fc_root core)" using ok(1) by (simp add: core_ok_def)
  have c: "on_disk (sys_create_dir_all (PathBuf True (target_of core path))) w = (r, w')"
    using run fs_path_entry [OF ok(1,2)] by (simp add: fs_create_dir_def)
  have g: "fs_grows (fw_disk w) (fw_disk w')" by (rule on_disk_grows [OF c]) (rule sys_create_dir_all_spec [OF ok(3)])
  from c show ?thesis
  proof (cases rule: on_disk_cases)
    case 1
    from sys_create_dir_all_dir [OF ok(3) entry_target(2) [OF root ok(2)] 1(2)] g 1(1) show ?thesis by (simp add: fs_grows_def)
  next
    case (2 e err)
    from g 2(1) show ?thesis by (simp add: fs_grows_def)
  qed
qed

text \<open>
  C6. The service refines a map of files. For paths below the root, creating a directory, deleting, copying and renaming have on the disk the effect that they promise on the
  map from names to contents: an operation that succeeds does exactly this, and one that fails changes nothing, except that a copy may have begun to write its
  target. No operation panics, and all keep the disk sound, whatever system calls fail. Deletion relies on the file system to report a missing name only when it is missing.
\<close>

theorem fs_refines_map:
  fixes w :: "'x fs_world"
  assumes "core_ok core" "list_all entry_path (call_paths c)" "fs_ok (fw_disk w)" "honest_faults (fw_disk w)"
    and "file_call_on (fs_access ex uuid info core) c w = (r, w')"
  shows "fs_ok (fw_disk w') \<and> r \<noteq> Panic
    \<and> (if r = Ok () then fs_files (fw_disk w') = file_call_spec core c (fs_files (fw_disk w))
       else \<forall>k. k \<notin> call_scratch core c \<longrightarrow> fs_files (fw_disk w') k = fs_files (fw_disk w) k)
    \<and> (\<forall>path. c = DoCreateDir path \<and> r = Ok () \<longrightarrow> node_at (fw_disk w') (target_of core path) = Some DirNode)"
proof (cases c)
  case (DoCreateDir path)
  then have "entry_path path" "fs_create_dir core path w = (r, w')" using assms(2,5) by (simp_all add: fs_access_def)
  from fs_create_dir_spec [OF assms(1) this(1) assms(3) this(2)] DoCreateDir show ?thesis by simp
next
  case (DoDelete path)
  obtain x w1 where x: "fs_delete_once core path od_default w = (x, w1)" by fastforce
  then have "w1 = w'" "r = x"
    using assms(5) DoDelete by (cases x; simp add: fs_access_def osd_delete_def osd_flush_def)+
  with fs_delete_spec [OF assms(1) _ assms(3,4), of path od_default] x assms(2) DoDelete show ?thesis by simp
next
  case (DoCopy a b)
  then have "entry_path a" "entry_path b" "fs_copy core a b w = (r, w')" using assms(2,5) by (simp_all add: fs_access_def)
  from fs_copy_spec [OF assms(1) this(1,2) assms(3) this(3)] DoCopy show ?thesis by simp
next
  case (DoRename a b)
  then have "entry_path a" "entry_path b" "fs_rename core a b w = (r, w')" using assms(2,5) by (simp_all add: fs_access_def)
  from fs_rename_spec [OF assms(1) this(1,2) assms(3) this(3)] DoRename show ?thesis by simp
qed

theorem fs_refines_map_witness:
  "\<exists>w'. file_call_on (fs_access demo_executor demo_uuid demo_info (demo_core False)) (DoRename ''f'' ''d/g'') (demo_world []) = (Ok (), w')
    \<and> fs_files (fw_disk w') [''r'', ''d'', ''g''] = Some [9] \<and> fs_files (fw_disk w') [''r'', ''f''] = None"
proof -
  let ?ac = "fs_access demo_executor demo_uuid demo_info (demo_core False)"
  have "fst (file_call_on ?ac (DoRename ''f'' ''d/g'') (demo_world [])) = Ok ()" by code_simp
  then obtain w' where r: "file_call_on ?ac (DoRename ''f'' ''d/g'') (demo_world []) = (Ok (), w')" by (metis prod.collapse)
  have "path_split ''f'' = [''f'']" "path_split ''d/g'' = [''d'', ''g'']" "path_of [''d'', ''g''] False = ''d/g''" by code_simp+
  then have p: "list_all entry_path (call_paths (DoRename ''f'' ''d/g''))"
    using normalized_path_path_of [of "[''f'']" False] normalized_path_path_of [of "[''d'', ''g'']" False]
    by (simp add: entry_path_def seg_ok_def slash_def)
  have t: "target_of (demo_core False) ''d/g'' = [''r'', ''d'', ''g'']" by code_simp
  have h: "honest_faults (fw_disk (demo_world []))" by (simp add: honest_faults_def demo_world_def)
  have m: "fs_files (fw_disk (demo_world [])) [''r'', ''f''] = Some [9]" by (simp add: fs_files_def demo_world_def demo_nodes)
  from fs_refines_map [OF demo_ok(1) p demo_ok(3) h r] r m show ?thesis
    unfolding demo_ok(5) t file_call_spec.simps by (auto simp: map_move_def prefix_def)
qed

end
