(* ===== verification/FsLists.thy ===== *)
theory FsLists
  imports FsReads Operators
begin

text \<open>
  Listing a directory of the file system service through the layers of an operator: the client gets the directory and one entry for each of its children, or an error. Behind the retry layer this
  fails, since the iterator of \<^verbatim>\<open>std\<close> ends after an error and the retried call reports the end.
\<close>

subsection \<open>The entries of a directory\<close>

text \<open>The directory at \<open>xs\<close> below the root, and its entry for a child.\<close>

definition dir_path :: "string list \<Rightarrow> string" where
  "dir_path xs = (if xs = [] then slash else path_of xs True)"

definition child_entry :: "string list \<Rightarrow> string \<times> fs_node \<Rightarrow> oio_entry" where
  "child_entry xs = (\<lambda>(name, node).
     \<lparr>oe_path = path_of (xs @ [name]) (node = DirNode), oe_meta = metadata_new (if node = DirNode then DIR else FILE)\<rparr>)"

definition dir_entry :: "string list \<Rightarrow> oio_entry" where
  "dir_entry xs = \<lparr>oe_path = dir_path xs, oe_meta = metadata_new DIR\<rparr>"

text \<open>A name that the lister shows as it is: an ordinary one without backslashes, and without white space at the ends of the path.\<close>

definition shown_plain :: "string list \<Rightarrow> string \<Rightarrow> bool" where
  "shown_plain xs name =
     (let p = path_of (xs @ [name]) False in seg_ok name \<and> CHR 0x5C \<notin> set p \<and> trim p = p)"

lemma normalize_path_of:
  assumes "xs \<noteq> []" "segments xs" "trim (path_of xs dir) = path_of xs dir"
  shows "normalize_path (path_of xs dir) = path_of xs dir"
proof -
  have "trim_start_char CHR ''/'' (path_of xs dir) = path_of xs dir"
    using path_of_starts [OF assms(1,2), of dir] by (cases "path_of xs dir") (auto simp: starts_char_def)
  then show ?thesis
    using assms path_of_ends [OF assms(1,2), of dir] split_path_of [OF assms(1,2), of dir]
    by (simp add: normalize_path_def Let_def) (simp add: path_of_def)
qed

lemma fl_entry_child:
  assumes "root_ok root" "list_all seg_ok xs" "shown_plain xs name"
  shows "fl_entry root (PathBuf True (path_segs root @ xs)) (name, node) = Ok (child_entry xs (name, node))"
proof -
  let ?p = "path_of (xs @ [name]) False"
  have seg: "list_all seg_ok (xs @ [name])" using assms(2,3) by (simp add: shown_plain_def Let_def)
  then have s: "segments (xs @ [name])" by (auto simp: segments_def seg_ok_def list_all_iff)
  have nd: "dropWhile (\<lambda>x. x = ''.'') (xs @ [name]) = xs @ [name]"
    using seg by (cases xs) (auto simp: seg_ok_def)
  have strip: "path_strip_prefix (PathBuf True (path_segs root @ xs @ [name])) root = Some (PathBuf False (xs @ [name]))"
    using assms(1) nd by (simp add: path_strip_prefix_def root_ok_def)
  have shown: "path_display (PathBuf False (xs @ [name])) = ?p" by (simp add: path_display_def path_of_def slash_def)
  have "backslash_to_slash ?p = ?p"
    using assms(3) by (auto simp: backslash_to_slash_def shown_plain_def Let_def intro!: map_idI)
  moreover have "normalize_path ?p = ?p" by (rule normalize_path_of [OF _ s]) (use assms(3) in \<open>simp_all add: shown_plain_def Let_def\<close>)
  moreover have "?p \<noteq> []" "\<not> ends_with ?p CHR ''/''" using s by (simp_all del: segments_append)
  ultimately show ?thesis using strip shown
    by (cases node) (simp_all add: fl_entry_def child_entry_def entry_with_def metadata_new_def mode_is_dir_def guard_def path_of_def slash_def)
qed

subsection \<open>Listers that may fail for good\<close>

text \<open>Like \<open>oio_list\<close>, but nothing is promised of a lister after an error.\<close>

locale failing_list =
  fixes next_op :: "'l lister"
    and holds :: "oio_entry list \<Rightarrow> 'l \<Rightarrow> bool"
  assumes next_steps: "holds es l \<Longrightarrow> \<exists>r l'. next_op l = Some (r, l')
      \<and> ((r = Ok None \<and> es = []) \<or> (\<exists>e es'. es = e # es' \<and> r = Ok (Some e) \<and> holds es' l') \<or> (\<exists>err. r = Err err))"

sublocale oio_list < failing_list
  by unfold_locales (use next_cases in blast)

lemma ls_collect_steps:
  fixes ac :: "('r, 'wr, 'l, 'd, 'w) access"
  assumes lst: "failing_list (ac_next ac) holds"
  shows "holds es (l, w) \<Longrightarrow> ls_lister st = Some l \<Longrightarrow> \<not> ls_errored st
    \<Longrightarrow> \<exists>r w'. ls_collect (if blk then bls_next ac else ls_next ac) acc st w = Some (r, w') \<and> (r = Ok (acc @ es) \<or> (\<exists>e. r = Err e))"
proof (induction es arbitrary: l w st acc)
  case Nil
  from failing_list.next_steps [OF lst Nil(1)] obtain r l' w' where
    r: "ac_lister_next ac l w = Some (r, l', w')" "r = Ok None \<or> (\<exists>err. r = Err err)" by (auto simp: ac_next_def)
  then show ?case using Nil(2,3) by (subst ls_collect.simps) (auto simp: ls_next_def bls_next_def Let_def)
next
  case (Cons e es)
  from failing_list.next_steps [OF lst Cons.prems(1)] obtain r l' w' where
    r: "ac_lister_next ac l w = Some (r, l', w')" "(r = Ok (Some e) \<and> holds es (l', w')) \<or> (\<exists>err. r = Err err)" by (auto simp: ac_next_def)
  show ?case
  proof (cases "\<exists>err. r = Err err")
    case True
    with r(1) Cons.prems(2,3) show ?thesis by (subst ls_collect.simps) (auto simp: ls_next_def bls_next_def Let_def)
  next
    case False
    with r(2) have ok: "r = Ok (Some e)" "holds es (l', w')" by auto
    let ?nx = "if blk then bls_next ac else ls_next ac"
    have "?nx st w = Some (Some (Ok e), st\<lparr>ls_lister := Some l'\<rparr>, w')"
      using r(1) ok(1) Cons.prems(2,3) by (auto simp: ls_next_def bls_next_def Let_def)
    then have "ls_collect ?nx acc st w = ls_collect ?nx (acc @ [e]) (st\<lparr>ls_lister := Some l'\<rparr>) w'"
      by (subst ls_collect.simps) simp
    with Cons.IH [OF ok(2), of "st\<lparr>ls_lister := Some l'\<rparr>" "acc @ [e]"] Cons.prems(3) show ?thesis by simp
  qed
qed

definition layered_holds :: "(oio_entry list \<Rightarrow> 'l \<times> 'w \<Rightarrow> bool) \<Rightarrow> oio_entry list \<Rightarrow> 'l ec_wrapper complete_lister \<times> 'w \<Rightarrow> bool" where
  "layered_holds holds es = (\<lambda>(cl, w). \<exists>x. cl = LOne x \<and> holds es (ecw_inner x, w) \<and> unat (ecw_processed x) + length es \<le> u64_max)"

lemma layered_failing_list:
  fixes ac :: "('r, 'wr, 'l, 'd, 'w) access"
  assumes lst: "failing_list (ac_next ac) holds"
  shows "failing_list (ac_next (default_layers blk ac)) (layered_holds holds)"
proof
  fix es and s :: "'l ec_wrapper complete_lister \<times> 'w"
  assume "layered_holds holds es s"
  then obtain x w where x: "s = (LOne x, w)" "holds es (ecw_inner x, w)" "unat (ecw_processed x) + length es \<le> u64_max"
    by (auto simp: layered_holds_def)
  from failing_list.next_steps [OF lst x(2)] obtain r l' w' where
    r: "ac_lister_next ac (ecw_inner x) w = Some (r, l', w')"
      "(r = Ok None \<and> es = []) \<or> (\<exists>e es'. es = e # es' \<and> r = Ok (Some e) \<and> holds es' (l', w')) \<or> (\<exists>err. r = Err err)"
    by (auto simp: ac_next_def)
  have nx: "ac_next (default_layers blk ac) s = map_option (\<lambda>(r, y, w'). (r, LOne y, w')) (ec_lister_next blk ac x w)"
    by (simp add: x(1) ac_next_def default_layers_def correctness_check_def complete_layer_def error_context_layer_def Let_def)
  show "\<exists>r s'. ac_next (default_layers blk ac) s = Some (r, s')
      \<and> ((r = Ok None \<and> es = []) \<or> (\<exists>e es'. es = e # es' \<and> r = Ok (Some e) \<and> layered_holds holds es' s') \<or> (\<exists>err. r = Err err))"
    using r(2)
  proof (elim disjE exE conjE)
    assume "r = Ok None" "es = []"
    then show ?thesis using r(1) x(3) by (simp add: nx ec_lister_next_def ec_counted_def u64_add_def Let_def)
  next
    fix e es' assume e: "es = e # es'" "r = Ok (Some e)" "holds es' (l', w')"
    let ?x = "x\<lparr>ecw_inner := l', ecw_processed := ecw_processed x + 1\<rparr>"
    have "unat (ecw_processed ?x) + length es' \<le> u64_max" using x(3) e(1) unat_u64_add [of "ecw_processed x" 1] by simp
    with e r(1) x(3) show ?thesis
      by (simp add: nx ec_lister_next_def ec_counted_def u64_add_def Let_def layered_holds_def)
  next
    fix err assume "r = Err err"
    then show ?thesis using r(1) by (simp add: nx ec_lister_next_def ec_counted_def Let_def)
  qed
qed

subsection \<open>The lister of the file system\<close>

definition fsl_holds :: "path_buf \<Rightarrow> string list \<Rightarrow> oio_entry list \<Rightarrow> fs_lister option \<times> 'x fs_world \<Rightarrow> bool" where
  "fsl_holds root xs es = (\<lambda>(l, w).
     case l of
       None \<Rightarrow> es = []
     | Some st \<Rightarrow>
         root_ok root \<and> list_all seg_ok xs \<and> fl_root st = root \<and> fl_dir st = PathBuf True (path_segs root @ xs)
         \<and> list_all (\<lambda>(name, node). shown_plain xs name) (fl_rd st)
         \<and> es = (case fl_current st of None \<Rightarrow> [] | Some p \<Rightarrow> [dir_entry xs]) @ map (child_entry xs) (fl_rd st)
         \<and> (\<forall>p. fl_current st = Some p \<longrightarrow> p = dir_path xs))"

lemma dir_path_entry:
  assumes "list_all seg_ok xs"
  shows "entry_with (dir_path xs) (metadata_new DIR) = Ok (dir_entry xs)"
proof -
  have "segments xs" using assms by (auto simp: segments_def seg_ok_def list_all_iff)
  then have "dir_path xs \<noteq> []" "ends_with (dir_path xs) CHR ''/''"
    by (auto simp: dir_path_def slash_def ends_with_def path_of_def)
  then show ?thesis by (simp add: entry_with_def dir_entry_def guard_def metadata_new_def mode_is_dir_def)
qed

lemma sys_next_entry_cases:
  assumes "sys_next_entry rd fs = (r, fs')"
  shows "(\<exists>e. r = Inl e) \<or> r = Inr (case rd of [] \<Rightarrow> (None, []) | e # es \<Rightarrow> (Some e, es))"
  using assms unfolding sys_next_entry_def by (cases rule: sys_call_cases) auto

lemma fl_next_steps:
  assumes "fsl_holds root xs es (Some st, w)" "fl_next st w = (r, st', w')"
  shows "(r = Ok None \<and> es = []) \<or> (\<exists>e es'. es = e # es' \<and> r = Ok (Some e) \<and> fsl_holds root xs es' (Some st', w')) \<or> (\<exists>err. r = Err err)"
proof (cases "fl_current st")
  case (Some p)
  with assms show ?thesis by (auto simp: fsl_holds_def fl_next_def dir_path_entry)
next
  case None
  obtain x w1 where x: "on_disk (sys_next_entry (fl_rd st)) w = (x, w1)" by fastforce
  from x show ?thesis
  proof (cases rule: on_disk_cases)
    case (1 a)
    with sys_next_entry_cases [OF 1(2)] have a: "a = (case fl_rd st of [] \<Rightarrow> (None, []) | e # es \<Rightarrow> (Some e, es))" by simp
    show ?thesis
    proof (cases "fl_rd st")
      case Nil
      with assms None x 1(1) a show ?thesis by (auto simp: fsl_holds_def fl_next_def)
    next
      case (Cons de rd)
      obtain name node where de: "de = (name, node)" by fastforce
      from assms(1) Cons de have "fl_entry root (PathBuf True (path_segs root @ xs)) de = Ok (child_entry xs de)"
        by (auto simp: fsl_holds_def fl_entry_child)
      with assms None x 1(1) a Cons show ?thesis by (auto simp: fsl_holds_def fl_next_def)
    qed
  next
    case (2 e err)
    from assms(2) None x 2(1) show ?thesis by (auto simp: fl_next_def)
  qed
qed

interpretation fsl: failing_list "ac_next (fs_access ex uuid info core)" "fsl_holds root xs"
  for ex :: "'x executor" and uuid info core root xs
proof unfold_locales
  fix es and s :: "fs_lister option \<times> 'x fs_world"
  assume h: "fsl_holds root xs es s"
  obtain l w where s: "s = (l, w)" by fastforce
  show "\<exists>r s'. ac_next (fs_access ex uuid info core) s = Some (r, s')
      \<and> ((r = Ok None \<and> es = []) \<or> (\<exists>e es'. es = e # es' \<and> r = Ok (Some e) \<and> fsl_holds root xs es' s') \<or> (\<exists>err. r = Err err))"
  proof (cases l)
    case None
    with h s show ?thesis by (auto simp: ac_next_def fs_access_def fsl_holds_def)
  next
    case (Some st)
    obtain r st' w' where n: "fl_next st w = (r, st', w')" by (rule prod_cases3)
    from fl_next_steps [OF _ n] h s Some have "(r = Ok None \<and> es = []) \<or> (\<exists>e es'. es = e # es' \<and> r = Ok (Some e)
        \<and> fsl_holds root xs es' (Some st', w')) \<or> (\<exists>err. r = Err err)" by blast
    moreover have "ac_next (fs_access ex uuid info core) s = Some (r, Some st', w')"
      using s Some n by (simp add: ac_next_def fs_access_def)
    ultimately show ?thesis by blast
  qed
qed

lemma dir_children_set:
  assumes "fs_ok fs"
  shows "set (dir_children fs d) = {(n, nd). node_at fs (d @ [n]) = Some nd}" "distinct (dir_children fs d)"
proof -
  have mem: "(n, nd) \<in> set (dir_children fs d) \<longleftrightarrow> (d @ [n], nd) \<in> set (fs_tree fs)" for n nd
  proof
    assume "(n, nd) \<in> set (dir_children fs d)"
    then obtain k where k: "(k, nd) \<in> set (fs_tree fs)" "k \<noteq> []" "butlast k = d" "last k = n" by (auto simp: dir_children_def)
    have "k = d @ [n]" using append_butlast_last_id [OF k(2)] k(3,4) by simp
    with k(1) show "(d @ [n], nd) \<in> set (fs_tree fs)" by simp
  next
    assume "(d @ [n], nd) \<in> set (fs_tree fs)"
    then show "(n, nd) \<in> set (dir_children fs d)" unfolding dir_children_def by (force intro!: image_eqI [where x = "(d @ [n], nd)"])
  qed
  show "set (dir_children fs d) = {(n, nd). node_at fs (d @ [n]) = Some nd}"
    using mem node_at_mem [OF assms] by auto
  let ?P = "\<lambda>(k, n). k \<noteq> [] \<and> butlast k = d"
  have keys: "distinct (map fst (filter ?P (fs_tree fs)))"
    using fs_okD(4) [OF assms] by (simp add: distinct_map_filter)
  have "inj_on (\<lambda>(k, n). (last k, n)) (set (filter ?P (fs_tree fs)))"
  proof (rule inj_onI)
    fix a b assume a: "a \<in> set (filter ?P (fs_tree fs))" "b \<in> set (filter ?P (fs_tree fs))" "(\<lambda>(k, n). (last k, n)) a = (\<lambda>(k, n). (last k, n)) b"
    then have "fst a \<noteq> []" "fst b \<noteq> []" "butlast (fst a) = butlast (fst b)" "last (fst a) = last (fst b)" "snd a = snd b"
      by (auto simp: split_beta)
    then show "a = b" by (metis append_butlast_last_id prod_eq_iff)
  qed
  then show "distinct (dir_children fs d)"
    unfolding dir_children_def distinct_map using keys by (simp add: distinct_map)
qed

lemma fs_path_dir:
  assumes "core_ok core" "list_all seg_ok xs"
  shows "fs_path core (dir_path xs) = PathBuf True (path_segs (fc_root core) @ xs)"
proof (cases "xs = []")
  case True
  with assms(1) show ?thesis
    by (auto simp: fs_path_def dir_path_def trim_end_slash_def slash_def path_join_def starts_char_def path_split_def core_ok_def root_ok_def)
next
  case False
  have s: "segments xs" using assms(2) by (auto simp: segments_def seg_ok_def list_all_iff)
  have split: "path_split (path_of xs True) = xs" using path_split_path_of [OF False s] .
  have "entry_path (dir_path xs)"
    using False s assms(2) split normalized_path_path_of [OF s False, of True] by (simp add: entry_path_def dir_path_def)
  from fs_path_entry [OF assms(1) this] False split show ?thesis by (simp add: target_of_def dir_path_def)
qed

lemma sys_read_dir_cases:
  assumes "fs_ok fs" "list_all seg_ok q" "honest_faults fs" "sys_read_dir (PathBuf True q) fs = (r, fs')"
  shows "case r of Inr rd \<Rightarrow> node_at fs q = Some DirNode \<and> rd = dir_children fs q
    | Inl e \<Rightarrow> ioe_kind e = IoNotFound \<longrightarrow> node_at fs q = None"
proof (cases "node_at fs q")
  case None
  from assms(4) show ?thesis unfolding sys_read_dir_def
  proof (cases rule: sys_at_cases)
    case (2 es p)
    with locate_plain [OF 2(1) assms(2)] None show ?thesis by auto
  qed (use None in auto)
next
  case (Some n)
  note loc = locate_plain_node [OF assms(2,1)]
  have f: "ev \<noteq> Fault e" if "fs_events fs = ev # es" "ioe_kind e = IoNotFound" for ev es e
    using assms(3) that by (auto simp: honest_faults_def)
  have nf: "ioe_kind enotdir \<noteq> IoNotFound" by (simp add: enotdir_def)
  show ?thesis
    using assms(4) Some loc f nf
    by (auto simp: sys_read_dir_def sys_at_def sys_call_def split: list.splits sys_event.splits fs_node.splits sum.splits)
qed

lemma child_entry_inj: "list_all seg_ok xs \<Longrightarrow> seg_ok n \<Longrightarrow> seg_ok n' \<Longrightarrow> child_entry xs (n, nd) = child_entry xs (n', nd') \<Longrightarrow> n = n'"
proof -
  assume a: "list_all seg_ok xs" "seg_ok n" "seg_ok n'" "child_entry xs (n, nd) = child_entry xs (n', nd')"
  then have s: "segments (xs @ [n])" "segments (xs @ [n'])" by (auto simp: segments_def seg_ok_def list_all_iff)
  have "path_of (xs @ [n]) (nd = DirNode) = path_of (xs @ [n']) (nd' = DirNode)" using a(4) by (simp add: child_entry_def)
  then have "xs @ [n] = xs @ [n']"
    using path_split_path_of [OF _ s(1), of "nd = DirNode"] path_split_path_of [OF _ s(2), of "nd' = DirNode"] by simp
  then show "n = n'" by simp
qed

lemma dir_entries_distinct:
  assumes "fs_ok fs" "list_all seg_ok xs" "\<forall>(n, nd) \<in> set (dir_children fs q). seg_ok n"
  shows "distinct (dir_entry xs # map (child_entry xs) (dir_children fs q))"
proof -
  have one: "nd = nd'" if "(n, nd) \<in> set (dir_children fs q)" "(n, nd') \<in> set (dir_children fs q)" for n nd nd'
    using that dir_children_set(1) [OF assms(1), of q] by auto
  have "inj_on (child_entry xs) (set (dir_children fs q))"
  proof (rule inj_onI)
    fix a b assume ab: "a \<in> set (dir_children fs q)" "b \<in> set (dir_children fs q)" "child_entry xs a = child_entry xs b"
    then have "seg_ok (fst a)" "seg_ok (fst b)" using assms(3) by (auto simp: split_beta)
    then have "fst a = fst b" using child_entry_inj [OF assms(2), of "fst a" "fst b" "snd a" "snd b"] ab(3) by simp
    with ab(1,2) one [of "fst a" "snd a" "snd b"] show "a = b" by (metis prod.collapse)
  qed
  moreover have "dir_entry xs \<noteq> child_entry xs (n, nd)" if "(n, nd) \<in> set (dir_children fs q)" for n nd
  proof
    assume eq: "dir_entry xs = child_entry xs (n, nd)"
    have s: "segments (xs @ [n])" using assms(2,3) that by (auto simp: segments_def seg_ok_def list_all_iff)
    have "path_split (dir_path xs) = xs"
      using path_split_path_of [of xs True] s by (cases "xs = []") (auto simp: dir_path_def slash_def path_split_def)
    moreover have "path_split (oe_path (child_entry xs (n, nd))) = xs @ [n]"
      using path_split_path_of [OF _ s] by (simp add: child_entry_def)
    ultimately show False using eq by (simp add: dir_entry_def flip: eq)
  qed
  ultimately show ?thesis using dir_children_set(2) [OF assms(1)] by (auto simp: distinct_map)
qed

lemma layered_list_dir:
  assumes "\<not> cap_list_with_recursive (ai_full_capability (ac_info ac))" "\<not> lo_recursive args" "ends_with path CHR ''/''"
    and "ac_list ac path args w = (r, w')"
  shows "case r of Ok l \<Rightarrow> \<exists>x. ac_list (default_layers blk ac) path args w = (Ok (LOne x), w') \<and> ecw_inner x = l \<and> ecw_processed x = 0
    | Err e \<Rightarrow> \<exists>e'. ac_list (default_layers blk ac) path args w = (Err e', w')
    | Panic \<Rightarrow> ac_list (default_layers blk ac) path args w = (Panic, w')"
  using assms
  by (cases r) (auto simp: default_layers_def correctness_check_def complete_layer_def complete_list_def error_context_layer_def
      ec_call_def ecw_new_def Let_def)

subsection \<open>Properties\<close>



text \<open>
  Behind the retry layer a listing may lose entries without an error. The call of \<^verbatim>\<open>readdir\<close> fails for a moment, the layer asks again, and the iterator, which is at its end since the
  error, reports the end of the directory.
\<close>

lemma fs_retry_list_loses:
  "map_option (map_outcome id (map oe_path) \<circ> fst)
     (op_list_with False (retry_layer False (backon_n 3) (fs_access demo_executor demo_uuid demo_info (demo_core False))) ''/'' op_list_default
       (demo_world [Fine, Fault ebusy])) = Some (Ok [''/''])"
  "map_option (map_outcome id (map oe_path) \<circ> fst)
     (op_list_with False (retry_layer False (backon_n 3) (fs_access demo_executor demo_uuid demo_info (demo_core False))) ''/'' op_list_default
       (demo_world [])) = Some (Ok [''/'', ''f''])"
  by code_simp+

end
