(* ===== verification/Spec2Isabelle.thy ===== *)
theory Spec2Isabelle
  imports Paths Ranges Buffers Queues Tasks Writers WriteGen Listers Deleters Readers Adapters
    Accessors KvStores Layers Retry Sinks Operators Memory PathCache Limits Logging Schemes
    Http Multiparts S3 S3Reads S3Writes S3Lists S3Config FileSystem Fs FsWrites FsService FsReads FsLists
begin

text \<open>
  A verification development for the core of Apache OpenDAL, the crate under \<^verbatim>\<open>src/core/src\<close>. OpenDAL gives one
  interface, the \<open>Operator\<close>, to many storage services. All paths below are relative to \<^verbatim>\<open>src/core/src\<close>.

  \<^bold>\<open>The program.\<close> A service implements the trait \<open>Access\<close> (\<^verbatim>\<open>raw/accessor.rs\<close>): stat, read, write, delete, list, copy,
  rename, create_dir and presign, each with a record of options. Most services do so through the adapters of \<^verbatim>\<open>raw/oio\<close>, which turn small
  primitives (upload a part, list a page, delete a batch) into readers, writers, listers and deleters, or through
  a key-value adapter (\<^verbatim>\<open>raw/adapters\<close>). Layers (\<^verbatim>\<open>layers\<close>) wrap an accessor in another one; \<open>OperatorBuilder::finish\<close> puts
  the error context, completion, and correctness check around every service, and the user adds retries, timeouts and limits. On top, \<open>Operator\<close>
  (\<^verbatim>\<open>types/operator\<close>) normalizes and checks paths, and the readers and writers of \<^verbatim>\<open>types\<close> cut ranges into requests that run concurrently, regroup
  what is written into chunks, and adapt all of this to the traits of \<^verbatim>\<open>futures\<close> and \<^verbatim>\<open>std::io\<close>.

  \<^bold>\<open>How Rust becomes HOL.\<close> A call that may fail or panic has the type \<open>('e, 'a) outcome\<close> with \<open>Ok\<close>, \<open>Err\<close> and \<open>Panic\<close> (theory \<open>Prelude\<close>).
  The model follows the debug profile, so a failing \<open>debug_assert!\<close> and an overflow of checked arithmetic are panics; \<open>usize\<close> is \<open>nat\<close>, and \<open>u64\<close> is a
  64-bit word with \<open>u64_add\<close> and \<open>u64_sub\<close> where the code computes on it. State is passed explicitly: an operation takes the value behind \<open>&mut self\<close> and the world
  of the service, and returns both. Traits are records of operations with a type variable for the world; their contracts are locales, interpreted on the operations
  of the code. A loop that need not end is a \<open>partial_function (option)\<close>, where \<open>None\<close> says that it never returns; theorems then show \<open>Some\<close>.
  Asynchronous calls are calls: what a concurrent execution may reorder (which spawned task is ready, whether a deadline passes first) is chosen by a parameter or by the
  world, so that a theorem about all worlds is a theorem about all schedules.

  \<^bold>\<open>Foundations.\<close>
  \<^item> \<open>Errors\<close>: \<^verbatim>\<open>types/error.rs\<close>, \<^verbatim>\<open>raw/std_io_util.rs\<close>.
  \<^item> \<open>Paths\<close>: \<^verbatim>\<open>raw/path.rs\<close>. Normal forms are fixed points, \<open>build_abs_path\<close> and \<open>build_rel_path\<close> are inverse to each other, the panicking cases are exact.
  \<^item> \<open>Ranges\<close>: \<^verbatim>\<open>raw/http_util/bytes_range.rs\<close> and \<^verbatim>\<open>bytes_content_range.rs\<close>, printing and parsing headers.
  \<^item> \<open>Buffers\<close>, \<open>Queues\<close>: \<^verbatim>\<open>types/buffer.rs\<close> and \<^verbatim>\<open>raw/oio/buf\<close>; each operation refines the operation on byte lists.
  \<^item> \<open>Tasks\<close>: \<^verbatim>\<open>raw/futures_util.rs\<close>. Results come in the order of submission, and a failed task is submitted again.

  \<^bold>\<open>From primitives to streams.\<close>
  \<^item> \<open>Writers\<close>: multipart, block, position, append and one-shot writers of \<^verbatim>\<open>raw/oio/write\<close>: what they commit is what was written, in order.
  \<^item> \<open>WriteGen\<close>: \<^verbatim>\<open>types/context/write.rs\<close>, the regrouping into chunks. \<open>Sinks\<close>: the \<open>Sink\<close>, \<open>AsyncWrite\<close> and \<open>std::io::Write\<close> adapters and their state machines.
  \<^item> \<open>Listers\<close>, \<open>Deleters\<close>: \<^verbatim>\<open>raw/oio/list\<close>, \<^verbatim>\<open>raw/oio/delete\<close>, \<^verbatim>\<open>types/delete\<close> and \<^verbatim>\<open>layers/immutable_index.rs\<close>: complete listings, flat listings of trees bottom up, deletion in batches.
  \<^item> \<open>Readers\<close>, \<open>Adapters\<close>: \<^verbatim>\<open>types/context/read.rs\<close>, \<^verbatim>\<open>types/read\<close>, \<^verbatim>\<open>types/blocking_read\<close>: a read returns exactly the bytes of its range for every chunk size and concurrency.

  \<^bold>\<open>Accessors, layers, operator.\<close>
  \<^item> \<open>Accessors\<close>: \<^verbatim>\<open>raw/accessor.rs\<close>, \<^verbatim>\<open>raw/ops.rs\<close>, \<^verbatim>\<open>raw/operation.rs\<close>, \<^verbatim>\<open>types/capability.rs\<close>.
  \<^item> \<open>Layers\<close>: \<^verbatim>\<open>layers/correctness_check.rs\<close>, \<^verbatim>\<open>capability_check.rs\<close>, \<^verbatim>\<open>complete.rs\<close>, \<^verbatim>\<open>error_context.rs\<close>, \<^verbatim>\<open>mime_guess.rs\<close>, with the contract of a writer carried through all of them.
  \<^item> \<open>Retry\<close>: \<^verbatim>\<open>layers/retry.rs\<close>; its reader continues a broken read without losing or repeating bytes. \<open>Limits\<close>: \<^verbatim>\<open>timeout.rs\<close>, \<^verbatim>\<open>chaos.rs\<close>, \<^verbatim>\<open>throttle.rs\<close>, \<^verbatim>\<open>concurrent_limit.rs\<close>.
  \<open>Logging\<close>: \<^verbatim>\<open>logging.rs\<close>; it is transparent, and its events come in pairs.
  \<^item> \<open>Operators\<close>: \<^verbatim>\<open>types/operator/operator.rs\<close>, \<^verbatim>\<open>blocking_operator.rs\<close>, \<^verbatim>\<open>types/list.rs\<close>.
  \<^item> \<open>Schemes\<close>: \<^verbatim>\<open>types/scheme.rs\<close>, the names of the services.

  \<^bold>\<open>Services.\<close>
  \<^item> \<open>KvStores\<close>, \<open>Memory\<close>: \<^verbatim>\<open>raw/adapters\<close> and \<^verbatim>\<open>services/memory\<close>; the whole stack from the operator to the map is composed in \<open>Memory\<close> and below in this theory. The flat keys form a tree,
  listings and \<open>remove_all\<close> are exact.
  \<^item> \<open>PathCache\<close>: \<^verbatim>\<open>raw/path_cache.rs\<close>.
  \<^item> \<open>Http\<close>, \<open>Multiparts\<close>: \<^verbatim>\<open>raw/http_util\<close>: encoding, headers, the client and its length check, messages of several parts.
  \<^item> \<open>S3\<close> with \<open>S3Reads\<close>, \<open>S3Writes\<close>, \<open>S3Lists\<close>, \<open>S3Config\<close>: \<^verbatim>\<open>services/s3\<close>. Objects over broken connections, uploads whose requests fail and are repeated, complete listings, metadata, endpoints and regions.
  \<^item> \<open>FileSystem\<close>: what the service below uses of \<^verbatim>\<open>std::path\<close> and \<^verbatim>\<open>std::fs\<close>: a tree of files and directories with open handles, where a script says which call fails and which read or write
  is short. \<open>Fs\<close> with \<open>FsWrites\<close>, \<open>FsService\<close>, \<open>FsReads\<close> and \<open>FsLists\<close>: \<^verbatim>\<open>services/fs\<close>. Files are written exactly through the position writer and its tasks, atomically with a directory for temporary files, and
  appended to exactly; reads behind the retry layer and listings are exact, and the other operations refine a map of files.

  \<^bold>\<open>Bounds and fuel.\<close> Almost no definition takes fuel: recursion is structural or has a measure, and divergence is a value. The exceptions are the retry loop, whose number of attempts is the
  parameter of the back-off, and the number of times a task may be submitted again, which is a hypothesis on the world where a theorem promises success. \<open>context_ops 2\<close> is the accessor a
  reader uses, opened with two levels of the enum reader; the number is the depth of the types in \<^verbatim>\<open>complete.rs\<close>. Lengths are bounded by \<open>u64_max\<close> where the code computes with 64-bit numbers.

  \<^bold>\<open>Parameters.\<close> Code that is not part of the repository is an argument: the back-off and retry loop of backon, deadlines of tokio, random numbers, the rate limiter of governor, the
  cache of moka and the lookups of the service behind the path cache, mime_guess, the order of a hash map, the wake-ups of futures, percent_encoding, http, reqwest, reqsign, quick_xml, chrono, url, uuid, md5 and base64.
  What a theorem needs of them is a named hypothesis and stands in its statement; the witness instantiates it.

  \<^bold>\<open>Not modelled.\<close>
  \<^item> The other services under \<^verbatim>\<open>services\<close>: they repeat the structure of the modelled ones over other protocols, or forward to a client library.
  \<^item> Spans and metrics (\<^verbatim>\<open>layers/tracing.rs\<close>, \<^verbatim>\<open>layers/observe\<close> and others): they forward calls and call third-party collectors.
  \<^item> \<^verbatim>\<open>layers/blocking.rs\<close>, \<^verbatim>\<open>types/execute\<close>: they run futures on a runtime. \<^verbatim>\<open>types/operator/operator_futures.rs\<close>: builders that store options and call the functions of the operator.
  \<^item> \<open>Debug\<close> output, backtraces, allocation, wall-clock time; presigning outside S3.
  \<^item> Bindings, integrations and binaries outside \<^verbatim>\<open>src/core\<close>.
\<close>

subsection \<open>Properties\<close>

text \<open>
  C16. What was written is read back. On a memory operator with its default layers, let a user
  write buffers to a file through the generator, with whatever chunk size, and let the
  writes and the close succeed. Then every read of a range inside the data, with whatever
  reader options, returns exactly the bytes of that range of the concatenated buffers,
  \<open>stat\<close> gives their length, and no other key of the store has changed.
\<close>

theorem memory_operator_roundtrip:
  assumes "bt_ok m" "normalized_path path" "\<not> ends_with path CHR ''/''"
    and "list_all buf_wf bs" "length (log_bytes bs) \<le> u64_max" "exact \<longrightarrow> chunk_size \<noteq> Some 0"
    and "op = default_layers blk (memory_access name root)"
    and "ac_write op path op_write_default m = (Ok wr, m0)"
    and "writer_write_list (writer_writes op) bs (wg_create (wr, m0) (chunk_size, exact)) = Some (Ok (), g)"
    and "wg_close (writer_writes op) (writer_closes op) g = (Ok (), g')"
    and "bounds_range sb eb (length (log_bytes bs)) = Some (s, e)" "e \<le> length (log_bytes bs)"
    and "0 < or_concurrent opts" "or_chunk opts \<noteq> Some 0"
  shows "\<exists>b md. reader_read (context_ops 2 op path op_read_default (snd (wg_w g'))) opts sb eb () = Some (Ok b, ())
    \<and> buf_bytes b = take (e - s) (drop s (log_bytes bs))
    \<and> ac_stat op path op_stat_default (snd (wg_w g')) = Some (Ok md, snd (wg_w g'))
    \<and> content_length md = of_nat (length (log_bytes bs))
    \<and> (\<forall>k. k \<noteq> kv_key (memory_root root) path \<longrightarrow> map_of (snd (wg_w g')) k = map_of m k)"
proof -
  define r where "r = memory_root root"
  have r: "normalized_root r" "memory_access name root = tk_access mem_adapter ''memory'' name mem_capability r"
    using memory_access_root by (simp_all add: r_def)
  let ?ac = "tk_access mem_adapter ''memory'' name mem_capability r" and ?k = "kv_key r path"
  have op: "op = default_layers blk ?ac" using assms(7) r(2) by simp
  have slash: "path \<noteq> slash" using assms(3) by (auto simp: slash_def ends_with_def)
  let ?keeps = "tw_holds ?k op_write_default m" and ?com = "tw_committed mem_adapter ?k op_write_default m"
  have w: "oio_write (writer_writes op) (writer_closes op) (\<lambda>log (st, w). \<exists>x. st = Some x \<and> ?keeps log (ecw_inner x, w))
      (\<lambda>log (st, w). \<exists>x :: tk_writer ec_wrapper. ?com log (ecw_inner x, w))"
    unfolding op by (rule default_layers_writer, unfold tk_access_writer, rule tkw.oio_write_axioms)
  from layered_writer_starts [OF r(1) assms(2), of blk mem_adapter] assms(8) op
  have st: "m0 = m" "\<exists>x. wr = Some x \<and> ?keeps [] (ecw_inner x, m0)" by blast+
  obtain rr gg where "writer_write_list (writer_writes op) bs (wg_create (wr, m0) (chunk_size, exact)) = Some (rr, gg)"
    "\<forall>g'. rr = Ok () \<and> wg_close (writer_writes op) (writer_closes op) gg = (Ok (), g')
       \<longrightarrow> wg_done (\<lambda>log (st, w). \<exists>x :: tk_writer ec_wrapper. ?com log (ecw_inner x, w)) chunk_size exact (log_bytes bs) (wg_w g')"
    using chunked_write_done [OF w _ assms(4,6), of "(wr, m0)"] st by auto
  with assms(9,10) have "wg_done (\<lambda>log (st, w). \<exists>x :: tk_writer ec_wrapper. ?com log (ecw_inner x, w))
      chunk_size exact (log_bytes bs) (wg_w g')" by auto
  then obtain log and x :: "tk_writer ec_wrapper" where log: "?com log (ecw_inner x, snd (wg_w g'))" "list_all buf_wf log" "log_bytes log = log_bytes bs"
    by (cases "wg_w g'") (auto simp: wg_done_def)
  define m1 where "m1 = snd (wg_w g')"
  from memory_committed [OF assms(1) log(1,2)] obtain v where v: "bt_ok m1" "map_of m1 = (map_of m)(?k \<mapsto> v)"
    "value_of op_write_default (log_bytes bs) v"
    using log(3) by (auto simp: log_bytes_def m1_def)
  have vk: "map_of m1 ?k = Some v" using v(2) by simp
  have acc: "accessor (context_ops 2 op path op_read_default m1) (log_bytes bs) False False"
    unfolding op by (rule memory_serves [OF v(1) r(1) assms(2,3) vk v(3) assms(5)])
  from accessor.reader_read_cases [OF acc assms(11,13,14), of "()"] obtain rr where
    rr: "reader_read (context_ops 2 op path op_read_default m1) opts sb eb () = Some (rr, ())"
    "case rr of Ok b \<Rightarrow> solid False b \<and> buf_bytes b = take (e - s) (drop s (log_bytes bs))
       | Err err \<Rightarrow> False | Panic \<Rightarrow> length (log_bytes bs) < e" by auto
  with assms(12) obtain b where
    b: "reader_read (context_ops 2 op path op_read_default m1) opts sb eb () = Some (Ok b, ())"
    "buf_bytes b = take (e - s) (drop s (log_bytes bs))"
    by (cases rr) auto
  have "ac_stat ?ac path op_stat_default m1 = Some (Ok (kv_metadata v), m1)"
    using vk r(1) assms(2) slash normalized_path_nonempty [OF assms(2)]
    by (simp add: tk_access_def tk_stat_def kv_stat_def build_abs_path_key build_abs_path_empty mem_adapter_def
        mem_get_def kv_key_def)
  then have "ac_stat op path op_stat_default m1 = Some (Ok (kv_metadata v), m1)"
    unfolding op default_stat_file [OF assms(3)] by (simp add: ec_call_def)
  with b v(2) value_content_length [OF v(3)] show ?thesis unfolding m1_def r_def by auto
qed

theorem memory_operator_roundtrip_witness:
  "\<exists>m b. buf_bytes b = [2, 3]
    \<and> reader_read (context_ops 2 (default_layers False (memory_access ''0x0'' None)) ''f'' op_read_default m)
        \<lparr>or_concurrent = 2, or_chunk = Some 1, or_gap = None\<rparr> (Included 1) Unbounded () = Some (Ok b, ())"
proof -
  let ?op = "default_layers False (memory_access ''0x0'' None)"
  let ?bs = "[Contiguous [1, 2], Contiguous [3]]"
  let ?x = "ecw_new ''memory'' ''f'' (tw_new ''f'' op_write_default)"
  note evals = writer_write.simps wg_write_def wg_create_def wg_fill_def wg_flush_def layered_writer_write
    usize_sub_def guard_def queue_new_def queue_push_def queue_take_def queue_collect_def queue_len_def queue_is_empty_def
    buf_truncate_def buf_len_def buf_is_empty_def buf_advance_def ecw_new_def tw_new_def u64_max_def
  have wr: "ac_write ?op ''f'' op_write_default [] = (Ok (Some ?x), [])" by code_simp
  obtain g x where g: "writer_write_list (writer_writes ?op) ?bs (wg_create (Some ?x, []) (Some 2, True)) = Some (Ok (), g)"
    "wg_w g = (Some x, [])" "wg_buffer g = [Contiguous [3]]" "ecw_processed x = 2"
    "ecw_inner x = (tw_new ''f'' op_write_default)\<lparr>tw_buf := Some [Contiguous [1, 2]]\<rparr>"
    unfolding memory_access_root(2) by (simp add: evals)
  have c: "case tw_close mem_adapter ((tw_new ''f'' op_write_default)\<lparr>tw_buf := Some [Contiguous [1, 2], Contiguous [3]]\<rparr>) []
    of (r, y, w') \<Rightarrow> r = Ok ()" by code_simp
  then obtain y w' where c: "tw_close mem_adapter ((tw_new ''f'' op_write_default)
    \<lparr>tw_buf := Some [Contiguous [1, 2], Contiguous [3]]\<rparr>) [] = (Ok (), y, w')" by (auto split: prod.splits)
  have "unat (2 :: u64) = 2" by simp
  with g(2-) c obtain g' where g': "wg_close (writer_writes ?op) (writer_closes ?op) g = (Ok (), g')"
    unfolding memory_access_root(2) by (simp add: wg_close.simps layered_writer_close evals)
  have p: "normalized_path ''f''" "\<not> ends_with ''f'' CHR ''/''"
    using normalized_path_path_of [of "[''f'']" False] by (simp_all add: ends_with_def)
  have b: "bounds_range (Included 1) Unbounded (length (log_bytes ?bs)) = Some (1, 3)"
    by (simp add: bounds_range_def log_bytes_def u64_max_def)
  from memory_operator_roundtrip [OF bt_ok_Nil p _ _ _ refl wr g(1) g' b, of "\<lparr>or_concurrent = 2, or_chunk = Some 1, or_gap = None\<rparr>"]
  obtain x where "reader_read (context_ops 2 ?op ''f'' op_read_default (snd (wg_w g')))
        \<lparr>or_concurrent = 2, or_chunk = Some 1, or_gap = None\<rparr> (Included 1) Unbounded () = Some (Ok x, ())"
    "buf_bytes x = take (3 - 1) (drop 1 (log_bytes ?bs))"
    by (auto simp: log_bytes_def u64_max_def)
  moreover have "take (3 - 1) (drop 1 (log_bytes ?bs)) = [2, 3]" by (simp add: log_bytes_def)
  ultimately show ?thesis by metis
qed

end
